(* ===== verification/Prelude.thy ===== *)
theory Prelude
  imports Main "HOL-Library.Word" "HOL-Library.List_Lexorder"
begin

text \<open>
  Shared vocabulary of the development: machine integers and byte strings, the three-way
  \<open>Ordering\<close> of the Rust standard library, \<open>Result\<close> values as sums with their propagation
  operator, the fixed-width integer encodings \<open>to_le_bytes\<close> / \<open>to_be_bytes\<close> and their
  inverses, and the slice searches \<open>partition_point\<close> and \<open>binary_search_by\<close>.
\<close>

unbundle bit_operations_syntax

section \<open>Types\<close>

type_synonym u8 = "8 word"
type_synonym u16 = "16 word"
type_synonym u32 = "32 word"
type_synonym u64 = "64 word"
type_synonym i64 = "64 word"
type_synonym bytes = "8 word list"

named_theorems res_simps \<open>unfolding of result propagation\<close>
named_theorems codec_simps \<open>round trips of byte-level fields\<close>

section \<open>Three-way comparison\<close>

datatype Ordering = Less | Equal | Greater

definition cmp :: "'a::linorder \<Rightarrow> 'a \<Rightarrow> Ordering" where
  "cmp a b = (if a < b then Less else if a = b then Equal else Greater)"

fun reverse_ord :: "Ordering \<Rightarrow> Ordering" where
  "reverse_ord Less = Greater"
| "reverse_ord Equal = Equal"
| "reverse_ord Greater = Less"

text \<open>Lexicographic comparison of slices (\<open>impl Ord for [T]\<close>): the first unequal position
  decides, and a proper prefix is smaller.\<close>

fun cmp_slice :: "('a \<Rightarrow> 'a \<Rightarrow> Ordering) \<Rightarrow> 'a list \<Rightarrow> 'a list \<Rightarrow> Ordering" where
  "cmp_slice c [] [] = Equal"
| "cmp_slice c [] (y # ys) = Less"
| "cmp_slice c (x # xs) [] = Greater"
| "cmp_slice c (x # xs) (y # ys) =
     (case c x y of Equal \<Rightarrow> cmp_slice c xs ys | r \<Rightarrow> r)"

section \<open>Results\<close>

text \<open>\<open>Result<T, E>\<close> is \<open>'e + 'a\<close> with the error on the left; \<open>and_then\<close> is the
  propagation written \<open>?\<close> in the source.\<close>

definition and_then :: "'e + 'a \<Rightarrow> ('a \<Rightarrow> 'e + 'b) \<Rightarrow> 'e + 'b" where
  "and_then r f = (case r of Inl e \<Rightarrow> Inl e | Inr x \<Rightarrow> f x)"

definition map_err :: "('e \<Rightarrow> 'f) \<Rightarrow> 'e + 'a \<Rightarrow> 'f + 'a" where
  "map_err g r = (case r of Inl e \<Rightarrow> Inl (g e) | Inr x \<Rightarrow> Inr x)"

definition ok_or :: "'e \<Rightarrow> 'a option \<Rightarrow> 'e + 'a" where
  "ok_or e r = (case r of None \<Rightarrow> Inl e | Some x \<Rightarrow> Inr x)"

section \<open>Integer encodings\<close>

fun to_le_bytes :: "nat \<Rightarrow> 'a::len word \<Rightarrow> bytes" where
  "to_le_bytes 0 w = []"
| "to_le_bytes (Suc n) w = ucast w # to_le_bytes n (drop_bit 8 w)"

fun from_le_bytes :: "bytes \<Rightarrow> 'a::len word" where
  "from_le_bytes [] = 0"
| "from_le_bytes (b # bs) = ucast b OR push_bit 8 (from_le_bytes bs)"

definition to_be_bytes :: "nat \<Rightarrow> 'a::len word \<Rightarrow> bytes" where
  "to_be_bytes n w = rev (to_le_bytes n w)"

definition from_be_bytes :: "bytes \<Rightarrow> 'a::len word" where
  "from_be_bytes bs = from_le_bytes (rev bs)"

section \<open>Bounded reads\<close>

text \<open>Every byte reader of the engine takes a prefix of what is left or fails with its own
  truncation error (\<open>Reader::take\<close>).\<close>

definition take_n :: "'e \<Rightarrow> nat \<Rightarrow> bytes \<Rightarrow> 'e + (bytes \<times> bytes)" where
  "take_n e n rest = (if length rest < n then Inl e else Inr (take n rest, drop n rest))"

section \<open>Slice searches\<close>

text \<open>\<open>partition_point\<close> on a slice partitioned by the predicate, and \<open>binary_search_by\<close> on a
  strictly ascending slice: \<open>Inr i\<close> for a hit at \<open>i\<close>, \<open>Inl i\<close> for the insertion point.\<close>

definition partition_point :: "('a \<Rightarrow> bool) \<Rightarrow> 'a list \<Rightarrow> nat" where
  "partition_point P xs = length (takeWhile P xs)"

definition binary_search :: "'a::linorder list \<Rightarrow> 'a \<Rightarrow> nat + nat" where
  "binary_search xs k =
     (let i = partition_point (\<lambda>x. x < k) xs
      in if i < length xs \<and> xs ! i = k then Inr i else Inl i)"

definition list_insert :: "nat \<Rightarrow> 'a \<Rightarrow> 'a list \<Rightarrow> 'a list" where
  "list_insert i x xs = take i xs @ x # drop i xs"

definition list_remove :: "nat \<Rightarrow> 'a list \<Rightarrow> 'a list" where
  "list_remove i xs = take i xs @ drop (Suc i) xs"

text \<open>\<open>slice.get(i)\<close> and \<open>iter().position(p)\<close>.\<close>

definition get_at :: "'a list \<Rightarrow> nat \<Rightarrow> 'a option" where
  "get_at xs i = (if i < length xs then Some (xs ! i) else None)"

fun position :: "('a \<Rightarrow> bool) \<Rightarrow> 'a list \<Rightarrow> nat option" where
  "position P [] = None"
| "position P (x # xs) = (if P x then Some 0 else map_option Suc (position P xs))"

text \<open>The bytes of an ASCII string literal.\<close>

definition str_bytes :: "string \<Rightarrow> bytes" where
  "str_bytes s = map (\<lambda>c. of_nat (of_char c)) s"

text \<open>A range of a buffer, and \<open>copy_from_slice\<close> into a range of it.\<close>

definition subslice :: "nat \<Rightarrow> nat \<Rightarrow> bytes \<Rightarrow> bytes" where
  "subslice at n frame = take n (drop at frame)"

definition splice :: "nat \<Rightarrow> bytes \<Rightarrow> bytes \<Rightarrow> bytes" where
  "splice at xs frame = take at frame @ xs @ drop (at + length xs) frame"

section \<open>Lemmas on comparison\<close>

lemma cmp_eqs [simp]:
  "cmp a b = Less \<longleftrightarrow> a < b"
  "cmp a b = Equal \<longleftrightarrow> a = b"
  "cmp a b = Greater \<longleftrightarrow> b < a"
  by (auto simp: cmp_def)

lemma cmp_refl [simp]: "cmp a a = Equal"
  by simp

lemma reverse_ord_simps [simp]:
  "reverse_ord (reverse_ord r) = r"
  "reverse_ord r = Less \<longleftrightarrow> r = Greater" "Less = reverse_ord r \<longleftrightarrow> r = Greater"
  "reverse_ord r = Equal \<longleftrightarrow> r = Equal" "Equal = reverse_ord r \<longleftrightarrow> r = Equal"
  "reverse_ord r = Greater \<longleftrightarrow> r = Less" "Greater = reverse_ord r \<longleftrightarrow> r = Less"
  "reverse_ord r = reverse_ord q \<longleftrightarrow> r = q"
  by (cases r; cases q; simp)+

lemma cmp_rev: "cmp b a = reverse_ord (cmp a b)"
  by (auto simp: cmp_def)

lemma cmp_slice_cmp: "cmp_slice cmp xs ys = cmp xs (ys :: 'a::linorder list)"
proof (induction "cmp :: 'a \<Rightarrow> 'a \<Rightarrow> Ordering" xs ys rule: cmp_slice.induct)
  case (4 x xs y ys)
  then show ?case
    by (cases "cmp x y") (auto simp: cmp_def split: if_splits)
qed (simp_all add: cmp_def)

lemma cmp_mono_eq:
  assumes "\<And>x y. f x < f y \<longleftrightarrow> x < y"
  shows "cmp (f a) (f b) = cmp a (b :: 'a::linorder)"
proof -
  have "f a = f b \<longleftrightarrow> a = b"
    using assms [of a b] assms [of b a] by (metis less_irrefl linorder_neqE)
  then show ?thesis using assms by (simp add: cmp_def)
qed

text \<open>A common prefix does not affect the comparison.\<close>

lemma cmp_append_same [simp]: "cmp (p @ xs) (p @ ys) = cmp xs (ys :: 'a::linorder list)"
  by (induction p) (auto simp: cmp_def split: if_splits)

lemma less_append_same [simp]: "p @ xs < p @ ys \<longleftrightarrow> xs < (ys :: 'a::linorder list)"
  using cmp_append_same [of p xs ys] by (metis cmp_eqs(1))

lemma cmp_Cons: "cmp (x # xs) (y # ys) =
    (case cmp x y of Equal \<Rightarrow> cmp xs (ys :: 'a::linorder list) | r \<Rightarrow> r)"
  by (auto simp: cmp_def)

lemma cmp_Nil [simp]:
  "cmp [] (y # ys) = Less" "cmp (x # xs) [] = Greater" "cmp [] ([] :: 'a::linorder list) = Equal"
  by (simp_all add: cmp_def)

lemma less_append_same_length:
  "length xs = length ys \<Longrightarrow> xs \<noteq> ys \<Longrightarrow>
     xs @ us < ys @ vs \<longleftrightarrow> xs < (ys :: 'a::linorder list)"
  by (induction xs ys rule: list_induct2) auto

lemma cmp_append_same_length:
  assumes "length xs = length (ys :: 'a::linorder list)"
  shows "cmp (xs @ us) (ys @ vs) = (case cmp xs ys of Equal \<Rightarrow> cmp us vs | r \<Rightarrow> r)"
  using assms
  by (induction xs ys rule: list_induct2) (auto simp: cmp_Cons split: Ordering.split)

section \<open>Lemmas on results\<close>

lemma and_then_simps [simp, res_simps]:
  "and_then (Inl e) f = Inl e"
  "and_then (Inr x) f = f x"
  by (simp_all add: and_then_def)

lemma map_err_simps [simp, res_simps]:
  "map_err g (Inl e) = Inl (g e)"
  "map_err g (Inr x) = Inr x"
  by (simp_all add: map_err_def)

lemma ok_or_simps [simp, res_simps]:
  "ok_or e None = Inl e"
  "ok_or e (Some x) = Inr x"
  by (simp_all add: ok_or_def)

lemma and_then_Inr: "and_then r f = Inr y \<longleftrightarrow> (\<exists>x. r = Inr x \<and> f x = Inr y)"
  by (cases r) auto

lemma and_then_InrE [elim!]:
  assumes "and_then r f = Inr y"
  obtains x where "r = Inr x" "f x = Inr y"
  using assms by (cases r) auto

lemma map_err_Inr [simp]: "map_err g r = Inr x \<longleftrightarrow> r = Inr x"
  by (cases r) auto

lemma ok_or_Inr [simp]: "ok_or e r = Inr x \<longleftrightarrow> r = Some x"
  by (cases r) auto

lemma and_then_cong [fundef_cong]:
  "r = r' \<Longrightarrow> (\<And>x. r' = Inr x \<Longrightarrow> f x = g x) \<Longrightarrow> and_then r f = and_then r' g"
  by (cases r) auto

text \<open>\<open>for x in xs { f(x)?; }\<close> without state, the same loop over \<open>enumerate()\<close> with the slice
  before the element, and \<open>iter().map(f).collect::<Result<Vec<_>>>()\<close>.\<close>

definition ensure :: "bool \<Rightarrow> 'e \<Rightarrow> 'e + unit" where
  "ensure b e = (if b then Inr () else Inl e)"

fun each :: "('a \<Rightarrow> 'e + unit) \<Rightarrow> 'a list \<Rightarrow> 'e + unit" where
  "each f [] = Inr ()"
| "each f (x # xs) = and_then (f x) (\<lambda>_. each f xs)"

fun each_after :: "('a list \<Rightarrow> 'a \<Rightarrow> 'e + unit) \<Rightarrow> 'a list \<Rightarrow> 'a list \<Rightarrow> 'e + unit" where
  "each_after f seen [] = Inr ()"
| "each_after f seen (x # xs) = and_then (f seen x) (\<lambda>_. each_after f (seen @ [x]) xs)"

fun collect_res :: "('a \<Rightarrow> 'e + 'b) \<Rightarrow> 'a list \<Rightarrow> 'e + 'b list" where
  "collect_res f [] = Inr []"
| "collect_res f (x # xs) = and_then (f x) (\<lambda>y. and_then (collect_res f xs) (\<lambda>ys. Inr (y # ys)))"

lemma ensure_Inr [simp]: "ensure b e = Inr () \<longleftrightarrow> b"
  by (simp add: ensure_def)

lemma and_then_unit: "and_then r f = Inr u \<longleftrightarrow> r = Inr () \<and> f () = Inr u" for r :: "'e + unit"
  by (cases r) auto

lemma each_Inr: "each f xs = Inr () \<longleftrightarrow> (\<forall>x \<in> set xs. f x = Inr ())"
  by (induction xs) (auto simp: and_then_unit)

lemma each_after_Inr:
  "each_after f seen xs = Inr () \<longleftrightarrow> (\<forall>i < length xs. f (seen @ take i xs) (xs ! i) = Inr ())"
proof (induction xs arbitrary: seen)
  case (Cons x xs)
  show ?case by (auto simp: and_then_unit Cons.IH All_less_Suc2)
qed simp

lemma collect_res_Inr: "collect_res f xs = Inr ys \<longleftrightarrow> list_all2 (\<lambda>x y. f x = Inr y) xs ys"
  by (induction xs arbitrary: ys) (auto simp: and_then_Inr list_all2_Cons1)

lemma collect_res_cong [fundef_cong]:
  "xs = ys \<Longrightarrow> (\<And>x. x \<in> set ys \<Longrightarrow> f x = g x) \<Longrightarrow> collect_res f xs = collect_res g ys"
  by (induction xs arbitrary: ys) auto

lemma each_cong [fundef_cong]:
  "xs = ys \<Longrightarrow> (\<And>x. x \<in> set ys \<Longrightarrow> f x = g x) \<Longrightarrow> each f xs = each g ys"
  by (induction xs arbitrary: ys) auto

lemma get_at_Some [simp]: "get_at xs i = Some x \<longleftrightarrow> i < length xs \<and> xs ! i = x"
  by (auto simp: get_at_def)

lemma get_at_None [simp]: "get_at xs i = None \<longleftrightarrow> length xs \<le> i"
  by (auto simp: get_at_def)

lemma position_Some:
  "position P xs = Some i \<longleftrightarrow> i < length xs \<and> P (xs ! i) \<and> (\<forall>j < i. \<not> P (xs ! j))"
proof (induction xs arbitrary: i)
  case (Cons x xs)
  then show ?case by (cases i) (auto simp: All_less_Suc2)
qed simp

lemma position_None: "position P xs = None \<longleftrightarrow> (\<forall>x \<in> set xs. \<not> P x)"
  by (induction xs) auto

lemma distinct_take: "distinct xs \<longleftrightarrow> (\<forall>i < length xs. xs ! i \<notin> set (take i xs))"
proof (induction xs rule: rev_induct)
  case (snoc x xs)
  have "(\<forall>i < length (xs @ [x]). (xs @ [x]) ! i \<notin> set (take i (xs @ [x]))) \<longleftrightarrow>
      (\<forall>i < length xs. xs ! i \<notin> set (take i xs)) \<and> x \<notin> set xs"
    by (auto simp: less_Suc_eq nth_append)
  then show ?case using snoc by auto
qed simp

section \<open>Lemmas on bounded reads\<close>

lemma take_n_append [simp, codec_simps]: "n = length x \<Longrightarrow> take_n e n (x @ s) = Inr (x, s)"
  by (simp add: take_n_def)

lemma take_n_Cons1 [simp, codec_simps]: "take_n e (Suc 0) (b # s) = Inr ([b], s)"
  by (simp add: take_n_def)

lemma take_n_Inr: "take_n e n rest = Inr (x, s) \<longleftrightarrow> rest = x @ s \<and> length x = n"
  by (auto simp: take_n_def)

lemma take_n_Inl: "take_n e n rest = Inl e' \<longleftrightarrow> length rest < n \<and> e' = e"
  by (auto simp: take_n_def)

lemma take_n_local: "take_n e n rest = Inr (x, r) \<Longrightarrow> take_n e n (rest @ s) = Inr (x, r @ s)"
  by (auto simp: take_n_Inr)

section \<open>Lemmas on ranges of a buffer\<close>

lemma length_splice [simp]: "at + length xs \<le> length frame \<Longrightarrow> length (splice at xs frame) = length frame"
  by (simp add: splice_def)

lemma length_subslice [simp]: "at + n \<le> length frame \<Longrightarrow> length (subslice at n frame) = n"
  by (simp add: subslice_def)

lemma subslice_splice_same:
  "at + length xs \<le> length frame \<Longrightarrow> n = length xs \<Longrightarrow> subslice at n (splice at xs frame) = xs"
  by (simp add: subslice_def splice_def)

lemma subslice_splice_after:
  "at + length xs \<le> at' \<Longrightarrow> at + length xs \<le> length frame \<Longrightarrow>
     subslice at' n (splice at xs frame) = subslice at' n frame"
  by (simp add: subslice_def splice_def)

lemma subslice_splice_before:
  assumes "at' + n \<le> at" "at + length xs \<le> length frame"
  shows "subslice at' n (splice at xs frame) = subslice at' n frame"
proof -
  have s: "subslice at' n f = drop at' (take (at' + n) (take at f))" for f :: bytes
    using assms(1) by (simp add: subslice_def take_drop add.commute min_def)
  have "take at (splice at xs frame) = take at frame" using assms(2) by (simp add: splice_def)
  then show ?thesis by (simp only: s)
qed

lemmas subslice_splice = subslice_splice_same subslice_splice_after subslice_splice_before

section \<open>Lemmas on integer encodings\<close>

lemma xor_left_cancel: "a XOR b = a XOR c \<longleftrightarrow> b = (c :: 'a::len word)"
  by (metis xor.assoc xor.left_neutral xor_self_eq)

lemma xor_right_cancel: "a XOR c = b XOR c \<longleftrightarrow> a = (b :: 'a::len word)"
  by (simp add: xor.commute [of _ c] xor_left_cancel)

lemma length_to_le_bytes [simp]: "length (to_le_bytes n w) = n"
  by (induction n w rule: to_le_bytes.induct) auto

lemma length_to_be_bytes [simp]: "length (to_be_bytes n w) = n"
  by (simp add: to_be_bytes_def)

lemma to_le_bytes_numeral:
  "to_le_bytes (numeral k) w = ucast w # to_le_bytes (pred_numeral k) (drop_bit 8 w)"
  by (simp add: numeral_eq_Suc)

lemma to_le_bytes_add:
  "to_le_bytes (m + n) w = to_le_bytes m w @ to_le_bytes n (drop_bit (8 * m) w)"
  by (induction m arbitrary: w) (simp_all add: drop_bit_drop_bit add.commute)

lemmas bytes_eval = to_le_bytes_numeral to_be_bytes_def from_be_bytes_def

lemma from_to_le_bytes_take:
  "from_le_bytes (to_le_bytes n w) = take_bit (8 * n) (w :: 'a::len word)"
proof (induction n arbitrary: w)
  case (Suc n)
  have "ucast (ucast w :: u8) OR push_bit 8 (take_bit (8 * n) (drop_bit 8 w)) =
      take_bit (8 * Suc n) w"
    by (rule bit_word_eqI)
      (auto simp: bit_simps)
  then show ?case by (simp add: Suc.IH)
qed simp

lemma from_to_le_bytes:
  "LENGTH('a) \<le> 8 * n \<Longrightarrow> from_le_bytes (to_le_bytes n w) = (w :: 'a::len word)"
  by (simp add: from_to_le_bytes_take take_bit_word_eq_self)

lemma from_to_be_bytes:
  "LENGTH('a) \<le> 8 * n \<Longrightarrow> from_be_bytes (to_be_bytes n w) = (w :: 'a::len word)"
  by (simp add: to_be_bytes_def from_be_bytes_def from_to_le_bytes)

lemma from_to_bytes_sized [simp, codec_simps]:
  "from_le_bytes (to_le_bytes 2 a) = (a :: u16)"
  "from_le_bytes (to_le_bytes 4 b) = (b :: u32)"
  "from_le_bytes (to_le_bytes 8 c) = (c :: u64)"
  "from_be_bytes (to_be_bytes 2 a) = a"
  "from_be_bytes (to_be_bytes 4 b) = b"
  "from_be_bytes (to_be_bytes 8 c) = c"
  by (simp_all add: from_to_le_bytes from_to_be_bytes)

lemma to_from_le_bytes:
  "8 * length bs \<le> LENGTH('a) \<Longrightarrow> to_le_bytes (length bs) (from_le_bytes bs :: 'a::len word) = bs"
proof (induction bs)
  case (Cons b bs)
  have low: "ucast (ucast b OR push_bit 8 (from_le_bytes bs :: 'a word)) = b"
    using Cons.prems by (intro bit_word_eqI) (auto simp: bit_simps)
  have "bit (from_le_bytes bs :: 'a word) k \<Longrightarrow> k < 8 * length bs" for k
    by (induction bs arbitrary: k) (auto simp: bit_simps dest: bit_imp_le_length, force)
  then have high: "drop_bit 8 (ucast b OR push_bit 8 (from_le_bytes bs :: 'a word)) = from_le_bytes bs"
    using Cons.prems by (intro bit_word_eqI) (fastforce simp: bit_simps dest: bit_imp_le_length)
  have "to_le_bytes (length bs) (from_le_bytes bs :: 'a word) = bs"
    using Cons by simp
  then show ?case
    by (simp only: list.size add_Suc_right add_0_right to_le_bytes.simps from_le_bytes.simps low high)
qed simp

text \<open>The big-endian order of equal-length byte strings is the numeric order.\<close>

definition be_nat :: "bytes \<Rightarrow> nat" where
  "be_nat bs = foldl (\<lambda>a b. a * 256 + unat b) 0 bs"

lemma be_nat_snoc [simp]: "be_nat (bs @ [b]) = be_nat bs * 256 + unat b"
  by (simp add: be_nat_def)

lemma be_nat_less: "be_nat bs < 256 ^ length bs"
proof (induction bs rule: rev_induct)
  case (snoc b bs)
  have "unat b < 256" using unsigned_less [of b] by simp
  with snoc show ?case by simp
qed (simp add: be_nat_def)

lemma base256_inj:
  assumes "a * 256 + x = b * 256 + (y::nat)" "x < 256" "y < 256"
  shows "a = b \<and> x = y"
proof -
  have "(a * 256 + x) div 256 = a" "(b * 256 + y) div 256 = b" using assms(2,3) by simp_all
  with assms(1) show ?thesis by simp
qed

lemma be_nat_inj: "length xs = length ys \<Longrightarrow> be_nat xs = be_nat ys \<Longrightarrow> xs = ys"
proof (induction xs arbitrary: ys rule: rev_induct)
  case (snoc x xs)
  then obtain ys' y where ys: "ys = ys' @ [y]" "length xs = length ys'"
    by (cases ys rule: rev_exhaust) auto
  have "unat x < 256" "unat y < 256" using unsigned_less [of x] unsigned_less [of y] by simp_all
  then have "be_nat xs = be_nat ys' \<and> unat x = unat y"
    using snoc.prems ys by (intro base256_inj) simp_all
  with snoc.IH ys show ?case by (simp add: unsigned_word_eqI)
qed simp

lemma be_nat_mono:
  assumes "length xs = length ys"
  shows "xs < ys \<longleftrightarrow> be_nat xs < be_nat ys"
  using assms
proof (induction xs arbitrary: ys rule: rev_induct)
  case (snoc x xs)
  then obtain ys' y where ys: "ys = ys' @ [y]" "length xs = length ys'"
    by (cases ys rule: rev_exhaust) auto
  have xy: "unat x < 256" "unat y < 256" using unsigned_less [of x] unsigned_less [of y] by simp_all
  have ord: "xs < ys' \<longleftrightarrow> be_nat xs < be_nat ys'" "ys' < xs \<longleftrightarrow> be_nat ys' < be_nat xs"
    using snoc.IH ys(2) be_nat_inj [of xs ys'] by (metis linorder_neqE less_not_sym)+
  show ?case
  proof (cases "xs = ys'")
    case True
    then show ?thesis by (simp add: ys word_less_nat_alt)
  next
    case False
    then have "xs @ [x] < ys \<longleftrightarrow> xs < ys'"
      using ys less_append_same_length [of xs ys' "[x]" "[y]"] by simp
    moreover have "be_nat (xs @ [x]) < be_nat ys \<longleftrightarrow> be_nat xs < be_nat ys'"
      using ord xy False ys(1) by (auto simp: not_less)
    ultimately show ?thesis using ord by simp
  qed
qed simp

lemma be_nat_to_be_bytes: "be_nat (to_be_bytes n w) = unat (take_bit (8 * n) (w :: 'a::len word))"
proof (induction n arbitrary: w)
  case 0
  then show ?case by (simp add: be_nat_def to_be_bytes_def)
next
  case (Suc n)
  have "be_nat (to_be_bytes (Suc n) w) =
      unat (take_bit (8 * n) (drop_bit 8 w)) * 256 + unat (ucast w :: u8)"
    using Suc by (simp add: to_be_bytes_def)
  also have "\<dots> = unat (take_bit (8 * Suc n) w)"
    unfolding unsigned_ucast_eq unsigned_take_bit_eq unat_drop_bit_eq
    by (simp add: drop_bit_eq_div take_bit_eq_mod mod_mult2_eq power_add mult.commute)
  finally show ?case .
qed

lemma to_be_bytes_less:
  "LENGTH('a) \<le> 8 * n \<Longrightarrow>
     to_be_bytes n v < to_be_bytes n w \<longleftrightarrow> v < (w :: 'a::len word)"
  by (simp add: be_nat_mono be_nat_to_be_bytes take_bit_word_eq_self word_less_nat_alt)

lemma cmp_to_be_bytes:
  "LENGTH('a) \<le> 8 * n \<Longrightarrow> cmp (to_be_bytes n v) (to_be_bytes n w) = cmp v (w :: 'a::len word)"
  by (rule cmp_mono_eq) (rule to_be_bytes_less)

end
