(* ===== verification/Crc32c.thy ===== *)
theory Crc32c
  imports Prelude
begin

text \<open>
  The CRC32C checksum of \<open>crates/common/src/crc.rs\<close>: the table built at compile time and the
  table-driven loop. The lemmas relate the loop to the bit-serial reference and show that the
  checksum separates byte strings that differ in one position.
\<close>

unbundle bit_operations_syntax

definition POLY :: u32 where
  "POLY = 0x82F63B78"

text \<open>One round of the inner loop of \<open>build_table\<close>.\<close>

definition crc_bit :: "u32 \<Rightarrow> u32" where
  "crc_bit crc = (if crc AND 1 = 1 then drop_bit 1 crc XOR POLY else drop_bit 1 crc)"

definition build_table :: "u32 list" where
  "build_table = map (\<lambda>i. (crc_bit ^^ 8) (of_nat i)) [0..<256]"

definition TABLE :: "u32 list" where
  "TABLE = build_table"

definition crc_step :: "u32 \<Rightarrow> u8 \<Rightarrow> u32" where
  "crc_step crc byte =
     (let idx = unat ((crc XOR ucast byte) AND 0xFF) in drop_bit 8 crc XOR TABLE ! idx)"

definition crc32c :: "bytes \<Rightarrow> u32" where
  "crc32c data = foldl crc_step 0xFFFFFFFF data XOR 0xFFFFFFFF"

text \<open>The bit-serial reference: eight rounds per byte, no table.\<close>

definition crc_step_ref :: "u32 \<Rightarrow> u8 \<Rightarrow> u32" where
  "crc_step_ref crc byte = (crc_bit ^^ 8) (crc XOR ucast byte)"

definition crc32c_ref :: "bytes \<Rightarrow> u32" where
  "crc32c_ref data = foldl crc_step_ref 0xFFFFFFFF data XOR 0xFFFFFFFF"

lemma crc_bit_alt: "crc_bit c = drop_bit 1 c XOR (if bit c 0 then POLY else 0)"
  by (simp add: crc_bit_def and_one_eq bit_0 odd_iff_mod_2_eq_one)

lemma crc_bit_xor: "crc_bit (a XOR b) = crc_bit a XOR crc_bit b"
  by (simp add: crc_bit_alt bit_simps ac_simps xor.left_commute)

lemma crc_bits_xor: "(crc_bit ^^ n) (a XOR b) = (crc_bit ^^ n) a XOR (crc_bit ^^ n) b"
  by (induction n) (simp_all add: crc_bit_xor)

lemma crc_bits_push:
  assumes "\<And>k. bit (d :: u32) k \<Longrightarrow> k < 24"
  shows "n \<le> 8 \<Longrightarrow> (crc_bit ^^ n) (push_bit 8 d) = push_bit (8 - n) d"
proof (induction n)
  case (Suc n)
  then have "(crc_bit ^^ Suc n) (push_bit 8 d) = crc_bit (push_bit (8 - n) d)" by simp
  also have "\<dots> = drop_bit 1 (push_bit (8 - n) d)"
    using Suc.prems by (simp add: crc_bit_alt bit_simps)
  also have "\<dots> = push_bit (8 - Suc n) d"
  proof (rule bit_word_eqI)
    fix k assume "k < LENGTH(32)"
    then show "bit (drop_bit 1 (push_bit (8 - n) d)) k = bit (push_bit (8 - Suc n) d) k"
      using Suc.prems assms [of "k - (8 - Suc n)"]
      by (auto simp: bit_simps Suc_diff_le)
  qed
  finally show ?case .
qed simp

lemma byte_index_less: "unat (c AND 0xFF :: u32) < 256"
proof -
  have "c AND 0xFF \<le> (0xFF :: u32)" by (rule word_and_le1)
  then show ?thesis by (simp add: word_le_nat_alt)
qed

lemma TABLE_nth: "unat (c AND 0xFF) < 256 \<Longrightarrow> TABLE ! unat (c AND 0xFF :: u32) = (crc_bit ^^ 8) (c AND 0xFF)"
  by (simp add: TABLE_def build_table_def)

lemma ff_mask: "(0xFF :: u32) = mask 8"
  by (simp add: mask_eq_exp_minus_1)

lemma split_low_byte: "(c AND 0xFF) XOR push_bit 8 (drop_bit 8 (c :: u32)) = c"
  unfolding ff_mask by (rule bit_word_eqI) (auto simp: bit_simps)

lemma crc_step_eq_ref: "crc_step crc byte = crc_step_ref crc byte"
proof -
  let ?c = "crc XOR ucast byte :: u32"
  have top: "drop_bit 8 ?c = drop_bit 8 crc"
    by (rule bit_word_eqI) (auto simp: bit_simps dest: bit_imp_le_length)
  have "bit (drop_bit 8 x) k \<Longrightarrow> k < 24" for k and x :: u32
    by (auto simp: bit_simps dest: bit_imp_le_length)
  then have push: "(crc_bit ^^ 8) (push_bit 8 (drop_bit 8 ?c)) = drop_bit 8 ?c"
    using crc_bits_push [of "drop_bit 8 ?c" 8] by (metis diff_self_eq_0 order_refl push_bit_0_id id_apply)
  have "(crc_bit ^^ 8) ?c = (crc_bit ^^ 8) ((?c AND 0xFF) XOR push_bit 8 (drop_bit 8 ?c))"
    by (simp only: split_low_byte)
  also have "\<dots> = (crc_bit ^^ 8) (?c AND 0xFF) XOR drop_bit 8 ?c"
    by (simp only: crc_bits_xor push)
  finally show ?thesis
    using byte_index_less [of ?c]
    by (simp only: crc_step_def crc_step_ref_def Let_def TABLE_nth top xor.commute)
qed

text \<open>Each round is injective because the top bit of the polynomial is set.\<close>

lemma POLY_top: "bit POLY 31"
  by (simp add: POLY_def)

lemma crc_bit_inj: "crc_bit a = crc_bit b \<Longrightarrow> a = b"
proof -
  assume eq: "crc_bit a = crc_bit b"
  have low: "bit a 0 = bit b 0"
    using arg_cong [OF eq, of "\<lambda>w. bit w 31"] POLY_top
    by (auto simp: crc_bit_alt bit_simps split: if_splits dest: bit_imp_le_length)
  have "drop_bit 1 a = drop_bit 1 b"
    using eq low by (simp add: crc_bit_alt xor_right_cancel split: if_splits)
  have "bit a k = bit b k" for k
  proof (cases k)
    case (Suc m)
    have "bit (drop_bit 1 a) m = bit (drop_bit 1 b) m"
      using \<open>drop_bit 1 a = drop_bit 1 b\<close> by simp
    with Suc show ?thesis by (simp add: bit_simps)
  qed (use low in simp)
  then show "a = b" by (auto intro: bit_word_eqI)
qed

lemma crc_bits_inj: "(crc_bit ^^ n) a = (crc_bit ^^ n) b \<Longrightarrow> a = b"
  by (induction n) (auto dest: crc_bit_inj)

lemma ucast_byte_inj:
  assumes "(ucast (a :: u8) :: u32) = ucast b"
  shows "a = b"
proof (rule bit_word_eqI)
  fix n assume "n < LENGTH(8)"
  moreover have "bit (ucast a :: u32) n = bit (ucast b :: u32) n" using assms by simp
  ultimately show "bit a n = bit b n" by (simp add: bit_simps)
qed

lemma crc_step_inj:
  "crc_step c b = crc_step c' b \<Longrightarrow> c = c'"
  "crc_step c b = crc_step c b' \<Longrightarrow> b = b'"
  by (auto simp: crc_step_eq_ref crc_step_ref_def xor_left_cancel xor_right_cancel
      dest!: crc_bits_inj ucast_byte_inj)

lemma crc_fold_inj: "foldl crc_step c bs = foldl crc_step c' bs \<Longrightarrow> c = c'"
  by (induction bs arbitrary: c c') (auto dest: crc_step_inj(1))

lemma crc32c_eq_ref: "crc32c data = crc32c_ref data"
proof -
  have "foldl crc_step c data = foldl crc_step_ref c data" for c
    by (induction data arbitrary: c) (simp_all add: crc_step_eq_ref)
  then show ?thesis by (simp add: crc32c_def crc32c_ref_def)
qed

text \<open>A single changed byte always changes the checksum.\<close>

lemma crc32c_one_byte:
  assumes "a \<noteq> b"
  shows "crc32c (xs @ a # ys) \<noteq> crc32c (xs @ b # ys)"
  using assms crc_fold_inj crc_step_inj(2) by (fastforce simp: crc32c_def xor_right_cancel)

lemma crc_bits8: "(crc_bit ^^ 8) c = crc_bit (crc_bit (crc_bit (crc_bit (crc_bit (crc_bit (crc_bit (crc_bit c)))))))"
  by (simp add: eval_nat_numeral)

lemma crc_check: "crc32c [49,50,51,52,53,54,55,56,57] = 0xE3069283"
  by (subst crc32c_eq_ref) (simp add: crc32c_ref_def crc_step_ref_def crc_bits8 crc_bit_def POLY_def)

text \<open>C40: The table-driven checksum equals the bit-serial CRC-32C of the Castagnoli polynomial on
  every input.\<close>

theorem crc32c_correct: "crc32c data = crc32c_ref data"
  by (rule crc32c_eq_ref)

end
