(* ===== verification/Errors.thy ===== *)
theory Errors
  imports Prelude
begin

text \<open>
  The error taxonomy of \<open>crates/common/src/error.rs\<close> and the crate-local error enums of
  \<open>types\<close> (\<open>crates/types/src/lib.rs\<close>), \<open>common::io\<close>, \<open>pager\<close>, \<open>btree\<close>, \<open>txn\<close>, \<open>index\<close>, \<open>catalog\<close> and
  the expression evaluator, each with its \<open>category\<close>.
\<close>

section \<open>The shared taxonomy\<close>

datatype ErrorCategory =
  Validation | Constraint | Conflict | NotFound | Corruption | ResourceLimit | Io

fun category_as_str :: "ErrorCategory \<Rightarrow> string" where
  "category_as_str Validation = ''validation''"
| "category_as_str Constraint = ''constraint''"
| "category_as_str Conflict = ''conflict''"
| "category_as_str NotFound = ''not_found''"
| "category_as_str Corruption = ''corruption''"
| "category_as_str ResourceLimit = ''resource_limit''"
| "category_as_str Io = ''io''"

section \<open>The value layer\<close>

datatype TypeKind = TBool | TI64 | TF64 | TText | TBlob | TUuid | TJson | TTimestamp

fun kind_as_str :: "TypeKind \<Rightarrow> string" where
  "kind_as_str TBool = ''bool''"
| "kind_as_str TI64 = ''i64''"
| "kind_as_str TF64 = ''f64''"
| "kind_as_str TText = ''text''"
| "kind_as_str TBlob = ''blob''"
| "kind_as_str TUuid = ''uuid''"
| "kind_as_str TJson = ''json''"
| "kind_as_str TTimestamp = ''timestamp''"

datatype KeyCorruption =
  KeyTruncated | KeyBadTag u8 | KeyBadBool u8 | KeyBadEscape u8 | KeyInvalidUtf8

datatype RowCorruption =
  RowTruncated | RowBadTag u8 | RowBadBool u8 | RowTrailingBytes nat | RowInvalidUtf8

datatype MsgpackError =
  MpTruncated | MpTrailingBytes nat | MpDepthExceeded nat | MpReserved | MpExtNotAllowed
| MpInvalidUtf8 | MpIntOutOfRange u64

datatype TypeError =
  KeyCorrupt KeyCorruption | RowCorrupt RowCorruption | Msgpack MsgpackError
| NotKeyable string | WrongWireType TypeKind string | BadUuid
| TooManyColumns nat nat | ValueTooLarge nat

fun type_error_category :: "TypeError \<Rightarrow> ErrorCategory" where
  "type_error_category (KeyCorrupt _) = Corruption"
| "type_error_category (RowCorrupt _) = Corruption"
| "type_error_category (Msgpack _) = Validation"
| "type_error_category (NotKeyable _) = Validation"
| "type_error_category (WrongWireType _ _) = Validation"
| "type_error_category BadUuid = Validation"
| "type_error_category (TooManyColumns _ _) = ResourceLimit"
| "type_error_category (ValueTooLarge _) = ResourceLimit"

section \<open>Block I/O\<close>

datatype FaultPoint = ReadPoint | WritePoint | SyncPoint

text \<open>\<open>IoError::Backend\<close> wraps an operating-system error, whose content the engine never
  inspects.\<close>

datatype IoError =
  IoBackendError | IoInjected FaultPoint nat | IoOutOfBounds nat nat nat

definition io_error_category :: "IoError \<Rightarrow> ErrorCategory" where
  "io_error_category e = Io"

section \<open>The pager\<close>

datatype CorruptionKind =
  TruncatedPage u64 | Checksum u64 | PageIdMismatch u64 u64 | UnknownPageType u8 | BadMagic
| BadPageSize u32 | BadMeta u64 | NoValidMeta | FreelistOutOfRange u64 | FreelistCycle u64
| FreelistBadType u64 | FreelistBadCount u64 | FreelistDuplicate u64
| FreelistLenMismatch u64 u64

datatype PagerError =
  PagerIo IoError | PagerCorruption CorruptionKind | UnsupportedVersion u32 u32
| PageOutOfRange u64 u64 | PayloadTooLarge nat nat

fun pager_error_category :: "PagerError \<Rightarrow> ErrorCategory" where
  "pager_error_category (PagerIo e) = io_error_category e"
| "pager_error_category (PagerCorruption _) = Corruption"
| "pager_error_category (UnsupportedVersion _ _) = Corruption"
| "pager_error_category (PageOutOfRange _ _) = NotFound"
| "pager_error_category (PayloadTooLarge _ _) = Validation"

section \<open>The B+tree\<close>

datatype BTreeCorruption =
  NodeCorruption CorruptionKind | UnknownNodeKind u64 u8 | KeysNotSorted u64 | BadChild u64 u64
| UnevenLeafDepth | SeparatorMismatch u64 | Underfull u64 | EmptyInternal u64

datatype BTreeError =
  BTreePager PagerError | BTreeCorrupt BTreeCorruption | EntryTooLarge nat nat

fun btree_error_category :: "BTreeError \<Rightarrow> ErrorCategory" where
  "btree_error_category (BTreePager e) = pager_error_category e"
| "btree_error_category (BTreeCorrupt _) = Corruption"
| "btree_error_category (EntryTooLarge _ _) = ResourceLimit"

section \<open>Expressions\<close>

datatype EvalError =
  Overflow string | DivByZero | BadCast string TypeKind | CastRange TypeKind
| UnresolvedColumn bytes | EvalTypeError string | UnexpectedAggregate

definition eval_error_category :: "EvalError \<Rightarrow> ErrorCategory" where
  "eval_error_category e = Validation"

section \<open>Transactions, indexes and the catalog\<close>

datatype CatalogCorruption =
  CatTruncated | BadVersion u8 | BadTag u8 | BadValue | CatInvalidUtf8 | DepthExceeded
| CatTrailingBytes | MissingEntry | RowWiderThanSchema

text \<open>The three enums refer to each other: \<open>TxnError::Rejected\<close> boxes a higher layer's typed error,
  which that layer later recovers by downcasting. A box holds a catalog error, an evaluation error
  raised by a write policy of the query layer, or the error of another policy, of which only the
  category is known. The reason of \<open>InvalidSchema\<close> is the text of the message before names are
  interpolated into it.\<close>

datatype TxnError =
  TxnPager PagerError | TxnBTree BTreeError | Rejected BoxedError
| WriterStopped ErrorCategory | Closed
and IndexError = IndexTxn TxnError | IndexType TypeError
and CatalogError =
  CatTxn TxnError | CatType TypeError | CatIndex IndexError | CatCorrupt CatalogCorruption
| InvalidSchema string
| TableExists bytes
| UnknownTable bytes
| UnknownColumn bytes bytes
| DuplicateColumn bytes
| EngineManagedColumn bytes
| PkImmutable bytes
| RowNotFound bytes
| NotNull bytes bytes
| TypeMismatch bytes bytes TypeKind string
| DuplicateKey bytes
| UniqueViolation bytes bytes
| IndexExists bytes bytes
| UnknownIndex bytes bytes
| IndexOutOfSync bytes bytes
| CheckViolation bytes nat
| ForeignKeyViolation bytes bytes
| ReferencedByChildren bytes bytes
| TableReferenced bytes bytes bytes
| Policy ErrorCategory BoxedError
and BoxedError = BoxCatalog CatalogError | BoxEval EvalError | BoxPolicy ErrorCategory

fun txn_error_category :: "TxnError \<Rightarrow> ErrorCategory"
  and index_error_category :: "IndexError \<Rightarrow> ErrorCategory"
  and catalog_error_category :: "CatalogError \<Rightarrow> ErrorCategory"
  and boxed_category :: "BoxedError \<Rightarrow> ErrorCategory" where
  "txn_error_category (TxnPager e) = pager_error_category e"
| "txn_error_category (TxnBTree e) = btree_error_category e"
| "txn_error_category (Rejected e) = boxed_category e"
| "txn_error_category (WriterStopped c) = c"
| "txn_error_category Closed = Io"
| "index_error_category (IndexTxn e) = txn_error_category e"
| "index_error_category (IndexType e) = type_error_category e"
| "catalog_error_category (CatTxn e) = txn_error_category e"
| "catalog_error_category (CatType e) = type_error_category e"
| "catalog_error_category (CatIndex e) = index_error_category e"
| "catalog_error_category (CatCorrupt _) = Corruption"
| "catalog_error_category (InvalidSchema _) = Validation"
| "catalog_error_category (TableExists _) = Validation"
| "catalog_error_category (UnknownColumn _ _) = Validation"
| "catalog_error_category (DuplicateColumn _) = Validation"
| "catalog_error_category (EngineManagedColumn _) = Validation"
| "catalog_error_category (TypeMismatch _ _ _ _) = Validation"
| "catalog_error_category (PkImmutable _) = Validation"
| "catalog_error_category (UnknownTable _) = NotFound"
| "catalog_error_category (RowNotFound _) = NotFound"
| "catalog_error_category (UnknownIndex _ _) = NotFound"
| "catalog_error_category (IndexExists _ _) = Validation"
| "catalog_error_category (IndexOutOfSync _ _) = Corruption"
| "catalog_error_category (NotNull _ _) = Constraint"
| "catalog_error_category (DuplicateKey _) = Constraint"
| "catalog_error_category (UniqueViolation _ _) = Constraint"
| "catalog_error_category (CheckViolation _ _) = Constraint"
| "catalog_error_category (ForeignKeyViolation _ _) = Constraint"
| "catalog_error_category (ReferencedByChildren _ _) = Constraint"
| "catalog_error_category (TableReferenced _ _ _) = Constraint"
| "catalog_error_category (Policy c _) = c"
| "boxed_category (BoxCatalog e) = catalog_error_category e"
| "boxed_category (BoxEval e) = eval_error_category e"
| "boxed_category (BoxPolicy c) = c"

lemma category_as_str_inj: "category_as_str a = category_as_str b \<Longrightarrow> a = b"
  by (cases a; cases b) simp_all

lemma kind_as_str_inj: "kind_as_str a = kind_as_str b \<Longrightarrow> a = b"
  by (cases a; cases b) simp_all

end
