(* ===== verification/Value.thy ===== *)
theory Value
  imports Errors
begin

text \<open>
  The value model of \<open>crates/types/src/value.rs\<close>: the nine variants, their kinds and ranks, and
  the engine's logical order \<open>logical_cmp\<close>. An \<open>f64\<close> is its IEEE-754 bit pattern, an \<open>i64\<close> a
  64-bit word read by \<open>sint\<close>, a Rust \<open>String\<close> its UTF-8 bytes; \<open>value_wf\<close> states what the Rust
  types guarantee (UTF-8 validity, 16-byte uuids). The order laws are stated once in a locale for
  comparison functions and interpreted on \<open>logical_cmp\<close>, lifted to slices.
\<close>

unbundle bit_operations_syntax

section \<open>UTF-8\<close>

definition utf8_cont :: "u8 \<Rightarrow> bool" where
  "utf8_cont b \<longleftrightarrow> 0x80 \<le> b \<and> b \<le> 0xBF"

fun utf8_valid :: "bytes \<Rightarrow> bool" where
  "utf8_valid [] = True"
| "utf8_valid (a # xs) =
     (if a \<le> 0x7F then utf8_valid xs
      else case xs of [] \<Rightarrow> False | b # ys \<Rightarrow>
        if 0xC2 \<le> a \<and> a \<le> 0xDF then utf8_cont b \<and> utf8_valid ys
        else case ys of [] \<Rightarrow> False | c # zs \<Rightarrow>
          if a = 0xE0 then 0xA0 \<le> b \<and> b \<le> 0xBF \<and> utf8_cont c \<and> utf8_valid zs
          else if a = 0xED then 0x80 \<le> b \<and> b \<le> 0x9F \<and> utf8_cont c \<and> utf8_valid zs
          else if 0xE1 \<le> a \<and> a \<le> 0xEF then utf8_cont b \<and> utf8_cont c \<and> utf8_valid zs
          else case zs of [] \<Rightarrow> False | d # us \<Rightarrow>
            if a = 0xF0 then 0x90 \<le> b \<and> b \<le> 0xBF \<and> utf8_cont c \<and> utf8_cont d \<and> utf8_valid us
            else if 0xF1 \<le> a \<and> a \<le> 0xF3
              then utf8_cont b \<and> utf8_cont c \<and> utf8_cont d \<and> utf8_valid us
            else if a = 0xF4
              then 0x80 \<le> b \<and> b \<le> 0x8F \<and> utf8_cont c \<and> utf8_cont d \<and> utf8_valid us
            else False)"

section \<open>Values\<close>

type_synonym f64 = "64 word"

datatype "value" =
  Null | Bool bool | I64 i64 | F64 f64 | Text bytes | Blob bytes | Uuid bytes | Json bytes
| Timestamp i64

fun value_wf :: "value \<Rightarrow> bool" where
  "value_wf (Text s) = utf8_valid s"
| "value_wf (Uuid u) = (length u = 16)"
| "value_wf _ = True"

fun kind :: "value \<Rightarrow> TypeKind option" where
  "kind Null = None"
| "kind (Bool _) = Some TBool"
| "kind (I64 _) = Some TI64"
| "kind (F64 _) = Some TF64"
| "kind (Text _) = Some TText"
| "kind (Blob _) = Some TBlob"
| "kind (Uuid _) = Some TUuid"
| "kind (Json _) = Some TJson"
| "kind (Timestamp _) = Some TTimestamp"

fun rank :: "value \<Rightarrow> u8" where
  "rank Null = 0"
| "rank (Bool _) = 1"
| "rank (I64 _) = 2"
| "rank (F64 _) = 3"
| "rank (Text _) = 4"
| "rank (Blob _) = 5"
| "rank (Uuid _) = 6"
| "rank (Timestamp _) = 7"
| "rank (Json _) = 8"

definition f64_is_nan :: "f64 \<Rightarrow> bool" where
  "f64_is_nan f \<longleftrightarrow> take_bit 63 f > 0x7FF0000000000000"

definition f64_NAN :: f64 where
  "f64_NAN = 0x7FF8000000000000"

text \<open>The constant \<open>1 << 63\<close>.\<close>

definition SIGN :: u64 where
  "SIGN = push_bit 63 1"

definition f64_total_key :: "f64 \<Rightarrow> u64" where
  "f64_total_key f =
     (let bits = (if f64_is_nan f then f64_NAN else f)
      in if drop_bit 63 bits = 0 then bits OR SIGN else NOT bits)"

definition f64_from_total_key :: "u64 \<Rightarrow> f64" where
  "f64_from_total_key key =
     (if drop_bit 63 key = 1 then key AND NOT SIGN else NOT key)"

definition logical_cmp :: "value \<Rightarrow> value \<Rightarrow> Ordering" where
  "logical_cmp u v = (case (u, v) of
     (Null, Null) \<Rightarrow> Equal
   | (Bool a, Bool b) \<Rightarrow> cmp a b
   | (I64 a, I64 b) \<Rightarrow> cmp (sint a) (sint b)
   | (F64 a, F64 b) \<Rightarrow> cmp (f64_total_key a) (f64_total_key b)
   | (Text a, Text b) \<Rightarrow> cmp a b
   | (Blob a, Blob b) \<Rightarrow> cmp a b
   | (Uuid a, Uuid b) \<Rightarrow> cmp a b
   | (Json a, Json b) \<Rightarrow> cmp a b
   | (Timestamp a, Timestamp b) \<Rightarrow> cmp (sint a) (sint b)
   | _ \<Rightarrow> cmp (rank u) (rank v))"

text \<open>\<open>impl PartialEq for Value\<close>: equality is the order's, so all NaNs are equal.\<close>

definition value_eq :: "value \<Rightarrow> value \<Rightarrow> bool" where
  "value_eq a b \<longleftrightarrow> logical_cmp a b = Equal"

text \<open>The representative of a value up to \<open>value_eq\<close>: every NaN is replaced by \<open>f64::NAN\<close>.\<close>

fun canon :: "value \<Rightarrow> value" where
  "canon (F64 f) = F64 (if f64_is_nan f then f64_NAN else f)"
| "canon v = v"

section \<open>Comparison functions\<close>

locale comparator =
  fixes c :: "'a \<Rightarrow> 'a \<Rightarrow> Ordering"
  assumes c_rev: "c y x = reverse_ord (c x y)"
    and c_trans: "c x y \<noteq> Greater \<Longrightarrow> c y z \<noteq> Greater \<Longrightarrow> c x z \<noteq> Greater"
begin

lemma c_refl [simp]: "c x x = Equal"
  using c_rev [of x x] by (cases "c x x") auto

lemma c_Greater: "c x y = Greater \<longleftrightarrow> c y x = Less"
  using c_rev [of x y] by (cases "c x y") auto

lemma c_Equal_sym: "c x y = Equal \<Longrightarrow> c y x = Equal"
  using c_rev [of y x] by auto

lemma c_Equal_left: "c x y = Equal \<Longrightarrow> c x z = c y z"
  using c_trans [of x y z] c_trans [of y x z] c_trans [of z x y] c_trans [of z y x]
    c_Equal_sym [of x y] c_rev [of x z] c_rev [of y z]
  by (cases "c z x"; cases "c z y") auto

lemma c_Equal_right: "c x y = Equal \<Longrightarrow> c z x = c z y"
  using c_Equal_left [of x y z] c_rev [of z x] c_rev [of z y] by simp

lemma c_Less_trans: "c x y = Less \<Longrightarrow> c y z = Less \<Longrightarrow> c x z = Less"
proof -
  assume xy: "c x y = Less" and yz: "c y z = Less"
  have "c x z \<noteq> Greater" using c_trans [of x y z] xy yz by simp
  moreover have "c x z \<noteq> Equal"
  proof
    assume "c x z = Equal"
    then have "c y x = c y z" by (rule c_Equal_right)
    with xy yz c_rev [of y x] show False by simp
  qed
  ultimately show ?thesis by (cases "c x z") auto
qed

lemma slice_rev: "cmp_slice c ys xs = reverse_ord (cmp_slice c xs ys)"
proof (induction xs arbitrary: ys)
  case Nil
  then show ?case by (cases ys) auto
next
  case (Cons x xs)
  note IH = Cons.IH
  show ?case
  proof (cases ys)
    case [simp]: (Cons y ys')
    show ?thesis using c_rev [of x y] IH [of ys'] by (cases "c y x") auto
  qed simp
qed

lemma slice_trans:
  "cmp_slice c xs ys \<noteq> Greater \<Longrightarrow> cmp_slice c ys zs \<noteq> Greater \<Longrightarrow> cmp_slice c xs zs \<noteq> Greater"
proof (induction xs arbitrary: ys zs)
  case Nil
  then show ?case by (cases zs) auto
next
  case (Cons x xs)
  then obtain y ys' z zs' where [simp]: "ys = y # ys'" "zs = z # zs'"
    by (cases ys; cases zs) auto
  show ?case
  proof (cases "c x y = Equal")
    case True
    then have "c x z = c y z" by (rule c_Equal_left)
    with Cons True show ?thesis by (cases "c y z") auto
  next
    case False
    with Cons.prems have less: "c x y = Less" by (cases "c x y") auto
    show ?thesis
    proof (cases "c y z = Equal")
      case True
      then have "c x y = c x z" by (rule c_Equal_right)
      with less show ?thesis by simp
    next
      case False
      with Cons.prems have "c y z = Less" by (cases "c y z") auto
      with less c_Less_trans have "c x z = Less" by blast
      then show ?thesis by simp
    qed
  qed
qed

lemma slice_comparator: "comparator (cmp_slice c)"
  by unfold_locales (rule slice_rev, rule slice_trans)

lemma slice_Equal_iff: "cmp_slice c xs ys = Equal \<longleftrightarrow> list_all2 (\<lambda>x y. c x y = Equal) xs ys"
  by (induction c xs ys rule: cmp_slice.induct) (auto split: Ordering.splits)

end

lemma comparator_of_key:
  assumes "\<And>x y. c x y = cmp (k x) (k y :: 'k::linorder)"
  shows "comparator c"
  by unfold_locales (auto simp: assms cmp_def split: if_splits)

section \<open>The logical order\<close>

lemma logical_cmp_simps [simp]:
  "logical_cmp Null Null = Equal"
  "logical_cmp (Bool a) (Bool b) = cmp a b"
  "logical_cmp (I64 w) (I64 x) = cmp (sint w) (sint x)"
  "logical_cmp (F64 y) (F64 z) = cmp (f64_total_key y) (f64_total_key z)"
  "logical_cmp (Text s) (Text t) = cmp s t"
  "logical_cmp (Blob s) (Blob t) = cmp s t"
  "logical_cmp (Uuid s) (Uuid t) = cmp s t"
  "logical_cmp (Json s) (Json t) = cmp s t"
  "logical_cmp (Timestamp w) (Timestamp x) = cmp (sint w) (sint x)"
  by (simp_all add: logical_cmp_def)

lemma logical_cmp_rank: "rank u \<noteq> rank v \<Longrightarrow> logical_cmp u v = cmp (rank u) (rank v)"
  by (cases u; cases v) (simp_all add: logical_cmp_def)

text \<open>A sort key: the order is the lexicographic order of integer lists headed by the rank.\<close>

fun payload_key :: "value \<Rightarrow> int list" where
  "payload_key Null = []"
| "payload_key (Bool b) = [if b then 1 else 0]"
| "payload_key (I64 w) = [sint w]"
| "payload_key (F64 f) = [uint (f64_total_key f)]"
| "payload_key (Text s) = map uint s"
| "payload_key (Blob s) = map uint s"
| "payload_key (Uuid s) = map uint s"
| "payload_key (Json s) = map uint s"
| "payload_key (Timestamp w) = [sint w]"

lemma map_uint_less: "map uint xs < map uint ys \<longleftrightarrow> xs < (ys :: bytes)"
proof (induction xs arbitrary: ys)
  case Nil
  then show ?case by (cases ys) auto
next
  case (Cons x xs)
  then show ?case by (cases ys) (auto simp: word_less_alt dest: unsigned_word_eqI)
qed

lemma cmp_map_uint: "cmp (map uint xs) (map uint ys) = cmp xs (ys :: bytes)"
  by (rule cmp_mono_eq) (rule map_uint_less)

lemma cmp_uint: "cmp (uint a) (uint b) = cmp a (b :: 'a::len word)"
  by (rule cmp_mono_eq) (simp add: word_less_alt)

lemma cmp_bool: "cmp (if a then 1 else 0 :: int) (if b then 1 else 0) = cmp a b"
  by (cases a; cases b) (simp_all add: cmp_def)

lemma logical_cmp_key: "logical_cmp u v = cmp (uint (rank u) # payload_key u) (uint (rank v) # payload_key v)"
proof (cases "rank u = rank v")
  case True
  then show ?thesis
    by (cases u; cases v) (simp_all add: cmp_Cons cmp_map_uint cmp_uint cmp_bool split: Ordering.split)
next
  case False
  then show ?thesis
    by (simp add: logical_cmp_rank cmp_Cons cmp_uint split: Ordering.split)
qed

interpretation val_cmp: comparator logical_cmp
  by (rule comparator_of_key) (rule logical_cmp_key)

interpretation row_cmp: comparator "cmp_slice logical_cmp"
  by (rule val_cmp.slice_comparator)

section \<open>Floats\<close>

lemma bit_SIGN [simp]: "bit SIGN n \<longleftrightarrow> n = 63"
  unfolding SIGN_def bit_push_bit_iff bit_1_iff by auto

lemma bit_high_False: "bit (w :: 64 word) (63 + n) \<longleftrightarrow> n = 0 \<and> bit w 63"
  by (cases n) (auto dest: bit_imp_le_length)

lemma top_bit_clear: "drop_bit 63 (w :: 64 word) = 0 \<longleftrightarrow> \<not> bit w 63"
proof
  assume "drop_bit 63 w = 0"
  then have "\<not> bit (drop_bit 63 w) 0" by simp
  then show "\<not> bit w 63" by (simp add: bit_simps)
next
  assume "\<not> bit w 63"
  then show "drop_bit 63 w = 0"
    by (intro bit_word_eqI) (simp add: bit_drop_bit_eq bit_high_False)
qed

lemma top_bit_set: "drop_bit 63 (w :: 64 word) = 1 \<longleftrightarrow> bit w 63"
proof
  assume "drop_bit 63 w = 1"
  then have "bit (drop_bit 63 w) 0" by simp
  then show "bit w 63" by (simp add: bit_simps)
next
  assume "bit w 63"
  then show "drop_bit 63 w = 1"
    by (intro bit_word_eqI) (auto simp: bit_drop_bit_eq bit_high_False bit_1_iff)
qed

lemma from_total_key_of_bits:
  "f64_from_total_key (if drop_bit 63 w = 0 then w OR SIGN else NOT w) = w"
proof (cases "bit w 63")
  case True
  then show ?thesis by (simp add: f64_from_total_key_def top_bit_clear top_bit_set bit_simps)
next
  case False
  then have "(w OR SIGN) AND NOT SIGN = w"
    by (intro bit_word_eqI) (auto simp: bit_simps)
  moreover have "drop_bit 63 (w OR SIGN) = 1" unfolding top_bit_set by (simp add: bit_simps)
  ultimately show ?thesis
    using False by (simp add: f64_from_total_key_def top_bit_clear del: drop_bit_or)
qed

lemma f64_key_roundtrip:
  "f64_from_total_key (f64_total_key f) = (if f64_is_nan f then f64_NAN else f)"
  unfolding f64_total_key_def Let_def by (rule from_total_key_of_bits)

lemma f64_total_key_eq:
  "f64_total_key a = f64_total_key b \<longleftrightarrow>
     (if f64_is_nan a then f64_NAN else a) = (if f64_is_nan b then f64_NAN else b)"
proof
  assume "f64_total_key a = f64_total_key b"
  then have "f64_from_total_key (f64_total_key a) = f64_from_total_key (f64_total_key b)" by simp
  then show "(if f64_is_nan a then f64_NAN else a) = (if f64_is_nan b then f64_NAN else b)"
    by (simp only: f64_key_roundtrip)
qed (simp only: f64_total_key_def)

lemma sint_eq_iff: "sint a = sint b \<longleftrightarrow> a = (b :: 'a::len word)"
  by (auto intro: signed_word_eqI)

lemma value_eq_canon: "value_eq a b \<longleftrightarrow> canon a = canon b"
proof (cases "rank a = rank b")
  case True
  then show ?thesis
    by (cases a; cases b)
      (simp_all add: value_eq_def f64_total_key_eq sint_eq_iff split: if_splits)
next
  case False
  then show ?thesis
    by (cases a; cases b) (simp_all add: value_eq_def logical_cmp_rank)
qed

lemma rank_canon [simp]: "rank (canon v) = rank v"
  by (cases v) simp_all

text \<open>The order decided by the two's-complement value of a word is the unsigned order with the
  sign bit flipped.\<close>

lemma flip_is_add: "w XOR SIGN = w + SIGN"
proof (cases "bit w 63")
  case False
  then have "w AND SIGN = 0" by (intro bit_word_eqI) (auto simp: bit_simps)
  then show ?thesis by (simp add: disjunctive_add_eq_xor)
next
  case True
  then have "(w XOR SIGN) AND SIGN = 0" by (intro bit_word_eqI) (auto simp: bit_simps)
  then have "(w XOR SIGN) + SIGN = (w XOR SIGN) XOR SIGN" by (rule disjunctive_add_eq_xor)
  then have "w = (w XOR SIGN) + SIGN" by (simp add: xor.assoc)
  then have "w + SIGN = (w XOR SIGN) + (SIGN + SIGN)" by (metis add.assoc)
  moreover have "SIGN + SIGN = 0" by (simp add: SIGN_def)
  ultimately show ?thesis by simp
qed

lemma uint_flip: "uint (w XOR SIGN) = sint w + 2 ^ 63"
  unfolding flip_is_add
  by (simp add: sint_uint signed_take_bit_eq_take_bit_shift uint_word_ariths take_bit_eq_mod SIGN_def)

lemma flip_sign_less: "a XOR SIGN < b XOR SIGN \<longleftrightarrow> sint a < sint b"
  by (simp add: word_less_alt uint_flip)

end
