(* ===== verification/KeyCodec.thy ===== *)
theory KeyCodec
  imports Value
begin

text \<open>
  The order-preserving key encoding of \<open>crates/types/src/key.rs\<close>. The central lemma compares two
  encodings followed by arbitrary suffixes: it gives order preservation, prefix-freedom and the
  composite case at once.
\<close>

unbundle bit_operations_syntax

abbreviation "KTAG_NULL \<equiv> (0x01 :: u8)"
abbreviation "KTAG_BOOL \<equiv> (0x02 :: u8)"
abbreviation "KTAG_I64 \<equiv> (0x03 :: u8)"
abbreviation "KTAG_F64 \<equiv> (0x04 :: u8)"
abbreviation "KTAG_TEXT \<equiv> (0x05 :: u8)"
abbreviation "KTAG_BLOB \<equiv> (0x06 :: u8)"
abbreviation "KTAG_UUID \<equiv> (0x07 :: u8)"
abbreviation "KTAG_TIMESTAMP \<equiv> (0x08 :: u8)"

section \<open>Encoding\<close>

definition flip_sign :: "i64 \<Rightarrow> u64" where
  "flip_sign v = v XOR SIGN"

definition unflip_sign :: "u64 \<Rightarrow> i64" where
  "unflip_sign w = w XOR SIGN"

fun escape :: "bytes \<Rightarrow> bytes" where
  "escape [] = [0x00, 0x00]"
| "escape (b # bs) = (if b = 0x00 then b # 0xFF # escape bs else b # escape bs)"

fun encode_into :: "value \<Rightarrow> TypeError + bytes" where
  "encode_into Null = Inr [KTAG_NULL]"
| "encode_into (Bool b) = Inr [KTAG_BOOL, if b then 1 else 0]"
| "encode_into (I64 v) = Inr (KTAG_I64 # to_be_bytes 8 (flip_sign v))"
| "encode_into (F64 v) = Inr (KTAG_F64 # to_be_bytes 8 (f64_total_key v))"
| "encode_into (Text s) = Inr (KTAG_TEXT # escape s)"
| "encode_into (Blob b) = Inr (KTAG_BLOB # escape b)"
| "encode_into (Uuid u) = Inr (KTAG_UUID # u)"
| "encode_into (Timestamp v) = Inr (KTAG_TIMESTAMP # to_be_bytes 8 (flip_sign v))"
| "encode_into (Json _) = Inl (NotKeyable ''json'')"

fun encode_key :: "value list \<Rightarrow> TypeError + bytes" where
  "encode_key [] = Inr []"
| "encode_key (v # vs) =
     and_then (encode_into v) (\<lambda>b. and_then (encode_key vs) (\<lambda>bs. Inr (b @ bs)))"

section \<open>Decoding\<close>

definition key_corrupt :: "KeyCorruption \<Rightarrow> TypeError" where
  "key_corrupt k = KeyCorrupt k"

definition take_u64 :: "bytes \<Rightarrow> TypeError + (u64 \<times> bytes)" where
  "take_u64 rest =
     (if length rest < 8 then Inl (key_corrupt KeyTruncated)
      else Inr (from_be_bytes (take 8 rest), drop 8 rest))"

text \<open>The loop of \<open>unescape\<close>, with the output collected so far.\<close>

fun unescape_from :: "bytes \<Rightarrow> bytes \<Rightarrow> TypeError + (bytes \<times> bytes)" where
  "unescape_from out [] = Inl (key_corrupt KeyTruncated)"
| "unescape_from out (b # tail) =
     (if b \<noteq> 0x00 then unescape_from (out @ [b]) tail
      else case tail of
        [] \<Rightarrow> Inl (key_corrupt KeyTruncated)
      | e # after \<Rightarrow>
          if e = 0x00 then Inr (out, after)
          else if e = 0xFF then unescape_from (out @ [0x00]) after
          else Inl (key_corrupt (KeyBadEscape e)))"

definition unescape :: "bytes \<Rightarrow> TypeError + (bytes \<times> bytes)" where
  "unescape rest = unescape_from [] rest"

definition decode_one :: "u8 \<Rightarrow> bytes \<Rightarrow> TypeError + (value \<times> bytes)" where
  "decode_one tag rest =
     (if tag = KTAG_NULL then Inr (Null, rest)
      else if tag = KTAG_BOOL then
        (case rest of
           [] \<Rightarrow> Inl (key_corrupt KeyTruncated)
         | byte # rest' \<Rightarrow>
             if byte = 0 then Inr (Bool False, rest')
             else if byte = 1 then Inr (Bool True, rest')
             else Inl (key_corrupt (KeyBadBool byte)))
      else if tag = KTAG_I64 then
        and_then (take_u64 rest) (\<lambda>(w, rest'). Inr (I64 (unflip_sign w), rest'))
      else if tag = KTAG_F64 then
        and_then (take_u64 rest) (\<lambda>(w, rest'). Inr (F64 (f64_from_total_key w), rest'))
      else if tag = KTAG_TEXT then
        and_then (unescape rest) (\<lambda>(bs, rest').
          if utf8_valid bs then Inr (Text bs, rest') else Inl (key_corrupt KeyInvalidUtf8))
      else if tag = KTAG_BLOB then
        and_then (unescape rest) (\<lambda>(bs, rest'). Inr (Blob bs, rest'))
      else if tag = KTAG_UUID then
        (if length rest < 16 then Inl (key_corrupt KeyTruncated)
         else Inr (Uuid (take 16 rest), drop 16 rest))
      else if tag = KTAG_TIMESTAMP then
        and_then (take_u64 rest) (\<lambda>(w, rest'). Inr (Timestamp (unflip_sign w), rest'))
      else Inl (key_corrupt (KeyBadTag tag)))"

lemma take_u64_shorter: "take_u64 rest = Inr (w, rest') \<Longrightarrow> length rest' \<le> length rest"
  by (auto simp: take_u64_def split: if_splits)

lemma unescape_from_shorter:
  "unescape_from out rest = Inr (bs, rest') \<Longrightarrow> length rest' \<le> length rest"
  by (induction out rest rule: unescape_from.induct) (auto split: if_splits list.splits)

lemma decode_one_shorter: "decode_one tag rest = Inr (v, rest') \<Longrightarrow> length rest' \<le> length rest"
  by (auto simp: decode_one_def unescape_def split: if_splits list.splits
      dest!: take_u64_shorter unescape_from_shorter)

function decode_key_from :: "value list \<Rightarrow> bytes \<Rightarrow> TypeError + value list" where
  "decode_key_from components [] = Inr components"
| "decode_key_from components (tag # after_tag) =
     and_then (decode_one tag after_tag) (\<lambda>(v, after_value).
       decode_key_from (components @ [v]) after_value)"
  by pat_completeness auto
termination
  by (relation "measure (\<lambda>(_, rest). length rest)") (auto dest: decode_one_shorter simp: less_Suc_eq_le)

definition decode_key :: "bytes \<Rightarrow> TypeError + value list" where
  "decode_key bs = decode_key_from [] bs"

section \<open>Order preservation\<close>

lemma cmp_escape:
  "cmp (escape x @ s) (escape y @ t) = (case cmp x y of Equal \<Rightarrow> cmp s t | r \<Rightarrow> r)"
proof (induction x arbitrary: y)
  case Nil
  show ?case
  proof (cases y)
    case (Cons b bs)
    then show ?thesis by (cases "b = 0") (auto simp: cmp_Cons cmp_def word_neq_0_conv)
  qed (simp add: cmp_Cons)
next
  case (Cons a as)
  note IH = Cons.IH
  show ?case
  proof (cases y)
    case Nil
    then show ?thesis by (cases "a = 0") (auto simp: cmp_Cons cmp_def word_neq_0_conv)
  next
    case (Cons b bs)
    then show ?thesis
      using IH [of bs] by (cases "a = b") (auto simp: cmp_Cons split: Ordering.splits)
  qed
qed

definition keyable :: "value \<Rightarrow> bool" where
  "keyable v \<longleftrightarrow> value_wf v \<and> kind v \<noteq> Some TJson"

lemma encode_into_keyable: "keyable v \<Longrightarrow> \<exists>b. encode_into v = Inr b \<and> b \<noteq> []"
  by (cases v) (auto simp: keyable_def)

text \<open>The first byte of an encoding is one more than the rank.\<close>

lemma encode_into_head: "encode_into v = Inr b \<Longrightarrow> \<exists>p. b = (rank v + 1) # p"
  by (cases v) auto

lemma cmp_be_flip: "cmp (to_be_bytes 8 (flip_sign v)) (to_be_bytes 8 (flip_sign w)) = cmp (sint v) (sint w)"
  by (simp add: cmp_to_be_bytes flip_sign_def)
     (simp add: cmp_def flip_sign_less sint_eq_iff xor_right_cancel)

lemma canon_idem: "canon (canon v) = canon v"
  by (cases v) (auto simp: f64_is_nan_def f64_NAN_def)

lemma cmp_bool_byte: "cmp (if a then 1 else 0 :: u8) (if b then 1 else 0) = cmp a b"
  by (cases a; cases b) (simp_all add: cmp_def)

lemma rank_succ_less: "rank u + 1 < rank v + 1 \<longleftrightarrow> rank u < rank v"
  by (cases u; cases v) simp_all

lemma cmp_encode_into:
  assumes "keyable u" "keyable v" "encode_into u = Inr a" "encode_into v = Inr b"
  shows "cmp (a @ s) (b @ t) = (case logical_cmp u v of Equal \<Rightarrow> cmp s t | r \<Rightarrow> r)"
proof (cases "rank u = rank v")
  case False
  obtain p q where "a = (rank u + 1) # p" "b = (rank v + 1) # q"
    using encode_into_head assms(3,4) by blast
  moreover have "cmp (rank u + 1) (rank v + 1) = cmp (rank u) (rank v)"
    by (auto simp: cmp_def rank_succ_less)
  ultimately show ?thesis
    using False by (auto simp: cmp_Cons logical_cmp_rank split: Ordering.splits)
next
  case True
  then show ?thesis
    using assms
    by (cases u; cases v; clarsimp simp: cmp_Cons cmp_escape cmp_append_same_length cmp_be_flip
        cmp_to_be_bytes cmp_bool_byte keyable_def)
qed

section \<open>Order encodings\<close>

text \<open>What the storage layers rely on: an encoding whose order, under any suffixes, is the order of
  the values. Composite keys by concatenation follow from it.\<close>

locale order_encoding = comparator c for c :: "'a \<Rightarrow> 'a \<Rightarrow> Ordering" +
  fixes enc :: "'a \<Rightarrow> bytes" and ok :: "'a \<Rightarrow> bool"
  assumes enc_cmp: "ok u \<Longrightarrow> ok v \<Longrightarrow>
      cmp (enc u @ s) (enc v @ t) = (case c u v of Equal \<Rightarrow> cmp s t | r \<Rightarrow> r)"
    and enc_nonempty: "ok u \<Longrightarrow> enc u \<noteq> []"
begin

lemma enc_prefix_free:
  assumes "ok u" "ok v" "enc v = enc u @ s"
  shows "c u v = Equal \<and> s = []"
proof -
  have "cmp (enc u @ s) (enc v) = (case c u v of Equal \<Rightarrow> cmp s [] | r \<Rightarrow> r)"
    using enc_cmp [OF assms(1,2), of s "[]"] by simp
  with assms(3) show ?thesis by (cases "c u v") (auto dest: sym)
qed

lemma enc_concat_cmp:
  assumes "\<forall>u \<in> set us. ok u" "\<forall>v \<in> set vs. ok v"
  shows "cmp (concat (map enc us)) (concat (map enc vs)) = cmp_slice c us vs"
  using assms
proof (induction us arbitrary: vs)
  case Nil
  then show ?case using enc_nonempty by (cases vs) (auto simp: neq_Nil_conv dest!: enc_nonempty)
next
  case (Cons x xs)
  note Cons_us = this
  show ?case
  proof (cases vs)
    case Nil
    then show ?thesis using Cons_us enc_nonempty [of x] by (cases "enc x") auto
  next
    case (Cons y ys)
    then show ?thesis using Cons_us by (cases "c x y") (simp_all add: enc_cmp)
  qed
qed

lemma enc_concat_cmp_suffix:
  assumes "length us = length vs" "\<forall>u \<in> set us. ok u" "\<forall>v \<in> set vs. ok v"
  shows "cmp (concat (map enc us) @ s) (concat (map enc vs) @ t) =
    (case cmp_slice c us vs of Equal \<Rightarrow> cmp s t | r \<Rightarrow> r)"
  using assms
  by (induction us vs rule: list_induct2) (simp_all add: enc_cmp split: Ordering.splits)

end

definition enc_bytes :: "value \<Rightarrow> bytes" where
  "enc_bytes v = (case encode_into v of Inl _ \<Rightarrow> [] | Inr b \<Rightarrow> b)"

lemma enc_bytes_keyable: "keyable v \<Longrightarrow> encode_into v = Inr (enc_bytes v)"
  using encode_into_keyable [of v] by (auto simp: enc_bytes_def)

interpretation key_enc: order_encoding logical_cmp enc_bytes keyable
proof unfold_locales
  show "cmp (enc_bytes u @ s) (enc_bytes v @ t) = (case logical_cmp u v of Equal \<Rightarrow> cmp s t | r \<Rightarrow> r)"
    if "keyable u" "keyable v" for u v s t
    using that by (intro cmp_encode_into) (simp_all add: enc_bytes_keyable)
  show "enc_bytes u \<noteq> []" if "keyable u" for u
    using encode_into_keyable [OF that] by (auto simp: enc_bytes_def)
qed

lemma encode_key_concat:
  "\<forall>v \<in> set vs. keyable v \<Longrightarrow> encode_key vs = Inr (concat (map enc_bytes vs))"
  by (induction vs) (auto simp: enc_bytes_keyable)

section \<open>Round trip\<close>

lemma unescape_from_escape: "unescape_from out (escape x @ s) = Inr (out @ x, s)"
  by (induction x arbitrary: out) auto

lemma unescape_escape [simp]: "unescape (escape x @ s) = Inr (x, s)"
  by (simp add: unescape_def unescape_from_escape)

lemma take_u64_be [simp]: "take_u64 (to_be_bytes 8 w @ s) = Inr (w, s)"
  by (simp add: take_u64_def)

lemma unflip_flip [simp]: "unflip_sign (flip_sign v) = v"
  by (simp add: unflip_sign_def flip_sign_def xor.assoc)

lemma decode_one_encode:
  assumes "keyable v" "encode_into v = Inr (tag # p)"
  shows "decode_one tag (p @ s) = Inr (canon v, s)"
  using assms
  by (cases v; clarsimp simp: decode_one_def keyable_def f64_key_roundtrip)

lemma decode_key_from_encode:
  "\<forall>v \<in> set vs. keyable v \<Longrightarrow>
     decode_key_from cs (concat (map enc_bytes vs)) = Inr (cs @ map canon vs)"
proof (induction vs arbitrary: cs)
  case (Cons v vs)
  obtain tag p where "enc_bytes v = tag # p"
    using key_enc.enc_nonempty [of v] Cons.prems by (cases "enc_bytes v") auto
  with Cons show ?case
    using decode_one_encode [of v tag p] enc_bytes_keyable [of v] by simp
qed simp

section \<open>Properties\<close>

text \<open>C25: the key encoding preserves the logical order. For any two composite keys of keyable
  values, the bytewise comparison of their encodings equals the component-wise logical comparison
  (nulls first, signed integers, IEEE total order on floats, prefixes first).\<close>

theorem encode_key_order:
  assumes "\<forall>u \<in> set us. keyable u" "\<forall>v \<in> set vs. keyable v"
    and "encode_key us = Inr a" "encode_key vs = Inr b"
  shows "cmp a b = cmp_slice logical_cmp us vs"
  using assms by (simp add: encode_key_concat key_enc.enc_concat_cmp [symmetric])

theorem encode_key_order_witness:
  "cmp ([5, 0x61, 0, 0, 3, 0x80, 0, 0, 0, 0, 0, 0, 9] :: bytes) [5, 0x61, 0x62, 0, 0] = Less
   \<and> cmp_slice logical_cmp [Text [0x61], I64 9] [Text [0x61, 0x62]] = Less"
proof -
  have "cmp ([5, 0x61, 0, 0, 3, 0x80, 0, 0, 0, 0, 0, 0, 9] :: bytes) [5, 0x61, 0x62, 0, 0] =
      cmp_slice logical_cmp [Text [0x61], I64 9] [Text [0x61, 0x62]]"
    by (rule encode_key_order)
      (simp_all add: keyable_def flip_sign_def SIGN_def bytes_eval)
  moreover have "cmp_slice logical_cmp [Text [0x61], I64 9] [Text [0x61, 0x62]] = Less"
    by (simp add: cmp_def)
  ultimately show ?thesis by simp
qed

text \<open>C36: encoding a composite key and decoding the bytes gives back the components, exact but
  for NaNs, which come back as the canonical NaN they are equal to.\<close>

theorem decode_encode_key:
  assumes "\<forall>v \<in> set vs. keyable v"
  shows "\<exists>b. encode_key vs = Inr b \<and> decode_key b = Inr (map canon vs)
    \<and> list_all2 value_eq vs (map canon vs)"
proof -
  have "list_all2 value_eq vs (map canon vs)"
    by (simp add: list_all2_map2 value_eq_canon canon_idem list.rel_refl)
  then show ?thesis
    using assms by (simp add: encode_key_concat decode_key_def decode_key_from_encode)
qed

theorem decode_encode_key_witness:
  "\<exists>b. encode_key [Text [0x61, 0], F64 0xFFF8000000000001] = Inr b
     \<and> decode_key b = Inr [Text [0x61, 0], F64 f64_NAN]"
  using decode_encode_key [of "[Text [0x61, 0], F64 0xFFF8000000000001]"]
  by (simp add: keyable_def f64_is_nan_def)

end
