(* ===== verification/RowCodec.thy ===== *)
theory RowCodec
  imports Value
begin

text \<open>
  The row encoding of \<open>crates/types/src/row.rs\<close>: a \<open>u16\<close> column count, then a tag byte and a payload
  per value. The lemmas show that it round-trips exactly and that every accepted row within the
  column limit is the encoding of what it decodes to.
\<close>

abbreviation "RTAG_NULL \<equiv> (0 :: u8)"
abbreviation "RTAG_BOOL \<equiv> (1 :: u8)"
abbreviation "RTAG_I64 \<equiv> (2 :: u8)"
abbreviation "RTAG_F64 \<equiv> (3 :: u8)"
abbreviation "RTAG_TEXT \<equiv> (4 :: u8)"
abbreviation "RTAG_BLOB \<equiv> (5 :: u8)"
abbreviation "RTAG_UUID \<equiv> (6 :: u8)"
abbreviation "RTAG_JSON \<equiv> (7 :: u8)"
abbreviation "RTAG_TIMESTAMP \<equiv> (8 :: u8)"

definition MAX_COLUMNS :: nat where
  "MAX_COLUMNS = 4096"

section \<open>Encoding\<close>

definition push_var :: "bytes \<Rightarrow> TypeError + bytes" where
  "push_var bs =
     (if length bs < 2 ^ 32 then Inr (to_le_bytes 4 (of_nat (length bs) :: u32) @ bs)
      else Inl (ValueTooLarge (length bs)))"

text \<open>The body of the loop in \<open>encode_row\<close>: what one value appends.\<close>

fun encode_cell :: "value \<Rightarrow> TypeError + bytes" where
  "encode_cell Null = Inr [RTAG_NULL]"
| "encode_cell (Bool b) = Inr [RTAG_BOOL, if b then 1 else 0]"
| "encode_cell (I64 v) = Inr (RTAG_I64 # to_le_bytes 8 v)"
| "encode_cell (F64 v) = Inr (RTAG_F64 # to_le_bytes 8 v)"
| "encode_cell (Text s) = and_then (push_var s) (\<lambda>b. Inr (RTAG_TEXT # b))"
| "encode_cell (Blob s) = and_then (push_var s) (\<lambda>b. Inr (RTAG_BLOB # b))"
| "encode_cell (Uuid u) = Inr (RTAG_UUID # u)"
| "encode_cell (Json s) = and_then (push_var s) (\<lambda>b. Inr (RTAG_JSON # b))"
| "encode_cell (Timestamp v) = Inr (RTAG_TIMESTAMP # to_le_bytes 8 v)"

fun encode_cells :: "value list \<Rightarrow> TypeError + bytes" where
  "encode_cells [] = Inr []"
| "encode_cells (v # vs) =
     and_then (encode_cell v) (\<lambda>b. and_then (encode_cells vs) (\<lambda>bs. Inr (b @ bs)))"

definition encode_row :: "value list \<Rightarrow> TypeError + bytes" where
  "encode_row values =
     (if length values > MAX_COLUMNS then Inl (TooManyColumns (length values) MAX_COLUMNS)
      else and_then (encode_cells values) (\<lambda>bs.
        Inr (to_le_bytes 2 (of_nat (length values) :: u16) @ bs)))"

section \<open>Decoding\<close>

definition row_take :: "nat \<Rightarrow> bytes \<Rightarrow> TypeError + (bytes \<times> bytes)" where
  "row_take n rest = take_n (RowCorrupt RowTruncated) n rest"

definition take_var :: "bytes \<Rightarrow> TypeError + (bytes \<times> bytes)" where
  "take_var rest =
     and_then (row_take 4 rest) (\<lambda>(b, rest'). row_take (unat (from_le_bytes b :: u32)) rest')"

definition row_value :: "bytes \<Rightarrow> TypeError + (value \<times> bytes)" where
  "row_value rest0 =
     and_then (row_take 1 rest0) (\<lambda>(t, rest).
       let tag = hd t in
       if tag = RTAG_NULL then Inr (Null, rest)
       else if tag = RTAG_BOOL then
         and_then (row_take 1 rest) (\<lambda>(b, rest').
           if hd b = 0 then Inr (Bool False, rest')
           else if hd b = 1 then Inr (Bool True, rest')
           else Inl (RowCorrupt (RowBadBool (hd b))))
       else if tag = RTAG_I64 then
         and_then (row_take 8 rest) (\<lambda>(b, rest'). Inr (I64 (from_le_bytes b), rest'))
       else if tag = RTAG_F64 then
         and_then (row_take 8 rest) (\<lambda>(b, rest'). Inr (F64 (from_le_bytes b), rest'))
       else if tag = RTAG_TEXT then
         and_then (take_var rest) (\<lambda>(b, rest').
           if utf8_valid b then Inr (Text b, rest') else Inl (RowCorrupt RowInvalidUtf8))
       else if tag = RTAG_BLOB then
         and_then (take_var rest) (\<lambda>(b, rest'). Inr (Blob b, rest'))
       else if tag = RTAG_UUID then
         and_then (row_take 16 rest) (\<lambda>(b, rest'). Inr (Uuid b, rest'))
       else if tag = RTAG_JSON then
         and_then (take_var rest) (\<lambda>(b, rest'). Inr (Json b, rest'))
       else if tag = RTAG_TIMESTAMP then
         and_then (row_take 8 rest) (\<lambda>(b, rest'). Inr (Timestamp (from_le_bytes b), rest'))
       else Inl (RowCorrupt (RowBadTag tag)))"

fun row_values :: "nat \<Rightarrow> bytes \<Rightarrow> TypeError + (value list \<times> bytes)" where
  "row_values 0 rest = Inr ([], rest)"
| "row_values (Suc n) rest =
     and_then (row_value rest) (\<lambda>(v, rest').
       and_then (row_values n rest') (\<lambda>(vs, rest''). Inr (v # vs, rest'')))"

definition decode_row :: "bytes \<Rightarrow> TypeError + value list" where
  "decode_row bs =
     and_then (row_take 2 bs) (\<lambda>(c, rest).
       and_then (row_values (unat (from_le_bytes c :: u16)) rest) (\<lambda>(vs, rest').
         if rest' \<noteq> [] then Inl (RowCorrupt (RowTrailingBytes (length rest'))) else Inr vs))"

section \<open>Lemmas\<close>

lemma unat_of_nat_u32 [simp]: "n < 2 ^ 32 \<Longrightarrow> unat (of_nat n :: u32) = n"
  by (simp add: unat_of_nat take_bit_nat_eq_self)

lemma unat_of_nat_u16 [simp]: "n < 2 ^ 16 \<Longrightarrow> unat (of_nat n :: u16) = n"
  by (simp add: unat_of_nat take_bit_nat_eq_self)

lemma take_var_push: "push_var x = Inr b \<Longrightarrow> take_var (b @ s) = Inr (x, s)"
  by (auto simp: push_var_def take_var_def row_take_def split: if_splits)

lemma row_value_encode:
  "value_wf v \<Longrightarrow> encode_cell v = Inr b \<Longrightarrow> row_value (b @ s) = Inr (v, s)"
  by (cases v) (auto simp: row_value_def row_take_def take_var_push)

lemma row_values_encode:
  "\<forall>v \<in> set vs. value_wf v \<Longrightarrow> encode_cells vs = Inr b \<Longrightarrow>
     row_values (length vs) (b @ s) = Inr (vs, s)"
  by (induction vs arbitrary: b) (auto simp: row_value_encode)

lemma push_take_var: "take_var bs = Inr (x, s) \<Longrightarrow> \<exists>b. push_var x = Inr b \<and> bs = b @ s"
proof -
  assume "take_var bs = Inr (x, s)"
  then obtain l where bs: "bs = l @ x @ s" "length l = 4"
    and len: "length x = unat (from_le_bytes l :: u32)"
    by (auto simp: take_var_def row_take_def take_n_Inr)
  have "unat (from_le_bytes l :: u32) < 2 ^ 32" using unsigned_less [of "from_le_bytes l :: u32"] by simp
  moreover have "to_le_bytes 4 (from_le_bytes l :: u32) = l"
    using to_from_le_bytes [of l, where ?'a = 32] bs(2) by simp
  ultimately show ?thesis using bs(1) len by (simp add: push_var_def)
qed

lemma to_from_le8: "length l = 8 \<Longrightarrow> to_le_bytes 8 (from_le_bytes l :: u64) = l"
  using to_from_le_bytes [of l, where ?'a = 64] by simp

lemma single_byte: "length b = Suc 0 \<Longrightarrow> b = [hd b]"
  by (cases b) auto

lemma row_value_canonical:
  "row_value bs = Inr (v, s) \<Longrightarrow> \<exists>b. encode_cell v = Inr b \<and> bs = b @ s \<and> value_wf v"
  by (auto simp: row_value_def row_take_def take_n_Inr Let_def to_from_le8
      split: if_splits dest!: push_take_var single_byte)

lemma row_values_canonical:
  "row_values n bs = Inr (vs, s) \<Longrightarrow>
     \<exists>b. encode_cells vs = Inr b \<and> bs = b @ s \<and> length vs = n \<and> (\<forall>v \<in> set vs. value_wf v)"
proof (induction n arbitrary: bs vs)
  case (Suc n)
  then obtain v ws r where v: "row_value bs = Inr (v, r)"
    and ws: "row_values n r = Inr (ws, s)" "vs = v # ws" by auto
  from row_value_canonical [OF v] Suc.IH [OF ws(1)] ws(2) show ?case by fastforce
qed simp

lemma row_take_error: "row_take n bs = Inl e \<Longrightarrow> e = RowCorrupt RowTruncated"
  by (simp add: row_take_def take_n_Inl)

lemma take_var_error: "take_var bs = Inl e \<Longrightarrow> e = RowCorrupt RowTruncated"
  by (auto simp: take_var_def and_then_def split: sum.splits prod.splits dest: row_take_error)

lemma row_value_error: "row_value bs = Inl e \<Longrightarrow> \<exists>k. e = RowCorrupt k"
  by (auto simp: row_value_def and_then_def Let_def split: sum.splits prod.splits if_splits
      dest: row_take_error take_var_error)

lemma row_values_error: "row_values n bs = Inl e \<Longrightarrow> \<exists>k. e = RowCorrupt k"
  by (induction n arbitrary: bs)
    (auto simp: and_then_def split: sum.splits prod.splits dest: row_value_error)

lemma encode_cell_total: "\<forall>n. encode_cell v \<noteq> Inl (ValueTooLarge n) \<Longrightarrow> \<exists>b. encode_cell v = Inr b"
  by (cases v) (auto simp: push_var_def split: if_splits)

section \<open>Properties\<close>

lemma row_roundtrip:
  assumes "\<forall>v \<in> set vs. value_wf v" "encode_row vs = Inr b"
  shows "decode_row b = Inr vs"
proof -
  from assms(2) obtain bs where "encode_cells vs = Inr bs" "length vs \<le> MAX_COLUMNS"
    "b = to_le_bytes 2 (of_nat (length vs) :: u16) @ bs"
    by (auto simp: encode_row_def split: if_splits)
  then show ?thesis
    using row_values_encode [OF assms(1), of bs "[]"]
    by (simp add: decode_row_def row_take_def MAX_COLUMNS_def)
qed

text \<open>C37: the row encoding round-trips exactly: whenever \<open>encode_row\<close> accepts a row of well-formed
  values, \<open>decode_row\<close> returns the same values, NaN payloads and signed zeros included.\<close>

theorem decode_encode_row:
  assumes "\<forall>v \<in> set vs. value_wf v" "encode_row vs = Inr b"
  shows "decode_row b = Inr vs"
  using assms by (rule row_roundtrip)

theorem decode_encode_row_witness:
  "decode_row [3, 0, 2, 7, 0, 0, 0, 0, 0, 0, 0, 0, 4, 2, 0, 0, 0, 0x68, 0x69] =
     Inr [I64 7, Null, Text [0x68, 0x69]]"
  by (rule decode_encode_row)
    (simp_all add: encode_row_def MAX_COLUMNS_def push_var_def bytes_eval)

text \<open>stored rows have one representation. If \<open>decode_row\<close> accepts a byte string and the row
  is within the column limit, then encoding the decoded values gives exactly those bytes back.\<close>

theorem encode_decode_row:
  assumes "decode_row b = Inr vs" "length vs \<le> MAX_COLUMNS"
  shows "encode_row vs = Inr b"
proof -
  from assms(1) obtain c rest where c: "b = c @ rest" "length c = 2"
    and vs: "row_values (unat (from_le_bytes c :: u16)) rest = Inr (vs, [])"
    by (auto simp: decode_row_def row_take_def take_n_Inr split: if_splits)
  from row_values_canonical [OF vs] obtain bs where bs: "encode_cells vs = Inr bs" "rest = bs"
    "length vs = unat (from_le_bytes c :: u16)" by auto
  have "to_le_bytes 2 (from_le_bytes c :: u16) = c"
    using to_from_le_bytes [of c, where ?'a = 16] c(2) by simp
  then have "to_le_bytes 2 (of_nat (length vs) :: u16) = c" by (simp add: bs(3))
  then show ?thesis using assms(2) bs c by (simp add: encode_row_def)
qed

theorem encode_decode_row_witness:
  "encode_row [Bool True] = Inr [1, 0, 1, 1]"
  by (rule encode_decode_row)
    (simp_all add: decode_row_def row_take_def take_n_def row_value_def MAX_COLUMNS_def)

text \<open>hostile row bytes never produce anything but values or a \<open>Corruption\<close> error.\<close>

theorem decode_row_error_category:
  assumes "decode_row b = Inl e"
  shows "type_error_category e = Corruption"
  using assms
  by (auto simp: decode_row_def and_then_def split: sum.splits prod.splits if_splits
      dest!: row_take_error row_values_error)

theorem decode_row_error_category_witness:
  "decode_row [1, 0, 9] = Inl (RowCorrupt (RowBadTag 9)) \<and> type_error_category (RowCorrupt (RowBadTag 9)) = Corruption"
proof -
  have "decode_row [1, 0, 9] = Inl (RowCorrupt (RowBadTag 9))"
    by (simp add: decode_row_def row_take_def take_n_def row_value_def)
  with decode_row_error_category [OF this] show ?thesis by simp
qed

end
