(* ===== verification/Services.thy ===== *)
theory Services
  imports Prelude
begin

text \<open>
  The injectable host services of \<open>crates/common/src/rng.rs\<close> and \<open>clock.rs\<close>: the deterministic
  SplitMix64 generator and the manual clock. A random source is a state and a function from the
  state to the next value and state.
\<close>

unbundle bit_operations_syntax

definition GAMMA :: u64 where
  "GAMMA = 0x9E3779B97F4A7C15"

text \<open>\<open>SeededRng::next_u64\<close>: the state advances by \<open>GAMMA\<close>, the output is the finalised state.\<close>

definition seeded_next_u64 :: "u64 \<Rightarrow> u64 \<times> u64" where
  "seeded_next_u64 state =
     (let state' = state + GAMMA;
          z = state';
          z = (z XOR drop_bit 30 z) * 0xBF58476D1CE4E5B9;
          z = (z XOR drop_bit 27 z) * 0x94D049BB133111EB
      in (z XOR drop_bit 31 z, state'))"

text \<open>\<open>ManualClock\<close>: signed microseconds, advanced with saturation.\<close>

definition i64_MAX :: int where "i64_MAX = 2 ^ 63 - 1"

definition i64_MIN :: int where "i64_MIN = - (2 ^ 63)"

definition saturating_add_i64 :: "int \<Rightarrow> int \<Rightarrow> int" where
  "saturating_add_i64 a b = max i64_MIN (min i64_MAX (a + b))"

definition clock_advance :: "int \<Rightarrow> int \<Rightarrow> int" where
  "clock_advance micros delta = saturating_add_i64 micros delta"

definition clock_set :: "int \<Rightarrow> int \<Rightarrow> int" where
  "clock_set micros v = v"

lemma xor_shift_inj:
  assumes "0 < n" "x XOR drop_bit n x = y XOR drop_bit n (y :: 'a::len word)"
  shows "x = y"
proof (rule bit_word_eqI)
  fix k assume k: "k < LENGTH('a)"
  show "bit x k = bit y k"
    using k
  proof (induction "LENGTH('a) - k" arbitrary: k rule: less_induct)
    case less
    have eq: "bit (x XOR drop_bit n x) k = bit (y XOR drop_bit n y) k" using assms(2) by simp
    show ?case
    proof (cases "n + k < LENGTH('a)")
      case True
      then have "bit x (n + k) = bit y (n + k)"
        using less assms(1) by simp
      with eq show ?thesis by (auto simp: bit_simps)
    next
      case False
      then have "\<not> bit x (n + k)" "\<not> bit y (n + k)" by (auto dest: bit_imp_le_length)
      with eq show ?thesis by (auto simp: bit_simps)
    qed
  qed
qed

lemma odd_mult_inj:
  assumes "(m :: u64) * i = 1" "x * m = y * m"
  shows "x = y"
proof -
  have "x * m * i = y * m * i" using assms(2) by simp
  then show ?thesis unfolding mult.assoc assms(1) by simp
qed

text \<open>Distinct states give distinct outputs: the finaliser is a bijection, so a generator repeats a
  value only when its 64-bit state wraps around.\<close>

lemma seeded_output_inj:
  assumes "fst (seeded_next_u64 s) = fst (seeded_next_u64 t)"
  shows "s = t"
proof -
  have i1: "(0xBF58476D1CE4E5B9 :: u64) * 0x96DE1B173F119089 = 1" by simp
  have i2: "(0x94D049BB133111EB :: u64) * 0x319642B2D24D8EC3 = 1" by simp
  let ?m1 = "\<lambda>z :: u64. (z XOR drop_bit 30 z) * 0xBF58476D1CE4E5B9"
  let ?m2 = "\<lambda>z :: u64. (z XOR drop_bit 27 z) * 0x94D049BB133111EB"
  have "?m2 (?m1 (s + GAMMA)) = ?m2 (?m1 (t + GAMMA))"
    using assms unfolding seeded_next_u64_def Let_def fst_conv by (rule xor_shift_inj [rotated]) simp
  from odd_mult_inj [OF i2 this] have "?m1 (s + GAMMA) = ?m1 (t + GAMMA)"
    by (rule xor_shift_inj [rotated]) simp
  from odd_mult_inj [OF i1 this] have "s + GAMMA = t + GAMMA"
    by (rule xor_shift_inj [rotated]) simp
  then show ?thesis by simp
qed

end
