(* ===== verification/UuidV7.thy ===== *)
theory UuidV7
  imports Value Services
begin

text \<open>
  UUIDv7 generation and the canonical string form (\<open>crates/types/src/uuid.rs\<close>). The injected clock
  is the microsecond reading passed to each call, the injected random source a state with its step
  function; \<open>prev\<close> is the guarded pair \<open>last\<close> of the generator.
\<close>

unbundle bit_operations_syntax

section \<open>Generation\<close>

definition unix_ms :: "int \<Rightarrow> u64" where
  "unix_ms micros = (word_of_int (max (micros div 1000) 0)) AND 0xFFFFFFFFFFFF"

text \<open>The update of \<open>last\<close> under the lock.\<close>

definition next_state :: "('r \<Rightarrow> u64 \<times> 'r) \<Rightarrow> u64 \<Rightarrow> u64 \<times> u16 \<Rightarrow> 'r \<Rightarrow> (u64 \<times> u16) \<times> 'r" where
  "next_state rng now_ms prev r0 =
     (if now_ms > fst prev then
        (let (x, r) = rng r0 in ((now_ms, ucast (x AND 0x7FF)), r))
      else if snd prev < 0xFFF then ((fst prev, snd prev + 1), r0)
      else (let (x, r) = rng r0 in ((fst prev + 1, ucast (x AND 0x7FF)), r)))"

definition next_uuid ::
  "('r \<Rightarrow> u64 \<times> 'r) \<Rightarrow> int \<Rightarrow> u64 \<times> u16 \<Rightarrow> 'r \<Rightarrow> bytes \<times> (u64 \<times> u16) \<times> 'r" where
  "next_uuid rng now_micros prev r0 =
     (let ((ms, counter), r1) = next_state rng (unix_ms now_micros) prev r0;
          (rand_b, r2) = rng r1;
          tail = (rand_b AND 0x3FFFFFFFFFFFFFFF) OR 0x8000000000000000
      in (drop 2 (to_be_bytes 8 ms)
            @ [0x70 OR (ucast (drop_bit 8 counter) AND 0x0F), ucast (counter AND 0xFF)]
            @ to_be_bytes 8 tail,
          (ms, counter), r2))"

text \<open>Successive calls on a fresh generator, one clock reading each.\<close>

fun uuid_run :: "('r \<Rightarrow> u64 \<times> 'r) \<Rightarrow> int list \<Rightarrow> u64 \<times> u16 \<Rightarrow> 'r \<Rightarrow> bytes list" where
  "uuid_run rng [] prev r = []"
| "uuid_run rng (t # ts) prev r =
     (let (u, prev', r') = next_uuid rng t prev r in u # uuid_run rng ts prev' r')"

section \<open>The canonical string form\<close>

definition HEX :: bytes where
  "HEX = [0x30, 0x31, 0x32, 0x33, 0x34, 0x35, 0x36, 0x37, 0x38, 0x39,
          0x61, 0x62, 0x63, 0x64, 0x65, 0x66]"

definition uuid_to_string :: "bytes \<Rightarrow> bytes" where
  "uuid_to_string uuid =
     concat (map (\<lambda>(i, byte).
       (if i \<in> {4, 6, 8, 10} then [0x2D] else [])
         @ [HEX ! unat (drop_bit 4 byte), HEX ! unat (byte AND 0x0F)])
       (enumerate 0 uuid))"

definition hex_nibble :: "u8 \<Rightarrow> TypeError + u8" where
  "hex_nibble b =
     (if 0x30 \<le> b \<and> b \<le> 0x39 then Inr (b - 0x30)
      else if 0x61 \<le> b \<and> b \<le> 0x66 then Inr (b - 0x61 + 10)
      else if 0x41 \<le> b \<and> b \<le> 0x46 then Inr (b - 0x41 + 10)
      else Inl BadUuid)"

text \<open>The \<open>filter_map\<close> over the characters: hyphens at their positions are dropped, every other
  character yields a nibble or an error.\<close>

definition uuid_nibbles :: "bytes \<Rightarrow> (TypeError + u8) list" where
  "uuid_nibbles s =
     List.map_filter (\<lambda>(i, b).
       if i \<in> {8, 13, 18, 23} then (if b = 0x2D then None else Some (Inl BadUuid))
       else Some (hex_nibble b)) (enumerate 0 s)"

fun uuid_slots :: "nat \<Rightarrow> (TypeError + u8) list \<Rightarrow> TypeError + bytes" where
  "uuid_slots 0 items = Inr []"
| "uuid_slots (Suc n) (h # l # items) =
     and_then h (\<lambda>hi. and_then l (\<lambda>lo.
       and_then (uuid_slots n items) (\<lambda>rest. Inr ((push_bit 4 hi OR lo) # rest))))"
| "uuid_slots (Suc n) [h] = and_then h (\<lambda>_. Inl BadUuid)"
| "uuid_slots (Suc n) [] = Inl BadUuid"

definition uuid_from_str :: "bytes \<Rightarrow> TypeError + bytes" where
  "uuid_from_str s =
     (if length s \<noteq> 36 then Inl BadUuid else uuid_slots 16 (uuid_nibbles s))"

section \<open>Lemmas: string form\<close>

lemma nibble_cases:
  assumes "(n :: u8) < 16"
  shows "n \<in> {0, 1, 2, 3, 4, 5, 6, 7, 8, 9, 10, 11, 12, 13, 14, 15}"
proof -
  have "unat n \<in> {..<16}" using assms by (simp add: word_less_nat_alt)
  then have "of_nat (unat n) \<in> (of_nat ` {..<16} :: u8 set)" by (rule imageI)
  moreover have "(of_nat ` {..<16} :: u8 set) = {0, 1, 2, 3, 4, 5, 6, 7, 8, 9, 10, 11, 12, 13, 14, 15}"
    by (simp add: lessThan_nat_numeral lessThan_Suc insert_commute)
  ultimately show ?thesis by simp
qed

lemma hex_nibble_HEX:
  assumes "(n :: u8) < 16"
  shows "hex_nibble (HEX ! unat n) = Inr n"
  using nibble_cases [OF assms] by (auto simp: HEX_def hex_nibble_def)

lemma high_nibble_less: "drop_bit 4 (b :: u8) < 16"
proof -
  have "unat b < 256" using unsigned_less [of b] by simp
  then have "unat b div 16 < 16" by (simp add: less_mult_imp_div_less)
  then show ?thesis unfolding word_less_nat_alt unat_drop_bit_eq by (simp add: drop_bit_eq_div)
qed

lemma low_nibble_less: "(b :: u8) AND 0x0F < 16"
proof -
  have "b AND 0x0F \<le> 0x0F" by (rule word_and_le1)
  then show ?thesis by (rule le_less_trans) simp
qed

lemma nibbles_join: "push_bit 4 (drop_bit 4 b) OR (b AND 0x0F) = (b :: u8)"
proof -
  have m: "(0x0F :: u8) = mask 4" by (simp add: mask_eq_exp_minus_1)
  show ?thesis unfolding m by (auto intro!: bit_word_eqI simp: bit_simps)
qed

lemmas nibble_simps = hex_nibble_HEX high_nibble_less low_nibble_less nibbles_join

lemma list16: "length u = 16 \<Longrightarrow> \<exists>a b c d e f g h i j k l m n p q.
    u = [a, b, c, d, e, f, g, h, i, j, k, l, m, n, p, q]"
  by (auto simp: numeral_eq_Suc length_Suc_conv)

lemma uuid_string_nibbles:
  assumes "length u = 16"
  shows "uuid_nibbles (uuid_to_string u) = concat (map (\<lambda>b. [Inr (drop_bit 4 b), Inr (b AND 0x0F)]) u)
    \<and> length (uuid_to_string u) = 36"
proof -
  from list16 [OF assms] show ?thesis
    by (elim exE) (simp add: uuid_nibbles_def uuid_to_string_def map_filter_simps nibble_simps)
qed

lemma uuid_slots_join:
  "uuid_slots (length u) (concat (map (\<lambda>b. [Inr (drop_bit 4 b), Inr (b AND 0x0F)]) u)) = Inr u"
  by (induction u) (simp_all add: nibble_simps)

section \<open>Lemmas: monotonicity\<close>

definition uuid_head :: "u64 \<Rightarrow> u16 \<Rightarrow> bytes" where
  "uuid_head ms counter = to_be_bytes 6 ms @ to_be_bytes 2 (0x7000 OR counter)"

lemma drop2_be: "drop 2 (to_be_bytes 8 w) = to_be_bytes 6 (w :: u64)"
  using to_le_bytes_add [of 6 2 w] by (simp add: to_be_bytes_def)

lemma small_counter:
  assumes "(counter :: u16) \<le> 0xFFF"
  shows "take_bit 12 counter = counter"
proof (rule unsigned_word_eqI)
  have "unat counter < 2 ^ 12" using assms by (simp add: word_le_nat_alt)
  then show "unat (take_bit 12 counter) = unat counter"
    unfolding unsigned_take_bit_eq by (simp add: take_bit_nat_eq_self)
qed

lemma counter_bits: "(counter :: u16) \<le> 0xFFF \<Longrightarrow> bit counter k \<Longrightarrow> k < 12"
  using small_counter [of counter] by (metis bit_take_bit_iff)

lemma masks: "(0x0F :: u8) = mask 4" "(0xFF :: u16) = mask 8"
  by (simp_all add: mask_eq_exp_minus_1)

lemma counter_bytes:
  assumes "counter \<le> 0xFFF"
  shows "[0x70 OR (ucast (drop_bit 8 counter) AND 0x0F), ucast (counter AND 0xFF)] =
    to_be_bytes 2 (0x7000 OR counter :: u16)"
proof -
  have "ucast (drop_bit 8 counter) AND (mask 4 :: u8) = ucast (drop_bit 8 counter)"
    using counter_bits [OF assms] by (intro bit_word_eqI) (fastforce simp: bit_simps)
  moreover have "ucast (counter AND mask 8) = (ucast counter :: u8)"
    by (rule bit_word_eqI) (auto simp: bit_simps)
  moreover have "0x7000 OR x = x" for x :: u8
  proof -
    have "(0x7000 :: u8) = 0" by simp
    then show ?thesis by (simp only: or.left_neutral)
  qed
  ultimately show ?thesis unfolding masks by (simp add: bytes_eval unsigned_or_eq)
qed

lemma counter_mono:
  assumes "a \<le> 0xFFF" "b \<le> 0xFFF"
  shows "(0x7000 OR a) < (0x7000 OR b) \<longleftrightarrow> a < (b :: u16)"
proof -
  have add: "unat (0x7000 OR c) = 0x7000 + unat c" if "c \<le> 0xFFF" for c :: u16
  proof -
    have e: "(0x7000 :: u16) = push_bit 12 7" by simp
    have "0x7000 AND c = 0"
    proof (rule bit_word_eqI)
      fix n :: nat
      have "\<not> (12 \<le> n \<and> bit c n)" using counter_bits [OF that, of n] by auto
      then show "bit (0x7000 AND c) n = bit 0 n"
        unfolding e bit_and_iff bit_push_bit_iff by auto
    qed
    then have "0x7000 OR c = 0x7000 + c" by (simp add: disjunctive_add_eq_or)
    moreover have "unat c \<le> 0xFFF" using that by (simp add: word_le_nat_alt)
    ultimately show ?thesis by (simp add: unat_word_ariths)
  qed
  show ?thesis using assms by (simp add: word_less_nat_alt add)
qed

lemma uuid_head_mono:
  assumes "take_bit 48 m = m" "take_bit 48 m' = m'" "a \<le> 0xFFF" "b \<le> 0xFFF"
    and "m < m' \<or> m = m' \<and> a < b"
  shows "uuid_head m a < uuid_head m' b"
proof -
  have less6: "to_be_bytes 6 m < to_be_bytes 6 m' \<longleftrightarrow> m < m'"
    using assms(1,2) by (simp add: be_nat_mono be_nat_to_be_bytes word_less_nat_alt)
  have less2: "to_be_bytes 2 (0x7000 OR a) < to_be_bytes 2 (0x7000 OR b) \<longleftrightarrow> a < b"
    using assms(3,4) by (subst to_be_bytes_less) (simp_all only: counter_mono, simp)
  show ?thesis
  proof (cases "m = m'")
    case True
    then show ?thesis using assms(5) less2 by (simp add: uuid_head_def)
  next
    case False
    with assms(5) less6 have "to_be_bytes 6 m < to_be_bytes 6 m'" by simp
    then show ?thesis unfolding uuid_head_def by (subst less_append_same_length) auto
  qed
qed

text \<open>One call: the state stays within 48 and 12 bits and strictly increases, and the identifier
  starts with the head built from the new state.\<close>

definition uuid_state_ok :: "u64 \<times> u16 \<Rightarrow> bool" where
  "uuid_state_ok st \<longleftrightarrow> take_bit 48 (fst st) = fst st \<and> snd st \<le> 0xFFF"

definition state_less :: "u64 \<times> u16 \<Rightarrow> u64 \<times> u16 \<Rightarrow> bool" where
  "state_less s t \<longleftrightarrow> fst s < fst t \<or> fst s = fst t \<and> snd s < snd t"

lemma take_bit_48_iff: "take_bit 48 (w :: u64) = w \<longleftrightarrow> unat w < 2 ^ 48"
  by (metis take_bit_nat_eq_self take_bit_nat_less_exp unsigned_take_bit_eq unsigned_word_eqI)

lemma unix_ms_small: "take_bit 48 (unix_ms t) = unix_ms t"
proof -
  have m: "(0xFFFFFFFFFFFF :: u64) = mask 48" by (simp add: mask_eq_exp_minus_1)
  show ?thesis unfolding unix_ms_def m take_bit_eq_mask [symmetric] by simp
qed

lemma counter_seed: "(ucast (x AND 0x7FF :: u64) :: u16) \<le> 0xFFF"
proof -
  have "x AND 0x7FF \<le> 0x7FF" by (rule word_and_le1)
  then have "unat (x AND 0x7FF) \<le> 0x7FF" by (simp add: word_le_nat_alt)
  then have "unat (ucast (x AND 0x7FF) :: u16) \<le> 0x7FF"
    unfolding unsigned_ucast_eq by (simp add: take_bit_nat_eq_self)
  then show ?thesis by (simp add: word_le_nat_alt)
qed

lemma next_state_step:
  assumes "uuid_state_ok prev" "unat (fst prev) + 1 < 2 ^ 48" "take_bit 48 now = now"
    and "next_state rng now prev r = (st, r')"
  shows "uuid_state_ok st" "state_less prev st"
    "unat (fst st) \<le> max (unat (fst prev) + 1) (unat now)"
proof -
  have next_ms: "unat (fst prev + 1) = unat (fst prev) + 1"
    using assms(2) by (simp add: unat_word_ariths)
  have next_c: "unat (snd prev + 1) = unat (snd prev) + 1" if "snd prev < 0xFFF"
    using that by (simp add: unat_word_ariths word_less_nat_alt)
  note defs = next_state_def uuid_state_ok_def state_less_def take_bit_48_iff
  show "uuid_state_ok st"
    using assms counter_seed next_c next_ms
    by (auto simp: defs word_le_nat_alt word_less_nat_alt split: if_splits prod.splits)
  show "state_less prev st"
    using assms(4) next_c next_ms
    by (auto simp: defs word_less_nat_alt split: if_splits prod.splits)
  show "unat (fst st) \<le> max (unat (fst prev) + 1) (unat now)"
    using assms(4) next_ms by (auto simp: defs split: if_splits prod.splits)
qed

lemma next_uuid_head:
  assumes "next_uuid rng t prev r = (u, st, r')" "snd st \<le> 0xFFF"
  shows "\<exists>r1. next_state rng (unix_ms t) prev r = (st, r1)"
    "\<exists>tl. u = uuid_head (fst st) (snd st) @ tl"
proof -
  obtain ms c r1 where n: "next_state rng (unix_ms t) prev r = ((ms, c), r1)"
    by (metis prod.exhaust)
  have u: "st = (ms, c)" "\<exists>tl. u = drop 2 (to_be_bytes 8 ms)
      @ [0x70 OR (ucast (drop_bit 8 c) AND 0x0F), ucast (c AND 0xFF)] @ tl"
    using assms(1) n unfolding next_uuid_def Let_def
    by (auto split: prod.splits)
  then show "\<exists>r1. next_state rng (unix_ms t) prev r = (st, r1)" using n by auto
  show "\<exists>tl. u = uuid_head (fst st) (snd st) @ tl"
  proof -
    obtain tl where "u = to_be_bytes 6 ms
        @ [0x70 OR (ucast (drop_bit 8 c) AND 0x0F), ucast (c AND 0xFF)] @ tl"
      using u(2) unfolding drop2_be by blast
    then have "u = uuid_head (fst st) (snd st) @ tl"
      using counter_bytes [of c] assms(2) u(1) by (simp only: uuid_head_def fst_conv snd_conv append_assoc)
    then show ?thesis ..
  qed
qed

lemma next_uuid_step:
  assumes "uuid_state_ok prev" "unat (fst prev) + 1 < 2 ^ 48"
    and "next_uuid rng t prev r = (u, st, r')"
  shows "uuid_state_ok st" "state_less prev st" "\<exists>tl. u = uuid_head (fst st) (snd st) @ tl"
    "unat (fst st) \<le> max (unat (fst prev) + 1) (unat (unix_ms t))"
proof -
  obtain st1 r1 where n: "next_state rng (unix_ms t) prev r = (st1, r1)" by fastforce
  have "st1 = st"
    using assms(3) n unfolding next_uuid_def Let_def
    by (auto split: prod.splits)
  note step = next_state_step [OF assms(1,2) unix_ms_small n, unfolded this]
  then show "uuid_state_ok st" "state_less prev st"
    "unat (fst st) \<le> max (unat (fst prev) + 1) (unat (unix_ms t))" by simp_all
  show "\<exists>tl. u = uuid_head (fst st) (snd st) @ tl"
    using next_uuid_head(2) [OF assms(3)] step(1) by (simp add: uuid_state_ok_def)
qed

lemma uuid_head_less_append:
  assumes "uuid_state_ok s" "uuid_state_ok t" "state_less s t"
  shows "uuid_head (fst s) (snd s) @ x < uuid_head (fst t) (snd t) @ y"
proof -
  have "uuid_head (fst s) (snd s) < uuid_head (fst t) (snd t)"
    using assms uuid_head_mono [of "fst s" "fst t" "snd s" "snd t"]
    unfolding uuid_state_ok_def state_less_def by blast
  then show ?thesis by (subst less_append_same_length) (auto simp: uuid_head_def)
qed

lemma state_less_trans: "state_less a b \<Longrightarrow> state_less b c \<Longrightarrow> state_less a c"
  by (auto simp: state_less_def)

text \<open>Every identifier of a run starts with the head of a state above the starting one.\<close>

lemma uuid_run_heads:
  assumes "uuid_state_ok prev" "unat (fst prev) + length ts < 2 ^ 48"
    and "\<And>t. t \<in> set ts \<Longrightarrow> unat (unix_ms t) + length ts < 2 ^ 48"
  shows "sorted_wrt (<) (uuid_run rng ts prev r) \<and>
    (\<forall>u \<in> set (uuid_run rng ts prev r). \<exists>s tl. uuid_state_ok s \<and> state_less prev s
       \<and> u = uuid_head (fst s) (snd s) @ tl)"
  using assms
proof (induction ts arbitrary: prev r)
  case (Cons t ts)
  obtain u st r' where n: "next_uuid rng t prev r = (u, st, r')" by (metis prod.exhaust)
  note step = next_uuid_step [OF Cons.prems(1) _ n]
  have ok: "uuid_state_ok st" "state_less prev st" and head: "\<exists>tl. u = uuid_head (fst st) (snd st) @ tl"
    and le: "unat (fst st) \<le> max (unat (fst prev) + 1) (unat (unix_ms t))"
    using step Cons.prems(2) by simp_all
  have "unat (fst st) + length ts < 2 ^ 48"
    using le Cons.prems(2) Cons.prems(3) [of t] by (simp add: max_def split: if_splits)
  then have IH: "sorted_wrt (<) (uuid_run rng ts st r')"
    "\<forall>u \<in> set (uuid_run rng ts st r'). \<exists>s tl. uuid_state_ok s \<and> state_less st s
       \<and> u = uuid_head (fst s) (snd s) @ tl"
    using Cons.IH [OF ok(1)] Cons.prems(3) by force+
  have "\<forall>v \<in> set (uuid_run rng ts st r'). u < v"
    using IH(2) head uuid_head_less_append [OF ok(1)] by (metis (no_types))
  moreover have "\<forall>v \<in> set (uuid_run rng ts st r'). \<exists>s tl. uuid_state_ok s \<and> state_less prev s
       \<and> v = uuid_head (fst s) (snd s) @ tl"
    using IH(2) state_less_trans [OF ok(2)] by blast
  moreover have "\<exists>s tl. uuid_state_ok s \<and> state_less prev s \<and> u = uuid_head (fst s) (snd s) @ tl"
    using ok head by blast
  ultimately show ?case using IH(1) n by simp
qed simp

section \<open>Properties\<close>

text \<open>The canonical string form of every 16-byte identifier parses back to it.\<close>

theorem uuid_string_roundtrip:
  assumes "length u = 16"
  shows "uuid_from_str (uuid_to_string u) = Inr u"
  using uuid_string_nibbles [OF assms] uuid_slots_join [of u] assms by (simp add: uuid_from_str_def)

theorem uuid_string_roundtrip_witness:
  "uuid_from_str (uuid_to_string (replicate 16 0xA7)) = Inr (replicate 16 0xA7)"
  by (rule uuid_string_roundtrip) simp

text \<open>C38: The identifiers a fresh generator issues are strictly increasing bytewise, whatever the
  clock does (stall, step backward, jump) and whatever the random source yields, as long as the
  48-bit millisecond field has room for one nudge per call.\<close>

theorem uuid_run_strictly_increasing:
  assumes "length ts < 2 ^ 48"
    and "\<forall>t \<in> set ts. unat (unix_ms t) + length ts < 2 ^ 48"
  shows "sorted_wrt (<) (uuid_run rng ts (0, 0) r)"
  using uuid_run_heads [of "(0, 0)" ts rng r] assms by (simp add: uuid_state_ok_def)

theorem uuid_run_strictly_increasing_witness:
  "sorted_wrt (<) (uuid_run (\<lambda>n :: u64. (n * 0xFFF, n + 1)) [5000, 5000, 0, 7000] (0, 0) 1)"
  by (rule uuid_run_strictly_increasing) (simp_all add: unix_ms_def)

end
