(* ===== verification/Msgpack.thy ===== *)
theory Msgpack
  imports UuidV7
begin

text \<open>
  The MessagePack codec of \<open>crates/types/src/msgpack.rs\<close>: encoding of values in their wire form,
  schema-directed decoding, and the well-formedness check of \<open>json\<close> documents. The reader is the
  list of bytes not yet consumed; every method returns it beside its result.
\<close>

unbundle bit_operations_syntax

abbreviation MAX_JSON_DEPTH :: nat where "MAX_JSON_DEPTH \<equiv> 64"

section \<open>Encoding\<close>

definition write_int :: "i64 \<Rightarrow> bytes" where
  "write_int v =
     (let i = sint v in
      if 0 \<le> i then
        (if i \<le> 0x7F then [ucast v]
         else if i \<le> 0xFF then [0xCC, ucast v]
         else if i \<le> 0xFFFF then 0xCD # to_be_bytes 2 (ucast v :: u16)
         else if i \<le> 0xFFFFFFFF then 0xCE # to_be_bytes 4 (ucast v :: u32)
         else 0xCF # to_be_bytes 8 v)
      else if -32 \<le> i then [ucast v]
      else if -128 \<le> i then [0xD0, ucast v]
      else if -32768 \<le> i then 0xD1 # to_be_bytes 2 (ucast v :: u16)
      else if -2147483648 \<le> i then 0xD2 # to_be_bytes 4 (ucast v :: u32)
      else 0xD3 # to_be_bytes 8 v)"

definition write_str :: "bytes \<Rightarrow> TypeError + bytes" where
  "write_str bs =
     (let n = length bs in
      if n \<le> 0x1F then Inr ((0xA0 OR of_nat n) # bs)
      else if n \<le> 0xFF then Inr (0xD9 # of_nat n # bs)
      else if n \<le> 0xFFFF then Inr (0xDA # to_be_bytes 2 (of_nat n :: u16) @ bs)
      else if n < 2 ^ 32 then Inr (0xDB # to_be_bytes 4 (of_nat n :: u32) @ bs)
      else Inl (ValueTooLarge n))"

definition write_bin :: "bytes \<Rightarrow> TypeError + bytes" where
  "write_bin bs =
     (let n = length bs in
      if n \<le> 0xFF then Inr (0xC4 # of_nat n # bs)
      else if n \<le> 0xFFFF then Inr (0xC5 # to_be_bytes 2 (of_nat n :: u16) @ bs)
      else if n < 2 ^ 32 then Inr (0xC6 # to_be_bytes 4 (of_nat n :: u32) @ bs)
      else Inl (ValueTooLarge n))"

definition encode_value :: "value \<Rightarrow> TypeError + bytes" where
  "encode_value v =
     (case v of
        Null \<Rightarrow> Inr [0xC0]
      | Bool b \<Rightarrow> Inr [if b then 0xC3 else 0xC2]
      | I64 x \<Rightarrow> Inr (write_int x)
      | Timestamp x \<Rightarrow> Inr (write_int x)
      | F64 x \<Rightarrow> Inr (0xCB # to_be_bytes 8 x)
      | Text s \<Rightarrow> write_str s
      | Uuid u \<Rightarrow> write_str (uuid_to_string u)
      | Blob b \<Rightarrow> write_bin b
      | Json doc \<Rightarrow> Inr doc)"

section \<open>Decoding\<close>

abbreviation bad :: "MsgpackError \<Rightarrow> TypeError" where "bad e \<equiv> Msgpack e"

abbreviation between :: "u8 \<Rightarrow> u8 \<Rightarrow> u8 \<Rightarrow> bool" where "between h a b \<equiv> a \<le> h \<and> h \<le> b"

definition head_name :: "u8 \<Rightarrow> string" where
  "head_name h =
     (if h \<le> 0x7F \<or> 0xE0 \<le> h \<or> between h 0xCC 0xCF \<or> between h 0xD0 0xD3 then ''int''
      else if between h 0x80 0x8F \<or> h = 0xDE \<or> h = 0xDF then ''map''
      else if between h 0x90 0x9F \<or> h = 0xDC \<or> h = 0xDD then ''array''
      else if between h 0xA0 0xBF \<or> between h 0xD9 0xDB then ''str''
      else if h = 0xC0 then ''nil''
      else if h = 0xC2 \<or> h = 0xC3 then ''bool''
      else if between h 0xC4 0xC6 then ''bin''
      else if between h 0xC7 0xC9 \<or> between h 0xD4 0xD8 then ''ext''
      else if h = 0xCA \<or> h = 0xCB then ''float''
      else ''reserved'')"

definition wrong :: "TypeKind \<Rightarrow> u8 \<Rightarrow> TypeError" where
  "wrong expected h = WrongWireType expected (head_name h)"

definition mp_finish :: "bytes \<Rightarrow> TypeError + unit" where
  "mp_finish rest = (if rest = [] then Inr () else Inl (bad (MpTrailingBytes (length rest))))"

abbreviation mp_take :: "nat \<Rightarrow> bytes \<Rightarrow> TypeError + (bytes \<times> bytes)" where
  "mp_take n rest \<equiv> take_n (bad MpTruncated) n rest"

definition mp_byte :: "bytes \<Rightarrow> TypeError + (u8 \<times> bytes)" where
  "mp_byte rest = and_then (mp_take 1 rest) (\<lambda>(b, r). Inr (hd b, r))"

text \<open>A big-endian length or integer of \<open>n\<close> bytes, as an unsigned number.\<close>

definition mp_uint :: "nat \<Rightarrow> bytes \<Rightarrow> TypeError + (nat \<times> bytes)" where
  "mp_uint n rest = and_then (mp_take n rest) (\<lambda>(b, r). Inr (unat (from_be_bytes b :: u64), r))"

definition int_payload :: "TypeKind \<Rightarrow> u8 \<Rightarrow> bytes \<Rightarrow> TypeError + (i64 \<times> bytes)" where
  "int_payload k h rest =
     (if h \<le> 0x7F then Inr (ucast h, rest)
      else if 0xE0 \<le> h then Inr (scast h, rest)
      else if h = 0xCC then and_then (mp_byte rest) (\<lambda>(b, r). Inr (ucast b, r))
      else if h = 0xCD then
        and_then (mp_take 2 rest) (\<lambda>(b, r). Inr (ucast (from_be_bytes b :: u16), r))
      else if h = 0xCE then
        and_then (mp_take 4 rest) (\<lambda>(b, r). Inr (ucast (from_be_bytes b :: u32), r))
      else if h = 0xCF then
        and_then (mp_take 8 rest) (\<lambda>(b, r).
          let n = from_be_bytes b :: u64
          in if unat n < 2 ^ 63 then Inr (n, r) else Inl (bad (MpIntOutOfRange n)))
      else if h = 0xD0 then and_then (mp_byte rest) (\<lambda>(b, r). Inr (scast b, r))
      else if h = 0xD1 then
        and_then (mp_take 2 rest) (\<lambda>(b, r). Inr (scast (from_be_bytes b :: u16), r))
      else if h = 0xD2 then
        and_then (mp_take 4 rest) (\<lambda>(b, r). Inr (scast (from_be_bytes b :: u32), r))
      else if h = 0xD3 then and_then (mp_take 8 rest) (\<lambda>(b, r). Inr (from_be_bytes b, r))
      else Inl (wrong k h))"

definition str_payload :: "TypeKind \<Rightarrow> u8 \<Rightarrow> bytes \<Rightarrow> TypeError + (bytes \<times> bytes)" where
  "str_payload k h rest =
     and_then
       (if between h 0xA0 0xBF then Inr (unat (h AND 0x1F), rest)
        else if h = 0xD9 then mp_uint 1 rest
        else if h = 0xDA then mp_uint 2 rest
        else if h = 0xDB then mp_uint 4 rest
        else Inl (wrong k h))
       (\<lambda>(len, r). and_then (mp_take len r) (\<lambda>(s, r').
          if utf8_valid s then Inr (s, r') else Inl (bad MpInvalidUtf8)))"

definition blob_payload :: "TypeKind \<Rightarrow> u8 \<Rightarrow> bytes \<Rightarrow> TypeError + (bytes \<times> bytes)" where
  "blob_payload k h rest =
     and_then
       (if h = 0xC4 then mp_uint 1 rest
        else if h = 0xC5 then mp_uint 2 rest
        else if h = 0xC6 then mp_uint 4 rest
        else Inl (wrong k h))
       (\<lambda>(len, r). mp_take len r)"

text \<open>\<open>f64::from(f32)\<close> on bit patterns: exact widening; a NaN keeps its sign and payload and becomes
  quiet. A subnormal single is normalised: its leading significant bit becomes the implicit one.\<close>

fun top_bit_index :: "nat \<Rightarrow> u32 \<Rightarrow> nat" where
  "top_bit_index 0 m = 0"
| "top_bit_index (Suc n) m = (if bit m n then n else top_bit_index n m)"

definition f64_from_f32 :: "u32 \<Rightarrow> u64" where
  "f64_from_f32 w =
     (let sgn = push_bit 32 (ucast (w AND 0x80000000) :: u64);
          ex = unat (drop_bit 23 w AND 0xFF);
          man = w AND 0x7FFFFF
      in if ex = 0xFF then
           (if man = 0 then sgn OR 0x7FF0000000000000
            else sgn OR 0x7FF8000000000000 OR push_bit 29 (ucast man))
         else if ex \<noteq> 0 then
           sgn OR push_bit 52 (of_nat (ex + 896)) OR push_bit 29 (ucast man)
         else if man = 0 then sgn
         else (let t = top_bit_index 23 man;
                   frac = (ucast man :: u64) XOR push_bit t 1
               in sgn OR push_bit 52 (of_nat (t + 874)) OR push_bit (52 - t) frac))"

text \<open>What a head byte announces: payload bytes to skip and items to walk.\<close>

definition skip_head :: "u8 \<Rightarrow> bytes \<Rightarrow> TypeError + ((nat \<times> nat) \<times> bytes)" where
  "skip_head h rest =
     (let payload = (\<lambda>n. and_then (mp_uint n rest) (\<lambda>(len, r). Inr ((len, 0), r)));
          counted = (\<lambda>n k. and_then (mp_uint n rest) (\<lambda>(len, r). Inr ((0, len * k), r)))
      in if h \<le> 0x7F \<or> 0xE0 \<le> h \<or> h \<in> {0xC0, 0xC2, 0xC3} then Inr ((0, 0), rest)
         else if h \<in> {0xCC, 0xD0} then Inr ((1, 0), rest)
         else if h \<in> {0xCD, 0xD1} then Inr ((2, 0), rest)
         else if h \<in> {0xCE, 0xD2, 0xCA} then Inr ((4, 0), rest)
         else if h \<in> {0xCF, 0xD3, 0xCB} then Inr ((8, 0), rest)
         else if between h 0xA0 0xBF then Inr ((unat (h AND 0x1F), 0), rest)
         else if h \<in> {0xD9, 0xC4} then payload 1
         else if h \<in> {0xDA, 0xC5} then payload 2
         else if h \<in> {0xDB, 0xC6} then payload 4
         else if between h 0x80 0x8F then Inr ((0, unat (h AND 0x0F) * 2), rest)
         else if between h 0x90 0x9F then Inr ((0, unat (h AND 0x0F)), rest)
         else if h = 0xDC then counted 2 1
         else if h = 0xDD then counted 4 1
         else if h = 0xDE then counted 2 2
         else if h = 0xDF then counted 4 2
         else if h = 0xC1 then Inl (bad MpReserved)
         else Inl (bad MpExtNotAllowed))"

function (sequential) skip_value :: "nat \<Rightarrow> bytes \<Rightarrow> TypeError + bytes"
  and skip_items :: "nat \<Rightarrow> nat \<Rightarrow> bytes \<Rightarrow> TypeError + bytes" where
  "skip_value depth rest =
     (if depth > MAX_JSON_DEPTH then Inl (bad (MpDepthExceeded MAX_JSON_DEPTH))
      else and_then (mp_byte rest) (\<lambda>(h, r).
        and_then (skip_head h r) (\<lambda>((nbytes, items), r').
          and_then (mp_take nbytes r') (\<lambda>(_, r'').
            skip_items items (depth + 1) r''))))"
| "skip_items 0 depth rest = Inr rest"
| "skip_items (Suc n) depth rest =
     and_then (skip_value depth rest) (\<lambda>r. skip_items n depth r)"
  by pat_completeness auto
termination
  by (relation "measures [\<lambda>x. case x of Inl (d, _) \<Rightarrow> 66 - d | Inr (_, d, _) \<Rightarrow> 66 - d,
                          \<lambda>x. case x of Inl _ \<Rightarrow> 0 | Inr (n, _) \<Rightarrow> n + 1]") auto

definition validate_json :: "bytes \<Rightarrow> TypeError + unit" where
  "validate_json bs = and_then (skip_value 0 bs) mp_finish"

definition mp_value :: "TypeKind \<Rightarrow> bytes \<Rightarrow> TypeError + (value \<times> bytes)" where
  "mp_value k rest =
     (if k = TJson then
        (if rest \<noteq> [] \<and> hd rest = 0xC0 then Inr (Null, tl rest)
         else and_then (skip_value 0 rest) (\<lambda>r.
           Inr (Json (take (length rest - length r) rest), r)))
      else and_then (mp_byte rest) (\<lambda>(h, r).
        if h = 0xC0 then Inr (Null, r)
        else case k of
          TBool \<Rightarrow> if h = 0xC2 then Inr (Bool False, r)
                   else if h = 0xC3 then Inr (Bool True, r)
                   else Inl (wrong k h)
        | TI64 \<Rightarrow> and_then (int_payload k h r) (\<lambda>(x, r'). Inr (I64 x, r'))
        | TTimestamp \<Rightarrow> and_then (int_payload k h r) (\<lambda>(x, r'). Inr (Timestamp x, r'))
        | TF64 \<Rightarrow>
            if h = 0xCA then
              and_then (mp_take 4 r) (\<lambda>(b, r'). Inr (F64 (f64_from_f32 (from_be_bytes b)), r'))
            else if h = 0xCB then
              and_then (mp_take 8 r) (\<lambda>(b, r'). Inr (F64 (from_be_bytes b), r'))
            else Inl (wrong k h)
        | TText \<Rightarrow> and_then (str_payload k h r) (\<lambda>(s, r'). Inr (Text s, r'))
        | TUuid \<Rightarrow> and_then (str_payload k h r) (\<lambda>(s, r').
                     and_then (uuid_from_str s) (\<lambda>u. Inr (Uuid u, r')))
        | TBlob \<Rightarrow> and_then (blob_payload k h r) (\<lambda>(b, r'). Inr (Blob b, r'))
        | TJson \<Rightarrow> Inl (wrong k h)))"

definition decode_value :: "bytes \<Rightarrow> TypeKind \<Rightarrow> TypeError + value" where
  "decode_value bs k =
     and_then (mp_value k bs) (\<lambda>(v, r). and_then (mp_finish r) (\<lambda>_. Inr v))"

section \<open>Lemmas: readers\<close>





lemma mp_byte_Cons [simp]: "mp_byte (b # r) = Inr (b, r)"
  by (simp add: mp_byte_def)

lemma mp_byte_Nil [simp]: "mp_byte [] = Inl (bad MpTruncated)"
  by (simp add: mp_byte_def take_n_def)

lemma mp_byte_Inr: "mp_byte rest = Inr (h, r) \<longleftrightarrow> rest = h # r"
  by (cases rest) auto

section \<open>Lemmas: integers\<close>








section \<open>Lemmas: skipping is local\<close>

text \<open>A successful skip consumes a prefix, and what follows it does not matter.\<close>

definition local_reader :: "(bytes \<Rightarrow> 'e + ('a \<times> bytes)) \<Rightarrow> bool" where
  "local_reader f \<longleftrightarrow> (\<forall>rest x r s. f rest = Inr (x, r) \<longrightarrow>
     f (rest @ s) = Inr (x, r @ s) \<and> (\<exists>p. rest = p @ r))"

lemma local_return: "local_reader (\<lambda>rest. Inr (c, rest))" "local_reader (\<lambda>rest. Inl e)"
  by (simp_all add: local_reader_def)

lemma local_take: "local_reader (take_n e n)"
  by (auto simp: local_reader_def take_n_Inr)

lemma local_if: "local_reader f \<Longrightarrow> local_reader g \<Longrightarrow> local_reader (\<lambda>rest. if b then f rest else g rest)"
  by (cases b) simp_all

lemma local_bind:
  assumes "local_reader f" "\<And>x. local_reader (g x)"
  shows "local_reader (\<lambda>rest. and_then (f rest) (\<lambda>(x, r). g x r))"
  unfolding local_reader_def
proof (intro allI impI)
  fix rest x r s
  assume "and_then (f rest) (\<lambda>(x, r). g x r) = Inr (x, r)"
  then obtain y q where "f rest = Inr (y, q)" "g y q = Inr (x, r)" by auto
  with assms [unfolded local_reader_def] show
    "and_then (f (rest @ s)) (\<lambda>(x, r). g x r) = Inr (x, r @ s) \<and> (\<exists>p. rest = p @ r)"
    by fastforce
qed

lemma local_uint: "local_reader (mp_uint n)"
  unfolding mp_uint_def [abs_def] by (intro local_bind local_take local_return)

lemma skip_head_local: "local_reader (skip_head h)"
  unfolding skip_head_def [abs_def] Let_def
  by (intro local_if local_bind local_uint local_return)

lemma skip_local:
  "skip_value d rest = Inr r \<Longrightarrow> skip_value d (rest @ s) = Inr (r @ s) \<and> (\<exists>p. rest = p @ r)"
  "skip_items n d rest = Inr r \<Longrightarrow> skip_items n d (rest @ s) = Inr (r @ s) \<and> (\<exists>p. rest = p @ r)"
proof (induction d rest and n d rest arbitrary: r and r rule: skip_value_skip_items.induct)
  case (1 d rest)
  from "1.prems" obtain h r1 nb items r2 x r3 where
    st: "\<not> d > 64" "rest = h # r1" "skip_head h r1 = Inr ((nb, items), r2)"
      "r2 = x @ r3" "length x = nb" "skip_items items (d + 1) r3 = Inr r"
    by (auto simp: mp_byte_Inr take_n_Inr split: if_split_asm)
  have "mp_byte rest = Inr (h, r1)" "mp_take nb r2 = Inr (x, r3)" using st by simp_all
  note IH = "1.IH" [OF st(1) this(1) refl st(3) refl refl this(2) refl st(6)]
  from skip_head_local [of h] st(3) obtain p where
    hd: "skip_head h (r1 @ s) = Inr ((nb, items), r2 @ s)" "r1 = p @ r2"
    unfolding local_reader_def by blast
  from IH obtain q where q: "skip_items items (d + 1) (r3 @ s) = Inr (r @ s)" "r3 = q @ r" by blast
  have "skip_value d (rest @ s) = Inr (r @ s)"
    using st(1,4,5) hd(1) q(1) by (simp add: st(2))
  moreover have "rest = (h # p @ x @ q) @ r" using st(2,4) hd(2) q(2) by simp
  ultimately show ?case by blast
next
  case (3 n d rest)
  from "3.prems" obtain r1 where st: "skip_value d rest = Inr r1" "skip_items n d r1 = Inr r"
    by (auto simp del: skip_value.simps)
  from "3.IH"(1) [OF st(1)] "3.IH"(2) [OF st] obtain p q where
    "skip_value d (rest @ s) = Inr (r1 @ s)" "rest = p @ r1"
    "skip_items n d (r1 @ s) = Inr (r @ s)" "r1 = q @ r" by blast
  then have "skip_items (Suc n) d (rest @ s) = Inr (r @ s)" "rest = (p @ q) @ r"
    by (simp_all del: skip_value.simps)
  then show ?case by blast
qed simp

lemma validate_json_skip: "validate_json doc = Inr () \<longleftrightarrow> skip_value 0 doc = Inr []"
  by (cases "skip_value 0 doc") (simp_all add: validate_json_def mp_finish_def del: skip_value.simps)

section \<open>Lemmas: strings\<close>










section \<open>Properties\<close>






text \<open>What the document check accepts is self-delimiting: bytes after an accepted document are
  always reported as trailing, with their number, and never change how the document is read.\<close>

theorem validate_json_trailing:
  assumes "validate_json doc = Inr ()" "more \<noteq> []"
  shows "validate_json (doc @ more) = Inl (Msgpack (MpTrailingBytes (length more)))"
proof -
  have "skip_value 0 (doc @ more) = Inr more"
    using assms(1) skip_local(1) [of 0 doc "[]" more] by (simp add: validate_json_skip del: skip_value.simps)
  then show ?thesis using assms(2) by (simp add: validate_json_def mp_finish_def del: skip_value.simps)
qed

theorem validate_json_trailing_witness:
  "validate_json ([0xC3] @ [0x92, 0x01]) = Inl (Msgpack (MpTrailingBytes (length [0x92, 0x01 :: u8])))"
  by (rule validate_json_trailing)
    (simp_all add: validate_json_def mp_finish_def skip_head_def take_n_def)

text \<open>The document \<open>nil\<close> passes the ingestion gate as \<open>json\<close> but does not survive the wire.\<close>

lemma json_nil_not_preserved:
  "validate_json [0xC0] = Inr ()"
  "and_then (encode_value (Json [0xC0])) (\<lambda>bs. decode_value bs TJson) = Inr Null"
  by (simp_all add: validate_json_def mp_finish_def skip_head_def take_n_def encode_value_def
      decode_value_def mp_value_def)

end
