(* ===== verification/StateErr.thy ===== *)
theory StateErr
  imports Prelude
begin

text \<open>
  Methods that both mutate an object and return a \<open>Result\<close>: a function from the state to the result
  and the state it leaves behind. An error keeps the state reached when it was raised.
\<close>

type_synonym ('s, 'e, 'a) st = "'s \<Rightarrow> ('e + 'a) \<times> 's"

definition st_return :: "'a \<Rightarrow> ('s, 'e, 'a) st" where
  "st_return x = (\<lambda>s. (Inr x, s))"

definition st_throw :: "'e \<Rightarrow> ('s, 'e, 'a) st" where
  "st_throw e = (\<lambda>s. (Inl e, s))"

definition st_lift :: "'e + 'a \<Rightarrow> ('s, 'e, 'a) st" where
  "st_lift r = (\<lambda>s. (r, s))"

definition st_get :: "('s \<Rightarrow> 'a) \<Rightarrow> ('s, 'e, 'a) st" where
  "st_get f = (\<lambda>s. (Inr (f s), s))"

definition st_modify :: "('s \<Rightarrow> 's) \<Rightarrow> ('s, 'e, unit) st" where
  "st_modify f = (\<lambda>s. (Inr (), f s))"

definition st_bind :: "('s, 'e, 'a) st \<Rightarrow> ('a \<Rightarrow> ('s, 'e, 'b) st) \<Rightarrow> ('s, 'e, 'b) st" where
  "st_bind m f = (\<lambda>s. case m s of (Inl e, s') \<Rightarrow> (Inl e, s') | (Inr x, s') \<Rightarrow> f x s')"

definition st_map_err :: "('e \<Rightarrow> 'f) \<Rightarrow> ('s, 'e, 'a) st \<Rightarrow> ('s, 'f, 'a) st" where
  "st_map_err g m = (\<lambda>s. case m s of (r, s') \<Rightarrow> (map_err g r, s'))"

text \<open>\<open>for x in xs { f(x)?; }\<close>\<close>

primrec st_each :: "('a \<Rightarrow> ('s, 'e, unit) st) \<Rightarrow> 'a list \<Rightarrow> ('s, 'e, unit) st" where
  "st_each f [] = st_return ()"
| "st_each f (x # xs) = st_bind (f x) (\<lambda>_. st_each f xs)"

text \<open>A method of a component run on the field of its owner.\<close>

definition st_zoom :: "('s \<Rightarrow> 'b) \<Rightarrow> ('b \<Rightarrow> 's \<Rightarrow> 's) \<Rightarrow> ('b, 'e, 'a) st \<Rightarrow> ('s, 'e, 'a) st" where
  "st_zoom get put m = (\<lambda>s. case m (get s) of (r, b) \<Rightarrow> (r, put b s))"

named_theorems st_simps \<open>unfolding of state-and-result methods\<close>

lemma st_basic [simp, st_simps]:
  "st_return x s = (Inr x, s)" "st_throw e s = (Inl e, s)" "st_lift r s = (r, s)"
  "st_get f s = (Inr (f s), s)" "st_modify g s = (Inr (), g s)"
  by (simp_all add: st_return_def st_throw_def st_lift_def st_get_def st_modify_def)

lemma st_bind_Inr: "m s = (Inr x, s') \<Longrightarrow> st_bind m f s = f x s'"
  by (simp add: st_bind_def)

lemma st_bind_Inl: "m s = (Inl e, s') \<Longrightarrow> st_bind m f s = (Inl e, s')"
  by (simp add: st_bind_def)

lemmas st_bind_simps [simp, st_simps] = st_bind_Inr st_bind_Inl

lemma st_bindE:
  assumes "st_bind m f s = (r, s')"
  obtains (err) e where "m s = (Inl e, s')" "r = Inl e"
  | (ok) x s1 where "m s = (Inr x, s1)" "f x s1 = (r, s')"
  using assms by (auto simp: st_bind_def split: prod.splits sum.splits)

lemma st_bind_okE [elim!]:
  assumes "st_bind m f s = (Inr y, s')"
  obtains x s1 where "m s = (Inr x, s1)" "f x s1 = (Inr y, s')"
  using assms by (auto elim: st_bindE)

lemma st_map_err_simps [simp, st_simps]:
  "m s = (Inr x, s') \<Longrightarrow> st_map_err g m s = (Inr x, s')"
  "m s = (Inl e, s') \<Longrightarrow> st_map_err g m s = (Inl (g e), s')"
  by (simp_all add: st_map_err_def)

lemma st_map_err_Inr [simp]: "st_map_err g m s = (Inr x, s') \<longleftrightarrow> m s = (Inr x, s')"
  by (auto simp: st_map_err_def split: prod.splits)

lemma st_map_errE:
  assumes "st_map_err g m s = (r, s')"
  obtains q where "m s = (q, s')" "r = map_err g q"
  using assms by (auto simp: st_map_err_def split: prod.splits)

lemma st_bind_cong [fundef_cong]:
  assumes "m s = m' s'" "\<And>x t. m' s' = (Inr x, t) \<Longrightarrow> f x t = f' x t" "s = s'"
  shows "st_bind m f s = st_bind m' f' s'"
  using assms by (auto simp: st_bind_def split: prod.splits sum.splits)

text \<open>A loop keeps what each of its iterations keeps.\<close>

lemma st_each_inv:
  assumes "st_each f xs s = (r, s')" "P s"
    and "\<And>x s r s'. x \<in> set xs \<Longrightarrow> P s \<Longrightarrow> f x s = (r, s') \<Longrightarrow> P s'"
  shows "P s'"
  using assms
proof (induction xs arbitrary: s)
  case (Cons x xs)
  from Cons.prems(1) show ?case
    unfolding st_each.simps
  proof (cases rule: st_bindE)
    case err
    then show ?thesis using Cons.prems(2,3) by (metis list.set_intros(1))
  next
    case (ok y s1)
    then have "P s1" using Cons.prems(2,3) by (metis list.set_intros(1))
    with ok(2) Cons show ?thesis by (metis list.set_intros(2))
  qed
qed simp

end
