(* ===== verification/Backend.thy ===== *)
theory Backend
  imports StateErr Errors
begin

text \<open>
  Block I/O (\<open>crates/common/src/io.rs\<close>): the \<open>IoBackend\<close> trait as a record of operations, the
  in-memory store and the fault-injecting wrapper. The contract of the trait is the locale
  \<open>block_store\<close>; it is interpreted on the in-memory store and on the wrapper over it.
\<close>

section \<open>The trait\<close>

record 'b io_ops =
  io_read_at :: "u64 \<Rightarrow> nat \<Rightarrow> ('b, IoError, bytes) st"
  io_write_at :: "u64 \<Rightarrow> bytes \<Rightarrow> ('b, IoError, unit) st"
  io_sync :: "('b, IoError, unit) st"
  io_len :: "('b, IoError, u64) st"
  io_truncate :: "u64 \<Rightarrow> ('b, IoError, unit) st"

section \<open>The in-memory store\<close>

text \<open>\<open>Vec::resize(n, 0)\<close>\<close>

definition vec_resize :: "nat \<Rightarrow> bytes \<Rightarrow> bytes" where
  "vec_resize n xs = take n xs @ replicate (n - length xs) 0"

definition mem_read_at :: "u64 \<Rightarrow> nat \<Rightarrow> (bytes, IoError, bytes) st" where
  "mem_read_at offset n mem =
     (let size = length mem; last_byte = unat offset + n
      in if 2 ^ 64 \<le> last_byte then (Inl (IoOutOfBounds (unat offset) n size), mem)
         else if last_byte > size then (Inl (IoOutOfBounds (unat offset) n size), mem)
         else (Inr (subslice (unat offset) n mem), mem))"

definition mem_write_at :: "u64 \<Rightarrow> bytes \<Rightarrow> (bytes, IoError, unit) st" where
  "mem_write_at offset src mem =
     (let last_byte = unat offset + length src
      in if 2 ^ 64 \<le> last_byte
         then (Inl (IoOutOfBounds (unat offset) (length src) (length mem)), mem)
         else (let mem' = (if length mem < last_byte then vec_resize last_byte mem else mem)
               in (Inr (), splice (unat offset) src mem')))"

definition mem_sync :: "(bytes, IoError, unit) st" where
  "mem_sync mem = (Inr (), mem)"

definition mem_len :: "(bytes, IoError, u64) st" where
  "mem_len mem = (Inr (of_nat (length mem)), mem)"

definition mem_truncate :: "u64 \<Rightarrow> (bytes, IoError, unit) st" where
  "mem_truncate n mem = (Inr (), vec_resize (unat n) mem)"

definition mem_ops :: "bytes io_ops" where
  "mem_ops = \<lparr> io_read_at = mem_read_at, io_write_at = mem_write_at, io_sync = mem_sync,
     io_len = mem_len, io_truncate = mem_truncate \<rparr>"

section \<open>Fault injection\<close>

record 'b faulty =
  inner :: 'b
  armed :: "(FaultPoint \<times> u64) option"
  reads :: u64
  writes :: u64
  syncs :: u64

definition fault_new :: "'b \<Rightarrow> 'b faulty" where
  "fault_new b = \<lparr> inner = b, armed = None, reads = 0, writes = 0, syncs = 0 \<rparr>"

definition fault_arm :: "FaultPoint \<Rightarrow> u64 \<Rightarrow> 'b faulty \<Rightarrow> 'b faulty" where
  "fault_arm point occurrence s = s\<lparr> armed := Some (point, occurrence) \<rparr>"

definition fault_disarm :: "'b faulty \<Rightarrow> 'b faulty" where
  "fault_disarm s = s\<lparr> armed := None \<rparr>"

definition reset_counters :: "'b faulty \<Rightarrow> 'b faulty" where
  "reset_counters s = s\<lparr> reads := 0, writes := 0, syncs := 0 \<rparr>"

text \<open>\<open>counter(point).fetch_add(1) + 1\<close>\<close>

definition bump_counter :: "FaultPoint \<Rightarrow> 'b faulty \<Rightarrow> u64 \<times> 'b faulty" where
  "bump_counter point s =
     (case point of
        ReadPoint \<Rightarrow> (reads s + 1, s\<lparr> reads := reads s + 1 \<rparr>)
      | WritePoint \<Rightarrow> (writes s + 1, s\<lparr> writes := writes s + 1 \<rparr>)
      | SyncPoint \<Rightarrow> (syncs s + 1, s\<lparr> syncs := syncs s + 1 \<rparr>))"

definition fault_check :: "FaultPoint \<Rightarrow> ('b faulty, IoError, unit) st" where
  "fault_check point s =
     (let (occurrence, s') = bump_counter point s
      in (if armed s = Some (point, occurrence) then Inl (IoInjected point (unat occurrence))
          else Inr (), s'))"

definition on_inner :: "('b, 'e, 'a) st \<Rightarrow> ('b faulty, 'e, 'a) st" where
  "on_inner = st_zoom inner (\<lambda>b s. s\<lparr> inner := b \<rparr>)"

definition fault_ops :: "'b io_ops \<Rightarrow> 'b faulty io_ops" where
  "fault_ops ops =
     \<lparr> io_read_at = (\<lambda>offset n. st_bind (fault_check ReadPoint) (\<lambda>_. on_inner (io_read_at ops offset n))),
       io_write_at = (\<lambda>offset d. st_bind (fault_check WritePoint) (\<lambda>_. on_inner (io_write_at ops offset d))),
       io_sync = st_bind (fault_check SyncPoint) (\<lambda>_. on_inner (io_sync ops)),
       io_len = on_inner (io_len ops),
       io_truncate = (\<lambda>n. on_inner (io_truncate ops n)) \<rparr>"

section \<open>The contract\<close>

text \<open>Content of a store after a write that may extend it.\<close>

definition write_range :: "nat \<Rightarrow> bytes \<Rightarrow> bytes \<Rightarrow> bytes" where
  "write_range at xs d =
     splice at xs (if length d < at + length xs then vec_resize (at + length xs) d else d)"

locale block_store =
  fixes ops :: "'b io_ops" and disk :: "'b \<Rightarrow> bytes"
  assumes read_at_disk: "io_read_at ops at n b = (r, b') \<Longrightarrow> disk b' = disk b"
    and read_at_ok: "io_read_at ops at n b = (Inr x, b') \<Longrightarrow>
      unat at + n \<le> length (disk b) \<and> x = subslice (unat at) n (disk b)"
    and write_at_ok: "io_write_at ops at xs b = (Inr (), b') \<Longrightarrow>
      disk b' = write_range (unat at) xs (disk b)"
    and write_at_err: "io_write_at ops at xs b = (Inl e, b') \<Longrightarrow> disk b' = disk b"
    and sync_disk: "io_sync ops b = (rs, b') \<Longrightarrow> disk b' = disk b"
    and len_disk: "io_len ops b = (rl, b') \<Longrightarrow> disk b' = disk b"
    and len_ok: "io_len ops b = (Inr l, b') \<Longrightarrow> l = of_nat (length (disk b))"
    and truncate_ok: "io_truncate ops l b = (Inr (), b') \<Longrightarrow> disk b' = vec_resize (unat l) (disk b)"
    and truncate_err: "io_truncate ops l b = (Inl e, b') \<Longrightarrow> disk b' = disk b"

lemma length_vec_resize [simp]: "length (vec_resize n xs) = n"
  by (simp add: vec_resize_def)

lemma subslice_vec_resize:
  "at + n \<le> m \<Longrightarrow> at + n \<le> length xs \<Longrightarrow> subslice at n (vec_resize m xs) = subslice at n xs"
  by (simp add: subslice_def vec_resize_def drop_take min_def)

lemma subslice_write_range_same: "subslice at (length xs) (write_range at xs d) = xs"
  by (simp add: write_range_def subslice_splice_same)

lemma subslice_write_range_other:
  assumes "at' + n \<le> length d" "at' + n \<le> at \<or> at + length xs \<le> at'"
  shows "subslice at' n (write_range at xs d) = subslice at' n d"
  using assms by (auto simp: write_range_def subslice_splice subslice_vec_resize)

lemma length_write_range: "length (write_range at xs d) = max (length d) (at + length xs)"
  by (simp add: write_range_def)

interpretation mem: block_store mem_ops "\<lambda>b. b"
  by unfold_locales
    (auto simp: mem_ops_def mem_read_at_def mem_write_at_def mem_sync_def mem_len_def
      mem_truncate_def Let_def write_range_def split: if_splits)

lemma fault_check_disk: "fault_check p s = (r, s') \<Longrightarrow> inner s' = inner s"
  by (cases p) (auto simp: fault_check_def bump_counter_def Let_def)

lemma on_innerE:
  assumes "on_inner m s = (r, s')"
  obtains b where "m (inner s) = (r, b)" "s' = s\<lparr> inner := b \<rparr>"
  using assms by (auto simp: on_inner_def st_zoom_def split: prod.splits)

text \<open>The wrapper keeps the contract of what it wraps: a tripped operation has no effect on the
  content.\<close>

lemma fault_guardE:
  assumes "st_bind (fault_check p) (\<lambda>_. on_inner m) s = (r, s')"
  obtains (tripped) e where "r = Inl e" "inner s' = inner s"
  | (passed) "m (inner s) = (r, inner s')"
  using assms
proof (cases rule: st_bindE)
  case (ok x s1)
  from ok(2) show ?thesis
  proof (rule on_innerE)
    fix b assume "m (inner s1) = (r, b)" "s' = s1\<lparr> inner := b \<rparr>"
    with ok(1) show ?thesis using passed fault_check_disk by fastforce
  qed
qed (use tripped fault_check_disk in blast)

lemma fault_block_store:
  assumes "block_store ops disk"
  shows "block_store (fault_ops ops) (\<lambda>s. disk (inner s))"
proof -
  note laws = block_store.read_at_disk [OF assms] block_store.read_at_ok [OF assms]
    block_store.write_at_ok [OF assms] block_store.write_at_err [OF assms]
    block_store.sync_disk [OF assms] block_store.len_disk [OF assms] block_store.len_ok [OF assms]
    block_store.truncate_ok [OF assms] block_store.truncate_err [OF assms]
  show ?thesis
    by (rule block_store.intro; simp only: fault_ops_def io_ops.simps;
        (erule fault_guardE | erule on_innerE); (drule laws | simp); simp)
qed

interpretation fault_mem: block_store "fault_ops mem_ops" "\<lambda>s. inner s"
  using fault_block_store [OF mem.block_store_axioms] .

section \<open>Properties\<close>

text \<open>Consecutive calls of one kind, recording which of them were refused.\<close>

fun check_run :: "FaultPoint \<Rightarrow> nat \<Rightarrow> 'b faulty \<Rightarrow> bool list" where
  "check_run p 0 s = []"
| "check_run p (Suc n) s = (let (r, s1) = fault_check p s in isl r # check_run p n s1)"

definition counter :: "FaultPoint \<Rightarrow> 'b faulty \<Rightarrow> u64" where
  "counter p s = (case p of ReadPoint \<Rightarrow> reads s | WritePoint \<Rightarrow> writes s | SyncPoint \<Rightarrow> syncs s)"

lemma fault_check_step:
  "fault_check p s = (r, s') \<Longrightarrow> armed s' = armed s \<and> counter p s' = counter p s + 1
     \<and> (isl r \<longleftrightarrow> armed s = Some (p, counter p s + 1))"
  by (cases p) (auto simp: fault_check_def bump_counter_def counter_def Let_def split: if_split_asm)

lemma unat_of_nat_u64: "a < 2 ^ 64 \<Longrightarrow> unat (of_nat a :: u64) = a"
  by (simp add: unat_of_nat take_bit_nat_eq_self)

lemma of_nat_u64_eq: "a < 2 ^ 64 \<Longrightarrow> b < 2 ^ 64 \<Longrightarrow> (of_nat a :: u64) = of_nat b \<longleftrightarrow> a = b"
  by (metis unat_of_nat_u64)

lemma check_run_from:
  assumes "counter p s = of_nat c" "c + n < 2 ^ 64" "k < 2 ^ 64" "armed s = Some (p, of_nat k)"
  shows "check_run p n s = map (\<lambda>i. c + i + 1 = k) [0..<n]"
  using assms
proof (induction n arbitrary: s c)
  case (Suc n)
  obtain r s1 where f: "fault_check p s = (r, s1)" by fastforce
  note step = fault_check_step [OF f]
  have "isl r \<longleftrightarrow> c + 1 = k"
    using step Suc.prems of_nat_u64_eq [of k "c + 1"] by auto
  moreover have "check_run p n s1 = map (\<lambda>i. (c + 1) + i + 1 = k) [0..<n]"
    using Suc.prems step by (intro Suc.IH) (auto simp: add.commute)
  moreover have "[0..<Suc n] = 0 # map Suc [0..<n]" by (simp add: map_Suc_upt upt_conv_Cons del: upt_Suc)
  ultimately show ?case using f by (simp del: upt_Suc)
qed simp

text \<open>A fault armed on the k-th operation of a kind trips exactly that occurrence: counting
  from a reset, the k-th call of the kind is refused and every other call goes through.\<close>

theorem fault_trips_once:
  assumes "n < 2 ^ 64" "k < 2 ^ 64"
  shows "check_run p n (fault_arm p (of_nat k) (reset_counters s)) = map (\<lambda>i. i + 1 = k) [0..<n]"
  using check_run_from [of p "fault_arm p (of_nat k) (reset_counters s)" 0 n k] assms
  by (cases p) (simp_all add: counter_def fault_arm_def reset_counters_def)

theorem fault_trips_once_witness:
  "check_run SyncPoint 3 (fault_arm SyncPoint 2 (reset_counters (fault_new ([] :: bytes))))
     = [False, True, False]"
  using fault_trips_once [of 3 2 SyncPoint "fault_new ([] :: bytes)"]
  by (simp add: upt_rec)

end
