(* ===== verification/Page.thy ===== *)
theory Page
  imports Crc32c Errors
begin

text \<open>
  The on-disk page frame (\<open>crates/pager/src/page.rs\<close>), the double-buffered meta page
  (\<open>meta.rs\<close>) and the free-list trunk layout (\<open>freelist.rs\<close>). A frame is a byte list of length
  \<open>PAGE_SIZE\<close>; a field is written by \<open>splice\<close> (\<open>copy_from_slice\<close> into a range) and read by
  \<open>subslice\<close>.
\<close>

section \<open>Frames\<close>

type_synonym PageId = u64

abbreviation PAGE_SIZE :: nat where "PAGE_SIZE \<equiv> 4096"
abbreviation HEADER_SIZE :: nat where "HEADER_SIZE \<equiv> 16"
abbreviation PAGE_PAYLOAD_SIZE :: nat where "PAGE_PAYLOAD_SIZE \<equiv> 4080"
abbreviation FIRST_DATA_PAGE :: u64 where "FIRST_DATA_PAGE \<equiv> 2"

abbreviation CRC_OFF :: nat where "CRC_OFF \<equiv> 0"
abbreviation TYPE_OFF :: nat where "TYPE_OFF \<equiv> 4"
abbreviation FLAGS_OFF :: nat where "FLAGS_OFF \<equiv> 5"
abbreviation ID_OFF :: nat where "ID_OFF \<equiv> 8"

datatype PageType = MetaPage | FreelistPage | DataPage

fun page_type_u8 :: "PageType \<Rightarrow> u8" where
  "page_type_u8 MetaPage = 1"
| "page_type_u8 FreelistPage = 2"
| "page_type_u8 DataPage = 3"

definition page_type_from_u8 :: "u8 \<Rightarrow> PageType option" where
  "page_type_from_u8 b =
     (if b = 1 then Some MetaPage else if b = 2 then Some FreelistPage
      else if b = 3 then Some DataPage else None)"

definition zeroed :: bytes where
  "zeroed = replicate PAGE_SIZE 0"

definition read_u32 :: "bytes \<Rightarrow> nat \<Rightarrow> u32" where
  "read_u32 frame at = from_le_bytes (subslice at 4 frame)"

definition read_u64 :: "bytes \<Rightarrow> nat \<Rightarrow> u64" where
  "read_u64 frame at = from_le_bytes (subslice at 8 frame)"

definition write_u32 :: "nat \<Rightarrow> u32 \<Rightarrow> bytes \<Rightarrow> bytes" where
  "write_u32 at v frame = splice at (to_le_bytes 4 v) frame"

definition write_u64 :: "nat \<Rightarrow> u64 \<Rightarrow> bytes \<Rightarrow> bytes" where
  "write_u64 at v frame = splice at (to_le_bytes 8 v) frame"

definition corrupt :: "CorruptionKind \<Rightarrow> PagerError" where
  "corrupt k = PagerCorruption k"

definition as_frame :: "bytes \<Rightarrow> PageId \<Rightarrow> PagerError + bytes" where
  "as_frame bs page =
     (if length bs = PAGE_SIZE then Inr bs else Inl (corrupt (TruncatedPage page)))"

definition page_type :: "bytes \<Rightarrow> PagerError + PageType" where
  "page_type frame =
     ok_or (corrupt (UnknownPageType (frame ! TYPE_OFF))) (page_type_from_u8 (frame ! TYPE_OFF))"

definition page_id :: "bytes \<Rightarrow> u64" where
  "page_id frame = read_u64 frame ID_OFF"

definition verify :: "bytes \<Rightarrow> PageId \<Rightarrow> PagerError + bytes" where
  "verify bs expected =
     and_then (as_frame bs expected) (\<lambda>frame.
       if read_u32 frame CRC_OFF \<noteq> crc32c (drop TYPE_OFF frame)
       then Inl (corrupt (Checksum expected))
       else if page_id frame \<noteq> expected
       then Inl (corrupt (PageIdMismatch expected (page_id frame)))
       else Inr frame)"

definition finalize :: "PageType \<Rightarrow> PageId \<Rightarrow> bytes \<Rightarrow> bytes" where
  "finalize ty pid frame =
     (let f1 = frame[TYPE_OFF := page_type_u8 ty, FLAGS_OFF := 0, 6 := 0, 7 := 0];
          f2 = write_u64 ID_OFF pid f1;
          crc = crc32c (drop TYPE_OFF f2)
      in write_u32 CRC_OFF crc f2)"

definition set_payload :: "bytes \<Rightarrow> bytes \<Rightarrow> PagerError + bytes" where
  "set_payload payload frame =
     (if length payload > PAGE_PAYLOAD_SIZE
      then Inl (PayloadTooLarge (length payload) PAGE_PAYLOAD_SIZE)
      else Inr (splice HEADER_SIZE payload frame))"

section \<open>Meta pages\<close>

abbreviation MAGIC :: bytes where
  "MAGIC \<equiv> [0x4F, 0x54, 0x46, 0x2D, 0x45, 0x44, 0x42, 0x01]"

abbreviation FORMAT_VERSION :: u32 where "FORMAT_VERSION \<equiv> 1"

abbreviation MAGIC_OFF :: nat where "MAGIC_OFF \<equiv> 16"
abbreviation VERSION_OFF :: nat where "VERSION_OFF \<equiv> 24"
abbreviation PAGE_SIZE_OFF :: nat where "PAGE_SIZE_OFF \<equiv> 28"
abbreviation TXN_OFF :: nat where "TXN_OFF \<equiv> 32"
abbreviation PAGE_COUNT_OFF :: nat where "PAGE_COUNT_OFF \<equiv> 40"
abbreviation FREE_HEAD_OFF :: nat where "FREE_HEAD_OFF \<equiv> 48"
abbreviation FREE_LEN_OFF :: nat where "FREE_LEN_OFF \<equiv> 56"
abbreviation CATALOG_OFF :: nat where "CATALOG_OFF \<equiv> 64"

record Meta =
  format_version :: u32
  page_size :: u32
  txn_id :: u64
  page_count :: u64
  freelist_head :: "PageId option"
  freelist_len :: u64
  catalog_root :: "PageId option"

definition meta_initial :: Meta where
  "meta_initial = \<lparr> format_version = FORMAT_VERSION, page_size = of_nat PAGE_SIZE, txn_id = 0,
     page_count = FIRST_DATA_PAGE, freelist_head = None, freelist_len = 0, catalog_root = None \<rparr>"

definition opt_to_u64 :: "PageId option \<Rightarrow> u64" where
  "opt_to_u64 p = (case p of None \<Rightarrow> 0 | Some i \<Rightarrow> i)"

definition u64_to_opt :: "u64 \<Rightarrow> PageId option" where
  "u64_to_opt v = (if v = 0 then None else Some v)"

definition meta_encode :: "Meta \<Rightarrow> bytes \<Rightarrow> bytes" where
  "meta_encode m frame =
     write_u64 CATALOG_OFF (opt_to_u64 (catalog_root m))
     (write_u64 FREE_LEN_OFF (freelist_len m)
     (write_u64 FREE_HEAD_OFF (opt_to_u64 (freelist_head m))
     (write_u64 PAGE_COUNT_OFF (page_count m)
     (write_u64 TXN_OFF (txn_id m)
     (write_u32 PAGE_SIZE_OFF (page_size m)
     (write_u32 VERSION_OFF (format_version m)
     (splice MAGIC_OFF MAGIC frame)))))))"

definition meta_decode :: "bytes \<Rightarrow> PageId \<Rightarrow> PagerError + Meta" where
  "meta_decode frame slot =
     (if subslice MAGIC_OFF 8 frame \<noteq> MAGIC then Inl (corrupt BadMagic)
      else if read_u32 frame VERSION_OFF \<noteq> FORMAT_VERSION
      then Inl (UnsupportedVersion (read_u32 frame VERSION_OFF) FORMAT_VERSION)
      else if unat (read_u32 frame PAGE_SIZE_OFF) \<noteq> PAGE_SIZE
      then Inl (corrupt (BadPageSize (read_u32 frame PAGE_SIZE_OFF)))
      else
        let m = \<lparr> format_version = read_u32 frame VERSION_OFF,
                  page_size = read_u32 frame PAGE_SIZE_OFF,
                  txn_id = read_u64 frame TXN_OFF,
                  page_count = read_u64 frame PAGE_COUNT_OFF,
                  freelist_head = u64_to_opt (read_u64 frame FREE_HEAD_OFF),
                  freelist_len = read_u64 frame FREE_LEN_OFF,
                  catalog_root = u64_to_opt (read_u64 frame CATALOG_OFF) \<rparr>
        in if page_count m < FIRST_DATA_PAGE then Inl (corrupt (BadMeta slot)) else Inr m)"

section \<open>Free-list trunks\<close>

abbreviation NEXT_OFF :: nat where "NEXT_OFF \<equiv> 16"
abbreviation COUNT_OFF :: nat where "COUNT_OFF \<equiv> 24"
abbreviation IDS_OFF :: nat where "IDS_OFF \<equiv> 28"
abbreviation CAPACITY :: nat where "CAPACITY \<equiv> 508"

definition trunk_next :: "bytes \<Rightarrow> u64" where
  "trunk_next frame = read_u64 frame NEXT_OFF"

definition set_next :: "u64 \<Rightarrow> bytes \<Rightarrow> bytes" where
  "set_next v frame = write_u64 NEXT_OFF v frame"

definition trunk_count :: "bytes \<Rightarrow> u32" where
  "trunk_count frame = read_u32 frame COUNT_OFF"

definition set_count :: "u32 \<Rightarrow> bytes \<Rightarrow> bytes" where
  "set_count v frame = write_u32 COUNT_OFF v frame"

definition id_at :: "bytes \<Rightarrow> nat \<Rightarrow> u64" where
  "id_at frame index = read_u64 frame (IDS_OFF + index * 8)"

definition set_id_at :: "nat \<Rightarrow> u64 \<Rightarrow> bytes \<Rightarrow> bytes" where
  "set_id_at index v frame = write_u64 (IDS_OFF + index * 8) v frame"

section \<open>Lemmas: fields\<close>

lemma CAPACITY_eq: "CAPACITY = (PAGE_SIZE - IDS_OFF) div 8"
  by simp

lemma length_zeroed [simp]: "length zeroed = PAGE_SIZE"
  by (simp add: zeroed_def)

lemma length_write [simp]:
  "at + 4 \<le> length frame \<Longrightarrow> length (write_u32 at v frame) = length frame"
  "at + 8 \<le> length frame \<Longrightarrow> length (write_u64 at w frame) = length frame"
  by (simp_all add: write_u32_def write_u64_def)

lemma read_write [simp]:
  "at + 4 \<le> length frame \<Longrightarrow> read_u32 (write_u32 at v frame) at = v"
  "at + 8 \<le> length frame \<Longrightarrow> read_u64 (write_u64 at w frame) at = w"
  by (simp_all add: read_u32_def read_u64_def write_u32_def write_u64_def subslice_splice_same)

lemma read_write_other [simp]:
  "at + 4 \<le> at' \<or> at' + 4 \<le> at \<Longrightarrow> at + 4 \<le> length frame \<Longrightarrow>
     read_u32 (write_u32 at v frame) at' = read_u32 frame at'"
  "at + 8 \<le> at' \<or> at' + 4 \<le> at \<Longrightarrow> at + 8 \<le> length frame \<Longrightarrow>
     read_u32 (write_u64 at w frame) at' = read_u32 frame at'"
  "at + 4 \<le> at' \<or> at' + 8 \<le> at \<Longrightarrow> at + 4 \<le> length frame \<Longrightarrow>
     read_u64 (write_u32 at v frame) at' = read_u64 frame at'"
  "at + 8 \<le> at' \<or> at' + 8 \<le> at \<Longrightarrow> at + 8 \<le> length frame \<Longrightarrow>
     read_u64 (write_u64 at w frame) at' = read_u64 frame at'"
  by (auto simp: read_u32_def read_u64_def write_u32_def write_u64_def subslice_splice)

lemma subslice_write [simp]:
  "at + 4 \<le> at' \<or> at' + n \<le> at \<Longrightarrow> at + 4 \<le> length frame \<Longrightarrow>
     subslice at' n (write_u32 at v frame) = subslice at' n frame"
  "at + 8 \<le> at' \<or> at' + n \<le> at \<Longrightarrow> at + 8 \<le> length frame \<Longrightarrow>
     subslice at' n (write_u64 at w frame) = subslice at' n frame"
  by (auto simp: write_u32_def write_u64_def subslice_splice)

section \<open>Lemmas: frames\<close>

text \<open>A finalized frame is its stamped header followed by the untouched payload region.\<close>

definition page_body :: "PageType \<Rightarrow> PageId \<Rightarrow> bytes \<Rightarrow> bytes" where
  "page_body ty pid frame = [page_type_u8 ty, 0, 0, 0] @ to_le_bytes 8 pid @ drop HEADER_SIZE frame"

lemma finalize_eq:
  assumes "length frame = PAGE_SIZE"
  shows "finalize ty pid frame =
    to_le_bytes 4 (crc32c (page_body ty pid frame)) @ page_body ty pid frame"
proof -
  define f1 where "f1 = frame[TYPE_OFF := page_type_u8 ty, FLAGS_OFF := 0, 6 := 0, 7 := 0]"
  have len: "length f1 = PAGE_SIZE" by (simp add: f1_def assms)
  have "take 8 f1 = take 4 frame @ [page_type_u8 ty, 0, 0, 0]"
    using assms unfolding f1_def
    by (intro nth_equalityI) (auto simp: nth_append nth_list_update less_Suc_eq numeral_eq_Suc)
  moreover have "drop 16 f1 = drop 16 frame"
    by (simp add: f1_def)
  ultimately have "drop 4 (write_u64 ID_OFF pid f1) = page_body ty pid frame"
    using assms by (simp add: write_u64_def splice_def page_body_def)
  moreover have "write_u32 CRC_OFF c f = to_le_bytes 4 c @ drop 4 f" for c f
    by (simp add: write_u32_def splice_def)
  ultimately show ?thesis unfolding finalize_def Let_def f1_def [symmetric] by simp
qed

lemma length_page_body [simp]: "length frame = PAGE_SIZE \<Longrightarrow> length (page_body ty pid frame) = 4092"
  by (simp add: page_body_def)

lemma length_finalize [simp]: "length frame = PAGE_SIZE \<Longrightarrow> length (finalize ty pid frame) = PAGE_SIZE"
  by (simp add: finalize_eq)

lemma finalize_fields:
  assumes "length frame = PAGE_SIZE"
  shows "finalize ty pid frame ! TYPE_OFF = page_type_u8 ty" "page_id (finalize ty pid frame) = pid"
    "drop HEADER_SIZE (finalize ty pid frame) = drop HEADER_SIZE frame"
  using assms by (simp_all add: finalize_eq page_body_def nth_append page_id_def read_u64_def subslice_def)

lemma finalize_subslice:
  assumes "length frame = PAGE_SIZE" "HEADER_SIZE \<le> at"
  shows "subslice at n (finalize ty pid frame) = subslice at n frame"
proof -
  have "drop at f = drop (at - HEADER_SIZE) (drop HEADER_SIZE f)" for f :: bytes
    using assms(2) by simp
  then show ?thesis unfolding subslice_def using finalize_fields(3) [OF assms(1)] by metis
qed

lemma finalize_read [simp]:
  assumes "length frame = PAGE_SIZE" "HEADER_SIZE \<le> at"
  shows "read_u32 (finalize ty pid frame) at = read_u32 frame at"
    "read_u64 (finalize ty pid frame) at = read_u64 frame at"
  using assms by (simp_all add: read_u32_def read_u64_def finalize_subslice)

lemma verify_finalize [simp]:
  assumes "length frame = PAGE_SIZE"
  shows "verify (finalize ty pid frame) pid = Inr (finalize ty pid frame)"
proof -
  have "read_u32 (finalize ty pid frame) CRC_OFF = crc32c (drop TYPE_OFF (finalize ty pid frame))"
    using assms by (simp add: finalize_eq read_u32_def subslice_def)
  then show ?thesis using assms finalize_fields(2) by (simp add: verify_def as_frame_def)
qed

lemma page_type_roundtrip [simp]: "page_type_from_u8 (page_type_u8 ty) = Some ty"
  by (cases ty) (simp_all add: page_type_from_u8_def)

lemma page_type_finalize [simp]:
  "length frame = PAGE_SIZE \<Longrightarrow> page_type (finalize ty pid frame) = Inr ty"
  by (simp add: page_type_def finalize_fields(1))

lemma verify_Inr:
  "verify bs pid = Inr f \<longleftrightarrow> f = bs \<and> length bs = PAGE_SIZE
     \<and> read_u32 bs CRC_OFF = crc32c (drop TYPE_OFF bs) \<and> page_id bs = pid"
  by (auto simp: verify_def as_frame_def)

lemma subslice_set_payload:
  "set_payload payload frame = Inr f \<Longrightarrow> length frame = PAGE_SIZE \<Longrightarrow>
     length f = PAGE_SIZE \<and> subslice HEADER_SIZE (length payload) f = payload"
  by (auto simp: set_payload_def subslice_splice_same split: if_splits)

section \<open>Lemmas: meta pages\<close>

definition meta_wf :: "Meta \<Rightarrow> bool" where
  "meta_wf m \<longleftrightarrow> format_version m = FORMAT_VERSION \<and> page_size m = of_nat PAGE_SIZE
     \<and> FIRST_DATA_PAGE \<le> page_count m \<and> freelist_head m \<noteq> Some 0 \<and> catalog_root m \<noteq> Some 0"

lemma opt_roundtrip [simp]: "p \<noteq> Some 0 \<Longrightarrow> u64_to_opt (opt_to_u64 p) = p"
  by (cases p) (simp_all add: u64_to_opt_def opt_to_u64_def)

lemma length_meta_encode [simp]:
  "length frame = PAGE_SIZE \<Longrightarrow> length (meta_encode m frame) = PAGE_SIZE"
  by (simp add: meta_encode_def)

lemma meta_decode_encode:
  assumes "meta_wf m" "length frame = PAGE_SIZE"
  shows "meta_decode (finalize ty pid (meta_encode m frame)) slot = Inr m"
  using assms
  by (simp add: meta_decode_def finalize_subslice meta_encode_def meta_wf_def Let_def not_less
      subslice_splice_same)

lemma meta_decode_wf: "meta_decode frame slot = Inr m \<Longrightarrow> meta_wf m"
  by (auto simp: meta_decode_def meta_wf_def Let_def u64_to_opt_def not_less
      split: if_splits dest!: arg_cong [of _ _ "of_nat :: nat \<Rightarrow> u32"])

section \<open>Lemmas: trunks\<close>

lemma length_trunk_setters [simp]:
  "length frame = PAGE_SIZE \<Longrightarrow> length (set_next v frame) = PAGE_SIZE"
  "length frame = PAGE_SIZE \<Longrightarrow> length (set_count c frame) = PAGE_SIZE"
  "length frame = PAGE_SIZE \<Longrightarrow> i < CAPACITY \<Longrightarrow> length (set_id_at i w frame) = PAGE_SIZE"
  by (simp_all add: set_next_def set_count_def set_id_at_def)

lemma trunk_fields [simp]:
  assumes "length frame = PAGE_SIZE"
  shows "trunk_next (set_next v frame) = v" "trunk_next (set_count c frame) = trunk_next frame"
    "i < CAPACITY \<Longrightarrow> trunk_next (set_id_at i w frame) = trunk_next frame"
    "trunk_count (set_count c frame) = c"
    "i < CAPACITY \<Longrightarrow> trunk_count (set_id_at i w frame) = trunk_count frame"
    "i < CAPACITY \<Longrightarrow> j < CAPACITY \<Longrightarrow> id_at (set_id_at i w frame) j = (if j = i then w else id_at frame j)"
  using assms
  by (simp_all add: trunk_next_def trunk_count_def id_at_def set_next_def set_count_def set_id_at_def)
    (auto simp: neq_iff)

section \<open>Lemmas: corruption\<close>

lemma from_le_bytes_inj4:
  "length xs = 4 \<Longrightarrow> length ys = 4 \<Longrightarrow> (from_le_bytes xs :: u32) = from_le_bytes ys \<Longrightarrow> xs = ys"
proof -
  assume len: "length xs = 4" "length ys = 4" and eq: "(from_le_bytes xs :: u32) = from_le_bytes ys"
  have "to_le_bytes 4 (from_le_bytes zs :: u32) = zs" if "length zs = 4" for zs
    using to_from_le_bytes [of zs, where ?'a = 32] that by simp
  from this [OF len(1)] this [OF len(2)] eq show ?thesis by metis
qed

lemma crc_update: "i < length d \<Longrightarrow> b \<noteq> d ! i \<Longrightarrow> crc32c (d[i := b]) \<noteq> crc32c d"
  using crc32c_one_byte [of b "d ! i" "take i d" "drop (Suc i) d"]
  by (simp add: upd_conv_take_nth_drop id_take_nth_drop [symmetric])

section \<open>Properties\<close>

text \<open>C35: A page that verifies stops verifying when any single byte of it is changed, wherever the
  byte lies (payload, header or checksum): the read reports a checksum error, never data.\<close>

theorem verify_detects_byte:
  assumes "verify f pid = Inr f" "i < PAGE_SIZE" "b \<noteq> f ! i"
  shows "verify (f[i := b]) pid = Inl (PagerCorruption (Checksum pid))"
proof -
  have len: "length f = PAGE_SIZE" and crc: "read_u32 f CRC_OFF = crc32c (drop TYPE_OFF f)"
    using assms(1) by (simp_all add: verify_Inr)
  have "read_u32 (f[i := b]) CRC_OFF \<noteq> crc32c (drop TYPE_OFF (f[i := b]))"
  proof (cases "i < 4")
    case True
    then have "take 4 (f[i := b]) \<noteq> take 4 f"
      using assms(2,3) len by (metis nth_list_update_eq nth_take)
    then have "read_u32 (f[i := b]) CRC_OFF \<noteq> read_u32 f CRC_OFF"
      using from_le_bytes_inj4 len by (auto simp: read_u32_def subslice_def)
    then show ?thesis using crc True by simp
  next
    case False
    then have "drop 4 (f[i := b]) = (drop 4 f)[i - 4 := b]" by (simp add: drop_update_swap)
    moreover have "crc32c ((drop 4 f)[i - 4 := b]) \<noteq> crc32c (drop 4 f)"
      using False assms(2,3) len by (intro crc_update) simp_all
    moreover have "read_u32 (f[i := b]) CRC_OFF = read_u32 f CRC_OFF"
      using False by (simp add: read_u32_def subslice_def)
    ultimately show ?thesis using crc by simp
  qed
  then show ?thesis using len by (simp add: verify_def as_frame_def corrupt_def)
qed

theorem verify_detects_byte_witness:
  "verify ((finalize DataPage 7 zeroed)[100 := 1]) 7 = Inl (PagerCorruption (Checksum 7))"
proof (rule verify_detects_byte)
  show "1 \<noteq> finalize DataPage 7 zeroed ! 100"
    by (simp add: finalize_eq page_body_def nth_append zeroed_def)
qed simp_all

text \<open>A page written for one id is never accepted as another: a misdirected read or write is
  reported with both ids.\<close>

theorem verify_detects_misdirection:
  assumes "length frame = PAGE_SIZE" "other \<noteq> pid"
  shows "verify (finalize ty pid frame) other = Inl (PagerCorruption (PageIdMismatch other pid))"
  using verify_finalize [OF assms(1), of ty pid] assms finalize_fields(2) [OF assms(1), of ty pid]
  by (simp add: verify_def as_frame_def corrupt_def split: if_splits)

theorem verify_detects_misdirection_witness:
  "verify (finalize DataPage 7 zeroed) 8 = Inl (PagerCorruption (PageIdMismatch 8 7))"
  by (rule verify_detects_misdirection) simp_all

end
