(* ===== verification/Cache.thy ===== *)
theory Cache
  imports Page
begin

text \<open>
  The byte-budgeted page cache with LRU eviction (\<open>crates/pager/src/cache.rs\<close>). The hash map is an
  association list with distinct keys; the lemmas hold for every list, so for every iteration
  order. Dirty frames are pinned: only clean entries are evicted.
\<close>

record Entry =
  frame :: bytes
  dirty :: bool
  tick :: u64

record PageCache =
  entries :: "(u64 \<times> Entry) list"
  budget_bytes :: nat
  cache_tick :: u64

definition cache_new :: "nat \<Rightarrow> PageCache" where
  "cache_new budget = \<lparr> entries = [], budget_bytes = budget, cache_tick = 0 \<rparr>"

definition bump :: "PageCache \<Rightarrow> PageCache" where
  "bump c = c\<lparr> cache_tick := cache_tick c + 1 \<rparr>"

text \<open>Replacing the entry of a key in place, and removing it.\<close>

definition put_entry :: "u64 \<Rightarrow> Entry \<Rightarrow> (u64 \<times> Entry) list \<Rightarrow> (u64 \<times> Entry) list" where
  "put_entry pid e es = map (\<lambda>(i, x). if i = pid then (i, e) else (i, x)) es"

definition drop_entry :: "u64 \<Rightarrow> (u64 \<times> Entry) list \<Rightarrow> (u64 \<times> Entry) list" where
  "drop_entry pid es = filter (\<lambda>(i, x). i \<noteq> pid) es"

definition cache_get :: "u64 \<Rightarrow> PageCache \<Rightarrow> bytes option \<times> PageCache" where
  "cache_get pid c0 =
     (let c = bump c0 in
      case map_of (entries c) pid of
        None \<Rightarrow> (None, c)
      | Some e \<Rightarrow> (Some (frame e), c\<lparr> entries := put_entry pid (e\<lparr> tick := cache_tick c \<rparr>) (entries c) \<rparr>))"

text \<open>\<open>min_by_key\<close> over the clean entries: the first of the least ticks.\<close>

fun min_tick :: "(u64 \<times> Entry) list \<Rightarrow> (u64 \<times> Entry) option" where
  "min_tick [] = None"
| "min_tick (x # xs) =
     (case min_tick xs of
        None \<Rightarrow> Some x
      | Some y \<Rightarrow> if tick (snd x) \<le> tick (snd y) then Some x else Some y)"

definition victim :: "(u64 \<times> Entry) list \<Rightarrow> u64 option" where
  "victim es = map_option fst (min_tick (filter (\<lambda>(_, e). \<not> dirty e) es))"

lemma min_tick_mem: "min_tick xs = Some x \<Longrightarrow> x \<in> set xs"
  by (induction xs arbitrary: x) (auto split: option.splits if_splits)

lemma victim_mem: "victim es = Some pid \<Longrightarrow> \<exists>e. (pid, e) \<in> set es \<and> \<not> dirty e"
  by (auto simp: victim_def dest!: min_tick_mem)

lemma drop_entry_length: "(pid, e) \<in> set es \<Longrightarrow> length (drop_entry pid es) < length es"
  unfolding drop_entry_def by (rule length_filter_less [where x = "(pid, e)"]) auto

function evict_to_budget :: "nat \<Rightarrow> (u64 \<times> Entry) list \<Rightarrow> (u64 \<times> Entry) list" where
  "evict_to_budget budget es =
     (if length es * PAGE_SIZE > budget then
        (case victim es of
           Some pid \<Rightarrow> evict_to_budget budget (drop_entry pid es)
         | None \<Rightarrow> es)
      else es)"
  by pat_completeness auto
termination
  by (relation "measure (\<lambda>(_, es). length es)") (auto dest!: victim_mem drop_entry_length)

declare evict_to_budget.simps [simp del]

definition cache_insert :: "u64 \<Rightarrow> bytes \<Rightarrow> bool \<Rightarrow> PageCache \<Rightarrow> PageCache" where
  "cache_insert pid f d c0 =
     (let c = bump c0;
          es = (case map_of (entries c) pid of
                  Some e \<Rightarrow> put_entry pid \<lparr> frame = f, dirty = dirty e \<or> d, tick = cache_tick c \<rparr> (entries c)
                | None \<Rightarrow> entries c @ [(pid, \<lparr> frame = f, dirty = d, tick = cache_tick c \<rparr>)])
      in c\<lparr> entries := evict_to_budget (budget_bytes c) es \<rparr>)"

definition dirty_pages :: "PageCache \<Rightarrow> (u64 \<times> bytes) list" where
  "dirty_pages c = map (\<lambda>(i, e). (i, frame e)) (filter (\<lambda>(_, e). dirty e) (entries c))"

definition clear_dirty :: "PageCache \<Rightarrow> PageCache" where
  "clear_dirty c = c\<lparr> entries := map (\<lambda>(i, e). (i, e\<lparr> dirty := False \<rparr>)) (entries c) \<rparr>"

section \<open>Invariant and lookups\<close>

definition cache_wf :: "PageCache \<Rightarrow> bool" where
  "cache_wf c \<longleftrightarrow> distinct (map fst (entries c))"

definition lookup :: "PageCache \<Rightarrow> u64 \<Rightarrow> Entry option" where
  "lookup c pid = map_of (entries c) pid"

lemma map_of_put_entry:
  "map_of (put_entry pid e es) i =
     (if i = pid then map_option (\<lambda>_. e) (map_of es pid) else map_of es i)"
  by (induction es) (auto simp: put_entry_def)

lemma fst_put_entry [simp]: "map fst (put_entry pid e es) = map fst es"
  by (auto simp: put_entry_def)

lemma map_of_drop_entry: "map_of (drop_entry pid es) i = (if i = pid then None else map_of es i)"
  by (induction es) (auto simp: drop_entry_def)

lemma distinct_drop_entry: "distinct (map fst es) \<Longrightarrow> distinct (map fst (drop_entry pid es))"
  unfolding drop_entry_def by (rule distinct_map_filter)

text \<open>Eviction removes clean entries only and keeps the rest as it was.\<close>

lemma evict_keeps:
  assumes "distinct (map fst es)"
  shows "distinct (map fst (evict_to_budget budget es)) \<and>
    (\<forall>i. map_of (evict_to_budget budget es) i = map_of es i
       \<or> map_of (evict_to_budget budget es) i = None \<and> (\<exists>e. map_of es i = Some e \<and> \<not> dirty e))"
  using assms
proof (induction budget es rule: evict_to_budget.induct)
  case (1 budget es)
  show ?case
  proof (cases "length es * PAGE_SIZE > budget \<and> victim es \<noteq> None")
    case False
    then have "evict_to_budget budget es = es"
      by (subst evict_to_budget.simps) (auto split: option.splits)
    then show ?thesis using 1(2) by simp
  next
    case True
    then obtain pid where v: "victim es = Some pid" "length es * PAGE_SIZE > budget" by auto
    from victim_mem [OF v(1)] obtain e where e: "(pid, e) \<in> set es" "\<not> dirty e" by blast
    then have m: "map_of es pid = Some e" using 1(2) by simp
    note IH = 1(1) [OF v(2,1) distinct_drop_entry [OF 1(2)]]
    have "evict_to_budget budget es = evict_to_budget budget (drop_entry pid es)"
      using v by (subst evict_to_budget.simps) simp
    moreover have "map_of es i = map_of (drop_entry pid es) i
        \<or> map_of (drop_entry pid es) i = None \<and> map_of es i = Some e" for i
      using m by (simp add: map_of_drop_entry)
    ultimately show ?thesis using IH e(2) by (metis (no_types, lifting))
  qed
qed

lemma evict_bound:
  "length (evict_to_budget budget es) * PAGE_SIZE \<le> budget
     \<or> (\<forall>(i, e) \<in> set (evict_to_budget budget es). dirty e)"
proof (induction budget es rule: evict_to_budget.induct)
  case (1 budget es)
  have none: "\<forall>(i, e) \<in> set es. dirty e" if "victim es = None"
  proof -
    have "min_tick (filter (\<lambda>(_, e). \<not> dirty e) es) = None" using that by (simp add: victim_def)
    then have "filter (\<lambda>(_, e). \<not> dirty e) es = []"
      by (cases "filter (\<lambda>(_, e). \<not> dirty e) es") (auto split: option.splits if_splits)
    then show ?thesis by (auto simp: filter_empty_conv)
  qed
  show ?case
  proof (cases "length es * PAGE_SIZE > budget")
    case True
    then show ?thesis using 1 none
      by (subst (1 2) evict_to_budget.simps) (auto split: option.splits)
  qed (subst evict_to_budget.simps, simp)
qed

lemma cache_new_wf [simp]: "cache_wf (cache_new b)" "lookup (cache_new b) i = None"
  by (simp_all add: cache_wf_def cache_new_def lookup_def)

lemma cache_get_spec:
  assumes "cache_get pid c = (r, c')" "cache_wf c"
  shows "cache_wf c'" "r = map_option frame (lookup c pid)"
    "map_option frame (lookup c' i) = map_option frame (lookup c i)"
    "map_option dirty (lookup c' i) = map_option dirty (lookup c i)"
  using assms
  by (auto simp: cache_get_def cache_wf_def lookup_def bump_def Let_def map_of_put_entry
      split: option.splits if_splits)

lemma cache_insert_spec:
  assumes "cache_wf c"
  shows "cache_wf (cache_insert pid f d c)"
    "i \<noteq> pid \<Longrightarrow> lookup (cache_insert pid f d c) i = lookup c i
       \<or> lookup (cache_insert pid f d c) i = None \<and> (\<exists>e. lookup c i = Some e \<and> \<not> dirty e)"
    "lookup (cache_insert pid f d c) pid = None \<and> \<not> d \<and> (\<forall>e. lookup c pid = Some e \<longrightarrow> \<not> dirty e)
     \<or> (\<exists>t. lookup (cache_insert pid f d c) pid =
          Some \<lparr> frame = f, dirty = (d \<or> (\<exists>e. lookup c pid = Some e \<and> dirty e)), tick = t \<rparr>)"
proof -
  define t where "t = cache_tick c + 1"
  define es where "es = (case map_of (entries c) pid of
      Some e \<Rightarrow> put_entry pid \<lparr> frame = f, dirty = dirty e \<or> d, tick = t \<rparr> (entries c)
    | None \<Rightarrow> entries c @ [(pid, \<lparr> frame = f, dirty = d, tick = t \<rparr>)])"
  have ins: "entries (cache_insert pid f d c) = evict_to_budget (budget_bytes c) es"
    by (simp add: cache_insert_def Let_def bump_def es_def t_def split: option.split)
  have dist: "distinct (map fst es)"
    using assms by (auto simp: es_def cache_wf_def map_of_eq_None_iff split: option.splits)
  have other: "map_of es i = map_of (entries c) i" if "i \<noteq> pid" for i
    using that by (auto simp: es_def map_of_put_entry map_add_def split: option.splits)
  have here: "map_of es pid =
      Some \<lparr> frame = f, dirty = (d \<or> (\<exists>e. lookup c pid = Some e \<and> dirty e)), tick = t \<rparr>"
    by (auto simp: es_def map_of_put_entry lookup_def map_add_def split: option.splits)
  note keep = evict_keeps [OF dist, of "budget_bytes c"]
  show "cache_wf (cache_insert pid f d c)" using keep by (simp add: cache_wf_def ins)
  show "i \<noteq> pid \<Longrightarrow> lookup (cache_insert pid f d c) i = lookup c i
       \<or> lookup (cache_insert pid f d c) i = None \<and> (\<exists>e. lookup c i = Some e \<and> \<not> dirty e)"
    using keep other unfolding lookup_def ins by metis
  show "lookup (cache_insert pid f d c) pid = None \<and> \<not> d \<and> (\<forall>e. lookup c pid = Some e \<longrightarrow> \<not> dirty e)
     \<or> (\<exists>t. lookup (cache_insert pid f d c) pid =
          Some \<lparr> frame = f, dirty = (d \<or> (\<exists>e. lookup c pid = Some e \<and> dirty e)), tick = t \<rparr>)"
    using keep [THEN conjunct2, rule_format, of pid] here unfolding lookup_def ins by auto
qed

lemma clear_dirty_spec:
  "cache_wf c \<Longrightarrow> cache_wf (clear_dirty c)"
  "lookup (clear_dirty c) i = map_option (\<lambda>e. e\<lparr> dirty := False \<rparr>) (lookup c i)"
proof -
  have "map fst (map (\<lambda>(i, e). (i, e\<lparr> dirty := False \<rparr>)) es) = map fst es" for es :: "(u64 \<times> Entry) list"
    by auto
  then show "cache_wf c \<Longrightarrow> cache_wf (clear_dirty c)" by (simp add: clear_dirty_def cache_wf_def del: map_map)
  show "lookup (clear_dirty c) i = map_option (\<lambda>e. e\<lparr> dirty := False \<rparr>) (lookup c i)"
    by (simp add: lookup_def clear_dirty_def map_of_map)
qed

lemma dirty_pages_mem:
  "cache_wf c \<Longrightarrow> (i, f) \<in> set (dirty_pages c) \<longleftrightarrow> (\<exists>e. lookup c i = Some e \<and> dirty e \<and> frame e = f)"
  by (force simp: dirty_pages_def cache_wf_def lookup_def)

lemma dirty_pages_distinct: "cache_wf c \<Longrightarrow> distinct (map fst (dirty_pages c))"
  unfolding dirty_pages_def cache_wf_def
  by (simp add: distinct_map_filter comp_def case_prod_unfold)

end
