(* ===== verification/Pager.thy ===== *)
theory Pager
  imports Backend Cache
begin

text \<open>
  The pager (\<open>crates/pager/src/pager.rs\<close>): paged, checksummed, atomically committing access to a
  block store. Every method is a function of the backend operations and of the pager state; it
  returns its result and the state it leaves. The state lock makes each locked section one step, and
  the single writer makes \<open>commit\<close> a sequence of such steps with no other writer in between.
\<close>

section \<open>State\<close>

abbreviation DEFAULT_CACHE_BYTES :: nat where "DEFAULT_CACHE_BYTES \<equiv> 1048576"

record 'b pager =
  backend :: 'b
  cache :: PageCache
  meta :: Meta
  active_slot :: u64
  alloc_log :: "PageId list option"
  free_set :: "u64 list"
  trunks :: "u64 list"
  free_loaded :: bool
  committed_txn :: u64

record PagerStats =
  stat_page_count :: u64
  stat_free_ids :: u64
  stat_trunk_count :: u64
  stat_active_slot :: u64
  stat_txn_id :: u64

definition page_offset :: "PageId \<Rightarrow> u64" where
  "page_offset pid = pid * of_nat PAGE_SIZE"

definition on_backend :: "('b, IoError, 'a) st \<Rightarrow> ('b pager, PagerError, 'a) st" where
  "on_backend m = st_map_err PagerIo (st_zoom backend (\<lambda>b p. p\<lparr> backend := b \<rparr>) m)"

section \<open>Opening\<close>

definition parse_meta :: "u64 \<Rightarrow> bytes \<Rightarrow> PagerError + Meta" where
  "parse_meta slot buf =
     and_then (verify buf slot) (\<lambda>f.
     and_then (page_type f) (\<lambda>ty.
       if ty \<noteq> MetaPage then Inl (corrupt (BadMeta slot)) else meta_decode f slot))"

definition read_meta :: "'b io_ops \<Rightarrow> u64 \<Rightarrow> ('b, PagerError, Meta) st" where
  "read_meta ops slot =
     st_bind (st_map_err PagerIo (io_read_at ops (page_offset slot) PAGE_SIZE)) (\<lambda>buf.
       st_lift (parse_meta slot buf))"

definition new_pager :: "nat \<Rightarrow> Meta \<Rightarrow> u64 \<Rightarrow> bool \<Rightarrow> 'b \<Rightarrow> 'b pager" where
  "new_pager cache_bytes m slot loaded b =
     \<lparr> backend = b, cache = cache_new cache_bytes, meta = m, active_slot = slot, alloc_log = None,
       free_set = [], trunks = [], free_loaded = loaded, committed_txn = txn_id m \<rparr>"

definition create_with_cache :: "'b io_ops \<Rightarrow> nat \<Rightarrow> ('b, PagerError, 'b pager) st" where
  "create_with_cache ops cache_bytes =
     st_bind (st_map_err PagerIo (io_truncate ops (FIRST_DATA_PAGE * of_nat PAGE_SIZE))) (\<lambda>_.
     st_bind (st_map_err PagerIo
       (io_write_at ops 0 (finalize MetaPage 0 (meta_encode meta_initial zeroed)))) (\<lambda>_.
     st_bind (st_map_err PagerIo (io_sync ops)) (\<lambda>_.
     st_get (new_pager cache_bytes meta_initial 0 True))))"

text \<open>A result inspected rather than propagated.\<close>

definition st_attempt :: "('s, 'e, 'a) st \<Rightarrow> ('s, 'f, 'e + 'a) st" where
  "st_attempt m = (\<lambda>s. case m s of (r, s') \<Rightarrow> (Inr r, s'))"

definition adopt_slot :: "PagerError + Meta \<Rightarrow> PagerError + Meta \<Rightarrow> PagerError + (Meta \<times> u64)" where
  "adopt_slot slot0 slot1 =
     (case (slot0, slot1) of
        (Inr a, Inr b) \<Rightarrow> if txn_id b > txn_id a then Inr (b, 1) else Inr (a, 0)
      | (Inr a, Inl _) \<Rightarrow> Inr (a, 0)
      | (Inl _, Inr b) \<Rightarrow> Inr (b, 1)
      | (Inl _, Inl _) \<Rightarrow> Inl (corrupt NoValidMeta))"

definition open_with_cache :: "'b io_ops \<Rightarrow> nat \<Rightarrow> ('b, PagerError, 'b pager) st" where
  "open_with_cache ops cache_bytes =
     st_bind (st_map_err PagerIo (io_len ops)) (\<lambda>n.
     if n < FIRST_DATA_PAGE * of_nat PAGE_SIZE then st_throw (corrupt NoValidMeta)
     else
       st_bind (st_attempt (read_meta ops 0)) (\<lambda>slot0.
       st_bind (st_attempt (read_meta ops 1)) (\<lambda>slot1.
       st_bind (st_lift (adopt_slot slot0 slot1)) (\<lambda>(m, slot).
       st_get (new_pager cache_bytes m slot False)))))"

section \<open>Loading the free list\<close>

text \<open>One trunk page: its stored ids and the next trunk.\<close>

definition parse_trunk :: "PageId \<Rightarrow> bytes \<Rightarrow> PagerError + (u64 list \<times> u64)" where
  "parse_trunk trunk buf =
     and_then (verify buf trunk) (\<lambda>f.
     and_then (page_type f) (\<lambda>ty.
       if ty \<noteq> FreelistPage then Inl (corrupt (FreelistBadType trunk))
       else if unat (trunk_count f) > CAPACITY then Inl (corrupt (FreelistBadCount trunk))
       else Inr (map (id_at f) [0..<unat (trunk_count f)], trunk_next f)))"

definition trunk_in_range :: "Meta \<Rightarrow> u64 \<Rightarrow> bool" where
  "trunk_in_range m t \<longleftrightarrow> FIRST_DATA_PAGE \<le> t \<and> t < page_count m"

function load_loop :: "'b io_ops \<Rightarrow> Meta \<Rightarrow> PageId option \<Rightarrow> u64 set \<Rightarrow> u64 list \<Rightarrow> u64 list \<Rightarrow>
    ('b, PagerError, u64 list \<times> u64 list) st" where
  "load_loop ops m head seen free trs b =
     (case head of
        None \<Rightarrow> (Inr (free, trs), b)
      | Some t \<Rightarrow>
          if \<not> trunk_in_range m t then (Inl (corrupt (FreelistOutOfRange t)), b)
          else if t \<in> seen then (Inl (corrupt (FreelistCycle t)), b)
          else case io_read_at ops (page_offset t) PAGE_SIZE b of
            (Inl e, b') \<Rightarrow> (Inl (PagerIo e), b')
          | (Inr buf, b') \<Rightarrow>
              (case parse_trunk t buf of
                 Inl e \<Rightarrow> (Inl e, b')
               | Inr (ids, nxt) \<Rightarrow>
                   load_loop ops m (u64_to_opt nxt) (insert t seen) (free @ ids) (trs @ [t]) b'))"
  by pat_completeness auto
termination
proof (relation "measure (\<lambda>(ops, m, head, seen, free, trs, b). card (UNIV - seen))")
  fix seen :: "u64 set" and t :: u64
  assume "t \<notin> seen"
  then have "UNIV - insert t seen \<subset> UNIV - seen" by blast
  then have "card (UNIV - insert t seen) < card (UNIV - seen)" by (intro psubset_card_mono) simp
  then show "((ops, m, u64_to_opt nxt, insert t seen, free @ ids, trs @ [t], b'),
      (ops, m, head, seen, free, trs, b)) \<in> measure (\<lambda>(ops, m, head, seen, free, trs, b). card (UNIV - seen))"
    for ops :: "'b io_ops" and m nxt free ids trs head and b b' :: 'b
    by simp
qed simp

declare load_loop.simps [simp del]

definition load_free_list :: "'b io_ops \<Rightarrow> Meta \<Rightarrow> ('b, PagerError, u64 list \<times> u64 list) st" where
  "load_free_list ops m = load_loop ops m (freelist_head m) {} [] []"

definition ensure_free_loaded :: "'b io_ops \<Rightarrow> ('b pager, PagerError, unit) st" where
  "ensure_free_loaded ops p =
     (if free_loaded p then (Inr (), p)
      else case load_free_list ops (meta p) (backend p) of
        (Inl e, b) \<Rightarrow> (Inl e, p\<lparr> backend := b \<rparr>)
      | (Inr (free, trs), b) \<Rightarrow>
          (Inr (), p\<lparr> backend := b, free_set := free, trunks := trs, free_loaded := True \<rparr>))"

section \<open>Pages\<close>

definition in_range :: "'b pager \<Rightarrow> PageId \<Rightarrow> PagerError + unit" where
  "in_range p pid =
     (if pid < FIRST_DATA_PAGE \<or> pid \<ge> page_count (meta p)
      then Inl (PageOutOfRange pid (page_count (meta p))) else Inr ())"

definition fetch :: "'b io_ops \<Rightarrow> PageId \<Rightarrow> ('b pager, PagerError, bytes) st" where
  "fetch ops pid p0 =
     (case cache_get pid (cache p0) of
        (Some f, c) \<Rightarrow> (Inr f, p0\<lparr> cache := c \<rparr>)
      | (None, c) \<Rightarrow>
          (st_bind (on_backend (io_read_at ops (page_offset pid) PAGE_SIZE)) (\<lambda>buf.
           st_bind (st_lift (verify buf pid)) (\<lambda>_.
           st_bind (st_modify (\<lambda>p. p\<lparr> cache := cache_insert pid buf False (cache p) \<rparr>)) (\<lambda>_.
           st_return buf)))) (p0\<lparr> cache := c \<rparr>))"

definition read_page :: "'b io_ops \<Rightarrow> PageId \<Rightarrow> ('b pager, PagerError, bytes) st" where
  "read_page ops pid = (\<lambda>p. st_bind (st_lift (in_range p pid)) (\<lambda>_. fetch ops pid) p)"

definition write_page :: "PageId \<Rightarrow> PageType \<Rightarrow> bytes \<Rightarrow> ('b pager, PagerError, unit) st" where
  "write_page pid ty payload = (\<lambda>p.
     st_bind (st_lift (in_range p pid)) (\<lambda>_.
     st_bind (st_lift (set_payload payload zeroed)) (\<lambda>f.
     st_modify (\<lambda>p. p\<lparr> cache := cache_insert pid (finalize ty pid f) True (cache p) \<rparr>))) p)"

definition alloc :: "'b io_ops \<Rightarrow> ('b pager, PagerError, PageId) st" where
  "alloc ops =
     st_bind (ensure_free_loaded ops) (\<lambda>_ p.
       let (pid, p1) =
             (if free_set p = []
              then (page_count (meta p), p\<lparr> meta := (meta p)\<lparr> page_count := page_count (meta p) + 1 \<rparr> \<rparr>)
              else (last (free_set p), p\<lparr> free_set := butlast (free_set p) \<rparr>))
       in (Inr pid, p1\<lparr> alloc_log := map_option (\<lambda>log. log @ [pid]) (alloc_log p1) \<rparr>))"

definition begin_alloc_recording :: "'b pager \<Rightarrow> 'b pager" where
  "begin_alloc_recording p = p\<lparr> alloc_log := Some [] \<rparr>"

definition take_alloc_recording :: "'b pager \<Rightarrow> PageId list \<times> 'b pager" where
  "take_alloc_recording p =
     ((case alloc_log p of None \<Rightarrow> [] | Some log \<Rightarrow> log), p\<lparr> alloc_log := None \<rparr>)"

definition free_page :: "'b io_ops \<Rightarrow> PageId \<Rightarrow> ('b pager, PagerError, unit) st" where
  "free_page ops pid = (\<lambda>p.
     st_bind (st_lift (in_range p pid)) (\<lambda>_.
     st_bind (ensure_free_loaded ops) (\<lambda>_.
     st_modify (\<lambda>p. p\<lparr> free_set := free_set p @ [pid] \<rparr>))) p)"

definition set_catalog_root :: "PageId option \<Rightarrow> 'b pager \<Rightarrow> 'b pager" where
  "set_catalog_root root p = p\<lparr> meta := (meta p)\<lparr> catalog_root := root \<rparr> \<rparr>"

section \<open>Commit\<close>

text \<open>A trunk page holding \<open>ids\<close>, chained to \<open>head\<close>.\<close>

definition trunk_frame :: "u64 \<Rightarrow> u64 \<Rightarrow> u64 list \<Rightarrow> bytes" where
  "trunk_frame container head ids =
     finalize FreelistPage container
       (fold (\<lambda>(i, x) f. set_id_at i x f) (enumerate 0 ids)
         (set_count (of_nat (length ids)) (set_next head zeroed)))"

function rebuild_loop :: "u64 list \<Rightarrow> u64 \<Rightarrow> PageCache \<Rightarrow> u64 list \<Rightarrow> u64 list \<Rightarrow>
    u64 \<times> PageCache \<times> u64 list \<times> u64 list" where
  "rebuild_loop pool head c new_trunks stored =
     (if pool = [] then (head, c, new_trunks, stored)
      else
        let container = last pool;
            rest = butlast pool;
            n = min (length rest) CAPACITY;
            ids = drop (length rest - n) rest
        in rebuild_loop (take (length rest - n) rest) container
             (cache_insert container (trunk_frame container head ids) True c)
             (new_trunks @ [container]) (stored @ ids))"
  by pat_completeness auto
termination
  by (relation "measure (\<lambda>(pool, _). length pool)") auto

declare rebuild_loop.simps [simp del]

definition rebuild_free_list :: "'b pager \<Rightarrow> u64 list \<times> 'b pager" where
  "rebuild_free_list p =
     (let (head, c, new_trunks, stored) = rebuild_loop (free_set p) 0 (cache p) [] []
      in (trunks p,
          p\<lparr> cache := c,
             meta := (meta p)\<lparr> freelist_head := u64_to_opt head,
                               freelist_len := of_nat (length stored) \<rparr>,
             free_set := stored, trunks := new_trunks \<rparr>))"

text \<open>The durable I/O of a commit: data pages, sync, new meta into the inactive slot, sync.\<close>

definition flush :: "'b io_ops \<Rightarrow> (u64 \<times> bytes) list \<Rightarrow> u64 \<Rightarrow> ('b, IoError, unit) st" where
  "flush ops pages needed =
     st_bind (io_len ops) (\<lambda>n.
     st_bind (if n < needed then io_truncate ops needed else st_return ()) (\<lambda>_.
     st_bind (st_each (\<lambda>(pid, f). io_write_at ops (page_offset pid) f) pages) (\<lambda>_.
     io_sync ops)))"

definition swap_meta :: "'b io_ops \<Rightarrow> u64 \<Rightarrow> Meta \<Rightarrow> ('b, IoError, unit) st" where
  "swap_meta ops slot m =
     st_bind (io_write_at ops (page_offset slot) (finalize MetaPage slot (meta_encode m zeroed)))
       (\<lambda>_. io_sync ops)"

definition commit :: "'b io_ops \<Rightarrow> ('b pager, PagerError, unit) st" where
  "commit ops =
     st_bind (ensure_free_loaded ops) (\<lambda>_ p0.
       let (dead_trunks, p) = rebuild_free_list p0;
           needed = page_count (meta p) * of_nat PAGE_SIZE;
           pages = dirty_pages (cache p);
           inactive = 1 - active_slot p;
           m = (meta p)\<lparr> txn_id := txn_id (meta p) + 1 \<rparr>
       in st_bind (on_backend (flush ops pages needed)) (\<lambda>_.
          st_bind (on_backend (swap_meta ops inactive m)) (\<lambda>_.
          st_modify (\<lambda>p. p\<lparr> cache := clear_dirty (cache p), meta := m, active_slot := inactive,
             free_set := free_set p @ dead_trunks, committed_txn := txn_id m \<rparr>))) p)"

section \<open>Validation\<close>

text \<open>The ids stored in one trunk: in range and not seen before, in the trunk chain or as an entry.\<close>

fun check_entries :: "Meta \<Rightarrow> u64 list \<Rightarrow> u64 set \<Rightarrow> PagerError + u64 set" where
  "check_entries m [] seen = Inr seen"
| "check_entries m (x # xs) seen =
     (if \<not> trunk_in_range m x then Inl (corrupt (FreelistOutOfRange x))
      else if x \<in> seen then Inl (corrupt (FreelistDuplicate x))
      else check_entries m xs (insert x seen))"

function validate_loop :: "'b io_ops \<Rightarrow> Meta \<Rightarrow> PageId option \<Rightarrow> u64 set \<Rightarrow> nat \<Rightarrow> nat \<Rightarrow>
    ('b, PagerError, nat \<times> nat) st" where
  "validate_loop ops m head seen stored_ids trs b =
     (case head of
        None \<Rightarrow> (Inr (stored_ids, trs), b)
      | Some t \<Rightarrow>
          if \<not> trunk_in_range m t then (Inl (corrupt (FreelistOutOfRange t)), b)
          else if t \<in> seen then (Inl (corrupt (FreelistCycle t)), b)
          else case io_read_at ops (page_offset t) PAGE_SIZE b of
            (Inl e, b') \<Rightarrow> (Inl (PagerIo e), b')
          | (Inr buf, b') \<Rightarrow>
              (case and_then (parse_trunk t buf) (\<lambda>(ids, nxt).
                      and_then (check_entries m ids (insert t seen)) (\<lambda>seen'. Inr (ids, nxt, seen'))) of
                 Inl e \<Rightarrow> (Inl e, b')
               | Inr (ids, nxt, seen') \<Rightarrow>
                   validate_loop ops m (u64_to_opt nxt) (seen' \<union> insert t seen)
                     (stored_ids + length ids) (trs + 1) b'))"
  by pat_completeness auto
termination
proof (relation "measure (\<lambda>(ops, m, head, seen, n, trs, b). card (UNIV - seen))")
  fix seen seen' :: "u64 set" and t :: u64
  assume "t \<notin> seen"
  then have "UNIV - (seen' \<union> insert t seen) \<subset> UNIV - seen" by blast
  then have "card (UNIV - (seen' \<union> insert t seen)) < card (UNIV - seen)" by (intro psubset_card_mono) simp
  then show "((ops, m, u64_to_opt nxt, seen' \<union> insert t seen, k, trs + 1, b'),
      (ops, m, head, seen, n, trs, b)) \<in> measure (\<lambda>(ops, m, head, seen, n, trs, b). card (UNIV - seen))"
    for ops :: "'b io_ops" and m nxt k trs head n and b b' :: 'b
    by simp
qed simp

declare validate_loop.simps [simp del]

definition validate :: "'b io_ops \<Rightarrow> 'b pager \<Rightarrow> (PagerError + PagerStats) \<times> 'b" where
  "validate ops p =
     st_bind (read_meta ops (active_slot p)) (\<lambda>on_disk.
       if txn_id on_disk \<noteq> txn_id (meta p) then st_throw (corrupt (BadMeta (active_slot p)))
       else
         st_bind (validate_loop ops (meta p) (freelist_head (meta p)) {} 0 0) (\<lambda>(stored_ids, trs).
           if of_nat stored_ids \<noteq> freelist_len (meta p)
           then st_throw (corrupt (FreelistLenMismatch (of_nat stored_ids) (freelist_len (meta p))))
           else st_return \<lparr> stat_page_count = page_count (meta p), stat_free_ids = of_nat stored_ids,
                  stat_trunk_count = of_nat trs, stat_active_slot = active_slot p,
                  stat_txn_id = txn_id (meta p) \<rparr>)) (backend p)"

section \<open>What a disk image holds\<close>

definition disk_page :: "bytes \<Rightarrow> PageId \<Rightarrow> bytes" where
  "disk_page d pid = subslice (unat pid * PAGE_SIZE) PAGE_SIZE d"

definition page_fits :: "bytes \<Rightarrow> PageId \<Rightarrow> bool" where
  "page_fits d pid \<longleftrightarrow> unat pid * PAGE_SIZE + PAGE_SIZE \<le> length d"

definition on_disk :: "bytes \<Rightarrow> PageId \<Rightarrow> bytes \<Rightarrow> bool" where
  "on_disk d pid f \<longleftrightarrow> page_fits d pid \<and> disk_page d pid = f"

text \<open>What a cache over a disk image makes of a page id.\<close>

definition page_view :: "bytes \<Rightarrow> PageCache \<Rightarrow> PageId \<Rightarrow> bytes option" where
  "page_view d c pid =
     (case lookup c pid of
        Some e \<Rightarrow> Some (frame e)
      | None \<Rightarrow> if page_fits d pid \<and> verify (disk_page d pid) pid = Inr (disk_page d pid)
                then Some (disk_page d pid) else None)"

text \<open>Cached frames verify, and clean ones are what the disk holds.\<close>

definition coherent :: "bytes \<Rightarrow> PageCache \<Rightarrow> bool" where
  "coherent d c \<longleftrightarrow> cache_wf c \<and> (\<forall>pid e. lookup c pid = Some e \<longrightarrow>
     verify (frame e) pid = Inr (frame e) \<and> (\<not> dirty e \<longrightarrow> on_disk d pid (frame e)))"

lemma coherent_new [simp]: "coherent d (cache_new b)"
  by (simp add: coherent_def)

lemma page_view_get:
  assumes "coherent d c" "cache_get pid c = (r, c')"
  shows "coherent d c'" "page_view d c' = page_view d c" "r = map_option frame (lookup c pid)"
proof -
  note get = cache_get_spec [OF assms(2)]
  have wf: "cache_wf c" using assms(1) by (simp add: coherent_def)
  note get = get [OF wf]
  show "r = map_option frame (lookup c pid)" by (rule get(2))
  show "page_view d c' = page_view d c"
  proof
    fix i show "page_view d c' i = page_view d c i"
      using get(3) [of i] by (cases "lookup c i"; cases "lookup c' i") (simp_all add: page_view_def)
  qed
  show "coherent d c'"
    unfolding coherent_def
  proof (intro conjI allI impI get(1))
    fix i e assume "lookup c' i = Some e"
    then obtain e0 where "lookup c i = Some e0" "frame e0 = frame e" "dirty e0 = dirty e"
      using get(3) [of i] get(4) [of i] by (cases "lookup c i") auto
    then show "verify (frame e) i = Inr (frame e)" "\<not> dirty e \<Longrightarrow> on_disk d i (frame e)"
      using assms(1) unfolding coherent_def by metis+
  qed
qed

lemma page_view_insert:
  assumes "coherent d c" "verify f pid = Inr f" "dy \<or> lookup c pid = None \<and> on_disk d pid f"
  shows "coherent d (cache_insert pid f dy c)"
    "page_view d (cache_insert pid f dy c) = (page_view d c)(pid \<mapsto> f)"
proof -
  have wf: "cache_wf c" using assms(1) by (simp add: coherent_def)
  note ins = cache_insert_spec [OF wf, where pid = pid and f = f and d = dy]
  have len: "length f = PAGE_SIZE" using assms(2) by (simp add: verify_Inr)
  have old: "verify (frame e) i = Inr (frame e)" "\<not> dirty e \<Longrightarrow> on_disk d i (frame e)"
    if "lookup c i = Some e" for i e
    using assms(1) that by (auto simp: coherent_def)
  show "coherent d (cache_insert pid f dy c)"
    unfolding coherent_def
  proof (intro conjI allI impI ins(1))
    fix i e assume e: "lookup (cache_insert pid f dy c) i = Some e"
    have "verify (frame e) i = Inr (frame e) \<and> (\<not> dirty e \<longrightarrow> on_disk d i (frame e))"
    proof (cases "i = pid")
      case True
      then show ?thesis using ins(3) e assms(2,3) by auto
    next
      case False
      then show ?thesis using ins(2) [OF False] e old by fastforce
    qed
    then show "verify (frame e) i = Inr (frame e)" "\<not> dirty e \<Longrightarrow> on_disk d i (frame e)" by auto
  qed
  show "page_view d (cache_insert pid f dy c) = (page_view d c)(pid \<mapsto> f)"
  proof
    fix i
    show "page_view d (cache_insert pid f dy c) i = ((page_view d c)(pid \<mapsto> f)) i"
    proof (cases "i = pid")
      case True
      then show ?thesis using ins(3) assms(2,3) by (auto simp: page_view_def on_disk_def)
    next
      case False
      then show ?thesis using ins(2) [OF False] old
        by (auto simp: page_view_def on_disk_def split: option.split)
    qed
  qed
qed

section \<open>Invariant\<close>

text \<open>Pages 2 up to the high-water mark are split into the free ones and the rest; the mark leaves
  room for offsets to stay below \<open>2 ^ 64\<close>.\<close>

definition data_pages :: "'b pager \<Rightarrow> PageId set" where
  "data_pages p = {pid. FIRST_DATA_PAGE \<le> pid \<and> pid < page_count (meta p)}"

definition used :: "'b pager \<Rightarrow> PageId set" where
  "used p = data_pages p - set (free_set p)"

definition PAGE_LIMIT :: nat where "PAGE_LIMIT = 2 ^ 52 - 1"

definition pager_inv :: "bytes \<Rightarrow> 'b pager \<Rightarrow> bool" where
  "pager_inv d p \<longleftrightarrow> coherent d (cache p)
     \<and> 2 \<le> unat (page_count (meta p)) \<and> unat (page_count (meta p)) \<le> PAGE_LIMIT
     \<and> (\<forall>pid e. lookup (cache p) pid = Some e \<longrightarrow> pid \<in> data_pages p)
     \<and> free_loaded p \<and> distinct (free_set p @ trunks p)
     \<and> set (free_set p @ trunks p) \<subseteq> data_pages p"

lemma unat_page_offset:
  assumes "unat pid < PAGE_LIMIT"
  shows "unat (page_offset pid) = unat pid * PAGE_SIZE"
  using assms by (simp add: page_offset_def PAGE_LIMIT_def unat_word_ariths)

lemma data_page_limit:
  assumes "pid \<in> data_pages p" "unat (page_count (meta p)) \<le> PAGE_LIMIT"
  shows "unat pid < PAGE_LIMIT"
  using assms by (auto simp: data_pages_def word_less_nat_alt)

lemma in_range_iff: "in_range p pid = Inr () \<longleftrightarrow> pid \<in> data_pages p"
  by (auto simp: in_range_def data_pages_def)

text \<open>Operations that keep everything but the cache and the backend.\<close>

definition same_state :: "'b pager \<Rightarrow> 'b pager \<Rightarrow> bool" where
  "same_state p q \<longleftrightarrow> q = p\<lparr> cache := cache q, backend := backend q \<rparr>"

lemma same_state_fields:
  assumes "same_state p q"
  shows "meta q = meta p" "free_set q = free_set p" "trunks q = trunks p" "free_loaded q = free_loaded p"
    "active_slot q = active_slot p" "committed_txn q = committed_txn p" "alloc_log q = alloc_log p"
    "data_pages q = data_pages p" "used q = used p"
proof -
  note e = assms [unfolded same_state_def]
  show "meta q = meta p" "free_set q = free_set p" "trunks q = trunks p" "free_loaded q = free_loaded p"
    "active_slot q = active_slot p" "committed_txn q = committed_txn p" "alloc_log q = alloc_log p"
    by (subst e, simp)+
  then show "data_pages q = data_pages p" "used q = used p" by (simp_all add: data_pages_def used_def)
qed

section \<open>Reading and writing over a block store\<close>

context block_store
begin

abbreviation pview :: "'b pager \<Rightarrow> PageId \<Rightarrow> bytes option" where
  "pview p \<equiv> page_view (disk (backend p)) (cache p)"

lemma on_backend_read:
  assumes "on_backend (io_read_at ops at n) p = (r, p')"
  shows "\<exists>b'. p' = p\<lparr> backend := b' \<rparr> \<and> disk b' = disk (backend p) \<and> (\<forall>buf. r = Inr buf \<longrightarrow>
    unat at + n \<le> length (disk (backend p)) \<and> buf = subslice (unat at) n (disk (backend p)))"
proof -
  obtain q b' where io: "io_read_at ops at n (backend p) = (q, b')" by fastforce
  then have "r = map_err PagerIo q" "p' = p\<lparr> backend := b' \<rparr>"
    using assms by (simp_all add: on_backend_def st_zoom_def st_map_err_def)
  moreover have "r = Inr buf \<Longrightarrow> q = Inr buf" for buf using \<open>r = map_err PagerIo q\<close> by simp
  ultimately show ?thesis
    using read_at_disk [OF io] read_at_ok [of at n "backend p" _ b'] io by blast
qed

lemma fetch_safe:
  assumes "pager_inv (disk (backend p)) p" "pid \<in> data_pages p" "fetch ops pid p = (r, p')"
  shows "pager_inv (disk (backend p')) p' \<and> disk (backend p') = disk (backend p) \<and> pview p' = pview p
    \<and> same_state p p' \<and> (\<forall>f. r = Inr f \<longrightarrow> pview p pid = Some f)"
proof -
  have coh: "coherent (disk (backend p)) (cache p)" and
    lim: "unat (page_count (meta p)) \<le> PAGE_LIMIT"
    using assms(1) by (simp_all add: pager_inv_def)
  obtain g c where get: "cache_get pid (cache p) = (g, c)" by fastforce
  note view = page_view_get [OF coh get]
  have cached: "\<And>i e. lookup c i = Some e \<Longrightarrow> i \<in> data_pages p"
  proof -
    fix i e assume "lookup c i = Some e"
    then have "lookup (cache p) i \<noteq> None"
      using cache_get_spec(3) [OF get, of i] coh by (cases "lookup (cache p) i") (auto simp: coherent_def)
    then show "i \<in> data_pages p" using assms(1) by (auto simp: pager_inv_def)
  qed
  show ?thesis
  proof (cases g)
    case (Some f)
    then have "p' = p\<lparr> cache := c \<rparr>" "r = Inr f" using assms(3) get by (simp_all add: fetch_def)
    moreover have "pview p pid = Some f" using view(3) Some by (cases "lookup (cache p) pid") (auto simp: page_view_def)
    moreover have "same_state p (p\<lparr> cache := c \<rparr>)" by (simp add: same_state_def)
    ultimately show ?thesis using assms(1) view(1,2) cached
      by (auto simp: pager_inv_def data_pages_def)
  next
    case None
    then have miss: "lookup c pid = None" "lookup (cache p) pid = None"
      using view(3) cache_get_spec(3) [OF get, of pid] coh by (auto simp: coherent_def)
    let ?p1 = "p\<lparr> cache := c \<rparr>"
    have run: "st_bind (on_backend (io_read_at ops (page_offset pid) PAGE_SIZE)) (\<lambda>buf.
           st_bind (st_lift (verify buf pid)) (\<lambda>_.
           st_bind (st_modify (\<lambda>p. p\<lparr> cache := cache_insert pid buf False (cache p) \<rparr>)) (\<lambda>_.
           st_return buf))) ?p1 = (r, p')"
      using assms(3) get None by (simp add: fetch_def)
    obtain q p2 where rd: "on_backend (io_read_at ops (page_offset pid) PAGE_SIZE) ?p1 = (q, p2)" by fastforce
    from on_backend_read [OF rd] obtain b' where b': "p2 = p\<lparr> cache := c, backend := b' \<rparr>"
      "disk b' = disk (backend p)"
      "\<And>buf. q = Inr buf \<Longrightarrow> on_disk (disk (backend p)) pid buf"
      unfolding on_disk_def page_fits_def disk_page_def
        unat_page_offset [OF data_page_limit [OF assms(2) lim], symmetric]
      by auto
    have keep: "pager_inv (disk (backend p2)) p2" "pview p2 = pview p" "same_state p p2"
      using assms(1) view(1,2) cached b'(1,2) by (auto simp: pager_inv_def data_pages_def same_state_def)
    show ?thesis
    proof (cases q)
      case (Inl e)
      then have "r = Inl e" "p' = p2" using run rd by simp_all
      then show ?thesis using b'(1,2) keep by simp
    next
      case (Inr buf)
      show ?thesis
      proof (cases "verify buf pid")
        case (Inl e)
        then have "r = Inl e" "p' = p2" using run rd \<open>q = Inr buf\<close> by simp_all
        then show ?thesis using b'(1,2) keep by simp
      next
        case ok: (Inr f)
        then have v: "verify buf pid = Inr buf" by (simp add: verify_Inr)
        have p': "p' = p2\<lparr> cache := cache_insert pid buf False c \<rparr>" "r = Inr buf"
          using run rd b'(1) \<open>q = Inr buf\<close> v by auto
        have od: "on_disk (disk (backend p)) pid buf" using b'(3) Inr by simp
        note ins = page_view_insert [OF view(1) v, of False]
        have pv: "page_view (disk (backend p)) c pid = Some buf"
          using miss od v by (simp add: page_view_def on_disk_def)
        have "page_view (disk (backend p)) (cache_insert pid buf False c) = page_view (disk (backend p)) c"
          using ins(2) miss(1) od pv by auto
        moreover have "\<And>i e. lookup (cache_insert pid buf False c) i = Some e \<Longrightarrow> i \<in> data_pages p"
          using cache_insert_spec(2) [of c _ pid buf False] view(1) cached assms(2)
          unfolding coherent_def by (metis option.distinct(1) option.inject)
        ultimately show ?thesis
          using assms(1) ins(1) miss(1) od b'(1,2) p' view(2) pv
          by (auto simp: pager_inv_def data_pages_def same_state_def)
      qed
    qed
  qed
qed

end

text \<open>A store on which in-range operations always succeed.\<close>

locale reliable_store = block_store +
  assumes read_at_total: "unat at + n \<le> length (disk b) \<Longrightarrow> unat at + n < 2 ^ 64 \<Longrightarrow>
      \<exists>b'. io_read_at ops at n b = (Inr (subslice (unat at) n (disk b)), b')"
    and write_at_total: "unat at + length xs < 2 ^ 64 \<Longrightarrow> \<exists>b'. io_write_at ops at xs b = (Inr (), b')"
    and sync_total: "\<exists>b'. io_sync ops b = (Inr (), b')"
    and len_total: "\<exists>l b'. io_len ops b = (Inr l, b')"
    and truncate_total: "\<exists>b'. io_truncate ops l b = (Inr (), b')"

interpretation mem: reliable_store mem_ops "\<lambda>b. b"
  by unfold_locales
    (auto simp: mem_ops_def mem_read_at_def mem_write_at_def mem_sync_def mem_len_def mem_truncate_def
      Let_def)

context reliable_store
begin

lemma fetch_total:
  assumes "pager_inv (disk (backend p)) p" "pid \<in> data_pages p" "pview p pid = Some f"
  shows "\<exists>p'. fetch ops pid p = (Inr f, p')"
proof -
  have coh: "coherent (disk (backend p)) (cache p)" and lim: "unat (page_count (meta p)) \<le> PAGE_LIMIT"
    using assms(1) by (simp_all add: pager_inv_def)
  obtain g c where get: "cache_get pid (cache p) = (g, c)" by fastforce
  note g = page_view_get(3) [OF coh get]
  show ?thesis
  proof (cases "lookup (cache p) pid")
    case (Some e)
    then show ?thesis using assms(3) g get by (simp add: fetch_def page_view_def)
  next
    case None
    have pl: "unat pid < PAGE_LIMIT" by (rule data_page_limit [OF assms(2) lim])
    have f: "page_fits (disk (backend p)) pid" "verify f pid = Inr f" "f = disk_page (disk (backend p)) pid"
      using assms(3) None by (auto simp: page_view_def split: if_splits)
    have "unat pid * PAGE_SIZE + PAGE_SIZE < 2 ^ 64" using pl by (simp add: PAGE_LIMIT_def)
    then obtain b' where "io_read_at ops (page_offset pid) PAGE_SIZE (backend p) = (Inr f, b')"
      using read_at_total [of "page_offset pid" PAGE_SIZE "backend p"] f(1,3) unat_page_offset [OF pl]
      by (auto simp: page_fits_def disk_page_def)
    then show ?thesis using get g None f(2)
      by (simp add: fetch_def on_backend_def st_zoom_def st_bind_def st_map_err_def)
  qed
qed

lemma read_page_total:
  assumes "pager_inv (disk (backend p)) p" "pid \<in> data_pages p" "pview p pid = Some f"
  shows "\<exists>p'. read_page ops pid p = (Inr f, p') \<and> pager_inv (disk (backend p')) p'
    \<and> pview p' = pview p \<and> same_state p p'"
proof -
  from fetch_total [OF assms] obtain p' where f: "fetch ops pid p = (Inr f, p')" by blast
  then have "read_page ops pid p = (Inr f, p')"
    using assms(2) by (simp add: read_page_def in_range_iff)
  then show ?thesis using fetch_safe [OF assms(1,2) f] by blast
qed

end

section \<open>Writing and allocating\<close>

lemma write_page_ok:
  assumes "pager_inv d p" "pid \<in> data_pages p" "length payload \<le> PAGE_PAYLOAD_SIZE"
  shows "\<exists>f p'. write_page pid ty payload p = (Inr (), p')
    \<and> f = finalize ty pid (splice HEADER_SIZE payload zeroed)
    \<and> p' = p\<lparr> cache := cache_insert pid f True (cache p) \<rparr> \<and> pager_inv d p'
    \<and> page_view d (cache p') = (page_view d (cache p))(pid \<mapsto> f) \<and> same_state p p'"
proof -
  define f where "f = finalize ty pid (splice HEADER_SIZE payload zeroed)"
  have v: "verify f pid = Inr f" using assms(3) by (simp add: f_def)
  have coh: "coherent d (cache p)" using assms(1) by (simp add: pager_inv_def)
  note ins = page_view_insert [OF coh v, of True]
  have cached: "\<And>i e. lookup (cache_insert pid f True (cache p)) i = Some e \<Longrightarrow> i \<in> data_pages p"
    using cache_insert_spec(2) [of "cache p" _ pid f True] coh assms(1,2)
    unfolding coherent_def pager_inv_def by (metis option.distinct(1))
  let ?p = "p\<lparr> cache := cache_insert pid f True (cache p) \<rparr>"
  have "write_page pid ty payload p = (Inr (), ?p)"
    using assms(2,3) by (simp add: write_page_def in_range_iff set_payload_def f_def)
  moreover have "pager_inv d ?p"
    using assms(1) ins(1) cached by (auto simp: pager_inv_def data_pages_def)
  moreover have "same_state p ?p" by (simp add: same_state_def)
  ultimately show ?thesis using ins(2) f_def by auto
qed

lemma payload_of_written:
  assumes "length payload \<le> PAGE_PAYLOAD_SIZE"
  shows "drop HEADER_SIZE (finalize ty pid (splice HEADER_SIZE payload zeroed)) =
    payload @ replicate (PAGE_PAYLOAD_SIZE - length payload) 0"
  using assms by (simp add: finalize_fields(3) splice_def zeroed_def)

definition room :: "'b pager \<Rightarrow> nat" where
  "room p = length (free_set p) + (PAGE_LIMIT - unat (page_count (meta p)))"

lemma alloc_ok:
  assumes "pager_inv d p" "0 < room p"
  shows "\<exists>pid p'. alloc ops p = (Inr pid, p') \<and> pager_inv d p' \<and> pid \<notin> used p \<and> pid \<in> data_pages p'
    \<and> used p' = insert pid (used p) \<and> room p' = room p - 1 \<and> cache p' = cache p \<and> backend p' = backend p
    \<and> data_pages p \<subseteq> data_pages p' \<and> trunks p' = trunks p \<and> (pid \<in> set (free_set p) \<or> pid \<notin> data_pages p)
    \<and> alloc_log p' = map_option (\<lambda>log. log @ [pid]) (alloc_log p)"
proof (cases "free_set p = []")
  case True
  let ?pc = "page_count (meta p)"
  have lim: "unat ?pc < PAGE_LIMIT" using assms(2) True by (simp add: room_def)
  then have suc: "unat (?pc + 1) = Suc (unat ?pc)" by (simp add: PAGE_LIMIT_def unat_word_ariths)
  have two: "2 \<le> unat ?pc" using assms(1) by (simp add: pager_inv_def)
  define p' where "p' = p\<lparr> meta := (meta p)\<lparr> page_count := ?pc + 1 \<rparr>,
      alloc_log := map_option (\<lambda>log. log @ [?pc]) (alloc_log p) \<rparr>"
  have al: "alloc ops p = (Inr ?pc, p')"
    using True assms(1) by (simp add: alloc_def ensure_free_loaded_def pager_inv_def p'_def)
  have dp: "data_pages p' = insert ?pc (data_pages p)" "?pc \<notin> data_pages p"
    using suc two by (auto simp: data_pages_def p'_def word_less_nat_alt word_le_nat_alt unsigned_word_eqI less_Suc_eq)
  have inv: "pager_inv d p'"
    using assms(1) suc lim dp unfolding pager_inv_def by (auto simp: p'_def)
  show ?thesis
    by (rule exI [of _ ?pc], rule exI [of _ p'])
      (use al inv dp suc lim True in \<open>auto simp: used_def p'_def room_def\<close>)
next
  case False
  let ?x = "last (free_set p)"
  have app: "butlast (free_set p) @ [?x] = free_set p" using False by simp
  define p' where "p' = p\<lparr> free_set := butlast (free_set p),
      alloc_log := map_option (\<lambda>log. log @ [?x]) (alloc_log p) \<rparr>"
  have al: "alloc ops p = (Inr ?x, p')"
    using False assms(1) by (simp add: alloc_def ensure_free_loaded_def pager_inv_def p'_def)
  have x: "?x \<in> set (free_set p)" using False by simp
  have dist: "distinct (butlast (free_set p))" "?x \<notin> set (butlast (free_set p))"
    "set (free_set p) = insert ?x (set (butlast (free_set p)))"
    using assms(1) app unfolding pager_inv_def
    by (metis distinct_append distinct_butlast, metis distinct_append not_distinct_conv_prefix app,
        metis app list.set(1) list.set(2) set_append Un_insert_right sup_bot_right)
  have inv: "pager_inv d p'"
    using assms(1) dist unfolding pager_inv_def by (auto simp: p'_def data_pages_def)
  have len: "length (free_set p) - Suc 0 + n = length (free_set p) + n - Suc 0" for n
    using False by (cases "free_set p") simp_all
  have xd: "?x \<in> data_pages p" using assms(1) x by (auto simp: pager_inv_def)
  show ?thesis
    by (rule exI [of _ ?x], rule exI [of _ p'])
      (use al inv xd x dist False len in \<open>auto simp: used_def p'_def room_def data_pages_def\<close>)
qed

end
