(* ===== verification/PagerCommit.thy ===== *)
theory PagerCommit
  imports Pager "HOL-Library.Multiset"
begin

text \<open>
  Durability of the pager: what recovery makes of a disk image, the effect of the commit protocol on
  the image at every point it may stop, and the round trip of the free list through its trunk chain.
\<close>

section \<open>Recovery\<close>

text \<open>The meta that opening a disk image adopts.\<close>

definition recover :: "bytes \<Rightarrow> PagerError + (Meta \<times> u64)" where
  "recover d = adopt_slot (parse_meta 0 (disk_page d 0)) (parse_meta 1 (disk_page d 1))"

definition meta_frame :: "u64 \<Rightarrow> Meta \<Rightarrow> bytes" where
  "meta_frame slot m = finalize MetaPage slot (meta_encode m zeroed)"

lemma length_meta_frame [simp]: "length (meta_frame slot m) = PAGE_SIZE"
  by (simp add: meta_frame_def)

lemma parse_meta_frame: "meta_wf m \<Longrightarrow> parse_meta slot (meta_frame slot m) = Inr m"
  by (simp add: parse_meta_def meta_frame_def meta_decode_encode)

lemma parse_meta_wf: "parse_meta slot buf = Inr m \<Longrightarrow> meta_wf m"
  by (auto simp: parse_meta_def meta_decode_wf split: if_splits)

lemma adopt_slot_cases:
  "adopt_slot s0 s1 = Inr (m, slot) \<longleftrightarrow>
     slot = 0 \<and> s0 = Inr m \<and> (\<forall>b. s1 = Inr b \<longrightarrow> txn_id b \<le> txn_id m)
     \<or> slot = 1 \<and> s1 = Inr m \<and> (\<forall>a. s0 = Inr a \<longrightarrow> txn_id a < txn_id m)"
  by (cases s0; cases s1) (auto simp: adopt_slot_def not_less)

text \<open>Recovery depends on the two slots only; replacing the inactive slot by a newer meta switches to
  it, by anything undecodable or unchanged keeps the old one.\<close>

lemma recover_replace:
  assumes "recover d = Inr (cm, a)" "a = 0 \<or> a = 1"
    and "disk_page d' a = disk_page d a"
  shows "disk_page d' (1 - a) = disk_page d (1 - a) \<Longrightarrow> recover d' = Inr (cm, a)"
    "parse_meta (1 - a) (disk_page d' (1 - a)) = Inl e \<Longrightarrow> recover d' = Inr (cm, a)"
    "parse_meta (1 - a) (disk_page d' (1 - a)) = Inr m \<Longrightarrow> txn_id cm < txn_id m \<Longrightarrow>
       recover d' = Inr (m, 1 - a)"
  using assms by (auto simp: recover_def adopt_slot_cases)

section \<open>Page writes\<close>

lemma disk_page_write:
  assumes "length f = PAGE_SIZE" "page_fits d pid"
  shows "length (write_range (unat pid * PAGE_SIZE) f d) = length d"
    "page_fits d j \<Longrightarrow> disk_page (write_range (unat pid * PAGE_SIZE) f d) j = (if j = pid then f else disk_page d j)"
proof -
  show "length (write_range (unat pid * PAGE_SIZE) f d) = length d"
    using assms by (simp add: length_write_range page_fits_def)
  assume fits: "page_fits d j"
  show "disk_page (write_range (unat pid * PAGE_SIZE) f d) j = (if j = pid then f else disk_page d j)"
  proof (cases "j = pid")
    case True
    then show ?thesis using subslice_write_range_same [of _ f d] assms(1) by (simp add: disk_page_def)
  next
    case False
    then have "unat j < unat pid \<or> unat pid < unat j" by (metis linorder_neqE_nat unsigned_word_eqI)
    then have "unat j * PAGE_SIZE + PAGE_SIZE \<le> unat pid * PAGE_SIZE
        \<or> unat pid * PAGE_SIZE + PAGE_SIZE \<le> unat j * PAGE_SIZE" by auto
    then have "subslice (unat j * PAGE_SIZE) PAGE_SIZE (write_range (unat pid * PAGE_SIZE) f d) =
        subslice (unat j * PAGE_SIZE) PAGE_SIZE d"
      using fits assms(1) by (intro subslice_write_range_other) (auto simp: page_fits_def)
    then show ?thesis using False by (simp add: disk_page_def)
  qed
qed

definition writable :: "bytes \<Rightarrow> (u64 \<times> bytes) list \<Rightarrow> bool" where
  "writable d pages \<longleftrightarrow> (\<forall>(pid, f) \<in> set pages. length f = PAGE_SIZE \<and> page_fits d pid
     \<and> unat pid < PAGE_LIMIT)"

context block_store
begin

lemma write_pages:
  assumes "st_each (\<lambda>(pid, f). io_write_at ops (page_offset pid) f) pages b = (r, b')"
    and "writable (disk b) pages" "distinct (map fst pages)"
  shows "length (disk b') = length (disk b)
    \<and> (\<forall>j. page_fits (disk b) j \<longrightarrow> j \<notin> fst ` set pages \<longrightarrow> disk_page (disk b') j = disk_page (disk b) j)
    \<and> (r = Inr () \<longrightarrow> (\<forall>(pid, f) \<in> set pages. disk_page (disk b') pid = f))"
  using assms
proof (induction pages arbitrary: b)
  case (Cons x pages)
  obtain pid f where x: "x = (pid, f)" by fastforce
  have wr: "length f = PAGE_SIZE" "page_fits (disk b) pid" "unat pid < PAGE_LIMIT"
    using Cons.prems(2) by (auto simp: x writable_def)
  obtain q b1 where io: "io_write_at ops (page_offset pid) f b = (q, b1)" by fastforce
  show ?case
  proof (cases q)
    case (Inl e)
    then show ?thesis using Cons.prems(1) io write_at_err by (auto simp: x)
  next
    case (Inr u)
    then have d1: "disk b1 = write_range (unat pid * PAGE_SIZE) f (disk b)"
      using write_at_ok io unat_page_offset [OF wr(3)] by (metis (full_types) old.unit.exhaust)
    note dp = disk_page_write [OF wr(1,2), folded d1]
    have fits: "page_fits (disk b1) j = page_fits (disk b) j" for j using dp(1) by (simp add: page_fits_def)
    have "st_each (\<lambda>(pid, f). io_write_at ops (page_offset pid) f) pages b1 = (r, b')"
      using Cons.prems(1) io Inr by (simp add: x)
    moreover have "writable (disk b1) pages"
      using Cons.prems(2) by (auto simp: writable_def fits)
    ultimately have IH: "length (disk b') = length (disk b1)"
      "\<And>j. page_fits (disk b) j \<Longrightarrow> j \<notin> fst ` set pages \<Longrightarrow> disk_page (disk b') j = disk_page (disk b1) j"
      "r = Inr () \<Longrightarrow> \<forall>(pid, f) \<in> set pages. disk_page (disk b') pid = f"
      using Cons.IH [of b1] Cons.prems(3) fits by auto
    have here: "disk_page (disk b') pid = f"
      using IH(2) [OF wr(2)] dp(2) [OF wr(2)] Cons.prems(3) by (auto simp: x image_iff)
    show ?thesis
      using IH dp here by (auto simp: x)
  qed
qed simp

lemma flush_effect:
  assumes "flush ops pages needed b = (r, b')"
    and "\<forall>(pid, f) \<in> set pages. length f = PAGE_SIZE \<and> unat pid * PAGE_SIZE + PAGE_SIZE \<le> unat needed
      \<and> unat pid < PAGE_LIMIT"
    and "distinct (map fst pages)" "length (disk b) < 2 ^ 64"
  shows "length (disk b) \<le> length (disk b') \<and> length (disk b') \<le> max (length (disk b)) (unat needed)
    \<and> (\<forall>j. page_fits (disk b) j \<longrightarrow> j \<notin> fst ` set pages \<longrightarrow> disk_page (disk b') j = disk_page (disk b) j)
    \<and> (r = Inr () \<longrightarrow> unat needed \<le> length (disk b') \<and> (\<forall>(pid, f) \<in> set pages. disk_page (disk b') pid = f))"
proof -
  obtain l b1 where io: "io_len ops b = (l, b1)" by fastforce
  have d1: "disk b1 = disk b" using len_disk [OF io] .
  show ?thesis
  proof (cases l)
    case (Inl e)
    then have "b' = b1" "r = Inl e" using assms(1) io by (simp_all add: flush_def)
    then show ?thesis using d1 by simp
  next
    case (Inr n)
    then have n: "n = of_nat (length (disk b))" using len_ok io by blast
    then have un: "unat n = length (disk b)" using assms(4) by (simp add: unat_of_nat_u64)
    define grow where "grow = (if n < needed then io_truncate ops needed else st_return ())"
    obtain q b2 where tr: "grow b1 = (q, b2)" by fastforce
    have d2: "disk b2 = disk b \<or> (n < needed \<and> disk b2 = vec_resize (unat needed) (disk b))"
      "q = Inr () \<Longrightarrow> unat needed \<le> length (disk b2)"
      using tr truncate_ok [of needed b1 b2] truncate_err [of needed b1 _ b2] d1 un
      by (cases q; auto simp: grow_def word_less_nat_alt split: if_splits)+
    have grown: "length (disk b) \<le> length (disk b2)" "length (disk b2) \<le> max (length (disk b)) (unat needed)"
      "page_fits (disk b) j \<Longrightarrow> disk_page (disk b2) j = disk_page (disk b) j" for j
      using d2(1) un
      by (auto simp: disk_page_def page_fits_def word_less_nat_alt subslice_vec_resize)
    show ?thesis
    proof (cases q)
      case (Inl e)
      then have "b' = b2" "r = Inl e"
        using assms(1) io \<open>l = Inr n\<close> tr by (simp_all add: flush_def grow_def [symmetric])
      then show ?thesis using grown by simp
    next
      case (Inr u)
      obtain w b3 where wr: "st_each (\<lambda>(pid, f). io_write_at ops (page_offset pid) f) pages b2 = (w, b3)"
        by fastforce
      have fin: "disk b' = disk b3 \<and> (r = Inr () \<longrightarrow> w = Inr ())"
        using assms(1) io \<open>l = Inr n\<close> tr Inr wr sync_disk
        by (cases w) (auto simp: flush_def grow_def [symmetric])
      have "writable (disk b2) pages"
        using assms(2) d2(2) Inr by (fastforce simp: writable_def page_fits_def)
      note pages = write_pages [OF wr this assms(3)]
      have "page_fits (disk b) j \<Longrightarrow> page_fits (disk b2) j" for j
        using grown(1) by (simp add: page_fits_def)
      then show ?thesis using pages grown fin d2(2) Inr by auto
    qed
  qed
qed

lemma swap_effect:
  assumes "swap_meta ops slot m b = (r, b')" "page_fits (disk b) slot" "unat slot < PAGE_LIMIT"
  shows "length (disk b') = length (disk b)
    \<and> (\<forall>j. page_fits (disk b) j \<longrightarrow> j \<noteq> slot \<longrightarrow> disk_page (disk b') j = disk_page (disk b) j)
    \<and> (disk_page (disk b') slot = disk_page (disk b) slot \<or> disk_page (disk b') slot = meta_frame slot m)
    \<and> (r = Inr () \<longrightarrow> disk_page (disk b') slot = meta_frame slot m)"
proof -
  obtain q b1 where io: "io_write_at ops (page_offset slot) (meta_frame slot m) b = (q, b1)" by fastforce
  show ?thesis
  proof (cases q)
    case (Inl e)
    then show ?thesis
      using assms(1) io write_at_err by (auto simp: swap_meta_def meta_frame_def)
  next
    case (Inr u)
    then have d1: "disk b1 = write_range (unat slot * PAGE_SIZE) (meta_frame slot m) (disk b)"
      using write_at_ok io unat_page_offset [OF assms(3)] by (metis (full_types) old.unit.exhaust)
    have "disk b' = disk b1"
      using assms(1) io Inr sync_disk by (auto simp: swap_meta_def meta_frame_def)
    then show ?thesis
      using disk_page_write [OF length_meta_frame [of slot m] assms(2), folded d1] assms(2) by auto
  qed
qed

end

section \<open>The free-list chain\<close>

lemma fold_set_ids:
  assumes "length f = PAGE_SIZE" "k + length ids \<le> CAPACITY"
  defines "g \<equiv> fold (\<lambda>(i, x) f. set_id_at i x f) (enumerate k ids) f"
  shows "length g = PAGE_SIZE \<and> trunk_next g = trunk_next f \<and> trunk_count g = trunk_count f
    \<and> (\<forall>j < CAPACITY. id_at g j = (if k \<le> j \<and> j < k + length ids then ids ! (j - k) else id_at f j))"
  using assms(1,2) unfolding g_def
proof (induction ids arbitrary: k f)
  case (Cons x ids)
  have len: "length (set_id_at k x f) = PAGE_SIZE" using Cons.prems by simp
  have IH: "length (fold (\<lambda>(i, x) f. set_id_at i x f) (enumerate (Suc k) ids) (set_id_at k x f)) = PAGE_SIZE"
    "trunk_next (fold (\<lambda>(i, x) f. set_id_at i x f) (enumerate (Suc k) ids) (set_id_at k x f)) = trunk_next f"
    "trunk_count (fold (\<lambda>(i, x) f. set_id_at i x f) (enumerate (Suc k) ids) (set_id_at k x f)) = trunk_count f"
    "\<And>j. j < CAPACITY \<Longrightarrow> id_at (fold (\<lambda>(i, x) f. set_id_at i x f) (enumerate (Suc k) ids) (set_id_at k x f)) j =
      (if Suc k \<le> j \<and> j < Suc k + length ids then ids ! (j - Suc k) else if j = k then x else id_at f j)"
    using Cons.IH [OF len, of "Suc k"] Cons.prems by (auto simp: le_eq_less_or_eq)
  have step: "(if Suc k \<le> j \<and> j < Suc k + length ids then ids ! (j - Suc k) else if j = k then x else id_at f j) =
      (if k \<le> j \<and> j < k + length (x # ids) then (x # ids) ! (j - k) else id_at f j)" for j
    by (cases "j = k") (auto simp: nth_Cons')
  show ?case using IH step by simp
qed auto

lemma id_at_finalize:
  "length f = PAGE_SIZE \<Longrightarrow> id_at (finalize ty t f) j = id_at f j"
  "length f = PAGE_SIZE \<Longrightarrow> trunk_next (finalize ty t f) = trunk_next f"
  "length f = PAGE_SIZE \<Longrightarrow> trunk_count (finalize ty t f) = trunk_count f"
  by (simp_all add: id_at_def trunk_next_def trunk_count_def)

lemma parse_trunk_frame:
  assumes "length ids \<le> CAPACITY"
  shows "parse_trunk t (trunk_frame t head ids) = Inr (ids, head)"
    "verify (trunk_frame t head ids) t = Inr (trunk_frame t head ids)"
proof -
  define g where "g = fold (\<lambda>(i, x) f. set_id_at i x f) (enumerate 0 ids)
      (set_count (of_nat (length ids)) (set_next head zeroed))"
  have g: "length g = PAGE_SIZE" "trunk_next g = head" "trunk_count g = of_nat (length ids)"
    "\<And>j. j < length ids \<Longrightarrow> id_at g j = ids ! j"
    using fold_set_ids [of "set_count (of_nat (length ids)) (set_next head zeroed)" 0 ids] assms
    by (simp_all add: g_def)
  have c: "unat (of_nat (length ids) :: u32) = length ids"
    using assms by (simp add: unat_of_nat take_bit_nat_eq_self)
  have "map (id_at g) [0..<length ids] = ids" by (rule nth_equalityI) (simp_all add: g(4))
  then show "parse_trunk t (trunk_frame t head ids) = Inr (ids, head)"
    using g assms c by (simp add: parse_trunk_def trunk_frame_def g_def [symmetric] id_at_finalize cong: map_cong)
  show "verify (trunk_frame t head ids) t = Inr (trunk_frame t head ids)"
    using g(1) by (simp add: trunk_frame_def g_def [symmetric])
qed

text \<open>A chain of trunks from a head, as segments of a container and the ids it stores.\<close>

fun chain :: "(u64 \<Rightarrow> bytes option) \<Rightarrow> u64 \<Rightarrow> (u64 \<times> u64 list) list \<Rightarrow> bool" where
  "chain v h [] = (h = 0)"
| "chain v h ((t, ids) # segs) =
     (h = t \<and> t \<noteq> 0 \<and> (\<exists>buf nxt. v t = Some buf \<and> parse_trunk t buf = Inr (ids, nxt) \<and> chain v nxt segs))"

lemma chain_cong: "(\<And>t. t \<in> fst ` set segs \<Longrightarrow> v' t = v t) \<Longrightarrow> chain v' h segs = chain v h segs"
proof (induction segs arbitrary: h)
  case (Cons a segs)
  obtain t ids where a: "a = (t, ids)" by fastforce
  have "v' t = v t" "\<And>h. chain v' h segs = chain v h segs" using Cons by (auto simp: a)
  then show ?case by (simp add: a)
qed simp

lemma rebuild_loop_spec:
  assumes "rebuild_loop pool head c nt st = (head', c', nt', st')"
    and "coherent d c" "distinct pool" "0 \<notin> set pool" "chain (page_view d c) head segs"
    and "fst ` set segs \<inter> set pool = {}" "\<forall>i e. lookup c i = Some e \<longrightarrow> i \<in> S" "set pool \<subseteq> S"
  shows "coherent d c' \<and> (\<forall>j. j \<notin> set pool \<longrightarrow> page_view d c' j = page_view d c j)
    \<and> (\<forall>i e. lookup c' i = Some e \<longrightarrow> i \<in> S) \<and> mset (nt' @ st') = mset (nt @ st @ pool)
    \<and> (\<exists>ns. chain (page_view d c') head' (ns @ segs) \<and> nt' = nt @ rev (map fst ns)
         \<and> st' = st @ concat (rev (map snd ns)))"
  using assms
proof (induction pool head c nt st arbitrary: segs rule: rebuild_loop.induct)
  case (1 pool head c nt st)
  show ?case
  proof (cases "pool = []")
    case True
    then have "head' = head" "c' = c" "nt' = nt" "st' = st"
      using "1.prems"(1) by (simp_all add: rebuild_loop.simps)
    then show ?thesis using "1.prems" True by (auto intro: exI [of _ "[]"])
  next
    case False
    define container where "container = last pool"
    define rest where "rest = butlast pool"
    define n where "n = min (length rest) CAPACITY"
    define ids where "ids = drop (length rest - n) rest"
    define pool' where "pool' = take (length rest - n) rest"
    have pool: "pool = rest @ [container]" using False by (simp add: rest_def container_def)
    have rest: "rest = pool' @ ids" by (simp add: pool'_def ids_def)
    have ids: "length ids \<le> CAPACITY" by (simp add: ids_def n_def)
    let ?f = "trunk_frame container head ids"
    note pt = parse_trunk_frame [OF ids, of container head]
    note ins = page_view_insert [OF "1.prems"(2) pt(2), of True]
    have run: "rebuild_loop pool' container (cache_insert container ?f True c) (nt @ [container]) (st @ ids)
        = (head', c', nt', st')"
      using "1.prems"(1) False by (subst (asm) rebuild_loop.simps)
        (simp add: Let_def container_def rest_def n_def ids_def pool'_def)
    have ch: "chain (page_view d (cache_insert container ?f True c)) container ((container, ids) # segs)"
    proof -
      have "chain (page_view d (cache_insert container ?f True c)) head segs"
        using "1.prems"(5,6) ins(2) pool by (subst chain_cong [where v = "page_view d c"]) auto
      moreover have "container \<noteq> 0" using "1.prems"(4) pool by auto
      ultimately show ?thesis using pt(1) ins(2) by auto
    qed
    have wf: "cache_wf c" using "1.prems"(2) by (simp add: coherent_def)
    have inS: "\<forall>i e. lookup (cache_insert container ?f True c) i = Some e \<longrightarrow> i \<in> S"
      using cache_insert_spec(2) [OF wf, of _ container ?f True] "1.prems"(7,8) pool
      by (metis in_set_conv_decomp option.distinct(1) subsetD)
    have dj: "fst ` set ((container, ids) # segs) \<inter> set pool' = {}" "distinct pool'" "0 \<notin> set pool'"
      "set pool' \<subseteq> S"
      using "1.prems"(3,4,6,8) pool rest by auto
    note IH = "1.IH" [OF False container_def rest_def n_def ids_def, folded pool'_def,
        OF run ins(1) dj(2,3) ch dj(1) inS dj(4)]
    then obtain ns where ns: "chain (page_view d c') head' (ns @ (container, ids) # segs)"
      "nt' = (nt @ [container]) @ rev (map fst ns)" "st' = (st @ ids) @ concat (rev (map snd ns))" by blast
    have "page_view d c' j = page_view d c j" if "j \<notin> set pool" for j
      using IH that pool rest ins(2) by simp
    moreover have "mset (nt' @ st') = mset (nt @ st @ pool)" using IH pool rest by simp
    moreover have "\<exists>ns. chain (page_view d c') head' (ns @ segs) \<and> nt' = nt @ rev (map fst ns)
         \<and> st' = st @ concat (rev (map snd ns))"
      using ns by (intro exI [of _ "ns @ [(container, ids)]"]) simp
    ultimately show ?thesis using IH by blast
  qed
qed

definition disk_view :: "bytes \<Rightarrow> u64 \<Rightarrow> bytes option" where
  "disk_view d t = (if page_fits d t then Some (disk_page d t) else None)"

lemma disk_view_Some: "disk_view d t = Some buf \<longleftrightarrow> page_fits d t \<and> buf = disk_page d t"
  by (auto simp: disk_view_def)

context reliable_store
begin

lemma load_loop_chain:
  assumes "chain (disk_view (disk b)) h segs" "distinct (map fst segs)" "fst ` set segs \<inter> seen = {}"
    and "\<And>t. t \<in> fst ` set segs \<Longrightarrow> trunk_in_range m t \<and> unat t < PAGE_LIMIT"
  shows "\<exists>b'. load_loop ops m (u64_to_opt h) seen free trs b =
      (Inr (free @ concat (map snd segs), trs @ map fst segs), b') \<and> disk b' = disk b"
  using assms
proof (induction segs arbitrary: h seen free trs b)
  case Nil
  then show ?case by (simp add: load_loop.simps u64_to_opt_def)
next
  case (Cons a segs)
  obtain t ids where a: "a = (t, ids)" by fastforce
  from Cons.prems(1) obtain nxt where c: "h = t" "t \<noteq> 0" "page_fits (disk b) t"
    "parse_trunk t (disk_page (disk b) t) = Inr (ids, nxt)" "chain (disk_view (disk b)) nxt segs"
    by (auto simp: a disk_view_Some)
  have t: "trunk_in_range m t" "unat t < PAGE_LIMIT" "t \<notin> seen" using Cons.prems(3,4) by (auto simp: a)
  then have "unat t * PAGE_SIZE + PAGE_SIZE < 2 ^ 64" by (simp add: PAGE_LIMIT_def)
  then obtain b1 where io: "io_read_at ops (page_offset t) PAGE_SIZE b = (Inr (disk_page (disk b) t), b1)"
    using read_at_total [of "page_offset t" PAGE_SIZE b] c(3) unat_page_offset [OF t(2)]
    by (auto simp: page_fits_def disk_page_def)
  have d1: "disk b1 = disk b" by (rule read_at_disk [OF io])
  have "load_loop ops m (u64_to_opt h) seen free trs b =
      load_loop ops m (u64_to_opt nxt) (insert t seen) (free @ ids) (trs @ [t]) b1"
    using c(1,2,4) t io by (subst load_loop.simps) (simp add: u64_to_opt_def)
  moreover have "\<exists>b'. load_loop ops m (u64_to_opt nxt) (insert t seen) (free @ ids) (trs @ [t]) b1 =
      (Inr ((free @ ids) @ concat (map snd segs), (trs @ [t]) @ map fst segs), b') \<and> disk b' = disk b1"
    using Cons.prems c(5) d1 by (intro Cons.IH) (auto simp: a)
  ultimately show ?case using d1 by (simp add: a)
qed

end

section \<open>The commit protocol\<close>

text \<open>The image the pager runs on holds a committed meta in the active slot, and the in-memory meta
  still carries its transaction id.\<close>

definition committed :: "bytes \<Rightarrow> 'b pager \<Rightarrow> Meta \<Rightarrow> bool" where
  "committed d p cm \<longleftrightarrow> 2 * PAGE_SIZE \<le> length d \<and> length d < 2 ^ 64
     \<and> (active_slot p = 0 \<or> active_slot p = 1) \<and> recover d = Inr (cm, active_slot p)
     \<and> txn_id cm = txn_id (meta p) \<and> unat (txn_id cm) + 1 < 2 ^ 64 \<and> meta_wf (meta p)"

text \<open>The meta a commit installs.\<close>

definition next_meta :: "'b pager \<Rightarrow> Meta" where
  "next_meta p = (let m = meta (snd (rebuild_free_list p)) in m\<lparr> txn_id := txn_id m + 1 \<rparr>)"

lemma zero_not_data [simp]: "0 \<notin> data_pages p" "1 \<notin> data_pages p"
  by (simp_all add: data_pages_def word_le_nat_alt)

lemma rebuild_spec:
  assumes "pager_inv d p" "rebuild_free_list p = (dead, q)"
  shows "pager_inv d q" "dead = trunks p" "data_pages q = data_pages p"
    "\<And>j. j \<notin> set (free_set p) \<Longrightarrow> page_view d (cache q) j = page_view d (cache p) j"
    "mset (trunks q @ free_set q) = mset (free_set p)" "backend q = backend p"
    "active_slot q = active_slot p" "committed_txn q = committed_txn p"
    "txn_id (meta q) = txn_id (meta p)" "page_count (meta q) = page_count (meta p)"
    "catalog_root (meta q) = catalog_root (meta p)" "meta_wf (meta p) \<Longrightarrow> meta_wf (meta q)"
    "freelist_len (meta q) = of_nat (length (free_set q))"
    "\<exists>segs. chain (page_view d (cache q)) (opt_to_u64 (freelist_head (meta q))) segs
       \<and> trunks q = rev (map fst segs) \<and> free_set q = concat (rev (map snd segs))"
proof -
  obtain h c nt st where loop: "rebuild_loop (free_set p) 0 (cache p) [] [] = (h, c, nt, st)"
    by (metis prod.exhaust)
  have q: "dead = trunks p" "q = p\<lparr> cache := c, meta := (meta p)\<lparr> freelist_head := u64_to_opt h,
      freelist_len := of_nat (length st) \<rparr>, free_set := st, trunks := nt \<rparr>"
    using assms(2) loop by (simp_all add: rebuild_free_list_def)
  have inv: "coherent d (cache p)" "distinct (free_set p)" "set (free_set p) \<subseteq> data_pages p"
    "\<forall>i e. lookup (cache p) i = Some e \<longrightarrow> i \<in> data_pages p"
    using assms(1) by (auto simp: pager_inv_def)
  have "0 \<notin> set (free_set p)" using inv(3) by auto
  note spec = rebuild_loop_spec [OF loop inv(1,2) this, of "[]", OF _ _ inv(4,3), simplified]
  have dp: "data_pages q = data_pages p" by (simp add: q data_pages_def)
  have m: "mset (nt @ st) = mset (free_set p)" using spec by simp
  then have "distinct (nt @ st)" "set (nt @ st) = set (free_set p)"
    using inv(2) by (metis mset_eq_imp_distinct_iff, metis mset_eq_setD)
  then show "pager_inv d q"
    using assms(1) spec inv(3) dp unfolding pager_inv_def by (auto simp: q)
  from spec obtain ns where ns: "chain (page_view d c) h ns" "nt = rev (map fst ns)"
    "st = concat (rev (map snd ns))" by blast
  have h: "opt_to_u64 (u64_to_opt h) = h" by (simp add: opt_to_u64_def u64_to_opt_def)
  show "\<exists>segs. chain (page_view d (cache q)) (opt_to_u64 (freelist_head (meta q))) segs
       \<and> trunks q = rev (map fst segs) \<and> free_set q = concat (rev (map snd segs))"
    using ns h by (auto simp: q)
  show "meta_wf (meta p) \<Longrightarrow> meta_wf (meta q)" by (auto simp: q meta_wf_def u64_to_opt_def)
  show "\<And>j. j \<notin> set (free_set p) \<Longrightarrow> page_view d (cache q) j = page_view d (cache p) j"
    using spec by (simp add: q)
  show "mset (trunks q @ free_set q) = mset (free_set p)" using m by (simp add: q)
qed (use assms(2) in \<open>auto simp: rebuild_free_list_def data_pages_def split: prod.splits\<close>)

lemma dirty_pages_writable:
  assumes "pager_inv d q"
  shows "\<forall>(pid, f) \<in> set (dirty_pages (cache q)). length f = PAGE_SIZE
      \<and> unat pid * PAGE_SIZE + PAGE_SIZE \<le> unat (page_count (meta q) * of_nat PAGE_SIZE)
      \<and> unat pid < PAGE_LIMIT"
    "distinct (map fst (dirty_pages (cache q)))" "fst ` set (dirty_pages (cache q)) \<subseteq> data_pages q"
proof -
  have wf: "cache_wf (cache q)" and lim: "unat (page_count (meta q)) \<le> PAGE_LIMIT"
    using assms by (auto simp: pager_inv_def coherent_def)
  have need: "unat (page_count (meta q) * of_nat PAGE_SIZE) = unat (page_count (meta q)) * PAGE_SIZE"
    using lim by (simp add: unat_word_ariths PAGE_LIMIT_def)
  have mem: "length f = PAGE_SIZE \<and> pid \<in> data_pages q" if "(pid, f) \<in> set (dirty_pages (cache q))" for pid f
    using that assms by (auto simp: dirty_pages_mem [OF wf] pager_inv_def coherent_def verify_Inr)
  have "unat pid + 1 \<le> unat (page_count (meta q))" if "pid \<in> data_pages q" for pid
    using that by (auto simp: data_pages_def word_less_nat_alt)
  then have room: "unat pid * PAGE_SIZE + PAGE_SIZE \<le> unat (page_count (meta q)) * PAGE_SIZE"
    if "pid \<in> data_pages q" for pid
    using that by (metis mult.commute mult_le_mono2 Suc_eq_plus1 mult_Suc_right add.commute)
  show "\<forall>(pid, f) \<in> set (dirty_pages (cache q)). length f = PAGE_SIZE
      \<and> unat pid * PAGE_SIZE + PAGE_SIZE \<le> unat (page_count (meta q) * of_nat PAGE_SIZE)
      \<and> unat pid < PAGE_LIMIT"
    using mem room data_page_limit [OF _ lim] need by auto
  show "distinct (map fst (dirty_pages (cache q)))" by (rule dirty_pages_distinct [OF wf])
  show "fst ` set (dirty_pages (cache q)) \<subseteq> data_pages q" using mem by auto
qed

text \<open>The commit after its in-memory preparation: the two I/O phases and the promotion.\<close>

lemma commit_unfold:
  assumes "free_loaded p" "rebuild_free_list p = (dead, q)"
  shows "commit ops p =
    st_bind (on_backend (flush ops (dirty_pages (cache q)) (page_count (meta q) * of_nat PAGE_SIZE))) (\<lambda>_.
    st_bind (on_backend (swap_meta ops (1 - active_slot q) (next_meta p))) (\<lambda>_.
    st_modify (\<lambda>p'. p'\<lparr> cache := clear_dirty (cache p'), meta := next_meta p,
       active_slot := 1 - active_slot q, free_set := free_set p' @ dead,
       committed_txn := txn_id (next_meta p) \<rparr>))) q"
  using assms by (simp add: commit_def ensure_free_loaded_def next_meta_def Let_def)

lemma on_backend_run:
  "m (backend p) = (r, b) \<Longrightarrow> on_backend m p = (map_err PagerIo r, p\<lparr> backend := b \<rparr>)"
  by (simp add: on_backend_def st_zoom_def st_map_err_def)

lemma slots_fit:
  "2 * PAGE_SIZE \<le> length d \<Longrightarrow> page_fits d 0" "2 * PAGE_SIZE \<le> length d \<Longrightarrow> page_fits d 1"
  by (simp_all add: page_fits_def)

lemma other_slot: "a = 0 \<or> a = (1 :: u64) \<Longrightarrow> 1 - a = 0 \<or> 1 - a = 1" "a = 0 \<or> a = (1 :: u64) \<Longrightarrow> 1 - a \<noteq> a"
  by auto

lemma next_meta_props:
  assumes "pager_inv d p" "committed d p cm"
  shows "meta_wf (next_meta p)" "txn_id cm < txn_id (next_meta p)"
    "unat (txn_id (next_meta p)) = unat (txn_id cm) + 1"
proof -
  obtain dead q where q: "rebuild_free_list p = (dead, q)" by fastforce
  note r = rebuild_spec [OF assms(1) q]
  have t: "txn_id (next_meta p) = txn_id cm + 1"
    using assms(2) r(9) q by (simp add: next_meta_def Let_def committed_def)
  have "unat (txn_id cm) + 1 < 2 ^ 64" using assms(2) unfolding committed_def by blast
  then show u: "unat (txn_id (next_meta p)) = unat (txn_id cm) + 1"
    using t by (simp add: unat_word_ariths)
  then show "txn_id cm < txn_id (next_meta p)" by (simp add: word_less_nat_alt)
  show "meta_wf (next_meta p)"
    using assms(2) r(12) q by (simp add: next_meta_def Let_def committed_def meta_wf_def)
qed

context block_store
begin

text \<open>Wherever a commit stops, the image recovers to the old or to the new meta, and the pages that
  were not staged are untouched; when it returns success, it is the new one, and whenever it is the new
  one the staged pages are in place.\<close>

lemma commit_effect:
  assumes inv: "pager_inv (disk (backend p)) p" and com: "committed (disk (backend p)) p cm"
    and run: "commit ops p = (r, p')"
  defines "d \<equiv> disk (backend p)" and "d' \<equiv> disk (backend p')"
    and "q \<equiv> snd (rebuild_free_list p)"
  shows "(recover d' = Inr (cm, active_slot p) \<and> r \<noteq> Inr ()
        \<or> recover d' = Inr (next_meta p, 1 - active_slot p))
    \<and> length d \<le> length d' \<and> length d' < 2 ^ 64
    \<and> (\<forall>j. page_fits d j \<longrightarrow> j \<notin> fst ` set (dirty_pages (cache q)) \<longrightarrow> j \<notin> {0, 1} \<longrightarrow> disk_page d' j = disk_page d j)
    \<and> (recover d' = Inr (next_meta p, 1 - active_slot p) \<longrightarrow> unat (page_count (meta q)) * PAGE_SIZE \<le> length d'
        \<and> (\<forall>(pid, f) \<in> set (dirty_pages (cache q)). disk_page d' pid = f))"
proof -
  obtain dead where rb: "rebuild_free_list p = (dead, q)" unfolding q_def by (metis prod.collapse)
  note rs = rebuild_spec [OF inv rb]
  note wr = dirty_pages_writable [OF rs(1)]
  have fl: "free_loaded p" using inv by (simp add: pager_inv_def)
  have c: "2 * PAGE_SIZE \<le> length d" "length d < 2 ^ 64" "active_slot p = 0 \<or> active_slot p = 1"
    "recover d = Inr (cm, active_slot p)"
    using com by (auto simp: committed_def d_def)
  have lim: "unat (page_count (meta q)) \<le> PAGE_LIMIT" using rs(1) by (simp add: pager_inv_def)
  let ?need = "page_count (meta q) * of_nat PAGE_SIZE"
  have need: "unat ?need = unat (page_count (meta q)) * PAGE_SIZE" "unat ?need < 2 ^ 64"
    using lim unsigned_less [of ?need] by (simp_all add: unat_word_ariths PAGE_LIMIT_def)
  obtain fr b1 where fl1: "flush ops (dirty_pages (cache q)) ?need (backend p) = (fr, b1)" by fastforce
  note fe = flush_effect [OF fl1 wr(1,2), folded d_def, OF c(2)]
  have slots: "disk_page (disk b1) 0 = disk_page d 0" "disk_page (disk b1) 1 = disk_page d 1"
    using fe slots_fit [OF c(1)] wr(3) zero_not_data [of q] by (metis subsetD)+
  then have rec1: "recover (disk b1) = recover d" by (simp add: recover_def)
  have fit1: "page_fits (disk b1) j" if "page_fits d j" for j using fe that by (simp add: page_fits_def)
  show ?thesis
  proof (cases fr)
    case (Inl e)
    then have "r = Inl (PagerIo e)" "d' = disk b1"
      using run fl1 rs(6) unfolding commit_unfold [OF fl rb] d'_def
      by (auto simp: on_backend_run)
    moreover have "active_slot p \<noteq> 1 - active_slot p" using c(3) by auto
    ultimately show ?thesis using fe rec1 c need by auto
  next
    case (Inr u)
    let ?a = "1 - active_slot p"
    obtain sr b2 where sw: "swap_meta ops ?a (next_meta p) b1 = (sr, b2)" by fastforce
    have a: "page_fits (disk b1) ?a" "unat ?a < PAGE_LIMIT"
      using c(3) slots_fit [OF c(1)] fit1 by (auto simp: PAGE_LIMIT_def)
    note se = swap_effect [OF sw a]
    have res: "r = map_err PagerIo sr" "d' = disk b2"
      using run fl1 Inr sw rs(6,7) unfolding commit_unfold [OF fl rb] d'_def
      by (cases sr; auto simp: on_backend_run)+
    have keep: "disk_page d' (active_slot p) = disk_page (disk b1) (active_slot p)"
      using se res(2) other_slot [OF c(3)] c(3) fit1 slots_fit [OF c(1)] by metis
    have new: "recover d' = Inr (next_meta p, ?a)" if "disk_page d' ?a = meta_frame ?a (next_meta p)"
    proof (rule recover_replace(3) [OF c(4,3), of d'])
      show "disk_page d' (active_slot p) = disk_page d (active_slot p)" using keep slots c(3) by auto
      show "parse_meta ?a (disk_page d' ?a) = Inr (next_meta p)"
        using that parse_meta_frame [OF next_meta_props(1) [OF inv com]] by simp
      show "txn_id cm < txn_id (next_meta p)" by (rule next_meta_props(2) [OF inv com])
    qed
    have old: "recover d' = Inr (cm, active_slot p)" if "disk_page d' ?a = disk_page (disk b1) ?a"
      using that keep c(3) rec1 c(4) by (auto simp: recover_def)
    have "disk_page d' j = disk_page d j"
      if "page_fits d j" "j \<notin> fst ` set (dirty_pages (cache q))" "j \<notin> {0, 1}" for j
      using that se fe res(2) fit1 c(3) by (metis (no_types) insert_iff other_slot(1))
    moreover have "\<forall>(pid, f) \<in> set (dirty_pages (cache q)). disk_page d' pid = f"
    proof (safe)
      fix pid f assume m: "(pid, f) \<in> set (dirty_pages (cache q))"
      then have "disk_page (disk b1) pid = f" using fe Inr by auto
      moreover have "pid \<noteq> ?a" using m wr(3) zero_not_data [of q] c(3) by (auto simp: image_iff subset_iff)
      moreover have "page_fits (disk b1) pid"
        using m wr(1) fe Inr by (auto simp: page_fits_def)
      ultimately show "disk_page d' pid = f" using se res(2) by simp
    qed
    moreover have "(recover d' = Inr (cm, active_slot p) \<and> r \<noteq> Inr ()) \<or> recover d' = Inr (next_meta p, ?a)"
      using se new old res by (cases sr) auto
    moreover have "r = Inr () \<Longrightarrow> recover d' = Inr (next_meta p, ?a)"
      using se new res by (cases sr) auto
    moreover have "length d' = length (disk b1)" using se res(2) by simp
    ultimately show ?thesis using fe need c(2) Inr by auto
  qed
qed

end

section \<open>Commit succeeds on a reliable store\<close>

text \<open>Views only gain from a flush that put the dirty frames on disk.\<close>

lemma clear_after_flush:
  assumes "coherent d c" "\<And>j. page_fits d j \<Longrightarrow> page_fits d' j"
    and "\<And>j. page_fits d j \<Longrightarrow> j \<notin> fst ` set (dirty_pages c) \<Longrightarrow> j \<notin> {0, 1} \<Longrightarrow> disk_page d' j = disk_page d j"
    and "\<And>pid f. (pid, f) \<in> set (dirty_pages c) \<Longrightarrow> on_disk d' pid f"
    and "\<And>pid e. lookup c pid = Some e \<Longrightarrow> pid \<notin> {0, 1}"
  shows "coherent d' (clear_dirty c)"
    "pid \<notin> {0, 1} \<Longrightarrow> page_view d c pid = Some f \<Longrightarrow> on_disk d' pid f \<and> verify f pid = Inr f"
proof -
  have wf: "cache_wf c" using assms(1) by (simp add: coherent_def)
  have stored: "on_disk d' pid (frame e)" if e: "lookup c pid = Some e" for pid e
  proof (cases "dirty e")
    case True
    then show ?thesis using assms(4) e dirty_pages_mem [OF wf] by blast
  next
    case False
    then have "on_disk d pid (frame e)" using assms(1) e by (auto simp: coherent_def)
    moreover have "pid \<notin> fst ` set (dirty_pages c)" using False e dirty_pages_mem [OF wf] by fastforce
    ultimately show ?thesis using assms(2,3,5) e by (auto simp: on_disk_def)
  qed
  show "coherent d' (clear_dirty c)"
    unfolding coherent_def clear_dirty_spec(2)
    using clear_dirty_spec(1) [OF wf] stored assms(1) by (auto simp: coherent_def)
  assume pid: "pid \<notin> {0, 1}" and v: "page_view d c pid = Some f"
  show "on_disk d' pid f \<and> verify f pid = Inr f"
  proof (cases "lookup c pid")
    case None
    then have "page_fits d pid" "f = disk_page d pid" "verify f pid = Inr f"
      using v by (auto simp: page_view_def split: if_splits)
    moreover have "pid \<notin> fst ` set (dirty_pages c)" using None dirty_pages_mem [OF wf] by fastforce
    ultimately show ?thesis using assms(2,3) pid by (simp add: on_disk_def)
  next
    case (Some e)
    then show ?thesis using v stored assms(1) by (auto simp: page_view_def coherent_def)
  qed
qed

context reliable_store
begin

lemma write_pages_total:
  assumes "\<forall>(pid, f) \<in> set pages. length f = PAGE_SIZE \<and> unat pid < PAGE_LIMIT"
  shows "\<exists>b'. st_each (\<lambda>(pid, f). io_write_at ops (page_offset pid) f) pages b = (Inr (), b')"
  using assms
proof (induction pages arbitrary: b)
  case (Cons x pages)
  obtain pid f where x: "x = (pid, f)" by fastforce
  have "unat (page_offset pid) + length f < 2 ^ 64"
    using Cons.prems unat_page_offset [of pid] by (simp add: x PAGE_LIMIT_def)
  from write_at_total [OF this] obtain b1 where "io_write_at ops (page_offset pid) f b = (Inr (), b1)" by blast
  then show ?case using Cons by (simp add: x)
qed simp

lemma flush_total:
  assumes "\<forall>(pid, f) \<in> set pages. length f = PAGE_SIZE \<and> unat pid < PAGE_LIMIT"
  shows "\<exists>b'. flush ops pages needed b = (Inr (), b')"
proof -
  obtain n b1 where 1: "io_len ops b = (Inr n, b1)" using len_total by blast
  obtain b2 where 2: "(if n < needed then io_truncate ops needed else st_return ()) b1 = (Inr (), b2)"
    using truncate_total by (cases "n < needed") auto
  obtain b3 where 3: "st_each (\<lambda>(pid, f). io_write_at ops (page_offset pid) f) pages b2 = (Inr (), b3)"
    using write_pages_total [OF assms] by blast
  obtain b4 where 4: "io_sync ops b3 = (Inr (), b4)" using sync_total by blast
  have "flush ops pages needed b = (Inr (), b4)" unfolding flush_def using 1 2 3 4 by simp
  then show ?thesis by blast
qed

lemma swap_total:
  assumes "unat slot < PAGE_LIMIT"
  shows "\<exists>b'. swap_meta ops slot m b = (Inr (), b')"
proof -
  have "unat (page_offset slot) + length (meta_frame slot m) < 2 ^ 64"
    using unat_page_offset [OF assms] assms by (simp add: PAGE_LIMIT_def)
  from write_at_total [OF this] obtain b1 where
    1: "io_write_at ops (page_offset slot) (meta_frame slot m) b = (Inr (), b1)" by blast
  obtain b2 where 2: "io_sync ops b1 = (Inr (), b2)" using sync_total by blast
  have "swap_meta ops slot m b = (Inr (), b2)"
    unfolding swap_meta_def meta_frame_def [symmetric] using 1 2 by simp
  then show ?thesis by blast
qed

lemma commit_total:
  assumes inv: "pager_inv (disk (backend p)) p" and com: "committed (disk (backend p)) p cm"
  shows "\<exists>b'. commit ops p = (Inr (), (snd (rebuild_free_list p))\<lparr> backend := b',
      cache := clear_dirty (cache (snd (rebuild_free_list p))), meta := next_meta p,
      active_slot := 1 - active_slot p, free_set := free_set (snd (rebuild_free_list p)) @ trunks p,
      committed_txn := txn_id (next_meta p) \<rparr>)"
proof -
  obtain dead q where rb: "rebuild_free_list p = (dead, q)" by fastforce
  note rs = rebuild_spec [OF inv rb]
  have fl: "free_loaded p" using inv by (simp add: pager_inv_def)
  have a: "unat (1 - active_slot p) < PAGE_LIMIT"
    using com by (auto simp: committed_def PAGE_LIMIT_def)
  obtain b1 where 1: "flush ops (dirty_pages (cache q)) (page_count (meta q) * of_nat PAGE_SIZE) (backend p) = (Inr (), b1)"
    using flush_total [of "dirty_pages (cache q)"] dirty_pages_writable(1) [OF rs(1)] by fast
  obtain b2 where 2: "swap_meta ops (1 - active_slot p) (next_meta p) b1 = (Inr (), b2)"
    using swap_total [OF a] by blast
  show ?thesis
    using 1 2 rs(2,6,7) unfolding commit_unfold [OF fl rb] by (auto simp: rb on_backend_run)
qed

lemma commit_durable:
  assumes inv: "pager_inv (disk (backend p)) p" and com: "committed (disk (backend p)) p cm"
    and run: "commit ops p = (r, p')"
  shows "r = Inr () \<and> pager_inv (disk (backend p')) p' \<and> meta p' = next_meta p
    \<and> active_slot p' = 1 - active_slot p \<and> recover (disk (backend p')) = Inr (meta p', active_slot p')
    \<and> 2 * PAGE_SIZE \<le> length (disk (backend p')) \<and> length (disk (backend p')) < 2 ^ 64
    \<and> used p - set (trunks p) \<subseteq> used p' \<and> data_pages p' = data_pages p
    \<and> mset (trunks p' @ free_set p') = mset (free_set p @ trunks p)
    \<and> (\<forall>pid f. pid \<in> used p \<longrightarrow> pview p pid = Some f \<longrightarrow>
          on_disk (disk (backend p')) pid f \<and> pview p' pid = Some f)
    \<and> (\<exists>segs. chain (disk_view (disk (backend p'))) (opt_to_u64 (freelist_head (meta p'))) segs
          \<and> trunks p' = rev (map fst segs) \<and> free_set p' = concat (rev (map snd segs)) @ trunks p)"
proof -
  define d where "d = disk (backend p)"
  define d' where "d' = disk (backend p')"
  obtain dead q where rb: "rebuild_free_list p = (dead, q)" by fastforce
  have q: "snd (rebuild_free_list p) = q" by (simp add: rb)
  note rs = rebuild_spec [OF inv rb, folded d_def]
  obtain b' where p': "r = Inr ()" "p' = q\<lparr> backend := b', cache := clear_dirty (cache q), meta := next_meta p,
      active_slot := 1 - active_slot p, free_set := free_set q @ trunks p,
      committed_txn := txn_id (next_meta p) \<rparr>"
    using commit_total [OF inv com] run q by auto
  have ce: "length d \<le> length d'" "length d' < 2 ^ 64" "recover d' = Inr (next_meta p, 1 - active_slot p)"
    "unat (page_count (meta q)) * PAGE_SIZE \<le> length d'"
    "\<And>pid f. (pid, f) \<in> set (dirty_pages (cache q)) \<Longrightarrow> disk_page d' pid = f"
    "\<And>j. page_fits d j \<Longrightarrow> j \<notin> fst ` set (dirty_pages (cache q)) \<Longrightarrow> j \<notin> {0, 1} \<Longrightarrow> disk_page d' j = disk_page d j"
    using commit_effect [OF inv com run, folded d_def d'_def, unfolded q] p'(1) by auto
  have nm: "page_count (next_meta p) = page_count (meta q)" by (simp add: next_meta_def Let_def q)
  have dp: "data_pages p' = data_pages p" "data_pages p' = data_pages q"
    using rs(3) nm by (auto simp: p' data_pages_def)
  have fits: "page_fits d' pid" if "pid \<in> data_pages q" for pid
  proof -
    have "unat pid + 1 \<le> unat (page_count (meta q))" using that by (auto simp: data_pages_def word_less_nat_alt)
    then have "(unat pid + 1) * PAGE_SIZE \<le> unat (page_count (meta q)) * PAGE_SIZE" by (rule mult_le_mono1)
    then show ?thesis using ce(4) by (simp add: page_fits_def)
  qed
  have coh: "coherent d (cache q)" and cached: "\<And>i e. lookup (cache q) i = Some e \<Longrightarrow> i \<in> data_pages q"
    using rs(1) by (auto simp: pager_inv_def)
  have nz: "pid \<notin> {0, 1}" if "pid \<in> data_pages q" for pid using that zero_not_data [of q] by auto
  have dirty_od: "on_disk d' pid f" if "(pid, f) \<in> set (dirty_pages (cache q))" for pid f
    using that ce(5) fits dirty_pages_writable(3) [OF rs(1)] by (fastforce simp: on_disk_def)
  have grow: "page_fits d j \<Longrightarrow> page_fits d' j" for j using ce(1) by (simp add: page_fits_def)
  have coh': "coherent d' (clear_dirty (cache q))"
    by (rule clear_after_flush(1) [OF coh grow ce(6) dirty_od nz [OF cached]])
  have stored: "on_disk d' pid f \<and> verify f pid = Inr f"
    if "pid \<in> data_pages q" "page_view d (cache q) pid = Some f" for pid f
    by (rule clear_after_flush(2) [OF coh grow ce(6) dirty_od nz [OF cached] nz [OF that(1)] that(2)])
  have m: "mset (trunks q @ free_set q) = mset (free_set p)" by (rule rs(5))
  then have sets: "distinct (trunks q @ free_set q)" "set (trunks q @ free_set q) = set (free_set p)"
    using inv by (metis distinct_append pager_inv_def mset_eq_imp_distinct_iff, metis mset_eq_setD)
  have inv': "pager_inv d' p'"
    using inv rs(1) coh' sets dp nm cached unfolding pager_inv_def
    by (auto simp: p' clear_dirty_spec(2))
  have kept: "on_disk d' pid f \<and> page_view d' (cache p') pid = Some f"
    if "pid \<in> used p" "page_view d (cache p) pid = Some f" for pid f
  proof -
    have "pid \<in> data_pages q" "page_view d (cache q) pid = Some f"
      using that rs(3,4) by (auto simp: used_def)
    from stored [OF this] have od: "on_disk d' pid f" "verify f pid = Inr f" by auto
    show ?thesis
    proof (cases "lookup (cache p') pid")
      case None
      then show ?thesis using od by (simp add: page_view_def on_disk_def)
    next
      case (Some e)
      then have "\<not> dirty e" by (auto simp: p' clear_dirty_spec(2))
      then have "on_disk d' pid (frame e)" using inv' Some by (auto simp: pager_inv_def coherent_def)
      then show ?thesis using od Some by (simp add: page_view_def on_disk_def)
    qed
  qed
  obtain segs where segs: "chain (page_view d (cache q)) (opt_to_u64 (freelist_head (meta q))) segs"
    "trunks q = rev (map fst segs)" "free_set q = concat (rev (map snd segs))" using rs(14) by blast
  have seg_mem: "t \<in> data_pages q" if "t \<in> fst ` set segs" for t
  proof -
    have "t \<in> set (trunks q)" using that segs(2) by simp
    then show ?thesis using rs(1) by (auto simp: pager_inv_def)
  qed
  have ch: "chain (disk_view d') h ss" if "chain (page_view d (cache q)) h ss" "fst ` set ss \<subseteq> data_pages q" for h ss
    using that
  proof (induction ss arbitrary: h)
    case (Cons a ss)
    obtain t ids where a: "a = (t, ids)" by fastforce
    from Cons.prems(1) obtain buf nxt where c: "h = t" "t \<noteq> 0" "page_view d (cache q) t = Some buf"
      "parse_trunk t buf = Inr (ids, nxt)" "chain (page_view d (cache q)) nxt ss" by (auto simp: a)
    have "on_disk d' t buf" using stored [of t buf] c(3) Cons.prems(2) by (simp add: a)
    then have "disk_view d' t = Some buf" by (simp add: disk_view_Some on_disk_def)
    then show ?case using c Cons by (auto simp: a)
  qed simp
  have fh: "freelist_head (next_meta p) = freelist_head (meta q)" by (simp add: next_meta_def Let_def q)
  have used': "used p - set (trunks p) \<subseteq> used p'"
    using sets(2) dp(1) by (auto simp: used_def p')
  have "chain (disk_view d') (opt_to_u64 (freelist_head (meta p'))) segs"
    using ch [OF segs(1)] seg_mem fh by (auto simp: p')
  moreover have "mset (trunks p' @ free_set p') = mset (free_set p @ trunks p)"
    using m by (simp add: p' flip: add.assoc)
  ultimately show ?thesis
    using p' inv' ce(1-3) com kept used' dp(1) segs
    unfolding d_def [symmetric] d'_def [symmetric]
    by (auto simp: committed_def d_def)
qed

lemma open_spec:
  assumes "2 * PAGE_SIZE \<le> length (disk b)" "length (disk b) < 2 ^ 64" "recover (disk b) = Inr (m, slot)"
  shows "\<exists>b'. open_with_cache ops n b = (Inr (new_pager n m slot False b'), b') \<and> disk b' = disk b"
proof -
  obtain l b0 where len: "io_len ops b = (Inr l, b0)" using len_total by blast
  have l: "l = of_nat (length (disk b))" "disk b0 = disk b" using len_ok [OF len] len_disk [OF len] by auto
  have big: "\<not> l < FIRST_DATA_PAGE * of_nat PAGE_SIZE"
    using assms(1,2) l(1) unat_of_nat_u64 [OF assms(2)] by (simp add: word_less_nat_alt)
  have rd: "\<exists>c'. (st_attempt (read_meta ops s) :: ('a, PagerError, PagerError + Meta) st) c = (Inr (parse_meta s (disk_page (disk c) s)), c')
      \<and> disk c' = disk c" if s: "s = 0 \<or> s = 1" "disk c = disk b" for s c
  proof -
    have "unat (page_offset s) = unat s * PAGE_SIZE" using s(1) by (intro unat_page_offset) (auto simp: PAGE_LIMIT_def)
    then obtain c' where io: "io_read_at ops (page_offset s) PAGE_SIZE c = (Inr (disk_page (disk c) s), c')"
      using read_at_total [of "page_offset s" PAGE_SIZE c] s assms(1) by (auto simp: disk_page_def)
    then have "read_meta ops s c = (parse_meta s (disk_page (disk c) s), c')"
      by (simp add: read_meta_def)
    then show ?thesis using read_at_disk [OF io] by (simp add: st_attempt_def)
  qed
  obtain b1 where 1: "(st_attempt (read_meta ops 0) :: ('a, PagerError, PagerError + Meta) st) b0 = (Inr (parse_meta 0 (disk_page (disk b) 0)), b1)"
    "disk b1 = disk b" using rd [of 0 b0] l(2) by auto
  obtain b2 where 2: "(st_attempt (read_meta ops 1) :: ('a, PagerError, PagerError + Meta) st) b1 = (Inr (parse_meta 1 (disk_page (disk b) 1)), b2)"
    "disk b2 = disk b" using rd [of 1 b1] 1(2) by auto
  have "adopt_slot (parse_meta 0 (disk_page (disk b) 0)) (parse_meta 1 (disk_page (disk b) 1)) = Inr (m, slot)"
    using assms(3) by (simp add: recover_def)
  then have "open_with_cache ops n b = (Inr (new_pager n m slot False b2), b2)"
    using len big 1(1) 2(1) by (simp add: open_with_cache_def)
  then show ?thesis using 2(2) by blast
qed

end

section \<open>A fresh database\<close>

definition initial_image :: bytes where
  "initial_image = write_range 0 (meta_frame 0 meta_initial) (replicate (2 * PAGE_SIZE) 0)"

lemma initial_pages:
  "length initial_image = 2 * PAGE_SIZE" "disk_page initial_image 0 = meta_frame 0 meta_initial"
  "disk_page initial_image 1 = replicate PAGE_SIZE 0"
proof -
  let ?z = "replicate (2 * PAGE_SIZE) 0 :: bytes"
  have f: "page_fits ?z 0" "page_fits ?z 1" by (simp_all add: page_fits_def)
  have img: "initial_image = write_range (unat (0 :: u64) * PAGE_SIZE) (meta_frame 0 meta_initial) ?z"
    by (simp add: initial_image_def)
  note dp = disk_page_write [OF length_meta_frame [of 0 meta_initial] f(1), folded img]
  show "length initial_image = 2 * PAGE_SIZE" using dp(1) by simp
  show "disk_page initial_image 0 = meta_frame 0 meta_initial" using dp(2) [OF f(1)] by simp
  show "disk_page initial_image 1 = replicate PAGE_SIZE 0"
    using dp(2) [OF f(2)] by (simp add: disk_page_def subslice_def)
qed

lemma meta_initial_wf: "meta_wf meta_initial"
  by (simp add: meta_wf_def meta_initial_def)

lemma recover_initial: "recover initial_image = Inr (meta_initial, 0)"
proof -
  have "page_id (replicate PAGE_SIZE 0) = 0"
    by (simp add: page_id_def read_u64_def subslice_def bytes_eval numeral_eq_Suc)
  then have "\<exists>e. parse_meta 1 (disk_page initial_image 1) = Inl e"
    unfolding initial_pages parse_meta_def verify_def as_frame_def by (cases "read_u32 (replicate PAGE_SIZE 0) CRC_OFF = crc32c (drop TYPE_OFF (replicate PAGE_SIZE 0))") simp_all
  then show ?thesis
    using parse_meta_frame [OF meta_initial_wf, of 0]
    by (auto simp: recover_def initial_pages adopt_slot_cases)
qed

lemma fresh_pager:
  "pager_inv initial_image (new_pager n meta_initial 0 True b)"
  "committed initial_image (new_pager n meta_initial 0 True b) meta_initial"
  using recover_initial meta_initial_wf initial_pages(1)
  by (simp_all add: pager_inv_def committed_def new_pager_def meta_initial_def PAGE_LIMIT_def)

lemma create_mem:
  "create_with_cache mem_ops n [] = (Inr (new_pager n meta_initial 0 True initial_image), initial_image)"
  by (simp add: create_with_cache_def mem_ops_def mem_truncate_def mem_write_at_def mem_sync_def
      vec_resize_def Let_def initial_image_def write_range_def meta_frame_def)

section \<open>The free list after a commit\<close>

lemma commit_load_free_list:
  assumes "pager_inv (backend p) p" "committed (backend p) p cm"
  shows "\<exists>p' free trs. commit mem_ops p = (Inr (), p')
    \<and> load_free_list mem_ops (meta p') (backend p') = (Inr (free, trs), backend p')
    \<and> mset (free @ trs) = mset (free_set p) \<and> distinct (free @ trs)
    \<and> set (free @ trs) \<inter> used p = {}"
proof -
  obtain r p' where run: "commit mem_ops p = (r, p')" by fastforce
  note c = mem.commit_durable [OF assms run]
  then obtain segs where segs: "chain (disk_view (backend p')) (opt_to_u64 (freelist_head (meta p'))) segs"
    "trunks p' = rev (map fst segs)" "free_set p' = concat (rev (map snd segs)) @ trunks p" by blast
  have inv': "pager_inv (backend p') p'" using c by blast
  have "distinct (map fst segs)" using inv' segs(2) by (simp add: pager_inv_def)
  moreover have "trunk_in_range (meta p') t \<and> unat t < PAGE_LIMIT" if "t \<in> fst ` set segs" for t
  proof -
    have "t \<in> data_pages p'" using that segs(2) inv' by (auto simp: pager_inv_def)
    then show ?thesis using data_page_limit [of t p'] inv'
      by (auto simp: pager_inv_def trunk_in_range_def data_pages_def)
  qed
  moreover have "u64_to_opt (opt_to_u64 (freelist_head (meta p'))) = freelist_head (meta p')"
    using c next_meta_props(1) [OF assms] by (simp add: meta_wf_def)
  ultimately have load: "load_free_list mem_ops (meta p') (backend p') =
      (Inr (concat (map snd segs), map fst segs), backend p')"
    using mem.load_loop_chain [OF segs(1), of "{}" "meta p'" "[]" "[]"] by (auto simp: load_free_list_def)
  have "mset (concat (rev xs)) = mset (concat xs)" for xs :: "u64 list list"
    by (induction xs) simp_all
  then have m: "mset (concat (map snd segs) @ map fst segs) = mset (free_set p)"
    using c segs(2,3) by (simp add: rev_map [symmetric] ac_simps)
  have "distinct (free_set p)" using assms(1) by (simp add: pager_inv_def)
  then have "distinct (concat (map snd segs) @ map fst segs)" using m by (metis mset_eq_imp_distinct_iff)
  moreover have "set (concat (map snd segs) @ map fst segs) = set (free_set p)" using m by (metis mset_eq_setD)
  ultimately show ?thesis using run c load m by (auto simp: used_def)
qed

text \<open>The trunk pages a commit supersedes are put back into the in-memory free set only: the chain it
  writes does not list them, so a reopened pager never reuses them.\<close>

lemma superseded_trunks_not_listed:
  assumes "pager_inv (backend p) p" "committed (backend p) p cm" "commit mem_ops p = (r, p')"
    and "load_free_list mem_ops (meta p') (backend p') = (Inr (free, trs), b)"
  shows "set (trunks p) \<inter> set (free @ trs) = {}" "set (trunks p) \<subseteq> set (free_set p')"
proof -
  have "mset (free @ trs) = mset (free_set p)"
    using commit_load_free_list [OF assms(1,2)] assms(3,4) by auto
  then have "set (free @ trs) = set (free_set p)" by (metis mset_eq_setD)
  then show "set (trunks p) \<inter> set (free @ trs) = {}" using assms(1) by (auto simp: pager_inv_def)
  show "set (trunks p) \<subseteq> set (free_set p')" using mem.commit_durable [OF assms(1-3)] by auto
qed

section \<open>Properties\<close>

text \<open>C23: Atomicity of commit under faults. Whichever operation of the store a commit is interrupted
  at, opening the image adopts either the meta committed before or the one this commit installs, and
  no page outside the staged ones has changed; a commit that returned success is always adopted.\<close>

theorem commit_atomic:
  assumes "pager_inv (inner (backend p)) p" "committed (inner (backend p)) p cm"
    and "commit (fault_ops mem_ops) p = (r, p')"
  shows "(recover (inner (backend p')) = Inr (cm, active_slot p)
       \<or> recover (inner (backend p')) = Inr (next_meta p, 1 - active_slot p))
    \<and> (r = Inr () \<longrightarrow> recover (inner (backend p')) = Inr (next_meta p, 1 - active_slot p))
    \<and> (\<forall>j. page_fits (inner (backend p)) j \<longrightarrow> FIRST_DATA_PAGE \<le> j \<longrightarrow>
         j \<notin> fst ` set (dirty_pages (cache (snd (rebuild_free_list p)))) \<longrightarrow>
         disk_page (inner (backend p')) j = disk_page (inner (backend p)) j)"
proof -
  have "j \<notin> {0, 1}" if "FIRST_DATA_PAGE \<le> j" for j :: u64
    using that by (auto simp: word_le_nat_alt)
  then show ?thesis using fault_mem.commit_effect [OF assms] by blast
qed

theorem commit_atomic_witness:
  "\<exists>r p' p. p = new_pager 0 meta_initial 0 True (fault_arm SyncPoint 1 (fault_new initial_image))
     \<and> commit (fault_ops mem_ops) p = (r, p')
     \<and> (recover (inner (backend p')) = Inr (meta_initial, 0)
        \<or> recover (inner (backend p')) = Inr (next_meta p, 1))"
proof -
  let ?p = "new_pager 0 meta_initial 0 True (fault_arm SyncPoint 1 (fault_new initial_image))"
  obtain r p' where run: "commit (fault_ops mem_ops) ?p = (r, p')" by fastforce
  have b: "inner (backend ?p) = initial_image" "active_slot ?p = 0"
    by (simp_all add: new_pager_def fault_arm_def fault_new_def)
  show ?thesis
    using commit_atomic [of ?p meta_initial r p'] run fresh_pager [of 0 "fault_arm SyncPoint 1 (fault_new initial_image)"] b
    by (metis diff_zero)
qed



text \<open>C24: Durability. On a store whose operations succeed, a commit returns success, and opening the
  image yields the committed meta with every allocated page reading back as it was staged.\<close>

theorem commit_then_open:
  assumes "pager_inv (backend p) p" "committed (backend p) p cm"
  shows "\<exists>p' q. commit mem_ops p = (Inr (), p')
    \<and> open_with_cache mem_ops n (backend p') = (Inr q, backend p') \<and> meta q = next_meta p
    \<and> (\<forall>pid f. pid \<in> used p \<longrightarrow> page_view (backend p) (cache p) pid = Some f \<longrightarrow>
         page_view (backend q) (cache q) pid = Some f)"
proof -
  obtain r p' where run: "commit mem_ops p = (r, p')" by fastforce
  note c = mem.commit_durable [OF assms run]
  from c obtain b' where o: "open_with_cache mem_ops n (backend p') =
      (Inr (new_pager n (meta p') (active_slot p') False b'), b')" "b' = backend p'"
    using mem.open_spec [of "backend p'" "meta p'" "active_slot p'" n] by auto
  have "page_view (backend p') (cache_new n) pid = Some f"
    if u: "pid \<in> used p" "page_view (backend p) (cache p) pid = Some f" for pid f
  proof -
    have "on_disk (backend p') pid f" "page_view (backend p') (cache p') pid = Some f"
      using c u by blast+
    moreover have "verify f pid = Inr f"
      using u assms(1) by (auto simp: page_view_def pager_inv_def coherent_def split: option.splits if_splits)
    ultimately show ?thesis by (simp add: page_view_def on_disk_def)
  qed
  then show ?thesis using run c o by (auto simp: new_pager_def)
qed

theorem commit_then_open_witness:
  "\<exists>p' q. commit mem_ops (new_pager 0 meta_initial 0 True initial_image) = (Inr (), p')
    \<and> open_with_cache mem_ops 0 (backend p') = (Inr q, backend p')
    \<and> meta q = next_meta (new_pager 0 meta_initial 0 True initial_image)"
  using commit_then_open [of "new_pager 0 meta_initial 0 True initial_image" meta_initial 0]
    fresh_pager [of 0 initial_image] by (auto simp: new_pager_def)

text \<open>C30: The free list survives a commit. Walking the trunk chain of the committed image terminates
  without error and yields exactly the pages that were free when the commit began, each once, split
  into stored ids and trunk pages; none of them is an allocated page.\<close>

theorem free_list_roundtrip:
  assumes "pager_inv (backend p) p" "committed (backend p) p cm"
  shows "\<exists>p' free trs. commit mem_ops p = (Inr (), p')
    \<and> load_free_list mem_ops (meta p') (backend p') = (Inr (free, trs), backend p')
    \<and> mset (free @ trs) = mset (free_set p) \<and> distinct (free @ trs)
    \<and> set (free @ trs) \<inter> used p = {}"
  by (rule commit_load_free_list [OF assms])

theorem free_list_roundtrip_witness:
  "\<exists>p' free trs. commit mem_ops (new_pager 0 meta_initial 0 True initial_image) = (Inr (), p')
    \<and> load_free_list mem_ops (meta p') (backend p') = (Inr (free, trs), backend p')
    \<and> mset (free @ trs) = {#}"
  using free_list_roundtrip [of "new_pager 0 meta_initial 0 True initial_image" meta_initial]
    fresh_pager [of 0 initial_image] by (auto simp: new_pager_def)

end
