(* ===== verification/Node.thy ===== *)
theory Node
  imports Page
begin

text \<open>
  B+tree nodes and their on-page encoding (\<open>crates/btree/src/node.rs\<close>): the codec, the size
  accounting, search inside a node, splitting and merging.
\<close>

abbreviation KIND_LEAF :: u8 where "KIND_LEAF \<equiv> 0"
abbreviation KIND_INTERNAL :: u8 where "KIND_INTERNAL \<equiv> 1"
abbreviation HDR_LEAF :: nat where "HDR_LEAF \<equiv> 4"
abbreviation HDR_INTERNAL :: nat where "HDR_INTERNAL \<equiv> 12"
abbreviation CAP :: nat where "CAP \<equiv> 4080"
abbreviation MIN_FILL :: nat where "MIN_FILL \<equiv> 1020"
abbreviation MAX_CELL :: nat where "MAX_CELL \<equiv> 2034"

datatype Node =
  Leaf "bytes list" "bytes list"
| Internal "bytes list" "PageId list"

definition empty_leaf :: Node where "empty_leaf = Leaf [] []"

fun node_keys :: "Node \<Rightarrow> bytes list" where
  "node_keys (Leaf ks vs) = ks"
| "node_keys (Internal ks cs) = ks"

definition key_count :: "Node \<Rightarrow> nat" where "key_count n = length (node_keys n)"

fun header_len :: "Node \<Rightarrow> nat" where
  "header_len (Leaf ks vs) = HDR_LEAF"
| "header_len (Internal ks cs) = HDR_INTERNAL"

fun cell_len :: "Node \<Rightarrow> nat \<Rightarrow> nat" where
  "cell_len (Leaf ks vs) i = 2 + length (ks ! i) + 2 + length (vs ! i)"
| "cell_len (Internal ks cs) i = 2 + length (ks ! i) + 8"

definition encoded_len :: "Node \<Rightarrow> nat" where
  "encoded_len n = header_len n + sum_list (map (cell_len n) [0..<key_count n])"

definition is_overfull :: "Node \<Rightarrow> bool" where "is_overfull n \<longleftrightarrow> encoded_len n > CAP"

definition is_underfull :: "Node \<Rightarrow> bool" where "is_underfull n \<longleftrightarrow> encoded_len n < MIN_FILL"

section \<open>Encoding\<close>

definition put_u16 :: "nat \<Rightarrow> bytes" where "put_u16 n = to_le_bytes 2 (of_nat n :: u16)"

fun node_encode :: "Node \<Rightarrow> bytes" where
  "node_encode (Leaf ks vs) =
     [KIND_LEAF, 0] @ put_u16 (length ks)
       @ concat (map (\<lambda>(k, v). put_u16 (length k) @ k @ put_u16 (length v) @ v) (zip ks vs))"
| "node_encode (Internal ks cs) =
     [KIND_INTERNAL, 0] @ put_u16 (length ks) @ to_le_bytes 8 (cs ! 0)
       @ concat (map (\<lambda>(k, c). put_u16 (length k) @ k @ to_le_bytes 8 c) (zip ks (drop 1 cs)))"

section \<open>Decoding\<close>

definition btree_corrupt :: "BTreeCorruption \<Rightarrow> BTreeError" where
  "btree_corrupt c = BTreeCorrupt c"

definition truncated :: "PageId \<Rightarrow> BTreeError" where
  "truncated page = btree_corrupt (NodeCorruption (TruncatedPage page))"

definition node_take :: "PageId \<Rightarrow> nat \<Rightarrow> bytes \<Rightarrow> BTreeError + (bytes \<times> bytes)" where
  "node_take page n rest = take_n (truncated page) n rest"

definition node_u8 :: "PageId \<Rightarrow> bytes \<Rightarrow> BTreeError + (u8 \<times> bytes)" where
  "node_u8 page rest = and_then (node_take page 1 rest) (\<lambda>(b, r). Inr (hd b, r))"

definition node_u16 :: "PageId \<Rightarrow> bytes \<Rightarrow> BTreeError + (nat \<times> bytes)" where
  "node_u16 page rest = and_then (node_take page 2 rest) (\<lambda>(b, r). Inr (unat (from_le_bytes b :: u16), r))"

definition node_u64 :: "PageId \<Rightarrow> bytes \<Rightarrow> BTreeError + (u64 \<times> bytes)" where
  "node_u64 page rest = and_then (node_take page 8 rest) (\<lambda>(b, r). Inr (from_le_bytes b, r))"

definition bytes_u16 :: "PageId \<Rightarrow> bytes \<Rightarrow> BTreeError + (bytes \<times> bytes)" where
  "bytes_u16 page rest = and_then (node_u16 page rest) (\<lambda>(n, r). node_take page n r)"

definition child_id :: "u64 \<Rightarrow> PageId \<Rightarrow> BTreeError + PageId" where
  "child_id raw page =
     (if raw < FIRST_DATA_PAGE then Inl (btree_corrupt (BadChild page raw)) else Inr raw)"

text \<open>\<open>windows(2)\<close>: every adjacent pair strictly ascending.\<close>

fun ascending_ok :: "bytes list \<Rightarrow> bool" where
  "ascending_ok (a # b # ks) = (a < b \<and> ascending_ok (b # ks))"
| "ascending_ok _ = True"

definition ascending :: "bytes list \<Rightarrow> PageId \<Rightarrow> BTreeError + unit" where
  "ascending ks page = (if ascending_ok ks then Inr () else Inl (btree_corrupt (KeysNotSorted page)))"

fun leaf_entries :: "PageId \<Rightarrow> nat \<Rightarrow> bytes \<Rightarrow> BTreeError + ((bytes list \<times> bytes list) \<times> bytes)" where
  "leaf_entries page 0 rest = Inr (([], []), rest)"
| "leaf_entries page (Suc n) rest =
     and_then (bytes_u16 page rest) (\<lambda>(k, r1).
     and_then (bytes_u16 page r1) (\<lambda>(v, r2).
     and_then (leaf_entries page n r2) (\<lambda>((ks, vs), r3). Inr ((k # ks, v # vs), r3))))"

fun internal_entries :: "PageId \<Rightarrow> nat \<Rightarrow> bytes \<Rightarrow> BTreeError + ((bytes list \<times> PageId list) \<times> bytes)" where
  "internal_entries page 0 rest = Inr (([], []), rest)"
| "internal_entries page (Suc n) rest =
     and_then (bytes_u16 page rest) (\<lambda>(k, r1).
     and_then (node_u64 page r1) (\<lambda>(raw, r2).
     and_then (child_id raw page) (\<lambda>c.
     and_then (internal_entries page n r2) (\<lambda>((ks, cs), r3). Inr ((k # ks, c # cs), r3)))))"

definition node_decode :: "bytes \<Rightarrow> PageId \<Rightarrow> BTreeError + Node" where
  "node_decode payload page =
     and_then (node_u8 page payload) (\<lambda>(k, r0).
     and_then (node_u8 page r0) (\<lambda>(_, r1).
     and_then (node_u16 page r1) (\<lambda>(count, r2).
       if k = KIND_LEAF then
         and_then (leaf_entries page count r2) (\<lambda>((ks, vs), _).
         and_then (ascending ks page) (\<lambda>_. Inr (Leaf ks vs)))
       else if k = KIND_INTERNAL then
         and_then (node_u64 page r2) (\<lambda>(raw, r3).
         and_then (child_id raw page) (\<lambda>c0.
         and_then (internal_entries page count r3) (\<lambda>((ks, cs), _).
         and_then (ascending ks page) (\<lambda>_. Inr (Internal ks (c0 # cs))))))
       else Inl (btree_corrupt (UnknownNodeKind page k)))))"

section \<open>Search\<close>

fun leaf_get :: "Node \<Rightarrow> bytes \<Rightarrow> bytes option" where
  "leaf_get (Leaf ks vs) key = (case binary_search ks key of Inr i \<Rightarrow> Some (vs ! i) | Inl _ \<Rightarrow> None)"
| "leaf_get (Internal ks cs) key = None"

definition route_index :: "bytes list \<Rightarrow> bytes \<Rightarrow> nat" where
  "route_index ks key = partition_point (\<lambda>k. k \<le> key) ks"

fun route :: "Node \<Rightarrow> bytes \<Rightarrow> PageId option" where
  "route (Internal ks cs) key = Some (cs ! route_index ks key)"
| "route (Leaf ks vs) key = None"

section \<open>Split and merge\<close>

fun is_internal :: "Node \<Rightarrow> bool" where
  "is_internal (Internal ks cs) = True"
| "is_internal (Leaf ks vs) = False"

definition abs_diff :: "nat \<Rightarrow> nat \<Rightarrow> nat" where
  "abs_diff a b = (if a < b then b - a else a - b)"

text \<open>One iteration of the search for the most balanced split; the state is \<open>(best, best_skew, left)\<close>.\<close>

definition split_step :: "Node \<Rightarrow> nat \<Rightarrow> nat \<times> nat \<times> nat \<Rightarrow> nat \<Rightarrow> nat \<times> nat \<times> nat" where
  "split_step n tot st m =
     (case st of (best, best_skew, left0) \<Rightarrow>
        let hdr = header_len n;
            lft = left0 + cell_len n (m - 1);
            promoted = (if is_internal n then cell_len n m else 0);
            rgt = tot - lft - promoted
        in if hdr + lft \<le> CAP \<and> hdr + rgt \<le> CAP \<and> abs_diff lft rgt < best_skew
           then (m, abs_diff lft rgt, lft) else (best, best_skew, lft))"

definition split_at :: "Node \<Rightarrow> nat" where
  "split_at n =
     (let tot = sum_list (map (cell_len n) [0..<key_count n])
      in fst (foldl (split_step n tot) (1, 2 ^ 64 - 1, 0) [1..<key_count n]))"

fun split_node :: "Node \<Rightarrow> Node \<times> bytes \<times> Node" where
  "split_node (Leaf ks vs) =
     (let m = split_at (Leaf ks vs)
      in (Leaf (take m ks) (take m vs), ks ! m, Leaf (drop m ks) (drop m vs)))"
| "split_node (Internal ks cs) =
     (let m = split_at (Internal ks cs)
      in (Internal (take m ks) (take (m + 1) cs), ks ! m, Internal (drop (m + 1) ks) (drop (m + 1) cs)))"

fun merge :: "Node \<Rightarrow> bytes \<Rightarrow> Node \<Rightarrow> Node" where
  "merge (Leaf lk lv) sep (Leaf rk rv) = Leaf (lk @ rk) (lv @ rv)"
| "merge (Internal lk lc) sep (Internal rk rc) = Internal (lk @ [sep] @ rk) (lc @ rc)"
| "merge l sep r = l"

section \<open>Well-formed nodes\<close>

fun node_wf :: "Node \<Rightarrow> bool" where
  "node_wf (Leaf ks vs) \<longleftrightarrow> length vs = length ks \<and> sorted_wrt (<) ks"
| "node_wf (Internal ks cs) \<longleftrightarrow> length cs = length ks + 1 \<and> sorted_wrt (<) ks
     \<and> (\<forall>c \<in> set cs. FIRST_DATA_PAGE \<le> c)"

lemma ascending_ok_iff: "ascending_ok ks \<longleftrightarrow> sorted_wrt (<) ks"
  by (induction ks rule: ascending_ok.induct) (auto intro: less_trans)

section \<open>Lemmas: sizes\<close>

definition leaf_cells :: "bytes list \<Rightarrow> bytes list \<Rightarrow> nat list" where
  "leaf_cells ks vs = map (\<lambda>(k, v). 4 + length k + length v) (zip ks vs)"

definition sep_cell :: "bytes \<Rightarrow> nat" where "sep_cell k = 10 + length k"

lemma cells_leaf:
  "length vs = length ks \<Longrightarrow> map (cell_len (Leaf ks vs)) [0..<length ks] = leaf_cells ks vs"
  by (rule nth_equalityI) (simp_all add: leaf_cells_def)

lemma cells_internal: "map (cell_len (Internal ks cs)) [0..<length ks] = map sep_cell ks"
  by (rule nth_equalityI) (simp_all add: sep_cell_def)

fun node_cells :: "Node \<Rightarrow> nat list" where
  "node_cells (Leaf ks vs) = leaf_cells ks vs"
| "node_cells (Internal ks cs) = map sep_cell ks"

lemma node_cells_map: "node_wf n \<Longrightarrow> map (cell_len n) [0..<key_count n] = node_cells n"
  by (cases n) (simp_all add: key_count_def cells_leaf cells_internal)

lemma encoded_len_cells: "node_wf n \<Longrightarrow> encoded_len n = header_len n + sum_list (node_cells n)"
  by (simp add: encoded_len_def node_cells_map)

lemma leaf_cells_append:
  "length vs = length ks \<Longrightarrow> leaf_cells (ks @ ks') (vs @ vs') = leaf_cells ks vs @ leaf_cells ks' vs'"
  by (simp add: leaf_cells_def)

lemma length_leaf_cells: "length vs = length ks \<Longrightarrow> length (leaf_cells ks vs) = length ks"
  by (simp add: leaf_cells_def)

lemma leaf_cells_take_drop:
  "leaf_cells (take m ks) (take m vs) = take m (leaf_cells ks vs)"
  "leaf_cells (drop m ks) (drop m vs) = drop m (leaf_cells ks vs)"
  by (simp_all add: leaf_cells_def take_map drop_map take_zip drop_zip)

lemma length_put_u16 [simp]: "length (put_u16 n) = 2"
  by (simp add: put_u16_def)

lemma length_node_encode: "node_wf n \<Longrightarrow> length (node_encode n) = encoded_len n"
proof (cases n)
  case (Leaf ks vs)
  assume "node_wf n"
  then have "length ks = length vs" using Leaf by simp
  then have "length (concat (map (\<lambda>(k, v). put_u16 (length k) @ k @ put_u16 (length v) @ v) (zip ks vs)))
      = sum_list (leaf_cells ks vs)"
    by (induction ks vs rule: list_induct2) (auto simp: leaf_cells_def)
  then show ?thesis using \<open>node_wf n\<close> Leaf by (simp add: encoded_len_cells)
next
  case (Internal ks cs)
  assume wf: "node_wf n"
  have "length (concat (map (\<lambda>(k, c). put_u16 (length k) @ k @ to_le_bytes 8 c) (zip ks ds)))
      = sum_list (map sep_cell ks)" if "length ds = length ks" for ds :: "PageId list"
    using that [symmetric] by (induction ks ds rule: list_induct2) (auto simp: sep_cell_def)
  from this [of "drop 1 cs"] have "length (concat (map (\<lambda>(k, c). put_u16 (length k) @ k @ to_le_bytes 8 c)
      (zip ks (drop 1 cs)))) = sum_list (map sep_cell ks)"
    using wf Internal by simp
  then show ?thesis using wf Internal by (simp add: encoded_len_cells)
qed

section \<open>Lemmas: codec\<close>

lemma node_u16_put: "n < 2 ^ 16 \<Longrightarrow> node_u16 page (put_u16 n @ r) = Inr (n, r)"
  by (simp add: node_u16_def node_take_def put_u16_def unat_of_nat take_bit_nat_eq_self)

lemma node_u8_Cons [simp]: "node_u8 page (b # r) = Inr (b, r)"
  by (simp add: node_u8_def node_take_def)

lemma bytes_u16_put: "length k < 2 ^ 16 \<Longrightarrow> bytes_u16 page (put_u16 (length k) @ k @ r) = Inr (k, r)"
  by (simp add: bytes_u16_def node_u16_put node_take_def)

lemma node_u64_put: "node_u64 page (to_le_bytes 8 c @ r) = Inr (c, r)"
  by (simp add: node_u64_def node_take_def)

lemma leaf_entries_put:
  assumes "length ks = length vs" "\<forall>k \<in> set ks. length k < 2 ^ 16" "\<forall>v \<in> set vs. length v < 2 ^ 16"
  shows "leaf_entries page (length ks)
      (concat (map (\<lambda>(k, v). put_u16 (length k) @ k @ put_u16 (length v) @ v) (zip ks vs)) @ r) = Inr ((ks, vs), r)"
  using assms by (induction ks vs rule: list_induct2) (simp_all add: bytes_u16_put)

lemma internal_entries_put:
  assumes "length ks = length cs" "\<forall>k \<in> set ks. length k < 2 ^ 16" "\<forall>c \<in> set cs. FIRST_DATA_PAGE \<le> c"
  shows "internal_entries page (length ks)
      (concat (map (\<lambda>(k, c). put_u16 (length k) @ k @ to_le_bytes 8 c) (zip ks cs)) @ r) = Inr ((ks, cs), r)"
  using assms
  by (induction ks cs rule: list_induct2) (simp_all add: bytes_u16_put node_u64_put child_id_def not_less)

lemma leaf_cells_sum:
  "length ks = length vs \<Longrightarrow> length ks * 4 \<le> sum_list (leaf_cells ks vs)
     \<and> (\<forall>k \<in> set ks. length k \<le> sum_list (leaf_cells ks vs)) \<and> (\<forall>v \<in> set vs. length v \<le> sum_list (leaf_cells ks vs))"
  by (induction ks vs rule: list_induct2) (auto simp: leaf_cells_def trans_le_add2)

lemma leaf_cells_bound:
  assumes "length vs = length ks" "sum_list (leaf_cells ks vs) \<le> b"
  shows "length ks * 4 \<le> b \<and> (\<forall>k \<in> set ks. length k \<le> b) \<and> (\<forall>v \<in> set vs. length v \<le> b)"
  using leaf_cells_sum [OF assms(1) [symmetric]] assms(2) by (meson le_trans)

lemma sep_cells_bound:
  assumes "sum_list (map sep_cell ks) \<le> b"
  shows "length ks * 10 \<le> b \<and> (\<forall>k \<in> set ks. length k \<le> b)"
proof -
  have "length ks * 10 \<le> sum_list (map sep_cell ks) \<and> (\<forall>k \<in> set ks. length k \<le> sum_list (map sep_cell ks))"
    by (induction ks) (auto simp: sep_cell_def trans_le_add2)
  then show ?thesis using assms by (meson le_trans)
qed

text \<open>Every well-formed node that fits a page decodes back from its padded payload.\<close>

lemma node_decode_encode:
  assumes "node_wf n" "encoded_len n \<le> CAP"
  shows "node_decode (node_encode n @ pad) page = Inr n"
proof (cases n)
  case (Leaf ks vs)
  have len: "length ks = length vs" "sum_list (leaf_cells ks vs) \<le> 4076"
    using assms Leaf by (simp_all add: encoded_len_cells)
  note bound = leaf_cells_bound [OF len(1) [symmetric] len(2)]
  have u: "node_u16 page (put_u16 (length ks) @ r) = Inr (length ks, r)" for r
    using bound by (intro node_u16_put) simp
  have e: "leaf_entries page (length ks)
      (concat (map (\<lambda>(k, v). put_u16 (length k) @ k @ put_u16 (length v) @ v) (zip ks vs)) @ pad) = Inr ((ks, vs), pad)"
    using bound by (intro leaf_entries_put len(1)) (auto intro: le_less_trans)
  show ?thesis
    using assms(1) Leaf u e by (simp add: node_decode_def ascending_def ascending_ok_iff)
next
  case (Internal ks cs)
  have wf: "length cs = length ks + 1" "sorted_wrt (<) ks" "\<forall>c \<in> set cs. FIRST_DATA_PAGE \<le> c"
    "sum_list (map sep_cell ks) \<le> 4068"
    using assms Internal by (simp_all add: encoded_len_cells)
  note bound = sep_cells_bound [OF wf(4)]
  obtain c0 ds where cs: "cs = c0 # ds" using wf(1) by (cases cs) auto
  have u: "node_u16 page (put_u16 (length ks) @ r) = Inr (length ks, r)" for r
    using bound by (intro node_u16_put) simp
  have e: "internal_entries page (length ks)
      (concat (map (\<lambda>(k, c). put_u16 (length k) @ k @ to_le_bytes 8 c) (zip ks ds)) @ pad) = Inr ((ks, ds), pad)"
    using bound wf(1,3) by (intro internal_entries_put) (auto simp: cs intro: le_less_trans)
  show ?thesis
    using wf Internal u e
    by (simp add: node_decode_def ascending_def ascending_ok_iff cs node_u64_put child_id_def not_less)
qed

lemma node_take_len: "node_take page n rest = Inr (x, r) \<Longrightarrow> length x = n \<and> length rest = n + length r"
  by (auto simp: node_take_def take_n_Inr)

lemma node_readers_len:
  "node_u8 page rest = Inr (b, r) \<Longrightarrow> length rest = 1 + length r"
  "node_u16 page rest = Inr (n, r) \<Longrightarrow> length rest = 2 + length r"
  "node_u64 page rest = Inr (w, r) \<Longrightarrow> length rest = 8 + length r"
  "bytes_u16 page rest = Inr (x, r) \<Longrightarrow> length rest = 2 + length x + length r"
  by (auto simp: node_u8_def node_u16_def node_u64_def bytes_u16_def dest!: node_take_len)

lemma leaf_entries_len:
  "leaf_entries page n rest = Inr ((ks, vs), r) \<Longrightarrow>
     length ks = n \<and> length vs = n \<and> length rest = sum_list (leaf_cells ks vs) + length r"
  by (induction n arbitrary: rest ks vs r) (fastforce simp: leaf_cells_def dest!: node_readers_len)+

lemma internal_entries_len:
  "internal_entries page n rest = Inr ((ks, cs), r) \<Longrightarrow>
     length ks = n \<and> length cs = n \<and> (\<forall>c \<in> set cs. FIRST_DATA_PAGE \<le> c)
       \<and> length rest = sum_list (map sep_cell ks) + length r"
  by (induction n arbitrary: rest ks cs r)
    (fastforce simp: sep_cell_def child_id_def not_less dest!: node_readers_len split: if_splits)+

text \<open>Whatever bytes a payload holds, a node that decodes is well formed and fits.\<close>

lemma node_decode_wf:
  assumes "node_decode payload page = Inr n"
  shows "node_wf n \<and> encoded_len n \<le> length payload"
proof -
  from assms obtain k r0 x r1 count r2 where h: "node_u8 page payload = Inr (k, r0)"
    "node_u8 page r0 = Inr (x, r1)" "node_u16 page r1 = Inr (count, r2)" by (auto simp: node_decode_def)
  have len: "length payload = 4 + length r2" using node_readers_len(1,2) h by simp
  consider (leaf) ks vs r where "leaf_entries page count r2 = Inr ((ks, vs), r)" "n = Leaf ks vs" "ascending_ok ks"
    | (inner) raw r3 c0 ks cs r where "node_u64 page r2 = Inr (raw, r3)" "child_id raw page = Inr c0"
      "internal_entries page count r3 = Inr ((ks, cs), r)" "n = Internal ks (c0 # cs)" "ascending_ok ks"
    using assms h by (auto simp: node_decode_def ascending_def split: if_splits)
  then show ?thesis
  proof cases
    case leaf
    then show ?thesis using leaf_entries_len [OF leaf(1)] len
      by (simp add: encoded_len_cells ascending_ok_iff)
  next
    case inner
    then show ?thesis using internal_entries_len [OF inner(3)] node_readers_len(3) [OF inner(1)] len
      by (auto simp: encoded_len_cells ascending_ok_iff child_id_def not_less split: if_splits)
  qed
qed

section \<open>Lemmas: splitting\<close>

text \<open>The search over a list of cell sizes: a split point leaves \<open>take m\<close> on the left and, for an
  internal node, promotes cell \<open>m\<close>.\<close>

definition lsum :: "nat list \<Rightarrow> nat \<Rightarrow> nat" where
  "lsum cs m = sum_list (take m cs)"

definition rsum :: "bool \<Rightarrow> nat list \<Rightarrow> nat \<Rightarrow> nat" where
  "rsum inner cs m = sum_list cs - lsum cs m - (if inner then cs ! m else 0)"

definition valid_split :: "nat \<Rightarrow> bool \<Rightarrow> nat list \<Rightarrow> nat \<Rightarrow> bool" where
  "valid_split hdr inner cs m \<longleftrightarrow> hdr + lsum cs m \<le> CAP \<and> hdr + rsum inner cs m \<le> CAP"

definition skew :: "bool \<Rightarrow> nat list \<Rightarrow> nat \<Rightarrow> nat" where
  "skew inner cs m = abs_diff (lsum cs m) (rsum inner cs m)"

lemma lsum_Suc: "m < length cs \<Longrightarrow> lsum cs (Suc m) = lsum cs m + cs ! m"
  by (simp add: lsum_def take_Suc_conv_app_nth)

lemma lsum_all [simp]: "lsum cs (length cs) = sum_list cs" "lsum cs 0 = 0"
  by (simp_all add: lsum_def)

lemma lsum_drop: "sum_list (drop m cs) = sum_list cs - lsum cs m" "lsum cs m \<le> sum_list cs"
proof -
  have "lsum cs m + sum_list (drop m cs) = sum_list cs"
    unfolding lsum_def sum_list_append [symmetric] append_take_drop_id ..
  then show "sum_list (drop m cs) = sum_list cs - lsum cs m" "lsum cs m \<le> sum_list cs" by simp_all
qed

lemma rsum_drop:
  "rsum False cs m = sum_list (drop m cs)" "m < length cs \<Longrightarrow> rsum True cs m = sum_list (drop (Suc m) cs)"
  by (simp_all add: rsum_def lsum_drop(1) lsum_Suc)

lemma cell_len_nth: "node_wf n \<Longrightarrow> i < key_count n \<Longrightarrow> cell_len n i = node_cells n ! i"
  using node_cells_map [of n] by (metis add_0 diff_zero length_upt nth_map nth_upt)

lemma length_node_cells: "node_wf n \<Longrightarrow> length (node_cells n) = key_count n"
  by (cases n) (simp_all add: key_count_def length_leaf_cells)

lemma split_search:
  assumes "node_wf n" "1 \<le> j" "j \<le> key_count n" "key_count n \<noteq> 0"
    and "sum_list (node_cells n) < 2 ^ 64 - 1"
  shows "\<exists>best sk. foldl (split_step n (sum_list (node_cells n))) (1, 2 ^ 64 - 1, 0) [1..<j] =
      (best, sk, lsum (node_cells n) (j - 1))
    \<and> (if \<exists>m. 1 \<le> m \<and> m < j \<and> valid_split (header_len n) (is_internal n) (node_cells n) m
       then 1 \<le> best \<and> best < j \<and> valid_split (header_len n) (is_internal n) (node_cells n) best
         \<and> sk = skew (is_internal n) (node_cells n) best
         \<and> (\<forall>m. 1 \<le> m \<and> m < j \<and> valid_split (header_len n) (is_internal n) (node_cells n) m \<longrightarrow>
              sk \<le> skew (is_internal n) (node_cells n) m)
       else best = 1 \<and> sk = 2 ^ 64 - 1)"
  using assms(2,3)
proof (induction j rule: nat_induct_at_least)
  case base
  then show ?case by simp
next
  case (Suc j)
  let ?cs = "node_cells n" and ?v = "valid_split (header_len n) (is_internal n) (node_cells n)"
  let ?sk = "skew (is_internal n) (node_cells n)"
  from Suc obtain best sk where IH:
    "foldl (split_step n (sum_list ?cs)) (1, 2 ^ 64 - 1, 0) [1..<j] = (best, sk, lsum ?cs (j - 1))"
    "if \<exists>m. 1 \<le> m \<and> m < j \<and> ?v m then 1 \<le> best \<and> best < j \<and> ?v best \<and> sk = ?sk best
       \<and> (\<forall>m. 1 \<le> m \<and> m < j \<and> ?v m \<longrightarrow> sk \<le> ?sk m) else best = 1 \<and> sk = 2 ^ 64 - 1" by auto
  have j: "j < key_count n" "j - 1 < length ?cs" "cell_len n (j - 1) = ?cs ! (j - 1)" "cell_len n j = ?cs ! j"
    using Suc.prems Suc.hyps length_node_cells [OF assms(1)] cell_len_nth [OF assms(1)] by auto
  have lft: "lsum ?cs (j - 1) + cell_len n (j - 1) = lsum ?cs j"
    using lsum_Suc [OF j(2)] j(3) Suc.hyps by simp
  have step: "foldl (split_step n (sum_list ?cs)) (1, 2 ^ 64 - 1, 0) [1..<Suc j] =
      (if ?v j \<and> ?sk j < sk then (j, ?sk j, lsum ?cs j) else (best, sk, lsum ?cs j))"
  proof -
    have "foldl (split_step n (sum_list ?cs)) (1, 2 ^ 64 - 1, 0) [1..<Suc j] =
        split_step n (sum_list ?cs) (best, sk, lsum ?cs (j - 1)) j"
      using IH(1) Suc.hyps by simp
    also have "\<dots> = (if ?v j \<and> ?sk j < sk then (j, ?sk j, lsum ?cs j) else (best, sk, lsum ?cs j))"
      unfolding split_step_def
      by (simp add: lft [simplified] Let_def valid_split_def skew_def rsum_def j(4))
    finally show ?thesis .
  qed
  have small: "?sk j < 2 ^ 64 - 1"
  proof -
    have "?sk j \<le> sum_list ?cs" using lsum_drop(2) [of ?cs j] by (auto simp: skew_def abs_diff_def rsum_def)
    then show ?thesis using assms(5) by simp
  qed
  have split: "(\<exists>m. 1 \<le> m \<and> m < Suc j \<and> ?v m) \<longleftrightarrow> (\<exists>m. 1 \<le> m \<and> m < j \<and> ?v m) \<or> ?v j"
    using Suc.hyps by (auto simp: less_Suc_eq)
  have all: "(\<forall>m. 1 \<le> m \<and> m < Suc j \<and> ?v m \<longrightarrow> P m) \<longleftrightarrow>
      (\<forall>m. 1 \<le> m \<and> m < j \<and> ?v m \<longrightarrow> P m) \<and> (?v j \<longrightarrow> P j)" for P
    using Suc.hyps by (auto simp: less_Suc_eq)
  show ?case
    unfolding step split all using IH(2) small Suc.hyps
    by (cases "?v j \<and> ?sk j < sk"; cases "\<exists>m. 1 \<le> m \<and> m < j \<and> ?v m")
      (auto simp: less_Suc_eq, meson less_imp_le less_le_trans)
qed

text \<open>The first prefix to reach a bound overshoots it by less than one cell.\<close>

lemma first_prefix:
  assumes "0 < b" "b \<le> sum_list cs" "\<forall>c \<in> set cs. c \<le> M"
  shows "\<exists>m. m < length cs \<and> lsum cs m < b \<and> b \<le> lsum cs (Suc m) \<and> lsum cs (Suc m) < b + M"
proof -
  define k where "k = (LEAST m. b \<le> lsum cs m)"
  have k: "b \<le> lsum cs k" unfolding k_def by (rule LeastI [of _ "length cs"]) (simp add: assms(2))
  have "k \<noteq> 0" using k assms(1) by (metis lsum_all(2) not_le)
  then obtain m where m: "k = Suc m" by (cases k) auto
  have "m < k" by (simp add: m)
  then have "lsum cs m < b" unfolding k_def by (meson not_less_Least not_le)
  moreover have "m < length cs"
  proof (rule ccontr)
    assume "\<not> m < length cs"
    then have "lsum cs m = sum_list cs" by (simp add: lsum_def)
    then show False using \<open>lsum cs m < b\<close> assms(2) by simp
  qed
  moreover from this have "cs ! m \<le> M" using assms(3) by simp
  ultimately show ?thesis using k m lsum_Suc [of m cs] by (intro exI [of _ m]) auto
qed

lemma valid_split_leaf:
  assumes "4076 < sum_list cs" "sum_list cs \<le> 6118" "\<forall>c \<in> set cs. c \<le> MAX_CELL"
  shows "\<exists>m. 1 \<le> m \<and> m < length cs \<and> valid_split HDR_LEAF False cs m"
proof -
  obtain m where m: "m < length cs" "sum_list cs - 4076 \<le> lsum cs (Suc m)"
    "lsum cs (Suc m) < (sum_list cs - 4076) + MAX_CELL"
    using first_prefix [of "sum_list cs - 4076" cs MAX_CELL] assms by auto
  have "Suc m \<noteq> length cs"
  proof
    assume "Suc m = length cs"
    then have "lsum cs (Suc m) = sum_list cs" using lsum_all(1) by metis
    then show False using m(3) assms(1,2) by simp
  qed
  then show ?thesis using m assms(1,2)
    by (intro exI [of _ "Suc m"]) (auto simp: valid_split_def rsum_def)
qed

lemma valid_split_internal:
  assumes "4068 < sum_list cs" "sum_list cs \<le> 8136" "\<forall>c \<in> set cs. c \<le> MAX_CELL"
  shows "\<exists>m. 1 \<le> m \<and> m < length cs \<and> valid_split HDR_INTERNAL True cs m"
proof -
  obtain m where m: "m < length cs" "lsum cs m < sum_list cs - 4068" "sum_list cs - 4068 \<le> lsum cs (Suc m)"
    using first_prefix [of "sum_list cs - 4068" cs MAX_CELL] assms by auto
  have three: "2 < length cs"
  proof (rule ccontr)
    assume "\<not> 2 < length cs"
    then have "sum_list cs \<le> 2 * MAX_CELL"
      using assms(3) by (cases cs; cases "tl cs") auto
    then show False using assms(1) by simp
  qed
  show ?thesis
  proof (cases "m = 0")
    case False
    have "rsum True cs m = sum_list cs - lsum cs (Suc m)"
      using m(1) by (simp add: rsum_def lsum_Suc)
    then show ?thesis using m assms(1,2) False
      by (intro exI [of _ m]) (auto simp: valid_split_def)
  next
    case True
    have one: "lsum cs 1 = cs ! 0" "lsum cs 2 = lsum cs 1 + cs ! 1"
    proof -
      have "0 < length cs" "1 < length cs" using three by linarith+
      from lsum_Suc [OF this(1)] lsum_Suc [OF this(2)] show "lsum cs 1 = cs ! 0" "lsum cs 2 = lsum cs 1 + cs ! 1"
        by (simp_all add: numeral_2_eq_2)
    qed
    have "cs ! 0 \<le> MAX_CELL" using three assms(3) nth_mem [of 0 cs] by fastforce
    then show ?thesis using m True one three assms(1)
      by (intro exI [of _ 1]) (auto simp: valid_split_def rsum_def)
  qed
qed

text \<open>For an internal node the most balanced split never promotes the last separator, so the right
  half keeps at least one.\<close>

lemma last_split_skewed:
  assumes "length cs = Suc (Suc (Suc n))" "\<forall>c \<in> set cs. 0 < c \<and> c \<le> MAX_CELL" "4068 < sum_list cs"
    and "valid_split HDR_INTERNAL True cs (Suc (Suc n))"
  shows "valid_split HDR_INTERNAL True cs (Suc n)" "skew True cs (Suc n) < skew True cs (Suc (Suc n))"
proof -
  let ?m = "Suc n"
  have L: "lsum cs (Suc ?m) = lsum cs ?m + cs ! ?m" "sum_list cs = lsum cs (Suc ?m) + cs ! Suc ?m"
    using assms(1) lsum_Suc [of ?m cs] lsum_Suc [of "Suc ?m" cs] lsum_all(1) [of cs] by auto
  have c: "cs ! ?m \<le> MAX_CELL" "cs ! Suc ?m \<le> MAX_CELL" using assms(1,2) by auto
  have r: "rsum True cs ?m = cs ! Suc ?m" "rsum True cs (Suc ?m) = 0" using L by (auto simp: rsum_def)
  show "valid_split HDR_INTERNAL True cs (Suc n)"
    using assms(4) L r c by (simp add: valid_split_def)
  have n: "cs ! ?m \<le> lsum cs (Suc ?m)" "cs ! Suc ?m < lsum cs (Suc ?m)" using L c assms(3) by auto
  have "0 < cs ! ?m" using assms(1,2) by auto
  then show "skew True cs (Suc n) < skew True cs (Suc (Suc n))"
    using n L r unfolding skew_def abs_diff_def by auto
qed

definition cells_ok :: "Node \<Rightarrow> bool" where
  "cells_ok n \<longleftrightarrow> (\<forall>c \<in> set (node_cells n). c \<le> MAX_CELL) \<and> (\<forall>k \<in> set (node_keys n). sep_cell k \<le> MAX_CELL)"

text \<open>The split of an overfull node whose content exceeds a page by at most one more cell (an insert)
  or by an underfull sibling (a merge).\<close>

lemma split_at_leaf:
  assumes "node_wf (Leaf ks vs)" "is_overfull (Leaf ks vs)" "cells_ok (Leaf ks vs)"
    and "encoded_len (Leaf ks vs) \<le> 6122"
  defines "m \<equiv> split_at (Leaf ks vs)"
  shows "1 \<le> m" "m < length ks" "encoded_len (Leaf (take m ks) (take m vs)) \<le> CAP"
    "encoded_len (Leaf (drop m ks) (drop m vs)) \<le> CAP"
proof -
  let ?n = "Leaf ks vs" and ?cs = "leaf_cells ks vs"
  have len: "length vs = length ks" "length ?cs = length ks"
    using assms(1) by (simp_all add: length_leaf_cells)
  have sum: "4076 < sum_list ?cs" "sum_list ?cs \<le> 6118"
    using assms(1,2,4) by (auto simp: is_overfull_def encoded_len_cells)
  have cells: "\<forall>c \<in> set ?cs. c \<le> MAX_CELL" using assms(3) by (auto simp: cells_ok_def)
  have ne: "key_count ?n \<noteq> 0" using sum len by (auto simp: key_count_def leaf_cells_def)
  obtain best sk where s: "foldl (split_step ?n (sum_list ?cs)) (1, 2 ^ 64 - 1, 0) [1..<key_count ?n] =
      (best, sk, lsum ?cs (key_count ?n - 1))"
    "1 \<le> best" "best < key_count ?n" "valid_split HDR_LEAF False ?cs best"
    using split_search [OF assms(1), of "key_count ?n"] ne sum valid_split_leaf [OF sum cells] len
    by (auto simp: key_count_def split: if_splits)
  have m: "m = best" using s(1) node_cells_map [OF assms(1)] by (simp add: m_def split_at_def Let_def)
  show "1 \<le> m" "m < length ks" using s m by (simp_all add: key_count_def)
  have wf: "node_wf (Leaf (take m ks) (take m vs))" "node_wf (Leaf (drop m ks) (drop m vs))"
    using assms(1) by (auto simp: sorted_wrt_take sorted_wrt_drop)
  show "encoded_len (Leaf (take m ks) (take m vs)) \<le> CAP" "encoded_len (Leaf (drop m ks) (drop m vs)) \<le> CAP"
    using s(4) m wf
    by (simp_all add: encoded_len_cells leaf_cells_take_drop valid_split_def rsum_drop(1) lsum_def)
qed

lemma split_at_internal:
  assumes "node_wf (Internal ks cs)" "is_overfull (Internal ks cs)" "cells_ok (Internal ks cs)"
    and "encoded_len (Internal ks cs) \<le> 8148"
  defines "m \<equiv> split_at (Internal ks cs)"
  shows "1 \<le> m" "m + 1 < length ks" "encoded_len (Internal (take m ks) (take (m + 1) cs)) \<le> CAP"
    "encoded_len (Internal (drop (m + 1) ks) (drop (m + 1) cs)) \<le> CAP"
proof -
  let ?n = "Internal ks cs" and ?cs = "map sep_cell ks"
  have sum: "4068 < sum_list ?cs" "sum_list ?cs \<le> 8136"
    using assms(1,2,4) by (auto simp: is_overfull_def encoded_len_cells)
  have cells: "\<forall>c \<in> set ?cs. c \<le> MAX_CELL" "\<forall>c \<in> set ?cs. 0 < c \<and> c \<le> MAX_CELL"
    using assms(3) by (auto simp: cells_ok_def sep_cell_def)
  have ne: "key_count ?n \<noteq> 0" using sum by (auto simp: key_count_def)
  obtain best sk where s: "foldl (split_step ?n (sum_list ?cs)) (1, 2 ^ 64 - 1, 0) [1..<key_count ?n] =
      (best, sk, lsum ?cs (key_count ?n - 1))"
    "1 \<le> best" "best < key_count ?n" "valid_split HDR_INTERNAL True ?cs best" "sk = skew True ?cs best"
    "\<forall>m. 1 \<le> m \<and> m < key_count ?n \<and> valid_split HDR_INTERNAL True ?cs m \<longrightarrow> sk \<le> skew True ?cs m"
    using split_search [OF assms(1), of "key_count ?n"] ne sum valid_split_internal [OF sum cells(1)]
    by (auto simp: key_count_def split: if_splits)
  have m: "m = best" using s(1) node_cells_map [OF assms(1)] by (simp add: m_def split_at_def Let_def)
  have three: "2 < length ks"
  proof (rule ccontr)
    assume "\<not> 2 < length ks"
    then have "sum_list ?cs \<le> 2 * MAX_CELL" using cells(1) by (cases ks; cases "tl ks") auto
    then show False using sum by simp
  qed
  then have "length ks = Suc (Suc (Suc (length ks - 3)))" by linarith
  then obtain n where n: "length ks = Suc (Suc (Suc n))" ..
  have "best \<noteq> Suc (Suc n)"
  proof
    assume b: "best = Suc (Suc n)"
    have "length ?cs = Suc (Suc (Suc n))" using n by simp
    note ls = last_split_skewed [OF this cells(2) sum(1) s(4) [unfolded b]]
    have "sk \<le> skew True ?cs (Suc n)" using s(6) ls(1) n by (simp add: key_count_def)
    then show False using ls(2) s(5) b by simp
  qed
  then show "1 \<le> m" "m + 1 < length ks" using s m n by (auto simp: key_count_def)
  have kids: "length cs = length ks + 1" "sorted_wrt (<) ks" "\<forall>c \<in> set cs. FIRST_DATA_PAGE \<le> c"
    using assms(1) by simp_all
  have sub: "\<forall>c \<in> set (take (m + 1) cs). FIRST_DATA_PAGE \<le> c" "\<forall>c \<in> set (drop (m + 1) cs). FIRST_DATA_PAGE \<le> c"
    using kids(3) set_take_subset [of "m + 1" cs] set_drop_subset [of "m + 1" cs] by blast+
  have wf: "node_wf (Internal (take m ks) (take (m + 1) cs))"
    "node_wf (Internal (drop (m + 1) ks) (drop (m + 1) cs))"
    using kids(1,2) sub \<open>m + 1 < length ks\<close> by (simp_all add: sorted_wrt_take sorted_wrt_drop)
  show "encoded_len (Internal (take m ks) (take (m + 1) cs)) \<le> CAP"
    "encoded_len (Internal (drop (m + 1) ks) (drop (m + 1) cs)) \<le> CAP"
    using s(4) m wf \<open>m + 1 < length ks\<close>
    by (simp_all add: encoded_len_cells valid_split_def rsum_drop(2) lsum_def take_map drop_map)
qed

end
