(* ===== verification/StorageSpec.thy ===== *)
theory StorageSpec
  imports PagerCommit Node
begin

text \<open>
  Properties of the parts of the storage engine below the tree: the page cache, the free-list walk and
  the integrity check of the pager, and the node codec.
\<close>

section \<open>The page cache\<close>

text \<open>C32: The cache never loses unwritten data and keeps to its budget. Inserting a frame keeps the ids of the
  cache distinct and every other dirty page with its frame; afterwards the resident bytes are within the
  budget, or every resident page is dirty and therefore pinned; a frame inserted dirty is resident.\<close>

theorem cache_insert_keeps:
  fixes pid :: u64 and f :: bytes and d :: bool
  assumes "cache_wf c"
  defines "c' \<equiv> cache_insert pid f d c"
  shows "cache_wf c' \<and> (\<forall>i e. i \<noteq> pid \<longrightarrow> lookup c i = Some e \<longrightarrow> dirty e \<longrightarrow> lookup c' i = Some e)
    \<and> (length (entries c') * PAGE_SIZE \<le> budget_bytes c \<or> (\<forall>(i, e) \<in> set (entries c'). dirty e))
    \<and> (d \<longrightarrow> (\<exists>e. lookup c' pid = Some e \<and> dirty e \<and> frame e = f))"
proof (intro conjI allI impI)
  show "cache_wf c'" unfolding c'_def by (rule cache_insert_spec(1) [OF assms(1)])
  show "lookup c' i = Some e" if "i \<noteq> pid" "lookup c i = Some e" "dirty e" for i e
    using cache_insert_spec(2) [OF assms(1) that(1), of f d] that(2,3) unfolding c'_def by auto
  show "length (entries c') * PAGE_SIZE \<le> budget_bytes c \<or> (\<forall>(i, e) \<in> set (entries c'). dirty e)"
    using evict_bound unfolding c'_def cache_insert_def Let_def by (simp add: bump_def)
  show "\<exists>e. lookup c' pid = Some e \<and> dirty e \<and> frame e = f" if d
    using cache_insert_spec(3) [OF assms(1), of pid f d] that unfolding c'_def by auto
qed

theorem cache_insert_keeps_witness:
  "\<exists>e. lookup (cache_insert 3 [7] True (cache_insert 2 [5] True (cache_new PAGE_SIZE))) 2 = Some e \<and> frame e = [5]"
proof -
  have wf: "cache_wf (cache_insert 2 [5] True (cache_new PAGE_SIZE))" by (simp add: cache_insert_spec(1))
  obtain e where e: "lookup (cache_insert 2 [5] True (cache_new PAGE_SIZE)) 2 = Some e" "dirty e" "frame e = [5]"
    using cache_insert_keeps [OF cache_new_wf(1), of 2 "[5]" True] by blast
  moreover have "(2 :: u64) \<noteq> 3" by simp
  ultimately show ?thesis using cache_insert_keeps [OF wf, of 3 "[7]" True] by blast
qed

section \<open>The free list\<close>

lemma parse_trunk_count: "parse_trunk t buf = Inr (ids, nxt) \<Longrightarrow> length ids \<le> CAPACITY"
  by (auto simp: parse_trunk_def split: if_splits)

lemma load_loop_safe:
  assumes "load_loop ops m head seen free trs b = (Inr (free', trs'), b')" "distinct trs" "set trs \<subseteq> seen"
    and "\<forall>t \<in> set trs. trunk_in_range m t" "length free \<le> CAPACITY * length trs"
  shows "distinct trs' \<and> (\<forall>t \<in> set trs'. trunk_in_range m t) \<and> length free' \<le> CAPACITY * length trs'"
  using assms
proof (induction ops m head seen free trs b rule: load_loop.induct)
  case (1 ops m head seen free trs b)
  show ?case
  proof (cases head)
    case None
    then show ?thesis using "1.prems" by (simp add: load_loop.simps)
  next
    case (Some t)
    have t: "trunk_in_range m t" "t \<notin> seen"
      using "1.prems"(1) Some by (subst (asm) load_loop.simps, simp split: if_splits)+
    obtain buf b1 where io: "io_read_at ops (page_offset t) PAGE_SIZE b = (Inr buf, b1)"
      using "1.prems"(1) Some t by (subst (asm) load_loop.simps) (auto split: prod.splits sum.splits)
    obtain ids nxt where pt: "parse_trunk t buf = Inr (ids, nxt)"
      using "1.prems"(1) Some t io by (subst (asm) load_loop.simps) (auto split: sum.splits)
    have run: "load_loop ops m (u64_to_opt nxt) (insert t seen) (free @ ids) (trs @ [t]) b1 = (Inr (free', trs'), b')"
      using "1.prems"(1) Some t io pt by (subst (asm) load_loop.simps) simp
    show ?thesis
      by (rule "1.IH" [OF Some _ t(2) io [symmetric] refl pt refl run])
        (use t "1.prems"(2-5) parse_trunk_count [OF pt] in auto)
  qed
qed

text \<open>C33: Walking the free list of any image through any store ends, and what it returns is sane: either an error, or
  trunk pages that are distinct and inside the file and no more ids than they can store. A cycle in the
  chain is an error, never a loop.\<close>

theorem free_list_walk_safe:
  "\<exists>r b'. load_free_list ops m b = (r, b')
    \<and> (case r of Inl _ \<Rightarrow> True
       | Inr (free, trs) \<Rightarrow> distinct trs \<and> (\<forall>t \<in> set trs. trunk_in_range m t) \<and> length free \<le> CAPACITY * length trs)"
proof -
  obtain r b' where r: "load_free_list ops m b = (r, b')" by fastforce
  then show ?thesis using load_loop_safe [of ops m "freelist_head m" "{}" "[]" "[]" b] unfolding load_free_list_def
    by (cases r) auto
qed

theorem free_list_walk_safe_witness:
  "\<exists>r b'. load_free_list mem_ops (meta_initial\<lparr> freelist_head := Some 7 \<rparr>) [] = (r, b') \<and> isl r"
proof -
  have "load_free_list mem_ops (meta_initial\<lparr> freelist_head := Some 7 \<rparr>) [] = (Inl (corrupt (FreelistOutOfRange 7)), [])"
    by (simp add: load_free_list_def load_loop.simps trunk_in_range_def meta_initial_def)
  then show ?thesis using free_list_walk_safe [of mem_ops "meta_initial\<lparr> freelist_head := Some 7 \<rparr>" "[]"] by auto
qed

text \<open>The integrity check of the pager on a chain of trunk pages.\<close>

lemma check_entries_ok:
  "distinct ids \<Longrightarrow> set ids \<inter> seen = {} \<Longrightarrow> (\<And>x. x \<in> set ids \<Longrightarrow> trunk_in_range m x) \<Longrightarrow>
     check_entries m ids seen = Inr (seen \<union> set ids)"
  by (induction ids arbitrary: seen) auto

lemma recover_slot: "recover d = Inr (m, s) \<Longrightarrow> parse_meta s (disk_page d s) = Inr m \<and> (s = 0 \<or> s = 1)"
  by (auto simp: recover_def adopt_slot_def split: sum.splits if_splits)

lemma read_meta_recovered:
  assumes "recover d = Inr (m, s)" "2 * PAGE_SIZE \<le> length d"
  shows "read_meta mem_ops s d = (Inr m, d)"
proof -
  have s: "parse_meta s (disk_page d s) = Inr m" "s = 0 \<or> s = 1" using recover_slot [OF assms(1)] by auto
  have "unat (page_offset s) = unat s * PAGE_SIZE" using s(2) by (intro unat_page_offset) (auto simp: PAGE_LIMIT_def)
  moreover have "unat s * PAGE_SIZE + PAGE_SIZE \<le> length d" using s(2) assms(2) by auto
  ultimately have "io_read_at mem_ops (page_offset s) PAGE_SIZE d = (Inr (disk_page d s), d)"
    using s(2) by (auto simp: mem_ops_def mem_read_at_def Let_def disk_page_def)
  then show ?thesis using s(1) by (simp add: read_meta_def)
qed

context reliable_store
begin

lemma validate_loop_chain:
  assumes "chain (disk_view (disk b)) h segs" "distinct (concat (map snd segs) @ map fst segs)"
    "(set (concat (map snd segs)) \<union> fst ` set segs) \<inter> seen = {}"
    and "\<And>t. t \<in> set (concat (map snd segs)) \<union> fst ` set segs \<Longrightarrow> trunk_in_range m t \<and> unat t < PAGE_LIMIT"
  shows "\<exists>b'. validate_loop ops m (u64_to_opt h) seen n k b = (Inr (n + length (concat (map snd segs)), k + length segs), b')"
  using assms
proof (induction segs arbitrary: h seen n k b)
  case Nil
  then show ?case by (simp add: validate_loop.simps u64_to_opt_def)
next
  case (Cons a segs)
  obtain t ids where a: "a = (t, ids)" by fastforce
  from Cons.prems(1) obtain nxt where c: "h = t" "t \<noteq> 0" "page_fits (disk b) t"
    "parse_trunk t (disk_page (disk b) t) = Inr (ids, nxt)" "chain (disk_view (disk b)) nxt segs"
    by (auto simp: a disk_view_Some)
  have t: "trunk_in_range m t" "unat t < PAGE_LIMIT" "t \<notin> seen" using Cons.prems(3,4) by (auto simp: a)
  then have "unat t * PAGE_SIZE + PAGE_SIZE < 2 ^ 64" by (simp add: PAGE_LIMIT_def)
  then obtain b1 where io: "io_read_at ops (page_offset t) PAGE_SIZE b = (Inr (disk_page (disk b) t), b1)"
    using read_at_total [of "page_offset t" PAGE_SIZE b] c(3) unat_page_offset [OF t(2)]
    by (auto simp: page_fits_def disk_page_def)
  have d1: "disk b1 = disk b" by (rule read_at_disk [OF io])
  have ce: "check_entries m ids (insert t seen) = Inr (insert t seen \<union> set ids)"
    using Cons.prems(2-4) by (intro check_entries_ok) (auto simp: a)
  have "validate_loop ops m (u64_to_opt h) seen n k b =
      validate_loop ops m (u64_to_opt nxt) ((insert t seen \<union> set ids) \<union> insert t seen) (n + length ids) (k + 1) b1"
    using c(1,2,4) t io ce by (subst validate_loop.simps) (simp add: u64_to_opt_def)
  moreover have "\<exists>b'. validate_loop ops m (u64_to_opt nxt) ((insert t seen \<union> set ids) \<union> insert t seen) (n + length ids) (k + 1) b1 =
      (Inr (n + length ids + length (concat (map snd segs)), k + 1 + length segs), b')"
    by (rule Cons.IH) (use Cons.prems c(5) d1 in \<open>auto simp: a\<close>)
  ultimately show ?case by (simp add: a ac_simps)
qed

end

text \<open>The integrity check accepts what a commit leaves: after a commit it succeeds and reports the committed
  version, the active slot, the page count, and the free pages split into stored ids and trunk pages.\<close>

theorem validate_accepts_commit:
  assumes "pager_inv (backend p) p" "committed (backend p) p cm" "length (free_set p) < 2 ^ 64"
  shows "\<exists>p' st b. commit mem_ops p = (Inr (), p') \<and> validate mem_ops p' = (Inr st, b)
    \<and> stat_page_count st = page_count (meta p) \<and> stat_active_slot st = 1 - active_slot p
    \<and> stat_txn_id st = txn_id (meta p) + 1 \<and> unat (stat_free_ids st) + unat (stat_trunk_count st) = length (free_set p)"
proof -
  obtain dead q where rb: "rebuild_free_list p = (dead, q)" by fastforce
  note rs = rebuild_spec [OF assms(1) rb]
  obtain r p' where run: "commit mem_ops p = (r, p')" by fastforce
  note c = mem.commit_durable [OF assms(1,2) run]
  then obtain segs where segs: "chain (disk_view (backend p')) (opt_to_u64 (freelist_head (meta p'))) segs"
    "trunks p' = rev (map fst segs)" "free_set p' = concat (rev (map snd segs)) @ trunks p" by blast
  have m': "meta p' = next_meta p" and inv': "pager_inv (backend p') p'" and act: "active_slot p' = 1 - active_slot p"
    and rec: "recover (backend p') = Inr (meta p', active_slot p')" using c by blast+
  have nm: "page_count (next_meta p) = page_count (meta p)" "txn_id (next_meta p) = txn_id (meta p) + 1"
    "freelist_len (next_meta p) = of_nat (length (free_set q))"
    using rs(9,10,13) by (simp_all add: next_meta_def Let_def rb)
  have "mset (concat (rev xs)) = mset (concat xs)" for xs :: "u64 list list" by (induction xs) simp_all
  then have ms: "mset (concat (map snd segs) @ map fst segs) = mset (free_set p)"
    using c segs(2,3) by (simp add: rev_map [symmetric] ac_simps)
  have fs: "distinct (free_set p)" "set (free_set p) \<subseteq> data_pages p" "unat (page_count (meta p)) \<le> PAGE_LIMIT"
    using assms(1) by (simp_all add: pager_inv_def)
  have ds: "distinct (concat (map snd segs) @ map fst segs)" "set (concat (map snd segs) @ map fst segs) = set (free_set p)"
    "length (concat (map snd segs)) + length segs = length (free_set p)"
    using ms fs(1) by (metis mset_eq_imp_distinct_iff, metis mset_eq_setD, metis length_append length_map mset_eq_length)
  have rng: "trunk_in_range (meta p') t \<and> unat t < PAGE_LIMIT" if "t \<in> set (concat (map snd segs)) \<union> fst ` set segs" for t
  proof -
    have "t \<in> data_pages p" using that ds(2) fs(2) by auto
    then show ?thesis using data_page_limit [of t p] fs(3) by (auto simp: trunk_in_range_def data_pages_def m' nm)
  qed
  have h: "u64_to_opt (opt_to_u64 (freelist_head (meta p'))) = freelist_head (meta p')"
    using m' next_meta_props(1) [OF assms(1,2)] by (simp add: meta_wf_def)
  from mem.validate_loop_chain [OF segs(1) ds(1) _ rng, of "{}" 0 0] obtain b' where v:
    "validate_loop mem_ops (meta p') (freelist_head (meta p')) {} 0 0 (backend p') = (Inr (length (concat (map snd segs)), length segs), b')"
    unfolding h by auto
  have len: "length (concat (map snd segs)) = length (free_set q)"
  proof -
    have "length (free_set p') = length (free_set q) + length (trunks p)"
      using mem.commit_total [OF assms(1,2)] run by (auto simp: rb)
    moreover have "length (concat (rev (map snd segs))) = length (concat (map snd segs))"
      by (simp add: length_concat rev_map [symmetric] sum_list_rev)
    ultimately show ?thesis using segs(3) by simp
  qed
  have "read_meta mem_ops (active_slot p') (backend p') = (Inr (meta p'), backend p')" using read_meta_recovered [OF rec] c by blast
  then have "validate mem_ops p' = (Inr \<lparr> stat_page_count = page_count (meta p'), stat_free_ids = of_nat (length (concat (map snd segs))),
      stat_trunk_count = of_nat (length segs), stat_active_slot = active_slot p', stat_txn_id = txn_id (meta p') \<rparr>, b')"
    using v nm(3) by (simp add: validate_def m' len)
  moreover have "unat (of_nat (length (concat (map snd segs))) :: u64) = length (concat (map snd segs))"
    "unat (of_nat (length segs) :: u64) = length segs" using ds(3) assms(3) by (simp_all add: unat_of_nat_u64)
  ultimately show ?thesis using run c m' nm act ds(3) by auto
qed

theorem validate_accepts_commit_witness:
  "\<exists>p' st b. commit mem_ops (new_pager 0 meta_initial 0 True initial_image) = (Inr (), p') \<and> validate mem_ops p' = (Inr st, b)
    \<and> stat_page_count st = 2 \<and> stat_txn_id st = 1"
proof -
  let ?p = "new_pager 0 meta_initial 0 True initial_image"
  have "backend ?p = initial_image" "length (free_set ?p) < 2 ^ 64" "page_count (meta ?p) = 2" "txn_id (meta ?p) = 0"
    by (simp_all add: new_pager_def meta_initial_def)
  then show ?thesis using validate_accepts_commit [of ?p meta_initial] fresh_pager [of 0 initial_image] by auto
qed

section \<open>The node codec\<close>

text \<open>A well-formed node that fits a page decodes from its page exactly, whatever bytes follow it.\<close>

theorem node_codec_roundtrip:
  assumes "node_wf n" "encoded_len n \<le> CAP"
  shows "length (node_encode n) = encoded_len n \<and> node_decode (node_encode n @ pad) page = Inr n"
  using node_decode_encode [OF assms] length_node_encode [OF assms(1)] by simp

theorem node_codec_roundtrip_witness:
  "node_decode (node_encode (Internal [[5]] [2, 3]) @ [0, 0]) 9 = Inr (Internal [[5]] [2, 3])"
  using node_codec_roundtrip [of "Internal [[5]] [2, 3]" "[0, 0]" 9] by (simp add: encoded_len_cells sep_cell_def)

text \<open>C34: Whatever bytes a page holds, decoding them as a node fails with an error or yields a well-formed node: the
  keys strictly ascend, every value or child is there, children are data pages, and the node's encoding
  is no longer than the bytes it was read from.\<close>

theorem node_decode_sound:
  "case node_decode payload page of Inl _ \<Rightarrow> True | Inr n \<Rightarrow> node_wf n \<and> encoded_len n \<le> length payload"
  using node_decode_wf by (auto split: sum.split)

text \<open>C31: Splitting an overfull node, one that exceeds a page by at most one more entry or by an underfull sibling,
  yields two well-formed nonempty nodes that both fit a page and between them hold its keys in order,
  with the separator the first key of the right leaf, or a key moved up between internal nodes.\<close>

theorem split_fits:
  assumes "node_wf n" "is_overfull n" "cells_ok n" "encoded_len n \<le> (if is_internal n then 8148 else 6122)"
  shows "case split_node n of (l, sep, r) \<Rightarrow> node_wf l \<and> node_wf r \<and> encoded_len l \<le> CAP \<and> encoded_len r \<le> CAP
    \<and> node_keys l \<noteq> [] \<and> node_keys r \<noteq> []
    \<and> node_keys n = (if is_internal n then node_keys l @ sep # node_keys r else node_keys l @ node_keys r)
    \<and> (is_internal n \<or> sep = hd (node_keys r))"
proof (cases n)
  case (Leaf ks vs)
  define m where "m = split_at (Leaf ks vs)"
  have "encoded_len (Leaf ks vs) \<le> 6122" using assms(4) Leaf by simp
  note s = split_at_leaf [OF assms(1-3) [unfolded Leaf] this, folded m_def]
  have sp: "split_node n = (Leaf (take m ks) (take m vs), ks ! m, Leaf (drop m ks) (drop m vs))" by (simp add: Leaf m_def Let_def)
  show ?thesis unfolding sp using s assms(1) Leaf by (auto simp: sorted_wrt_take sorted_wrt_drop hd_drop_conv_nth)
next
  case (Internal ks cs)
  define m where "m = split_at (Internal ks cs)"
  have "encoded_len (Internal ks cs) \<le> 8148" using assms(4) Internal by simp
  note s = split_at_internal [OF assms(1-3) [unfolded Internal] this, folded m_def]
  have sp: "split_node n = (Internal (take m ks) (take (m + 1) cs), ks ! m, Internal (drop (m + 1) ks) (drop (m + 1) cs))"
    by (simp add: Internal m_def Let_def)
  have ks: "ks = take m ks @ ks ! m # drop (m + 1) ks" using s(2) by (simp add: id_take_nth_drop)
  have wf: "length cs = length ks + 1" "sorted_wrt (<) ks" "\<forall>c \<in> set cs. FIRST_DATA_PAGE \<le> c" using assms(1) Internal by simp_all
  then show ?thesis unfolding sp using s Internal ks
    by (auto simp: sorted_wrt_take sorted_wrt_drop dest: in_set_takeD in_set_dropD)
qed

theorem split_fits_witness:
  "let n = Leaf [replicate 2000 1, replicate 2000 2, replicate 2000 3] [[], [], []]
   in case split_node n of (l, sep, r) \<Rightarrow> encoded_len l \<le> CAP \<and> encoded_len r \<le> CAP \<and> node_keys l @ node_keys r = node_keys n"
proof -
  have numeral_2000: "replicate 2000 x = x # replicate 1999 x" for x :: u8 using replicate_Suc [of 1999 x] by simp
  let ?n = "Leaf [replicate 2000 1, replicate 2000 2, replicate 2000 (3 :: u8)] [[], [], []]"
  have lt: "replicate 2000 (1 :: u8) < replicate 2000 2" "replicate 2000 (2 :: u8) < replicate 2000 3" "replicate 2000 (1 :: u8) < replicate 2000 3"
    by (simp_all add: numeral_2000)
  then have wf: "node_wf ?n" by simp
  have "is_overfull ?n" "cells_ok ?n" "encoded_len ?n \<le> 6122"
    using wf by (simp_all add: is_overfull_def encoded_len_cells leaf_cells_def cells_ok_def sep_cell_def)
  then show ?thesis using split_fits [OF wf] by (auto simp: Let_def)
qed

end
