(* ===== verification/Registry.thy ===== *)
theory Registry
  imports Page "HOL-Library.Multiset"
begin

text \<open>
  The snapshot registry (\<open>crates/txn/src/registry.rs\<close>): the latest published version and the reference
  counts of the versions readers have pinned. Every method takes the registry's lock for its whole
  body, so a method is one atomic step. The counts are the map \<open>live\<close>, a \<open>BTreeMap\<close>, kept as a list in
  key order.
\<close>

section \<open>Operations\<close>

definition UNBOUNDED :: u64 where "UNBOUNDED = - 1"

record Registry =
  reg_root :: "PageId option"
  reg_txn :: u64
  reg_live :: "(u64 \<times> nat) list"

definition registry_new :: "PageId option \<Rightarrow> u64 \<Rightarrow> Registry" where
  "registry_new root txn = \<lparr> reg_root = root, reg_txn = txn, reg_live = [] \<rparr>"

definition publish :: "PageId option \<Rightarrow> u64 \<Rightarrow> Registry \<Rightarrow> Registry" where
  "publish root txn r = r\<lparr> reg_root := root, reg_txn := txn \<rparr>"

definition current :: "Registry \<Rightarrow> PageId option \<times> u64" where
  "current r = (reg_root r, reg_txn r)"

fun live_bump :: "u64 \<Rightarrow> (u64 \<times> nat) list \<Rightarrow> (u64 \<times> nat) list" where
  "live_bump t [] = [(t, 1)]"
| "live_bump t ((k, n) # r) =
     (if t < k then (t, 1) # (k, n) # r else if t = k then (k, n + 1) # r else (k, n) # live_bump t r)"

fun live_drop :: "u64 \<Rightarrow> (u64 \<times> nat) list \<Rightarrow> (u64 \<times> nat) list" where
  "live_drop t [] = []"
| "live_drop t ((k, n) # r) =
     (if t = k then (if n - 1 = 0 then r else (k, n - 1) # r) else (k, n) # live_drop t r)"

definition acquire :: "Registry \<Rightarrow> (PageId option \<times> u64) \<times> Registry" where
  "acquire r = ((reg_root r, reg_txn r), r\<lparr> reg_live := live_bump (reg_txn r) (reg_live r) \<rparr>)"

definition release :: "u64 \<Rightarrow> Registry \<Rightarrow> Registry" where
  "release txn r = r\<lparr> reg_live := live_drop txn (reg_live r) \<rparr>"

definition watermark :: "Registry \<Rightarrow> u64" where
  "watermark r = (case reg_live r of [] \<Rightarrow> UNBOUNDED | (k, _) # _ \<Rightarrow> k)"

definition live_count :: "Registry \<Rightarrow> nat" where
  "live_count r = sum_list (map snd (reg_live r))"

section \<open>The pinned versions as a multiset\<close>

definition live_wf :: "(u64 \<times> nat) list \<Rightarrow> bool" where
  "live_wf l \<longleftrightarrow> sorted_wrt (<) (map fst l) \<and> (\<forall>(k, n) \<in> set l. 0 < n)"

fun pins :: "(u64 \<times> nat) list \<Rightarrow> u64 multiset" where
  "pins [] = {#}"
| "pins ((k, n) # r) = replicate_mset n k + pins r"

lemma pins_set: "live_wf l \<Longrightarrow> set_mset (pins l) = set (map fst l)"
  by (induction l) (force simp: live_wf_def split: if_splits)+

lemma size_pins: "size (pins l) = sum_list (map snd l)"
  by (induction l rule: pins.induct) simp_all

lemma live_bump_spec:
  "live_wf l \<Longrightarrow> live_wf (live_bump t l) \<and> pins (live_bump t l) = add_mset t (pins l) \<and> set (map fst (live_bump t l)) = insert t (set (map fst l))"
proof (induction t l rule: live_bump.induct)
  case (2 t k n r)
  consider "t < k" | "t = k" | "k < t" by (rule linorder_cases)
  then show ?case
  proof cases
    case 3
    have "live_wf r" using "2.prems" by (auto simp: live_wf_def)
    with 2 3 have "live_wf (live_bump t r)" "pins (live_bump t r) = add_mset t (pins r)"
      "set (map fst (live_bump t r)) = insert t (set (map fst r))" by auto
    then show ?thesis using 3 "2.prems" by (auto simp: live_wf_def not_less)
  qed (use "2.prems" in \<open>auto simp: live_wf_def dest: less_trans\<close>)
qed (simp add: live_wf_def)

lemma live_drop_spec:
  "live_wf l \<Longrightarrow> live_wf (live_drop t l) \<and> pins (live_drop t l) = pins l - {#t#} \<and> set (map fst (live_drop t l)) \<subseteq> set (map fst l)"
proof (induction t l rule: live_drop.induct)
  case (2 t k n r)
  have r: "live_wf r" "0 < n" "\<forall>x \<in> set (map fst r). k < x" using "2.prems" by (auto simp: live_wf_def)
  show ?case
  proof (cases "t = k")
    case True
    obtain m where n: "n = Suc m" using r(2) by (cases n) auto
    then show ?thesis using True r "2.prems" by (auto simp: live_wf_def)
  next
    case False
    with 2 r(1) have IH: "live_wf (live_drop t r)" "pins (live_drop t r) = pins r - {#t#}"
      "set (map fst (live_drop t r)) \<subseteq> set (map fst r)" by auto
    have "replicate_mset n k + (pins r - {#t#}) = replicate_mset n k + pins r - {#t#}"
      using False by (auto simp: multiset_eq_iff)
    moreover have "\<forall>x \<in> set (map fst (live_drop t r)). k < x" using IH(3) r(3) by blast
    ultimately show ?thesis using False IH r(2) by (auto simp: live_wf_def)
  qed
qed (simp add: live_wf_def)

lemma watermark_spec:
  assumes "live_wf (reg_live r)"
  shows "v \<in># pins (reg_live r) \<Longrightarrow> watermark r \<le> v" "pins (reg_live r) \<noteq> {#} \<Longrightarrow> watermark r \<in># pins (reg_live r)"
    "pins (reg_live r) = {#} \<Longrightarrow> watermark r = UNBOUNDED"
proof -
  have s: "set_mset (pins (reg_live r)) = set (map fst (reg_live r))" by (rule pins_set [OF assms])
  show "v \<in># pins (reg_live r) \<Longrightarrow> watermark r \<le> v"
    using assms unfolding s by (cases "reg_live r") (auto simp: watermark_def live_wf_def)
  show "pins (reg_live r) \<noteq> {#} \<Longrightarrow> watermark r \<in># pins (reg_live r)"
    unfolding s by (cases "reg_live r") (auto simp: watermark_def)
  show "pins (reg_live r) = {#} \<Longrightarrow> watermark r = UNBOUNDED"
    using s by (cases "reg_live r") (auto simp: watermark_def)
qed

section \<open>Readers and the writer\<close>

text \<open>The interleavings of readers and the writer: a reader pins the current version, a reader that
  holds a version releases it, the writer publishes. \<open>held\<close> is the multiset of versions held by live
  snapshots.\<close>

inductive registry_reach :: "Registry \<Rightarrow> u64 multiset \<Rightarrow> bool" where
  reg_init: "registry_reach (registry_new root txn) {#}"
| reg_acquire: "registry_reach r held \<Longrightarrow> acquire r = ((root, v), r') \<Longrightarrow> registry_reach r' (add_mset v held)"
| reg_release: "registry_reach r held \<Longrightarrow> v \<in># held \<Longrightarrow> registry_reach (release v r) (held - {#v#})"
| reg_publish: "registry_reach r held \<Longrightarrow> registry_reach (publish root txn r) held"

lemma registry_reach_inv: "registry_reach r held \<Longrightarrow> live_wf (reg_live r) \<and> pins (reg_live r) = held"
proof (induction rule: registry_reach.induct)
  case (reg_acquire r held root v r')
  then show ?case using live_bump_spec [of "reg_live r" "reg_txn r"] by (auto simp: acquire_def)
next
  case (reg_release r held v)
  then show ?case using live_drop_spec [of "reg_live r" v] by (auto simp: release_def)
qed (auto simp: registry_new_def publish_def live_wf_def)

text \<open>C27: However readers and the writer interleave, the reclamation watermark is the oldest version a live
  snapshot holds: no held version is older, it is itself held while any is, and it is unbounded when
  none is. The live count is the number of live snapshots.\<close>

theorem watermark_is_oldest:
  assumes "registry_reach r held"
  shows "(\<forall>v \<in># held. watermark r \<le> v) \<and> (if held = {#} then watermark r = UNBOUNDED else watermark r \<in># held)
    \<and> live_count r = size held"
proof -
  have r: "live_wf (reg_live r)" "pins (reg_live r) = held" using registry_reach_inv [OF assms] by auto
  show ?thesis using watermark_spec [OF r(1)] size_pins [of "reg_live r"] by (auto simp: r(2) live_count_def)
qed

theorem watermark_is_oldest_witness:
  "\<exists>r. registry_reach r {#5, 5, 6#} \<and> watermark r = 5 \<and> live_count r = 3"
proof -
  define r0 where "r0 = registry_new (Some 2) 5"
  define r1 where "r1 = snd (acquire (snd (acquire r0)))"
  define r2 where "r2 = snd (acquire (publish (Some 9) 6 r1))"
  have "registry_reach r1 {#5, 5#}"
    using registry_reach.reg_acquire [OF registry_reach.reg_acquire [OF registry_reach.reg_init [of "Some 2" 5]]]
    by (simp add: r1_def r0_def acquire_def registry_new_def)
  from registry_reach.reg_acquire [OF registry_reach.reg_publish [OF this, of "Some 9" 6]]
  have reach: "registry_reach r2 {#5, 5, 6#}" by (simp add: r2_def acquire_def publish_def add_mset_commute)
  have "watermark r2 = 5" by (simp add: r2_def r1_def r0_def acquire_def publish_def registry_new_def watermark_def)
  then show ?thesis using watermark_is_oldest [OF reach] reach by auto
qed

end
