(* ===== verification/PageStore.thy ===== *)
theory PageStore
  imports Pager
begin

text \<open>
  The interface the B+tree needs of the pager: allocating a page, reading a frame, staging a data
  page. The locale \<open>page_store\<close> states what the pager promises about them in terms of the set of
  allocated pages and the payload each page holds; it is interpreted on the pager over the in-memory
  store.
\<close>

record 's page_ops =
  po_alloc :: "('s, PagerError, PageId) st"
  po_read :: "PageId \<Rightarrow> ('s, PagerError, bytes) st"
  po_write :: "PageId \<Rightarrow> bytes \<Rightarrow> ('s, PagerError, unit) st"

definition pager_ops :: "'b io_ops \<Rightarrow> 'b pager page_ops" where
  "pager_ops ops =
     \<lparr> po_alloc = alloc ops, po_read = read_page ops, po_write = (\<lambda>pid payload. write_page pid DataPage payload) \<rparr>"

text \<open>A payload as it lies in its page, followed by zeros.\<close>

definition padded :: "bytes \<Rightarrow> bytes" where
  "padded payload = payload @ replicate (PAGE_PAYLOAD_SIZE - length payload) 0"

definition payload_view :: "bytes \<Rightarrow> 'b pager \<Rightarrow> PageId \<Rightarrow> bytes option" where
  "payload_view d p pid =
     (if pid \<in> data_pages p then map_option (drop HEADER_SIZE) (page_view d (cache p) pid) else None)"

locale page_store =
  fixes pg :: "'s page_ops" and ok :: "'s \<Rightarrow> bool" and view :: "'s \<Rightarrow> PageId \<Rightarrow> bytes option"
    and live :: "'s \<Rightarrow> PageId set" and space :: "'s \<Rightarrow> nat" and ext :: "'s \<Rightarrow> 's \<Rightarrow> bool"
  assumes ext_refl: "ok s \<Longrightarrow> ext s s"
    and ext_trans: "ext s t \<Longrightarrow> ext t u \<Longrightarrow> ext s u"
    and read_law: "ok s \<Longrightarrow> view s i = Some pl \<Longrightarrow> \<exists>f s'. po_read pg i s = (Inr f, s')
      \<and> drop HEADER_SIZE f = pl \<and> ok s' \<and> view s' = view s \<and> live s' = live s \<and> space s' = space s \<and> ext s s'"
    and put_law: "ok s \<Longrightarrow> 0 < space s \<Longrightarrow> length pl \<le> PAGE_PAYLOAD_SIZE \<Longrightarrow>
      \<exists>i s1 s2. po_alloc pg s = (Inr i, s1) \<and> po_write pg i pl s1 = (Inr (), s2) \<and> ok s2
        \<and> i \<notin> live s \<and> FIRST_DATA_PAGE \<le> i \<and> live s2 = insert i (live s) \<and> view s2 i = Some (padded pl)
        \<and> (\<forall>j \<in> live s. view s2 j = view s j) \<and> space s2 = space s - 1 \<and> ext s s2"
    and put_big: "ok s \<Longrightarrow> 0 < space s \<Longrightarrow> PAGE_PAYLOAD_SIZE < length pl \<Longrightarrow>
      \<exists>i s1. po_alloc pg s = (Inr i, s1)
        \<and> po_write pg i pl s1 = (Inl (PayloadTooLarge (length pl) PAGE_PAYLOAD_SIZE), s1) \<and> ok s1
        \<and> live s \<subseteq> live s1 \<and> (\<forall>j \<in> live s. view s1 j = view s j) \<and> space s1 = space s - 1 \<and> ext s s1"
begin

text \<open>A later state of the store: what was allocated stays and reads the same, and the rest of the state
  evolved as \<open>ext\<close> allows.\<close>

definition later :: "'s \<Rightarrow> 's \<Rightarrow> bool" where
  "later s s' \<longleftrightarrow> ok s' \<and> live s \<subseteq> live s' \<and> (\<forall>j \<in> live s. view s' j = view s j) \<and> ext s s'"

lemma later_refl: "ok s \<Longrightarrow> later s s"
  by (simp add: later_def ext_refl)

lemma later_trans: "later s t \<Longrightarrow> later t u \<Longrightarrow> later s u"
  unfolding later_def by (metis subset_trans subsetD ext_trans)

lemma later_ok: "later s s' \<Longrightarrow> ok s'"
  by (simp add: later_def)

text \<open>Allocating and then writing a page.\<close>

lemma alloc_write:
  assumes "ok s" "0 < space s" "length pl \<le> PAGE_PAYLOAD_SIZE"
  shows "\<exists>i s1 s2. po_alloc pg s = (Inr i, s1) \<and> po_write pg i pl s1 = (Inr (), s2) \<and> later s s2
    \<and> i \<notin> live s \<and> FIRST_DATA_PAGE \<le> i \<and> live s2 = insert i (live s) \<and> view s2 i = Some (padded pl)
    \<and> space s2 = space s - 1"
  using put_law [OF assms] unfolding later_def by blast

lemma alloc_write_big:
  assumes "ok s" "0 < space s" "PAGE_PAYLOAD_SIZE < length pl"
  shows "\<exists>i s1. po_alloc pg s = (Inr i, s1) \<and> later s s1 \<and> space s1 = space s - 1
    \<and> po_write pg i pl s1 = (Inl (PayloadTooLarge (length pl) PAGE_PAYLOAD_SIZE), s1)"
  using put_big [OF assms] unfolding later_def by blast

end

section \<open>The pager is a page store\<close>

lemma write_page_big:
  assumes "pid \<in> data_pages p" "PAGE_PAYLOAD_SIZE < length payload"
  shows "write_page pid ty payload p = (Inl (PayloadTooLarge (length payload) PAGE_PAYLOAD_SIZE), p)"
  using assms by (simp add: write_page_def in_range_iff set_payload_def)

text \<open>How the tree operations change a pager beyond the pages: they allocate, the pages they write are newly
  allocated ones, and the allocation log records exactly these. The disk image, the committed version, the meta record but for
  the page count, the slot in use and the trunk pages stay.\<close>

definition dirty_ids :: "'b pager \<Rightarrow> PageId set" where
  "dirty_ids p = {i. \<exists>e. lookup (cache p) i = Some e \<and> dirty e}"

definition grown :: "('b \<Rightarrow> bytes) \<Rightarrow> 'b pager \<Rightarrow> 'b pager \<Rightarrow> bool" where
  "grown disk p p' \<longleftrightarrow> disk (backend p') = disk (backend p) \<and> meta p' = (meta p)\<lparr> page_count := page_count (meta p') \<rparr>
     \<and> active_slot p' = active_slot p \<and> committed_txn p' = committed_txn p \<and> trunks p' = trunks p \<and> used p \<subseteq> used p' \<and> data_pages p \<subseteq> data_pages p'
     \<and> dirty_ids p' \<subseteq> dirty_ids p \<union> (used p' - used p)
     \<and> (\<exists>new. alloc_log p' = map_option (\<lambda>log. log @ new) (alloc_log p) \<and> distinct new \<and> set new = used p' - used p)"

lemma grown_refl: "grown disk p p"
  unfolding grown_def by (auto simp: option.map_ident intro!: exI [of _ "[]"])

lemma grown_trans:
  assumes "grown disk p q" "grown disk q r"
  shows "grown disk p r"
proof -
  note 1 = assms(1) [unfolded grown_def]
  note 2 = assms(2) [unfolded grown_def]
  obtain n1 where n1: "alloc_log q = map_option (\<lambda>log. log @ n1) (alloc_log p)" "distinct n1" "set n1 = used q - used p"
    using 1 by blast
  obtain n2 where n2: "alloc_log r = map_option (\<lambda>log. log @ n2) (alloc_log q)" "distinct n2" "set n2 = used r - used q"
    using 2 by blast
  have sub: "used p \<subseteq> used q" "used q \<subseteq> used r" "data_pages p \<subseteq> data_pages q" "data_pages q \<subseteq> data_pages r"
    "dirty_ids q \<subseteq> dirty_ids p \<union> (used q - used p)" "dirty_ids r \<subseteq> dirty_ids q \<union> (used r - used q)"
    using 1 2 by blast+
  have m: "meta q = (meta p)\<lparr> page_count := page_count (meta q) \<rparr>" "meta r = (meta q)\<lparr> page_count := page_count (meta r) \<rparr>"
    using 1 2 by blast+
  have "meta r = (meta p)\<lparr> page_count := page_count (meta r) \<rparr>" by (subst m(2), subst m(1)) simp
  moreover have "alloc_log r = map_option (\<lambda>log. log @ (n1 @ n2)) (alloc_log p)"
    unfolding n2(1) n1(1) by (simp add: option.map_comp comp_def)
  moreover have "distinct (n1 @ n2)" "set (n1 @ n2) = used r - used p" using n1 n2 sub(1,2) by auto
  moreover have "used p \<subseteq> used r" "data_pages p \<subseteq> data_pages r" "dirty_ids r \<subseteq> dirty_ids p \<union> (used r - used p)"
    using sub by blast+
  moreover have "disk (backend r) = disk (backend p)" "active_slot r = active_slot p"
    "committed_txn r = committed_txn p" "trunks r = trunks p" using 1 2 by simp_all
  ultimately show ?thesis unfolding grown_def by blast
qed

lemma dirty_ids_get:
  "cache_wf (cache p) \<Longrightarrow> cache_get pid (cache p) = (g, c) \<Longrightarrow> dirty_ids (p\<lparr> cache := c, backend := b \<rparr>) = dirty_ids p"
  using cache_get_spec(4) [of pid "cache p" g c] unfolding dirty_ids_def by (force simp: map_option_case split: option.splits)

lemma dirty_ids_insert:
  assumes "cache_wf (cache p)"
  shows "dirty_ids (p\<lparr> cache := cache_insert pid f d (cache p) \<rparr>) \<subseteq> dirty_ids p \<union> (if d then {pid} else {})"
proof
  fix i assume "i \<in> dirty_ids (p\<lparr> cache := cache_insert pid f d (cache p) \<rparr>)"
  then obtain e where e: "lookup (cache_insert pid f d (cache p)) i = Some e" "dirty e" by (auto simp: dirty_ids_def)
  show "i \<in> dirty_ids p \<union> (if d then {pid} else {})"
  proof (cases "i = pid")
    case True
    then show ?thesis using cache_insert_spec(3) [OF assms, of pid f d] e by (auto simp: dirty_ids_def)
  next
    case False
    then have "lookup (cache p) i = Some e" using cache_insert_spec(2) [OF assms False, of f d] e(1) by simp
    then show ?thesis using e(2) by (auto simp: dirty_ids_def)
  qed
qed

lemma read_page_dirty:
  assumes "cache_wf (cache p)" "read_page ops pid p = (r, p')"
  shows "dirty_ids p' \<subseteq> dirty_ids p"
proof (cases "in_range p pid")
  case (Inl e)
  then show ?thesis using assms(2) by (simp add: read_page_def)
next
  case (Inr u)
  then have run: "fetch ops pid p = (r, p')" using assms(2) by (simp add: read_page_def)
  obtain g c where get: "cache_get pid (cache p) = (g, c)" by fastforce
  have wf: "cache_wf c" by (rule cache_get_spec(1) [OF get assms(1)])
  have eq: "dirty_ids (p\<lparr> cache := c, backend := b \<rparr>) = dirty_ids p" for b by (rule dirty_ids_get [OF assms(1) get])
  have eq0: "dirty_ids (p\<lparr> cache := c \<rparr>) = dirty_ids p" using eq [of "backend p"] by simp
  show ?thesis
  proof (cases g)
    case (Some f)
    then show ?thesis using run get eq0 by (simp add: fetch_def)
  next
    case None
    have ins: "dirty_ids (p\<lparr> backend := b, cache := cache_insert pid buf False c \<rparr>) \<subseteq> dirty_ids p" for buf b
      using dirty_ids_insert [of "p\<lparr> cache := c, backend := b \<rparr>" pid buf False] wf eq [of b] by (simp add: dirty_ids_def)
    obtain q b where rd: "io_read_at ops (page_offset pid) PAGE_SIZE (backend p) = (q, b)" by fastforce
    have eqb: "dirty_ids (p\<lparr> backend := b, cache := c \<rparr>) = dirty_ids p" using eq [of b] by (simp add: dirty_ids_def)
    show ?thesis using rd run get None eq [of b] eqb ins [THEN subsetD]
      by (auto simp: fetch_def on_backend_def st_zoom_def st_map_err_def st_bind_def st_lift_def st_modify_def st_return_def
          split: sum.splits)
  qed
qed

lemma grown_same_state:
  assumes "same_state p p'" "disk (backend p') = disk (backend p)" "dirty_ids p' \<subseteq> dirty_ids p"
  shows "grown disk p p'"
proof -
  note ss = same_state_fields [OF assms(1)]
  show ?thesis unfolding grown_def using ss assms(2,3) by (auto simp: option.map_ident intro!: exI [of _ "[]"])
qed

context reliable_store
begin

lemma alloc_grows:
  assumes "pager_inv (disk (backend p)) p" "0 < room p"
  shows "\<exists>i p'. alloc ops p = (Inr i, p') \<and> pager_inv (disk (backend p)) p' \<and> i \<notin> used p \<and> i \<in> data_pages p'
    \<and> used p' = insert i (used p) \<and> room p' = room p - 1 \<and> cache p' = cache p \<and> backend p' = backend p \<and> grown disk p p'
    \<and> (\<forall>j \<in> used p. payload_view (disk (backend p')) p' j = payload_view (disk (backend p)) p j)"
proof -
  from alloc_ok [OF assms, of ops] obtain i p' where a: "alloc ops p = (Inr i, p')" "pager_inv (disk (backend p)) p'"
    "i \<notin> used p" "i \<in> data_pages p'" "used p' = insert i (used p)" "room p' = room p - 1" "cache p' = cache p"
    "backend p' = backend p" "data_pages p \<subseteq> data_pages p'" "trunks p' = trunks p"
    "alloc_log p' = map_option (\<lambda>log. log @ [i]) (alloc_log p)" by blast
  have "payload_view (disk (backend p')) p' j = payload_view (disk (backend p)) p j" if "j \<in> used p" for j
    using that a(7,8,9) by (auto simp: payload_view_def used_def)
  moreover have "meta p' = (meta p)\<lparr> page_count := page_count (meta p') \<rparr> \<and> active_slot p' = active_slot p
      \<and> committed_txn p' = committed_txn p"
    using a(1) assms(1) by (auto simp: alloc_def ensure_free_loaded_def pager_inv_def Let_def split: if_splits)
  then have "grown disk p p'" unfolding grown_def dirty_ids_def using a by (auto intro!: exI [of _ "[i]"])
  ultimately show ?thesis using a by blast
qed

lemma pager_page_store:
  "page_store (pager_ops ops) (\<lambda>p. pager_inv (disk (backend p)) p) (\<lambda>p. payload_view (disk (backend p)) p)
     used room (grown disk)"
proof
  fix p :: "'a pager"
  show "grown disk p p" by (rule grown_refl)
next
  fix p q r :: "'a pager"
  assume "grown disk p q" "grown disk q r"
  then show "grown disk p r" by (rule grown_trans)
next
  fix p :: "'a pager" and i pl
  assume inv: "pager_inv (disk (backend p)) p" and v: "payload_view (disk (backend p)) p i = Some pl"
  then obtain f where f: "i \<in> data_pages p" "pview p i = Some f" "drop HEADER_SIZE f = pl"
    by (auto simp: payload_view_def split: if_splits)
  from fetch_total [OF inv f(1,2)] obtain p' where ft: "fetch ops i p = (Inr f, p')" by blast
  then have rd: "read_page ops i p = (Inr f, p')" using f(1) by (simp add: read_page_def in_range_iff)
  note p' = fetch_safe [OF inv f(1) ft]
  have ss: "same_state p p'" using p' by blast
  note sf = same_state_fields [OF ss]
  have wf: "cache_wf (cache p)" using inv by (simp add: pager_inv_def coherent_def)
  have "payload_view (disk (backend p')) p' = payload_view (disk (backend p)) p"
  proof -
    have "pview p' = pview p" using p' by blast
    then show ?thesis using sf(8) by (simp add: payload_view_def fun_eq_iff)
  qed
  moreover have "room p' = room p" using sf by (simp add: room_def)
  moreover have "grown disk p p'" using p' by (intro grown_same_state [OF ss _ read_page_dirty [OF wf rd]]) blast
  ultimately show "\<exists>f p'. po_read (pager_ops ops) i p = (Inr f, p') \<and> drop HEADER_SIZE f = pl
      \<and> pager_inv (disk (backend p')) p'
      \<and> payload_view (disk (backend p')) p' = payload_view (disk (backend p)) p
      \<and> used p' = used p \<and> room p' = room p \<and> grown disk p p'"
    using p' f(3) sf(9) rd by (auto simp: pager_ops_def)
next
  fix p :: "'a pager" and pl :: bytes
  assume inv: "pager_inv (disk (backend p)) p" and r: "0 < room p" and len: "length pl \<le> PAGE_PAYLOAD_SIZE"
  from alloc_grows [OF inv r] obtain i p1 where a: "alloc ops p = (Inr i, p1)" "pager_inv (disk (backend p)) p1"
    "i \<notin> used p" "i \<in> data_pages p1" "used p1 = insert i (used p)" "room p1 = room p - 1" "cache p1 = cache p"
    "backend p1 = backend p" "grown disk p p1"
    "\<forall>j \<in> used p. payload_view (disk (backend p1)) p1 j = payload_view (disk (backend p)) p j" by blast
  from write_page_ok [OF a(2,4) len, of DataPage] obtain f p2 where w:
    "write_page i DataPage pl p1 = (Inr (), p2)" "f = finalize DataPage i (splice HEADER_SIZE pl zeroed)"
    "p2 = p1\<lparr> cache := cache_insert i f True (cache p1) \<rparr>" "pager_inv (disk (backend p)) p2"
    "page_view (disk (backend p)) (cache p2) = (page_view (disk (backend p)) (cache p1))(i \<mapsto> f)"
    "same_state p1 p2" by blast
  note ss = same_state_fields [OF w(6)]
  have b: "backend p2 = backend p" using w(3) a(8) by simp
  have v: "payload_view (disk (backend p2)) p2 = (payload_view (disk (backend p1)) p1)(i \<mapsto> padded pl)"
    using w(5) ss(8) a(4,8) b payload_of_written [OF len, of DataPage i] by (auto simp: payload_view_def fun_eq_iff w(2) padded_def)
  have "cache_wf (cache p1)" using a(2) by (simp add: pager_inv_def coherent_def)
  then have "dirty_ids p2 \<subseteq> dirty_ids p1 \<union> {i}" using dirty_ids_insert [of p1 i f True] w(3) by simp
  then have "grown disk p p2" using a(3,5,8,9) b ss unfolding grown_def by auto
  then show "\<exists>i s1 s2. po_alloc (pager_ops ops) p = (Inr i, s1) \<and> po_write (pager_ops ops) i pl s1 = (Inr (), s2)
      \<and> pager_inv (disk (backend s2)) s2 \<and> i \<notin> used p \<and> FIRST_DATA_PAGE \<le> i \<and> used s2 = insert i (used p)
      \<and> payload_view (disk (backend s2)) s2 i = Some (padded pl)
      \<and> (\<forall>j \<in> used p. payload_view (disk (backend s2)) s2 j = payload_view (disk (backend p)) p j)
      \<and> room s2 = room p - 1 \<and> grown disk p s2"
    using a w(1,4) b ss v by (auto simp: pager_ops_def room_def data_pages_def)
next
  fix p :: "'a pager" and pl :: bytes
  assume inv: "pager_inv (disk (backend p)) p" and r: "0 < room p" and big: "PAGE_PAYLOAD_SIZE < length pl"
  from alloc_grows [OF inv r] obtain i p1 where a: "alloc ops p = (Inr i, p1)" "pager_inv (disk (backend p)) p1"
    "i \<in> data_pages p1" "used p1 = insert i (used p)" "room p1 = room p - 1" "backend p1 = backend p" "grown disk p p1"
    "\<forall>j \<in> used p. payload_view (disk (backend p1)) p1 j = payload_view (disk (backend p)) p j" by blast
  then show "\<exists>i s1. po_alloc (pager_ops ops) p = (Inr i, s1)
      \<and> po_write (pager_ops ops) i pl s1 = (Inl (PayloadTooLarge (length pl) PAGE_PAYLOAD_SIZE), s1)
      \<and> pager_inv (disk (backend s1)) s1 \<and> used p \<subseteq> used s1
      \<and> (\<forall>j \<in> used p. payload_view (disk (backend s1)) s1 j = payload_view (disk (backend p)) p j)
      \<and> room s1 = room p - 1 \<and> grown disk p s1"
    using write_page_big [OF a(3) big] by (auto simp: pager_ops_def)
qed

end

interpretation mem_pages: page_store "pager_ops mem_ops" "\<lambda>p. pager_inv (backend p) p"
  "\<lambda>p. payload_view (backend p) p" used room "grown (\<lambda>b. b)"
  by (rule mem.pager_page_store)

end
