(* ===== verification/BTree.thy ===== *)
theory BTree
  imports PageStore Node
begin

text \<open>
  The copy-on-write B+tree (\<open>crates/btree/src/tree.rs\<close>) over the page operations of the pager.
  Recursion follows child pointers read from pages, which on a corrupt file may form a cycle; every
  recursive operation therefore takes a depth budget, and running out of it is the error value
  \<open>None\<close>, distinct from every error \<open>Some e\<close> of the code. A budget of one more than the height of the
  tree is enough.
\<close>

section \<open>Results\<close>

type_synonym ('s, 'a) tm = "('s, BTreeError option, 'a) st"

record Edit =
  new_root :: PageId
  freed :: "PageId list"

record TreeStats =
  height :: nat
  entry_count :: nat
  node_count :: nat

datatype Ins = Updated PageId | Split PageId bytes PageId

datatype Del = Unchanged | Done PageId bool

section \<open>Node access\<close>

definition on_pager :: "('s, PagerError, 'a) st \<Rightarrow> ('s, 'a) tm" where
  "on_pager m = st_map_err (\<lambda>e. Some (BTreePager e)) m"

definition read_node :: "'s page_ops \<Rightarrow> PageId \<Rightarrow> ('s, Node) tm" where
  "read_node pg pid =
     st_bind (on_pager (po_read pg pid)) (\<lambda>f.
     st_lift (map_err Some (node_decode (drop HEADER_SIZE f) pid)))"

definition write_node :: "'s page_ops \<Rightarrow> Node \<Rightarrow> ('s, PageId) tm" where
  "write_node pg n =
     st_bind (on_pager (po_alloc pg)) (\<lambda>pid.
     st_bind (on_pager (po_write pg pid (node_encode n))) (\<lambda>_. st_return pid))"

definition write_balanced :: "'s page_ops \<Rightarrow> Node \<Rightarrow> ('s, Ins) tm" where
  "write_balanced pg n =
     (if is_overfull n then
        (case split_node n of (l, sep, r) \<Rightarrow>
           st_bind (write_node pg l) (\<lambda>lid.
           st_bind (write_node pg r) (\<lambda>rid. st_return (Split lid sep rid))))
      else st_bind (write_node pg n) (\<lambda>pid. st_return (Updated pid)))"

section \<open>Operations\<close>

definition create :: "'s page_ops \<Rightarrow> ('s, PageId) tm" where
  "create pg = write_node pg empty_leaf"

fun tree_lookup :: "'s page_ops \<Rightarrow> nat \<Rightarrow> PageId \<Rightarrow> bytes \<Rightarrow> ('s, bytes option) tm" where
  "tree_lookup pg 0 pid key = st_throw None"
| "tree_lookup pg (Suc n) pid key =
     st_bind (read_node pg pid) (\<lambda>node.
       case route node key of
         Some child \<Rightarrow> tree_lookup pg n child key
       | None \<Rightarrow> st_return (leaf_get node key))"

definition check_entry :: "bytes \<Rightarrow> bytes \<Rightarrow> BTreeError + unit" where
  "check_entry key v =
     (let need = max (4 + length key + length v) (10 + length key)
      in if need > MAX_CELL then Inl (EntryTooLarge need MAX_CELL) else Inr ())"

definition leaf_put :: "bytes list \<Rightarrow> bytes list \<Rightarrow> bytes \<Rightarrow> bytes \<Rightarrow> bytes list \<times> bytes list" where
  "leaf_put ks vs key v =
     (case binary_search ks key of
        Inr i \<Rightarrow> (ks, vs[i := v])
      | Inl i \<Rightarrow> (list_insert i key ks, list_insert i v vs))"

definition child_put :: "bytes list \<Rightarrow> PageId list \<Rightarrow> nat \<Rightarrow> Ins \<Rightarrow> bytes list \<times> PageId list" where
  "child_put ks cs ci res =
     (case res of
        Updated c \<Rightarrow> (ks, cs[ci := c])
      | Split l sep r \<Rightarrow> (list_insert ci sep ks, list_insert (ci + 1) r (cs[ci := l])))"

fun insert_rec :: "'s page_ops \<Rightarrow> nat \<Rightarrow> PageId \<Rightarrow> bytes \<Rightarrow> bytes \<Rightarrow> PageId list \<Rightarrow>
    ('s, Ins \<times> PageId list) tm" where
  "insert_rec pg 0 nid key v fr = st_throw None"
| "insert_rec pg (Suc n) nid key v fr =
     st_bind (read_node pg nid) (\<lambda>node.
       case node of
         Leaf ks vs \<Rightarrow>
           (let (ks', vs') = leaf_put ks vs key v
            in st_bind (write_balanced pg (Leaf ks' vs')) (\<lambda>r. st_return (r, fr @ [nid])))
       | Internal ks cs \<Rightarrow>
           (let ci = route_index ks key
            in st_bind (insert_rec pg n (cs ! ci) key v (fr @ [nid])) (\<lambda>(res, fr').
               let (ks', cs') = child_put ks cs ci res
               in st_bind (write_balanced pg (Internal ks' cs')) (\<lambda>r. st_return (r, fr')))))"

definition tree_insert :: "'s page_ops \<Rightarrow> nat \<Rightarrow> PageId \<Rightarrow> bytes \<Rightarrow> bytes \<Rightarrow> ('s, Edit) tm" where
  "tree_insert pg n root key v =
     st_bind (st_lift (map_err Some (check_entry key v))) (\<lambda>_.
     st_bind (insert_rec pg n root key v []) (\<lambda>(res, fr).
       case res of
         Updated pid \<Rightarrow> st_return \<lparr> new_root = pid, freed = fr \<rparr>
       | Split l sep r \<Rightarrow>
           st_bind (write_node pg (Internal [sep] [l, r])) (\<lambda>pid.
           st_return \<lparr> new_root = pid, freed = fr \<rparr>)))"

text \<open>Merging an underfull child with an adjacent sibling, or redistributing the two.\<close>

definition rebalance :: "'s page_ops \<Rightarrow> bytes list \<Rightarrow> PageId list \<Rightarrow> nat \<Rightarrow> PageId list \<Rightarrow>
    ('s, bytes list \<times> PageId list \<times> PageId list) tm" where
  "rebalance pg ks cs ci fr =
     (let (l_idx, r_idx, sep_idx) = (if ci > 0 then (ci - 1, ci, ci - 1) else (ci, ci + 1, ci))
      in st_bind (read_node pg (cs ! l_idx)) (\<lambda>l.
         st_bind (read_node pg (cs ! r_idx)) (\<lambda>r.
         let merged = merge l (ks ! sep_idx) r;
             fr' = fr @ [cs ! l_idx, cs ! r_idx]
         in if is_overfull merged then
              (case split_node merged of (l2, new_sep, r2) \<Rightarrow>
                 st_bind (write_node pg l2) (\<lambda>lid.
                 st_bind (write_node pg r2) (\<lambda>rid.
                 st_return (ks[sep_idx := new_sep], cs[l_idx := lid, r_idx := rid], fr'))))
            else
              st_bind (write_node pg merged) (\<lambda>pid.
              st_return (list_remove sep_idx ks, list_remove r_idx (cs[l_idx := pid]), fr')))))"

fun delete_rec :: "'s page_ops \<Rightarrow> nat \<Rightarrow> PageId \<Rightarrow> bytes \<Rightarrow> PageId list \<Rightarrow>
    ('s, Del \<times> PageId list) tm" where
  "delete_rec pg 0 nid key fr = st_throw None"
| "delete_rec pg (Suc n) nid key fr =
     st_bind (read_node pg nid) (\<lambda>node.
       case node of
         Leaf ks vs \<Rightarrow>
           (case binary_search ks key of
              Inl _ \<Rightarrow> st_return (Unchanged, fr)
            | Inr i \<Rightarrow>
                (let leaf = Leaf (list_remove i ks) (list_remove i vs)
                 in st_bind (write_node pg leaf) (\<lambda>pid.
                    st_return (Done pid (is_underfull leaf), fr @ [nid]))))
       | Internal ks cs \<Rightarrow>
           (let ci = route_index ks key
            in st_bind (delete_rec pg n (cs ! ci) key fr) (\<lambda>(res, fr1).
               case res of
                 Unchanged \<Rightarrow> st_return (Unchanged, fr1)
               | Done pid child_underfull \<Rightarrow>
                   st_bind (if child_underfull then rebalance pg ks (cs[ci := pid]) ci (fr1 @ [nid])
                            else st_return (ks, cs[ci := pid], fr1 @ [nid])) (\<lambda>(ks', cs', fr2).
                   let inner_node = Internal ks' cs'
                   in st_bind (write_node pg inner_node) (\<lambda>pid'.
                      st_return (Done pid' (is_underfull inner_node), fr2))))))"

definition tree_delete :: "'s page_ops \<Rightarrow> nat \<Rightarrow> PageId \<Rightarrow> bytes \<Rightarrow> ('s, Edit) tm" where
  "tree_delete pg n root key =
     st_bind (delete_rec pg n root key []) (\<lambda>(res, fr).
       case res of
         Unchanged \<Rightarrow> st_return \<lparr> new_root = root, freed = [] \<rparr>
       | Done pid _ \<Rightarrow>
           st_bind (read_node pg pid) (\<lambda>node.
             case node of
               Internal ks cs \<Rightarrow>
                 if length cs = 1 then st_return \<lparr> new_root = cs ! 0, freed = fr @ [pid] \<rparr>
                 else st_return \<lparr> new_root = pid, freed = fr \<rparr>
             | Leaf _ _ \<Rightarrow> st_return \<lparr> new_root = pid, freed = fr \<rparr>))"

text \<open>Collecting the pages of a tree: the worklist loop, one node per step.\<close>

fun tree_pages_loop :: "'s page_ops \<Rightarrow> nat \<Rightarrow> PageId list \<Rightarrow> PageId list \<Rightarrow> ('s, PageId list) tm" where
  "tree_pages_loop pg n stack acc =
     (if stack = [] then st_return acc
      else case n of
        0 \<Rightarrow> st_throw None
      | Suc k \<Rightarrow>
          (let pid = last stack
           in st_bind (read_node pg pid) (\<lambda>node.
                tree_pages_loop pg k
                  (butlast stack @ (case node of Internal ks cs \<Rightarrow> cs | Leaf _ _ \<Rightarrow> []))
                  (acc @ [pid]))))"

declare tree_pages_loop.simps [simp del]

definition tree_pages :: "'s page_ops \<Rightarrow> nat \<Rightarrow> PageId \<Rightarrow> ('s, PageId list) tm" where
  "tree_pages pg n root = tree_pages_loop pg n [root] []"

section \<open>Validation\<close>

definition in_bounds :: "bytes option \<Rightarrow> bytes option \<Rightarrow> bytes \<Rightarrow> bool" where
  "in_bounds lower upper k \<longleftrightarrow>
     (case lower of None \<Rightarrow> True | Some lo \<Rightarrow> lo \<le> k) \<and> (case upper of None \<Rightarrow> True | Some hi \<Rightarrow> k < hi)"

fun validate_rec :: "'s page_ops \<Rightarrow> nat \<Rightarrow> PageId \<Rightarrow> bytes option \<Rightarrow> bytes option \<Rightarrow> bool \<Rightarrow> nat \<Rightarrow>
    ('s, (nat \<times> nat) \<times> nat) tm"
  and validate_children :: "'s page_ops \<Rightarrow> nat \<Rightarrow> bytes option \<Rightarrow> bytes option \<Rightarrow> bytes list \<Rightarrow> PageId list \<Rightarrow>
    nat option \<Rightarrow> nat \<Rightarrow> nat \<Rightarrow> ('s, (nat option \<times> nat) \<times> nat) tm" where
  "validate_rec pg 0 pid lower upper is_root nodes = st_throw None"
| "validate_rec pg (Suc n) pid lower upper is_root nodes =
     st_bind (read_node pg pid) (\<lambda>node.
       case node of
         Leaf ks vs \<Rightarrow>
           if \<not> is_root \<and> ks = [] then st_throw (Some (BTreeCorrupt (Underfull pid)))
           else if length ks \<noteq> length vs then st_throw (Some (BTreeCorrupt (KeysNotSorted pid)))
           else if \<not> list_all (in_bounds lower upper) ks
           then st_throw (Some (BTreeCorrupt (SeparatorMismatch pid)))
           else st_return ((1, length ks), nodes + 1)
       | Internal ks cs \<Rightarrow>
           if length cs < 2 \<or> length cs \<noteq> length ks + 1
           then st_throw (Some (BTreeCorrupt (EmptyInternal pid)))
           else if \<not> list_all (in_bounds lower upper) ks
           then st_throw (Some (BTreeCorrupt (SeparatorMismatch pid)))
           else st_bind (validate_children pg n lower upper ks cs None 0 (nodes + 1)) (\<lambda>((d, es), nodes').
                st_return (((case d of None \<Rightarrow> 0 | Some x \<Rightarrow> x) + 1, es), nodes')))"
| "validate_children pg n lower upper ks [] depth es nodes = st_return ((depth, es), nodes)"
| "validate_children pg n lower upper ks (c # cs) depth es nodes =
     st_bind (validate_rec pg n c lower (case ks of [] \<Rightarrow> upper | k # _ \<Rightarrow> Some k) False nodes) (\<lambda>((d, e), nodes').
       if depth \<noteq> None \<and> depth \<noteq> Some d then st_throw (Some (BTreeCorrupt UnevenLeafDepth))
       else validate_children pg n (case ks of [] \<Rightarrow> lower | k # _ \<Rightarrow> Some k) upper (tl ks) cs
              (Some d) (es + e) nodes')"

definition validate_tree :: "'s page_ops \<Rightarrow> nat \<Rightarrow> PageId \<Rightarrow> ('s, TreeStats) tm" where
  "validate_tree pg n root =
     st_bind (validate_rec pg n root None None True 0) (\<lambda>((depth, es), nodes).
     st_return \<lparr> height = depth, entry_count = es, node_count = nodes \<rparr>)"

end
