(* ===== verification/BTreeInv.thy ===== *)
theory BTreeInv
  imports BTree
begin

text \<open>
  The abstraction of the B+tree: which pages form a tree of a given height, which key/value list it
  holds and which pages it occupies, with the ordering and size invariants; search is correct with
  respect to it. All of it is stated over a partial map from page ids to nodes, so it is independent
  of the store.
\<close>

section \<open>Trees over a map of nodes\<close>

definition within :: "bytes option \<Rightarrow> bytes option \<Rightarrow> bytes \<Rightarrow> bool" where
  "within lo hi k \<longleftrightarrow> (\<forall>l. lo = Some l \<longrightarrow> l \<le> k) \<and> (\<forall>u. hi = Some u \<longrightarrow> k < u)"

type_synonym subtree = "bytes option \<Rightarrow> bytes option \<Rightarrow> PageId \<Rightarrow> (bytes \<times> bytes) list \<Rightarrow> PageId list \<Rightarrow> bool"

text \<open>Adjacent children separated by keys, with the entries and pages they hold in order.\<close>

fun kids :: "subtree \<Rightarrow> bytes option \<Rightarrow> bytes option \<Rightarrow> bytes list \<Rightarrow> PageId list \<Rightarrow>
    (bytes \<times> bytes) list \<Rightarrow> PageId list \<Rightarrow> bool" where
  "kids P lo hi [] [c] kvs ps = P lo hi c kvs ps"
| "kids P lo hi (k # ks) (c # cs) kvs ps =
     (\<exists>a b p q. kvs = a @ b \<and> ps = p @ q \<and> P lo (Some k) c a p \<and> kids P (Some k) hi ks cs b q)"
| "kids P lo hi ks cs kvs ps = False"

text \<open>A node has at least one key, except for the leaf that is the whole tree: it is the only node
  without a bound on either side.\<close>

primrec tree :: "nat \<Rightarrow> (PageId \<rightharpoonup> Node) \<Rightarrow> subtree" where
  "tree 0 m lo hi i kvs ps =
     (\<exists>ks vs. m i = Some (Leaf ks vs) \<and> cells_ok (Leaf ks vs) \<and> node_wf (Leaf ks vs)
        \<and> encoded_len (Leaf ks vs) \<le> CAP \<and> (\<forall>k \<in> set ks. within lo hi k) \<and> (ks = [] \<longrightarrow> lo = None \<and> hi = None)
        \<and> kvs = zip ks vs \<and> ps = [i])"
| "tree (Suc h) m lo hi i kvs ps =
     (\<exists>ks cs qs. m i = Some (Internal ks cs) \<and> cells_ok (Internal ks cs) \<and> node_wf (Internal ks cs)
        \<and> encoded_len (Internal ks cs) \<le> CAP \<and> ks \<noteq> [] \<and> (\<forall>k \<in> set ks. within lo hi k)
        \<and> kids (tree h m) lo hi ks cs kvs qs \<and> ps = i # qs)"

section \<open>Children\<close>

lemma kids_mono:
  "kids P lo hi ks cs kvs ps \<Longrightarrow> (\<And>lo hi c a p. P lo hi c a p \<Longrightarrow> Q lo hi c a p) \<Longrightarrow>
     kids Q lo hi ks cs kvs ps"
proof (induction P lo hi ks cs kvs ps rule: kids.induct)
  case (2 P lo hi k ks c cs kvs ps)
  from "2.prems"(1) obtain a b p q where s: "kvs = a @ b" "ps = p @ q" "P lo (Some k) c a p"
    "kids P (Some k) hi ks cs b q" by auto
  have "Q lo (Some k) c a p" "kids Q (Some k) hi ks cs b q" using s(3,4) "2.prems"(2) "2.IH" by blast+
  then show ?case using s(1,2) by auto
qed auto

lemma kids_length: "kids P lo hi ks cs kvs ps \<Longrightarrow> length cs = length ks + 1"
  by (induction P lo hi ks cs kvs ps rule: kids.induct) auto

lemma kids_append:
  assumes "length cs = length ks + 1"
  shows "kids P lo hi (ks @ k # ks') (cs @ cs') kvs ps \<longleftrightarrow>
    (\<exists>a b p q. kvs = a @ b \<and> ps = p @ q \<and> kids P lo (Some k) ks cs a p \<and> kids P (Some k) hi ks' cs' b q)"
  using assms
proof (induction ks arbitrary: cs lo kvs ps)
  case Nil
  then obtain c where "cs = [c]" by (auto simp: length_Suc_conv)
  then show ?case by simp
next
  case (Cons x ks)
  then obtain c ds where cs: "cs = c # ds" "length ds = length ks + 1" by (auto simp: length_Suc_conv)
  note IH = Cons.IH [OF cs(2)]
  show ?case
  proof
    assume "kids P lo hi ((x # ks) @ k # ks') (cs @ cs') kvs ps"
    then obtain a0 b0 p0 q0 a b p q where *: "kvs = a0 @ b0" "ps = p0 @ q0" "P lo (Some x) c a0 p0"
      "b0 = a @ b" "q0 = p @ q" "kids P (Some x) (Some k) ks ds a p" "kids P (Some k) hi ks' cs' b q"
      using IH by (auto simp: cs(1))
    then have "kids P lo (Some k) (x # ks) cs (a0 @ a) (p0 @ p)" by (auto simp: cs(1))
    then show "\<exists>a b p q. kvs = a @ b \<and> ps = p @ q \<and> kids P lo (Some k) (x # ks) cs a p \<and> kids P (Some k) hi ks' cs' b q"
      using * by (metis append.assoc)
  next
    assume "\<exists>a b p q. kvs = a @ b \<and> ps = p @ q \<and> kids P lo (Some k) (x # ks) cs a p \<and> kids P (Some k) hi ks' cs' b q"
    then obtain a0 a b p0 p q where *: "kvs = (a0 @ a) @ b" "ps = (p0 @ p) @ q" "P lo (Some x) c a0 p0"
      "kids P (Some x) (Some k) ks ds a p" "kids P (Some k) hi ks' cs' b q"
      by (auto simp: cs(1))
    then have "kids P (Some x) hi (ks @ k # ks') (ds @ cs') (a @ b) (p @ q)" using IH by blast
    then show "kids P lo hi ((x # ks) @ k # ks') (cs @ cs') kvs ps" using * by (auto simp: cs(1))
  qed
qed

text \<open>Focusing on a group of adjacent children and replacing it by another group over the same
  bounds.\<close>

definition lo_of :: "bytes option \<Rightarrow> bytes list \<Rightarrow> bytes option" where
  "lo_of lo ks = (if ks = [] then lo else Some (last ks))"

definition hi_of :: "bytes option \<Rightarrow> bytes list \<Rightarrow> bytes option" where
  "hi_of hi ks = (if ks = [] then hi else Some (hd ks))"

definition side_l :: "subtree \<Rightarrow> bytes option \<Rightarrow> bytes list \<Rightarrow> PageId list \<Rightarrow> (bytes \<times> bytes) list \<Rightarrow> PageId list \<Rightarrow> bool" where
  "side_l P lo ks cs kvs ps \<longleftrightarrow>
     (if ks = [] then cs = [] \<and> kvs = [] \<and> ps = [] else kids P lo (Some (last ks)) (butlast ks) cs kvs ps)"

definition side_r :: "subtree \<Rightarrow> bytes option \<Rightarrow> bytes list \<Rightarrow> PageId list \<Rightarrow> (bytes \<times> bytes) list \<Rightarrow> PageId list \<Rightarrow> bool" where
  "side_r P hi ks cs kvs ps \<longleftrightarrow>
     (if ks = [] then cs = [] \<and> kvs = [] \<and> ps = [] else kids P (Some (hd ks)) hi (tl ks) cs kvs ps)"

lemma kids_right:
  assumes "length cm = length km + 1" "length c2 = length k2"
  shows "kids P lo hi (km @ k2) (cm @ c2) kvs ps \<longleftrightarrow>
    (\<exists>x b q r. kvs = x @ b \<and> ps = q @ r \<and> kids P lo (hi_of hi k2) km cm x q \<and> side_r P hi k2 c2 b r)"
proof (cases k2)
  case Nil
  then show ?thesis using assms(2) by (simp add: hi_of_def side_r_def)
next
  case (Cons k ks)
  then show ?thesis using kids_append [OF assms(1), of P lo hi k ks c2 kvs ps] by (simp add: hi_of_def side_r_def)
qed

lemma kids_focus:
  assumes "length c1 = length k1" "length cm = length km + 1" "length c2 = length k2"
  shows "kids P lo hi (k1 @ km @ k2) (c1 @ cm @ c2) kvs ps \<longleftrightarrow>
    (\<exists>a x b p q r. kvs = a @ x @ b \<and> ps = p @ q @ r \<and> side_l P lo k1 c1 a p
       \<and> kids P (lo_of lo k1) (hi_of hi k2) km cm x q \<and> side_r P hi k2 c2 b r)"
proof (cases k1 rule: rev_exhaust)
  case Nil
  then show ?thesis using assms kids_right [OF assms(2,3), of P lo hi kvs ps]
    by (simp add: side_l_def lo_of_def) fastforce
next
  case (snoc ks k)
  have len: "length c1 = length ks + 1" using assms(1) snoc by simp
  have "kids P lo hi (k1 @ km @ k2) (c1 @ cm @ c2) kvs ps \<longleftrightarrow>
      kids P lo hi (ks @ k # (km @ k2)) (c1 @ (cm @ c2)) kvs ps"
    by (simp add: snoc)
  also have "\<dots> \<longleftrightarrow> (\<exists>a y p z. kvs = a @ y \<and> ps = p @ z \<and> kids P lo (Some k) ks c1 a p
      \<and> (\<exists>x b q r. y = x @ b \<and> z = q @ r \<and> kids P (Some k) (hi_of hi k2) km cm x q \<and> side_r P hi k2 c2 b r))"
    unfolding kids_append [OF len] kids_right [OF assms(2,3)] ..
  also have "\<dots> \<longleftrightarrow> (\<exists>a x b p q r. kvs = a @ x @ b \<and> ps = p @ q @ r \<and> side_l P lo k1 c1 a p
       \<and> kids P (lo_of lo k1) (hi_of hi k2) km cm x q \<and> side_r P hi k2 c2 b r)"
    by (simp add: side_l_def lo_of_def snoc) blast
  finally show ?thesis .
qed

lemma side_mono:
  "side_l P lo ks cs kvs ps \<Longrightarrow> (\<And>lo hi c a p. P lo hi c a p \<Longrightarrow> Q lo hi c a p) \<Longrightarrow> side_l Q lo ks cs kvs ps"
  "side_r P hi ks cs kvs ps \<Longrightarrow> (\<And>lo hi c a p. P lo hi c a p \<Longrightarrow> Q lo hi c a p) \<Longrightarrow> side_r Q hi ks cs kvs ps"
  by (auto simp: side_l_def side_r_def intro: kids_mono split: if_splits)

lemma kids_pages_subset:
  "kids P lo hi ks cs kvs ps \<Longrightarrow> (\<And>lo hi c a p. P lo hi c a p \<Longrightarrow> set p \<subseteq> S) \<Longrightarrow> set ps \<subseteq> S"
proof (induction P lo hi ks cs kvs ps rule: kids.induct)
  case (2 P lo hi k ks c cs kvs ps)
  from "2.prems"(1) obtain a b p q where s: "kvs = a @ b" "ps = p @ q" "P lo (Some k) c a p"
    "kids P (Some k) hi ks cs b q" by auto
  have "set p \<subseteq> S" "set q \<subseteq> S" using s(3,4) "2.prems"(2) "2.IH" by blast+
  then show ?case using s(2) by simp
qed auto

section \<open>Bounds and order\<close>

lemma within_weaken_hi: "within lo (Some k) x \<Longrightarrow> within lo' hi k \<Longrightarrow> within lo hi x"
  by (auto simp: within_def dest: less_trans)

lemma within_weaken_lo: "within (Some k) hi x \<Longrightarrow> within lo hi' k \<Longrightarrow> within lo hi x"
  by (auto simp: within_def dest: order_trans)

lemma kids_bounds:
  assumes "kids P lo hi ks cs kvs ps" "\<forall>k \<in> set ks. within lo hi k" "sorted_wrt (<) ks"
    and "\<And>lo hi c a p. P lo hi c a p \<Longrightarrow> sorted_wrt (<) (map fst a) \<and> (\<forall>k \<in> fst ` set a. within lo hi k)"
  shows "sorted_wrt (<) (map fst kvs) \<and> (\<forall>k \<in> fst ` set kvs. within lo hi k)"
  using assms
proof (induction P lo hi ks cs kvs ps rule: kids.induct)
  case (2 P lo hi k ks c cs kvs ps)
  from "2.prems"(1) obtain a b p q where s: "kvs = a @ b" "P lo (Some k) c a p"
    "kids P (Some k) hi ks cs b q" by auto
  have a: "sorted_wrt (<) (map fst a)" "\<forall>x \<in> fst ` set a. within lo (Some k) x" using "2.prems"(4) [OF s(2)] by auto
  have "\<forall>x \<in> set ks. within (Some k) hi x" using "2.prems"(2,3) by (auto simp: within_def)
  then have b: "sorted_wrt (<) (map fst b)" "\<forall>x \<in> fst ` set b. within (Some k) hi x"
    using "2.IH" [OF s(3)] "2.prems"(3,4) by auto
  have "x < y" if "x \<in> fst ` set a" "y \<in> fst ` set b" for x y
  proof -
    have "x < k" "k \<le> y" using a(2) b(2) that unfolding within_def by blast+
    then show ?thesis by (rule less_le_trans)
  qed
  then have "sorted_wrt (<) (map fst kvs)" using a(1) b(1) by (auto simp: s(1) sorted_wrt_append)
  moreover have "\<forall>x \<in> fst ` set kvs. within lo hi x"
    using a(2) b(2) "2.prems"(2) within_weaken_hi within_weaken_lo unfolding s(1) set_append image_Un
    by (metis Un_iff list.set_intros(1))
  ultimately show ?case by blast
qed auto

lemma tree_bounds:
  "tree h m lo hi i kvs ps \<Longrightarrow> sorted_wrt (<) (map fst kvs) \<and> (\<forall>k \<in> fst ` set kvs. within lo hi k)"
proof (induction h arbitrary: lo hi i kvs ps)
  case 0
  then obtain ks vs where "kvs = zip ks vs" "length vs = length ks" "sorted_wrt (<) ks" "\<forall>k \<in> set ks. within lo hi k"
    by auto
  then show ?case by (auto dest: set_zip_leftD)
next
  case (Suc h)
  then obtain ks cs qs where "kids (tree h m) lo hi ks cs kvs qs" "\<forall>k \<in> set ks. within lo hi k" "sorted_wrt (<) ks"
    by auto
  then show ?case by (rule kids_bounds) (rule Suc.IH)
qed

lemma kids_tree_bounds:
  assumes "kids (tree h m) lo hi ks cs kvs ps" "\<forall>k \<in> set ks. within lo hi k" "sorted_wrt (<) ks"
  shows "sorted_wrt (<) (map fst kvs)" "\<forall>k \<in> fst ` set kvs. within lo hi k"
proof -
  have "sorted_wrt (<) (map fst kvs) \<and> (\<forall>k \<in> fst ` set kvs. within lo hi k)"
    by (rule kids_bounds [OF assms]) (rule tree_bounds)
  then show "sorted_wrt (<) (map fst kvs)" "\<forall>k \<in> fst ` set kvs. within lo hi k" by auto
qed

lemma tree_mono: "tree h m lo hi i kvs ps \<Longrightarrow> m \<subseteq>\<^sub>m m' \<Longrightarrow> tree h m' lo hi i kvs ps"
proof (induction h arbitrary: lo hi i kvs ps)
  case 0
  then show ?case by (auto simp: map_le_def dom_def)
next
  case (Suc h)
  from Suc.prems(1) obtain ks cs qs where t: "m i = Some (Internal ks cs)" "cells_ok (Internal ks cs)"
    "node_wf (Internal ks cs)" "encoded_len (Internal ks cs) \<le> CAP" "ks \<noteq> []" "\<forall>k \<in> set ks. within lo hi k"
    "kids (tree h m) lo hi ks cs kvs qs" "ps = i # qs" by auto
  have "kids (tree h m') lo hi ks cs kvs qs" by (rule kids_mono [OF t(7)]) (rule Suc.IH [OF _ Suc.prems(2)])
  moreover have "m' i = Some (Internal ks cs)" using t(1) Suc.prems(2) by (auto simp: map_le_def dom_def)
  ultimately show ?case using t by auto
qed

lemma tree_pages_dom: "tree h m lo hi i kvs ps \<Longrightarrow> set ps \<subseteq> dom m"
proof (induction h arbitrary: lo hi i kvs ps)
  case (Suc h)
  then obtain ks cs qs where t: "m i = Some (Internal ks cs)" "kids (tree h m) lo hi ks cs kvs qs" "ps = i # qs" by auto
  moreover have "set qs \<subseteq> dom m" by (rule kids_pages_subset [OF t(2) Suc.IH])
  ultimately show ?case by auto
qed auto

section \<open>Routing\<close>

lemma route_split:
  fixes key :: bytes
  assumes "length cs = length ks + 1"
  defines "ci \<equiv> route_index ks key"
  shows "ci \<le> length ks" "ks = take ci ks @ drop ci ks" "cs = take ci cs @ (cs ! ci) # drop (Suc ci) cs"
    "length (take ci cs) = length (take ci ks)" "length (drop (Suc ci) cs) = length (drop ci ks)"
    "\<forall>k \<in> set (take ci ks). k \<le> key" "drop ci ks \<noteq> [] \<Longrightarrow> key < hd (drop ci ks)"
proof -
  have ci: "ci = length (takeWhile (\<lambda>k. k \<le> key) ks)" by (simp add: ci_def route_index_def partition_point_def)
  show le: "ci \<le> length ks" by (simp add: ci length_takeWhile_le)
  have tw: "take ci ks = takeWhile (\<lambda>k. k \<le> key) ks" "drop ci ks = dropWhile (\<lambda>k. k \<le> key) ks"
    by (simp_all add: ci takeWhile_eq_take [symmetric] dropWhile_eq_drop [symmetric])
  show "\<forall>k \<in> set (take ci ks). k \<le> key" unfolding tw by (auto dest: set_takeWhileD)
  show "drop ci ks \<noteq> [] \<Longrightarrow> key < hd (drop ci ks)" unfolding tw using hd_dropWhile [of "\<lambda>k. k \<le> key" ks] by auto
  show "cs = take ci cs @ (cs ! ci) # drop (Suc ci) cs" using le assms(1) by (intro id_take_nth_drop) simp
  show "length (take ci cs) = length (take ci ks)" "length (drop (Suc ci) cs) = length (drop ci ks)"
    using le assms(1) by auto
qed simp

lemma route_bounds:
  assumes "length cs = length ks + 1" "within lo hi key" "sorted_wrt (<) ks"
  defines "ci \<equiv> route_index ks key"
  shows "within (lo_of lo (take ci ks)) (hi_of hi (drop ci ks)) key"
proof -
  note r = route_split [OF assms(1), of key, folded ci_def]
  have "last (take ci ks) \<le> key" if "take ci ks \<noteq> []" using r(6) that last_in_set by blast
  moreover have "key < hd (drop ci ks)" if "drop ci ks \<noteq> []" using r(7) that by blast
  ultimately show ?thesis using assms(2) by (auto simp: within_def lo_of_def hi_of_def)
qed

text \<open>The children left and right of the routed one hold smaller and larger keys.\<close>

lemma side_keys:
  assumes "side_l (tree h m) lo k1 c1 a p" "sorted_wrt (<) k1" "\<forall>k \<in> set k1. within lo hi k \<and> k \<le> key"
  shows "\<forall>x \<in> fst ` set a. x < key"
proof (cases "k1 = []")
  case False
  then have kd: "kids (tree h m) lo (Some (last k1)) (butlast k1) c1 a p" using assms(1) by (simp add: side_l_def)
  have app: "butlast k1 @ [last k1] = k1" using False by simp
  have "sorted_wrt (<) (butlast k1 @ [last k1])" using assms(2) app by simp
  then have s: "sorted_wrt (<) (butlast k1)" "\<forall>k \<in> set (butlast k1). within lo (Some (last k1)) k"
    using assms(3) by (auto simp: sorted_wrt_append within_def dest: in_set_butlastD)
  from kids_tree_bounds(2) [OF kd s(2,1)] have "\<forall>x \<in> fst ` set a. within lo (Some (last k1)) x" .
  moreover have "last k1 \<le> key" using assms(3) False by simp
  ultimately show ?thesis by (auto simp: within_def)
qed (use assms(1) in \<open>simp add: side_l_def\<close>)

lemma side_keys_r:
  assumes "side_r (tree h m) hi k2 c2 b r" "sorted_wrt (<) k2" "\<forall>k \<in> set k2. within lo hi k"
    "k2 \<noteq> [] \<Longrightarrow> key < hd k2"
  shows "\<forall>x \<in> fst ` set b. key < x"
proof (cases k2)
  case (Cons k ks)
  then have kd: "kids (tree h m) (Some k) hi ks c2 b r" using assms(1) by (simp add: side_r_def)
  have s: "sorted_wrt (<) ks" "\<forall>x \<in> set ks. within (Some k) hi x"
    using assms(2,3) Cons by (auto simp: within_def)
  from kids_tree_bounds(2) [OF kd s(2,1)] have "\<forall>x \<in> fst ` set b. within (Some k) hi x" .
  moreover have "key < k" using assms(4) Cons by simp
  ultimately show ?thesis by (auto simp: within_def)
qed (use assms(1) in \<open>simp add: side_r_def\<close>)

text \<open>Everything the routed child of an internal node gives.\<close>

lemma kids_route:
  assumes "kids (tree h m) lo hi ks cs kvs qs" "sorted_wrt (<) ks" "\<forall>k \<in> set ks. within lo hi k"
    and "within lo hi key"
  defines "ci \<equiv> route_index ks key"
  shows "\<exists>a x b p q r. kvs = a @ x @ b \<and> qs = p @ q @ r
    \<and> side_l (tree h m) lo (take ci ks) (take ci cs) a p
    \<and> tree h m (lo_of lo (take ci ks)) (hi_of hi (drop ci ks)) (cs ! ci) x q
    \<and> side_r (tree h m) hi (drop ci ks) (drop (Suc ci) cs) b r
    \<and> (\<forall>y \<in> fst ` set a. y < key) \<and> (\<forall>y \<in> fst ` set b. key < y)"
proof -
  note len = kids_length [OF assms(1)]
  note r = route_split [OF len, of key, folded ci_def]
  have "kids (tree h m) lo hi (take ci ks @ [] @ drop ci ks) (take ci cs @ [cs ! ci] @ drop (Suc ci) cs) kvs qs"
    using assms(1) r(2,3) by simp
  then have "\<exists>a x b p q rr. kvs = a @ x @ b \<and> qs = p @ q @ rr
      \<and> side_l (tree h m) lo (take ci ks) (take ci cs) a p
      \<and> kids (tree h m) (lo_of lo (take ci ks)) (hi_of hi (drop ci ks)) [] [cs ! ci] x q
      \<and> side_r (tree h m) hi (drop ci ks) (drop (Suc ci) cs) b rr"
    by (rule kids_focus [OF r(4) _ r(5), THEN iffD1, rotated]) simp
  then obtain a x b p q rr where f: "kvs = a @ x @ b" "qs = p @ q @ rr"
    "side_l (tree h m) lo (take ci ks) (take ci cs) a p"
    "tree h m (lo_of lo (take ci ks)) (hi_of hi (drop ci ks)) (cs ! ci) x q"
    "side_r (tree h m) hi (drop ci ks) (drop (Suc ci) cs) b rr" by auto
  have st: "sorted_wrt (<) (take ci ks)" "sorted_wrt (<) (drop ci ks)"
    using assms(2) by (simp_all add: sorted_wrt_take sorted_wrt_drop)
  have "\<forall>y \<in> fst ` set a. y < key"
    using r(6) assms(3) by (intro side_keys [OF f(3) st(1), of hi]) (auto dest: in_set_takeD)
  moreover have "\<forall>y \<in> fst ` set b. key < y"
    using r(7) assms(3) by (intro side_keys_r [OF f(5) st(2), of lo]) (auto dest: in_set_dropD)
  ultimately show ?thesis using f by blast
qed

end
