(* ===== verification/BTreeOps.thy ===== *)
theory BTreeOps
  imports BTreeInv
begin

text \<open>
  Functional correctness of lookup and insert, proved once against the page-store interface: the
  tree under the new root holds the updated entries with all invariants, the old root still holds
  the old ones, and the pages are exactly accounted for.
\<close>

section \<open>Searching a leaf\<close>

lemma binary_search_cases:
  assumes "sorted_wrt (<) (ks :: bytes list)"
  obtains (hit) i where "binary_search ks key = Inr i" "i < length ks" "ks ! i = key"
  | (miss) i where "binary_search ks key = Inl i" "i \<le> length ks" "key \<notin> set ks"
      "\<forall>k \<in> set (take i ks). k < key" "\<forall>k \<in> set (drop i ks). key < k"
proof -
  define i where "i = partition_point (\<lambda>x. x < key) ks"
  have tw: "take i ks = takeWhile (\<lambda>x. x < key) ks" "drop i ks = dropWhile (\<lambda>x. x < key) ks"
    by (simp_all add: i_def partition_point_def takeWhile_eq_take [symmetric] dropWhile_eq_drop [symmetric])
  have le: "i \<le> length ks" by (simp add: i_def partition_point_def length_takeWhile_le)
  have low: "\<forall>k \<in> set (take i ks). k < key" unfolding tw by (auto dest: set_takeWhileD)
  show ?thesis
  proof (cases "i < length ks \<and> ks ! i = key")
    case True
    then show ?thesis using hit [of i] by (simp add: binary_search_def i_def [symmetric] Let_def)
  next
    case False
    have "\<forall>k \<in> set (drop i ks). key < k"
    proof (cases "drop i ks")
      case (Cons k r)
      then have "i < length ks" "k = ks ! i" by (metis drop_eq_Nil list.distinct(1) not_le, metis nth_via_drop)
      moreover have "\<not> k < key" using hd_dropWhile [of "\<lambda>x. x < key" ks] tw(2) Cons by (metis list.distinct(1) list.sel(1))
      ultimately have "key < k" using False by auto
      moreover have "sorted_wrt (<) (k # r)" using assms sorted_wrt_drop Cons by metis
      ultimately show ?thesis using Cons by auto
    qed simp
    moreover have "key \<notin> set ks"
      using low calculation append_take_drop_id [of i ks] by (metis Un_iff less_irrefl set_append)
    ultimately show ?thesis using miss [of i] False le low by (auto simp: binary_search_def i_def [symmetric] Let_def)
  qed
qed

lemma map_of_zip_nth:
  "distinct ks \<Longrightarrow> length vs = length ks \<Longrightarrow> i < length ks \<Longrightarrow> map_of (zip ks vs) (ks ! i) = Some (vs ! i)"
  by (metis in_set_zip length_zip min.idem map_of_eq_Some_iff map_fst_zip nth_zip fst_conv snd_conv)

lemma sorted_distinct: "sorted_wrt (<) (ks :: bytes list) \<Longrightarrow> distinct ks"
  by (induction ks) auto

lemma map_of_zip_None: "length vs = length ks \<Longrightarrow> map_of (zip ks vs) k = None \<longleftrightarrow> k \<notin> set ks"
  by (simp add: map_of_zip_is_None)

lemma leaf_get_map_of:
  assumes "node_wf (Leaf ks vs)"
  shows "leaf_get (Leaf ks vs) key = map_of (zip ks vs) key"
proof -
  have wf: "length vs = length ks" "sorted_wrt (<) ks" using assms by auto
  show ?thesis
    using wf(2)
  proof (cases rule: binary_search_cases [of ks key])
    case (hit i)
    then show ?thesis using map_of_zip_nth [OF sorted_distinct [OF wf(2)] wf(1), of i] by simp
  next
    case (miss i)
    then have "map_of (zip ks vs) key = None" using map_of_zip_None [OF wf(1)] by blast
    then show ?thesis using miss by simp
  qed
qed

section \<open>Nodes in a store\<close>

definition node_map :: "(PageId \<Rightarrow> bytes option) \<Rightarrow> PageId set \<Rightarrow> PageId \<rightharpoonup> Node" where
  "node_map v L i =
     (if i \<in> L then
        (case v i of
           None \<Rightarrow> None
         | Some pl \<Rightarrow> if length pl = PAGE_PAYLOAD_SIZE then
             (case node_decode pl i of Inr n \<Rightarrow> Some n | Inl _ \<Rightarrow> None) else None)
      else None)"

lemma node_map_Some:
  "node_map v L i = Some n \<longleftrightarrow> i \<in> L \<and> (\<exists>pl. v i = Some pl \<and> length pl = PAGE_PAYLOAD_SIZE \<and> node_decode pl i = Inr n)"
  by (auto simp: node_map_def split: option.splits sum.splits)

lemma length_padded: "length pl \<le> PAGE_PAYLOAD_SIZE \<Longrightarrow> length (padded pl) = PAGE_PAYLOAD_SIZE"
  by (simp add: padded_def)

context page_store
begin

abbreviation nodes :: "'s \<Rightarrow> PageId \<rightharpoonup> Node" where "nodes s \<equiv> node_map (view s) (live s)"

definition same :: "'s \<Rightarrow> 's \<Rightarrow> bool" where
  "same s s' \<longleftrightarrow> ok s' \<and> view s' = view s \<and> live s' = live s \<and> space s' = space s \<and> ext s s'"

lemma same_refl [simp]: "ok s \<Longrightarrow> same s s"
  by (simp add: same_def ext_refl)

lemma same_nodes: "same s s' \<Longrightarrow> nodes s' = nodes s"
  by (simp add: same_def)

lemma same_trans: "same s t \<Longrightarrow> same t u \<Longrightarrow> same s u"
  using ext_trans by (simp add: same_def) blast

lemma same_later: "same s s' \<Longrightarrow> later s s'"
  by (simp add: same_def later_def)

lemma later_nodes: "later s s' \<Longrightarrow> nodes s \<subseteq>\<^sub>m nodes s'"
  unfolding map_le_def later_def by (auto simp: dom_def node_map_Some node_map_def)

lemma later_tree: "later s s' \<Longrightarrow> tree h (nodes s) lo hi i kvs ps \<Longrightarrow> tree h (nodes s') lo hi i kvs ps"
  using tree_mono later_nodes by blast

lemma tree_live: "tree h (nodes s) lo hi i kvs ps \<Longrightarrow> set ps \<subseteq> live s"
  using tree_pages_dom [of h "nodes s" lo hi i kvs ps] by (auto simp: dom_def node_map_Some)

lemma read_node_ok:
  assumes "ok s" "nodes s i = Some n"
  shows "\<exists>s'. read_node pg i s = (Inr n, s') \<and> same s s'"
proof -
  obtain pl where pl: "view s i = Some pl" "node_decode pl i = Inr n" using assms(2) by (auto simp: node_map_Some)
  from read_law [OF assms(1) pl(1)] obtain f s' where "po_read pg i s = (Inr f, s')" "drop HEADER_SIZE f = pl"
    "same s s'" by (auto simp: same_def)
  then show ?thesis using pl(2) by (auto simp: read_node_def on_pager_def)
qed

lemma write_node_ok:
  assumes "ok s" "0 < space s" "node_wf n" "encoded_len n \<le> CAP"
  shows "\<exists>i s'. write_node pg n s = (Inr i, s') \<and> later s s' \<and> i \<notin> live s \<and> FIRST_DATA_PAGE \<le> i
    \<and> live s' = insert i (live s) \<and> nodes s' i = Some n \<and> space s' = space s - 1"
proof -
  have len: "length (node_encode n) \<le> PAGE_PAYLOAD_SIZE" using length_node_encode [OF assms(3)] assms(4) by simp
  from alloc_write [OF assms(1,2) len] obtain i s1 s2 where w: "po_alloc pg s = (Inr i, s1)"
    "po_write pg i (node_encode n) s1 = (Inr (), s2)" "later s s2" "i \<notin> live s" "FIRST_DATA_PAGE \<le> i"
    "live s2 = insert i (live s)" "view s2 i = Some (padded (node_encode n))" "space s2 = space s - 1" by blast
  have "node_decode (padded (node_encode n)) i = Inr n"
    using node_decode_encode [OF assms(3,4)] by (simp add: padded_def)
  then have "nodes s2 i = Some n" using w(6,7) length_padded [OF len] by (simp add: node_map_Some)
  then show ?thesis using w by (auto simp: write_node_def on_pager_def)
qed

lemma write_node_big:
  assumes "ok s" "0 < space s" "node_wf n" "CAP < encoded_len n"
  shows "\<exists>s'. write_node pg n s = (Inl (Some (BTreePager (PayloadTooLarge (encoded_len n) CAP))), s') \<and> later s s' \<and> space s \<le> space s' + 1"
proof -
  have len: "PAGE_PAYLOAD_SIZE < length (node_encode n)" using length_node_encode [OF assms(3)] assms(4) by simp
  from alloc_write_big [OF assms(1,2) len] obtain i s1 where "po_alloc pg s = (Inr i, s1)" "later s s1" "space s1 = space s - 1"
    "po_write pg i (node_encode n) s1 = (Inl (PayloadTooLarge (length (node_encode n)) PAGE_PAYLOAD_SIZE), s1)" by blast
  then show ?thesis using length_node_encode [OF assms(3)] by (auto simp: write_node_def on_pager_def)
qed

section \<open>Lookup\<close>

lemma lookup_correct:
  assumes "ok s" "tree h (nodes s) lo hi i kvs ps" "within lo hi key"
  shows "\<exists>s'. tree_lookup pg (Suc h) i key s = (Inr (map_of kvs key), s') \<and> same s s'"
  using assms
proof (induction h arbitrary: s lo hi i kvs ps)
  case 0
  then obtain ks vs where t: "nodes s i = Some (Leaf ks vs)" "node_wf (Leaf ks vs)" "kvs = zip ks vs" by auto
  from read_node_ok [OF "0.prems"(1) t(1)] obtain s' where "read_node pg i s = (Inr (Leaf ks vs), s')" "same s s'" by blast
  then show ?case using leaf_get_map_of [OF t(2)] t(3) by auto
next
  case (Suc h)
  from Suc.prems(2) obtain ks cs qs where t: "nodes s i = Some (Internal ks cs)" "sorted_wrt (<) ks"
    "\<forall>k \<in> set ks. within lo hi k" "kids (tree h (nodes s)) lo hi ks cs kvs qs" by auto
  define ci where "ci = route_index ks key"
  from read_node_ok [OF Suc.prems(1) t(1)] obtain s1 where r: "read_node pg i s = (Inr (Internal ks cs), s1)" "same s s1" by blast
  from kids_route [OF t(4,2,3) Suc.prems(3), folded ci_def] obtain a x b p q rr where k: "kvs = a @ x @ b"
    "tree h (nodes s) (lo_of lo (take ci ks)) (hi_of hi (drop ci ks)) (cs ! ci) x q"
    "\<forall>y \<in> fst ` set a. y < key" "\<forall>y \<in> fst ` set b. key < y" by blast
  have w: "within (lo_of lo (take ci ks)) (hi_of hi (drop ci ks)) key"
    unfolding ci_def by (rule route_bounds [OF kids_length [OF t(4)] Suc.prems(3) t(2)])
  have "ok s1" "tree h (nodes s1) (lo_of lo (take ci ks)) (hi_of hi (drop ci ks)) (cs ! ci) x q"
    using r(2) k(2) same_nodes by (auto simp: same_def)
  from Suc.IH [OF this w] obtain s' where "tree_lookup pg (Suc h) (cs ! ci) key s1 = (Inr (map_of x key), s')" "same s1 s'" by blast
  moreover have "map_of kvs key = map_of x key"
  proof -
    have "map_of a key = None" "map_of b key = None" using k(3,4) by (auto simp: map_of_eq_None_iff)
    then show ?thesis by (simp add: k(1) map_add_def split: option.split)
  qed
  ultimately have "tree_lookup pg (Suc (Suc h)) i key s = (Inr (map_of kvs key), s')"
    using r(1) by (simp add: ci_def [symmetric] del: tree_lookup.simps(2)) (simp add: ci_def)
  then show ?case using same_trans [OF r(2) \<open>same s1 s'\<close>] by blast
qed

end

section \<open>Putting an entry into a leaf\<close>

lemma node_wf_parts:
  assumes "node_wf (Leaf ks vs)"
  shows "length vs = length ks" "sorted_wrt (<) ks" "distinct ks"
  using assms sorted_distinct by auto

lemma leaf_put_spec:
  assumes "node_wf (Leaf ks vs)" "leaf_put ks vs key v = (ks', vs')"
  shows "node_wf (Leaf ks' vs')" "set ks' = insert key (set ks)"
    "map_of (zip ks' vs') = (map_of (zip ks vs))(key \<mapsto> v)"
    "sum_list (leaf_cells ks' vs') \<le> sum_list (leaf_cells ks vs) + (4 + length key + length v)"
    "set (leaf_cells ks' vs') \<subseteq> insert (4 + length key + length v) (set (leaf_cells ks vs))"
proof -
  note wf = node_wf_parts [OF assms(1)]
  have "node_wf (Leaf ks' vs') \<and> set ks' = insert key (set ks)
    \<and> map_of (zip ks' vs') = (map_of (zip ks vs))(key \<mapsto> v)
    \<and> sum_list (leaf_cells ks' vs') \<le> sum_list (leaf_cells ks vs) + (4 + length key + length v)
    \<and> set (leaf_cells ks' vs') \<subseteq> insert (4 + length key + length v) (set (leaf_cells ks vs))"
    using wf(2)
  proof (cases rule: binary_search_cases [of ks key])
    case (hit i)
    then have p: "ks' = ks" "vs' = vs[i := v]" using assms(2) by (simp_all add: leaf_put_def)
    have z: "zip ks vs' = (zip ks vs)[i := (key, v)]"
    proof -
      have "ks[i := key] = ks" using list_update_id [of ks i] hit(3) by simp
      then show ?thesis using update_zip [of ks vs i "(key, v)"] p(2) by simp
    qed
    have cells: "leaf_cells ks vs' = (leaf_cells ks vs)[i := 4 + length key + length v]"
      by (simp add: leaf_cells_def z map_update)
    have "i < length (leaf_cells ks vs)" using hit(2) wf(1) by (simp add: length_leaf_cells)
    then have "sum_list (leaf_cells ks vs') \<le> sum_list (leaf_cells ks vs) + (4 + length key + length v)"
      unfolding cells by (simp add: sum_list_update)
    moreover have "map_of (zip ks vs') = (map_of (zip ks vs))(key \<mapsto> v)"
    proof
      fix k
      show "map_of (zip ks vs') k = ((map_of (zip ks vs))(key \<mapsto> v)) k"
      proof (cases "k \<in> set ks")
        case True
        then obtain j where j: "j < length ks" "k = ks ! j" by (metis in_set_conv_nth)
        have "k = key \<longleftrightarrow> j = i" using wf(3) hit(2,3) j by (metis nth_eq_iff_index_eq)
        moreover have "map_of (zip ks vs') k = Some (vs' ! j)" "map_of (zip ks vs) k = Some (vs ! j)"
          unfolding j(2) by (rule map_of_zip_nth [OF wf(3) _ j(1)], simp add: p(2) wf(1))+
        ultimately show ?thesis using hit(2) wf(1) by (simp only: p(2)) (simp add: nth_list_update)
      next
        case False
        then have "map_of (zip ks vs') k = None" "map_of (zip ks vs) k = None"
          using map_of_zip_None [of _ ks k] wf(1) p(2) by (metis length_list_update)+
        then show ?thesis using False hit(2,3) by auto
      qed
    qed
    ultimately show ?thesis
      using assms(1) p hit(2,3) cells set_update_subset_insert [of "leaf_cells ks vs" i] by (auto simp: insert_absorb)
  next
    case (miss i)
    then have p: "ks' = take i ks @ key # drop i ks" "vs' = take i vs @ v # drop i vs"
      using assms(2) by (simp_all add: leaf_put_def list_insert_def)
    have len: "length (take i vs) = length (take i ks)" using wf(1) by simp
    have z: "zip ks' vs' = zip (take i ks) (take i vs) @ (key, v) # zip (drop i ks) (drop i vs)"
      using len by (simp add: p)
    have z0: "zip ks vs = zip (take i ks) (take i vs) @ zip (drop i ks) (drop i vs)"
      using zip_append [OF len [symmetric], of "drop i ks" "drop i vs"] by simp
    have "map_of (zip (take i ks) (take i vs)) key = None"
      using miss(3) map_of_zip_None [OF len, of key] by (auto dest: in_set_takeD)
    then have "map_of (zip ks' vs') = (map_of (zip ks vs))(key \<mapsto> v)"
      unfolding z z0 by (auto simp: map_add_def fun_eq_iff split: option.split)
    moreover have "sorted_wrt (<) ks'"
      using wf(2) miss(4,5) sorted_wrt_take sorted_wrt_drop unfolding p(1)
      by (auto simp: sorted_wrt_append intro: less_trans)
    moreover have "sum_list (leaf_cells ks' vs') = sum_list (leaf_cells ks vs) + (4 + length key + length v)"
      unfolding leaf_cells_def z z0 by simp
    moreover have "set (leaf_cells ks' vs') = insert (4 + length key + length v) (set (leaf_cells ks vs))"
      unfolding leaf_cells_def z z0 by auto
    moreover have "set ks' = insert key (set ks)"
      using append_take_drop_id [of i ks] unfolding p(1) by (metis Un_insert_right list.simps(15) set_append)
    ultimately show ?thesis using len wf(1) p by simp
  qed
  then show "node_wf (Leaf ks' vs')" "set ks' = insert key (set ks)"
    "map_of (zip ks' vs') = (map_of (zip ks vs))(key \<mapsto> v)"
    "sum_list (leaf_cells ks' vs') \<le> sum_list (leaf_cells ks vs) + (4 + length key + length v)"
    "set (leaf_cells ks' vs') \<subseteq> insert (4 + length key + length v) (set (leaf_cells ks vs))" by blast+
qed

section \<open>Writing possibly overfull nodes\<close>

fun ins_keys :: "Ins \<Rightarrow> bytes list" where
  "ins_keys (Updated j) = []"
| "ins_keys (Split l sep r) = [sep]"

fun ins_kids :: "Ins \<Rightarrow> PageId list" where
  "ins_kids (Updated j) = [j]"
| "ins_kids (Split l sep r) = [l, r]"

definition sep_ok :: "bytes option \<Rightarrow> bytes option \<Rightarrow> Ins \<Rightarrow> bool" where
  "sep_ok lo hi res \<longleftrightarrow> (\<forall>sep \<in> set (ins_keys res). within lo hi sep \<and> (\<forall>x. lo = Some x \<longrightarrow> x < sep)
     \<and> sep_cell sep \<le> MAX_CELL) \<and> (\<forall>c \<in> set (ins_kids res). FIRST_DATA_PAGE \<le> c)"

lemma cells_ok_take_drop:
  "cells_ok (Leaf ks vs) \<Longrightarrow> cells_ok (Leaf (take m ks) (take m vs)) \<and> cells_ok (Leaf (drop m ks) (drop m vs))"
  "cells_ok (Internal ks cs) \<Longrightarrow> cells_ok (Internal (take m ks) ds) \<and> cells_ok (Internal (drop m ks) es)"
  by (auto simp: cells_ok_def leaf_cells_take_drop dest: in_set_takeD in_set_dropD)

lemma leaf_tree:
  assumes "m i = Some (Leaf ks vs)" "cells_ok (Leaf ks vs)" "node_wf (Leaf ks vs)"
    "encoded_len (Leaf ks vs) \<le> CAP" "\<forall>k \<in> set ks. within lo hi k" "ks = [] \<longrightarrow> lo = None \<and> hi = None"
  shows "tree 0 m lo hi i (zip ks vs) [i]"
  using assms by auto

lemma split_bounds:
  assumes "sorted_wrt (<) ks" "m < length ks" "\<forall>k \<in> set ks. within lo hi k"
  shows "\<forall>k \<in> set (take m ks). within lo (Some (ks ! m)) k" "\<forall>k \<in> set (drop m ks). within (Some (ks ! m)) hi k"
    "\<forall>k \<in> set (drop (Suc m) ks). within (Some (ks ! m)) hi k" "within lo hi (ks ! m)"
    "1 \<le> m \<Longrightarrow> lo = Some x \<Longrightarrow> x < ks ! m"
proof -
  have e: "ks = take m ks @ ks ! m # drop (Suc m) ks" by (rule id_take_nth_drop [OF assms(2)])
  then have s: "sorted_wrt (<) (take m ks @ ks ! m # drop (Suc m) ks)" using assms(1) by simp
  then have lt: "\<forall>k \<in> set (take m ks). k < ks ! m" "\<forall>k \<in> set (drop (Suc m) ks). ks ! m < k"
    by (auto simp: sorted_wrt_append)
  show "\<forall>k \<in> set (take m ks). within lo (Some (ks ! m)) k"
    using lt(1) assms(3) by (auto simp: within_def dest: in_set_takeD)
  show d: "\<forall>k \<in> set (drop (Suc m) ks). within (Some (ks ! m)) hi k"
    using lt(2) assms(3) by (auto simp: within_def less_imp_le dest: in_set_dropD)
  show w: "within lo hi (ks ! m)" using assms(2,3) by simp
  have "drop m ks = ks ! m # drop (Suc m) ks" using assms(2) by (simp add: Cons_nth_drop_Suc)
  then show "\<forall>k \<in> set (drop m ks). within (Some (ks ! m)) hi k" using d w by (auto simp: within_def)
  assume m: "1 \<le> m" "lo = Some x"
  have "take m ks ! 0 \<in> set (take m ks)" by (rule nth_mem) (use m(1) assms(2) in auto)
  then have "ks ! 0 \<in> set (take m ks)" using m(1) by simp
  then have "ks ! 0 < ks ! m" "x \<le> ks ! 0" using lt(1) assms(2,3) m(2) by (auto simp: within_def dest: in_set_takeD)
  then show "x < ks ! m" by (rule le_less_trans [rotated])
qed

context page_store
begin

lemma write_two:
  assumes "ok s" "2 \<le> space s" "node_wf l" "encoded_len l \<le> CAP" "node_wf r" "encoded_len r \<le> CAP"
  shows "\<exists>i j s1 s2. write_node pg l s = (Inr i, s1) \<and> write_node pg r s1 = (Inr j, s2) \<and> later s s2
    \<and> i \<noteq> j \<and> {i, j} \<inter> live s = {} \<and> live s2 = live s \<union> {i, j} \<and> FIRST_DATA_PAGE \<le> i \<and> FIRST_DATA_PAGE \<le> j
    \<and> nodes s2 i = Some l \<and> nodes s2 j = Some r \<and> space s2 = space s - 2"
proof -
  have "0 < space s" using assms(2) by simp
  from write_node_ok [OF assms(1) this assms(3,4)] obtain i s1 where 1: "write_node pg l s = (Inr i, s1)"
    "later s s1" "i \<notin> live s" "FIRST_DATA_PAGE \<le> i" "live s1 = insert i (live s)" "nodes s1 i = Some l"
    "space s1 = space s - 1" by blast
  have "0 < space s1" using 1(7) assms(2) by simp
  from write_node_ok [OF later_ok [OF 1(2)] this assms(5,6)] obtain j s2 where 2: "write_node pg r s1 = (Inr j, s2)"
    "later s1 s2" "j \<notin> live s1" "FIRST_DATA_PAGE \<le> j" "live s2 = insert j (live s1)" "nodes s2 j = Some r"
    "space s2 = space s1 - 1" by blast
  have n: "nodes s2 i = Some l" using later_nodes [OF 2(2)] 1(6) unfolding map_le_def by (metis domI)
  have l: "i \<noteq> j" "{i, j} \<inter> live s = {}" "live s2 = live s \<union> {i, j}" "space s2 = space s - 2"
    using 1(3,5,7) 2(3,5,7) by auto
  show ?thesis using 1(1,4) 2(1,4,6) n l later_trans [OF 1(2) 2(2)] by blast
qed

lemma write_balanced_leaf:
  assumes "ok s" "2 \<le> space s" "node_wf (Leaf ks vs)" "cells_ok (Leaf ks vs)" "encoded_len (Leaf ks vs) \<le> 6122"
    and "\<forall>k \<in> set ks. within lo hi k" "ks \<noteq> []"
  shows "\<exists>res s' ps. write_balanced pg (Leaf ks vs) s = (Inr res, s') \<and> later s s' \<and> space s \<le> space s' + 2
    \<and> kids (tree 0 (nodes s')) lo hi (ins_keys res) (ins_kids res) (zip ks vs) ps \<and> sep_ok lo hi res
    \<and> distinct ps \<and> set ps = live s' - live s"
proof (cases "is_overfull (Leaf ks vs)")
  case False
  then have fit: "encoded_len (Leaf ks vs) \<le> CAP" by (simp add: is_overfull_def)
  have "0 < space s" using assms(2) by simp
  from write_node_ok [OF assms(1) this assms(3) fit] obtain i s' where w: "write_node pg (Leaf ks vs) s = (Inr i, s')"
    "later s s'" "i \<notin> live s" "FIRST_DATA_PAGE \<le> i" "live s' = insert i (live s)" "nodes s' i = Some (Leaf ks vs)"
    "space s' = space s - 1" by blast
  have "write_balanced pg (Leaf ks vs) s = (Inr (Updated i), s')" using False w(1) by (simp add: write_balanced_def)
  moreover have "tree 0 (nodes s') lo hi i (zip ks vs) [i]" using assms(7) by (intro leaf_tree [of "nodes s'", OF w(6) assms(4,3) fit assms(6)]) blast
  ultimately show ?thesis using w
    by (intro exI [of _ "Updated i"] exI [of _ s'] exI [of _ "[i]"]) (auto simp: sep_ok_def)
next
  case True
  define m where "m = split_at (Leaf ks vs)"
  note sp = split_at_leaf [OF assms(3) True assms(4,5), folded m_def]
  note wf = node_wf_parts [OF assms(3)]
  note sb = split_bounds [OF wf(2) sp(2) assms(6)]
  have nl: "node_wf (Leaf (take m ks) (take m vs))" "node_wf (Leaf (drop m ks) (drop m vs))"
    using assms(3) by (auto simp: sorted_wrt_take sorted_wrt_drop)
  note co = cells_ok_take_drop(1) [OF assms(4), of m]
  have ne: "take m ks \<noteq> []" "drop m ks \<noteq> []" using sp(1,2) by auto
  from write_two [OF assms(1,2) nl(1) sp(3) nl(2) sp(4)] obtain i j s1 s2 where w:
    "write_node pg (Leaf (take m ks) (take m vs)) s = (Inr i, s1)"
    "write_node pg (Leaf (drop m ks) (drop m vs)) s1 = (Inr j, s2)" "later s s2" "i \<noteq> j" "{i, j} \<inter> live s = {}"
    "live s2 = live s \<union> {i, j}" "FIRST_DATA_PAGE \<le> i" "FIRST_DATA_PAGE \<le> j"
    "nodes s2 i = Some (Leaf (take m ks) (take m vs))" "nodes s2 j = Some (Leaf (drop m ks) (drop m vs))"
    "space s2 = space s - 2" by blast
  have run: "write_balanced pg (Leaf ks vs) s = (Inr (Split i (ks ! m) j), s2)"
    using True w(1,2) by (simp add: write_balanced_def m_def [symmetric] Let_def)
  have "tree 0 (nodes s2) lo (Some (ks ! m)) i (zip (take m ks) (take m vs)) [i]"
    using co ne by (intro leaf_tree [of "nodes s2", OF w(9) _ nl(1) sp(3) sb(1)]) blast+
  moreover have "tree 0 (nodes s2) (Some (ks ! m)) hi j (zip (drop m ks) (drop m vs)) [j]"
    using co ne by (intro leaf_tree [of "nodes s2", OF w(10) _ nl(2) sp(4) sb(2)]) blast+
  moreover have "zip ks vs = zip (take m ks) (take m vs) @ zip (drop m ks) (drop m vs)"
    using append_take_drop_id [of m "zip ks vs"] by (simp add: take_zip drop_zip)
  ultimately have k: "kids (tree 0 (nodes s2)) lo hi [ks ! m] [i, j] (zip ks vs) ([i] @ [j])"
    unfolding kids.simps by blast
  have "sep_cell (ks ! m) \<le> MAX_CELL" using assms(4) sp(2) by (simp add: cells_ok_def)
  then have "sep_ok lo hi (Split i (ks ! m) j)" using sb(4,5) sp(1) w(7,8) by (auto simp: sep_ok_def)
  then show ?thesis using run w k
    by (intro exI [of _ "Split i (ks ! m) j"] exI [of _ s2] exI [of _ "[i, j]"]) auto
qed

lemma internal_tree:
  assumes "nodes s i = Some (Internal ks cs)" "cells_ok (Internal ks cs)" "node_wf (Internal ks cs)"
    "encoded_len (Internal ks cs) \<le> CAP" "ks \<noteq> []" "\<forall>k \<in> set ks. within lo hi k"
    "kids (tree h (nodes s)) lo hi ks cs kvs qs"
  shows "tree (Suc h) (nodes s) lo hi i kvs (i # qs)"
  using assms by auto

lemma later_kids: "later s s' \<Longrightarrow> kids (tree h (nodes s)) lo hi ks cs kvs qs \<Longrightarrow> kids (tree h (nodes s')) lo hi ks cs kvs qs"
  by (erule kids_mono) (rule later_tree)

lemma kids_live: "kids (tree h (nodes s)) lo hi ks cs kvs qs \<Longrightarrow> set qs \<subseteq> live s"
  by (erule kids_pages_subset) (rule tree_live)

lemma write_balanced_internal:
  assumes "ok s" "2 \<le> space s" "node_wf (Internal ks cs)" "cells_ok (Internal ks cs)" "encoded_len (Internal ks cs) \<le> 8148"
    and "ks \<noteq> []" "\<forall>k \<in> set ks. within lo hi k" "kids (tree h (nodes s)) lo hi ks cs kvs qs" "distinct qs"
  shows "\<exists>res s' ps. write_balanced pg (Internal ks cs) s = (Inr res, s') \<and> later s s' \<and> space s \<le> space s' + 2
    \<and> kids (tree (Suc h) (nodes s')) lo hi (ins_keys res) (ins_kids res) kvs ps \<and> sep_ok lo hi res
    \<and> distinct ps \<and> set ps = set qs \<union> (live s' - live s)"
proof -
  have live: "set qs \<subseteq> live s" by (rule kids_live [OF assms(8)])
  show ?thesis
  proof (cases "is_overfull (Internal ks cs)")
    case False
    then have fit: "encoded_len (Internal ks cs) \<le> CAP" by (simp add: is_overfull_def)
    have "0 < space s" using assms(2) by simp
    from write_node_ok [OF assms(1) this assms(3) fit] obtain i s' where w:
      "write_node pg (Internal ks cs) s = (Inr i, s')" "later s s'" "i \<notin> live s" "FIRST_DATA_PAGE \<le> i"
      "live s' = insert i (live s)" "nodes s' i = Some (Internal ks cs)" "space s' = space s - 1" by blast
    have run: "write_balanced pg (Internal ks cs) s = (Inr (Updated i), s')"
      using False w(1) by (simp add: write_balanced_def)
    have "tree (Suc h) (nodes s') lo hi i kvs (i # qs)"
      by (rule internal_tree [OF w(6) assms(4,3) fit assms(6,7) later_kids [OF w(2) assms(8)]])
    then have "kids (tree (Suc h) (nodes s')) lo hi (ins_keys (Updated i)) (ins_kids (Updated i)) kvs (i # qs)"
      by (simp del: tree.simps)
    moreover have "distinct (i # qs)" "set (i # qs) = set qs \<union> (live s' - live s)"
      using w(3,5) live assms(9) by auto
    moreover have "sep_ok lo hi (Updated i)" using w(4) by (simp add: sep_ok_def)
    moreover have "space s \<le> space s' + 2" using w(7) by simp
    ultimately show ?thesis using run w(2) by blast
  next
    case True
    define m where "m = split_at (Internal ks cs)"
    note sp = split_at_internal [OF assms(3) True assms(4,5), folded m_def]
    have wf: "length cs = length ks + 1" "sorted_wrt (<) ks" "\<forall>c \<in> set cs. FIRST_DATA_PAGE \<le> c" using assms(3) by auto
    have m: "m < length ks" using sp(2) by simp
    note sb = split_bounds [OF wf(2) m assms(7)]
    have cs_parts: "\<forall>c \<in> set (take (m + 1) cs). FIRST_DATA_PAGE \<le> c" "\<forall>c \<in> set (drop (m + 1) cs). FIRST_DATA_PAGE \<le> c"
      using wf(3) set_take_subset [of "m + 1" cs] set_drop_subset [of "m + 1" cs] by blast+
    have nl: "node_wf (Internal (take m ks) (take (m + 1) cs))" "node_wf (Internal (drop (m + 1) ks) (drop (m + 1) cs))"
      using wf(1,2) sp(2) cs_parts by (simp_all add: sorted_wrt_take sorted_wrt_drop)
    have co: "cells_ok (Internal (take m ks) (take (m + 1) cs))" "cells_ok (Internal (drop (m + 1) ks) (drop (m + 1) cs))"
      using cells_ok_take_drop(2) [OF assms(4)] by blast+
    from write_two [OF assms(1,2) nl(1) sp(3) nl(2) sp(4)] obtain i j s1 s2 where w:
      "write_node pg (Internal (take m ks) (take (m + 1) cs)) s = (Inr i, s1)"
      "write_node pg (Internal (drop (m + 1) ks) (drop (m + 1) cs)) s1 = (Inr j, s2)" "later s s2" "i \<noteq> j"
      "{i, j} \<inter> live s = {}" "live s2 = live s \<union> {i, j}" "FIRST_DATA_PAGE \<le> i" "FIRST_DATA_PAGE \<le> j"
      "nodes s2 i = Some (Internal (take m ks) (take (m + 1) cs))"
      "nodes s2 j = Some (Internal (drop (m + 1) ks) (drop (m + 1) cs))" "space s2 = space s - 2" by blast
    have run: "write_balanced pg (Internal ks cs) s = (Inr (Split i (ks ! m) j), s2)"
      using True w(1,2) by (simp add: write_balanced_def m_def [symmetric] Let_def)
    have len: "length (take (m + 1) cs) = length (take m ks) + 1" using wf(1) sp(2) by simp
    have "kids (tree h (nodes s2)) lo hi (take m ks @ ks ! m # drop (m + 1) ks) (take (m + 1) cs @ drop (m + 1) cs) kvs qs"
      using later_kids [OF w(3) assms(8)] id_take_nth_drop [OF m] by simp
    then obtain a b p q where k: "kvs = a @ b" "qs = p @ q"
      "kids (tree h (nodes s2)) lo (Some (ks ! m)) (take m ks) (take (m + 1) cs) a p"
      "kids (tree h (nodes s2)) (Some (ks ! m)) hi (drop (m + 1) ks) (drop (m + 1) cs) b q"
      unfolding kids_append [OF len] by blast
    have ne: "take m ks \<noteq> []" "drop (m + 1) ks \<noteq> []" using sp(1,2) by auto
    have "tree (Suc h) (nodes s2) lo (Some (ks ! m)) i a (i # p)"
      by (rule internal_tree [OF w(9) co(1) nl(1) sp(3) ne(1) sb(1) k(3)])
    moreover have "tree (Suc h) (nodes s2) (Some (ks ! m)) hi j b (j # q)"
      using sb(3) by (intro internal_tree [OF w(10) co(2) nl(2) sp(4) ne(2) _ k(4)]) simp
    ultimately have "kids (tree (Suc h) (nodes s2)) lo hi [ks ! m] [i, j] kvs ((i # p) @ (j # q))"
      unfolding kids.simps k(1) by blast
    then have kd: "kids (tree (Suc h) (nodes s2)) lo hi (ins_keys (Split i (ks ! m) j)) (ins_kids (Split i (ks ! m) j))
        kvs (i # p @ j # q)" by (simp del: tree.simps kids.simps)
    have "sep_cell (ks ! m) \<le> MAX_CELL" using assms(4) m by (simp add: cells_ok_def)
    then have "sep_ok lo hi (Split i (ks ! m) j)" using sb(4,5) sp(1) w(7,8) by (auto simp: sep_ok_def)
    moreover have "distinct (i # p @ j # q)" "set (i # p @ j # q) = set qs \<union> (live s2 - live s)"
      using w(4,5,6) live assms(9) k(2) by auto
    moreover have "space s \<le> space s2 + 2" using w(11) by simp
    ultimately show ?thesis using run w(3) kd by blast
  qed
qed

end

section \<open>Insert\<close>

lemma child_put_eq:
  assumes "length cs = length ks + 1" "ci \<le> length ks"
  shows "child_put ks cs ci res =
    (take ci ks @ ins_keys res @ drop ci ks, take ci cs @ ins_kids res @ drop (Suc ci) cs)"
proof (cases res)
  case (Updated c)
  then show ?thesis using assms by (simp add: child_put_def upd_conv_take_nth_drop)
next
  case (Split l sep r)
  have "take (Suc ci) (cs[ci := l]) = take ci cs @ [l]" "drop (Suc ci) (cs[ci := l]) = drop (Suc ci) cs"
    using assms by (simp_all add: take_Suc_conv_app_nth)
  then show ?thesis using Split by (simp add: child_put_def list_insert_def)
qed

text \<open>An entry that passes the size check.\<close>

definition entry_ok :: "bytes \<Rightarrow> bytes \<Rightarrow> bool" where
  "entry_ok key v \<longleftrightarrow> 4 + length key + length v \<le> MAX_CELL \<and> sep_cell key \<le> MAX_CELL"

lemma check_entry_iff: "check_entry key v = Inr () \<longleftrightarrow> entry_ok key v"
  by (auto simp: check_entry_def entry_ok_def sep_cell_def Let_def)

text \<open>Replacing a group of adjacent children by one or two: the node stays ordered.\<close>

lemma keys_apart:
  assumes "sorted_wrt (<) (k1 @ k2)" "within (lo_of lo k1) (hi_of hi k2) x" "\<forall>y. lo_of lo k1 = Some y \<longrightarrow> y < x"
    "\<forall>k \<in> set (k1 @ k2). within lo hi k"
  shows "\<forall>k \<in> set k1. k < x" "\<forall>k \<in> set k2. x < k" "within lo hi x"
proof -
  show l: "\<forall>k \<in> set k1. k < x"
  proof (cases k1 rule: rev_exhaust)
    case (snoc as b)
    then have "b < x" "\<forall>k \<in> set as. k < b" using assms(1,3) by (auto simp: lo_of_def sorted_wrt_append)
    then show ?thesis using snoc by auto
  qed auto
  show u: "\<forall>k \<in> set k2. x < k"
  proof (cases k2)
    case (Cons b as)
    then have "x < b" "\<forall>k \<in> set as. b < k" using assms(1,2) by (auto simp: hi_of_def within_def sorted_wrt_append)
    then show ?thesis using Cons by auto
  qed auto
  have "\<forall>y. lo = Some y \<longrightarrow> y \<le> x"
  proof (cases k1)
    case (Cons k as)
    then have "within lo hi k" "k < x" using assms(4) l by auto
    then show ?thesis by (auto simp: within_def)
  qed (use assms(2) in \<open>auto simp: lo_of_def within_def\<close>)
  moreover have "\<forall>y. hi = Some y \<longrightarrow> x < y"
  proof (cases k2)
    case (Cons k as)
    then have "within lo hi k" "x < k" using assms(4) u by auto
    then show ?thesis by (auto simp: within_def)
  qed (use assms(2) in \<open>auto simp: hi_of_def within_def\<close>)
  ultimately show "within lo hi x" by (simp add: within_def)
qed

lemma replaced_node:
  assumes "node_wf (Internal (k1 @ km @ k2) (c1 @ cm @ c2))" "cells_ok (Internal (k1 @ km @ k2) (c1 @ cm @ c2))"
    "\<forall>k \<in> set (k1 @ km @ k2). within lo hi k" "length c1 = length k1" "length c2 = length k2"
    "sep_ok (lo_of lo k1) (hi_of hi k2) res"
  defines "ks' \<equiv> k1 @ ins_keys res @ k2" and "cs' \<equiv> c1 @ ins_kids res @ c2"
  shows "node_wf (Internal ks' cs')" "cells_ok (Internal ks' cs')" "\<forall>k \<in> set ks'. within lo hi k"
    "sum_list (map sep_cell ks') \<le> sum_list (map sep_cell (k1 @ km @ k2)) + MAX_CELL"
proof -
  have st: "sorted_wrt (<) (k1 @ k2)" "\<forall>k \<in> set (k1 @ k2). within lo hi k"
    using assms(1,3) by (auto simp: sorted_wrt_append)
  have seps: "within lo hi x" "sep_cell x \<le> MAX_CELL" "\<forall>k \<in> set k1. k < x" "\<forall>k \<in> set k2. x < k"
    if "x \<in> set (ins_keys res)" for x
  proof -
    have s: "within (lo_of lo k1) (hi_of hi k2) x" "sep_cell x \<le> MAX_CELL" "\<forall>y. lo_of lo k1 = Some y \<longrightarrow> y < x"
      using assms(6) that by (auto simp: sep_ok_def)
    show "sep_cell x \<le> MAX_CELL" by (rule s(2))
    show "\<forall>k \<in> set k1. k < x" "\<forall>k \<in> set k2. x < k" "within lo hi x" by (rule keys_apart [OF st(1) s(1,3) st(2)])+
  qed
  show "\<forall>k \<in> set ks'. within lo hi k" using st(2) seps(1) by (auto simp: ks'_def)
  show "cells_ok (Internal ks' cs')" using assms(2) seps(2) by (auto simp: cells_ok_def ks'_def)
  have "sorted_wrt (<) (ins_keys res)" by (cases res) simp_all
  then have "sorted_wrt (<) ks'" using st(1) seps(3,4) by (auto simp: ks'_def sorted_wrt_append)
  moreover have "length cs' = length ks' + 1" using assms(4,5) by (cases res) (simp_all add: ks'_def cs'_def)
  moreover have "\<forall>c \<in> set cs'. FIRST_DATA_PAGE \<le> c" using assms(1,6) by (auto simp: cs'_def sep_ok_def)
  ultimately show "node_wf (Internal ks' cs')" by simp
  have "sum_list (map sep_cell (ins_keys res)) \<le> MAX_CELL" using seps(2) by (cases res) simp_all
  then show "sum_list (map sep_cell ks') \<le> sum_list (map sep_cell (k1 @ km @ k2)) + MAX_CELL" by (simp add: ks'_def)
qed

end
