(* ===== verification/BTreeInsert.thy ===== *)
theory BTreeInsert
  imports BTreeOps
begin

text \<open>
  Insertion: the recursive copy-on-write descent produces one or two subtrees that hold the updated
  map, allocates only fresh pages, reports exactly the superseded pages as freed, and leaves the tree
  under the old root as it was.
\<close>

lemma map_of_focus:
  assumes "\<forall>y \<in> fst ` set a. y \<noteq> key" "\<forall>y \<in> fst ` set b. y \<noteq> key" "map_of x' = (map_of x)(key := w)"
  shows "map_of (a @ x' @ b) = (map_of (a @ x @ b))(key := w)"
proof -
  have "map_of a key = None" "map_of b key = None" using assms(1,2) by (auto simp: map_of_eq_None_iff)
  then show ?thesis using assms(3) by (auto simp: map_add_def fun_eq_iff split: option.split)
qed

lemma encoded_len_leaf: "node_wf (Leaf ks vs) \<Longrightarrow> encoded_len (Leaf ks vs) = 4 + sum_list (leaf_cells ks vs)"
  by (subst encoded_len_cells) simp_all

lemma encoded_len_internal: "node_wf (Internal ks cs) \<Longrightarrow> encoded_len (Internal ks cs) = 12 + sum_list (map sep_cell ks)"
  by (subst encoded_len_cells) simp_all

lemma insert_rec_internal:
  assumes "read_node pg i s = (Inr (Internal ks cs), s0)"
    and "insert_rec pg n (cs ! route_index ks key) key v (fr @ [i]) s0 = (Inr (res, fr'), s1)"
    and "child_put ks cs (route_index ks key) res = (ks', cs')"
    and "write_balanced pg (Internal ks' cs') s1 = (Inr r, s2)"
  shows "insert_rec pg (Suc n) i key v fr s = (Inr (r, fr'), s2)"
  using assms by (simp add: Let_def)

text \<open>Page accounting: from the pages \<open>ps\<close> to \<open>ps'\<close>, having freed \<open>fr\<close>, while the allocated set grew from
  \<open>L\<close> to \<open>L'\<close>. Nothing is lost and nothing is used twice.\<close>

definition moved :: "PageId set \<Rightarrow> PageId set \<Rightarrow> PageId list \<Rightarrow> PageId list \<Rightarrow> PageId list \<Rightarrow> bool" where
  "moved L L' ps ps' fr \<longleftrightarrow> L \<subseteq> L' \<and> distinct ps' \<and> distinct fr \<and> set ps' = (set ps \<union> (L' - L)) - set fr
     \<and> set fr \<subseteq> set ps \<union> (L' - L)"

lemma moved_trans:
  assumes "moved L L1 ps ps1 fr1" "moved L1 L2 ps1 ps2 fr2" "set ps \<subseteq> L"
  shows "moved L L2 ps ps2 (fr1 @ fr2)"
proof -
  have "set fr1 \<inter> set fr2 = {}" using assms unfolding moved_def by blast
  moreover have "set ps2 = (set ps \<union> (L2 - L)) - set (fr1 @ fr2)" "set (fr1 @ fr2) \<subseteq> set ps \<union> (L2 - L)"
    using assms unfolding moved_def by auto
  ultimately show ?thesis using assms(1,2) unfolding moved_def by auto
qed

lemma moved_frame:
  assumes "moved L L' q q' fr" "distinct (p @ q @ r)" "set (p @ q @ r) \<subseteq> L"
  shows "moved L L' (p @ q @ r) (p @ q' @ r) fr"
  using assms unfolding moved_def by auto

lemma moved_Cons:
  assumes "moved L L' qs qs' fr" "i \<notin> set qs" "i \<in> L"
  shows "moved L L' (i # qs) qs' (i # fr)"
  using assms unfolding moved_def by auto

lemma moved_perm: "moved L L' ps ps' fr \<Longrightarrow> set fr' = set fr \<Longrightarrow> distinct fr' \<Longrightarrow> moved L L' ps ps' fr'"
  by (simp add: moved_def)

lemma moved_new: "L \<subseteq> L' \<Longrightarrow> distinct ps' \<Longrightarrow> set ps' = L' - L \<Longrightarrow> moved L L' [] ps' []"
  by (simp add: moved_def)

context page_store
begin

text \<open>The outcome of rewriting a group of adjacent subtrees: what it holds and where it lies.\<close>

definition rewritten :: "'s \<Rightarrow> 's \<Rightarrow> nat \<Rightarrow> bytes option \<Rightarrow> bytes option \<Rightarrow> bytes list \<Rightarrow> PageId list \<Rightarrow>
    (bytes \<rightharpoonup> bytes) \<Rightarrow> PageId list \<Rightarrow> PageId list \<Rightarrow> bool" where
  "rewritten s s' h lo hi ks cs f ps fr \<longleftrightarrow>
     (\<exists>kvs' ps'. kids (tree h (nodes s')) lo hi ks cs kvs' ps' \<and> map_of kvs' = f \<and> moved (live s) (live s') ps ps' fr)"

lemma later_live: "later s s' \<Longrightarrow> live s \<subseteq> live s'"
  by (simp add: later_def)

lemma insert_leaf:
  assumes "ok s" "tree 0 (nodes s) lo hi i kvs ps" "within lo hi key" "entry_ok key v" "2 \<le> space s"
  shows "\<exists>res s'. insert_rec pg (Suc 0) i key v fr0 s = (Inr (res, fr0 @ [i]), s') \<and> later s s'
    \<and> space s \<le> space s' + 2 \<and> sep_ok lo hi res
    \<and> rewritten s s' 0 lo hi (ins_keys res) (ins_kids res) ((map_of kvs)(key \<mapsto> v)) ps [i]"
proof -
  from assms(2) obtain ks vs where t: "nodes s i = Some (Leaf ks vs)" "cells_ok (Leaf ks vs)" "node_wf (Leaf ks vs)"
    "encoded_len (Leaf ks vs) \<le> CAP" "\<forall>k \<in> set ks. within lo hi k" "kvs = zip ks vs" "ps = [i]" by auto
  from read_node_ok [OF assms(1) t(1)] obtain s1 where r: "read_node pg i s = (Inr (Leaf ks vs), s1)" "same s s1" by blast
  obtain ks' vs' where lp: "leaf_put ks vs key v = (ks', vs')" by fastforce
  note sp = leaf_put_spec [OF t(3) lp]
  have ok1: "ok s1" "2 \<le> space s1" "live s1 = live s" using r(2) assms(5) by (auto simp: same_def)
  have ne: "ks' \<noteq> []" using sp(2) by auto
  have "cells_ok (Leaf ks' vs')" using t(2) sp(2,5) assms(4) by (auto simp: cells_ok_def entry_ok_def)
  moreover have "encoded_len (Leaf ks' vs') \<le> 6122"
    using encoded_len_leaf [OF sp(1)] encoded_len_leaf [OF t(3)] sp(4) t(4) assms(4) by (simp add: entry_ok_def)
  moreover have "\<forall>k \<in> set ks'. within lo hi k" using sp(2) t(5) assms(3) by simp
  ultimately obtain res s' ps' where w: "write_balanced pg (Leaf ks' vs') s1 = (Inr res, s')" "later s1 s'"
    "space s1 \<le> space s' + 2" "kids (tree 0 (nodes s')) lo hi (ins_keys res) (ins_kids res) (zip ks' vs') ps'"
    "sep_ok lo hi res" "distinct ps'" "set ps' = live s' - live s1"
    using write_balanced_leaf [OF ok1(1,2) sp(1)] ne by blast
  have "insert_rec pg (Suc 0) i key v fr0 s = (Inr (res, fr0 @ [i]), s')" using r(1) w(1) lp by simp
  moreover have "later s s'" by (rule later_trans [OF same_later [OF r(2)] w(2)])
  moreover have mv: "moved (live s) (live s') ps ps' [i]"
    using w(2,6,7) ok1(3) t(7) tree_live [OF assms(2)] by (auto simp: moved_def later_def)
  have "rewritten s s' 0 lo hi (ins_keys res) (ins_kids res) ((map_of kvs)(key \<mapsto> v)) ps [i]"
    unfolding rewritten_def using w(4) sp(3) t(6) mv by auto
  ultimately show ?thesis using w(3,5) r(2) by (auto simp: same_def)
qed

lemma rewritten_focus:
  assumes f: "side_l (tree h (nodes s)) lo k1 c1 a p" "side_r (tree h (nodes s)) hi k2 c2 b r"
    "length c1 = length k1" "length c2 = length k2"
    and new: "rewritten s s1 h (lo_of lo k1) (hi_of hi k2) km cm ((map_of x)(key := w)) q fr" "later s s1"
    and keys: "\<forall>y \<in> fst ` set a. y \<noteq> key" "\<forall>y \<in> fst ` set b. y \<noteq> key"
    and pages: "distinct (p @ q @ r)" "set (p @ q @ r) \<subseteq> live s"
  shows "rewritten s s1 h lo hi (k1 @ km @ k2) (c1 @ cm @ c2) ((map_of (a @ x @ b))(key := w)) (p @ q @ r) fr"
proof -
  from new(1) obtain x' q' where n: "kids (tree h (nodes s1)) (lo_of lo k1) (hi_of hi k2) km cm x' q'"
    "map_of x' = (map_of x)(key := w)" "moved (live s) (live s1) q q' fr" unfolding rewritten_def by blast
  have sl: "side_l (tree h (nodes s1)) lo k1 c1 a p" "side_r (tree h (nodes s1)) hi k2 c2 b r"
    using side_mono(1) [OF f(1)] side_mono(2) [OF f(2)] later_tree [OF new(2)] by blast+
  have "kids (tree h (nodes s1)) lo hi (k1 @ km @ k2) (c1 @ cm @ c2) (a @ x' @ b) (p @ q' @ r)"
    unfolding kids_focus [OF f(3) kids_length [OF n(1)] f(4)] using sl n(1) by blast
  moreover have "map_of (a @ x' @ b) = (map_of (a @ x @ b))(key := w)" by (rule map_of_focus [OF keys n(2)])
  moreover have "moved (live s) (live s1) (p @ q @ r) (p @ q' @ r) fr" by (rule moved_frame [OF n(3) pages])
  ultimately show ?thesis unfolding rewritten_def by blast
qed

lemma moved_written:
  assumes "moved L (live s1) qs qs1 fr" "later s1 s'" "distinct ps'" "set ps' = set qs1 \<union> (live s' - live s1)" "set qs \<subseteq> L"
  shows "moved L (live s') qs ps' fr"
proof -
  have "moved (live s1) (live s') qs1 ps' []" using assms(2,3,4) by (simp add: moved_def later_def)
  from moved_trans [OF assms(1) this assms(5)] show ?thesis by simp
qed

theorem insert_rec_correct:
  assumes "ok s" "tree h (nodes s) lo hi i kvs ps" "within lo hi key" "entry_ok key v" "2 * (h + 1) \<le> space s" "distinct ps"
  shows "\<exists>res s' fr. insert_rec pg (Suc h) i key v fr0 s = (Inr (res, fr0 @ fr), s') \<and> later s s'
    \<and> space s \<le> space s' + 2 * (h + 1) \<and> sep_ok lo hi res
    \<and> rewritten s s' h lo hi (ins_keys res) (ins_kids res) ((map_of kvs)(key \<mapsto> v)) ps fr"
  using assms
proof (induction h arbitrary: s lo hi i kvs ps fr0)
  case 0
  then obtain res s' where "insert_rec pg (Suc 0) i key v fr0 s = (Inr (res, fr0 @ [i]), s')" "later s s'"
    "space s \<le> space s' + 2" "sep_ok lo hi res"
    "rewritten s s' 0 lo hi (ins_keys res) (ins_kids res) ((map_of kvs)(key \<mapsto> v)) ps [i]"
    using insert_leaf [OF "0.prems"(1,2,3,4), of fr0] by auto
  then show ?case by (intro exI [of _ res] exI [of _ s'] exI [of _ "[i]"])
      (simp del: insert_rec.simps fun_upd_apply)
next
  case (Suc h)
  from Suc.prems(2) obtain ks cs qs where t: "nodes s i = Some (Internal ks cs)" "cells_ok (Internal ks cs)"
    "node_wf (Internal ks cs)" "encoded_len (Internal ks cs) \<le> CAP" "ks \<noteq> []" "\<forall>k \<in> set ks. within lo hi k"
    "kids (tree h (nodes s)) lo hi ks cs kvs qs" "ps = i # qs" by auto
  have wf: "length cs = length ks + 1" "sorted_wrt (<) ks" using t(3) by auto
  define ci where "ci = route_index ks key"
  note rs = route_split [OF wf(1), of key, folded ci_def]
  from read_node_ok [OF Suc.prems(1) t(1)] obtain s0 where r: "read_node pg i s = (Inr (Internal ks cs), s0)" "same s s0" by blast
  have s0: "ok s0" "nodes s0 = nodes s" "live s0 = live s" "space s0 = space s" using r(2) by (simp_all add: same_def)
  have t7: "kids (tree h (nodes s0)) lo hi ks cs kvs qs" unfolding s0(2) by (rule t(7))
  from kids_route [OF t7 wf(2) t(6) Suc.prems(3), folded ci_def] obtain a x b p q rr where k: "kvs = a @ x @ b"
    "qs = p @ q @ rr" "side_l (tree h (nodes s0)) lo (take ci ks) (take ci cs) a p"
    "tree h (nodes s0) (lo_of lo (take ci ks)) (hi_of hi (drop ci ks)) (cs ! ci) x q"
    "side_r (tree h (nodes s0)) hi (drop ci ks) (drop (Suc ci) cs) b rr"
    "\<forall>y \<in> fst ` set a. y < key" "\<forall>y \<in> fst ` set b. key < y" by (elim exE conjE) (rule that)
  have w: "within (lo_of lo (take ci ks)) (hi_of hi (drop ci ks)) key"
    unfolding ci_def by (rule route_bounds [OF wf(1) Suc.prems(3) wf(2)])
  have sp: "2 * (h + 1) \<le> space s0" and dq: "distinct q" "distinct (p @ q @ rr)" "i \<notin> set qs"
    using Suc.prems(5,6) s0(4) k(2) t(8) by auto
  from Suc.IH [OF s0(1) k(4) w Suc.prems(4) sp dq(1), of "fr0 @ [i]"] obtain res s1 fr where c:
    "insert_rec pg (Suc h) (cs ! ci) key v (fr0 @ [i]) s0 = (Inr (res, (fr0 @ [i]) @ fr), s1)" "later s0 s1"
    "space s0 \<le> space s1 + 2 * (h + 1)" "sep_ok (lo_of lo (take ci ks)) (hi_of hi (drop ci ks)) res"
    "rewritten s0 s1 h (lo_of lo (take ci ks)) (hi_of hi (drop ci ks)) (ins_keys res) (ins_kids res)
       ((map_of x)(key \<mapsto> v)) q fr" by blast
  define ks' where "ks' = take ci ks @ ins_keys res @ drop ci ks"
  define cs' where "cs' = take ci cs @ ins_kids res @ drop (Suc ci) cs"
  have live: "set (p @ q @ rr) \<subseteq> live s0" using kids_live [OF t(7)] k(2) s0(3) by simp
  have ne: "\<forall>y \<in> fst ` set a. y \<noteq> key" "\<forall>y \<in> fst ` set b. y \<noteq> key" using k(6,7) by auto
  have new: "rewritten s0 s1 h lo hi ks' cs' ((map_of kvs)(key \<mapsto> v)) qs fr"
    unfolding ks'_def cs'_def k(1,2)
    by (rule rewritten_focus [OF k(3,5) rs(4,5) c(5,2) ne dq(2) live])
  then obtain kvs1 qs1 where n: "kids (tree h (nodes s1)) lo hi ks' cs' kvs1 qs1" "map_of kvs1 = (map_of kvs)(key \<mapsto> v)"
    "moved (live s0) (live s1) qs qs1 fr" unfolding rewritten_def by blast
  have dqs: "distinct qs1" "i \<in> live s0" "set qs \<subseteq> live s0"
    using n(3) tree_live [OF Suc.prems(2)] t(8) s0(3) by (auto simp: moved_def)
  have parts: "node_wf (Internal (take ci ks @ [] @ drop ci ks) (take ci cs @ [cs ! ci] @ drop (Suc ci) cs))"
    "cells_ok (Internal (take ci ks @ [] @ drop ci ks) (take ci cs @ [cs ! ci] @ drop (Suc ci) cs))"
    "\<forall>k \<in> set (take ci ks @ [] @ drop ci ks). within lo hi k"
    using t(2,3,6) rs(2,3) by simp_all
  note rn = replaced_node [OF parts rs(4,5) c(4), folded ks'_def cs'_def]
  have "encoded_len (Internal ks' cs') \<le> 8148"
    using encoded_len_internal [OF rn(1)] encoded_len_internal [OF t(3)] rn(4) t(4) rs(2) by simp
  moreover have "ks' \<noteq> []" using t(5) rs(1) by (auto simp: ks'_def)
  moreover have "2 \<le> space s1" using c(3) Suc.prems(5) s0(4) by simp
  moreover note wbi = write_balanced_internal [OF later_ok [OF c(2)] _ rn(1,2) _ _ rn(3) n(1) dqs(1)]
  ultimately obtain res' s' ps' where wb: "write_balanced pg (Internal ks' cs') s1 = (Inr res', s')" "later s1 s'"
    "space s1 \<le> space s' + 2" "kids (tree (Suc h) (nodes s')) lo hi (ins_keys res') (ins_kids res') kvs1 ps'"
    "sep_ok lo hi res'" "distinct ps'" "set ps' = set qs1 \<union> (live s' - live s1)"
    by blast
  have "insert_rec pg (Suc (Suc h)) i key v fr0 s = (Inr (res', fr0 @ (i # fr)), s')"
    using insert_rec_internal [OF r(1) c(1) [unfolded ci_def] child_put_eq [OF wf(1) rs(1), of res, unfolded ci_def]]
      wb(1) by (simp add: ci_def ks'_def cs'_def del: insert_rec.simps)
  moreover have "rewritten s0 s' (Suc h) lo hi (ins_keys res') (ins_kids res') ((map_of kvs)(key \<mapsto> v)) ps (i # fr)"
    unfolding t(8) rewritten_def
    using wb(4) n(2) moved_Cons [OF moved_written [OF n(3) wb(2,6,7) dqs(3)] dq(3) dqs(2)] by blast
  then have "rewritten s s' (Suc h) lo hi (ins_keys res') (ins_kids res') ((map_of kvs)(key \<mapsto> v)) ps (i # fr)"
    using s0(3) by (simp add: rewritten_def)
  moreover have "later s s'" by (rule later_trans [OF same_later [OF r(2)] later_trans [OF c(2) wb(2)]])
  moreover have "space s \<le> space s' + 2 * (Suc h + 1)" using c(3) wb(3) s0(4) by simp
  ultimately show ?case using wb(5) by blast
qed

lemma root_split:
  assumes "ok s" "0 < space s" "kids (tree h (nodes s)) None None [sep] [l, r] kvs ps" "sep_ok None None (Split l sep r)"
    "distinct ps"
  shows "\<exists>i s'. write_node pg (Internal [sep] [l, r]) s = (Inr i, s') \<and> later s s' \<and> space s \<le> space s' + 1
    \<and> tree (Suc h) (nodes s') None None i kvs (i # ps) \<and> distinct (i # ps) \<and> live s' = insert i (live s) \<and> i \<notin> live s"
proof -
  have wf: "node_wf (Internal [sep] [l, r])" using assms(4) by (auto simp: sep_ok_def)
  have co: "cells_ok (Internal [sep] [l, r])" using assms(4) by (auto simp: sep_ok_def cells_ok_def)
  have fit: "encoded_len (Internal [sep] [l, r]) \<le> CAP"
    using encoded_len_internal [OF wf] assms(4) by (simp add: sep_ok_def)
  from write_node_ok [OF assms(1,2) wf fit] obtain i s' where w: "write_node pg (Internal [sep] [l, r]) s = (Inr i, s')"
    "later s s'" "i \<notin> live s" "live s' = insert i (live s)" "nodes s' i = Some (Internal [sep] [l, r])"
    "space s' = space s - 1" by blast
  have "tree (Suc h) (nodes s') None None i kvs (i # ps)"
    by (rule internal_tree [OF w(5) co wf fit _ _ later_kids [OF w(2) assms(3)]]) (simp_all add: within_def)
  moreover have "i \<notin> set ps" using kids_live [OF assms(3)] w(3) by blast
  ultimately show ?thesis using w assms(5) by auto
qed

end

section \<open>A tree as a map\<close>

text \<open>What the pages under a root hold: a finite map, together with the pages occupied.\<close>

definition holds :: "(PageId \<rightharpoonup> Node) \<Rightarrow> nat \<Rightarrow> PageId \<Rightarrow> (bytes \<rightharpoonup> bytes) \<Rightarrow> PageId set \<Rightarrow> bool" where
  "holds m h root f P \<longleftrightarrow> (\<exists>kvs ps. tree h m None None root kvs ps \<and> distinct ps \<and> map_of kvs = f \<and> set ps = P)"

lemma holds_finite: "holds m h root f P \<Longrightarrow> finite (dom f) \<and> finite P \<and> root \<in> P"
  by (cases h) (auto simp: holds_def finite_dom_map_of)

lemma within_all [simp]: "within None None k"
  by (simp add: within_def)

context page_store
begin

lemma holds_later: "later s s' \<Longrightarrow> holds (nodes s) h root f P \<Longrightarrow> holds (nodes s') h root f P"
  unfolding holds_def using later_tree by blast

lemma holds_live: "holds (nodes s) h root f P \<Longrightarrow> P \<subseteq> live s"
  unfolding holds_def using tree_live by blast

lemma holds_lookup:
  assumes "ok s" "holds (nodes s) h root f P"
  shows "\<exists>s'. tree_lookup pg (Suc h) root key s = (Inr (f key), s') \<and> same s s'"
  using assms lookup_correct [OF assms(1) _ within_all] unfolding holds_def by blast

lemma create_holds:
  assumes "ok s" "0 < space s"
  shows "\<exists>i s'. create pg s = (Inr i, s') \<and> later s s' \<and> holds (nodes s') 0 i Map.empty {i} \<and> i \<notin> live s
    \<and> live s' = insert i (live s) \<and> space s \<le> space s' + 1"
proof -
  have n: "node_wf (Leaf [] [])" "encoded_len (Leaf [] []) \<le> CAP" "cells_ok (Leaf [] [])"
    by (simp_all add: encoded_len_leaf cells_ok_def leaf_cells_def)
  from write_node_ok [OF assms n(1,2)] obtain i s' where w: "write_node pg (Leaf [] []) s = (Inr i, s')" "later s s'"
    "i \<notin> live s" "live s' = insert i (live s)" "nodes s' i = Some (Leaf [] [])" "space s' = space s - 1" by blast
  have "tree 0 (nodes s') None None i (zip [] []) [i]" by (rule leaf_tree [of "nodes s'", OF w(5) n(3,1,2)]) simp_all
  then have "holds (nodes s') 0 i Map.empty {i}" unfolding holds_def by fastforce
  then show ?thesis using w by (auto simp: create_def empty_leaf_def)
qed

theorem insert_holds:
  assumes "ok s" "holds (nodes s) h root f P" "entry_ok key v" "2 * h + 3 \<le> space s"
  shows "\<exists>e s' h'. tree_insert pg (Suc h) root key v s = (Inr e, s') \<and> later s s' \<and> h' \<le> Suc h
    \<and> holds (nodes s') h' (new_root e) (f(key \<mapsto> v)) ((P \<union> (live s' - live s)) - set (freed e))
    \<and> distinct (freed e) \<and> set (freed e) \<subseteq> P \<union> (live s' - live s) \<and> space s \<le> space s' + (2 * h + 3)"
proof -
  from assms(2) obtain kvs ps where t: "tree h (nodes s) None None root kvs ps" "distinct ps" "map_of kvs = f" "set ps = P"
    unfolding holds_def by blast
  have sp: "2 * (h + 1) \<le> space s" using assms(4) by simp
  from insert_rec_correct [OF assms(1) t(1) within_all assms(3) sp t(2), of "[]"] obtain res s1 fr where r:
    "insert_rec pg (Suc h) root key v [] s = (Inr (res, fr), s1)" "later s s1" "space s \<le> space s1 + 2 * (h + 1)"
    "sep_ok None None res" "rewritten s s1 h None None (ins_keys res) (ins_kids res) ((map_of kvs)(key \<mapsto> v)) ps fr" by auto
  from r(5) obtain kvs' ps' where k: "kids (tree h (nodes s1)) None None (ins_keys res) (ins_kids res) kvs' ps'"
    "map_of kvs' = f(key \<mapsto> v)" "moved (live s) (live s1) ps ps' fr" unfolding rewritten_def t(3) by blast
  have ce: "check_entry key v = Inr ()" using assms(3) check_entry_iff by blast
  show ?thesis
  proof (cases res)
    case (Updated c)
    have "tree_insert pg (Suc h) root key v s = (Inr \<lparr> new_root = c, freed = fr \<rparr>, s1)"
      using r(1) ce Updated by (simp add: tree_insert_def del: insert_rec.simps)
    moreover have "holds (nodes s1) h c (f(key \<mapsto> v)) ((P \<union> (live s1 - live s)) - set fr)"
      using k Updated t(4) unfolding holds_def moved_def by (auto simp del: tree.simps)
    ultimately show ?thesis using r(2,3) k(3) t(4)
      by (intro exI [of _ "\<lparr> new_root = c, freed = fr \<rparr>"] exI [of _ s1] exI [of _ h]) (auto simp: moved_def)
  next
    case (Split l sep rr)
    have sp1: "0 < space s1" using r(3) assms(4) by simp
    have d: "distinct ps'" using k(3) by (simp add: moved_def)
    from root_split [OF later_ok [OF r(2)] sp1 _ _ d] k(1) r(4) Split obtain i s' where w:
      "write_node pg (Internal [sep] [l, rr]) s1 = (Inr i, s')" "later s1 s'" "space s1 \<le> space s' + 1"
      "tree (Suc h) (nodes s') None None i kvs' (i # ps')" "distinct (i # ps')" "live s' = insert i (live s1)" "i \<notin> live s1"
      by (metis ins_keys.simps(2) ins_kids.simps(2))
    have "moved (live s) (live s') ps (i # ps') fr"
      using moved_written [OF k(3) w(2,5) _ tree_live [OF t(1)]] w(6,7) by auto
    moreover have "tree_insert pg (Suc h) root key v s = (Inr \<lparr> new_root = i, freed = fr \<rparr>, s')"
      using r(1) ce Split w(1) by (simp add: tree_insert_def del: insert_rec.simps)
    moreover have "holds (nodes s') (Suc h) i (f(key \<mapsto> v)) (set (i # ps'))" using w(4,5) k(2) unfolding holds_def by blast
    ultimately show ?thesis using later_trans [OF r(2) w(2)] r(3) w(3) t(4)
      by (intro exI [of _ "\<lparr> new_root = i, freed = fr \<rparr>"] exI [of _ s'] exI [of _ "Suc h"]) (auto simp: moved_def)
  qed
qed

end

end
