(* ===== verification/BTreeCursor.thy ===== *)
theory BTreeCursor
  imports BTreeInsert
begin

text \<open>
  The range cursor (\<open>crates/btree/src/cursor.rs\<close>): a stack of nodes from the root to a leaf, the
  innermost frame first. Descents take a depth budget and the stepping and collecting loops a step
  budget; running out is the error \<open>None\<close>. A scan yields exactly the entries of the range, in order
  or in reverse.
\<close>

section \<open>Cursor operations\<close>

datatype Direction = Forward | Backward

record Frame =
  fnode :: Node
  fidx :: nat

record Cursor =
  cdir :: Direction
  clo :: "bytes option"
  chi :: "bytes option"
  cpath :: "Frame list"

fun descend_lower_bound :: "'s page_ops \<Rightarrow> nat \<Rightarrow> PageId \<Rightarrow> bytes option \<Rightarrow> Frame list \<Rightarrow> ('s, Frame list) tm" where
  "descend_lower_bound pg 0 pid bound path = st_throw None"
| "descend_lower_bound pg (Suc n) pid bound path =
     st_bind (read_node pg pid) (\<lambda>node.
       case node of
         Internal ks cs \<Rightarrow>
           (let ci = (case bound of None \<Rightarrow> 0 | Some b \<Rightarrow> partition_point (\<lambda>k. k \<le> b) ks)
            in descend_lower_bound pg n (cs ! ci) bound (\<lparr> fnode = node, fidx = ci \<rparr> # path))
       | Leaf ks vs \<Rightarrow>
           (let start = (case bound of None \<Rightarrow> 0 | Some b \<Rightarrow> partition_point (\<lambda>k. k < b) ks)
            in st_return (\<lparr> fnode = node, fidx = start \<rparr> # path)))"

fun descend_leftmost :: "'s page_ops \<Rightarrow> nat \<Rightarrow> PageId \<Rightarrow> Frame list \<Rightarrow> ('s, Frame list) tm" where
  "descend_leftmost pg 0 pid path = st_throw None"
| "descend_leftmost pg (Suc n) pid path =
     st_bind (read_node pg pid) (\<lambda>node.
       case node of
         Internal ks cs \<Rightarrow> descend_leftmost pg n (cs ! 0) (\<lparr> fnode = node, fidx = 0 \<rparr> # path)
       | Leaf ks vs \<Rightarrow> st_return (\<lparr> fnode = node, fidx = 0 \<rparr> # path))"

fun descend_rightmost :: "'s page_ops \<Rightarrow> nat \<Rightarrow> PageId \<Rightarrow> Frame list \<Rightarrow> ('s, Frame list) tm" where
  "descend_rightmost pg 0 pid path = st_throw None"
| "descend_rightmost pg (Suc n) pid path =
     st_bind (read_node pg pid) (\<lambda>node.
       case node of
         Internal ks cs \<Rightarrow>
           (let l = length cs - 1
            in descend_rightmost pg n (cs ! l) (\<lparr> fnode = node, fidx = l \<rparr> # path))
       | Leaf ks vs \<Rightarrow> st_return (\<lparr> fnode = node, fidx = length ks \<rparr> # path))"

definition cursor_open :: "'s page_ops \<Rightarrow> nat \<Rightarrow> PageId \<Rightarrow> Direction \<Rightarrow> bytes option \<Rightarrow> bytes option \<Rightarrow> ('s, Cursor) tm" where
  "cursor_open pg n root dir lo hi =
     st_bind (case (dir, if dir = Forward then lo else hi) of
                (Backward, None) \<Rightarrow> descend_rightmost pg n root []
              | (_, b) \<Rightarrow> descend_lower_bound pg n root b []) (\<lambda>path.
     st_return \<lparr> cdir = dir, clo = lo, chi = hi, cpath = path \<rparr>)"

fun advance_to_next_subtree :: "'s page_ops \<Rightarrow> nat \<Rightarrow> Frame list \<Rightarrow> ('s, bool \<times> Frame list) tm" where
  "advance_to_next_subtree pg n [] = st_return (False, [])"
| "advance_to_next_subtree pg n (f # path) =
     (case fnode f of
        Internal ks cs \<Rightarrow>
          (let i = fidx f + 1
           in if i < length cs
              then st_bind (descend_leftmost pg n (cs ! i) (f\<lparr> fidx := i \<rparr> # path)) (\<lambda>p. st_return (True, p))
              else advance_to_next_subtree pg n path)
      | Leaf _ _ \<Rightarrow> advance_to_next_subtree pg n path)"

fun retreat_to_prev_subtree :: "'s page_ops \<Rightarrow> nat \<Rightarrow> Frame list \<Rightarrow> ('s, bool \<times> Frame list) tm" where
  "retreat_to_prev_subtree pg n [] = st_return (False, [])"
| "retreat_to_prev_subtree pg n (f # path) =
     (case fnode f of
        Internal ks cs \<Rightarrow>
          (if fidx f > 0
           then (let i = fidx f - 1
                 in st_bind (descend_rightmost pg n (cs ! i) (f\<lparr> fidx := i \<rparr> # path)) (\<lambda>p. st_return (True, p)))
           else retreat_to_prev_subtree pg n path)
      | Leaf _ _ \<Rightarrow> retreat_to_prev_subtree pg n path)"

fun leaf_at :: "Node \<Rightarrow> nat \<Rightarrow> (bytes \<times> bytes) option" where
  "leaf_at (Leaf ks vs) i = (if i < length ks then Some (ks ! i, vs ! i) else None)"
| "leaf_at (Internal ks cs) i = None"

fun next_forward :: "'s page_ops \<Rightarrow> nat \<Rightarrow> nat \<Rightarrow> Cursor \<Rightarrow> ('s, (bytes \<times> bytes) option \<times> Cursor) tm" where
  "next_forward pg n 0 c = st_throw None"
| "next_forward pg n (Suc steps) c =
     (case cpath c of
        [] \<Rightarrow> st_return (None, c)
      | f # path \<Rightarrow>
          (case leaf_at (fnode f) (fidx f) of
             Some (k, v) \<Rightarrow>
               (if (case chi c of None \<Rightarrow> False | Some hi \<Rightarrow> hi \<le> k) then st_return (None, c\<lparr> cpath := [] \<rparr>)
                else st_return (Some (k, v), c\<lparr> cpath := f\<lparr> fidx := fidx f + 1 \<rparr> # path \<rparr>))
           | None \<Rightarrow>
               st_bind (advance_to_next_subtree pg n path) (\<lambda>(found, p).
                 if found then next_forward pg n steps (c\<lparr> cpath := p \<rparr>)
                 else st_return (None, c\<lparr> cpath := p \<rparr>))))"

fun next_backward :: "'s page_ops \<Rightarrow> nat \<Rightarrow> nat \<Rightarrow> Cursor \<Rightarrow> ('s, (bytes \<times> bytes) option \<times> Cursor) tm" where
  "next_backward pg n 0 c = st_throw None"
| "next_backward pg n (Suc steps) c =
     (case cpath c of
        [] \<Rightarrow> st_return (None, c)
      | f # path \<Rightarrow>
          (case (if fidx f > 0 then leaf_at (fnode f) (fidx f - 1) else None) of
             Some (k, v) \<Rightarrow>
               (if (case clo c of None \<Rightarrow> False | Some lo \<Rightarrow> k < lo) then st_return (None, c\<lparr> cpath := [] \<rparr>)
                else st_return (Some (k, v), c\<lparr> cpath := f\<lparr> fidx := fidx f - 1 \<rparr> # path \<rparr>))
           | None \<Rightarrow>
               st_bind (retreat_to_prev_subtree pg n path) (\<lambda>(found, p).
                 if found then next_backward pg n steps (c\<lparr> cpath := p \<rparr>)
                 else st_return (None, c\<lparr> cpath := p \<rparr>))))"

definition next_entry :: "'s page_ops \<Rightarrow> nat \<Rightarrow> Cursor \<Rightarrow> ('s, (bytes \<times> bytes) option \<times> Cursor) tm" where
  "next_entry pg n c = (case cdir c of Forward \<Rightarrow> next_forward pg n n c | Backward \<Rightarrow> next_backward pg n n c)"

fun collect_all :: "'s page_ops \<Rightarrow> nat \<Rightarrow> nat \<Rightarrow> Cursor \<Rightarrow> (bytes \<times> bytes) list \<Rightarrow> ('s, (bytes \<times> bytes) list) tm" where
  "collect_all pg n 0 c out = st_throw None"
| "collect_all pg n (Suc steps) c out =
     st_bind (next_entry pg n c) (\<lambda>(item, c').
       case item of None \<Rightarrow> st_return out | Some kv \<Rightarrow> collect_all pg n steps c' (out @ [kv]))"

fun cursor_count :: "'s page_ops \<Rightarrow> nat \<Rightarrow> nat \<Rightarrow> Cursor \<Rightarrow> nat \<Rightarrow> ('s, nat) tm" where
  "cursor_count pg n 0 c k = st_throw None"
| "cursor_count pg n (Suc steps) c k =
     st_bind (next_entry pg n c) (\<lambda>(item, c').
       case item of None \<Rightarrow> st_return k | Some _ \<Rightarrow> cursor_count pg n steps c' (k + 1))"

definition tree_range_dir :: "'s page_ops \<Rightarrow> nat \<Rightarrow> PageId \<Rightarrow> Direction \<Rightarrow> bytes option \<Rightarrow> bytes option \<Rightarrow> ('s, Cursor) tm" where
  "tree_range_dir pg n root dir lo hi = cursor_open pg n root dir lo hi"

section \<open>What a path still has to yield\<close>

text \<open>A tree_row of adjacent subtrees of the same height, none of them empty.\<close>

fun tree_row :: "nat \<Rightarrow> (PageId \<rightharpoonup> Node) \<Rightarrow> PageId list \<Rightarrow> (bytes \<times> bytes) list \<Rightarrow> bool" where
  "tree_row h m [] kvs \<longleftrightarrow> kvs = []"
| "tree_row h m (c # cs) kvs \<longleftrightarrow>
     (\<exists>lo hi a p b. tree h m lo hi c a p \<and> (lo \<noteq> None \<or> hi \<noteq> None) \<and> tree_row h m cs b \<and> kvs = a @ b)"

lemma row_append: "tree_row h m (xs @ ys) kvs \<longleftrightarrow> (\<exists>a b. tree_row h m xs a \<and> tree_row h m ys b \<and> kvs = a @ b)"
proof (induction xs arbitrary: kvs)
  case (Cons x xs)
  show ?case
  proof
    assume "tree_row h m ((x # xs) @ ys) kvs"
    then obtain lo hi a p b1 b2 where "tree h m lo hi x a p" "lo \<noteq> None \<or> hi \<noteq> None" "tree_row h m xs b1" "tree_row h m ys b2"
      "kvs = (a @ b1) @ b2" unfolding append_Cons tree_row.simps Cons.IH by auto
    then show "\<exists>a b. tree_row h m (x # xs) a \<and> tree_row h m ys b \<and> kvs = a @ b" unfolding tree_row.simps by blast
  next
    assume "\<exists>a b. tree_row h m (x # xs) a \<and> tree_row h m ys b \<and> kvs = a @ b"
    then obtain lo hi a p b1 b2 where "tree h m lo hi x a p" "lo \<noteq> None \<or> hi \<noteq> None" "tree_row h m xs b1" "tree_row h m ys b2"
      "kvs = a @ (b1 @ b2)" unfolding tree_row.simps by auto
    then show "tree_row h m ((x # xs) @ ys) kvs" unfolding append_Cons tree_row.simps Cons.IH by blast
  qed
qed simp

lemma kids_row:
  "kids (tree h m) lo hi ks cs kvs ps \<Longrightarrow> ks \<noteq> [] \<or> lo \<noteq> None \<or> hi \<noteq> None \<Longrightarrow> tree_row h m cs kvs"
proof (induction cs arbitrary: lo ks kvs ps)
  case (Cons c cs)
  show ?case
  proof (cases ks)
    case Nil
    then have "cs = []" using kids_length [OF Cons.prems(1)] by simp
    then have "tree h m lo hi c kvs ps" "lo \<noteq> None \<or> hi \<noteq> None" using Cons.prems Nil by simp_all
    then show ?thesis unfolding \<open>cs = []\<close> tree_row.simps by auto
  next
    case (Cons k ks')
    with Cons.prems(1) obtain a b p q where k: "kvs = a @ b" "tree h m lo (Some k) c a p" "kids (tree h m) (Some k) hi ks' cs b q" by auto
    from Cons.IH [OF k(3)] k(1,2) show ?thesis unfolding tree_row.simps by blast
  qed
qed (use kids_length in force)

fun to_right :: "nat \<Rightarrow> (PageId \<rightharpoonup> Node) \<Rightarrow> Frame list \<Rightarrow> (bytes \<times> bytes) list \<Rightarrow> bool" where
  "to_right h m [] R \<longleftrightarrow> R = []"
| "to_right h m (f # path) R \<longleftrightarrow>
     (\<exists>ks cs a b. fnode f = Internal ks cs \<and> fidx f < length cs \<and> tree_row h m (drop (Suc (fidx f)) cs) a \<and> R = a @ b
        \<and> to_right (Suc h) m path b)"

fun to_left :: "nat \<Rightarrow> (PageId \<rightharpoonup> Node) \<Rightarrow> Frame list \<Rightarrow> (bytes \<times> bytes) list \<Rightarrow> bool" where
  "to_left h m [] R \<longleftrightarrow> R = []"
| "to_left h m (f # path) R \<longleftrightarrow>
     (\<exists>ks cs a b. fnode f = Internal ks cs \<and> fidx f < length cs \<and> tree_row h m (take (fidx f) cs) a \<and> R = rev a @ b
        \<and> to_left (Suc h) m path b)"

text \<open>The remaining entries of a forward and of a backward cursor, for a depth budget \<open>n\<close>.\<close>

definition ahead :: "(PageId \<rightharpoonup> Node) \<Rightarrow> nat \<Rightarrow> Frame list \<Rightarrow> (bytes \<times> bytes) list \<Rightarrow> bool" where
  "ahead m n path R \<longleftrightarrow> path = [] \<and> R = []
     \<or> (\<exists>ks vs i p b. path = \<lparr> fnode = Leaf ks vs, fidx = i \<rparr> # p \<and> length vs = length ks \<and> length p \<le> n
          \<and> R = drop i (zip ks vs) @ b \<and> to_right 0 m p b)"

definition behind :: "(PageId \<rightharpoonup> Node) \<Rightarrow> nat \<Rightarrow> Frame list \<Rightarrow> (bytes \<times> bytes) list \<Rightarrow> bool" where
  "behind m n path R \<longleftrightarrow> path = [] \<and> R = []
     \<or> (\<exists>ks vs i p b. path = \<lparr> fnode = Leaf ks vs, fidx = i \<rparr> # p \<and> length vs = length ks \<and> i \<le> length ks \<and> length p \<le> n
          \<and> R = rev (take i (zip ks vs)) @ b \<and> to_left 0 m p b)"

definition pending :: "(PageId \<rightharpoonup> Node) \<Rightarrow> nat \<Rightarrow> Cursor \<Rightarrow> (bytes \<times> bytes) list \<Rightarrow> bool" where
  "pending m n c R \<longleftrightarrow> (case cdir c of Forward \<Rightarrow> ahead m n (cpath c) R | Backward \<Rightarrow> behind m n (cpath c) R)"

definition goes_on :: "Cursor \<Rightarrow> bytes \<Rightarrow> bool" where
  "goes_on c k \<longleftrightarrow> (case cdir c of Forward \<Rightarrow> within None (chi c) k | Backward \<Rightarrow> within (clo c) None k)"

lemma goes_on_path [simp]: "goes_on (c\<lparr> cpath := x \<rparr>) k = goes_on c k"
  by (simp add: goes_on_def split: Direction.split)

lemma side_rows:
  "side_l (tree h m) lo ks cs kvs ps \<Longrightarrow> tree_row h m cs kvs"
  "side_r (tree h m) hi ks cs kvs ps \<Longrightarrow> tree_row h m cs kvs"
  unfolding side_l_def side_r_def using kids_row by (auto split: if_splits)

lemma partition_zip:
  fixes ks :: "bytes list" and b :: bytes
  assumes "sorted_wrt (<) ks" "length vs = length ks"
  defines "j \<equiv> partition_point (\<lambda>k. k < b) ks"
  shows "filter (\<lambda>(k, v). b \<le> k) (zip ks vs) = drop j (zip ks vs)" "filter (\<lambda>(k, v). k < b) (zip ks vs) = take j (zip ks vs)"
    "j \<le> length ks"
proof -
  have j: "j = length (takeWhile (\<lambda>k. k < b) ks)" by (simp add: j_def partition_point_def)
  have tk: "take j ks = takeWhile (\<lambda>k. k < b) ks" "drop j ks = dropWhile (\<lambda>k. k < b) ks"
    by (simp_all add: j takeWhile_eq_take [symmetric] dropWhile_eq_drop [symmetric])
  show "j \<le> length ks" by (simp add: j length_takeWhile_le)
  have lo: "\<forall>k \<in> set (take j ks). k < b" unfolding tk by (auto dest: set_takeWhileD)
  have hi: "\<forall>k \<in> set (drop j ks). b \<le> k"
  proof (cases "drop j ks")
    case (Cons k r)
    have "\<not> k < b" using hd_dropWhile [of "\<lambda>k. k < b" ks] tk(2) Cons by (metis list.distinct(1) list.sel(1))
    moreover have "sorted_wrt (<) (k # r)" using assms(1) sorted_wrt_drop Cons by metis
    ultimately show ?thesis unfolding Cons by (auto simp: not_less intro: order_trans less_imp_le)
  qed simp
  have z: "zip ks vs = zip (take j ks) (take j vs) @ zip (drop j ks) (drop j vs)"
    by (metis append_take_drop_id take_zip drop_zip)
  have a: "\<forall>kv \<in> set (zip (take j ks) (take j vs)). fst kv < b" "\<forall>kv \<in> set (zip (drop j ks) (drop j vs)). b \<le> fst kv"
    using lo hi by (auto dest: set_zip_leftD)
  have f: "filter (\<lambda>(k, v). b \<le> k) (zip (take j ks) (take j vs)) = []"
    "filter (\<lambda>(k, v). b \<le> k) (zip (drop j ks) (drop j vs)) = zip (drop j ks) (drop j vs)"
    "filter (\<lambda>(k, v). k < b) (zip (take j ks) (take j vs)) = zip (take j ks) (take j vs)"
    "filter (\<lambda>(k, v). k < b) (zip (drop j ks) (drop j vs)) = []"
    using a by (auto simp: filter_empty_conv filter_id_conv not_less not_le)
  show "filter (\<lambda>(k, v). b \<le> k) (zip ks vs) = drop j (zip ks vs)" unfolding drop_zip by (subst z) (simp add: f)
  show "filter (\<lambda>(k, v). k < b) (zip ks vs) = take j (zip ks vs)" unfolding take_zip by (subst z) (simp add: f)
qed

lemma filter_sides:
  assumes "\<forall>y \<in> fst ` set a. y < b" "\<forall>y \<in> fst ` set c. (b :: bytes) < y"
  shows "filter (\<lambda>(k, v). b \<le> k) (a @ x @ c) = filter (\<lambda>(k, v). b \<le> k) x @ c"
    "filter (\<lambda>(k, v). k < b) (a @ x @ c) = a @ filter (\<lambda>(k, v). k < b) x"
proof -
  have "filter (\<lambda>(k, v). b \<le> k) a = []" "filter (\<lambda>(k, v). b \<le> k) c = c" "filter (\<lambda>(k, v). k < b) a = a" "filter (\<lambda>(k, v). k < b) c = []"
    using assms by (auto simp: filter_empty_conv filter_id_conv not_less less_imp_le)
  then show "filter (\<lambda>(k, v). b \<le> k) (a @ x @ c) = filter (\<lambda>(k, v). b \<le> k) x @ c"
    "filter (\<lambda>(k, v). k < b) (a @ x @ c) = a @ filter (\<lambda>(k, v). k < b) x" by simp_all
qed

section \<open>Stepping\<close>

lemma row_take_drop:
  assumes "tree_row h m cs kvs" "i < length cs"
  shows "\<exists>a x b lo hi p. kvs = a @ x @ b \<and> tree_row h m (take i cs) a \<and> tree h m lo hi (cs ! i) x p \<and> (lo \<noteq> None \<or> hi \<noteq> None)
    \<and> tree_row h m (drop (Suc i) cs) b"
proof -
  have "tree_row h m (take i cs @ (cs ! i) # drop (Suc i) cs) kvs" using assms id_take_nth_drop [OF assms(2)] by simp
  then show ?thesis unfolding row_append tree_row.simps by blast
qed

context page_store
begin

lemma descend_leftmost_ok:
  assumes "ok s" "tree h (nodes s) lo hi i kvs ps" "h < n" "to_right h (nodes s) path R"
  shows "\<exists>ks vs p s' b. descend_leftmost pg n i path s = (Inr (\<lparr> fnode = Leaf ks vs, fidx = 0 \<rparr> # p), s') \<and> same s s'
    \<and> length vs = length ks \<and> length p = length path + h \<and> kvs @ R = zip ks vs @ b \<and> to_right 0 (nodes s) p b
    \<and> (lo \<noteq> None \<or> hi \<noteq> None \<longrightarrow> ks \<noteq> [])"
  using assms
proof (induction h arbitrary: s lo hi i kvs ps n path R)
  case 0
  then obtain ks vs where t: "nodes s i = Some (Leaf ks vs)" "length vs = length ks" "kvs = zip ks vs"
    "ks = [] \<longrightarrow> lo = None \<and> hi = None" by auto
  from read_node_ok [OF "0.prems"(1) t(1)] obtain s' where r: "read_node pg i s = (Inr (Leaf ks vs), s')" "same s s'" by blast
  obtain n' where "n = Suc n'" using "0.prems"(3) by (cases n) auto
  then show ?case using r t "0.prems"(4) by fastforce
next
  case (Suc h)
  from Suc.prems(2) obtain ks cs qs where t: "nodes s i = Some (Internal ks cs)" "ks \<noteq> []" "kids (tree h (nodes s)) lo hi ks cs kvs qs" by auto
  from read_node_ok [OF Suc.prems(1) t(1)] obtain s1 where r: "read_node pg i s = (Inr (Internal ks cs), s1)" "same s s1" by blast
  obtain n' where n: "n = Suc n'" "h < n'" using Suc.prems(3) by (cases n) auto
  have "tree_row h (nodes s) cs kvs" "0 < length cs" using kids_row [OF t(3)] t(2) kids_length [OF t(3)] by auto
  from row_take_drop [OF this] obtain x b lo' hi' p where k: "kvs = x @ b" "tree h (nodes s) lo' hi' (cs ! 0) x p"
    "lo' \<noteq> None \<or> hi' \<noteq> None" "tree_row h (nodes s) (drop (Suc 0) cs) b" by auto
  let ?f = "\<lparr> fnode = Internal ks cs, fidx = 0 \<rparr>"
  have "to_right h (nodes s1) (?f # path) (b @ R)"
    using k(4) Suc.prems(4) \<open>0 < length cs\<close> same_nodes [OF r(2)] by auto
  moreover have "ok s1" "tree h (nodes s1) lo' hi' (cs ! 0) x p" using r(2) k(2) same_nodes by (auto simp: same_def)
  ultimately obtain ks' vs' p' s' b' where d: "descend_leftmost pg n' (cs ! 0) (?f # path) s1 = (Inr (\<lparr> fnode = Leaf ks' vs', fidx = 0 \<rparr> # p'), s')"
    "same s1 s'" "length vs' = length ks'" "length p' = length (?f # path) + h" "x @ (b @ R) = zip ks' vs' @ b'" "to_right 0 (nodes s1) p' b'" "ks' \<noteq> []"
    using Suc.IH [of s1 lo' hi' "cs ! 0" x p n' "?f # path" "b @ R"] n(2) k(3) by blast
  then show ?case using r n(1) k(1) same_trans [OF r(2) d(2)] same_nodes [OF r(2)] by auto
qed

lemma advance_ok:
  assumes "ok s" "to_right h (nodes s) path R" "h + length path \<le> n"
  shows "\<exists>s'. same s s' \<and> (if R = [] then advance_to_next_subtree pg n path s = (Inr (False, []), s')
    else \<exists>k v ks vs p b. advance_to_next_subtree pg n path s = (Inr (True, \<lparr> fnode = Leaf (k # ks) (v # vs), fidx = 0 \<rparr> # p), s')
      \<and> length vs = length ks \<and> length p = h + length path \<and> R = (k, v) # zip ks vs @ b \<and> to_right 0 (nodes s) p b)"
  using assms
proof (induction path arbitrary: h R)
  case Nil
  then show ?case by auto
next
  case (Cons f path)
  from Cons.prems(2) obtain ks cs a b where f: "fnode f = Internal ks cs" "fidx f < length cs" "tree_row h (nodes s) (drop (Suc (fidx f)) cs) a"
    "R = a @ b" "to_right (Suc h) (nodes s) path b" by auto
  show ?case
  proof (cases "fidx f + 1 < length cs")
    case False
    then have "a = []" using f(3) by simp
    then have R: "R = b" using f(4) by simp
    have run: "advance_to_next_subtree pg n (f # path) = advance_to_next_subtree pg n path" using f(1) False by (simp add: Let_def)
    have len: "h + length (f # path) = Suc h + length path" by simp
    show ?thesis unfolding run R len using Cons.prems(3) by (intro Cons.IH [OF Cons.prems(1) f(5)]) simp
  next
    case True
    then have "0 < length (drop (Suc (fidx f)) cs)" by simp
    have e: "drop (Suc (fidx f)) cs ! 0 = cs ! Suc (fidx f)" "drop (Suc 0) (drop (Suc (fidx f)) cs) = drop (Suc (Suc (fidx f))) cs"
      using True by simp_all
    from row_take_drop [OF f(3) \<open>0 < length (drop (Suc (fidx f)) cs)\<close>] obtain x y lo hi p where k: "a = x @ y" "tree h (nodes s) lo hi (cs ! Suc (fidx f)) x p"
      "lo \<noteq> None \<or> hi \<noteq> None" "tree_row h (nodes s) (drop (Suc (Suc (fidx f))) cs) y"
      unfolding e take_0 tree_row.simps(1) by auto
    have ab: "to_right h (nodes s) (f\<lparr> fidx := fidx f + 1 \<rparr> # path) (y @ b)" using f(1,5) k(4) True by auto
    have "h < n" using Cons.prems(3) by simp
    from descend_leftmost_ok [OF Cons.prems(1) k(2) this ab] k(3) obtain ks' vs' p' s' b' where d:
      "descend_leftmost pg n (cs ! Suc (fidx f)) (f\<lparr> fidx := fidx f + 1 \<rparr> # path) s = (Inr (\<lparr> fnode = Leaf ks' vs', fidx = 0 \<rparr> # p'), s')"
      "same s s'" "length vs' = length ks'" "length p' = Suc (length path) + h" "x @ y @ b = zip ks' vs' @ b'"
      "to_right 0 (nodes s) p' b'" "ks' \<noteq> []" by auto
    obtain k0 kr v0 vr where "ks' = k0 # kr" "vs' = v0 # vr" "length vr = length kr"
      using d(3,7) by (cases ks'; cases vs') auto
    then show ?thesis using d f(1,4) k(1) True by (auto simp: Let_def)
  qed
qed

lemma descend_rightmost_ok:
  assumes "ok s" "tree h (nodes s) lo hi i kvs ps" "h < n" "to_left h (nodes s) path R"
  shows "\<exists>ks vs p s' b. descend_rightmost pg n i path s = (Inr (\<lparr> fnode = Leaf ks vs, fidx = length ks \<rparr> # p), s') \<and> same s s'
    \<and> length vs = length ks \<and> length p = length path + h \<and> rev kvs @ R = rev (zip ks vs) @ b \<and> to_left 0 (nodes s) p b
    \<and> (lo \<noteq> None \<or> hi \<noteq> None \<longrightarrow> ks \<noteq> [])"
  using assms
proof (induction h arbitrary: s lo hi i kvs ps n path R)
  case 0
  then obtain ks vs where t: "nodes s i = Some (Leaf ks vs)" "length vs = length ks" "kvs = zip ks vs"
    "ks = [] \<longrightarrow> lo = None \<and> hi = None" by auto
  from read_node_ok [OF "0.prems"(1) t(1)] obtain s' where r: "read_node pg i s = (Inr (Leaf ks vs), s')" "same s s'" by blast
  obtain n' where "n = Suc n'" using "0.prems"(3) by (cases n) auto
  then show ?case using r t "0.prems"(4) by fastforce
next
  case (Suc h)
  from Suc.prems(2) obtain ks cs qs where t: "nodes s i = Some (Internal ks cs)" "ks \<noteq> []" "kids (tree h (nodes s)) lo hi ks cs kvs qs" by auto
  from read_node_ok [OF Suc.prems(1) t(1)] obtain s1 where r: "read_node pg i s = (Inr (Internal ks cs), s1)" "same s s1" by blast
  obtain n' where n: "n = Suc n'" "h < n'" using Suc.prems(3) by (cases n) auto
  let ?l = "length cs - 1"
  have cs: "tree_row h (nodes s) cs kvs" "?l < length cs" using kids_row [OF t(3)] t(2) kids_length [OF t(3)] by auto
  have "drop (Suc ?l) cs = []" by simp
  with row_take_drop [OF cs] obtain x a lo' hi' p where k: "kvs = a @ x" "tree h (nodes s) lo' hi' (cs ! ?l) x p"
    "lo' \<noteq> None \<or> hi' \<noteq> None" "tree_row h (nodes s) (take ?l cs) a" by auto
  let ?f = "\<lparr> fnode = Internal ks cs, fidx = ?l \<rparr>"
  have "to_left h (nodes s1) (?f # path) (rev a @ R)"
    using k(4) Suc.prems(4) cs(2) same_nodes [OF r(2)] by auto
  moreover have "ok s1" "tree h (nodes s1) lo' hi' (cs ! ?l) x p" using r(2) k(2) same_nodes by (auto simp: same_def)
  ultimately obtain ks' vs' p' s' b' where d: "descend_rightmost pg n' (cs ! ?l) (?f # path) s1 = (Inr (\<lparr> fnode = Leaf ks' vs', fidx = length ks' \<rparr> # p'), s')"
    "same s1 s'" "length vs' = length ks'" "length p' = length (?f # path) + h" "rev x @ (rev a @ R) = rev (zip ks' vs') @ b'"
    "to_left 0 (nodes s1) p' b'" "ks' \<noteq> []"
    using Suc.IH [of s1 lo' hi' "cs ! ?l" x p n' "?f # path" "rev a @ R"] n(2) k(3) by blast
  then show ?case using r n(1) k(1) same_trans [OF r(2) d(2)] same_nodes [OF r(2)] by (auto simp: Let_def)
qed

lemma retreat_ok:
  assumes "ok s" "to_left h (nodes s) path R" "h + length path \<le> n"
  shows "\<exists>s'. same s s' \<and> (if R = [] then retreat_to_prev_subtree pg n path s = (Inr (False, []), s')
    else \<exists>ks vs p b. retreat_to_prev_subtree pg n path s = (Inr (True, \<lparr> fnode = Leaf ks vs, fidx = length ks \<rparr> # p), s')
      \<and> ks \<noteq> [] \<and> length vs = length ks \<and> length p = h + length path \<and> R = rev (zip ks vs) @ b \<and> to_left 0 (nodes s) p b)"
  using assms
proof (induction path arbitrary: h R)
  case Nil
  then show ?case by auto
next
  case (Cons f path)
  from Cons.prems(2) obtain ks cs a b where f: "fnode f = Internal ks cs" "fidx f < length cs" "tree_row h (nodes s) (take (fidx f) cs) a"
    "R = rev a @ b" "to_left (Suc h) (nodes s) path b" by auto
  show ?case
  proof (cases "fidx f")
    case 0
    then have R: "R = b" using f(3,4) by simp
    have run: "retreat_to_prev_subtree pg n (f # path) = retreat_to_prev_subtree pg n path" using f(1) 0 by simp
    have len: "h + length (f # path) = Suc h + length path" by simp
    show ?thesis unfolding run R len using Cons.prems(3) by (intro Cons.IH [OF Cons.prems(1) f(5)]) simp
  next
    case (Suc j)
    have j: "j < length (take (fidx f) cs)" "take j (take (fidx f) cs) = take j cs" "take (fidx f) cs ! j = cs ! j"
      "drop (Suc j) (take (fidx f) cs) = []" using f(2) Suc by (simp_all add: min_def)
    from row_take_drop [OF f(3) j(1)] obtain x y lo hi p where k: "a = y @ x" "tree h (nodes s) lo hi (cs ! j) x p"
      "lo \<noteq> None \<or> hi \<noteq> None" "tree_row h (nodes s) (take j cs) y" unfolding j(2-4) tree_row.simps(1) by auto
    have ab: "to_left h (nodes s) (f\<lparr> fidx := j \<rparr> # path) (rev y @ b)" using f(1,2,5) k(4) Suc by auto
    have "h < n" using Cons.prems(3) by simp
    from descend_rightmost_ok [OF Cons.prems(1) k(2) this ab] k(3) obtain ks' vs' p' s' b' where d:
      "descend_rightmost pg n (cs ! j) (f\<lparr> fidx := j \<rparr> # path) s = (Inr (\<lparr> fnode = Leaf ks' vs', fidx = length ks' \<rparr> # p'), s')"
      "same s s'" "length vs' = length ks'" "length p' = Suc (length path) + h" "rev x @ rev y @ b = rev (zip ks' vs') @ b'"
      "to_left 0 (nodes s) p' b'" "ks' \<noteq> []" by auto
    have "zip ks' vs' \<noteq> []" using d(3,7) by (cases ks'; cases vs') auto
    then show ?thesis using d f(1,4) k(1) Suc by (auto simp: Let_def)
  qed
qed

definition stepped :: "'s \<Rightarrow> 's \<Rightarrow> nat \<Rightarrow> Cursor \<Rightarrow> (bytes \<times> bytes) list \<Rightarrow> (bytes \<times> bytes) option \<Rightarrow> Cursor \<Rightarrow> bool" where
  "stepped s s' n c R item c' \<longleftrightarrow> same s s' \<and> cdir c' = cdir c \<and> clo c' = clo c \<and> chi c' = chi c
     \<and> (case R of
          [] \<Rightarrow> item = None
        | kv # R' \<Rightarrow> (if goes_on c (fst kv) then item = Some kv \<and> pending (nodes s) n c' R' else item = None))"

lemma forward_leaf:
  assumes "cdir c = Forward" "cpath c = \<lparr> fnode = Leaf ks vs, fidx = i \<rparr> # p" "length vs = length ks" "length p \<le> n"
    "i < length ks" "to_right 0 (nodes s) p b" "ok s"
  shows "\<exists>item c'. next_forward pg n (Suc m) c s = (Inr (item, c'), s) \<and> stepped s s n c (drop i (zip ks vs) @ b) item c'"
proof -
  have d: "drop i (zip ks vs) = (ks ! i, vs ! i) # drop (Suc i) (zip ks vs)" using assms(3,5) by (simp add: Cons_nth_drop_Suc [symmetric])
  have g: "goes_on c (ks ! i) \<longleftrightarrow> \<not> (case chi c of None \<Rightarrow> False | Some hi \<Rightarrow> hi \<le> ks ! i)"
    using assms(1) by (auto simp: goes_on_def within_def not_le split: option.split)
  have "pending (nodes s) n (c\<lparr> cpath := \<lparr> fnode = Leaf ks vs, fidx = i + 1 \<rparr> # p \<rparr>) (drop (Suc i) (zip ks vs) @ b)"
    using assms by (auto simp: pending_def ahead_def)
  then show ?thesis using assms(2,5,7) d g by (auto simp: stepped_def)
qed

lemma next_forward_ok:
  assumes "ok s" "cdir c = Forward" "pending (nodes s) n c R"
  shows "\<exists>item c' s'. next_forward pg n (Suc (Suc m)) c s = (Inr (item, c'), s') \<and> stepped s s' n c R item c'"
proof (cases "cpath c")
  case Nil
  then have "R = []" using assms(2,3) by (auto simp: pending_def ahead_def)
  then show ?thesis using Nil assms(1) by (auto simp: stepped_def)
next
  case (Cons f p)
  with assms(2,3) obtain ks vs i b where f: "f = \<lparr> fnode = Leaf ks vs, fidx = i \<rparr>" "length vs = length ks" "length p \<le> n"
    "R = drop i (zip ks vs) @ b" "to_right 0 (nodes s) p b" by (auto simp: pending_def ahead_def)
  show ?thesis
  proof (cases "i < length ks")
    case True
    then show ?thesis using forward_leaf [OF assms(2) Cons [unfolded f(1)] f(2,3) True f(5) assms(1)] f(4) by blast
  next
    case False
    then have R: "R = b" using f(2,4) by simp
    have la: "leaf_at (fnode f) (fidx f) = None" using False f(1) by simp
    have "0 + length p \<le> n" using f(3) by simp
    from advance_ok [OF assms(1) f(5) this] obtain s1 where s1: "same s s1"
      "if b = [] then advance_to_next_subtree pg n p s = (Inr (False, []), s1)
       else \<exists>k v ks vs q b'. advance_to_next_subtree pg n p s = (Inr (True, \<lparr> fnode = Leaf (k # ks) (v # vs), fidx = 0 \<rparr> # q), s1)
         \<and> length vs = length ks \<and> length q = 0 + length p \<and> b = (k, v) # zip ks vs @ b' \<and> to_right 0 (nodes s) q b'" by blast
    show ?thesis
    proof (cases "b = []")
      case True
      then show ?thesis using s1 Cons la R by (auto simp: stepped_def)
    next
      case False
      with s1(2) obtain k v ks' vs' q b' where a: "advance_to_next_subtree pg n p s = (Inr (True, \<lparr> fnode = Leaf (k # ks') (v # vs'), fidx = 0 \<rparr> # q), s1)"
        "length vs' = length ks'" "length q \<le> n" "b = (k, v) # zip ks' vs' @ b'" "to_right 0 (nodes s) q b'" using f(3) by auto
      define c1 where "c1 = c\<lparr> cpath := \<lparr> fnode = Leaf (k # ks') (v # vs'), fidx = 0 \<rparr> # q \<rparr>"
      have "\<exists>item c'. next_forward pg n (Suc m) c1 s1 = (Inr (item, c'), s1)
          \<and> stepped s1 s1 n c1 (drop 0 (zip (k # ks') (v # vs')) @ b') item c'"
        using a assms(2) s1(1) same_nodes [OF s1(1)] by (intro forward_leaf) (auto simp: c1_def same_def)
      then obtain item c' where st: "next_forward pg n (Suc m) c1 s1 = (Inr (item, c'), s1)" "stepped s1 s1 n c1 b item c'"
        using a(4) by auto
      have "next_forward pg n (Suc (Suc m)) c s = (Inr (item, c'), s1)"
        using Cons la a(1) st(1) by (simp add: c1_def del: next_forward.simps(2)) (simp add: c1_def)
      moreover have "stepped s s1 n c R item c'"
        using st(2) s1(1) same_nodes [OF s1(1)] R by (auto simp: stepped_def c1_def split: list.splits if_splits)
      ultimately show ?thesis by blast
    qed
  qed
qed

lemma backward_leaf:
  assumes "cdir c = Backward" "cpath c = \<lparr> fnode = Leaf ks vs, fidx = Suc i \<rparr> # p" "length vs = length ks" "length p \<le> n"
    "Suc i \<le> length ks" "to_left 0 (nodes s) p b" "ok s"
  shows "\<exists>item c'. next_backward pg n (Suc m) c s = (Inr (item, c'), s) \<and> stepped s s n c (rev (take (Suc i) (zip ks vs)) @ b) item c'"
proof -
  have d: "rev (take (Suc i) (zip ks vs)) = (ks ! i, vs ! i) # rev (take i (zip ks vs))"
    using assms(3,5) by (simp add: take_Suc_conv_app_nth)
  have g: "goes_on c (ks ! i) \<longleftrightarrow> \<not> (case clo c of None \<Rightarrow> False | Some lo \<Rightarrow> ks ! i < lo)"
    using assms(1) by (auto simp: goes_on_def within_def not_less split: option.split)
  have "pending (nodes s) n (c\<lparr> cpath := \<lparr> fnode = Leaf ks vs, fidx = i \<rparr> # p \<rparr>) (rev (take i (zip ks vs)) @ b)"
    using assms by (auto simp: pending_def behind_def)
  then show ?thesis using assms(2,5,7) d g by (auto simp: stepped_def)
qed

lemma next_backward_ok:
  assumes "ok s" "cdir c = Backward" "pending (nodes s) n c R"
  shows "\<exists>item c' s'. next_backward pg n (Suc (Suc m)) c s = (Inr (item, c'), s') \<and> stepped s s' n c R item c'"
proof (cases "cpath c")
  case Nil
  then have "R = []" using assms(2,3) by (auto simp: pending_def behind_def)
  then show ?thesis using Nil assms(1) by (auto simp: stepped_def)
next
  case (Cons f p)
  with assms(2,3) obtain ks vs i b where f: "f = \<lparr> fnode = Leaf ks vs, fidx = i \<rparr>" "length vs = length ks" "length p \<le> n"
    "R = rev (take i (zip ks vs)) @ b" "to_left 0 (nodes s) p b" "i \<le> length ks" by (auto simp: pending_def behind_def)
  show ?thesis
  proof (cases i)
    case (Suc j)
    have le: "Suc j \<le> length ks" using f(6) Suc by simp
    show ?thesis using backward_leaf [OF assms(2) Cons [unfolded f(1) Suc] f(2,3) le f(5) assms(1)] unfolding f(4) Suc by blast
  next
    case 0
    then have R: "R = b" using f(4) by simp
    have la: "fidx f = 0" using 0 f(1) by simp
    have "0 + length p \<le> n" using f(3) by simp
    from retreat_ok [OF assms(1) f(5) this] obtain s1 where s1: "same s s1"
      "if b = [] then retreat_to_prev_subtree pg n p s = (Inr (False, []), s1)
       else \<exists>ks vs q b'. retreat_to_prev_subtree pg n p s = (Inr (True, \<lparr> fnode = Leaf ks vs, fidx = length ks \<rparr> # q), s1)
         \<and> ks \<noteq> [] \<and> length vs = length ks \<and> length q = 0 + length p \<and> b = rev (zip ks vs) @ b' \<and> to_left 0 (nodes s) q b'" by blast
    show ?thesis
    proof (cases "b = []")
      case True
      then show ?thesis using s1 Cons la R by (auto simp: stepped_def)
    next
      case False
      with s1(2) have "\<exists>ks vs q b'. retreat_to_prev_subtree pg n p s = (Inr (True, \<lparr> fnode = Leaf ks vs, fidx = length ks \<rparr> # q), s1)
         \<and> ks \<noteq> [] \<and> length vs = length ks \<and> length q = 0 + length p \<and> b = rev (zip ks vs) @ b' \<and> to_left 0 (nodes s) q b'"
        by (simp only: if_False simp_thms)
      then obtain ks' vs' q b' where a: "retreat_to_prev_subtree pg n p s = (Inr (True, \<lparr> fnode = Leaf ks' vs', fidx = length ks' \<rparr> # q), s1)"
        "ks' \<noteq> []" "length vs' = length ks'" "length q \<le> n" "b = rev (zip ks' vs') @ b'" "to_left 0 (nodes s) q b'" using f(3) by (metis add_0)
      obtain j where j: "length ks' = Suc j" using a(2) by (cases ks') auto
      define c1 where "c1 = c\<lparr> cpath := \<lparr> fnode = Leaf ks' vs', fidx = Suc j \<rparr> # q \<rparr>"
      have "\<exists>item c'. next_backward pg n (Suc m) c1 s1 = (Inr (item, c'), s1)
          \<and> stepped s1 s1 n c1 (rev (take (Suc j) (zip ks' vs')) @ b') item c'"
        using a j assms(2) s1(1) same_nodes [OF s1(1)] by (intro backward_leaf) (auto simp: c1_def same_def)
      then obtain item c' where st: "next_backward pg n (Suc m) c1 s1 = (Inr (item, c'), s1)" "stepped s1 s1 n c1 b item c'"
        using a(3,5) j by auto
      have "next_backward pg n (Suc (Suc m)) c s = (Inr (item, c'), s1)"
        using Cons la a(1) j st(1) by (simp add: c1_def del: next_backward.simps(2)) (simp add: c1_def)
      moreover have "stepped s s1 n c R item c'"
        using st(2) s1(1) same_nodes [OF s1(1)] R by (auto simp: stepped_def c1_def split: list.splits if_splits)
      ultimately show ?thesis by blast
    qed
  qed
qed

lemma next_entry_ok:
  assumes "ok s" "pending (nodes s) n c R" "2 \<le> n"
  shows "\<exists>item c' s'. next_entry pg n c s = (Inr (item, c'), s') \<and> stepped s s' n c R item c'"
proof -
  obtain m where n: "n = Suc (Suc m)" using assms(3) by (metis Suc_le_D numeral_2_eq_2 Suc_le_mono)
  show ?thesis
  proof (cases "cdir c")
    case Forward
    then show ?thesis using next_forward_ok [OF assms(1) Forward assms(2), of m] n by (simp add: next_entry_def del: next_forward.simps)
  next
    case Backward
    then show ?thesis using next_backward_ok [OF assms(1) Backward assms(2), of m] n by (simp add: next_entry_def del: next_backward.simps)
  qed
qed

lemma stepped_goes_on: "stepped s s' n c R item c' \<Longrightarrow> goes_on c' = goes_on c"
  by (auto simp: stepped_def goes_on_def fun_eq_iff split: Direction.split)

lemma collect_all_ok:
  assumes "ok s" "pending (nodes s) n c R" "2 \<le> n" "length R < steps"
  shows "\<exists>s'. collect_all pg n steps c out s = (Inr (out @ takeWhile (\<lambda>kv. goes_on c (fst kv)) R), s') \<and> same s s'"
  using assms(1,2,4)
proof (induction steps arbitrary: s c R out)
  case (Suc steps)
  from next_entry_ok [OF Suc.prems(1,2) assms(3)] obtain item c' s1 where st:
    "next_entry pg n c s = (Inr (item, c'), s1)" "stepped s s1 n c R item c'" by blast
  have s1: "same s s1" using st(2) by (simp add: stepped_def)
  show ?case
  proof (cases "R \<noteq> [] \<and> goes_on c (fst (hd R))")
    case False
    then have "item = None" "takeWhile (\<lambda>kv. goes_on c (fst kv)) R = []" using st(2) by (cases R; simp add: stepped_def)+
    then show ?thesis using st(1) s1 by simp
  next
    case True
    then obtain kv R' where R: "R = kv # R'" "goes_on c (fst kv)" by (cases R) auto
    then have i: "item = Some kv" "pending (nodes s1) n c' R'" using st(2) same_nodes [OF s1] by (simp_all add: stepped_def)
    have "ok s1" "length R' < steps" using s1 Suc.prems(3) R(1) by (simp_all add: same_def)
    from Suc.IH [OF this(1) i(2) this(2), of "out @ [kv]"] obtain s' where
      "collect_all pg n steps c' (out @ [kv]) s1 = (Inr ((out @ [kv]) @ takeWhile (\<lambda>kv. goes_on c' (fst kv)) R'), s')" "same s1 s'" by blast
    then show ?thesis using st(1) i(1) R stepped_goes_on [OF st(2)] same_trans [OF s1] by auto
  qed
qed simp

section \<open>Opening\<close>

lemma descend_lower_bound_ok:
  assumes "ok s" "tree h (nodes s) lo hi i kvs ps" "h < n" "within lo hi b"
    "to_right h (nodes s) path R" "to_left h (nodes s) path L"
  shows "\<exists>ks vs j p s' R' L'. descend_lower_bound pg n i (Some b) path s = (Inr (\<lparr> fnode = Leaf ks vs, fidx = j \<rparr> # p), s') \<and> same s s'
    \<and> length vs = length ks \<and> j \<le> length ks \<and> length p = length path + h
    \<and> to_right 0 (nodes s) p R' \<and> filter (\<lambda>(k, v). b \<le> k) kvs @ R = drop j (zip ks vs) @ R'
    \<and> to_left 0 (nodes s) p L' \<and> rev (filter (\<lambda>(k, v). k < b) kvs) @ L = rev (take j (zip ks vs)) @ L'"
  using assms
proof (induction h arbitrary: s lo hi i kvs ps n path R L)
  case 0
  then obtain ks vs where t: "nodes s i = Some (Leaf ks vs)" "length vs = length ks" "kvs = zip ks vs" "sorted_wrt (<) ks" by auto
  from read_node_ok [OF "0.prems"(1) t(1)] obtain s' where r: "read_node pg i s = (Inr (Leaf ks vs), s')" "same s s'" by blast
  obtain n' where n: "n = Suc n'" using "0.prems"(3) by (cases n) auto
  let ?j = "partition_point (\<lambda>k. k < b) ks"
  have "filter (\<lambda>(k, v). b \<le> k) kvs = drop ?j (zip ks vs)" "filter (\<lambda>(k, v). k < b) kvs = take ?j (zip ks vs)"
    "?j \<le> length ks" unfolding t(3) by (rule partition_zip [OF t(4,2)])+
  then show ?case using r t(2) n "0.prems"(5,6) by (auto simp: Let_def)
next
  case (Suc h)
  from Suc.prems(2) obtain ks cs qs where t: "nodes s i = Some (Internal ks cs)" "ks \<noteq> []" "kids (tree h (nodes s)) lo hi ks cs kvs qs"
    "sorted_wrt (<) ks" "\<forall>k \<in> set ks. within lo hi k" by auto
  from read_node_ok [OF Suc.prems(1) t(1)] obtain s1 where r: "read_node pg i s = (Inr (Internal ks cs), s1)" "same s s1" by blast
  obtain n' where n: "n = Suc n'" "h < n'" using Suc.prems(3) by (cases n) auto
  define ci where "ci = route_index ks b"
  note len = kids_length [OF t(3)]
  have ci: "ci < length cs" using route_split(1) [OF len, of b] len by (simp add: ci_def)
  from kids_route [OF t(3,4,5) Suc.prems(4), folded ci_def] obtain a x c p q rr where k0: "kvs = a @ x @ c" "qs = p @ q @ rr"
    "side_l (tree h (nodes s)) lo (take ci ks) (take ci cs) a p"
    "tree h (nodes s) (lo_of lo (take ci ks)) (hi_of hi (drop ci ks)) (cs ! ci) x q"
    "side_r (tree h (nodes s)) hi (drop ci ks) (drop (Suc ci) cs) c rr"
    "\<forall>y \<in> fst ` set a. y < b" "\<forall>y \<in> fst ` set c. b < y" by (elim exE conjE) (rule that)
  note k = k0(1,3-7)
  have w: "within (lo_of lo (take ci ks)) (hi_of hi (drop ci ks)) b"
    unfolding ci_def by (rule route_bounds [OF len Suc.prems(4) t(4)])
  have rows: "tree_row h (nodes s) (take ci cs) a" "tree_row h (nodes s) (drop (Suc ci) cs) c"
    using side_rows(1) [OF k(2)] side_rows(2) [OF k(4)] by blast+
  let ?f = "\<lparr> fnode = Internal ks cs, fidx = ci \<rparr>"
  have tr: "to_right h (nodes s1) (?f # path) (c @ R)" "to_left h (nodes s1) (?f # path) (rev a @ L)"
    using rows ci Suc.prems(5,6) same_nodes [OF r(2)] by auto
  have s1: "ok s1" "tree h (nodes s1) (lo_of lo (take ci ks)) (hi_of hi (drop ci ks)) (cs ! ci) x q"
    using r(2) k(3) same_nodes by (auto simp: same_def)
  from Suc.IH [OF s1 n(2) w tr] obtain ks' vs' j p' s' R' L' where d:
    "descend_lower_bound pg n' (cs ! ci) (Some b) (?f # path) s1 = (Inr (\<lparr> fnode = Leaf ks' vs', fidx = j \<rparr> # p'), s')" "same s1 s'"
    "length vs' = length ks'" "j \<le> length ks'" "length p' = length (?f # path) + h" "to_right 0 (nodes s1) p' R'"
    "filter (\<lambda>(k, v). b \<le> k) x @ c @ R = drop j (zip ks' vs') @ R'" "to_left 0 (nodes s1) p' L'"
    "rev (filter (\<lambda>(k, v). k < b) x) @ rev a @ L = rev (take j (zip ks' vs')) @ L'" by blast
  have fl: "filter (\<lambda>(k, v). b \<le> k) kvs = filter (\<lambda>(k, v). b \<le> k) x @ c" "filter (\<lambda>(k, v). k < b) kvs = a @ filter (\<lambda>(k, v). k < b) x"
    using filter_sides [OF k(5,6)] unfolding k(1) by simp_all
  have run: "descend_lower_bound pg n i (Some b) path s = (Inr (\<lparr> fnode = Leaf ks' vs', fidx = j \<rparr> # p'), s')"
    using r(1) n(1) d(1) by (simp add: Let_def ci_def route_index_def)
  show ?case using run same_trans [OF r(2) d(2)] d(3-9) fl same_nodes [OF r(2)] by auto
qed

end

section \<open>A whole scan\<close>

definition in_order :: "Direction \<Rightarrow> bytes list \<Rightarrow> bool" where
  "in_order dir ks \<longleftrightarrow> (case dir of Forward \<Rightarrow> sorted_wrt (<) ks | Backward \<Rightarrow> sorted_wrt (\<lambda>x y. y < x) ks)"

lemma takeWhile_filter: "sorted_wrt (\<lambda>x y. P y \<longrightarrow> P x) xs \<Longrightarrow> takeWhile P xs = filter P xs"
  by (induction xs) (auto simp: filter_empty_conv)

lemma descend_unbounded: "descend_lower_bound pg n i None path = descend_leftmost pg n i path"
  by (induction n arbitrary: i path) (simp_all add: Let_def cong: Node.case_cong)

text \<open>The entries from the start bound on, in the order of the scan.\<close>

definition scan_from :: "Direction \<Rightarrow> bytes option \<Rightarrow> bytes option \<Rightarrow> (bytes \<times> bytes) list \<Rightarrow> (bytes \<times> bytes) list" where
  "scan_from dir lo hi kvs =
     (case dir of Forward \<Rightarrow> filter (\<lambda>(k, v). within lo None k) kvs | Backward \<Rightarrow> rev (filter (\<lambda>(k, v). within None hi k) kvs))"

lemma within_conj: "within lo hi k \<longleftrightarrow> within lo None k \<and> within None hi k"
  by (auto simp: within_def)

lemma scan_result:
  assumes "sorted_wrt (<) (map fst kvs)" "cdir c = dir" "clo c = lo" "chi c = hi"
  defines "out \<equiv> takeWhile (\<lambda>kv. goes_on c (fst kv)) (scan_from dir lo hi kvs)"
  shows "in_order dir (map fst out)" "set out = {(k, v). map_of kvs k = Some v \<and> within lo hi k}"
proof -
  have d: "distinct (map fst kvs)" using assms(1) sorted_distinct by blast
  have srt: "sorted_wrt (\<lambda>x y. fst x < fst y) kvs" using assms(1) by (simp add: sorted_wrt_map)
  have out: "out = (case dir of Forward \<Rightarrow> filter (\<lambda>(k, v). within lo hi k) kvs | Backward \<Rightarrow> rev (filter (\<lambda>(k, v). within lo hi k) kvs))"
  proof (cases dir)
    case Forward
    have "sorted_wrt (\<lambda>x y. goes_on c (fst y) \<longrightarrow> goes_on c (fst x)) (filter (\<lambda>(k, v). within lo None k) kvs)"
      using assms(2) Forward by (intro sorted_wrt_mono_rel [OF _ sorted_wrt_filter [OF srt]]) (auto simp: goes_on_def within_def)
    from takeWhile_filter [OF this] show ?thesis using assms(2,4) Forward
      by (simp add: out_def scan_from_def goes_on_def within_conj [of lo hi] split_def conj_commute)
  next
    case Backward
    have "sorted_wrt (\<lambda>x y. goes_on c (fst y) \<longrightarrow> goes_on c (fst x)) (rev (filter (\<lambda>(k, v). within None hi k) kvs))"
      using assms(2) Backward unfolding sorted_wrt_rev
      by (intro sorted_wrt_mono_rel [OF _ sorted_wrt_filter [OF srt]]) (auto simp: goes_on_def within_def)
    from takeWhile_filter [OF this] show ?thesis using assms(2,3) Backward
      by (simp add: out_def scan_from_def goes_on_def within_conj [of lo hi] split_def conj_commute rev_filter)
  qed
  have "sorted_wrt (\<lambda>x y. fst x < fst y) (filter (\<lambda>(k, v). within lo hi k) kvs)" by (rule sorted_wrt_filter [OF srt])
  then show "in_order dir (map fst out)"
    unfolding out in_order_def sorted_wrt_map by (cases dir) (simp_all only: Direction.case sorted_wrt_rev)
  have "set out = {kv \<in> set kvs. within lo hi (fst kv)}" unfolding out by (cases dir) auto
  then show "set out = {(k, v). map_of kvs k = Some v \<and> within lo hi k}" using map_of_eq_Some_iff [OF d] by auto
qed

context page_store
begin

lemma cursor_open_ok:
  assumes "ok s" "tree h (nodes s) None None root kvs ps" "h < n"
  shows "\<exists>c s'. cursor_open pg n root dir lo hi s = (Inr c, s') \<and> same s s' \<and> cdir c = dir \<and> clo c = lo \<and> chi c = hi
    \<and> pending (nodes s) n c (scan_from dir lo hi kvs)"
proof -
  have e: "to_right h (nodes s) [] []" "to_left h (nodes s) [] []" by simp_all
  consider (fn) "dir = Forward" "lo = None" | (bn) "dir = Backward" "hi = None"
    | (fs) b where "dir = Forward" "lo = Some b" | (bs) b where "dir = Backward" "hi = Some b"
    by (cases dir; cases lo; cases hi) auto
  then show ?thesis
  proof cases
    case fn
    from descend_leftmost_ok [OF assms e(1)] show ?thesis using fn assms(3)
      by (fastforce simp: cursor_open_def descend_unbounded pending_def ahead_def scan_from_def within_def)
  next
    case bn
    from descend_rightmost_ok [OF assms e(2)] show ?thesis using bn assms(3)
      by (fastforce simp: cursor_open_def pending_def behind_def scan_from_def within_def)
  next
    case fs
    from descend_lower_bound_ok [OF assms within_all [of b] e] show ?thesis using fs assms(3)
      by (fastforce simp: cursor_open_def pending_def ahead_def scan_from_def within_def)
  next
    case bs
    from descend_lower_bound_ok [OF assms within_all [of b] e] show ?thesis using bs assms(3)
      by (fastforce simp: cursor_open_def pending_def behind_def scan_from_def within_def)
  qed
qed

theorem range_holds:
  assumes "ok s" "holds (nodes s) h root f P" "h + 2 \<le> n" "card (dom f) < steps"
  shows "\<exists>c s1 out s2. tree_range_dir pg n root dir lo hi s = (Inr c, s1) \<and> collect_all pg n steps c [] s1 = (Inr out, s2)
    \<and> same s s2 \<and> in_order dir (map fst out) \<and> set out = {(k, v). f k = Some v \<and> within lo hi k}"
proof -
  from assms(2) obtain kvs ps where t: "tree h (nodes s) None None root kvs ps" "map_of kvs = f"
    unfolding holds_def by blast
  have srt: "sorted_wrt (<) (map fst kvs)" using tree_bounds [OF t(1)] by blast
  then have "card (dom f) = length kvs" unfolding t(2) [symmetric] dom_map_of_conv_image_fst
    using distinct_card [of "map fst kvs"] sorted_distinct by auto
  then have len: "length (scan_from dir lo hi kvs) < steps"
    using assms(4) unfolding scan_from_def by (auto intro: le_less_trans [OF length_filter_le] split: Direction.split)
  have n: "h < n" "2 \<le> n" using assms(3) by simp_all
  from cursor_open_ok [OF assms(1) t(1) n(1), of dir lo hi] obtain c s1 where c: "cursor_open pg n root dir lo hi s = (Inr c, s1)" "same s s1"
    "cdir c = dir" "clo c = lo" "chi c = hi" "pending (nodes s) n c (scan_from dir lo hi kvs)" by blast
  have "ok s1" "pending (nodes s1) n c (scan_from dir lo hi kvs)" using c(2,6) same_nodes by (auto simp: same_def)
  from collect_all_ok [OF this n(2) len, of "[]"] obtain s2 where
    "collect_all pg n steps c [] s1 = (Inr (takeWhile (\<lambda>kv. goes_on c (fst kv)) (scan_from dir lo hi kvs)), s2)" "same s1 s2" by auto
  then show ?thesis using c(1) scan_result [OF srt c(3-5)] same_trans [OF c(2)] t(2) unfolding tree_range_dir_def by blast
qed

end

end
