(* ===== verification/Txn.thy ===== *)
theory Txn
  imports Registry BTree PagerCommit BTreeCursor
begin

text \<open>
  The transaction layer (\<open>crates/txn/src\<close>): write jobs and the context they run in, the single
  writer with its group commit, rollback of rejected jobs and page reclamation, and the snapshots of
  readers. A job is a state transformer on the write context, a parameter of the writer; the
  key/value job \<open>OpsJob\<close> is defined. The error \<open>None\<close> is an exhausted depth budget of a tree operation;
  the writer treats it as it treats a fatal error, so that nothing is committed.
\<close>

section \<open>Write jobs\<close>

datatype Op = Put bytes bytes | Delete bytes

record 'b WriteCtx =
  ctx_pager :: "'b pager"
  ctx_root :: PageId
  ctx_freed :: "PageId list"

type_synonym ('b, 'a) jm = "('b WriteCtx, TxnError option, 'a) st"

definition on_tree :: "('b pager, 'a) tm \<Rightarrow> ('b, 'a) jm" where
  "on_tree m = st_map_err (map_option TxnBTree) (st_zoom ctx_pager (\<lambda>p c. c\<lparr> ctx_pager := p \<rparr>) m)"

definition set_root :: "PageId \<Rightarrow> ('b, unit) jm" where
  "set_root root = st_modify (\<lambda>c. c\<lparr> ctx_root := root \<rparr>)"

definition ctx_lookup :: "'b io_ops \<Rightarrow> nat \<Rightarrow> PageId \<Rightarrow> bytes \<Rightarrow> ('b, bytes option) jm" where
  "ctx_lookup ops n root key = on_tree (tree_lookup (pager_ops ops) n root key)"

definition ctx_scan :: "'b io_ops \<Rightarrow> nat \<Rightarrow> nat \<Rightarrow> PageId \<Rightarrow> bytes option \<Rightarrow> bytes option \<Rightarrow> ('b, (bytes \<times> bytes) list) jm" where
  "ctx_scan ops n steps root lo hi =
     on_tree (st_bind (tree_range_dir (pager_ops ops) n root Forward lo hi) (\<lambda>c.
              collect_all (pager_ops ops) n steps c []))"

definition extend_freed :: "PageId list \<Rightarrow> ('b, unit) jm" where
  "extend_freed ps = st_modify (\<lambda>c. c\<lparr> ctx_freed := ctx_freed c @ ps \<rparr>)"

definition ctx_insert :: "'b io_ops \<Rightarrow> nat \<Rightarrow> PageId \<Rightarrow> bytes \<Rightarrow> bytes \<Rightarrow> ('b, PageId) jm" where
  "ctx_insert ops n root key v =
     st_bind (on_tree (tree_insert (pager_ops ops) n root key v)) (\<lambda>edit.
     st_bind (extend_freed (freed edit)) (\<lambda>_. st_return (new_root edit)))"

definition ctx_delete :: "'b io_ops \<Rightarrow> nat \<Rightarrow> PageId \<Rightarrow> bytes \<Rightarrow> ('b, PageId) jm" where
  "ctx_delete ops n root key =
     st_bind (on_tree (tree_delete (pager_ops ops) n root key)) (\<lambda>edit.
     st_bind (extend_freed (freed edit)) (\<lambda>_. st_return (new_root edit)))"

definition create_tree :: "'b io_ops \<Rightarrow> ('b, PageId) jm" where
  "create_tree ops = on_tree (create (pager_ops ops))"

definition free_tree :: "'b io_ops \<Rightarrow> nat \<Rightarrow> PageId \<Rightarrow> ('b, unit) jm" where
  "free_tree ops n root = st_bind (on_tree (tree_pages (pager_ops ops) n root)) extend_freed"

text \<open>The key/value job: all sizes are checked before the first operation is applied.\<close>

fun check_ops :: "Op list \<Rightarrow> TxnError + unit" where
  "check_ops [] = Inr ()"
| "check_ops (Put key v # rest) =
     (case check_entry key v of Inl e \<Rightarrow> Inl (TxnBTree e) | Inr _ \<Rightarrow> check_ops rest)"
| "check_ops (Delete key # rest) = check_ops rest"

fun apply_ops :: "'b io_ops \<Rightarrow> nat \<Rightarrow> Op list \<Rightarrow> PageId \<Rightarrow> ('b, PageId) jm" where
  "apply_ops ops n [] root = st_return root"
| "apply_ops ops n (Put key v # rest) root = st_bind (ctx_insert ops n root key v) (apply_ops ops n rest)"
| "apply_ops ops n (Delete key # rest) root = st_bind (ctx_delete ops n root key) (apply_ops ops n rest)"

definition ops_job :: "'b io_ops \<Rightarrow> nat \<Rightarrow> Op list \<Rightarrow> ('b, unit) jm" where
  "ops_job ops n os =
     st_bind (st_lift (map_err Some (check_ops os))) (\<lambda>_.
     st_bind (st_get ctx_root) (\<lambda>root0.
     st_bind (apply_ops ops n os root0) (\<lambda>root. set_root root)))"

section \<open>The writer\<close>

record 'b Writer =
  w_pager :: "'b pager"
  w_registry :: Registry
  w_root :: PageId
  w_pending :: "(u64 \<times> PageId list) list"
  w_orphaned :: "PageId list"

definition writer_new :: "'b pager \<Rightarrow> Registry \<Rightarrow> PageId \<Rightarrow> 'b Writer" where
  "writer_new p r root = \<lparr> w_pager = p, w_registry = r, w_root = root, w_pending = [], w_orphaned = [] \<rparr>"

fun is_fatal :: "TxnError option \<Rightarrow> bool" where
  "is_fatal None = True"
| "is_fatal (Some e) = (txn_error_category e = Io \<or> txn_error_category e = Corruption)"

definition clone_fatal :: "TxnError option \<Rightarrow> TxnError option" where
  "clone_fatal e = map_option (\<lambda>x. WriterStopped (txn_error_category x)) e"

definition writer_gone :: TxnError where "writer_gone = WriterStopped Io"

text \<open>The jobs of a batch in order. A job's result decides: accept, reject and roll back, or abort. The
  result is the pages freed and the outcomes, or the fatal error with the number of jobs started.\<close>

fun apply_batch :: "('b, 'o) jm list \<Rightarrow> PageId list \<Rightarrow> (TxnError option + 'o) list \<Rightarrow>
    ('b Writer, TxnError option \<times> nat, PageId list \<times> (TxnError option + 'o) list) st" where
  "apply_batch [] fr outs w = (Inr (fr, outs), w)"
| "apply_batch (job # batch) fr outs w =
     (case job \<lparr> ctx_pager = begin_alloc_recording (w_pager w), ctx_root = w_root w, ctx_freed = fr \<rparr> of
        (r, c) \<Rightarrow>
          (case take_alloc_recording (ctx_pager c) of
             (log, p) \<Rightarrow>
               (case r of
                  Inr out \<Rightarrow> apply_batch batch (ctx_freed c) (outs @ [Inr out]) (w\<lparr> w_pager := p, w_root := ctx_root c \<rparr>)
                | Inl e \<Rightarrow>
                    (if is_fatal e then (Inl (e, length outs + 1), w\<lparr> w_pager := p, w_root := ctx_root c \<rparr>)
                     else apply_batch batch (take (length fr) (ctx_freed c)) (outs @ [Inl e])
                            (w\<lparr> w_pager := p, w_root := w_root w, w_orphaned := w_orphaned w @ log \<rparr>)))))"

definition on_wpager :: "('b pager, PagerError, 'a) st \<Rightarrow> ('b Writer, TxnError option, 'a) st" where
  "on_wpager m = st_map_err (\<lambda>e. Some (TxnPager e)) (st_zoom w_pager (\<lambda>p w. w\<lparr> w_pager := p \<rparr>) m)"

definition free_pages :: "'b io_ops \<Rightarrow> PageId list \<Rightarrow> ('b Writer, TxnError option, unit) st" where
  "free_pages ops pages = st_each (\<lambda>page. on_wpager (free_page ops page)) pages"

fun reclaim_loop :: "'b io_ops \<Rightarrow> u64 \<Rightarrow> (u64 \<times> PageId list) list \<Rightarrow> (u64 \<times> PageId list) list \<Rightarrow>
    ('b Writer, TxnError option, (u64 \<times> PageId list) list) st" where
  "reclaim_loop ops wm [] still = st_return still"
| "reclaim_loop ops wm ((txn, pages) # rest) still =
     (if txn \<le> wm then st_bind (free_pages ops pages) (\<lambda>_. reclaim_loop ops wm rest still)
      else reclaim_loop ops wm rest (still @ [(txn, pages)]))"

definition reclaim :: "'b io_ops \<Rightarrow> ('b Writer, TxnError option, unit) st" where
  "reclaim ops = (\<lambda>w.
     st_bind (reclaim_loop ops (watermark (w_registry w)) (w_pending w) []) (\<lambda>still.
     st_modify (\<lambda>w. w\<lparr> w_pending := still \<rparr>)) (w\<lparr> w_pending := [] \<rparr>))"

text \<open>Making a batch durable: cleanup, the pager's commit, and publication.\<close>

definition commit_batch :: "'b io_ops \<Rightarrow> PageId list \<Rightarrow> ('b Writer, TxnError option, u64) st" where
  "commit_batch ops fr =
     st_bind (\<lambda>w. (Inr (w_orphaned w), w\<lparr> w_orphaned := [] \<rparr>)) (\<lambda>orphaned.
     st_bind (reclaim ops) (\<lambda>_.
     st_bind (free_pages ops orphaned) (\<lambda>_.
     st_bind (st_modify (\<lambda>w. w\<lparr> w_pager := set_catalog_root (Some (w_root w)) (w_pager w) \<rparr>)) (\<lambda>_.
     st_bind (on_wpager (commit ops)) (\<lambda>_.
     st_bind (st_get (\<lambda>w. committed_txn (w_pager w))) (\<lambda>txn.
     st_bind (st_modify (\<lambda>w. w\<lparr> w_pending := (if fr = [] then w_pending w else w_pending w @ [(txn, fr)]),
                               w_registry := publish (Some (w_root w)) txn (w_registry w) \<rparr>)) (\<lambda>_.
     st_return txn)))))))"

text \<open>One batch: the replies, in request order, and whether the writer goes on. After a fatal error the
  jobs already started are told its category and the rest find the channel closed.\<close>

definition process_batch :: "'b io_ops \<Rightarrow> ('b, 'o) jm list \<Rightarrow> 'b Writer \<Rightarrow>
    ((TxnError option + (u64 \<times> 'o)) list \<times> (TxnError option + unit)) \<times> 'b Writer" where
  "process_batch ops batch w0 =
     (case apply_batch batch [] [] w0 of
        (Inl (e, k), w) \<Rightarrow>
          ((replicate k (Inl (clone_fatal e)) @ replicate (length batch - k) (Inl (Some writer_gone)), Inl e), w)
      | (Inr (fr, outs), w) \<Rightarrow>
          (if w_root w \<noteq> w_root w0 then
             (case commit_batch ops fr w of
                (Inl e, w') \<Rightarrow> ((replicate (length outs) (Inl (clone_fatal e)), Inl e), w')
              | (Inr txn, w') \<Rightarrow> ((map (map_sum id (\<lambda>out. (txn, out))) outs, Inr ()), w'))
           else ((map (map_sum id (\<lambda>out. (committed_txn (w_pager w), out))) outs, Inr ()), w)))"

text \<open>The writer thread: batch after batch until one fails. Requests queued behind a failed batch see
  their channel close.\<close>

fun writer_run :: "'b io_ops \<Rightarrow> ('b, 'o) jm list list \<Rightarrow> 'b Writer \<Rightarrow> (TxnError option + (u64 \<times> 'o)) list list \<times> 'b Writer" where
  "writer_run ops [] w = ([], w)"
| "writer_run ops (b # bs) w =
     (case process_batch ops b w of
        ((rs, Inr _), w') \<Rightarrow> (case writer_run ops bs w' of (rss, w'') \<Rightarrow> (rs # rss, w''))
      | ((rs, Inl _), w') \<Rightarrow> (rs # map (map (\<lambda>_. Inl (Some writer_gone))) bs, w'))"

section \<open>Database handle and snapshots\<close>

definition seed_root :: "'b io_ops \<Rightarrow> ('b pager, TxnError option, PageId) st" where
  "seed_root ops =
     st_bind (st_map_err (map_option TxnBTree) (create (pager_ops ops))) (\<lambda>root.
     st_bind (st_modify (set_catalog_root (Some root))) (\<lambda>_.
     st_bind (st_map_err (\<lambda>e. Some (TxnPager e)) (commit ops)) (\<lambda>_. st_return root)))"

definition spawn :: "'b pager \<Rightarrow> PageId \<Rightarrow> u64 \<Rightarrow> 'b Writer" where
  "spawn p root txn = writer_new p (registry_new (Some root) txn) root"

definition db_create :: "'b io_ops \<Rightarrow> 'b \<Rightarrow> TxnError option + 'b Writer" where
  "db_create ops b =
     (case create_with_cache ops DEFAULT_CACHE_BYTES b of
        (Inl e, _) \<Rightarrow> Inl (Some (TxnPager e))
      | (Inr p0, _) \<Rightarrow>
          (case seed_root ops p0 of
             (Inl e, _) \<Rightarrow> Inl e
           | (Inr root, p) \<Rightarrow> Inr (spawn p root (committed_txn p))))"

definition db_open :: "'b io_ops \<Rightarrow> 'b \<Rightarrow> TxnError option + 'b Writer" where
  "db_open ops b =
     (case open_with_cache ops DEFAULT_CACHE_BYTES b of
        (Inl e, _) \<Rightarrow> Inl (Some (TxnPager e))
      | (Inr p0, _) \<Rightarrow>
          (case catalog_root (meta p0) of
             Some root \<Rightarrow> Inr (spawn p0 root (committed_txn p0))
           | None \<Rightarrow>
               (case seed_root ops p0 of
                  (Inl e, _) \<Rightarrow> Inl e
                | (Inr root, p) \<Rightarrow> Inr (spawn p root (committed_txn p)))))"

record Snapshot =
  snap_root :: "PageId option"
  snap_txn :: u64

definition snapshot :: "'b Writer \<Rightarrow> Snapshot \<times> 'b Writer" where
  "snapshot w = (case acquire (w_registry w) of
     ((root, txn), r) \<Rightarrow> (\<lparr> snap_root = root, snap_txn = txn \<rparr>, w\<lparr> w_registry := r \<rparr>))"

definition drop_snapshot :: "Snapshot \<Rightarrow> 'b Writer \<Rightarrow> 'b Writer" where
  "drop_snapshot sn w = w\<lparr> w_registry := release (snap_txn sn) (w_registry w) \<rparr>"

definition on_store :: "('b pager, 'a) tm \<Rightarrow> ('b Writer, TxnError option, 'a) st" where
  "on_store m = st_map_err (map_option TxnBTree) (st_zoom w_pager (\<lambda>p w. w\<lparr> w_pager := p \<rparr>) m)"

definition snap_get :: "'b io_ops \<Rightarrow> nat \<Rightarrow> Snapshot \<Rightarrow> bytes \<Rightarrow> ('b Writer, TxnError option, bytes option) st" where
  "snap_get ops n sn key =
     (case snap_root sn of
        None \<Rightarrow> st_return None
      | Some root \<Rightarrow> on_store (tree_lookup (pager_ops ops) n root key))"

definition snap_range :: "'b io_ops \<Rightarrow> nat \<Rightarrow> nat \<Rightarrow> Snapshot \<Rightarrow> bytes option \<Rightarrow> bytes option \<Rightarrow>
    ('b Writer, TxnError option, (bytes \<times> bytes) list) st" where
  "snap_range ops n steps sn lo hi =
     (case snap_root sn of
        None \<Rightarrow> st_return []
      | Some root \<Rightarrow> on_store (st_bind (tree_range_dir (pager_ops ops) n root Forward lo hi) (\<lambda>c.
                              collect_all (pager_ops ops) n steps c [])))"

definition snap_count_in :: "'b io_ops \<Rightarrow> nat \<Rightarrow> nat \<Rightarrow> PageId \<Rightarrow> ('b Writer, TxnError option, nat) st" where
  "snap_count_in ops n steps root =
     on_store (st_bind (tree_range_dir (pager_ops ops) n root Forward None None) (\<lambda>c.
               cursor_count (pager_ops ops) n steps c 0))"

end
