(* ===== verification/BTreeDelete.thy ===== *)
theory BTreeDelete
  imports BTreeInsert
begin

text \<open>
  Deletion. The rewritten node on the way up may have lost its last key; such a node is always
  underfull, and its parent merges it with a sibling or redistributes the two. The result is the tree
  of the map without the key; the one other outcome is the pager refusing a node that outgrew its
  page, which redistribution can cause in the parent.
\<close>

section \<open>Nodes that may be empty\<close>

primrec slack :: "nat \<Rightarrow> (PageId \<rightharpoonup> Node) \<Rightarrow> subtree" where
  "slack 0 m lo hi i kvs ps =
     (\<exists>ks vs. m i = Some (Leaf ks vs) \<and> cells_ok (Leaf ks vs) \<and> node_wf (Leaf ks vs)
        \<and> encoded_len (Leaf ks vs) \<le> CAP \<and> (\<forall>k \<in> set ks. within lo hi k) \<and> kvs = zip ks vs \<and> ps = [i])"
| "slack (Suc h) m lo hi i kvs ps =
     (\<exists>ks cs qs. m i = Some (Internal ks cs) \<and> cells_ok (Internal ks cs) \<and> node_wf (Internal ks cs)
        \<and> encoded_len (Internal ks cs) \<le> CAP \<and> (\<forall>k \<in> set ks. within lo hi k)
        \<and> kids (tree h m) lo hi ks cs kvs qs \<and> ps = i # qs)"

lemma tree_slack: "tree h m lo hi i kvs ps \<Longrightarrow> slack h m lo hi i kvs ps"
  by (cases h) auto

lemma slack_tree: "slack h m lo hi i kvs ps \<Longrightarrow> m i = Some n \<Longrightarrow> node_keys n \<noteq> [] \<Longrightarrow> tree h m lo hi i kvs ps"
  by (cases h) auto

lemma tree_keys: "tree h m lo hi i kvs ps \<Longrightarrow> m i = Some n \<Longrightarrow> lo \<noteq> None \<or> hi \<noteq> None \<Longrightarrow> node_keys n \<noteq> []"
  by (cases h) auto

lemma slack_node: "slack h m lo hi i kvs ps \<Longrightarrow> \<exists>n. m i = Some n \<and> node_wf n \<and> encoded_len n \<le> CAP"
  by (cases h) (auto simp del: node_wf.simps)

lemma slack_root: "slack h m lo hi i kvs ps \<Longrightarrow> i \<in> set ps"
  by (cases h) auto

lemma not_underfull_keys: "node_wf n \<Longrightarrow> \<not> is_underfull n \<Longrightarrow> node_keys n \<noteq> []"
  by (cases n) (auto simp: is_underfull_def encoded_len_leaf encoded_len_internal leaf_cells_def simp del: node_wf.simps)

section \<open>Merging two siblings\<close>

lemma within_join:
  assumes "\<forall>k \<in> set lk. within lo (Some sep) k" "\<forall>k \<in> set rk. within (Some sep) hi k" "within lo hi sep"
  shows "\<forall>k \<in> set (lk @ rk). within lo hi k"
  using assms within_weaken_hi [OF _ assms(3)] within_weaken_lo [OF _ assms(3)] by auto

lemma tree_nonempty: "tree h m lo hi i kvs ps \<Longrightarrow> lo \<noteq> None \<or> hi \<noteq> None \<Longrightarrow> kvs \<noteq> []"
proof (induction h arbitrary: lo hi i kvs ps)
  case (Suc h)
  then obtain ks cs qs where t: "ks \<noteq> []" "kids (tree h m) lo hi ks cs kvs qs" by auto
  then obtain k ks' c cs' a b p where "kvs = a @ b" "tree h m lo (Some k) c a p"
    by (cases "(tree h m, lo, hi, ks, cs, kvs, qs)" rule: kids.cases) auto
  then show ?case using Suc.IH by blast
qed auto

lemma kids_lower:
  assumes "kids (tree h m) (Some sep) hi ks cs kvs ps" "sorted_wrt (<) ks"
  shows "\<forall>k \<in> set ks. sep < k"
proof (cases ks)
  case (Cons k ks')
  then obtain c a p where t: "tree h m (Some sep) (Some k) c a p"
    using assms(1) by (cases "(tree h m, Some sep, hi, ks, cs, kvs, ps)" rule: kids.cases) auto
  then obtain x y r where "a = (x, y) # r" using tree_nonempty [OF t] by (cases a) auto
  then have "within (Some sep) (Some k) x" using tree_bounds [OF t] by auto
  then have "sep < k" by (auto simp: within_def)
  then show ?thesis using assms(2) Cons by auto
qed simp

lemma merged_leaf:
  assumes "slack 0 m lo (Some sep) i a p" "slack 0 m (Some sep) hi j b q" "m i = Some l" "m j = Some r"
    "node_keys l \<noteq> [] \<or> node_keys r \<noteq> []" "is_underfull l \<or> is_underfull r" "within lo hi sep"
  shows "\<exists>ks vs. merge l sep r = Leaf ks vs \<and> node_wf (Leaf ks vs) \<and> cells_ok (Leaf ks vs)
    \<and> encoded_len (Leaf ks vs) \<le> 6122 \<and> (\<forall>k \<in> set ks. within lo hi k) \<and> ks \<noteq> [] \<and> zip ks vs = a @ b
    \<and> p = [i] \<and> q = [j]"
proof -
  from assms(1,3) obtain lk lv where l: "l = Leaf lk lv" "cells_ok l" "node_wf l" "encoded_len l \<le> CAP"
    "\<forall>k \<in> set lk. within lo (Some sep) k" "a = zip lk lv" "p = [i]" by auto
  from assms(2,4) obtain rk rv where r: "r = Leaf rk rv" "cells_ok r" "node_wf r" "encoded_len r \<le> CAP"
    "\<forall>k \<in> set rk. within (Some sep) hi k" "b = zip rk rv" "q = [j]" by auto
  have len: "length lv = length lk" "length rv = length rk" "sorted_wrt (<) lk" "sorted_wrt (<) rk" using l r by auto
  have "x < y" if "x \<in> set lk" "y \<in> set rk" for x y
  proof -
    have "x < sep" "sep \<le> y" using l(5) r(5) that unfolding within_def by blast+
    then show ?thesis by (rule less_le_trans)
  qed
  then have wf: "node_wf (Leaf (lk @ rk) (lv @ rv))" using len by (simp add: sorted_wrt_append)
  have cells: "leaf_cells (lk @ rk) (lv @ rv) = leaf_cells lk lv @ leaf_cells rk rv" using len by (simp add: leaf_cells_def)
  have "cells_ok (Leaf (lk @ rk) (lv @ rv))" using l(1,2) r(1,2) by (auto simp: cells_ok_def cells)
  moreover have "encoded_len (Leaf (lk @ rk) (lv @ rv)) \<le> 6122"
    using l(1,3,4) r(1,3,4) assms(6) encoded_len_leaf [OF wf]
    by (auto simp: cells is_underfull_def encoded_len_leaf simp del: node_wf.simps)
  moreover have "\<forall>k \<in> set (lk @ rk). within lo hi k" by (rule within_join [OF l(5) r(5) assms(7)])
  ultimately show ?thesis using wf l r assms(5) len by auto
qed

lemma merged_internal:
  assumes "slack (Suc h) m lo (Some sep) i a p" "slack (Suc h) m (Some sep) hi j b q" "m i = Some l" "m j = Some r"
    "is_underfull l \<or> is_underfull r" "within lo hi sep" "sep_cell sep \<le> MAX_CELL"
  shows "\<exists>ks cs p' q'. merge l sep r = Internal ks cs \<and> node_wf (Internal ks cs) \<and> cells_ok (Internal ks cs)
    \<and> encoded_len (Internal ks cs) \<le> 8148 \<and> (\<forall>k \<in> set ks. within lo hi k) \<and> ks \<noteq> []
    \<and> kids (tree h m) lo hi ks cs (a @ b) (p' @ q') \<and> p = i # p' \<and> q = j # q'"
proof -
  from assms(1,3) obtain lk lc p' where l: "l = Internal lk lc" "cells_ok l" "node_wf l" "encoded_len l \<le> CAP"
    "\<forall>k \<in> set lk. within lo (Some sep) k" "kids (tree h m) lo (Some sep) lk lc a p'" "p = i # p'" by auto
  from assms(2,4) obtain rk rc q' where r: "r = Internal rk rc" "cells_ok r" "node_wf r" "encoded_len r \<le> CAP"
    "\<forall>k \<in> set rk. within (Some sep) hi k" "kids (tree h m) (Some sep) hi rk rc b q'" "q = j # q'" by auto
  have len: "length lc = length lk + 1" "length rc = length rk + 1" "sorted_wrt (<) lk" "sorted_wrt (<) rk" using l r by auto
  have kd: "kids (tree h m) lo hi (lk @ sep # rk) (lc @ rc) (a @ b) (p' @ q')"
    unfolding kids_append [OF len(1)] using l(6) r(6) by blast
  have "\<forall>k \<in> set rk. sep < k" by (rule kids_lower [OF r(6) len(4)])
  moreover have "\<forall>k \<in> set lk. k < sep" using l(5) by (auto simp: within_def)
  ultimately have sorted: "sorted_wrt (<) (lk @ [sep] @ rk)" using len by (auto simp: sorted_wrt_append intro: less_trans)
  have wf: "node_wf (Internal (lk @ [sep] @ rk) (lc @ rc))" using sorted len l(1,3) r(1,3) by auto
  have "cells_ok (Internal (lk @ [sep] @ rk) (lc @ rc))" using l(1,2) r(1,2) assms(7) by (auto simp: cells_ok_def)
  moreover have "encoded_len (Internal (lk @ [sep] @ rk) (lc @ rc)) \<le> 8148"
    using l(1,3,4) r(1,3,4) assms(5,7) encoded_len_internal [OF wf]
    by (auto simp: is_underfull_def encoded_len_internal simp del: node_wf.simps)
  moreover have "\<forall>k \<in> set (lk @ [sep] @ rk). within lo hi k" using within_join [OF l(5) r(5) assms(6)] assms(6) by auto
  ultimately show ?thesis using wf kd l r by auto
qed

section \<open>The sibling next to a child\<close>

lemma side_l_snoc:
  assumes "side_l P lo (k1 @ [k]) (c1 @ [c]) a p" "length c1 = length k1"
  shows "\<exists>a1 a2 p1 p2. a = a1 @ a2 \<and> p = p1 @ p2 \<and> side_l P lo k1 c1 a1 p1 \<and> P (lo_of lo k1) (Some k) c a2 p2"
proof -
  have "kids P lo (Some k) (k1 @ [] @ []) (c1 @ [c] @ []) a p" using assms(1) by (simp add: side_l_def)
  then show ?thesis using kids_focus [OF assms(2), of "[c]" "[]" "[]" "[]" P lo "Some k" a p]
    by (simp add: hi_of_def side_r_def) blast
qed

lemma side_r_Cons:
  assumes "side_r P hi (k # k2) (c # c2) b r" "length c2 = length k2"
  shows "\<exists>b1 b2 r1 r2. b = b1 @ b2 \<and> r = r1 @ r2 \<and> P (Some k) (hi_of hi k2) c b1 r1 \<and> side_r P hi k2 c2 b2 r2"
proof -
  have "kids P (Some k) hi ([] @ k2) ([c] @ c2) b r" using assms(1) by (simp add: side_r_def)
  then show ?thesis using kids_right [OF _ assms(2), of "[c]" "[]" P "Some k" hi b r] by simp
qed

lemma sep_within:
  assumes "sorted_wrt (<) (k1 @ sep # k2)" "\<forall>k \<in> set (k1 @ sep # k2). within lo hi k"
  shows "within (lo_of lo k1) (hi_of hi k2) sep"
proof -
  have "k1 \<noteq> [] \<Longrightarrow> last k1 < sep" "k2 \<noteq> [] \<Longrightarrow> sep < hd k2" using assms(1) by (auto simp: sorted_wrt_append)
  then show ?thesis using assms(2) by (auto simp: within_def lo_of_def hi_of_def less_imp_le)
qed

text \<open>The only error of a deletion on a well-formed tree: a rewritten node does not fit its page.\<close>

definition too_big :: "BTreeError option \<Rightarrow> bool" where
  "too_big e \<longleftrightarrow> (\<exists>n. e = Some (BTreePager (PayloadTooLarge n CAP)) \<and> CAP < n)"

section \<open>Removing one element\<close>

lemma list_remove_cases:
  obtains (out) "list_remove i xs = xs"
  | (at) "i < length xs" "xs = take i xs @ xs ! i # drop (Suc i) xs" "list_remove i xs = take i xs @ drop (Suc i) xs"
proof (cases "i < length xs")
  case True
  then show ?thesis using at id_take_nth_drop [OF True] by (simp add: list_remove_def)
qed (use out in \<open>simp add: list_remove_def\<close>)

lemma list_remove_sorted: "sorted_wrt P xs \<Longrightarrow> sorted_wrt P (list_remove i xs)"
proof (cases rule: list_remove_cases [of i xs])
  case at
  assume "sorted_wrt P xs"
  then have "sorted_wrt P (take i xs @ xs ! i # drop (Suc i) xs)" using at(2) by simp
  then show ?thesis unfolding at(3) by (auto simp: sorted_wrt_append)
qed simp

lemma sum_list_remove: "sum_list (list_remove i xs) \<le> sum_list (xs :: nat list)"
proof (cases rule: list_remove_cases [of i xs])
  case at
  have "sum_list xs = sum_list (take i xs @ xs ! i # drop (Suc i) xs)" using at(2) by simp
  then show ?thesis unfolding at(3) by simp
qed simp

lemma map_of_remove:
  assumes "distinct (map fst xs)" "i < length xs"
  shows "map_of (list_remove i xs) = (map_of xs)(fst (xs ! i) := None)"
proof -
  define a where "a = take i xs"
  define b where "b = drop (Suc i) xs"
  define e where "e = xs ! i"
  have xs: "xs = a @ e # b" "list_remove i xs = a @ b"
    using id_take_nth_drop [OF assms(2)] by (simp_all add: a_def b_def e_def list_remove_def)
  have "fst e \<notin> fst ` set a" "fst e \<notin> fst ` set b" using assms(1) unfolding xs(1) by auto
  then have "map_of a (fst e) = None" "map_of b (fst e) = None" by (simp_all add: map_of_eq_None_iff)
  then have "map_of (a @ b) = (map_of (a @ e # b))(fst e := None)"
    by (auto simp: fun_eq_iff map_add_def split: option.split)
  then show ?thesis using xs e_def by metis
qed

section \<open>Rebalancing\<close>

lemma rebalance_run:
  fixes ks :: "bytes list"
  assumes "length cs = length ks + 1" "l < length ks" "ci = l \<and> l = 0 \<or> ci = Suc l"
    and "read_node pg (cs ! l) s = (Inr ln, s1)" "read_node pg (cs ! Suc l) s1 = (Inr rn, s2)"
    and "write_balanced pg (merge ln (ks ! l) rn) s2 = (Inr res, s3)"
  shows "rebalance pg ks cs ci fr s =
    (Inr (take l ks @ ins_keys res @ drop (Suc l) ks, take l cs @ ins_kids res @ drop (Suc (Suc l)) cs,
       fr @ [cs ! l, cs ! Suc l]), s3)"
proof -
  have idx: "(if ci > 0 then (ci - 1, ci, ci - 1) else (ci, ci + 1, ci)) = (l, Suc l, l)" using assms(3) by auto
  have len: "l < length cs" "Suc l < length cs" using assms(1,2) by simp_all
  show ?thesis
  proof (cases "is_overfull (merge ln (ks ! l) rn)")
    case False
    then obtain pid where w: "write_node pg (merge ln (ks ! l) rn) s2 = (Inr pid, s3)" "res = Updated pid"
      using assms(6) by (auto simp: write_balanced_def elim: st_bind_okE)
    have "list_remove (Suc l) (cs[l := pid]) = take l cs @ [pid] @ drop (Suc (Suc l)) cs"
      using len by (simp add: list_remove_def take_Suc_conv_app_nth)
    then show ?thesis using w assms(4,5) False idx by (simp add: rebalance_def list_remove_def Let_def)
  next
    case True
    obtain l2 sep r2 where sp: "split_node (merge ln (ks ! l) rn) = (l2, sep, r2)" by (cases "split_node (merge ln (ks ! l) rn)") auto
    then obtain lid s4 rid where w: "write_node pg l2 s2 = (Inr lid, s4)" "write_node pg r2 s4 = (Inr rid, s3)" "res = Split lid sep rid"
      using True assms(6) by (auto simp: write_balanced_def elim!: st_bind_okE)
    have "cs[l := lid, Suc l := rid] = take l cs @ [lid, rid] @ drop (Suc (Suc l)) cs"
      using len by (simp add: upd_conv_take_nth_drop take_Suc_conv_app_nth)
    moreover have "ks[l := sep] = take l ks @ [sep] @ drop (Suc l) ks" using assms(2) by (simp add: upd_conv_take_nth_drop)
    ultimately show ?thesis using w sp assms(4,5) True idx by (simp add: rebalance_def Let_def)
  qed
qed

context page_store
begin

lemma write_merged:
  assumes "ok s" "2 \<le> space s" "slack h (nodes s) lo (Some sep) i a p" "slack h (nodes s) (Some sep) hi j b q"
    "nodes s i = Some l" "nodes s j = Some r" "node_keys l \<noteq> [] \<or> node_keys r \<noteq> []" "is_underfull l \<or> is_underfull r"
    "within lo hi sep" "sep_cell sep \<le> MAX_CELL" "distinct (p @ q)" "set (p @ q) \<subseteq> live s"
  shows "\<exists>res s' ps'. write_balanced pg (merge l sep r) s = (Inr res, s') \<and> later s s' \<and> space s \<le> space s' + 2
    \<and> kids (tree h (nodes s')) lo hi (ins_keys res) (ins_kids res) (a @ b) ps' \<and> sep_ok lo hi res
    \<and> moved (live s) (live s') (p @ q) ps' [i, j]"
proof (cases h)
  case 0
  from merged_leaf [OF assms(3,4) [unfolded 0] assms(5-9)] obtain ks vs where m: "merge l sep r = Leaf ks vs"
    "node_wf (Leaf ks vs)" "cells_ok (Leaf ks vs)" "encoded_len (Leaf ks vs) \<le> 6122" "\<forall>k \<in> set ks. within lo hi k"
    "ks \<noteq> []" "zip ks vs = a @ b" "p = [i]" "q = [j]" by blast
  from write_balanced_leaf [OF assms(1,2) m(2-6)] obtain res s' ps' where w:
    "write_balanced pg (Leaf ks vs) s = (Inr res, s')" "later s s'" "space s \<le> space s' + 2"
    "kids (tree 0 (nodes s')) lo hi (ins_keys res) (ins_kids res) (zip ks vs) ps'" "sep_ok lo hi res"
    "distinct ps'" "set ps' = live s' - live s" by blast
  have "moved (live s) (live s') (p @ q) ps' [i, j]"
    using w(2,6,7) assms(11,12) m(8,9) by (auto simp: moved_def later_def)
  then show ?thesis using w m(1,7) 0 by metis
next
  case (Suc h')
  from merged_internal [OF assms(3,4) [unfolded Suc] assms(5,6,8,9,10)] obtain ks cs p' q' where m:
    "merge l sep r = Internal ks cs" "node_wf (Internal ks cs)" "cells_ok (Internal ks cs)"
    "encoded_len (Internal ks cs) \<le> 8148" "\<forall>k \<in> set ks. within lo hi k" "ks \<noteq> []"
    "kids (tree h' (nodes s)) lo hi ks cs (a @ b) (p' @ q')" "p = i # p'" "q = j # q'" by blast
  have d: "distinct (p' @ q')" using assms(11) m(8,9) by simp
  from write_balanced_internal [OF assms(1,2) m(2-4,6,5,7) d] obtain res s' ps' where w:
    "write_balanced pg (Internal ks cs) s = (Inr res, s')" "later s s'" "space s \<le> space s' + 2"
    "kids (tree (Suc h') (nodes s')) lo hi (ins_keys res) (ins_kids res) (a @ b) ps'" "sep_ok lo hi res"
    "distinct ps'" "set ps' = set (p' @ q') \<union> (live s' - live s)" by blast
  have "moved (live s) (live s') (p @ q) ps' [i, j]"
    using w(2,6,7) assms(11,12) m(8,9) by (auto simp: moved_def later_def)
  then show ?thesis using w m(1) Suc by metis
qed

lemma later_slack: "later s s' \<Longrightarrow> slack h (nodes s) lo hi i kvs ps \<Longrightarrow> slack h (nodes s') lo hi i kvs ps"
proof (cases h)
  case (Suc n)
  assume l: "later s s'" and "slack h (nodes s) lo hi i kvs ps"
  then show ?thesis using later_nodes [OF l] later_kids [OF l] unfolding Suc slack.simps map_le_def by (metis domI)
qed (use later_nodes in \<open>fastforce simp: map_le_def dom_def\<close>)

lemma slack_live: "slack h (nodes s) lo hi i kvs ps \<Longrightarrow> set ps \<subseteq> live s"
  using kids_live by (cases h) (fastforce simp: node_map_Some)+

lemma rebalance_pair:
  fixes k1 :: "bytes list"
  assumes st: "ok s1" "2 \<le> space s1" "length c1 = length k1" "length c2 = length k2"
    and idx: "ci = length k1 \<and> k1 = [] \<or> ci = Suc (length k1)"
    and sib: "slack h (nodes s1) (lo_of lo k1) (Some sep) i y p1" "slack h (nodes s1) (Some sep) (hi_of hi k2) j z p2"
    and nd: "nodes s1 i = Some l" "nodes s1 j = Some r" "node_keys l \<noteq> [] \<or> node_keys r \<noteq> []" "is_underfull l \<or> is_underfull r"
    and sep: "within (lo_of lo k1) (hi_of hi k2) sep" "sep_cell sep \<le> MAX_CELL"
    and mv: "moved (live s0) (live s1) q (p1 @ p2) fr" "set q \<subseteq> live s0"
  shows "\<exists>res s2. rebalance pg (k1 @ sep # k2) (c1 @ [i, j] @ c2) ci fr' s1 =
      (Inr (k1 @ ins_keys res @ k2, c1 @ ins_kids res @ c2, fr' @ [i, j]), s2)
    \<and> later s1 s2 \<and> space s1 \<le> space s2 + 2 \<and> sep_ok (lo_of lo k1) (hi_of hi k2) res
    \<and> rewritten s0 s2 h (lo_of lo k1) (hi_of hi k2) (ins_keys res) (ins_kids res) (map_of (y @ z)) q (fr @ [i, j])"
proof -
  from read_node_ok [OF st(1) nd(1)] obtain t1 where r1: "read_node pg i s1 = (Inr l, t1)" "same s1 t1" by blast
  then have "ok t1" "nodes t1 j = Some r" using nd(2) by (simp_all add: same_def)
  from read_node_ok [OF this] obtain t2 where r2: "read_node pg j t1 = (Inr r, t2)" "same t1 t2" by blast
  have t2: "ok t2" "nodes t2 = nodes s1" "live t2 = live s1" "space t2 = space s1" using r1(2) r2(2) by (simp_all add: same_def)
  have "distinct (p1 @ p2)" using mv(1) by (simp add: moved_def)
  moreover have "set (p1 @ p2) \<subseteq> live t2" using slack_live [OF sib(1)] slack_live [OF sib(2)] t2(3) by simp
  ultimately obtain res s2 ps' where w: "write_balanced pg (merge l sep r) t2 = (Inr res, s2)" "later t2 s2"
    "space t2 \<le> space s2 + 2" "kids (tree h (nodes s2)) (lo_of lo k1) (hi_of hi k2) (ins_keys res) (ins_kids res) (y @ z) ps'"
    "sep_ok (lo_of lo k1) (hi_of hi k2) res" "moved (live t2) (live s2) (p1 @ p2) ps' [i, j]"
    using write_merged [OF t2(1), of h "lo_of lo k1" sep i y p1 "hi_of hi k2" j z p2 l r] st(2) sib nd sep t2 by auto
  have l: "length k1 < length (k1 @ sep # k2)" "(k1 @ sep # k2) ! length k1 = sep"
    "(c1 @ [i, j] @ c2) ! length k1 = i" "(c1 @ [i, j] @ c2) ! Suc (length k1) = j"
    using st(3) by (simp_all add: nth_append)
  have "rebalance pg (k1 @ sep # k2) (c1 @ [i, j] @ c2) ci fr' s1 =
      (Inr (k1 @ ins_keys res @ k2, c1 @ ins_kids res @ c2, fr' @ [i, j]), s2)"
    using rebalance_run [of "c1 @ [i, j] @ c2" "k1 @ sep # k2" "length k1" ci pg s1 l t1 r t2 res s2 fr'] st(3,4) idx l r1(1) r2(1) w(1)
    by auto
  moreover have "rewritten s0 s2 h (lo_of lo k1) (hi_of hi k2) (ins_keys res) (ins_kids res) (map_of (y @ z)) q (fr @ [i, j])"
    unfolding rewritten_def using w(4) moved_trans [OF mv(1) w(6) [unfolded t2(3)] mv(2)] by blast
  moreover have "later s1 s2" by (rule later_trans [OF same_later [OF same_trans [OF r1(2) r2(2)]] w(2)])
  ultimately show ?thesis using w(3,5) t2(4) by metis
qed

text \<open>The rewritten child, possibly empty, and its underfull flag.\<close>

definition shrunk :: "'s \<Rightarrow> 's \<Rightarrow> nat \<Rightarrow> bytes option \<Rightarrow> bytes option \<Rightarrow> (bytes \<rightharpoonup> bytes) \<Rightarrow> PageId list \<Rightarrow> PageId list \<Rightarrow>
    PageId \<Rightarrow> bool \<Rightarrow> bool" where
  "shrunk s s' h lo hi f ps fr pid u \<longleftrightarrow>
     (\<exists>n kvs' ps'. nodes s' pid = Some n \<and> u = is_underfull n \<and> FIRST_DATA_PAGE \<le> pid
        \<and> slack h (nodes s') lo hi pid kvs' ps' \<and> map_of kvs' = f \<and> moved (live s) (live s') ps ps' fr)"

definition fix_child :: "bytes list \<Rightarrow> PageId list \<Rightarrow> nat \<Rightarrow> PageId \<Rightarrow> bool \<Rightarrow> PageId list \<Rightarrow>
    ('s, bytes list \<times> PageId list \<times> PageId list) tm" where
  "fix_child ks cs ci pid u fr =
     (if u then rebalance pg ks (cs[ci := pid]) ci fr else st_return (ks, cs[ci := pid], fr))"

lemma rebalance_focus:
  fixes k1 :: "bytes list"
  assumes pair: "ok s1" "2 \<le> space s1" "length c1 = length k1" "length c2 = length k2"
      "ci = length k1 \<and> k1 = [] \<or> ci = Suc (length k1)"
      "slack h (nodes s1) (lo_of lo k1) (Some sep) i y p1" "slack h (nodes s1) (Some sep) (hi_of hi k2) j z p2"
      "nodes s1 i = Some l" "nodes s1 j = Some r" "node_keys l \<noteq> [] \<or> node_keys r \<noteq> []" "is_underfull l \<or> is_underfull r"
      "within (lo_of lo k1) (hi_of hi k2) sep" "sep_cell sep \<le> MAX_CELL"
      "moved (live s0) (live s1) q (p1 @ p2) fr" "set q \<subseteq> live s0"
    and sides: "side_l (tree h (nodes s0)) lo k1 c1 a pa" "side_r (tree h (nodes s0)) hi k2 c2 b pb" "later s0 s1"
    and map: "map_of (y @ z) = (map_of x)(key := None)"
    and keys: "\<forall>y \<in> fst ` set a. y \<noteq> key" "\<forall>y \<in> fst ` set b. y \<noteq> key"
    and pages: "distinct (pa @ q @ pb)" "set (pa @ q @ pb) \<subseteq> live s0"
  shows "\<exists>res s2. rebalance pg (k1 @ sep # k2) (c1 @ [i, j] @ c2) ci fr' s1 =
      (Inr (k1 @ ins_keys res @ k2, c1 @ ins_kids res @ c2, fr' @ [i, j]), s2)
    \<and> later s1 s2 \<and> space s1 \<le> space s2 + 2 \<and> sep_ok (lo_of lo k1) (hi_of hi k2) res
    \<and> rewritten s0 s2 h lo hi (k1 @ ins_keys res @ k2) (c1 @ ins_kids res @ c2)
        ((map_of (a @ x @ b))(key := None)) (pa @ q @ pb) (fr @ [i, j])"
proof -
  from rebalance_pair [OF pair, of fr'] obtain res s2 where r: "rebalance pg (k1 @ sep # k2) (c1 @ [i, j] @ c2) ci fr' s1 =
      (Inr (k1 @ ins_keys res @ k2, c1 @ ins_kids res @ c2, fr' @ [i, j]), s2)"
    "later s1 s2" "space s1 \<le> space s2 + 2" "sep_ok (lo_of lo k1) (hi_of hi k2) res"
    "rewritten s0 s2 h (lo_of lo k1) (hi_of hi k2) (ins_keys res) (ins_kids res) ((map_of x)(key := None)) q (fr @ [i, j])"
    unfolding map by blast
  from rewritten_focus [OF sides(1,2) pair(3,4) r(5) later_trans [OF sides(3) r(2)] keys pages] show ?thesis
    using r(1-4) by blast
qed

definition child_fixed where
  "child_fixed s0 s1 h lo hi ks cs u run f ps fr fr' \<longleftrightarrow>
     (\<exists>k1 km k2 c1 cm c2 res s2 fr2. ks = k1 @ km @ k2 \<and> cs = c1 @ cm @ c2 \<and> length c1 = length k1 \<and> length c2 = length k2
        \<and> run = (Inr (k1 @ ins_keys res @ k2, c1 @ ins_kids res @ c2, fr' @ fr2), s2)
        \<and> later s1 s2 \<and> space s1 \<le> space s2 + 2 \<and> sep_ok (lo_of lo k1) (hi_of hi k2) res
        \<and> (\<not> u \<longrightarrow> km = [] \<and> ins_keys res = [])
        \<and> rewritten s0 s2 h lo hi (k1 @ ins_keys res @ k2) (c1 @ ins_kids res @ c2) f ps (fr @ fr2))"

lemma child_fixedI:
  assumes "ks = k1 @ km @ k2" "cs = c1 @ cm @ c2" "length c1 = length k1" "length c2 = length k2"
    "run = (Inr (k1 @ ins_keys res @ k2, c1 @ ins_kids res @ c2, fr' @ fr2), s2)" "later s1 s2" "space s1 \<le> space s2 + 2"
    "sep_ok (lo_of lo k1) (hi_of hi k2) res" "\<not> u \<Longrightarrow> km = [] \<and> ins_keys res = []"
    "rewritten s0 s2 h lo hi (k1 @ ins_keys res @ k2) (c1 @ ins_kids res @ c2) f ps (fr @ fr2)"
  shows "child_fixed s0 s1 h lo hi ks cs u run f ps fr fr'"
  unfolding child_fixed_def using assms by blast

lemma fix_child_full:
  assumes "length cs = length ks + 1" "ci \<le> length ks"
    and sides: "side_l (tree h (nodes s0)) lo (take ci ks) (take ci cs) a p"
      "side_r (tree h (nodes s0)) hi (drop ci ks) (drop (Suc ci) cs) b r"
    and keys: "\<forall>y \<in> fst ` set a. y \<noteq> key" "\<forall>y \<in> fst ` set b. y \<noteq> key"
    and pages: "distinct (p @ q @ r)" "set (p @ q @ r) \<subseteq> live s0"
    and child: "shrunk s0 s1 h (lo_of lo (take ci ks)) (hi_of hi (drop ci ks)) ((map_of x)(key := None)) q fr pid False"
    and st: "later s0 s1"
  shows "child_fixed s0 s1 h lo hi ks cs False (fix_child ks cs ci pid False fr' s1)
    ((map_of (a @ x @ b))(key := None)) (p @ q @ r) fr fr'"
proof -
  from child obtain n x' q' where c: "nodes s1 pid = Some n" "\<not> is_underfull n" "FIRST_DATA_PAGE \<le> pid"
    "slack h (nodes s1) (lo_of lo (take ci ks)) (hi_of hi (drop ci ks)) pid x' q'" "map_of x' = (map_of x)(key := None)"
    "moved (live s0) (live s1) q q' fr" unfolding shrunk_def by blast
  have upd: "cs[ci := pid] = take ci cs @ [pid] @ drop (Suc ci) cs" using assms(1,2) by (simp add: upd_conv_take_nth_drop)
  have csplit: "cs = take ci cs @ [cs ! ci] @ drop (Suc ci) cs" using assms(1,2) id_take_nth_drop [of ci cs] by simp
  have lens: "length (take ci cs) = length (take ci ks)" "length (drop (Suc ci) cs) = length (drop ci ks)" using assms(1,2) by auto
  have "node_wf n" using slack_node [OF c(4)] c(1) by auto
  then have "tree h (nodes s1) (lo_of lo (take ci ks)) (hi_of hi (drop ci ks)) pid x' q'"
    using not_underfull_keys c(1,2) by (intro slack_tree [OF c(4,1)]) blast
  then have "rewritten s0 s1 h (lo_of lo (take ci ks)) (hi_of hi (drop ci ks)) (ins_keys (Updated pid)) (ins_kids (Updated pid))
      ((map_of x)(key := None)) q fr"
    unfolding rewritten_def using c(5,6) by (simp del: tree.simps) blast
  note rw = rewritten_focus [OF sides lens this st keys pages]
  show ?thesis
    by (rule child_fixedI [OF _ csplit lens, where km = "[]" and res = "Updated pid" and ?fr2.0 = "[]"])
      (use upd rw later_refl [OF later_ok [OF st]] c(3) in \<open>simp_all add: fix_child_def sep_ok_def\<close>)
qed

lemma fix_child_left:
  assumes ks: "length cs = length ks + 1" "sorted_wrt (<) ks" "\<forall>k \<in> set ks. within lo hi k"
      "\<forall>k \<in> set ks. sep_cell k \<le> MAX_CELL" "Suc l \<le> length ks"
    and sides: "side_l (tree h (nodes s0)) lo (take (Suc l) ks) (take (Suc l) cs) a p"
      "side_r (tree h (nodes s0)) hi (drop (Suc l) ks) (drop (Suc (Suc l)) cs) b r"
    and keys: "\<forall>y \<in> fst ` set a. y \<noteq> key" "\<forall>y \<in> fst ` set b. y \<noteq> key"
    and pages: "distinct (p @ q @ r)" "set (p @ q @ r) \<subseteq> live s0"
    and child: "shrunk s0 s1 h (lo_of lo (take (Suc l) ks)) (hi_of hi (drop (Suc l) ks)) ((map_of x)(key := None)) q fr pid True"
    and st: "later s0 s1" "2 \<le> space s1"
  shows "child_fixed s0 s1 h lo hi ks cs True (fix_child ks cs (Suc l) pid True fr' s1)
    ((map_of (a @ x @ b))(key := None)) (p @ q @ r) fr fr'"
proof -
  have l: "l < length ks" "l < length cs" "Suc l < length cs" "ks ! l \<in> set ks" using ks(1,5) by auto
  have tk: "take (Suc l) ks = take l ks @ [ks ! l]" "take (Suc l) cs = take l cs @ [cs ! l]"
    using l by (simp_all add: take_Suc_conv_app_nth)
  have kk: "ks = take l ks @ [ks ! l] @ drop (Suc l) ks" using id_take_nth_drop [OF l(1)] by simp
  have lens: "length (take l cs) = length (take l ks)" "length (drop (Suc (Suc l)) cs) = length (drop (Suc l) ks)"
    using ks(1,5) by auto
  have lo: "lo_of lo (take (Suc l) ks) = Some (ks ! l)" by (simp add: tk lo_of_def)
  from child obtain n x' q' where c: "nodes s1 pid = Some n" "is_underfull n"
    "slack h (nodes s1) (Some (ks ! l)) (hi_of hi (drop (Suc l) ks)) pid x' q'" "map_of x' = (map_of x)(key := None)"
    "moved (live s0) (live s1) q q' fr" unfolding shrunk_def lo by blast
  from side_l_snoc [OF sides(1) [unfolded tk] lens(1)] obtain a1 a2 p1 p2 where sl: "a = a1 @ a2" "p = p1 @ p2"
    "side_l (tree h (nodes s0)) lo (take l ks) (take l cs) a1 p1"
    "tree h (nodes s0) (lo_of lo (take l ks)) (Some (ks ! l)) (cs ! l) a2 p2" by blast
  note sib = later_tree [OF st(1) sl(4)]
  obtain ln where ln: "nodes s1 (cs ! l) = Some ln" "node_keys ln \<noteq> []"
    using slack_node [OF tree_slack [OF sib]] tree_keys [OF sib] by blast
  have sw: "within (lo_of lo (take l ks)) (hi_of hi (drop (Suc l) ks)) (ks ! l)"
    using ks(2,3) kk by (intro sep_within) simp_all
  have "distinct (p2 @ q @ [])" "set (p2 @ q @ []) \<subseteq> live s0" using pages sl(2) by auto
  from moved_frame [OF c(5) this] have mv: "moved (live s0) (live s1) (p2 @ q) (p2 @ q') fr" by simp
  have mp: "map_of (a2 @ x') = (map_of (a2 @ x))(key := None)"
    using map_of_focus [of a2 key "[]" x' x None] keys(1) c(4) sl(1) by simp
  have pg: "distinct (p1 @ (p2 @ q) @ r)" "set (p1 @ (p2 @ q) @ r) \<subseteq> live s0" "set (p2 @ q) \<subseteq> live s0" using pages sl(2) by auto
  have ky: "\<forall>y \<in> fst ` set a1. y \<noteq> key" using keys(1) sl(1) by simp
  have idx: "Suc l = length (take l ks) \<and> take l ks = [] \<or> Suc l = Suc (length (take l ks))" using l by simp
  have sc: "sep_cell (ks ! l) \<le> MAX_CELL" using ks(4) l(4) by blast
  have run: "fix_child ks cs (Suc l) pid True fr' s1 =
      rebalance pg (take l ks @ ks ! l # drop (Suc l) ks) (take l cs @ [cs ! l, pid] @ drop (Suc (Suc l)) cs) (Suc l) fr' s1"
    using tk(2) id_take_nth_drop [OF l(1)] l(3) by (simp add: fix_child_def upd_conv_take_nth_drop)
  from rebalance_focus [OF later_ok [OF st(1)] st(2) lens idx tree_slack [OF sib] c(3) ln(1) c(1) _ _ sw sc mv pg(3)
      sl(3) sides(2) st(1) mp ky keys(2) pg(1,2), of fr'] ln(2) c(2)
  obtain res s2 where rb: "fix_child ks cs (Suc l) pid True fr' s1 =
      (Inr (take l ks @ ins_keys res @ drop (Suc l) ks, take l cs @ ins_kids res @ drop (Suc (Suc l)) cs, fr' @ [cs ! l, pid]), s2)"
    "later s1 s2" "space s1 \<le> space s2 + 2" "sep_ok (lo_of lo (take l ks)) (hi_of hi (drop (Suc l) ks)) res"
    "rewritten s0 s2 h lo hi (take l ks @ ins_keys res @ drop (Suc l) ks) (take l cs @ ins_kids res @ drop (Suc (Suc l)) cs)
       ((map_of (a1 @ (a2 @ x) @ b))(key := None)) (p1 @ (p2 @ q) @ r) (fr @ [cs ! l, pid])" unfolding run by blast
  have "cs = take l cs @ [cs ! l, cs ! Suc l] @ drop (Suc (Suc l)) cs"
    using id_take_nth_drop [OF l(3)] tk(2) by simp
  from child_fixedI [OF kk this lens rb(1-4) _ rb(5), where u = True] show ?thesis using sl(1,2) by simp
qed

lemma fix_child_right:
  assumes ks: "length cs = length ks + 1" "sorted_wrt (<) ks" "\<forall>k \<in> set ks. within lo hi k"
      "\<forall>k \<in> set ks. sep_cell k \<le> MAX_CELL" "ks \<noteq> []"
    and sides: "side_r (tree h (nodes s0)) hi ks (drop 1 cs) b r"
    and keys: "\<forall>y \<in> fst ` set b. y \<noteq> key"
    and pages: "distinct (q @ r)" "set (q @ r) \<subseteq> live s0"
    and child: "shrunk s0 s1 h lo (hi_of hi ks) ((map_of x)(key := None)) q fr pid True"
    and st: "later s0 s1" "2 \<le> space s1"
  shows "child_fixed s0 s1 h lo hi ks cs True (fix_child ks cs 0 pid True fr' s1)
    ((map_of (x @ b))(key := None)) (q @ r) fr fr'"
proof -
  obtain k k2 where k: "ks = k # k2" using ks(5) by (cases ks) auto
  obtain c0 c c2 where cs: "cs = c0 # c # c2" "length c2 = length k2" using ks(1) k by (auto simp: length_Suc_conv)
  from child obtain n x' q' where c: "nodes s1 pid = Some n" "is_underfull n" "slack h (nodes s1) lo (Some k) pid x' q'"
    "map_of x' = (map_of x)(key := None)" "moved (live s0) (live s1) q q' fr" unfolding shrunk_def k hi_of_def by auto
  from side_r_Cons [of "tree h (nodes s0)" hi k k2 c c2 b r] sides cs k obtain b1 b2 r1 r2 where sr: "b = b1 @ b2" "r = r1 @ r2"
    "tree h (nodes s0) (Some k) (hi_of hi k2) c b1 r1" "side_r (tree h (nodes s0)) hi k2 c2 b2 r2" by auto
  note sib = later_tree [OF st(1) sr(3)]
  obtain rn where rn: "nodes s1 c = Some rn" "node_keys rn \<noteq> []"
    using slack_node [OF tree_slack [OF sib]] tree_keys [OF sib] by blast
  have sw: "within (lo_of lo []) (hi_of hi k2) k" using ks(2,3) k by (intro sep_within) simp_all
  have "distinct ([] @ q @ r1)" "set ([] @ q @ r1) \<subseteq> live s0" using pages sr(2) by auto
  from moved_frame [OF c(5) this] have mv: "moved (live s0) (live s1) (q @ r1) (q' @ r1) fr" by simp
  have mp: "map_of (x' @ b1) = (map_of (x @ b1))(key := None)"
    using map_of_focus [of "[]" key b1 x' x None] keys c(4) sr(1) by simp
  have pg: "distinct ([] @ (q @ r1) @ r2)" "set ([] @ (q @ r1) @ r2) \<subseteq> live s0" "set (q @ r1) \<subseteq> live s0" using pages sr(2) by auto
  have ky: "\<forall>y \<in> fst ` set b2. y \<noteq> key" "\<forall>y \<in> fst ` set []. y \<noteq> key" using keys sr(1) by simp_all
  have sl: "side_l (tree h (nodes s0)) lo [] [] [] []" by (simp add: side_l_def)
  have lo: "slack h (nodes s1) (lo_of lo []) (Some k) pid x' q'" using c(3) by (simp add: lo_of_def)
  have sc: "sep_cell k \<le> MAX_CELL" using ks(4) k by simp
  have run: "fix_child ks cs 0 pid True fr' s1 = rebalance pg ([] @ k # k2) ([] @ [pid, c] @ c2) 0 fr' s1"
    by (simp add: fix_child_def k cs(1))
  from rebalance_focus [OF later_ok [OF st(1)] st(2) _ cs(2) _ lo tree_slack [OF sib] c(1) rn(1) _ _ sw sc mv pg(3)
      sl sr(4) st(1) mp ky(2,1) pg(1,2), of 0 fr'] rn(2) c(2)
  obtain res s2 where rb: "fix_child ks cs 0 pid True fr' s1 = (Inr ([] @ ins_keys res @ k2, [] @ ins_kids res @ c2, fr' @ [pid, c]), s2)"
    "later s1 s2" "space s1 \<le> space s2 + 2" "sep_ok (lo_of lo []) (hi_of hi k2) res"
    "rewritten s0 s2 h lo hi ([] @ ins_keys res @ k2) ([] @ ins_kids res @ c2)
       ((map_of ([] @ (x @ b1) @ b2))(key := None)) ([] @ (q @ r1) @ r2) (fr @ [pid, c])" unfolding run by auto
  have parts: "ks = [] @ [k] @ k2" "cs = [] @ [c0, c] @ c2" using k cs by simp_all
  from child_fixedI [OF parts _ cs(2) rb(1-4) _ rb(5), where u = True] show ?thesis using sr(1,2) by simp
qed

lemma fix_child_ok:
  assumes ks: "length cs = length ks + 1" "sorted_wrt (<) ks" "\<forall>k \<in> set ks. within lo hi k"
      "\<forall>k \<in> set ks. sep_cell k \<le> MAX_CELL" "ks \<noteq> []" "ci \<le> length ks"
    and sides: "side_l (tree h (nodes s0)) lo (take ci ks) (take ci cs) a p"
      "side_r (tree h (nodes s0)) hi (drop ci ks) (drop (Suc ci) cs) b r"
    and keys: "\<forall>y \<in> fst ` set a. y \<noteq> key" "\<forall>y \<in> fst ` set b. y \<noteq> key"
    and pages: "distinct (p @ q @ r)" "set (p @ q @ r) \<subseteq> live s0"
    and child: "shrunk s0 s1 h (lo_of lo (take ci ks)) (hi_of hi (drop ci ks)) ((map_of x)(key := None)) q fr pid u"
    and st: "later s0 s1" "2 \<le> space s1"
  shows "child_fixed s0 s1 h lo hi ks cs u (fix_child ks cs ci pid u fr' s1)
    ((map_of (a @ x @ b))(key := None)) (p @ q @ r) fr fr'"
proof (cases u)
  case False
  then have u: "u = False" by simp
  show ?thesis unfolding u by (rule fix_child_full [OF ks(1,6) sides keys pages child [unfolded u] st(1)])
next
  case True
  then have u: "u = True" by simp
  show ?thesis
  proof (cases ci)
    case (Suc l)
    show ?thesis unfolding u Suc
      by (rule fix_child_left [OF ks(1-4) ks(6) [unfolded Suc] sides [unfolded Suc] keys pages child [unfolded Suc u] st])
  next
    case 0
    have ap: "a = []" "p = []" using sides(1) 0 by (simp_all add: side_l_def)
    have ch: "shrunk s0 s1 h lo (hi_of hi ks) ((map_of x)(key := None)) q fr pid True"
      using child 0 True by (simp add: lo_of_def)
    have sr: "side_r (tree h (nodes s0)) hi ks (drop 1 cs) b r" using sides(2) 0 by simp
    have pg: "distinct (q @ r)" "set (q @ r) \<subseteq> live s0" using pages by auto
    show ?thesis unfolding u 0 ap using fix_child_right [OF ks(1-5) sr keys(2) pg ch st, of fr'] by simp
  qed
qed

section \<open>Deletion\<close>

definition deleted :: "'s \<Rightarrow> 's \<Rightarrow> nat \<Rightarrow> bytes option \<Rightarrow> bytes option \<Rightarrow> (bytes \<rightharpoonup> bytes) \<Rightarrow> bytes \<Rightarrow> PageId list \<Rightarrow> PageId list \<Rightarrow>
    BTreeError option + Del \<times> PageId list \<Rightarrow> bool" where
  "deleted s s' h lo hi f key ps fr0 r \<longleftrightarrow>
     (case r of
        Inl e \<Rightarrow> too_big e \<and> space s \<le> space s' + 3 * (h + 1)
      | Inr (Unchanged, fr') \<Rightarrow> fr' = fr0 \<and> f key = None \<and> same s s'
      | Inr (Done pid u, fr') \<Rightarrow> f key \<noteq> None \<and> space s \<le> space s' + 3 * (h + 1)
          \<and> (\<exists>fr. fr' = fr0 @ fr \<and> shrunk s s' h lo hi (f(key := None)) ps fr pid u))"

lemma deletedE:
  assumes "deleted s s' h lo hi f key ps fr0 r"
  obtains (err) e where "r = Inl e" "too_big e" "space s \<le> space s' + 3 * (h + 1)"
  | (no) "r = Inr (Unchanged, fr0)" "f key = None" "same s s'"
  | (yes) pid u fr where "r = Inr (Done pid u, fr0 @ fr)" "f key \<noteq> None" "space s \<le> space s' + 3 * (h + 1)"
      "shrunk s s' h lo hi (f(key := None)) ps fr pid u"
proof (cases r)
  case (Inl e)
  then show ?thesis using assms err by (simp add: deleted_def)
next
  case (Inr x)
  show ?thesis
  proof (cases x)
    case (Pair d fr')
    show ?thesis
    proof (cases d)
      case Unchanged
      then show ?thesis using assms no Inr Pair by (simp add: deleted_def)
    next
      case (Done pid u)
      then obtain fr where "fr' = fr0 @ fr" "shrunk s s' h lo hi (f(key := None)) ps fr pid u" "f key \<noteq> None"
        "space s \<le> space s' + 3 * (h + 1)" using assms Inr Pair by (auto simp: deleted_def simp del: fun_upd_apply)
      then show ?thesis using yes Inr Pair Done by blast
    qed
  qed
qed

lemma delete_leaf:
  assumes "ok s" "tree 0 (nodes s) lo hi i kvs ps" "0 < space s"
  shows "\<exists>r s'. delete_rec pg (Suc 0) i key fr0 s = (r, s') \<and> later s s' \<and> deleted s s' 0 lo hi (map_of kvs) key ps fr0 r"
proof -
  from assms(2) obtain ks vs where t: "nodes s i = Some (Leaf ks vs)" "cells_ok (Leaf ks vs)" "node_wf (Leaf ks vs)"
    "encoded_len (Leaf ks vs) \<le> CAP" "\<forall>k \<in> set ks. within lo hi k" "kvs = zip ks vs" "ps = [i]" by auto
  note wf = node_wf_parts [OF t(3)]
  from read_node_ok [OF assms(1) t(1)] obtain s1 where r: "read_node pg i s = (Inr (Leaf ks vs), s1)" "same s s1" by blast
  show ?thesis
    using wf(2)
  proof (cases rule: binary_search_cases [of ks key])
    case (miss j)
    then have "delete_rec pg (Suc 0) i key fr0 s = (Inr (Unchanged, fr0), s1)" using r(1) by simp
    moreover have "map_of kvs key = None" using miss(3) map_of_zip_None [OF wf(1)] t(6) by simp
    ultimately show ?thesis using r(2) same_later by (auto simp: deleted_def)
  next
    case (hit j)
    define ks' where "ks' = list_remove j ks"
    define vs' where "vs' = list_remove j vs"
    have z: "zip ks' vs' = list_remove j (zip ks vs)" using wf(1) by (simp add: ks'_def vs'_def list_remove_def take_zip drop_zip)
    have cells: "leaf_cells ks' vs' = list_remove j (leaf_cells ks vs)"
      unfolding leaf_cells_def z by (simp add: list_remove_def take_map drop_map)
    have sub: "set ks' \<subseteq> set ks" "set (leaf_cells ks' vs') \<subseteq> set (leaf_cells ks vs)"
      unfolding cells by (auto simp: ks'_def list_remove_def dest: in_set_takeD in_set_dropD)
    have wf': "node_wf (Leaf ks' vs')"
      using wf list_remove_sorted [OF wf(2)] by (simp add: ks'_def vs'_def list_remove_def)
    have len: "encoded_len (Leaf ks' vs') \<le> CAP"
      using encoded_len_leaf [OF wf'] encoded_len_leaf [OF t(3)] t(4) sum_list_remove [of j "leaf_cells ks vs"] by (simp add: cells)
    have co: "cells_ok (Leaf ks' vs')" using t(2) sub by (auto simp: cells_ok_def)
    have ok1: "ok s1" "0 < space s1" "live s1 = live s" "space s1 = space s" using r(2) assms(3) by (auto simp: same_def)
    from write_node_ok [OF ok1(1,2) wf' len] obtain pid s' where w: "write_node pg (Leaf ks' vs') s1 = (Inr pid, s')" "later s1 s'"
      "pid \<notin> live s1" "FIRST_DATA_PAGE \<le> pid" "live s' = insert pid (live s1)" "nodes s' pid = Some (Leaf ks' vs')"
      "space s' = space s1 - 1" by blast
    have run: "delete_rec pg (Suc 0) i key fr0 s = (Inr (Done pid (is_underfull (Leaf ks' vs')), fr0 @ [i]), s')"
      using r(1) w(1) hit(1) by (simp add: ks'_def vs'_def Let_def)
    have "slack 0 (nodes s') lo hi pid (zip ks' vs') [pid]" using w(6) co wf' len t(5) sub(1) by auto
    moreover have "map_of (zip ks' vs') = (map_of kvs)(key := None)"
      unfolding z t(6) using map_of_remove [of "zip ks vs" j] wf hit(2,3) by simp
    moreover have "moved (live s) (live s') ps [pid] [i]"
      using w(3,5) ok1(3) t(7) tree_live [OF assms(2)] by (auto simp: moved_def)
    ultimately have "shrunk s s' 0 lo hi ((map_of kvs)(key := None)) ps [i] pid (is_underfull (Leaf ks' vs'))"
      unfolding shrunk_def using w(4,6) by blast
    moreover have "map_of kvs key \<noteq> None" using hit(2,3) map_of_zip_None [OF wf(1)] t(6) by (metis nth_mem)
    ultimately have "deleted s s' 0 lo hi (map_of kvs) key ps fr0 (Inr (Done pid (is_underfull (Leaf ks' vs')), fr0 @ [i]))"
      using w(7) ok1(4) by (simp add: deleted_def del: fun_upd_apply)
    then show ?thesis using run later_trans [OF same_later [OF r(2)] w(2)] by blast
  qed
qed

lemma delete_rec_unwind:
  assumes "read_node pg i s = (Inr (Internal ks cs), s0)"
    and "delete_rec pg n (cs ! route_index ks key) key fr s0 = (r, s1)"
  shows "r = Inl e \<Longrightarrow> delete_rec pg (Suc n) i key fr s = (Inl e, s1)"
    and "r = Inr (Unchanged, fr1) \<Longrightarrow> delete_rec pg (Suc n) i key fr s = (Inr (Unchanged, fr1), s1)"
    and "r = Inr (Done pid u, fr1) \<Longrightarrow>
      fix_child ks cs (route_index ks key) pid u (fr1 @ [i]) s1 = (Inr (ks', cs', fr2), s2) \<Longrightarrow>
      write_node pg (Internal ks' cs') s2 = (w, s3) \<Longrightarrow>
      delete_rec pg (Suc n) i key fr s =
        ((case w of Inl e \<Rightarrow> Inl e | Inr p \<Rightarrow> Inr (Done p (is_underfull (Internal ks' cs')), fr2)), s3)"
  using assms by (simp_all add: Let_def fix_child_def split: sum.split)

lemma delete_written:
  assumes "ok s2" "0 < space s2" "node_wf (Internal ks' cs')" "cells_ok (Internal ks' cs')" "\<forall>k \<in> set ks'. within lo hi k"
    and "rewritten s s2 h lo hi ks' cs' f qs fr" "later s s2" "i \<notin> set qs" "i \<in> live s" "set qs \<subseteq> live s"
    and "distinct fr'" "set fr' = set (i # fr)"
  shows "\<exists>w s3. write_node pg (Internal ks' cs') s2 = (w, s3) \<and> later s2 s3 \<and> space s2 \<le> space s3 + 1
    \<and> (case w of Inl e \<Rightarrow> too_big e
       | Inr p \<Rightarrow> shrunk s s3 (Suc h) lo hi f (i # qs) fr' p (is_underfull (Internal ks' cs')))"
proof (cases "encoded_len (Internal ks' cs') \<le> CAP")
  case False
  then have big: "CAP < encoded_len (Internal ks' cs')" by simp
  from write_node_big [OF assms(1-3) big] show ?thesis using big by (auto simp: too_big_def)
next
  case True
  from write_node_ok [OF assms(1-3) True] obtain p s3 where w: "write_node pg (Internal ks' cs') s2 = (Inr p, s3)" "later s2 s3"
    "p \<notin> live s2" "FIRST_DATA_PAGE \<le> p" "live s3 = insert p (live s2)" "nodes s3 p = Some (Internal ks' cs')"
    "space s3 = space s2 - 1" by blast
  from assms(6) obtain kvs' ps' where k: "kids (tree h (nodes s2)) lo hi ks' cs' kvs' ps'" "map_of kvs' = f"
    "moved (live s) (live s2) qs ps' fr" unfolding rewritten_def by blast
  have "slack (Suc h) (nodes s3) lo hi p kvs' (p # ps')"
    using w(6) assms(3,4,5) True later_kids [OF w(2) k(1)] by auto
  moreover have "moved (live s) (live s3) qs (p # ps') fr"
    using w(3,5) k(3) kids_live [OF k(1)] by (intro moved_written [OF k(3) w(2) _ _ assms(10)]) (auto simp: moved_def)
  then have "moved (live s) (live s3) (i # qs) (p # ps') fr'"
    by (intro moved_perm [OF moved_Cons [OF _ assms(8,9)] assms(12,11)])
  ultimately have "shrunk s s3 (Suc h) lo hi f (i # qs) fr' p (is_underfull (Internal ks' cs'))"
    unfolding shrunk_def using w(4,6) k(2) by blast
  then show ?thesis using w by auto
qed

lemma delete_step:
  assumes st: "ok s0" "3 * (Suc h + 1) \<le> space s0"
    and t: "cells_ok (Internal ks cs)" "node_wf (Internal ks cs)" "ks \<noteq> []" "\<forall>k \<in> set ks. within lo hi k"
    and k: "ci \<le> length ks" "side_l (tree h (nodes s0)) lo (take ci ks) (take ci cs) a p"
      "side_r (tree h (nodes s0)) hi (drop ci ks) (drop (Suc ci) cs) b rr"
      "\<forall>y \<in> fst ` set a. y \<noteq> key" "\<forall>y \<in> fst ` set b. y \<noteq> key"
    and pages: "distinct (i # p @ q @ rr)" "set (i # p @ q @ rr) \<subseteq> live s0"
    and child: "later s0 s1" "space s0 \<le> space s1 + 3 * (h + 1)"
      "shrunk s0 s1 h (lo_of lo (take ci ks)) (hi_of hi (drop ci ks)) ((map_of x)(key := None)) q fr pid u"
  shows "\<exists>ks' cs' fr2 s2 w s3. fix_child ks cs ci pid u (fr0 @ fr @ [i]) s1 = (Inr (ks', cs', fr0 @ fr2), s2)
    \<and> write_node pg (Internal ks' cs') s2 = (w, s3) \<and> later s0 s3 \<and> space s0 \<le> space s3 + 3 * (Suc h + 1)
    \<and> (case w of Inl e \<Rightarrow> too_big e
       | Inr pid' \<Rightarrow> shrunk s0 s3 (Suc h) lo hi ((map_of (a @ x @ b))(key := None)) (i # p @ q @ rr) fr2 pid' (is_underfull (Internal ks' cs')))"
proof -
  have wf: "length cs = length ks + 1" "sorted_wrt (<) ks" "\<forall>k \<in> set ks. sep_cell k \<le> MAX_CELL"
    using t(1,2) by (auto simp: cells_ok_def)
  have sp: "2 \<le> space s1" using child(2) st(2) by simp
  have pq: "distinct (p @ q @ rr)" "set (p @ q @ rr) \<subseteq> live s0" "i \<notin> set (p @ q @ rr)" "i \<in> live s0" using pages by auto
  from fix_child_ok [OF wf(1,2) t(4) wf(3) t(3) k(1-5) pq(1,2) child(3,1) sp, of "fr0 @ fr @ [i]"]
  obtain k1 km k2 c1 cm c2 res s2 fr2 where f: "ks = k1 @ km @ k2" "cs = c1 @ cm @ c2" "length c1 = length k1" "length c2 = length k2"
    "fix_child ks cs ci pid u (fr0 @ fr @ [i]) s1 = (Inr (k1 @ ins_keys res @ k2, c1 @ ins_kids res @ c2, (fr0 @ fr @ [i]) @ fr2), s2)"
    "later s1 s2" "space s1 \<le> space s2 + 2" "sep_ok (lo_of lo k1) (hi_of hi k2) res"
    "rewritten s0 s2 h lo hi (k1 @ ins_keys res @ k2) (c1 @ ins_kids res @ c2) ((map_of (a @ x @ b))(key := None)) (p @ q @ rr) (fr @ fr2)"
    unfolding child_fixed_def by blast
  note rn = replaced_node [OF t(2,1,4) [unfolded f(1,2)] f(3,4,8)]
  have l2: "later s0 s2" by (rule later_trans [OF child(1) f(6)])
  have sp2: "0 < space s2" using f(7) child(2) st(2) by simp
  have "distinct (fr @ fr2)" "set (fr @ fr2) \<subseteq> set (p @ q @ rr) \<union> (live s2 - live s0)"
    using f(9) unfolding rewritten_def moved_def by blast+
  then have "distinct (fr @ [i] @ fr2)" "set (fr @ [i] @ fr2) = set (i # fr @ fr2)" using pq(3,4) by auto
  from delete_written [OF later_ok [OF f(6)] sp2 rn(1-3) f(9) l2 pq(3,4,2) this] obtain w s3 where w:
    "write_node pg (Internal (k1 @ ins_keys res @ k2) (c1 @ ins_kids res @ c2)) s2 = (w, s3)" "later s2 s3" "space s2 \<le> space s3 + 1"
    "case w of Inl e \<Rightarrow> too_big e
       | Inr p' \<Rightarrow> shrunk s0 s3 (Suc h) lo hi ((map_of (a @ x @ b))(key := None)) (i # p @ q @ rr)
           (fr @ [i] @ fr2) p' (is_underfull (Internal (k1 @ ins_keys res @ k2) (c1 @ ins_kids res @ c2)))" by blast
  have "space s0 \<le> space s3 + 3 * (Suc h + 1)" using w(3) f(7) child(2) by simp
  then show ?thesis using f(5) w(1,4) later_trans [OF l2 w(2)] by (metis append.assoc)
qed

theorem delete_rec_correct:
  assumes "ok s" "tree h (nodes s) lo hi i kvs ps" "within lo hi key" "3 * (h + 1) \<le> space s" "distinct ps"
  shows "\<exists>r s'. delete_rec pg (Suc h) i key fr0 s = (r, s') \<and> later s s' \<and> deleted s s' h lo hi (map_of kvs) key ps fr0 r"
  using assms
proof (induction h arbitrary: s lo hi i kvs ps)
  case 0
  then show ?case using delete_leaf [OF "0.prems"(1,2)] by simp
next
  case (Suc h)
  from Suc.prems(2) obtain ks cs qs where t: "nodes s i = Some (Internal ks cs)" "cells_ok (Internal ks cs)"
    "node_wf (Internal ks cs)" "ks \<noteq> []" "\<forall>k \<in> set ks. within lo hi k"
    "kids (tree h (nodes s)) lo hi ks cs kvs qs" "ps = i # qs" by auto
  have wf: "length cs = length ks + 1" "sorted_wrt (<) ks" using t(3) by auto
  define ci where "ci = route_index ks key"
  note rs = route_split [OF wf(1), of key, folded ci_def]
  from read_node_ok [OF Suc.prems(1) t(1)] obtain s0 where r: "read_node pg i s = (Inr (Internal ks cs), s0)" "same s s0" by blast
  have s0: "ok s0" "nodes s0 = nodes s" "live s0 = live s" "space s0 = space s" using r(2) by (simp_all add: same_def)
  have t6: "kids (tree h (nodes s0)) lo hi ks cs kvs qs" unfolding s0(2) by (rule t(6))
  from kids_route [OF t6 wf(2) t(5) Suc.prems(3), folded ci_def] obtain a x b p q rr where k: "kvs = a @ x @ b"
    "qs = p @ q @ rr" "side_l (tree h (nodes s0)) lo (take ci ks) (take ci cs) a p"
    "tree h (nodes s0) (lo_of lo (take ci ks)) (hi_of hi (drop ci ks)) (cs ! ci) x q"
    "side_r (tree h (nodes s0)) hi (drop ci ks) (drop (Suc ci) cs) b rr"
    "\<forall>y \<in> fst ` set a. y < key" "\<forall>y \<in> fst ` set b. key < y" by (elim exE conjE) (rule that)
  have w: "within (lo_of lo (take ci ks)) (hi_of hi (drop ci ks)) key"
    unfolding ci_def by (rule route_bounds [OF wf(1) Suc.prems(3) wf(2)])
  have sp: "3 * (h + 1) \<le> space s0" "3 * (Suc h + 1) \<le> space s0" and dq: "distinct q" "distinct (i # p @ q @ rr)"
    and lv: "set (i # p @ q @ rr) \<subseteq> live s0"
    using Suc.prems(4,5) s0(3,4) k(2) t(7) tree_live [OF Suc.prems(2)] by auto
  have ne: "\<forall>y \<in> fst ` set a. y \<noteq> key" "\<forall>y \<in> fst ` set b. y \<noteq> key" using k(6,7) by auto
  from Suc.IH [OF s0(1) k(4) w sp(1) dq(1)] obtain res s1 where c: "delete_rec pg (Suc h) (cs ! ci) key fr0 s0 = (res, s1)"
    "later s0 s1" "deleted s0 s1 h (lo_of lo (take ci ks)) (hi_of hi (drop ci ks)) (map_of x) key q fr0 res" by blast
  have mk: "map_of kvs key = map_of x key"
    using map_of_focus [OF ne, of x x "map_of x key"] k(1) by (metis fun_upd_same fun_upd_triv)
  note uw = delete_rec_unwind [OF r(1) c(1) [unfolded ci_def]]
  from c(3) show ?case
  proof (cases rule: deletedE)
    case err
    then show ?thesis using uw(1) later_trans [OF same_later [OF r(2)] c(2)] s0(4) by (auto simp: deleted_def simp del: delete_rec.simps)
  next
    case no
    then show ?thesis using uw(2) same_trans [OF r(2)] same_later mk
      by (intro exI [of _ "Inr (Unchanged, fr0)"] exI [of _ s1]) (auto simp: deleted_def simp del: delete_rec.simps)
  next
    case (yes pid u fr)
    from delete_step [OF s0(1) sp(2) t(2-5) rs(1) k(3,5) ne dq(2) lv c(2) yes(3,4), of fr0] obtain ks' cs' fr2 s2 wr s3 where d:
      "fix_child ks cs ci pid u (fr0 @ fr @ [i]) s1 = (Inr (ks', cs', fr0 @ fr2), s2)"
      "write_node pg (Internal ks' cs') s2 = (wr, s3)" "later s0 s3" "space s0 \<le> space s3 + 3 * (Suc h + 1)"
      "case wr of Inl e \<Rightarrow> too_big e
       | Inr pid' \<Rightarrow> shrunk s0 s3 (Suc h) lo hi ((map_of kvs)(key := None)) ps fr2 pid' (is_underfull (Internal ks' cs'))"
      unfolding k(1,2) t(7) by blast
    have run: "delete_rec pg (Suc (Suc h)) i key fr0 s =
        ((case wr of Inl e \<Rightarrow> Inl e | Inr p \<Rightarrow> Inr (Done p (is_underfull (Internal ks' cs')), fr0 @ fr2)), s3)"
      using uw(3) [OF yes(1)] d(1,2) by (simp add: ci_def del: delete_rec.simps)
    have "shrunk s = shrunk s0" using s0(3) by (simp add: shrunk_def fun_eq_iff)
    then have "deleted s s3 (Suc h) lo hi (map_of kvs) key ps fr0
        (case wr of Inl e \<Rightarrow> Inl e | Inr p \<Rightarrow> Inr (Done p (is_underfull (Internal ks' cs')), fr0 @ fr2))"
      using d(4,5) yes(2) mk s0(4) by (auto simp: deleted_def simp del: fun_upd_apply split: sum.splits)
    then show ?thesis using run later_trans [OF same_later [OF r(2)] d(3)] by blast
  qed
qed

theorem delete_holds:
  assumes "ok s" "holds (nodes s) h root f P" "3 * (h + 1) \<le> space s"
  shows "\<exists>r s'. tree_delete pg (Suc h) root key s = (r, s') \<and> later s s' \<and> space s \<le> space s' + 3 * (h + 1)
    \<and> (case r of
         Inl e \<Rightarrow> too_big e
       | Inr e \<Rightarrow> (\<exists>h' \<le> h. holds (nodes s') h' (new_root e) (f(key := None)) ((P \<union> (live s' - live s)) - set (freed e))
           \<and> distinct (freed e) \<and> set (freed e) \<subseteq> P \<union> (live s' - live s)
           \<and> (f key = None \<longrightarrow> new_root e = root \<and> freed e = [] \<and> live s' = live s)))"
proof -
  from assms(2) obtain kvs ps where t: "tree h (nodes s) None None root kvs ps" "distinct ps" "map_of kvs = f" "set ps = P"
    unfolding holds_def by blast
  from delete_rec_correct [OF assms(1) t(1) within_all assms(3) t(2), of key "[]"] obtain r s1 where d:
    "delete_rec pg (Suc h) root key [] s = (r, s1)" "later s s1" "deleted s s1 h None None f key ps [] r" unfolding t(3) by blast
  from d(3) show ?thesis
  proof (cases rule: deletedE)
    case (err e)
    then show ?thesis using d(1,2) by (simp add: tree_delete_def del: delete_rec.simps)
  next
    case no
    have "holds (nodes s1) h root (f(key := None)) P" using assms(2) no(2) holds_later [OF d(2)] by (simp add: fun_upd_idem)
    then show ?thesis using d(1,2) no by (auto simp: tree_delete_def same_def simp del: delete_rec.simps)
  next
    case (yes pid u fr)
    from yes(4) obtain n kvs' ps' where sh: "nodes s1 pid = Some n" "slack h (nodes s1) None None pid kvs' ps'"
      "map_of kvs' = f(key := None)" "moved (live s) (live s1) ps ps' fr" unfolding shrunk_def by blast
    from read_node_ok [OF later_ok [OF d(2)] sh(1)] obtain s' where r: "read_node pg pid s1 = (Inr n, s')" "same s1 s'" by blast
    have s': "nodes s' = nodes s1" "live s' = live s1" "space s' = space s1" using r(2) by (simp_all add: same_def)
    have lt: "later s s'" by (rule later_trans [OF d(2) same_later [OF r(2)]])
    show ?thesis
    proof (cases "\<exists>ks c. n = Internal ks [c]")
      case True
      then obtain ks c where n: "n = Internal ks [c]" by blast
      with sh(1,2) obtain h' qs where hh: "h = Suc h'" "kids (tree h' (nodes s1)) None None ks [c] kvs' qs" "ps' = pid # qs"
        by (cases h) auto
      then have "tree h' (nodes s1) None None c kvs' qs" using kids_length [OF hh(2)] by (cases ks) auto
      then have "holds (nodes s') h' c (f(key := None)) ((P \<union> (live s' - live s)) - set (fr @ [pid]))"
        unfolding holds_def using sh(3,4) t(4) hh(3) s' by (intro exI [of _ kvs'] exI [of _ qs]) (auto simp: moved_def)
      moreover have "distinct (fr @ [pid])" "set (fr @ [pid]) \<subseteq> P \<union> (live s' - live s)"
        using sh(4) t(4) hh(3) s' by (auto simp: moved_def)
      ultimately show ?thesis using d(1) yes(1,2,3) r(1) n lt hh(1) s'(3)
        by (auto simp: tree_delete_def simp del: delete_rec.simps fun_upd_apply intro!: exI [of _ h'])
    next
      case False
      have run: "tree_delete pg (Suc h) root key s = (Inr \<lparr> new_root = pid, freed = fr \<rparr>, s')"
        using d(1) yes(1) r(1) False by (auto simp: tree_delete_def length_Suc_conv simp del: delete_rec.simps split: Node.split)
      have "tree h (nodes s1) None None pid kvs' ps'"
        using sh(1,2) False by (cases h) (auto simp: length_Suc_conv)
      then have "holds (nodes s') h pid (f(key := None)) ((P \<union> (live s' - live s)) - set fr)"
        unfolding holds_def using sh(3,4) t(4) s' by (intro exI [of _ kvs'] exI [of _ ps']) (auto simp: moved_def)
      then show ?thesis using run lt yes(2,3) s' sh(4) t(4) by (auto simp: moved_def simp del: fun_upd_apply)
    qed
  qed
qed

end

end
