(* ===== verification/BTreeCheck.thy ===== *)
theory BTreeCheck
  imports BTreeInsert "HOL-Library.Multiset"
begin

text \<open>
  Validation accepts every well-formed tree and reports its height, entries and nodes; page
  enumeration visits every page of the tree once.
\<close>

section \<open>Validation\<close>

lemma in_bounds_within: "in_bounds lo hi k \<longleftrightarrow> within lo hi k"
  by (auto simp: in_bounds_def within_def split: option.splits)

context page_store
begin

lemma validate_children_ok:
  assumes "ok s" "kids (tree h (nodes s)) lo hi ks cs kvs ps" "ks \<noteq> [] \<or> lo \<noteq> None \<or> hi \<noteq> None"
    and "depth = None \<or> depth = Some (h + 1)"
    and "\<And>s lo hi i kvs ps nd. ok s \<Longrightarrow> tree h (nodes s) lo hi i kvs ps \<Longrightarrow> lo \<noteq> None \<or> hi \<noteq> None \<Longrightarrow>
      \<exists>s'. validate_rec pg (Suc h) i lo hi False nd s = (Inr ((h + 1, length kvs), nd + length ps), s') \<and> same s s'"
  shows "\<exists>s'. validate_children pg (Suc h) lo hi ks cs depth es nd s =
    (Inr ((Some (h + 1), es + length kvs), nd + length ps), s') \<and> same s s'"
  using assms(1-4)
proof (induction cs arbitrary: s lo ks kvs ps depth es nd)
  case Nil
  then show ?case by (cases ks) auto
next
  case (Cons c cs)
  show ?case
  proof (cases ks)
    case Nil
    with Cons.prems(2) have "cs = []" using kids_length [OF Cons.prems(2)] by simp
    with Nil Cons.prems(2) have t: "tree h (nodes s) lo hi c kvs ps" by simp
    from assms(5) [OF Cons.prems(1) t] Cons.prems(3) Nil obtain s' where
      "validate_rec pg (Suc h) c lo hi False nd s = (Inr ((h + 1, length kvs), nd + length ps), s')" "same s s'" by blast
    then show ?thesis using Nil \<open>cs = []\<close> Cons.prems(4) by (auto simp del: validate_rec.simps)
  next
    case (Cons k ks')
    with Cons.prems(2) obtain a b p q where k: "kvs = a @ b" "ps = p @ q" "tree h (nodes s) lo (Some k) c a p"
      "kids (tree h (nodes s)) (Some k) hi ks' cs b q" by auto
    from assms(5) [OF Cons.prems(1) k(3)] obtain s1 where v:
      "validate_rec pg (Suc h) c lo (Some k) False nd s = (Inr ((h + 1, length a), nd + length p), s1)" "same s s1" by blast
    have "ok s1" "kids (tree h (nodes s1)) (Some k) hi ks' cs b q" using v(2) k(4) same_nodes by (auto simp: same_def)
    from Cons.IH [OF this, of "Some (h + 1)" "es + length a" "nd + length p"] obtain s' where
      "validate_children pg (Suc h) (Some k) hi ks' cs (Some (h + 1)) (es + length a) (nd + length p) s1 =
        (Inr ((Some (h + 1), es + length a + length b), nd + length p + length q), s')" "same s1 s'" by auto
    then show ?thesis using v Cons Cons.prems(4) k(1,2) same_trans
      by (auto simp: add.assoc simp del: validate_rec.simps)
  qed
qed

lemma validate_rec_ok:
  assumes "ok s" "tree h (nodes s) lo hi i kvs ps" "is_root \<or> lo \<noteq> None \<or> hi \<noteq> None"
  shows "\<exists>s'. validate_rec pg (Suc h) i lo hi is_root nd s = (Inr ((h + 1, length kvs), nd + length ps), s') \<and> same s s'"
  using assms
proof (induction h arbitrary: s lo hi i kvs ps is_root nd)
  case 0
  then obtain ks vs where t: "nodes s i = Some (Leaf ks vs)" "length vs = length ks" "\<forall>k \<in> set ks. within lo hi k"
    "ks = [] \<longrightarrow> lo = None \<and> hi = None" "kvs = zip ks vs" "ps = [i]" by auto
  from read_node_ok [OF "0.prems"(1) t(1)] obtain s' where r: "read_node pg i s = (Inr (Leaf ks vs), s')" "same s s'" by blast
  have "list_all (in_bounds lo hi) ks" using t(3) by (simp add: list_all_iff in_bounds_within)
  then show ?case using r t "0.prems"(3) by auto
next
  case (Suc h)
  from Suc.prems(2) obtain ks cs qs where t: "nodes s i = Some (Internal ks cs)" "ks \<noteq> []" "\<forall>k \<in> set ks. within lo hi k"
    "kids (tree h (nodes s)) lo hi ks cs kvs qs" "ps = i # qs" by auto
  from read_node_ok [OF Suc.prems(1) t(1)] obtain s1 where r: "read_node pg i s = (Inr (Internal ks cs), s1)" "same s s1" by blast
  have s1: "ok s1" "kids (tree h (nodes s1)) lo hi ks cs kvs qs" using r(2) t(4) same_nodes by (auto simp: same_def)
  have "\<exists>s'. validate_children pg (Suc h) lo hi ks cs None 0 (nd + 1) s1 =
      (Inr ((Some (h + 1), 0 + length kvs), nd + 1 + length qs), s') \<and> same s1 s'"
  proof (rule validate_children_ok [OF s1])
    show "ks \<noteq> [] \<or> lo \<noteq> None \<or> hi \<noteq> None" using t(2) by blast
  qed (simp, use Suc.IH in blast)
  then obtain s' where v: "validate_children pg (Suc h) lo hi ks cs None 0 (nd + 1) s1 =
      (Inr ((Some (h + 1), 0 + length kvs), nd + 1 + length qs), s')" "same s1 s'" by blast
  have "\<not> (length cs < 2 \<or> length cs \<noteq> length ks + 1)" "list_all (in_bounds lo hi) ks"
    using kids_length [OF t(4)] t(2,3) by (cases ks; auto simp: list_all_iff in_bounds_within)+
  then show ?case using r v t(2,5) same_trans [OF r(2) v(2)] by (simp del: validate_children.simps)
qed

lemma validate_holds:
  assumes "ok s" "holds (nodes s) h root f P"
  shows "\<exists>s'. validate_tree pg (Suc h) root s =
    (Inr \<lparr> height = h + 1, entry_count = card (dom f), node_count = card P \<rparr>, s') \<and> same s s'"
proof -
  from assms(2) obtain kvs ps where t: "tree h (nodes s) None None root kvs ps" "distinct ps" "map_of kvs = f" "set ps = P"
    unfolding holds_def by blast
  have "distinct (map fst kvs)" using tree_bounds [OF t(1)] sorted_distinct by blast
  then have "card (dom f) = length kvs" unfolding t(3) [symmetric] dom_map_of_conv_image_fst
    using distinct_card [of "map fst kvs"] by simp
  moreover have "card P = length ps" using t(2,4) distinct_card by blast
  moreover from validate_rec_ok [OF assms(1) t(1), of True 0] obtain s' where
    "validate_rec pg (Suc h) root None None True 0 s = (Inr ((h + 1, length kvs), 0 + length ps), s')" "same s s'" by blast
  ultimately show ?thesis by (auto simp: validate_tree_def simp del: validate_rec.simps)
qed

end

section \<open>Page enumeration\<close>

fun forest :: "(PageId \<rightharpoonup> Node) \<Rightarrow> PageId list \<Rightarrow> PageId multiset \<Rightarrow> bool" where
  "forest m [] M \<longleftrightarrow> M = {#}"
| "forest m (c # cs) M \<longleftrightarrow> (\<exists>h lo hi kvs p N. tree h m lo hi c kvs p \<and> forest m cs N \<and> M = mset p + N)"

lemma forest_ConsI: "tree h m lo hi c kvs p \<Longrightarrow> forest m cs N \<Longrightarrow> forest m (c # cs) (mset p + N)"
  unfolding forest.simps by blast

lemma forest_single: "tree h m lo hi c kvs p \<Longrightarrow> forest m [c] (mset p)"
  using forest_ConsI [of h m lo hi c kvs p "[]" "{#}"] by simp

lemma forest_ConsE:
  assumes "forest m (c # cs) M"
  obtains h lo hi kvs p N where "tree h m lo hi c kvs p" "forest m cs N" "M = mset p + N"
  using assms unfolding forest.simps by blast

lemma kids_forest: "kids (tree h m) lo hi ks cs kvs ps \<Longrightarrow> forest m cs (mset ps)"
proof (induction cs arbitrary: lo ks kvs ps)
  case (Cons c cs)
  show ?case
  proof (cases ks)
    case Nil
    then have "cs = []" using kids_length [OF Cons.prems] by simp
    then show ?thesis using Cons.prems Nil forest_single [of h m lo hi c kvs ps] by (simp del: tree.simps forest.simps)
  next
    case (Cons k ks')
    with Cons.prems obtain a b p q where k: "ps = p @ q" "tree h m lo (Some k) c a p" "kids (tree h m) (Some k) hi ks' cs b q" by auto
    then show ?thesis using forest_ConsI [OF k(2) Cons.IH [OF k(3)]] by simp
  qed
qed (use kids_length in force)

lemma forest_append: "forest m (xs @ ys) M \<longleftrightarrow> (\<exists>A B. forest m xs A \<and> forest m ys B \<and> M = A + B)"
proof (induction xs arbitrary: M)
  case (Cons x xs)
  show ?case
  proof
    assume "forest m ((x # xs) @ ys) M"
    then obtain h lo hi kvs p A B where "tree h m lo hi x kvs p" "forest m xs A" "forest m ys B" "M = mset p + (A + B)"
      unfolding append_Cons forest.simps Cons.IH by blast
    then have "forest m (x # xs) (mset p + A)" "forest m ys B" "M = (mset p + A) + B"
      using forest_ConsI [of h m lo hi x kvs p xs A] by (simp_all add: add.assoc del: forest.simps)
    then show "\<exists>A B. forest m (x # xs) A \<and> forest m ys B \<and> M = A + B" by blast
  next
    assume "\<exists>A B. forest m (x # xs) A \<and> forest m ys B \<and> M = A + B"
    then obtain h lo hi kvs p A B where "tree h m lo hi x kvs p" "forest m xs A" "forest m ys B" "M = mset p + A + B"
      by (elim exE conjE forest_ConsE) blast
    then have "tree h m lo hi x kvs p" "forest m (xs @ ys) (A + B)" "M = mset p + (A + B)" unfolding Cons.IH by (auto simp: add.assoc)
    then show "forest m ((x # xs) @ ys) M" unfolding append_Cons forest.simps by blast
  qed
qed simp

context page_store
begin

lemma tree_pages_loop_ok:
  assumes "ok s" "forest (nodes s) stack M" "size M \<le> n"
  shows "\<exists>acc' s'. tree_pages_loop pg n stack acc s = (Inr acc', s') \<and> mset acc' = mset acc + M \<and> same s s'"
  using assms
proof (induction n arbitrary: s stack M acc)
  case (0 s stack M acc)
  have "stack = []"
  proof (cases stack)
    case (Cons c cs)
    then obtain h lo hi kvs p where "tree h (nodes s) lo hi c kvs p" "size (mset p) = 0" using 0(2,3) by auto
    then show ?thesis by (cases h) auto
  qed simp
  then show ?case using 0 by (auto simp: tree_pages_loop.simps)
next
  case (Suc n)
  show ?case
  proof (cases stack rule: rev_exhaust)
    case Nil
    then show ?thesis using Suc.prems by (auto simp: tree_pages_loop.simps)
  next
    case (snoc st c)
    from Suc.prems(2) obtain A h lo hi kvs p where f: "forest (nodes s) st A" "tree h (nodes s) lo hi c kvs p" "M = A + mset p"
      unfolding snoc forest_append by (elim exE conjE forest_ConsE) auto
    obtain nd q where nd: "nodes s c = Some nd" "p = c # q" "forest (nodes s) (case nd of Internal ks cs \<Rightarrow> cs | Leaf _ _ \<Rightarrow> []) (mset q)"
    proof (cases h)
      case 0
      then show thesis using f(2) that by auto
    next
      case (Suc h')
      then show thesis using f(2) that kids_forest by (auto simp del: forest.simps)
    qed
    from read_node_ok [OF Suc.prems(1) nd(1)] obtain s1 where r: "read_node pg c s = (Inr nd, s1)" "same s s1" by blast
    have "ok s1" "forest (nodes s1) (st @ (case nd of Internal ks cs \<Rightarrow> cs | Leaf _ _ \<Rightarrow> [])) (A + mset q)"
      using r(2) same_nodes f(1) nd(3) unfolding forest_append by (auto simp: same_def)
    from Suc.IH [OF this, of "acc @ [c]"] Suc.prems(3) f(3) nd(2) obtain acc' s' where
      "tree_pages_loop pg n (st @ (case nd of Internal ks cs \<Rightarrow> cs | Leaf _ _ \<Rightarrow> [])) (acc @ [c]) s1 = (Inr acc', s')"
      "mset acc' = mset (acc @ [c]) + (A + mset q)" "same s1 s'" by auto
    then show ?thesis using r snoc f(3) nd(2) same_trans by (auto simp: tree_pages_loop.simps)
  qed
qed

lemma pages_holds:
  assumes "ok s" "holds (nodes s) h root f P"
  shows "\<exists>ps s'. tree_pages pg (card P) root s = (Inr ps, s') \<and> distinct ps \<and> set ps = P \<and> same s s'"
proof -
  from assms(2) obtain kvs ps where t: "tree h (nodes s) None None root kvs ps" "distinct ps" "set ps = P"
    unfolding holds_def by blast
  have "forest (nodes s) [root] (mset ps)" by (rule forest_single [OF t(1)])
  moreover have "size (mset ps) \<le> card P" using t(2,3) distinct_card by fastforce
  ultimately obtain acc s' where "tree_pages_loop pg (card P) [root] [] s = (Inr acc, s')" "mset acc = mset [] + mset ps" "same s s'"
    using tree_pages_loop_ok [OF assms(1)] by blast
  then show ?thesis using t(2,3) by (auto simp: tree_pages_def dest: mset_eq_setD mset_eq_imp_distinct_iff)
qed

end

end
