(* ===== verification/BTreeSpec.thy ===== *)
theory BTreeSpec
  imports PagerCommit BTreeDelete BTreeCheck BTreeCursor
begin

text \<open>
  The B+tree over the pager refines a finite map: every operation, run on a pager in a consistent
  state, has on the map a tree holds the effect its name says, and leaves every other tree of the
  store, in particular the one under the old root, as it was. The lemmas of the page-store interface
  are used here at its interpretation on the pager over the in-memory store.
\<close>

section \<open>Trees in a pager\<close>

definition stored :: "bytes pager \<Rightarrow> PageId \<rightharpoonup> Node" where
  "stored p = node_map (payload_view (backend p) p) (used p)"

lemmas mem_later_ok = mem_pages.later_ok
lemmas mem_later_holds = mem_pages.holds_later [folded stored_def]

text \<open>A small store for evaluating the theorems: a fresh database with an empty tree, and the same
  tree with one entry.\<close>

definition demo_pager :: "bytes pager" where
  "demo_pager = new_pager 0 meta_initial 0 True initial_image"

definition demo_root :: PageId where
  "demo_root = (case create (pager_ops mem_ops) demo_pager of (Inr i, p) \<Rightarrow> i | _ \<Rightarrow> 0)"

definition demo_empty :: "bytes pager" where
  "demo_empty = snd (create (pager_ops mem_ops) demo_pager)"

definition demo_edit :: Edit where
  "demo_edit = (case tree_insert (pager_ops mem_ops) 1 demo_root [1] [2] demo_empty of (Inr e, p) \<Rightarrow> e | _ \<Rightarrow> \<lparr> new_root = 0, freed = [] \<rparr>)"

definition demo_one :: "bytes pager" where
  "demo_one = snd (tree_insert (pager_ops mem_ops) 1 demo_root [1] [2] demo_empty)"

lemma demo_pager_ok: "pager_inv (backend demo_pager) demo_pager" "1000 \<le> room demo_pager" "used demo_pager = {}"
proof -
  show "pager_inv (backend demo_pager) demo_pager"
    using fresh_pager(1) [of 0 initial_image] by (simp add: demo_pager_def new_pager_def)
  show "1000 \<le> room demo_pager"
    by (simp add: demo_pager_def new_pager_def room_def PAGE_LIMIT_def meta_initial_def)
  show "used demo_pager = {}"
    by (auto simp: demo_pager_def new_pager_def used_def data_pages_def meta_initial_def word_le_nat_alt word_less_nat_alt)
qed

lemma demo_empty_ok:
  "create (pager_ops mem_ops) demo_pager = (Inr demo_root, demo_empty)" "pager_inv (backend demo_empty) demo_empty"
  "holds (stored demo_empty) 0 demo_root Map.empty {demo_root}" "900 \<le> room demo_empty"
proof -
  have "0 < room demo_pager" using demo_pager_ok(2) by simp
  from mem_pages.create_holds [OF demo_pager_ok(1) this] obtain i p where c: "create (pager_ops mem_ops) demo_pager = (Inr i, p)"
    "mem_pages.later demo_pager p" "holds (stored p) 0 i Map.empty {i}" "room demo_pager \<le> room p + 1"
    unfolding stored_def by blast
  then have e: "demo_root = i" "demo_empty = p" by (simp_all add: demo_root_def demo_empty_def)
  show "create (pager_ops mem_ops) demo_pager = (Inr demo_root, demo_empty)" "pager_inv (backend demo_empty) demo_empty"
    "holds (stored demo_empty) 0 demo_root Map.empty {demo_root}" "900 \<le> room demo_empty"
    unfolding e using c mem_later_ok [OF c(2)] demo_pager_ok(2) by simp_all
qed

lemma demo_entry: "entry_ok [1] [2]"
  by (simp add: entry_ok_def sep_cell_def)

lemma demo_one_ok:
  "pager_inv (backend demo_one) demo_one" "800 \<le> room demo_one"
  "\<exists>h P. h \<le> 1 \<and> holds (stored demo_one) h (new_root demo_edit) [[1] \<mapsto> [2]] P"
proof -
  have "2 * 0 + 3 \<le> room demo_empty" using demo_empty_ok(4) by simp
  from mem_pages.insert_holds [OF demo_empty_ok(2,3) [unfolded stored_def] demo_entry this] obtain e p h where i:
    "tree_insert (pager_ops mem_ops) (Suc 0) demo_root [1] [2] demo_empty = (Inr e, p)" "mem_pages.later demo_empty p"
    "h \<le> Suc 0" "\<exists>P. holds (stored p) h (new_root e) [[1] \<mapsto> [2]] P" "room demo_empty \<le> room p + (2 * 0 + 3)"
    unfolding stored_def by blast
  then have e: "demo_edit = e" "demo_one = p" by (simp_all add: demo_edit_def demo_one_def)
  show "pager_inv (backend demo_one) demo_one" "800 \<le> room demo_one"
    "\<exists>h P. h \<le> 1 \<and> holds (stored demo_one) h (new_root demo_edit) [[1] \<mapsto> [2]] P"
    unfolding e using i mem_later_ok [OF i(2)] demo_empty_ok(4) by auto
qed

section \<open>Refinement of a finite map\<close>

text \<open>C21: On a consistent pager, looking a key up in a tree that holds the map \<open>f\<close> returns \<open>f key\<close>, succeeds, and
  leaves the contents of every page and the allocation state as they were.\<close>

theorem tree_lookup_refines:
  assumes "pager_inv (backend p) p" "holds (stored p) h root f P"
  shows "\<exists>p'. tree_lookup (pager_ops mem_ops) (Suc h) root key p = (Inr (f key), p') \<and> pager_inv (backend p') p'
    \<and> stored p' = stored p \<and> used p' = used p"
  using mem_pages.holds_lookup [OF assms [unfolded stored_def], of key] unfolding stored_def mem_pages.same_def by auto

theorem tree_lookup_refines_witness:
  "\<exists>h P p'. holds (stored demo_one) h (new_root demo_edit) [[1] \<mapsto> [2]] P
    \<and> tree_lookup (pager_ops mem_ops) (Suc h) (new_root demo_edit) [1] demo_one = (Inr (Some [2]), p')"
proof -
  obtain h P where h: "holds (stored demo_one) h (new_root demo_edit) [[1] \<mapsto> [2]] P" using demo_one_ok(3) by blast
  then show ?thesis using tree_lookup_refines [OF demo_one_ok(1) h, of "[1]"] by auto
qed



text \<open>C20: Deleting a key from a tree that holds \<open>f\<close> (with room for the rewritten path) either yields a tree that
  holds \<open>f\<close> without the key, accounting exactly for the pages, or fails with the one possible error, a
  rewritten node that does not fit its page. An absent key changes nothing. In every case the old root
  still holds \<open>f\<close>.\<close>

theorem tree_delete_refines:
  assumes "pager_inv (backend p) p" "holds (stored p) h root f P" "3 * (h + 1) \<le> room p"
  shows "\<exists>r p'. tree_delete (pager_ops mem_ops) (Suc h) root key p = (r, p') \<and> pager_inv (backend p') p'
    \<and> holds (stored p') h root f P
    \<and> (case r of
         Inl e \<Rightarrow> \<exists>n. e = Some (BTreePager (PayloadTooLarge n CAP)) \<and> CAP < n
       | Inr e \<Rightarrow> (\<exists>h' \<le> h. holds (stored p') h' (new_root e) (f(key := None)) ((P \<union> (used p' - used p)) - set (freed e)))
           \<and> distinct (freed e) \<and> set (freed e) \<subseteq> P \<union> (used p' - used p)
           \<and> (f key = None \<longrightarrow> new_root e = root \<and> freed e = [] \<and> used p' = used p))"
proof -
  from mem_pages.delete_holds [OF assms(1,2) [unfolded stored_def] assms(3), of key] obtain r p' where d:
    "tree_delete (pager_ops mem_ops) (Suc h) root key p = (r, p')" "mem_pages.later p p'"
    "case r of
       Inl e \<Rightarrow> too_big e
     | Inr e \<Rightarrow> (\<exists>h' \<le> h. holds (stored p') h' (new_root e) (f(key := None)) ((P \<union> (used p' - used p)) - set (freed e))
         \<and> distinct (freed e) \<and> set (freed e) \<subseteq> P \<union> (used p' - used p)
         \<and> (f key = None \<longrightarrow> new_root e = root \<and> freed e = [] \<and> used p' = used p))" unfolding stored_def by blast
  then show ?thesis using mem_later_ok [OF d(2)] mem_later_holds [OF d(2) assms(2)]
    by (intro exI [of _ r] exI [of _ p']) (auto simp: too_big_def simp del: fun_upd_apply split: sum.splits)
qed

theorem tree_delete_refines_witness:
  "\<exists>h P r p'. holds (stored demo_one) h (new_root demo_edit) [[1] \<mapsto> [2]] P
    \<and> tree_delete (pager_ops mem_ops) (Suc h) (new_root demo_edit) [1] demo_one = (r, p')
    \<and> (\<forall>e. r = Inr e \<longrightarrow> (\<exists>h' Q. holds (stored p') h' (new_root e) Map.empty Q))"
proof -
  obtain h P where h: "h \<le> 1" "holds (stored demo_one) h (new_root demo_edit) [[1] \<mapsto> [2]] P" using demo_one_ok(3) by blast
  then have "3 * (h + 1) \<le> room demo_one" using demo_one_ok(2) by simp
  from tree_delete_refines [OF demo_one_ok(1) h(2) this, of "[1]"] h(2) show ?thesis by fastforce
qed

text \<open>C22: A range scan over \<open>[lo, hi)\<close> of a tree that holds \<open>f\<close>, collected to the end, returns exactly the entries of
  \<open>f\<close> in the range, by ascending key going forward and descending key going backward, within \<open>|f| + 1\<close>
  steps.\<close>

theorem tree_range_refines:
  assumes "pager_inv (backend p) p" "holds (stored p) h root f P"
  shows "\<exists>c p1 out p2. tree_range_dir (pager_ops mem_ops) (h + 2) root dir lo hi p = (Inr c, p1)
    \<and> collect_all (pager_ops mem_ops) (h + 2) (card (dom f) + 1) c [] p1 = (Inr out, p2)
    \<and> in_order dir (map fst out) \<and> set out = {(k, v). f k = Some v \<and> within lo hi k}
    \<and> stored p2 = stored p \<and> pager_inv (backend p2) p2"
proof -
  have "h + 2 \<le> h + 2" "card (dom f) < card (dom f) + 1" by simp_all
  from mem_pages.range_holds [OF assms [unfolded stored_def] this, of dir lo hi] show ?thesis
    unfolding stored_def mem_pages.same_def by auto
qed

theorem tree_range_refines_witness:
  "\<exists>h P c p1 out p2. holds (stored demo_one) h (new_root demo_edit) [[1] \<mapsto> [2]] P
    \<and> tree_range_dir (pager_ops mem_ops) (h + 2) (new_root demo_edit) Backward (Some [1]) None demo_one = (Inr c, p1)
    \<and> collect_all (pager_ops mem_ops) (h + 2) 2 c [] p1 = (Inr out, p2) \<and> set out = {([1], [2])}"
proof -
  obtain h P where h: "holds (stored demo_one) h (new_root demo_edit) [[1] \<mapsto> [2]] P" using demo_one_ok(3) by blast
  have r: "{(k, v). [[1 :: u8] \<mapsto> [2 :: u8]] k = Some v \<and> within (Some [1]) None k} = {([1], [2])}"
    by (auto simp: within_def split: if_splits)
  have c: "card (dom [[1 :: u8] \<mapsto> [2 :: u8]]) + 1 = 2" by simp
  from tree_range_refines [OF demo_one_ok(1) h, of Backward "Some [1]" None, unfolded r c] obtain cur p1 out p2 where
    "tree_range_dir (pager_ops mem_ops) (h + 2) (new_root demo_edit) Backward (Some [1]) None demo_one = (Inr cur, p1)"
    "collect_all (pager_ops mem_ops) (h + 2) 2 cur [] p1 = (Inr out, p2)" "set out = {([1], [2])}"
    by (elim exE conjE) (rule that)
  then show ?thesis using h
    by (intro exI [of _ h] exI [of _ P] exI [of _ cur] exI [of _ p1] exI [of _ out] exI [of _ p2] conjI)
qed

text \<open>Validation of a tree that holds \<open>f\<close> succeeds and reports its height, the number of entries of \<open>f\<close> and the
  number of its pages.\<close>

theorem tree_validate_accepts:
  assumes "pager_inv (backend p) p" "holds (stored p) h root f P"
  shows "\<exists>p'. validate_tree (pager_ops mem_ops) (Suc h) root p =
    (Inr \<lparr> height = h + 1, entry_count = card (dom f), node_count = card P \<rparr>, p') \<and> stored p' = stored p"
  using mem_pages.validate_holds [OF assms [unfolded stored_def]] unfolding stored_def mem_pages.same_def by auto

theorem tree_validate_accepts_witness:
  "\<exists>p'. validate_tree (pager_ops mem_ops) 1 demo_root demo_empty =
    (Inr \<lparr> height = 1, entry_count = 0, node_count = 1 \<rparr>, p')"
  using tree_validate_accepts [OF demo_empty_ok(2,3)] by auto

text \<open>Enumerating the pages of a tree terminates after one step per page and returns each page of the tree exactly
  once.\<close>

theorem tree_pages_exact:
  assumes "pager_inv (backend p) p" "holds (stored p) h root f P"
  shows "\<exists>ps p'. tree_pages (pager_ops mem_ops) (card P) root p = (Inr ps, p') \<and> distinct ps \<and> set ps = P
    \<and> stored p' = stored p"
  using mem_pages.pages_holds [OF assms [unfolded stored_def]] unfolding stored_def mem_pages.same_def by auto

theorem tree_pages_exact_witness:
  "\<exists>ps p'. tree_pages (pager_ops mem_ops) 1 demo_root demo_empty = (Inr ps, p') \<and> distinct ps \<and> set ps = {demo_root}"
  using tree_pages_exact [OF demo_empty_ok(2,3)] by auto

end
