(* ===== verification/BTreeFuel.thy ===== *)
theory BTreeFuel
  imports BTreeDelete
begin

text \<open>
  The depth budget of the recursive tree operations does not influence their result: a run that does
  not exhaust its budget is the same run under any larger one.
\<close>

lemma bind_mono:
  assumes "st_bind m f s = (r, s')" "r \<noteq> Inl None"
    and "\<And>q t. m s = (q, t) \<Longrightarrow> q \<noteq> Inl None \<Longrightarrow> m' s = (q, t)"
    and "\<And>x t. m s = (Inr x, t) \<Longrightarrow> f x t = (r, s') \<Longrightarrow> f' x t = (r, s')"
  shows "st_bind m' f' s = (r, s')"
  using assms(1)
proof (cases rule: st_bindE)
  case (err e)
  then show ?thesis using assms(2,3) by simp
next
  case (ok x t)
  then show ?thesis using assms(3) [of "Inr x" t] assms(4) [of x t] by simp
qed

lemma tree_lookup_budget:
  "tree_lookup pg n i key s = (r, s') \<Longrightarrow> r \<noteq> Inl None \<Longrightarrow> n \<le> m \<Longrightarrow> tree_lookup pg m i key s = (r, s')"
proof (induction n arbitrary: m i s)
  case (Suc n)
  then obtain m' where m: "m = Suc m'" "n \<le> m'" by (cases m) auto
  show ?case using Suc.prems(1) unfolding m(1) tree_lookup.simps
  proof (rule bind_mono [OF _ Suc.prems(2)])
    fix node t
    assume "(case route node key of None \<Rightarrow> st_return (leaf_get node key) | Some child \<Rightarrow> tree_lookup pg n child key) t = (r, s')"
    then show "(case route node key of None \<Rightarrow> st_return (leaf_get node key) | Some child \<Rightarrow> tree_lookup pg m' child key) t = (r, s')"
      using Suc.IH [OF _ Suc.prems(2) m(2)] by (auto split: option.splits)
  qed
qed simp

lemma insert_rec_budget:
  "insert_rec pg n i key v fr s = (r, s') \<Longrightarrow> r \<noteq> Inl None \<Longrightarrow> n \<le> m \<Longrightarrow> insert_rec pg m i key v fr s = (r, s')"
proof (induction n arbitrary: m i fr s r s')
  case (Suc n)
  then obtain m' where m: "m = Suc m'" "n \<le> m'" by (cases m) auto
  show ?case using Suc.prems(1) unfolding m(1) insert_rec.simps
  proof (rule bind_mono [OF _ Suc.prems(2)])
    fix node t
    assume run: "(case node of
         Leaf ks vs \<Rightarrow>
           (let (ks', vs') = leaf_put ks vs key v
            in st_bind (write_balanced pg (Leaf ks' vs')) (\<lambda>r. st_return (r, fr @ [i])))
       | Internal ks cs \<Rightarrow>
           (let ci = route_index ks key
            in st_bind (insert_rec pg n (cs ! ci) key v (fr @ [i])) (\<lambda>(res, fr').
               let (ks', cs') = child_put ks cs ci res
               in st_bind (write_balanced pg (Internal ks' cs')) (\<lambda>r. st_return (r, fr'))))) t = (r, s')"
    show "(case node of
         Leaf ks vs \<Rightarrow>
           (let (ks', vs') = leaf_put ks vs key v
            in st_bind (write_balanced pg (Leaf ks' vs')) (\<lambda>r. st_return (r, fr @ [i])))
       | Internal ks cs \<Rightarrow>
           (let ci = route_index ks key
            in st_bind (insert_rec pg m' (cs ! ci) key v (fr @ [i])) (\<lambda>(res, fr').
               let (ks', cs') = child_put ks cs ci res
               in st_bind (write_balanced pg (Internal ks' cs')) (\<lambda>r. st_return (r, fr'))))) t = (r, s')"
    proof (cases node)
      case (Internal ks cs)
      then show ?thesis using run unfolding Internal Node.case Let_def
        by (auto elim!: bind_mono [OF _ Suc.prems(2)] intro: Suc.IH [OF _ _ m(2)])
    qed (use run in simp)
  qed
qed simp

lemma delete_rec_budget:
  "delete_rec pg n i key fr s = (r, s') \<Longrightarrow> r \<noteq> Inl None \<Longrightarrow> n \<le> m \<Longrightarrow> delete_rec pg m i key fr s = (r, s')"
proof (induction n arbitrary: m i fr s r s')
  case (Suc n)
  then obtain m' where m: "m = Suc m'" "n \<le> m'" by (cases m) auto
  show ?case using Suc.prems(1) unfolding m(1) delete_rec.simps
  proof (rule bind_mono [OF _ Suc.prems(2)], goal_cases)
    case (2 node t)
    then show ?case
    proof (cases node)
      case (Internal ks cs)
      then show ?thesis using 2 unfolding Internal Node.case Let_def
        by (auto elim!: bind_mono [OF _ Suc.prems(2)] intro: Suc.IH [OF _ _ m(2)])
    qed simp
  qed
qed simp

lemma tree_insert_budget:
  "tree_insert pg n root key v s = (r, s') \<Longrightarrow> r \<noteq> Inl None \<Longrightarrow> n \<le> m \<Longrightarrow> tree_insert pg m root key v s = (r, s')"
  unfolding tree_insert_def
  by (auto elim!: bind_mono intro: insert_rec_budget)

lemma tree_delete_budget:
  "tree_delete pg n root key s = (r, s') \<Longrightarrow> r \<noteq> Inl None \<Longrightarrow> n \<le> m \<Longrightarrow> tree_delete pg m root key s = (r, s')"
  unfolding tree_delete_def
  by (auto elim!: bind_mono intro: delete_rec_budget)

end
