(* ===== verification/TxnJob.thy ===== *)
theory TxnJob
  imports Txn BTreeSpec BTreeFuel
begin

text \<open>
  The key/value job over the pager: a job either applies all of its operations to the map the
  published tree holds or is rejected, and a rejected job leaves that tree as it was.
\<close>

section \<open>Trees are determined by their pages\<close>

lemma kids_restrict:
  "kids P lo hi ks cs kvs ps \<Longrightarrow> (\<And>lo hi c a p. P lo hi c a p \<Longrightarrow> set p \<subseteq> set ps \<Longrightarrow> Q lo hi c a p) \<Longrightarrow>
     kids Q lo hi ks cs kvs ps"
proof (induction P lo hi ks cs kvs ps rule: kids.induct)
  case (2 P lo hi k ks c cs kvs ps)
  from "2.prems"(1) obtain a b p q where s: "kvs = a @ b" "ps = p @ q" "P lo (Some k) c a p"
    "kids P (Some k) hi ks cs b q" by auto
  have "Q lo (Some k) c a p" using s "2.prems"(2) by simp
  moreover have "kids Q (Some k) hi ks cs b q" by (rule "2.IH" [OF s(4)], rule "2.prems"(2)) (use s(2) in auto)
  ultimately show ?case using s(1,2) by auto
qed auto

lemma tree_cong_on:
  "tree h m lo hi i kvs ps \<Longrightarrow> (\<And>j. j \<in> set ps \<Longrightarrow> m' j = m j) \<Longrightarrow> tree h m' lo hi i kvs ps"
proof (induction h arbitrary: lo hi i kvs ps)
  case (Suc h)
  from Suc.prems(1) obtain ks cs qs where t: "m i = Some (Internal ks cs)" "cells_ok (Internal ks cs)"
    "node_wf (Internal ks cs)" "encoded_len (Internal ks cs) \<le> CAP" "ks \<noteq> []" "\<forall>k \<in> set ks. within lo hi k"
    "kids (tree h m) lo hi ks cs kvs qs" "ps = i # qs" by auto
  have "kids (tree h m') lo hi ks cs kvs qs"
    by (rule kids_restrict [OF t(7)], rule Suc.IH) (use t(8) Suc.prems(2) in auto)
  then show ?case using t Suc.prems(2) by auto
qed auto

lemma holds_cong_on:
  assumes "holds m h root f P" "\<And>j. j \<in> P \<Longrightarrow> m' j = m j"
  shows "holds m' h root f P"
  using assms unfolding holds_def by (metis tree_cong_on)

lemma kids_unique:
  "kids P lo hi ks cs kvs ps \<Longrightarrow> kids Q lo' hi' ks cs kvs' ps' \<Longrightarrow>
     (\<And>lo hi c a p lo' hi' a' p'. P lo hi c a p \<Longrightarrow> Q lo' hi' c a' p' \<Longrightarrow> a' = a \<and> p' = p) \<Longrightarrow> kvs' = kvs \<and> ps' = ps"
proof (induction P lo hi ks cs kvs ps arbitrary: lo' kvs' ps' rule: kids.induct)
  case (1 P lo hi c kvs ps)
  from "1.prems"(3) [of lo hi c kvs ps lo' hi' kvs' ps'] "1.prems"(1,2) show ?case by simp
next
  case (2 P lo hi k ks c cs kvs ps)
  from "2.prems"(1) obtain a b p q where s: "kvs = a @ b" "ps = p @ q" "P lo (Some k) c a p"
    "kids P (Some k) hi ks cs b q" by auto
  from "2.prems"(2) obtain a' b' p' q' where s': "kvs' = a' @ b'" "ps' = p' @ q'" "Q lo' (Some k) c a' p'"
    "kids Q (Some k) hi' ks cs b' q'" by auto
  have "a' = a \<and> p' = p" by (rule "2.prems"(3) [OF s(3) s'(3)])
  moreover have "b' = b \<and> q' = q" by (rule "2.IH" [OF s(4) s'(4)]) (rule "2.prems"(3))
  ultimately show ?case using s(1,2) s'(1,2) by simp
qed auto

lemma tree_unique:
  "tree h m lo hi i kvs ps \<Longrightarrow> tree h' m lo' hi' i kvs' ps' \<Longrightarrow> h' = h \<and> kvs' = kvs \<and> ps' = ps"
proof (induction h arbitrary: lo hi i kvs ps h' lo' hi' kvs' ps')
  case 0
  then show ?case by (cases h') auto
next
  case (Suc h)
  from Suc.prems(1) obtain ks cs qs where t: "m i = Some (Internal ks cs)" "kids (tree h m) lo hi ks cs kvs qs" "ps = i # qs" by auto
  obtain h2 qs' where t': "h' = Suc h2" "kids (tree h2 m) lo' hi' ks cs kvs' qs'" "ps' = i # qs'"
    using Suc.prems(2) t(1) by (cases h') auto
  have u: "kvs' = kvs \<and> qs' = qs" by (rule kids_unique [OF t(2) t'(2)]) (use Suc.IH in blast)
  have "h2 = h"
  proof -
    obtain c cs' where cs: "cs = c # cs'" using kids_length [OF t(2)] by (cases cs) auto
    obtain l u a p where "tree h m l u c a p" using t(2) cs by (cases ks; cases cs') auto
    moreover obtain l' u' a' p' where "tree h2 m l' u' c a' p'" using t'(2) cs by (cases ks; cases cs') auto
    ultimately show ?thesis using Suc.IH by blast
  qed
  then show ?case using u t(3) t'(1,3) by simp
qed

lemma holds_unique:
  assumes "holds m h root f P" "holds m h' root f' P'"
  shows "h' = h" "f' = f" "P' = P"
  using assms unfolding holds_def by (metis tree_unique)+

section \<open>Effects of operations\<close>

fun op_effect :: "Op \<Rightarrow> (bytes \<rightharpoonup> bytes) \<Rightarrow> (bytes \<rightharpoonup> bytes)" where
  "op_effect (Put key v) f = f(key \<mapsto> v)"
| "op_effect (Delete key) f = f(key := None)"

definition ops_effect :: "Op list \<Rightarrow> (bytes \<rightharpoonup> bytes) \<Rightarrow> (bytes \<rightharpoonup> bytes)" where
  "ops_effect os f = fold op_effect os f"

text \<open>Pages enough for \<open>n\<close> operations on a tree of height \<open>h\<close>.\<close>

definition ops_cost :: "nat \<Rightarrow> nat \<Rightarrow> nat" where
  "ops_cost h n = n * (3 * (h + n) + 3)"

lemma ops_cost_Suc: "ops_cost h (Suc n) = ops_cost (Suc h) n + 3 * (h + Suc n) + 3"
  by (simp add: ops_cost_def algebra_simps)

lemma ops_cost_mono: "h \<le> h' \<Longrightarrow> n \<le> n' \<Longrightarrow> ops_cost h n \<le> ops_cost h' n'"
  unfolding ops_cost_def by (intro mult_le_mono) auto

text \<open>The only way an operation whose sizes were checked is refused.\<close>

definition overfull :: "TxnError option \<Rightarrow> bool" where
  "overfull e \<longleftrightarrow> (\<exists>n. e = Some (TxnBTree (BTreePager (PayloadTooLarge n CAP))) \<and> CAP < n)"

lemma overfull_not_fatal: "overfull e \<Longrightarrow> \<not> is_fatal e"
  by (auto simp: overfull_def)

abbreviation later :: "bytes pager \<Rightarrow> bytes pager \<Rightarrow> bool" where "later \<equiv> mem_pages.later"

text \<open>A step of a job: the tree at the new root and the pages it gave up.\<close>

definition stepped :: "bytes WriteCtx \<Rightarrow> bytes WriteCtx \<Rightarrow> nat \<Rightarrow> PageId \<Rightarrow> (bytes \<rightharpoonup> bytes) \<Rightarrow> PageId set \<Rightarrow> bool" where
  "stepped c c' h root f P \<longleftrightarrow> (\<exists>new. ctx_freed c' = ctx_freed c @ new
     \<and> holds (stored (ctx_pager c')) h root f ((P \<union> (used (ctx_pager c') - used (ctx_pager c))) - set new)
     \<and> distinct new \<and> set new \<subseteq> P \<union> (used (ctx_pager c') - used (ctx_pager c)))"

lemma later_used: "later p q \<Longrightarrow> used p \<subseteq> used q"
  by (simp add: mem_pages.later_def)

lemma holds_used: "holds (stored p) h root f P \<Longrightarrow> P \<subseteq> used p"
  unfolding stored_def by (rule mem_pages.holds_live)

lemma stepped_trans:
  assumes "stepped c c1 h1 r1 f1 P" "later (ctx_pager c) (ctx_pager c1)" "later (ctx_pager c1) (ctx_pager c2)"
    "P \<subseteq> used (ctx_pager c)"
    and "\<And>P1. holds (stored (ctx_pager c1)) h1 r1 f1 P1 \<Longrightarrow> stepped c1 c2 h2 r2 f2 P1"
  shows "stepped c c2 h2 r2 f2 P"
proof -
  from assms(1) obtain n1 where n1: "ctx_freed c1 = ctx_freed c @ n1"
    "holds (stored (ctx_pager c1)) h1 r1 f1 ((P \<union> (used (ctx_pager c1) - used (ctx_pager c))) - set n1)"
    "distinct n1" "set n1 \<subseteq> P \<union> (used (ctx_pager c1) - used (ctx_pager c))" unfolding stepped_def by blast
  let ?P1 = "(P \<union> (used (ctx_pager c1) - used (ctx_pager c))) - set n1"
  from assms(5) [OF n1(2)] obtain n2 where n2: "ctx_freed c2 = ctx_freed c1 @ n2"
    "holds (stored (ctx_pager c2)) h2 r2 f2 ((?P1 \<union> (used (ctx_pager c2) - used (ctx_pager c1))) - set n2)"
    "distinct n2" "set n2 \<subseteq> ?P1 \<union> (used (ctx_pager c2) - used (ctx_pager c1))" unfolding stepped_def by blast
  note u = later_used [OF assms(2)] later_used [OF assms(3)]
  have "(?P1 \<union> (used (ctx_pager c2) - used (ctx_pager c1))) - set n2 =
      (P \<union> (used (ctx_pager c2) - used (ctx_pager c))) - set (n1 @ n2)" using u assms(4) n1(4) by auto
  moreover have "set n1 \<inter> set n2 = {}" using n1(4) n2(4) u assms(4) by blast
  then have "distinct (n1 @ n2)" using n1(3) n2(3) by simp
  moreover have "set (n1 @ n2) \<subseteq> P \<union> (used (ctx_pager c2) - used (ctx_pager c))" using n1(4) n2(4) u by auto
  ultimately show ?thesis unfolding stepped_def using n1(1) n2(1,2) by (intro exI [of _ "n1 @ n2"]) auto
qed

section \<open>Operations in a write context\<close>

lemma on_tree_run: "m (ctx_pager c) = (r, p) \<Longrightarrow> on_tree m c = (map_err (map_option TxnBTree) r, c\<lparr> ctx_pager := p \<rparr>)"
  by (simp add: on_tree_def st_map_err_def st_zoom_def)

lemma ctx_insert_ok:
  assumes "pager_inv (backend (ctx_pager c)) (ctx_pager c)" "holds (stored (ctx_pager c)) h root f P" "entry_ok key v"
    "2 * h + 3 \<le> room (ctx_pager c)" "h < n"
  shows "\<exists>root' c' h'. ctx_insert mem_ops n root key v c = (Inr root', c') \<and> later (ctx_pager c) (ctx_pager c')
    \<and> ctx_root c' = ctx_root c \<and> h' \<le> Suc h \<and> room (ctx_pager c) \<le> room (ctx_pager c') + (2 * h + 3)
    \<and> stepped c c' h' root' (f(key \<mapsto> v)) P"
proof -
  from mem_pages.insert_holds [OF assms(1,2) [unfolded stored_def] assms(3,4)] obtain e p' h' where i:
    "tree_insert (pager_ops mem_ops) (Suc h) root key v (ctx_pager c) = (Inr e, p')" "later (ctx_pager c) p'" "h' \<le> Suc h"
    "holds (stored p') h' (new_root e) (f(key \<mapsto> v)) ((P \<union> (used p' - used (ctx_pager c))) - set (freed e))"
    "distinct (freed e)" "set (freed e) \<subseteq> P \<union> (used p' - used (ctx_pager c))"
    "room (ctx_pager c) \<le> room p' + (2 * h + 3)" unfolding stored_def by blast
  have "tree_insert (pager_ops mem_ops) n root key v (ctx_pager c) = (Inr e, p')"
    by (rule tree_insert_budget [OF i(1)]) (use assms(5) in auto)
  then have "ctx_insert mem_ops n root key v c = (Inr (new_root e), c\<lparr> ctx_pager := p', ctx_freed := ctx_freed c @ freed e \<rparr>)"
    by (simp add: ctx_insert_def on_tree_run extend_freed_def)
  then show ?thesis using i by (auto simp: stepped_def)
qed

lemma ctx_delete_ok:
  assumes "pager_inv (backend (ctx_pager c)) (ctx_pager c)" "holds (stored (ctx_pager c)) h root f P"
    "3 * (h + 1) \<le> room (ctx_pager c)" "h < n"
  shows "\<exists>r c'. ctx_delete mem_ops n root key c = (r, c') \<and> later (ctx_pager c) (ctx_pager c')
    \<and> ctx_root c' = ctx_root c \<and> room (ctx_pager c) \<le> room (ctx_pager c') + 3 * (h + 1)
    \<and> (\<exists>new. ctx_freed c' = ctx_freed c @ new)
    \<and> (case r of Inl e \<Rightarrow> overfull e | Inr root' \<Rightarrow> \<exists>h' \<le> h. stepped c c' h' root' (f(key := None)) P)"
proof -
  from mem_pages.delete_holds [OF assms(1,2) [unfolded stored_def] assms(3), of key] obtain r p' where d:
    "tree_delete (pager_ops mem_ops) (Suc h) root key (ctx_pager c) = (r, p')" "later (ctx_pager c) p'"
    "room (ctx_pager c) \<le> room p' + 3 * (h + 1)"
    "case r of
       Inl e \<Rightarrow> too_big e
     | Inr e \<Rightarrow> (\<exists>h' \<le> h. holds (stored p') h' (new_root e) (f(key := None)) ((P \<union> (used p' - used (ctx_pager c))) - set (freed e))
         \<and> distinct (freed e) \<and> set (freed e) \<subseteq> P \<union> (used p' - used (ctx_pager c))
         \<and> (f key = None \<longrightarrow> new_root e = root \<and> freed e = [] \<and> used p' = used (ctx_pager c)))" unfolding stored_def by blast
  have "r \<noteq> Inl None" using d(4) by (auto simp: too_big_def)
  then have run: "tree_delete (pager_ops mem_ops) n root key (ctx_pager c) = (r, p')"
    by (rule tree_delete_budget [OF d(1)]) (use assms(4) in simp)
  show ?thesis
  proof (cases r)
    case (Inl e)
    then have "ctx_delete mem_ops n root key c = (Inl (map_option TxnBTree e), c\<lparr> ctx_pager := p' \<rparr>)"
      using run by (simp add: ctx_delete_def on_tree_run)
    moreover have "overfull (map_option TxnBTree e)" using d(4) Inl by (auto simp: too_big_def overfull_def)
    ultimately show ?thesis using d(2,3) by simp
  next
    case (Inr e)
    then have "ctx_delete mem_ops n root key c = (Inr (new_root e), c\<lparr> ctx_pager := p', ctx_freed := ctx_freed c @ freed e \<rparr>)"
      using run by (simp add: ctx_delete_def on_tree_run extend_freed_def)
    then show ?thesis using d(2-4) Inr by (auto simp: stepped_def simp del: fun_upd_apply)
  qed
qed


section \<open>The key/value job\<close>

lemma check_ops_Cons:
  "check_ops (o' # os) = Inr () \<Longrightarrow> check_ops os = Inr () \<and> (\<forall>key v. o' = Put key v \<longrightarrow> entry_ok key v)"
  using check_entry_iff by (cases o') (auto split: sum.splits)

lemma apply_ops_ok:
  assumes "check_ops os = Inr ()" "pager_inv (backend (ctx_pager c)) (ctx_pager c)" "holds (stored (ctx_pager c)) h root f P"
    "ops_cost h (length os) \<le> room (ctx_pager c)" "h + length os < n"
  shows "\<exists>r c'. apply_ops mem_ops n os root c = (r, c') \<and> later (ctx_pager c) (ctx_pager c') \<and> ctx_root c' = ctx_root c
    \<and> room (ctx_pager c) \<le> room (ctx_pager c') + ops_cost h (length os) \<and> (\<exists>new. ctx_freed c' = ctx_freed c @ new)
    \<and> (case r of Inl e \<Rightarrow> overfull e | Inr root' \<Rightarrow> \<exists>h' \<le> h + length os. stepped c c' h' root' (ops_effect os f) P)"
  using assms
proof (induction os arbitrary: c h root f P)
  case Nil
  then show ?case using mem_pages.later_refl [OF Nil(2)] by (auto simp: ops_effect_def stepped_def)
next
  case (Cons o' os)
  define C where "C = (case o' of Put key v \<Rightarrow> ctx_insert mem_ops n root key v | Delete key \<Rightarrow> ctx_delete mem_ops n root key)"
  have run: "apply_ops mem_ops n (o' # os) root = st_bind C (apply_ops mem_ops n os)" by (cases o') (simp_all add: C_def)
  note chk = check_ops_Cons [OF Cons.prems(1)]
  have cost: "ops_cost (Suc h) (length os) + 3 * (h + 1) \<le> room (ctx_pager c)" "h < n"
    "ops_cost (Suc h) (length os) + 3 * (h + 1) \<le> ops_cost h (length (o' # os))"
    using Cons.prems(4,5) by (simp_all add: ops_cost_Suc)
  have "\<exists>r c1. C c = (r, c1) \<and> later (ctx_pager c) (ctx_pager c1) \<and> ctx_root c1 = ctx_root c
      \<and> room (ctx_pager c) \<le> room (ctx_pager c1) + 3 * (h + 1) \<and> (\<exists>new. ctx_freed c1 = ctx_freed c @ new)
      \<and> (case r of Inl e \<Rightarrow> overfull e | Inr root' \<Rightarrow> \<exists>h' \<le> Suc h. stepped c c1 h' root' (op_effect o' f) P)"
  proof (cases o')
    case (Put key v)
    then have "entry_ok key v" "2 * h + 3 \<le> room (ctx_pager c)" using chk cost(1) by auto
    from ctx_insert_ok [OF Cons.prems(2,3) this cost(2)] obtain root' c' h' where
      "ctx_insert mem_ops n root key v c = (Inr root', c')" "later (ctx_pager c) (ctx_pager c')"
      "ctx_root c' = ctx_root c" "h' \<le> Suc h" "room (ctx_pager c) \<le> room (ctx_pager c') + (2 * h + 3)"
      "stepped c c' h' root' (f(key \<mapsto> v)) P" by blast
    then show ?thesis using Put by (auto simp: C_def stepped_def simp del: fun_upd_apply intro!: exI [of _ "Inr root'"] exI [of _ c'] exI [of _ h'])
  next
    case (Delete key)
    have "3 * (h + 1) \<le> room (ctx_pager c)" using cost(1) by simp
    from ctx_delete_ok [OF Cons.prems(2,3) this cost(2), of key] obtain r c' where
      "ctx_delete mem_ops n root key c = (r, c')" "later (ctx_pager c) (ctx_pager c')"
      "ctx_root c' = ctx_root c" "room (ctx_pager c) \<le> room (ctx_pager c') + 3 * (h + 1)" "\<exists>new. ctx_freed c' = ctx_freed c @ new"
      "case r of Inl e \<Rightarrow> overfull e | Inr root' \<Rightarrow> \<exists>h' \<le> h. stepped c c' h' root' (f(key := None)) P" by blast
    then show ?thesis using Delete
      by (intro exI [of _ r] exI [of _ c']) (auto simp: C_def simp del: fun_upd_apply split: sum.splits intro: le_SucI)
  qed
  then obtain r c1 where c1: "C c = (r, c1)" "later (ctx_pager c) (ctx_pager c1)" "ctx_root c1 = ctx_root c"
    "room (ctx_pager c) \<le> room (ctx_pager c1) + 3 * (h + 1)" "\<exists>new. ctx_freed c1 = ctx_freed c @ new"
    "case r of Inl e \<Rightarrow> overfull e | Inr root' \<Rightarrow> \<exists>h' \<le> Suc h. stepped c c1 h' root' (op_effect o' f) P" by blast
  show ?case
  proof (cases r)
    case (Inl e)
    then show ?thesis using run c1 cost(3) by (intro exI [of _ "Inl e"] exI [of _ c1]) auto
  next
    case (Inr r1)
    then obtain h1 where h1: "h1 \<le> Suc h" "stepped c c1 h1 r1 (op_effect o' f) P" using c1(6) by auto
    then obtain P1 where P1: "holds (stored (ctx_pager c1)) h1 r1 (op_effect o' f) P1" unfolding stepped_def by blast
    have le: "ops_cost h1 (length os) \<le> ops_cost (Suc h) (length os)" by (rule ops_cost_mono [OF h1(1)]) simp
    have b: "check_ops os = Inr ()" "ops_cost h1 (length os) \<le> room (ctx_pager c1)" "h1 + length os < n"
      using chk le c1(4) cost(1) h1(1) Cons.prems(5) by auto
    note ok1 = mem_pages.later_ok [OF c1(2)]
    from Cons.IH [OF b(1) ok1 P1 b(2,3)] obtain q c2 where c2: "apply_ops mem_ops n os r1 c1 = (q, c2)"
      "later (ctx_pager c1) (ctx_pager c2)" "ctx_root c2 = ctx_root c1"
      "room (ctx_pager c1) \<le> room (ctx_pager c2) + ops_cost h1 (length os)" "\<exists>new. ctx_freed c2 = ctx_freed c1 @ new"
      "case q of Inl e \<Rightarrow> overfull e | Inr root' \<Rightarrow> \<exists>h' \<le> h1 + length os. stepped c1 c2 h' root' (ops_effect os (op_effect o' f)) P1"
      by blast
    have "case q of Inl e \<Rightarrow> overfull e
        | Inr root' \<Rightarrow> \<exists>h' \<le> h + length (o' # os). stepped c c2 h' root' (ops_effect (o' # os) f) P"
    proof (cases q)
      case (Inr r2)
      then obtain h2 where h2: "h2 \<le> h1 + length os" "stepped c1 c2 h2 r2 (ops_effect os (op_effect o' f)) P1" using c2(6) by auto
      have "stepped c c2 h2 r2 (ops_effect os (op_effect o' f)) P"
        by (rule stepped_trans [OF h1(2) c1(2) c2(2) holds_used [OF Cons.prems(3)]])
          (use h2(2) holds_unique(3) [OF P1] in blast)
      then show ?thesis using Inr h1(1) h2(1) by (auto simp: ops_effect_def intro!: exI [of _ h2])
    qed (use c2(6) in simp)
    moreover have "apply_ops mem_ops n (o' # os) root c = (q, c2)" using run c1(1) Inr c2(1) by simp
    ultimately show ?thesis using mem_pages.later_trans [OF c1(2) c2(2)] c1(3-5) c2(3-5) le cost(3)
      by (intro exI [of _ q] exI [of _ c2]) auto
  qed
qed

text \<open>Why a job is rejected: an entry too large, found before anything is applied, or a node rewritten by
  a deletion that does not fit its page.\<close>

definition refused :: "Op list \<Rightarrow> TxnError option \<Rightarrow> bool" where
  "refused os e \<longleftrightarrow> (\<exists>x. check_ops os = Inl x \<and> e = Some x) \<or> (check_ops os = Inr () \<and> overfull e)"

lemma check_ops_error: "check_ops os = Inl e \<Longrightarrow> txn_error_category e = ResourceLimit"
proof (induction os rule: check_ops.induct)
  case (2 key v rest)
  then show ?case by (auto simp: check_entry_def Let_def split: sum.splits if_splits)
qed auto

lemma refused_not_fatal: "refused os e \<Longrightarrow> \<not> is_fatal e"
  unfolding refused_def using overfull_not_fatal check_ops_error by force

lemma ops_job_ok:
  assumes "pager_inv (backend (ctx_pager c)) (ctx_pager c)" "holds (stored (ctx_pager c)) h (ctx_root c) f P"
    "ops_cost h (length os) \<le> room (ctx_pager c)" "h + length os < n"
  shows "\<exists>r c'. ops_job mem_ops n os c = (r, c') \<and> later (ctx_pager c) (ctx_pager c')
    \<and> room (ctx_pager c) \<le> room (ctx_pager c') + ops_cost h (length os) \<and> (\<exists>new. ctx_freed c' = ctx_freed c @ new)
    \<and> (case r of Inl e \<Rightarrow> refused os e
       | Inr _ \<Rightarrow> check_ops os = Inr () \<and> (\<exists>h' \<le> h + length os. stepped c c' h' (ctx_root c') (ops_effect os f) P))"
proof (cases "check_ops os")
  case (Inl e)
  then show ?thesis using mem_pages.later_refl [OF assms(1)]
    by (intro exI [of _ "Inl (Some e)"] exI [of _ c]) (auto simp: ops_job_def refused_def)
next
  case (Inr u)
  then have chk: "check_ops os = Inr ()" by simp
  from apply_ops_ok [OF chk assms] obtain r c' where a: "apply_ops mem_ops n os (ctx_root c) c = (r, c')"
    "later (ctx_pager c) (ctx_pager c')" "room (ctx_pager c) \<le> room (ctx_pager c') + ops_cost h (length os)"
    "\<exists>new. ctx_freed c' = ctx_freed c @ new"
    "case r of Inl e \<Rightarrow> overfull e | Inr root' \<Rightarrow> \<exists>h' \<le> h + length os. stepped c c' h' root' (ops_effect os f) P" by blast
  show ?thesis
  proof (cases r)
    case (Inl e)
    then show ?thesis using a chk by (intro exI [of _ "Inl e"] exI [of _ c']) (auto simp: ops_job_def refused_def)
  next
    case (Inr root')
    then have "ops_job mem_ops n os c = (Inr (), c'\<lparr> ctx_root := root' \<rparr>)" using a(1) chk by (simp add: ops_job_def set_root_def)
    then show ?thesis using a Inr chk by (auto simp: stepped_def)
  qed
qed

end
