(* ===== verification/Index.thy ===== *)
theory Index
  imports KeyCodec TxnJob "HOL-Library.Sublist"
begin

text \<open>
  Secondary indexes (\<open>crates/index/src/lib.rs\<close>): the entry a row contributes to an index, the bounds
  that cover the entries with given column values, and the maintenance operations on an index tree.
\<close>

section \<open>Entries and bounds\<close>

record IndexEntry =
  entry_key :: bytes
  entry_value :: bytes

definition entry :: "value list \<Rightarrow> bytes \<Rightarrow> bool \<Rightarrow> IndexError + IndexEntry option" where
  "entry cols pk_key unique =
     (if unique \<and> list_ex (\<lambda>v. v = Null) cols then Inr None
      else map_err IndexType (and_then (encode_key cols) (\<lambda>key.
        Inr (Some \<lparr> entry_key = (if unique then key else key @ pk_key), entry_value = pk_key \<rparr>))))"

text \<open>The loop of \<open>successor\<close>, on the reversed byte string.\<close>

fun successor_rev :: "bytes \<Rightarrow> bytes option" where
  "successor_rev [] = None"
| "successor_rev (b # p) = (if b = 0xFF then successor_rev p else Some ((b + 1) # p))"

definition successor :: "bytes \<Rightarrow> bytes option" where
  "successor p = map_option rev (successor_rev (rev p))"

definition prefix_bounds :: "value list \<Rightarrow> IndexError + (bytes \<times> bytes option)" where
  "prefix_bounds cols = map_err IndexType (and_then (encode_key cols) (\<lambda>lo. Inr (lo, successor lo)))"

section \<open>Maintenance\<close>

type_synonym ('b, 'a) im = "('b WriteCtx, IndexError option, 'a) st"

definition on_ctx :: "('b, 'a) jm \<Rightarrow> ('b, 'a) im" where
  "on_ctx m = st_map_err (map_option IndexTxn) m"

definition insert_entry :: "'b io_ops \<Rightarrow> nat \<Rightarrow> PageId \<Rightarrow> IndexEntry \<Rightarrow> ('b, PageId) im" where
  "insert_entry ops n root e = on_ctx (ctx_insert ops n root (entry_key e) (entry_value e))"

definition remove_entry :: "'b io_ops \<Rightarrow> nat \<Rightarrow> PageId \<Rightarrow> IndexEntry \<Rightarrow> ('b, PageId) im" where
  "remove_entry ops n root e = on_ctx (ctx_delete ops n root (entry_key e))"

definition probe_unique :: "'b io_ops \<Rightarrow> nat \<Rightarrow> PageId \<Rightarrow> value list \<Rightarrow> ('b, bytes option) im" where
  "probe_unique ops n root cols =
     st_bind (st_lift (map_err (\<lambda>e. Some (IndexType e)) (encode_key cols))) (\<lambda>key. on_ctx (ctx_lookup ops n root key))"

section \<open>The successor of a prefix\<close>

lemma successor_snoc:
  "successor [] = None" "successor (p @ [b]) = (if b = 0xFF then successor p else Some (p @ [b + 1]))"
  by (simp_all add: successor_def)

lemma u8_max: "b \<le> (0xFF :: u8)"
proof -
  have "unat b < 2 ^ LENGTH(8)" by (rule unsigned_less)
  then show ?thesis by (simp add: word_le_nat_alt)
qed

lemma u8_succ: "b \<noteq> (0xFF :: u8) \<Longrightarrow> b < b + 1"
proof -
  assume "b \<noteq> 0xFF"
  then have "unat b < 255" using u8_max [of b] by (simp add: word_le_nat_alt word_unat_eq_iff order_less_le)
  then show ?thesis by (simp add: word_less_nat_alt unat_word_ariths)
qed

lemma prefix_le: "prefix p k \<Longrightarrow> p \<le> (k :: bytes)"
  by (induction p arbitrary: k) (auto elim!: prefixE)

lemma append_less: "(p @ a < p @ b) = (a < (b :: bytes))"
  by (induction p) auto

lemma append_le: "(p @ a \<le> p @ b) = (a \<le> (b :: bytes))"
  by (induction p) auto

lemma less_snoc_prefix: "k < p @ [b + 1] \<Longrightarrow> p @ [b] \<le> k \<Longrightarrow> b \<noteq> 0xFF \<Longrightarrow> prefix (p @ [b]) (k :: bytes)"
proof (induction p arbitrary: k)
  case Nil
  then obtain c k' where k: "k = c # k'" by (cases k) auto
  have "c \<le> b" "b \<le> c"
    using Nil k by (auto simp: unat_arith_simps word_less_nat_alt unat_plus_if' split: if_splits)
  then show ?case using k by simp
next
  case (Cons a p)
  then show ?case by (cases k) auto
qed

lemma snoc_less: "prefix (p @ [b]) k \<Longrightarrow> b \<noteq> 0xFF \<Longrightarrow> k < p @ [b + 1 :: u8]"
proof (induction p arbitrary: k)
  case Nil
  then show ?case using u8_succ [of b] by (auto elim!: prefixE)
next
  case (Cons a p)
  then show ?case using u8_succ [of b] by (auto elim!: prefixE)
qed

text \<open>The bounds of a prefix cover exactly the strings that start with it.\<close>

lemma successor_bounds: "within (Some p) (successor p) k \<longleftrightarrow> prefix p k"
proof (induction p arbitrary: k rule: rev_induct)
  case Nil
  then show ?case by (simp add: successor_snoc within_def)
next
  case (snoc b p)
  show ?case
  proof (cases "b = 0xFF")
    case False
    then show ?thesis using less_snoc_prefix [of k p b] snoc_less [of p b k] prefix_le [of "p @ [b]" k]
      by (auto simp: successor_snoc within_def)
  next
    case True
    have le: "p @ [b] \<le> k \<Longrightarrow> p \<le> k" using prefix_le [of p "p @ [b]"] by (meson order_trans prefixI)
    have "within (Some (p @ [b])) (successor (p @ [b])) k \<longleftrightarrow> p @ [b] \<le> k \<and> within (Some p) (successor p) k"
      using True le by (auto simp: successor_snoc within_def)
    also have "\<dots> \<longleftrightarrow> p @ [b] \<le> k \<and> prefix p k" using snoc by blast
    also have "\<dots> \<longleftrightarrow> prefix (p @ [b]) k"
    proof
      assume a: "p @ [b] \<le> k \<and> prefix p k"
      then obtain r where r: "k = p @ r" "[b] \<le> r" by (auto elim!: prefixE simp: append_le)
      then obtain c r' where "r = c # r'" "b \<le> c" by (cases r) auto
      moreover have "c \<le> 0xFF" by (rule u8_max)
      ultimately show "prefix (p @ [b]) k" using r True by simp
    next
      assume "prefix (p @ [b]) k"
      then show "p @ [b] \<le> k \<and> prefix p k" using prefix_le append_prefixD by blast
    qed
    finally show ?thesis .
  qed
qed

section \<open>Bounds and entries\<close>

lemma entry_keys:
  assumes "\<forall>v \<in> set cols. keyable v" "entry cols pk unique = Inr (Some e)"
  shows "entry_key e = concat (map enc_bytes cols) @ (if unique then [] else pk)" "entry_value e = pk"
  using assms by (auto simp: entry_def encode_key_concat split: if_splits)

lemma prefix_encoded:
  assumes "length us = length vs" "\<forall>u \<in> set us. keyable u" "\<forall>v \<in> set vs. keyable v"
  shows "prefix (concat (map enc_bytes us)) (concat (map enc_bytes vs) @ s) \<longleftrightarrow> list_all2 value_eq us vs"
proof -
  note c = key_enc.enc_concat_cmp_suffix [OF assms]
  have eq: "list_all2 value_eq us vs \<longleftrightarrow> cmp_slice logical_cmp us vs = Equal"
    by (simp add: val_cmp.slice_Equal_iff value_eq_def [abs_def])
  show ?thesis unfolding eq
  proof
    assume "prefix (concat (map enc_bytes us)) (concat (map enc_bytes vs) @ s)"
    then obtain t where "concat (map enc_bytes vs) @ s = concat (map enc_bytes us) @ t" by (auto elim: prefixE)
    then have "cmp (concat (map enc_bytes us) @ t) (concat (map enc_bytes vs) @ s) = Equal" by (simp add: cmp_def)
    then show "cmp_slice logical_cmp us vs = Equal" using c [of t s] by (simp split: Ordering.splits)
  next
    assume "cmp_slice logical_cmp us vs = Equal"
    then have "cmp (concat (map enc_bytes us)) (concat (map enc_bytes vs)) = Equal" using c [of "[]" "[]"] by (simp add: cmp_def)
    then show "prefix (concat (map enc_bytes us)) (concat (map enc_bytes vs) @ s)" by (auto simp: cmp_def split: if_splits)
  qed
qed

lemma bounds_cover:
  assumes "length cols \<le> length cols'" "\<forall>v \<in> set cols. keyable v" "\<forall>v \<in> set cols'. keyable v"
    and "prefix_bounds cols = Inr (lo, hi)" "entry cols' pk unique = Inr (Some e)"
  shows "within (Some lo) hi (entry_key e) \<longleftrightarrow> list_all2 value_eq cols (take (length cols) cols')"
proof -
  let ?n = "length cols" and ?s = "if unique then [] else pk"
  have "entry_key e = concat (map enc_bytes (take ?n cols')) @ concat (map enc_bytes (drop ?n cols')) @ ?s"
    unfolding entry_keys(1) [OF assms(3,5)] append_assoc [symmetric] concat_append [symmetric] map_append [symmetric] append_take_drop_id ..
  moreover have "lo = concat (map enc_bytes cols)" "hi = successor lo"
    using assms(2,4) by (auto simp: prefix_bounds_def encode_key_concat)
  moreover have "length cols = length (take ?n cols')" "\<forall>v \<in> set (take ?n cols'). keyable v"
    using assms(1,3) by (auto dest: in_set_takeD)
  ultimately show ?thesis using prefix_encoded [of cols "take ?n cols'"] assms(2) by (simp add: successor_bounds)
qed

section \<open>Index trees\<close>

text \<open>A row as an index sees it: its indexed columns and its encoded primary key. An index tree over a
  table holds the entries of its rows and nothing else.\<close>

definition indexes :: "bool \<Rightarrow> (value list \<times> bytes) set \<Rightarrow> (bytes \<rightharpoonup> bytes) \<Rightarrow> bool" where
  "indexes unique rows f \<longleftrightarrow>
     (\<forall>k v. f k = Some v \<longleftrightarrow> (\<exists>(cols, pk) \<in> rows. entry cols pk unique = Inr (Some \<lparr> entry_key = k, entry_value = v \<rparr>)))"

definition indexable :: "nat \<Rightarrow> (value list \<times> bytes) set \<Rightarrow> bool" where
  "indexable n rows \<longleftrightarrow> (\<forall>(cols, pk) \<in> rows. length cols = n \<and> (\<forall>v \<in> set cols. keyable v))"

text \<open>The primary keys of the rows with given values in their leading indexed columns that the index covers.\<close>

definition matching :: "bool \<Rightarrow> (value list \<times> bytes) set \<Rightarrow> value list \<Rightarrow> bytes set" where
  "matching unique rows cols =
     {pk. \<exists>cols'. (cols', pk) \<in> rows \<and> list_all2 value_eq cols (take (length cols) cols') \<and> \<not> (unique \<and> list_ex (\<lambda>v. v = Null) cols')}"

lemma entry_total:
  "\<forall>v \<in> set cols. keyable v \<Longrightarrow> \<not> (unique \<and> list_ex (\<lambda>v. v = Null) cols) \<Longrightarrow> \<exists>k. entry cols pk unique = Inr (Some \<lparr> entry_key = k, entry_value = pk \<rparr>)"
  by (auto simp: entry_def encode_key_concat)

lemma entry_some: "entry cols pk unique = Inr (Some e) \<Longrightarrow> \<not> (unique \<and> list_ex (\<lambda>v. v = Null) cols) \<and> entry_value e = pk"
  by (auto simp: entry_def and_then_def split: if_splits sum.splits)

lemma covered_entries:
  assumes "indexes unique rows f" "indexable n rows" "length cols \<le> n" "\<forall>v \<in> set cols. keyable v" "prefix_bounds cols = Inr (lo, hi)"
  shows "{v. \<exists>k. f k = Some v \<and> within (Some lo) hi k} = matching unique rows cols"
proof (intro set_eqI iffI)
  fix pk assume "pk \<in> {v. \<exists>k. f k = Some v \<and> within (Some lo) hi k}"
  then obtain k cols' pk' where r: "within (Some lo) hi k" "(cols', pk') \<in> rows"
    "entry cols' pk' unique = Inr (Some \<lparr> entry_key = k, entry_value = pk \<rparr>)" using assms(1) unfolding indexes_def by blast
  have c: "length cols \<le> length cols'" "\<forall>v \<in> set cols'. keyable v" using assms(2,3) r(2) by (auto simp: indexable_def)
  have "list_all2 value_eq cols (take (length cols) cols')" using bounds_cover [OF c(1) assms(4) c(2) assms(5) r(3)] r(1) by simp
  then show "pk \<in> matching unique rows cols" using r(2) entry_some [OF r(3)] by (auto simp: matching_def)
next
  fix pk assume "pk \<in> matching unique rows cols"
  then obtain cols' where r: "(cols', pk) \<in> rows" "list_all2 value_eq cols (take (length cols) cols')" "\<not> (unique \<and> list_ex (\<lambda>v. v = Null) cols')"
    by (auto simp: matching_def)
  have c: "length cols \<le> length cols'" "\<forall>v \<in> set cols'. keyable v" using assms(2,3) r(1) by (auto simp: indexable_def)
  obtain k where k: "entry cols' pk unique = Inr (Some \<lparr> entry_key = k, entry_value = pk \<rparr>)" using entry_total [OF c(2) r(3)] by blast
  have "within (Some lo) hi k" using bounds_cover [OF c(1) assms(4) c(2) assms(5) k] r(2) by simp
  moreover have "f k = Some pk" using assms(1) r(1) k unfolding indexes_def by blast
  ultimately show "pk \<in> {v. \<exists>k. f k = Some v \<and> within (Some lo) hi k}" by blast
qed

section \<open>Properties\<close>

text \<open>C26: Scanning an index tree between the bounds of some column values returns exactly the primary keys of the
  rows whose leading indexed columns equal them, leaving out rows with a NULL column when the index is
  unique. The scan succeeds within \<open>|f| + 1\<close> steps and changes no page.\<close>

theorem index_scan_exact:
  assumes "pager_inv (backend (ctx_pager c)) (ctx_pager c)" "holds (stored (ctx_pager c)) h root f P"
    and "indexes unique rows f" "indexable n rows" "length cols \<le> n" "\<forall>v \<in> set cols. keyable v"
  shows "\<exists>lo hi out c'. prefix_bounds cols = Inr (lo, hi)
    \<and> ctx_scan mem_ops (h + 2) (card (dom f) + 1) root (Some lo) hi c = (Inr out, c')
    \<and> snd ` set out = matching unique rows cols \<and> stored (ctx_pager c') = stored (ctx_pager c)"
proof -
  obtain lo hi where b: "prefix_bounds cols = Inr (lo, hi)" using assms(6) by (auto simp: prefix_bounds_def encode_key_concat)
  have s: "h + 2 \<le> h + 2" "card (dom f) < card (dom f) + 1" by simp_all
  from mem_pages.range_holds [OF assms(1) assms(2) [unfolded stored_def] s, of Forward "Some lo" hi] obtain cur p1 out p2 where r:
    "tree_range_dir (pager_ops mem_ops) (h + 2) root Forward (Some lo) hi (ctx_pager c) = (Inr cur, p1)"
    "collect_all (pager_ops mem_ops) (h + 2) (card (dom f) + 1) cur [] p1 = (Inr out, p2)"
    "mem_pages.same (ctx_pager c) p2" "set out = {(k, v). f k = Some v \<and> within (Some lo) hi k}" by blast
  have "ctx_scan mem_ops (h + 2) (card (dom f) + 1) root (Some lo) hi c = (Inr out, c\<lparr> ctx_pager := p2 \<rparr>)"
    using r(1,2) by (simp add: ctx_scan_def on_tree_def st_map_err_def st_zoom_def)
  moreover have "snd ` set out = matching unique rows cols"
    unfolding r(4) covered_entries [OF assms(3-6) b, symmetric] by force
  moreover have "stored p2 = stored (ctx_pager c)" using r(3) by (simp add: mem_pages.same_def stored_def)
  ultimately show ?thesis using b by auto
qed

theorem index_scan_exact_witness:
  "\<exists>c h root lo hi out c'. prefix_bounds [I64 5] = Inr (lo, hi)
    \<and> ctx_scan mem_ops (h + 2) 2 root (Some lo) hi c = (Inr out, c') \<and> snd ` set out = {[9]}"
proof -
  define k where "k = enc_bytes (I64 5) @ [9]"
  have key: "\<forall>v \<in> set [I64 5]. keyable v" by (simp add: keyable_def)
  have e: "entry [I64 5] [9] False = Inr (Some \<lparr> entry_key = k, entry_value = [9] \<rparr>)"
    by (simp add: entry_def enc_bytes_def k_def)
  have ok: "entry_ok k [9]" "2 * 0 + 3 \<le> room demo_empty"
    using demo_empty_ok(4) by (simp_all add: k_def entry_ok_def sep_cell_def enc_bytes_def)
  obtain ed :: Edit and p h where i: "mem_pages.later demo_empty p" "\<exists>P. holds (stored p) h (new_root ed) [k \<mapsto> [9]] P"
    using mem_pages.insert_holds [OF demo_empty_ok(2,3) [unfolded stored_def] ok] unfolding stored_def by blast
  then obtain P where i2: "holds (stored p) h (new_root ed) [k \<mapsto> [9]] P" by blast
  define c where "c = \<lparr> ctx_pager = p, ctx_root = new_root ed, ctx_freed = [] \<rparr>"
  have c: "pager_inv (backend (ctx_pager c)) (ctx_pager c)" "holds (stored (ctx_pager c)) h (new_root ed) [k \<mapsto> [9]] P"
    using mem_later_ok [OF i(1)] i2 by (simp_all add: c_def)
  have ix: "indexes False {([I64 5], [9])} [k \<mapsto> [9]]" using e by (auto simp: indexes_def)
  have able: "indexable (length [I64 5]) {([I64 5], [9])}" using key by (simp add: indexable_def)
  have m: "matching False {([I64 5], [9])} [I64 5] = {[9]}" by (auto simp: matching_def value_eq_def cmp_def)
  have d: "card (dom [k \<mapsto> [9]]) + 1 = 2" by simp
  from index_scan_exact [OF c ix able order.refl key, unfolded m d] show ?thesis
    by (elim exE conjE) (intro exI conjI, assumption+)
qed

end
