(* ===== verification/TxnBatch.thy ===== *)
theory TxnBatch
  imports TxnJob
begin

text \<open>
  A batch of key/value jobs on the writer: the accepted jobs take effect in order, the rejected ones
  leave only orphaned pages; and the clean-up of a committing batch, which returns parked pages to
  the allocator.
\<close>

section \<open>Pagers up to their allocation log\<close>

definition unlogged :: "bytes pager \<Rightarrow> bytes pager" where
  "unlogged p = p\<lparr> alloc_log := None \<rparr>"

definition advanced :: "bytes pager \<Rightarrow> bytes pager \<Rightarrow> bool" where
  "advanced p q \<longleftrightarrow> later (unlogged p) (unlogged q)"

lemma payload_view_log [simp]: "payload_view d (p\<lparr> alloc_log := l \<rparr>) = payload_view d p"
  by (simp add: payload_view_def data_pages_def fun_eq_iff)

lemma unlogged_same [simp]:
  "pager_inv d (unlogged p) = pager_inv d p" "stored (unlogged p) = stored p" "used (unlogged p) = used p"
  "room (unlogged p) = room p" "backend (unlogged p) = backend p"
  "pager_inv d (p\<lparr> alloc_log := l \<rparr>) = pager_inv d p" "stored (p\<lparr> alloc_log := l \<rparr>) = stored p" "used (p\<lparr> alloc_log := l \<rparr>) = used p"
  "room (p\<lparr> alloc_log := l \<rparr>) = room p" "unlogged (p\<lparr> alloc_log := l \<rparr>) = unlogged p"
  by (simp_all add: unlogged_def pager_inv_def data_pages_def stored_def used_def room_def)

lemma later_advanced:
  assumes "later p q"
  shows "advanced p q" "alloc_log p = Some [] \<Longrightarrow> \<exists>new. alloc_log q = Some new \<and> distinct new \<and> set new = used q - used p"
proof -
  have g: "grown (\<lambda>b. b) p q" "pager_inv (backend q) q" "used p \<subseteq> used q"
    "\<forall>j \<in> used p. payload_view (backend q) q j = payload_view (backend p) p j" using assms by (simp_all add: mem_pages.later_def)
  have "payload_view (backend q) (unlogged q) j = payload_view (backend q) q j" "payload_view (backend p) (unlogged p) j = payload_view (backend p) p j" for j
    by (simp_all add: unlogged_def)
  moreover have "grown (\<lambda>b. b) (unlogged p) (unlogged q)"
    using g(1) unfolding grown_def by (auto simp: unlogged_def used_def data_pages_def dirty_ids_def)
  ultimately show "advanced p q" using g by (simp add: advanced_def mem_pages.later_def)
  show "alloc_log p = Some [] \<Longrightarrow> \<exists>new. alloc_log q = Some new \<and> distinct new \<and> set new = used q - used p"
    using g(1) by (auto simp: grown_def)
qed

lemma advanced_refl: "pager_inv (backend p) p \<Longrightarrow> advanced p p"
  by (simp add: advanced_def mem_pages.later_refl)

lemma advanced_trans: "advanced p q \<Longrightarrow> advanced q r \<Longrightarrow> advanced p r"
  unfolding advanced_def by (rule mem_pages.later_trans)

lemma advanced_ok: "advanced p q \<Longrightarrow> pager_inv (backend q) q \<and> used p \<subseteq> used q"
  unfolding advanced_def using mem_pages.later_ok [of "unlogged p" "unlogged q"] later_used by force

lemma advanced_holds: "advanced p q \<Longrightarrow> holds (stored p) h root f P \<Longrightarrow> holds (stored q) h root f P"
  unfolding advanced_def using mem_later_holds [of "unlogged p" "unlogged q"] by simp

lemma advanced_grown:
  assumes "advanced p q"
  shows "backend q = backend p" "meta q = (meta p)\<lparr> page_count := page_count (meta q) \<rparr>" "active_slot q = active_slot p"
    "committed_txn q = committed_txn p" "trunks q = trunks p" "dirty_ids q \<subseteq> dirty_ids p \<union> (used q - used p)"
    "data_pages p \<subseteq> data_pages q"
  using assms unfolding advanced_def mem_pages.later_def grown_def by (auto simp: unlogged_def dirty_ids_def data_pages_def used_def)

section \<open>The jobs of a batch\<close>

type_synonym outcome = "TxnError option + unit"

text \<open>The map after a batch: the accepted jobs, in order.\<close>

fun batch_effect :: "Op list list \<Rightarrow> ('e + 'a) list \<Rightarrow> (bytes \<rightharpoonup> bytes) \<Rightarrow> (bytes \<rightharpoonup> bytes)" where
  "batch_effect (os # jobs) (Inr _ # outs) f = batch_effect jobs outs (ops_effect os f)"
| "batch_effect (os # jobs) (Inl _ # outs) f = batch_effect jobs outs f"
| "batch_effect _ _ f = f"

definition answered :: "Op list \<Rightarrow> TxnError option + 'a \<Rightarrow> bool" where
  "answered os out \<longleftrightarrow> (case out of Inl e \<Rightarrow> refused os e | Inr _ \<Rightarrow> check_ops os = Inr ())"

definition total_ops :: "Op list list \<Rightarrow> nat" where
  "total_ops jobs = sum_list (map length jobs)"

lemma total_ops_Cons [simp]: "total_ops [] = 0" "total_ops (os # jobs) = length os + total_ops jobs"
  by (simp_all add: total_ops_def)

text \<open>The pages after a batch that freed \<open>fr\<close> and orphaned \<open>orph\<close>.\<close>

definition accounted :: "bytes pager \<Rightarrow> bytes pager \<Rightarrow> PageId set \<Rightarrow> PageId set \<Rightarrow> PageId list \<Rightarrow> PageId list \<Rightarrow> bool" where
  "accounted p q P P' fr orph \<longleftrightarrow> P' = (P \<union> (used q - used p)) - set (fr @ orph) \<and> distinct (fr @ orph)
     \<and> set fr \<subseteq> P \<union> (used q - used p) \<and> set orph \<subseteq> used q - used p"

lemma accounted_trans:
  assumes "accounted p q P P1 fr orph" "accounted q r P1 P2 fr' orph'" "used p \<subseteq> used q" "used q \<subseteq> used r" "P \<subseteq> used p"
  shows "accounted p r P P2 (fr @ fr') (orph @ orph')"
proof -
  have P1: "P1 = (P \<union> (used q - used p)) - set (fr @ orph)" and P2: "P2 = (P1 \<union> (used r - used q)) - set (fr' @ orph')"
    using assms(1,2) by (simp_all add: accounted_def)
  have s: "set fr \<subseteq> P \<union> (used q - used p)" "set orph \<subseteq> used q - used p"
    "set fr' \<subseteq> P1 \<union> (used r - used q)" "set orph' \<subseteq> used r - used q"
    "distinct (fr @ orph)" "distinct (fr' @ orph')" using assms(1,2) by (simp_all add: accounted_def)
  have "set (fr @ orph) \<subseteq> used q" using s(1,2) assms(3,5) by auto
  then have dis: "set (fr @ orph) \<inter> set (fr' @ orph') = {}" using s(3,4) P1 by auto
  have "P2 = (P \<union> (used r - used p)) - set ((fr @ fr') @ (orph @ orph'))" unfolding P2 P1 using \<open>set (fr @ orph) \<subseteq> used q\<close> assms(3-5) by auto
  moreover have "distinct ((fr @ fr') @ (orph @ orph'))" using s(5,6) dis by auto
  moreover have "set (fr @ fr') \<subseteq> P \<union> (used r - used p)" "set (orph @ orph') \<subseteq> used r - used p"
    using s(1-4) P1 assms(3-5) by auto
  ultimately show ?thesis by (simp add: accounted_def)
qed

text \<open>One job of a batch.\<close>

lemma batch_job:
  assumes "pager_inv (backend (w_pager w)) (w_pager w)" "holds (stored (w_pager w)) h (w_root w) f P"
    "ops_cost h (length os) \<le> room (w_pager w)" "h + length os < n"
  shows "\<exists>out p' root' fr' orph h' P'. apply_batch (ops_job mem_ops n os # batch) fr outs w =
      apply_batch batch (fr @ fr') (outs @ [out]) (w\<lparr> w_pager := p', w_root := root', w_orphaned := w_orphaned w @ orph \<rparr>)
    \<and> advanced (w_pager w) p' \<and> room (w_pager w) \<le> room p' + ops_cost h (length os) \<and> answered os out
    \<and> h' \<le> h + length os \<and> holds (stored p') h' root' (batch_effect [os] [out] f) P' \<and> accounted (w_pager w) p' P P' fr' orph"
proof -
  define c where "c = \<lparr> ctx_pager = begin_alloc_recording (w_pager w), ctx_root = w_root w, ctx_freed = fr \<rparr>"
  have c: "ctx_pager c = (w_pager w)\<lparr> alloc_log := Some [] \<rparr>" "ctx_root c = w_root w" "ctx_freed c = fr"
    by (simp_all add: c_def begin_alloc_recording_def)
  have pre: "pager_inv (backend (ctx_pager c)) (ctx_pager c)" "holds (stored (ctx_pager c)) h (ctx_root c) f P"
    "ops_cost h (length os) \<le> room (ctx_pager c)" using assms(1-3) c by simp_all
  from ops_job_ok [OF pre assms(4)] obtain r c' where j: "ops_job mem_ops n os c = (r, c')" "later (ctx_pager c) (ctx_pager c')"
    "room (ctx_pager c) \<le> room (ctx_pager c') + ops_cost h (length os)" "\<exists>new. ctx_freed c' = ctx_freed c @ new"
    "case r of Inl e \<Rightarrow> refused os e
       | Inr _ \<Rightarrow> check_ops os = Inr () \<and> (\<exists>h' \<le> h + length os. stepped c c' h' (ctx_root c') (ops_effect os f) P)" by blast
  define p' where "p' = (ctx_pager c')\<lparr> alloc_log := None \<rparr>"
  have adv: "advanced (w_pager w) p'"
    using later_advanced(1) [OF j(2)] by (simp add: c(1) p'_def advanced_def)
  obtain log where log: "alloc_log (ctx_pager c') = Some log" "distinct log" "set log = used (ctx_pager c') - used (ctx_pager c)"
    using later_advanced(2) [OF j(2)] c(1) by auto
  have take: "take_alloc_recording (ctx_pager c') = (log, p')" by (simp add: take_alloc_recording_def log(1) p'_def)
  have u: "used p' = used (ctx_pager c')" "stored p' = stored (ctx_pager c')" "room p' = room (ctx_pager c')"
    "used (ctx_pager c) = used (w_pager w)" "room (ctx_pager c) = room (w_pager w)" by (simp_all add: p'_def c(1))
  have PU: "P \<subseteq> used (w_pager w)" by (rule holds_used [OF assms(2)])
  show ?thesis
  proof (cases r)
    case (Inl e)
    obtain new where "ctx_freed c' = fr @ new" using j(4) c(3) by auto
    then have tk: "take (length fr) (ctx_freed c') = fr" by simp
    have rf: "refused os e" using j(5) Inl by simp
    have "apply_batch (ops_job mem_ops n os # batch) fr outs w =
        apply_batch batch (fr @ []) (outs @ [Inl e]) (w\<lparr> w_pager := p', w_root := w_root w, w_orphaned := w_orphaned w @ log \<rparr>)"
      using j(1) Inl take tk refused_not_fatal [OF rf] by (simp add: c_def)
    moreover have "accounted (w_pager w) p' P P [] log"
      using log(2,3) PU u advanced_ok [OF adv] by (auto simp: accounted_def)
    ultimately show ?thesis using adv j(3) rf advanced_holds [OF adv assms(2)] u
      by (intro exI [of _ "Inl e"] exI [of _ p'] exI [of _ "w_root w"] exI [of _ "[]"] exI [of _ log] exI [of _ h] exI [of _ P])
        (simp add: answered_def)
  next
    case (Inr x)
    then obtain h' where h': "h' \<le> h + length os" "stepped c c' h' (ctx_root c') (ops_effect os f) P" "check_ops os = Inr ()"
      using j(5) by auto
    from h'(2) obtain new where new: "ctx_freed c' = fr @ new"
      "holds (stored p') h' (ctx_root c') (ops_effect os f) ((P \<union> (used p' - used (w_pager w))) - set new)"
      "distinct new" "set new \<subseteq> P \<union> (used p' - used (w_pager w))" unfolding stepped_def by (auto simp: u c(3))
    have "apply_batch (ops_job mem_ops n os # batch) fr outs w =
        apply_batch batch (fr @ new) (outs @ [Inr ()]) (w\<lparr> w_pager := p', w_root := ctx_root c', w_orphaned := w_orphaned w @ [] \<rparr>)"
      using j(1) Inr take new(1) by (simp add: c_def)
    moreover have "accounted (w_pager w) p' P ((P \<union> (used p' - used (w_pager w))) - set new) new []"
      using new(3,4) by (simp add: accounted_def)
    ultimately show ?thesis using adv j(3) h'(1,3) new(2) u
      by (intro exI [of _ "Inr ()"] exI [of _ p'] exI [of _ "ctx_root c'"] exI [of _ new] exI [of _ "[]"] exI [of _ h']
          exI [of _ "(P \<union> (used p' - used (w_pager w))) - set new"]) (simp add: answered_def)
  qed
qed

text \<open>The whole batch: every job is answered, none stops the writer.\<close>

lemma apply_batch_ok:
  assumes "pager_inv (backend (w_pager w)) (w_pager w)" "holds (stored (w_pager w)) h (w_root w) f P"
    "ops_cost h (total_ops jobs) \<le> room (w_pager w)" "h + total_ops jobs < n"
  shows "\<exists>outs' p' root' fr' orph h' P'. apply_batch (map (ops_job mem_ops n) jobs) fr outs w =
      (Inr (fr @ fr', outs @ outs'), w\<lparr> w_pager := p', w_root := root', w_orphaned := w_orphaned w @ orph \<rparr>)
    \<and> advanced (w_pager w) p' \<and> list_all2 answered jobs outs' \<and> h' \<le> h + total_ops jobs
    \<and> holds (stored p') h' root' (batch_effect jobs outs' f) P' \<and> accounted (w_pager w) p' P P' fr' orph"
  using assms
proof (induction jobs arbitrary: w h f P fr outs)
  case Nil
  have "accounted (w_pager w) (w_pager w) P P [] []" by (simp add: accounted_def)
  then show ?case using advanced_refl [OF Nil(1)] Nil(2)
    by (intro exI [of _ "[]"] exI [of _ "w_pager w"] exI [of _ "w_root w"] exI [of _ h] exI [of _ P]) simp
next
  case (Cons os jobs)
  let ?N = "total_ops jobs"
  have cost: "ops_cost h (length os) + ops_cost (h + length os) ?N \<le> ops_cost h (total_ops (os # jobs))"
  proof -
    have "length os * (3 * (h + length os) + 3) \<le> length os * (3 * (h + (length os + ?N)) + 3)" by (intro mult_le_mono) auto
    then have "length os * (3 * (h + length os) + 3) + ?N * (3 * (h + length os + ?N) + 3) \<le>
        (length os + ?N) * (3 * (h + (length os + ?N)) + 3)" by (simp only: add_mult_distrib add.assoc add_le_mono)
    then show ?thesis by (simp only: ops_cost_def total_ops_Cons)
  qed
  have b: "ops_cost h (length os) \<le> room (w_pager w)" "h + length os < n" using cost Cons.prems(3,4) by auto
  from batch_job [OF Cons.prems(1,2) b, of "map (ops_job mem_ops n) jobs" fr outs] obtain out p1 r1 fr1 o1 h1 P1 where j:
    "apply_batch (map (ops_job mem_ops n) (os # jobs)) fr outs w =
      apply_batch (map (ops_job mem_ops n) jobs) (fr @ fr1) (outs @ [out]) (w\<lparr> w_pager := p1, w_root := r1, w_orphaned := w_orphaned w @ o1 \<rparr>)"
    "advanced (w_pager w) p1" "room (w_pager w) \<le> room p1 + ops_cost h (length os)" "answered os out" "h1 \<le> h + length os"
    "holds (stored p1) h1 r1 (batch_effect [os] [out] f) P1" "accounted (w_pager w) p1 P P1 fr1 o1"
    by (auto simp only: list.map)
  let ?w1 = "w\<lparr> w_pager := p1, w_root := r1, w_orphaned := w_orphaned w @ o1 \<rparr>"
  have le: "ops_cost h1 ?N \<le> ops_cost (h + length os) ?N" by (rule ops_cost_mono [OF j(5)]) simp
  have pre: "pager_inv (backend (w_pager ?w1)) (w_pager ?w1)" "holds (stored (w_pager ?w1)) h1 (w_root ?w1) (batch_effect [os] [out] f) P1"
    "ops_cost h1 ?N \<le> room (w_pager ?w1)" "h1 + ?N < n"
    using advanced_ok [OF j(2)] j(3,5,6) le cost Cons.prems(3,4) by auto
  from Cons.IH [OF pre, of "fr @ fr1" "outs @ [out]"] obtain outs2 p2 r2 fr2 o2 h2 P2 where i:
    "apply_batch (map (ops_job mem_ops n) jobs) (fr @ fr1) (outs @ [out]) ?w1 =
      (Inr ((fr @ fr1) @ fr2, (outs @ [out]) @ outs2), ?w1\<lparr> w_pager := p2, w_root := r2, w_orphaned := w_orphaned ?w1 @ o2 \<rparr>)"
    "advanced (w_pager ?w1) p2" "list_all2 answered jobs outs2" "h2 \<le> h1 + ?N"
    "holds (stored p2) h2 r2 (batch_effect jobs outs2 (batch_effect [os] [out] f)) P2" "accounted (w_pager ?w1) p2 P1 P2 fr2 o2"
    by (elim exE conjE) (rule that)
  have ef: "batch_effect jobs outs2 (batch_effect [os] [out] f) = batch_effect (os # jobs) (out # outs2) f" by (cases out) simp_all
  have adv: "advanced p1 p2" "accounted p1 p2 P1 P2 fr2 o2" using i(2,6) by simp_all
  have "accounted (w_pager w) p2 P P2 (fr1 @ fr2) (o1 @ o2)"
    using advanced_ok [OF j(2)] advanced_ok [OF adv(1)] by (intro accounted_trans [OF j(7) adv(2) _ _ holds_used [OF Cons.prems(2)]]) auto
  moreover have "apply_batch (map (ops_job mem_ops n) (os # jobs)) fr outs w =
      (Inr (fr @ (fr1 @ fr2), outs @ (out # outs2)), w\<lparr> w_pager := p2, w_root := r2, w_orphaned := w_orphaned w @ (o1 @ o2) \<rparr>)"
    unfolding j(1) i(1) by simp
  ultimately show ?case using advanced_trans [OF j(2) adv(1)] j(4,5) i(3,4) i(5) [unfolded ef]
    by (intro exI [of _ "out # outs2"] exI [of _ p2] exI [of _ r2] exI [of _ "fr1 @ fr2"] exI [of _ "o1 @ o2"] exI [of _ h2] exI [of _ P2]) simp
qed

section \<open>Clean-up\<close>

text \<open>Returning pages to the allocator does no I/O once the free list is loaded, whatever the store.\<close>

definition put_free :: "PageId list \<Rightarrow> 'b pager \<Rightarrow> 'b pager" where
  "put_free ps p = p\<lparr> free_set := free_set p @ ps \<rparr>"

lemma put_free_Nil [simp]: "put_free [] p = p"
  by (simp add: put_free_def)

lemma put_free_append: "put_free qs (put_free ps p) = put_free (ps @ qs) p"
  by (simp add: put_free_def)

lemma put_free_ok:
  assumes "pager_inv d p" "distinct ps" "set ps \<subseteq> used p - set (trunks p)"
  shows "pager_inv d (put_free ps p)" "used (put_free ps p) = used p - set ps" "trunks (put_free ps p) = trunks p"
    "backend (put_free ps p) = backend p" "committed d p cm \<Longrightarrow> committed d (put_free ps p) cm"
proof -
  show "pager_inv d (put_free ps p)" using assms by (auto simp: pager_inv_def put_free_def used_def data_pages_def)
  show "used (put_free ps p) = used p - set ps" by (auto simp: put_free_def used_def data_pages_def)
  show "trunks (put_free ps p) = trunks p" "backend (put_free ps p) = backend p" by (simp_all add: put_free_def)
  show "committed d p cm \<Longrightarrow> committed d (put_free ps p) cm" by (auto simp: committed_def put_free_def)
qed

lemma put_free_stored: "j \<notin> set ps \<Longrightarrow> stored (put_free ps p) j = stored p j"
proof -
  have "payload_view (backend p) (put_free ps p) = payload_view (backend p) p" "used (put_free ps p) = used p - set ps"
    by (auto simp: payload_view_def put_free_def data_pages_def used_def fun_eq_iff)
  then show "j \<notin> set ps \<Longrightarrow> stored (put_free ps p) j = stored p j" by (simp add: stored_def node_map_def put_free_def)
qed

lemma free_page_run:
  assumes "pager_inv d p" "j \<in> used p"
  shows "free_page ops j p = (Inr (), put_free [j] p)"
proof -
  have "in_range p j = Inr ()" "ensure_free_loaded ops p = (Inr (), p)"
    using assms by (auto simp: in_range_iff used_def ensure_free_loaded_def pager_inv_def)
  then show ?thesis by (simp add: free_page_def put_free_def)
qed

lemma free_pages_run:
  assumes "pager_inv d (w_pager w)" "distinct ps" "set ps \<subseteq> used (w_pager w) - set (trunks (w_pager w))"
  shows "free_pages ops ps w = (Inr (), w\<lparr> w_pager := put_free ps (w_pager w) \<rparr>)"
  using assms
proof (induction ps arbitrary: w)
  case (Cons j ps)
  let ?w1 = "w\<lparr> w_pager := put_free [j] (w_pager w) \<rparr>"
  have "free_page ops j (w_pager w) = (Inr (), put_free [j] (w_pager w))" using Cons.prems by (intro free_page_run) auto
  then have run: "on_wpager (free_page ops j) w = (Inr (), ?w1)" by (simp add: on_wpager_def st_zoom_def)
  note pf = put_free_ok [OF Cons.prems(1), of "[j]"]
  have "free_pages ops ps ?w1 = (Inr (), ?w1\<lparr> w_pager := put_free ps (w_pager ?w1) \<rparr>)"
    using pf Cons.prems by (intro Cons.IH) auto
  then show ?case using run by (simp add: free_pages_def put_free_append)
qed (simp add: free_pages_def)

definition reclaimable :: "u64 \<Rightarrow> (u64 \<times> PageId list) list \<Rightarrow> PageId list" where
  "reclaimable wm pend = concat (map snd (filter (\<lambda>e. fst e \<le> wm) pend))"

definition unreclaimable :: "u64 \<Rightarrow> (u64 \<times> PageId list) list \<Rightarrow> (u64 \<times> PageId list) list" where
  "unreclaimable wm pend = filter (\<lambda>e. \<not> fst e \<le> wm) pend"

lemma reclaim_split:
  assumes "distinct (concat (map snd pend))"
  shows "distinct (reclaimable wm pend @ concat (map snd (unreclaimable wm pend)))"
    "set (reclaimable wm pend) \<union> set (concat (map snd (unreclaimable wm pend))) = set (concat (map snd pend))"
  using assms by (induction pend) (auto simp: reclaimable_def unreclaimable_def)

lemma reclaim_loop_run:
  assumes "pager_inv d (w_pager w)" "distinct (concat (map snd pend))"
    "set (concat (map snd pend)) \<subseteq> used (w_pager w) - set (trunks (w_pager w))"
  shows "reclaim_loop ops wm pend still w =
    (Inr (still @ unreclaimable wm pend), w\<lparr> w_pager := put_free (reclaimable wm pend) (w_pager w) \<rparr>)"
  using assms
proof (induction pend arbitrary: w still)
  case (Cons e pend)
  obtain t ps where e: "e = (t, ps)" by fastforce
  show ?case
  proof (cases "t \<le> wm")
    case True
    let ?w1 = "w\<lparr> w_pager := put_free ps (w_pager w) \<rparr>"
    have ps: "distinct ps" "set ps \<subseteq> used (w_pager w) - set (trunks (w_pager w))" using Cons.prems(2,3) e by auto
    note pf = put_free_ok [OF Cons.prems(1) ps]
    have "reclaim_loop ops wm pend still ?w1 = (Inr (still @ unreclaimable wm pend),
        ?w1\<lparr> w_pager := put_free (reclaimable wm pend) (w_pager ?w1) \<rparr>)"
      using pf Cons.prems e by (intro Cons.IH) auto
    then show ?thesis using True e free_pages_run [OF Cons.prems(1) ps]
      by (simp add: put_free_append reclaimable_def unreclaimable_def)
  next
    case False
    then show ?thesis using e Cons.IH [OF Cons.prems(1), of "still @ [e]"] Cons.prems
      by (simp add: reclaimable_def unreclaimable_def)
  qed
qed (simp add: reclaimable_def unreclaimable_def)

lemma reclaim_run:
  assumes "pager_inv d (w_pager w)" "distinct (concat (map snd (w_pending w)))"
    "set (concat (map snd (w_pending w))) \<subseteq> used (w_pager w) - set (trunks (w_pager w))"
  shows "reclaim ops w = (Inr (), w\<lparr> w_pager := put_free (reclaimable (watermark (w_registry w)) (w_pending w)) (w_pager w),
      w_pending := unreclaimable (watermark (w_registry w)) (w_pending w) \<rparr>)"
  using reclaim_loop_run [of d "w\<lparr> w_pending := [] \<rparr>" "w_pending w" ops "watermark (w_registry w)" "[]"] assms
  by (simp add: reclaim_def)

text \<open>The pages waiting to be returned to the allocator, and the writer when they have been.\<close>

definition parked :: "'b Writer \<Rightarrow> PageId list" where
  "parked w = concat (map snd (w_pending w)) @ w_orphaned w"

definition reusable :: "'b Writer \<Rightarrow> PageId list" where
  "reusable w = reclaimable (watermark (w_registry w)) (w_pending w) @ w_orphaned w"

definition cleaned :: "'b Writer \<Rightarrow> 'b Writer" where
  "cleaned w = w\<lparr> w_pager := set_catalog_root (Some (w_root w)) (put_free (reusable w) (w_pager w)),
     w_pending := unreclaimable (watermark (w_registry w)) (w_pending w), w_orphaned := [] \<rparr>"

lemma reusable_parked:
  assumes "distinct (parked w)"
  shows "distinct (reusable w)" "set (reusable w) \<subseteq> set (parked w)" "distinct (parked (cleaned w))"
    "set (parked (cleaned w)) = set (parked w) - set (reusable w)"
proof -
  define a where "a = reclaimable (watermark (w_registry w)) (w_pending w)"
  define b where "b = concat (map snd (unreclaimable (watermark (w_registry w)) (w_pending w)))"
  define pl where "pl = concat (map snd (w_pending w))"
  have d: "distinct pl" "distinct (w_orphaned w)" "set pl \<inter> set (w_orphaned w) = {}" using assms by (auto simp: parked_def pl_def)
  note s = reclaim_split [OF d(1) [unfolded pl_def], of "watermark (w_registry w)", folded a_def b_def pl_def]
  have e: "reusable w = a @ w_orphaned w" "parked w = pl @ w_orphaned w" "parked (cleaned w) = b"
    by (simp_all add: reusable_def parked_def cleaned_def a_def b_def pl_def)
  show "distinct (reusable w)" "set (reusable w) \<subseteq> set (parked w)" "distinct (parked (cleaned w))"
    "set (parked (cleaned w)) = set (parked w) - set (reusable w)" unfolding e using d s by auto
qed

lemma commit_batch_cleaned:
  assumes "pager_inv d (w_pager w)" "distinct (parked w)" "set (parked w) \<subseteq> used (w_pager w) - set (trunks (w_pager w))"
  shows "commit_batch ops fr w =
     st_bind (on_wpager (commit ops)) (\<lambda>_.
     st_bind (st_get (\<lambda>w. committed_txn (w_pager w))) (\<lambda>txn.
     st_bind (st_modify (\<lambda>w. w\<lparr> w_pending := (if fr = [] then w_pending w else w_pending w @ [(txn, fr)]),
                               w_registry := publish (Some (w_root w)) txn (w_registry w) \<rparr>)) (\<lambda>_.
     st_return txn))) (cleaned w)"
proof -
  let ?w0 = "w\<lparr> w_orphaned := [] \<rparr>" and ?wm = "watermark (w_registry w)" and ?p = "w_pager w"
  define R where "R = reclaimable ?wm (w_pending w)"
  have d: "distinct (concat (map snd (w_pending w)))" "set (concat (map snd (w_pending w))) \<subseteq> used ?p - set (trunks ?p)"
    using assms(2,3) by (auto simp: parked_def)
  have r: "reclaim ops ?w0 = (Inr (), ?w0\<lparr> w_pager := put_free R ?p, w_pending := unreclaimable ?wm (w_pending w) \<rparr>)"
    using reclaim_run [of d ?w0] assms(1) d by (simp add: R_def)
  have R: "distinct R" "set R \<subseteq> used ?p - set (trunks ?p)"
    using reusable_parked(1,2) [OF assms(2)] assms(3) by (auto simp: reusable_def R_def)
  note pr = put_free_ok [OF assms(1) R]
  have "set (w_orphaned w) \<subseteq> used (put_free R ?p) - set (trunks (put_free R ?p))" "distinct (w_orphaned w)"
    using pr(2,3) reusable_parked(1,2) [OF assms(2)] assms(3) by (auto simp: reusable_def R_def)
  then have o: "free_pages ops (w_orphaned w) (?w0\<lparr> w_pager := put_free R ?p, w_pending := unreclaimable ?wm (w_pending w) \<rparr>) =
      (Inr (), ?w0\<lparr> w_pager := put_free (reusable w) ?p, w_pending := unreclaimable ?wm (w_pending w) \<rparr>)"
    using free_pages_run [of d "?w0\<lparr> w_pager := put_free R ?p, w_pending := unreclaimable ?wm (w_pending w) \<rparr>" "w_orphaned w"] pr(1)
    by (simp add: put_free_append reusable_def R_def)
  have c: "w\<lparr> w_orphaned := [], w_pending := unreclaimable ?wm (w_pending w),
      w_pager := set_catalog_root (Some (w_root w)) (put_free (reusable w) ?p) \<rparr> = cleaned w" by (simp add: cleaned_def)
  show ?thesis unfolding commit_batch_def by (simp add: st_bind_def r o c)
qed

end
