(* ===== verification/TxnCommit.thy ===== *)
theory TxnCommit
  imports TxnBatch
begin

text \<open>
  Committing a batch. The invariant of an open database relates the writer's state to the map its
  published tree holds and to the snapshots readers have pinned; a committing batch keeps it.
\<close>

section \<open>What a commit of the pager keeps\<close>

lemma holds_dom: "holds m h root f P \<Longrightarrow> P \<subseteq> dom m"
  unfolding holds_def using tree_pages_dom by blast

lemma commit_keeps:
  assumes "pager_inv (backend p) p" "committed (backend p) p cm" "unat (txn_id (meta p)) + 2 < 2 ^ 64"
  shows "\<exists>p'. commit mem_ops p = (Inr (), p') \<and> pager_inv (backend p') p' \<and> committed (backend p') p' (meta p')
    \<and> catalog_root (meta p') = catalog_root (meta p) \<and> txn_id (meta p') = txn_id (meta p) + 1
    \<and> committed_txn p' = txn_id (meta p') \<and> dirty_ids p' = {} \<and> page_count (meta p') = page_count (meta p)
    \<and> used p - set (trunks p) \<subseteq> used p' - set (trunks p')
    \<and> (\<forall>j \<in> used p - set (trunks p). \<forall>n. stored p j = Some n \<longrightarrow> stored p' j = Some n)"
proof -
  obtain dead q where rb: "rebuild_free_list p = (dead, q)" by fastforce
  note rs = rebuild_spec [OF assms(1) rb]
  from mem.commit_total [OF assms(1,2)] obtain b where run: "commit mem_ops p = (Inr (), q\<lparr> backend := b, cache := clear_dirty (cache q),
      meta := next_meta p, active_slot := 1 - active_slot p, free_set := free_set q @ trunks p, committed_txn := txn_id (next_meta p) \<rparr>)"
    (is "_ = (_, ?p')") by (auto simp: rb)
  define p' where "p' = ?p'"
  have run': "commit mem_ops p = (Inr (), p')" using run by (simp add: p'_def)
  note d = mem.commit_durable [OF assms(1,2) run']
  have inv': "pager_inv (backend p') p'" and m': "meta p' = next_meta p" and dp: "data_pages p' = data_pages p" using d by blast+
  have txn: "txn_id (meta p') = txn_id (meta p) + 1" "catalog_root (meta p') = catalog_root (meta p)"
    "page_count (meta p') = page_count (meta p)" using rs(9-11) by (simp_all add: m' next_meta_def rb Let_def)
  have "dirty_ids p' = {}" using clear_dirty_spec(2) [of "cache q"] by (auto simp: p'_def dirty_ids_def)
  moreover have "committed (backend p') p' (meta p')"
  proof -
    have "unat (txn_id (meta p) + 1) = unat (txn_id (meta p)) + 1" using assms(3) by (simp add: unat_word_ariths)
    then have "unat (txn_id (meta p')) + 1 < 2 ^ 64" using txn(1) assms(3) by simp
    moreover have "active_slot p' = 0 \<or> active_slot p' = 1" using assms(2) by (auto simp: p'_def committed_def)
    ultimately show ?thesis using d next_meta_props(1) [OF assms(1,2)] unfolding committed_def m' by blast
  qed
  moreover have sub: "used p - set (trunks p) \<subseteq> used p' - set (trunks p')"
  proof
    fix j assume j: "j \<in> used p - set (trunks p)"
    have "set (trunks p' @ free_set p') = set (free_set p @ trunks p)" using d by (metis mset_eq_setD)
    then show "j \<in> used p' - set (trunks p')" using j dp by (auto simp: used_def)
  qed
  moreover have "stored p' j = Some n" if j: "j \<in> used p - set (trunks p)" "stored p j = Some n" for j n
  proof -
    from j(2) obtain pl f where f: "payload_view (backend p) p j = Some pl" "length pl = PAGE_PAYLOAD_SIZE" "node_decode pl j = Inr n"
      "page_view (backend p) (cache p) j = Some f" "pl = drop HEADER_SIZE f"
      by (auto simp: stored_def node_map_Some payload_view_def split: if_splits)
    have "page_view (backend p') (cache p') j = Some f" using d j(1) f(4) by blast
    then have "payload_view (backend p') p' j = Some pl" using j(1) dp f(5) by (simp add: payload_view_def used_def)
    then show ?thesis using f(2,3) j(1) sub by (auto simp: stored_def node_map_Some)
  qed
  moreover have "committed_txn p' = txn_id (meta p')" unfolding m' by (simp add: p'_def)
  ultimately show ?thesis using run' inv' txn by blast
qed

section \<open>The invariant of an open database\<close>

text \<open>The pages superseded after version \<open>v\<close>: what a reader at \<open>v\<close> may still need.\<close>

definition kept :: "u64 \<Rightarrow> (u64 \<times> PageId list) list \<Rightarrow> PageId set" where
  "kept v pend = (\<Union>e \<in> {e \<in> set pend. v < fst e}. set (snd e))"

type_synonym pinned = "(Snapshot \<times> (bytes \<rightharpoonup> bytes)) list"

definition pages_ok :: "bytes Writer \<Rightarrow> PageId set \<Rightarrow> bool" where
  "pages_ok w P \<longleftrightarrow> distinct (parked w) \<and> P \<inter> set (parked w) = {}
     \<and> P \<union> set (parked w) \<subseteq> used (w_pager w) - set (trunks (w_pager w))"

text \<open>Every pinned snapshot is counted in the registry, and its tree lies in the pages \<open>P\<close> of the
  published tree and the parked pages that may not be reclaimed while it lives.\<close>

definition readable :: "bytes Writer \<Rightarrow> PageId set \<Rightarrow> Snapshot \<times> (bytes \<rightharpoonup> bytes) \<Rightarrow> bool" where
  "readable w P s \<longleftrightarrow> snap_txn (fst s) \<le> reg_txn (w_registry w)
     \<and> (\<exists>root h Q. snap_root (fst s) = Some root \<and> holds (stored (w_pager w)) h root (snd s) Q
          \<and> Q \<subseteq> P \<union> kept (snap_txn (fst s)) (w_pending w))"

definition snaps_ok :: "bytes Writer \<Rightarrow> PageId set \<Rightarrow> pinned \<Rightarrow> bool" where
  "snaps_ok w P snaps \<longleftrightarrow> live_wf (reg_live (w_registry w))
     \<and> pins (reg_live (w_registry w)) = mset (map (\<lambda>s. snap_txn (fst s)) snaps) \<and> (\<forall>s \<in> set snaps. readable w P s)"

text \<open>The published version is the committed one, and its tree is on disk.\<close>

definition published :: "bytes Writer \<Rightarrow> PageId set \<Rightarrow> bool" where
  "published w P \<longleftrightarrow> (\<exists>cm. committed (backend (w_pager w)) (w_pager w) cm \<and> catalog_root cm = Some (w_root w)
       \<and> unat (page_count cm) \<le> PAGE_LIMIT \<and> (\<forall>j \<in> P. FIRST_DATA_PAGE \<le> j \<and> j < page_count cm))
     \<and> reg_root (w_registry w) = Some (w_root w) \<and> reg_txn (w_registry w) = txn_id (meta (w_pager w))
     \<and> committed_txn (w_pager w) = txn_id (meta (w_pager w)) \<and> P \<inter> dirty_ids (w_pager w) = {}"

definition db_inv :: "bytes Writer \<Rightarrow> nat \<Rightarrow> (bytes \<rightharpoonup> bytes) \<Rightarrow> pinned \<Rightarrow> bool" where
  "db_inv w h f snaps \<longleftrightarrow> pager_inv (backend (w_pager w)) (w_pager w)
     \<and> (\<exists>P. holds (stored (w_pager w)) h (w_root w) f P \<and> pages_ok w P \<and> snaps_ok w P snaps \<and> published w P)"

section \<open>Committing a batch\<close>

lemma kept_reclaim: "wm \<le> v \<Longrightarrow> kept v (unreclaimable wm pend) = kept v pend"
  unfolding kept_def unreclaimable_def by (auto dest: order_trans)

lemma kept_append: "kept v (pend @ pend') = kept v pend \<union> kept v pend'"
  by (auto simp: kept_def)

lemma kept_subset: "kept v pend \<subseteq> set (concat (map snd pend))"
  by (auto simp: kept_def)

lemma set_root_ok:
  assumes "pager_inv d p" "committed d p cm" "root \<noteq> 0"
  shows "pager_inv d (set_catalog_root (Some root) p)" "committed d (set_catalog_root (Some root) p) cm"
    "used (set_catalog_root (Some root) p) = used p" "trunks (set_catalog_root (Some root) p) = trunks p"
    "stored (set_catalog_root (Some root) q) = stored q" "backend (set_catalog_root (Some root) p) = backend p"
    "txn_id (meta (set_catalog_root (Some root) p)) = txn_id (meta p)"
proof -
  have dp: "data_pages (set_catalog_root (Some root) p) = data_pages p" for p :: "'x pager"
    by (simp add: set_catalog_root_def data_pages_def)
  show "pager_inv d (set_catalog_root (Some root) p)" using assms(1) by (simp add: pager_inv_def dp) (simp add: set_catalog_root_def)
  show "committed d (set_catalog_root (Some root) p) cm"
    using assms(2,3) by (auto simp: committed_def set_catalog_root_def meta_wf_def)
  show "used (set_catalog_root (Some root) p) = used p" by (simp add: used_def dp) (simp add: set_catalog_root_def)
  show "trunks (set_catalog_root (Some root) p) = trunks p" "backend (set_catalog_root (Some root) p) = backend p"
    "txn_id (meta (set_catalog_root (Some root) p)) = txn_id (meta p)" by (simp_all add: set_catalog_root_def)
  have "used (set_catalog_root (Some root) q) = used q" by (simp add: used_def dp) (simp add: set_catalog_root_def)
  moreover have "payload_view (backend q) (set_catalog_root (Some root) q) = payload_view (backend q) q"
    by (simp add: payload_view_def dp fun_eq_iff) (simp add: set_catalog_root_def)
  ultimately show "stored (set_catalog_root (Some root) q) = stored q" by (simp add: stored_def) (simp add: set_catalog_root_def)
qed

text \<open>The writer about to commit: the pages of a tree, or of a snapshot, that were not handed back to the
  allocator are as they were.\<close>

definition tidy :: "bytes Writer \<Rightarrow> PageId set \<Rightarrow> PageId list \<Rightarrow> Meta \<Rightarrow> bool" where
  "tidy w P fr cm \<longleftrightarrow> pager_inv (backend (w_pager w)) (w_pager w) \<and> committed (backend (w_pager w)) (w_pager w) cm
     \<and> w_root w \<in> P \<and> distinct (parked w @ fr) \<and> P \<inter> set (parked w @ fr) = {}
     \<and> P \<union> set (parked w @ fr) \<subseteq> used (w_pager w) - set (trunks (w_pager w))"

lemma cleaned_ok:
  fixes w :: "bytes Writer"
  defines "p1 \<equiv> w_pager (cleaned w)"
  assumes "tidy w P fr cm"
  shows "pager_inv (backend p1) p1" "committed (backend p1) p1 cm" "used p1 = used (w_pager w) - set (reusable w)"
  "trunks p1 = trunks (w_pager w)" "backend p1 = backend (w_pager w)" "meta p1 = (meta (w_pager w))\<lparr> catalog_root := Some (w_root w) \<rparr>"
  "j \<notin> set (reusable w) \<Longrightarrow> stored p1 j = stored (w_pager w) j" "cache p1 = cache (w_pager w)"
proof -
  note t = assms(2) [unfolded tidy_def]
  have inv: "pager_inv (backend (w_pager w)) (w_pager w)" "committed (backend (w_pager w)) (w_pager w) cm" and root: "w_root w \<in> P"
    and pages: "distinct (parked w @ fr)" "P \<union> set (parked w @ fr) \<subseteq> used (w_pager w) - set (trunks (w_pager w))" using t by blast+
  have d: "distinct (parked w)" "set (parked w) \<subseteq> used (w_pager w) - set (trunks (w_pager w))" using pages by auto
  have F: "distinct (reusable w)" "set (reusable w) \<subseteq> used (w_pager w) - set (trunks (w_pager w))"
    using reusable_parked(1,2) [OF d(1)] d(2) by auto
  have "w_root w \<in> data_pages (w_pager w)" using root pages(2) by (auto simp: used_def)
  then have r: "w_root w \<noteq> 0" using zero_not_data(1) [of "w_pager w"] by metis
  note pf = put_free_ok [OF inv(1) F]
  note s = set_root_ok [OF pf(1) pf(5) [OF inv(2)] r]
  have p1: "p1 = set_catalog_root (Some (w_root w)) (put_free (reusable w) (w_pager w))" by (simp add: p1_def cleaned_def)
  show "used p1 = used (w_pager w) - set (reusable w)" "trunks p1 = trunks (w_pager w)" and b: "backend p1 = backend (w_pager w)"
    using s pf by (simp_all add: p1)
  show "pager_inv (backend p1) p1" "committed (backend p1) p1 cm" unfolding b using s(1,2) by (simp_all add: p1)
  show "meta p1 = (meta (w_pager w))\<lparr> catalog_root := Some (w_root w) \<rparr>" "cache p1 = cache (w_pager w)"
    by (simp_all add: p1 put_free_def set_catalog_root_def)
  have "stored p1 = stored (put_free (reusable w) (w_pager w))" unfolding p1 by (rule set_root_ok(5) [OF inv r])
  then show "j \<notin> set (reusable w) \<Longrightarrow> stored p1 j = stored (w_pager w) j" using put_free_stored by simp
qed

lemma cleaned_parked:
  fixes w :: "bytes Writer"
  defines "p1 \<equiv> w_pager (cleaned w)"
  assumes "tidy w P fr cm"
  shows "set (reusable w) \<inter> (P \<union> set fr \<union> set (parked (cleaned w))) = {}"
  "P \<union> set fr \<union> set (parked (cleaned w)) \<subseteq> used p1 - set (trunks p1)"
  "distinct (parked (cleaned w) @ fr)" "P \<inter> set (parked (cleaned w) @ fr) = {}"
proof -
  have pages: "distinct (parked w @ fr)" "P \<inter> set (parked w @ fr) = {}"
    "P \<union> set (parked w @ fr) \<subseteq> used (w_pager w) - set (trunks (w_pager w))" using assms(2) unfolding tidy_def by blast+
  then have d: "distinct (parked w)" "set (parked w) \<inter> set fr = {}" "distinct fr" by auto
  note r = reusable_parked [OF d(1)]
  show x: "set (reusable w) \<inter> (P \<union> set fr \<union> set (parked (cleaned w))) = {}" using r(2,4) pages(2) d(2) by auto
  show "P \<union> set fr \<union> set (parked (cleaned w)) \<subseteq> used p1 - set (trunks p1)"
    unfolding p1_def cleaned_ok(3,4) [OF assms(2)] using x r(4) pages(3) by auto
  show "distinct (parked (cleaned w) @ fr)" "P \<inter> set (parked (cleaned w) @ fr) = {}" using r(3,4) d pages(2) by auto
qed

lemma cleaned_holds:
  assumes "tidy w P fr cm" "holds (stored (w_pager w)) h root f Q" "Q \<subseteq> P \<union> set fr \<union> set (parked (cleaned w))"
  shows "holds (stored (w_pager (cleaned w))) h root f Q"
  by (rule holds_cong_on [OF assms(2)], rule cleaned_ok(7) [OF assms(1)]) (use assms(3) cleaned_parked(1) [OF assms(1)] in blast)

text \<open>Past the commit.\<close>

lemma commit_cleaned:
  fixes w :: "bytes Writer"
  defines "p1 \<equiv> w_pager (cleaned w)"
  assumes tidy: "tidy w P fr cm" and "unat (txn_id (meta (w_pager w))) + 2 < 2 ^ 64"
  shows "\<exists>p2. commit mem_ops p1 = (Inr (), p2) \<and> pager_inv (backend p2) p2 \<and> committed (backend p2) p2 (meta p2)
    \<and> catalog_root (meta p2) = Some (w_root w) \<and> txn_id (meta p2) = txn_id (meta (w_pager w)) + 1
    \<and> committed_txn p2 = txn_id (meta p2) \<and> dirty_ids p2 = {}
    \<and> P \<union> set fr \<union> set (parked (cleaned w)) \<subseteq> used p2 - set (trunks p2)
    \<and> (\<forall>h root f Q. holds (stored (w_pager w)) h root f Q \<longrightarrow> Q \<subseteq> P \<union> set fr \<union> set (parked (cleaned w)) \<longrightarrow>
         holds (stored p2) h root f Q)"
proof -
  note co = cleaned_ok [OF tidy, folded p1_def]
  note cp = cleaned_parked(2) [OF tidy, folded p1_def]
  have "unat (txn_id (meta p1)) + 2 < 2 ^ 64" using assms(3) by (simp add: co(6))
  from commit_keeps [OF co(1,2) this] obtain p2 where c: "commit mem_ops p1 = (Inr (), p2)" "pager_inv (backend p2) p2"
    "committed (backend p2) p2 (meta p2)" "catalog_root (meta p2) = Some (w_root w)" "txn_id (meta p2) = txn_id (meta (w_pager w)) + 1"
    "committed_txn p2 = txn_id (meta p2)" "dirty_ids p2 = {}" "used p1 - set (trunks p1) \<subseteq> used p2 - set (trunks p2)"
    "\<forall>j \<in> used p1 - set (trunks p1). \<forall>n. stored p1 j = Some n \<longrightarrow> stored p2 j = Some n" unfolding co(6) by auto
  have "holds (stored p2) h r f Q"
    if t: "holds (stored (w_pager w)) h r f Q" "Q \<subseteq> P \<union> set fr \<union> set (parked (cleaned w))" for h r f Q
  proof (rule holds_cong_on [OF cleaned_holds [OF tidy t, folded p1_def]])
    fix j assume j: "j \<in> Q"
    then obtain n where n: "stored p1 j = Some n" using holds_dom [OF cleaned_holds [OF tidy t, folded p1_def]] by auto
    moreover have "j \<in> used p1 - set (trunks p1)" using j t(2) cp by blast
    ultimately show "stored p2 j = stored p1 j" using c(9) by auto
  qed
  then show ?thesis using c cp by (intro exI [of _ p2]) auto
qed

lemma commit_batch_ok:
  fixes w :: "bytes Writer"
  defines "p \<equiv> w_pager w"
  assumes cl: "tidy w P fr cm" and lim: "unat (txn_id (meta p)) + 2 < 2 ^ 64" and tree: "holds (stored p) h (w_root w) f P"
    and reg: "live_wf (reg_live (w_registry w))" "pins (reg_live (w_registry w)) = mset (map (\<lambda>s. snap_txn (fst s)) snaps)"
      "reg_txn (w_registry w) = txn_id (meta p)"
    and snaps: "\<And>s. s \<in> set snaps \<Longrightarrow> snap_txn (fst s) \<le> reg_txn (w_registry w) \<and> (\<exists>root h Q. snap_root (fst s) = Some root
        \<and> holds (stored p) h root (snd s) Q \<and> Q \<subseteq> P \<union> set fr \<union> kept (snap_txn (fst s)) (w_pending w))"
  shows "\<exists>w'. commit_batch mem_ops fr w = (Inr (txn_id (meta p) + 1), w') \<and> db_inv w' h f snaps
    \<and> w_root w' = w_root w \<and> reg_txn (w_registry w') = txn_id (meta p) + 1"
proof -
  let ?t = "txn_id (meta p) + 1" and ?wm = "watermark (w_registry w)"
  let ?still = "unreclaimable ?wm (w_pending w)"
  from commit_cleaned [OF cl lim [unfolded p_def]] obtain p2 where c: "commit mem_ops (w_pager (cleaned w)) = (Inr (), p2)"
    "pager_inv (backend p2) p2" "committed (backend p2) p2 (meta p2)" "catalog_root (meta p2) = Some (w_root w)" "txn_id (meta p2) = ?t"
    "committed_txn p2 = txn_id (meta p2)" "dirty_ids p2 = {}" "P \<union> set fr \<union> set (parked (cleaned w)) \<subseteq> used p2 - set (trunks p2)"
    "\<forall>h root f Q. holds (stored p) h root f Q \<longrightarrow> Q \<subseteq> P \<union> set fr \<union> set (parked (cleaned w)) \<longrightarrow> holds (stored p2) h root f Q"
    unfolding p_def by blast
  define w' where "w' = (cleaned w)\<lparr> w_pager := p2, w_pending := (if fr = [] then ?still else ?still @ [(?t, fr)]),
    w_registry := publish (Some (w_root w)) ?t (w_registry w) \<rparr>"
  have "pager_inv (backend p) p" "distinct (parked w)" "set (parked w) \<subseteq> used p - set (trunks p)"
    using cl by (auto simp: tidy_def p_def)
  note run = commit_batch_cleaned [OF this [unfolded p_def], of mem_ops fr]
  have cw: "w_root (cleaned w) = w_root w" "w_registry (cleaned w) = w_registry w" "w_pending (cleaned w) = ?still" "w_orphaned (cleaned w) = []"
    by (simp_all add: cleaned_def)
  have "commit_batch mem_ops fr w = (Inr ?t, w')"
    unfolding run using c(5,6) cw by (simp add: st_bind_def on_wpager_def st_zoom_def st_map_err_def c(1) w'_def)
  moreover have "db_inv w' h f snaps"
  proof -
    have w': "w_pager w' = p2" "w_root w' = w_root w" "reg_live (w_registry w') = reg_live (w_registry w)" "reg_txn (w_registry w') = ?t"
      "reg_root (w_registry w') = Some (w_root w)" "parked w' = parked (cleaned w) @ fr"
      using cw by (simp_all add: w'_def publish_def parked_def)
    have "pages_ok w' P" unfolding pages_ok_def w' using cleaned_parked(3,4) [OF cl] c(8) by auto
    moreover have "published w' P"
    proof -
      have "P \<subseteq> data_pages p2" "unat (page_count (meta p2)) \<le> PAGE_LIMIT" using c(2,8) by (auto simp: used_def pager_inv_def)
      then show ?thesis unfolding published_def w' using c(3-7) by (auto simp: data_pages_def)
    qed
    moreover have "readable w' P s" if s: "s \<in> set snaps" for s
    proof -
      let ?v = "snap_txn (fst s)"
      from snaps [OF s] obtain r h' Q where q: "?v \<le> txn_id (meta p)" "snap_root (fst s) = Some r"
        "holds (stored p) h' r (snd s) Q" "Q \<subseteq> P \<union> set fr \<union> kept ?v (w_pending w)" using reg(3) by auto
      have "?v \<in># pins (reg_live (w_registry w))" using reg(2) s by auto
      then have k: "kept ?v (w_pending w) = kept ?v ?still" using watermark_spec(1) [OF reg(1)] by (simp add: kept_reclaim)
      have "unat ?t = unat (txn_id (meta p)) + 1" using lim by (simp add: unat_word_ariths)
      then have lt: "?v < ?t" using q(1) by (simp add: word_less_nat_alt word_le_nat_alt)
      then have k': "kept ?v (w_pending w') = kept ?v ?still \<union> set fr"
        by (auto simp: w'_def kept_append) (auto simp: kept_def)
      have "kept ?v ?still \<subseteq> set (parked (cleaned w))" using kept_subset [of ?v ?still] cw by (auto simp: parked_def)
      then have "holds (stored p2) h' r (snd s) Q" using c(9) q(3,4) k by blast
      moreover have "Q \<subseteq> P \<union> kept ?v (w_pending w')" using q(4) k k' by blast
      ultimately show ?thesis unfolding readable_def w' using q(2) lt by auto
    qed
    then have "snaps_ok w' P snaps" using reg(1,2) by (simp add: snaps_ok_def w')
    moreover have "holds (stored p2) h (w_root w) f P" using c(9) tree by blast
    ultimately show ?thesis unfolding db_inv_def w' using c(2) by blast
  qed
  ultimately show ?thesis by (auto simp: w'_def publish_def cw)
qed

end
