(* ===== verification/TxnReopen.thy ===== *)
theory TxnReopen
  imports TxnCommit
begin

text \<open>
  Opening the image a writer leaves on the store: after a commit, or after a commit that was
  interrupted at any operation of the store.
\<close>

section \<open>Reading an opened image\<close>

text \<open>Reading pages does not look at the free list: it is the same whether it has been loaded or not.\<close>

definition with_free :: "bytes pager \<Rightarrow> bytes pager" where
  "with_free p = p\<lparr> free_loaded := True \<rparr>"

lemma read_page_with_free: "read_page ops pid (with_free p) = apsnd with_free (read_page ops pid p)"
  by (simp add: read_page_def in_range_def fetch_def with_free_def on_backend_def st_zoom_def st_map_err_def st_bind_def
      split: prod.split option.split sum.split)

lemma tree_lookup_with_free:
  "tree_lookup (pager_ops ops) n root key (with_free p) = apsnd with_free (tree_lookup (pager_ops ops) n root key p)"
proof (induction n arbitrary: root p)
  case (Suc n)
  obtain r p' where r: "read_node (pager_ops ops) root p = (r, p')" by fastforce
  then have "read_node (pager_ops ops) root (with_free p) = (r, with_free p')"
    by (auto simp: read_node_def on_pager_def pager_ops_def read_page_with_free st_map_err_def st_bind_def split: prod.splits sum.splits)
  then show ?case using r Suc.IH by (cases r) (auto split: option.splits)
qed simp

text \<open>A database whose readers see the map \<open>f\<close>.\<close>

definition serves :: "bytes Writer \<Rightarrow> nat \<Rightarrow> (bytes \<rightharpoonup> bytes) \<Rightarrow> bool" where
  "serves w h f \<longleftrightarrow> (\<forall>n > h. \<forall>key. fst (snap_get mem_ops n (fst (snapshot w)) key (snd (snapshot w))) = Inr (f key))"

lemma spawn_serves:
  assumes "pager_inv (backend q) (with_free q)" "holds (stored (with_free q)) h root f P"
  shows "serves (spawn q root t) h f"
proof -
  let ?w = "spawn q root t"
  have s: "snap_root (fst (snapshot ?w)) = Some root" "w_pager (snd (snapshot ?w)) = q"
    by (simp_all add: spawn_def writer_new_def registry_new_def snapshot_def acquire_def)
  have "fst (tree_lookup (pager_ops mem_ops) n root key q) = Inr (f key)" if "h < n" for n key
  proof -
    have b: "pager_inv (backend (with_free q)) (with_free q)" using assms(1) by (simp add: with_free_def)
    from mem_pages.holds_lookup [OF b assms(2) [unfolded stored_def], of key] obtain p' where
      l: "tree_lookup (pager_ops mem_ops) (Suc h) root key (with_free q) = (Inr (f key), p')" by blast
    have "tree_lookup (pager_ops mem_ops) n root key (with_free q) = (Inr (f key), p')"
      by (rule tree_lookup_budget [OF l]) (use that in simp_all)
    then show ?thesis by (metis tree_lookup_with_free fst_apsnd fst_conv)
  qed
  then show ?thesis unfolding serves_def snap_get_def s(1) on_store_def st_zoom_def st_map_err_def
    by (simp add: s(2) case_prod_unfold)
qed

text \<open>An image whose adopted meta names a tree, every page of which is on the image as a pager saw it,
  serves the map that tree holds.\<close>

lemma reopen_image:
  assumes p: "pager_inv (backend p) p" "holds (stored p) h root f P"
    and d: "recover d = Inr (cm, slot)" "2 * PAGE_SIZE \<le> length d" "length d < 2 ^ 64"
    and cm: "catalog_root cm = Some root" "unat (page_count cm) \<le> PAGE_LIMIT"
      "\<And>j. j \<in> P \<Longrightarrow> FIRST_DATA_PAGE \<le> j \<and> j < page_count cm"
    and pages: "\<And>j fr. j \<in> P \<Longrightarrow> page_view (backend p) (cache p) j = Some fr \<Longrightarrow> on_disk d j fr"
  shows "\<exists>w. db_open mem_ops d = Inr w \<and> w_root w = root \<and> reg_txn (w_registry w) = txn_id cm \<and> serves w h f"
proof -
  define q where "q = new_pager DEFAULT_CACHE_BYTES cm slot False d"
  have op: "open_with_cache mem_ops DEFAULT_CACHE_BYTES d = (Inr q, d)"
    using mem.open_spec [of d cm slot DEFAULT_CACHE_BYTES] d by (auto simp: q_def)
  have q: "backend q = d" "meta q = cm" "cache q = cache_new DEFAULT_CACHE_BYTES" "committed_txn q = txn_id cm" "free_set q = []" "trunks q = []"
    by (simp_all add: q_def new_pager_def)
  have "root \<in> P" using holds_finite [OF p(2)] by blast
  then have "FIRST_DATA_PAGE < page_count cm" using cm(3) by (auto intro: le_less_trans)
  then have inv: "pager_inv (backend q) (with_free q)"
    using cm(2) q by (simp add: pager_inv_def with_free_def word_less_nat_alt)
  have "holds (stored (with_free q)) h root f P"
  proof (rule holds_cong_on [OF p(2)])
    fix j assume j: "j \<in> P"
    obtain n where "stored p j = Some n" using holds_dom [OF p(2)] j by auto
    then obtain fr where fr: "page_view (backend p) (cache p) j = Some fr"
      by (auto simp: stored_def node_map_Some payload_view_def split: if_splits)
    have "verify fr j = Inr fr" using fr p(1) by (auto simp: page_view_def pager_inv_def coherent_def split: option.splits if_splits)
    then have "page_view d (cache q) j = Some fr" using pages [OF j fr] by (simp add: page_view_def q(3) on_disk_def)
    moreover have "j \<in> used p" "j \<in> data_pages p" using holds_used [OF p(2)] j by (auto simp: used_def)
    moreover have "j \<in> data_pages q" "used (with_free q) = data_pages q" "data_pages (with_free q) = data_pages q"
      using cm(3) j by (simp_all add: data_pages_def q used_def with_free_def)
    ultimately show "stored (with_free q) j = stored p j" using fr
      by (simp add: stored_def node_map_def payload_view_def) (simp add: with_free_def q(1))
  qed
  then have "serves (spawn q root (txn_id cm)) h f" by (rule spawn_serves [OF inv])
  moreover have "db_open mem_ops d = Inr (spawn q root (txn_id cm))" using op q cm(1) by (simp add: db_open_def)
  ultimately show ?thesis by (auto simp: spawn_def writer_new_def registry_new_def)
qed

section \<open>An interrupted commit\<close>

lemma rebuild_loop_dirty:
  assumes "rebuild_loop pool head c nt st = (head', c', nt', st')" "cache_wf c" "lookup c' j = Some e" "dirty e" "j \<notin> set pool"
  shows "\<exists>e. lookup c j = Some e \<and> dirty e"
  using assms
proof (induction pool head c nt st rule: rebuild_loop.induct)
  case (1 pool head c nt st)
  show ?case
  proof (cases "pool = []")
    case True
    then show ?thesis using "1.prems" by (simp add: rebuild_loop.simps)
  next
    case False
    let ?f = "trunk_frame (last pool) head (drop (length (butlast pool) - min (length (butlast pool)) CAPACITY) (butlast pool))"
    let ?c = "cache_insert (last pool) ?f True c"
    have j: "j \<noteq> last pool" "j \<notin> set (take (length (butlast pool) - min (length (butlast pool)) CAPACITY) (butlast pool))"
      using "1.prems"(5) False by (auto dest: in_set_takeD in_set_butlastD)
    have "\<exists>e. lookup ?c j = Some e \<and> dirty e"
      by (rule "1.IH" [OF False refl refl refl refl _ cache_insert_spec(1) [OF "1.prems"(2)] "1.prems"(3,4) j(2)])
        (use "1.prems"(1) False in \<open>simp add: rebuild_loop.simps [of pool] Let_def\<close>)
    then show ?thesis using cache_insert_spec(2) [OF "1.prems"(2) j(1), of ?f True] by auto
  qed
qed

lemma rebuild_dirty:
  assumes "pager_inv d p" "rebuild_free_list p = (dead, q)" "j \<in> dirty_ids q" "j \<notin> set (free_set p)"
  shows "j \<in> dirty_ids p"
proof -
  obtain h c nt st where l: "rebuild_loop (free_set p) 0 (cache p) [] [] = (h, c, nt, st)" by (metis prod.exhaust)
  have "cache q = c" using assms(2) l by (auto simp: rebuild_free_list_def)
  then show ?thesis using rebuild_loop_dirty [OF l _ _ _ assms(4)] assms(1,3) by (auto simp: dirty_ids_def pager_inv_def coherent_def)
qed

lemma clean_on_disk:
  assumes "coherent d c" "page_view d c j = Some f" "\<And>e. lookup c j = Some e \<Longrightarrow> \<not> dirty e"
  shows "on_disk d j f"
  using assms by (auto simp: coherent_def page_view_def on_disk_def split: option.splits if_splits)

context block_store
begin

text \<open>The pages in use when a commit begins, on the image it leaves wherever it stopped.\<close>

lemma commit_crash_pages:
  assumes inv: "pager_inv (disk (backend p)) p" and com: "committed (disk (backend p)) p cm" and run: "commit ops p = (r, p')"
    and j: "j \<in> used p" "page_view (disk (backend p)) (cache p) j = Some f"
    and "recover (disk (backend p')) = Inr (next_meta p, 1 - active_slot p) \<or> j \<notin> dirty_ids p"
  shows "on_disk (disk (backend p')) j f"
proof -
  obtain dead q where rb: "rebuild_free_list p = (dead, q)" by fastforce
  then have q: "snd (rebuild_free_list p) = q" by simp
  note rs = rebuild_spec [OF inv rb]
  note ce = commit_effect [OF inv com run, unfolded q]
  have view: "page_view (disk (backend p)) (cache q) j = Some f" and coh: "coherent (disk (backend p)) (cache q)"
    using rs(1,4) j by (auto simp: used_def pager_inv_def)
  have n: "j \<notin> {0, 1}" using j(1) zero_not_data [of p] by (auto simp: used_def)
  have mem: "(i, g) \<in> set (dirty_pages (cache q)) \<longleftrightarrow> (\<exists>e. lookup (cache q) i = Some e \<and> dirty e \<and> frame e = g)" for i g
    using coh by (intro dirty_pages_mem) (simp add: coherent_def)
  show ?thesis
  proof (cases "j \<in> dirty_ids q")
    case True
    then have new: "recover (disk (backend p')) = Inr (next_meta p, 1 - active_slot p)"
      using rebuild_dirty [OF inv rb] j(1) assms(6) by (auto simp: used_def)
    from True obtain e where e: "lookup (cache q) j = Some e" "dirty e" by (auto simp: dirty_ids_def)
    then have "(j, f) \<in> set (dirty_pages (cache q))" using view mem by (auto simp: page_view_def)
    then have "disk_page (disk (backend p')) j = f" using ce new by auto
    moreover have "(unat j + 1) * PAGE_SIZE \<le> unat (page_count (meta q)) * PAGE_SIZE"
      using j(1) rs(3) by (intro mult_le_mono1) (auto simp: used_def data_pages_def word_less_nat_alt rs(10))
    ultimately show ?thesis using ce new by (auto simp: on_disk_def page_fits_def)
  next
    case False
    have od: "on_disk (disk (backend p)) j f" by (rule clean_on_disk [OF coh view]) (use False in \<open>auto simp: dirty_ids_def\<close>)
    moreover have "j \<notin> fst ` set (dirty_pages (cache q))" using False mem by (auto simp: dirty_ids_def)
    ultimately show ?thesis using ce n by (auto simp: on_disk_def page_fits_def)
  qed
qed

end

text \<open>The same pager and writer on another device.\<close>

definition on_device :: "'c \<Rightarrow> 'b pager \<Rightarrow> 'c pager" where
  "on_device b p = \<lparr> backend = b, cache = cache p, meta = meta p, active_slot = active_slot p, alloc_log = alloc_log p,
     free_set = free_set p, trunks = trunks p, free_loaded = free_loaded p, committed_txn = committed_txn p \<rparr>"

definition writer_on :: "'c \<Rightarrow> 'b Writer \<Rightarrow> 'c Writer" where
  "writer_on b w = \<lparr> w_pager = on_device b (w_pager w), w_registry = w_registry w, w_root = w_root w,
     w_pending = w_pending w, w_orphaned = w_orphaned w \<rparr>"

lemma on_device_same [simp]:
  "pager_inv d (on_device b p) = pager_inv d p" "committed d (on_device b p) cm = committed d p cm" "used (on_device b p) = used p"
  "backend (on_device b p) = b" "cache (on_device b p) = cache p" "trunks (on_device b p) = trunks p"
  "dirty_ids (on_device b p) = dirty_ids p" "active_slot (on_device b p) = active_slot p" "meta (on_device b p) = meta p"
  by (simp_all add: on_device_def pager_inv_def committed_def used_def data_pages_def dirty_ids_def)

lemma writer_on_same [simp]:
  "w_pager (writer_on b w) = on_device b (w_pager w)" "parked (writer_on b w) = parked w"
  "cleaned (writer_on b w) = writer_on b (cleaned w)"
  by (simp_all add: writer_on_def parked_def cleaned_def reusable_def on_device_def put_free_def set_catalog_root_def)

lemma next_meta_device: "next_meta (on_device b p) = next_meta p"
  by (simp add: next_meta_def rebuild_free_list_def on_device_def Let_def split: prod.split)

lemma next_meta_fields:
  assumes "pager_inv d p"
  shows "catalog_root (next_meta p) = catalog_root (meta p)" "page_count (next_meta p) = page_count (meta p)"
proof -
  obtain dead q where rb: "rebuild_free_list p = (dead, q)" by fastforce
  note rs = rebuild_spec [OF assms rb]
  show "catalog_root (next_meta p) = catalog_root (meta p)" "page_count (next_meta p) = page_count (meta p)"
    using rs(10,11) by (simp_all add: next_meta_def Let_def rb)
qed

lemma crash_commit:
  assumes tidy: "tidy w P' fr cm" and new: "holds (stored (w_pager w)) h' (w_root w) f' P'"
    and old: "holds (stored (w_pager w)) h root f P" "P \<subseteq> P' \<union> set fr" "P \<inter> dirty_ids (w_pager w) = {}"
    and cm: "catalog_root cm = Some root" "unat (page_count cm) \<le> PAGE_LIMIT" "\<And>j. j \<in> P \<Longrightarrow> FIRST_DATA_PAGE \<le> j \<and> j < page_count cm"
    and run: "inner b = backend (w_pager w)" "commit_batch (fault_ops mem_ops) fr (writer_on b w) = (r, w2)"
  shows "\<exists>w3. db_open mem_ops (inner (backend (w_pager w2))) = Inr w3 \<and> (isl r \<and> serves w3 h f \<or> serves w3 h' f')"
proof -
  let ?p = "w_pager w" and ?p1 = "w_pager (cleaned w)"
  note t = tidy [unfolded tidy_def]
  note co = cleaned_ok [OF tidy]
  let ?q = "on_device b ?p1"
  have q: "pager_inv (inner (backend ?q)) ?q" "committed (inner (backend ?q)) ?q cm" and bq: "inner (backend ?q) = backend ?p1"
    using co(1,2,5) run(1) by simp_all
  obtain rc q2 where c: "commit (fault_ops mem_ops) ?q = (rc, q2)" by fastforce
  have "pager_inv (backend ?p) (w_pager (writer_on b w))" "distinct (parked (writer_on b w))"
    "set (parked (writer_on b w)) \<subseteq> used (w_pager (writer_on b w)) - set (trunks (w_pager (writer_on b w)))" using t by auto
  note cb = commit_batch_cleaned [OF this, of "fault_ops mem_ops" fr]
  have r: "w_pager w2 = q2" "isl rc = isl r"
    using run(2) c unfolding cb by (cases rc; auto simp: st_bind_def on_wpager_def st_zoom_def st_map_err_def)+
  note ce = fault_mem.commit_effect [OF q c]
  let ?d = "inner (backend q2)"
  have len: "2 * PAGE_SIZE \<le> length ?d" "length ?d < 2 ^ 64" using ce q(2) by (auto simp: committed_def)
  have pages: "P \<subseteq> used ?p1" "P' \<subseteq> used ?p1" using cleaned_parked(2) [OF tidy] old(2) by blast+
  have h1: "holds (stored ?p1) h root f P" "holds (stored ?p1) h' (w_root w) f' P'"
    using cleaned_holds [OF tidy old(1)] cleaned_holds [OF tidy new] old(2) by blast+
  have crash: "on_disk ?d j g" if "j \<in> used ?p1" "page_view (backend ?p1) (cache ?p1) j = Some g"
    "recover ?d = Inr (next_meta ?q, 1 - active_slot ?q) \<or> j \<notin> dirty_ids ?p1" for j g
    using fault_mem.commit_crash_pages [OF q c, of j g] that bq by simp
  consider (old) "recover ?d = Inr (cm, active_slot ?q)" "rc \<noteq> Inr ()" | (new) "recover ?d = Inr (next_meta ?q, 1 - active_slot ?q)"
    using ce by blast
  then show ?thesis
  proof cases
    case old
    have "j \<notin> dirty_ids ?p1" if "j \<in> P" for j using that assms(5) co(8) by (auto simp: dirty_ids_def)
    then have "on_disk ?d j g" if "j \<in> P" "page_view (backend ?p1) (cache ?p1) j = Some g" for j g using that crash pages(1) by blast
    from reopen_image [OF co(1) h1(1) old(1) len cm this] have "\<exists>w3. db_open mem_ops ?d = Inr w3 \<and> serves w3 h f" by blast
    moreover have "isl r" using old(2) r(2) by (cases rc) auto
    ultimately show ?thesis using r(1) by blast
  next
    case new
    have "catalog_root (next_meta ?q) = Some (w_root w)" and pc: "page_count (next_meta ?q) = page_count (meta ?p1)"
      using next_meta_fields [OF co(1)] co(6) by (simp_all add: next_meta_device)
    moreover have "unat (page_count (next_meta ?q)) \<le> PAGE_LIMIT" using pc co(1) by (simp add: pager_inv_def)
    moreover have "FIRST_DATA_PAGE \<le> j \<and> j < page_count (next_meta ?q)" if "j \<in> P'" for j
      using that pages(2) pc by (auto simp: used_def data_pages_def)
    moreover have "on_disk ?d j g" if "j \<in> P'" "page_view (backend ?p1) (cache ?p1) j = Some g" for j g using that crash pages(2) new by blast
    ultimately have "\<exists>w3. db_open mem_ops ?d = Inr w3 \<and> serves w3 h' f'" using reopen_image [OF co(1) h1(2) new len] by blast
    then show ?thesis using r(1) by blast
  qed
qed

end
