(* ===== verification/TxnSpec.thy ===== *)
theory TxnSpec
  imports TxnReopen
begin

text \<open>
  The transaction layer as a whole: group commit, snapshot isolation, durability and atomicity of
  batches of key/value jobs on a database over the in-memory store.
\<close>

section \<open>A batch keeps the invariant\<close>

lemma advanced_committed: "advanced p q \<Longrightarrow> committed (backend p) p cm \<Longrightarrow> committed (backend q) q cm"
proof -
  assume a: "advanced p q" and c: "committed (backend p) p cm"
  note g = advanced_grown [OF a]
  have m: "txn_id (meta q) = txn_id (meta p)" "format_version (meta q) = format_version (meta p)" "page_size (meta q) = page_size (meta p)"
    "freelist_head (meta q) = freelist_head (meta p)" "catalog_root (meta q) = catalog_root (meta p)" by (subst g(2), simp)+
  have "FIRST_DATA_PAGE \<le> page_count (meta q)" using advanced_ok [OF a] by (simp add: pager_inv_def word_le_nat_alt)
  then show ?thesis using c unfolding committed_def meta_wf_def m g(1,3) by blast
qed

lemma advanced_txn: "advanced p q \<Longrightarrow> txn_id (meta q) = txn_id (meta p)"
  by (subst advanced_grown(2), assumption, simp)

lemma trunks_used: "pager_inv d p \<Longrightarrow> set (trunks p) \<subseteq> used p"
  by (auto simp: pager_inv_def used_def)

lemma readable_advanced:
  assumes "readable w P s" "advanced (w_pager w) p'"
  shows "readable (w\<lparr> w_pager := p', w_orphaned := l \<rparr>) P s"
  using assms advanced_holds unfolding readable_def by fastforce

text \<open>A batch that leaves the root where it was only adds orphaned pages.\<close>

lemma batch_idle:
  assumes "db_inv w h f snaps" "advanced (w_pager w) p'" "distinct orph" "set orph \<subseteq> used p' - used (w_pager w)"
  shows "db_inv (w\<lparr> w_pager := p', w_orphaned := w_orphaned w @ orph \<rparr>) h f snaps" (is "db_inv ?w' h f snaps")
proof -
  let ?p = "w_pager w"
  from assms(1) obtain P where P: "pager_inv (backend ?p) ?p" "holds (stored ?p) h (w_root w) f P" "pages_ok w P"
    "snaps_ok w P snaps" "published w P" unfolding db_inv_def by blast
  note g = advanced_grown [OF assms(2)]
  note u = advanced_ok [OF assms(2)]
  have t: "set (trunks ?p) \<subseteq> used ?p" by (rule trunks_used [OF P(1)])
  have PU: "P \<subseteq> used ?p" by (rule holds_used [OF P(2)])
  have "parked ?w' = parked w @ orph" by (simp add: parked_def)
  moreover have "set (parked w) \<subseteq> used ?p" using P(3) by (auto simp: pages_ok_def)
  ultimately have "pages_ok ?w' P"
    using P(3) assms(3,4) u t PU unfolding pages_ok_def by (auto simp: g(5))
  moreover have "snaps_ok ?w' P snaps" using P(4) readable_advanced [OF _ assms(2)] by (auto simp: snaps_ok_def)
  moreover have "published ?w' P"
    using P(5) PU g(4,6) advanced_txn [OF assms(2)] advanced_committed [OF assms(2)] unfolding published_def by fastforce
  ultimately show ?thesis unfolding db_inv_def using u advanced_holds [OF assms(2) P(2)] by auto
qed

text \<open>A batch that moves the root: the pages of the new tree, of the old one and of the snapshots.\<close>

lemma batch_tidy:
  assumes "db_inv w h f snaps" "advanced (w_pager w) p'" "holds (stored (w_pager w)) h (w_root w) f P"
    and "holds (stored p') h' root' f' P'" "accounted (w_pager w) p' P P' fr orph"
  shows "pages_ok w P" "snaps_ok w P snaps" "P \<subseteq> P' \<union> set fr" "P \<inter> dirty_ids p' = {}"
    "\<exists>cm. tidy (w\<lparr> w_pager := p', w_root := root', w_orphaned := w_orphaned w @ orph \<rparr>) P' fr cm \<and> catalog_root cm = Some (w_root w)
       \<and> unat (page_count cm) \<le> PAGE_LIMIT \<and> (\<forall>j \<in> P. FIRST_DATA_PAGE \<le> j \<and> j < page_count cm)"
proof -
  let ?p = "w_pager w" and ?w1 = "w\<lparr> w_pager := p', w_root := root', w_orphaned := w_orphaned w @ orph \<rparr>"
  from assms(1) obtain P0 where P0: "pager_inv (backend ?p) ?p" "holds (stored ?p) h (w_root w) f P0" "pages_ok w P0"
    "snaps_ok w P0 snaps" "published w P0" unfolding db_inv_def by blast
  have "P0 = P" by (rule holds_unique(3) [OF assms(3) P0(2)])
  note P = P0 [unfolded this]
  show "pages_ok w P" "snaps_ok w P snaps" by (rule P(3), rule P(4))
  note u = advanced_ok [OF assms(2)]
  note g = advanced_grown [OF assms(2)]
  have t: "trunks p' = trunks ?p" "set (trunks ?p) \<subseteq> used ?p" using g(5) trunks_used [OF P(1)] by auto
  have acc: "P' = (P \<union> (used p' - used ?p)) - set (fr @ orph)" "distinct (fr @ orph)" "set fr \<subseteq> P \<union> (used p' - used ?p)"
    "set orph \<subseteq> used p' - used ?p" using assms(5) by (simp_all add: accounted_def)
  have pg: "distinct (parked w)" "P \<inter> set (parked w) = {}" "P \<union> set (parked w) \<subseteq> used ?p - set (trunks ?p)"
    using P(3) by (simp_all add: pages_ok_def)
  show "P \<subseteq> P' \<union> set fr" using acc pg(3) by auto
  show "P \<inter> dirty_ids p' = {}" using P(5) g(6) pg(3) by (auto simp: published_def)
  have park: "parked ?w1 = parked w @ orph" by (simp add: parked_def)
  have dist: "set (parked w) \<inter> set orph = {}" "set (parked w) \<inter> set fr = {}" using pg acc(3,4) by blast+
  obtain cm where cm: "committed (backend ?p) ?p cm" "catalog_root cm = Some (w_root w)" "unat (page_count cm) \<le> PAGE_LIMIT"
    "\<forall>j \<in> P. FIRST_DATA_PAGE \<le> j \<and> j < page_count cm" using P(5) unfolding published_def by blast
  have "root' \<in> P'" using holds_finite [OF assms(4)] by blast
  then have "tidy ?w1 P' fr cm"
    unfolding tidy_def park using u advanced_committed [OF assms(2) cm(1)] pg acc t dist by auto
  then show "\<exists>cm. tidy ?w1 P' fr cm \<and> catalog_root cm = Some (w_root w)
       \<and> unat (page_count cm) \<le> PAGE_LIMIT \<and> (\<forall>j \<in> P. FIRST_DATA_PAGE \<le> j \<and> j < page_count cm)" using cm by blast
qed

lemma batch_commit:
  assumes "db_inv w h f snaps" "advanced (w_pager w) p'" "unat (reg_txn (w_registry w)) + 2 < 2 ^ 64"
    and "holds (stored (w_pager w)) h (w_root w) f P" "holds (stored p') h' root' f' P'" "accounted (w_pager w) p' P P' fr orph"
  shows "\<exists>w'. commit_batch mem_ops fr (w\<lparr> w_pager := p', w_root := root', w_orphaned := w_orphaned w @ orph \<rparr>) =
      (Inr (reg_txn (w_registry w) + 1), w')
    \<and> db_inv w' h' f' snaps \<and> w_root w' = root' \<and> reg_txn (w_registry w') = reg_txn (w_registry w) + 1"
proof -
  let ?p = "w_pager w" and ?w1 = "w\<lparr> w_pager := p', w_root := root', w_orphaned := w_orphaned w @ orph \<rparr>"
  note bt = batch_tidy [OF assms(1,2,4,5,6)]
  from bt(5) obtain cm where cm: "tidy ?w1 P' fr cm" by blast
  have txn: "reg_txn (w_registry w) = txn_id (meta ?p)" "txn_id (meta p') = txn_id (meta ?p)"
    using assms(1) advanced_txn [OF assms(2)] by (auto simp: db_inv_def published_def)
  have snaps: "snap_txn (fst s) \<le> reg_txn (w_registry ?w1) \<and> (\<exists>root h Q. snap_root (fst s) = Some root
        \<and> holds (stored (w_pager ?w1)) h root (snd s) Q \<and> Q \<subseteq> P' \<union> set fr \<union> kept (snap_txn (fst s)) (w_pending ?w1))"
    if "s \<in> set snaps" for s
  proof -
    from that bt(2) obtain root h Q where q: "snap_txn (fst s) \<le> reg_txn (w_registry w)" "snap_root (fst s) = Some root"
      "holds (stored ?p) h root (snd s) Q" "Q \<subseteq> P \<union> kept (snap_txn (fst s)) (w_pending w)" unfolding snaps_ok_def readable_def by blast
    then show ?thesis using bt(3) advanced_holds [OF assms(2) q(3)] by auto
  qed
  have reg: "live_wf (reg_live (w_registry ?w1))" "pins (reg_live (w_registry ?w1)) = mset (map (\<lambda>s. snap_txn (fst s)) snaps)"
    "reg_txn (w_registry ?w1) = txn_id (meta (w_pager ?w1))" using bt(2) txn by (simp_all add: snaps_ok_def)
  have pre: "unat (txn_id (meta (w_pager ?w1))) + 2 < 2 ^ 64" "holds (stored (w_pager ?w1)) h' (w_root ?w1) f' P'"
    using assms(3,5) txn by simp_all
  show ?thesis using commit_batch_ok [OF cm pre reg snaps] txn by simp
qed

lemma process_batch_ok:
  assumes "db_inv w h f snaps" "ops_cost h (total_ops jobs) \<le> room (w_pager w)" "h + total_ops jobs < n"
    "unat (reg_txn (w_registry w)) + 2 < 2 ^ 64"
  shows "\<exists>outs w' h'. process_batch mem_ops (map (ops_job mem_ops n) jobs) w =
      ((map (map_sum id (\<lambda>out. (reg_txn (w_registry w'), out))) outs, Inr ()), w')
    \<and> list_all2 answered jobs outs \<and> h' \<le> h + total_ops jobs \<and> db_inv w' h' (batch_effect jobs outs f) snaps
    \<and> reg_txn (w_registry w') = (if w_root w' = w_root w then reg_txn (w_registry w) else reg_txn (w_registry w) + 1)
    \<and> (w_root w' = w_root w \<longrightarrow> batch_effect jobs outs f = f)"
proof -
  let ?p = "w_pager w"
  from assms(1) obtain P where P: "pager_inv (backend ?p) ?p" "holds (stored ?p) h (w_root w) f P" "published w P"
    unfolding db_inv_def by blast
  from apply_batch_ok [OF P(1,2) assms(2,3), of "[]" "[]"] obtain outs p' root' fr orph h' P' where a:
    "apply_batch (map (ops_job mem_ops n) jobs) [] [] w =
      (Inr (fr, outs), w\<lparr> w_pager := p', w_root := root', w_orphaned := w_orphaned w @ orph \<rparr>)"
    "advanced ?p p'" "list_all2 answered jobs outs" "h' \<le> h + total_ops jobs"
    "holds (stored p') h' root' (batch_effect jobs outs f) P'" "accounted ?p p' P P' fr orph" by auto
  show ?thesis
  proof (cases "root' = w_root w")
    case True
    let ?w' = "w\<lparr> w_pager := p', w_orphaned := w_orphaned w @ orph \<rparr>"
    have ct: "committed_txn p' = reg_txn (w_registry w)"
      using P(3) advanced_grown(4) [OF a(2)] by (simp add: published_def)
    have "holds (stored p') h (w_root w) f P" by (rule advanced_holds [OF a(2) P(2)])
    note same = holds_unique [OF this a(5) [unfolded True]]
    have "db_inv ?w' h' (batch_effect jobs outs f) snaps"
      unfolding same(1,2) using a(6) by (intro batch_idle [OF assms(1) a(2)]) (auto simp: accounted_def)
    then show ?thesis using a(1,3,4) True ct same(2) by (intro exI [of _ outs] exI [of _ ?w'] exI [of _ h']) (simp add: process_batch_def)
  next
    case False
    from batch_commit [OF assms(1) a(2) assms(4) P(2) a(5,6)] obtain w' where
      "commit_batch mem_ops fr (w\<lparr> w_pager := p', w_root := root', w_orphaned := w_orphaned w @ orph \<rparr>) =
        (Inr (reg_txn (w_registry w) + 1), w')" "db_inv w' h' (batch_effect jobs outs f) snaps" "w_root w' = root'"
      "reg_txn (w_registry w') = reg_txn (w_registry w) + 1" by blast
    then show ?thesis using a(1,3,4) False by (intro exI [of _ outs] exI [of _ w'] exI [of _ h']) (simp add: process_batch_def)
  qed
qed

section \<open>Readers\<close>

lemma snapshot_ok:
  assumes "db_inv w h f snaps" "snapshot w = (sn, w')"
  shows "db_inv w' h f ((sn, f) # snaps)"
proof -
  from assms(1) obtain P where P: "pager_inv (backend (w_pager w)) (w_pager w)" "holds (stored (w_pager w)) h (w_root w) f P" "pages_ok w P"
    "snaps_ok w P snaps" "published w P" unfolding db_inv_def by blast
  let ?r = "w_registry w"
  have sn: "sn = \<lparr> snap_root = reg_root ?r, snap_txn = reg_txn ?r \<rparr>"
    "w' = w\<lparr> w_registry := ?r\<lparr> reg_live := live_bump (reg_txn ?r) (reg_live ?r) \<rparr> \<rparr>"
    using assms(2) by (simp_all add: snapshot_def acquire_def)
  have "readable w' P (sn, f)"
    using P(2,5) unfolding readable_def published_def by (auto simp: sn intro!: exI [of _ h] exI [of _ P])
  moreover have "readable w' P s" if "s \<in> set snaps" for s
    using that P(4) unfolding snaps_ok_def readable_def by (simp add: sn)
  moreover have "live_wf (reg_live ?r)" using P(4) by (simp add: snaps_ok_def)
  note live_bump_spec [OF this, of "reg_txn ?r"]
  ultimately have "snaps_ok w' P ((sn, f) # snaps)" using P(4) by (simp add: snaps_ok_def sn)
  moreover have "pages_ok w' P" "published w' P" using P(3,5) by (simp_all add: sn(2) pages_ok_def published_def parked_def)
  ultimately show ?thesis unfolding db_inv_def using P(1,2) by (auto simp: sn(2))
qed

lemma drop_snapshot_ok:
  assumes "db_inv w h f snaps" "s \<in> set snaps"
  shows "db_inv (drop_snapshot (fst s) w) h f (remove1 s snaps)"
proof -
  from assms(1) obtain P where P: "pager_inv (backend (w_pager w)) (w_pager w)" "holds (stored (w_pager w)) h (w_root w) f P" "pages_ok w P"
    "snaps_ok w P snaps" "published w P" unfolding db_inv_def by blast
  let ?w' = "drop_snapshot (fst s) w" and ?t = "\<lambda>s. snap_txn (fst s) :: u64"
  have "readable ?w' P x" if "x \<in> set (remove1 s snaps)" for x
    using set_remove1_subset [of s snaps] that P(4) by (auto simp: snaps_ok_def readable_def drop_snapshot_def release_def)
  moreover have "live_wf (reg_live (w_registry w))" using P(4) by (simp add: snaps_ok_def)
  note d = live_drop_spec [OF this, of "?t s"]
  have "mset (map ?t (remove1 s snaps)) = mset (map ?t snaps) - {#?t s#}"
    using assms(2) by (simp add: image_mset_Diff)
  then have "pins (reg_live (w_registry ?w')) = mset (map ?t (remove1 s snaps))"
    using d P(4) by (simp add: snaps_ok_def drop_snapshot_def release_def)
  ultimately have "snaps_ok ?w' P (remove1 s snaps)" using d by (simp add: snaps_ok_def drop_snapshot_def release_def)
  moreover have "pages_ok ?w' P" "published ?w' P"
    using P(3,5) by (simp_all add: drop_snapshot_def release_def pages_ok_def published_def parked_def)
  ultimately show ?thesis unfolding db_inv_def using P(1,2) by (auto simp: drop_snapshot_def)
qed

lemma same_advanced: "mem_pages.same p q \<Longrightarrow> advanced p q"
  by (rule later_advanced(1), rule mem_pages.same_later)

lemma snap_get_ok:
  assumes "db_inv w h f snaps" "s \<in> set snaps"
  shows "\<exists>N. \<forall>n \<ge> N. \<exists>w'. snap_get mem_ops n (fst s) key w = (Inr (snd s key), w') \<and> db_inv w' h f snaps"
proof -
  from assms obtain root h' Q where r: "pager_inv (backend (w_pager w)) (w_pager w)" "snap_root (fst s) = Some root"
    "holds (stored (w_pager w)) h' root (snd s) Q" unfolding db_inv_def snaps_ok_def readable_def by blast
  from mem_pages.holds_lookup [OF r(1) r(3) [unfolded stored_def], of key] obtain p' where l:
    "tree_lookup (pager_ops mem_ops) (Suc h') root key (w_pager w) = (Inr (snd s key), p')" "mem_pages.same (w_pager w) p'" by blast
  have "snap_get mem_ops n (fst s) key w = (Inr (snd s key), w\<lparr> w_pager := p' \<rparr>)" if "Suc h' \<le> n" for n
    using tree_lookup_budget [OF l(1) _ that] by (simp add: snap_get_def r(2) on_store_def st_zoom_def)
  moreover have "db_inv (w\<lparr> w_pager := p' \<rparr>) h f snaps"
    using batch_idle [OF assms(1) same_advanced [OF l(2)], of "[]"] by simp
  ultimately show ?thesis by blast
qed

section \<open>Creating a database\<close>

lemma create_fresh:
  assumes "create (pager_ops ops) p = (Inr root, p')" "free_set p = []" "free_loaded p"
  shows "free_set p' = []" "page_count (meta p') = page_count (meta p) + 1"
  using assms by (auto simp: create_def write_node_def on_pager_def pager_ops_def alloc_def ensure_free_loaded_def write_page_def st_bind_def
      Let_def split: sum.splits prod.splits)

lemma db_create_ok:
  "\<exists>w. db_create mem_ops [] = Inr w \<and> db_inv w 0 Map.empty [] \<and> reg_txn (w_registry w) = 1 \<and> 1000 \<le> room (w_pager w)"
proof -
  define p0 where "p0 = new_pager DEFAULT_CACHE_BYTES meta_initial 0 True initial_image"
  have b0: "backend p0 = initial_image" by (simp add: p0_def new_pager_def)
  have p0: "pager_inv (backend p0) p0" "committed (backend p0) p0 meta_initial" "used p0 = {}" "room p0 = PAGE_LIMIT - 2" "trunks p0 = []"
    using fresh_pager [of DEFAULT_CACHE_BYTES initial_image]
    by (simp_all add: b0) (auto simp: p0_def new_pager_def used_def data_pages_def meta_initial_def room_def word_le_nat_alt word_less_nat_alt)
  have "0 < room p0" by (simp add: p0(4) PAGE_LIMIT_def)
  from mem_pages.create_holds [OF p0(1) this] obtain root p1 where c: "create (pager_ops mem_ops) p0 = (Inr root, p1)" "later p0 p1"
    "holds (stored p1) 0 root Map.empty {root}" "used p1 = {root}" unfolding stored_def p0(3) by auto
  note adv = later_advanced(1) [OF c(2)]
  have r0: "root \<noteq> 0"
  proof -
    have "root \<in> data_pages p1" using c(4) by (auto simp: used_def)
    then show ?thesis using zero_not_data(1) [of p1] by metis
  qed
  have t1: "trunks p1 = []" "txn_id (meta p1) = 0" using advanced_grown(5) [OF adv] advanced_txn [OF adv] p0(5)
    by (simp_all add: p0_def new_pager_def meta_initial_def)
  have com1: "committed (backend p1) p1 meta_initial" by (rule advanced_committed [OF adv p0(2)])
  define p2 where "p2 = set_catalog_root (Some root) p1"
  have inv1: "pager_inv (backend p1) p1" using advanced_ok [OF adv] by simp
  note s = set_root_ok [OF inv1 com1 r0, folded p2_def]
  have st2: "stored p2 = stored p1" unfolding p2_def by (rule set_root_ok(5) [OF inv1 com1 r0])
  have "unat (txn_id (meta p2)) + 2 < 2 ^ 64" by (simp add: s(7) t1(2))
  from commit_keeps [OF s(1,2) [folded s(6)] this] obtain p3 where k: "commit mem_ops p2 = (Inr (), p3)"
    "pager_inv (backend p3) p3" "committed (backend p3) p3 (meta p3)" "catalog_root (meta p3) = Some root" "txn_id (meta p3) = 1"
    "committed_txn p3 = txn_id (meta p3)" "dirty_ids p3 = {}" "page_count (meta p3) = page_count (meta p2)"
    "used p2 - set (trunks p2) \<subseteq> used p3 - set (trunks p3)"
    "\<forall>j \<in> used p2 - set (trunks p2). \<forall>n. stored p2 j = Some n \<longrightarrow> stored p3 j = Some n"
    unfolding s(7) t1(2) by (auto simp: p2_def set_catalog_root_def)
  have u2: "used p2 - set (trunks p2) = {root}" using s(3,4) c(4) t1(1) by simp
  have tr: "holds (stored p3) 0 root Map.empty {root}"
  proof (rule holds_cong_on [OF c(3)])
    fix j assume "j \<in> {root}"
    then show "stored p3 j = stored p1 j" using k(10) u2 st2 holds_dom [OF c(3)] by force
  qed
  define w where "w = spawn p3 root 1"
  have run: "db_create mem_ops [] = Inr w"
    using c(1) k(1,5,6) by (simp add: db_create_def create_mem p0_def [symmetric] seed_root_def p2_def [symmetric] w_def)
  have w: "w_pager w = p3" "w_root w = root" "parked w = []" "w_registry w = registry_new (Some root) 1"
    by (simp_all add: w_def spawn_def writer_new_def parked_def)
  have d: "root \<in> data_pages p3" "unat (page_count (meta p3)) \<le> PAGE_LIMIT" using k(2,9) u2 by (auto simp: used_def pager_inv_def)
  have "db_inv w 0 Map.empty []"
    unfolding db_inv_def published_def snaps_ok_def pages_ok_def w
    using k tr u2 d by (intro conjI exI [of _ "{root}"]) (auto simp: registry_new_def live_wf_def data_pages_def)
  moreover have "1000 \<le> room p3"
  proof -
    have "page_count (meta p1) = 3"
      using create_fresh(2) [OF c(1)] by (simp add: p0_def new_pager_def meta_initial_def)
    then show ?thesis using k(8) by (simp add: p2_def set_catalog_root_def room_def PAGE_LIMIT_def)
  qed
  ultimately show ?thesis using run w by (auto simp: registry_new_def)
qed

section \<open>Reachable databases\<close>

text \<open>A database in use: it is created, batches of jobs are processed, readers pin the latest version, read
  and release. The map is what the accepted jobs have built; every snapshot carries the map of the
  moment it was taken. A batch is admitted while there is room for its pages and its version number.\<close>

definition tree_height :: "bytes Writer \<Rightarrow> nat \<Rightarrow> bool" where
  "tree_height w h \<longleftrightarrow> (\<exists>f P. holds (stored (w_pager w)) h (w_root w) f P)"

definition admitted :: "bytes Writer \<Rightarrow> nat \<Rightarrow> Op list list \<Rightarrow> bool" where
  "admitted w n jobs \<longleftrightarrow> (\<exists>h. tree_height w h \<and> ops_cost h (total_ops jobs) \<le> room (w_pager w) \<and> h + total_ops jobs < n)
     \<and> unat (reg_txn (w_registry w)) + 2 < 2 ^ 64"

inductive db_reach :: "bytes Writer \<Rightarrow> (bytes \<rightharpoonup> bytes) \<Rightarrow> pinned \<Rightarrow> bool" where
  db_fresh: "db_create mem_ops [] = Inr w \<Longrightarrow> db_reach w Map.empty []"
| db_batch: "db_reach w f snaps \<Longrightarrow> admitted w n jobs \<Longrightarrow>
    process_batch mem_ops (map (ops_job mem_ops n) jobs) w = ((rs, res), w') \<Longrightarrow> db_reach w' (batch_effect jobs rs f) snaps"
| db_pin: "db_reach w f snaps \<Longrightarrow> snapshot w = (sn, w') \<Longrightarrow> db_reach w' f ((sn, f) # snaps)"
| db_read: "db_reach w f snaps \<Longrightarrow> s \<in> set snaps \<Longrightarrow> snap_get mem_ops n (fst s) key w = (Inr v, w') \<Longrightarrow> db_reach w' f snaps"
| db_drop: "db_reach w f snaps \<Longrightarrow> s \<in> set snaps \<Longrightarrow> db_reach (drop_snapshot (fst s) w) f (remove1 s snaps)"

lemma batch_effect_map_sum: "batch_effect jobs (map (map_sum e g) outs) f = batch_effect jobs outs f"
  by (induction jobs outs f rule: batch_effect.induct) auto

lemma admitted_ok:
  assumes "db_inv w h f snaps" "admitted w n jobs"
  shows "\<exists>outs w' h'. process_batch mem_ops (map (ops_job mem_ops n) jobs) w =
      ((map (map_sum id (\<lambda>out. (reg_txn (w_registry w'), out))) outs, Inr ()), w')
    \<and> list_all2 answered jobs outs \<and> db_inv w' h' (batch_effect jobs outs f) snaps
    \<and> reg_txn (w_registry w') = (if w_root w' = w_root w then reg_txn (w_registry w) else reg_txn (w_registry w) + 1)
    \<and> (w_root w' = w_root w \<longrightarrow> batch_effect jobs outs f = f)"
proof -
  obtain h' f' P' where "holds (stored (w_pager w)) h' (w_root w) f' P'" "ops_cost h' (total_ops jobs) \<le> room (w_pager w)"
    "h' + total_ops jobs < n" and t: "unat (reg_txn (w_registry w)) + 2 < 2 ^ 64"
    using assms(2) unfolding admitted_def tree_height_def by blast
  moreover obtain P where "holds (stored (w_pager w)) h (w_root w) f P" using assms(1) unfolding db_inv_def by blast
  ultimately have "ops_cost h (total_ops jobs) \<le> room (w_pager w)" "h + total_ops jobs < n" using holds_unique(1) by blast+
  from process_batch_ok [OF assms(1) this t] show ?thesis by blast
qed

lemma snap_get_inv:
  assumes "db_inv w h f snaps" "snap_get mem_ops n (fst s) key w = (Inr v, w')" "s \<in> set snaps"
  shows "db_inv w' h f snaps"
proof -
  from snap_get_ok [OF assms(1,3), of key] obtain N w2 where N: "snap_get mem_ops (max N n) (fst s) key w = (Inr (snd s key), w2)"
    "db_inv w2 h f snaps" by (meson max.cobounded1)
  obtain root where r: "snap_root (fst s) = Some root" using assms(1,3) unfolding db_inv_def snaps_ok_def readable_def by blast
  obtain q where q: "tree_lookup (pager_ops mem_ops) n root key (w_pager w) = (q, w_pager w')" "q \<noteq> Inl None" "w' = w\<lparr> w_pager := w_pager w' \<rparr>"
    using assms(2) by (auto simp: snap_get_def r on_store_def st_zoom_def split: prod.splits)
  have "tree_lookup (pager_ops mem_ops) (max N n) root key (w_pager w) = (q, w_pager w')"
    by (rule tree_lookup_budget [OF q(1,2)]) simp
  then have "w2 = w\<lparr> w_pager := w_pager w' \<rparr>"
    using N(1) by (auto simp: snap_get_def r on_store_def st_zoom_def st_map_err_def)
  then show ?thesis using N(2) q(3) by simp
qed

lemma reach_inv: "db_reach w f snaps \<Longrightarrow> \<exists>h. db_inv w h f snaps"
proof (induction rule: db_reach.induct)
  case (db_fresh w)
  then show ?case using db_create_ok by auto
next
  case (db_batch w f snaps n jobs rs res w')
  then obtain h where "db_inv w h f snaps" by blast
  from admitted_ok [OF this db_batch(2)] db_batch(3) show ?case by (auto simp: batch_effect_map_sum)
next
  case (db_pin w f snaps sn w')
  then show ?case using snapshot_ok by blast
next
  case (db_read w f snaps s n key v w')
  then show ?case using snap_get_inv by blast
next
  case (db_drop w f snaps s)
  then show ?case using drop_snapshot_ok by blast
qed

section \<open>Properties\<close>

lemma acknowledged: "Inr (t, out) \<in> set (map (map_sum id (\<lambda>x. (u, x))) xs) \<Longrightarrow> t = u"
proof (induction xs)
  case (Cons x xs)
  then show ?case by (cases x) auto
qed simp

text \<open>C1: Group commit refines a map. In every reachable state, a batch the store has room for is processed
  without stopping the writer: each job is answered, it is refused exactly for an oversized entry or a
  node that outgrew its page, the published tree holds the map with the accepted jobs applied in
  order and the refused ones left out, every acknowledgement carries the version just published, and
  when no new version is published the map has not changed.\<close>

theorem group_commit_refines:
  assumes "db_reach w f snaps" "admitted w n jobs"
  shows "\<exists>rs w' h P. process_batch mem_ops (map (ops_job mem_ops n) jobs) w = ((rs, Inr ()), w')
    \<and> list_all2 answered jobs rs \<and> holds (stored (w_pager w')) h (w_root w') (batch_effect jobs rs f) P
    \<and> (\<forall>t. Inr (t, ()) \<in> set rs \<longrightarrow> t = reg_txn (w_registry w'))
    \<and> reg_txn (w_registry w') = (if w_root w' = w_root w then reg_txn (w_registry w) else reg_txn (w_registry w) + 1)
    \<and> (w_root w' = w_root w \<longrightarrow> batch_effect jobs rs f = f)"
proof -
  obtain h where "db_inv w h f snaps" using reach_inv [OF assms(1)] by blast
  from admitted_ok [OF this assms(2)] obtain outs w' h' where a: "process_batch mem_ops (map (ops_job mem_ops n) jobs) w =
      ((map (map_sum id (\<lambda>out. (reg_txn (w_registry w'), out))) outs, Inr ()), w')"
    "list_all2 answered jobs outs" "db_inv w' h' (batch_effect jobs outs f) snaps"
    "reg_txn (w_registry w') = (if w_root w' = w_root w then reg_txn (w_registry w) else reg_txn (w_registry w) + 1)"
    "w_root w' = w_root w \<longrightarrow> batch_effect jobs outs f = f" by blast
  let ?g = "map_sum id (\<lambda>out. (reg_txn (w_registry w'), out))"
  have "answered os (?g out) = answered os out" for os and out :: outcome by (cases out) (simp_all add: answered_def)
  then have "list_all2 answered jobs (map ?g outs)" using a(2) by (simp add: list_all2_map2)
  moreover obtain P where "holds (stored (w_pager w')) h' (w_root w') (batch_effect jobs outs f) P" using a(3) unfolding db_inv_def by blast
  moreover have "t = reg_txn (w_registry w')" if "Inr (t, ()) \<in> set (map ?g outs)" for t using acknowledged [OF that] .
  ultimately show ?thesis using a(1,4,5)
    by (intro exI [of _ "map ?g outs"] exI [of _ w'] exI [of _ h'] exI [of _ P]) (simp add: batch_effect_map_sum)
qed

lemma demo_db:
  "\<exists>w. db_create mem_ops [] = Inr w \<and> db_reach w Map.empty [] \<and> admitted w 9 [[Put [1] [2]], [Delete [7]]]
    \<and> (\<forall>sn w'. snapshot w = (sn, w') \<longrightarrow> admitted w' 9 [[Put [1] [2]], [Delete [7]]])"
proof -
  from db_create_ok obtain w where w: "db_create mem_ops [] = Inr w" "db_inv w 0 Map.empty []" "reg_txn (w_registry w) = 1"
    "1000 \<le> room (w_pager w)" by blast
  have "tree_height w 0" using w(2) unfolding db_inv_def tree_height_def by blast
  then have a: "admitted w 9 [[Put [1] [2]], [Delete [7]]]"
    using w(3,4) by (auto simp: admitted_def ops_cost_def intro!: exI [of _ 0])
  then have "admitted w' 9 [[Put [1] [2]], [Delete [7]]]" if "snapshot w = (sn, w')" for sn w'
  proof -
    have "w_pager w' = w_pager w" "w_root w' = w_root w" "reg_txn (w_registry w') = reg_txn (w_registry w)"
      using that by (auto simp: snapshot_def acquire_def)
    then show ?thesis using a by (simp add: admitted_def tree_height_def)
  qed
  then show ?thesis using w(1) a db_fresh by blast
qed

theorem group_commit_refines_witness:
  "\<exists>w rs w' h P. db_create mem_ops [] = Inr w
    \<and> process_batch mem_ops (map (ops_job mem_ops 9) [[Put [1] [2]], [Delete [7]]]) w = ((rs, Inr ()), w')
    \<and> length rs = 2 \<and> holds (stored (w_pager w')) h (w_root w') (batch_effect [[Put [1] [2]], [Delete [7]]] rs Map.empty) P"
proof -
  from demo_db obtain w where w: "db_create mem_ops [] = Inr w" "db_reach w Map.empty []" "admitted w 9 [[Put [1] [2]], [Delete [7]]]" by blast
  from group_commit_refines [OF w(2,3)] obtain rs w' h P where
    "process_batch mem_ops (map (ops_job mem_ops 9) [[Put [1] [2]], [Delete [7]]]) w = ((rs, Inr ()), w')"
    "list_all2 answered [[Put [1] [2]], [Delete [7]]] rs"
    "holds (stored (w_pager w')) h (w_root w') (batch_effect [[Put [1] [2]], [Delete [7]]] rs Map.empty) P" by blast
  moreover from this(2) have "length rs = 2" by (auto dest: list_all2_lengthD)
  ultimately show ?thesis using w(1) by blast
qed

text \<open>C3: Snapshot isolation. Whatever batches are committed and however pages are reclaimed after a snapshot
  was taken, while it lives a lookup through it returns the value its key had at that moment.\<close>

theorem snapshot_isolation:
  assumes "db_reach w f snaps" "(sn, g) \<in> set snaps"
  shows "\<exists>N. \<forall>n \<ge> N. \<exists>w'. snap_get mem_ops n sn key w = (Inr (g key), w')"
proof -
  obtain h where "db_inv w h f snaps" using reach_inv [OF assms(1)] by blast
  from snap_get_ok [OF this assms(2), of key, unfolded fst_conv snd_conv] show ?thesis by blast
qed

theorem snapshot_isolation_witness:
  "\<exists>w sn w1 rs w2 N. db_create mem_ops [] = Inr w \<and> snapshot w = (sn, w1)
    \<and> process_batch mem_ops (map (ops_job mem_ops 9) [[Put [1] [2]], [Delete [7]]]) w1 = ((rs, Inr ()), w2)
    \<and> (\<forall>n \<ge> N. \<exists>w3. snap_get mem_ops n sn [1] w2 = (Inr None, w3))"
proof -
  from demo_db obtain w where w: "db_create mem_ops [] = Inr w" "db_reach w Map.empty []"
    "\<And>sn w'. snapshot w = (sn, w') \<Longrightarrow> admitted w' 9 [[Put [1] [2]], [Delete [7]]]" by blast
  obtain sn w1 where s: "snapshot w = (sn, w1)" by fastforce
  have r1: "db_reach w1 Map.empty [(sn, Map.empty)]" by (rule db_pin [OF w(2) s])
  obtain h where "db_inv w1 h Map.empty [(sn, Map.empty)]" using reach_inv [OF r1] by blast
  from admitted_ok [OF this w(3) [OF s]] obtain rs w2 where
    b: "process_batch mem_ops (map (ops_job mem_ops 9) [[Put [1] [2]], [Delete [7]]]) w1 = ((rs, Inr ()), w2)" by blast
  from snapshot_isolation [OF db_batch [OF r1 w(3) [OF s] b], of sn Map.empty "[1]"] show ?thesis using w(1) s b by auto
qed

text \<open>C4: Durability. The image under a reachable database, opened again, is a database at the same version
  whose readers see exactly the map the accepted jobs built.\<close>

theorem reopen_durable:
  assumes "db_reach w f snaps"
  shows "\<exists>w2 h. db_open mem_ops (backend (w_pager w)) = Inr w2 \<and> w_root w2 = w_root w
    \<and> reg_txn (w_registry w2) = reg_txn (w_registry w) \<and> serves w2 h f"
proof -
  let ?p = "w_pager w"
  obtain h where "db_inv w h f snaps" using reach_inv [OF assms] by blast
  then obtain P where P: "pager_inv (backend ?p) ?p" "holds (stored ?p) h (w_root w) f P" and pub: "published w P"
    unfolding db_inv_def by blast
  have reg: "reg_txn (w_registry w) = txn_id (meta ?p)" "P \<inter> dirty_ids ?p = {}" using pub unfolding published_def by blast+
  obtain cm where cm: "committed (backend ?p) ?p cm" "catalog_root cm = Some (w_root w)" "unat (page_count cm) \<le> PAGE_LIMIT"
    "\<forall>j \<in> P. FIRST_DATA_PAGE \<le> j \<and> j < page_count cm" using pub unfolding published_def by blast
  have c: "recover (backend ?p) = Inr (cm, active_slot ?p)" "2 * PAGE_SIZE \<le> length (backend ?p)" "length (backend ?p) < 2 ^ 64"
    "txn_id cm = txn_id (meta ?p)" using cm(1) unfolding committed_def by blast+
  have coh: "coherent (backend ?p) (cache ?p)" using P(1) by (simp add: pager_inv_def)
  have "on_disk (backend ?p) j fr" if "j \<in> P" "page_view (backend ?p) (cache ?p) j = Some fr" for j fr
    by (rule clean_on_disk [OF coh that(2)]) (use that(1) reg(2) in \<open>auto simp: dirty_ids_def\<close>)
  from reopen_image [OF P c(1-3) cm(2,3) bspec [OF cm(4)] this] obtain w2 where
    "db_open mem_ops (backend ?p) = Inr w2" "w_root w2 = w_root w" "reg_txn (w_registry w2) = txn_id cm" "serves w2 h f" by blast
  then show ?thesis using c(4) reg(1) by (intro exI [of _ w2] exI [of _ h]) simp
qed

theorem reopen_durable_witness:
  "\<exists>w w2 h. db_create mem_ops [] = Inr w \<and> db_open mem_ops (backend (w_pager w)) = Inr w2 \<and> serves w2 h Map.empty"
  using demo_db reopen_durable by blast

text \<open>C2: Crash atomicity of a batch. Let a batch be applied to a reachable database and its commit run on a
  store that fails at an arbitrary operation. The image left behind opens to a database whose readers
  see either the map before the batch or the map with all its accepted jobs, and the latter whenever
  the commit reported success.\<close>

theorem crash_atomic:
  assumes "db_reach w f snaps" "admitted w n jobs"
    and "apply_batch (map (ops_job mem_ops n) jobs) [] [] w = (Inr (fr, outs), w1)"
    and "inner b = backend (w_pager w)" "commit_batch (fault_ops mem_ops) fr (writer_on b w1) = (r, w2)"
  shows "\<exists>w3 h. db_open mem_ops (inner (backend (w_pager w2))) = Inr w3
    \<and> (isl r \<and> serves w3 h f \<or> serves w3 h (batch_effect jobs outs f))"
proof -
  obtain h where inv: "db_inv w h f snaps" using reach_inv [OF assms(1)] by blast
  then obtain P where P: "pager_inv (backend (w_pager w)) (w_pager w)" "holds (stored (w_pager w)) h (w_root w) f P" unfolding db_inv_def by blast
  obtain h0 f0 P0 where "holds (stored (w_pager w)) h0 (w_root w) f0 P0" "ops_cost h0 (total_ops jobs) \<le> room (w_pager w)"
    "h0 + total_ops jobs < n" using assms(2) unfolding admitted_def tree_height_def by blast
  then have b: "ops_cost h (total_ops jobs) \<le> room (w_pager w)" "h + total_ops jobs < n" using holds_unique(1) [OF P(2)] by auto
  from apply_batch_ok [OF P b, of "[]" "[]"] obtain p' root' orph h' P' where a:
    "w1 = w\<lparr> w_pager := p', w_root := root', w_orphaned := w_orphaned w @ orph \<rparr>"
    "advanced (w_pager w) p'" "holds (stored p') h' root' (batch_effect jobs outs f) P'" "accounted (w_pager w) p' P P' fr orph"
    using assms(3) by auto
  note bt = batch_tidy [OF inv a(2) P(2) a(3,4), folded a(1)]
  from bt(5) obtain cm where cm: "tidy w1 P' fr cm" "catalog_root cm = Some (w_root w)" "unat (page_count cm) \<le> PAGE_LIMIT"
    "\<And>j. j \<in> P \<Longrightarrow> FIRST_DATA_PAGE \<le> j \<and> j < page_count cm" by blast
  have w1: "w_pager w1 = p'" "w_root w1 = root'" by (simp_all add: a(1))
  have "inner b = backend (w_pager w1)" using assms(4) advanced_grown(1) [OF a(2)] w1 by simp
  from crash_commit [OF cm(1) _ _ bt(3) _ cm(2-4) this assms(5)] show ?thesis
    using a(3) advanced_holds [OF a(2) P(2)] bt(4) w1 by blast
qed

theorem crash_atomic_witness:
  "\<exists>w fr outs w1 r w2 w3 h. db_create mem_ops [] = Inr w
    \<and> apply_batch (map (ops_job mem_ops 9) [[Put [1] [2]], [Delete [7]]]) [] [] w = (Inr (fr, outs), w1)
    \<and> commit_batch (fault_ops mem_ops) fr (writer_on (fault_arm SyncPoint 1 (fault_new (backend (w_pager w)))) w1) = (r, w2)
    \<and> db_open mem_ops (inner (backend (w_pager w2))) = Inr w3
    \<and> (serves w3 h Map.empty \<or> serves w3 h (batch_effect [[Put [1] [2]], [Delete [7]]] outs Map.empty))"
proof -
  from demo_db obtain w where w: "db_create mem_ops [] = Inr w" "db_reach w Map.empty []" "admitted w 9 [[Put [1] [2]], [Delete [7]]]" by blast
  from db_create_ok w(1) obtain P where P: "pager_inv (backend (w_pager w)) (w_pager w)" "holds (stored (w_pager w)) 0 (w_root w) Map.empty P"
    "1000 \<le> room (w_pager w)" unfolding db_inv_def by auto
  have c: "ops_cost 0 (total_ops [[Put [1] [2]], [Delete [7]]]) \<le> room (w_pager w)" "0 + total_ops [[Put [1] [2]], [Delete [7]]] < 9"
    using P(3) by (simp_all add: ops_cost_def)
  from apply_batch_ok [OF P(1,2) c, of "[]" "[]"] obtain fr outs w1 where
    a: "apply_batch (map (ops_job mem_ops 9) [[Put [1] [2]], [Delete [7]]]) [] [] w = (Inr (fr, outs), w1)" by auto
  let ?b = "fault_arm SyncPoint 1 (fault_new (backend (w_pager w)))"
  have b: "inner ?b = backend (w_pager w)" by (simp add: fault_arm_def fault_new_def)
  obtain r w2 where r: "commit_batch (fault_ops mem_ops) fr (writer_on ?b w1) = (r, w2)" by fastforce
  from crash_atomic [OF w(2,3) a b r] obtain w3 h where "db_open mem_ops (inner (backend (w_pager w2))) = Inr w3"
    "serves w3 h Map.empty \<or> serves w3 h (batch_effect [[Put [1] [2]], [Delete [7]]] outs Map.empty)" by blast
  then show ?thesis using w(1) a r by blast
qed

text \<open>Replies, for jobs of any kind.\<close>

lemma apply_batch_length:
  "apply_batch batch fr outs w = (r, w') \<Longrightarrow>
     (case r of Inl (e, k) \<Rightarrow> length outs < k \<and> k \<le> length outs + length batch | Inr (fr', outs') \<Rightarrow> length outs' = length outs + length batch)"
proof (induction batch arbitrary: fr outs w)
  case (Cons job batch)
  obtain q c where q: "job \<lparr> ctx_pager = begin_alloc_recording (w_pager w), ctx_root = w_root w, ctx_freed = fr \<rparr> = (q, c)" by fastforce
  obtain log p where l: "take_alloc_recording (ctx_pager c) = (log, p)" by fastforce
  show ?case using Cons.prems Cons.IH q l by (fastforce split: sum.splits if_splits)
qed auto

text \<open>C28: Every request of a batch is answered exactly once, whatever its jobs do and however the store fails.
  When the batch fails, no request is acknowledged; an acknowledgement carries the version the pager has
  committed. The writer answers the requests of all batches, those after a failed one included.\<close>

theorem writer_replies:
  "(case process_batch ops batch w of ((rs, res), w') \<Rightarrow> length rs = length batch
     \<and> (isl res \<longrightarrow> (\<forall>r \<in> set rs. isl r)) \<and> (\<forall>t out. Inr (t, out) \<in> set rs \<longrightarrow> t = committed_txn (w_pager w')))
   \<and> map length (fst (writer_run ops bs v)) = map length bs"
proof (intro conjI)
  have one: "case process_batch ops batch w of ((rs, res), w') \<Rightarrow> length rs = length batch
     \<and> (isl res \<longrightarrow> (\<forall>r \<in> set rs. isl r)) \<and> (\<forall>t out. Inr (t, out) \<in> set rs \<longrightarrow> t = committed_txn (w_pager w'))" for batch w
  proof -
    obtain r w1 where a: "apply_batch batch [] [] w = (r, w1)" by fastforce
    note len = apply_batch_length [OF a]
    show ?thesis
    proof (cases r)
      case (Inl x)
      then show ?thesis using a len by (cases x) (auto simp: process_batch_def)
    next
      case (Inr x)
      obtain fr outs where x: "x = (fr, outs)" by fastforce
      obtain q w2 where c: "commit_batch ops fr w1 = (q, w2)" by fastforce
      have t: "q = Inr t \<Longrightarrow> committed_txn (w_pager w2) = t" for t
        using c by (auto simp: commit_batch_def)
      show ?thesis using a len Inr x c t acknowledged by (cases q) (auto simp: process_batch_def simp del: set_map)
    qed
  qed
  show "case process_batch ops batch w of ((rs, res), w') \<Rightarrow> length rs = length batch
     \<and> (isl res \<longrightarrow> (\<forall>r \<in> set rs. isl r)) \<and> (\<forall>t out. Inr (t, out) \<in> set rs \<longrightarrow> t = committed_txn (w_pager w'))" by (rule one)
  show "map length (fst (writer_run ops bs v)) = map length bs"
  proof (induction bs arbitrary: v)
    case (Cons b bs)
    obtain rs res v' where p: "process_batch ops b v = ((rs, res), v')" by (metis prod.exhaust)
    then have "length rs = length b" using one [of b v] by simp
    then show ?case using p Cons.IH [of v'] by (cases res) (auto split: prod.splits)
  qed simp
qed

theorem writer_replies_witness:
  "case process_batch mem_ops [\<lambda>c. (Inl None, c), ops_job mem_ops 9 []] (writer_new demo_empty (registry_new None 0) demo_root) of
     ((rs, res), w') \<Rightarrow> isl res \<and> length rs = 2 \<and> (\<forall>r \<in> set rs. isl r)"
proof -
  have "isl (snd (fst (process_batch mem_ops [\<lambda>c. (Inl None, c), ops_job mem_ops 9 []] (writer_new demo_empty (registry_new None 0) demo_root))))"
    by (simp add: process_batch_def split: prod.splits)
  then show ?thesis
    using writer_replies [where ops = mem_ops and batch = "[\<lambda>c. (Inl None, c), ops_job mem_ops 9 []]"
        and w = "writer_new demo_empty (registry_new None 0) demo_root" and bs = "[]" and v = "writer_new demo_empty (registry_new None 0) demo_root"]
    by (auto split: prod.splits)
qed

end
