(* ===== verification/Ast.thy ===== *)
theory Ast
  imports Value
begin

text \<open>
  The query AST of \<open>crates/proto/src/ast.rs\<close> and the logical-plan IR of \<open>crates/proto/src/ir.rs\<close>:
  expressions, pipeline stages, the clause surface, requests, and the operator tree both surfaces
  lower into. Names and patterns are UTF-8 byte strings.
\<close>

section \<open>Expressions\<close>

datatype CmpOp = Eq | Ne | Lt | Lte | Gt | Gte

fun cmp_name :: "CmpOp \<Rightarrow> string" where
  "cmp_name Eq = ''eq''"
| "cmp_name Ne = ''ne''"
| "cmp_name Lt = ''lt''"
| "cmp_name Lte = ''lte''"
| "cmp_name Gt = ''gt''"
| "cmp_name Gte = ''gte''"

datatype ArithOp = Add | Sub | Mul | Div | Mod

fun arith_name :: "ArithOp \<Rightarrow> string" where
  "arith_name Add = ''add''"
| "arith_name Sub = ''sub''"
| "arith_name Mul = ''mul''"
| "arith_name Div = ''div''"
| "arith_name Mod = ''mod''"

datatype AggFunc = AggCount | AggSum | AggMin | AggMax | AggAvg

fun agg_name :: "AggFunc \<Rightarrow> string" where
  "agg_name AggCount = ''count''"
| "agg_name AggSum = ''sum''"
| "agg_name AggMin = ''min''"
| "agg_name AggMax = ''max''"
| "agg_name AggAvg = ''avg''"

datatype Expr =
  EColumn "bytes option" bytes
| ELiteral "value"
| ECmp CmpOp Expr Expr
| EAnd "Expr list"
| EOr "Expr list"
| ENot Expr
| EArith ArithOp Expr Expr
| EIsNull Expr
| EIsNotNull Expr
| EBetween Expr Expr Expr
| EInList Expr "Expr list"
| ELike Expr bytes bool
| ECoalesce "Expr list"
| ENullIf Expr Expr
| ECast Expr TypeKind
| EAgg AggFunc Expr

section \<open>Stages, clauses and requests\<close>

record TableRef =
  tr_table :: bytes
  tr_alias :: "bytes option"

datatype JoinKind = InnerJoin | LeftJoin | CrossJoin

fun join_name :: "JoinKind \<Rightarrow> string" where
  "join_name InnerJoin = ''inner''"
| "join_name LeftJoin = ''left''"
| "join_name CrossJoin = ''cross''"

record JoinSpec =
  js_kind :: JoinKind
  js_table :: TableRef
  js_on :: "Expr option"

datatype Dir = Asc | Desc

fun dir_name :: "Dir \<Rightarrow> string" where
  "dir_name Asc = ''asc''"
| "dir_name Desc = ''desc''"

record SortKey =
  sk_expr :: Expr
  sk_dir :: Dir

datatype Projection = PlainItem Expr | AliasedItem bytes Expr

datatype Stage =
  StScan TableRef
| StMatch Expr
| StJoin JoinSpec
| StGroup "Expr list" "(bytes \<times> Expr) list"
| StSort "SortKey list"
| StProject "Projection list"
| StDistinct bool
| StLimit "u64 option" u64
| StCursor bytes

record ClauseSelect =
  cl_from :: "TableRef option"
  cl_joins :: "JoinSpec list"
  cl_where :: "Expr option"
  cl_group_by :: "Expr list"
  cl_having :: "Expr option"
  cl_order_by :: "SortKey list"
  cl_select :: "Projection list option"
  cl_distinct :: bool
  cl_limit :: "u64 option"
  cl_offset :: "u64 option"
  cl_cursor :: "bytes option"

datatype Select = Pipeline "Stage list" | Clause ClauseSelect

datatype Selector = SelWhere Expr | SelAll

record Insert =
  ins_table :: bytes
  ins_rows :: "(bytes \<times> value) list list"

record Update =
  upd_table :: bytes
  upd_selector :: "Selector option"
  upd_set :: "(bytes \<times> Expr) list"
  upd_unconditional :: bool

record Delete =
  del_table :: bytes
  del_selector :: "Selector option"

datatype Request =
  RqSelect Select
| RqInsert Insert
| RqUpdate Update
| RqDelete Delete
| RqTransaction "Request list"
| RqExplain Select

section \<open>The logical plan\<close>

datatype Plan =
  PScan bytes "bytes option"
| PIndexScan bytes "bytes option" bytes "value list"
| PPkLookup bytes "bytes option" "value list"
| PFilter Plan Expr
| PJoin JoinKind Plan Plan "Expr option"
| PAggregate Plan "Expr list" "(bytes \<times> Expr) list"
| PProject Plan "Projection list"
| PDistinct Plan
| PSort Plan "SortKey list"
| PLimit Plan "u64 option" u64
| PCursor Plan bytes

end
