(* ===== verification/Lower.thy ===== *)
theory Lower
  imports Ast
begin

text \<open>
  Lowering of both query surfaces into the logical plan (\<open>crates/query/src/lower.rs\<close>): the fold of a
  pipeline's stages and the desugaring of the clause form into a fixed-order pipeline.
\<close>

datatype LowerError =
  EmptyPipeline | MissingSource string | MisplacedScan | NotAnAggregate bytes | NestedAggregate
| HavingWithoutGroup | DuplicateAggName bytes | MissingFrom

definition lower_error_category :: "LowerError \<Rightarrow> ErrorCategory" where
  "lower_error_category e = Validation"

fun stage_name :: "Stage \<Rightarrow> string" where
  "stage_name (StScan _) = ''scan''"
| "stage_name (StMatch _) = ''match''"
| "stage_name (StJoin _) = ''join''"
| "stage_name (StGroup _ _) = ''group''"
| "stage_name (StSort _) = ''sort''"
| "stage_name (StProject _) = ''project''"
| "stage_name (StDistinct _) = ''distinct''"
| "stage_name (StLimit _ _) = ''limit''"
| "stage_name (StCursor _) = ''cursor''"

definition is_agg :: "Expr \<Rightarrow> bool" where
  "is_agg e = (case e of EAgg _ _ \<Rightarrow> True | _ \<Rightarrow> False)"

fun lower_stage :: "Plan \<Rightarrow> Stage \<Rightarrow> LowerError + Plan" where
  "lower_stage plan (StScan _) = Inl MisplacedScan"
| "lower_stage plan (StMatch pred) = Inr (PFilter plan pred)"
| "lower_stage plan (StJoin join) =
     Inr (PJoin (js_kind join) plan (PScan (tr_table (js_table join)) (tr_alias (js_table join))) (js_on join))"
| "lower_stage plan (StGroup by aggs) =
     and_then (each (\<lambda>(nm, e). ensure (is_agg e) (NotAnAggregate nm)) aggs) (\<lambda>_. Inr (PAggregate plan by aggs))"
| "lower_stage plan (StSort keys) = Inr (PSort plan keys)"
| "lower_stage plan (StProject items) = Inr (PProject plan items)"
| "lower_stage plan (StDistinct d) = Inr (if d then PDistinct plan else plan)"
| "lower_stage plan (StLimit limit offset) = Inr (PLimit plan limit offset)"
| "lower_stage plan (StCursor token) = Inr (PCursor plan token)"

fun lower_stages :: "Plan \<Rightarrow> Stage list \<Rightarrow> LowerError + Plan" where
  "lower_stages plan [] = Inr plan"
| "lower_stages plan (stage # rest) = and_then (lower_stage plan stage) (\<lambda>p. lower_stages p rest)"

definition lower_pipeline :: "Stage list \<Rightarrow> LowerError + Plan" where
  "lower_pipeline stages =
     (case stages of
        [] \<Rightarrow> Inl EmptyPipeline
      | StScan table # rest \<Rightarrow> lower_stages (PScan (tr_table table) (tr_alias table)) rest
      | head # rest \<Rightarrow> Inl (MissingSource (stage_name head)))"

definition agg_default_name :: "AggFunc \<Rightarrow> bytes" where
  "agg_default_name func = str_bytes (agg_name func)"

fun contains_agg :: "Expr \<Rightarrow> bool" where
  "contains_agg (EAgg _ _) = True"
| "contains_agg (EColumn _ _) = False"
| "contains_agg (ELiteral _) = False"
| "contains_agg (ECmp _ lhs rhs) = (contains_agg lhs \<or> contains_agg rhs)"
| "contains_agg (EArith _ lhs rhs) = (contains_agg lhs \<or> contains_agg rhs)"
| "contains_agg (ENullIf lhs rhs) = (contains_agg lhs \<or> contains_agg rhs)"
| "contains_agg (EAnd items) = list_ex contains_agg items"
| "contains_agg (EOr items) = list_ex contains_agg items"
| "contains_agg (ECoalesce items) = list_ex contains_agg items"
| "contains_agg (ENot inner) = contains_agg inner"
| "contains_agg (EIsNull inner) = contains_agg inner"
| "contains_agg (EIsNotNull inner) = contains_agg inner"
| "contains_agg (EBetween e lo hi) = (contains_agg e \<or> contains_agg lo \<or> contains_agg hi)"
| "contains_agg (EInList e items) = (contains_agg e \<or> list_ex contains_agg items)"
| "contains_agg (ELike e _ _) = contains_agg e"
| "contains_agg (ECast e _) = contains_agg e"

text \<open>The loop over a clause's select list: aggregates become named group outputs that the list then
  refers to by column.\<close>

fun split_select :: "(bytes \<times> Expr) list \<Rightarrow> Projection list \<Rightarrow> Projection list \<Rightarrow>
    LowerError + ((bytes \<times> Expr) list \<times> Projection list)" where
  "split_select aggs out [] = Inr (aggs, out)"
| "split_select aggs out (item # items) =
     (let (alias, e) = (case item of AliasedItem nm e \<Rightarrow> (Some nm, e) | PlainItem e \<Rightarrow> (None, e)) in
      case e of
        EAgg func _ \<Rightarrow>
          (let nm = (case alias of Some a \<Rightarrow> a | None \<Rightarrow> agg_default_name func) in
           if nm \<in> fst ` set aggs then Inl (DuplicateAggName nm)
           else split_select (aggs @ [(nm, e)]) (out @ [PlainItem (EColumn None nm)]) items)
      | _ \<Rightarrow> if contains_agg e then Inl NestedAggregate else split_select aggs (out @ [item]) items)"

definition desugar_clause :: "ClauseSelect \<Rightarrow> LowerError + Stage list" where
  "desugar_clause c =
     (case cl_from c of
        None \<Rightarrow> Inl MissingFrom
      | Some from \<Rightarrow>
          and_then (case cl_select c of None \<Rightarrow> Inr ([], None)
                    | Some items \<Rightarrow> and_then (split_select [] [] items) (\<lambda>(aggs, out). Inr (aggs, Some out))) (\<lambda>(aggs, project).
          let grouped = (cl_group_by c \<noteq> [] \<or> aggs \<noteq> []) in
          if cl_having c \<noteq> None \<and> \<not> grouped then Inl HavingWithoutGroup
          else Inr (StScan from # map StJoin (cl_joins c)
            @ (case cl_where c of Some w \<Rightarrow> [StMatch w] | None \<Rightarrow> [])
            @ (if grouped then [StGroup (cl_group_by c) aggs] else [])
            @ (case cl_having c of Some h \<Rightarrow> [StMatch h] | None \<Rightarrow> [])
            @ (case project of Some items \<Rightarrow> [StProject items] | None \<Rightarrow> [])
            @ (if cl_distinct c then [StDistinct True] else [])
            @ (if cl_order_by c \<noteq> [] then [StSort (cl_order_by c)] else [])
            @ (if cl_limit c \<noteq> None \<or> cl_offset c \<noteq> None
               then [StLimit (cl_limit c) (case cl_offset c of Some n \<Rightarrow> n | None \<Rightarrow> 0)] else [])
            @ (case cl_cursor c of Some token \<Rightarrow> [StCursor token] | None \<Rightarrow> []))))"

fun lower :: "Select \<Rightarrow> LowerError + Plan" where
  "lower (Pipeline stages) = lower_pipeline stages"
| "lower (Clause c) = and_then (desugar_clause c) lower_pipeline"

end
