(* ===== verification/Schema.thy ===== *)
theory Schema
  imports Msgpack
begin

text \<open>
  The schema model of \<open>crates/catalog/src/schema.rs\<close>: tables, columns, checks, indexes and foreign
  keys, the definition-time rules of \<open>TableDef::validate\<close>, the three-valued evaluation of CHECK
  expressions, and the implicit indexes of \<open>unique\<close> columns. Names are UTF-8 byte strings. The lemmas
  characterise the accepted definitions and show that an accepted CHECK has its classical value
  on a row without NULLs.
\<close>

section \<open>Definitions\<close>

datatype UpdatePolicy = Free | Guarded

datatype DefaultSpec = DefaultValue "value" | DefaultNow | DefaultUuidV7

record ColumnDef =
  cd_name :: bytes
  cd_kind :: TypeKind
  cd_nullable :: bool
  cd_unique :: bool
  cd_default :: "DefaultSpec option"
  cd_auto_increment :: bool
  cd_rowversion :: bool
  cd_on_update_now :: bool
  cd_update :: UpdatePolicy

definition column_new :: "bytes \<Rightarrow> TypeKind \<Rightarrow> ColumnDef" where
  "column_new nm k = \<lparr> cd_name = nm, cd_kind = k, cd_nullable = True, cd_unique = False, cd_default = None,
     cd_auto_increment = False, cd_rowversion = False, cd_on_update_now = False, cd_update = Free \<rparr>"

datatype CheckCmp = CkEq | CkNe | CkLt | CkLte | CkGt | CkGte

datatype CheckExpr =
  CkCmp bytes CheckCmp "value"
| CkIsNull bytes
| CkIsNotNull bytes
| CkAnd "CheckExpr list"
| CkOr "CheckExpr list"
| CkNot CheckExpr

definition MAX_CHECK_DEPTH :: nat where
  "MAX_CHECK_DEPTH = 16"

record IndexDef =
  ix_name :: bytes
  ix_columns :: "bytes list"
  ix_unique :: bool

definition implicit_index_name :: "bytes \<Rightarrow> bytes \<Rightarrow> bytes" where
  "implicit_index_name table column = str_bytes ''uniq_'' @ table @ str_bytes ''_'' @ column"

datatype RefAction = Restrict | Cascade | SetNull

record ForeignKey =
  fk_name :: bytes
  fk_columns :: "bytes list"
  fk_parent :: bytes
  fk_parent_columns :: "bytes list"
  fk_on_delete :: RefAction
  fk_on_update :: RefAction

record TableDef =
  td_name :: bytes
  td_columns :: "ColumnDef list"
  td_pk :: "bytes list"
  td_checks :: "CheckExpr list"
  td_indexes :: "IndexDef list"
  td_foreign_keys :: "ForeignKey list"

definition table_new :: "bytes \<Rightarrow> ColumnDef list \<Rightarrow> bytes list \<Rightarrow> TableDef" where
  "table_new nm cols pk = \<lparr> td_name = nm, td_columns = cols, td_pk = pk, td_checks = [], td_indexes = [], td_foreign_keys = [] \<rparr>"

definition index_pos :: "TableDef \<Rightarrow> bytes \<Rightarrow> nat option" where
  "index_pos t index = position (\<lambda>i. ix_name i = index) (td_indexes t)"

definition backs_unique_column :: "TableDef \<Rightarrow> IndexDef \<Rightarrow> bool" where
  "backs_unique_column t index \<longleftrightarrow>
     ix_unique index \<and> length (ix_columns index) = 1
     \<and> (case ix_columns index of [] \<Rightarrow> False
        | col # _ \<Rightarrow> ix_name index = implicit_index_name (td_name t) col
            \<and> list_ex (\<lambda>c. cd_name c = col \<and> cd_unique c) (td_columns t))"

definition col_index :: "TableDef \<Rightarrow> bytes \<Rightarrow> nat option" where
  "col_index t column = position (\<lambda>c. cd_name c = column) (td_columns t)"

definition find_column :: "TableDef \<Rightarrow> bytes \<Rightarrow> ColumnDef option" where
  "find_column t column = List.find (\<lambda>c. cd_name c = column) (td_columns t)"

definition is_pk :: "TableDef \<Rightarrow> nat \<Rightarrow> bool" where
  "is_pk t index = (case get_at (td_columns t) index of None \<Rightarrow> False | Some c \<Rightarrow> cd_name c \<in> set (td_pk t))"

definition is_nullable :: "TableDef \<Rightarrow> nat \<Rightarrow> bool" where
  "is_nullable t index =
     (case get_at (td_columns t) index of None \<Rightarrow> False | Some c \<Rightarrow> cd_nullable c \<and> \<not> is_pk t index)"

section \<open>CHECK evaluation\<close>

fun check_holds :: "CheckCmp \<Rightarrow> Ordering \<Rightarrow> bool" where
  "check_holds CkEq ord = (ord = Equal)"
| "check_holds CkNe ord = (ord \<noteq> Equal)"
| "check_holds CkLt ord = (ord = Less)"
| "check_holds CkLte ord = (ord \<noteq> Greater)"
| "check_holds CkGt ord = (ord = Greater)"
| "check_holds CkGte ord = (ord \<noteq> Less)"

definition check_cell :: "TableDef \<Rightarrow> value list \<Rightarrow> bytes \<Rightarrow> value option" where
  "check_cell t row col = Option.bind (col_index t col) (get_at row)"

text \<open>The flag of the loops says whether an unknown operand was met.\<close>

fun check_eval :: "TableDef \<Rightarrow> value list \<Rightarrow> CheckExpr \<Rightarrow> bool option"
  and check_all :: "TableDef \<Rightarrow> value list \<Rightarrow> bool \<Rightarrow> CheckExpr list \<Rightarrow> bool option"
  and check_any :: "TableDef \<Rightarrow> value list \<Rightarrow> bool \<Rightarrow> CheckExpr list \<Rightarrow> bool option" where
  "check_eval t row (CkCmp col op v) =
     (case check_cell t row col of
        None \<Rightarrow> None
      | Some cell \<Rightarrow> if cell = Null then None else Some (check_holds op (logical_cmp cell v)))"
| "check_eval t row (CkIsNull col) = map_option (\<lambda>cell. cell = Null) (check_cell t row col)"
| "check_eval t row (CkIsNotNull col) = map_option (\<lambda>cell. cell \<noteq> Null) (check_cell t row col)"
| "check_eval t row (CkAnd items) = check_all t row False items"
| "check_eval t row (CkOr items) = check_any t row False items"
| "check_eval t row (CkNot inner) = map_option Not (check_eval t row inner)"
| "check_all t row unknown [] = (if unknown then None else Some True)"
| "check_all t row unknown (item # items) =
     (case check_eval t row item of
        Some False \<Rightarrow> Some False
      | None \<Rightarrow> check_all t row True items
      | Some True \<Rightarrow> check_all t row unknown items)"
| "check_any t row unknown [] = (if unknown then None else Some False)"
| "check_any t row unknown (item # items) =
     (case check_eval t row item of
        Some True \<Rightarrow> Some True
      | None \<Rightarrow> check_any t row True items
      | Some False \<Rightarrow> check_any t row unknown items)"

section \<open>Definition-time rules\<close>

definition invalid :: "string \<Rightarrow> CatalogError" where
  "invalid reason = InvalidSchema reason"

definition unknown_column :: "TableDef \<Rightarrow> bytes \<Rightarrow> CatalogError" where
  "unknown_column t col = UnknownColumn (td_name t) col"

fun check_validate :: "TableDef \<Rightarrow> nat \<Rightarrow> CheckExpr \<Rightarrow> CatalogError + unit"
  and checks_validate :: "TableDef \<Rightarrow> nat \<Rightarrow> CheckExpr list \<Rightarrow> CatalogError + unit" where
  "check_validate t depth (CkCmp col op v) =
     and_then (ensure (depth \<le> MAX_CHECK_DEPTH) (invalid ''check expression nests too deeply'')) (\<lambda>_.
       case find_column t col of
         None \<Rightarrow> Inl (unknown_column t col)
       | Some column \<Rightarrow>
           (case kind v of
              None \<Rightarrow> Inl (invalid ''check comparisons against null never hold; use is_null'')
            | Some k \<Rightarrow> ensure (k = cd_kind column) (invalid ''check literal kind does not match the column's type'')))"
| "check_validate t depth (CkIsNull col) =
     and_then (ensure (depth \<le> MAX_CHECK_DEPTH) (invalid ''check expression nests too deeply'')) (\<lambda>_.
       ensure (col_index t col \<noteq> None) (unknown_column t col))"
| "check_validate t depth (CkIsNotNull col) =
     and_then (ensure (depth \<le> MAX_CHECK_DEPTH) (invalid ''check expression nests too deeply'')) (\<lambda>_.
       ensure (col_index t col \<noteq> None) (unknown_column t col))"
| "check_validate t depth (CkAnd items) =
     and_then (ensure (depth \<le> MAX_CHECK_DEPTH) (invalid ''check expression nests too deeply'')) (\<lambda>_.
     and_then (ensure (items \<noteq> []) (invalid ''empty boolean combinator in check'')) (\<lambda>_.
       checks_validate t (depth + 1) items))"
| "check_validate t depth (CkOr items) =
     and_then (ensure (depth \<le> MAX_CHECK_DEPTH) (invalid ''check expression nests too deeply'')) (\<lambda>_.
     and_then (ensure (items \<noteq> []) (invalid ''empty boolean combinator in check'')) (\<lambda>_.
       checks_validate t (depth + 1) items))"
| "check_validate t depth (CkNot inner) =
     and_then (ensure (depth \<le> MAX_CHECK_DEPTH) (invalid ''check expression nests too deeply'')) (\<lambda>_.
       check_validate t (depth + 1) inner)"
| "checks_validate t depth [] = Inr ()"
| "checks_validate t depth (item # items) =
     and_then (check_validate t depth item) (\<lambda>_. checks_validate t depth items)"

definition validate_default :: "ColumnDef \<Rightarrow> CatalogError + unit" where
  "validate_default col =
     (case cd_default col of
        Some DefaultNow \<Rightarrow> ensure (cd_kind col = TTimestamp) (invalid ''default now requires a timestamp column'')
      | Some DefaultUuidV7 \<Rightarrow> ensure (cd_kind col = TUuid) (invalid ''default uuid_v7 requires a uuid column'')
      | Some (DefaultValue v) \<Rightarrow>
          (case kind v of
             None \<Rightarrow> ensure (cd_nullable col) (invalid ''default null on a not-null column'')
           | Some k \<Rightarrow>
               if k \<noteq> cd_kind col then Inl (invalid ''default value kind does not match the column'')
               else (case v of Json doc \<Rightarrow> map_err CatType (validate_json doc) | _ \<Rightarrow> Inr ()))
      | None \<Rightarrow> Inr ())"

definition validate_column :: "ColumnDef list \<Rightarrow> ColumnDef \<Rightarrow> CatalogError + unit" where
  "validate_column before col =
     and_then (ensure (cd_name col \<noteq> []) (invalid ''column names must not be empty'')) (\<lambda>_.
     and_then (ensure (\<not> list_ex (\<lambda>c. cd_name c = cd_name col) before) (invalid ''duplicate column name'')) (\<lambda>_.
     and_then (ensure (\<not> (cd_auto_increment col \<and> cd_kind col \<noteq> TI64)) (invalid ''auto_increment requires an i64 column'')) (\<lambda>_.
     and_then (ensure (\<not> (cd_rowversion col \<and> cd_kind col \<noteq> TI64)) (invalid ''rowversion requires an i64 column'')) (\<lambda>_.
     and_then (ensure (\<not> (cd_rowversion col \<and> (cd_auto_increment col \<or> cd_default col \<noteq> None \<or> cd_on_update_now col)))
                 (invalid ''a rowversion column is engine-managed only'')) (\<lambda>_.
     and_then (ensure (\<not> (cd_on_update_now col \<and> cd_kind col \<noteq> TTimestamp)) (invalid ''on_update: now requires a timestamp column'')) (\<lambda>_.
       validate_default col))))))"

definition validate_pk_column :: "TableDef \<Rightarrow> bytes list \<Rightarrow> bytes \<Rightarrow> CatalogError + unit" where
  "validate_pk_column t before nm =
     and_then (ensure (nm \<notin> set before) (invalid ''duplicate primary-key column'')) (\<lambda>_.
       case find_column t nm of
         None \<Rightarrow> Inl (unknown_column t nm)
       | Some col \<Rightarrow>
           and_then (ensure (cd_kind col \<noteq> TJson) (invalid ''json columns cannot be key components'')) (\<lambda>_.
             ensure (\<not> cd_rowversion col) (invalid ''a rowversion column cannot be a primary key'')))"

definition validate_index_column :: "TableDef \<Rightarrow> bytes list \<Rightarrow> bytes \<Rightarrow> CatalogError + unit" where
  "validate_index_column t before nm =
     and_then (ensure (nm \<notin> set before) (invalid ''duplicate column within an index'')) (\<lambda>_.
       case find_column t nm of
         None \<Rightarrow> Inl (unknown_column t nm)
       | Some col \<Rightarrow> ensure (cd_kind col \<noteq> TJson) (invalid ''json columns cannot be indexed''))"

definition validate_index :: "TableDef \<Rightarrow> IndexDef list \<Rightarrow> IndexDef \<Rightarrow> CatalogError + unit" where
  "validate_index t before index =
     and_then (ensure (ix_name index \<noteq> []) (invalid ''index names must not be empty'')) (\<lambda>_.
     and_then (ensure (\<not> list_ex (\<lambda>x. ix_name x = ix_name index) before) (invalid ''duplicate index name'')) (\<lambda>_.
     and_then (ensure (ix_columns index \<noteq> []) (invalid ''an index needs at least one column'')) (\<lambda>_.
       each_after (validate_index_column t) [] (ix_columns index))))"

definition validate_fk_column :: "TableDef \<Rightarrow> ForeignKey \<Rightarrow> bytes list \<Rightarrow> bytes \<Rightarrow> CatalogError + unit" where
  "validate_fk_column t fk before nm =
     and_then (ensure (nm \<notin> set before) (invalid ''duplicate column within a foreign key'')) (\<lambda>_.
       case find_column t nm of
         None \<Rightarrow> Inl (unknown_column t nm)
       | Some col \<Rightarrow>
           if fk_on_delete fk = SetNull \<or> fk_on_update fk = SetNull
           then ensure (case col_index t nm of None \<Rightarrow> False | Some ci \<Rightarrow> is_nullable t ci)
                  (invalid ''a set-null foreign key requires nullable referencing columns'')
           else Inr ())"

definition validate_fk :: "TableDef \<Rightarrow> ForeignKey list \<Rightarrow> ForeignKey \<Rightarrow> CatalogError + unit" where
  "validate_fk t before fk =
     and_then (ensure (fk_name fk \<noteq> []) (invalid ''foreign-key names must not be empty'')) (\<lambda>_.
     and_then (ensure (\<not> list_ex (\<lambda>f. fk_name f = fk_name fk) before) (invalid ''duplicate foreign-key name'')) (\<lambda>_.
     and_then (ensure (fk_columns fk \<noteq> []) (invalid ''a foreign key needs at least one column'')) (\<lambda>_.
     and_then (ensure (length (fk_columns fk) = length (fk_parent_columns fk))
                 (invalid ''foreign-key column count must match the referenced column count'')) (\<lambda>_.
       each_after (validate_fk_column t fk) [] (fk_columns fk)))))"

definition validate_table :: "TableDef \<Rightarrow> CatalogError + unit" where
  "validate_table t =
     and_then (ensure (td_name t \<noteq> []) (invalid ''table name must not be empty'')) (\<lambda>_.
     and_then (ensure (td_columns t \<noteq> []) (invalid ''a table needs at least one column'')) (\<lambda>_.
     and_then (each_after validate_column [] (td_columns t)) (\<lambda>_.
     and_then (ensure (length (filter cd_auto_increment (td_columns t)) \<le> 1) (invalid ''at most one auto_increment column per table'')) (\<lambda>_.
     and_then (ensure (length (filter cd_rowversion (td_columns t)) \<le> 1) (invalid ''at most one rowversion column per table'')) (\<lambda>_.
     and_then (ensure (td_pk t \<noteq> []) (invalid ''every table requires a primary key'')) (\<lambda>_.
     and_then (each_after (validate_pk_column t) [] (td_pk t)) (\<lambda>_.
     and_then (each (check_validate t 0) (td_checks t)) (\<lambda>_.
     and_then (each_after (validate_index t) [] (td_indexes t)) (\<lambda>_.
       each_after (validate_fk t) [] (td_foreign_keys t))))))))))"

definition materialize_implicit_indexes :: "TableDef \<Rightarrow> TableDef" where
  "materialize_implicit_indexes t =
     t\<lparr> td_indexes := td_indexes t @
        filter (\<lambda>idx. index_pos t (ix_name idx) = None)
          (map (\<lambda>c. \<lparr> ix_name = implicit_index_name (td_name t) (cd_name c), ix_columns = [cd_name c], ix_unique = True \<rparr>)
             (filter cd_unique (td_columns t))) \<rparr>"

section \<open>Loops with a uniqueness test\<close>

lemma each_after_distinct:
  assumes "\<And>before x. f before x = Inr () \<longleftrightarrow> key x \<notin> key ` set before \<and> Q x"
  shows "each_after f [] xs = Inr () \<longleftrightarrow> distinct (map key xs) \<and> (\<forall>x \<in> set xs. Q x)"
proof -
  have "each_after f [] xs = Inr () \<longleftrightarrow>
      (\<forall>i < length xs. map key xs ! i \<notin> set (take i (map key xs))) \<and> (\<forall>i < length xs. Q (xs ! i))"
    by (auto simp: each_after_Inr assms take_map)
  then show ?thesis by (simp add: distinct_take all_set_conv_all_nth del: take_map)
qed

lemma each_after_names:
  assumes "\<And>before x. f before x = Inr () \<longleftrightarrow> x \<notin> set before \<and> Q x"
  shows "each_after f [] xs = Inr () \<longleftrightarrow> distinct xs \<and> (\<forall>x \<in> set xs. Q x)"
  using each_after_distinct [of f id Q xs] assms by simp

section \<open>What validation accepts\<close>

definition default_ok :: "ColumnDef \<Rightarrow> bool" where
  "default_ok col \<longleftrightarrow>
     (case cd_default col of
        None \<Rightarrow> True
      | Some DefaultNow \<Rightarrow> cd_kind col = TTimestamp
      | Some DefaultUuidV7 \<Rightarrow> cd_kind col = TUuid
      | Some (DefaultValue v) \<Rightarrow>
          (v = Null \<longrightarrow> cd_nullable col) \<and> (v \<noteq> Null \<longrightarrow> kind v = Some (cd_kind col))
          \<and> (\<forall>doc. v = Json doc \<longrightarrow> validate_json doc = Inr ()))"

definition column_ok :: "ColumnDef \<Rightarrow> bool" where
  "column_ok col \<longleftrightarrow> cd_name col \<noteq> []
     \<and> (cd_auto_increment col \<longrightarrow> cd_kind col = TI64)
     \<and> (cd_rowversion col \<longrightarrow> cd_kind col = TI64 \<and> \<not> cd_auto_increment col \<and> cd_default col = None \<and> \<not> cd_on_update_now col)
     \<and> (cd_on_update_now col \<longrightarrow> cd_kind col = TTimestamp) \<and> default_ok col"

text \<open>The column a name denotes, and what is asked of the columns of a key.\<close>

definition column_where :: "TableDef \<Rightarrow> (ColumnDef \<Rightarrow> bool) \<Rightarrow> bytes \<Rightarrow> bool" where
  "column_where t P nm \<longleftrightarrow> (\<exists>c. find_column t nm = Some c \<and> P c)"

definition index_ok :: "TableDef \<Rightarrow> IndexDef \<Rightarrow> bool" where
  "index_ok t index \<longleftrightarrow> ix_name index \<noteq> [] \<and> ix_columns index \<noteq> [] \<and> distinct (ix_columns index)
     \<and> (\<forall>nm \<in> set (ix_columns index). column_where t (\<lambda>c. cd_kind c \<noteq> TJson) nm)"

definition fk_ok :: "TableDef \<Rightarrow> ForeignKey \<Rightarrow> bool" where
  "fk_ok t fk \<longleftrightarrow> fk_name fk \<noteq> [] \<and> fk_columns fk \<noteq> [] \<and> length (fk_columns fk) = length (fk_parent_columns fk)
     \<and> distinct (fk_columns fk)
     \<and> (\<forall>nm \<in> set (fk_columns fk). column_where t (\<lambda>c.
          SetNull \<in> {fk_on_delete fk, fk_on_update fk} \<longrightarrow> cd_nullable c \<and> nm \<notin> set (td_pk t)) nm)"

definition table_ok :: "TableDef \<Rightarrow> bool" where
  "table_ok t \<longleftrightarrow> td_name t \<noteq> [] \<and> td_columns t \<noteq> []
     \<and> distinct (map cd_name (td_columns t)) \<and> (\<forall>c \<in> set (td_columns t). column_ok c)
     \<and> length (filter cd_auto_increment (td_columns t)) \<le> 1 \<and> length (filter cd_rowversion (td_columns t)) \<le> 1
     \<and> td_pk t \<noteq> [] \<and> distinct (td_pk t)
     \<and> (\<forall>nm \<in> set (td_pk t). column_where t (\<lambda>c. cd_kind c \<noteq> TJson \<and> \<not> cd_rowversion c) nm)
     \<and> (\<forall>e \<in> set (td_checks t). check_validate t 0 e = Inr ())
     \<and> distinct (map ix_name (td_indexes t)) \<and> (\<forall>i \<in> set (td_indexes t). index_ok t i)
     \<and> distinct (map fk_name (td_foreign_keys t)) \<and> (\<forall>f \<in> set (td_foreign_keys t). fk_ok t f)"

lemma find_column_index: "find_column t nm = Some c \<longleftrightarrow> (\<exists>i. col_index t nm = Some i \<and> td_columns t ! i = c)"
  by (auto simp: find_column_def col_index_def find_Some_iff position_Some)

lemma find_column_name: "find_column t nm = Some c \<Longrightarrow> cd_name c = nm \<and> c \<in> set (td_columns t)"
  by (auto simp: find_column_def find_Some_iff)

lemma nullable_column:
  "find_column t nm = Some c \<Longrightarrow> col_index t nm = Some i \<Longrightarrow> is_nullable t i \<longleftrightarrow> cd_nullable c \<and> nm \<notin> set (td_pk t)"
  by (auto simp: find_column_index is_nullable_def is_pk_def get_at_def col_index_def dest: position_Some [THEN iffD1])

lemma list_ex_key: "list_ex (\<lambda>c. k c = x) xs \<longleftrightarrow> x \<in> k ` set xs"
  by (auto simp: list_ex_iff)

lemma validate_default_iff: "validate_default col = Inr () \<longleftrightarrow> default_ok col"
proof (cases "cd_default col")
  case (Some d)
  then show ?thesis
  proof (cases d)
    case (DefaultValue v)
    then show ?thesis using Some by (cases v) (auto simp: validate_default_def default_ok_def)
  qed (auto simp: validate_default_def default_ok_def)
qed (simp add: validate_default_def default_ok_def)

lemma validate_column_iff:
  "validate_column before col = Inr () \<longleftrightarrow> cd_name col \<notin> cd_name ` set before \<and> column_ok col"
  by (auto simp: validate_column_def and_then_unit validate_default_iff column_ok_def list_ex_key)

lemma validate_pk_column_iff:
  "validate_pk_column t before nm = Inr () \<longleftrightarrow> nm \<notin> set before \<and> column_where t (\<lambda>c. cd_kind c \<noteq> TJson \<and> \<not> cd_rowversion c) nm"
  by (auto simp: validate_pk_column_def and_then_unit column_where_def split: option.splits)

lemma validate_index_column_iff:
  "validate_index_column t before nm = Inr () \<longleftrightarrow> nm \<notin> set before \<and> column_where t (\<lambda>c. cd_kind c \<noteq> TJson) nm"
  by (auto simp: validate_index_column_def and_then_unit column_where_def split: option.splits)

lemma validate_index_iff:
  "validate_index t before index = Inr () \<longleftrightarrow> ix_name index \<notin> ix_name ` set before \<and> index_ok t index"
  by (auto simp: validate_index_def and_then_unit index_ok_def list_ex_key
      each_after_names [OF validate_index_column_iff])

lemma validate_fk_column_iff:
  "validate_fk_column t fk before nm = Inr () \<longleftrightarrow> nm \<notin> set before \<and>
     column_where t (\<lambda>c. SetNull \<in> {fk_on_delete fk, fk_on_update fk} \<longrightarrow> cd_nullable c \<and> nm \<notin> set (td_pk t)) nm"
proof (cases "find_column t nm")
  case None
  then show ?thesis by (auto simp: validate_fk_column_def and_then_unit column_where_def)
next
  case (Some c)
  then obtain i where "col_index t nm = Some i" by (auto simp: find_column_index)
  with Some show ?thesis
    using nullable_column [OF Some]
    by (auto simp: validate_fk_column_def and_then_unit column_where_def)
qed

lemma validate_fk_iff:
  "validate_fk t before fk = Inr () \<longleftrightarrow> fk_name fk \<notin> fk_name ` set before \<and> fk_ok t fk"
  by (auto simp: validate_fk_def and_then_unit fk_ok_def list_ex_key
      each_after_names [OF validate_fk_column_iff])

lemma validate_table_iff: "validate_table t = Inr () \<longleftrightarrow> table_ok t"
  by (simp add: validate_table_def and_then_unit table_ok_def each_Inr
      each_after_distinct [OF validate_column_iff] each_after_names [OF validate_pk_column_iff]
      each_after_distinct [OF validate_index_iff] each_after_distinct [OF validate_fk_iff])

section \<open>Three-valued checks\<close>

lemma check_all_iff:
  "check_all t row u items =
     (if Some False \<in> check_eval t row ` set items then Some False
      else if u \<or> None \<in> check_eval t row ` set items then None else Some True)"
  by (induction items arbitrary: u) (auto split: option.splits bool.splits)

lemma check_any_iff:
  "check_any t row u items =
     (if Some True \<in> check_eval t row ` set items then Some True
      else if u \<or> None \<in> check_eval t row ` set items then None else Some False)"
  by (induction items arbitrary: u) (auto split: option.splits bool.splits)

text \<open>The columns a check reads, and its two-valued reading.\<close>

fun check_columns :: "CheckExpr \<Rightarrow> bytes set" where
  "check_columns (CkCmp col op v) = {col}"
| "check_columns (CkIsNull col) = {}"
| "check_columns (CkIsNotNull col) = {}"
| "check_columns (CkAnd items) = (\<Union>e \<in> set items. check_columns e)"
| "check_columns (CkOr items) = (\<Union>e \<in> set items. check_columns e)"
| "check_columns (CkNot inner) = check_columns inner"

fun check_true :: "(bytes \<Rightarrow> value) \<Rightarrow> CheckExpr \<Rightarrow> bool" where
  "check_true cell (CkCmp col op v) = check_holds op (logical_cmp (cell col) v)"
| "check_true cell (CkIsNull col) = (cell col = Null)"
| "check_true cell (CkIsNotNull col) = (cell col \<noteq> Null)"
| "check_true cell (CkAnd items) = (\<forall>e \<in> set items. check_true cell e)"
| "check_true cell (CkOr items) = (\<exists>e \<in> set items. check_true cell e)"
| "check_true cell (CkNot inner) = (\<not> check_true cell inner)"

lemma checks_validate_iff: "checks_validate t d items = Inr () \<longleftrightarrow> (\<forall>e \<in> set items. check_validate t d e = Inr ())"
  by (induction items) (auto simp: and_then_unit)

lemma check_cell_present:
  "length row = length (td_columns t) \<Longrightarrow> col_index t col = Some i \<Longrightarrow> check_cell t row col = Some (row ! i)"
  using position_Some [of "\<lambda>c. cd_name c = col" "td_columns t" i]
  by (simp add: check_cell_def get_at_def col_index_def)

lemma check_eval_definite:
  assumes "check_validate t d e = Inr ()" "length row = length (td_columns t)"
    and "\<forall>col \<in> check_columns e. check_cell t row col \<noteq> Some Null"
  shows "check_eval t row e = Some (check_true (\<lambda>col. the (check_cell t row col)) e)"
  using assms
proof (induction e arbitrary: d)
  case (CkCmp col op v)
  then obtain c where "find_column t col = Some c" by (auto simp: and_then_unit split: option.splits)
  then obtain i where "check_cell t row col = Some (row ! i)"
    using CkCmp.prems(2) by (auto simp: find_column_index check_cell_present)
  then show ?case using CkCmp.prems(3) by simp
next
  case (CkIsNull col)
  then show ?case by (auto simp: and_then_unit check_cell_present)
next
  case (CkIsNotNull col)
  then show ?case by (auto simp: and_then_unit check_cell_present)
next
  case (CkAnd items)
  have "check_eval t row e = Some (check_true (\<lambda>col. the (check_cell t row col)) e)" if "e \<in> set items" for e
    using CkAnd.IH [OF that, of "Suc d"] CkAnd.prems that by (auto simp: and_then_unit checks_validate_iff)
  then show ?case by (auto simp: check_all_iff image_iff)
next
  case (CkOr items)
  have "check_eval t row e = Some (check_true (\<lambda>col. the (check_cell t row col)) e)" if "e \<in> set items" for e
    using CkOr.IH [OF that, of "Suc d"] CkOr.prems that by (auto simp: and_then_unit checks_validate_iff)
  then show ?case by (auto simp: check_any_iff image_iff)
next
  case (CkNot e)
  then show ?case by (auto simp: and_then_unit)
qed

section \<open>Unique columns\<close>

lemma implicit_index_name_inj: "implicit_index_name t a = implicit_index_name t b \<longleftrightarrow> a = b"
  by (simp add: implicit_index_name_def)

lemma materialize_fields [simp]:
  "td_name (materialize_implicit_indexes t) = td_name t" "td_columns (materialize_implicit_indexes t) = td_columns t"
  "td_pk (materialize_implicit_indexes t) = td_pk t" "td_checks (materialize_implicit_indexes t) = td_checks t"
  "td_foreign_keys (materialize_implicit_indexes t) = td_foreign_keys t"
  by (simp_all add: materialize_implicit_indexes_def)

text \<open>A column is enforced when a unique index over it alone exists that \<open>drop_index\<close> refuses to drop.\<close>

definition enforced :: "TableDef \<Rightarrow> ColumnDef \<Rightarrow> bool" where
  "enforced t c \<longleftrightarrow> (\<exists>i \<in> set (td_indexes t). ix_unique i \<and> ix_columns i = [cd_name c] \<and> backs_unique_column t i)"

lemma materialize_enforces:
  assumes "c \<in> set (td_columns t)" "cd_unique c"
  shows "enforced (materialize_implicit_indexes t) c \<longleftrightarrow>
     (\<forall>i. index_pos t (implicit_index_name (td_name t) (cd_name c)) = Some i \<longrightarrow>
        (\<exists>j \<in> set (td_indexes t). ix_name j = implicit_index_name (td_name t) (cd_name c) \<and> ix_unique j \<and> ix_columns j = [cd_name c]))"
    (is "?L \<longleftrightarrow> ?R")
proof -
  let ?n = "implicit_index_name (td_name t) (cd_name c)"
  let ?new = "\<lparr> ix_name = ?n, ix_columns = [cd_name c], ix_unique = True \<rparr>"
  have backs: "backs_unique_column (materialize_implicit_indexes t) i \<longleftrightarrow> ix_name i = ?n"
    if "ix_unique i" "ix_columns i = [cd_name c]" for i :: IndexDef
    using that assms by (auto simp: backs_unique_column_def list_ex_iff)
  have new: "?new \<in> set (td_indexes (materialize_implicit_indexes t))" if "index_pos t ?n = None"
    using that assms by (auto simp: materialize_implicit_indexes_def image_iff)
  have old: "set (td_indexes t) \<subseteq> set (td_indexes (materialize_implicit_indexes t))"
    by (simp add: materialize_implicit_indexes_def)
  have mem: "i \<in> set (td_indexes t)"
    if "i \<in> set (td_indexes (materialize_implicit_indexes t))" "ix_name i = ?n" "index_pos t ?n = Some k" for i k
    using that by (auto simp: materialize_implicit_indexes_def)
  show ?thesis
  proof (cases "index_pos t ?n")
    case None
    have "enforced (materialize_implicit_indexes t) c"
      unfolding enforced_def using new [OF None] backs [of ?new] by (intro bexI [of _ ?new]) auto
    then show ?thesis using None by simp
  next
    case (Some k)
    have "?L \<longleftrightarrow> (\<exists>j \<in> set (td_indexes t). ix_name j = ?n \<and> ix_unique j \<and> ix_columns j = [cd_name c])"
    proof
      assume ?L
      then obtain i where "i \<in> set (td_indexes (materialize_implicit_indexes t))" "ix_unique i" "ix_columns i = [cd_name c]" "ix_name i = ?n"
        using backs by (auto simp: enforced_def)
      then show "\<exists>j \<in> set (td_indexes t). ix_name j = ?n \<and> ix_unique j \<and> ix_columns j = [cd_name c]" using mem Some by blast
    next
      assume "\<exists>j \<in> set (td_indexes t). ix_name j = ?n \<and> ix_unique j \<and> ix_columns j = [cd_name c]"
      then show ?L using old backs by (auto simp: enforced_def)
    qed
    then show ?thesis using Some by simp
  qed
qed

section \<open>Properties\<close>

text \<open>C16: A CHECK that validation accepted means what it says. On a row as wide as the table, in which no
  column the check compares is NULL, evaluation under three-valued logic is never unknown and
  returns the check's classical truth value; a conjunction is false as soon as one operand is,
  whatever is unknown about the others.\<close>

theorem check_eval_classical:
  assumes "check_validate t 0 e = Inr ()" "length row = length (td_columns t)"
    and "\<forall>col \<in> check_columns e. check_cell t row col \<noteq> Some Null"
  shows "check_eval t row e = Some (check_true (\<lambda>col. the (check_cell t row col)) e)
    \<and> (check_eval t row (CkAnd items) = Some False \<longleftrightarrow> (\<exists>e \<in> set items. check_eval t row e = Some False))
    \<and> (check_eval t row (CkOr items) = Some True \<longleftrightarrow> (\<exists>e \<in> set items. check_eval t row e = Some True))"
  using check_eval_definite [OF assms] by (auto simp: check_all_iff check_any_iff image_iff)

theorem check_eval_classical_witness:
  "let t = table_new [0x74] [column_new [0x61] TI64] [[0x61]]; e = CkNot (CkCmp [0x61] CkLt (I64 0)) in
     check_eval t [I64 7] e = Some True \<and> check_eval t [Null] e = None"
proof -
  let ?t = "table_new [0x74] [column_new [0x61] TI64] [[0x61]]" and ?e = "CkNot (CkCmp [0x61] CkLt (I64 0))"
  have "check_validate ?t 0 ?e = Inr ()" "length [I64 7] = length (td_columns ?t)"
    "\<forall>col \<in> check_columns ?e. check_cell ?t [I64 7] col \<noteq> Some Null"
    by (simp_all add: table_new_def column_new_def find_column_def MAX_CHECK_DEPTH_def ensure_def check_cell_def col_index_def get_at_def)
  from check_eval_classical [OF this, of "[]"] show ?thesis
    by (auto simp: Let_def table_new_def column_new_def check_cell_def col_index_def get_at_def cmp_def)
qed

text \<open>Every \<open>unique\<close> column of a definition without user indexes is enforced once the implicit indexes are
  materialised: a unique index over it alone exists, which cannot be dropped.\<close>

theorem unique_columns_enforced:
  assumes "c \<in> set cols" "cd_unique c"
  shows "enforced (materialize_implicit_indexes (table_new nm cols pk)) c"
  using materialize_enforces [of c "table_new nm cols pk"] assms by (simp add: table_new_def index_pos_def)

text \<open>A user index that takes the implicit name switches the constraint off: the definition validates,
  the column is declared \<open>unique\<close>, and no unique index covers it.\<close>

lemma unique_column_shadowed:
  "\<exists>t c. validate_table (materialize_implicit_indexes t) = Inr () \<and> c \<in> set (td_columns t) \<and> cd_unique c
     \<and> \<not> (\<exists>i \<in> set (td_indexes (materialize_implicit_indexes t)). ix_unique i)"
proof -
  define c where "c = (column_new [0x61] TI64)\<lparr> cd_unique := True \<rparr>"
  define t where "t = (table_new [0x74] [c] [[0x61]])
    \<lparr> td_indexes := [\<lparr> ix_name = implicit_index_name [0x74] [0x61], ix_columns = [[0x61]], ix_unique = False \<rparr>] \<rparr>"
  have m: "materialize_implicit_indexes t = t"
    by (simp add: materialize_implicit_indexes_def t_def table_new_def c_def column_new_def index_pos_def)
  have "validate_table t = Inr ()"
    by (simp add: t_def table_new_def c_def column_new_def validate_table_def validate_column_def validate_default_def
        validate_pk_column_def validate_index_def validate_index_column_def find_column_def ensure_def implicit_index_name_def)
  moreover have "c \<in> set (td_columns t)" "cd_unique c" "\<forall>i \<in> set (td_indexes t). \<not> ix_unique i"
    by (simp_all add: t_def table_new_def c_def)
  ultimately show ?thesis using m by (intro exI [of _ t] exI [of _ c]) auto
qed

end
