(* ===== verification/Float64.thy ===== *)
theory Float64
  imports Value
begin

text \<open>
  The \<open>f64\<close> operations of the language that expression evaluation uses, on IEEE-754 bit patterns:
  arithmetic rounded to nearest with ties to even, the exact remainder, conversions from and to
  64-bit integers, and parsing of decimal text. An invalid operation yields the quiet NaN
  \<open>f64::NAN\<close>; the engine does not tell NaNs apart.
\<close>

unbundle bit_operations_syntax

section \<open>Bit patterns\<close>

definition f64_neg_sign :: "f64 \<Rightarrow> bool" where
  "f64_neg_sign f \<longleftrightarrow> bit f 63"

definition f64_exponent :: "f64 \<Rightarrow> int" where
  "f64_exponent f = uint (drop_bit 52 f AND 0x7FF)"

definition f64_fraction :: "f64 \<Rightarrow> int" where
  "f64_fraction f = uint (f AND 0xFFFFFFFFFFFFF)"

definition f64_is_finite :: "f64 \<Rightarrow> bool" where
  "f64_is_finite f \<longleftrightarrow> f64_exponent f \<noteq> 2047"

definition f64_is_inf :: "f64 \<Rightarrow> bool" where
  "f64_is_inf f \<longleftrightarrow> f64_exponent f = 2047 \<and> f64_fraction f = 0"

text \<open>A finite float is \<open>\<plusminus> M * 2 ^ E\<close>.\<close>

definition f64_mantissa :: "f64 \<Rightarrow> int" where
  "f64_mantissa f = (if f64_exponent f = 0 then f64_fraction f else f64_fraction f + 2 ^ 52)"

definition f64_scale :: "f64 \<Rightarrow> int" where
  "f64_scale f = (if f64_exponent f = 0 then - 1074 else f64_exponent f - 1075)"

definition f64_is_zero :: "f64 \<Rightarrow> bool" where
  "f64_is_zero f \<longleftrightarrow> f64_is_finite f \<and> f64_mantissa f = 0"

definition with_sign :: "bool \<Rightarrow> f64 \<Rightarrow> f64" where
  "with_sign s f = (if s then f OR SIGN else f)"

definition f64_zero :: "bool \<Rightarrow> f64" where
  "f64_zero s = with_sign s 0"

definition f64_infinity :: "bool \<Rightarrow> f64" where
  "f64_infinity s = with_sign s 0x7FF0000000000000"

section \<open>Rounding\<close>

function bit_len :: "int \<Rightarrow> int" where
  "bit_len n = (if n \<le> 0 then 0 else 1 + bit_len (n div 2))"
  by pat_completeness auto
termination
  by (relation "measure nat") auto

declare bit_len.simps [simp del]

text \<open>\<open>p * 2 ^ e\<close> over \<open>q\<close> as a fraction of integers.\<close>

definition scaled :: "int \<Rightarrow> int \<Rightarrow> int \<Rightarrow> int \<times> int" where
  "scaled p q e = (if 0 \<le> e then (p * 2 ^ nat e, q) else (p, q * 2 ^ nat (- e)))"

text \<open>The exponent of the last place of \<open>p / q\<close>: 53 significant bits, or the subnormal limit.\<close>

definition last_place :: "int \<Rightarrow> int \<Rightarrow> int" where
  "last_place p q =
     (let e0 = bit_len p - bit_len q;
          (n, d) = scaled p q (- e0);
          lg = (if d \<le> n then e0 else e0 - 1)
      in max (- 1074) (lg - 52))"

definition round_half_even :: "int \<Rightarrow> int \<Rightarrow> int" where
  "round_half_even n d =
     (let k = n div d; r = n mod d in if d < 2 * r \<or> (d = 2 * r \<and> odd k) then k + 1 else k)"

definition f64_round :: "bool \<Rightarrow> int \<Rightarrow> int \<Rightarrow> f64" where
  "f64_round s p q =
     (if p = 0 then f64_zero s
      else let e = last_place p q;
               (n, d) = scaled p q (- e);
               bits = (e + 1074) * 2 ^ 52 + round_half_even n d
           in if 2047 * 2 ^ 52 \<le> bits then f64_infinity s else with_sign s (word_of_int bits))"

definition f64_round_scaled :: "bool \<Rightarrow> int \<Rightarrow> int \<Rightarrow> f64" where
  "f64_round_scaled s m e = (case scaled m 1 e of (p, q) \<Rightarrow> f64_round s p q)"

section \<open>Arithmetic\<close>

definition f64_neg :: "f64 \<Rightarrow> f64" where
  "f64_neg f = f XOR SIGN"

definition signed_mantissa :: "f64 \<Rightarrow> int \<Rightarrow> int" where
  "signed_mantissa f e = (if f64_neg_sign f then - 1 else 1) * f64_mantissa f * 2 ^ nat (f64_scale f - e)"

definition f64_add :: "f64 \<Rightarrow> f64 \<Rightarrow> f64" where
  "f64_add x y =
     (if f64_is_nan x \<or> f64_is_nan y then f64_NAN
      else if f64_is_inf x then (if f64_is_inf y \<and> f64_neg_sign x \<noteq> f64_neg_sign y then f64_NAN else x)
      else if f64_is_inf y then y
      else let e = min (f64_scale x) (f64_scale y);
               total = signed_mantissa x e + signed_mantissa y e
           in if total = 0 then f64_zero (f64_neg_sign x \<and> f64_neg_sign y)
              else f64_round_scaled (total < 0) \<bar>total\<bar> e)"

definition f64_sub :: "f64 \<Rightarrow> f64 \<Rightarrow> f64" where
  "f64_sub x y = f64_add x (f64_neg y)"

definition f64_mul :: "f64 \<Rightarrow> f64 \<Rightarrow> f64" where
  "f64_mul x y =
     (let s = (f64_neg_sign x \<noteq> f64_neg_sign y) in
      if f64_is_nan x \<or> f64_is_nan y then f64_NAN
      else if f64_is_inf x \<or> f64_is_inf y then (if f64_is_zero x \<or> f64_is_zero y then f64_NAN else f64_infinity s)
      else f64_round_scaled s (f64_mantissa x * f64_mantissa y) (f64_scale x + f64_scale y))"

definition f64_div :: "f64 \<Rightarrow> f64 \<Rightarrow> f64" where
  "f64_div x y =
     (let s = (f64_neg_sign x \<noteq> f64_neg_sign y) in
      if f64_is_nan x \<or> f64_is_nan y then f64_NAN
      else if f64_is_inf x then (if f64_is_inf y then f64_NAN else f64_infinity s)
      else if f64_is_inf y then f64_zero s
      else if f64_is_zero y then (if f64_is_zero x then f64_NAN else f64_infinity s)
      else case scaled (f64_mantissa x) (f64_mantissa y) (f64_scale x - f64_scale y) of (p, q) \<Rightarrow> f64_round s p q)"

definition f64_rem :: "f64 \<Rightarrow> f64 \<Rightarrow> f64" where
  "f64_rem x y =
     (if f64_is_nan x \<or> f64_is_nan y \<or> f64_is_inf x \<or> f64_is_zero y then f64_NAN
      else if f64_is_inf y then x
      else let e = min (f64_scale x) (f64_scale y)
           in f64_round_scaled (f64_neg_sign x) (\<bar>signed_mantissa x e\<bar> mod \<bar>signed_mantissa y e\<bar>) e)"

section \<open>Conversions\<close>

text \<open>\<open>n as f64\<close> for an \<open>i64\<close>, and \<open>f.trunc() as i64\<close> for a float in range.\<close>

definition f64_of_i64 :: "i64 \<Rightarrow> f64" where
  "f64_of_i64 n = f64_round (sint n < 0) \<bar>sint n\<bar> 1"

definition f64_trunc :: "f64 \<Rightarrow> int" where
  "f64_trunc f =
     (let m = (case scaled (f64_mantissa f) 1 (f64_scale f) of (p, q) \<Rightarrow> p div q)
      in if f64_neg_sign f then - m else m)"

text \<open>\<open>f < i64::MIN as f64\<close> and \<open>f >= 9_223_372_036_854_775_808.0\<close> for a finite float.\<close>

definition f64_below_i64 :: "f64 \<Rightarrow> bool" where
  "f64_below_i64 f \<longleftrightarrow> f64_neg_sign f \<and>
     (case scaled (f64_mantissa f) 1 (f64_scale f) of (p, q) \<Rightarrow> 2 ^ 63 * q < p)"

definition f64_above_i64 :: "f64 \<Rightarrow> bool" where
  "f64_above_i64 f \<longleftrightarrow> \<not> f64_neg_sign f \<and>
     (case scaled (f64_mantissa f) 1 (f64_scale f) of (p, q) \<Rightarrow> 2 ^ 63 * q \<le> p)"

section \<open>Decimal text\<close>

definition is_digit :: "u8 \<Rightarrow> bool" where
  "is_digit b \<longleftrightarrow> 0x30 \<le> b \<and> b \<le> 0x39"

definition digits_value :: "bytes \<Rightarrow> int" where
  "digits_value ds = foldl (\<lambda>a d. a * 10 + uint (d - 0x30)) 0 ds"

text \<open>A leading sign.\<close>

fun split_sign :: "bytes \<Rightarrow> bool \<times> bytes" where
  "split_sign [] = (False, [])"
| "split_sign (b # bs) = (if b = 0x2D then (True, bs) else if b = 0x2B then (False, bs) else (False, b # bs))"

text \<open>\<open>str::parse::<i64>()\<close>.\<close>

definition parse_i64 :: "bytes \<Rightarrow> i64 option" where
  "parse_i64 s =
     (case split_sign s of (neg, ds) \<Rightarrow>
        if ds = [] \<or> \<not> list_all is_digit ds then None
        else let n = (if neg then - digits_value ds else digits_value ds)
             in if - (2 ^ 63) \<le> n \<and> n < 2 ^ 63 then Some (word_of_int n) else None)"

definition ascii_lower :: "u8 \<Rightarrow> u8" where
  "ascii_lower b = (if 0x41 \<le> b \<and> b \<le> 0x5A then b + 0x20 else b)"

text \<open>The exponent part of a decimal float: absent, or \<open>e\<close> with a signed number.\<close>

definition parse_exponent :: "bytes \<Rightarrow> int option" where
  "parse_exponent s =
     (case s of
        [] \<Rightarrow> Some 0
      | b # rest \<Rightarrow>
          if ascii_lower b \<noteq> 0x65 then None
          else (case split_sign rest of (neg, ds) \<Rightarrow>
                  if ds = [] \<or> \<not> list_all is_digit ds then None
                  else Some (if neg then - digits_value ds else digits_value ds)))"

text \<open>\<open>str::parse::<f64>()\<close>: the nearest float to the decimal number, or a named special value.\<close>

definition parse_f64 :: "bytes \<Rightarrow> f64 option" where
  "parse_f64 s =
     (case split_sign s of (neg, body) \<Rightarrow>
        if map ascii_lower body = str_bytes ''inf'' \<or> map ascii_lower body = str_bytes ''infinity'' then Some (f64_infinity neg)
        else if map ascii_lower body = str_bytes ''nan'' then Some f64_NAN
        else
          let whole = takeWhile is_digit body;
              rest = dropWhile is_digit body;
              (frac, tail) = (case rest of b # more \<Rightarrow> (if b = 0x2E then (takeWhile is_digit more, dropWhile is_digit more) else ([], rest))
                              | [] \<Rightarrow> ([], []))
          in if whole = [] \<and> frac = [] then None
             else map_option (\<lambda>x.
               let e = x - int (length frac); m = digits_value (whole @ frac)
               in if 0 \<le> e then f64_round neg (m * 10 ^ nat e) 1 else f64_round neg m (10 ^ nat (- e)))
               (parse_exponent tail))"

end
