(* ===== verification/Eval.thy ===== *)
theory Eval
  imports Ast Float64 UuidV7
begin

text \<open>
  Scalar expression evaluation (\<open>crates/query/src/eval.rs\<close>): column resolution against the shape
  of a row, three-valued logic, comparison by value across the two numeric kinds, checked integer
  arithmetic, \<open>LIKE\<close> and casts. Two services of the standard library are parameters, collected in
  \<open>text_ops\<close>: Unicode lowercasing and the decimal rendering of a float.
\<close>

record text_ops =
  to_lowercase :: "bytes \<Rightarrow> bytes"
  f64_to_string :: "f64 \<Rightarrow> bytes"

section \<open>Characters\<close>

text \<open>\<open>str::chars\<close>: a character is represented by its UTF-8 encoding.\<close>

function chars :: "bytes \<Rightarrow> bytes list" where
  "chars [] = []"
| "chars (a # xs) =
     (let n = (if a \<le> 0x7F then 0 else if a \<le> 0xDF then 1 else if a \<le> 0xEF then 2 else 3)
      in (a # take n xs) # chars (drop n xs))"
  by pat_completeness auto
termination
  by (relation "measure length") (auto simp: Let_def)

text \<open>\<open>char::is_whitespace\<close> and \<open>str::trim\<close>.\<close>

definition is_whitespace :: "bytes \<Rightarrow> bool" where
  "is_whitespace c \<longleftrightarrow>
     (case c of
        [a] \<Rightarrow> (0x09 \<le> a \<and> a \<le> 0x0D) \<or> a = 0x20
      | [a, b] \<Rightarrow> a = 0xC2 \<and> (b = 0x85 \<or> b = 0xA0)
      | [a, b, d] \<Rightarrow>
          (a = 0xE1 \<and> b = 0x9A \<and> d = 0x80)
          \<or> (a = 0xE2 \<and> b = 0x80 \<and> ((0x80 \<le> d \<and> d \<le> 0x8A) \<or> d = 0xA8 \<or> d = 0xA9 \<or> d = 0xAF))
          \<or> (a = 0xE2 \<and> b = 0x81 \<and> d = 0x9F)
          \<or> (a = 0xE3 \<and> b = 0x80 \<and> d = 0x80)
      | _ \<Rightarrow> False)"

definition trim :: "bytes \<Rightarrow> bytes" where
  "trim s = concat (rev (dropWhile is_whitespace (rev (dropWhile is_whitespace (chars s)))))"

section \<open>Row binding\<close>

record BoundColumn =
  bc_qualifier :: "bytes option"
  bc_name :: bytes

type_synonym Shape = "BoundColumn list"

definition bound_as :: "bytes option \<Rightarrow> bytes \<Rightarrow> BoundColumn \<Rightarrow> bool" where
  "bound_as qualifier column c \<longleftrightarrow>
     bc_name c = column \<and> (case qualifier of Some q \<Rightarrow> bc_qualifier c = Some q | None \<Rightarrow> True)"

definition resolve :: "Shape \<Rightarrow> bytes option \<Rightarrow> bytes \<Rightarrow> nat option" where
  "resolve shape qualifier column = position (bound_as qualifier column) shape"

section \<open>Logic and comparison\<close>

fun and3 :: "value \<Rightarrow> value \<Rightarrow> value" where
  "and3 a b =
     (if a = Bool False \<or> b = Bool False then Bool False
      else if a = Bool True \<and> b = Bool True then Bool True else Null)"

fun or3 :: "value \<Rightarrow> value \<Rightarrow> value" where
  "or3 a b =
     (if a = Bool True \<or> b = Bool True then Bool True
      else if a = Bool False \<and> b = Bool False then Bool False else Null)"

definition f64_order :: "f64 \<Rightarrow> f64 \<Rightarrow> Ordering" where
  "f64_order x y = logical_cmp (F64 x) (F64 y)"

definition value_order :: "value \<Rightarrow> value \<Rightarrow> Ordering" where
  "value_order a b =
     (case (a, b) of
        (I64 x, F64 y) \<Rightarrow> f64_order (f64_of_i64 x) y
      | (F64 x, I64 y) \<Rightarrow> f64_order x (f64_of_i64 y)
      | _ \<Rightarrow> logical_cmp a b)"

fun cmp_holds :: "CmpOp \<Rightarrow> Ordering \<Rightarrow> bool" where
  "cmp_holds Eq ord = (ord = Equal)"
| "cmp_holds Ne ord = (ord \<noteq> Equal)"
| "cmp_holds Lt ord = (ord = Less)"
| "cmp_holds Lte ord = (ord \<noteq> Greater)"
| "cmp_holds Gt ord = (ord = Greater)"
| "cmp_holds Gte ord = (ord \<noteq> Less)"

definition eval_cmp :: "CmpOp \<Rightarrow> value \<Rightarrow> value \<Rightarrow> value" where
  "eval_cmp op a b =
     (if a = Null \<or> b = Null then Null else Bool (cmp_holds op (value_order a b)))"

section \<open>Arithmetic\<close>

text \<open>Division of the language truncates toward zero; the checked operations return nothing when the
  result does not fit.\<close>

definition trunc_div :: "int \<Rightarrow> int \<Rightarrow> int" where
  "trunc_div a b = sgn a * sgn b * (\<bar>a\<bar> div \<bar>b\<bar>)"

definition trunc_rem :: "int \<Rightarrow> int \<Rightarrow> int" where
  "trunc_rem a b = a - b * trunc_div a b"

definition to_i64 :: "int \<Rightarrow> i64 option" where
  "to_i64 n = (if - (2 ^ 63) \<le> n \<and> n < 2 ^ 63 then Some (word_of_int n) else None)"

definition checked_div :: "i64 \<Rightarrow> i64 \<Rightarrow> i64 option" where
  "checked_div x y = to_i64 (trunc_div (sint x) (sint y))"

definition checked_rem :: "i64 \<Rightarrow> i64 \<Rightarrow> i64 option" where
  "checked_rem x y = map_option (\<lambda>_. word_of_int (trunc_rem (sint x) (sint y))) (checked_div x y)"

definition int_arith :: "ArithOp \<Rightarrow> i64 \<Rightarrow> i64 \<Rightarrow> EvalError + value" where
  "int_arith op x y =
     (if op \<in> {Div, Mod} \<and> y = 0 then Inl DivByZero
      else ok_or (Overflow (arith_name op)) (map_option I64
        (case op of
           Add \<Rightarrow> to_i64 (sint x + sint y)
         | Sub \<Rightarrow> to_i64 (sint x - sint y)
         | Mul \<Rightarrow> to_i64 (sint x * sint y)
         | Div \<Rightarrow> checked_div x y
         | Mod \<Rightarrow> checked_rem x y)))"

fun float_arith :: "ArithOp \<Rightarrow> f64 \<Rightarrow> f64 \<Rightarrow> f64" where
  "float_arith Add x y = f64_add x y"
| "float_arith Sub x y = f64_sub x y"
| "float_arith Mul x y = f64_mul x y"
| "float_arith Div x y = f64_div x y"
| "float_arith Mod x y = f64_rem x y"

definition eval_arith :: "ArithOp \<Rightarrow> value \<Rightarrow> value \<Rightarrow> EvalError + value" where
  "eval_arith op a b =
     (if a = Null \<or> b = Null then Inr Null
      else case (a, b) of
        (I64 x, I64 y) \<Rightarrow> int_arith op x y
      | (F64 x, F64 y) \<Rightarrow> Inr (F64 (float_arith op x y))
      | (I64 x, F64 y) \<Rightarrow> Inr (F64 (float_arith op (f64_of_i64 x) y))
      | (F64 x, I64 y) \<Rightarrow> Inr (F64 (float_arith op x (f64_of_i64 y)))
      | _ \<Rightarrow> Inl (EvalTypeError (arith_name op)))"

section \<open>Pattern matching\<close>

abbreviation "UNDERSCORE \<equiv> ([0x5F] :: bytes)"
abbreviation "PERCENT \<equiv> ([0x25] :: bytes)"

text \<open>The loop of \<open>like_match\<close>: positions in the text and the pattern, the last \<open>%\<close> seen and the
  text position to resume from.\<close>

partial_function (option) like_loop ::
  "bytes list \<Rightarrow> bytes list \<Rightarrow> nat \<Rightarrow> nat \<Rightarrow> nat option \<Rightarrow> nat \<Rightarrow> bool option" where
  "like_loop t p i j star resume =
     (if i < length t then
        (if j < length p \<and> (p ! j = UNDERSCORE \<or> p ! j = t ! i) then like_loop t p (i + 1) (j + 1) star resume
         else if j < length p \<and> p ! j = PERCENT then like_loop t p i (j + 1) (Some j) i
         else case star of
           Some s \<Rightarrow> like_loop t p (resume + 1) (s + 1) star (resume + 1)
         | None \<Rightarrow> Some False)
      else Some (list_all (\<lambda>c. c = PERCENT) (drop j p)))"

definition like_match :: "text_ops \<Rightarrow> bytes \<Rightarrow> bytes \<Rightarrow> bool \<Rightarrow> bool" where
  "like_match ops txt pattern case_insensitive =
     (let lower = (if case_insensitive then to_lowercase ops else id)
      in like_loop (chars (lower txt)) (chars (lower pattern)) 0 0 None 0 = Some True)"

section \<open>Casts\<close>

text \<open>\<open>to_string\<close> of a boolean and of an integer.\<close>

definition bool_to_string :: "bool \<Rightarrow> bytes" where
  "bool_to_string b = (if b then str_bytes ''true'' else str_bytes ''false'')"

function decimal :: "int \<Rightarrow> bytes" where
  "decimal n = (if n < 10 then [word_of_int (0x30 + n)] else decimal (n div 10) @ [word_of_int (0x30 + n mod 10)])"
  by pat_completeness auto
termination
  by (relation "measure nat") auto

declare decimal.simps [simp del]

definition i64_to_string :: "i64 \<Rightarrow> bytes" where
  "i64_to_string w = (if sint w < 0 then 0x2D # decimal (- sint w) else decimal (sint w))"

definition render_kind :: "value \<Rightarrow> string" where
  "render_kind v = (case kind v of Some k \<Rightarrow> kind_as_str k | None \<Rightarrow> ''null'')"

fun render_text :: "text_ops \<Rightarrow> value \<Rightarrow> EvalError + bytes" where
  "render_text ops (Bool b) = Inr (bool_to_string b)"
| "render_text ops (I64 n) = Inr (i64_to_string n)"
| "render_text ops (Timestamp n) = Inr (i64_to_string n)"
| "render_text ops (F64 f) = Inr (f64_to_string ops f)"
| "render_text ops (Text s) = Inr s"
| "render_text ops (Uuid u) = Inr (uuid_to_string u)"
| "render_text ops v = Inl (BadCast (render_kind v) TText)"

definition eval_cast :: "text_ops \<Rightarrow> value \<Rightarrow> TypeKind \<Rightarrow> EvalError + value" where
  "eval_cast ops v target =
     (if v = Null then Inr Null
      else if kind v = Some target then Inr v
      else case (target, v) of
        (TF64, I64 n) \<Rightarrow> Inr (F64 (f64_of_i64 n))
      | (TI64, F64 f) \<Rightarrow>
          (if \<not> f64_is_finite f \<or> f64_below_i64 f \<or> f64_above_i64 f then Inl (CastRange target)
           else Inr (I64 (word_of_int (f64_trunc f))))
      | (TI64, Bool b) \<Rightarrow> Inr (I64 (if b then 1 else 0))
      | (TI64, Timestamp t) \<Rightarrow> Inr (I64 t)
      | (TTimestamp, I64 n) \<Rightarrow> Inr (Timestamp n)
      | (TI64, Text s) \<Rightarrow> ok_or (CastRange target) (map_option I64 (parse_i64 (trim s)))
      | (TF64, Text s) \<Rightarrow> ok_or (CastRange target) (map_option F64 (parse_f64 (trim s)))
      | (TBool, Text s) \<Rightarrow>
          (if trim s = str_bytes ''true'' then Inr (Bool True)
           else if trim s = str_bytes ''false'' then Inr (Bool False)
           else Inl (CastRange target))
      | (TText, other) \<Rightarrow> and_then (render_text ops other) (\<lambda>s. Inr (Text s))
      | _ \<Rightarrow> Inl (BadCast (render_kind v) target))"

section \<open>Evaluation\<close>

fun eval :: "text_ops \<Rightarrow> value list \<Rightarrow> Shape \<Rightarrow> Expr \<Rightarrow> EvalError + value"
  and eval_and :: "text_ops \<Rightarrow> value list \<Rightarrow> Shape \<Rightarrow> value \<Rightarrow> Expr list \<Rightarrow> EvalError + value"
  and eval_or :: "text_ops \<Rightarrow> value list \<Rightarrow> Shape \<Rightarrow> value \<Rightarrow> Expr list \<Rightarrow> EvalError + value"
  and eval_in :: "text_ops \<Rightarrow> value list \<Rightarrow> Shape \<Rightarrow> value \<Rightarrow> bool \<Rightarrow> Expr list \<Rightarrow> EvalError + value"
  and eval_coalesce :: "text_ops \<Rightarrow> value list \<Rightarrow> Shape \<Rightarrow> Expr list \<Rightarrow> EvalError + value" where
  "eval ops row shape (EColumn table column) =
     (case resolve shape table column of
        None \<Rightarrow> Inl (UnresolvedColumn column)
      | Some idx \<Rightarrow> Inr (case get_at row idx of Some v \<Rightarrow> v | None \<Rightarrow> Null))"
| "eval ops row shape (ELiteral v) = Inr v"
| "eval ops row shape (ECmp op lhs rhs) =
     and_then (eval ops row shape lhs) (\<lambda>a. and_then (eval ops row shape rhs) (\<lambda>b. Inr (eval_cmp op a b)))"
| "eval ops row shape (EAnd items) = eval_and ops row shape (Bool True) items"
| "eval ops row shape (EOr items) = eval_or ops row shape (Bool False) items"
| "eval ops row shape (ENot inner) =
     and_then (eval ops row shape inner) (\<lambda>v.
       case v of Null \<Rightarrow> Inr Null | Bool b \<Rightarrow> Inr (Bool (\<not> b)) | _ \<Rightarrow> Inl (EvalTypeError ''not''))"
| "eval ops row shape (EArith op lhs rhs) =
     and_then (eval ops row shape lhs) (\<lambda>a. and_then (eval ops row shape rhs) (\<lambda>b. eval_arith op a b))"
| "eval ops row shape (EIsNull inner) = and_then (eval ops row shape inner) (\<lambda>v. Inr (Bool (v = Null)))"
| "eval ops row shape (EIsNotNull inner) = and_then (eval ops row shape inner) (\<lambda>v. Inr (Bool (v \<noteq> Null)))"
| "eval ops row shape (EBetween expr lo hi) =
     and_then (eval ops row shape expr) (\<lambda>v. and_then (eval ops row shape lo) (\<lambda>l. and_then (eval ops row shape hi) (\<lambda>h.
       Inr (and3 (eval_cmp Gte v l) (eval_cmp Lte v h)))))"
| "eval ops row shape (EInList expr items) =
     and_then (eval ops row shape expr) (\<lambda>v. if v = Null then Inr Null else eval_in ops row shape v False items)"
| "eval ops row shape (ELike expr pattern ci) =
     and_then (eval ops row shape expr) (\<lambda>v.
       case v of Null \<Rightarrow> Inr Null | Text s \<Rightarrow> Inr (Bool (like_match ops s pattern ci)) | _ \<Rightarrow> Inl (EvalTypeError ''like''))"
| "eval ops row shape (ECoalesce items) = eval_coalesce ops row shape items"
| "eval ops row shape (ENullIf lhs rhs) =
     and_then (eval ops row shape lhs) (\<lambda>a. and_then (eval ops row shape rhs) (\<lambda>b.
       Inr (if eval_cmp Eq a b = Bool True then Null else a)))"
| "eval ops row shape (ECast expr target) = and_then (eval ops row shape expr) (\<lambda>v. eval_cast ops v target)"
| "eval ops row shape (EAgg func arg) = Inl UnexpectedAggregate"
| "eval_and ops row shape acc [] = Inr acc"
| "eval_and ops row shape acc (item # items) =
     and_then (eval ops row shape item) (\<lambda>v. eval_and ops row shape (and3 acc v) items)"
| "eval_or ops row shape acc [] = Inr acc"
| "eval_or ops row shape acc (item # items) =
     and_then (eval ops row shape item) (\<lambda>v. eval_or ops row shape (or3 acc v) items)"
| "eval_in ops row shape v saw_null [] = Inr (if saw_null then Null else Bool False)"
| "eval_in ops row shape v saw_null (item # items) =
     and_then (eval ops row shape item) (\<lambda>w.
       case eval_cmp Eq v w of
         Bool True \<Rightarrow> Inr (Bool True)
       | Null \<Rightarrow> eval_in ops row shape v True items
       | _ \<Rightarrow> eval_in ops row shape v saw_null items)"
| "eval_coalesce ops row shape [] = Inr Null"
| "eval_coalesce ops row shape (item # items) =
     and_then (eval ops row shape item) (\<lambda>v. if v \<noteq> Null then Inr v else eval_coalesce ops row shape items)"

definition eval_predicate :: "text_ops \<Rightarrow> value list \<Rightarrow> Shape \<Rightarrow> Expr \<Rightarrow> EvalError + bool" where
  "eval_predicate ops row shape e = and_then (eval ops row shape e) (\<lambda>v. Inr (v = Bool True))"

end
