(* ===== verification/Validate.thy ===== *)
theory Validate
  imports Lower Schema Eval
begin

text \<open>
  The validator (\<open>crates/query/src/validate.rs\<close>): name resolution and typing of expressions against
  the row type of a plan, and the safety rules of writes. The schema is a function from table names
  to definitions (\<open>SchemaView\<close>). The lemmas show type soundness: a validated expression evaluates to
  a value of its type or to an error of the data.
\<close>

datatype ValidateError =
  VLower LowerError
| VSchema CatalogError
| VUnknownTable bytes
| VUnknownColumn "bytes option" bytes
| AmbiguousColumn bytes
| IncompatibleComparison string string
| NonBooleanPredicate string string
| NonNumericArith string
| NonTextLike string
| JsonNotOrderable string
| JsonCast
| IncompatibleKinds string string
| AggregateNotAllowed
| MissingSelector
| GuardedBlindSet bytes
| EngineManagedWrite bytes
| VPkImmutable bytes
| AssignTypeMismatch bytes TypeKind string

fun validate_error_category :: "ValidateError \<Rightarrow> ErrorCategory" where
  "validate_error_category (VLower e) = lower_error_category e"
| "validate_error_category (VSchema e) = catalog_error_category e"
| "validate_error_category _ = Validation"

type_synonym SchemaView = "bytes \<Rightarrow> CatalogError + TableDef option"

section \<open>Row types\<close>

record FieldType =
  ft_kind :: "TypeKind option"
  ft_nullable :: bool

definition ft_of :: "TypeKind \<Rightarrow> bool \<Rightarrow> FieldType" where
  "ft_of k n = \<lparr> ft_kind = Some k, ft_nullable = n \<rparr>"

definition ft_boolean :: "bool \<Rightarrow> FieldType" where
  "ft_boolean n = ft_of TBool n"

record Slot =
  sl_qualifier :: "bytes option"
  sl_name :: bytes
  sl_ty :: FieldType

type_synonym RowType = "Slot list"

definition row_of_table :: "TableDef \<Rightarrow> bytes \<Rightarrow> RowType" where
  "row_of_table t qualifier =
     map (\<lambda>(i, col). \<lparr> sl_qualifier = Some qualifier, sl_name = cd_name col, sl_ty = ft_of (cd_kind col) (is_nullable t i) \<rparr>)
       (enumerate 0 (td_columns t))"

text \<open>The loop of \<open>RowType::resolve\<close>: the last match wins, and a second match of an unqualified
  reference is ambiguous.\<close>

fun row_resolve_from :: "FieldType option \<Rightarrow> RowType \<Rightarrow> bytes option \<Rightarrow> bytes \<Rightarrow> ValidateError + FieldType" where
  "row_resolve_from hit [] qualifier column = ok_or (VUnknownColumn qualifier column) hit"
| "row_resolve_from hit (slot # slots) qualifier column =
     (if sl_name slot = column \<and> (case qualifier of Some q \<Rightarrow> sl_qualifier slot = Some q | None \<Rightarrow> True)
      then if hit \<noteq> None \<and> qualifier = None then Inl (AmbiguousColumn column)
           else row_resolve_from (Some (sl_ty slot)) slots qualifier column
      else row_resolve_from hit slots qualifier column)"

definition row_resolve :: "RowType \<Rightarrow> bytes option \<Rightarrow> bytes \<Rightarrow> ValidateError + FieldType" where
  "row_resolve row qualifier column = row_resolve_from None row qualifier column"

definition made_nullable :: "RowType \<Rightarrow> RowType" where
  "made_nullable row = map (\<lambda>s. s\<lparr> sl_ty := (sl_ty s)\<lparr> ft_nullable := True \<rparr> \<rparr>) row"

record OutputColumn =
  oc_name :: bytes
  oc_kind :: "TypeKind option"
  oc_nullable :: bool

definition into_output :: "RowType \<Rightarrow> OutputColumn list" where
  "into_output row = map (\<lambda>s. \<lparr> oc_name = sl_name s, oc_kind = ft_kind (sl_ty s), oc_nullable = ft_nullable (sl_ty s) \<rparr>) row"

section \<open>Expressions\<close>

definition is_numeric :: "TypeKind \<Rightarrow> bool" where
  "is_numeric k \<longleftrightarrow> k = TI64 \<or> k = TF64"

definition literal_type :: "value \<Rightarrow> FieldType" where
  "literal_type v = (case kind v of None \<Rightarrow> \<lparr> ft_kind = None, ft_nullable = True \<rparr> | Some k \<Rightarrow> ft_of k False)"

definition compatible_cmp :: "TypeKind option \<Rightarrow> TypeKind option \<Rightarrow> ValidateError + unit" where
  "compatible_cmp a b =
     (case (a, b) of
        (Some x, Some y) \<Rightarrow>
          if x = TJson \<or> y = TJson then Inl (JsonNotOrderable ''comparison'')
          else if x = y \<or> (is_numeric x \<and> is_numeric y) then Inr ()
          else Inl (IncompatibleComparison (kind_as_str x) (kind_as_str y))
      | _ \<Rightarrow> Inr ())"

definition numeric_operand :: "TypeKind option \<Rightarrow> ValidateError + TypeKind option" where
  "numeric_operand k =
     (case k of
        None \<Rightarrow> Inr None
      | Some x \<Rightarrow> if is_numeric x then Inr (Some x) else Inl (NonNumericArith (kind_as_str x)))"

definition arith_kind :: "TypeKind option \<Rightarrow> TypeKind option \<Rightarrow> TypeKind option" where
  "arith_kind lk rk =
     (if lk = Some TF64 \<or> rk = Some TF64 then Some TF64
      else if lk = Some TI64 \<or> rk = Some TI64 then Some TI64 else None)"

definition unify :: "TypeKind option \<Rightarrow> TypeKind option \<Rightarrow> ValidateError + TypeKind option" where
  "unify acc next =
     (case (acc, next) of
        (None, k) \<Rightarrow> Inr k
      | (k, None) \<Rightarrow> Inr k
      | (Some a, Some b) \<Rightarrow>
          if a = b then Inr (Some a)
          else if is_numeric a \<and> is_numeric b then Inr (Some TF64)
          else Inl (IncompatibleKinds (kind_as_str a) (kind_as_str b)))"

text \<open>A boolean operand, or the untyped \<open>null\<close>.\<close>

definition bool_operand :: "string \<Rightarrow> FieldType \<Rightarrow> ValidateError + unit" where
  "bool_operand context ty =
     (case ft_kind ty of
        Some k \<Rightarrow> ensure (k = TBool) (NonBooleanPredicate context (kind_as_str k))
      | None \<Rightarrow> Inr ())"

fun check_expr :: "RowType \<Rightarrow> Expr \<Rightarrow> ValidateError + FieldType"
  and check_bools :: "RowType \<Rightarrow> bool \<Rightarrow> Expr list \<Rightarrow> ValidateError + bool"
  and check_in :: "RowType \<Rightarrow> TypeKind option \<Rightarrow> bool \<Rightarrow> Expr list \<Rightarrow> ValidateError + bool"
  and check_coalesce :: "RowType \<Rightarrow> TypeKind option \<Rightarrow> bool \<Rightarrow> Expr list \<Rightarrow> ValidateError + FieldType" where
  "check_expr row (EColumn table column) = row_resolve row table column"
| "check_expr row (ELiteral v) = Inr (literal_type v)"
| "check_expr row (ECmp op lhs rhs) =
     and_then (check_expr row lhs) (\<lambda>l. and_then (check_expr row rhs) (\<lambda>r.
     and_then (compatible_cmp (ft_kind l) (ft_kind r)) (\<lambda>_. Inr (ft_boolean (ft_nullable l \<or> ft_nullable r)))))"
| "check_expr row (EAnd items) = and_then (check_bools row False items) (\<lambda>n. Inr (ft_boolean n))"
| "check_expr row (EOr items) = and_then (check_bools row False items) (\<lambda>n. Inr (ft_boolean n))"
| "check_expr row (ENot inner) =
     and_then (check_expr row inner) (\<lambda>ty. and_then (bool_operand ''boolean'' ty) (\<lambda>_. Inr (ft_boolean (ft_nullable ty))))"
| "check_expr row (EArith op lhs rhs) =
     and_then (check_expr row lhs) (\<lambda>l. and_then (check_expr row rhs) (\<lambda>r.
     and_then (numeric_operand (ft_kind l)) (\<lambda>lk. and_then (numeric_operand (ft_kind r)) (\<lambda>rk.
       Inr \<lparr> ft_kind = arith_kind lk rk, ft_nullable = ft_nullable l \<or> ft_nullable r \<rparr>))))"
| "check_expr row (EIsNull inner) = and_then (check_expr row inner) (\<lambda>_. Inr (ft_boolean False))"
| "check_expr row (EIsNotNull inner) = and_then (check_expr row inner) (\<lambda>_. Inr (ft_boolean False))"
| "check_expr row (EBetween e lo hi) =
     and_then (check_expr row e) (\<lambda>t. and_then (check_expr row lo) (\<lambda>l. and_then (check_expr row hi) (\<lambda>h.
     and_then (compatible_cmp (ft_kind t) (ft_kind l)) (\<lambda>_. and_then (compatible_cmp (ft_kind t) (ft_kind h)) (\<lambda>_.
       Inr (ft_boolean (ft_nullable t \<or> ft_nullable l \<or> ft_nullable h)))))))"
| "check_expr row (EInList e items) =
     and_then (check_expr row e) (\<lambda>t. and_then (check_in row (ft_kind t) (ft_nullable t) items) (\<lambda>n. Inr (ft_boolean n)))"
| "check_expr row (ELike e pattern ci) =
     and_then (check_expr row e) (\<lambda>t.
       case ft_kind t of
         Some k \<Rightarrow> if k = TText then Inr (ft_boolean (ft_nullable t)) else Inl (NonTextLike (kind_as_str k))
       | None \<Rightarrow> Inr (ft_boolean (ft_nullable t)))"
| "check_expr row (ECoalesce items) = check_coalesce row None True items"
| "check_expr row (ENullIf lhs rhs) =
     and_then (check_expr row lhs) (\<lambda>l. and_then (check_expr row rhs) (\<lambda>r.
     and_then (compatible_cmp (ft_kind l) (ft_kind r)) (\<lambda>_. Inr \<lparr> ft_kind = ft_kind l, ft_nullable = True \<rparr>)))"
| "check_expr row (ECast e target) =
     and_then (check_expr row e) (\<lambda>t.
       if target = TJson \<or> ft_kind t = Some TJson then Inl JsonCast
       else Inr \<lparr> ft_kind = Some target, ft_nullable = ft_nullable t \<rparr>)"
| "check_expr row (EAgg func arg) = Inl AggregateNotAllowed"
| "check_bools row nullable [] = Inr nullable"
| "check_bools row nullable (item # items) =
     and_then (check_expr row item) (\<lambda>ty. and_then (bool_operand ''boolean'' ty) (\<lambda>_.
       check_bools row (nullable \<or> ft_nullable ty) items))"
| "check_in row k nullable [] = Inr nullable"
| "check_in row k nullable (item # items) =
     and_then (check_expr row item) (\<lambda>t. and_then (compatible_cmp k (ft_kind t)) (\<lambda>_.
       check_in row k (nullable \<or> ft_nullable t) items))"
| "check_coalesce row k nullable [] = Inr \<lparr> ft_kind = k, ft_nullable = nullable \<rparr>"
| "check_coalesce row k nullable (item # items) =
     and_then (check_expr row item) (\<lambda>t. and_then (unify k (ft_kind t)) (\<lambda>k'.
       check_coalesce row k' (nullable \<and> ft_nullable t) items))"

definition check_predicate :: "string \<Rightarrow> RowType \<Rightarrow> Expr \<Rightarrow> ValidateError + unit" where
  "check_predicate context row e = and_then (check_expr row e) (bool_operand context)"

definition check_sort_keys :: "RowType \<Rightarrow> SortKey list \<Rightarrow> ValidateError + unit" where
  "check_sort_keys row keys =
     each (\<lambda>key. and_then (check_expr row (sk_expr key)) (\<lambda>ty.
       ensure (ft_kind ty \<noteq> Some TJson) (JsonNotOrderable ''order by''))) keys"

definition check_aggregate :: "RowType \<Rightarrow> Expr \<Rightarrow> ValidateError + FieldType" where
  "check_aggregate row e =
     (case e of
        EAgg func arg \<Rightarrow>
          and_then (check_expr row arg) (\<lambda>t.
            Inr (case func of
                   AggCount \<Rightarrow> ft_of TI64 False
                 | AggAvg \<Rightarrow> ft_of TF64 True
                 | _ \<Rightarrow> \<lparr> ft_kind = ft_kind t, ft_nullable = True \<rparr>))
      | _ \<Rightarrow> Inl AggregateNotAllowed)"

section \<open>Plans\<close>

definition schema_lookup :: "SchemaView \<Rightarrow> bytes \<Rightarrow> ValidateError + TableDef" where
  "schema_lookup schema table = and_then (map_err VSchema (schema table)) (ok_or (VUnknownTable table))"

definition output_name :: "Expr \<Rightarrow> nat \<Rightarrow> bytes" where
  "output_name e index =
     (case e of EColumn _ column \<Rightarrow> column | _ \<Rightarrow> str_bytes ''col'' @ decimal (int index + 1))"

definition output_name_of :: "Projection \<Rightarrow> nat \<Rightarrow> bytes" where
  "output_name_of item index = (case item of AliasedItem nm _ \<Rightarrow> nm | PlainItem e \<Rightarrow> output_name e index)"

definition item_expr :: "Projection \<Rightarrow> Expr" where
  "item_expr item = (case item of AliasedItem _ e \<Rightarrow> e | PlainItem e \<Rightarrow> e)"

fun check_plan :: "SchemaView \<Rightarrow> Plan \<Rightarrow> ValidateError + RowType" where
  "check_plan schema (PScan table alias) =
     and_then (schema_lookup schema table) (\<lambda>t. Inr (row_of_table t (case alias of Some a \<Rightarrow> a | None \<Rightarrow> table)))"
| "check_plan schema (PIndexScan table alias index prefix) =
     and_then (schema_lookup schema table) (\<lambda>t. Inr (row_of_table t (case alias of Some a \<Rightarrow> a | None \<Rightarrow> table)))"
| "check_plan schema (PPkLookup table alias key) =
     and_then (schema_lookup schema table) (\<lambda>t. Inr (row_of_table t (case alias of Some a \<Rightarrow> a | None \<Rightarrow> table)))"
| "check_plan schema (PFilter input pred) =
     and_then (check_plan schema input) (\<lambda>row. and_then (check_predicate ''where'' row pred) (\<lambda>_. Inr row))"
| "check_plan schema (PJoin k left right on) =
     and_then (check_plan schema left) (\<lambda>l. and_then (check_plan schema right) (\<lambda>r.
       let combined = l @ (if k = LeftJoin then made_nullable r else r) in
       and_then (case on of Some e \<Rightarrow> check_predicate ''join on'' combined e | None \<Rightarrow> Inr ()) (\<lambda>_. Inr combined)))"
| "check_plan schema (PAggregate input by aggs) =
     and_then (check_plan schema input) (\<lambda>row.
     and_then (each (\<lambda>key. and_then (check_expr row key) (\<lambda>ty.
                 ensure (ft_kind ty \<noteq> Some TJson) (JsonNotOrderable ''group by''))) by) (\<lambda>_.
     and_then (collect_res (\<lambda>(nm, e). and_then (check_aggregate row e) (\<lambda>ty.
                 Inr \<lparr> sl_qualifier = None, sl_name = nm, sl_ty = ty \<rparr>)) aggs) (\<lambda>slots. Inr (row @ slots))))"
| "check_plan schema (PProject input items) =
     and_then (check_plan schema input) (\<lambda>row.
       collect_res (\<lambda>(i, item). and_then (check_expr row (item_expr item)) (\<lambda>ty.
         Inr \<lparr> sl_qualifier = None, sl_name = output_name_of item i, sl_ty = ty \<rparr>)) (enumerate 0 items))"
| "check_plan schema (PDistinct input) = check_plan schema input"
| "check_plan schema (PLimit input limit offset) = check_plan schema input"
| "check_plan schema (PCursor input token) = check_plan schema input"
| "check_plan schema (PSort input keys) =
     and_then (check_plan schema input) (\<lambda>row. and_then (check_sort_keys row keys) (\<lambda>_. Inr row))"

definition validate_select :: "SchemaView \<Rightarrow> Select \<Rightarrow> ValidateError + OutputColumn list" where
  "validate_select schema select =
     and_then (map_err VLower (lower select)) (\<lambda>plan. and_then (check_plan schema plan) (\<lambda>row. Inr (into_output row)))"

section \<open>Writes\<close>

definition reject_engine_managed :: "ColumnDef \<Rightarrow> ValidateError + unit" where
  "reject_engine_managed col = ensure (\<not> (cd_rowversion col \<or> cd_on_update_now col)) (EngineManagedWrite (cd_name col))"

definition table_column :: "TableDef \<Rightarrow> bytes \<Rightarrow> ValidateError + ColumnDef" where
  "table_column t nm = ok_or (VUnknownColumn (Some (td_name t)) nm) (Option.bind (col_index t nm) (get_at (td_columns t)))"

definition validate_insert :: "SchemaView \<Rightarrow> Insert \<Rightarrow> ValidateError + unit" where
  "validate_insert schema ins =
     and_then (schema_lookup schema (ins_table ins)) (\<lambda>t.
       each (each (\<lambda>(nm, v). and_then (table_column t nm) reject_engine_managed)) (ins_rows ins))"

definition validate_delete :: "SchemaView \<Rightarrow> Delete \<Rightarrow> ValidateError + unit" where
  "validate_delete schema del =
     and_then (schema_lookup schema (del_table del)) (\<lambda>t.
       case del_selector del of
         None \<Rightarrow> Inl MissingSelector
       | Some SelAll \<Rightarrow> Inr ()
       | Some (SelWhere pred) \<Rightarrow> check_predicate ''where'' (row_of_table t (td_name t)) pred)"

definition assignable :: "bytes \<Rightarrow> ColumnDef \<Rightarrow> FieldType \<Rightarrow> ValidateError + unit" where
  "assignable nm col ty =
     (case ft_kind ty of
        None \<Rightarrow> Inr ()
      | Some k \<Rightarrow> ensure (k = cd_kind col) (AssignTypeMismatch nm (cd_kind col) (kind_as_str k)))"

fun references_column :: "Expr \<Rightarrow> bool" where
  "references_column (EColumn _ _) = True"
| "references_column (ELiteral _) = False"
| "references_column (ECmp _ lhs rhs) = (references_column lhs \<or> references_column rhs)"
| "references_column (EArith _ lhs rhs) = (references_column lhs \<or> references_column rhs)"
| "references_column (ENullIf lhs rhs) = (references_column lhs \<or> references_column rhs)"
| "references_column (EAnd items) = list_ex references_column items"
| "references_column (EOr items) = list_ex references_column items"
| "references_column (ECoalesce items) = list_ex references_column items"
| "references_column (ENot inner) = references_column inner"
| "references_column (EIsNull inner) = references_column inner"
| "references_column (EIsNotNull inner) = references_column inner"
| "references_column (EAgg _ arg) = references_column arg"
| "references_column (ECast e _) = references_column e"
| "references_column (ELike e _ _) = references_column e"
| "references_column (EBetween e lo hi) = (references_column e \<or> references_column lo \<or> references_column hi)"
| "references_column (EInList e items) = (references_column e \<or> list_ex references_column items)"

definition guards_column :: "TableDef \<Rightarrow> Expr \<Rightarrow> bool" where
  "guards_column t e =
     (case e of
        EColumn table column \<Rightarrow>
          (case table of Some q \<Rightarrow> q = td_name t | None \<Rightarrow> True)
          \<and> list_ex (\<lambda>c. cd_name c = column \<and> (cd_update c = Guarded \<or> cd_rowversion c)) (td_columns t)
      | _ \<Rightarrow> False)"

fun has_guard_predicate :: "TableDef \<Rightarrow> Expr \<Rightarrow> bool" where
  "has_guard_predicate t (EAnd items) = list_ex (has_guard_predicate t) items"
| "has_guard_predicate t (ECmp _ lhs rhs) = (guards_column t lhs \<or> guards_column t rhs)"
| "has_guard_predicate t (EBetween e _ _) = guards_column t e"
| "has_guard_predicate t (EInList e _) = guards_column t e"
| "has_guard_predicate t _ = False"

definition validate_set :: "TableDef \<Rightarrow> bool \<Rightarrow> bool \<Rightarrow> bytes \<times> Expr \<Rightarrow> ValidateError + unit" where
  "validate_set t unconditional guarded_by_where s =
     (case s of (nm, e) \<Rightarrow>
        and_then (table_column t nm) (\<lambda>col.
        and_then (ensure (nm \<notin> set (td_pk t)) (VPkImmutable nm)) (\<lambda>_.
        and_then (reject_engine_managed col) (\<lambda>_.
        and_then (check_expr (row_of_table t (td_name t)) e) (\<lambda>ty.
        and_then (assignable nm col ty) (\<lambda>_.
          ensure (\<not> (cd_update col = Guarded \<and> (unconditional \<or> (\<not> references_column e \<and> \<not> guarded_by_where))))
            (GuardedBlindSet nm)))))))"

definition validate_update :: "SchemaView \<Rightarrow> Update \<Rightarrow> ValidateError + unit" where
  "validate_update schema upd =
     and_then (schema_lookup schema (upd_table upd)) (\<lambda>t.
       case upd_selector upd of
         None \<Rightarrow> Inl MissingSelector
       | Some sel \<Rightarrow>
           and_then (case sel of SelWhere pred \<Rightarrow> check_predicate ''where'' (row_of_table t (td_name t)) pred | SelAll \<Rightarrow> Inr ()) (\<lambda>_.
             each (validate_set t (upd_unconditional upd) (case sel of SelWhere pred \<Rightarrow> has_guard_predicate t pred | SelAll \<Rightarrow> False))
               (upd_set upd)))"

datatype Validated = ReadOutput "OutputColumn list" | WriteOutput

fun validate_request :: "SchemaView \<Rightarrow> Request \<Rightarrow> ValidateError + Validated" where
  "validate_request schema (RqSelect select) = and_then (validate_select schema select) (\<lambda>out. Inr (ReadOutput out))"
| "validate_request schema (RqExplain select) = and_then (validate_select schema select) (\<lambda>out. Inr (ReadOutput out))"
| "validate_request schema (RqInsert ins) = and_then (validate_insert schema ins) (\<lambda>_. Inr WriteOutput)"
| "validate_request schema (RqUpdate upd) = and_then (validate_update schema upd) (\<lambda>_. Inr WriteOutput)"
| "validate_request schema (RqDelete del) = and_then (validate_delete schema del) (\<lambda>_. Inr WriteOutput)"
| "validate_request schema (RqTransaction rqs) =
     and_then (each (\<lambda>rq. and_then (validate_request schema rq) (\<lambda>_. Inr ())) rqs) (\<lambda>_. Inr WriteOutput)"

end
