(* ===== verification/Like.thy ===== *)
theory Like
  imports Eval
begin

text \<open>
  Correctness of the \<open>LIKE\<close> matcher: the loop that backtracks to the last \<open>%\<close> always returns, and
  on texts without a \<open>%\<close> character it decides the relation \<open>likes\<close> between patterns and texts.
\<close>

section \<open>The meaning of a pattern\<close>

inductive likes :: "bytes list \<Rightarrow> bytes list \<Rightarrow> bool" where
  likes_end: "likes [] []"
| likes_any: "likes p t \<Longrightarrow> likes (PERCENT # p) (u @ t)"
| likes_one: "likes p t \<Longrightarrow> likes (UNDERSCORE # p) (c # t)"
| likes_char: "likes p t \<Longrightarrow> c \<noteq> PERCENT \<Longrightarrow> likes (c # p) (c # t)"

inductive_simps likes_Nil [simp]: "likes [] t"
inductive_cases likes_ConsE: "likes (c # p) t"

lemma likes_percent: "likes (PERCENT # p) t \<longleftrightarrow> (\<exists>k \<le> length t. likes p (drop k t))"
proof
  assume "likes (PERCENT # p) t"
  then obtain u t' where "t = u @ t'" "likes p t'" by (auto elim: likes_ConsE)
  then show "\<exists>k \<le> length t. likes p (drop k t)" by (intro exI [of _ "length u"]) simp
next
  assume "\<exists>k \<le> length t. likes p (drop k t)"
  then obtain k where "likes p (drop k t)" by blast
  from likes_any [OF this, of "take k t"] show "likes (PERCENT # p) t" by simp
qed

lemma likes_other:
  assumes "c \<noteq> PERCENT"
  shows "likes (c # p) t \<longleftrightarrow> (\<exists>d t'. t = d # t' \<and> (c = UNDERSCORE \<or> c = d) \<and> likes p t')"
  using assms likes_one likes_char by (auto elim!: likes_ConsE)

lemma likes_suffix: "likes (PERCENT # p) (drop k t) \<Longrightarrow> likes (PERCENT # p) t"
proof -
  assume "likes (PERCENT # p) (drop k t)"
  then obtain j where "j \<le> length (drop k t)" "likes p (drop (j + k) t)" by (auto simp: likes_percent add.commute)
  then show ?thesis
    unfolding likes_percent by (cases "j + k \<le> length t") (auto intro: exI [of _ "length t"] exI [of _ "j + k"])
qed

lemma likes_empty: "likes p [] \<longleftrightarrow> list_all (\<lambda>c. c = PERCENT) p"
proof (induction p)
  case (Cons c p)
  then show ?case by (cases "c = PERCENT") (auto simp: likes_percent likes_other)
qed simp

text \<open>A prefix without \<open>%\<close> consumes one character each.\<close>

lemma likes_prefix:
  assumes "likes (q @ p) t" "PERCENT \<notin> set q"
  shows "length q \<le> length t \<and> likes p (drop (length q) t)"
  using assms
proof (induction q arbitrary: t)
  case (Cons c q)
  then obtain d t' where "t = d # t'" "likes (q @ p) t'" by (auto simp: likes_other)
  then show ?case using Cons by simp
qed simp

section \<open>The loop\<close>

text \<open>What the loop knows of the last \<open>%\<close>: since then text and pattern advanced together, over
  pattern characters that are not \<open>%\<close>.\<close>

definition star_ok :: "bytes list \<Rightarrow> nat \<Rightarrow> nat \<Rightarrow> nat option \<Rightarrow> nat \<Rightarrow> bool" where
  "star_ok p i j star resume \<longleftrightarrow>
     (\<forall>s. star = Some s \<longrightarrow> s < j \<and> resume \<le> i \<and> i - resume = j - Suc s \<and> PERCENT \<notin> set (take (j - Suc s) (drop (Suc s) p)))"

definition retry :: "bytes list \<Rightarrow> bytes list \<Rightarrow> nat option \<Rightarrow> nat \<Rightarrow> bool" where
  "retry t p star resume \<longleftrightarrow> (\<exists>s k. star = Some s \<and> resume < k \<and> k \<le> length t \<and> likes (drop (Suc s) p) (drop k t))"

text \<open>A later start of the text after the last \<open>%\<close> has to get past the current position.\<close>

lemma retry_prefix:
  assumes "star_ok p i j (Some s) resume" "j \<le> length p" "resume < k" "k \<le> length t" "likes (drop (Suc s) p) (drop k t)"
  shows "k + (j - Suc s) \<le> length t \<and> i < k + (j - Suc s) \<and> likes (drop j p) (drop (k + (j - Suc s)) t)"
proof -
  define q where "q = take (j - Suc s) (drop (Suc s) p)"
  have s: "s < j" "resume \<le> i" "i - resume = j - Suc s" "PERCENT \<notin> set q"
    using assms(1) by (auto simp: star_ok_def q_def)
  have q: "length q = j - Suc s" "drop (Suc s) p = q @ drop j p"
    using s(1) assms(2) by (simp_all add: q_def) (metis Suc_leI append_take_drop_id drop_drop le_add_diff_inverse add.commute)
  from likes_prefix [of q "drop j p" "drop k t"] assms(5) s(4) q
  have "length q \<le> length t - k" "likes (drop j p) (drop (length q + k) t)" by simp_all
  moreover from this have "k + length q \<le> length t" "i < k + length q" using q(1) s(2,3) assms(3,4) by linarith+
  ultimately show ?thesis using q(1) by (simp add: add.commute)
qed

lemma like_loop_correct:
  assumes "PERCENT \<notin> set t" "i \<le> length t" "j \<le> length p" "star_ok p i j star resume"
  shows "like_loop t p i j star resume = Some (likes (drop j p) (drop i t) \<or> retry t p star resume)"
  using assms(2-4)
proof (induction "(case star of None \<Rightarrow> Suc (length p) | Some s \<Rightarrow> length p - s, length t - resume, length t - i)"
    arbitrary: i j star resume
    rule: wf_induct_rule [OF wf_lex_prod [OF wf_less_than wf_lex_prod [OF wf_less_than wf_less_than]]])
  case (1 i star resume j)
  note IH = 1(1) and le = 1(2,3) and star = 1(4)
  show ?case
  proof (cases "i < length t")
    case False
    then have i: "i = length t" using le(1) by simp
    have "\<not> retry t p star resume"
      using retry_prefix [of p i j _ resume _ t] star le(2) i by (fastforce simp: retry_def)
    then show ?thesis using i by (subst like_loop.simps) (simp add: likes_empty)
  next
    case i: True
    then have ti: "drop i t = t ! i # drop (Suc i) t" by (simp add: Cons_nth_drop_Suc)
    have t: "t ! i \<noteq> PERCENT" using assms(1) i nth_mem by metis
    consider (char) "j < length p" "p ! j = UNDERSCORE \<or> p ! j = t ! i" "p ! j \<noteq> PERCENT"
      | (any) "j < length p" "p ! j = PERCENT"
      | (stuck) "j < length p \<longrightarrow> p ! j \<noteq> PERCENT \<and> p ! j \<noteq> UNDERSCORE \<and> p ! j \<noteq> t ! i"
      using t by (cases "j < length p") fastforce+
    then show ?thesis
    proof cases
      case char
      have pj: "drop j p = p ! j # drop (Suc j) p" using char(1) by (simp add: Cons_nth_drop_Suc)
      have "star_ok p (Suc i) (Suc j) star resume"
      proof -
        have "take (Suc j - Suc s) (drop (Suc s) p) = take (j - Suc s) (drop (Suc s) p) @ [p ! j]" if "s < j" for s
          using that char(1) by (simp add: Suc_diff_Suc [symmetric] take_Suc_conv_app_nth Suc_diff_le)
        then show ?thesis using star char(3) by (auto simp: star_ok_def Suc_diff_le)
      qed
      then have "like_loop t p (Suc i) (Suc j) star resume = Some (likes (drop (Suc j) p) (drop (Suc i) t) \<or> retry t p star resume)"
        using IH i char(1) by simp
      moreover have "likes (drop j p) (drop i t) \<longleftrightarrow> likes (drop (Suc j) p) (drop (Suc i) t)"
        using char by (auto simp: pj ti likes_other)
      ultimately show ?thesis using i char by (subst like_loop.simps) simp
    next
      case any
      have pj: "drop j p = PERCENT # drop (Suc j) p" using any by (simp add: Cons_nth_drop_Suc [symmetric])
      have dec: "length p - j < (case star of None \<Rightarrow> Suc (length p) | Some s \<Rightarrow> length p - s)"
        using star any(1) by (auto simp: star_ok_def split: option.splits)
      have "like_loop t p i (Suc j) (Some j) i = Some (likes (drop (Suc j) p) (drop i t) \<or> retry t p (Some j) i)"
        using IH [where ?i = i and ?j = "Suc j" and ?star = "Some j" and ?resume = i] dec i any(1)
        by (simp add: star_ok_def)
      moreover have "likes (drop (Suc j) p) (drop i t) \<or> retry t p (Some j) i \<longleftrightarrow> likes (drop j p) (drop i t)"
      proof -
        have "likes (drop (Suc j) p) (drop i t) \<or> retry t p (Some j) i \<longleftrightarrow>
            (\<exists>k. i \<le> k \<and> k \<le> length t \<and> likes (drop (Suc j) p) (drop k t))"
          using i by (auto simp: retry_def le_less)
        also have "\<dots> \<longleftrightarrow> likes (drop j p) (drop i t)"
        proof
          assume "\<exists>k. i \<le> k \<and> k \<le> length t \<and> likes (drop (Suc j) p) (drop k t)"
          then obtain k where k: "i \<le> k" "k \<le> length t" "likes (drop (Suc j) p) (drop k t)" by blast
          then have "k - i \<le> length (drop i t)" "likes (drop (Suc j) p) (drop (k - i) (drop i t))" by simp_all
          then show "likes (drop j p) (drop i t)" unfolding pj likes_percent by blast
        next
          assume "likes (drop j p) (drop i t)"
          then obtain k where "k \<le> length (drop i t)" "likes (drop (Suc j) p) (drop k (drop i t))"
            unfolding pj likes_percent by blast
          then show "\<exists>k. i \<le> k \<and> k \<le> length t \<and> likes (drop (Suc j) p) (drop k t)"
            using i by (intro exI [of _ "k + i"]) auto
        qed
        finally show ?thesis .
      qed
      moreover have "likes (drop j p) (drop i t)" if "retry t p star resume"
      proof -
        from that obtain s k where k: "star = Some s" "resume < k" "k \<le> length t" "likes (drop (Suc s) p) (drop k t)"
          by (auto simp: retry_def)
        let ?m = "k + (j - Suc s)"
        have "i < ?m" "likes (drop j p) (drop ?m t)"
          using retry_prefix [of p i j s resume k t] star le(2) k by auto
        then have "likes (drop j p) (drop (?m - i) (drop i t))" by simp
        then show ?thesis unfolding pj by (rule likes_suffix)
      qed
      ultimately show ?thesis using i any t by (subst like_loop.simps) auto
    next
      case stuck
      have no: "\<not> likes (drop j p) (drop i t)"
      proof (cases "j < length p")
        case True
        then have "drop j p = p ! j # drop (Suc j) p" by (simp add: Cons_nth_drop_Suc)
        then show ?thesis using stuck True by (simp add: ti likes_other)
      qed (simp add: ti)
      show ?thesis
      proof (cases star)
        case None
        then show ?thesis using i stuck no by (subst like_loop.simps) (auto simp: retry_def)
      next
        case (Some s)
        have r: "resume \<le> i" "s < j" using star Some by (auto simp: star_ok_def)
        have dec: "length t - Suc resume < length t - resume" using r(1) i by linarith
        have "like_loop t p (Suc resume) (Suc s) star (Suc resume) =
            Some (likes (drop (Suc s) p) (drop (Suc resume) t) \<or> retry t p star (Suc resume))"
          using IH [where ?i = "Suc resume" and ?j = "Suc s" and ?star = star and ?resume = "Suc resume"] Some r i le(2) dec
          by (simp add: star_ok_def)
        moreover have "likes (drop (Suc s) p) (drop (Suc resume) t) \<or> retry t p star (Suc resume) \<longleftrightarrow> retry t p star resume"
        proof -
          have "(\<exists>k. resume < k \<and> k \<le> length t \<and> Q k) \<longleftrightarrow> Q (Suc resume) \<or> (\<exists>k. Suc resume < k \<and> k \<le> length t \<and> Q k)"
            if "Suc resume \<le> length t" for Q using that by (metis Suc_lessD Suc_lessI lessI)
          then show ?thesis using r(1) i Some by (simp add: retry_def)
        qed
        ultimately show ?thesis using i stuck no Some by (subst like_loop.simps) auto
      qed
    qed
  qed
qed

section \<open>Properties\<close>

lemma like_match_loop:
  assumes "PERCENT \<notin> set (chars (if ci then to_lowercase ops txt else txt))"
  shows "like_match ops txt pattern ci \<longleftrightarrow>
    likes (chars (if ci then to_lowercase ops pattern else pattern)) (chars (if ci then to_lowercase ops txt else txt))"
  using like_loop_correct [OF assms, of 0 0 "chars (if ci then to_lowercase ops pattern else pattern)" None 0]
  by (cases ci) (auto simp: like_match_def Let_def star_ok_def retry_def)

text \<open>C17: \<open>LIKE\<close> is decided correctly on every string without a \<open>%\<close> character: the backtracking loop ends and
  answers whether the string is one the pattern describes, where \<open>%\<close> stands for any run of
  characters, \<open>_\<close> for exactly one, and every other character for itself; with \<open>ilike\<close>, after both sides
  are lowercased.\<close>

theorem like_match_correct:
  assumes "PERCENT \<notin> set (chars (if ci then to_lowercase ops txt else txt))"
  shows "(\<exists>b. like_loop (chars (if ci then to_lowercase ops txt else txt))
              (chars (if ci then to_lowercase ops pattern else pattern)) 0 0 None 0 = Some b)
    \<and> (like_match ops txt pattern ci \<longleftrightarrow>
        likes (chars (if ci then to_lowercase ops pattern else pattern)) (chars (if ci then to_lowercase ops txt else txt)))"
  using like_match_loop [OF assms]
    like_loop_correct [OF assms, of 0 0 "chars (if ci then to_lowercase ops pattern else pattern)" None 0]
  by (auto simp: star_ok_def)

definition plain_text :: text_ops where
  "plain_text = \<lparr> to_lowercase = map ascii_lower, f64_to_string = (\<lambda>_. []) \<rparr>"

theorem like_match_correct_witness:
  "like_match plain_text [0x68, 0x65, 0x6C, 0x6C, 0x6F] [0x68, 0x25, 0x6F] False"
proof -
  have "PERCENT \<notin> set (chars (if False then to_lowercase plain_text [0x68, 0x65, 0x6C, 0x6C, 0x6F] else [0x68, 0x65, 0x6C, 0x6C, 0x6F]))"
    by simp
  from like_match_correct [OF this, of "[0x68, 0x25, 0x6F]"]
  have "like_match plain_text [0x68, 0x65, 0x6C, 0x6C, 0x6F] [0x68, 0x25, 0x6F] False \<longleftrightarrow>
      likes [[0x68], PERCENT, [0x6F]] [[0x68], [0x65], [0x6C], [0x6C], [0x6F]]" by simp
  moreover have "likes ([0x68] # PERCENT # [[0x6F]]) ([0x68] # ([[0x65], [0x6C], [0x6C]] @ [[0x6F]]))"
    by (intro likes.intros) simp_all
  ultimately show ?thesis by simp
qed

text \<open>A \<open>%\<close> of the text is taken for a literal match of the pattern's \<open>%\<close>: the pattern \<open>%\<close>, which
  describes every text, rejects the text \<open>%a\<close>.\<close>

lemma like_percent_in_text:
  "\<not> like_match plain_text [0x25, 0x61] [0x25] False \<and> likes (chars [0x25]) (chars [0x25, 0x61])"
proof
  show "\<not> like_match plain_text [0x25, 0x61] [0x25] False"
    by (simp add: like_match_def like_loop.simps)
  show "likes (chars [0x25]) (chars [0x25, 0x61])"
    using likes_any [OF likes_end, of "[[0x25], [0x61]]"] by simp
qed

end
