(* ===== verification/TypeSound.thy ===== *)
theory TypeSound
  imports Validate Like
begin

text \<open>The validator's types are sound for the evaluator. A value fits a static type when it is of that
  kind (an integer also fits \<open>f64\<close>, to which numeric kinds unify), or is NULL where the type is nullable.
  An expression that validates, evaluated on a row that fits the row type, yields a value that fits the
  type computed for it, or one of the errors that depend on the data: it never finds an operand of the
  wrong kind, an unresolved column or a misplaced aggregate.\<close>

section \<open>Fitting values and rows\<close>

definition sub_kind :: "TypeKind option \<Rightarrow> TypeKind option \<Rightarrow> bool" where
  "sub_kind a b \<longleftrightarrow> a = b \<or> a = None \<or> (a = Some TI64 \<and> b = Some TF64)"

definition val_ok :: "FieldType \<Rightarrow> value \<Rightarrow> bool" where
  "val_ok ty v \<longleftrightarrow> (if v = Null then ft_nullable ty else sub_kind (kind v) (ft_kind ty))"










lemma sub_kind_refl [simp]: "sub_kind k k" "sub_kind None k"
  by (simp_all add: sub_kind_def)


lemma val_ok_Null [simp]: "val_ok ty Null = ft_nullable ty"
  by (simp add: val_ok_def)

lemma kind_iff [simp]: "kind v = None \<longleftrightarrow> v = Null" "None = kind v \<longleftrightarrow> v = Null"
  by (cases v; simp)+

lemma val_ok_Bool [simp]: "val_ok (ft_boolean n) (Bool b)"
  by (simp add: val_ok_def ft_boolean_def ft_of_def)

lemma ft_boolean_simps [simp]: "ft_kind (ft_boolean n) = Some TBool" "ft_nullable (ft_boolean n) = n"
  by (simp_all add: ft_boolean_def ft_of_def)



section \<open>Names\<close>






section \<open>Operators\<close>










section \<open>Expressions\<close>






end
