(* ===== verification/Exec.thy ===== *)
theory Exec
  imports Validate
begin

text \<open>The reference executor (\<open>query/src/exec.rs\<close>): it interprets a plan over a snapshot, materialising every
  intermediate relation. What it reads of a snapshot (\<open>catalog/src/db.rs\<close>) is the record \<open>snap_ops\<close>; reading a
  snapshot changes nothing but caches, so the operations are functions of their arguments.\<close>

section \<open>Relations and errors\<close>

record Relation =
  rel_shape :: Shape
  rel_rows :: "value list list"

datatype ExecError =
  ExEval EvalError | ExCatalog CatalogError | ExType TypeError
| ExBadCursor | ExResourceLimit bytes | ExUnsupported string

fun exec_error_category :: "ExecError \<Rightarrow> ErrorCategory" where
  "exec_error_category (ExEval e) = eval_error_category e"
| "exec_error_category (ExCatalog e) = catalog_error_category e"
| "exec_error_category (ExType e) = type_error_category e"
| "exec_error_category ExBadCursor = Validation"
| "exec_error_category (ExUnsupported _) = Validation"
| "exec_error_category (ExResourceLimit _) = ResourceLimit"

record snap_ops =
  sn_table :: "bytes \<Rightarrow> CatalogError + TableDef"
  sn_get :: "bytes \<Rightarrow> value list \<Rightarrow> CatalogError + value list option"
  sn_scan :: "bytes \<Rightarrow> CatalogError + value list list"
  sn_index_candidates :: "bytes \<Rightarrow> bytes \<Rightarrow> value list \<Rightarrow> CatalogError + value list list"

section \<open>Loops\<close>

text \<open>Keep the elements on which a fallible predicate is true; the first failure ends the loop.\<close>

fun retain_res :: "('a \<Rightarrow> 'e + bool) \<Rightarrow> 'a list \<Rightarrow> 'e + 'a list" where
  "retain_res f [] = Inr []"
| "retain_res f (x # xs) =
     and_then (f x) (\<lambda>b. and_then (retain_res f xs) (\<lambda>ys. Inr (if b then x # ys else ys)))"

text \<open>\<open>slice::sort_by\<close>: a stable sort.\<close>

fun insort_by :: "('a \<Rightarrow> 'a \<Rightarrow> Ordering) \<Rightarrow> 'a \<Rightarrow> 'a list \<Rightarrow> 'a list" where
  "insort_by f x [] = [x]"
| "insort_by f x (y # ys) = (if f x y \<noteq> Greater then x # y # ys else y # insort_by f x ys)"

definition sort_by :: "('a \<Rightarrow> 'a \<Rightarrow> Ordering) \<Rightarrow> 'a list \<Rightarrow> 'a list" where
  "sort_by f xs = foldr (insort_by f) xs []"

text \<open>\<open>Iterator::min_by\<close> returns the first of equal minima, \<open>max_by\<close> the last of equal maxima.\<close>

fun min_by :: "('a \<Rightarrow> 'a \<Rightarrow> Ordering) \<Rightarrow> 'a list \<Rightarrow> 'a option" where
  "min_by f [] = None"
| "min_by f (x # xs) = Some (foldl (\<lambda>a b. if f a b = Greater then b else a) x xs)"

fun max_by :: "('a \<Rightarrow> 'a \<Rightarrow> Ordering) \<Rightarrow> 'a list \<Rightarrow> 'a option" where
  "max_by f [] = None"
| "max_by f (x # xs) = Some (foldl (\<lambda>a b. if f a b = Greater then a else b) x xs)"

text \<open>Equality of rows is equality of their values.\<close>

definition row_eq :: "value list \<Rightarrow> value list \<Rightarrow> bool" where
  "row_eq a b \<longleftrightarrow> list_all2 value_eq a b"

section \<open>Access paths\<close>

definition table_shape :: "TableDef \<Rightarrow> bytes \<Rightarrow> Shape" where
  "table_shape t qualifier = map (\<lambda>c. \<lparr> bc_qualifier = Some qualifier, bc_name = cd_name c \<rparr>) (td_columns t)"

definition pk_lookup :: "snap_ops \<Rightarrow> bytes \<Rightarrow> bytes option \<Rightarrow> value list \<Rightarrow> ExecError + Relation" where
  "pk_lookup snap table alias key =
     and_then (map_err ExCatalog (sn_table snap table)) (\<lambda>t.
     and_then (map_err ExCatalog (sn_get snap table key)) (\<lambda>hit.
       Inr \<lparr> rel_shape = table_shape t (case alias of Some a \<Rightarrow> a | None \<Rightarrow> table),
             rel_rows = (case hit of Some row \<Rightarrow> [row] | None \<Rightarrow> []) \<rparr>))"

text \<open>The equality test that decides which candidate rows an index probe keeps.\<close>

definition matches_prefix :: "nat list \<Rightarrow> value list \<Rightarrow> value list \<Rightarrow> bool" where
  "matches_prefix cols prefix row \<longleftrightarrow>
     list_all (\<lambda>(want, ci). case get_at row ci of Some got \<Rightarrow> value_eq got want | None \<Rightarrow> False) (zip prefix cols)"

definition scan :: "snap_ops \<Rightarrow> bytes \<Rightarrow> bytes option \<Rightarrow> (bytes \<times> value list) option \<Rightarrow> ExecError + Relation" where
  "scan snap table alias index =
     and_then (map_err ExCatalog (sn_table snap table)) (\<lambda>t.
     and_then (map_err ExCatalog
         (case index of
            Some (nm, prefix) \<Rightarrow>
              if prefix \<noteq> [] \<and> list_ex (\<lambda>i. ix_name i = nm) (td_indexes t)
              then sn_index_candidates snap table nm prefix else sn_scan snap table
          | None \<Rightarrow> sn_scan snap table)) (\<lambda>rows.
       Inr \<lparr> rel_shape = table_shape t (case alias of Some a \<Rightarrow> a | None \<Rightarrow> table),
             rel_rows =
               (case index of
                  Some (nm, prefix) \<Rightarrow>
                    (case find (\<lambda>i. ix_name i = nm) (td_indexes t) of
                       Some idx \<Rightarrow> filter (matches_prefix (List.map_filter (col_index t) (ix_columns idx)) prefix) rows
                     | None \<Rightarrow> rows)
                | None \<Rightarrow> rows) \<rparr>))"

section \<open>Joins\<close>

text \<open>One left row against all right rows. It is unmatched when no combination is kept.\<close>

definition join_row :: "text_ops \<Rightarrow> JoinKind \<Rightarrow> Expr option \<Rightarrow> Shape \<Rightarrow> nat \<Rightarrow> value list list \<Rightarrow> value list \<Rightarrow>
    ExecError + value list list" where
  "join_row ops k on shape right_width rrows lrow =
     and_then (retain_res (\<lambda>combined. case on of None \<Rightarrow> Inr True | Some pred \<Rightarrow> map_err ExEval (eval_predicate ops combined shape pred))
         (map (\<lambda>rrow. lrow @ rrow) rrows)) (\<lambda>rows.
       Inr (if k = LeftJoin \<and> rows = [] then [lrow @ replicate right_width Null] else rows))"

definition join :: "text_ops \<Rightarrow> JoinKind \<Rightarrow> Relation \<Rightarrow> Relation \<Rightarrow> Expr option \<Rightarrow> ExecError + Relation" where
  "join ops k l r on =
     (let shape = rel_shape l @ rel_shape r in
      and_then (collect_res (join_row ops k on shape (length (rel_shape r)) (rel_rows r)) (rel_rows l)) (\<lambda>rows.
        Inr \<lparr> rel_shape = shape, rel_rows = concat rows \<rparr>))"

section \<open>Aggregation\<close>

definition as_f64 :: "value \<Rightarrow> f64" where
  "as_f64 v = (case v of I64 n \<Rightarrow> f64_of_i64 n | F64 f \<Rightarrow> f | _ \<Rightarrow> f64_NAN)"

fun sum_i64 :: "i64 \<Rightarrow> value list \<Rightarrow> EvalError + i64" where
  "sum_i64 acc [] = Inr acc"
| "sum_i64 acc (v # vs) =
     (case v of
        I64 n \<Rightarrow> and_then (ok_or (Overflow ''sum'') (to_i64 (sint acc + sint n))) (\<lambda>acc. sum_i64 acc vs)
      | _ \<Rightarrow> sum_i64 acc vs)"

definition is_f64 :: "value \<Rightarrow> bool" where
  "is_f64 v \<longleftrightarrow> (case v of F64 _ \<Rightarrow> True | _ \<Rightarrow> False)"

definition agg_sum :: "value list \<Rightarrow> EvalError + value" where
  "agg_sum vals =
     (if vals = [] then Inr Null
      else if list_ex is_f64 vals then Inr (F64 (foldl (\<lambda>acc v. f64_add acc (as_f64 v)) 0 vals))
      else and_then (sum_i64 0 vals) (\<lambda>acc. Inr (I64 acc)))"

text \<open>The neutral element of \<open>Sum for f64\<close> is \<open>-0.0\<close>.\<close>

definition agg_avg :: "value list \<Rightarrow> value" where
  "agg_avg vals =
     (if vals = [] then Null
      else F64 (f64_div (foldl f64_add SIGN (map as_f64 vals)) (f64_round False (int (length vals)) 1)))"

definition compute_agg :: "text_ops \<Rightarrow> Relation \<Rightarrow> nat list \<Rightarrow> Expr \<Rightarrow> EvalError + value" where
  "compute_agg ops input members e =
     (case e of
        EAgg func arg \<Rightarrow>
          and_then (collect_res (\<lambda>i. eval ops (rel_rows input ! i) (rel_shape input) arg) members) (\<lambda>vs.
            let vals = filter (\<lambda>v. v \<noteq> Null) vs in
            case func of
              AggCount \<Rightarrow> Inr (I64 (of_nat (length vals)))
            | AggMin \<Rightarrow> Inr (case min_by value_order vals of Some v \<Rightarrow> v | None \<Rightarrow> Null)
            | AggMax \<Rightarrow> Inr (case max_by value_order vals of Some v \<Rightarrow> v | None \<Rightarrow> Null)
            | AggSum \<Rightarrow> agg_sum vals
            | AggAvg \<Rightarrow> Inr (agg_avg vals))
      | _ \<Rightarrow> Inr Null)"

text \<open>The buckets in the order their keys first appear, each with the positions of its rows.\<close>

fun add_member :: "value list \<Rightarrow> nat \<Rightarrow> (value list \<times> nat list) list \<Rightarrow> (value list \<times> nat list) list" where
  "add_member key i [] = [(key, [i])]"
| "add_member key i ((k, members) # groups) =
     (if row_eq k key then (k, members @ [i]) # groups else (k, members) # add_member key i groups)"

fun bucket :: "text_ops \<Rightarrow> Shape \<Rightarrow> Expr list \<Rightarrow> (value list \<times> nat list) list \<Rightarrow> (nat \<times> value list) list \<Rightarrow>
    EvalError + (value list \<times> nat list) list" where
  "bucket ops shape by groups [] = Inr groups"
| "bucket ops shape by groups ((i, row) # rows) =
     and_then (collect_res (eval ops row shape) by) (\<lambda>key. bucket ops shape by (add_member key i groups) rows)"

definition aggregate :: "text_ops \<Rightarrow> Relation \<Rightarrow> Expr list \<Rightarrow> (bytes \<times> Expr) list \<Rightarrow> ExecError + Relation" where
  "aggregate ops input by aggs =
     and_then (map_err ExEval (bucket ops (rel_shape input) by [] (enumerate 0 (rel_rows input)))) (\<lambda>buckets.
     let groups = map snd buckets;
         groups = (if by = [] \<and> groups = [] then [[]] else groups) in
     and_then (collect_res (\<lambda>members.
         and_then (map_err ExEval (collect_res (\<lambda>(_, e). compute_agg ops input members e) aggs)) (\<lambda>outs.
           Inr ((case members of first # _ \<Rightarrow> rel_rows input ! first
                 | [] \<Rightarrow> replicate (length (rel_shape input)) Null) @ outs))) groups) (\<lambda>rows.
       Inr \<lparr> rel_shape = rel_shape input @ map (\<lambda>(nm, _). \<lparr> bc_qualifier = None, bc_name = nm \<rparr>) aggs,
             rel_rows = rows \<rparr>))"

section \<open>Projection, duplicates, order, limits\<close>

definition project_shape :: "Projection list \<Rightarrow> Shape" where
  "project_shape items =
     map (\<lambda>(i, item). \<lparr> bc_qualifier = None, bc_name = output_name_of item i \<rparr>) (enumerate 0 items)"

definition project_row :: "text_ops \<Rightarrow> Shape \<Rightarrow> Projection list \<Rightarrow> value list \<Rightarrow> EvalError + value list" where
  "project_row ops shape items row = collect_res (\<lambda>item. eval ops row shape (item_expr item)) items"

definition project :: "text_ops \<Rightarrow> Relation \<Rightarrow> Projection list \<Rightarrow> ExecError + Relation" where
  "project ops input items =
     and_then (map_err ExEval (collect_res (project_row ops (rel_shape input) items) (rel_rows input))) (\<lambda>rows.
       Inr \<lparr> rel_shape = project_shape items, rel_rows = rows \<rparr>)"

definition add_distinct :: "value list list \<Rightarrow> value list \<Rightarrow> value list list" where
  "add_distinct seen row = (if list_ex (\<lambda>s. row_eq s row) seen then seen else seen @ [row])"

definition distinct_rel :: "Relation \<Rightarrow> Relation" where
  "distinct_rel input = input\<lparr> rel_rows := foldl add_distinct [] (rel_rows input) \<rparr>"

text \<open>The comparator of the sort: the keys of the two rows in turn, each in its direction.\<close>

fun sort_cmp :: "SortKey list \<Rightarrow> value list \<Rightarrow> value list \<Rightarrow> Ordering" where
  "sort_cmp (k # ks) (x # a) (y # b) =
     (let ord = value_order x y;
          ord = (if sk_dir k = Desc then reverse_ord ord else ord)
      in if ord \<noteq> Equal then ord else sort_cmp ks a b)"
| "sort_cmp _ _ _ = Equal"

definition sort_keys_of :: "text_ops \<Rightarrow> SortKey list \<Rightarrow> Shape \<Rightarrow> value list \<Rightarrow> EvalError + value list" where
  "sort_keys_of ops keys shape row = collect_res (\<lambda>k. eval ops row shape (sk_expr k)) keys"

definition sort_rel :: "text_ops \<Rightarrow> Relation \<Rightarrow> SortKey list \<Rightarrow> ExecError + Relation" where
  "sort_rel ops input keys =
     and_then (map_err ExEval (collect_res (\<lambda>row.
         and_then (sort_keys_of ops keys (rel_shape input) row) (\<lambda>ks. Inr (ks, row))) (rel_rows input))) (\<lambda>keyed.
       Inr (input\<lparr> rel_rows := map snd (sort_by (\<lambda>a b. sort_cmp keys (fst a) (fst b)) keyed) \<rparr>))"

definition apply_limit :: "Relation \<Rightarrow> u64 option \<Rightarrow> u64 \<Rightarrow> Relation" where
  "apply_limit input limit offset =
     input\<lparr> rel_rows := (case limit of Some n \<Rightarrow> take (unat n) | None \<Rightarrow> id) (drop (unat offset) (rel_rows input)) \<rparr>"

section \<open>Execution\<close>

fun execute :: "text_ops \<Rightarrow> snap_ops \<Rightarrow> Plan \<Rightarrow> ExecError + Relation" where
  "execute ops snap (PScan table alias) = scan snap table alias None"
| "execute ops snap (PIndexScan table alias index prefix) = scan snap table alias (Some (index, prefix))"
| "execute ops snap (PPkLookup table alias key) = pk_lookup snap table alias key"
| "execute ops snap (PFilter input pred) =
     and_then (execute ops snap input) (\<lambda>rel.
     and_then (map_err ExEval (retain_res (\<lambda>row. eval_predicate ops row (rel_shape rel) pred) (rel_rows rel))) (\<lambda>rows.
       Inr (rel\<lparr> rel_rows := rows \<rparr>)))"
| "execute ops snap (PJoin k left right on) =
     and_then (execute ops snap left) (\<lambda>l. and_then (execute ops snap right) (\<lambda>r. join ops k l r on))"
| "execute ops snap (PAggregate input by aggs) = and_then (execute ops snap input) (\<lambda>rel. aggregate ops rel by aggs)"
| "execute ops snap (PProject input items) = and_then (execute ops snap input) (\<lambda>rel. project ops rel items)"
| "execute ops snap (PDistinct input) = and_then (execute ops snap input) (\<lambda>rel. Inr (distinct_rel rel))"
| "execute ops snap (PSort input keys) = and_then (execute ops snap input) (\<lambda>rel. sort_rel ops rel keys)"
| "execute ops snap (PLimit input limit offset) =
     and_then (execute ops snap input) (\<lambda>rel. Inr (apply_limit rel limit offset))"
| "execute ops snap (PCursor input token) = Inl (ExUnsupported ''cursor'')"

end
