(* ===== verification/Proto.thy ===== *)
theory Proto
  imports Crc32c Value
begin

text \<open>The error type of the protocol layer (\<open>proto/src/lib.rs\<close>) and the envelope of cursor tokens
  (\<open>proto/src/result.rs\<close>): version, checksum of the payload, payload.\<close>

datatype ProtoError =
  PType TypeError
| MessageTooLarge nat nat
| PTruncated
| PTrailingBytes nat
| TooDeep nat
| TooManyNodes
| IntOutOfRange u64
| PInvalidUtf8
| ExtNotAllowed
| ReservedByte
| NonStringKey
| DuplicateKey bytes
| UnknownNode string bytes
| UnknownField string bytes
| MissingField string string
| WrongShape string string string string
| InvalidValue string string bytes
| UnsupportedVersion i64
| BadCursorToken

definition proto_error_category :: "ProtoError \<Rightarrow> ErrorCategory" where
  "proto_error_category e = (case e of PType t \<Rightarrow> type_error_category t | _ \<Rightarrow> Validation)"

definition PROTOCOL_VERSION :: i64 where
  "PROTOCOL_VERSION = 1"

record QueryResult =
  qr_columns :: "bytes list"
  qr_rows :: "value list list"
  qr_cursor :: "bytes option"
  qr_applied :: "bool option"
  qr_affected :: "u64 option"

definition query_result_default :: QueryResult where
  "query_result_default = \<lparr> qr_columns = [], qr_rows = [], qr_cursor = None, qr_applied = None, qr_affected = None \<rparr>"

definition CURSOR_VERSION :: u8 where
  "CURSOR_VERSION = 1"

definition encode_cursor_token :: "bytes \<Rightarrow> bytes" where
  "encode_cursor_token payload = CURSOR_VERSION # to_be_bytes 4 (crc32c payload) @ payload"

definition decode_cursor_token :: "bytes \<Rightarrow> ProtoError + bytes" where
  "decode_cursor_token token =
     (if length token < 5 then Inl BadCursorToken
      else if token ! 0 \<noteq> CURSOR_VERSION then Inl BadCursorToken
      else if (from_be_bytes (subslice 1 4 token) :: u32) \<noteq> crc32c (drop 5 token) then Inl BadCursorToken
      else Inr (drop 5 token))"

lemma decode_encode_cursor_token [simp]: "decode_cursor_token (encode_cursor_token payload) = Inr payload"
  by (simp add: decode_cursor_token_def encode_cursor_token_def subslice_def)

end
