(* ===== verification/Streaming.thy ===== *)
theory Streaming
  imports Exec Proto RowCodec StateErr
begin

text \<open>The pull-based executor and keyset pagination (\<open>query/src/stream.rs\<close>). An operator's iterator is the list
  of the items it would yield, each a row or the error raised while computing it: what is never pulled is
  never inspected. The state threaded through is the number of times the clock was read, and \<open>clock k\<close> is its
  \<open>k\<close>-th reading.\<close>

section \<open>Budgets\<close>

record ResourceLimits =
  rl_max_rows :: u64
  rl_max_joins :: u32
  rl_deadline :: "nat option"

definition limits_default :: ResourceLimits where
  "limits_default = \<lparr> rl_max_rows = 10000000, rl_max_joins = 16, rl_deadline = None \<rparr>"

record Budget =
  bu_max_rows :: u64
  bu_deadline :: "nat option"

type_synonym clock = "nat \<Rightarrow> nat"
type_synonym 'a sm = "(nat, ExecError, 'a) st"

definition now :: "clock \<Rightarrow> (nat, 'e, nat) st" where
  "now clock = (\<lambda>k. (Inr (clock k), k + 1))"

definition budget_new :: "clock \<Rightarrow> ResourceLimits \<Rightarrow> (nat, 'e, Budget) st" where
  "budget_new clock limits =
     (case rl_deadline limits of
        None \<Rightarrow> st_return \<lparr> bu_max_rows = rl_max_rows limits, bu_deadline = None \<rparr>
      | Some d \<Rightarrow> st_bind (now clock) (\<lambda>t. st_return \<lparr> bu_max_rows = rl_max_rows limits, bu_deadline = Some (t + d) \<rparr>))"

definition check_deadline :: "clock \<Rightarrow> Budget \<Rightarrow> unit sm" where
  "check_deadline clock budget =
     (case bu_deadline budget of
        None \<Rightarrow> st_return ()
      | Some end_at \<Rightarrow> st_bind (now clock) (\<lambda>t.
          if end_at \<le> t then st_throw (ExResourceLimit (str_bytes ''execution deadline'')) else st_return ()))"

fun collect_from :: "clock \<Rightarrow> Budget \<Rightarrow> nat \<Rightarrow> value list list \<Rightarrow> (ExecError + value list) list \<Rightarrow> value list list sm" where
  "collect_from clock budget i out [] = st_return out"
| "collect_from clock budget i out (item # items) =
     (if unat (bu_max_rows budget) \<le> length out
      then st_throw (ExResourceLimit
        (str_bytes ''materialized more than '' @ decimal (uint (bu_max_rows budget)) @ str_bytes '' rows''))
      else st_bind (if i mod 4096 = 0 then check_deadline clock budget else st_return ()) (\<lambda>_.
           st_bind (st_lift item) (\<lambda>row. collect_from clock budget (i + 1) (out @ [row]) items)))"

definition collect :: "clock \<Rightarrow> Budget \<Rightarrow> (ExecError + value list) list \<Rightarrow> value list list sm" where
  "collect clock budget items = collect_from clock budget 0 [] items"

section \<open>Operators\<close>

record StreamNode =
  no_shape :: Shape
  no_iter :: "(ExecError + value list) list"

definition from_relation :: "Relation \<Rightarrow> StreamNode" where
  "from_relation rel = \<lparr> no_shape = rel_shape rel, no_iter = map Inr (rel_rows rel) \<rparr>"

definition drain :: "clock \<Rightarrow> Budget \<Rightarrow> StreamNode \<Rightarrow> Relation sm" where
  "drain clock budget node =
     st_bind (collect clock budget (no_iter node)) (\<lambda>rows. st_return \<lparr> rel_shape = no_shape node, rel_rows = rows \<rparr>)"

definition filter_item :: "text_ops \<Rightarrow> Shape \<Rightarrow> Expr \<Rightarrow> ExecError + value list \<Rightarrow> (ExecError + value list) option" where
  "filter_item ops shape pred item =
     (case item of
        Inr row \<Rightarrow> (case eval_predicate ops row shape pred of
                      Inr True \<Rightarrow> Some (Inr row) | Inr False \<Rightarrow> None | Inl e \<Rightarrow> Some (Inl (ExEval e)))
      | Inl e \<Rightarrow> Some (Inl e))"

definition filter_stream :: "text_ops \<Rightarrow> StreamNode \<Rightarrow> Expr \<Rightarrow> StreamNode" where
  "filter_stream ops child pred = child\<lparr> no_iter := List.map_filter (filter_item ops (no_shape child) pred) (no_iter child) \<rparr>"

definition project_stream :: "text_ops \<Rightarrow> StreamNode \<Rightarrow> Projection list \<Rightarrow> StreamNode" where
  "project_stream ops child items =
     \<lparr> no_shape = project_shape items,
       no_iter = map (\<lambda>item. and_then item (\<lambda>row. map_err ExEval (project_row ops (no_shape child) items row))) (no_iter child) \<rparr>"

text \<open>The items one left row contributes: a failing predicate contributes its error and the loop goes on;
  a left join pads when no combination was kept.\<close>

definition join_item :: "text_ops \<Rightarrow> JoinKind \<Rightarrow> Expr option \<Rightarrow> Shape \<Rightarrow> nat \<Rightarrow> value list list \<Rightarrow>
    ExecError + value list \<Rightarrow> (ExecError + value list) list" where
  "join_item ops k on shape right_width right_rows item =
     (case item of
        Inl e \<Rightarrow> [Inl e]
      | Inr lrow \<Rightarrow>
          let keep = (\<lambda>combined. case on of None \<Rightarrow> Inr True
                        | Some pred \<Rightarrow> map_err ExEval (eval_predicate ops combined shape pred));
              combos = map (\<lambda>rrow. lrow @ rrow) right_rows;
              out = List.map_filter (\<lambda>c. case keep c of Inr True \<Rightarrow> Some (Inr c) | Inr False \<Rightarrow> None | Inl e \<Rightarrow> Some (Inl e)) combos;
              matched = list_ex (\<lambda>c. keep c = Inr True) combos
          in if k = LeftJoin \<and> \<not> matched then out @ [Inr (lrow @ replicate right_width Null)] else out)"

definition join_stream :: "text_ops \<Rightarrow> clock \<Rightarrow> Budget \<Rightarrow> JoinKind \<Rightarrow> StreamNode \<Rightarrow> StreamNode \<Rightarrow> Expr option \<Rightarrow> StreamNode sm" where
  "join_stream ops clock budget k left right on =
     (let shape = no_shape left @ no_shape right in
      st_bind (collect clock budget (no_iter right)) (\<lambda>right_rows.
        st_return \<lparr> no_shape = shape,
          no_iter = concat (map (join_item ops k on shape (length (no_shape right)) right_rows) (no_iter left)) \<rparr>))"

definition limit_stream :: "StreamNode \<Rightarrow> u64 option \<Rightarrow> u64 \<Rightarrow> StreamNode" where
  "limit_stream child limit offset =
     child\<lparr> no_iter := (case limit of Some n \<Rightarrow> take (unat n) | None \<Rightarrow> id) (drop (unat offset) (no_iter child)) \<rparr>"

fun build :: "text_ops \<Rightarrow> snap_ops \<Rightarrow> clock \<Rightarrow> Budget \<Rightarrow> Plan \<Rightarrow> StreamNode sm" where
  "build ops snap clock budget (PScan table alias) =
     st_bind (st_lift (scan snap table alias None)) (\<lambda>rel. st_return (from_relation rel))"
| "build ops snap clock budget (PIndexScan table alias index prefix) =
     st_bind (st_lift (scan snap table alias (Some (index, prefix)))) (\<lambda>rel. st_return (from_relation rel))"
| "build ops snap clock budget (PPkLookup table alias key) =
     st_bind (st_lift (pk_lookup snap table alias key)) (\<lambda>rel. st_return (from_relation rel))"
| "build ops snap clock budget (PFilter input pred) =
     st_bind (build ops snap clock budget input) (\<lambda>child. st_return (filter_stream ops child pred))"
| "build ops snap clock budget (PProject input items) =
     st_bind (build ops snap clock budget input) (\<lambda>child. st_return (project_stream ops child items))"
| "build ops snap clock budget (PJoin k left right on) =
     st_bind (build ops snap clock budget left) (\<lambda>l. st_bind (build ops snap clock budget right) (\<lambda>r.
       join_stream ops clock budget k l r on))"
| "build ops snap clock budget (PAggregate input by aggs) =
     st_bind (build ops snap clock budget input) (\<lambda>child. st_bind (drain clock budget child) (\<lambda>rel.
     st_bind (st_lift (aggregate ops rel by aggs)) (\<lambda>out. st_return (from_relation out))))"
| "build ops snap clock budget (PSort input keys) =
     st_bind (build ops snap clock budget input) (\<lambda>child. st_bind (drain clock budget child) (\<lambda>rel.
     st_bind (st_lift (sort_rel ops rel keys)) (\<lambda>out. st_return (from_relation out))))"
| "build ops snap clock budget (PDistinct input) =
     st_bind (build ops snap clock budget input) (\<lambda>child. st_bind (drain clock budget child) (\<lambda>rel.
       st_return (from_relation (distinct_rel rel))))"
| "build ops snap clock budget (PLimit input limit offset) =
     st_bind (build ops snap clock budget input) (\<lambda>child. st_return (limit_stream child limit offset))"
| "build ops snap clock budget (PCursor input token) = st_throw (ExUnsupported ''a cursor below the plan root'')"

definition execute_stream :: "text_ops \<Rightarrow> snap_ops \<Rightarrow> clock \<Rightarrow> Plan \<Rightarrow> Relation sm" where
  "execute_stream ops snap clock plan =
     st_bind (budget_new clock limits_default) (\<lambda>budget.
     st_bind (build ops snap clock budget plan) (drain clock budget))"

section \<open>Pages\<close>

fun count_joins :: "Plan \<Rightarrow> nat" where
  "count_joins (PScan _ _) = 0"
| "count_joins (PIndexScan _ _ _ _) = 0"
| "count_joins (PPkLookup _ _ _) = 0"
| "count_joins (PJoin _ left right _) = 1 + count_joins left + count_joins right"
| "count_joins (PFilter input _) = count_joins input"
| "count_joins (PProject input _) = count_joins input"
| "count_joins (PAggregate input _ _) = count_joins input"
| "count_joins (PSort input _) = count_joins input"
| "count_joins (PDistinct input) = count_joins input"
| "count_joins (PLimit input _ _) = count_joins input"
| "count_joins (PCursor input _) = count_joins input"

definition check_join_count :: "Plan \<Rightarrow> ResourceLimits \<Rightarrow> ExecError + unit" where
  "check_join_count plan limits =
     ensure (count_joins plan \<le> unat (rl_max_joins limits))
       (ExResourceLimit (str_bytes ''plan uses '' @ decimal (int (count_joins plan)) @ str_bytes '' joins (cap is ''
          @ decimal (uint (rl_max_joins limits)) @ str_bytes '')''))"

text \<open>The loop that peels \<open>Limit\<close> and \<open>Cursor\<close> off the top: the limit, offset and token met last win.\<close>

fun peel :: "u64 option \<Rightarrow> u64 \<Rightarrow> bytes option \<Rightarrow> Plan \<Rightarrow> Plan \<times> u64 option \<times> u64 \<times> bytes option" where
  "peel limit offset resume (PLimit input l off) = peel l off resume input"
| "peel limit offset resume (PCursor input token) = peel limit offset (Some token) input"
| "peel limit offset resume core = (core, limit, offset, resume)"

text \<open>Comparison of two sort keys. An index beyond the end of a key is out of bounds: \<open>None\<close>.\<close>

fun key_cmp :: "SortKey list \<Rightarrow> value list \<Rightarrow> value list \<Rightarrow> Ordering option" where
  "key_cmp [] a b = Some Equal"
| "key_cmp (k # ks) (x # a) (y # b) =
     (let ord = value_order x y;
          ord = (if sk_dir k = Desc then reverse_ord ord else ord)
      in if ord \<noteq> Equal then Some ord else key_cmp ks a b)"
| "key_cmp (k # ks) _ _ = None"

definition key_of :: "text_ops \<Rightarrow> SortKey list \<Rightarrow> Shape \<Rightarrow> value list \<Rightarrow> ExecError + value list" where
  "key_of ops keys shape row = map_err ExEval (sort_keys_of ops keys shape row)"

definition row_after :: "text_ops \<Rightarrow> SortKey list \<Rightarrow> Shape \<Rightarrow> value list \<Rightarrow> value list \<Rightarrow> bool option" where
  "row_after ops keys shape resume row =
     (case key_of ops keys shape row of
        Inr key \<Rightarrow> map_option (\<lambda>ord. ord = Greater) (key_cmp keys key resume)
      | Inl _ \<Rightarrow> Some False)"

definition encode_resume :: "text_ops \<Rightarrow> SortKey list \<Rightarrow> Shape \<Rightarrow> value list \<Rightarrow> ExecError + bytes" where
  "encode_resume ops keys shape row =
     and_then (key_of ops keys shape row) (\<lambda>key.
     and_then (map_err ExType (encode_row key)) (\<lambda>payload. Inr (encode_cursor_token payload)))"

definition decode_resume :: "bytes \<Rightarrow> ExecError + value list" where
  "decode_resume token =
     and_then (map_err (\<lambda>_. ExBadCursor) (decode_cursor_token token)) (\<lambda>payload.
       map_err (\<lambda>_. ExBadCursor) (decode_row payload))"

record ResultPage =
  pg_shape :: Shape
  pg_rows :: "value list list"
  pg_cursor :: "bytes option"

text \<open>Out-of-bounds indexing in \<open>key_cmp\<close> panics, which is no error of the code.\<close>

datatype 'e failure = Raised 'e | Panicked

definition resume_rows :: "text_ops \<Rightarrow> SortKey list option \<Rightarrow> Shape \<Rightarrow> bytes option \<Rightarrow> value list list \<Rightarrow>
    ExecError failure + value list list" where
  "resume_rows ops sort_keys shape resume rows =
     (case resume of
        None \<Rightarrow> Inr rows
      | Some token \<Rightarrow>
          and_then (map_err Raised (decode_resume token)) (\<lambda>key.
          and_then (map_err Raised (ok_or ExBadCursor sort_keys)) (\<lambda>keys.
            retain_res (\<lambda>row. ok_or Panicked (row_after ops keys shape key row)) rows)))"

definition cut_page :: "text_ops \<Rightarrow> SortKey list option \<Rightarrow> Shape \<Rightarrow> u64 option \<Rightarrow> value list list \<Rightarrow>
    ExecError + value list list \<times> bytes option" where
  "cut_page ops sort_keys shape limit rows =
     (case limit of
        None \<Rightarrow> Inr (rows, None)
      | Some n \<Rightarrow>
          let page = take (unat n) rows in
          if unat n < length rows then
            (case sort_keys of
               Some keys \<Rightarrow> if page = [] then Inr (page, None)
                 else and_then (encode_resume ops keys shape (last page)) (\<lambda>token. Inr (page, Some token))
             | None \<Rightarrow> Inr (page, None))
          else Inr (page, None))"

definition execute_page_with :: "text_ops \<Rightarrow> snap_ops \<Rightarrow> clock \<Rightarrow> ResourceLimits \<Rightarrow> Plan \<Rightarrow> (nat, ExecError failure, ResultPage) st" where
  "execute_page_with ops snap clock limits plan =
     st_bind (st_lift (map_err Raised (check_join_count plan limits))) (\<lambda>_.
     st_bind (budget_new clock limits) (\<lambda>budget.
     (case peel None 0 None plan of
        (core, limit, offset, resume) \<Rightarrow>
          let sort_keys = (case core of PSort _ keys \<Rightarrow> Some keys | _ \<Rightarrow> None) in
          st_bind (st_map_err Raised (build ops snap clock budget core)) (\<lambda>node.
          st_bind (st_map_err Raised (collect clock budget (no_iter node))) (\<lambda>rows.
          st_bind (st_lift (resume_rows ops sort_keys (no_shape node) resume rows)) (\<lambda>rows.
          st_bind (st_lift (map_err Raised (cut_page ops sort_keys (no_shape node) limit (drop (unat offset) rows)))) (\<lambda>(page, cursor).
            st_return \<lparr> pg_shape = no_shape node, pg_rows = page, pg_cursor = cursor \<rparr>)))))))"

definition execute_page :: "text_ops \<Rightarrow> snap_ops \<Rightarrow> clock \<Rightarrow> Plan \<Rightarrow> (nat, ExecError failure, ResultPage) st" where
  "execute_page ops snap clock plan = execute_page_with ops snap clock limits_default plan"

end
