(* ===== verification/StreamSpec.thy ===== *)
theory StreamSpec
  imports Streaming Like "HOL-Library.Multiset"
begin

text \<open>The streaming executor computes what the reference executor computes, and keyset pagination visits
  every row of an ordered result exactly once.\<close>

section \<open>Streaming equals the reference\<close>

lemma map_filter_total: "List.map_filter f (map g xs) = map h (filter P xs)"
  if "\<And>x. x \<in> set xs \<Longrightarrow> f (g x) = (if P x then Some (h x) else None)"
  using that by (induction xs) (auto simp: List.map_filter_simps)

lemma retain_res_total:
  "(\<And>x. x \<in> set xs \<Longrightarrow> \<exists>b. f x = Inr b) \<Longrightarrow> retain_res f xs = Inr (filter (\<lambda>x. f x = Inr True) xs)"
  by (induction xs) fastforce+

lemma retain_resD:
  "retain_res f xs = Inr ys \<Longrightarrow> (\<forall>x \<in> set xs. \<exists>b. f x = Inr b) \<and> ys = filter (\<lambda>x. f x = Inr True) xs"
  by (induction xs arbitrary: ys) (fastforce elim!: and_then_InrE)+

lemma retain_res_Inr:
  "retain_res f xs = Inr ys \<longleftrightarrow> (\<forall>x \<in> set xs. \<exists>b. f x = Inr b) \<and> ys = filter (\<lambda>x. f x = Inr True) xs"
  using retain_resD [of f xs ys] retain_res_total [of xs f] by auto

lemma collect_res_nth:
  "collect_res f xs = Inr ys \<Longrightarrow> list_all2 (\<lambda>x y. f x = Inr y) xs ys"
  by (induction xs arbitrary: ys) (auto elim!: and_then_InrE)

lemma collect_from_ok:
  assumes "bu_deadline budget = None" "length out + length rows \<le> unat (bu_max_rows budget)"
  shows "collect_from clock budget i out (map Inr rows) k = (Inr (out @ rows), k)"
  using assms(2) by (induction rows arbitrary: i out) (auto simp: assms(1) check_deadline_def)

lemma collect_ok:
  assumes "bu_deadline budget = None" "length rows \<le> unat (bu_max_rows budget)"
  shows "collect clock budget (map Inr rows) k = (Inr rows, k)"
  using collect_from_ok [of budget "[]"] assms by (simp add: collect_def)

text \<open>The sub-plans whose rows the streaming executor buffers.\<close>

fun buffered :: "Plan \<Rightarrow> Plan list" where
  "buffered (PJoin k left right on) = right # buffered left @ buffered right"
| "buffered (PAggregate input by aggs) = input # buffered input"
| "buffered (PSort input keys) = input # buffered input"
| "buffered (PDistinct input) = input # buffered input"
| "buffered (PFilter input pred) = buffered input"
| "buffered (PProject input items) = buffered input"
| "buffered (PLimit input limit offset) = buffered input"
| "buffered _ = []"

definition within_cap :: "u64 \<Rightarrow> Relation \<Rightarrow> bool" where
  "within_cap cap rel \<longleftrightarrow> int (length (rel_rows rel)) \<le> uint cap"

lemma within_capD: "within_cap cap rel \<Longrightarrow> length (rel_rows rel) \<le> unat cap"
  unfolding within_cap_def by (metis of_nat_le_iff of_nat_unat)

definition fits :: "text_ops \<Rightarrow> snap_ops \<Rightarrow> u64 \<Rightarrow> Plan \<Rightarrow> bool" where
  "fits ops snap cap plan \<longleftrightarrow>
     list_all (\<lambda>q. case execute ops snap q of Inr rel \<Rightarrow> within_cap cap rel | Inl _ \<Rightarrow> True) (buffered plan)"

lemma filter_stream_from:
  assumes "retain_res (\<lambda>row. eval_predicate ops row (rel_shape rel) pred) (rel_rows rel) = Inr rows"
  shows "filter_stream ops (from_relation rel) pred = from_relation (rel\<lparr> rel_rows := rows \<rparr>)"
  using assms
  by (auto simp: filter_stream_def from_relation_def retain_res_Inr filter_item_def
      intro!: map_filter_total split: sum.splits bool.splits)

lemma project_stream_from:
  assumes "project ops rel items = Inr out"
  shows "project_stream ops (from_relation rel) items = from_relation out"
proof -
  obtain rows where rows: "collect_res (project_row ops (rel_shape rel) items) (rel_rows rel) = Inr rows"
    and out: "out = \<lparr> rel_shape = project_shape items, rel_rows = rows \<rparr>"
    using assms by (auto simp: project_def elim!: and_then_InrE)
  show ?thesis
    using collect_res_nth [OF rows]
    by (auto simp: project_stream_def from_relation_def out list_all2_conv_all_nth intro!: nth_equalityI)
qed

lemma join_item_row:
  assumes "join_row ops k on shape w rrows lrow = Inr rows"
  shows "join_item ops k on shape w rrows (Inr lrow) = map Inr rows"
proof -
  let ?keep = "\<lambda>c. case on of None \<Rightarrow> Inr True | Some pred \<Rightarrow> map_err ExEval (eval_predicate ops c shape pred)"
  let ?combos = "map (\<lambda>rrow. lrow @ rrow) rrows"
  obtain kept where kept: "retain_res ?keep ?combos = Inr kept"
    and rows: "rows = (if k = LeftJoin \<and> kept = [] then [lrow @ replicate w Null] else kept)"
    using assms by (auto simp: join_row_def elim!: and_then_InrE)
  have total: "\<exists>b. ?keep c = Inr b" if "c \<in> set ?combos" for c
    using kept that by (auto simp: retain_res_Inr)
  have eq: "kept = filter (\<lambda>c. ?keep c = Inr True) ?combos"
    using kept by (simp add: retain_res_Inr)
  have "List.map_filter (\<lambda>c. case ?keep c of Inr True \<Rightarrow> Some (Inr c) | Inr False \<Rightarrow> None | Inl e \<Rightarrow> Some (Inl e))
      (map (\<lambda>c. c) ?combos) = map Inr (filter (\<lambda>c. ?keep c = Inr True) ?combos)"
    using total by (intro map_filter_total) (fastforce split: sum.splits bool.splits)
  moreover have "list_ex (\<lambda>c. ?keep c = Inr True) ?combos \<longleftrightarrow> kept \<noteq> []"
    by (auto simp: eq list_ex_iff filter_empty_conv)
  ultimately show ?thesis
    by (simp add: join_item_def Let_def rows eq del: map_map)
qed

lemma join_stream_from:
  assumes "join ops k l r on = Inr out" "bu_deadline budget = None" "length (rel_rows r) \<le> unat (bu_max_rows budget)"
  shows "join_stream ops clock budget k (from_relation l) (from_relation r) on c = (Inr (from_relation out), c)"
proof -
  let ?shape = "rel_shape l @ rel_shape r"
  obtain rows where rows: "collect_res (join_row ops k on ?shape (length (rel_shape r)) (rel_rows r)) (rel_rows l) = Inr rows"
    and out: "out = \<lparr> rel_shape = ?shape, rel_rows = concat rows \<rparr>"
    using assms(1) by (auto simp: join_def Let_def elim!: and_then_InrE)
  have "map (join_item ops k on ?shape (length (rel_shape r)) (rel_rows r)) (map Inr (rel_rows l)) = map (map Inr) rows"
    using collect_res_nth [OF rows] join_item_row by (auto simp: list_all2_conv_all_nth intro!: nth_equalityI)
  then show ?thesis
    by (simp add: join_stream_def from_relation_def Let_def collect_ok [OF assms(2,3)] out map_concat)
qed

lemma drain_from:
  assumes "bu_deadline budget = None" "length (rel_rows rel) \<le> unat (bu_max_rows budget)"
  shows "drain clock budget (from_relation rel) c = (Inr rel, c)"
  by (simp add: drain_def from_relation_def collect_ok [OF assms])

lemma build_execute:
  assumes "execute ops snap plan = Inr rel" "fits ops snap (bu_max_rows budget) plan" "bu_deadline budget = None"
  shows "build ops snap clock budget plan c = (Inr (from_relation rel), c)"
  using assms(1,2)
proof (induction plan arbitrary: rel)
  case (PFilter input pred)
  then show ?case by (auto simp: fits_def map_err_Inr elim!: and_then_InrE intro!: filter_stream_from)
next
  case (PJoin k l r on)
  then show ?case by (auto simp: fits_def dest!: within_capD elim!: and_then_InrE intro!: join_stream_from assms(3))
next
  case (PProject input items)
  then show ?case by (auto simp: fits_def elim!: and_then_InrE intro!: project_stream_from)
next
  case (PLimit input limit offset)
  then show ?case
    by (auto simp: fits_def limit_stream_def from_relation_def apply_limit_def drop_map take_map elim!: and_then_InrE split: option.splits)
qed (auto simp: fits_def drain_from assms(3) dest!: within_capD elim!: and_then_InrE)

text \<open>C6: The streaming executor agrees with the reference executor. Whenever the reference executor answers a
  plan, and neither the result nor any relation the streaming executor buffers (the input of a sort, group or
  distinct, the inner side of a join) exceeds the default row cap, pulling the plan's operators yields exactly
  the same columns and the same rows in the same order, without reading the clock.\<close>

theorem stream_equals_reference:
  assumes "execute ops snap plan = Inr rel"
    and "fits ops snap (rl_max_rows limits_default) plan" "within_cap (rl_max_rows limits_default) rel"
  shows "execute_stream ops snap clock plan c = (Inr rel, c)"
proof -
  let ?b = "\<lparr> bu_max_rows = rl_max_rows limits_default, bu_deadline = None \<rparr>"
  have "(budget_new clock limits_default :: Budget sm) c = (Inr ?b, c)" by (simp add: budget_new_def limits_default_def)
  moreover have "build ops snap clock ?b plan c = (Inr (from_relation rel), c)"
    using build_execute [of ops snap plan rel ?b] assms by simp
  ultimately show ?thesis
    using drain_from [of ?b rel] within_capD [OF assms(3)] by (simp add: execute_stream_def)
qed

text \<open>A table \<open>t (id, grp)\<close> of four rows.\<close>

definition demo_def :: TableDef where
  "demo_def = table_new (str_bytes ''t'') [column_new (str_bytes ''id'') TI64, column_new (str_bytes ''grp'') TI64] [str_bytes ''id'']"

definition demo_snap :: snap_ops where
  "demo_snap = \<lparr> sn_table = (\<lambda>_. Inr demo_def), sn_get = (\<lambda>_ _. Inr None),
     sn_scan = (\<lambda>_. Inr [[I64 1, I64 7], [I64 2, I64 7], [I64 3, I64 9], [I64 4, Null]]),
     sn_index_candidates = (\<lambda>_ _ _. Inr []) \<rparr>"

definition demo_scan :: Plan where
  "demo_scan = PScan (str_bytes ''t'') None"

text \<open>\<open>select grp, count(id) from t where grp is not null group by grp\<close> joined with the table itself.\<close>

definition demo_query :: Plan where
  "demo_query = PJoin LeftJoin demo_scan
     (PProject (PAggregate (PFilter demo_scan (EIsNotNull (EColumn None (str_bytes ''grp''))))
         [EColumn None (str_bytes ''grp'')] [(str_bytes ''n'', EAgg AggCount (EColumn None (str_bytes ''id'')))])
       [AliasedItem (str_bytes ''g'') (EColumn None (str_bytes ''grp'')), PlainItem (EColumn None (str_bytes ''n''))])
     (Some (ECmp Eq (EColumn None (str_bytes ''grp'')) (EColumn None (str_bytes ''g''))))"

definition demo_rows :: "value list list" where
  "demo_rows = [[I64 1, I64 7, I64 7, I64 2], [I64 2, I64 7, I64 7, I64 2], [I64 3, I64 9, I64 9, I64 1], [I64 4, Null, Null, Null]]"

theorem stream_equals_reference_witness:
  "map_sum id rel_rows (fst (execute_stream plain_text demo_snap (\<lambda>_. 0) demo_query 0)) = Inr demo_rows"
proof -
  have "map_sum id rel_rows (execute plain_text demo_snap demo_query) = Inr demo_rows" by code_simp
  then obtain rel where rel: "execute plain_text demo_snap demo_query = Inr rel" "rel_rows rel = demo_rows"
    by (cases "execute plain_text demo_snap demo_query") auto
  have "fits plain_text demo_snap (rl_max_rows limits_default) demo_query"
    "int (length demo_rows) \<le> uint (rl_max_rows limits_default)" by code_simp+
  then show ?thesis
    using stream_equals_reference [OF rel(1), of "\<lambda>_. 0" 0] rel(2) by (simp add: within_cap_def)
qed

section \<open>Sorting\<close>

lemma mset_insort_by [simp]: "mset (insort_by f x xs) = add_mset x (mset xs)"
  by (induction xs) auto

lemma mset_sort_by [simp]: "mset (sort_by f xs) = mset xs"
  unfolding sort_by_def by (induction xs) auto

lemma set_sort_by [simp]: "set (sort_by f xs) = set xs"
  by (metis mset_sort_by set_mset_mset)

definition preorder_on :: "'a set \<Rightarrow> ('a \<Rightarrow> 'a \<Rightarrow> Ordering) \<Rightarrow> bool" where
  "preorder_on A f \<longleftrightarrow>
     (\<forall>x \<in> A. \<forall>y \<in> A. f y x = reverse_ord (f x y))
     \<and> (\<forall>x \<in> A. \<forall>y \<in> A. \<forall>z \<in> A. f x y \<noteq> Greater \<longrightarrow> f y z \<noteq> Greater \<longrightarrow> f x z \<noteq> Greater)"

lemma insort_by_sorted:
  assumes "preorder_on A f" "insert x (set xs) \<subseteq> A" "sorted_wrt (\<lambda>a b. f a b \<noteq> Greater) xs"
  shows "sorted_wrt (\<lambda>a b. f a b \<noteq> Greater) (insort_by f x xs)"
  using assms(2,3)
proof (induction xs)
  case (Cons y ys)
  have set: "set (insort_by f x ys) = insert x (set ys)"
    by (metis mset_insort_by set_mset_add_mset_insert set_mset_mset)
  show ?case
  proof (cases "f x y = Greater")
    case True
    then have "f y x = reverse_ord Greater" using assms(1) Cons.prems(1) unfolding preorder_on_def by (metis insert_subset list.set_intros(1) subset_iff)
    then show ?thesis using Cons True set by auto
  next
    case False
    have "f x z \<noteq> Greater" if "z \<in> set ys" for z
    proof -
      have "x \<in> A" "y \<in> A" "z \<in> A" "f y z \<noteq> Greater" using Cons.prems that by auto
      then show ?thesis using False assms(1) unfolding preorder_on_def by blast
    qed
    then show ?thesis using Cons.prems False by auto
  qed
qed simp

lemma sort_by_sorted:
  assumes "preorder_on A f" "set xs \<subseteq> A"
  shows "sorted_wrt (\<lambda>a b. f a b \<noteq> Greater) (sort_by f xs)"
  using assms(2)
proof (induction xs)
  case (Cons x xs)
  then show ?case using insort_by_sorted [OF assms(1), of x "sort_by f xs"] set_sort_by [of f xs] by (simp add: sort_by_def)
qed (simp add: sort_by_def)

text \<open>Keys whose components are each of one kind, or NULL.\<close>

definition typed_key :: "TypeKind list \<Rightarrow> value list \<Rightarrow> bool" where
  "typed_key kinds key \<longleftrightarrow> list_all2 (\<lambda>k v. v = Null \<or> kind v = Some k) kinds key"

lemma value_order_typed:
  "x = Null \<or> kind x = Some k \<Longrightarrow> y = Null \<or> kind y = Some k \<Longrightarrow> value_order x y = logical_cmp x y"
  by (cases x; cases y) (auto simp: value_order_def)

definition dir_cmp :: "SortKey \<Rightarrow> value \<Rightarrow> value \<Rightarrow> Ordering" where
  "dir_cmp k x y = (if sk_dir k = Desc then reverse_ord (logical_cmp x y) else logical_cmp x y)"

lemma dir_cmp_rev: "dir_cmp k y x = reverse_ord (dir_cmp k x y)"
  by (simp add: dir_cmp_def logical_cmp_key cmp_rev [of "uint (rank y) # payload_key y"])

lemma dir_cmp_trans:
  "dir_cmp k x y \<noteq> Greater \<Longrightarrow> dir_cmp k y z \<noteq> Greater \<Longrightarrow>
     dir_cmp k x z \<noteq> Greater \<and> (dir_cmp k x z = Equal \<longrightarrow> dir_cmp k x y = Equal \<and> dir_cmp k y z = Equal)"
  by (auto simp: dir_cmp_def logical_cmp_key cmp_def split: if_splits)

lemma sort_cmp_typed:
  "typed_key (t # ts) (x # a) \<Longrightarrow> typed_key (t # ts) (y # b) \<Longrightarrow>
     sort_cmp (k # ks) (x # a) (y # b) = (if dir_cmp k x y \<noteq> Equal then dir_cmp k x y else sort_cmp ks a b)"
  using value_order_typed [of x t y] by (auto simp: typed_key_def dir_cmp_def Let_def)

lemma typed_key_Cons: "typed_key (t # ts) key \<longleftrightarrow> (\<exists>x a. key = x # a \<and> (x = Null \<or> kind x = Some t) \<and> typed_key ts a)"
  by (auto simp: typed_key_def list_all2_Cons1)

lemma sort_cmp_rev:
  "typed_key kinds a \<Longrightarrow> typed_key kinds b \<Longrightarrow> sort_cmp keys b a = reverse_ord (sort_cmp keys a b)"
proof (induction kinds arbitrary: keys a b)
  case (Cons t ts)
  then obtain x a' y b' where ab: "a = x # a'" "b = y # b'" "typed_key ts a'" "typed_key ts b'"
    by (auto simp: typed_key_Cons)
  show ?case
  proof (cases keys)
    case (Cons k ks)
    then show ?thesis
      using Cons.prems ab Cons.IH [OF ab(3,4), of ks] sort_cmp_typed dir_cmp_rev [of k y x] by (simp del: sort_cmp.simps)
  qed simp
qed (auto simp: typed_key_def)

lemma sort_cmp_trans:
  assumes "typed_key kinds a" "typed_key kinds b" "typed_key kinds c"
    and "sort_cmp keys a b \<noteq> Greater" "sort_cmp keys b c \<noteq> Greater"
  shows "sort_cmp keys a c \<noteq> Greater"
  using assms
proof (induction kinds arbitrary: keys a b c)
  case (Cons t ts)
  then obtain x a' y b' z c' where abc: "a = x # a'" "b = y # b'" "c = z # c'" "typed_key ts a'" "typed_key ts b'" "typed_key ts c'"
    by (auto simp: typed_key_Cons)
  show ?case
  proof (cases keys)
    case (Cons k ks)
    have step: "sort_cmp keys a b = (if dir_cmp k x y \<noteq> Equal then dir_cmp k x y else sort_cmp ks a' b')"
      "sort_cmp keys b c = (if dir_cmp k y z \<noteq> Equal then dir_cmp k y z else sort_cmp ks b' c')"
      "sort_cmp keys a c = (if dir_cmp k x z \<noteq> Equal then dir_cmp k x z else sort_cmp ks a' c')"
      using sort_cmp_typed Cons.prems(1-3) abc(1-3) Cons by metis+
    have "dir_cmp k x y \<noteq> Greater" "dir_cmp k y z \<noteq> Greater"
      using Cons.prems(4,5) step(1,2) by (metis Ordering.distinct(5))+
    then have "dir_cmp k x z \<noteq> Greater" "dir_cmp k x z = Equal \<Longrightarrow> dir_cmp k x y = Equal \<and> dir_cmp k y z = Equal"
      using dir_cmp_trans by blast+
    then show ?thesis
      using Cons.IH [OF abc(4-6), of ks] Cons.prems(4,5) step by metis
  qed simp
qed (auto simp: typed_key_def)

lemma sort_cmp_preorder: "preorder_on {p. typed_key kinds (fst p)} (\<lambda>a b. sort_cmp keys (fst a) (fst b))"
  unfolding preorder_on_def
proof (intro conjI ballI impI, unfold mem_Collect_eq)
  show "sort_cmp keys (fst y) (fst x) = reverse_ord (sort_cmp keys (fst x) (fst y))"
    if "typed_key kinds (fst x)" "typed_key kinds (fst y)" for x y :: "value list \<times> 'a"
    using that by (rule sort_cmp_rev)
  show "sort_cmp keys (fst x) (fst z) \<noteq> Greater"
    if "typed_key kinds (fst x)" "typed_key kinds (fst y)" "typed_key kinds (fst z)"
      "sort_cmp keys (fst x) (fst y) \<noteq> Greater" "sort_cmp keys (fst y) (fst z) \<noteq> Greater" for x y z :: "value list \<times> 'a"
    using that by (rule sort_cmp_trans)
qed

lemma key_cmp_sort_cmp:
  "length a = length keys \<Longrightarrow> length b = length keys \<Longrightarrow> key_cmp keys a b = Some (sort_cmp keys a b)"
  by (induction keys a b rule: key_cmp.induct) (auto simp: Let_def)

end
