(* ===== verification/Planner.thy ===== *)
theory Planner
  imports Validate
begin

text \<open>The rule-based planner (\<open>query/src/plan.rs\<close>): selection of an access path for a filtered scan, and
  pushing the conjuncts of a filter below an inner or cross join. Rendering a plan for \<open>EXPLAIN\<close> is text
  only and left out.\<close>

section \<open>Predicates\<close>

fun flatten_and :: "Expr \<Rightarrow> Expr list" where
  "flatten_and (EAnd items) = concat (map flatten_and items)"
| "flatten_and e = [e]"

definition and_of :: "Expr list \<Rightarrow> Expr" where
  "and_of conjuncts = (case conjuncts of [e] \<Rightarrow> e | _ \<Rightarrow> EAnd conjuncts)"

definition wrap_filter :: "Plan \<Rightarrow> Expr list \<Rightarrow> Plan" where
  "wrap_filter input conjuncts = (if conjuncts = [] then input else PFilter input (and_of conjuncts))"

definition column_here :: "Expr \<Rightarrow> bytes \<Rightarrow> bytes option" where
  "column_here e qualifier =
     (case e of
        EColumn table column \<Rightarrow>
          (case table of None \<Rightarrow> Some column | Some t \<Rightarrow> if t = qualifier then Some column else None)
      | _ \<Rightarrow> None)"

definition as_literal :: "Expr \<Rightarrow> value option" where
  "as_literal e = (case e of ELiteral v \<Rightarrow> Some v | _ \<Rightarrow> None)"

definition equality_on :: "Expr \<Rightarrow> bytes \<Rightarrow> (bytes \<times> value) option" where
  "equality_on e qualifier =
     (case e of
        ECmp Eq lhs rhs \<Rightarrow>
          (case (column_here lhs qualifier, as_literal rhs) of
             (Some nm, Some v) \<Rightarrow> Some (nm, v)
           | _ \<Rightarrow> (case (column_here rhs qualifier, as_literal lhs) of
                     (Some nm, Some v) \<Rightarrow> Some (nm, v)
                   | _ \<Rightarrow> None))
      | _ \<Rightarrow> None)"

fun collect_refs :: "Expr \<Rightarrow> (bytes option \<times> bytes) list" where
  "collect_refs (EColumn table column) = [(table, column)]"
| "collect_refs (ELiteral _) = []"
| "collect_refs (ECmp _ lhs rhs) = collect_refs lhs @ collect_refs rhs"
| "collect_refs (EArith _ lhs rhs) = collect_refs lhs @ collect_refs rhs"
| "collect_refs (ENullIf lhs rhs) = collect_refs lhs @ collect_refs rhs"
| "collect_refs (EAnd items) = concat (map collect_refs items)"
| "collect_refs (EOr items) = concat (map collect_refs items)"
| "collect_refs (ECoalesce items) = concat (map collect_refs items)"
| "collect_refs (ENot inner) = collect_refs inner"
| "collect_refs (EIsNull inner) = collect_refs inner"
| "collect_refs (EIsNotNull inner) = collect_refs inner"
| "collect_refs (EAgg _ arg) = collect_refs arg"
| "collect_refs (ECast e _) = collect_refs e"
| "collect_refs (ELike e _ _) = collect_refs e"
| "collect_refs (EBetween e lo hi) = collect_refs e @ collect_refs lo @ collect_refs hi"
| "collect_refs (EInList e items) = collect_refs e @ concat (map collect_refs items)"

definition resolvable :: "bytes option \<times> bytes \<Rightarrow> (bytes option \<times> bytes) list \<Rightarrow> bool" where
  "resolvable reference cols =
     list_ex (\<lambda>(cq, cn). cn = snd reference \<and> (case fst reference of Some q \<Rightarrow> cq = Some q | None \<Rightarrow> True)) cols"

section \<open>Index selection\<close>

definition table_def :: "SchemaView \<Rightarrow> bytes \<Rightarrow> CatalogError + TableDef" where
  "table_def schema table = and_then (schema table) (ok_or (UnknownTable table))"

text \<open>The equality constraints: column, literal, position of the conjunct.\<close>

definition equalities :: "bytes \<Rightarrow> Expr list \<Rightarrow> (bytes \<times> value \<times> nat) list" where
  "equalities qualifier conjuncts =
     List.map_filter (\<lambda>(i, c). map_option (\<lambda>(nm, v). (nm, v, i)) (equality_on c qualifier)) (enumerate 0 conjuncts)"

text \<open>The longest prefix of the given columns that equalities pin: the values and the conjuncts used.\<close>

fun pinned_prefix :: "(bytes \<times> value \<times> nat) list \<Rightarrow> bytes list \<Rightarrow> value list \<times> nat list" where
  "pinned_prefix eqs [] = ([], [])"
| "pinned_prefix eqs (col # cols) =
     (case find (\<lambda>(nm, _, _). nm = col) eqs of
        None \<Rightarrow> ([], [])
      | Some (_, v, i) \<Rightarrow> (case pinned_prefix eqs cols of (prefix, consumed) \<Rightarrow> (v # prefix, i # consumed)))"

definition residual :: "Expr list \<Rightarrow> nat list \<Rightarrow> Expr list" where
  "residual conjuncts consumed = map snd (filter (\<lambda>(i, _). i \<notin> set consumed) (enumerate 0 conjuncts))"

fun best_index :: "(bytes \<times> value \<times> nat) list \<Rightarrow> (bytes \<times> value list \<times> nat list) option \<Rightarrow> IndexDef list \<Rightarrow>
    (bytes \<times> value list \<times> nat list) option" where
  "best_index eqs best [] = best"
| "best_index eqs best (idx # idxs) =
     (case pinned_prefix eqs (ix_columns idx) of (prefix, consumed) \<Rightarrow>
        if prefix \<noteq> [] \<and> (case best of None \<Rightarrow> True | Some (_, p, _) \<Rightarrow> length p < length prefix)
        then best_index eqs (Some (ix_name idx, prefix, consumed)) idxs
        else best_index eqs best idxs)"

definition index_select :: "SchemaView \<Rightarrow> bytes \<Rightarrow> bytes option \<Rightarrow> Expr \<Rightarrow> CatalogError + Plan" where
  "index_select schema table alias pred =
     and_then (table_def schema table) (\<lambda>t.
       let qualifier = (case alias of Some a \<Rightarrow> a | None \<Rightarrow> table);
           conjuncts = flatten_and pred;
           eqs = equalities qualifier conjuncts;
           (key, used) = pinned_prefix eqs (td_pk t)
       in Inr (if td_pk t \<noteq> [] \<and> length key = length (td_pk t)
               then wrap_filter (PPkLookup table alias key) (residual conjuncts used)
               else case best_index eqs None (td_indexes t) of
                 None \<Rightarrow> PFilter (PScan table alias) pred
               | Some (index, prefix, consumed) \<Rightarrow>
                   wrap_filter (PIndexScan table alias index prefix) (residual conjuncts consumed)))"

section \<open>Filter pushdown\<close>

fun exposed :: "SchemaView \<Rightarrow> Plan \<Rightarrow> CatalogError + (bytes option \<times> bytes) list" where
  "exposed schema (PScan table alias) =
     and_then (table_def schema table) (\<lambda>t. Inr (map (\<lambda>c. (Some (case alias of Some a \<Rightarrow> a | None \<Rightarrow> table), cd_name c)) (td_columns t)))"
| "exposed schema (PIndexScan table alias _ _) =
     and_then (table_def schema table) (\<lambda>t. Inr (map (\<lambda>c. (Some (case alias of Some a \<Rightarrow> a | None \<Rightarrow> table), cd_name c)) (td_columns t)))"
| "exposed schema (PPkLookup table alias _) =
     and_then (table_def schema table) (\<lambda>t. Inr (map (\<lambda>c. (Some (case alias of Some a \<Rightarrow> a | None \<Rightarrow> table), cd_name c)) (td_columns t)))"
| "exposed schema (PFilter input _) = exposed schema input"
| "exposed schema (PSort input _) = exposed schema input"
| "exposed schema (PDistinct input) = exposed schema input"
| "exposed schema (PLimit input _ _) = exposed schema input"
| "exposed schema (PCursor input _) = exposed schema input"
| "exposed schema (PJoin _ left right _) =
     and_then (exposed schema left) (\<lambda>l. and_then (exposed schema right) (\<lambda>r. Inr (l @ r)))"
| "exposed schema (PAggregate input _ aggs) =
     and_then (exposed schema input) (\<lambda>cols. Inr (cols @ map (\<lambda>(nm, _). (None, nm)) aggs))"
| "exposed schema (PProject _ items) = Inr (map (\<lambda>(i, item). (None, output_name_of item i)) (enumerate 0 items))"

text \<open>Where each conjunct goes: to the left side, to the right side, or it stays above the join.\<close>

definition goes_left :: "(bytes option \<times> bytes) list \<Rightarrow> Expr \<Rightarrow> bool" where
  "goes_left cols e \<longleftrightarrow> list_all (\<lambda>r. resolvable r cols) (collect_refs e)"

fun build_filter :: "SchemaView \<Rightarrow> Plan \<Rightarrow> Expr \<Rightarrow> CatalogError + Plan" where
  "build_filter schema (PScan table alias) pred = index_select schema table alias pred"
| "build_filter schema (PJoin k left right on) pred =
     (if k = LeftJoin then Inr (PFilter (PJoin k left right on) pred)
      else
        and_then (exposed schema left) (\<lambda>left_cols.
        and_then (exposed schema right) (\<lambda>right_cols.
          let conjuncts = flatten_and pred;
              push_left = filter (goes_left left_cols) conjuncts;
              push_right = filter (\<lambda>c. \<not> goes_left left_cols c \<and> goes_left right_cols c) conjuncts;
              keep = filter (\<lambda>c. \<not> goes_left left_cols c \<and> \<not> goes_left right_cols c) conjuncts
          in and_then (if push_left = [] then Inr left else build_filter schema left (and_of push_left)) (\<lambda>new_left.
             and_then (if push_right = [] then Inr right else build_filter schema right (and_of push_right)) (\<lambda>new_right.
               Inr (wrap_filter (PJoin k new_left new_right on) keep))))))"
| "build_filter schema other pred = Inr (PFilter other pred)"

fun optimize :: "SchemaView \<Rightarrow> Plan \<Rightarrow> CatalogError + Plan" where
  "optimize schema (PFilter input pred) = and_then (optimize schema input) (\<lambda>input. build_filter schema input pred)"
| "optimize schema (PJoin k left right on) =
     and_then (optimize schema left) (\<lambda>l. and_then (optimize schema right) (\<lambda>r. Inr (PJoin k l r on)))"
| "optimize schema (PAggregate input by aggs) = and_then (optimize schema input) (\<lambda>input. Inr (PAggregate input by aggs))"
| "optimize schema (PProject input items) = and_then (optimize schema input) (\<lambda>input. Inr (PProject input items))"
| "optimize schema (PDistinct input) = and_then (optimize schema input) (\<lambda>input. Inr (PDistinct input))"
| "optimize schema (PSort input keys) = and_then (optimize schema input) (\<lambda>input. Inr (PSort input keys))"
| "optimize schema (PLimit input limit offset) = and_then (optimize schema input) (\<lambda>input. Inr (PLimit input limit offset))"
| "optimize schema (PCursor input token) = and_then (optimize schema input) (\<lambda>input. Inr (PCursor input token))"
| "optimize schema plan = Inr plan"

end
