(* ===== verification/EdbCursor.thy ===== *)
theory EdbCursor
  imports Streaming Planner
begin

text \<open>The public cursor (\<open>edb/src/cursor.rs\<close>) with the error enums it reports through (\<open>query/src/lib.rs\<close>,
  \<open>edb/src/lib.rs\<close>) and typed access to results (\<open>edb/src/result.rs\<close>). A cursor holds one snapshot and pages
  over it.\<close>

section \<open>Errors\<close>

datatype QueryError =
  QProto ProtoError | QLower LowerError | QValidate ValidateError | QEval EvalError | QExec ExecError
| QCatalog CatalogError | QIndex IndexError | QTxn TxnError

fun query_error_category :: "QueryError \<Rightarrow> ErrorCategory" where
  "query_error_category (QProto e) = proto_error_category e"
| "query_error_category (QLower e) = lower_error_category e"
| "query_error_category (QValidate e) = validate_error_category e"
| "query_error_category (QEval e) = eval_error_category e"
| "query_error_category (QExec e) = exec_error_category e"
| "query_error_category (QCatalog e) = catalog_error_category e"
| "query_error_category (QIndex e) = index_error_category e"
| "query_error_category (QTxn e) = txn_error_category e"

datatype DecodeError = DecUnknownColumn bytes | TypeMismatch bytes string

definition decode_error_category :: "DecodeError \<Rightarrow> ErrorCategory" where
  "decode_error_category e = Validation"

datatype EdbError =
  EIo IoError | EPager PagerError | EBTree BTreeError | ETxn TxnError | EType TypeError | ECatalog CatalogError
| EIndex IndexError | EProto ProtoError | EQuery QueryError | EDecode DecodeError | EUsage string

fun edb_error_category :: "EdbError \<Rightarrow> ErrorCategory" where
  "edb_error_category (EIo e) = io_error_category e"
| "edb_error_category (EPager e) = pager_error_category e"
| "edb_error_category (EBTree e) = btree_error_category e"
| "edb_error_category (ETxn e) = txn_error_category e"
| "edb_error_category (EType e) = type_error_category e"
| "edb_error_category (ECatalog e) = catalog_error_category e"
| "edb_error_category (EIndex e) = index_error_category e"
| "edb_error_category (EProto e) = proto_error_category e"
| "edb_error_category (EQuery e) = query_error_category e"
| "edb_error_category (EDecode e) = decode_error_category e"
| "edb_error_category (EUsage _) = Validation"

section \<open>Typed access to results\<close>

definition column_index :: "QueryResult \<Rightarrow> bytes \<Rightarrow> nat option" where
  "column_index r nm = position (\<lambda>c. c = nm) (qr_columns r)"

definition response_row :: "QueryResult \<Rightarrow> nat \<Rightarrow> (bytes list \<times> value list) option" where
  "response_row r i = map_option (\<lambda>cells. (qr_columns r, cells)) (get_at (qr_rows r) i)"

definition row_get :: "bytes list \<times> value list \<Rightarrow> bytes \<Rightarrow> value option" where
  "row_get row column = Option.bind (position (\<lambda>c. c = column) (fst row)) (get_at (snd row))"

definition row_cell :: "bytes list \<times> value list \<Rightarrow> bytes \<Rightarrow> DecodeError + value" where
  "row_cell row column = ok_or (DecUnknownColumn column) (row_get row column)"

definition get_i64 :: "bytes list \<times> value list \<Rightarrow> bytes \<Rightarrow> DecodeError + i64 option" where
  "get_i64 row column = and_then (row_cell row column) (\<lambda>v.
     case v of Null \<Rightarrow> Inr None | I64 n \<Rightarrow> Inr (Some n) | _ \<Rightarrow> Inl (TypeMismatch column ''i64''))"

definition get_f64 :: "bytes list \<times> value list \<Rightarrow> bytes \<Rightarrow> DecodeError + f64 option" where
  "get_f64 row column = and_then (row_cell row column) (\<lambda>v.
     case v of Null \<Rightarrow> Inr None | F64 f \<Rightarrow> Inr (Some f) | _ \<Rightarrow> Inl (TypeMismatch column ''f64''))"

definition get_bool :: "bytes list \<times> value list \<Rightarrow> bytes \<Rightarrow> DecodeError + bool option" where
  "get_bool row column = and_then (row_cell row column) (\<lambda>v.
     case v of Null \<Rightarrow> Inr None | Bool b \<Rightarrow> Inr (Some b) | _ \<Rightarrow> Inl (TypeMismatch column ''bool''))"

definition get_text :: "bytes list \<times> value list \<Rightarrow> bytes \<Rightarrow> DecodeError + bytes option" where
  "get_text row column = and_then (row_cell row column) (\<lambda>v.
     case v of Null \<Rightarrow> Inr None | Text s \<Rightarrow> Inr (Some s) | _ \<Rightarrow> Inl (TypeMismatch column ''text''))"

section \<open>The cursor\<close>

text \<open>The schema a snapshot shows to the validator and the planner: an unknown table is an absent one.\<close>

definition snapshot_schema :: "snap_ops \<Rightarrow> SchemaView" where
  "snapshot_schema snap table =
     (case sn_table snap table of
        Inr t \<Rightarrow> Inr (Some t)
      | Inl (UnknownTable _) \<Rightarrow> Inr None
      | Inl e \<Rightarrow> Inl e)"

record QueryCursor =
  cu_base :: Plan
  cu_page_size :: u64
  cu_token :: "bytes option"
  cu_columns :: "bytes list"
  cu_done :: bool

definition cur_open :: "snap_ops \<Rightarrow> Select \<Rightarrow> u64 \<Rightarrow> EdbError + QueryCursor" where
  "cur_open snap select page_size =
     (let schema = snapshot_schema snap in
      if page_size = 0 then Inl (EUsage ''cursor page size must be at least 1'')
      else
        and_then (map_err (EQuery \<circ> QValidate) (validate_request schema (RqSelect select))) (\<lambda>_.
        and_then (map_err (EQuery \<circ> QLower) (lower select)) (\<lambda>logical.
        and_then (map_err (EQuery \<circ> QCatalog) (optimize schema logical)) (\<lambda>base.
        and_then (map_err (EQuery \<circ> QValidate) (validate_select schema select)) (\<lambda>out.
          Inr \<lparr> cu_base = base, cu_page_size = page_size, cu_token = None,
                cu_columns = map oc_name out, cu_done = False \<rparr>)))))"

definition page_plan :: "QueryCursor \<Rightarrow> Plan" where
  "page_plan cur =
     PLimit (case cu_token cur of Some token \<Rightarrow> PCursor (cu_base cur) token | None \<Rightarrow> cu_base cur) (Some (cu_page_size cur)) 0"

definition cur_fetch :: "text_ops \<Rightarrow> snap_ops \<Rightarrow> clock \<Rightarrow> QueryCursor \<Rightarrow> nat \<Rightarrow>
    ((EdbError failure + QueryResult) \<times> QueryCursor) \<times> nat" where
  "cur_fetch ops snap clock cur c =
     (if cu_done cur then ((Inr (query_result_default\<lparr> qr_columns := cu_columns cur \<rparr>), cur), c)
      else case execute_page ops snap clock (page_plan cur) c of
        (Inl f, c') \<Rightarrow> ((Inl (map_failure (EQuery \<circ> QExec) f), cur), c')
      | (Inr page, c') \<Rightarrow>
          ((Inr (query_result_default\<lparr> qr_columns := map bc_name (pg_shape page), qr_rows := pg_rows page,
                   qr_cursor := pg_cursor page \<rparr>),
            (case pg_cursor page of Some token \<Rightarrow> cur\<lparr> cu_token := Some token \<rparr> | None \<Rightarrow> cur\<lparr> cu_done := True \<rparr>)), c'))"

end
