(* ===== verification/PageSpec.thy ===== *)
theory PageSpec
  imports StreamSpec EdbCursor
begin

text \<open>A cursor over an ordered select visits every row of the result exactly once, in order, whatever the
  page size.\<close>

section \<open>Ordered results\<close>

definition keys_ok :: "text_ops \<Rightarrow> TypeKind list \<Rightarrow> SortKey list \<Rightarrow> Shape \<Rightarrow> value list \<Rightarrow> bool" where
  "keys_ok ops kinds keys shape row \<longleftrightarrow>
     (case sort_keys_of ops keys shape row of
        Inr key \<Rightarrow> typed_key kinds key \<and> list_all value_wf key \<and> (case encode_row key of Inr _ \<Rightarrow> True | Inl _ \<Rightarrow> False)
      | Inl _ \<Rightarrow> False)"

definition keys_differ :: "text_ops \<Rightarrow> SortKey list \<Rightarrow> Shape \<Rightarrow> value list \<Rightarrow> value list \<Rightarrow> bool" where
  "keys_differ ops keys shape a b \<longleftrightarrow>
     (case (sort_keys_of ops keys shape a, sort_keys_of ops keys shape b) of
        (Inr ka, Inr kb) \<Rightarrow> sort_cmp keys ka kb \<noteq> Equal
      | _ \<Rightarrow> False)"

lemma sort_rel_keyed:
  assumes "sort_rel ops rel keys = Inr out"
  obtains S where "rel_rows out = map snd S" "rel_shape out = rel_shape rel"
    "\<And>p. p \<in> set S \<Longrightarrow> sort_keys_of ops keys (rel_shape rel) (snd p) = Inr (fst p)"
    "\<And>kinds. (\<And>p. p \<in> set S \<Longrightarrow> typed_key kinds (fst p)) \<Longrightarrow> sorted_wrt (\<lambda>a b. sort_cmp keys (fst a) (fst b) \<noteq> Greater) S"
proof -
  let ?f = "\<lambda>a b. sort_cmp keys (fst a) (fst b)"
  obtain keyed where keyed: "collect_res (\<lambda>row. and_then (sort_keys_of ops keys (rel_shape rel) row) (\<lambda>ks. Inr (ks, row))) (rel_rows rel) = Inr keyed"
    and out: "out = rel\<lparr> rel_rows := map snd (sort_by ?f keyed) \<rparr>"
    using assms by (auto simp: sort_rel_def elim!: and_then_InrE)
  have keyed_ok: "sort_keys_of ops keys (rel_shape rel) (snd p) = Inr (fst p)" if p: "p \<in> set keyed" for p
  proof -
    obtain i where i: "i < length keyed" "p = keyed ! i" using p by (auto simp: in_set_conv_nth)
    then have "and_then (sort_keys_of ops keys (rel_shape rel) (rel_rows rel ! i)) (\<lambda>ks. Inr (ks, rel_rows rel ! i)) = Inr p"
      using collect_res_nth [OF keyed] by (auto simp: list_all2_conv_all_nth)
    then show ?thesis by (auto elim!: and_then_InrE)
  qed
  have srt: "sorted_wrt (\<lambda>a b. ?f a b \<noteq> Greater) (sort_by ?f keyed)" if "\<And>p. p \<in> set (sort_by ?f keyed) \<Longrightarrow> typed_key kinds (fst p)" for kinds
    using that by (intro sort_by_sorted [OF sort_cmp_preorder [of kinds keys]]) auto
  show ?thesis
  proof (rule that)
    show "rel_rows out = map snd (sort_by ?f keyed)" "rel_shape out = rel_shape rel" by (simp_all add: out)
    show "sort_keys_of ops keys (rel_shape rel) (snd p) = Inr (fst p)" if "p \<in> set (sort_by ?f keyed)" for p
      using that keyed_ok by simp
    show "sorted_wrt (\<lambda>a b. ?f a b \<noteq> Greater) (sort_by ?f keyed)" if "\<And>p. p \<in> set (sort_by ?f keyed) \<Longrightarrow> typed_key kinds (fst p)" for kinds
      using that by (rule srt)
  qed
qed

lemma filter_index:
  assumes "\<And>j. j < length xs \<Longrightarrow> P (xs ! j) \<longleftrightarrow> i \<le> j"
  shows "filter P xs = drop i xs"
proof -
  have "filter P (take i xs) = []" using assms by (auto simp: filter_empty_conv in_set_conv_nth)
  moreover have "filter P (drop i xs) = drop i xs"
    using assms by (auto simp: filter_id_conv in_set_conv_nth)
  ultimately show ?thesis by (metis append_Nil append_take_drop_id filter_append)
qed

text \<open>The token that resumes after a row, and the rows it resumes with.\<close>

definition token_of :: "text_ops \<Rightarrow> SortKey list \<Rightarrow> Shape \<Rightarrow> value list \<Rightarrow> bytes" where
  "token_of ops keys shape row = (case encode_resume ops keys shape row of Inr t \<Rightarrow> t | Inl _ \<Rightarrow> [])"

lemma encode_resume_ok:
  assumes "keys_ok ops kinds keys shape row"
  shows "encode_resume ops keys shape row = Inr (token_of ops keys shape row)"
    and "sort_keys_of ops keys shape row = Inr key \<Longrightarrow> decode_resume (token_of ops keys shape row) = Inr key"
proof -
  obtain k b where k: "sort_keys_of ops keys shape row = Inr k" "\<forall>v \<in> set k. value_wf v" "encode_row k = Inr b"
    using assms by (auto simp: keys_ok_def list_all_iff split: sum.splits)
  then have enc: "encode_resume ops keys shape row = Inr (encode_cursor_token b)"
    by (simp add: encode_resume_def key_of_def)
  then show "encode_resume ops keys shape row = Inr (token_of ops keys shape row)" by (simp add: token_of_def)
  show "decode_resume (token_of ops keys shape row) = Inr key" if "sort_keys_of ops keys shape row = Inr key"
    using that k row_roundtrip [OF k(2,3)] enc by (simp add: token_of_def decode_resume_def)
qed

lemma sort_keys_length: "sort_keys_of ops keys shape row = Inr key \<Longrightarrow> length key = length keys"
  unfolding sort_keys_of_def by (drule collect_res_nth) (simp add: list_all2_lengthD)

lemma resume_after:
  assumes ok: "\<And>row. row \<in> set rows \<Longrightarrow> keys_ok ops kinds keys shape row"
    and less: "\<And>a b. a < b \<Longrightarrow> b < length rows \<Longrightarrow>
      \<exists>ka kb. sort_keys_of ops keys shape (rows ! a) = Inr ka \<and> sort_keys_of ops keys shape (rows ! b) = Inr kb
        \<and> sort_cmp keys ka kb = Less \<and> sort_cmp keys kb ka = Greater"
    and i: "i < length rows"
  shows "resume_rows ops (Some keys) shape (Some (token_of ops keys shape (rows ! i))) rows = Inr (drop (Suc i) rows)"
proof -
  obtain key where key: "sort_keys_of ops keys shape (rows ! i) = Inr key" "typed_key kinds key"
    using ok [of "rows ! i"] i by (auto simp: keys_ok_def split: sum.splits)
  have self: "sort_cmp keys key key = Equal"
    using sort_cmp_rev [OF key(2,2), of keys] by (cases "sort_cmp keys key key") auto
  have after: "row_after ops keys shape key (rows ! j) = Some (Suc i \<le> j)" if j: "j < length rows" for j
  proof -
    obtain kj where kj: "sort_keys_of ops keys shape (rows ! j) = Inr kj"
      using ok [of "rows ! j"] j by (auto simp: keys_ok_def split: sum.splits)
    have "sort_cmp keys kj key = (if j < i then Less else if j = i then Equal else Greater)"
      using less [of j i] less [of i j] i j key(1) kj self by (auto simp: not_less_iff_gr_or_eq)
    then show ?thesis
      using kj key(1) sort_keys_length by (auto simp: row_after_def key_of_def key_cmp_sort_cmp)
  qed
  have "retain_res (\<lambda>row. ok_or Panicked (row_after ops keys shape key row)) rows = Inr (drop (Suc i) rows)"
    unfolding retain_res_Inr
  proof (intro conjI ballI)
    fix row assume "row \<in> set rows"
    then show "\<exists>b. ok_or Panicked (row_after ops keys shape key row) = Inr b"
      using after by (auto simp: in_set_conv_nth)
  next
    show "drop (Suc i) rows = filter (\<lambda>row. ok_or Panicked (row_after ops keys shape key row) = Inr True) rows"
      using after by (intro filter_index [symmetric]) auto
  qed
  then show ?thesis
    using encode_resume_ok(2) [OF ok [of "rows ! i"] key(1)] i by (simp add: resume_rows_def)
qed

lemma sort_rel_strict:
  assumes "sort_rel ops input keys = Inr rel"
    and ok: "\<And>row. row \<in> set (rel_rows rel) \<Longrightarrow> keys_ok ops kinds keys (rel_shape rel) row"
    and differ: "sorted_wrt (keys_differ ops keys (rel_shape rel)) (rel_rows rel)"
    and ab: "a < b" "b < length (rel_rows rel)"
  shows "\<exists>ka kb. sort_keys_of ops keys (rel_shape rel) (rel_rows rel ! a) = Inr ka
    \<and> sort_keys_of ops keys (rel_shape rel) (rel_rows rel ! b) = Inr kb
    \<and> sort_cmp keys ka kb = Less \<and> sort_cmp keys kb ka = Greater"
proof -
  obtain S where S: "rel_rows rel = map snd S" "rel_shape rel = rel_shape input"
    and keyed: "\<And>p. p \<in> set S \<Longrightarrow> sort_keys_of ops keys (rel_shape input) (snd p) = Inr (fst p)"
    and sorted: "\<And>kinds. (\<And>p. p \<in> set S \<Longrightarrow> typed_key kinds (fst p)) \<Longrightarrow> sorted_wrt (\<lambda>a b. sort_cmp keys (fst a) (fst b) \<noteq> Greater) S"
    using sort_rel_keyed [OF assms(1)] by metis
  have typed: "typed_key kinds (fst p)" if p: "p \<in> set S" for p
    using ok [of "snd p"] keyed [OF p] p S by (auto simp: keys_ok_def)
  have len: "a < length S" "b < length S" using ab S(1) by auto
  then have keys: "sort_keys_of ops keys (rel_shape rel) (rel_rows rel ! a) = Inr (fst (S ! a))"
    "sort_keys_of ops keys (rel_shape rel) (rel_rows rel ! b) = Inr (fst (S ! b))"
    using keyed S by auto
  have "sort_cmp keys (fst (S ! a)) (fst (S ! b)) \<noteq> Greater"
    using sorted [OF typed] ab(1) len by (simp add: sorted_wrt_iff_nth_less)
  moreover have "sort_cmp keys (fst (S ! a)) (fst (S ! b)) \<noteq> Equal"
    using differ ab keys by (auto simp: sorted_wrt_iff_nth_less keys_differ_def split: sum.splits)
  ultimately have less: "sort_cmp keys (fst (S ! a)) (fst (S ! b)) = Less"
    by (cases "sort_cmp keys (fst (S ! a)) (fst (S ! b))") auto
  then have "sort_cmp keys (fst (S ! b)) (fst (S ! a)) = Greater"
    using sort_cmp_rev [OF typed typed, of "S ! a" "S ! b" keys] len by simp
  then show ?thesis using keys less by blast
qed

section \<open>Pages\<close>

definition at_row :: "text_ops \<Rightarrow> SortKey list \<Rightarrow> Shape \<Rightarrow> value list list \<Rightarrow> nat \<Rightarrow> bytes option" where
  "at_row ops keys shape rows i = (if i = 0 then None else Some (token_of ops keys shape (rows ! (i - 1))))"

lemma cut_page_ok:
  assumes "\<And>row. row \<in> set rows \<Longrightarrow> keys_ok ops kinds keys shape row" "0 < unat n" "i \<le> length rows"
  shows "cut_page ops (Some keys) shape (Some n) (drop i rows) =
    Inr (take (unat n) (drop i rows),
         if i + unat n < length rows then at_row ops keys shape rows (i + unat n) else None)"
proof (cases "i + unat n < length rows")
  case True
  have last: "last (take (unat n) (drop i rows)) = rows ! (i + unat n - 1)"
    using True assms(2) by (subst last_conv_nth) (auto simp: min_def)
  have "rows ! (i + unat n - 1) \<in> set rows" using True by simp
  then show ?thesis
    using True assms(2) encode_resume_ok(1) [OF assms(1)] last by (auto simp: cut_page_def Let_def at_row_def)
next
  case False
  then show ?thesis using assms(3) by (auto simp: cut_page_def Let_def)
qed

lemma page_at:
  assumes core: "execute ops snap (PSort input keys) = Inr rel"
    and caps: "fits ops snap (rl_max_rows limits_default) (PSort input keys)"
      "within_cap (rl_max_rows limits_default) rel" "count_joins input \<le> 16"
    and ok: "\<And>row. row \<in> set (rel_rows rel) \<Longrightarrow> keys_ok ops kinds keys (rel_shape rel) row"
    and differ: "sorted_wrt (keys_differ ops keys (rel_shape rel)) (rel_rows rel)"
    and cur: "cu_base cur = PSort input keys" "cu_token cur = at_row ops keys (rel_shape rel) (rel_rows rel) i"
      "0 < unat (cu_page_size cur)" "i \<le> length (rel_rows rel)"
  shows "execute_page ops snap clock (page_plan cur) c =
    (Inr \<lparr> pg_shape = rel_shape rel, pg_rows = take (unat (cu_page_size cur)) (drop i (rel_rows rel)),
           pg_cursor = (if i + unat (cu_page_size cur) < length (rel_rows rel)
             then at_row ops keys (rel_shape rel) (rel_rows rel) (i + unat (cu_page_size cur)) else None) \<rparr>, c)"
proof -
  let ?b = "\<lparr> bu_max_rows = rl_max_rows limits_default, bu_deadline = None \<rparr>"
  let ?rows = "rel_rows rel" and ?shape = "rel_shape rel"
  have joins: "check_join_count (page_plan cur) limits_default = Inr ()"
    using caps(3) cur(1) by (simp add: check_join_count_def page_plan_def limits_default_def split: option.splits)
  have budget: "(budget_new clock limits_default :: (nat, ExecError failure, Budget) st) c = (Inr ?b, c)"
    by (simp add: budget_new_def limits_default_def)
  have peel: "peel None 0 None (page_plan cur) = (PSort input keys, Some (cu_page_size cur), 0, cu_token cur)"
    using cur(1) by (simp add: page_plan_def split: option.splits)
  have build: "build ops snap clock ?b (PSort input keys) c = (Inr (from_relation rel), c)"
    using build_execute [OF core, of ?b] caps(1) by simp
  have collected: "collect clock ?b (map Inr ?rows) c = (Inr ?rows, c)"
    using collect_ok [of ?b ?rows] within_capD [OF caps(2)] by simp
  have resumed: "resume_rows ops (Some keys) ?shape (cu_token cur) ?rows = Inr (drop i ?rows)"
  proof (cases i)
    case 0
    then show ?thesis using cur(2) by (simp add: at_row_def resume_rows_def)
  next
    case (Suc j)
    obtain inrel where "sort_rel ops inrel keys = Inr rel" using core by (auto elim!: and_then_InrE)
    from sort_rel_strict [OF this ok differ] show ?thesis
      using resume_after [OF ok, where i = j] cur(2,4) Suc by (simp add: at_row_def)
  qed
  show ?thesis
    unfolding execute_page_def execute_page_with_def
    by (simp add: joins budget peel build from_relation_def collected resumed cut_page_ok [OF ok cur(3,4)] Let_def del: build.simps)
qed

section \<open>The walk\<close>

text \<open>The caller's loop: fetch pages until the cursor is done.\<close>

fun walk :: "nat \<Rightarrow> text_ops \<Rightarrow> snap_ops \<Rightarrow> clock \<Rightarrow> QueryCursor \<Rightarrow> nat \<Rightarrow> (EdbError failure + value list list list) option" where
  "walk 0 ops snap clock cur c = (if cu_done cur then Some (Inr []) else None)"
| "walk (Suc n) ops snap clock cur c =
     (if cu_done cur then Some (Inr [])
      else case cur_fetch ops snap clock cur c of
        ((Inl e, _), _) \<Rightarrow> Some (Inl e)
      | ((Inr r, cur'), c') \<Rightarrow> map_option (\<lambda>q. and_then q (\<lambda>pages. Inr (qr_rows r # pages))) (walk n ops snap clock cur' c'))"

lemma walk_from:
  assumes page: "\<And>cur i c. cu_base cur = base \<Longrightarrow> cu_page_size cur = sz \<Longrightarrow> i \<le> length rows \<Longrightarrow> cu_token cur = tok i \<Longrightarrow>
      execute_page ops snap clock (page_plan cur) c =
        (Inr \<lparr> pg_shape = shape, pg_rows = take (unat sz) (drop i rows),
               pg_cursor = (if i + unat sz < length rows then tok (i + unat sz) else None) \<rparr>, c)"
    and tok: "\<And>i. 0 < i \<Longrightarrow> tok i \<noteq> None" and sz: "0 < unat sz"
    and cur: "cu_base cur = base" "cu_page_size cur = sz" "cu_token cur = tok i" "\<not> cu_done cur"
    and i: "i \<le> length rows" "length rows - i < fuel"
  shows "\<exists>pages. walk fuel ops snap clock cur c = Some (Inr pages) \<and> concat pages = drop i rows
    \<and> (\<forall>p \<in> set pages. length p \<le> unat sz)"
  using cur i
proof (induction fuel arbitrary: cur i)
  case (Suc fuel)
  note fetched = page [OF Suc.prems(1,2,5,3), of c]
  show ?case
  proof (cases "i + unat sz < length rows")
    case True
    obtain t where t: "tok (i + unat sz) = Some t" using tok [of "i + unat sz"] sz by auto
    have "\<exists>pages. walk fuel ops snap clock (cur\<lparr> cu_token := Some t \<rparr>) c = Some (Inr pages)
        \<and> concat pages = drop (i + unat sz) rows \<and> (\<forall>p \<in> set pages. length p \<le> unat sz)"
      using Suc.prems True sz t by (intro Suc.IH) auto
    then obtain pages where pages: "walk fuel ops snap clock (cur\<lparr> cu_token := Some t \<rparr>) c = Some (Inr pages)"
      "concat pages = drop (i + unat sz) rows" "\<forall>p \<in> set pages. length p \<le> unat sz" by blast
    have "take (unat sz) (drop i rows) @ drop (i + unat sz) rows = drop i rows"
      by (metis append_take_drop_id drop_drop add.commute)
    then show ?thesis
      using fetched Suc.prems(4) True t pages by (simp add: cur_fetch_def query_result_default_def)
  next
    case False
    have "walk fuel ops snap clock (cur\<lparr> cu_done := True \<rparr>) c = Some (Inr [])" by (cases fuel) auto
    then show ?thesis
      using fetched Suc.prems(4) False by (simp add: cur_fetch_def query_result_default_def)
  qed
qed simp

text \<open>C7: A cursor visits every row exactly once. Take a cursor just opened over an ordered select whose reference
  result fits the default caps, whose sort keys are distinct from row to row, each component of one kind,
  and can be encoded. Fetching until the cursor reports that it is done ends after at most one fetch more than
  there are rows, never fails, every page has at most \<open>page_size\<close> rows, and the pages put together are exactly
  the ordered result: no row is skipped or repeated, whatever the page size.\<close>

theorem cursor_visits_all:
  assumes "execute ops snap (PSort input keys) = Inr rel"
    and "fits ops snap (rl_max_rows limits_default) (PSort input keys)"
      "within_cap (rl_max_rows limits_default) rel" "count_joins input \<le> 16"
    and "list_all (keys_ok ops kinds keys (rel_shape rel)) (rel_rows rel)"
    and "sorted_wrt (keys_differ ops keys (rel_shape rel)) (rel_rows rel)"
    and "cu_base cur = PSort input keys" "cu_token cur = None" "\<not> cu_done cur" "cu_page_size cur \<noteq> 0"
  shows "\<exists>pages. walk (Suc (length (rel_rows rel))) ops snap clock cur c = Some (Inr pages)
    \<and> concat pages = rel_rows rel \<and> (\<forall>p \<in> set pages. length p \<le> unat (cu_page_size cur))"
proof -
  have size: "0 < unat (cu_page_size cur)" using assms(10) by (simp add: unat_gt_0)
  have "\<exists>pages. walk (Suc (length (rel_rows rel))) ops snap clock cur c = Some (Inr pages)
    \<and> concat pages = drop 0 (rel_rows rel) \<and> (\<forall>p \<in> set pages. length p \<le> unat (cu_page_size cur))"
  proof (rule walk_from [where tok = "at_row ops keys (rel_shape rel) (rel_rows rel)" and base = "PSort input keys" and shape = "rel_shape rel"])
    fix cur' :: QueryCursor and i c
    assume "cu_base cur' = PSort input keys" "cu_page_size cur' = cu_page_size cur" "i \<le> length (rel_rows rel)"
      "cu_token cur' = at_row ops keys (rel_shape rel) (rel_rows rel) i"
    then show "execute_page ops snap clock (page_plan cur') c =
        (Inr \<lparr> pg_shape = rel_shape rel, pg_rows = take (unat (cu_page_size cur)) (drop i (rel_rows rel)),
               pg_cursor = (if i + unat (cu_page_size cur) < length (rel_rows rel)
                 then at_row ops keys (rel_shape rel) (rel_rows rel) (i + unat (cu_page_size cur)) else None) \<rparr>, c)"
      using page_at [OF assms(1-4) _ assms(6), of kinds cur' i] assms(5) size by (simp add: list_all_iff)
  next
    show "at_row ops keys (rel_shape rel) (rel_rows rel) i \<noteq> None" if "0 < i" for i
      using that by (simp add: at_row_def)
    show "cu_token cur = at_row ops keys (rel_shape rel) (rel_rows rel) 0" using assms(8) by (simp add: at_row_def)
  qed (use assms(7,9) size in auto)
  then show ?thesis by simp
qed

text \<open>Three rows sorted by their key in descending order, two per page.\<close>

definition demo_plan :: Plan where
  "demo_plan = PSort (PFilter demo_scan (EIsNotNull (EColumn None (str_bytes ''grp''))))
     [\<lparr> sk_expr = EColumn None (str_bytes ''id''), sk_dir = Desc \<rparr>]"

definition demo_cursor :: QueryCursor where
  "demo_cursor = \<lparr> cu_base = demo_plan, cu_page_size = 2, cu_token = None,
     cu_columns = map str_bytes [''id'', ''grp''], cu_done = False \<rparr>"

theorem cursor_visits_all_witness:
  "\<exists>pages. walk 4 plain_text demo_snap (\<lambda>_. 0) demo_cursor 0 = Some (Inr pages)
    \<and> concat pages = [[I64 3, I64 9], [I64 2, I64 7], [I64 1, I64 7]] \<and> (\<forall>p \<in> set pages. length p \<le> 2)"
proof -
  let ?in = "PFilter demo_scan (EIsNotNull (EColumn None (str_bytes ''grp'')))"
  let ?keys = "[\<lparr> sk_expr = EColumn None (str_bytes ''id''), sk_dir = Desc \<rparr>]"
  let ?rel = "\<lparr> rel_shape = table_shape demo_def (str_bytes ''t''),
     rel_rows = [[I64 3, I64 9], [I64 2, I64 7], [I64 1, I64 7]] \<rparr>"
  have "\<exists>pages. walk (Suc (length (rel_rows ?rel))) plain_text demo_snap (\<lambda>_. 0) demo_cursor 0 = Some (Inr pages)
    \<and> concat pages = rel_rows ?rel \<and> (\<forall>p \<in> set pages. length p \<le> unat (cu_page_size demo_cursor))"
  proof (rule cursor_visits_all)
    show "execute plain_text demo_snap (PSort ?in ?keys) = Inr ?rel" by code_simp
    show "fits plain_text demo_snap (rl_max_rows limits_default) (PSort ?in ?keys)" by code_simp
    show "within_cap (rl_max_rows limits_default) ?rel" "count_joins ?in \<le> 16" by code_simp+
    show "list_all (keys_ok plain_text [TI64] ?keys (rel_shape ?rel)) (rel_rows ?rel)" by code_simp
    show "sorted_wrt (keys_differ plain_text ?keys (rel_shape ?rel)) (rel_rows ?rel)" by code_simp
  qed (simp_all add: demo_cursor_def demo_plan_def)
  moreover have "Suc (length (rel_rows ?rel)) = 4" "unat (cu_page_size demo_cursor) = 2" by (simp_all add: demo_cursor_def)
  ultimately show ?thesis by (simp del: walk.simps list.size)
qed

section \<open>What pagination does not do\<close>

text \<open>Of two limits on top of a plan only the inner one is applied, where the reference executor applies both.\<close>

lemma inner_limit_wins:
  "peel None 0 None (PLimit (PLimit core limit offset) outer_limit outer_offset) = peel limit offset None core"
  by simp

text \<open>A well-formed token with fewer values than the query has sort keys indexes out of bounds.\<close>

lemma short_token_panics:
  assumes "key_of ops [k] shape row = Inr [x]"
  shows "resume_rows ops (Some [k]) shape (Some (encode_cursor_token [0, 0])) [row] = Inl Panicked"
proof -
  have "decode_row [0, 0] = Inr []" by code_simp
  then show ?thesis using assms by (simp add: resume_rows_def decode_resume_def row_after_def ok_or_def)
qed

end
