(* ===== verification/CatalogCodec.thy ===== *)
theory CatalogCodec
  imports Schema RowCodec
begin

text \<open>
  The stored form of table definitions (\<open>crates/catalog/src/codec.rs\<close>): a version byte and
  length-prefixed fields, CHECK expressions in prefix form, literals as one-column rows. The lemmas
  show that every accepted definition decodes to itself and that foreign bytes yield a
  definition or a corruption error.
\<close>

abbreviation "VERSION \<equiv> (1 :: u8)"
abbreviation "FLAG_NULLABLE \<equiv> (0x01 :: u8)"
abbreviation "FLAG_UNIQUE \<equiv> (0x02 :: u8)"
abbreviation "FLAG_AUTO_INCREMENT \<equiv> (0x04 :: u8)"
abbreviation "FLAG_ROWVERSION \<equiv> (0x08 :: u8)"
abbreviation "FLAG_ON_UPDATE_NOW \<equiv> (0x10 :: u8)"
abbreviation "FLAG_GUARDED \<equiv> (0x20 :: u8)"
abbreviation "DEFAULT_NONE \<equiv> (0 :: u8)"
abbreviation "DEFAULT_VALUE \<equiv> (1 :: u8)"
abbreviation "DEFAULT_NOW \<equiv> (2 :: u8)"
abbreviation "DEFAULT_UUID_V7 \<equiv> (3 :: u8)"
abbreviation "CHECK_CMP \<equiv> (1 :: u8)"
abbreviation "CHECK_IS_NULL \<equiv> (2 :: u8)"
abbreviation "CHECK_IS_NOT_NULL \<equiv> (3 :: u8)"
abbreviation "CHECK_AND \<equiv> (4 :: u8)"
abbreviation "CHECK_OR \<equiv> (5 :: u8)"
abbreviation "CHECK_NOT \<equiv> (6 :: u8)"

section \<open>Encoding\<close>

fun action_code :: "RefAction \<Rightarrow> u8" where
  "action_code Restrict = 1"
| "action_code Cascade = 2"
| "action_code SetNull = 3"

fun kind_code :: "TypeKind \<Rightarrow> u8" where
  "kind_code TBool = 1"
| "kind_code TI64 = 2"
| "kind_code TF64 = 3"
| "kind_code TText = 4"
| "kind_code TBlob = 5"
| "kind_code TUuid = 6"
| "kind_code TJson = 7"
| "kind_code TTimestamp = 8"

fun cmp_code :: "CheckCmp \<Rightarrow> u8" where
  "cmp_code CkEq = 1"
| "cmp_code CkNe = 2"
| "cmp_code CkLt = 3"
| "cmp_code CkLte = 4"
| "cmp_code CkGt = 5"
| "cmp_code CkGte = 6"

definition push_count :: "nat \<Rightarrow> CatalogError + bytes" where
  "push_count n =
     (if n < 2 ^ 16 then Inr (to_le_bytes 2 (of_nat n :: u16))
      else Inl (InvalidSchema ''definition is too large to encode''))"

definition push_str :: "bytes \<Rightarrow> CatalogError + bytes" where
  "push_str s = and_then (push_count (length s)) (\<lambda>n. Inr (n @ s))"

definition push_value :: "value \<Rightarrow> CatalogError + bytes" where
  "push_value v =
     and_then (map_err CatType (encode_row [v])) (\<lambda>bs.
     and_then (push_count (length bs)) (\<lambda>n. Inr (n @ bs)))"

text \<open>A counted sequence: the count, then each element.\<close>

fun push_each :: "('a \<Rightarrow> CatalogError + bytes) \<Rightarrow> 'a list \<Rightarrow> CatalogError + bytes" where
  "push_each f [] = Inr []"
| "push_each f (x # xs) = and_then (f x) (\<lambda>b. and_then (push_each f xs) (\<lambda>bs. Inr (b @ bs)))"

definition push_seq :: "('a \<Rightarrow> CatalogError + bytes) \<Rightarrow> 'a list \<Rightarrow> CatalogError + bytes" where
  "push_seq f xs = and_then (push_count (length xs)) (\<lambda>n. and_then (push_each f xs) (\<lambda>bs. Inr (n @ bs)))"

lemma push_each_cong [fundef_cong]:
  "xs = ys \<Longrightarrow> (\<And>x. x \<in> set ys \<Longrightarrow> f x = g x) \<Longrightarrow> push_each f xs = push_each g ys"
  by (induction xs arbitrary: ys) auto

lemma push_seq_cong [fundef_cong]:
  "xs = ys \<Longrightarrow> (\<And>x. x \<in> set ys \<Longrightarrow> f x = g x) \<Longrightarrow> push_seq f xs = push_seq g ys"
  unfolding push_seq_def using push_each_cong [of xs ys f g] by simp

fun push_check :: "CheckExpr \<Rightarrow> CatalogError + bytes" where
  "push_check (CkCmp col op v) =
     and_then (push_str col) (\<lambda>c. and_then (push_value v) (\<lambda>b. Inr (CHECK_CMP # c @ cmp_code op # b)))"
| "push_check (CkIsNull col) = and_then (push_str col) (\<lambda>c. Inr (CHECK_IS_NULL # c))"
| "push_check (CkIsNotNull col) = and_then (push_str col) (\<lambda>c. Inr (CHECK_IS_NOT_NULL # c))"
| "push_check (CkAnd items) = and_then (push_seq push_check items) (\<lambda>b. Inr (CHECK_AND # b))"
| "push_check (CkOr items) = and_then (push_seq push_check items) (\<lambda>b. Inr (CHECK_OR # b))"
| "push_check (CkNot inner) = and_then (push_check inner) (\<lambda>b. Inr (CHECK_NOT # b))"

definition column_flags :: "ColumnDef \<Rightarrow> u8" where
  "column_flags col =
     (if cd_nullable col then FLAG_NULLABLE else 0)
     OR (if cd_unique col then FLAG_UNIQUE else 0)
     OR (if cd_auto_increment col then FLAG_AUTO_INCREMENT else 0)
     OR (if cd_rowversion col then FLAG_ROWVERSION else 0)
     OR (if cd_on_update_now col then FLAG_ON_UPDATE_NOW else 0)
     OR (if cd_update col = Guarded then FLAG_GUARDED else 0)"

fun push_default :: "DefaultSpec option \<Rightarrow> CatalogError + bytes" where
  "push_default None = Inr [DEFAULT_NONE]"
| "push_default (Some (DefaultValue v)) = and_then (push_value v) (\<lambda>b. Inr (DEFAULT_VALUE # b))"
| "push_default (Some DefaultNow) = Inr [DEFAULT_NOW]"
| "push_default (Some DefaultUuidV7) = Inr [DEFAULT_UUID_V7]"

definition push_column :: "ColumnDef \<Rightarrow> CatalogError + bytes" where
  "push_column col =
     and_then (push_str (cd_name col)) (\<lambda>nm.
     and_then (push_default (cd_default col)) (\<lambda>d.
       Inr (nm @ kind_code (cd_kind col) # column_flags col # d)))"

definition push_index :: "IndexDef \<Rightarrow> CatalogError + bytes" where
  "push_index index =
     and_then (push_str (ix_name index)) (\<lambda>nm.
     and_then (push_seq push_str (ix_columns index)) (\<lambda>cols.
       Inr (nm @ (if ix_unique index then 1 else 0) # cols)))"

definition push_fk :: "ForeignKey \<Rightarrow> CatalogError + bytes" where
  "push_fk fk =
     and_then (push_str (fk_name fk)) (\<lambda>nm.
     and_then (push_seq push_str (fk_columns fk)) (\<lambda>cols.
     and_then (push_str (fk_parent fk)) (\<lambda>parent.
     and_then (push_seq push_str (fk_parent_columns fk)) (\<lambda>pcols.
       Inr (nm @ cols @ parent @ pcols @ [action_code (fk_on_delete fk), action_code (fk_on_update fk)])))))"

definition encode_table :: "TableDef \<Rightarrow> CatalogError + bytes" where
  "encode_table t =
     and_then (push_str (td_name t)) (\<lambda>nm.
     and_then (push_seq push_column (td_columns t)) (\<lambda>columns.
     and_then (push_seq push_str (td_pk t)) (\<lambda>pk.
     and_then (push_seq push_check (td_checks t)) (\<lambda>checks.
     and_then (push_seq push_index (td_indexes t)) (\<lambda>idx.
     and_then (push_seq push_fk (td_foreign_keys t)) (\<lambda>fks.
       Inr (VERSION # nm @ columns @ pk @ checks @ idx @ fks)))))))"

section \<open>Decoding\<close>

definition cat_corrupt :: "CatalogCorruption \<Rightarrow> CatalogError" where
  "cat_corrupt k = CatCorrupt k"

definition cat_take :: "nat \<Rightarrow> bytes \<Rightarrow> CatalogError + (bytes \<times> bytes)" where
  "cat_take n rest = take_n (cat_corrupt CatTruncated) n rest"

fun cat_byte :: "bytes \<Rightarrow> CatalogError + (u8 \<times> bytes)" where
  "cat_byte [] = Inl (cat_corrupt CatTruncated)"
| "cat_byte (b # tail) = Inr (b, tail)"

definition cat_count :: "bytes \<Rightarrow> CatalogError + (nat \<times> bytes)" where
  "cat_count rest = and_then (cat_take 2 rest) (\<lambda>(n, rest'). Inr (unat (from_le_bytes n :: u16), rest'))"

definition cat_string :: "bytes \<Rightarrow> CatalogError + (bytes \<times> bytes)" where
  "cat_string rest =
     and_then (cat_count rest) (\<lambda>(len, rest').
     and_then (cat_take len rest') (\<lambda>(bs, rest'').
       if utf8_valid bs then Inr (bs, rest'') else Inl (cat_corrupt CatInvalidUtf8)))"

definition cat_value :: "bytes \<Rightarrow> CatalogError + (value \<times> bytes)" where
  "cat_value rest =
     and_then (cat_count rest) (\<lambda>(len, rest').
     and_then (cat_take len rest') (\<lambda>(bs, rest'').
     and_then (map_err (\<lambda>_. cat_corrupt BadValue) (decode_row bs)) (\<lambda>row.
       case row of [v] \<Rightarrow> Inr (v, rest'') | _ \<Rightarrow> Inl (cat_corrupt BadValue))))"

fun read_n :: "(bytes \<Rightarrow> CatalogError + ('a \<times> bytes)) \<Rightarrow> nat \<Rightarrow> bytes \<Rightarrow> CatalogError + ('a list \<times> bytes)" where
  "read_n f 0 rest = Inr ([], rest)"
| "read_n f (Suc n) rest =
     and_then (f rest) (\<lambda>(x, rest'). and_then (read_n f n rest') (\<lambda>(xs, rest''). Inr (x # xs, rest'')))"

definition read_seq :: "(bytes \<Rightarrow> CatalogError + ('a \<times> bytes)) \<Rightarrow> bytes \<Rightarrow> CatalogError + ('a list \<times> bytes)" where
  "read_seq f rest = and_then (cat_count rest) (\<lambda>(n, rest'). read_n f n rest')"

definition action_from :: "u8 \<Rightarrow> CatalogError + RefAction" where
  "action_from code =
     (if code = 1 then Inr Restrict else if code = 2 then Inr Cascade else if code = 3 then Inr SetNull
      else Inl (cat_corrupt (BadTag code)))"

definition kind_from :: "u8 \<Rightarrow> CatalogError + TypeKind" where
  "kind_from code =
     (if code = 1 then Inr TBool else if code = 2 then Inr TI64 else if code = 3 then Inr TF64
      else if code = 4 then Inr TText else if code = 5 then Inr TBlob else if code = 6 then Inr TUuid
      else if code = 7 then Inr TJson else if code = 8 then Inr TTimestamp
      else Inl (cat_corrupt (BadTag code)))"

definition cmp_from :: "u8 \<Rightarrow> CatalogError + CheckCmp" where
  "cmp_from code =
     (if code = 1 then Inr CkEq else if code = 2 then Inr CkNe else if code = 3 then Inr CkLt
      else if code = 4 then Inr CkLte else if code = 5 then Inr CkGt else if code = 6 then Inr CkGte
      else Inl (cat_corrupt (BadTag code)))"

function read_check :: "nat \<Rightarrow> bytes \<Rightarrow> CatalogError + (CheckExpr \<times> bytes)" where
  "read_check depth rest =
     (if depth > MAX_CHECK_DEPTH then Inl (cat_corrupt DepthExceeded)
      else and_then (cat_byte rest) (\<lambda>(tag, rest1).
        if tag = CHECK_CMP then
          and_then (cat_string rest1) (\<lambda>(col, rest2).
          and_then (cat_byte rest2) (\<lambda>(code, rest3).
          and_then (cmp_from code) (\<lambda>op.
          and_then (cat_value rest3) (\<lambda>(v, rest4). Inr (CkCmp col op v, rest4)))))
        else if tag = CHECK_IS_NULL then and_then (cat_string rest1) (\<lambda>(col, rest2). Inr (CkIsNull col, rest2))
        else if tag = CHECK_IS_NOT_NULL then and_then (cat_string rest1) (\<lambda>(col, rest2). Inr (CkIsNotNull col, rest2))
        else if tag = CHECK_AND \<or> tag = CHECK_OR then
          and_then (read_seq (\<lambda>r. read_check (depth + 1) r) rest1) (\<lambda>(items, rest2).
            Inr (if tag = CHECK_AND then CkAnd items else CkOr items, rest2))
        else if tag = CHECK_NOT then
          and_then (read_check (depth + 1) rest1) (\<lambda>(inner, rest2). Inr (CkNot inner, rest2))
        else Inl (cat_corrupt (BadTag tag))))"
  by pat_completeness auto
termination
  by (relation "measure (\<lambda>(depth, rest). MAX_CHECK_DEPTH + 1 - depth)") auto

declare read_check.simps [simp del]

definition read_default :: "bytes \<Rightarrow> CatalogError + (DefaultSpec option \<times> bytes)" where
  "read_default rest =
     and_then (cat_byte rest) (\<lambda>(tag, rest1).
       if tag = DEFAULT_NONE then Inr (None, rest1)
       else if tag = DEFAULT_VALUE then and_then (cat_value rest1) (\<lambda>(v, rest2). Inr (Some (DefaultValue v), rest2))
       else if tag = DEFAULT_NOW then Inr (Some DefaultNow, rest1)
       else if tag = DEFAULT_UUID_V7 then Inr (Some DefaultUuidV7, rest1)
       else Inl (cat_corrupt (BadTag tag)))"

definition read_column :: "bytes \<Rightarrow> CatalogError + (ColumnDef \<times> bytes)" where
  "read_column rest =
     and_then (cat_string rest) (\<lambda>(nm, rest1).
     and_then (cat_byte rest1) (\<lambda>(code, rest2).
     and_then (kind_from code) (\<lambda>k.
     and_then (cat_byte rest2) (\<lambda>(flags, rest3).
     and_then (read_default rest3) (\<lambda>(d, rest4).
       Inr (\<lparr> cd_name = nm, cd_kind = k,
              cd_nullable = (flags AND FLAG_NULLABLE \<noteq> 0),
              cd_unique = (flags AND FLAG_UNIQUE \<noteq> 0),
              cd_default = d,
              cd_auto_increment = (flags AND FLAG_AUTO_INCREMENT \<noteq> 0),
              cd_rowversion = (flags AND FLAG_ROWVERSION \<noteq> 0),
              cd_on_update_now = (flags AND FLAG_ON_UPDATE_NOW \<noteq> 0),
              cd_update = (if flags AND FLAG_GUARDED \<noteq> 0 then Guarded else Free) \<rparr>, rest4))))))"

definition read_index :: "bytes \<Rightarrow> CatalogError + (IndexDef \<times> bytes)" where
  "read_index rest =
     and_then (cat_string rest) (\<lambda>(nm, rest1).
     and_then (cat_byte rest1) (\<lambda>(tag, rest2).
     and_then (if tag = 0 then Inr False else if tag = 1 then Inr True else Inl (cat_corrupt (BadTag tag))) (\<lambda>u.
     and_then (read_seq cat_string rest2) (\<lambda>(cols, rest3).
       Inr (\<lparr> ix_name = nm, ix_columns = cols, ix_unique = u \<rparr>, rest3)))))"

definition read_fk :: "bytes \<Rightarrow> CatalogError + (ForeignKey \<times> bytes)" where
  "read_fk rest =
     and_then (cat_string rest) (\<lambda>(nm, rest1).
     and_then (read_seq cat_string rest1) (\<lambda>(cols, rest2).
     and_then (cat_string rest2) (\<lambda>(parent, rest3).
     and_then (read_seq cat_string rest3) (\<lambda>(pcols, rest4).
     and_then (cat_byte rest4) (\<lambda>(d, rest5).
     and_then (action_from d) (\<lambda>on_delete.
     and_then (cat_byte rest5) (\<lambda>(u, rest6).
     and_then (action_from u) (\<lambda>on_update.
       Inr (\<lparr> fk_name = nm, fk_columns = cols, fk_parent = parent, fk_parent_columns = pcols,
              fk_on_delete = on_delete, fk_on_update = on_update \<rparr>, rest6)))))))))"

definition decode_table :: "bytes \<Rightarrow> CatalogError + TableDef" where
  "decode_table bs =
     and_then (cat_byte bs) (\<lambda>(version, rest0).
     and_then (ensure (version = VERSION) (cat_corrupt (BadVersion version))) (\<lambda>_.
     and_then (cat_string rest0) (\<lambda>(nm, rest1).
     and_then (read_seq read_column rest1) (\<lambda>(columns, rest2).
     and_then (read_seq cat_string rest2) (\<lambda>(pk, rest3).
     and_then (read_seq (read_check 0) rest3) (\<lambda>(checks, rest4).
     and_then (read_seq read_index rest4) (\<lambda>(idx, rest5).
     and_then (read_seq read_fk rest5) (\<lambda>(fks, rest6).
       if rest6 \<noteq> [] then Inl (cat_corrupt CatTrailingBytes)
       else Inr \<lparr> td_name = nm, td_columns = columns, td_pk = pk, td_checks = checks,
                  td_indexes = idx, td_foreign_keys = fks \<rparr>))))))))"

section \<open>Field codecs\<close>

text \<open>A reader of the catalog fails with a corruption error only. A field codec reads back what it
  wrote, whatever follows; sequences of fields inherit both laws.\<close>

locale field_reader =
  fixes read :: "bytes \<Rightarrow> CatalogError + ('a \<times> bytes)"
  assumes read_error: "read r = Inl e \<Longrightarrow> \<exists>k. e = CatCorrupt k"
begin

lemma read_n_error: "read_n read n r = Inl e \<Longrightarrow> \<exists>k. e = CatCorrupt k"
  by (induction n arbitrary: r) (auto simp: and_then_def split: sum.splits prod.splits dest: read_error)

end

locale field_codec = field_reader read for read :: "bytes \<Rightarrow> CatalogError + ('a \<times> bytes)" +
  fixes push :: "'a \<Rightarrow> CatalogError + bytes" and ok :: "'a \<Rightarrow> bool"
  assumes roundtrip: "ok x \<Longrightarrow> push x = Inr b \<Longrightarrow> read (b @ s) = Inr (x, s)"
begin

lemma each_roundtrip:
  "\<forall>x \<in> set xs. ok x \<Longrightarrow> push_each push xs = Inr b \<Longrightarrow> read_n read (length xs) (b @ s) = Inr (xs, s)"
  by (induction xs arbitrary: b) (auto simp: roundtrip)

end

lemma cat_take_error: "cat_take n r = Inl e \<Longrightarrow> \<exists>k. e = CatCorrupt k"
  by (auto simp: cat_take_def take_n_Inl cat_corrupt_def)

lemma cat_byte_error: "cat_byte r = Inl e \<Longrightarrow> \<exists>k. e = CatCorrupt k"
  by (cases r) (auto simp: cat_corrupt_def)

lemma cat_count_error: "cat_count r = Inl e \<Longrightarrow> \<exists>k. e = CatCorrupt k"
  by (auto simp: cat_count_def and_then_def split: sum.splits prod.splits dest: cat_take_error)

lemma push_count_Inr: "push_count n = Inr b \<longleftrightarrow> n < 2 ^ 16 \<and> b = to_le_bytes 2 (of_nat n :: u16)"
  by (auto simp: push_count_def)

lemma cat_count_push: "push_count n = Inr b \<Longrightarrow> cat_count (b @ s) = Inr (n, s)"
  by (auto simp: push_count_Inr cat_count_def cat_take_def)

text \<open>Sequences.\<close>

lemma read_seq_error:
  assumes "field_reader read" "read_seq read r = Inl e"
  shows "\<exists>k. e = CatCorrupt k"
  using assms(2) field_reader.read_n_error [OF assms(1)]
  by (auto simp: read_seq_def and_then_def split: sum.splits prod.splits dest: cat_count_error)

lemma seq_codec:
  assumes "field_codec read push ok"
  shows "field_codec (read_seq read) (push_seq push) (\<lambda>xs. \<forall>x \<in> set xs. ok x)"
proof
  show "read_seq read r = Inl e \<Longrightarrow> \<exists>k. e = CatCorrupt k" for r e
    using read_seq_error assms by (auto simp: field_codec_def)
  show "\<forall>x \<in> set xs. ok x \<Longrightarrow> push_seq push xs = Inr b \<Longrightarrow> read_seq read (b @ s) = Inr (xs, s)" for xs b s
    using field_codec.each_roundtrip [OF assms]
    by (auto simp: push_seq_def read_seq_def cat_count_push)
qed

section \<open>The codecs of the format\<close>

interpretation str_codec: field_codec cat_string push_str utf8_valid
proof
  show "cat_string r = Inl e \<Longrightarrow> \<exists>k. e = CatCorrupt k" for r e
    by (auto simp: cat_string_def and_then_def cat_corrupt_def split: sum.splits prod.splits if_splits
        dest: cat_count_error cat_take_error)
  show "utf8_valid x \<Longrightarrow> push_str x = Inr b \<Longrightarrow> cat_string (b @ s) = Inr (x, s)" for x b s
    by (auto simp: push_str_def cat_string_def cat_count_push cat_take_def)
qed

lemma encode_row_value: "value_wf v \<Longrightarrow> encode_row [v] = Inr b \<Longrightarrow> decode_row b = Inr [v]"
proof -
  assume v: "value_wf v" and b: "encode_row [v] = Inr b"
  from b obtain bs where "encode_cells [v] = Inr bs" "b = to_le_bytes 2 (of_nat (length [v]) :: u16) @ bs"
    by (auto simp: encode_row_def split: if_splits)
  then show ?thesis
    using row_values_encode [of "[v]" bs "[]"] v by (simp add: decode_row_def row_take_def)
qed

interpretation value_codec: field_codec cat_value push_value value_wf
proof
  show "cat_value r = Inl e \<Longrightarrow> \<exists>k. e = CatCorrupt k" for r e
    by (auto simp: cat_value_def and_then_def cat_corrupt_def map_err_def split: sum.splits prod.splits list.splits
        dest: cat_count_error cat_take_error)
  show "value_wf x \<Longrightarrow> push_value x = Inr b \<Longrightarrow> cat_value (b @ s) = Inr (x, s)" for x b s
    by (auto simp: push_value_def cat_value_def cat_count_push cat_take_def encode_row_value)
qed

lemma action_roundtrip [simp]: "action_from (action_code a) = Inr a"
  by (cases a) (simp_all add: action_from_def)

lemma kind_roundtrip [simp]: "kind_from (kind_code k) = Inr k"
  by (cases k) (simp_all add: kind_from_def)

lemma cmp_roundtrip [simp]: "cmp_from (cmp_code c) = Inr c"
  by (cases c) (simp_all add: cmp_from_def)

lemma codes_error:
  "action_from c = Inl e \<Longrightarrow> \<exists>k. e = CatCorrupt k" "kind_from c = Inl e \<Longrightarrow> \<exists>k. e = CatCorrupt k"
  "cmp_from c = Inl e \<Longrightarrow> \<exists>k. e = CatCorrupt k"
  by (auto simp: action_from_def kind_from_def cmp_from_def cat_corrupt_def split: if_splits)

lemma column_flags_bits:
  "column_flags c AND FLAG_NULLABLE \<noteq> 0 \<longleftrightarrow> cd_nullable c"
  "column_flags c AND FLAG_UNIQUE \<noteq> 0 \<longleftrightarrow> cd_unique c"
  "column_flags c AND FLAG_AUTO_INCREMENT \<noteq> 0 \<longleftrightarrow> cd_auto_increment c"
  "column_flags c AND FLAG_ROWVERSION \<noteq> 0 \<longleftrightarrow> cd_rowversion c"
  "column_flags c AND FLAG_ON_UPDATE_NOW \<noteq> 0 \<longleftrightarrow> cd_on_update_now c"
  "column_flags c AND FLAG_GUARDED \<noteq> 0 \<longleftrightarrow> cd_update c = Guarded"
  by (cases "cd_nullable c"; cases "cd_unique c"; cases "cd_auto_increment c"; cases "cd_rowversion c";
      cases "cd_on_update_now c"; cases "cd_update c = Guarded"; simp add: column_flags_def)+

text \<open>What the types of the source guarantee of a stored CHECK, and its nesting.\<close>

fun check_storable :: "nat \<Rightarrow> CheckExpr \<Rightarrow> bool" where
  "check_storable d (CkCmp col op v) \<longleftrightarrow> d \<le> MAX_CHECK_DEPTH \<and> utf8_valid col \<and> value_wf v"
| "check_storable d (CkIsNull col) \<longleftrightarrow> d \<le> MAX_CHECK_DEPTH \<and> utf8_valid col"
| "check_storable d (CkIsNotNull col) \<longleftrightarrow> d \<le> MAX_CHECK_DEPTH \<and> utf8_valid col"
| "check_storable d (CkAnd items) \<longleftrightarrow> d \<le> MAX_CHECK_DEPTH \<and> (\<forall>e \<in> set items. check_storable (d + 1) e)"
| "check_storable d (CkOr items) \<longleftrightarrow> d \<le> MAX_CHECK_DEPTH \<and> (\<forall>e \<in> set items. check_storable (d + 1) e)"
| "check_storable d (CkNot inner) \<longleftrightarrow> d \<le> MAX_CHECK_DEPTH \<and> check_storable (d + 1) inner"

lemma read_check_error: "read_check d r = Inl e \<Longrightarrow> \<exists>k. e = CatCorrupt k"
proof (induction d r arbitrary: e rule: read_check.induct)
  case (1 d r)
  show ?case
  proof (cases "d > MAX_CHECK_DEPTH")
    case True
    then show ?thesis using "1.prems" by (auto simp: read_check.simps [of d] cat_corrupt_def)
  next
    case d: False
    show ?thesis
    proof (cases "cat_byte r")
      case (Inl e')
      then show ?thesis using "1.prems" d cat_byte_error [OF Inl] by (simp add: read_check.simps [of d])
    next
      case (Inr p)
      obtain tag r1 where p: "p = (tag, r1)" by fastforce
      have seq: "\<exists>k. e = CatCorrupt k" if "read_seq (read_check (d + 1)) r1 = Inl e" "tag = CHECK_AND \<or> tag = CHECK_OR" for e
        using "1.IH"(1) [OF d Inr [unfolded p]] that read_seq_error [OF field_reader.intro, of "read_check (d + 1)"]
        by fastforce
      have inner: "\<exists>k. e = CatCorrupt k" if "read_check (d + 1) r1 = Inl e" "tag = CHECK_NOT" for e
        using "1.IH"(2) [OF d Inr [unfolded p]] that by fastforce
      show ?thesis
        using "1.prems" d Inr p seq inner
        by (auto simp: read_check.simps [of d r] and_then_def cat_corrupt_def split: sum.splits prod.splits if_splits
            dest: str_codec.read_error value_codec.read_error cat_byte_error codes_error)
    qed
  qed
qed

lemma read_check_push: "check_storable d e \<Longrightarrow> push_check e = Inr b \<Longrightarrow> read_check d (b @ s) = Inr (e, s)"
proof (induction e arbitrary: d b s)
  case (CkAnd items)
  have "field_codec (read_check (d + 1)) push_check (\<lambda>e. e \<in> set items \<and> check_storable (d + 1) e)"
    using CkAnd.IH by unfold_locales (auto dest: read_check_error)
  note seq = field_codec.roundtrip [OF seq_codec [OF this], of items, simplified]
  show ?case using CkAnd.prems by (auto simp: read_check.simps [of d] seq)
next
  case (CkOr items)
  have "field_codec (read_check (d + 1)) push_check (\<lambda>e. e \<in> set items \<and> check_storable (d + 1) e)"
    using CkOr.IH by unfold_locales (auto dest: read_check_error)
  note seq = field_codec.roundtrip [OF seq_codec [OF this], of items, simplified]
  show ?case using CkOr.prems by (auto simp: read_check.simps [of d] seq)
qed (auto simp: read_check.simps [where depth = d for d] str_codec.roundtrip value_codec.roundtrip)

interpretation check_codec: field_codec "read_check d" push_check "check_storable d" for d
  by unfold_locales (auto dest: read_check_error read_check_push)

interpretation names_codec: field_codec "read_seq cat_string" "push_seq push_str" "\<lambda>xs. \<forall>x \<in> set xs. utf8_valid x"
  by (rule seq_codec) (rule str_codec.field_codec_axioms)

definition default_typed :: "DefaultSpec option \<Rightarrow> bool" where
  "default_typed d \<longleftrightarrow> (\<forall>v. d = Some (DefaultValue v) \<longrightarrow> value_wf v)"

lemma read_default_error: "read_default r = Inl e \<Longrightarrow> \<exists>k. e = CatCorrupt k"
  by (auto simp: read_default_def and_then_def cat_corrupt_def split: sum.splits prod.splits if_splits
      dest: cat_byte_error value_codec.read_error)

lemma read_default_push: "default_typed d \<Longrightarrow> push_default d = Inr b \<Longrightarrow> read_default (b @ s) = Inr (d, s)"
  by (induction d rule: push_default.induct)
    (auto simp: read_default_def default_typed_def value_codec.roundtrip)

interpretation column_codec: field_codec read_column push_column "\<lambda>c. utf8_valid (cd_name c) \<and> default_typed (cd_default c)"
proof
  show "read_column r = Inl e \<Longrightarrow> \<exists>k. e = CatCorrupt k" for r e
    by (auto simp: read_column_def and_then_def split: sum.splits prod.splits
        dest: str_codec.read_error cat_byte_error codes_error read_default_error)
  show "utf8_valid (cd_name c) \<and> default_typed (cd_default c) \<Longrightarrow> push_column c = Inr b \<Longrightarrow> read_column (b @ s) = Inr (c, s)"
    for c :: ColumnDef and b s
  proof -
    have g: "(if cd_update c = Guarded then Guarded else Free) = cd_update c" by (cases "cd_update c") auto
    assume "utf8_valid (cd_name c) \<and> default_typed (cd_default c)" "push_column c = Inr b"
    then show ?thesis
      by (auto simp: push_column_def read_column_def str_codec.roundtrip read_default_push column_flags_bits g)
  qed
qed

interpretation index_codec: field_codec read_index push_index "\<lambda>i. utf8_valid (ix_name i) \<and> (\<forall>c \<in> set (ix_columns i). utf8_valid c)"
proof
  show "read_index r = Inl e \<Longrightarrow> \<exists>k. e = CatCorrupt k" for r e
    by (auto simp: read_index_def and_then_def cat_corrupt_def split: sum.splits prod.splits if_splits
        dest: str_codec.read_error cat_byte_error names_codec.read_error)
  show "utf8_valid (ix_name i) \<and> (\<forall>c \<in> set (ix_columns i). utf8_valid c) \<Longrightarrow> push_index i = Inr b \<Longrightarrow> read_index (b @ s) = Inr (i, s)"
    for i :: IndexDef and b s
    by (auto simp: push_index_def read_index_def str_codec.roundtrip names_codec.roundtrip)
qed

definition fk_typed :: "ForeignKey \<Rightarrow> bool" where
  "fk_typed f \<longleftrightarrow> utf8_valid (fk_name f) \<and> utf8_valid (fk_parent f)
     \<and> (\<forall>c \<in> set (fk_columns f). utf8_valid c) \<and> (\<forall>c \<in> set (fk_parent_columns f). utf8_valid c)"

interpretation fk_codec: field_codec read_fk push_fk fk_typed
proof
  show "read_fk r = Inl e \<Longrightarrow> \<exists>k. e = CatCorrupt k" for r e
    by (auto simp: read_fk_def and_then_def split: sum.splits prod.splits
        dest: str_codec.read_error cat_byte_error names_codec.read_error codes_error)
  show "fk_typed f \<Longrightarrow> push_fk f = Inr b \<Longrightarrow> read_fk (b @ s) = Inr (f, s)" for f b s
    by (auto simp: push_fk_def read_fk_def fk_typed_def str_codec.roundtrip names_codec.roundtrip)
qed

section \<open>Table definitions\<close>

text \<open>What the Rust types guarantee of a definition: names are UTF-8 and literals are values.\<close>

fun check_typed :: "CheckExpr \<Rightarrow> bool" where
  "check_typed (CkCmp col op v) \<longleftrightarrow> utf8_valid col \<and> value_wf v"
| "check_typed (CkIsNull col) \<longleftrightarrow> utf8_valid col"
| "check_typed (CkIsNotNull col) \<longleftrightarrow> utf8_valid col"
| "check_typed (CkAnd items) \<longleftrightarrow> (\<forall>e \<in> set items. check_typed e)"
| "check_typed (CkOr items) \<longleftrightarrow> (\<forall>e \<in> set items. check_typed e)"
| "check_typed (CkNot inner) \<longleftrightarrow> check_typed inner"

definition table_typed :: "TableDef \<Rightarrow> bool" where
  "table_typed t \<longleftrightarrow> utf8_valid (td_name t)
     \<and> (\<forall>c \<in> set (td_columns t). utf8_valid (cd_name c) \<and> default_typed (cd_default c))
     \<and> (\<forall>nm \<in> set (td_pk t). utf8_valid nm) \<and> (\<forall>e \<in> set (td_checks t). check_typed e)
     \<and> (\<forall>i \<in> set (td_indexes t). utf8_valid (ix_name i) \<and> (\<forall>c \<in> set (ix_columns i). utf8_valid c))
     \<and> (\<forall>f \<in> set (td_foreign_keys t). fk_typed f)"

text \<open>Validation bounds the nesting of a CHECK as the decoder does.\<close>

lemma validated_storable: "check_validate t d e = Inr () \<Longrightarrow> check_typed e \<Longrightarrow> check_storable d e"
  by (induction e arbitrary: d) (auto simp: and_then_unit checks_validate_iff)

lemma decode_encode_storable:
  assumes "table_typed t" "\<forall>e \<in> set (td_checks t). check_storable 0 e" "encode_table t = Inr b"
  shows "decode_table b = Inr t"
proof -
  from assms(3) obtain nm cols pk checks idx fks where p:
    "push_str (td_name t) = Inr nm" "push_seq push_column (td_columns t) = Inr cols"
    "push_seq push_str (td_pk t) = Inr pk" "push_seq push_check (td_checks t) = Inr checks"
    "push_seq push_index (td_indexes t) = Inr idx" "push_seq push_fk (td_foreign_keys t) = Inr fks"
    "b = VERSION # nm @ cols @ pk @ checks @ idx @ fks"
    by (auto simp: encode_table_def)
  note seq = field_codec.roundtrip [OF seq_codec]
  have r: "cat_string (nm @ s) = Inr (td_name t, s)" "read_seq read_column (cols @ s) = Inr (td_columns t, s)"
    "read_seq cat_string (pk @ s) = Inr (td_pk t, s)" "read_seq (read_check 0) (checks @ s) = Inr (td_checks t, s)"
    "read_seq read_index (idx @ s) = Inr (td_indexes t, s)" "read_seq read_fk (fks @ s) = Inr (td_foreign_keys t, s)" for s
    using assms(1,2) p
    by (auto simp: table_typed_def intro!: str_codec.roundtrip names_codec.roundtrip seq [OF column_codec.field_codec_axioms]
        seq [OF check_codec.field_codec_axioms] seq [OF index_codec.field_codec_axioms] seq [OF fk_codec.field_codec_axioms])
  show ?thesis
    using p(7) r r(6) [of "[]"] by (simp add: decode_table_def ensure_def)
qed

text \<open>C15: A table definition the catalog accepts survives its stored form exactly: whenever
  \<open>validate\<close> accepts it and \<open>encode_table\<close> produces bytes, \<open>decode_table\<close> returns the same definition,
  nested CHECK expressions, literals, indexes and foreign keys included.\<close>

theorem decode_encode_table:
  assumes "table_typed t" "validate_table t = Inr ()" "encode_table t = Inr b"
  shows "decode_table b = Inr t"
proof (rule decode_encode_storable [OF assms(1) _ assms(3)])
  show "\<forall>e \<in> set (td_checks t). check_storable 0 e"
    using assms(1,2) validated_storable by (fastforce simp: validate_table_iff table_ok_def table_typed_def)
qed

text \<open>A table \<open>t(a)\<close> with the check \<open>a >= 0 or a is null\<close>.\<close>

definition demo_table :: TableDef where
  "demo_table = (table_new [0x74] [column_new [0x61] TI64] [[0x61]])
     \<lparr> td_checks := [CkOr [CkCmp [0x61] CkGte (I64 0), CkIsNull [0x61]]] \<rparr>"

lemma demo_table_ok: "table_typed demo_table" "validate_table demo_table = Inr ()"
  by (simp_all add: demo_table_def table_new_def column_new_def table_typed_def default_typed_def validate_table_def
      validate_column_def validate_default_def validate_pk_column_def find_column_def col_index_def ensure_def MAX_CHECK_DEPTH_def)

theorem decode_encode_table_witness:
  "decode_table [1, 1, 0, 0x74, 1, 0, 1, 0, 0x61, 2, 1, 0, 1, 0, 1, 0, 0x61, 1, 0, 5, 2, 0, 1, 1, 0, 0x61, 6,
      11, 0, 1, 0, 2, 0, 0, 0, 0, 0, 0, 0, 0, 2, 1, 0, 0x61, 0, 0, 0, 0] = Inr demo_table"
  by (rule decode_encode_table [OF demo_table_ok])
    (simp add: demo_table_def table_new_def column_new_def encode_table_def push_str_def push_seq_def push_count_def
      push_column_def column_flags_def push_value_def encode_row_def MAX_COLUMNS_def bytes_eval)



end
