(* ===== verification/CatStore.thy ===== *)
theory CatStore
  imports CatalogCodec Index UuidV7
begin

text \<open>The layout of the catalog tree (\<open>catalog/src/store.rs\<close>) and the rows of a table (the row construction and
  check section of \<open>catalog/src/job.rs\<close>): how a row is built from the columns a caller provides, checked,
  keyed, and read back padded with the columns added after it was written.\<close>

section \<open>Keys and values of the catalog tree\<close>

definition TBL :: bytes where "TBL = str_bytes ''tbl''"

definition ROOT :: bytes where "ROOT = str_bytes ''root''"

definition SEQ :: bytes where "SEQ = str_bytes ''seq''"

definition IROOT :: bytes where "IROOT = str_bytes ''iroot''"

definition band_key :: "bytes \<Rightarrow> bytes \<Rightarrow> CatalogError + bytes" where
  "band_key band table = map_err CatType (encode_key [Text band, Text table])"

definition tbl_key :: "bytes \<Rightarrow> CatalogError + bytes" where
  "tbl_key table = band_key TBL table"

definition root_key :: "bytes \<Rightarrow> CatalogError + bytes" where
  "root_key table = band_key ROOT table"

definition seq_key :: "bytes \<Rightarrow> CatalogError + bytes" where
  "seq_key table = band_key SEQ table"

definition iroot_key :: "bytes \<Rightarrow> bytes \<Rightarrow> CatalogError + bytes" where
  "iroot_key table index = map_err CatType (encode_key [Text IROOT, Text table, Text index])"

text \<open>\<open>if let Some(last) = hi.last_mut() { *last = 0x01; }\<close>\<close>

definition bump_last :: "bytes \<Rightarrow> bytes" where
  "bump_last lo = (if lo = [] then [] else butlast lo @ [0x01])"

definition iroot_band :: "bytes \<Rightarrow> CatalogError + (bytes \<times> bytes)" where
  "iroot_band table =
     and_then (map_err CatType (encode_key [Text IROOT, Text table])) (\<lambda>lo. Inr (lo, bump_last lo))"

definition tbl_band :: "CatalogError + (bytes \<times> bytes)" where
  "tbl_band = and_then (map_err CatType (encode_key [Text TBL])) (\<lambda>lo. Inr (lo, bump_last lo))"

definition encode_root :: "PageId \<Rightarrow> bytes" where
  "encode_root root = to_le_bytes 8 root"

definition decode_root :: "bytes \<Rightarrow> CatalogError + PageId" where
  "decode_root bs = (if length bs = 8 then Inr (from_le_bytes bs) else Inl (CatCorrupt BadValue))"

definition encode_seq :: "i64 \<Rightarrow> bytes" where
  "encode_seq n = to_le_bytes 8 n"

definition decode_seq :: "bytes \<Rightarrow> CatalogError + i64" where
  "decode_seq bs = (if length bs = 8 then Inr (from_le_bytes bs) else Inl (CatCorrupt BadValue))"

section \<open>Generated values\<close>

text \<open>\<open>Env\<close>: the injected clock and random source are parameters, given by what one call returns and the
  state it leaves; the UUID generator reads both.\<close>

record ('c, 'r) host_ops =
  now_micros :: "'c \<Rightarrow> i64 \<times> 'c"
  next_u64 :: "'r \<Rightarrow> u64 \<times> 'r"

record ('c, 'r) Env =
  env_clock :: 'c
  env_last :: "u64 \<times> u16"
  env_rng :: 'r

definition env_now :: "('c, 'r) host_ops \<Rightarrow> (('c, 'r) Env, 'x, i64) st" where
  "env_now host = (\<lambda>env. case now_micros host (env_clock env) of (t, c) \<Rightarrow> (Inr t, env\<lparr> env_clock := c \<rparr>))"

definition env_uuid :: "('c, 'r) host_ops \<Rightarrow> (('c, 'r) Env, 'x, bytes) st" where
  "env_uuid host = st_bind (env_now host) (\<lambda>t. (\<lambda>env.
     case next_uuid (next_u64 host) (sint t) (env_last env) (env_rng env) of
       (u, prev, r) \<Rightarrow> (Inr u, env\<lparr> env_last := prev, env_rng := r \<rparr>)))"

section \<open>Row construction and checks\<close>

text \<open>\<open>i64::saturating_add(1)\<close> and \<open>i64::max\<close>.\<close>

definition i64_succ :: "i64 \<Rightarrow> i64" where
  "i64_succ v = word_of_int (saturating_add_i64 (sint v) 1)"

definition i64_max :: "i64 \<Rightarrow> i64 \<Rightarrow> i64" where
  "i64_max a b = (if sint a \<le> sint b then b else a)"

definition check_cell_type :: "bytes \<Rightarrow> TableDef \<Rightarrow> nat \<Rightarrow> value \<Rightarrow> CatalogError + unit" where
  "check_cell_type table d ci v =
     (case get_at (td_columns d) ci of
        None \<Rightarrow> Inr ()
      | Some col \<Rightarrow>
          (case kind v of
             None \<Rightarrow> ensure (is_nullable d ci) (NotNull table (cd_name col))
           | Some k \<Rightarrow>
               and_then (ensure (k = cd_kind col) (TypeMismatch table (cd_name col) (cd_kind col) (kind_as_str k))) (\<lambda>_.
                 case v of Json doc \<Rightarrow> map_err CatType (validate_json doc) | _ \<Rightarrow> Inr ())))"

text \<open>The cells the caller provides, by column.\<close>

fun place_cells :: "TableDef \<Rightarrow> (bytes \<times> value) list \<Rightarrow> value option list \<Rightarrow> CatalogError + value option list" where
  "place_cells d [] cells = Inr cells"
| "place_cells d ((nm, v) # provided) cells =
     (case col_index d nm of
        None \<Rightarrow> Inl (UnknownColumn (td_name d) nm)
      | Some ci \<Rightarrow>
          (case get_at (td_columns d) ci of
             None \<Rightarrow> place_cells d provided cells
           | Some col \<Rightarrow>
               if cd_rowversion col \<or> cd_on_update_now col then Inl (EngineManagedColumn nm)
               else (case get_at cells ci of
                  None \<Rightarrow> place_cells d provided cells
                | Some (Some _) \<Rightarrow> Inl (DuplicateColumn nm)
                | Some None \<Rightarrow> place_cells d provided (cells[ci := Some v]))))"

text \<open>The value of one column and the sequence after it.\<close>

definition cell_value :: "('c, 'r) host_ops \<Rightarrow> ColumnDef \<Rightarrow> value option \<Rightarrow> i64 \<Rightarrow>
    (('c, 'r) Env, CatalogError, value \<times> i64) st" where
  "cell_value host col cell seq =
     (case cell of
        Some v \<Rightarrow>
          st_return (v, if cd_auto_increment col
                        then (case v of I64 n \<Rightarrow> i64_max seq (i64_succ n) | _ \<Rightarrow> seq) else seq)
      | None \<Rightarrow>
          if cd_auto_increment col then st_return (I64 seq, i64_succ seq)
          else if cd_rowversion col then st_return (I64 1, seq)
          else if cd_on_update_now col then st_bind (env_now host) (\<lambda>t. st_return (Timestamp t, seq))
          else (case cd_default col of
             Some (DefaultValue v) \<Rightarrow> st_return (v, seq)
           | Some DefaultNow \<Rightarrow> st_bind (env_now host) (\<lambda>t. st_return (Timestamp t, seq))
           | Some DefaultUuidV7 \<Rightarrow> st_bind (env_uuid host) (\<lambda>u. st_return (Uuid u, seq))
           | None \<Rightarrow> st_return (Null, seq)))"

fun build_cells :: "('c, 'r) host_ops \<Rightarrow> TableDef \<Rightarrow> nat \<Rightarrow> (ColumnDef \<times> value option) list \<Rightarrow> i64 \<Rightarrow> value list \<Rightarrow>
    (('c, 'r) Env, CatalogError, value list \<times> i64) st" where
  "build_cells host d ci [] seq row = st_return (row, seq)"
| "build_cells host d ci ((col, cell) # cols) seq row =
     st_bind (cell_value host col cell seq) (\<lambda>(v, seq').
     st_bind (st_lift (check_cell_type (td_name d) d ci v)) (\<lambda>_.
       build_cells host d (Suc ci) cols seq' (row @ [v])))"

definition build_row :: "('c, 'r) host_ops \<Rightarrow> TableDef \<Rightarrow> (bytes \<times> value) list \<Rightarrow> i64 \<Rightarrow>
    (('c, 'r) Env, CatalogError, value list \<times> i64) st" where
  "build_row host d provided seq =
     st_bind (st_lift (place_cells d provided (replicate (length (td_columns d)) None))) (\<lambda>cells.
       build_cells host d 0 (zip (td_columns d) cells) seq [])"

definition run_checks :: "TableDef \<Rightarrow> value list \<Rightarrow> CatalogError + unit" where
  "run_checks d row =
     each (\<lambda>(index, check). ensure (check_eval d row check \<noteq> Some False) (CheckViolation (td_name d) index))
       (enumerate 0 (td_checks d))"

definition cell_or_null :: "value list \<Rightarrow> nat \<Rightarrow> value" where
  "cell_or_null row ci = (case get_at row ci of Some v \<Rightarrow> v | None \<Rightarrow> Null)"

definition pk_key_of :: "TableDef \<Rightarrow> value list \<Rightarrow> CatalogError + bytes" where
  "pk_key_of d row = map_err CatType (encode_key (map (cell_or_null row) (List.map_filter (col_index d) (td_pk d))))"

definition encode_pk :: "bytes \<Rightarrow> TableDef \<Rightarrow> value list \<Rightarrow> CatalogError + bytes" where
  "encode_pk table d pk =
     (if length pk \<noteq> length (td_pk d) then Inl (InvalidSchema ''primary key takes {} value(s), got {}'')
      else and_then (each (\<lambda>(nm, v). case col_index d nm of Some ci \<Rightarrow> check_cell_type table d ci v | None \<Rightarrow> Inr ())
                       (zip (td_pk d) pk)) (\<lambda>_.
        map_err CatType (encode_key pk)))"

definition pad_value :: "ColumnDef \<Rightarrow> value" where
  "pad_value col = (case cd_default col of Some (DefaultValue v) \<Rightarrow> v | _ \<Rightarrow> Null)"

definition decode_padded :: "TableDef \<Rightarrow> bytes \<Rightarrow> CatalogError + value list" where
  "decode_padded d bs =
     and_then (map_err CatType (decode_row bs)) (\<lambda>row.
       if length (td_columns d) < length row then Inl (CatCorrupt RowWiderThanSchema)
       else Inr (row @ map pad_value (drop (length row) (td_columns d))))"

text \<open>\<open>transform_row\<close>: the absolute sets, then the engine-managed columns; the clock is read once.\<close>

fun apply_sets :: "bytes \<Rightarrow> TableDef \<Rightarrow> (bytes \<times> value) list \<Rightarrow> value list \<Rightarrow> CatalogError + value list" where
  "apply_sets table d [] row = Inr row"
| "apply_sets table d ((nm, v) # sets) row =
     (case col_index d nm of
        None \<Rightarrow> Inl (UnknownColumn table nm)
      | Some ci \<Rightarrow>
          (case get_at (td_columns d) ci of
             None \<Rightarrow> apply_sets table d sets row
           | Some col \<Rightarrow>
               if is_pk d ci then Inl (PkImmutable nm)
               else if cd_rowversion col \<or> cd_on_update_now col then Inl (EngineManagedColumn nm)
               else and_then (check_cell_type table d ci v) (\<lambda>_. apply_sets table d sets (row[ci := v]))))"

definition bump_cell :: "i64 \<Rightarrow> nat \<times> ColumnDef \<Rightarrow> value list \<Rightarrow> value list" where
  "bump_cell now = (\<lambda>(ci, col) row.
     (let row' = (if cd_rowversion col
                  then row[ci := I64 (case get_at row ci of Some (I64 v) \<Rightarrow> i64_succ v | _ \<Rightarrow> 1)] else row)
      in if cd_on_update_now col then row'[ci := Timestamp now] else row'))"

definition transform_row :: "('c, 'r) host_ops \<Rightarrow> bytes \<Rightarrow> TableDef \<Rightarrow> value list \<Rightarrow> (bytes \<times> value) list \<Rightarrow>
    (('c, 'r) Env, CatalogError, value list) st" where
  "transform_row host table d old_row sets =
     st_bind (st_lift (apply_sets table d sets old_row)) (\<lambda>row.
     st_bind (env_now host) (\<lambda>now.
       st_return (fold (bump_cell now) (enumerate 0 (td_columns d)) row)))"

section \<open>Index entries of a row\<close>

definition index_cols :: "TableDef \<Rightarrow> IndexDef \<Rightarrow> value list \<Rightarrow> value list" where
  "index_cols d idx row =
     map (\<lambda>nm. case Option.bind (col_index d nm) (get_at row) of Some v \<Rightarrow> v | None \<Rightarrow> Null) (ix_columns idx)"

fun idx_err :: "IndexError \<Rightarrow> TxnError" where
  "idx_err (IndexTxn e) = e"
| "idx_err (IndexType e) = Rejected (BoxCatalog (CatIndex (IndexType e)))"

definition rej :: "CatalogError \<Rightarrow> TxnError" where
  "rej e = Rejected (BoxCatalog e)"

definition entry_for :: "TableDef \<Rightarrow> IndexDef \<Rightarrow> value list \<Rightarrow> bytes \<Rightarrow> TxnError + IndexEntry option" where
  "entry_for d idx row pk_key = map_err idx_err (entry (index_cols d idx row) pk_key (ix_unique idx))"

definition unique_violation :: "bytes \<Rightarrow> bytes \<Rightarrow> CatalogError" where
  "unique_violation table index = UniqueViolation table index"

end
