(* ===== verification/CatSnap.thy ===== *)
theory CatSnap
  imports CatStore Exec "HOL-Library.Product_Lexorder"
begin

text \<open>The read side of the catalog handle (\<open>catalog/src/db.rs\<close>): a snapshot of schema and data. It reads the trees of a
  pinned version through the operations of a transaction snapshot (\<open>txn/src/db.rs\<close>), gathered in the record
  \<open>read_ops\<close>: reading changes nothing but the page cache, so each is a function of its arguments.\<close>

section \<open>Reading trees\<close>

record read_ops =
  rd_root :: "PageId option"
  rd_txn :: u64
  rd_get_in :: "PageId \<Rightarrow> bytes \<Rightarrow> TxnError + bytes option"
  rd_range_in :: "PageId \<Rightarrow> bytes option \<Rightarrow> bytes option \<Rightarrow> TxnError + (bytes \<times> bytes) list"
  rd_count_in :: "PageId \<Rightarrow> TxnError + nat"
  rd_validate_tree :: "PageId \<Rightarrow> TxnError + TreeStats"

definition rd_get :: "read_ops \<Rightarrow> bytes \<Rightarrow> TxnError + bytes option" where
  "rd_get rd key = (case rd_root rd of None \<Rightarrow> Inr None | Some root \<Rightarrow> rd_get_in rd root key)"

definition rd_range :: "read_ops \<Rightarrow> bytes option \<Rightarrow> bytes option \<Rightarrow> TxnError + (bytes \<times> bytes) list" where
  "rd_range rd lo hi = (case rd_root rd of None \<Rightarrow> Inr [] | Some root \<Rightarrow> rd_range_in rd root lo hi)"

definition rd_scan_in :: "read_ops \<Rightarrow> PageId \<Rightarrow> TxnError + (bytes \<times> bytes) list" where
  "rd_scan_in rd root = rd_range_in rd root None None"

section \<open>Catalog snapshots\<close>

definition cat_tables :: "read_ops \<Rightarrow> CatalogError + bytes list" where
  "cat_tables rd =
     and_then tbl_band (\<lambda>(lo, hi).
     and_then (map_err CatTxn (rd_range rd (Some lo) (Some hi))) (\<lambda>entries.
       collect_res (\<lambda>(_, bs). and_then (decode_table bs) (\<lambda>d. Inr (td_name d))) entries))"

definition cat_table :: "read_ops \<Rightarrow> bytes \<Rightarrow> CatalogError + TableDef" where
  "cat_table rd table =
     and_then (tbl_key table) (\<lambda>key.
     and_then (map_err CatTxn (rd_get rd key)) (\<lambda>hit.
       case hit of Some bs \<Rightarrow> decode_table bs | None \<Rightarrow> Inl (UnknownTable table)))"

definition data_root :: "read_ops \<Rightarrow> bytes \<Rightarrow> CatalogError + PageId" where
  "data_root rd table =
     and_then (root_key table) (\<lambda>key.
     and_then (map_err CatTxn (rd_get rd key)) (\<lambda>hit.
       case hit of Some bs \<Rightarrow> decode_root bs | None \<Rightarrow> Inl (CatCorrupt MissingEntry)))"

definition index_root :: "read_ops \<Rightarrow> bytes \<Rightarrow> bytes \<Rightarrow> CatalogError + PageId" where
  "index_root rd table index =
     and_then (iroot_key table index) (\<lambda>key.
     and_then (map_err CatTxn (rd_get rd key)) (\<lambda>hit.
       case hit of Some bs \<Rightarrow> decode_root bs | None \<Rightarrow> Inl (CatCorrupt MissingEntry)))"

definition cat_get :: "read_ops \<Rightarrow> bytes \<Rightarrow> value list \<Rightarrow> CatalogError + value list option" where
  "cat_get rd table pk =
     and_then (cat_table rd table) (\<lambda>d.
     and_then (map_err CatType (encode_key pk)) (\<lambda>key.
     and_then (data_root rd table) (\<lambda>root.
     and_then (map_err CatTxn (rd_get_in rd root key)) (\<lambda>hit.
       case hit of Some bs \<Rightarrow> and_then (decode_padded d bs) (\<lambda>r. Inr (Some r)) | None \<Rightarrow> Inr None))))"

definition cat_row_count :: "read_ops \<Rightarrow> bytes \<Rightarrow> CatalogError + nat" where
  "cat_row_count rd table = and_then (data_root rd table) (\<lambda>root. map_err CatTxn (rd_count_in rd root))"

definition cat_scan :: "read_ops \<Rightarrow> bytes \<Rightarrow> CatalogError + value list list" where
  "cat_scan rd table =
     and_then (cat_table rd table) (\<lambda>d.
     and_then (data_root rd table) (\<lambda>root.
     and_then (map_err CatTxn (rd_scan_in rd root)) (\<lambda>entries.
       collect_res (\<lambda>(_, bs). decode_padded d bs) entries)))"

text \<open>The base rows of the primary keys an index lists; a key without a base row is skipped.\<close>

fun fetch_rows :: "read_ops \<Rightarrow> TableDef \<Rightarrow> PageId \<Rightarrow> bytes list \<Rightarrow> CatalogError + value list list" where
  "fetch_rows rd d root [] = Inr []"
| "fetch_rows rd d root (pk # pks) =
     and_then (map_err CatTxn (rd_get_in rd root pk)) (\<lambda>hit.
       case hit of
         Some bs \<Rightarrow> and_then (decode_padded d bs) (\<lambda>r. and_then (fetch_rows rd d root pks) (\<lambda>rs. Inr (r # rs)))
       | None \<Rightarrow> fetch_rows rd d root pks)"

definition index_candidates :: "read_ops \<Rightarrow> bytes \<Rightarrow> bytes \<Rightarrow> value list \<Rightarrow> CatalogError + value list list" where
  "index_candidates rd table index pre =
     and_then (cat_table rd table) (\<lambda>d.
     and_then (index_root rd table index) (\<lambda>iroot.
     and_then (map_err CatIndex (prefix_bounds pre)) (\<lambda>(lo, hi).
     and_then (map_err CatTxn (rd_range_in rd iroot (Some lo) hi)) (\<lambda>entries.
     and_then (data_root rd table) (\<lambda>root.
       fetch_rows rd d root (sort (map snd entries)))))))"

text \<open>The entries an index should hold, computed from the base rows.\<close>

fun expected_entries :: "TableDef \<Rightarrow> IndexDef \<Rightarrow> (bytes \<times> bytes) list \<Rightarrow> CatalogError + (bytes \<times> bytes) list" where
  "expected_entries d idx [] = Inr []"
| "expected_entries d idx ((pk_key, bs) # base) =
     and_then (decode_padded d bs) (\<lambda>r.
     and_then (map_err CatIndex (entry (index_cols d idx r) pk_key (ix_unique idx))) (\<lambda>e.
     and_then (expected_entries d idx base) (\<lambda>es.
       Inr (case e of Some e \<Rightarrow> (entry_key e, entry_value e) # es | None \<Rightarrow> es))))"

definition validate_index_tree :: "read_ops \<Rightarrow> TableDef \<Rightarrow> bytes \<Rightarrow> (bytes \<times> bytes) list \<Rightarrow> IndexDef \<Rightarrow> CatalogError + unit" where
  "validate_index_tree rd d table base idx =
     and_then (index_root rd table (ix_name idx)) (\<lambda>iroot.
     and_then (map_err CatTxn (rd_validate_tree rd iroot)) (\<lambda>_.
     and_then (expected_entries d idx base) (\<lambda>es.
     and_then (map_err CatTxn (rd_scan_in rd iroot)) (\<lambda>actual.
       ensure (sort es = actual) (IndexOutOfSync table (ix_name idx))))))"

definition validate_table_data :: "read_ops \<Rightarrow> bytes \<Rightarrow> CatalogError + unit" where
  "validate_table_data rd table =
     and_then (cat_table rd table) (\<lambda>d.
     and_then (data_root rd table) (\<lambda>root.
     and_then (map_err CatTxn (rd_validate_tree rd root)) (\<lambda>_.
     and_then (map_err CatTxn (rd_scan_in rd root)) (\<lambda>base.
       each (validate_index_tree rd d table base) (td_indexes d)))))"

definition cat_validate :: "read_ops \<Rightarrow> CatalogError + unit" where
  "cat_validate rd =
     and_then (case rd_root rd of Some root \<Rightarrow> map_err CatTxn (map_sum id (\<lambda>_. ()) (rd_validate_tree rd root)) | None \<Rightarrow> Inr ()) (\<lambda>_.
     and_then (cat_tables rd) (\<lambda>names. each (validate_table_data rd) names))"

text \<open>What the executor reads of a catalog snapshot.\<close>

definition cat_ops :: "read_ops \<Rightarrow> snap_ops" where
  "cat_ops rd = \<lparr> sn_table = cat_table rd, sn_get = cat_get rd, sn_scan = cat_scan rd, sn_index_candidates = index_candidates rd \<rparr>"

section \<open>A transaction snapshot as a reader\<close>

text \<open>The reads of a snapshot of the database, on the store of its writer. The depth and step budgets of the tree
  operations are parameters; an exhausted budget, which no tree of a consistent store within them causes,
  shows as \<open>Closed\<close>.\<close>

definition budgeted :: "TxnError option + 'a \<Rightarrow> TxnError + 'a" where
  "budgeted r = map_err (\<lambda>e. case e of Some e \<Rightarrow> e | None \<Rightarrow> Closed) r"

definition snap_reader :: "'b io_ops \<Rightarrow> nat \<Rightarrow> nat \<Rightarrow> Snapshot \<Rightarrow> 'b Writer \<Rightarrow> read_ops" where
  "snap_reader ops n steps sn w =
     \<lparr> rd_root = snap_root sn, rd_txn = snap_txn sn,
       rd_get_in = (\<lambda>root key. budgeted (fst (snap_get ops n (sn\<lparr> snap_root := Some root \<rparr>) key w))),
       rd_range_in = (\<lambda>root lo hi. budgeted (fst (snap_range ops n steps (sn\<lparr> snap_root := Some root \<rparr>) lo hi w))),
       rd_count_in = (\<lambda>root. budgeted (fst (snap_count_in ops n steps root w))),
       rd_validate_tree = (\<lambda>root. budgeted (fst (on_store (validate_tree (pager_ops ops) n root) w))) \<rparr>"

section \<open>What a reader promises\<close>

text \<open>Each root stands for a finite map; reads answer from it.\<close>

locale tree_reader =
  fixes rd :: read_ops and content :: "PageId \<rightharpoonup> (bytes \<rightharpoonup> bytes)"
  assumes get_in: "content r = Some m \<Longrightarrow> rd_get_in rd r k = Inr (m k)"
    and range_in: "content r = Some m \<Longrightarrow> \<exists>out. rd_range_in rd r lo hi = Inr out
      \<and> sorted_wrt (<) (map fst out) \<and> set out = {(k, v). m k = Some v \<and> within lo hi k}"
    and count_in: "content r = Some m \<Longrightarrow> rd_count_in rd r = Inr (card (dom m))"
    and validate_in: "content r = Some m \<Longrightarrow> \<exists>st. rd_validate_tree rd r = Inr st"

end
