(* ===== verification/CatReader.thy ===== *)
theory CatReader
  imports CatSnap BTreeFuel TxnJob
begin

text \<open>The reads of a transaction snapshot over the in-memory store serve finite maps: the locale \<open>tree_reader\<close>
  interpreted on the B+tree operations.\<close>

section \<open>Budgets of validation and counting\<close>

lemma validate_budget:
  "validate_rec pg n i lo hi is_root nd s = (r, s') \<Longrightarrow> r \<noteq> Inl None \<Longrightarrow> n \<le> m \<Longrightarrow>
     validate_rec pg m i lo hi is_root nd s = (r, s')"
proof (induction n arbitrary: m i lo hi is_root nd s r s')
  case (Suc n)
  then obtain m' where m: "m = Suc m'" "n \<le> m'" by (cases m) auto
  have kids: "validate_children pg m' lo hi ks cs depth es nd s = (r, s')"
    if "validate_children pg n lo hi ks cs depth es nd s = (r, s')" "r \<noteq> Inl None" for lo hi ks cs depth es nd s r s'
    using that
  proof (induction cs arbitrary: lo hi ks depth es nd s)
    case (Cons c cs)
    from Cons.prems(1) show ?case unfolding validate_children.simps
    proof (rule bind_mono [OF _ Cons.prems(2)], goal_cases)
      case (1 r' t)
      then show ?case using Suc.IH [OF _ _ m(2)] by blast
    next
      case (2 x t)
      then show ?case using Cons.IH [OF _ Cons.prems(2)] by (auto split: prod.splits if_splits)
    qed
  qed simp
  show ?case using Suc.prems(1) unfolding m(1) validate_rec.simps
  proof (rule bind_mono [OF _ Suc.prems(2)], goal_cases)
    case (2 node t)
    then show ?case
      by (cases node) (auto split: if_splits elim!: bind_mono [OF _ Suc.prems(2)] intro: kids)
  qed
qed simp

lemma collect_count:
  "collect_all pg n steps c out s = (Inr out', s') \<Longrightarrow> cursor_count pg n steps c (length out) s = (Inr (length out'), s')"
proof (induction steps arbitrary: c out s)
  case (Suc steps)
  from Suc.prems obtain item c' s1 where s1: "next_entry pg n c s = (Inr (item, c'), s1)"
    "(case item of None \<Rightarrow> st_return out | Some kv \<Rightarrow> collect_all pg n steps c' (out @ [kv])) s1 = (Inr out', s')"
    by auto
  then show ?case using Suc.IH [of c' "out @ [the item]" s1] by (cases item) auto
qed simp

section \<open>The trees of a store\<close>

text \<open>The trees a store holds that the budgets suffice for.\<close>

definition fits_tree :: "nat \<Rightarrow> nat \<Rightarrow> bytes pager \<Rightarrow> PageId \<Rightarrow> (bytes \<rightharpoonup> bytes) \<Rightarrow> bool" where
  "fits_tree n steps p r f \<longleftrightarrow>
     pager_inv (backend p) p \<and> (\<exists>h P. holds (stored p) h r f P \<and> h + 2 \<le> n \<and> card (dom f) < steps)"

definition trees_of :: "nat \<Rightarrow> nat \<Rightarrow> bytes pager \<Rightarrow> PageId \<rightharpoonup> (bytes \<rightharpoonup> bytes)" where
  "trees_of n steps p r = (if \<exists>f. fits_tree n steps p r f then Some (THE f. fits_tree n steps p r f) else None)"

lemma trees_of_Some: "trees_of n steps p r = Some f \<longleftrightarrow> fits_tree n steps p r f"
proof -
  have "f = g" if "fits_tree n steps p r f" "fits_tree n steps p r g" for f g
    using that holds_unique unfolding fits_tree_def by metis
  then show ?thesis unfolding trees_of_def by (metis option.distinct(1) option.inject theI)
qed

lemma fits_range:
  assumes "fits_tree n steps p r f"
  shows "\<exists>c p1 out p2. tree_range_dir (pager_ops mem_ops) n r Forward lo hi p = (Inr c, p1)
    \<and> collect_all (pager_ops mem_ops) n steps c [] p1 = (Inr out, p2)
    \<and> sorted_wrt (<) (map fst out) \<and> set out = {(k, v). f k = Some v \<and> within lo hi k}"
proof -
  obtain h P where h: "pager_inv (backend p) p" "holds (stored p) h r f P" "h + 2 \<le> n" "card (dom f) < steps"
    using assms unfolding fits_tree_def by blast
  from mem_pages.range_holds [OF h(1) h(2) [unfolded stored_def] h(3,4), of Forward lo hi] show ?thesis by (auto simp: in_order_def)
qed

lemma count_dom:
  fixes f :: "bytes \<rightharpoonup> bytes"
  assumes "sorted_wrt (<) (map fst out)" "set out = {(k, v). f k = Some v}"
  shows "length out = card (dom f)"
proof -
  have "distinct (map fst out)" using assms(1) by (simp add: strict_sorted_iff)
  moreover have "fst ` set out = dom f" unfolding assms(2) by (force simp: dom_def)
  ultimately show ?thesis using distinct_card [of "map fst out"] by simp
qed

lemma validate_tree_budget:
  assumes "validate_tree pg n root s = (Inr st, s')" "n \<le> m"
  shows "validate_tree pg m root s = (Inr st, s')"
proof -
  obtain d e nd where x: "validate_rec pg n root None None True 0 s = (Inr ((d, e), nd), s')"
    "st = \<lparr> height = d, entry_count = e, node_count = nd \<rparr>"
    using assms(1) unfolding validate_tree_def by (auto simp del: validate_rec.simps elim!: st_bind_okE split: prod.splits)
  show ?thesis using validate_budget [OF x(1) _ assms(2)] x(2) by (simp add: validate_tree_def del: validate_rec.simps)
qed

interpretation snap: tree_reader "snap_reader mem_ops n steps sn w" "trees_of n steps (w_pager w)" for n steps sn w
proof unfold_locales
  fix r m assume t: "trees_of n steps (w_pager w) r = Some m"
  then have fits: "fits_tree n steps (w_pager w) r m" by (simp add: trees_of_Some)
  then obtain h P where h: "pager_inv (backend (w_pager w)) (w_pager w)" "holds (stored (w_pager w)) h r m P" "h + 2 \<le> n"
    by (auto simp: fits_tree_def)
  show "rd_get_in (snap_reader mem_ops n steps sn w) r k = Inr (m k)" for k
  proof -
    obtain p' where l: "tree_lookup (pager_ops mem_ops) (Suc h) r k (w_pager w) = (Inr (m k), p')"
      using mem_pages.holds_lookup [OF h(1) h(2) [unfolded stored_def], of k] by blast
    have "tree_lookup (pager_ops mem_ops) n r k (w_pager w) = (Inr (m k), p')"
      using tree_lookup_budget [OF l] h(3) by simp
    then show ?thesis by (simp add: snap_reader_def snap_get_def on_store_def st_zoom_def budgeted_def)
  qed
  show "\<exists>out. rd_range_in (snap_reader mem_ops n steps sn w) r lo hi = Inr out
      \<and> sorted_wrt (<) (map fst out) \<and> set out = {(k, v). m k = Some v \<and> within lo hi k}" for lo hi
    using fits_range [OF fits, of lo hi]
    by (auto simp: snap_reader_def snap_range_def on_store_def st_zoom_def budgeted_def)
  show "rd_count_in (snap_reader mem_ops n steps sn w) r = Inr (card (dom m))"
  proof -
    obtain c p1 out p2 where r: "tree_range_dir (pager_ops mem_ops) n r Forward None None (w_pager w) = (Inr c, p1)"
      "collect_all (pager_ops mem_ops) n steps c [] p1 = (Inr out, p2)" "sorted_wrt (<) (map fst out)" "set out = {(k, v). m k = Some v}"
      using fits_range [OF fits, of None None] by (auto simp: within_def)
    then show ?thesis using collect_count [OF r(2)] count_dom [OF r(3,4)]
      by (simp add: snap_reader_def snap_count_in_def on_store_def st_zoom_def budgeted_def)
  qed
  show "\<exists>st. rd_validate_tree (snap_reader mem_ops n steps sn w) r = Inr st"
  proof -
    obtain st p' where "validate_tree (pager_ops mem_ops) (Suc h) r (w_pager w) = (Inr st, p')"
      using mem_pages.validate_holds [OF h(1) h(2) [unfolded stored_def]] by blast
    from validate_tree_budget [OF this] have "validate_tree (pager_ops mem_ops) n r (w_pager w) = (Inr st, p')"
      using h(3) by simp
    then show ?thesis by (simp add: snap_reader_def on_store_def st_zoom_def budgeted_def)
  qed
qed

end
