(* ===== verification/PlanSpec.thy ===== *)
theory PlanSpec
  imports Planner StreamSpec
begin

text \<open>The planner preserves results. The locale \<open>table_snapshot\<close> says what the executor and the planner rely
  on: a snapshot serves the same rows through its scan, its primary key and its indexes.\<close>

section \<open>Predicates and filters\<close>

definition true_on :: "text_ops \<Rightarrow> Shape \<Rightarrow> Expr \<Rightarrow> value list \<Rightarrow> bool" where
  "true_on ops shape e row \<longleftrightarrow> eval ops row shape e = Inr (Bool True)"

definition defined_on :: "text_ops \<Rightarrow> Shape \<Rightarrow> Expr \<Rightarrow> value list \<Rightarrow> bool" where
  "defined_on ops shape e row \<longleftrightarrow> (\<exists>v. eval ops row shape e = Inr v)"

lemma eval_and_defined:
  "(\<exists>v. eval_and ops row shape acc items = Inr v) \<longleftrightarrow> (\<forall>e \<in> set items. defined_on ops shape e row)"
  by (induction items arbitrary: acc) (auto simp: defined_on_def and_then_def split: sum.splits)

lemma eval_and_true:
  "eval_and ops row shape acc items = Inr (Bool True) \<longleftrightarrow> acc = Bool True \<and> (\<forall>e \<in> set items. true_on ops shape e row)"
proof (induction items arbitrary: acc)
  case (Cons e items)
  then show ?case by (cases "eval ops row shape e") (auto simp: true_on_def split: if_splits)
qed auto

lemma flatten_and_true: "true_on ops shape e row \<longleftrightarrow> (\<forall>c \<in> set (flatten_and e). true_on ops shape c row)"
  by (induction e rule: flatten_and.induct) (auto simp: true_on_def [of ops shape "EAnd _"] eval_and_true)

lemma flatten_and_defined: "defined_on ops shape e row \<longleftrightarrow> (\<forall>c \<in> set (flatten_and e). defined_on ops shape c row)"
proof (induction e rule: flatten_and.induct)
  case (1 items)
  then show ?case using eval_and_defined [of ops row shape "Bool True" items] by (auto simp: defined_on_def [of ops shape "EAnd _"])
qed auto

lemma EAnd_true: "true_on ops shape (EAnd cs) row \<longleftrightarrow> (\<forall>c \<in> set cs. true_on ops shape c row)"
  by (simp add: true_on_def [of ops shape "EAnd cs"] eval_and_true)

lemma EAnd_defined: "defined_on ops shape (EAnd cs) row \<longleftrightarrow> (\<forall>c \<in> set cs. defined_on ops shape c row)"
  by (simp add: defined_on_def [of ops shape "EAnd cs"] eval_and_defined)

lemma and_of_cases: "and_of cs = EAnd cs \<or> cs = [and_of cs]"
  by (auto simp: and_of_def split: list.splits)

lemma and_of_true: "true_on ops shape (and_of cs) row \<longleftrightarrow> (\<forall>c \<in> set cs. true_on ops shape c row)"
  using and_of_cases [of cs] EAnd_true by (metis empty_iff insert_iff list.set(1) list.simps(15))

lemma and_of_defined: "defined_on ops shape (and_of cs) row \<longleftrightarrow> (\<forall>c \<in> set cs. defined_on ops shape c row)"
  using and_of_cases [of cs] EAnd_defined by (metis empty_iff insert_iff list.set(1) list.simps(15))

lemma true_defined: "true_on ops shape e row \<Longrightarrow> defined_on ops shape e row"
  by (auto simp: true_on_def defined_on_def)

lemma retain_predicate:
  "retain_res (\<lambda>row. eval_predicate ops row shape pred) rows = Inr ys \<longleftrightarrow>
     (\<forall>row \<in> set rows. defined_on ops shape pred row) \<and> ys = filter (true_on ops shape pred) rows"
proof -
  have ev: "eval_predicate ops row shape pred = Inr b \<longleftrightarrow> defined_on ops shape pred row \<and> b = true_on ops shape pred row" for row b
    by (cases "eval ops row shape pred") (auto simp: eval_predicate_def defined_on_def true_on_def)
  have "(\<lambda>row. eval_predicate ops row shape pred = Inr True) = true_on ops shape pred"
    using true_defined by (auto simp: ev)
  then show ?thesis by (simp add: retain_res_Inr ev)
qed

lemma execute_filter:
  "execute ops snap (PFilter input pred) = Inr rel \<longleftrightarrow>
     (\<exists>r. execute ops snap input = Inr r \<and> (\<forall>row \<in> set (rel_rows r). defined_on ops (rel_shape r) pred row)
        \<and> rel = r\<lparr> rel_rows := filter (true_on ops (rel_shape r) pred) (rel_rows r) \<rparr>)"
proof
  assume "execute ops snap (PFilter input pred) = Inr rel"
  then show "\<exists>r. execute ops snap input = Inr r \<and> (\<forall>row \<in> set (rel_rows r). defined_on ops (rel_shape r) pred row)
        \<and> rel = r\<lparr> rel_rows := filter (true_on ops (rel_shape r) pred) (rel_rows r) \<rparr>"
    by (auto simp: retain_predicate elim!: and_then_InrE)
next
  assume "\<exists>r. execute ops snap input = Inr r \<and> (\<forall>row \<in> set (rel_rows r). defined_on ops (rel_shape r) pred row)
        \<and> rel = r\<lparr> rel_rows := filter (true_on ops (rel_shape r) pred) (rel_rows r) \<rparr>"
  then obtain r where r: "execute ops snap input = Inr r" "\<forall>row \<in> set (rel_rows r). defined_on ops (rel_shape r) pred row"
    "rel = r\<lparr> rel_rows := filter (true_on ops (rel_shape r) pred) (rel_rows r) \<rparr>" by blast
  then have "retain_res (\<lambda>row. eval_predicate ops row (rel_shape r) pred) (rel_rows r) = Inr (rel_rows rel)"
    by (simp add: retain_predicate)
  then show "execute ops snap (PFilter input pred) = Inr rel" using r by simp
qed

lemma execute_wrap:
  assumes "execute ops snap input = Inr r" "\<forall>row \<in> set (rel_rows r). \<forall>c \<in> set cs. defined_on ops (rel_shape r) c row"
  shows "execute ops snap (wrap_filter input cs) =
    Inr (r\<lparr> rel_rows := filter (\<lambda>row. \<forall>c \<in> set cs. true_on ops (rel_shape r) c row) (rel_rows r) \<rparr>)"
proof (cases "cs = []")
  case False
  have "execute ops snap (PFilter input (and_of cs)) = Inr (r\<lparr> rel_rows := filter (true_on ops (rel_shape r) (and_of cs)) (rel_rows r) \<rparr>)"
    unfolding execute_filter using assms by (auto simp: and_of_defined)
  moreover have "true_on ops (rel_shape r) (and_of cs) = (\<lambda>row. \<forall>c \<in> set cs. true_on ops (rel_shape r) c row)"
    by (rule ext) (rule and_of_true)
  ultimately show ?thesis using False by (simp add: wrap_filter_def del: execute.simps)
qed (use assms in \<open>simp add: wrap_filter_def\<close>)

text \<open>One plan answers for another: whenever the first succeeds, the second succeeds with the same columns and
  the same rows in the same order.\<close>

definition answers_for :: "text_ops \<Rightarrow> snap_ops \<Rightarrow> Plan \<Rightarrow> Plan \<Rightarrow> bool" where
  "answers_for ops snap p q \<longleftrightarrow> (\<forall>rel. execute ops snap p = Inr rel \<longrightarrow> execute ops snap q = Inr rel)"

lemma answers_for_refl [simp]: "answers_for ops snap p p"
  by (simp add: answers_for_def)

lemma answers_for_trans: "answers_for ops snap p q \<Longrightarrow> answers_for ops snap q r \<Longrightarrow> answers_for ops snap p r"
  by (simp add: answers_for_def)

section \<open>What a snapshot promises\<close>

definition col_positions :: "TableDef \<Rightarrow> bytes list \<Rightarrow> nat list" where
  "col_positions d names = List.map_filter (col_index d) names"

definition row_typed :: "TableDef \<Rightarrow> value list \<Rightarrow> bool" where
  "row_typed d row \<longleftrightarrow>
     length row = length (td_columns d)
     \<and> list_all (\<lambda>i. if row ! i = Null then is_nullable d i else kind (row ! i) = Some (cd_kind (td_columns d ! i)))
         [0..<length (td_columns d)]"

text \<open>The values of a probe are of the kinds of their columns (and well formed, as Rust's types guarantee).\<close>

definition probe_typed :: "TableDef \<Rightarrow> bytes list \<Rightarrow> value list \<Rightarrow> bool" where
  "probe_typed d names vs \<longleftrightarrow>
     length vs \<le> length names
     \<and> list_all (\<lambda>(nm, v). case find_column d nm of Some c \<Rightarrow> kind v = Some (cd_kind c) \<and> value_wf v | None \<Rightarrow> False) (zip names vs)"

text \<open>A unique index leaves out the rows with a NULL in one of its columns.\<close>

definition indexed :: "TableDef \<Rightarrow> IndexDef \<Rightarrow> value list \<Rightarrow> bool" where
  "indexed d idx row \<longleftrightarrow> \<not> ix_unique idx \<or> list_all (\<lambda>i. row ! i \<noteq> Null) (col_positions d (ix_columns idx))"

locale table_snapshot =
  fixes snap :: snap_ops and schema :: SchemaView and tbl :: "bytes \<Rightarrow> (TableDef \<times> value list list) option"
  assumes valid: "tbl t = Some (d, rows) \<Longrightarrow> table_ok d"
    and schema: "schema t = Inr (map_option fst (tbl t))"
    and table: "tbl t = Some (d, rows) \<Longrightarrow> sn_table snap t = Inr d"
    and known: "sn_table snap t = Inr d \<Longrightarrow> \<exists>rows. tbl t = Some (d, rows)"
    and served_key: "tbl t = Some (d, rows) \<Longrightarrow> sn_get snap t key = Inr (Some row) \<Longrightarrow> row \<in> set rows"
    and served_index: "tbl t = Some (d, rows) \<Longrightarrow> sn_index_candidates snap t nm prefix = Inr cands \<Longrightarrow> set cands \<subseteq> set rows"
    and scanned: "tbl t = Some (d, rows) \<Longrightarrow> sn_scan snap t = Inr rows"
    and typed: "tbl t = Some (d, rows) \<Longrightarrow> row \<in> set rows \<Longrightarrow> row_typed d row"
    and lookup: "tbl t = Some (d, rows) \<Longrightarrow> length key = length (td_pk d) \<Longrightarrow> probe_typed d (td_pk d) key \<Longrightarrow>
      sn_get snap t key = Inr (find (matches_prefix (col_positions d (td_pk d)) key) rows)"
    and key_unique: "tbl t = Some (d, rows) \<Longrightarrow> length key = length (td_pk d) \<Longrightarrow>
      length (filter (matches_prefix (col_positions d (td_pk d)) key) rows) \<le> 1"
    and probe: "tbl t = Some (d, rows) \<Longrightarrow> find (\<lambda>i. ix_name i = nm) (td_indexes d) = Some idx \<Longrightarrow>
      prefix \<noteq> [] \<Longrightarrow> probe_typed d (ix_columns idx) prefix \<Longrightarrow>
      \<exists>cands. sn_index_candidates snap t nm prefix = Inr cands
        \<and> filter (matches_prefix (col_positions d (ix_columns idx)) prefix) cands
          = filter (\<lambda>row. matches_prefix (col_positions d (ix_columns idx)) prefix row \<and> indexed d idx row) rows"

section \<open>Equality conjuncts\<close>

lemma position_map: "position P (map f xs) = position (\<lambda>x. P (f x)) xs"
  by (induction xs) auto

lemma resolve_table: "tq = None \<or> tq = Some q \<Longrightarrow> resolve (table_shape d q) tq nm = col_index d nm"
  by (auto simp: resolve_def table_shape_def position_map bound_as_def col_index_def)

lemma row_typed_cell:
  assumes "row_typed d row" "find_column d nm = Some c"
  obtains i where "col_index d nm = Some i" "i < length row" "if row ! i = Null then is_nullable d i else kind (row ! i) = Some (cd_kind c)"
proof -
  obtain i where i: "col_index d nm = Some i" "td_columns d ! i = c" using assms(2) by (auto simp: find_column_index)
  then have "i < length (td_columns d)" by (simp add: col_index_def position_Some)
  then show ?thesis using that [OF i(1)] assms(1) i(2) by (simp add: row_typed_def list_all_iff)
qed

lemma equality_on_cases:
  assumes "equality_on c q = Some (nm, v)"
  obtains tq where "tq = None \<or> tq = Some q"
    "c = ECmp Eq (EColumn tq nm) (ELiteral v) \<or> c = ECmp Eq (ELiteral v) (EColumn tq nm)"
  using assms
  by (auto simp: equality_on_def column_here_def as_literal_def split: Expr.splits CmpOp.splits option.splits if_splits)

lemma value_eq_sym: "value_eq a b \<longleftrightarrow> value_eq b a"
  by (auto simp: value_eq_canon)

lemma value_order_same: "kind a = kind b \<Longrightarrow> value_order a b = logical_cmp a b"
  by (cases a; cases b) (auto simp: value_order_def)

lemma value_eq_Null: "value_eq Null v \<longleftrightarrow> v = Null"
  by (cases v) (auto simp: value_eq_canon)

lemma equality_true:
  assumes eq: "equality_on c q = Some (nm, v)" and i: "col_index d nm = Some i" "i < length row"
    and kinds: "v \<noteq> Null" "row ! i = Null \<or> kind (row ! i) = kind v"
  shows "true_on ops (table_shape d q) c row \<longleftrightarrow> value_eq (row ! i) v"
proof -
  obtain tq where tq: "tq = None \<or> tq = Some q"
    "c = ECmp Eq (EColumn tq nm) (ELiteral v) \<or> c = ECmp Eq (ELiteral v) (EColumn tq nm)"
    using equality_on_cases [OF eq] .
  have col: "eval ops row (table_shape d q) (EColumn tq nm) = Inr (row ! i)"
    using resolve_table [OF tq(1), of d nm] i by (simp add: get_at_def)
  have "value_order (row ! i) v = logical_cmp (row ! i) v" "value_order v (row ! i) = logical_cmp v (row ! i)" if "row ! i \<noteq> Null"
    using value_order_same kinds that by auto
  then show ?thesis
    using tq(2) kinds(1) col value_eq_Null [of v] value_eq_sym [of v "row ! i"]
    by (cases "row ! i = Null") (auto simp: true_on_def eval_cmp_def value_eq_def simp del: eval.simps(1))
qed

section \<open>Pinned prefixes\<close>

lemma set_map_filter_iff: "y \<in> set (List.map_filter f xs) \<longleftrightarrow> (\<exists>x \<in> set xs. f x = Some y)"
  by (induction xs) (auto simp: List.map_filter_simps split: option.splits)

lemma equalities_mem: "(nm, v, i) \<in> set (equalities q cs) \<longleftrightarrow> i < length cs \<and> equality_on (cs ! i) q = Some (nm, v)"
  by (auto simp: equalities_def set_map_filter_iff in_set_enumerate_eq intro!: bexI [of _ "(i, cs ! i)"])

lemma pinned_prefix_spec:
  "pinned_prefix eqs names = (prefix, consumed) \<Longrightarrow>
     length consumed = length prefix \<and> length prefix \<le> length names
     \<and> (\<forall>k < length prefix. (names ! k, prefix ! k, consumed ! k) \<in> set eqs)"
proof (induction names arbitrary: prefix consumed)
  case (Cons nm names)
  show ?case
  proof (cases "find (\<lambda>(n, _, _). n = nm) eqs")
    case None
    then show ?thesis using Cons.prems by auto
  next
    case (Some e)
    have "e \<in> set eqs" "fst e = nm" using Some by (auto simp: find_Some_iff in_set_conv_nth)
    then obtain v i p u where e: "e = (nm, v, i)" "pinned_prefix eqs names = (p, u)" "e \<in> set eqs"
      by (metis prod.collapse)
    then have "prefix = v # p" "consumed = i # u" using Cons.prems Some by auto
    then show ?thesis using Cons.IH [OF e(2)] e by (auto simp: less_Suc_eq_0_disj)
  qed
qed simp

text \<open>The literals of the equality conjuncts are of the kinds of their columns.\<close>

definition sargable :: "TableDef \<Rightarrow> bytes \<Rightarrow> Expr list \<Rightarrow> bool" where
  "sargable d q cs \<longleftrightarrow>
     list_all (\<lambda>c. case equality_on c q of
         Some (nm, v) \<Rightarrow> (case find_column d nm of Some col \<Rightarrow> kind v = Some (cd_kind col) \<and> value_wf v | None \<Rightarrow> False)
       | None \<Rightarrow> True) cs"

lemma sargableD:
  assumes "sargable d q cs" "i < length cs" "equality_on (cs ! i) q = Some (nm, v)"
  obtains col where "find_column d nm = Some col" "kind v = Some (cd_kind col)" "value_wf v"
  using assms by (fastforce simp: sargable_def list_all_length split: option.splits)

lemma col_positions_known:
  "\<forall>nm \<in> set names. find_column d nm \<noteq> None \<Longrightarrow> col_positions d names = map (\<lambda>nm. the (col_index d nm)) names"
  by (induction names) (auto simp: col_positions_def List.map_filter_simps find_column_index split: option.splits)

lemma pinned_true:
  assumes pp: "pinned_prefix (equalities q cs) names = (prefix, consumed)"
    and known: "\<forall>nm \<in> set names. find_column d nm \<noteq> None"
    and sarg: "sargable d q cs" and row: "row_typed d row"
  shows "matches_prefix (col_positions d names) prefix row \<longleftrightarrow> (\<forall>i \<in> set consumed. true_on ops (table_shape d q) (cs ! i) row)"
proof -
  note spec = pinned_prefix_spec [OF pp]
  have step: "(case get_at row (the (col_index d (names ! k))) of Some got \<Rightarrow> value_eq got (prefix ! k) | None \<Rightarrow> False)
      \<longleftrightarrow> true_on ops (table_shape d q) (cs ! (consumed ! k)) row" if k: "k < length prefix" for k
  proof -
    have eq: "consumed ! k < length cs" "equality_on (cs ! (consumed ! k)) q = Some (names ! k, prefix ! k)"
      using spec k by (auto simp: equalities_mem)
    obtain col where col: "find_column d (names ! k) = Some col" "kind (prefix ! k) = Some (cd_kind col)"
      by (rule sargableD [OF sarg eq])
    obtain i where i: "col_index d (names ! k) = Some i" "i < length row"
      "if row ! i = Null then is_nullable d i else kind (row ! i) = Some (cd_kind col)"
      using row_typed_cell [OF row col(1)] .
    have "prefix ! k \<noteq> Null" using col(2) by auto
    then show ?thesis
      using equality_true [OF eq(2) i(1,2), of ops] i col(2) by (auto simp: get_at_def split: if_splits)
  qed
  have len: "length prefix \<le> length names" "length consumed = length prefix" using spec by auto
  then have "matches_prefix (col_positions d names) prefix row \<longleftrightarrow>
      (\<forall>k < length prefix. case get_at row (the (col_index d (names ! k))) of Some got \<Rightarrow> value_eq got (prefix ! k) | None \<Rightarrow> False)"
    by (auto simp: matches_prefix_def col_positions_known [OF known] list_all_length)
  also have "\<dots> \<longleftrightarrow> (\<forall>i \<in> set consumed. true_on ops (table_shape d q) (cs ! i) row)"
    using step len(2) by (simp add: all_set_conv_all_nth)
  finally show ?thesis .
qed

lemma pinned_probe_typed:
  assumes "pinned_prefix (equalities q cs) names = (prefix, consumed)" "sargable d q cs"
  shows "probe_typed d names prefix"
proof -
  note spec = pinned_prefix_spec [OF assms(1)]
  have "case find_column d (names ! k) of Some c \<Rightarrow> kind (prefix ! k) = Some (cd_kind c) \<and> value_wf (prefix ! k) | None \<Rightarrow> False" if "k < length prefix" for k
  proof -
    have "consumed ! k < length cs" "equality_on (cs ! (consumed ! k)) q = Some (names ! k, prefix ! k)"
      using spec that by (auto simp: equalities_mem)
    from sargableD [OF assms(2) this] show ?thesis by force
  qed
  then show ?thesis using spec by (auto simp: probe_typed_def list_all_length)
qed

lemma residual_split:
  assumes "\<forall>i \<in> set consumed. i < length cs"
  shows "(\<forall>c \<in> set cs. P c) \<longleftrightarrow> (\<forall>i \<in> set consumed. P (cs ! i)) \<and> (\<forall>c \<in> set (residual cs consumed). P c)"
proof -
  have "set (residual cs consumed) = {cs ! i | i. i < length cs \<and> i \<notin> set consumed}"
    by (force simp: residual_def in_set_enumerate_eq)
  then have "(\<forall>c \<in> set (residual cs consumed). P c) \<longleftrightarrow> (\<forall>i < length cs. i \<notin> set consumed \<longrightarrow> P (cs ! i))" by auto
  moreover have "(\<forall>c \<in> set cs. P c) \<longleftrightarrow> (\<forall>i < length cs. P (cs ! i))" by (simp add: all_set_conv_all_nth)
  ultimately show ?thesis using assms by metis
qed

section \<open>Index selection\<close>

lemma find_filter_single:
  "length (filter P xs) \<le> 1 \<Longrightarrow> (case find P xs of Some x \<Rightarrow> [x] | None \<Rightarrow> []) = filter P xs"
  by (induction xs) (auto simp: filter_empty_conv)

lemma best_index_spec:
  "best_index eqs best idxs = Some (nm, prefix, consumed) \<Longrightarrow>
     best = Some (nm, prefix, consumed)
     \<or> (\<exists>idx \<in> set idxs. ix_name idx = nm \<and> pinned_prefix eqs (ix_columns idx) = (prefix, consumed) \<and> prefix \<noteq> [])"
  by (induction eqs best idxs rule: best_index.induct) (auto split: prod.splits if_splits option.splits)

text \<open>Unique indexes over several columns index every row.\<close>

definition unique_total :: "TableDef \<Rightarrow> bool" where
  "unique_total d \<longleftrightarrow>
     list_all (\<lambda>idx. ix_unique idx \<longrightarrow> length (ix_columns idx) \<le> 1
         \<or> list_all (\<lambda>i. \<not> is_nullable d i) (col_positions d (ix_columns idx))) (td_indexes d)"

lemma known_columns: "table_ok d \<Longrightarrow> idx \<in> set (td_indexes d) \<Longrightarrow> \<forall>nm \<in> set (ix_columns idx). find_column d nm \<noteq> None"
  and known_pk: "table_ok d \<Longrightarrow> \<forall>nm \<in> set (td_pk d). find_column d nm \<noteq> None"
  by (fastforce simp: table_ok_def index_ok_def column_where_def)+

lemma matches_indexed:
  assumes ok: "table_ok d" "unique_total d" "idx \<in> set (td_indexes d)" and row: "row_typed d row"
    and m: "matches_prefix (col_positions d (ix_columns idx)) prefix row" "prefix \<noteq> []" "probe_typed d (ix_columns idx) prefix"
  shows "indexed d idx row"
proof (cases "ix_unique idx \<and> length (ix_columns idx) \<le> 1")
  case True
  note known = known_columns [OF ok(1,3)]
  have "length (ix_columns idx) \<noteq> 0" using m(2,3) by (auto simp: probe_typed_def)
  then obtain nm where nm: "ix_columns idx = [nm]" using True by (cases "ix_columns idx") auto
  then obtain v where v: "prefix = [v]" using m(2,3) by (cases prefix) (auto simp: probe_typed_def)
  then have "v \<noteq> Null" using m(3) nm by (auto simp: probe_typed_def split: option.splits)
  then have "row ! the (col_index d nm) \<noteq> Null"
    using m(1) known nm v by (auto simp: col_positions_known matches_prefix_def get_at_def value_eq_Null split: if_splits)
  then show ?thesis using known nm by (simp add: indexed_def col_positions_known)
next
  case False
  have "row ! i \<noteq> Null" if u: "ix_unique idx" and i: "i \<in> set (col_positions d (ix_columns idx))" for i
  proof -
    have "\<not> is_nullable d i" using ok(2,3) u False i by (auto simp: unique_total_def list_all_iff)
    moreover have "i < length (td_columns d)"
      using i by (auto simp: col_positions_def set_map_filter_iff col_index_def position_Some)
    ultimately show ?thesis using row by (auto simp: row_typed_def list_all_iff)
  qed
  then show ?thesis by (auto simp: indexed_def list_all_iff)
qed

context table_snapshot
begin

lemma execute_scan:
  assumes "tbl t = Some (d, rows)"
  shows "execute ops snap (PScan t alias) = Inr \<lparr> rel_shape = table_shape d (case alias of Some a \<Rightarrow> a | None \<Rightarrow> t), rel_rows = rows \<rparr>"
  using table [OF assms] scanned [OF assms] by (simp add: scan_def)

lemma execute_pk:
  assumes t: "tbl t = Some (d, rows)" and key: "length key = length (td_pk d)" "probe_typed d (td_pk d) key"
  shows "execute ops snap (PPkLookup t alias key) = Inr \<lparr> rel_shape = table_shape d (case alias of Some a \<Rightarrow> a | None \<Rightarrow> t),
    rel_rows = filter (matches_prefix (col_positions d (td_pk d)) key) rows \<rparr>"
  using table [OF t] lookup [OF t key] find_filter_single [OF key_unique [OF t key(1)]] by (simp add: pk_lookup_def)

lemma execute_index:
  assumes t: "tbl t = Some (d, rows)" and idx: "idx \<in> set (td_indexes d)" "unique_total d"
    and prefix: "prefix \<noteq> []" "probe_typed d (ix_columns idx) prefix"
  shows "execute ops snap (PIndexScan t alias (ix_name idx) prefix) =
      Inr \<lparr> rel_shape = table_shape d (case alias of Some a \<Rightarrow> a | None \<Rightarrow> t),
            rel_rows = filter (matches_prefix (col_positions d (ix_columns idx)) prefix) rows \<rparr>"
proof -
  let ?M = "matches_prefix (col_positions d (ix_columns idx)) prefix"
  have dist: "distinct (map ix_name (td_indexes d))" using valid [OF t] by (simp add: table_ok_def)
  have found: "find (\<lambda>i. ix_name i = ix_name idx) (td_indexes d) = Some idx"
  proof -
    obtain k where k: "k < length (td_indexes d)" "td_indexes d ! k = idx" using idx(1) by (auto simp: in_set_conv_nth)
    have "ix_name (td_indexes d ! j) \<noteq> ix_name idx" if "j < k" for j
      using dist k that by (auto simp: distinct_conv_nth)
    then show ?thesis using k by (auto simp: find_Some_iff)
  qed
  obtain cands where c: "sn_index_candidates snap t (ix_name idx) prefix = Inr cands"
    "filter ?M cands = filter (\<lambda>row. ?M row \<and> indexed d idx row) rows"
    using probe [OF t found prefix] by blast
  have "filter (\<lambda>row. ?M row \<and> indexed d idx row) rows = filter ?M rows"
    using matches_indexed [OF valid [OF t] idx(2,1) typed [OF t] _ prefix] by (intro filter_cong) auto
  moreover have "list_ex (\<lambda>i. ix_name i = ix_name idx) (td_indexes d)" using idx(1) by (auto simp: list_ex_iff)
  ultimately show ?thesis
    using c table [OF t] prefix(1) found by (simp add: scan_def col_positions_def)
qed

text \<open>Filtering what an access path found by the conjuncts it did not use is filtering the table.\<close>

lemma residual_answers:
  assumes t: "tbl t = Some (d, rows)"
    and path: "execute ops snap p = Inr \<lparr> rel_shape = shape, rel_rows = filter M rows \<rparr>"
    and ref: "execute ops snap (PFilter (PScan t alias) pred) = Inr rel"
    and shape: "shape = table_shape d (case alias of Some a \<Rightarrow> a | None \<Rightarrow> t)"
    and used: "\<And>row. row \<in> set rows \<Longrightarrow> M row \<longleftrightarrow> (\<forall>i \<in> set consumed. true_on ops shape (flatten_and pred ! i) row)"
    and inside: "\<forall>i \<in> set consumed. i < length (flatten_and pred)"
  shows "execute ops snap (wrap_filter p (residual (flatten_and pred) consumed)) = Inr rel"
proof -
  let ?cs = "flatten_and pred"
  let ?R = "\<lambda>row. \<forall>c \<in> set (residual ?cs consumed). true_on ops shape c row"
  have rel: "rel = \<lparr> rel_shape = shape, rel_rows = filter (true_on ops shape pred) rows \<rparr>"
    and defd: "\<And>row. row \<in> set rows \<Longrightarrow> defined_on ops shape pred row"
    using ref execute_scan [OF t, of ops "alias"] shape unfolding execute_filter by auto
  have "set (residual ?cs consumed) \<subseteq> set ?cs" by (auto simp: residual_def in_set_enumerate_eq)
  then have "\<forall>row \<in> set (filter M rows). \<forall>c \<in> set (residual ?cs consumed). defined_on ops shape c row"
    using defd flatten_and_defined [of ops shape pred] by auto
  then have run: "execute ops snap (wrap_filter p (residual ?cs consumed)) = Inr \<lparr> rel_shape = shape, rel_rows = filter ?R (filter M rows) \<rparr>"
    using execute_wrap [OF path] by simp
  have "filter (true_on ops shape pred) rows = filter ?R (filter M rows)"
    unfolding filter_filter
    using used residual_split [OF inside] flatten_and_true [of ops shape pred]
    by (intro filter_cong) auto
  then show ?thesis using run rel by simp
qed

lemma index_select_answers:
  assumes t: "tbl t = Some (d, rows)" and ok: "sargable d (case alias of Some a \<Rightarrow> a | None \<Rightarrow> t) (flatten_and pred)" "unique_total d"
    and sel: "index_select schema t alias pred = Inr q"
  shows "answers_for ops snap (PFilter (PScan t alias) pred) q"
  unfolding answers_for_def
proof (intro allI impI)
  fix rel assume ref: "execute ops snap (PFilter (PScan t alias) pred) = Inr rel"
  let ?q = "case alias of Some a \<Rightarrow> a | None \<Rightarrow> t" and ?cs = "flatten_and pred"
  let ?eqs = "equalities ?q ?cs"
  have inside: "\<forall>i \<in> set consumed. i < length ?cs" if "pinned_prefix ?eqs names = (prefix, consumed)" for names prefix consumed
    using pinned_prefix_spec [OF that] by (simp add: all_set_conv_all_nth equalities_mem)
  have td: "table_def schema t = Inr d" using t by (simp add: table_def_def schema)
  obtain key used where pk: "pinned_prefix ?eqs (td_pk d) = (key, used)" by (cases "pinned_prefix ?eqs (td_pk d)")
  consider (point) "length key = length (td_pk d)" "q = wrap_filter (PPkLookup t alias key) (residual ?cs used)"
    | (scan) "q = PFilter (PScan t alias) pred"
    | (index) nm prefix consumed where "best_index ?eqs None (td_indexes d) = Some (nm, prefix, consumed)"
        "q = wrap_filter (PIndexScan t alias nm prefix) (residual ?cs consumed)"
  proof -
    have "q = (if td_pk d \<noteq> [] \<and> length key = length (td_pk d) then wrap_filter (PPkLookup t alias key) (residual ?cs used)
        else case best_index ?eqs None (td_indexes d) of None \<Rightarrow> PFilter (PScan t alias) pred
          | Some (index, prefix, consumed) \<Rightarrow> wrap_filter (PIndexScan t alias index prefix) (residual ?cs consumed))"
      using sel by (simp add: index_select_def td pk Let_def)
    then show ?thesis
      using that by (cases "best_index ?eqs None (td_indexes d)") (auto split: if_splits)
  qed
  then show "execute ops snap q = Inr rel"
  proof cases
    case point
    show ?thesis
      unfolding point(2)
      by (rule residual_answers [OF t execute_pk [OF t point(1) pinned_probe_typed [OF pk ok(1)]] ref refl
            pinned_true [OF pk known_pk [OF valid [OF t]] ok(1) typed [OF t]]
            inside [OF pk]])
  next
    case scan
    then show ?thesis using ref by auto
  next
    case (index nm prefix consumed)
    then obtain idx where idx: "idx \<in> set (td_indexes d)" "ix_name idx = nm"
      and pp: "pinned_prefix ?eqs (ix_columns idx) = (prefix, consumed)" "prefix \<noteq> []"
      using best_index_spec [OF index(1)] by auto
    show ?thesis
      unfolding index(2) idx(2) [symmetric]
      by (rule residual_answers [OF t execute_index [OF t idx(1) ok(2) pp(2) pinned_probe_typed [OF pp(1) ok(1)]] ref refl
            pinned_true [OF pp(1) known_columns [OF valid [OF t] idx(1)] ok(1) typed [OF t]] inside [OF pp(1)]])
  qed
qed

end

end
