(* ===== verification/PlanPush.thy ===== *)
theory PlanPush
  imports PlanSpec
begin

text \<open>Filter pushdown and the whole planner: an optimised plan answers for the plan it came from.\<close>

section \<open>Evaluation depends on the referenced cells\<close>

definition same_eval :: "text_ops \<Rightarrow> value list \<times> Shape \<Rightarrow> value list \<times> Shape \<Rightarrow> Expr \<Rightarrow> bool" where
  "same_eval ops a b e \<longleftrightarrow> eval ops (fst a) (snd a) e = eval ops (fst b) (snd b) e"

lemma eval_and_cong: "\<forall>e \<in> set items. same_eval ops (r, sh) (r', sh') e \<Longrightarrow> eval_and ops r sh acc items = eval_and ops r' sh' acc items"
  by (induction items arbitrary: acc) (simp_all add: same_eval_def)

lemma eval_or_cong: "\<forall>e \<in> set items. same_eval ops (r, sh) (r', sh') e \<Longrightarrow> eval_or ops r sh acc items = eval_or ops r' sh' acc items"
  by (induction items arbitrary: acc) (simp_all add: same_eval_def)

lemma eval_in_cong: "\<forall>e \<in> set items. same_eval ops (r, sh) (r', sh') e \<Longrightarrow> eval_in ops r sh v saw items = eval_in ops r' sh' v saw items"
proof (induction items arbitrary: saw)
  case (Cons e items)
  have "eval_in ops r sh v saw (e # items) = eval_in ops r' sh' v saw (e # items)"
    if "eval_cmp Eq v w = u" "eval ops r' sh' e = Inr w" for u w
    using that Cons by (cases u) (auto simp: same_eval_def split: bool.splits)
  then show ?case using Cons.prems by (cases "eval ops r' sh' e") (auto simp: same_eval_def)
qed simp

lemma eval_coalesce_cong: "\<forall>e \<in> set items. same_eval ops (r, sh) (r', sh') e \<Longrightarrow> eval_coalesce ops r sh items = eval_coalesce ops r' sh' items"
  by (induction items) (simp_all add: same_eval_def cong: if_cong)

lemma eval_cong:
  assumes "\<forall>ref \<in> set (collect_refs e). same_eval ops a b (EColumn (fst ref) (snd ref))"
  shows "same_eval ops a b e"
  using assms
proof (induction e)
  case (EAnd items)
  then have "\<forall>e \<in> set items. same_eval ops a b e" by auto
  then show ?case using eval_and_cong [of items ops "fst a" "snd a" "fst b" "snd b"] by (simp add: same_eval_def [of _ _ _ "EAnd _"])
next
  case (EOr items)
  then have "\<forall>e \<in> set items. same_eval ops a b e" by auto
  then show ?case using eval_or_cong [of items ops "fst a" "snd a" "fst b" "snd b"] by (simp add: same_eval_def [of _ _ _ "EOr _"])
next
  case (ECoalesce items)
  then have "\<forall>e \<in> set items. same_eval ops a b e" by auto
  then show ?case using eval_coalesce_cong [of items ops "fst a" "snd a" "fst b" "snd b"] by (simp add: same_eval_def [of _ _ _ "ECoalesce _"])
next
  case (EInList e items)
  then have "same_eval ops a b e" "\<forall>e \<in> set items. same_eval ops a b e" by auto
  then show ?case
    using eval_in_cong [of items ops "fst a" "snd a" "fst b" "snd b"]
    by (simp add: same_eval_def [of _ _ _ "EInList _ _"] same_eval_def [of _ _ _ e] cong: if_cong)
next
  case (EColumn q c)
  then show ?case by simp
qed (simp_all add: same_eval_def ball_Un)

section \<open>Expressions that cannot fail\<close>

text \<open>Without arithmetic, casts, \<open>LIKE\<close> and aggregates, and negating boolean forms only.\<close>

fun boolean_form :: "Expr \<Rightarrow> bool" where
  "boolean_form (ECmp _ _ _) = True"
| "boolean_form (EAnd _) = True"
| "boolean_form (EOr _) = True"
| "boolean_form (ENot _) = True"
| "boolean_form (EIsNull _) = True"
| "boolean_form (EIsNotNull _) = True"
| "boolean_form (EBetween _ _ _) = True"
| "boolean_form (EInList _ _) = True"
| "boolean_form _ = False"

fun total_expr :: "Expr \<Rightarrow> bool" where
  "total_expr (EColumn _ _) = True"
| "total_expr (ELiteral _) = True"
| "total_expr (ECmp _ l r) = (total_expr l \<and> total_expr r)"
| "total_expr (EAnd items) = list_all total_expr items"
| "total_expr (EOr items) = list_all total_expr items"
| "total_expr (ENot e) = (total_expr e \<and> boolean_form e)"
| "total_expr (EIsNull e) = total_expr e"
| "total_expr (EIsNotNull e) = total_expr e"
| "total_expr (EBetween e lo hi) = (total_expr e \<and> total_expr lo \<and> total_expr hi)"
| "total_expr (EInList e items) = (total_expr e \<and> list_all total_expr items)"
| "total_expr (ECoalesce items) = list_all total_expr items"
| "total_expr (ENullIf l r) = (total_expr l \<and> total_expr r)"
| "total_expr _ = False"

definition truth :: "value \<Rightarrow> bool" where
  "truth v \<longleftrightarrow> v = Null \<or> (\<exists>b. v = Bool b)"

lemma truth_simps [simp]: "truth Null" "truth (Bool t)" "truth (eval_cmp op a b)" "truth (and3 a b)" "truth (or3 a b)"
  by (auto simp: truth_def eval_cmp_def)

lemma eval_and_truth: "\<forall>e \<in> set items. \<exists>v. eval ops row sh e = Inr v \<Longrightarrow> truth acc \<Longrightarrow> \<exists>v. eval_and ops row sh acc items = Inr v \<and> truth v"
  by (induction items arbitrary: acc) (auto simp del: and3.simps)

lemma eval_or_truth: "\<forall>e \<in> set items. \<exists>v. eval ops row sh e = Inr v \<Longrightarrow> truth acc \<Longrightarrow> \<exists>v. eval_or ops row sh acc items = Inr v \<and> truth v"
  by (induction items arbitrary: acc) (auto simp del: or3.simps)

lemma eval_in_truth: "\<forall>e \<in> set items. \<exists>v. eval ops row sh e = Inr v \<Longrightarrow> \<exists>w. eval_in ops row sh v saw items = Inr w \<and> truth w"
proof (induction items arbitrary: saw)
  case (Cons e items)
  then obtain w where w: "eval ops row sh e = Inr w" by auto
  have "truth (eval_cmp Eq v w)" by simp
  then consider "eval_cmp Eq v w = Null" | b where "eval_cmp Eq v w = Bool b" unfolding truth_def by blast
  then show ?case using Cons w by cases (auto split: bool.splits)
qed simp

lemma eval_coalesce_total: "\<forall>e \<in> set items. \<exists>v. eval ops row sh e = Inr v \<Longrightarrow> \<exists>v. eval_coalesce ops row sh items = Inr v"
  by (induction items) auto

definition resolves :: "Shape \<Rightarrow> Expr \<Rightarrow> bool" where
  "resolves sh e \<longleftrightarrow> (\<forall>ref \<in> set (collect_refs e). resolve sh (fst ref) (snd ref) \<noteq> None)"

lemma eval_total:
  assumes "total_expr e" "resolves sh e"
  shows "\<exists>v. eval ops row sh e = Inr v \<and> (boolean_form e \<longrightarrow> truth v)"
  using assms
proof (induction e)
  case (EAnd items)
  then have "\<forall>e \<in> set items. \<exists>v. eval ops row sh e = Inr v" by (fastforce simp: resolves_def list_all_iff)
  from eval_and_truth [OF this] show ?case by simp
next
  case (EOr items)
  then have "\<forall>e \<in> set items. \<exists>v. eval ops row sh e = Inr v" by (fastforce simp: resolves_def list_all_iff)
  from eval_or_truth [OF this] show ?case by simp
next
  case (EInList e items)
  then have "\<forall>e \<in> set items. \<exists>v. eval ops row sh e = Inr v" "\<exists>v. eval ops row sh e = Inr v" by (fastforce simp: resolves_def list_all_iff)+
  with eval_in_truth [OF this(1)] show ?case by auto
next
  case (ECoalesce items)
  then have "\<forall>e \<in> set items. \<exists>v. eval ops row sh e = Inr v" by (fastforce simp: resolves_def list_all_iff)
  from eval_coalesce_total [OF this] show ?case by simp
next
  case (ENot e)
  then obtain v where "eval ops row sh e = Inr v" "truth v" by (auto simp: resolves_def)
  then show ?case by (auto simp: truth_def)
qed (auto simp: resolves_def ball_Un simp del: and3.simps)

lemma total_defined: "total_expr e \<Longrightarrow> resolves sh e \<Longrightarrow> defined_on ops sh e row"
  using eval_total [of e sh ops row] by (auto simp: defined_on_def)

section \<open>The sides of a join\<close>

lemma position_append:
  "position P (xs @ ys) = (case position P xs of Some i \<Rightarrow> Some i | None \<Rightarrow> map_option (\<lambda>i. length xs + i) (position P ys))"
  by (induction xs; cases "position P ys") (auto split: option.splits)

lemma resolve_bound: "resolve sh q c = Some i \<Longrightarrow> i < length sh"
  by (simp add: resolve_def position_Some)

lemma eval_left:
  assumes "resolves ls e" "length l = length ls"
  shows "eval ops (l @ r) (ls @ rs) e = eval ops l ls e"
proof -
  have "same_eval ops (l @ r, ls @ rs) (l, ls) (EColumn q c)" if res: "resolve ls q c \<noteq> None" for q c
  proof -
    obtain i where i: "resolve ls q c = Some i" using res by auto
    then have "resolve (ls @ rs) q c = Some i" by (simp add: resolve_def position_append)
    then show ?thesis using i resolve_bound [OF i] assms(2) by (simp add: same_eval_def get_at_def nth_append)
  qed
  then show ?thesis
    using eval_cong [of e ops "(l @ r, ls @ rs)" "(l, ls)"] assms(1) by (auto simp: same_eval_def [of _ _ _ e] resolves_def)
qed

lemma eval_right:
  assumes "resolves rs e" "\<forall>ref \<in> set (collect_refs e). resolve ls (fst ref) (snd ref) = None" "length l = length ls"
  shows "eval ops (l @ r) (ls @ rs) e = eval ops r rs e"
proof -
  have "same_eval ops (l @ r, ls @ rs) (r, rs) (EColumn q c)" if res: "resolve rs q c \<noteq> None" "resolve ls q c = None" for q c
  proof -
    obtain i where i: "resolve rs q c = Some i" using res(1) by auto
    then have "resolve (ls @ rs) q c = Some (length ls + i)" using res(2) by (simp add: resolve_def position_append)
    then show ?thesis using i assms(3) by (simp add: same_eval_def get_at_def nth_append)
  qed
  then show ?thesis
    using eval_cong [of e ops "(l @ r, ls @ rs)" "(r, rs)"] assms(1,2) by (auto simp: same_eval_def [of _ _ _ e] resolves_def)
qed

text \<open>An inner or cross join as a comprehension.\<close>

definition on_true :: "text_ops \<Rightarrow> Shape \<Rightarrow> Expr option \<Rightarrow> value list \<Rightarrow> bool" where
  "on_true ops sh on row \<longleftrightarrow> (case on of None \<Rightarrow> True | Some e \<Rightarrow> true_on ops sh e row)"

definition on_defined :: "text_ops \<Rightarrow> Shape \<Rightarrow> Expr option \<Rightarrow> value list \<Rightarrow> bool" where
  "on_defined ops sh on row \<longleftrightarrow> (case on of None \<Rightarrow> True | Some e \<Rightarrow> defined_on ops sh e row)"

definition combos :: "text_ops \<Rightarrow> Shape \<Rightarrow> Expr option \<Rightarrow> value list list \<Rightarrow> value list \<Rightarrow> value list list" where
  "combos ops sh on R l = filter (on_true ops sh on) (map ((@) l) R)"

definition padded_row :: "JoinKind \<Rightarrow> nat \<Rightarrow> value list \<Rightarrow> value list list \<Rightarrow> value list list" where
  "padded_row k w l rows = (if k = LeftJoin \<and> rows = [] then [l @ replicate w Null] else rows)"

lemma join_row_Inr:
  "join_row ops k on sh w R l = Inr rows \<longleftrightarrow>
     (\<forall>r \<in> set R. on_defined ops sh on (l @ r)) \<and> rows = padded_row k w l (combos ops sh on R l)"
proof -
  let ?keep = "\<lambda>c. case on of None \<Rightarrow> Inr True | Some pred \<Rightarrow> map_err ExEval (eval_predicate ops c sh pred)"
  have keep: "?keep c = Inr b \<longleftrightarrow> on_defined ops sh on c \<and> b = on_true ops sh on c" for c b
    by (cases on) (auto simp: on_defined_def on_true_def eval_predicate_def defined_on_def true_on_def elim!: and_then_InrE)
  have "(\<lambda>c. ?keep c = Inr True) = on_true ops sh on"
    by (rule ext) (auto simp: keep on_true_def on_defined_def true_defined split: option.splits)
  then have "retain_res ?keep (map ((@) l) R) = Inr ys \<longleftrightarrow> (\<forall>r \<in> set R. on_defined ops sh on (l @ r)) \<and> ys = combos ops sh on R l" for ys
    by (simp add: retain_res_Inr keep combos_def)
  then show ?thesis
    unfolding join_row_def padded_row_def by (auto elim!: and_then_InrE simp: and_then_def split: sum.splits)
qed

lemma collect_res_Inr_iff: "collect_res f xs = Inr ys \<longleftrightarrow> list_all2 (\<lambda>x y. f x = Inr y) xs ys"
proof
  show "list_all2 (\<lambda>x y. f x = Inr y) xs ys \<Longrightarrow> collect_res f xs = Inr ys"
    by (induction rule: list_all2_induct) auto
qed (rule collect_res_nth)

lemma collect_res_total:
  "\<forall>x \<in> set xs. \<forall>y. f x = Inr y \<longleftrightarrow> P x \<and> y = g x \<Longrightarrow> collect_res f xs = Inr ys \<longleftrightarrow> (\<forall>x \<in> set xs. P x) \<and> ys = map g xs"
  unfolding collect_res_Inr_iff by (induction xs arbitrary: ys) (auto simp: list_all2_Cons1)

lemma collect_res_projr: "collect_res f xs = Inr ys \<longleftrightarrow> (\<forall>x \<in> set xs. \<exists>y. f x = Inr y) \<and> ys = map (\<lambda>x. projr (f x)) xs"
proof (rule collect_res_total, intro ballI allI)
  show "f x = Inr y \<longleftrightarrow> (\<exists>y. f x = Inr y) \<and> y = projr (f x)" for x y by (cases "f x") auto
qed

lemma join_Inr:
  "join ops k L R on = Inr rel \<longleftrightarrow>
     (\<forall>l \<in> set (rel_rows L). \<forall>r \<in> set (rel_rows R). on_defined ops (rel_shape L @ rel_shape R) on (l @ r))
     \<and> rel = \<lparr> rel_shape = rel_shape L @ rel_shape R,
         rel_rows = concat (map (\<lambda>l. padded_row k (length (rel_shape R)) l (combos ops (rel_shape L @ rel_shape R) on (rel_rows R) l)) (rel_rows L)) \<rparr>"
proof -
  let ?sh = "rel_shape L @ rel_shape R"
  have "collect_res (join_row ops k on ?sh (length (rel_shape R)) (rel_rows R)) (rel_rows L) = Inr ys \<longleftrightarrow>
      (\<forall>l \<in> set (rel_rows L). \<forall>r \<in> set (rel_rows R). on_defined ops ?sh on (l @ r))
      \<and> ys = map (\<lambda>l. padded_row k (length (rel_shape R)) l (combos ops ?sh on (rel_rows R) l)) (rel_rows L)" for ys
    by (rule collect_res_total) (simp add: join_row_Inr)
  note rows = this
  show ?thesis
  proof (cases "\<forall>l \<in> set (rel_rows L). \<forall>r \<in> set (rel_rows R). on_defined ops ?sh on (l @ r)")
    case True
    then show ?thesis using rows [THEN iffD2] by (auto simp: join_def Let_def)
  next
    case False
    then show ?thesis using rows [THEN iffD1] by (auto simp: join_def Let_def elim!: and_then_InrE)
  qed
qed

lemma padded_row_inner [simp]: "k \<noteq> LeftJoin \<Longrightarrow> padded_row k w l rows = rows"
  by (simp add: padded_row_def)

section \<open>Congruence\<close>

lemma filter_answers: "answers_for ops snap p q \<Longrightarrow> answers_for ops snap (PFilter p e) (PFilter q e)"
  by (auto simp: answers_for_def elim!: and_then_InrE)

lemma join_answers:
  "answers_for ops snap l l' \<Longrightarrow> answers_for ops snap r r' \<Longrightarrow> answers_for ops snap (PJoin k l r on) (PJoin k l' r' on)"
  by (auto simp: answers_for_def elim!: and_then_InrE)

lemma unary_answers:
  assumes "answers_for ops snap p q"
  shows "answers_for ops snap (PAggregate p by aggs) (PAggregate q by aggs)" "answers_for ops snap (PProject p items) (PProject q items)"
    "answers_for ops snap (PDistinct p) (PDistinct q)" "answers_for ops snap (PSort p keys) (PSort q keys)"
    "answers_for ops snap (PLimit p limit offset) (PLimit q limit offset)" "answers_for ops snap (PCursor p token) (PCursor q token)"
  using assms by (auto simp: answers_for_def elim!: and_then_InrE)

lemma sort_Inr:
  "sort_rel ops r keys = Inr rel \<longleftrightarrow>
     (\<forall>row \<in> set (rel_rows r). \<exists>ks. sort_keys_of ops keys (rel_shape r) row = Inr ks)
     \<and> rel = r\<lparr> rel_rows := map snd (sort_by (\<lambda>a b. sort_cmp keys (fst a) (fst b))
           (map (\<lambda>row. (projr (sort_keys_of ops keys (rel_shape r) row), row)) (rel_rows r))) \<rparr>"
proof -
  let ?f = "\<lambda>row. and_then (sort_keys_of ops keys (rel_shape r) row) (\<lambda>ks. Inr (ks, row))"
  let ?P = "\<lambda>row. \<exists>ks. sort_keys_of ops keys (rel_shape r) row = Inr ks"
  let ?g = "\<lambda>row. (projr (sort_keys_of ops keys (rel_shape r) row), row)"
  have rows: "collect_res ?f (rel_rows r) = Inr ys \<longleftrightarrow> (\<forall>row \<in> set (rel_rows r). ?P row) \<and> ys = map ?g (rel_rows r)" for ys
  proof (rule collect_res_total, intro ballI allI)
    show "?f row = Inr y \<longleftrightarrow> ?P row \<and> y = ?g row" for row y
      by (cases "sort_keys_of ops keys (rel_shape r) row") auto
  qed
  show ?thesis
  proof (cases "\<forall>row \<in> set (rel_rows r). ?P row")
    case True
    then show ?thesis using rows [THEN iffD2] by (auto simp: sort_rel_def)
  next
    case False
    then show ?thesis using rows [THEN iffD1] by (auto simp: sort_rel_def elim!: and_then_InrE)
  qed
qed

section \<open>Pushdown\<close>

definition wf_rel :: "Relation \<Rightarrow> bool" where
  "wf_rel rel \<longleftrightarrow> (\<forall>row \<in> set (rel_rows rel). length row = length (rel_shape rel))"

definition shape_cols :: "Shape \<Rightarrow> (bytes option \<times> bytes) list" where
  "shape_cols sh = map (\<lambda>b. (bc_qualifier b, bc_name b)) sh"

lemma resolvable_shape: "resolvable ref (shape_cols sh) \<longleftrightarrow> resolve sh (fst ref) (snd ref) \<noteq> None"
  by (auto simp: resolvable_def shape_cols_def resolve_def position_None bound_as_def list_ex_iff)

lemma goes_left_resolves: "goes_left (shape_cols sh) e \<longleftrightarrow> resolves sh e"
  by (simp add: goes_left_def resolves_def list_all_iff resolvable_shape)

text \<open>No reference of the conjuncts is visible on both sides.\<close>

definition one_sided :: "(bytes option \<times> bytes) list \<Rightarrow> (bytes option \<times> bytes) list \<Rightarrow> Expr list \<Rightarrow> bool" where
  "one_sided lc rc cs \<longleftrightarrow> list_all (\<lambda>c. list_all (\<lambda>ref. \<not> (resolvable ref lc \<and> resolvable ref rc)) (collect_refs c)) cs"

lemma concat_map_if: "concat (map (\<lambda>x. if P x then f x else []) xs) = concat (map f (filter P xs))"
  by (induction xs) auto

lemma filter_combos_split:
  assumes wf: "length l = length ls"
    and one: "\<And>c ref. c \<in> set cs \<Longrightarrow> ref \<in> set (collect_refs c) \<Longrightarrow> resolve ls (fst ref) (snd ref) = None \<or> resolve rs (fst ref) (snd ref) = None"
  shows "filter (\<lambda>row. \<forall>c \<in> set cs. true_on ops (ls @ rs) c row) (combos ops sh on R l) =
    (if \<forall>c \<in> set (filter (resolves ls) cs). true_on ops ls c l
     then filter (\<lambda>row. \<forall>c \<in> set (filter (\<lambda>c. \<not> resolves ls c \<and> \<not> resolves rs c) cs). true_on ops (ls @ rs) c row)
       (combos ops sh on (filter (\<lambda>r. \<forall>c \<in> set (filter (\<lambda>c. \<not> resolves ls c \<and> resolves rs c) cs). true_on ops rs c r) R) l)
     else [])"
proof -
  have left: "true_on ops (ls @ rs) c (l @ r) \<longleftrightarrow> true_on ops ls c l" if "resolves ls c" for c r
    using eval_left [OF that wf] by (simp add: true_on_def)
  have right: "true_on ops (ls @ rs) c (l @ r) \<longleftrightarrow> true_on ops rs c r" if "c \<in> set cs" "\<not> resolves ls c" "resolves rs c" for c r
  proof -
    have "\<forall>ref \<in> set (collect_refs c). resolve ls (fst ref) (snd ref) = None"
      using one [OF that(1)] that(3) by (fastforce simp: resolves_def)
    from eval_right [OF that(3) this wf] show ?thesis by (simp add: true_on_def)
  qed
  have split: "(\<forall>c \<in> set cs. true_on ops (ls @ rs) c (l @ r)) \<longleftrightarrow>
      (\<forall>c \<in> set (filter (resolves ls) cs). true_on ops ls c l)
      \<and> (\<forall>c \<in> set (filter (\<lambda>c. \<not> resolves ls c \<and> resolves rs c) cs). true_on ops rs c r)
      \<and> (\<forall>c \<in> set (filter (\<lambda>c. \<not> resolves ls c \<and> \<not> resolves rs c) cs). true_on ops (ls @ rs) c (l @ r))" for r
    unfolding set_filter mem_Collect_eq Ball_def using left right by blast
  show ?thesis
  proof (cases "\<forall>c \<in> set (filter (resolves ls) cs). true_on ops ls c l")
    case True
    then show ?thesis
      unfolding combos_def filter_map filter_filter comp_def split if_P [OF True]
      by (intro arg_cong [of _ _ "map ((@) l)"] filter_cong refl) auto
  next
    case False
    then show ?thesis
      unfolding combos_def filter_map filter_filter comp_def split by (simp only: simp_thms if_False) simp
  qed
qed

lemma distinct_rel_rows: "set (rel_rows (distinct_rel rel)) \<subseteq> set (rel_rows rel)" "rel_shape (distinct_rel rel) = rel_shape rel"
proof -
  have "set (foldl add_distinct seen rows) \<subseteq> set seen \<union> set rows" for seen rows
  proof (induction rows arbitrary: seen)
    case (Cons a rows)
    have "set (add_distinct seen a) \<subseteq> insert a (set seen)" by (auto simp: add_distinct_def)
    with Cons [of "add_distinct seen a"] show ?case by auto
  qed simp
  from this [of "[]"] show "set (rel_rows (distinct_rel rel)) \<subseteq> set (rel_rows rel)" by (simp add: distinct_rel_def)
qed (simp add: distinct_rel_def)

lemma apply_limit_rows: "set (rel_rows (apply_limit rel limit offset)) \<subseteq> set (rel_rows rel)" "rel_shape (apply_limit rel limit offset) = rel_shape rel"
  by (auto simp: apply_limit_def split: option.splits dest: in_set_takeD in_set_dropD)

text \<open>The members of a bucket are positions of rows.\<close>

definition members_below :: "nat \<Rightarrow> (value list \<times> nat list) list \<Rightarrow> bool" where
  "members_below n groups \<longleftrightarrow> (\<forall>(k, ms) \<in> set groups. \<forall>m \<in> set ms. m < n)"

lemma members_add: "members_below n groups \<Longrightarrow> i < n \<Longrightarrow> members_below n (add_member key i groups)"
  by (induction key i groups rule: add_member.induct) (auto simp: members_below_def)

lemma bucket_members:
  "bucket ops sh ks groups rows = Inr out \<Longrightarrow> members_below n groups \<Longrightarrow> \<forall>(i, row) \<in> set rows. i < n \<Longrightarrow> members_below n out"
  by (induction ops sh ks groups rows rule: bucket.induct) (auto elim!: and_then_InrE simp: members_add)

lemma aggregate_rel:
  assumes "aggregate ops input by aggs = Inr rel" "wf_rel input"
  shows "wf_rel rel" "rel_shape rel = rel_shape input @ map (\<lambda>(nm, _). \<lparr> bc_qualifier = None, bc_name = nm \<rparr>) aggs"
proof -
  let ?row = "\<lambda>members. and_then (map_err ExEval (collect_res (\<lambda>(_, e). compute_agg ops input members e) aggs)) (\<lambda>outs.
      Inr ((case members of first # _ \<Rightarrow> rel_rows input ! first | [] \<Rightarrow> replicate (length (rel_shape input)) Null) @ outs))"
  obtain buckets groups rows where b: "bucket ops (rel_shape input) by [] (enumerate 0 (rel_rows input)) = Inr buckets"
    and groups: "groups = (if by = [] \<and> map snd buckets = [] then [[]] else map snd buckets)"
    and rows: "collect_res ?row groups = Inr rows"
    and rel: "rel = \<lparr> rel_shape = rel_shape input @ map (\<lambda>(nm, _). \<lparr> bc_qualifier = None, bc_name = nm \<rparr>) aggs, rel_rows = rows \<rparr>"
    using assms(1) unfolding aggregate_def Let_def by (auto elim!: and_then_InrE)
  have "members_below (length (rel_rows input)) buckets"
    by (rule bucket_members [OF b]) (auto simp: members_below_def in_set_enumerate_eq)
  then have below: "\<forall>m \<in> set ms. m < length (rel_rows input)" if "ms \<in> set groups" for ms
    using that by (auto simp: groups members_below_def split: if_splits)
  have "length row = length (rel_shape input) + length aggs" if row: "row \<in> set rows" for row
  proof -
    obtain i where i: "i < length rows" "row = rows ! i" using row by (auto simp: in_set_conv_nth)
    have len: "length groups = length rows" by (rule list_all2_lengthD [OF collect_res_nth [OF rows]])
    have "?row (groups ! i) = Inr (rows ! i)" using list_all2_nthD2 [OF collect_res_nth [OF rows] i(1)] .
    then obtain ms where ms: "ms \<in> set groups" "?row ms = Inr row"
      using that [OF nth_mem [of i groups]] i len by simp
    then obtain outs where outs: "collect_res (\<lambda>(_, e). compute_agg ops input ms e) aggs = Inr outs"
      "row = (case ms of first # _ \<Rightarrow> rel_rows input ! first | [] \<Rightarrow> replicate (length (rel_shape input)) Null) @ outs"
      by (auto elim!: and_then_InrE)
    have "length outs = length aggs" using list_all2_lengthD [OF collect_res_nth [OF outs(1)]] by simp
    moreover have "length (case ms of first # _ \<Rightarrow> rel_rows input ! first | [] \<Rightarrow> replicate (length (rel_shape input)) Null) = length (rel_shape input)"
      using below [OF ms(1)] assms(2) by (auto simp: wf_rel_def split: list.splits)
    ultimately show ?thesis using outs(2) by simp
  qed
  then show "wf_rel rel" "rel_shape rel = rel_shape input @ map (\<lambda>(nm, _). \<lparr> bc_qualifier = None, bc_name = nm \<rparr>) aggs"
    using rel by (auto simp: wf_rel_def)
qed

text \<open>What the planner needs of a predicate placed over a plan, following \<open>build_filter\<close>: over a scan, literals of
  the kinds of their columns and unique indexes without NULLs; over an inner or cross join, references
  visible on one side only and conjuncts that cannot fail where they are pushed.\<close>

fun pushable :: "SchemaView \<Rightarrow> Plan \<Rightarrow> Expr \<Rightarrow> bool" where
  "pushable schema (PScan t al) pred =
     (case schema t of
        Inr (Some d) \<Rightarrow> sargable d (case al of Some a \<Rightarrow> a | None \<Rightarrow> t) (flatten_and pred) \<and> unique_total d
      | _ \<Rightarrow> False)"
| "pushable schema (PJoin k l r on) pred =
     (k = LeftJoin \<or>
      (case (exposed schema l, exposed schema r) of
         (Inr lc, Inr rc) \<Rightarrow>
           (let cs = flatten_and pred;
                pl = filter (goes_left lc) cs;
                pr = filter (\<lambda>c. \<not> goes_left lc c \<and> goes_left rc c) cs
            in one_sided lc rc cs \<and> list_all total_expr pl \<and> list_all total_expr pr
               \<and> (pl \<noteq> [] \<longrightarrow> pushable schema l (and_of pl)) \<and> (pr \<noteq> [] \<longrightarrow> pushable schema r (and_of pr)))
       | _ \<Rightarrow> False))"
| "pushable schema _ pred = True"

fun plannable :: "SchemaView \<Rightarrow> Plan \<Rightarrow> bool" where
  "plannable schema (PFilter p pred) =
     (plannable schema p \<and> (case optimize schema p of Inr q \<Rightarrow> pushable schema q pred | Inl _ \<Rightarrow> False))"
| "plannable schema (PJoin k l r on) = (plannable schema l \<and> plannable schema r)"
| "plannable schema (PAggregate p by aggs) = plannable schema p"
| "plannable schema (PProject p items) = plannable schema p"
| "plannable schema (PDistinct p) = plannable schema p"
| "plannable schema (PSort p keys) = plannable schema p"
| "plannable schema (PLimit p limit offset) = plannable schema p"
| "plannable schema (PCursor p token) = plannable schema p"
| "plannable schema _ = True"

context table_snapshot
begin

lemma scan_wf:
  assumes "scan snap t al index = Inr rel"
  shows "wf_rel rel"
proof -
  obtain d rows where d: "sn_table snap t = Inr d" "rel_shape rel = table_shape d (case al of Some a \<Rightarrow> a | None \<Rightarrow> t)"
    and raw: "(case index of Some (nm, prefix) \<Rightarrow>
          if prefix \<noteq> [] \<and> list_ex (\<lambda>i. ix_name i = nm) (td_indexes d)
          then sn_index_candidates snap t nm prefix else sn_scan snap t
        | None \<Rightarrow> sn_scan snap t) = Inr rows"
    and kept: "rel_rows rel = (case index of Some (nm, prefix) \<Rightarrow>
          (case find (\<lambda>i. ix_name i = nm) (td_indexes d) of
             Some idx \<Rightarrow> filter (matches_prefix (List.map_filter (col_index d) (ix_columns idx)) prefix) rows
           | None \<Rightarrow> rows)
        | None \<Rightarrow> rows)"
    using assms by (auto simp: scan_def elim!: and_then_InrE)
  have rows: "set (rel_rows rel) \<subseteq> set rows" unfolding kept by (auto split: option.splits prod.splits)
  have src: "sn_scan snap t = Inr rows \<or> (\<exists>nm p. sn_index_candidates snap t nm p = Inr rows)"
    using raw by (auto split: option.splits prod.splits if_splits)
  obtain stored where t: "tbl t = Some (d, stored)" using known [OF d(1)] by blast
  have "set rows \<subseteq> set stored" using src scanned [OF t] served_index [OF t] by auto
  then show ?thesis
    using typed [OF t] rows d(2) by (auto simp: wf_rel_def row_typed_def table_shape_def)
qed

lemma execute_wf: "execute ops snap p = Inr rel \<Longrightarrow> wf_rel rel"
proof (induction p arbitrary: rel)
  case (PPkLookup t al key)
  then obtain d hit where d: "sn_table snap t = Inr d" "sn_get snap t key = Inr hit"
    "rel = \<lparr> rel_shape = table_shape d (case al of Some a \<Rightarrow> a | None \<Rightarrow> t), rel_rows = (case hit of Some row \<Rightarrow> [row] | None \<Rightarrow> []) \<rparr>"
    by (auto simp: pk_lookup_def elim!: and_then_InrE)
  obtain stored where t: "tbl t = Some (d, stored)" using known [OF d(1)] by blast
  show ?case
    using served_key [OF t] typed [OF t] d by (auto simp: wf_rel_def row_typed_def table_shape_def split: option.splits)
next
  case (PFilter p e)
  then show ?case unfolding execute_filter by (auto simp: wf_rel_def)
next
  case (PJoin k l r on)
  then obtain L R where LR: "wf_rel L" "wf_rel R" "join ops k L R on = Inr rel" by (auto elim!: and_then_InrE)
  then show ?case unfolding join_Inr by (auto simp: wf_rel_def combos_def padded_row_def split: if_splits)
next
  case (PProject p items)
  then obtain P :: Relation and rows where "collect_res (project_row ops (rel_shape P) items) (rel_rows P) = Inr rows"
    "rel = \<lparr> rel_shape = project_shape items, rel_rows = rows \<rparr>" by (auto simp: project_def elim!: and_then_InrE)
  then have "length row = length items" if "row \<in> set (rel_rows rel)" for row
    using that list_all2_lengthD [OF collect_res_nth [of _ items row]]
    by (fastforce simp: project_row_def list_all2_conv_all_nth in_set_conv_nth dest!: collect_res_nth)
  then show ?case using \<open>rel = _\<close> by (simp add: wf_rel_def project_shape_def)
next
  case (PSort p keys)
  then obtain P where "wf_rel P" "sort_rel ops P keys = Inr rel" by (auto elim!: and_then_InrE)
  then show ?case unfolding sort_Inr by (auto simp: wf_rel_def)
next
  case (PDistinct p)
  then show ?case using distinct_rel_rows by (fastforce simp: wf_rel_def elim!: and_then_InrE)
next
  case (PLimit p limit offset)
  then show ?case using apply_limit_rows by (fastforce simp: wf_rel_def elim!: and_then_InrE)
qed (auto intro: scan_wf aggregate_rel elim!: and_then_InrE)

lemma exposed_shape:
  "execute ops snap p = Inr rel \<Longrightarrow> exposed schema p = Inr (shape_cols (rel_shape rel))"
proof (induction p arbitrary: rel)
  case (PFilter p e)
  then show ?case unfolding execute_filter by auto
next
  case (PJoin k l r on)
  then obtain L R where "execute ops snap l = Inr L" "execute ops snap r = Inr R" "join ops k L R on = Inr rel" by (auto elim!: and_then_InrE)
  then show ?case using PJoin unfolding join_Inr by (simp add: shape_cols_def)
next
  case (PSort p keys)
  then obtain P where "execute ops snap p = Inr P" "sort_rel ops P keys = Inr rel" by (auto elim!: and_then_InrE)
  then show ?case using PSort unfolding sort_Inr by simp
next
  case (PProject p items)
  then show ?case by (auto simp: project_def project_shape_def shape_cols_def elim!: and_then_InrE)
next
  case (PScan t al)
  then show ?case
    by (auto simp: scan_def table_def_def schema shape_cols_def table_shape_def comp_def elim!: and_then_InrE dest!: known)
next
  case (PIndexScan t al nm prefix)
  then show ?case
    by (auto simp: scan_def table_def_def schema shape_cols_def table_shape_def comp_def elim!: and_then_InrE dest!: known)
next
  case (PPkLookup t al key)
  then show ?case
    by (auto simp: pk_lookup_def table_def_def schema shape_cols_def table_shape_def comp_def elim!: and_then_InrE dest!: known)
next
  case (PAggregate p ks aggs)
  then obtain P where P: "execute ops snap p = Inr P" "aggregate ops P ks aggs = Inr rel" by (auto elim!: and_then_InrE)
  then show ?case
    using PAggregate.IH [OF P(1)] aggregate_rel(2) [OF P(2) execute_wf [OF P(1)]] by (auto simp: shape_cols_def)
qed (auto simp: distinct_rel_rows apply_limit_rows elim!: and_then_InrE)

lemma pushdown_answers:
  assumes k: "k \<noteq> LeftJoin" and ex: "exposed schema l = Inr lc" "exposed schema r = Inr rc"
    and one: "one_sided lc rc cs" and cs: "cs = flatten_and pred"
    and total: "\<And>c. c \<in> set cs \<Longrightarrow> goes_left lc c \<or> goes_left rc c \<Longrightarrow> total_expr c"
  shows "answers_for ops snap (PFilter (PJoin k l r on) pred)
    (wrap_filter (PJoin k (wrap_filter l (filter (goes_left lc) cs))
        (wrap_filter r (filter (\<lambda>c. \<not> goes_left lc c \<and> goes_left rc c) cs)) on)
      (filter (\<lambda>c. \<not> goes_left lc c \<and> \<not> goes_left rc c) cs))"
  unfolding answers_for_def
proof (intro allI impI)
  fix rel assume "execute ops snap (PFilter (PJoin k l r on) pred) = Inr rel"
  then obtain J where J: "execute ops snap (PJoin k l r on) = Inr J" "\<forall>row \<in> set (rel_rows J). defined_on ops (rel_shape J) pred row"
    and rel: "rel = J\<lparr> rel_rows := filter (true_on ops (rel_shape J) pred) (rel_rows J) \<rparr>"
    unfolding execute_filter by blast
  obtain L R where L: "execute ops snap l = Inr L" and R: "execute ops snap r = Inr R" and LR: "join ops k L R on = Inr J"
    using J(1) by (auto elim!: and_then_InrE)
  let ?ls = "rel_shape L" and ?rs = "rel_shape R"
  have lc: "lc = shape_cols ?ls" and rc: "rc = shape_cols ?rs"
    using exposed_shape [OF L] exposed_shape [OF R] ex by auto
  define pl where "pl = filter (resolves ?ls) cs"
  define pr where "pr = filter (\<lambda>c. \<not> resolves ?ls c \<and> resolves ?rs c) cs"
  define keep where "keep = filter (\<lambda>c. \<not> resolves ?ls c \<and> \<not> resolves ?rs c) cs"
  define L' where "L' = L\<lparr> rel_rows := filter (\<lambda>row. \<forall>c \<in> set pl. true_on ops ?ls c row) (rel_rows L) \<rparr>"
  define R' where "R' = R\<lparr> rel_rows := filter (\<lambda>row. \<forall>c \<in> set pr. true_on ops ?rs c row) (rel_rows R) \<rparr>"
  have runL: "execute ops snap (wrap_filter l pl) = Inr L'"
    unfolding L'_def using total by (intro execute_wrap [OF L]) (auto simp: pl_def lc goes_left_resolves intro: total_defined)
  have runR: "execute ops snap (wrap_filter r pr) = Inr R'"
    unfolding R'_def using total by (intro execute_wrap [OF R]) (auto simp: pr_def rc goes_left_resolves intro: total_defined)
  let ?sh = "?ls @ ?rs"
  let ?J' = "\<lparr> rel_shape = ?sh, rel_rows = concat (map (combos ops ?sh on (rel_rows R')) (rel_rows L')) \<rparr>"
  have rowsJ: "J = \<lparr> rel_shape = ?sh, rel_rows = concat (map (combos ops ?sh on (rel_rows R)) (rel_rows L)) \<rparr>"
    using LR k unfolding join_Inr by simp
  have "join ops k L' R' on = Inr ?J'"
    using LR k unfolding join_Inr by (simp add: L'_def R'_def)
  then have runJ: "execute ops snap (PJoin k (wrap_filter l pl) (wrap_filter r pr) on) = Inr ?J'"
    using runL runR by simp
  have sub: "set (rel_rows ?J') \<subseteq> set (rel_rows J)"
    unfolding rowsJ by (auto simp: L'_def R'_def combos_def)
  have "\<forall>row \<in> set (rel_rows ?J'). \<forall>c \<in> set keep. defined_on ops (rel_shape ?J') c row"
    using J(2) sub flatten_and_defined [of ops "rel_shape J" pred] rowsJ unfolding keep_def cs by fastforce
  from execute_wrap [OF runJ this] have run: "execute ops snap (wrap_filter (PJoin k (wrap_filter l pl) (wrap_filter r pr) on) keep) =
      Inr (?J'\<lparr> rel_rows := filter (\<lambda>row. \<forall>c \<in> set keep. true_on ops ?sh c row) (rel_rows ?J') \<rparr>)" by simp
  have oneS: "\<And>c ref. c \<in> set cs \<Longrightarrow> ref \<in> set (collect_refs c) \<Longrightarrow> resolve ?ls (fst ref) (snd ref) = None \<or> resolve ?rs (fst ref) (snd ref) = None"
    using one by (fastforce simp: one_sided_def list_all_iff lc rc resolvable_shape)
  have wfL: "\<And>row. row \<in> set (rel_rows L) \<Longrightarrow> length row = length ?ls" using execute_wf [OF L] by (simp add: wf_rel_def)
  have "rel_rows rel = filter (\<lambda>row. \<forall>c \<in> set keep. true_on ops ?sh c row) (rel_rows ?J')"
  proof -
    have "true_on ops ?sh pred = (\<lambda>row. \<forall>c \<in> set cs. true_on ops ?sh c row)"
      unfolding cs by (rule ext) (rule flatten_and_true)
    then have "rel_rows rel = concat (map (\<lambda>l. filter (\<lambda>row. \<forall>c \<in> set cs. true_on ops ?sh c row) (combos ops ?sh on (rel_rows R) l)) (rel_rows L))"
      by (simp add: rel rowsJ filter_concat comp_def)
    also have "\<dots> = concat (map (\<lambda>l. if \<forall>c \<in> set pl. true_on ops ?ls c l
        then filter (\<lambda>row. \<forall>c \<in> set keep. true_on ops ?sh c row) (combos ops ?sh on (rel_rows R') l) else []) (rel_rows L))"
    proof -
      have "rel_rows R' = filter (\<lambda>row. \<forall>c \<in> set pr. true_on ops ?rs c row) (rel_rows R)" by (simp add: R'_def)
      then show ?thesis
        unfolding pl_def pr_def keep_def by (intro arg_cong [of _ _ concat] map_cong refl) (simp only: filter_combos_split [OF wfL oneS])
    qed
    also have "\<dots> = concat (map (\<lambda>l. filter (\<lambda>row. \<forall>c \<in> set keep. true_on ops ?sh c row) (combos ops ?sh on (rel_rows R') l)) (rel_rows L'))"
      by (simp add: L'_def concat_map_if)
    finally show ?thesis by (simp add: filter_concat comp_def)
  qed
  moreover have "rel_shape rel = ?sh" using rel rowsJ by simp
  moreover have "goes_left lc = resolves ?ls" "goes_left rc = resolves ?rs"
    by (rule ext, simp add: lc rc goes_left_resolves)+
  ultimately show "execute ops snap (wrap_filter (PJoin k (wrap_filter l (filter (goes_left lc) cs))
        (wrap_filter r (filter (\<lambda>c. \<not> goes_left lc c \<and> goes_left rc c) cs)) on)
      (filter (\<lambda>c. \<not> goes_left lc c \<and> \<not> goes_left rc c) cs)) = Inr rel"
    using run by (simp add: pl_def pr_def keep_def del: execute.simps)
qed

lemma wrap_answers:
  assumes "cs \<noteq> [] \<Longrightarrow> answers_for ops snap (PFilter p (and_of cs)) q" "cs = [] \<Longrightarrow> q = p"
  shows "answers_for ops snap (wrap_filter p cs) q"
  using assms by (simp add: wrap_filter_def)

lemma wrap_filter_answers: "answers_for ops snap p q \<Longrightarrow> answers_for ops snap (wrap_filter p cs) (wrap_filter q cs)"
  by (simp add: wrap_filter_def filter_answers)

lemma build_filter_answers:
  "pushable schema p pred \<Longrightarrow> \<exists>q. build_filter schema p pred = Inr q \<and> answers_for ops snap (PFilter p pred) q"
proof (induction p arbitrary: pred)
  case (PScan t al)
  then obtain d where d: "schema t = Inr (Some d)" "sargable d (case al of Some a \<Rightarrow> a | None \<Rightarrow> t) (flatten_and pred)" "unique_total d"
    by (auto split: sum.splits option.splits)
  then obtain rows where t: "tbl t = Some (d, rows)" using schema by (metis (no_types) map_option_eq_Some prod.collapse sum.inject(2))
  have "\<exists>q. index_select schema t al pred = Inr q"
    using d(1) by (auto simp: index_select_def table_def_def Let_def split: prod.splits option.splits)
  then show ?case using index_select_answers [OF t d(2,3)] by auto
next
  case (PJoin k l r on)
  show ?case
  proof (cases "k = LeftJoin")
    case True
    then show ?thesis using PJoin.prems by simp
  next
    case False
    let ?cs = "flatten_and pred"
    obtain lc rc where ex: "exposed schema l = Inr lc" "exposed schema r = Inr rc"
      using PJoin.prems False by (auto split: sum.splits)
    define pl where "pl = filter (goes_left lc) ?cs"
    define pr where "pr = filter (\<lambda>c. \<not> goes_left lc c \<and> goes_left rc c) ?cs"
    have cond: "one_sided lc rc ?cs" "list_all total_expr pl" "list_all total_expr pr"
      "pl \<noteq> [] \<longrightarrow> pushable schema l (and_of pl)" "pr \<noteq> [] \<longrightarrow> pushable schema r (and_of pr)"
      using PJoin.prems False ex by (auto simp: pl_def pr_def Let_def)
    obtain l' where l': "(if pl = [] then Inr l else build_filter schema l (and_of pl)) = Inr l'" "answers_for ops snap (wrap_filter l pl) l'"
      using PJoin.IH(1) [of "and_of pl"] cond(4) by (cases "pl = []") (auto simp: wrap_filter_def)
    obtain r' where r': "(if pr = [] then Inr r else build_filter schema r (and_of pr)) = Inr r'" "answers_for ops snap (wrap_filter r pr) r'"
      using PJoin.IH(2) [of "and_of pr"] cond(5) by (cases "pr = []") (auto simp: wrap_filter_def)
    let ?keep = "filter (\<lambda>c. \<not> goes_left lc c \<and> \<not> goes_left rc c) ?cs"
    have "answers_for ops snap (PFilter (PJoin k l r on) pred) (wrap_filter (PJoin k (wrap_filter l pl) (wrap_filter r pr) on) ?keep)"
      unfolding pl_def pr_def using cond False ex
      by (intro pushdown_answers refl) (auto simp: pl_def pr_def list_all_iff)
    moreover have "answers_for ops snap (wrap_filter (PJoin k (wrap_filter l pl) (wrap_filter r pr) on) ?keep) (wrap_filter (PJoin k l' r' on) ?keep)"
      by (intro wrap_filter_answers join_answers l'(2) r'(2))
    ultimately have "answers_for ops snap (PFilter (PJoin k l r on) pred) (wrap_filter (PJoin k l' r' on) ?keep)"
      by (rule answers_for_trans)
    moreover have "build_filter schema (PJoin k l r on) pred = Inr (wrap_filter (PJoin k l' r' on) ?keep)"
      using False ex l'(1) r'(1) by (auto simp: pl_def [symmetric] pr_def [symmetric] Let_def split: if_splits)
    ultimately show ?thesis by simp
  qed
qed simp_all

lemma optimize_answers:
  "plannable schema p \<Longrightarrow> \<exists>q. optimize schema p = Inr q \<and> answers_for ops snap p q"
proof (induction p)
  case (PFilter p pred)
  then obtain q where q: "optimize schema p = Inr q" "answers_for ops snap p q" "pushable schema q pred" by auto
  then obtain b where b: "build_filter schema q pred = Inr b" "answers_for ops snap (PFilter q pred) b"
    using build_filter_answers by blast
  then show ?case using q answers_for_trans [OF filter_answers [OF q(2)] b(2)] by simp
next
  case (PJoin k l r on)
  then show ?case using join_answers by fastforce
qed (use unary_answers in fastforce)+

end

end
