(* ===== verification/CatImage.thy ===== *)
theory CatImage
  imports CatReader PlanPush EdbCursor
begin

text \<open>What a catalog snapshot shows when the trees behind it are consistent: every table has a valid definition, its
  rows stored under their encoded primary keys, and one tree per index holding exactly the entries of
  its rows. Such a snapshot keeps the laws the planner relies on.\<close>

section \<open>Keys\<close>

text \<open>Names are always keyable: the catalog keys, as bytes.\<close>

definition tblk :: "bytes \<Rightarrow> bytes" where "tblk t = projr (tbl_key t)"

definition rootk :: "bytes \<Rightarrow> bytes" where "rootk t = projr (root_key t)"

definition irootk :: "bytes \<Rightarrow> bytes \<Rightarrow> bytes" where "irootk t i = projr (iroot_key t i)"

lemma key_bytes [simp]:
  "tbl_key t = Inr (tblk t)" "root_key t = Inr (rootk t)" "iroot_key t i = Inr (irootk t i)"
  by (simp_all add: tblk_def rootk_def irootk_def tbl_key_def root_key_def iroot_key_def band_key_def)

section \<open>Consistent catalogs\<close>

definition rows_stored :: "TableDef \<Rightarrow> (bytes \<rightharpoonup> bytes) \<Rightarrow> bool" where
  "rows_stored d m \<longleftrightarrow> (\<forall>k bs. m k = Some bs \<longrightarrow>
     (\<exists>r. decode_padded d bs = Inr r \<and> row_typed d r \<and> list_all value_wf r \<and> pk_key_of d r = Inr k))"

definition base_rows :: "TableDef \<Rightarrow> (bytes \<rightharpoonup> bytes) \<Rightarrow> (bytes \<times> value list) set" where
  "base_rows d m = {(k, r). \<exists>bs. m k = Some bs \<and> decode_padded d bs = Inr r}"

definition index_stored :: "TableDef \<Rightarrow> IndexDef \<Rightarrow> (bytes \<rightharpoonup> bytes) \<Rightarrow> (bytes \<rightharpoonup> bytes) \<Rightarrow> bool" where
  "index_stored d idx m im \<longleftrightarrow> indexes (ix_unique idx) ((\<lambda>(k, r). (index_cols d idx r, k)) ` base_rows d m) im"

text \<open>The tree whose root the catalog tree records under a key.\<close>

definition linked :: "(PageId \<rightharpoonup> (bytes \<rightharpoonup> bytes)) \<Rightarrow> (bytes \<rightharpoonup> bytes) \<Rightarrow> bytes \<Rightarrow> (bytes \<rightharpoonup> bytes) \<Rightarrow> bool" where
  "linked content cat k m \<longleftrightarrow> (\<exists>r. cat k = Some (encode_root r) \<and> content r = Some m)"

definition table_stored :: "(PageId \<rightharpoonup> (bytes \<rightharpoonup> bytes)) \<Rightarrow> (bytes \<rightharpoonup> bytes) \<Rightarrow> bytes \<Rightarrow> TableDef \<Rightarrow> (bytes \<rightharpoonup> bytes) \<Rightarrow> bool" where
  "table_stored content cat t d m \<longleftrightarrow>
     table_ok d \<and> linked content cat (rootk t) m \<and> rows_stored d m
     \<and> (\<forall>idx \<in> set (td_indexes d). \<exists>im. linked content cat (irootk t (ix_name idx)) im \<and> index_stored d idx m im)"

locale catalog_image = tree_reader rd content for rd :: read_ops and content :: "PageId \<rightharpoonup> (bytes \<rightharpoonup> bytes)" +
  fixes cat :: "bytes \<rightharpoonup> bytes"
  assumes root: "\<exists>r. rd_root rd = Some r \<and> content r = Some cat"
    and consistent: "cat (tblk t) = Some bs \<Longrightarrow> \<exists>d m. decode_table bs = Inr d \<and> table_stored content cat t d m"

lemma decode_encode_root [simp]: "decode_root (encode_root r) = Inr r"
  by (simp add: decode_root_def encode_root_def)

lemma encoding_eq:
  assumes "length us = length vs" "\<forall>u \<in> set us. keyable u" "\<forall>v \<in> set vs. keyable v"
  shows "concat (map enc_bytes us) = concat (map enc_bytes vs) \<longleftrightarrow> list_all2 value_eq us vs"
proof -
  have "concat (map enc_bytes us) = concat (map enc_bytes vs) \<longleftrightarrow> cmp_slice logical_cmp us vs = Equal"
    using key_enc.enc_concat_cmp [OF assms(2,3)] by (metis cmp_eqs(2))
  then show ?thesis by (simp add: val_cmp.slice_Equal_iff value_eq_def [abs_def])
qed

section \<open>Cells of typed rows\<close>

definition cells_at :: "TableDef \<Rightarrow> bytes list \<Rightarrow> value list \<Rightarrow> value list" where
  "cells_at d names r = map (\<lambda>nm. r ! the (col_index d nm)) names"

text \<open>Columns that may be key components.\<close>

definition key_columns :: "TableDef \<Rightarrow> bytes list \<Rightarrow> bool" where
  "key_columns d names \<longleftrightarrow> (\<forall>nm \<in> set names. column_where d (\<lambda>c. cd_kind c \<noteq> TJson) nm)"

lemma key_columns_table:
  "table_ok d \<Longrightarrow> key_columns d (td_pk d)" "table_ok d \<Longrightarrow> idx \<in> set (td_indexes d) \<Longrightarrow> key_columns d (ix_columns idx)"
  by (fastforce simp: table_ok_def key_columns_def column_where_def index_ok_def)+

lemma key_columns_known: "key_columns d names \<Longrightarrow> \<forall>nm \<in> set names. find_column d nm \<noteq> None"
  by (auto simp: key_columns_def column_where_def)

lemma col_index_less: "row_typed d r \<Longrightarrow> col_index d nm = Some i \<Longrightarrow> i < length r"
  by (simp add: row_typed_def col_index_def position_Some)

lemma cells_keyable:
  assumes "key_columns d names" "row_typed d r" "list_all value_wf r"
  shows "\<forall>v \<in> set (cells_at d names r). keyable v"
proof -
  have "keyable (r ! the (col_index d nm))" if nm: "nm \<in> set names" for nm
  proof -
    obtain c where c: "find_column d nm = Some c" "cd_kind c \<noteq> TJson" using assms(1) nm by (auto simp: key_columns_def column_where_def)
    obtain i where i: "col_index d nm = Some i" "i < length r" "if r ! i = Null then is_nullable d i else kind (r ! i) = Some (cd_kind c)"
      using row_typed_cell [OF assms(2) c(1)] .
    then show ?thesis using c(2) assms(3) by (auto simp: keyable_def list_all_length split: if_splits)
  qed
  then show ?thesis by (simp add: cells_at_def)
qed

lemma cells_positions:
  assumes "key_columns d names" "row_typed d r"
  shows "map (cell_or_null r) (col_positions d names) = cells_at d names r"
    "map (\<lambda>nm. case Option.bind (col_index d nm) (get_at r) of Some v \<Rightarrow> v | None \<Rightarrow> Null) names = cells_at d names r"
    "matches_prefix (col_positions d names) vs r \<longleftrightarrow> list_all2 value_eq (take (length vs) (cells_at d names r)) (take (length names) vs)"
proof -
  have known: "\<exists>i. col_index d nm = Some i \<and> i < length r" if "nm \<in> set names" for nm
    using key_columns_known [OF assms(1)] that col_index_less [OF assms(2)] by (auto simp: find_column_index)
  note pos = col_positions_known [OF key_columns_known [OF assms(1)]]
  show "map (cell_or_null r) (col_positions d names) = cells_at d names r"
    using known by (fastforce simp: pos cells_at_def cell_or_null_def get_at_def)
  show "map (\<lambda>nm. case Option.bind (col_index d nm) (get_at r) of Some v \<Rightarrow> v | None \<Rightarrow> Null) names = cells_at d names r"
    using known by (fastforce simp: cells_at_def get_at_def)
  have "(case get_at r (the (col_index d (names ! i))) of Some got \<Rightarrow> value_eq got v | None \<Rightarrow> False) \<longleftrightarrow> value_eq (cells_at d names r ! i) v"
    if "i < length names" for i v
    using known [OF nth_mem [OF that]] that by (auto simp: cells_at_def get_at_def)
  then show "matches_prefix (col_positions d names) vs r \<longleftrightarrow> list_all2 value_eq (take (length vs) (cells_at d names r)) (take (length names) vs)"
    by (auto simp: matches_prefix_def pos list_all_length list_all2_conv_all_nth) (simp_all add: cells_at_def)
qed

lemma pk_key_cells:
  assumes "table_ok d" "row_typed d r" "list_all value_wf r"
  shows "pk_key_of d r = Inr (concat (map enc_bytes (cells_at d (td_pk d) r)))"
  using cells_positions(1) [OF key_columns_table(1) [OF assms(1)] assms(2)]
    encode_key_concat [OF cells_keyable [OF key_columns_table(1) [OF assms(1)] assms(2,3)]]
  by (simp add: pk_key_of_def col_positions_def)

section \<open>Sorted entries\<close>

lemma sorted_graph:
  fixes m :: "bytes \<rightharpoonup> bytes"
  assumes "sorted_wrt (<) (map fst out)" "set out = {(k, v). m k = Some v \<and> P k}"
  shows "out = map (\<lambda>k. (k, the (m k))) (sorted_list_of_set {k \<in> dom m. P k})"
proof -
  have set: "set (map fst out) = {k \<in> dom m. P k}" using assms(2) by (force simp: dom_def)
  have "sorted (map fst out)" "distinct (map fst out)" using assms(1) by (simp_all add: strict_sorted_iff)
  then have keys: "map fst out = sorted_list_of_set {k \<in> dom m. P k}"
    using sorted_list_of_set.idem_if_sorted_distinct set by metis
  have "map (\<lambda>k. (k, the (m k))) (map fst out) = out" unfolding map_map using assms(2) by (intro map_idI) auto
  then show ?thesis unfolding keys by simp
qed

lemma filter_sorted_list:
  "finite A \<Longrightarrow> filter P (sorted_list_of_set A) = sorted_list_of_set {x \<in> A. P x}"
  by (rule sorted_distinct_set_unique) (auto simp: sorted_wrt_filter)

lemma at_most_one:
  assumes "distinct ks" "\<And>k k'. k \<in> set ks \<Longrightarrow> k' \<in> set ks \<Longrightarrow> P (f k) \<Longrightarrow> P (f k') \<Longrightarrow> k = k'"
  shows "length (filter P (map f ks)) \<le> 1"
proof -
  have "length (filter P (map f ks)) = card {k \<in> set ks. P (f k)}"
    using distinct_card [of "filter (P \<circ> f) ks"] assms(1) by (simp add: filter_map)
  moreover have "\<exists>x. {k \<in> set ks. P (f k)} \<subseteq> {x}" using assms(2) by blast
  ultimately show ?thesis using card_mono [OF finite.insertI [OF finite.emptyI]] by fastforce
qed

section \<open>The snapshot of a consistent catalog\<close>

definition row_at :: "TableDef \<Rightarrow> (bytes \<rightharpoonup> bytes) \<Rightarrow> bytes \<Rightarrow> value list" where
  "row_at d m k = projr (decode_padded d (the (m k)))"

definition table_rows :: "TableDef \<Rightarrow> (bytes \<rightharpoonup> bytes) \<Rightarrow> value list list" where
  "table_rows d m = map (row_at d m) (sorted_list_of_set (dom m))"

text \<open>The definition and rows of a table, read off the trees.\<close>

definition image_tbl :: "(PageId \<rightharpoonup> (bytes \<rightharpoonup> bytes)) \<Rightarrow> (bytes \<rightharpoonup> bytes) \<Rightarrow> bytes \<Rightarrow> (TableDef \<times> value list list) option" where
  "image_tbl content cat t =
     map_option (\<lambda>bs. let d = projr (decode_table bs);
                          m = the (content (projr (decode_root (the (cat (rootk t))))))
                      in (d, table_rows d m)) (cat (tblk t))"

lemma row_at_stored:
  assumes "rows_stored d m" "m k = Some bs"
  shows "decode_padded d bs = Inr (row_at d m k)" "row_typed d (row_at d m k)" "list_all value_wf (row_at d m k)"
    "pk_key_of d (row_at d m k) = Inr k"
proof -
  obtain r where "decode_padded d bs = Inr r" "row_typed d r" "list_all value_wf r" "pk_key_of d r = Inr k"
    using assms unfolding rows_stored_def by blast
  then show "decode_padded d bs = Inr (row_at d m k)" "row_typed d (row_at d m k)" "list_all value_wf (row_at d m k)"
    "pk_key_of d (row_at d m k) = Inr k" using assms(2) by (simp_all add: row_at_def)
qed

context catalog_image
begin

lemma get_cat [simp]: "rd_get rd k = Inr (cat k)"
  using root get_in by (auto simp: rd_get_def)

lemma content_finite: "content r = Some m \<Longrightarrow> finite (dom m)"
proof -
  assume "content r = Some m"
  then obtain out where "set out = {(k, v). m k = Some v \<and> within None None k}" using range_in by blast
  then have "dom m = fst ` set out" by (force simp: dom_def within_def)
  then show "finite (dom m)" by simp
qed

lemma image_tbl_Some:
  assumes "image_tbl content cat t = Some (d, rows)"
  obtains bs m where "cat (tblk t) = Some bs" "decode_table bs = Inr d" "table_stored content cat t d m"
    "rows = table_rows d m" "finite (dom m)"
proof -
  obtain bs where bs: "cat (tblk t) = Some bs" using assms by (auto simp: image_tbl_def)
  then obtain d' m where d: "decode_table bs = Inr d'" "table_stored content cat t d' m"
    using consistent by blast
  then obtain r where r: "cat (rootk t) = Some (encode_root r)" "content r = Some m"
    unfolding table_stored_def linked_def by blast
  then have "d' = d \<and> rows = table_rows d m" using assms bs d(1) by (auto simp: image_tbl_def Let_def)
  then show ?thesis using that bs d content_finite [OF r(2)] by blast
qed

lemma linked_get:
  "linked content cat (rootk t) m \<Longrightarrow> \<exists>r. data_root rd t = Inr r \<and> content r = Some m"
  "linked content cat (irootk t i) m \<Longrightarrow> \<exists>r. index_root rd t i = Inr r \<and> content r = Some m"
  by (auto simp: linked_def data_root_def index_root_def)

lemma cat_table_image: "cat_table rd t = Inr d \<longleftrightarrow> (\<exists>rows. image_tbl content cat t = Some (d, rows))"
proof -
  have "\<exists>d. decode_table bs = Inr d" if "cat (tblk t) = Some bs" for bs
    using consistent [OF that] by blast
  then show ?thesis unfolding cat_table_def image_tbl_def Let_def
    by (fastforce split: option.splits)
qed

lemma cat_scan_image: "image_tbl content cat t = Some (d, rows) \<Longrightarrow> cat_scan rd t = Inr rows"
proof -
  assume t: "image_tbl content cat t = Some (d, rows)"
  then obtain m where m: "table_stored content cat t d m" "rows = table_rows d m" using image_tbl_Some by blast
  then obtain r where r: "data_root rd t = Inr r" "content r = Some m" using linked_get(1) unfolding table_stored_def by blast
  obtain out where out: "rd_range_in rd r None None = Inr out" "sorted_wrt (<) (map fst out)" "set out = {(k, v). m k = Some v \<and> within None None k}"
    using range_in [OF r(2)] by blast
  have "out = map (\<lambda>k. (k, the (m k))) (sorted_list_of_set (dom m))"
    using sorted_graph [OF out(2), of m "\<lambda>_. True"] out(3) by (simp add: within_def)
  moreover have "collect_res (\<lambda>(_, bs). decode_padded d bs) (map (\<lambda>k. (k, the (m k))) ks) = Inr (map (row_at d m) ks)" if "set ks \<subseteq> dom m" for ks
    using that row_at_stored(1) [of d m] m(1) by (induction ks) (auto simp: table_stored_def)
  moreover have "cat_table rd t = Inr d" using t cat_table_image by blast
  ultimately show ?thesis using r(1) out(1) m(2) content_finite [OF r(2)] by (simp add: cat_scan_def rd_scan_in_def table_rows_def)
qed

lemma cat_get_image:
  assumes t: "image_tbl content cat t = Some (d, rows)" and key: "\<forall>v \<in> set key. keyable v"
    and m: "table_stored content cat t d m"
  shows "cat_get rd t key = Inr (map_option (\<lambda>_. row_at d m (concat (map enc_bytes key))) (m (concat (map enc_bytes key))))"
proof -
  obtain r where r: "data_root rd t = Inr r" "content r = Some m" using linked_get(1) m unfolding table_stored_def by blast
  have "cat_table rd t = Inr d" using t cat_table_image by blast
  moreover have "decode_padded d bs = Inr (row_at d m k)" if "m k = Some bs" for k bs
    using row_at_stored(1) m that by (simp add: table_stored_def)
  ultimately show ?thesis
    by (cases "m (concat (map enc_bytes key))") (simp_all add: cat_get_def encode_key_concat [OF key] r(1) get_in [OF r(2)])
qed

lemma served_row:
  assumes t: "image_tbl content cat t = Some (d, rows)" and get: "cat_get rd t key = Inr (Some r)"
  shows "r \<in> set rows"
proof -
  obtain m where m: "table_stored content cat t d m" "rows = table_rows d m" "finite (dom m)" using t image_tbl_Some by blast
  obtain p where p: "data_root rd t = Inr p" "content p = Some m" using linked_get(1) m unfolding table_stored_def by blast
  have "cat_table rd t = Inr d" using t cat_table_image by blast
  then obtain k bs where "m k = Some bs" "decode_padded d bs = Inr r"
    using get p by (auto simp: cat_get_def get_in [OF p(2)] split: option.splits)
  then show ?thesis using m(2,3) by (force simp: table_rows_def row_at_def dom_def)
qed

lemma fetch_rows_image:
  assumes "rows_stored d m" "content p = Some m"
  shows "fetch_rows rd d p ks = Inr (map (row_at d m) (filter (\<lambda>k. k \<in> dom m) ks))"
proof (induction ks)
  case (Cons k ks)
  then show ?case using row_at_stored(1) [OF assms(1)] by (cases "m k") (auto simp: get_in [OF assms(2)])
qed simp

end

section \<open>Keys and probes\<close>

lemma value_eq_all_sym: "list_all2 value_eq us vs \<longleftrightarrow> list_all2 value_eq vs us"
  unfolding list_all2_conv_all_nth using value_eq_sym by metis

lemma pk_cells_match:
  assumes "table_ok d" "row_typed d r" "length key = length (td_pk d)"
  shows "matches_prefix (col_positions d (td_pk d)) key r \<longleftrightarrow> list_all2 value_eq (cells_at d (td_pk d) r) key"
  using cells_positions(3) [OF key_columns_table(1) [OF assms(1)] assms(2), of key] assms(3)
  by (simp add: cells_at_def)

lemma pk_match:
  assumes "table_ok d" "rows_stored d m" "m k = Some bs" "length key = length (td_pk d)" "\<forall>v \<in> set key. keyable v"
  shows "matches_prefix (col_positions d (td_pk d)) key (row_at d m k) \<longleftrightarrow> k = concat (map enc_bytes key)"
proof -
  let ?r = "row_at d m k"
  note r = row_at_stored [OF assms(2,3)]
  have "k = concat (map enc_bytes (cells_at d (td_pk d) ?r))" using pk_key_cells [OF assms(1) r(2,3)] r(4) by simp
  moreover have "concat (map enc_bytes (cells_at d (td_pk d) ?r)) = concat (map enc_bytes key) \<longleftrightarrow> list_all2 value_eq (cells_at d (td_pk d) ?r) key"
    by (rule encoding_eq [OF _ cells_keyable [OF key_columns_table(1) [OF assms(1)] r(2,3)] assms(5)]) (simp add: cells_at_def assms(4))
  ultimately show ?thesis using pk_cells_match [OF assms(1) r(2) assms(4)] by simp
qed

lemma pk_match_unique:
  assumes "table_ok d" "rows_stored d m" "m k = Some bs" "m k' = Some bs'" "length key = length (td_pk d)"
    "matches_prefix (col_positions d (td_pk d)) key (row_at d m k)" "matches_prefix (col_positions d (td_pk d)) key (row_at d m k')"
  shows "k = k'"
proof -
  let ?c = "\<lambda>k. cells_at d (td_pk d) (row_at d m k)"
  note r = row_at_stored [OF assms(2,3)] and r' = row_at_stored [OF assms(2,4)]
  note able = cells_keyable [OF key_columns_table(1) [OF assms(1)]]
  have "list_all2 value_eq (?c k) key" "list_all2 value_eq (?c k') key"
    using assms(6,7) pk_cells_match [OF assms(1) r(2) assms(5)] pk_cells_match [OF assms(1) r'(2) assms(5)] by simp_all
  then have "list_all2 value_eq (?c k) (?c k')"
    unfolding list_all2_conv_all_nth value_eq_def using val_cmp.c_Equal_left val_cmp.c_Equal_sym by metis
  then have "concat (map enc_bytes (?c k)) = concat (map enc_bytes (?c k'))"
    using encoding_eq [OF _ able [OF r(2,3)] able [OF r'(2,3)]] by (simp add: cells_at_def)
  then show ?thesis using pk_key_cells [OF assms(1) r(2,3)] pk_key_cells [OF assms(1) r'(2,3)] r(4) r'(4) by simp
qed

lemma find_key:
  assumes "\<And>k. k \<in> set ks \<Longrightarrow> P (f k) \<longleftrightarrow> k = K"
  shows "find P (map f ks) = (if K \<in> set ks then Some (f K) else None)"
  using assms by (induction ks) auto

lemma probe_keyable:
  assumes "key_columns d names" "probe_typed d names vs"
  shows "\<forall>v \<in> set vs. keyable v"
proof
  fix v assume "v \<in> set vs"
  then obtain i where i: "i < length vs" "v = vs ! i" by (auto simp: in_set_conv_nth)
  then have j: "i < length names" using assms(2) by (simp add: probe_typed_def)
  then have "case find_column d (names ! i) of Some c \<Rightarrow> kind v = Some (cd_kind c) \<and> value_wf v | None \<Rightarrow> False"
    using assms(2) i by (auto simp: probe_typed_def list_all_length)
  then show "keyable v" using assms(1) nth_mem [OF j] by (auto simp: keyable_def key_columns_def column_where_def split: option.splits)
qed

lemma indexesD:
  "indexes unique rows f \<Longrightarrow> f k = Some v \<Longrightarrow>
     \<exists>cols pk. (cols, pk) \<in> rows \<and> entry cols pk unique = Inr (Some \<lparr> entry_key = k, entry_value = v \<rparr>)"
  by (auto simp: indexes_def)

text \<open>The rows of an index in the order of their primary keys.\<close>

lemma index_listing:
  assumes ok: "table_ok d" "idx \<in> set (td_indexes d)" and m: "rows_stored d m" "finite (dom m)" "index_stored d idx m im"
    and pre: "probe_typed d (ix_columns idx) pre" and b: "prefix_bounds pre = Inr (lo, hi)"
    and out: "sorted_wrt (<) (map fst out)" "set out = {(k, v). im k = Some v \<and> within (Some lo) hi k}"
  shows "sort (map snd out) = sorted_list_of_set
    {k \<in> dom m. matches_prefix (col_positions d (ix_columns idx)) pre (row_at d m k) \<and> indexed d idx (row_at d m k)}"
proof -
  let ?rows = "(\<lambda>(k, r). (index_cols d idx r, k)) ` base_rows d m"
  note cols = key_columns_table(2) [OF ok]
  have base: "(k, r) \<in> base_rows d m \<longleftrightarrow> k \<in> dom m \<and> r = row_at d m k" for k r
    using row_at_stored(1) [OF m(1)] by (auto simp: base_rows_def)
  have cells: "index_cols d idx (row_at d m k) = cells_at d (ix_columns idx) (row_at d m k)" if "k \<in> dom m" for k
    using that row_at_stored(2) [OF m(1)] cells_positions(2) [OF cols] by (auto simp: index_cols_def)
  have mem: "(c, k) \<in> ?rows \<longleftrightarrow> k \<in> dom m \<and> c = cells_at d (ix_columns idx) (row_at d m k)" for c k
  proof -
    have "(c, k) \<in> ?rows \<longleftrightarrow> k \<in> dom m \<and> c = index_cols d idx (row_at d m k)" by (auto simp: image_iff base Bex_def)
    then show ?thesis using cells [of k] by metis
  qed
  have able: "indexable (length (ix_columns idx)) ?rows"
  proof -
    have "\<forall>v \<in> set (cells_at d (ix_columns idx) (row_at d m k)). keyable v" if "k \<in> dom m" for k
      using that row_at_stored [OF m(1)] cells_keyable [OF cols] by blast
    then show ?thesis using cells by (auto simp: indexable_def base) (auto simp: cells_at_def)
  qed
  have len: "length pre \<le> length (ix_columns idx)" using pre by (simp add: probe_typed_def)
  have vals: "snd ` set out = matching (ix_unique idx) ?rows pre"
    using covered_entries [OF m(3) [unfolded index_stored_def] able len probe_keyable [OF cols pre] b] unfolding out(2) by force
  have "(\<exists>cols'. (cols', k) \<in> ?rows \<and> list_all2 value_eq pre (take (length pre) cols') \<and> \<not> (ix_unique idx \<and> list_ex (\<lambda>v. v = Null) cols'))
      \<longleftrightarrow> k \<in> dom m \<and> matches_prefix (col_positions d (ix_columns idx)) pre (row_at d m k) \<and> indexed d idx (row_at d m k)" for k
  proof (cases "k \<in> dom m")
    case True
    then have typed: "row_typed d (row_at d m k)" using row_at_stored(2) [OF m(1)] by blast
    have "indexed d idx (row_at d m k) \<longleftrightarrow> \<not> (ix_unique idx \<and> list_ex (\<lambda>v. v = Null) (cells_at d (ix_columns idx) (row_at d m k)))"
      unfolding indexed_def col_positions_known [OF key_columns_known [OF cols]] by (force simp: cells_at_def list_all_iff list_ex_iff)
    moreover have "matches_prefix (col_positions d (ix_columns idx)) pre (row_at d m k) \<longleftrightarrow>
        list_all2 value_eq pre (take (length pre) (cells_at d (ix_columns idx) (row_at d m k)))"
      using cells_positions(3) [OF cols typed, of pre] len value_eq_all_sym by simp
    ultimately show ?thesis using True by (simp add: mem)
  qed (simp add: mem)
  then have set: "set (map snd out) = {k \<in> dom m. matches_prefix (col_positions d (ix_columns idx)) pre (row_at d m k) \<and> indexed d idx (row_at d m k)}"
    using vals by (auto simp: matching_def)
  have "inj_on snd (set out)"
  proof (rule inj_onI)
    fix e e' assume e: "e \<in> set out" "e' \<in> set out" "snd e = snd e'"
    have "\<exists>k. k = snd e \<and> k \<in> dom m \<and> entry (index_cols d idx (row_at d m k)) k (ix_unique idx) = Inr (Some \<lparr> entry_key = fst e, entry_value = snd e \<rparr>)"
      if "e \<in> set out" for e
    proof -
      have "im (fst e) = Some (snd e)" using that out(2) by auto
      then obtain cols' k where k: "(cols', k) \<in> ?rows" "entry cols' k (ix_unique idx) = Inr (Some \<lparr> entry_key = fst e, entry_value = snd e \<rparr>)"
        using indexesD [OF m(3) [unfolded index_stored_def]] by blast
      then have "k \<in> dom m" "cols' = index_cols d idx (row_at d m k)" using mem cells by auto
      then show ?thesis using entry_some [OF k(2)] k(2) by auto
    qed
    from this [OF e(1)] this [OF e(2)] e(3) show "e = e'" by (auto intro: prod_eqI)
  qed
  moreover have "distinct out" using out(1) by (metis distinct_map strict_sorted_iff)
  ultimately have "distinct (map snd out)" by (simp add: distinct_map)
  then show ?thesis unfolding set [symmetric] by (metis distinct_remdups_id sorted_list_of_set_sort_remdups)
qed

section \<open>The laws of the planner\<close>

context catalog_image
begin

lemma image_lookup:
  assumes t: "image_tbl content cat t = Some (d, rows)" and len: "length key = length (td_pk d)" and typed: "probe_typed d (td_pk d) key"
  shows "cat_get rd t key = Inr (find (matches_prefix (col_positions d (td_pk d)) key) rows)"
proof -
  obtain m where m: "table_stored content cat t d m" "rows = table_rows d m" "finite (dom m)" using t image_tbl_Some by blast
  then have ok: "table_ok d" "rows_stored d m" by (simp_all add: table_stored_def)
  have key: "\<forall>v \<in> set key. keyable v" by (rule probe_keyable [OF key_columns_table(1) [OF ok(1)] typed])
  let ?K = "concat (map enc_bytes key)"
  have "find (matches_prefix (col_positions d (td_pk d)) key) rows = (if ?K \<in> dom m then Some (row_at d m ?K) else None)"
  proof -
    have "matches_prefix (col_positions d (td_pk d)) key (row_at d m k) \<longleftrightarrow> k = ?K" if "k \<in> set (sorted_list_of_set (dom m))" for k
      using that m(3) pk_match [OF ok _ len key] by auto
    from find_key [of "sorted_list_of_set (dom m)" "matches_prefix (col_positions d (td_pk d)) key", OF this]
    show ?thesis unfolding m(2) table_rows_def using m(3) by simp
  qed
  then show ?thesis using cat_get_image [OF t key m(1)] by auto
qed

lemma image_key_unique:
  assumes t: "image_tbl content cat t = Some (d, rows)" and len: "length key = length (td_pk d)"
  shows "length (filter (matches_prefix (col_positions d (td_pk d)) key) rows) \<le> 1"
proof -
  obtain m where m: "table_stored content cat t d m" "rows = table_rows d m" "finite (dom m)" using t image_tbl_Some by blast
  then have ok: "table_ok d" "rows_stored d m" by (simp_all add: table_stored_def)
  show ?thesis unfolding m(2) table_rows_def using pk_match_unique [OF ok _ _ len] m(3)
    by (intro at_most_one) auto
qed

lemma image_probe:
  assumes t: "image_tbl content cat t = Some (d, rows)" and idx: "find (\<lambda>i. ix_name i = nm) (td_indexes d) = Some idx"
    and pre: "probe_typed d (ix_columns idx) pre"
  shows "index_candidates rd t nm pre =
    Inr (filter (\<lambda>r. matches_prefix (col_positions d (ix_columns idx)) pre r \<and> indexed d idx r) rows)"
proof -
  obtain m where m: "table_stored content cat t d m" "rows = table_rows d m" "finite (dom m)" using t image_tbl_Some by blast
  then have ok: "table_ok d" "rows_stored d m" by (simp_all add: table_stored_def)
  have i: "idx \<in> set (td_indexes d)" "ix_name idx = nm" using idx by (auto simp: find_Some_iff)
  obtain p where p: "data_root rd t = Inr p" "content p = Some m" using linked_get(1) m(1) unfolding table_stored_def by blast
  obtain q im where q: "index_root rd t nm = Inr q" "content q = Some im" "index_stored d idx m im"
    using linked_get(2) m(1) i unfolding table_stored_def by blast
  obtain lo hi where b: "prefix_bounds pre = Inr (lo, hi)"
    using probe_keyable [OF key_columns_table(2) [OF ok(1) i(1)] pre] by (auto simp: prefix_bounds_def encode_key_concat)
  obtain out where out: "rd_range_in rd q (Some lo) hi = Inr out" "sorted_wrt (<) (map fst out)" "set out = {(k, v). im k = Some v \<and> within (Some lo) hi k}"
    using range_in [OF q(2)] by blast
  let ?P = "\<lambda>k. matches_prefix (col_positions d (ix_columns idx)) pre (row_at d m k) \<and> indexed d idx (row_at d m k)"
  have "sort (map snd out) = filter ?P (sorted_list_of_set (dom m))"
    unfolding filter_sorted_list [OF m(3)] by (rule index_listing [OF ok(1) i(1) ok(2) m(3) q(3) pre b out(2,3)])
  moreover have "filter (\<lambda>k. k \<in> dom m) (filter ?P (sorted_list_of_set (dom m))) = filter ?P (sorted_list_of_set (dom m))"
    unfolding filter_id_conv using m(3) by simp
  moreover have "cat_table rd t = Inr d" using t cat_table_image by blast
  ultimately show ?thesis using p(1) q(1) b out(1)
    by (simp add: index_candidates_def fetch_rows_image [OF ok(2) p(2)] m(2) table_rows_def filter_map comp_def del: filter_filter)
qed

lemma served_index_rows:
  assumes t: "image_tbl content cat t = Some (d, rows)" and c: "index_candidates rd t nm pre = Inr cands"
  shows "set cands \<subseteq> set rows"
proof -
  obtain m where m: "table_stored content cat t d m" "rows = table_rows d m" "finite (dom m)" using t image_tbl_Some by blast
  obtain p where p: "data_root rd t = Inr p" "content p = Some m" using linked_get(1) m(1) unfolding table_stored_def by blast
  have "cat_table rd t = Inr d" using t cat_table_image by blast
  then obtain ks where "fetch_rows rd d p ks = Inr cands" using c p(1) by (auto simp: index_candidates_def)
  then have "cands = map (row_at d m) (filter (\<lambda>k. k \<in> dom m) ks)"
    using fetch_rows_image [OF _ p(2), of d ks] m(1) unfolding table_stored_def by simp
  then show ?thesis using m(2,3) by (auto simp: table_rows_def)
qed

lemma schema_image: "snapshot_schema (cat_ops rd) t = Inr (map_option fst (image_tbl content cat t))"
proof (cases "image_tbl content cat t")
  case None
  then have "cat (tblk t) = None" by (simp add: image_tbl_def)
  then have "cat_table rd t = Inl (UnknownTable t)" by (simp add: cat_table_def)
  then show ?thesis using None by (simp add: snapshot_schema_def cat_ops_def)
next
  case (Some x)
  then show ?thesis using cat_table_image [of t "fst x"] by (cases x) (simp add: snapshot_schema_def cat_ops_def)
qed

end

sublocale catalog_image \<subseteq> served: table_snapshot "cat_ops rd" "snapshot_schema (cat_ops rd)" "image_tbl content cat"
proof unfold_locales
  fix t d rows assume t: "image_tbl content cat t = Some (d, rows)"
  then obtain m where m: "table_stored content cat t d m" "rows = table_rows d m" "finite (dom m)" using image_tbl_Some by blast
  show "table_ok d" using m(1) by (simp add: table_stored_def)
  show "sn_table (cat_ops rd) t = Inr d" using cat_table_image t by (auto simp: cat_ops_def)
  show "r \<in> set rows" if "sn_get (cat_ops rd) t key = Inr (Some r)" for key r
    using served_row [OF t] that by (simp add: cat_ops_def)
  show "set cands \<subseteq> set rows" if "sn_index_candidates (cat_ops rd) t nm pre = Inr cands" for nm pre cands
    using served_index_rows [OF t] that by (simp add: cat_ops_def)
  show "sn_scan (cat_ops rd) t = Inr rows" using cat_scan_image [OF t] by (simp add: cat_ops_def)
  show "row_typed d r" if "r \<in> set rows" for r
    using that row_at_stored(2) m by (auto simp: table_rows_def table_stored_def)
  show "sn_get (cat_ops rd) t key = Inr (find (matches_prefix (col_positions d (td_pk d)) key) rows)"
    if "length key = length (td_pk d)" "probe_typed d (td_pk d) key" for key
    using image_lookup [OF t that] by (simp add: cat_ops_def)
  show "length (filter (matches_prefix (col_positions d (td_pk d)) key) rows) \<le> 1" if "length key = length (td_pk d)" for key
    by (rule image_key_unique [OF t that])
  show "\<exists>cands. sn_index_candidates (cat_ops rd) t nm pre = Inr cands
      \<and> filter (matches_prefix (col_positions d (ix_columns idx)) pre) cands
        = filter (\<lambda>row. matches_prefix (col_positions d (ix_columns idx)) pre row \<and> indexed d idx row) rows"
    if "find (\<lambda>i. ix_name i = nm) (td_indexes d) = Some idx" "pre \<noteq> []" "probe_typed d (ix_columns idx) pre" for nm idx pre
    using image_probe [OF t that(1,3)] by (auto simp: cat_ops_def intro!: filter_cong)
next
  show "snapshot_schema (cat_ops rd) t = Inr (map_option fst (image_tbl content cat t))" for t by (rule schema_image)
  show "\<exists>rows. image_tbl content cat t = Some (d, rows)" if "sn_table (cat_ops rd) t = Inr d" for t d
    using that cat_table_image by (simp add: cat_ops_def)
qed

end
