(* ===== verification/CatSpec.thy ===== *)
theory CatSpec
  imports CatImage
begin

text \<open>Properties of catalog snapshots: catalog keys never collide, the consistency check finds every index that
  differs from its base table, and the planner preserves the results of queries over a consistent
  catalog.\<close>

section \<open>Catalog keys\<close>

lemma escape_append_inj:
  assumes "escape x @ s = escape y @ t"
  shows "x = y \<and> s = t"
proof -
  have "Inr (x, s) = unescape (escape x @ s)" by (rule unescape_escape [symmetric])
  also have "\<dots> = Inr (y, t)" unfolding assms by (rule unescape_escape)
  finally show ?thesis by simp
qed

lemma text_keys_inj:
  "concat (map (\<lambda>x. enc_bytes (Text x)) xs) = concat (map (\<lambda>x. enc_bytes (Text x)) ys) \<Longrightarrow> xs = ys"
proof (induction xs arbitrary: ys)
  case Nil
  then show ?case by (cases ys) (auto simp: enc_bytes_def)
next
  case (Cons x xs)
  then obtain y ys' where ys: "ys = y # ys'" by (cases ys) (auto simp: enc_bytes_def)
  with Cons.prems have "escape x @ concat (map (\<lambda>x. enc_bytes (Text x)) xs) = escape y @ concat (map (\<lambda>x. enc_bytes (Text x)) ys')"
    by (simp add: enc_bytes_def)
  then show ?case using Cons.IH escape_append_inj ys by blast
qed

lemma key_texts:
  "tblk t = concat (map (\<lambda>x. enc_bytes (Text x)) [TBL, t])" "rootk t = concat (map (\<lambda>x. enc_bytes (Text x)) [ROOT, t])"
  "irootk t i = concat (map (\<lambda>x. enc_bytes (Text x)) [IROOT, t, i])"
  unfolding tblk_def rootk_def irootk_def tbl_key_def root_key_def iroot_key_def band_key_def
  by (simp_all add: enc_bytes_def)

lemma bands_distinct [simp]: "TBL \<noteq> ROOT" "ROOT \<noteq> TBL" "TBL \<noteq> SEQ" "SEQ \<noteq> TBL" "ROOT \<noteq> SEQ" "SEQ \<noteq> ROOT"
  by (simp_all add: TBL_def ROOT_def SEQ_def str_bytes_def)

lemma keys_distinct [simp]:
  "tblk t = tblk t' \<longleftrightarrow> t = t'" "rootk t = rootk t' \<longleftrightarrow> t = t'" "irootk t i = irootk t' i' \<longleftrightarrow> t = t' \<and> i = i'"
  "tblk t \<noteq> rootk t'" "rootk t' \<noteq> tblk t" "tblk t \<noteq> irootk t' i" "irootk t' i \<noteq> tblk t" "rootk t \<noteq> irootk t' i" "irootk t' i \<noteq> rootk t"
  unfolding key_texts by (auto dest!: text_keys_inj simp del: list.map concat.simps)

section \<open>The consistency check\<close>

text \<open>One entry of the expected list: the entry of a base row, if the index covers it.\<close>

definition row_entry :: "TableDef \<Rightarrow> IndexDef \<Rightarrow> bytes \<times> bytes \<Rightarrow> (bytes \<times> bytes) option" where
  "row_entry d idx = (\<lambda>(k, bs). map_option (\<lambda>e. (entry_key e, entry_value e))
     (projr (entry (index_cols d idx (projr (decode_padded d bs))) k (ix_unique idx))))"

lemma expected_entries_map:
  assumes "\<And>k bs. (k, bs) \<in> set base \<Longrightarrow> \<exists>r e. decode_padded d bs = Inr r \<and> entry (index_cols d idx r) k (ix_unique idx) = Inr e"
  shows "expected_entries d idx base = Inr (List.map_filter (row_entry d idx) base)"
  using assms
proof (induction base)
  case (Cons x base)
  obtain k bs where x: "x = (k, bs)" by (cases x)
  obtain r e where "decode_padded d bs = Inr r" "entry (index_cols d idx r) k (ix_unique idx) = Inr e"
    using Cons.prems [of k bs] x by auto
  then show ?case using Cons x by (auto simp: List.map_filter_simps row_entry_def split: option.splits)
qed (simp add: List.map_filter_simps)

lemma entry_value_pk: "entry cols pk unique = Inr (Some e) \<Longrightarrow> entry_value e = pk"
  using entry_some by blast

lemma sorted_fst_sorted: "sorted_wrt (<) (map fst xs) \<Longrightarrow> sorted xs \<and> distinct xs" for xs :: "(bytes \<times> bytes) list"
  by (induction xs) (auto simp: less_prod_def less_eq_prod_def)

context tree_reader
begin

lemma scanned_graph:
  assumes "content r = Some m"
  shows "rd_scan_in rd r = Inr (map (\<lambda>k. (k, the (m k))) (sorted_list_of_set (dom m)))" "finite (dom m)"
proof -
  obtain out where out: "rd_range_in rd r None None = Inr out" "sorted_wrt (<) (map fst out)" "set out = {(k, v). m k = Some v \<and> within None None k}"
    using range_in [OF assms] by blast
  show "rd_scan_in rd r = Inr (map (\<lambda>k. (k, the (m k))) (sorted_list_of_set (dom m)))"
    using sorted_graph [OF out(2), of m "\<lambda>_. True"] out(1,3) by (simp add: within_def rd_scan_in_def)
  have "dom m = fst ` set out" using out(3) by (force simp: dom_def within_def)
  then show "finite (dom m)" by simp
qed

lemma index_check:
  assumes ok: "table_ok d" "idx \<in> set (td_indexes d)" "rows_stored d m" "content p = Some m"
    and i: "index_root rd t (ix_name idx) = Inr q" "content q = Some im"
    and base: "rd_scan_in rd p = Inr base"
  shows "validate_index_tree rd d t base idx = (if index_stored d idx m im then Inr () else Inl (IndexOutOfSync t (ix_name idx)))"
proof -
  have base': "base = map (\<lambda>k. (k, the (m k))) (sorted_list_of_set (dom m))" and fin: "finite (dom m)"
    using scanned_graph [OF ok(4)] base by simp_all
  note cols = key_columns_table(2) [OF ok(1,2)]
  have ent: "\<exists>e. entry (index_cols d idx (row_at d m k)) k (ix_unique idx) = Inr e" if k: "k \<in> dom m" for k
  proof -
    obtain bs where "m k = Some bs" using k by blast
    note r = row_at_stored [OF ok(3) this]
    have "\<forall>v \<in> set (index_cols d idx (row_at d m k)). keyable v"
      using cells_keyable [OF cols r(2,3)] cells_positions(2) [OF cols r(2)] by (simp add: index_cols_def)
    then show ?thesis by (simp add: entry_def encode_key_concat)
  qed
  define es where "es = List.map_filter (row_entry d idx) base"
  have es: "expected_entries d idx base = Inr es"
    unfolding es_def using ent row_at_stored(1) [OF ok(3)] fin by (intro expected_entries_map) (fastforce simp: base')
  have row: "row_entry d idx (k, the (m k)) = map_option (\<lambda>e. (entry_key e, entry_value e)) (projr (entry (index_cols d idx (row_at d m k)) k (ix_unique idx)))"
    if "k \<in> dom m" for k by (simp add: row_entry_def row_at_def)
  have entset: "(k', v) \<in> set es \<longleftrightarrow> v \<in> dom m \<and> entry (index_cols d idx (row_at d m v)) v (ix_unique idx) = Inr (Some \<lparr> entry_key = k', entry_value = v \<rparr>)" for k' v
  proof -
    have "(k', v) \<in> set es \<longleftrightarrow> (\<exists>k \<in> dom m. row_entry d idx (k, the (m k)) = Some (k', v))"
      unfolding es_def base' set_map_filter_iff using fin by auto
    also have "\<dots> \<longleftrightarrow> (\<exists>k \<in> dom m. entry (index_cols d idx (row_at d m k)) k (ix_unique idx) = Inr (Some \<lparr> entry_key = k', entry_value = v \<rparr>))"
    proof (intro bex_cong refl)
      fix k assume k: "k \<in> dom m"
      obtain e where e: "entry (index_cols d idx (row_at d m k)) k (ix_unique idx) = Inr e" using ent [OF k] by blast
      show "row_entry d idx (k, the (m k)) = Some (k', v) \<longleftrightarrow>
          entry (index_cols d idx (row_at d m k)) k (ix_unique idx) = Inr (Some \<lparr> entry_key = k', entry_value = v \<rparr>)"
        unfolding row [OF k] e by (cases e) auto
    qed
    finally show ?thesis using entry_value_pk by fastforce
  qed
  have "distinct es"
  proof -
    have "distinct (List.map_filter f xs)" if "distinct xs" "\<And>x y z. f x = Some z \<Longrightarrow> f y = Some z \<Longrightarrow> x \<in> set xs \<Longrightarrow> y \<in> set xs \<Longrightarrow> x = y"
      for f :: "bytes \<times> bytes \<Rightarrow> (bytes \<times> bytes) option" and xs
      using that by (induction xs) (auto simp: List.map_filter_simps set_map_filter_iff split: option.splits, blast+)
    moreover have "x = y" if "row_entry d idx x = Some z" "row_entry d idx y = Some z" "x \<in> set base" "y \<in> set base" for x y z
    proof -
      have "k = snd z" if k: "k \<in> dom m" "row_entry d idx (k, the (m k)) = Some z" for k
      proof -
        obtain e where e: "entry (index_cols d idx (row_at d m k)) k (ix_unique idx) = Inr e" using ent [OF k(1)] by blast
        then obtain e' where "e = Some e'" "snd z = entry_value e'" using k(2) unfolding row [OF k(1)] by (cases e) auto
        then show ?thesis using entry_value_pk [of _ k _ e'] e by auto
      qed
      then show ?thesis using that fin by (auto simp: base')
    qed
    moreover have "distinct base" unfolding base' by (simp add: distinct_map inj_on_def)
    ultimately show ?thesis unfolding es_def by blast
  qed
  let ?actual = "map (\<lambda>k. (k, the (im k))) (sorted_list_of_set (dom im))"
  have actual: "rd_scan_in rd q = Inr ?actual" "finite (dom im)" by (rule scanned_graph [OF i(2)])+
  have "sorted ?actual" "distinct ?actual" using sorted_fst_sorted [of ?actual] by (simp_all add: comp_def)
  moreover have "set ?actual = {(k, v). im k = Some v}" using actual(2) by auto
  moreover have "sort es = ?actual" if "set es = set ?actual"
    using that calculation(1,2) \<open>distinct es\<close> by (intro sorted_distinct_set_unique) simp_all
  moreover have "set es = set ?actual" if "sort es = ?actual" using that set_sort by metis
  ultimately have "sort es = ?actual \<longleftrightarrow> set es = {(k, v). im k = Some v}" by argo
  also have "\<dots> \<longleftrightarrow> index_stored d idx m im"
  proof -
    have "(\<exists>(cols, pk) \<in> (\<lambda>(k, r). (index_cols d idx r, k)) ` base_rows d m. entry cols pk (ix_unique idx) = Inr (Some \<lparr> entry_key = k, entry_value = v \<rparr>))
        \<longleftrightarrow> (k, v) \<in> set es" for k v
      using row_at_stored(1) [OF ok(3)] entry_value_pk unfolding entset base_rows_def by fastforce
    then show ?thesis unfolding index_stored_def indexes_def by auto
  qed
  finally show ?thesis using validate_in [OF i(2)] by (auto simp: validate_index_tree_def i(1) es actual(1) ensure_def)
qed

end

definition base_stored :: "(PageId \<rightharpoonup> (bytes \<rightharpoonup> bytes)) \<Rightarrow> (bytes \<rightharpoonup> bytes) \<Rightarrow> bytes \<Rightarrow> TableDef \<Rightarrow> (bytes \<rightharpoonup> bytes) \<Rightarrow> bool" where
  "base_stored content cat t d m \<longleftrightarrow>
     table_ok d \<and> linked content cat (rootk t) m \<and> rows_stored d m
     \<and> (\<forall>idx \<in> set (td_indexes d). \<exists>im. linked content cat (irootk t (ix_name idx)) im)"

lemma linked_unique: "linked content cat k m \<Longrightarrow> linked content cat k m' \<Longrightarrow> m' = m"
  unfolding linked_def by (metis decode_encode_root option.inject sum.inject(2))

text \<open>C9: On a catalog whose tables decode, whose rows are typed and stored under their own primary keys and whose
  index roots exist, the consistency check succeeds exactly when every index of every table holds the
  entries of the table's rows and nothing else.\<close>

theorem catalog_check_exact:
  assumes "tree_reader rd content" "rd_root rd = Some r" "content r = Some cat" "cat_tables rd = Inr names"
    and base: "\<And>t. t \<in> set names \<Longrightarrow> \<exists>d m. cat_table rd t = Inr d \<and> base_stored content cat t d m"
  shows "cat_validate rd = Inr () \<longleftrightarrow> (\<forall>t \<in> set names. \<exists>d m. cat_table rd t = Inr d \<and> table_stored content cat t d m)"
proof -
  note reader = tree_reader.get_in [OF assms(1)] tree_reader.validate_in [OF assms(1)]
  have cat: "rd_get rd k = Inr (cat k)" for k using assms(2) reader(1) [OF assms(3)] by (simp add: rd_get_def)
  have "validate_table_data rd t = Inr () \<longleftrightarrow> (\<exists>d m. cat_table rd t = Inr d \<and> table_stored content cat t d m)" if "t \<in> set names" for t
  proof -
    obtain d m where d: "cat_table rd t = Inr d" and m: "base_stored content cat t d m" using base [OF \<open>t \<in> set names\<close>] by blast
    then obtain p where p: "data_root rd t = Inr p" "content p = Some m" by (auto simp: base_stored_def linked_def data_root_def cat)
    obtain st where st: "rd_validate_tree rd p = Inr st" using reader(2) [OF p(2)] by blast
    obtain bs where bs: "rd_scan_in rd p = Inr bs" using tree_reader.scanned_graph [OF assms(1) p(2)] by blast
    have "validate_index_tree rd d t bs idx = Inr () \<longleftrightarrow> (\<exists>im. linked content cat (irootk t (ix_name idx)) im \<and> index_stored d idx m im)"
      if idx: "idx \<in> set (td_indexes d)" for idx
    proof -
      obtain q im where q: "cat (irootk t (ix_name idx)) = Some (encode_root q)" "content q = Some im"
        using m idx unfolding base_stored_def linked_def by blast
      then have "index_root rd t (ix_name idx) = Inr q" by (simp add: index_root_def cat)
      from tree_reader.index_check [OF assms(1) _ idx _ p(2) this q(2) bs] m
      have "validate_index_tree rd d t bs idx = Inr () \<longleftrightarrow> index_stored d idx m im" by (simp add: base_stored_def)
      moreover have "linked content cat (irootk t (ix_name idx)) im' \<longleftrightarrow> im' = im" for im'
        using q linked_unique [of content cat "irootk t (ix_name idx)"] unfolding linked_def by blast
      ultimately show ?thesis by simp
    qed
    then have "validate_table_data rd t = Inr () \<longleftrightarrow>
        (\<forall>idx \<in> set (td_indexes d). \<exists>im. linked content cat (irootk t (ix_name idx)) im \<and> index_stored d idx m im)"
      by (simp add: validate_table_data_def d p(1) st bs each_Inr)
    also have "\<dots> \<longleftrightarrow> table_stored content cat t d m" using m by (simp add: base_stored_def table_stored_def)
    also have "\<dots> \<longleftrightarrow> (\<exists>d m. cat_table rd t = Inr d \<and> table_stored content cat t d m)"
    proof -
      have "d' = d \<and> m' = m" if "cat_table rd t = Inr d'" "table_stored content cat t d' m'" for d' m'
        using that d m linked_unique [of content cat "rootk t" m m'] by (simp add: base_stored_def table_stored_def)
      then show ?thesis using d by blast
    qed
    finally show ?thesis .
  qed
  then show ?thesis using reader(2) [OF assms(3)] assms(2,4) by (auto simp: cat_validate_def each_Inr)
qed

section \<open>Stores given by sorted listings\<close>

text \<open>A reference reader: every tree is the list of its entries in key order.\<close>

definition listed :: "(PageId \<times> (bytes \<times> bytes) list) list \<Rightarrow> PageId \<Rightarrow> ((bytes \<times> bytes) list \<Rightarrow> 'a) \<Rightarrow> TxnError + 'a" where
  "listed trees r f = (case map_of trees r of Some kvs \<Rightarrow> Inr (f kvs) | None \<Rightarrow> Inl Closed)"

definition list_reader :: "PageId \<Rightarrow> (PageId \<times> (bytes \<times> bytes) list) list \<Rightarrow> read_ops" where
  "list_reader root trees =
     \<lparr> rd_root = Some root, rd_txn = 0,
       rd_get_in = (\<lambda>r k. listed trees r (\<lambda>kvs. map_of kvs k)),
       rd_range_in = (\<lambda>r lo hi. listed trees r (filter (\<lambda>(k, v). in_bounds lo hi k))),
       rd_count_in = (\<lambda>r. listed trees r length),
       rd_validate_tree = (\<lambda>r. listed trees r (\<lambda>kvs. \<lparr> height = 1, entry_count = length kvs, node_count = 1 \<rparr>)) \<rparr>"

definition list_content :: "(PageId \<times> (bytes \<times> bytes) list) list \<Rightarrow> PageId \<rightharpoonup> (bytes \<rightharpoonup> bytes)" where
  "list_content trees r = (case map_of trees r of
     Some kvs \<Rightarrow> if sorted_wrt (<) (map fst kvs) then Some (map_of kvs) else None | None \<Rightarrow> None)"

interpretation lists: tree_reader "list_reader root trees" "list_content trees" for root trees
proof unfold_locales
  fix r m assume "list_content trees r = Some m"
  then obtain kvs where t: "map_of trees r = Some kvs" "sorted_wrt (<) (map fst kvs)" "m = map_of kvs"
    by (auto simp: list_content_def split: option.splits if_splits)
  then have d: "distinct (map fst kvs)" by (simp add: strict_sorted_iff)
  show "rd_get_in (list_reader root trees) r k = Inr (m k)" for k using t by (simp add: list_reader_def listed_def)
  show "\<exists>out. rd_range_in (list_reader root trees) r lo hi = Inr out
      \<and> sorted_wrt (<) (map fst out) \<and> set out = {(k, v). m k = Some v \<and> within lo hi k}" for lo hi
  proof -
    have "sorted_wrt (<) (map fst (filter P kvs))" for P
      using t(2) by (induction kvs) auto
    moreover have "in_bounds lo hi k = within lo hi k" for k by (auto simp: in_bounds_def within_def split: option.splits)
    ultimately show ?thesis using t d by (auto simp: list_reader_def listed_def)
  qed
  show "rd_count_in (list_reader root trees) r = Inr (card (dom m))"
    using t d distinct_card [OF d] by (simp add: list_reader_def listed_def dom_map_of_conv_image_fst)
  show "\<exists>st. rd_validate_tree (list_reader root trees) r = Inr st" using t by (simp add: list_reader_def listed_def)
qed

text \<open>A table of three rows with a secondary index.\<close>

definition shop_def :: TableDef where
  "shop_def = (table_new (str_bytes ''p'') [column_new (str_bytes ''id'') TI64, column_new (str_bytes ''grp'') TI64] [str_bytes ''id''])
     \<lparr> td_indexes := [\<lparr> ix_name = str_bytes ''by_grp'', ix_columns = [str_bytes ''grp''], ix_unique = False \<rparr>] \<rparr>"

definition shop_bytes :: bytes where
  "shop_bytes = [1, 1, 0, 0x70, 2, 0, 2, 0, 0x69, 0x64, 2, 1, 0, 3, 0, 0x67, 0x72, 0x70, 2, 1, 0, 1, 0, 2, 0, 0x69, 0x64, 0, 0,
     1, 0, 6, 0, 0x62, 0x79, 0x5F, 0x67, 0x72, 0x70, 0, 1, 0, 3, 0, 0x67, 0x72, 0x70, 0, 0]"

definition i64_key :: "u8 \<Rightarrow> bytes" where "i64_key b = [3, 0x80, 0, 0, 0, 0, 0, 0, b]"

definition shop_row :: "u8 \<Rightarrow> u8 \<Rightarrow> bytes \<times> bytes" where
  "shop_row i g = (i64_key i, [2, 0, 2, i, 0, 0, 0, 0, 0, 0, 0, 2, g, 0, 0, 0, 0, 0, 0, 0])"

definition shop_rows :: "(bytes \<times> bytes) list" where
  "shop_rows = [shop_row 1 7, shop_row 2 9, shop_row 3 7]"

definition shop_index :: "(bytes \<times> bytes) list" where
  "shop_index = [(i64_key 7 @ i64_key 1, i64_key 1), (i64_key 7 @ i64_key 3, i64_key 3), (i64_key 9 @ i64_key 2, i64_key 2)]"

definition shop_trees :: "(PageId \<times> (bytes \<times> bytes) list) list" where
  "shop_trees =
     [(1, [(projr (iroot_key (str_bytes ''p'') (str_bytes ''by_grp'')), encode_root 3),
           (projr (root_key (str_bytes ''p'')), encode_root 2),
           (projr (tbl_key (str_bytes ''p'')), shop_bytes)]),
      (2, shop_rows), (3, shop_index)]"

definition shop_reader :: read_ops where "shop_reader = list_reader 1 shop_trees"

definition shop_cat :: "bytes \<rightharpoonup> bytes" where "shop_cat = map_of (snd (hd shop_trees))"

lemma rows_stored_list:
  assumes "list_all (\<lambda>(k, bs). case decode_padded d bs of
      Inr r \<Rightarrow> row_typed d r \<and> list_all value_wf r \<and> pk_key_of d r = Inr k | Inl _ \<Rightarrow> False) kvs"
  shows "rows_stored d (map_of kvs)"
  unfolding rows_stored_def
proof (intro allI impI)
  fix k bs assume "map_of kvs k = Some bs"
  with assms have "case decode_padded d bs of Inr r \<Rightarrow> row_typed d r \<and> list_all value_wf r \<and> pk_key_of d r = Inr k | Inl _ \<Rightarrow> False"
    by (auto simp: list_all_iff dest: map_of_SomeD)
  then show "\<exists>r. decode_padded d bs = Inr r \<and> row_typed d r \<and> list_all value_wf r \<and> pk_key_of d r = Inr k"
    by (cases "decode_padded d bs") auto
qed

lemma shop_sorted: "list_all (\<lambda>(r, kvs). sorted_wrt (<) (map fst kvs)) shop_trees"
  by code_simp

lemma shop_content: "list_content shop_trees 1 = Some shop_cat" "list_content shop_trees 2 = Some (map_of shop_rows)"
  "list_content shop_trees 3 = Some (map_of shop_index)"
  using shop_sorted unfolding list_content_def shop_trees_def shop_cat_def by simp_all

lemma shop_links:
  "shop_cat (tblk t) = Some bs \<longleftrightarrow> t = str_bytes ''p'' \<and> bs = shop_bytes"
  "shop_cat (rootk t) = Some bs \<longleftrightarrow> t = str_bytes ''p'' \<and> bs = encode_root 2"
  "shop_cat (irootk t i) = Some bs \<longleftrightarrow> t = str_bytes ''p'' \<and> i = str_bytes ''by_grp'' \<and> bs = encode_root 3"
  by (auto simp: shop_cat_def shop_trees_def)


lemma shop_base: "base_stored (list_content shop_trees) shop_cat (str_bytes ''p'') shop_def (map_of shop_rows)"
proof -
  have "validate_table shop_def = Inr ()" by code_simp
  then have "table_ok shop_def" by (simp add: validate_table_iff)
  moreover have "rows_stored shop_def (map_of shop_rows)" by (rule rows_stored_list) code_simp
  moreover have "linked (list_content shop_trees) shop_cat (rootk (str_bytes ''p'')) (map_of shop_rows)"
    "linked (list_content shop_trees) shop_cat (irootk (str_bytes ''p'') (str_bytes ''by_grp'')) (map_of shop_index)"
    using shop_content shop_links(2,3) by (auto simp: linked_def)
  moreover have "map ix_name (td_indexes shop_def) = [str_bytes ''by_grp'']" by (simp add: shop_def_def table_new_def)
  ultimately show ?thesis by (auto simp: base_stored_def)
qed

lemma shop_tables: "cat_tables shop_reader = Inr [str_bytes ''p'']" "cat_validate shop_reader = Inr ()"
  "cat_table shop_reader (str_bytes ''p'') = Inr shop_def"
  by code_simp+

theorem catalog_check_exact_witness:
  "\<exists>m. table_stored (list_content shop_trees) shop_cat (str_bytes ''p'') shop_def m"
proof -
  have r: "tree_reader shop_reader (list_content shop_trees)" unfolding shop_reader_def by (rule lists.tree_reader_axioms)
  have root: "rd_root shop_reader = Some 1" by (simp add: shop_reader_def list_reader_def)
  have "\<exists>d m. cat_table shop_reader t = Inr d \<and> base_stored (list_content shop_trees) shop_cat t d m"
    if "t \<in> set [str_bytes ''p'']" for t using that shop_tables(3) shop_base by auto
  from catalog_check_exact [OF r root shop_content(1) shop_tables(1) this] shop_tables(2,3) show ?thesis by auto
qed

section \<open>Planning over a consistent catalog\<close>

text \<open>The consistent catalogs, as a type: what the laws of the planner are interpreted on.\<close>

typedef catalog_view = "{(rd, content, cat). catalog_image rd content cat}"
proof -
  have "catalog_image (list_reader 0 [(0, [])]) (list_content [(0, [])]) Map.empty"
    by (intro catalog_image.intro lists.tree_reader_axioms catalog_image_axioms.intro)
      (simp_all add: list_reader_def list_content_def)
  then show ?thesis by blast
qed






end
