(* ===== verification/CatJob.thy ===== *)
theory CatJob
  imports CatSnap
begin

text \<open>The catalog's write transactions (\<open>catalog/src/job.rs\<close>, with the policies of \<open>catalog/src/policy.rs\<close>): definition changes
  and row changes as one job on a write context. Every job first validates, reading only, and then
  applies. The context is known by its operations, gathered in the record \<open>ctx_ops\<close>, as the code is
  generic in the block store; a read is a function of the context, since it changes nothing but the
  page cache. The error \<open>None\<close> is an exhausted budget: of a tree operation, or of the loop that plans a
  referential closure.\<close>

section \<open>Write contexts\<close>

record 's ctx_ops =
  cx_root :: "'s \<Rightarrow> PageId"
  cx_lookup :: "'s \<Rightarrow> PageId \<Rightarrow> bytes \<Rightarrow> TxnError option + bytes option"
  cx_scan :: "'s \<Rightarrow> PageId \<Rightarrow> bytes option \<Rightarrow> bytes option \<Rightarrow> TxnError option + (bytes \<times> bytes) list"
  cx_set_root :: "PageId \<Rightarrow> 's \<Rightarrow> 's"
  cx_insert :: "PageId \<Rightarrow> bytes \<Rightarrow> bytes \<Rightarrow> ('s, TxnError option, PageId) st"
  cx_delete :: "PageId \<Rightarrow> bytes \<Rightarrow> ('s, TxnError option, PageId) st"
  cx_create_tree :: "('s, TxnError option, PageId) st"
  cx_free_tree :: "PageId \<Rightarrow> ('s, TxnError option, unit) st"

type_synonym 'a rm = "TxnError option + 'a"
type_synonym ('s, 'a) xm = "('s, TxnError option, 'a) st"

text \<open>\<open>.map_err(rej)?\<close>, \<open>.map_err(TxnError::BTree)?\<close> and \<open>Err(rej(..))\<close>.\<close>

definition rejecting :: "CatalogError + 'a \<Rightarrow> 'a rm" where
  "rejecting r = map_err (\<lambda>e. Some (rej e)) r"

definition sized :: "bytes \<Rightarrow> bytes \<Rightarrow> unit rm" where
  "sized key v = map_err (\<lambda>e. Some (TxnBTree e)) (check_entry key v)"

definition reject :: "CatalogError \<Rightarrow> 'a rm" where
  "reject e = Inl (Some (rej e))"

definition entry_of :: "TableDef \<Rightarrow> IndexDef \<Rightarrow> value list \<Rightarrow> bytes \<Rightarrow> IndexEntry option rm" where
  "entry_of d idx r pk_key = map_err Some (entry_for d idx r pk_key)"

text \<open>\<open>for x in xs\<close> with early exit, over the loop's variables.\<close>

primrec fold_res :: "('a \<Rightarrow> 'v \<Rightarrow> 'e + 'v) \<Rightarrow> 'a list \<Rightarrow> 'v \<Rightarrow> 'e + 'v" where
  "fold_res f [] v = Inr v"
| "fold_res f (x # xs) v = and_then (f x v) (fold_res f xs)"

section \<open>Catalog-tree access\<close>

definition cx_entry :: "'s ctx_ops \<Rightarrow> 's \<Rightarrow> CatalogError + bytes \<Rightarrow> bytes option rm" where
  "cx_entry cx s key = and_then (rejecting key) (cx_lookup cx s (cx_root cx s))"

definition load_table_opt :: "'s ctx_ops \<Rightarrow> 's \<Rightarrow> bytes \<Rightarrow> TableDef option rm" where
  "load_table_opt cx s table =
     and_then (cx_entry cx s (tbl_key table)) (\<lambda>hit.
       case hit of Some bs \<Rightarrow> and_then (rejecting (decode_table bs)) (\<lambda>d. Inr (Some d)) | None \<Rightarrow> Inr None)"

definition load_table :: "'s ctx_ops \<Rightarrow> 's \<Rightarrow> bytes \<Rightarrow> TableDef rm" where
  "load_table cx s table =
     and_then (cx_entry cx s (tbl_key table)) (\<lambda>hit.
       case hit of Some bs \<Rightarrow> rejecting (decode_table bs) | None \<Rightarrow> reject (UnknownTable table))"

definition all_tables :: "'s ctx_ops \<Rightarrow> 's \<Rightarrow> TableDef list rm" where
  "all_tables cx s =
     and_then (rejecting tbl_band) (\<lambda>(lo, hi).
     and_then (cx_scan cx s (cx_root cx s) (Some lo) (Some hi)) (\<lambda>entries.
       collect_res (\<lambda>(_, bs). rejecting (decode_table bs)) entries))"

definition load_root :: "'s ctx_ops \<Rightarrow> 's \<Rightarrow> bytes \<Rightarrow> PageId rm" where
  "load_root cx s table =
     and_then (cx_entry cx s (root_key table)) (\<lambda>hit.
       case hit of Some bs \<Rightarrow> rejecting (decode_root bs) | None \<Rightarrow> reject (CatCorrupt MissingEntry))"

definition load_seq :: "'s ctx_ops \<Rightarrow> 's \<Rightarrow> bytes \<Rightarrow> i64 rm" where
  "load_seq cx s table =
     and_then (cx_entry cx s (seq_key table)) (\<lambda>hit.
       case hit of Some bs \<Rightarrow> rejecting (decode_seq bs) | None \<Rightarrow> Inr 1)"

definition load_iroot :: "'s ctx_ops \<Rightarrow> 's \<Rightarrow> bytes \<Rightarrow> bytes \<Rightarrow> PageId rm" where
  "load_iroot cx s table index =
     and_then (cx_entry cx s (iroot_key table index)) (\<lambda>hit.
       case hit of Some bs \<Rightarrow> rejecting (decode_root bs) | None \<Rightarrow> reject (CatCorrupt MissingEntry))"

definition load_index_roots :: "'s ctx_ops \<Rightarrow> 's \<Rightarrow> TableDef \<Rightarrow> PageId list rm" where
  "load_index_roots cx s d =
     collect_res (\<lambda>idx.
       and_then (cx_entry cx s (iroot_key (td_name d) (ix_name idx))) (\<lambda>hit.
         case hit of Some bs \<Rightarrow> rejecting (decode_root bs) | None \<Rightarrow> reject (CatCorrupt MissingEntry))) (td_indexes d)"

definition store_entry :: "'s ctx_ops \<Rightarrow> bytes \<Rightarrow> bytes \<Rightarrow> ('s, unit) xm" where
  "store_entry cx key v =
     st_bind (st_get (cx_root cx)) (\<lambda>root.
     st_bind (cx_insert cx root key v) (\<lambda>cat. st_modify (cx_set_root cx cat)))"

definition store_root :: "'s ctx_ops \<Rightarrow> CatalogError + bytes \<Rightarrow> PageId \<Rightarrow> ('s, unit) xm" where
  "store_root cx key root = st_bind (st_lift (rejecting key)) (\<lambda>key. store_entry cx key (encode_root root))"

definition store_iroot :: "'s ctx_ops \<Rightarrow> bytes \<Rightarrow> bytes \<Rightarrow> PageId \<Rightarrow> ('s, unit) xm" where
  "store_iroot cx table index root = store_root cx (iroot_key table index) root"

text \<open>\<open>ctx.set_root(ctx.delete(ctx.root(), &key)?)\<close>\<close>

definition remove_key :: "'s ctx_ops \<Rightarrow> bytes \<Rightarrow> ('s, unit) xm" where
  "remove_key cx key =
     st_bind (st_get (cx_root cx)) (\<lambda>root.
     st_bind (cx_delete cx root key) (\<lambda>cat. st_modify (cx_set_root cx cat)))"

section \<open>Index helpers\<close>

text \<open>\<open>index::insert_entry\<close> and \<open>index::remove_entry\<close> with their errors unwrapped by \<open>idx_err\<close>.\<close>

definition cx_insert_entry :: "'s ctx_ops \<Rightarrow> PageId \<Rightarrow> IndexEntry \<Rightarrow> ('s, PageId) xm" where
  "cx_insert_entry cx root e =
     st_map_err (map_option idx_err) (st_map_err (map_option IndexTxn) (cx_insert cx root (entry_key e) (entry_value e)))"

definition cx_remove_entry :: "'s ctx_ops \<Rightarrow> PageId \<Rightarrow> IndexEntry \<Rightarrow> ('s, PageId) xm" where
  "cx_remove_entry cx root e =
     st_map_err (map_option idx_err) (st_map_err (map_option IndexTxn) (cx_delete cx root (entry_key e)))"

definition cx_probe_unique :: "'s ctx_ops \<Rightarrow> 's \<Rightarrow> PageId \<Rightarrow> value list \<Rightarrow> bytes option rm" where
  "cx_probe_unique cx s root cols =
     map_err (map_option idx_err)
       (and_then (map_err (\<lambda>e. Some (IndexType e)) (encode_key cols)) (\<lambda>key.
          map_err (map_option IndexTxn) (cx_lookup cx s root key)))"

definition backfill_row :: "TableDef \<Rightarrow> IndexDef \<Rightarrow> bytes \<times> bytes \<Rightarrow> IndexEntry list \<times> bytes list \<Rightarrow>
    (IndexEntry list \<times> bytes list) rm" where
  "backfill_row d idx = (\<lambda>(pk_key, bs) (entries, seen).
     and_then (rejecting (decode_padded d bs)) (\<lambda>r.
     and_then (entry_of d idx r pk_key) (\<lambda>e.
       case e of
         None \<Rightarrow> Inr (entries, seen)
       | Some e \<Rightarrow>
           if ix_unique idx \<and> entry_key e \<in> set seen then reject (unique_violation (td_name d) (ix_name idx))
           else and_then (sized (entry_key e) (entry_value e)) (\<lambda>_. Inr (entries @ [e], entry_key e # seen)))))"

definition compute_backfill :: "'s ctx_ops \<Rightarrow> 's \<Rightarrow> TableDef \<Rightarrow> PageId \<Rightarrow> IndexDef \<Rightarrow> IndexEntry list rm" where
  "compute_backfill cx s d data idx =
     and_then (cx_scan cx s data None None) (\<lambda>base.
     and_then (fold_res (backfill_row d idx) base ([], [])) (\<lambda>(entries, _). Inr entries))"

fun insert_entries :: "'s ctx_ops \<Rightarrow> IndexEntry list \<Rightarrow> PageId \<Rightarrow> ('s, PageId) xm" where
  "insert_entries cx [] root = st_return root"
| "insert_entries cx (e # es) root = st_bind (cx_insert_entry cx root e) (insert_entries cx es)"

definition apply_backfill :: "'s ctx_ops \<Rightarrow> bytes \<Rightarrow> IndexDef \<times> IndexEntry list \<Rightarrow> ('s, unit) xm" where
  "apply_backfill cx table = (\<lambda>(idx, entries).
     st_bind (cx_create_tree cx) (\<lambda>root0.
     st_bind (insert_entries cx entries root0) (\<lambda>root. store_iroot cx table (ix_name idx) root)))"

section \<open>Definition changes\<close>

definition same_kinds :: "TableDef \<Rightarrow> TableDef \<Rightarrow> bytes \<times> bytes \<Rightarrow> bool" where
  "same_kinds d parent = (\<lambda>(child, parent_col).
     (case (Option.bind (col_index d child) (get_at (td_columns d)), Option.bind (col_index parent parent_col) (get_at (td_columns parent))) of
        (Some a, Some b) \<Rightarrow> cd_kind a = cd_kind b
      | _ \<Rightarrow> False))"

definition validate_fk_target :: "'s ctx_ops \<Rightarrow> 's \<Rightarrow> TableDef \<Rightarrow> ForeignKey \<Rightarrow> unit rm" where
  "validate_fk_target cx s d fk =
     (if fk_on_update fk = Cascade \<and> list_ex (\<lambda>c. c \<in> set (td_pk d)) (fk_columns fk)
      then reject (InvalidSchema ''foreign key {:?}: on_update CASCADE cannot move a primary-key column'')
      else and_then
        (if fk_parent fk = td_name d then Inr d
         else and_then (load_table_opt cx s (fk_parent fk)) (\<lambda>hit.
           case hit of Some p \<Rightarrow> Inr p | None \<Rightarrow> reject (InvalidSchema ''foreign key {:?} references unknown table {:?}''))) (\<lambda>parent.
      if td_pk parent \<noteq> fk_parent_columns fk \<and> \<not> list_ex (\<lambda>idx. ix_unique idx \<and> ix_columns idx = fk_parent_columns fk) (td_indexes parent)
      then reject (InvalidSchema ''foreign key {:?} must reference the parent's primary key or a unique index'')
      else each (\<lambda>c. ensure (same_kinds d parent c)
             (Some (rej (InvalidSchema ''foreign key {:?} column types do not match the referenced columns''))))
             (zip (fk_columns fk) (fk_parent_columns fk))))"

definition validate_fks :: "'s ctx_ops \<Rightarrow> 's \<Rightarrow> TableDef \<Rightarrow> unit rm" where
  "validate_fks cx s d = each (validate_fk_target cx s d) (td_foreign_keys d)"

datatype JobOut =
  OutUnit
| OutRows "value list list"
| OutRow "value list"
| OutDeleted bool
| OutAffected nat
| OutBatch "nat list"

text \<open>A read-only step of a job.\<close>

definition st_read :: "('s \<Rightarrow> 'a rm) \<Rightarrow> ('s, 'a) xm" where
  "st_read f = (\<lambda>s. (f s, s))"

definition check_new_table :: "'s ctx_ops \<Rightarrow> 's \<Rightarrow> TableDef \<Rightarrow> (bytes \<times> bytes) rm" where
  "check_new_table cx s d =
     and_then (rejecting (validate_table d)) (\<lambda>_.
     and_then (validate_fks cx s d) (\<lambda>_.
     and_then (rejecting (tbl_key (td_name d))) (\<lambda>key.
     and_then (cx_lookup cx s (cx_root cx s) key) (\<lambda>hit.
     and_then (if hit \<noteq> None then reject (TableExists (td_name d)) else Inr ()) (\<lambda>_.
     and_then (rejecting (encode_table d)) (\<lambda>bs.
     and_then (sized key bs) (\<lambda>_. Inr (key, bs))))))))"

definition create_table :: "'s ctx_ops \<Rightarrow> TableDef \<Rightarrow> ('s, JobOut) xm" where
  "create_table cx d0 =
     (let d = materialize_implicit_indexes d0 in
      st_bind (st_read (\<lambda>s. check_new_table cx s d)) (\<lambda>(key, bs).
      st_bind (cx_create_tree cx) (\<lambda>data.
      st_bind (store_entry cx key bs) (\<lambda>_.
      st_bind (store_root cx (root_key (td_name d)) data) (\<lambda>_.
      st_bind (if list_ex cd_auto_increment (td_columns d)
               then st_bind (st_lift (rejecting (seq_key (td_name d)))) (\<lambda>key. store_entry cx key (encode_seq 1))
               else st_return ()) (\<lambda>_.
      st_bind (st_each (\<lambda>idx. st_bind (cx_create_tree cx) (\<lambda>iroot. store_iroot cx (td_name d) (ix_name idx) iroot)) (td_indexes d)) (\<lambda>_.
      st_return OutUnit)))))))"

definition unreferenced :: "bytes \<Rightarrow> TableDef \<Rightarrow> unit rm" where
  "unreferenced table other =
     (if td_name other = table then Inr ()
      else (case List.find (\<lambda>fk. fk_parent fk = table) (td_foreign_keys other) of
         Some fk \<Rightarrow> reject (TableReferenced table (td_name other) (fk_name fk))
       | None \<Rightarrow> Inr ()))"

definition drop_table :: "'s ctx_ops \<Rightarrow> bytes \<Rightarrow> ('s, JobOut) xm" where
  "drop_table cx table =
     st_bind (st_read (\<lambda>s. load_table cx s table)) (\<lambda>_.
     st_bind (st_read (\<lambda>s. and_then (all_tables cx s) (each (unreferenced table)))) (\<lambda>_.
     st_bind (st_read (\<lambda>s. load_root cx s table)) (\<lambda>data.
     st_bind (cx_free_tree cx data) (\<lambda>_.
     st_bind (st_lift (rejecting (iroot_band table))) (\<lambda>(lo, hi).
     st_bind (st_read (\<lambda>s. cx_scan cx s (cx_root cx s) (Some lo) (Some hi))) (\<lambda>entries.
     st_bind (st_each (\<lambda>(key, bs). st_bind (st_lift (rejecting (decode_root bs))) (\<lambda>iroot.
                st_bind (cx_free_tree cx iroot) (\<lambda>_. remove_key cx key))) entries) (\<lambda>_.
     st_bind (st_lift (collect_res rejecting [tbl_key table, root_key table, seq_key table])) (\<lambda>keys.
     st_bind (st_each (remove_key cx) keys) (\<lambda>_.
     st_return OutUnit)))))))))"

definition check_new_column :: "'s ctx_ops \<Rightarrow> 's \<Rightarrow> bytes \<Rightarrow> ColumnDef \<Rightarrow> (bytes \<times> bytes \<times> (IndexDef \<times> IndexEntry list) list) rm" where
  "check_new_column cx s table column =
     and_then (load_table cx s table) (\<lambda>d0.
     and_then (if col_index d0 (cd_name column) \<noteq> None
               then reject (InvalidSchema ''a column with that name already exists'') else Inr ()) (\<lambda>_.
     and_then (if cd_nullable column \<or> (case cd_default column of Some (DefaultValue _) \<Rightarrow> True | _ \<Rightarrow> False) then Inr ()
               else reject (InvalidSchema ''an added column must be nullable or carry a constant default'')) (\<lambda>_.
     let known = length (td_indexes d0);
         d = materialize_implicit_indexes (d0\<lparr> td_columns := td_columns d0 @ [column] \<rparr>) in
     and_then (rejecting (validate_table d)) (\<lambda>_.
     and_then (rejecting (encode_table d)) (\<lambda>bs.
     and_then (rejecting (tbl_key table)) (\<lambda>key.
     and_then (sized key bs) (\<lambda>_.
     and_then (load_root cx s table) (\<lambda>data.
     and_then (collect_res (\<lambda>idx. and_then (compute_backfill cx s d data idx) (\<lambda>es. Inr (idx, es))) (drop known (td_indexes d))) (\<lambda>backfills.
       Inr (key, bs, backfills))))))))))"

definition add_column :: "'s ctx_ops \<Rightarrow> bytes \<Rightarrow> ColumnDef \<Rightarrow> ('s, JobOut) xm" where
  "add_column cx table column =
     st_bind (st_read (\<lambda>s. check_new_column cx s table column)) (\<lambda>(key, bs, backfills).
     st_bind (store_entry cx key bs) (\<lambda>_.
     st_bind (st_each (apply_backfill cx table) backfills) (\<lambda>_. st_return OutUnit)))"

definition check_new_index :: "'s ctx_ops \<Rightarrow> 's \<Rightarrow> bytes \<Rightarrow> IndexDef \<Rightarrow> (bytes \<times> bytes \<times> IndexEntry list) rm" where
  "check_new_index cx s table index =
     and_then (load_table cx s table) (\<lambda>d0.
     and_then (if index_pos d0 (ix_name index) \<noteq> None then reject (IndexExists table (ix_name index)) else Inr ()) (\<lambda>_.
     let d = d0\<lparr> td_indexes := td_indexes d0 @ [index] \<rparr> in
     and_then (rejecting (validate_table d)) (\<lambda>_.
     and_then (rejecting (encode_table d)) (\<lambda>bs.
     and_then (rejecting (tbl_key table)) (\<lambda>key.
     and_then (sized key bs) (\<lambda>_.
     and_then (load_root cx s table) (\<lambda>data.
     and_then (compute_backfill cx s d data index) (\<lambda>entries. Inr (key, bs, entries)))))))))"

definition create_index :: "'s ctx_ops \<Rightarrow> bytes \<Rightarrow> IndexDef \<Rightarrow> ('s, JobOut) xm" where
  "create_index cx table index =
     st_bind (st_read (\<lambda>s. check_new_index cx s table index)) (\<lambda>(key, bs, entries).
     st_bind (store_entry cx key bs) (\<lambda>_.
     st_bind (apply_backfill cx table (index, entries)) (\<lambda>_. st_return OutUnit)))"

definition check_drop_index :: "'s ctx_ops \<Rightarrow> 's \<Rightarrow> bytes \<Rightarrow> bytes \<Rightarrow> (bytes \<times> PageId \<times> bytes \<times> bytes) rm" where
  "check_drop_index cx s table index =
     and_then (load_table cx s table) (\<lambda>d0.
       case index_pos d0 index of
         None \<Rightarrow> reject (UnknownIndex table index)
       | Some pos \<Rightarrow>
           and_then (if (case get_at (td_indexes d0) pos of Some idx \<Rightarrow> backs_unique_column d0 idx | None \<Rightarrow> False)
                     then reject (InvalidSchema ''this index enforces a unique column and cannot be dropped'') else Inr ()) (\<lambda>_.
           let d = d0\<lparr> td_indexes := take pos (td_indexes d0) @ drop (Suc pos) (td_indexes d0) \<rparr> in
           and_then (rejecting (iroot_key table index)) (\<lambda>ikey.
           and_then (cx_lookup cx s (cx_root cx s) ikey) (\<lambda>hit.
           and_then (case hit of Some bs \<Rightarrow> rejecting (decode_root bs) | None \<Rightarrow> reject (CatCorrupt MissingEntry)) (\<lambda>iroot.
           and_then (rejecting (encode_table d)) (\<lambda>bs.
           and_then (rejecting (tbl_key table)) (\<lambda>key. Inr (ikey, iroot, key, bs))))))))"

definition drop_index :: "'s ctx_ops \<Rightarrow> bytes \<Rightarrow> bytes \<Rightarrow> ('s, JobOut) xm" where
  "drop_index cx table index =
     st_bind (st_read (\<lambda>s. check_drop_index cx s table index)) (\<lambda>(ikey, iroot, key, bs).
     st_bind (cx_free_tree cx iroot) (\<lambda>_.
     st_bind (remove_key cx ikey) (\<lambda>_.
     st_bind (store_entry cx key bs) (\<lambda>_. st_return OutUnit))))"

end
