(* ===== verification/CatRows.thy ===== *)
theory CatRows
  imports CatJob
begin

text \<open>The row changes of the catalog (\<open>catalog/src/job.rs\<close>): inserts, updates and deletes with their constraints, index
  maintenance, and the referential closure of a change, planned, validated and applied.\<close>

section \<open>Foreign keys\<close>

text \<open>\<open>Vec<Value>\<close> and \<open>Option<Vec<Value>>\<close> compare by \<open>PartialEq\<close> of values.\<close>

definition vals_eq :: "value list \<Rightarrow> value list \<Rightarrow> bool" where
  "vals_eq us vs = list_all2 value_eq us vs"

fun opt_vals_eq :: "value list option \<Rightarrow> value list option \<Rightarrow> bool" where
  "opt_vals_eq (Some us) (Some vs) = vals_eq us vs"
| "opt_vals_eq None None = True"
| "opt_vals_eq _ _ = False"

text \<open>The cells of some columns in order, or \<open>None\<close> if one is \<open>NULL\<close>.\<close>

fun named_cells :: "TableDef \<Rightarrow> bytes list \<Rightarrow> value list \<Rightarrow> value list \<Rightarrow> value list option" where
  "named_cells d [] r vals = Some vals"
| "named_cells d (nm # nms) r vals =
     (let v = (case Option.bind (col_index d nm) (get_at r) of Some v \<Rightarrow> v | None \<Rightarrow> Null)
      in if v = Null then None else named_cells d nms r (vals @ [v]))"

definition fk_values :: "TableDef \<Rightarrow> ForeignKey \<Rightarrow> value list \<Rightarrow> value list option" where
  "fk_values child fk r = named_cells child (fk_columns fk) r []"

definition parent_key_of :: "TableDef \<Rightarrow> ForeignKey \<Rightarrow> value list \<Rightarrow> value list option" where
  "parent_key_of parent fk r = named_cells parent (fk_parent_columns fk) r []"

definition encoded :: "value list \<Rightarrow> bytes rm" where
  "encoded vals = rejecting (map_err CatType (encode_key vals))"

definition encoded_row :: "value list \<Rightarrow> bytes rm" where
  "encoded_row r = rejecting (map_err CatType (encode_row r))"

definition parent_key_exists :: "'s ctx_ops \<Rightarrow> 's \<Rightarrow> ForeignKey \<Rightarrow> value list \<Rightarrow> bool rm" where
  "parent_key_exists cx s fk vals =
     and_then (load_table cx s (fk_parent fk)) (\<lambda>parent.
       if td_pk parent = fk_parent_columns fk then
         and_then (load_root cx s (fk_parent fk)) (\<lambda>root.
         and_then (encoded vals) (\<lambda>key.
         and_then (cx_lookup cx s root key) (\<lambda>hit. Inr (hit \<noteq> None))))
       else (case List.find (\<lambda>i. ix_unique i \<and> ix_columns i = fk_parent_columns fk) (td_indexes parent) of
          None \<Rightarrow> reject (InvalidSchema ''foreign key {:?} lost its referenced unique index'')
        | Some idx \<Rightarrow>
            and_then (load_iroot cx s (fk_parent fk) (ix_name idx)) (\<lambda>iroot.
            and_then (cx_probe_unique cx s iroot vals) (\<lambda>hit. Inr (hit \<noteq> None)))))"

definition check_insert_fk :: "'s ctx_ops \<Rightarrow> 's \<Rightarrow> TableDef \<Rightarrow> value list \<Rightarrow> bytes list \<Rightarrow> ForeignKey \<Rightarrow> unit rm" where
  "check_insert_fk cx s child r staged fk =
     (case fk_values child fk r of
        None \<Rightarrow> Inr ()
      | Some vals \<Rightarrow>
          and_then (if fk_parent fk = td_name child \<and> fk_parent_columns fk = td_pk child
                    then and_then (encoded vals) (\<lambda>key. Inr (key \<in> set staged)) else Inr False) (\<lambda>satisfied.
          if satisfied then Inr ()
          else and_then (parent_key_exists cx s fk vals) (\<lambda>found.
            if found then Inr () else reject (ForeignKeyViolation (td_name child) (fk_name fk)))))"

definition check_insert_fks :: "'s ctx_ops \<Rightarrow> 's \<Rightarrow> TableDef \<Rightarrow> value list \<Rightarrow> bytes list \<Rightarrow> unit rm" where
  "check_insert_fks cx s child r staged = each (check_insert_fk cx s child r staged) (td_foreign_keys child)"

definition check_update_fk :: "'s ctx_ops \<Rightarrow> 's \<Rightarrow> TableDef \<Rightarrow> value list \<Rightarrow> value list \<Rightarrow> ForeignKey \<Rightarrow> unit rm" where
  "check_update_fk cx s child old_row new_row fk =
     (let new_vals = fk_values child fk new_row in
      if opt_vals_eq (fk_values child fk old_row) new_vals then Inr ()
      else (case new_vals of
         None \<Rightarrow> Inr ()
       | Some vals \<Rightarrow>
           and_then (parent_key_exists cx s fk vals) (\<lambda>found.
             if found then Inr () else reject (ForeignKeyViolation (td_name child) (fk_name fk)))))"

definition check_update_fks :: "'s ctx_ops \<Rightarrow> 's \<Rightarrow> TableDef \<Rightarrow> value list \<Rightarrow> value list \<Rightarrow> unit rm" where
  "check_update_fks cx s child old_row new_row = each (check_update_fk cx s child old_row new_row) (td_foreign_keys child)"

text \<open>The rows of a child table that reference a key, by an index that starts with the referencing columns if
  there is one, and else by a scan.\<close>

definition child_row :: "TableDef \<Rightarrow> ForeignKey \<Rightarrow> value list \<Rightarrow> bytes \<Rightarrow> bytes \<Rightarrow> (bytes \<times> value list) list \<Rightarrow>
    (bytes \<times> value list) list rm" where
  "child_row child fk key_vals pk_key bs out =
     and_then (rejecting (decode_padded child bs)) (\<lambda>crow.
       Inr (if opt_vals_eq (fk_values child fk crow) (Some key_vals) then out @ [(pk_key, crow)] else out))"

definition scan_children :: "'s ctx_ops \<Rightarrow> 's \<Rightarrow> TableDef \<Rightarrow> ForeignKey \<Rightarrow> value list \<Rightarrow> (bytes \<times> value list) list rm" where
  "scan_children cx s child fk key_vals =
     and_then (load_root cx s (td_name child)) (\<lambda>data.
       case List.find (\<lambda>i. length (fk_columns fk) \<le> length (ix_columns i)
                         \<and> take (length (fk_columns fk)) (ix_columns i) = fk_columns fk) (td_indexes child) of
         Some idx \<Rightarrow>
           and_then (load_iroot cx s (td_name child) (ix_name idx)) (\<lambda>iroot.
           and_then (map_err (\<lambda>e. Some (idx_err e)) (prefix_bounds key_vals)) (\<lambda>(lo, hi).
           and_then (cx_scan cx s iroot (Some lo) hi) (\<lambda>entries.
             fold_res (\<lambda>(_, pk_key) out.
               and_then (cx_lookup cx s data pk_key) (\<lambda>hit.
                 case hit of None \<Rightarrow> Inr out | Some bs \<Rightarrow> child_row child fk key_vals pk_key bs out)) entries [])))
       | None \<Rightarrow>
           and_then (cx_scan cx s data None None) (\<lambda>base.
             fold_res (\<lambda>(cpk, bs) out. child_row child fk key_vals cpk bs out) base []))"

definition set_fk_columns :: "TableDef \<Rightarrow> ForeignKey \<Rightarrow> value list \<Rightarrow> value list option \<Rightarrow> value list" where
  "set_fk_columns child fk r new_vals =
     fold (\<lambda>(i, nm) out.
        case col_index child nm of
          None \<Rightarrow> out
        | Some ci \<Rightarrow> out[ci := (case new_vals of Some vals \<Rightarrow> cell_or_null vals i | None \<Rightarrow> Null)])
      (enumerate 0 (fk_columns fk)) r"

section \<open>The referential closure\<close>

text \<open>\<open>BTreeMap\<close>, as the list of its entries in key order.\<close>

fun bt_put :: "'k::linorder \<Rightarrow> 'v \<Rightarrow> ('k \<times> 'v) list \<Rightarrow> ('k \<times> 'v) list" where
  "bt_put k v [] = [(k, v)]"
| "bt_put k v ((a, b) # m) = (if k = a then (k, v) # m else if k < a then (k, v) # (a, b) # m else (a, b) # bt_put k v m)"

definition bt_remove :: "'k \<Rightarrow> ('k \<times> 'v) list \<Rightarrow> ('k \<times> 'v) list" where
  "bt_remove k m = filter (\<lambda>(a, _). a \<noteq> k) m"

record CascadeEffect =
  ef_table :: bytes
  ef_old_row :: "value list"
  ef_new_row :: "value list option"

type_synonym RowRef = "bytes \<times> bytes"

record Cascade_plan =
  cs_deletes :: "(RowRef \<times> value list) list"
  cs_rewrites :: "(RowRef \<times> (value list \<times> value list)) list"
  cs_effects :: "CascadeEffect list"

text \<open>The referenced key of a parent row that an effect removes through a foreign key, and the action that
  applies; \<open>None\<close> if the effect does not touch the key.\<close>

definition lost_key :: "TableDef \<Rightarrow> CascadeEffect \<Rightarrow> ForeignKey \<Rightarrow> (value list \<times> RefAction) option" where
  "lost_key parent eff fk =
     (if fk_parent fk \<noteq> ef_table eff then None
      else (case parent_key_of parent fk (ef_old_row eff) of
         None \<Rightarrow> None
       | Some old_key \<Rightarrow>
           (case ef_new_row eff of
              None \<Rightarrow> Some (old_key, fk_on_delete fk)
            | Some new_row \<Rightarrow>
                if opt_vals_eq (parent_key_of parent fk new_row) (Some old_key) then None
                else Some (old_key, fk_on_update fk))))"

text \<open>One child row reached through one foreign key.\<close>

definition plan_child :: "TableDef \<Rightarrow> CascadeEffect \<Rightarrow> TableDef \<Rightarrow> ForeignKey \<Rightarrow> RefAction \<Rightarrow> bytes \<times> value list \<Rightarrow>
    Cascade_plan \<times> CascadeEffect list \<Rightarrow> Cascade_plan \<times> CascadeEffect list" where
  "plan_child parent eff child fk action = (\<lambda>(cpk, crow) (plan, queue).
     (let key = (td_name child, cpk) in
      if map_of (cs_deletes plan) key \<noteq> None then (plan, queue)
      else if action = Cascade \<and> ef_new_row eff = None then
        (plan\<lparr> cs_rewrites := bt_remove key (cs_rewrites plan), cs_deletes := bt_put key crow (cs_deletes plan) \<rparr>,
         queue @ [\<lparr> ef_table = td_name child, ef_old_row = crow, ef_new_row = None \<rparr>])
      else
        (let new_vals = (if action = Cascade then Option.bind (ef_new_row eff) (parent_key_of parent fk) else None);
             planned = map_option snd (map_of (cs_rewrites plan) key);
             base = (case planned of Some r \<Rightarrow> r | None \<Rightarrow> crow);
             cnew = set_fk_columns child fk base new_vals;
             changed = (case planned of Some r \<Rightarrow> \<not> vals_eq r cnew | None \<Rightarrow> True)
         in (plan\<lparr> cs_rewrites := bt_put key (crow, cnew) (cs_rewrites plan) \<rparr>,
             if changed then queue @ [\<lparr> ef_table = td_name child, ef_old_row = crow, ef_new_row = Some cnew \<rparr>] else queue))))"

definition fk_edges :: "TableDef list \<Rightarrow> (TableDef \<times> ForeignKey) list" where
  "fk_edges tables = concat (map (\<lambda>child. map (Pair child) (td_foreign_keys child)) tables)"

definition find_table :: "TableDef list \<Rightarrow> bytes \<Rightarrow> TableDef option" where
  "find_table tables nm = List.find (\<lambda>t. td_name t = nm) tables"

definition plan_edge :: "'s ctx_ops \<Rightarrow> 's \<Rightarrow> TableDef \<Rightarrow> CascadeEffect \<Rightarrow> TableDef \<times> ForeignKey \<Rightarrow>
    Cascade_plan \<times> CascadeEffect list \<Rightarrow> (Cascade_plan \<times> CascadeEffect list) rm" where
  "plan_edge cx s parent eff = (\<lambda>(child, fk) acc.
     (case lost_key parent eff fk of
        None \<Rightarrow> Inr acc
      | Some (old_key, action) \<Rightarrow>
          if action = Restrict then Inr acc
          else and_then (scan_children cx s child fk old_key) (\<lambda>rows.
            Inr (fold (plan_child parent eff child fk action) rows acc))))"

fun plan_loop :: "'s ctx_ops \<Rightarrow> 's \<Rightarrow> TableDef list \<Rightarrow> nat \<Rightarrow> Cascade_plan \<Rightarrow> CascadeEffect list \<Rightarrow> Cascade_plan rm" where
  "plan_loop cx s tables n plan [] = Inr plan"
| "plan_loop cx s tables 0 plan (eff # queue) = Inl None"
| "plan_loop cx s tables (Suc n) plan (eff # queue) =
     (case find_table tables (ef_table eff) of
        None \<Rightarrow> plan_loop cx s tables n plan queue
      | Some parent \<Rightarrow>
          and_then (fold_res (plan_edge cx s parent eff) (fk_edges tables) (plan, queue)) (\<lambda>(plan', queue').
            plan_loop cx s tables n (plan'\<lparr> cs_effects := cs_effects plan' @ [eff] \<rparr>) queue'))"

definition seed_deletes :: "(bytes \<times> bytes \<times> value list) list \<Rightarrow> Cascade_plan \<times> CascadeEffect list \<Rightarrow> Cascade_plan \<times> CascadeEffect list" where
  "seed_deletes = fold (\<lambda>(table, pk_key, r) (plan, queue).
     (plan\<lparr> cs_deletes := bt_put (table, pk_key) r (cs_deletes plan) \<rparr>,
      if map_of (cs_deletes plan) (table, pk_key) = None
      then queue @ [\<lparr> ef_table = table, ef_old_row = r, ef_new_row = None \<rparr>] else queue))"

definition plan_cascade :: "'s ctx_ops \<Rightarrow> 's \<Rightarrow> TableDef list \<Rightarrow> nat \<Rightarrow> (bytes \<times> bytes \<times> value list) list \<Rightarrow>
    (bytes \<times> value list \<times> value list) list \<Rightarrow> Cascade_plan rm" where
  "plan_cascade cx s tables n delete_seeds change_seeds =
     (case seed_deletes delete_seeds (\<lparr> cs_deletes = [], cs_rewrites = [], cs_effects = [] \<rparr>, []) of
        (plan, queue) \<Rightarrow>
          plan_loop cx s tables n plan
            (queue @ map (\<lambda>(table, old_row, new_row). \<lparr> ef_table = table, ef_old_row = old_row, ef_new_row = Some new_row \<rparr>) change_seeds))"

definition restrict_child :: "Cascade_plan \<Rightarrow> TableDef \<Rightarrow> ForeignKey \<Rightarrow> value list \<Rightarrow> bytes \<times> value list \<Rightarrow> unit rm" where
  "restrict_child plan child fk old_key = (\<lambda>(cpk, crow).
     (let key = (td_name child, cpk) in
      if map_of (cs_deletes plan) key \<noteq> None then Inr ()
      else (let effective = (case map_of (cs_rewrites plan) key of Some (_, new_row) \<Rightarrow> new_row | None \<Rightarrow> crow)
            in if opt_vals_eq (fk_values child fk effective) (Some old_key)
               then reject (ReferencedByChildren (td_name child) (fk_name fk)) else Inr ())))"

definition restrict_edge :: "'s ctx_ops \<Rightarrow> 's \<Rightarrow> Cascade_plan \<Rightarrow> TableDef \<Rightarrow> CascadeEffect \<Rightarrow> TableDef \<times> ForeignKey \<Rightarrow> unit rm" where
  "restrict_edge cx s plan parent eff = (\<lambda>(child, fk).
     (case lost_key parent eff fk of
        None \<Rightarrow> Inr ()
      | Some (old_key, action) \<Rightarrow>
          if action \<noteq> Restrict then Inr ()
          else and_then (scan_children cx s child fk old_key) (each (restrict_child plan child fk old_key))))"

definition check_cascade_restrict :: "'s ctx_ops \<Rightarrow> 's \<Rightarrow> TableDef list \<Rightarrow> Cascade_plan \<Rightarrow> unit rm" where
  "check_cascade_restrict cx s tables plan =
     each (\<lambda>eff. case find_table tables (ef_table eff) of
                  None \<Rightarrow> Inr ()
                | Some parent \<Rightarrow> each (restrict_edge cx s plan parent eff) (fk_edges tables)) (cs_effects plan)"

text \<open>The constraints of the rewritten rows: checks and \<open>NOT NULL\<close> first, then the unique indexes across the closure.
  The keys leaving and arriving are kept per table and index position.\<close>

definition check_rewrite :: "TableDef list \<Rightarrow> RowRef \<times> (value list \<times> value list) \<Rightarrow> unit rm" where
  "check_rewrite tables = (\<lambda>((tname, _), (_, new_row)).
     (case find_table tables tname of
        None \<Rightarrow> Inr ()
      | Some d \<Rightarrow>
          and_then (rejecting (run_checks d new_row)) (\<lambda>_.
            each (\<lambda>(ci, cell).
              if cell = Null \<and> \<not> is_nullable d ci
              then reject (NotNull tname (case get_at (td_columns d) ci of Some c \<Rightarrow> cd_name c | None \<Rightarrow> [])) else Inr ())
              (enumerate 0 new_row))))"

type_synonym slot_keys = "((bytes \<times> nat) \<times> bytes) list"

definition deleted_keys :: "TableDef list \<Rightarrow> RowRef \<times> value list \<Rightarrow> slot_keys \<Rightarrow> slot_keys rm" where
  "deleted_keys tables = (\<lambda>((tname, pk), r) gone.
     (case find_table tables tname of
        None \<Rightarrow> Inr gone
      | Some d \<Rightarrow>
          fold_res (\<lambda>(i, idx) gone.
            if ix_unique idx then and_then (entry_of d idx r pk) (\<lambda>e.
              Inr (case e of Some e \<Rightarrow> ((tname, i), entry_key e) # gone | None \<Rightarrow> gone)) else Inr gone)
            (enumerate 0 (td_indexes d)) gone))"

definition moved_keys :: "TableDef list \<Rightarrow> RowRef \<times> (value list \<times> value list) \<Rightarrow> slot_keys \<times> slot_keys \<Rightarrow> (slot_keys \<times> slot_keys) rm" where
  "moved_keys tables = (\<lambda>((tname, pk), (old_row, new_row)) acc.
     (case find_table tables tname of
        None \<Rightarrow> Inr acc
      | Some d \<Rightarrow>
          fold_res (\<lambda>(i, idx) (gone, added).
            if ix_unique idx then
              and_then (entry_of d idx old_row pk) (\<lambda>old_e.
              and_then (entry_of d idx new_row pk) (\<lambda>new_e.
                if map_option entry_key old_e = map_option entry_key new_e then Inr (gone, added)
                else Inr (case old_e of Some e \<Rightarrow> ((tname, i), entry_key e) # gone | None \<Rightarrow> gone,
                          case new_e of Some e \<Rightarrow> added @ [((tname, i), entry_key e)] | None \<Rightarrow> added)))
            else Inr (gone, added))
            (enumerate 0 (td_indexes d)) acc))"

definition check_added :: "'s ctx_ops \<Rightarrow> 's \<Rightarrow> TableDef list \<Rightarrow> slot_keys \<Rightarrow> slot_keys \<Rightarrow> bytes \<times> nat \<Rightarrow> unit rm" where
  "check_added cx s tables gone added = (\<lambda>(tname, i).
     (case Option.bind (find_table tables tname) (\<lambda>d. get_at (td_indexes d) i) of
        None \<Rightarrow> Inr ()
      | Some idx \<Rightarrow>
          and_then (load_iroot cx s tname (ix_name idx)) (\<lambda>iroot.
          and_then (fold_res (\<lambda>key seen.
             and_then (cx_lookup cx s iroot key) (\<lambda>hit.
               if hit \<noteq> None \<and> ((tname, i), key) \<notin> set gone \<or> key \<in> set seen
               then reject (unique_violation tname (ix_name idx)) else Inr (key # seen)))
             (map snd (filter (\<lambda>(slot, _). slot = (tname, i)) added)) []) (\<lambda>_. Inr ()))))"

definition validate_cascade_rewrites :: "'s ctx_ops \<Rightarrow> 's \<Rightarrow> TableDef list \<Rightarrow> Cascade_plan \<Rightarrow> unit rm" where
  "validate_cascade_rewrites cx s tables plan =
     and_then (each (check_rewrite tables) (cs_rewrites plan)) (\<lambda>_.
     and_then (fold_res (deleted_keys tables) (cs_deletes plan) []) (\<lambda>gone0.
     and_then (fold_res (moved_keys tables) (cs_rewrites plan) (gone0, [])) (\<lambda>(gone, added).
       each (check_added cx s tables gone added) (remdups (map fst added)))))"

end
