(* ===== verification/CatWrite.thy ===== *)
theory CatWrite
  imports CatRows
begin

text \<open>The applying half of the catalog's row changes (\<open>catalog/src/job.rs\<close>) and the jobs themselves: each validates by the
  checks of \<open>CatRows\<close>, then writes rows, index entries and roots.\<close>

section \<open>One row with its index entries\<close>

type_synonym index_delta = "nat \<times> IndexEntry option \<times> IndexEntry option"

text \<open>\<open>index_roots[i] = remove; index_roots[i] = insert\<close>, for each delta in turn.\<close>

definition apply_delta :: "'s ctx_ops \<Rightarrow> index_delta \<Rightarrow> PageId list \<Rightarrow> ('s, PageId list) xm" where
  "apply_delta cx = (\<lambda>(i, old_e, new_e) roots.
     st_bind (case old_e of
        Some e \<Rightarrow> st_bind (cx_remove_entry cx (roots ! i) e) (\<lambda>r. st_return (roots[i := r]))
      | None \<Rightarrow> st_return roots) (\<lambda>roots.
     case new_e of
        Some e \<Rightarrow> st_bind (cx_insert_entry cx (roots ! i) e) (\<lambda>r. st_return (roots[i := r]))
      | None \<Rightarrow> st_return roots))"

fun apply_deltas :: "'s ctx_ops \<Rightarrow> index_delta list \<Rightarrow> PageId list \<Rightarrow> ('s, PageId list) xm" where
  "apply_deltas cx [] roots = st_return roots"
| "apply_deltas cx (x # xs) roots = st_bind (apply_delta cx x roots) (apply_deltas cx xs)"

text \<open>\<open>for i in touched\<close>: the roots of the touched indexes are stored.\<close>

definition store_iroots :: "'s ctx_ops \<Rightarrow> TableDef \<Rightarrow> bytes \<Rightarrow> PageId list \<Rightarrow> nat list \<Rightarrow> ('s, unit) xm" where
  "store_iroots cx d table roots touched =
     st_each (\<lambda>i. case get_at (td_indexes d) i of
                   Some idx \<Rightarrow> store_iroot cx table (ix_name idx) (roots ! i)
                 | None \<Rightarrow> st_return ()) touched"

text \<open>\<open>delete_row_indexed\<close> computes each entry as it reaches its index, so an error leaves the earlier removals.\<close>

fun remove_entries :: "'s ctx_ops \<Rightarrow> TableDef \<Rightarrow> value list \<Rightarrow> bytes \<Rightarrow> (nat \<times> IndexDef) list \<Rightarrow> PageId list \<times> nat list \<Rightarrow>
    ('s, PageId list \<times> nat list) xm" where
  "remove_entries cx d r pk_key [] acc = st_return acc"
| "remove_entries cx d r pk_key ((i, idx) # idxs) (roots, touched) =
     st_bind (st_lift (entry_of d idx r pk_key)) (\<lambda>e.
       case e of
         None \<Rightarrow> remove_entries cx d r pk_key idxs (roots, touched)
       | Some e \<Rightarrow>
           st_bind (cx_remove_entry cx (roots ! i) e) (\<lambda>root.
             remove_entries cx d r pk_key idxs (roots[i := root], touched @ [i])))"

definition delete_row_indexed :: "'s ctx_ops \<Rightarrow> TableDef \<Rightarrow> bytes \<Rightarrow> value list \<Rightarrow> ('s, unit) xm" where
  "delete_row_indexed cx d pk_key r =
     st_bind (st_read (\<lambda>s. load_root cx s (td_name d))) (\<lambda>data0.
     st_bind (st_read (\<lambda>s. load_index_roots cx s d)) (\<lambda>roots0.
     st_bind (cx_delete cx data0 pk_key) (\<lambda>data.
     st_bind (remove_entries cx d r pk_key (enumerate 0 (td_indexes d)) (roots0, [])) (\<lambda>(roots, touched).
     st_bind (store_root cx (root_key (td_name d)) data) (\<lambda>_.
       store_iroots cx d (td_name d) roots touched)))))"

fun move_entries :: "'s ctx_ops \<Rightarrow> TableDef \<Rightarrow> value list \<Rightarrow> value list \<Rightarrow> bytes \<Rightarrow> (nat \<times> IndexDef) list \<Rightarrow> PageId list \<times> nat list \<Rightarrow>
    ('s, PageId list \<times> nat list) xm" where
  "move_entries cx d old_row new_row pk_key [] acc = st_return acc"
| "move_entries cx d old_row new_row pk_key ((i, idx) # idxs) (roots, touched) =
     st_bind (st_lift (entry_of d idx old_row pk_key)) (\<lambda>old_e.
     st_bind (st_lift (entry_of d idx new_row pk_key)) (\<lambda>new_e.
       if map_option entry_key old_e = map_option entry_key new_e
       then move_entries cx d old_row new_row pk_key idxs (roots, touched)
       else st_bind (apply_delta cx (i, old_e, new_e) roots) (\<lambda>roots.
         move_entries cx d old_row new_row pk_key idxs (roots, touched @ [i]))))"

definition rewrite_row_indexed :: "'s ctx_ops \<Rightarrow> TableDef \<Rightarrow> bytes \<Rightarrow> value list \<Rightarrow> value list \<Rightarrow> ('s, unit) xm" where
  "rewrite_row_indexed cx d pk_key old_row new_row =
     st_bind (st_read (\<lambda>s. load_root cx s (td_name d))) (\<lambda>data0.
     st_bind (st_read (\<lambda>s. load_index_roots cx s d)) (\<lambda>roots0.
     st_bind (st_lift (encoded_row new_row)) (\<lambda>bs.
     st_bind (st_lift (sized pk_key bs)) (\<lambda>_.
     st_bind (cx_insert cx data0 pk_key bs) (\<lambda>data.
     st_bind (move_entries cx d old_row new_row pk_key (enumerate 0 (td_indexes d)) (roots0, [])) (\<lambda>(roots, touched).
     st_bind (store_root cx (root_key (td_name d)) data) (\<lambda>_.
       store_iroots cx d (td_name d) roots touched)))))))"

definition apply_cascade :: "'s ctx_ops \<Rightarrow> TableDef list \<Rightarrow> Cascade_plan \<Rightarrow> ('s, unit) xm" where
  "apply_cascade cx tables plan =
     st_bind (st_each (\<lambda>((tname, pk_key), r).
        case find_table tables tname of Some d \<Rightarrow> delete_row_indexed cx d pk_key r | None \<Rightarrow> st_return ()) (cs_deletes plan)) (\<lambda>_.
     st_each (\<lambda>((tname, pk_key), (old_row, new_row)).
        case find_table tables tname of Some d \<Rightarrow> rewrite_row_indexed cx d pk_key old_row new_row | None \<Rightarrow> st_return ()) (cs_rewrites plan))"

text \<open>The three read-only passes over a closure.\<close>

definition referential_plan :: "'s ctx_ops \<Rightarrow> 's \<Rightarrow> TableDef list \<Rightarrow> nat \<Rightarrow> (bytes \<times> bytes \<times> value list) list \<Rightarrow>
    (bytes \<times> value list \<times> value list) list \<Rightarrow> Cascade_plan rm" where
  "referential_plan cx s tables n delete_seeds change_seeds =
     and_then (plan_cascade cx s tables n delete_seeds change_seeds) (\<lambda>plan.
     and_then (check_cascade_restrict cx s tables plan) (\<lambda>_.
     and_then (validate_cascade_rewrites cx s tables plan) (\<lambda>_. Inr plan)))"

section \<open>Inserts\<close>

text \<open>The state of a job: the write context and the host services.\<close>

record ('s, 'c, 'r) job_state =
  js_ctx :: 's
  js_env :: "('c, 'r) Env"

type_synonym ('s, 'c, 'r, 'a) catm = "(('s, 'c, 'r) job_state, TxnError option, 'a) st"

definition on_cx :: "('s, 'a) xm \<Rightarrow> ('s, 'c, 'r, 'a) catm" where
  "on_cx m = st_zoom js_ctx (\<lambda>s j. j\<lparr> js_ctx := s \<rparr>) m"

definition on_env :: "(('c, 'r) Env, CatalogError, 'a) st \<Rightarrow> ('s, 'c, 'r, 'a) catm" where
  "on_env m = st_map_err (\<lambda>e. Some (rej e)) (st_zoom js_env (\<lambda>e j. j\<lparr> js_env := e \<rparr>) m)"

definition job_read :: "('s \<Rightarrow> 'a rm) \<Rightarrow> ('s, 'c, 'r, 'a) catm" where
  "job_read f = on_cx (st_read f)"

text \<open>The rows staged so far: their keys and encodings, their index entries, the unique keys taken per index,
  the rows themselves, and the sequence.\<close>

record Staged =
  sg_rows :: "(bytes \<times> bytes) list"
  sg_entries :: "(nat \<times> IndexEntry) list list"
  sg_unique :: "bytes list list"
  sg_out :: "value list list"
  sg_seq :: i64

definition stage_entry :: "'s ctx_ops \<Rightarrow> 's \<Rightarrow> TableDef \<Rightarrow> bytes \<Rightarrow> PageId list \<Rightarrow> value list \<Rightarrow> bytes \<Rightarrow> nat \<times> IndexDef \<Rightarrow>
    bytes list list \<times> (nat \<times> IndexEntry) list \<Rightarrow> (bytes list list \<times> (nat \<times> IndexEntry) list) rm" where
  "stage_entry cx s d table roots r pk_key = (\<lambda>(i, idx) (uniq, es).
     and_then (entry_of d idx r pk_key) (\<lambda>e.
       case e of
         None \<Rightarrow> Inr (uniq, es)
       | Some e \<Rightarrow>
           and_then (if ix_unique idx then
               and_then (cx_lookup cx s (roots ! i) (entry_key e)) (\<lambda>hit.
                 if hit \<noteq> None \<or> entry_key e \<in> set (uniq ! i) then reject (unique_violation table (ix_name idx))
                 else Inr (uniq[i := entry_key e # uniq ! i]))
             else Inr uniq) (\<lambda>uniq.
           and_then (sized (entry_key e) (entry_value e)) (\<lambda>_. Inr (uniq, es @ [(i, e)])))))"

definition stage_checked :: "'s ctx_ops \<Rightarrow> 's \<Rightarrow> TableDef \<Rightarrow> bytes \<Rightarrow> PageId \<Rightarrow> PageId list \<Rightarrow> value list \<Rightarrow> Staged \<Rightarrow> Staged rm" where
  "stage_checked cx s d table data roots r st =
     and_then (rejecting (run_checks d r)) (\<lambda>_.
     and_then (check_insert_fks cx s d r (map fst (sg_rows st))) (\<lambda>_.
     and_then (rejecting (pk_key_of d r)) (\<lambda>pk_key.
     and_then (if pk_key \<in> set (map fst (sg_rows st)) then Inr True
               else and_then (cx_lookup cx s data pk_key) (\<lambda>hit. Inr (hit \<noteq> None))) (\<lambda>taken.
     and_then (if taken then reject (DuplicateKey table) else Inr ()) (\<lambda>_.
     and_then (fold_res (stage_entry cx s d table roots r pk_key) (enumerate 0 (td_indexes d)) (sg_unique st, [])) (\<lambda>(uniq, es).
     and_then (encoded_row r) (\<lambda>bs.
     and_then (sized pk_key bs) (\<lambda>_.
       Inr (st\<lparr> sg_rows := sg_rows st @ [(pk_key, bs)], sg_entries := sg_entries st @ [es],
                sg_unique := uniq, sg_out := sg_out st @ [r] \<rparr>)))))))))"

definition stage_row :: "('c, 'r) host_ops \<Rightarrow> 's ctx_ops \<Rightarrow> TableDef \<Rightarrow> bytes \<Rightarrow> PageId \<Rightarrow> PageId list \<Rightarrow> (bytes \<times> value) list \<Rightarrow>
    Staged \<Rightarrow> ('s, 'c, 'r, Staged) catm" where
  "stage_row host cx d table data roots provided st =
     st_bind (on_env (build_row host d provided (sg_seq st))) (\<lambda>(r, seq).
       job_read (\<lambda>s. stage_checked cx s d table data roots r (st\<lparr> sg_seq := seq \<rparr>)))"

fun stage_rows :: "('c, 'r) host_ops \<Rightarrow> 's ctx_ops \<Rightarrow> TableDef \<Rightarrow> bytes \<Rightarrow> PageId \<Rightarrow> PageId list \<Rightarrow> (bytes \<times> value) list list \<Rightarrow>
    Staged \<Rightarrow> ('s, 'c, 'r, Staged) catm" where
  "stage_rows host cx d table data roots [] st = st_return st"
| "stage_rows host cx d table data roots (p # ps) st =
     st_bind (stage_row host cx d table data roots p st) (stage_rows host cx d table data roots ps)"

definition added_entries :: "(nat \<times> IndexEntry) list \<Rightarrow> index_delta list" where
  "added_entries es = map (\<lambda>(i, e). (i, None, Some e)) es"

fun apply_staged :: "'s ctx_ops \<Rightarrow> ((bytes \<times> bytes) \<times> (nat \<times> IndexEntry) list) list \<Rightarrow> PageId \<times> PageId list \<Rightarrow>
    ('s, PageId \<times> PageId list) xm" where
  "apply_staged cx [] acc = st_return acc"
| "apply_staged cx (((key, bs), es) # rest) (data, roots) =
     st_bind (cx_insert cx data key bs) (\<lambda>data.
     st_bind (apply_deltas cx (added_entries es) roots) (\<lambda>roots. apply_staged cx rest (data, roots)))"

definition apply_insert :: "'s ctx_ops \<Rightarrow> TableDef \<Rightarrow> bytes \<Rightarrow> PageId \<Rightarrow> PageId list \<Rightarrow> i64 \<Rightarrow> Staged \<Rightarrow> ('s, JobOut) xm" where
  "apply_insert cx d table data0 roots0 seq0 st =
     st_bind (apply_staged cx (zip (sg_rows st) (sg_entries st)) (data0, roots0)) (\<lambda>(data, roots).
     st_bind (store_root cx (root_key table) data) (\<lambda>_.
     st_bind (st_each (\<lambda>(i, idx). store_iroot cx table (ix_name idx) (roots ! i)) (enumerate 0 (td_indexes d))) (\<lambda>_.
     st_bind (if sg_seq st \<noteq> seq0
              then st_bind (st_lift (rejecting (seq_key table))) (\<lambda>key. store_entry cx key (encode_seq (sg_seq st)))
              else st_return ()) (\<lambda>_.
     st_return (OutRows (sg_out st))))))"

definition nothing_staged :: "TableDef \<Rightarrow> i64 \<Rightarrow> Staged" where
  "nothing_staged d seq =
     \<lparr> sg_rows = [], sg_entries = [], sg_unique = replicate (length (td_indexes d)) [], sg_out = [], sg_seq = seq \<rparr>"

definition insert_rows :: "('c, 'r) host_ops \<Rightarrow> 's ctx_ops \<Rightarrow> bytes \<Rightarrow> (bytes \<times> value) list list \<Rightarrow> ('s, 'c, 'r, JobOut) catm" where
  "insert_rows host cx table input =
     st_bind (job_read (\<lambda>s. load_table cx s table)) (\<lambda>d.
     st_bind (job_read (\<lambda>s. load_root cx s table)) (\<lambda>data0.
     st_bind (job_read (\<lambda>s. load_index_roots cx s d)) (\<lambda>roots0.
     st_bind (job_read (\<lambda>s. if list_ex cd_auto_increment (td_columns d) then load_seq cx s table else Inr 0)) (\<lambda>seq0.
     st_bind (stage_rows host cx d table data0 roots0 input (nothing_staged d seq0)) (\<lambda>st.
     on_cx (apply_insert cx d table data0 roots0 seq0 st))))))"

section \<open>Updates\<close>

definition row_delta :: "'s ctx_ops \<Rightarrow> 's \<Rightarrow> bytes \<Rightarrow> TableDef \<Rightarrow> value list \<Rightarrow> value list \<Rightarrow> bytes \<Rightarrow> PageId list \<Rightarrow> nat \<times> IndexDef \<Rightarrow>
    index_delta list \<Rightarrow> index_delta list rm" where
  "row_delta cx s table d old_row r pk_key roots = (\<lambda>(i, idx) deltas.
     and_then (entry_of d idx old_row pk_key) (\<lambda>old_e.
     and_then (entry_of d idx r pk_key) (\<lambda>new_e.
       if map_option entry_key old_e = map_option entry_key new_e then Inr deltas
       else and_then (case new_e of
           None \<Rightarrow> Inr ()
         | Some e \<Rightarrow>
             and_then (if ix_unique idx then and_then (cx_lookup cx s (roots ! i) (entry_key e)) (\<lambda>hit.
                         if hit \<noteq> None then reject (unique_violation table (ix_name idx)) else Inr ()) else Inr ()) (\<lambda>_.
               sized (entry_key e) (entry_value e))) (\<lambda>_.
         Inr (deltas @ [(i, old_e, new_e)])))))"

definition referenced_side :: "'s ctx_ops \<Rightarrow> 's \<Rightarrow> TableDef \<Rightarrow> nat \<Rightarrow> (bytes \<times> value list \<times> value list) list \<Rightarrow>
    (TableDef list \<times> Cascade_plan) option rm" where
  "referenced_side cx s d n change_seeds =
     (if list_ex ix_unique (td_indexes d) then
        and_then (all_tables cx s) (\<lambda>tables.
        and_then (referential_plan cx s tables n [] change_seeds) (\<lambda>plan. Inr (Some (tables, plan))))
      else Inr None)"

definition apply_referenced :: "'s ctx_ops \<Rightarrow> (TableDef list \<times> Cascade_plan) option \<Rightarrow> ('s, unit) xm" where
  "apply_referenced cx referential =
     (case referential of Some (tables, plan) \<Rightarrow> apply_cascade cx tables plan | None \<Rightarrow> st_return ())"

definition check_update :: "'s ctx_ops \<Rightarrow> 's \<Rightarrow> bytes \<Rightarrow> TableDef \<Rightarrow> nat \<Rightarrow> bytes \<Rightarrow> PageId list \<Rightarrow> value list \<Rightarrow> value list \<Rightarrow>
    ((TableDef list \<times> Cascade_plan) option \<times> index_delta list \<times> bytes) rm" where
  "check_update cx s table d n pk_key roots old_row r =
     and_then (rejecting (run_checks d r)) (\<lambda>_.
     and_then (check_update_fks cx s d old_row r) (\<lambda>_.
     and_then (referenced_side cx s d n [(table, old_row, r)]) (\<lambda>referential.
     and_then (fold_res (row_delta cx s table d old_row r pk_key roots) (enumerate 0 (td_indexes d)) []) (\<lambda>deltas.
     and_then (encoded_row r) (\<lambda>bs.
     and_then (sized pk_key bs) (\<lambda>_. Inr (referential, deltas, bs)))))))"

definition update_row :: "('c, 'r) host_ops \<Rightarrow> 's ctx_ops \<Rightarrow> nat \<Rightarrow> bytes \<Rightarrow> value list \<Rightarrow> (bytes \<times> value) list \<Rightarrow>
    ('s, 'c, 'r, JobOut) catm" where
  "update_row host cx n table pk sets =
     st_bind (job_read (\<lambda>s. load_table cx s table)) (\<lambda>d.
     st_bind (job_read (\<lambda>s. load_root cx s table)) (\<lambda>data0.
     st_bind (job_read (\<lambda>s. load_index_roots cx s d)) (\<lambda>roots0.
     st_bind (st_lift (rejecting (encode_pk table d pk))) (\<lambda>pk_key.
     st_bind (job_read (\<lambda>s. and_then (cx_lookup cx s data0 pk_key) (\<lambda>hit.
                case hit of Some bs \<Rightarrow> rejecting (decode_padded d bs) | None \<Rightarrow> reject (RowNotFound table)))) (\<lambda>old_row.
     st_bind (on_env (transform_row host table d old_row sets)) (\<lambda>r.
     st_bind (job_read (\<lambda>s. check_update cx s table d n pk_key roots0 old_row r)) (\<lambda>(referential, deltas, bs).
     on_cx (
       st_bind (cx_insert cx data0 pk_key bs) (\<lambda>data.
       st_bind (apply_deltas cx deltas roots0) (\<lambda>roots.
       st_bind (store_root cx (root_key table) data) (\<lambda>_.
       st_bind (store_iroots cx d table roots (map fst deltas)) (\<lambda>_.
       st_bind (apply_referenced cx referential) (\<lambda>_.
       st_return (OutRow r))))))))))))))"

text \<open>Policies: what selects the rows of a conditional write, and what computes their new values.\<close>

type_synonym RowFilter = "TableDef \<Rightarrow> value list \<Rightarrow> BoxedError + bool"

record RowUpdater =
  ru_matches :: RowFilter
  ru_new_values :: "TableDef \<Rightarrow> value list \<Rightarrow> BoxedError + (bytes \<times> value) list"

definition policy_res :: "BoxedError + 'a \<Rightarrow> 'a rm" where
  "policy_res r = map_err (\<lambda>e. Some (Rejected e)) r"

record Matched =
  mt_rows :: "(bytes \<times> bytes \<times> index_delta list) list"
  mt_removed :: "bytes list list"
  mt_added :: "bytes list list"
  mt_seeds :: "(bytes \<times> value list \<times> value list) list"

definition batch_delta :: "TableDef \<Rightarrow> bytes \<Rightarrow> value list \<Rightarrow> value list \<Rightarrow> bytes \<Rightarrow> nat \<times> IndexDef \<Rightarrow>
    bytes list list \<times> bytes list list \<times> index_delta list \<Rightarrow> (bytes list list \<times> bytes list list \<times> index_delta list) rm" where
  "batch_delta d table old_row r pk_key = (\<lambda>(i, idx) (removed, added, deltas).
     and_then (entry_of d idx old_row pk_key) (\<lambda>old_e.
     and_then (entry_of d idx r pk_key) (\<lambda>new_e.
       if map_option entry_key old_e = map_option entry_key new_e then Inr (removed, added, deltas)
       else (let removed = (case old_e of Some e \<Rightarrow> removed[i := entry_key e # removed ! i] | None \<Rightarrow> removed) in
         and_then (case new_e of
             None \<Rightarrow> Inr added
           | Some e \<Rightarrow>
               and_then (sized (entry_key e) (entry_value e)) (\<lambda>_.
                 if ix_unique idx then
                   (if entry_key e \<in> set (added ! i) then reject (unique_violation table (ix_name idx))
                    else Inr (added[i := added ! i @ [entry_key e]]))
                 else Inr added)) (\<lambda>added.
           Inr (removed, added, deltas @ [(i, old_e, new_e)]))))))"

definition match_checked :: "'s ctx_ops \<Rightarrow> 's \<Rightarrow> TableDef \<Rightarrow> bytes \<Rightarrow> value list \<Rightarrow> value list \<Rightarrow> bytes \<Rightarrow> Matched \<Rightarrow> Matched rm" where
  "match_checked cx s d table old_row r pk_key mt =
     and_then (rejecting (run_checks d r)) (\<lambda>_.
     and_then (check_update_fks cx s d old_row r) (\<lambda>_.
     and_then (fold_res (batch_delta d table old_row r pk_key) (enumerate 0 (td_indexes d)) (mt_removed mt, mt_added mt, [])) (\<lambda>(removed, added, deltas).
     and_then (encoded_row r) (\<lambda>bs.
     and_then (sized pk_key bs) (\<lambda>_.
       Inr \<lparr> mt_rows = mt_rows mt @ [(pk_key, bs, deltas)], mt_removed = removed, mt_added = added,
             mt_seeds = mt_seeds mt @ (if list_ex ix_unique (td_indexes d) then [(table, old_row, r)] else []) \<rparr>)))))"

fun match_rows :: "('c, 'r) host_ops \<Rightarrow> 's ctx_ops \<Rightarrow> TableDef \<Rightarrow> bytes \<Rightarrow> RowUpdater \<Rightarrow> (bytes \<times> bytes) list \<Rightarrow> Matched \<Rightarrow>
    ('s, 'c, 'r, Matched) catm" where
  "match_rows host cx d table policy [] mt = st_return mt"
| "match_rows host cx d table policy ((pk_key, bs) # base) mt =
     st_bind (st_lift (rejecting (decode_padded d bs))) (\<lambda>old_row.
     st_bind (st_lift (policy_res (ru_matches policy d old_row))) (\<lambda>hit.
       if \<not> hit then match_rows host cx d table policy base mt
       else st_bind (st_lift (policy_res (ru_new_values policy d old_row))) (\<lambda>sets.
         st_bind (on_env (transform_row host table d old_row sets)) (\<lambda>r.
         st_bind (job_read (\<lambda>s. match_checked cx s d table old_row r pk_key mt)) (\<lambda>mt.
           match_rows host cx d table policy base mt)))))"

definition check_arrivals :: "'s ctx_ops \<Rightarrow> 's \<Rightarrow> bytes \<Rightarrow> PageId list \<Rightarrow> Matched \<Rightarrow> nat \<times> IndexDef \<Rightarrow> unit rm" where
  "check_arrivals cx s table roots mt = (\<lambda>(i, idx).
     (if \<not> ix_unique idx then Inr ()
      else each (\<lambda>key. and_then (cx_lookup cx s (roots ! i) key) (\<lambda>hit.
             if hit \<noteq> None \<and> key \<notin> set (mt_removed mt ! i) then reject (unique_violation table (ix_name idx)) else Inr ()))
           (mt_added mt ! i)))"

fun apply_matched :: "'s ctx_ops \<Rightarrow> (bytes \<times> bytes \<times> index_delta list) list \<Rightarrow> PageId \<times> PageId list \<Rightarrow>
    ('s, PageId \<times> PageId list) xm" where
  "apply_matched cx [] acc = st_return acc"
| "apply_matched cx ((pk_key, bs, deltas) # rest) (data, roots) =
     st_bind (cx_insert cx data pk_key bs) (\<lambda>data.
     st_bind (apply_deltas cx deltas roots) (\<lambda>roots. apply_matched cx rest (data, roots)))"

definition touched_by :: "(bytes \<times> bytes \<times> index_delta list) list \<Rightarrow> nat list" where
  "touched_by rows = remdups (concat (map (\<lambda>(_, _, deltas). map fst deltas) rows))"

definition update_where :: "('c, 'r) host_ops \<Rightarrow> 's ctx_ops \<Rightarrow> nat \<Rightarrow> bytes \<Rightarrow> RowUpdater \<Rightarrow> ('s, 'c, 'r, JobOut) catm" where
  "update_where host cx n table policy =
     st_bind (job_read (\<lambda>s. load_table cx s table)) (\<lambda>d.
     st_bind (job_read (\<lambda>s. load_root cx s table)) (\<lambda>data0.
     st_bind (job_read (\<lambda>s. load_index_roots cx s d)) (\<lambda>roots0.
     st_bind (job_read (\<lambda>s. if list_ex ix_unique (td_indexes d) then and_then (all_tables cx s) (\<lambda>ts. Inr (Some ts)) else Inr None)) (\<lambda>inbound.
     st_bind (job_read (\<lambda>s. cx_scan cx s data0 None None)) (\<lambda>base.
     st_bind (match_rows host cx d table policy base
                \<lparr> mt_rows = [], mt_removed = replicate (length (td_indexes d)) [],
                  mt_added = replicate (length (td_indexes d)) [], mt_seeds = [] \<rparr>) (\<lambda>mt.
     st_bind (job_read (\<lambda>s. each (check_arrivals cx s table roots0 mt) (enumerate 0 (td_indexes d)))) (\<lambda>_.
     st_bind (job_read (\<lambda>s. case inbound of
                Some tables \<Rightarrow> and_then (referential_plan cx s tables n [] (mt_seeds mt)) (\<lambda>plan. Inr (Some (tables, plan)))
              | None \<Rightarrow> Inr None)) (\<lambda>referential.
     on_cx (
       st_bind (apply_matched cx (mt_rows mt) (data0, roots0)) (\<lambda>(data, roots).
       st_bind (if mt_rows mt \<noteq> []
                then st_bind (store_root cx (root_key table) data) (\<lambda>_. store_iroots cx d table roots (touched_by (mt_rows mt)))
                else st_return ()) (\<lambda>_.
       st_bind (apply_referenced cx referential) (\<lambda>_.
       st_return (OutAffected (length (mt_rows mt)))))))))))))))"

section \<open>Deletes\<close>

definition delete_seeded :: "'s ctx_ops \<Rightarrow> nat \<Rightarrow> (bytes \<times> bytes \<times> value list) list \<Rightarrow> ('s, unit) xm" where
  "delete_seeded cx n seeds =
     st_bind (st_read (all_tables cx)) (\<lambda>tables.
     st_bind (st_read (\<lambda>s. referential_plan cx s tables n seeds [])) (\<lambda>plan. apply_cascade cx tables plan))"

definition delete_row :: "'s ctx_ops \<Rightarrow> nat \<Rightarrow> bytes \<Rightarrow> value list \<Rightarrow> ('s, JobOut) xm" where
  "delete_row cx n table pk =
     st_bind (st_read (\<lambda>s. load_table cx s table)) (\<lambda>d.
     st_bind (st_read (\<lambda>s. load_root cx s table)) (\<lambda>data.
     st_bind (st_lift (rejecting (encode_pk table d pk))) (\<lambda>pk_key.
     st_bind (st_read (\<lambda>s. cx_lookup cx s data pk_key)) (\<lambda>hit.
       case hit of
         None \<Rightarrow> st_return (OutDeleted False)
       | Some bs \<Rightarrow>
           st_bind (st_lift (rejecting (decode_padded d bs))) (\<lambda>r.
           st_bind (delete_seeded cx n [(table, pk_key, r)]) (\<lambda>_.
           st_return (OutDeleted True)))))))"

definition match_seed :: "TableDef \<Rightarrow> bytes \<Rightarrow> RowFilter \<Rightarrow> bytes \<times> bytes \<Rightarrow> (bytes \<times> bytes \<times> value list) list \<Rightarrow>
    (bytes \<times> bytes \<times> value list) list rm" where
  "match_seed d table filt = (\<lambda>(pk_key, bs) seeds.
     and_then (rejecting (decode_padded d bs)) (\<lambda>r.
     and_then (policy_res (filt d r)) (\<lambda>hit.
       Inr (if hit then seeds @ [(table, pk_key, r)] else seeds))))"

definition delete_where :: "'s ctx_ops \<Rightarrow> nat \<Rightarrow> bytes \<Rightarrow> RowFilter \<Rightarrow> ('s, JobOut) xm" where
  "delete_where cx n table filt =
     st_bind (st_read (\<lambda>s. load_table cx s table)) (\<lambda>d.
     st_bind (st_read (\<lambda>s. load_root cx s table)) (\<lambda>data.
     st_bind (st_read (\<lambda>s. and_then (cx_scan cx s data None None) (\<lambda>base. fold_res (match_seed d table filt) base []))) (\<lambda>seeds.
       if seeds = [] then st_return (OutAffected 0)
       else st_bind (delete_seeded cx n seeds) (\<lambda>_. st_return (OutAffected (length seeds))))))"

section \<open>Jobs\<close>

datatype WriteSpec =
  SpecInsert bytes "(bytes \<times> value) list list"
| SpecUpdate bytes RowUpdater
| SpecDelete bytes RowFilter

fun run_spec :: "('c, 'r) host_ops \<Rightarrow> 's ctx_ops \<Rightarrow> nat \<Rightarrow> WriteSpec \<Rightarrow> ('s, 'c, 'r, nat) catm" where
  "run_spec host cx n (SpecInsert table rs) =
     st_bind (insert_rows host cx table rs) (\<lambda>out. st_return (case out of OutRows rows \<Rightarrow> length rows | _ \<Rightarrow> 0))"
| "run_spec host cx n (SpecUpdate table policy) =
     st_bind (update_where host cx n table policy) (\<lambda>out. st_return (case out of OutAffected k \<Rightarrow> k | _ \<Rightarrow> 0))"
| "run_spec host cx n (SpecDelete table filt) =
     st_bind (on_cx (delete_where cx n table filt)) (\<lambda>out. st_return (case out of OutAffected k \<Rightarrow> k | _ \<Rightarrow> 0))"

fun run_specs :: "('c, 'r) host_ops \<Rightarrow> 's ctx_ops \<Rightarrow> nat \<Rightarrow> WriteSpec list \<Rightarrow> nat list \<Rightarrow> ('s, 'c, 'r, JobOut) catm" where
  "run_specs host cx n [] counts = st_return (OutBatch counts)"
| "run_specs host cx n (sp # specs) counts =
     st_bind (run_spec host cx n sp) (\<lambda>k. run_specs host cx n specs (counts @ [k]))"

definition write_batch_job :: "('c, 'r) host_ops \<Rightarrow> 's ctx_ops \<Rightarrow> nat \<Rightarrow> WriteSpec list \<Rightarrow> ('s, 'c, 'r, JobOut) catm" where
  "write_batch_job host cx n specs = run_specs host cx n specs []"

datatype JobOp =
  JobCreateTable TableDef
| JobDropTable bytes
| JobAddColumn bytes ColumnDef
| JobCreateIndex bytes IndexDef
| JobDropIndex bytes bytes
| JobInsert bytes "(bytes \<times> value) list list"
| JobUpdate bytes "value list" "(bytes \<times> value) list"
| JobDelete bytes "value list"
| JobUpdateWhere bytes RowUpdater
| JobDeleteWhere bytes RowFilter
| JobBatch "WriteSpec list"

fun catalog_job :: "('c, 'r) host_ops \<Rightarrow> 's ctx_ops \<Rightarrow> nat \<Rightarrow> JobOp \<Rightarrow> ('s, 'c, 'r, JobOut) catm" where
  "catalog_job host cx n (JobCreateTable d) = on_cx (create_table cx d)"
| "catalog_job host cx n (JobDropTable nm) = on_cx (drop_table cx nm)"
| "catalog_job host cx n (JobAddColumn table column) = on_cx (add_column cx table column)"
| "catalog_job host cx n (JobCreateIndex table index) = on_cx (create_index cx table index)"
| "catalog_job host cx n (JobDropIndex table index) = on_cx (drop_index cx table index)"
| "catalog_job host cx n (JobInsert table rs) = insert_rows host cx table rs"
| "catalog_job host cx n (JobUpdate table pk sets) = update_row host cx n table pk sets"
| "catalog_job host cx n (JobDelete table pk) = on_cx (delete_row cx n table pk)"
| "catalog_job host cx n (JobUpdateWhere table policy) = update_where host cx n table policy"
| "catalog_job host cx n (JobDeleteWhere table filt) = on_cx (delete_where cx n table filt)"
| "catalog_job host cx n (JobBatch specs) = write_batch_job host cx n specs"

end
