(* ===== verification/CatForest.thy ===== *)
theory CatForest
  imports CatWrite CatReader BTreeSpec
begin

text \<open>What the catalog's jobs need of a write context: the locale \<open>tree_store\<close>, a store of trees, each a finite map under
  its root. A change makes a new tree and leaves the old ones readable. The number in \<open>content\<close> is how many
  further changes are sure to fit: it stands for the depth and step budgets of the tree operations and for the
  room left in the store. The contract is kept by the write context of the transaction layer and by a
  reference store of sorted lists.\<close>

section \<open>The contract\<close>

definition kept_trees :: "(nat \<Rightarrow> 's \<Rightarrow> PageId \<rightharpoonup> (bytes \<rightharpoonup> bytes)) \<Rightarrow> nat \<Rightarrow> 's \<Rightarrow> nat \<Rightarrow> 's \<Rightarrow> bool" where
  "kept_trees content n s n' s' \<longleftrightarrow> (\<forall>q f. content n s q = Some f \<longrightarrow> content n' s' q = Some f)"

locale tree_store =
  fixes cx :: "'s ctx_ops" and content :: "nat \<Rightarrow> 's \<Rightarrow> PageId \<rightharpoonup> (bytes \<rightharpoonup> bytes)"
  assumes weaken: "content (Suc n) s r = Some m \<Longrightarrow> content n s r = Some m"
    and sized_in: "content n s r = Some m \<Longrightarrow> m k = Some v \<Longrightarrow> check_entry k v = Inr ()"
    and lookup_in: "content n s r = Some m \<Longrightarrow> cx_lookup cx s r k = Inr (m k)"
    and scan_in: "content n s r = Some m \<Longrightarrow> \<exists>out. cx_scan cx s r lo hi = Inr out
      \<and> sorted_wrt (<) (map fst out) \<and> set out = {(k, v). m k = Some v \<and> within lo hi k}"
    and insert_in: "content (Suc n) s r = Some m \<Longrightarrow> check_entry k v = Inr () \<Longrightarrow> \<exists>r' s'. cx_insert cx r k v s = (Inr r', s')
      \<and> cx_root cx s' = cx_root cx s \<and> content n s' r' = Some (m(k \<mapsto> v)) \<and> kept_trees content (Suc n) s n s'"
    and delete_in: "content (Suc n) s r = Some m \<Longrightarrow> \<exists>res s'. cx_delete cx r k s = (res, s')
      \<and> cx_root cx s' = cx_root cx s \<and> kept_trees content (Suc n) s n s'
      \<and> (case res of Inl e \<Rightarrow> overfull e | Inr r' \<Rightarrow> content n s' r' = Some (m(k := None)))"
    and create_in: "content (Suc n) s r = Some m \<Longrightarrow> \<exists>r' s'. cx_create_tree cx s = (Inr r', s')
      \<and> cx_root cx s' = cx_root cx s \<and> content n s' r' = Some Map.empty \<and> kept_trees content (Suc n) s n s'"
    and free_in: "content n s r = Some m \<Longrightarrow> \<exists>s'. cx_free_tree cx r s = (Inr (), s')
      \<and> cx_root cx s' = cx_root cx s \<and> kept_trees content n s n s'"
    and root_set: "cx_root cx (cx_set_root cx r s) = r" "content n (cx_set_root cx r s) = content n s"

section \<open>The write context of the transaction layer\<close>

definition write_ctx :: "'b io_ops \<Rightarrow> nat \<Rightarrow> nat \<Rightarrow> 'b WriteCtx ctx_ops" where
  "write_ctx ops n steps =
     \<lparr> cx_root = ctx_root,
       cx_lookup = (\<lambda>c root key. fst (ctx_lookup ops n root key c)),
       cx_scan = (\<lambda>c root lo hi. fst (ctx_scan ops n steps root lo hi c)),
       cx_set_root = (\<lambda>root c. c\<lparr> ctx_root := root \<rparr>),
       cx_insert = ctx_insert ops n, cx_delete = ctx_delete ops n,
       cx_create_tree = create_tree ops, cx_free_tree = free_tree ops PAGE_LIMIT \<rparr>"

text \<open>The trees of a context that stay within the budgets for \<open>k\<close> more changes.\<close>

definition ctx_trees :: "nat \<Rightarrow> nat \<Rightarrow> nat \<Rightarrow> bytes WriteCtx \<Rightarrow> PageId \<rightharpoonup> (bytes \<rightharpoonup> bytes)" where
  "ctx_trees n steps k c =
     (if k * (3 * n + 3) \<le> room (ctx_pager c) then trees_of (n - k) (steps - k) (ctx_pager c) else Map.empty)"

lemma ctx_trees_Some:
  "ctx_trees n steps k c r = Some f \<longleftrightarrow> k * (3 * n + 3) \<le> room (ctx_pager c) \<and> pager_inv (backend (ctx_pager c)) (ctx_pager c)
     \<and> (\<exists>h P. holds (stored (ctx_pager c)) h r f P \<and> h + k + 2 \<le> n \<and> card (dom f) + k < steps)"
  by (auto simp: ctx_trees_def trees_of_Some fits_tree_def)

lemma later_inv: "later p p' \<Longrightarrow> pager_inv (backend p') p'"
  by (simp add: mem_pages.later_def)

lemma ctx_trees_later:
  assumes "later (ctx_pager c) (ctx_pager c')" "room (ctx_pager c) \<le> room (ctx_pager c') + (3 * n + 3)"
  shows "kept_trees (ctx_trees n steps) (Suc k) c k c'"
  unfolding kept_trees_def ctx_trees_Some using assms later_inv mem_later_holds
  by (fastforce simp: algebra_simps)

lemma stepped_trees:
  assumes "ctx_trees n steps (Suc k) c r = Some f" "later (ctx_pager c) (ctx_pager c')"
    "room (ctx_pager c) \<le> room (ctx_pager c') + (3 * n + 3)" "stepped c c' h' r' f' P" "h' + k + 2 \<le> n" "card (dom f') \<le> Suc (card (dom f))"
  shows "ctx_trees n steps k c' r' = Some f'"
proof -
  obtain Q where "holds (stored (ctx_pager c')) h' r' f' Q" using assms(4) unfolding stepped_def by blast
  then show ?thesis using assms(1,3,5,6) later_inv [OF assms(2)] unfolding ctx_trees_Some by (fastforce simp: algebra_simps)
qed

lemma card_used: "pager_inv d p \<Longrightarrow> finite (used p) \<and> card (used p) \<le> PAGE_LIMIT"
proof -
  assume inv: "pager_inv d p"
  have "unat ` used p \<subseteq> {..<PAGE_LIMIT}"
    using inv data_page_limit [of _ p] by (auto simp: used_def pager_inv_def)
  then have "card (unat ` used p) \<le> PAGE_LIMIT" using card_mono [of "{..<PAGE_LIMIT}"] by fastforce
  moreover have "card (unat ` used p) = card (used p)" by (intro card_image inj_onI) (simp add: word_unat_eq_iff)
  ultimately show ?thesis by simp
qed

lemma free_tree_ok:
  assumes "pager_inv (backend (ctx_pager c)) (ctx_pager c)" "holds (stored (ctx_pager c)) h r f P"
  shows "\<exists>c'. free_tree mem_ops PAGE_LIMIT r c = (Inr (), c') \<and> ctx_root c' = ctx_root c
    \<and> mem_pages.same (ctx_pager c) (ctx_pager c')"
proof -
  obtain kvs ps where t: "tree h (stored (ctx_pager c)) None None r kvs ps" "distinct ps" "set ps = P"
    using assms(2) unfolding holds_def by blast
  have "P \<subseteq> used (ctx_pager c)" by (rule holds_used [OF assms(2)])
  then have "card P \<le> PAGE_LIMIT" using card_used [OF assms(1)] card_mono le_trans by blast
  then have "size (mset ps) \<le> PAGE_LIMIT" using t(2,3) distinct_card [of ps] by simp
  then obtain acc p where "tree_pages_loop (pager_ops mem_ops) PAGE_LIMIT [r] [] (ctx_pager c) = (Inr acc, p)" "mem_pages.same (ctx_pager c) p"
    using mem_pages.tree_pages_loop_ok [OF assms(1) forest_single [OF t(1) [unfolded stored_def]]] by meson
  then have "free_tree mem_ops PAGE_LIMIT r c = (Inr (), c\<lparr> ctx_pager := p, ctx_freed := ctx_freed c @ acc \<rparr>)"
    by (simp add: free_tree_def on_tree_run extend_freed_def tree_pages_def)
  then show ?thesis using \<open>mem_pages.same (ctx_pager c) p\<close> by simp
qed

lemma kids_entry: "kids Q lo hi ks cs kvs ps \<Longrightarrow> x \<in> set kvs \<Longrightarrow> \<exists>lo hi c a p. Q lo hi c a p \<and> x \<in> set a"
  by (induction Q lo hi ks cs kvs ps rule: kids.induct) (auto, blast+)

lemma tree_sized: "tree h m lo hi r kvs ps \<Longrightarrow> (k, v) \<in> set kvs \<Longrightarrow> check_entry k v = Inr ()"
proof (induction h arbitrary: lo hi r kvs ps)
  case 0
  then obtain ks vs where l: "cells_ok (Leaf ks vs)" "kvs = zip ks vs" by auto
  then have "4 + length k + length v \<in> set (node_cells (Leaf ks vs))" "k \<in> set ks"
    using 0(2) by (auto simp: leaf_cells_def dest: set_zip_leftD)
  then show ?case using l(1) unfolding check_entry_iff entry_ok_def cells_ok_def by auto
next
  case (Suc h)
  then show ?case using kids_entry [of "tree h m" lo hi _ _ kvs _ "(k, v)"] by fastforce
qed

interpretation pager_trees: tree_store "write_ctx mem_ops n steps" "ctx_trees n steps" for n steps
proof unfold_locales
  fix k c r f assume t: "ctx_trees n steps (Suc k) c r = Some f"
  then show "ctx_trees n steps k c r = Some f" unfolding ctx_trees_Some by fastforce
  obtain h P where h: "pager_inv (backend (ctx_pager c)) (ctx_pager c)" "holds (stored (ctx_pager c)) h r f P" "h + Suc k + 2 \<le> n"
    "card (dom f) + Suc k < steps" "Suc k * (3 * n + 3) \<le> room (ctx_pager c)" using t unfolding ctx_trees_Some by blast
  have room: "2 * h + 3 \<le> room (ctx_pager c)" "3 * (h + 1) \<le> room (ctx_pager c)" "0 < room (ctx_pager c)" "h < n" using h(3,5) by auto
  have fin: "finite (dom f)" using holds_finite [OF h(2)] by simp
  show "\<exists>r' c'. cx_insert (write_ctx mem_ops n steps) r key v c = (Inr r', c')
      \<and> cx_root (write_ctx mem_ops n steps) c' = cx_root (write_ctx mem_ops n steps) c
      \<and> ctx_trees n steps k c' r' = Some (f(key \<mapsto> v)) \<and> kept_trees (ctx_trees n steps) (Suc k) c k c'"
    if "check_entry key v = Inr ()" for key v
  proof -
    from ctx_insert_ok [OF h(1,2) that [unfolded check_entry_iff] room(1,4)] obtain r' c' h' where i:
      "ctx_insert mem_ops n r key v c = (Inr r', c')" "later (ctx_pager c) (ctx_pager c')" "ctx_root c' = ctx_root c" "h' \<le> Suc h"
      "room (ctx_pager c) \<le> room (ctx_pager c') + (2 * h + 3)" "stepped c c' h' r' (f(key \<mapsto> v)) P" by blast
    have rm: "room (ctx_pager c) \<le> room (ctx_pager c') + (3 * n + 3)" using i(5) h(3) by simp
    have "card (dom (f(key \<mapsto> v))) \<le> Suc (card (dom f))" using fin by (simp add: card_insert_if)
    then show ?thesis using i(1,3,4) ctx_trees_later [OF i(2) rm] stepped_trees [OF t i(2) rm i(6)] h(3)
      by (simp add: write_ctx_def)
  qed
  show "\<exists>res c'. cx_delete (write_ctx mem_ops n steps) r key c = (res, c')
      \<and> cx_root (write_ctx mem_ops n steps) c' = cx_root (write_ctx mem_ops n steps) c \<and> kept_trees (ctx_trees n steps) (Suc k) c k c'
      \<and> (case res of Inl e \<Rightarrow> overfull e | Inr r' \<Rightarrow> ctx_trees n steps k c' r' = Some (f(key := None)))" for key
  proof -
    from ctx_delete_ok [OF h(1,2) room(2,4), of key] obtain res c' where d: "ctx_delete mem_ops n r key c = (res, c')"
      "later (ctx_pager c) (ctx_pager c')" "ctx_root c' = ctx_root c" "room (ctx_pager c) \<le> room (ctx_pager c') + 3 * (h + 1)"
      "case res of Inl e \<Rightarrow> overfull e | Inr r' \<Rightarrow> \<exists>h' \<le> h. stepped c c' h' r' (f(key := None)) P" by blast
    have rm: "room (ctx_pager c) \<le> room (ctx_pager c') + (3 * n + 3)" using d(4) h(3) by simp
    have "card (dom (f(key := None))) \<le> Suc (card (dom f))" by (simp add: card_Diff1_le le_SucI)
    then have "ctx_trees n steps k c' r' = Some (f(key := None))" if "res = Inr r'" for r'
      using d(5) that stepped_trees [OF t d(2) rm] h(3) by fastforce
    then show ?thesis using d(1,3,5) ctx_trees_later [OF d(2) rm] by (auto simp: write_ctx_def split: sum.splits)
  qed
  show "\<exists>r' c'. cx_create_tree (write_ctx mem_ops n steps) c = (Inr r', c')
      \<and> cx_root (write_ctx mem_ops n steps) c' = cx_root (write_ctx mem_ops n steps) c
      \<and> ctx_trees n steps k c' r' = Some Map.empty \<and> kept_trees (ctx_trees n steps) (Suc k) c k c'"
  proof -
    from mem_pages.create_holds [OF h(1) room(3)] obtain i p where c: "create (pager_ops mem_ops) (ctx_pager c) = (Inr i, p)"
      "later (ctx_pager c) p" "holds (stored p) 0 i Map.empty {i}" "room (ctx_pager c) \<le> room p + 1" unfolding stored_def by blast
    let ?c = "c\<lparr> ctx_pager := p \<rparr>"
    have l: "later (ctx_pager c) (ctx_pager ?c)" "room (ctx_pager c) \<le> room (ctx_pager ?c) + (3 * n + 3)" using c(2,4) by simp_all
    have "ctx_trees n steps k ?c i = Some Map.empty"
      unfolding ctx_trees_Some using later_inv [OF c(2)] c(3,4) h(3-5) by (auto intro!: exI [of _ 0] exI [of _ "{i}"])
    then show ?thesis using c(1) ctx_trees_later [OF l] by (simp add: write_ctx_def create_tree_def on_tree_run)
  qed
next
  fix k c r f assume t: "ctx_trees n steps k c r = Some f"
  then obtain h P where h: "pager_inv (backend (ctx_pager c)) (ctx_pager c)" "holds (stored (ctx_pager c)) h r f P" "h + k + 2 \<le> n"
    "card (dom f) + k < steps" unfolding ctx_trees_Some by blast
  have fits: "fits_tree n steps (ctx_pager c) r f" unfolding fits_tree_def using h by fastforce
  show "check_entry key v = Inr ()" if "f key = Some v" for key v
    using h(2) that tree_sized unfolding holds_def by (metis map_of_SomeD)
  show "cx_lookup (write_ctx mem_ops n steps) c r key = Inr (f key)" for key
  proof -
    obtain p' where l: "tree_lookup (pager_ops mem_ops) (Suc h) r key (ctx_pager c) = (Inr (f key), p')"
      using mem_pages.holds_lookup [OF h(1) h(2) [unfolded stored_def], of key] by blast
    then have "tree_lookup (pager_ops mem_ops) n r key (ctx_pager c) = (Inr (f key), p')"
      using tree_lookup_budget [OF l] h(3) by simp
    then show ?thesis by (simp add: write_ctx_def ctx_lookup_def on_tree_run)
  qed
  show "\<exists>out. cx_scan (write_ctx mem_ops n steps) c r lo hi = Inr out
      \<and> sorted_wrt (<) (map fst out) \<and> set out = {(k, v). f k = Some v \<and> within lo hi k}" for lo hi
    using fits_range [OF fits, of lo hi] by (auto simp: write_ctx_def ctx_scan_def on_tree_run)
  show "\<exists>c'. cx_free_tree (write_ctx mem_ops n steps) r c = (Inr (), c')
      \<and> cx_root (write_ctx mem_ops n steps) c' = cx_root (write_ctx mem_ops n steps) c \<and> kept_trees (ctx_trees n steps) k c k c'"
  proof -
    obtain c' where f: "free_tree mem_ops PAGE_LIMIT r c = (Inr (), c')" "ctx_root c' = ctx_root c"
      "mem_pages.same (ctx_pager c) (ctx_pager c')" using free_tree_ok [OF h(1,2)] by blast
    then have "stored (ctx_pager c') = stored (ctx_pager c)" "room (ctx_pager c') = room (ctx_pager c)"
      "pager_inv (backend (ctx_pager c')) (ctx_pager c')" by (simp_all add: mem_pages.same_def stored_def)
    then have "kept_trees (ctx_trees n steps) k c k c'" by (simp add: kept_trees_def ctx_trees_Some)
    then show ?thesis using f by (simp add: write_ctx_def)
  qed
next
  fix k c r
  show "cx_root (write_ctx mem_ops n steps) (cx_set_root (write_ctx mem_ops n steps) r c) = r"
    "ctx_trees n steps k (cx_set_root (write_ctx mem_ops n steps) r c) = ctx_trees n steps k c"
    by (simp_all add: write_ctx_def ctx_trees_def)
qed

end
