(* ===== verification/CatIndexes.thy ===== *)
theory CatIndexes
  imports CatSpec CatForest
begin

text \<open>Index maintenance, as pure facts on the maps of a table: adding, removing and replacing one row with its entry
  keeps an index exact.\<close>

section \<open>The entry of a row\<close>

definition row_ent :: "TableDef \<Rightarrow> IndexDef \<Rightarrow> bytes \<Rightarrow> value list \<Rightarrow> IndexEntry option" where
  "row_ent d idx k r = projr (entry (index_cols d idx r) k (ix_unique idx))"

definition row_good :: "TableDef \<Rightarrow> value list \<Rightarrow> bool" where
  "row_good d r \<longleftrightarrow> row_typed d r \<and> list_all value_wf r"

lemma index_cols_keyable:
  assumes "table_ok d" "idx \<in> set (td_indexes d)" "row_good d r"
  shows "\<forall>v \<in> set (index_cols d idx r). keyable v"
proof -
  note cols = key_columns_table(2) [OF assms(1,2)]
  have r: "row_typed d r" "list_all value_wf r" using assms(3) by (simp_all add: row_good_def)
  show ?thesis using cells_keyable [OF cols r] cells_positions(2) [OF cols r(1)] by (simp add: index_cols_def)
qed

lemma row_ent_entry:
  assumes "table_ok d" "idx \<in> set (td_indexes d)" "row_good d r"
  shows "entry (index_cols d idx r) k (ix_unique idx) = Inr (row_ent d idx k r)" "entry_of d idx r k = Inr (row_ent d idx k r)"
proof -
  show e: "entry (index_cols d idx r) k (ix_unique idx) = Inr (row_ent d idx k r)"
    using index_cols_keyable [OF assms] by (simp add: row_ent_def entry_def encode_key_concat)
  show "entry_of d idx r k = Inr (row_ent d idx k r)" using e by (simp add: entry_of_def entry_for_def)
qed

lemma row_ent_key:
  assumes "table_ok d" "idx \<in> set (td_indexes d)" "row_good d r" "row_ent d idx k r = Some e"
  shows "entry_key e = concat (map enc_bytes (index_cols d idx r)) @ (if ix_unique idx then [] else k)" "entry_value e = k"
  using entry_keys [OF index_cols_keyable [OF assms(1-3)]] row_ent_entry(1) [OF assms(1-3), of k] assms(4) by auto

text \<open>A non-unique index never lists two rows under one key.\<close>

lemma row_ent_inj:
  assumes "table_ok d" "idx \<in> set (td_indexes d)" "row_good d r" "row_good d r'" "\<not> ix_unique idx"
    "row_ent d idx k r = Some e" "row_ent d idx k' r' = Some e'" "entry_key e = entry_key e'"
  shows "k = k'"
proof -
  note kk = row_ent_key(1) [OF assms(1,2,3,6)] row_ent_key(1) [OF assms(1,2,4,7)]
  let ?u = "index_cols d idx r" and ?v = "index_cols d idx r'"
  have len: "length ?u = length ?v" by (simp add: index_cols_def)
  note ky = index_cols_keyable [OF assms(1,2,3)] index_cols_keyable [OF assms(1,2,4)]
  have eq: "concat (map enc_bytes ?u) @ k = concat (map enc_bytes ?v) @ k'" using kk assms(5,8) by simp
  have "prefix (concat (map enc_bytes ?u)) (concat (map enc_bytes ?v) @ k')" unfolding eq [symmetric] by simp
  then have "list_all2 value_eq ?u ?v" using prefix_encoded [OF len ky] by simp
  then have "concat (map enc_bytes ?u) = concat (map enc_bytes ?v)" using encoding_eq [OF len ky] by simp
  then show ?thesis using eq by simp
qed

section \<open>One row at a time\<close>

definition put_ent :: "IndexEntry option \<Rightarrow> (bytes \<rightharpoonup> bytes) \<Rightarrow> (bytes \<rightharpoonup> bytes)" where
  "put_ent e im = (case e of Some e \<Rightarrow> im(entry_key e \<mapsto> entry_value e) | None \<Rightarrow> im)"

definition drop_ent :: "IndexEntry option \<Rightarrow> (bytes \<rightharpoonup> bytes) \<Rightarrow> (bytes \<rightharpoonup> bytes)" where
  "drop_ent e im = (case e of Some e \<Rightarrow> im(entry_key e := None) | None \<Rightarrow> im)"

lemma rows_stored_good:
  "rows_stored d m \<Longrightarrow> m k = Some bs \<Longrightarrow> row_good d (row_at d m k) \<and> decode_padded d bs = Inr (row_at d m k) \<and> pk_key_of d (row_at d m k) = Inr k"
  using row_at_stored by (simp add: row_good_def)

lemma index_stored_iff:
  assumes "table_ok d" "idx \<in> set (td_indexes d)" "rows_stored d m"
  shows "index_stored d idx m im \<longleftrightarrow>
    (\<forall>k v. im k = Some v \<longleftrightarrow> (v \<in> dom m \<and> (\<exists>e. row_ent d idx v (row_at d m v) = Some e \<and> entry_key e = k)))"
proof -
  have base: "(v, r) \<in> base_rows d m \<longleftrightarrow> v \<in> dom m \<and> r = row_at d m v" for v r
    using row_at_stored(1) [OF assms(3)] by (auto simp: base_rows_def)
  have "(\<exists>(cols, pk) \<in> (\<lambda>(k, r). (index_cols d idx r, k)) ` base_rows d m.
        entry cols pk (ix_unique idx) = Inr (Some \<lparr> entry_key = k, entry_value = v \<rparr>)) \<longleftrightarrow>
      (v \<in> dom m \<and> (\<exists>e. row_ent d idx v (row_at d m v) = Some e \<and> entry_key e = k))" (is "?L \<longleftrightarrow> ?R") for k v
  proof
    assume ?L
    then obtain pk where p: "pk \<in> dom m" "entry (index_cols d idx (row_at d m pk)) pk (ix_unique idx) = Inr (Some \<lparr> entry_key = k, entry_value = v \<rparr>)"
      by (auto simp: base)
    moreover have "pk = v" using p(2) entry_some by fastforce
    ultimately show ?R by (auto simp: row_ent_def)
  next
    assume R: ?R
    then obtain e where e: "v \<in> dom m" "row_ent d idx v (row_at d m v) = Some e" "entry_key e = k" by blast
    then have g: "row_good d (row_at d m v)" using rows_stored_good [OF assms(3)] by blast
    have "e = \<lparr> entry_key = k, entry_value = v \<rparr>" using row_ent_key(2) [OF assms(1,2) g e(2)] e(3) by simp
    then have "entry (index_cols d idx (row_at d m v)) v (ix_unique idx) = Inr (Some \<lparr> entry_key = k, entry_value = v \<rparr>)"
      using e(2) row_ent_entry(1) [OF assms(1,2) g, of v] by simp
    moreover have "(index_cols d idx (row_at d m v), v) \<in> (\<lambda>(k, r). (index_cols d idx r, k)) ` base_rows d m"
      using e(1) base [of v "row_at d m v"] by (intro image_eqI [where x = "(v, row_at d m v)"]) simp_all
    ultimately show ?L by blast
  qed
  then show ?thesis unfolding index_stored_def indexes_def by simp
qed

lemma row_at_upd: "decode_padded d bs = Inr r \<Longrightarrow> row_at d (m(k \<mapsto> bs)) k = r" "k \<noteq> k' \<Longrightarrow> row_at d (m(k := x)) k' = row_at d m k'"
  by (simp_all add: row_at_def)

lemma rows_stored_put:
  "rows_stored d m \<Longrightarrow> decode_padded d bs = Inr r \<Longrightarrow> row_good d r \<Longrightarrow> pk_key_of d r = Inr k \<Longrightarrow> rows_stored d (m(k \<mapsto> bs))"
  by (auto simp: rows_stored_def row_good_def)

lemma rows_stored_drop: "rows_stored d m \<Longrightarrow> rows_stored d (m(k := None))"
  by (auto simp: rows_stored_def)

lemma index_add:
  assumes ok: "table_ok d" "idx \<in> set (td_indexes d)" "rows_stored d m" "index_stored d idx m im"
    and new: "m k = None" "decode_padded d bs = Inr r" "row_good d r" "pk_key_of d r = Inr k"
    and free: "\<And>e. row_ent d idx k r = Some e \<Longrightarrow> ix_unique idx \<Longrightarrow> im (entry_key e) = None"
  shows "index_stored d idx (m(k \<mapsto> bs)) (put_ent (row_ent d idx k r) im)"
proof -
  note st = rows_stored_put [OF ok(3) new(2-4)]
  note old = ok(4) [unfolded index_stored_iff [OF ok(1-3)]]
  have at: "row_at d (m(k \<mapsto> bs)) v = (if v = k then r else row_at d m v)" for v using row_at_upd new(2) by auto
  have fresh: "im (entry_key e) = None" if e: "row_ent d idx k r = Some e" for e
  proof (cases "ix_unique idx")
    case False
    show ?thesis
    proof (rule ccontr)
      assume "im (entry_key e) \<noteq> None"
      then obtain v where "im (entry_key e) = Some v" by blast
      then obtain e' where e': "v \<in> dom m" "row_ent d idx v (row_at d m v) = Some e'" "entry_key e' = entry_key e" using old by blast
      then have "row_good d (row_at d m v)" using rows_stored_good [OF ok(3)] by blast
      then have "v = k" using row_ent_inj [OF ok(1,2) _ new(3) False e'(2) e e'(3)] by blast
      then show False using e'(1) new(1) by auto
    qed
  qed (use free e in blast)
  show ?thesis unfolding index_stored_iff [OF ok(1,2) st]
  proof (intro allI)
    fix q v
    show "put_ent (row_ent d idx k r) im q = Some v \<longleftrightarrow>
        (v \<in> dom (m(k \<mapsto> bs)) \<and> (\<exists>e. row_ent d idx v (row_at d (m(k \<mapsto> bs)) v) = Some e \<and> entry_key e = q))"
    proof (cases "row_ent d idx k r")
      case None
      then show ?thesis using old new(1) by (auto simp: put_ent_def at)
    next
      case (Some e)
      note ev = row_ent_key(2) [OF ok(1,2) new(3) Some]
      show ?thesis
      proof (cases "v = k")
        case True
        then show ?thesis using Some ev old new(1) by (auto simp: put_ent_def at)
      next
        case False
        have "put_ent (row_ent d idx k r) im q = Some v \<longleftrightarrow> im q = Some v"
          using Some ev False fresh [OF Some] by (simp add: put_ent_def)
        then show ?thesis using old False by (auto simp: at)
      qed
    qed
  qed
qed

lemma index_drop:
  assumes ok: "table_ok d" "idx \<in> set (td_indexes d)" "rows_stored d m" "index_stored d idx m im" and k: "m k = Some bs"
  shows "index_stored d idx (m(k := None)) (drop_ent (row_ent d idx k (row_at d m k)) im)"
proof -
  note old = ok(4) [unfolded index_stored_iff [OF ok(1-3)]]
  have at: "v \<noteq> k \<Longrightarrow> row_at d (m(k := None)) v = row_at d m v" for v using row_at_upd(2) by metis
  have own: "v = k" if "row_ent d idx k (row_at d m k) = Some e" "im (entry_key e) = Some v" for e v
    using old that k by (metis domI option.inject)
  show ?thesis unfolding index_stored_iff [OF ok(1,2) rows_stored_drop [OF ok(3)]]
  proof (intro allI)
    fix q v
    show "drop_ent (row_ent d idx k (row_at d m k)) im q = Some v \<longleftrightarrow>
        (v \<in> dom (m(k := None)) \<and> (\<exists>e. row_ent d idx v (row_at d (m(k := None)) v) = Some e \<and> entry_key e = q))"
    proof (cases "v = k")
      case True
      then show ?thesis using old by (auto simp: drop_ent_def split: option.splits)
    next
      case False
      have "drop_ent (row_ent d idx k (row_at d m k)) im q = Some v \<longleftrightarrow> im q = Some v"
        using own False by (auto simp: drop_ent_def split: option.splits)
      then show ?thesis using old False by (auto simp: at)
    qed
  qed
qed

lemma index_replace:
  assumes ok: "table_ok d" "idx \<in> set (td_indexes d)" "rows_stored d m" "index_stored d idx m im" and k: "m k = Some b0"
    and new: "decode_padded d bs = Inr r" "row_good d r" "pk_key_of d r = Inr k"
    and free: "\<And>e. row_ent d idx k r = Some e \<Longrightarrow> ix_unique idx \<Longrightarrow> drop_ent (row_ent d idx k (row_at d m k)) im (entry_key e) = None"
  shows "index_stored d idx (m(k \<mapsto> bs)) (put_ent (row_ent d idx k r) (drop_ent (row_ent d idx k (row_at d m k)) im))"
  using index_add [OF ok(1,2) rows_stored_drop [OF ok(3)] index_drop [OF ok k] _ new free] by simp

text \<open>Replacing a row whose entry keeps its key leaves the index as it is.\<close>

lemma index_replace_same:
  assumes ok: "table_ok d" "idx \<in> set (td_indexes d)" "rows_stored d m" "index_stored d idx m im" and k: "m k = Some b0"
    and new: "decode_padded d bs = Inr r" "row_good d r" "pk_key_of d r = Inr k"
    and same: "map_option entry_key (row_ent d idx k (row_at d m k)) = map_option entry_key (row_ent d idx k r)"
  shows "index_stored d idx (m(k \<mapsto> bs)) im"
proof -
  have at: "row_at d (m(k \<mapsto> bs)) v = (if v = k then r else row_at d m v)" for v using row_at_upd new(1) by auto
  have "(\<exists>e. row_ent d idx k r = Some e \<and> entry_key e = q) \<longleftrightarrow> (\<exists>e. row_ent d idx k (row_at d m k) = Some e \<and> entry_key e = q)" for q
    using same by (cases "row_ent d idx k r"; cases "row_ent d idx k (row_at d m k)") auto
  then show ?thesis using ok(4) k unfolding index_stored_iff [OF ok(1,2) rows_stored_put [OF ok(3) new]] index_stored_iff [OF ok(1-3)]
    by (auto simp: at)
qed

end
