(* ===== verification/CatRun.thy ===== *)
theory CatRun
  imports CatIndexes
begin

text \<open>Reasoning about the catalog's jobs over a store of trees: a small calculus of steps that keep the trees they do not
  change, the reads and writes of catalog entries, and what it takes for a changed table to leave the catalog
  consistent.\<close>

section \<open>Steps of a job\<close>

text \<open>A step from budget \<open>n\<close> to budget \<open>n'\<close>: it keeps every tree, and it either establishes \<open>Q\<close> or, where \<open>f\<close> allows it, is
  refused with an error that makes the writer roll the job back.\<close>

definition does :: "(nat \<Rightarrow> 's \<Rightarrow> PageId \<rightharpoonup> (bytes \<rightharpoonup> bytes)) \<Rightarrow> bool \<Rightarrow> nat \<Rightarrow> nat \<Rightarrow> ('s, 'a) xm \<Rightarrow> 's \<Rightarrow> ('a \<Rightarrow> 's \<Rightarrow> bool) \<Rightarrow> bool" where
  "does content f n n' m s Q \<longleftrightarrow> (case m s of
     (Inl e, s') \<Rightarrow> f \<and> \<not> is_fatal e
   | (Inr x, s') \<Rightarrow> kept_trees content n s n' s' \<and> Q x s')"

lemma kept_trans: "kept_trees A n s n1 s1 \<Longrightarrow> kept_trees A n1 s1 n2 s2 \<Longrightarrow> kept_trees A n s n2 s2"
  by (simp add: kept_trees_def)

lemma keptD: "kept_trees A n s n' s' \<Longrightarrow> A n s r = Some m \<Longrightarrow> A n' s' r = Some m"
  by (simp add: kept_trees_def)

lemma does_return: "Q x s \<Longrightarrow> does A f n n (st_return x) s Q"
  by (simp add: does_def kept_trees_def)

lemma does_lift: "r = Inr x \<Longrightarrow> Q x s \<Longrightarrow> does A f n n (st_lift r) s Q"
  by (simp add: does_def kept_trees_def)

lemma does_get: "Q (g s) s \<Longrightarrow> does A f n n (st_get g) s Q"
  by (simp add: does_def kept_trees_def)

lemma does_read: "g s = Inr x \<Longrightarrow> Q x s \<Longrightarrow> does A f n n (st_read g) s Q"
  by (simp add: does_def kept_trees_def st_read_def)

lemma does_bind:
  assumes "does A f n n1 m s P" "\<And>x s1. P x s1 \<Longrightarrow> kept_trees A n s n1 s1 \<Longrightarrow> does A f n1 n2 (g x) s1 Q"
  shows "does A f n n2 (st_bind m g) s Q"
proof (cases "m s")
  case (Pair res s1)
  show ?thesis
  proof (cases res)
    case (Inr x)
    then have "kept_trees A n s n1 s1" "P x s1" using assms(1) Pair by (simp_all add: does_def)
    with assms(2) [OF this(2,1)] show ?thesis using Pair Inr kept_trans [of A n s n1 s1 n2]
      by (auto simp: does_def split: prod.splits sum.splits)
  qed (use assms(1) Pair in \<open>simp add: does_def\<close>)
qed

lemma does_post: "does A f n n' m s P \<Longrightarrow> (\<And>x s'. P x s' \<Longrightarrow> kept_trees A n s n' s' \<Longrightarrow> Q x s') \<Longrightarrow> does A f n n' m s Q"
  by (auto simp: does_def split: prod.splits sum.splits)

lemma does_cases:
  assumes "does A f n n' m s Q"
  obtains e s' where "m s = (Inl e, s')" "f" "\<not> is_fatal e" | x s' where "m s = (Inr x, s')" "kept_trees A n s n' s'" "Q x s'"
  using assms that by (auto simp: does_def split: prod.splits sum.splits)

lemma does_never: "does A False n n' m s Q \<Longrightarrow> \<exists>x s'. m s = (Inr x, s') \<and> kept_trees A n s n' s' \<and> Q x s'"
  by (auto simp: does_def split: prod.splits sum.splits)

lemma does_may: "does A False n n' m s Q \<Longrightarrow> does A f n n' m s Q"
  by (auto simp: does_def split: prod.splits sum.splits)

context tree_store
begin

lemma weaken_more: "content (k + n) s r = Some m \<Longrightarrow> content n s r = Some m"
  by (induction k) (auto dest: weaken)

lemma weaken_le: "content n s r = Some m \<Longrightarrow> n' \<le> n \<Longrightarrow> content n' s r = Some m"
  using weaken_more [of "n - n'" n' s r m] by simp

lemma kept_less: "kept_trees content n s n' s' \<Longrightarrow> n'' \<le> n' \<Longrightarrow> kept_trees content n s n'' s'"
  unfolding kept_trees_def using weaken_le by metis

lemma does_less: "does content f n n' m s Q \<Longrightarrow> n'' \<le> n' \<Longrightarrow> (\<And>x s. Q x s \<Longrightarrow> Q' x s) \<Longrightarrow> does content f n n'' m s Q'"
  by (auto simp: does_def split: prod.splits sum.splits dest: kept_less)

text \<open>The catalog tree of a state.\<close>

abbreviation catalog :: "nat \<Rightarrow> 's \<Rightarrow> (bytes \<rightharpoonup> bytes) \<Rightarrow> bool" where
  "catalog n s cat \<equiv> content n s (cx_root cx s) = Some cat"

lemma does_insert:
  assumes "content (Suc n) s r = Some m" "check_entry k v = Inr ()" "catalog (Suc n) s cat"
  shows "does content f (Suc n) n (cx_insert cx r k v) s (\<lambda>r' s'. content n s' r' = Some (m(k \<mapsto> v)) \<and> catalog n s' cat)"
  using insert_in [OF assms(1,2)] assms(3) by (auto simp: does_def kept_trees_def)

lemma does_delete:
  assumes "content (Suc n) s r = Some m" "catalog (Suc n) s cat"
  shows "does content True (Suc n) n (cx_delete cx r k) s (\<lambda>r' s'. content n s' r' = Some (m(k := None)) \<and> catalog n s' cat)"
proof -
  obtain res s' where d: "cx_delete cx r k s = (res, s')" "cx_root cx s' = cx_root cx s" "kept_trees content (Suc n) s n s'"
    "case res of Inl e \<Rightarrow> overfull e | Inr r' \<Rightarrow> content n s' r' = Some (m(k := None))" using delete_in [OF assms(1)] by blast
  then show ?thesis using keptD [OF d(3) assms(2)] by (cases res) (simp_all add: does_def overfull_not_fatal)
qed

lemma does_create:
  assumes "catalog (Suc n) s cat"
  shows "does content f (Suc n) n (cx_create_tree cx) s (\<lambda>r' s'. content n s' r' = Some Map.empty \<and> catalog n s' cat)"
  using create_in [OF assms] assms by (auto simp: does_def kept_trees_def)

lemma does_free:
  assumes "content n s r = Some m" "catalog n s cat"
  shows "does content f n n (cx_free_tree cx r) s (\<lambda>_ s'. catalog n s' cat)"
  using free_in [OF assms(1)] assms(2) by (auto simp: does_def kept_trees_def)

lemma does_set_root:
  assumes "content n s r = Some cat"
  shows "does content f n n (st_modify (cx_set_root cx r)) s (\<lambda>_ s'. catalog n s' cat)"
  using assms by (simp add: does_def kept_trees_def root_set)

lemma does_store_entry:
  assumes "catalog (Suc n) s cat" "check_entry k v = Inr ()"
  shows "does content f (Suc n) n (store_entry cx k v) s (\<lambda>_ s'. catalog n s' (cat(k \<mapsto> v)))"
  unfolding store_entry_def
  by (rule does_bind [OF does_get [where Q = "\<lambda>x s'. x = cx_root cx s \<and> s' = s"]])
    (auto intro!: does_bind [OF does_insert [OF assms(1,2,1)]] does_set_root)

lemma does_remove_key:
  assumes "catalog (Suc n) s cat"
  shows "does content True (Suc n) n (remove_key cx k) s (\<lambda>_ s'. catalog n s' (cat(k := None)))"
  unfolding remove_key_def
  by (rule does_bind [OF does_get [where Q = "\<lambda>x s'. x = cx_root cx s \<and> s' = s"]])
    (auto intro!: does_bind [OF does_delete [OF assms(1,1)]] does_set_root)

text \<open>A root is stored over another: the record has the same size.\<close>

lemma root_sized: "catalog n s cat \<Longrightarrow> cat k = Some (encode_root r) \<Longrightarrow> check_entry k (encode_root r') = Inr ()"
  using sized_in [of n s _ cat k] by (fastforce simp: check_entry_def encode_root_def Let_def split: if_splits)

lemma does_store_root:
  assumes "catalog (Suc n) s cat" "key = Inr k" "check_entry k (encode_root r) = Inr ()"
  shows "does content f (Suc n) n (store_root cx key r) s (\<lambda>_ s'. catalog n s' (cat(k \<mapsto> encode_root r)))"
  unfolding store_root_def assms(2)
  by (rule does_bind [OF does_lift [where Q = "\<lambda>x s'. x = k \<and> s' = s"]])
    (auto simp: rejecting_def intro!: does_store_entry assms(1,3))

lemma does_insert_entry:
  assumes "content (Suc n) s r = Some m" "check_entry (entry_key e) (entry_value e) = Inr ()" "catalog (Suc n) s cat"
  shows "does content f (Suc n) n (cx_insert_entry cx r e) s (\<lambda>r' s'. content n s' r' = Some (put_ent (Some e) m) \<and> catalog n s' cat)"
  using does_never [OF does_insert [OF assms]] by (auto simp: does_def cx_insert_entry_def put_ent_def)

lemma overfull_idx: "overfull e \<Longrightarrow> map_option idx_err (map_option IndexTxn e) = e"
  by (auto simp: overfull_def)

lemma does_remove_entry:
  assumes "content (Suc n) s r = Some m" "catalog (Suc n) s cat"
  shows "does content True (Suc n) n (cx_remove_entry cx r e) s (\<lambda>r' s'. content n s' r' = Some (drop_ent (Some e) m) \<and> catalog n s' cat)"
proof -
  obtain res s' where d: "cx_delete cx r (entry_key e) s = (res, s')" "cx_root cx s' = cx_root cx s" "kept_trees content (Suc n) s n s'"
    "case res of Inl e \<Rightarrow> overfull e | Inr r' \<Rightarrow> content n s' r' = Some (m(entry_key e := None))" using delete_in [OF assms(1)] by blast
  then show ?thesis using keptD [OF d(3) assms(2)]
    by (cases res) (simp_all add: does_def cx_remove_entry_def drop_ent_def overfull_idx overfull_not_fatal)
qed

end

section \<open>Several trees\<close>

definition trees_at :: "(PageId \<rightharpoonup> (bytes \<rightharpoonup> bytes)) \<Rightarrow> PageId list \<Rightarrow> (bytes \<rightharpoonup> bytes) list \<Rightarrow> bool" where
  "trees_at A roots ims \<longleftrightarrow> list_all2 (\<lambda>r im. A r = Some im) roots ims"

lemma trees_at_nth: "trees_at A roots ims \<Longrightarrow> i < length roots \<Longrightarrow> A (roots ! i) = Some (ims ! i)"
  "trees_at A roots ims \<Longrightarrow> length roots = length ims"
  by (auto simp: trees_at_def list_all2_conv_all_nth)

lemma trees_at_upd: "trees_at A roots ims \<Longrightarrow> A r = Some im \<Longrightarrow> trees_at A (roots[i := r]) (ims[i := im])"
  by (auto simp: trees_at_def intro: list_all2_update_cong)

lemma trees_at_kept: "kept_trees C n s n' s' \<Longrightarrow> trees_at (C n s) roots ims \<Longrightarrow> trees_at (C n' s') roots ims"
  by (auto simp: trees_at_def kept_trees_def elim: list_all2_mono)

text \<open>What a delta does to the maps of the indexes.\<close>

definition delta_maps :: "index_delta \<Rightarrow> (bytes \<rightharpoonup> bytes) list \<Rightarrow> (bytes \<rightharpoonup> bytes) list" where
  "delta_maps = (\<lambda>(i, old_e, new_e) ims. ims[i := put_ent new_e (drop_ent old_e (ims ! i))])"

definition delta_sized :: "nat \<Rightarrow> index_delta \<Rightarrow> bool" where
  "delta_sized l = (\<lambda>(i, old_e, new_e). i < l \<and> (\<forall>e. new_e = Some e \<longrightarrow> check_entry (entry_key e) (entry_value e) = Inr ()))"

lemma length_delta_maps [simp]: "length (delta_maps x ims) = length ims"
  by (simp add: delta_maps_def split: prod.splits)

lemma length_fold_deltas [simp]: "length (fold delta_maps xs ims) = length ims"
  by (induction xs arbitrary: ims) simp_all

context tree_store
begin

lemma does_add_delta:
  assumes "trees_at (content (Suc n) s) roots ims" "delta_sized (length roots) (i, None, new_e)" "catalog (Suc n) s cat"
  shows "does content f (Suc n) n (apply_delta cx (i, None, new_e) roots) s
    (\<lambda>roots' s'. trees_at (content n s') roots' (delta_maps (i, None, new_e) ims) \<and> catalog n s' cat)"
proof (cases new_e)
  case None
  then have "does content f (Suc n) (Suc n) (apply_delta cx (i, None, new_e) roots) s (\<lambda>x s'. x = roots \<and> s' = s)"
    by (simp add: apply_delta_def does_def kept_trees_def)
  then show ?thesis
    by (rule does_less) (use assms None trees_at_nth [OF assms(1)] in
      \<open>auto simp: delta_maps_def put_ent_def drop_ent_def trees_at_def dest: weaken elim: list_all2_mono\<close>)
next
  case (Some e)
  then have i: "i < length roots" "check_entry (entry_key e) (entry_value e) = Inr ()" using assms(2) by (simp_all add: delta_sized_def)
  note t = trees_at_nth(1) [OF assms(1) i(1)]
  have "does content f (Suc n) n (st_bind (cx_insert_entry cx (roots ! i) e) (\<lambda>r. st_return (roots[i := r]))) s
    (\<lambda>roots' s'. trees_at (content n s') roots' (delta_maps (i, None, new_e) ims) \<and> catalog n s' cat)"
    by (rule does_bind [OF does_insert_entry [OF t i(2) assms(3)]])
      (auto simp: Some delta_maps_def drop_ent_def intro!: does_return trees_at_upd dest: trees_at_kept [where C = content, OF _ assms(1)])
  then show ?thesis by (simp add: apply_delta_def Some does_def)
qed

lemma does_apply_delta:
  assumes "trees_at (content (Suc (Suc n)) s) roots ims" "delta_sized (length roots) (i, old_e, new_e)" "catalog (Suc (Suc n)) s cat"
  shows "does content True (Suc (Suc n)) n (apply_delta cx (i, old_e, new_e) roots) s
    (\<lambda>roots' s'. trees_at (content n s') roots' (delta_maps (i, old_e, new_e) ims) \<and> catalog n s' cat)"
proof -
  have i: "i < length roots" "i < length ims" using assms(2) trees_at_nth(2) [OF assms(1)] by (simp_all add: delta_sized_def)
  note t = trees_at_nth(1) [OF assms(1) i(1)]
  have less: "trees_at (content (Suc n) s) roots ims" using assms(1) by (auto simp: trees_at_def dest: weaken elim: list_all2_mono)
  have first: "does content True (Suc (Suc n)) (Suc n) (case old_e of
        Some e \<Rightarrow> st_bind (cx_remove_entry cx (roots ! i) e) (\<lambda>r. st_return (roots[i := r])) | None \<Rightarrow> st_return roots) s
      (\<lambda>roots' s'. trees_at (content (Suc n) s') roots' (ims[i := drop_ent old_e (ims ! i)]) \<and> length roots' = length roots \<and> catalog (Suc n) s' cat)"
  proof (cases old_e)
    case None
    have "does content True (Suc (Suc n)) (Suc (Suc n)) (st_return roots) s (\<lambda>x s'. x = roots \<and> s' = s)" by (simp add: does_return)
    then show ?thesis unfolding None option.case by (rule does_less) (use less weaken [OF assms(3)] in \<open>auto simp: drop_ent_def\<close>)
  next
    case (Some e)
    show ?thesis unfolding Some option.case
      by (rule does_bind [OF does_remove_entry [OF t assms(3)]])
        (auto intro!: does_return trees_at_upd dest: trees_at_kept [where C = content, OF _ assms(1)])
  qed
  show ?thesis
    unfolding apply_delta_def prod.case
  proof (rule does_bind [OF first])
    fix roots1 s1
    assume q: "trees_at (content (Suc n) s1) roots1 (ims[i := drop_ent old_e (ims ! i)]) \<and> length roots1 = length roots \<and> catalog (Suc n) s1 cat"
    have "delta_sized (length roots1) (i, None, new_e)" using assms(2) q by (simp add: delta_sized_def)
    from does_add_delta [OF conjunct1 [OF q] this] q
    have "does content True (Suc n) n (apply_delta cx (i, None, new_e) roots1) s1
      (\<lambda>roots' s'. trees_at (content n s') roots' (delta_maps (i, None, new_e) (ims[i := drop_ent old_e (ims ! i)])) \<and> catalog n s' cat)" by blast
    then show "does content True (Suc n) n (case new_e of Some e \<Rightarrow> st_bind (cx_insert_entry cx (roots1 ! i) e) (\<lambda>r. st_return (roots1[i := r]))
        | None \<Rightarrow> st_return roots1) s1 (\<lambda>roots' s'. trees_at (content n s') roots' (delta_maps (i, old_e, new_e) ims) \<and> catalog n s' cat)"
      using i(2) by (simp add: apply_delta_def delta_maps_def drop_ent_def does_def split: option.splits)
  qed
qed

lemma does_apply_deltas:
  assumes "trees_at (content (2 * length xs + n) s) roots ims" "\<forall>x \<in> set xs. delta_sized (length roots) x" "catalog (2 * length xs + n) s cat"
  shows "does content True (2 * length xs + n) n (apply_deltas cx xs roots) s
    (\<lambda>roots' s'. trees_at (content n s') roots' (fold delta_maps xs ims) \<and> catalog n s' cat)"
  using assms
proof (induction xs arbitrary: s roots ims)
  case (Cons x xs)
  obtain i old_e new_e where x: "x = (i, old_e, new_e)" by (cases x)
  have "does content True (2 * length (x # xs) + n) (2 * length xs + n) (apply_delta cx x roots) s
    (\<lambda>roots' s'. trees_at (content (2 * length xs + n) s') roots' (delta_maps x ims) \<and> catalog (2 * length xs + n) s' cat)"
    unfolding x using does_apply_delta [of "2 * length xs + n" s roots ims i old_e new_e cat] Cons.prems x by simp
  then show ?case unfolding apply_deltas.simps
  proof (rule does_bind)
    fix roots1 s1 assume q: "trees_at (content (2 * length xs + n) s1) roots1 (delta_maps x ims) \<and> catalog (2 * length xs + n) s1 cat"
    then have "length roots1 = length roots" using trees_at_nth(2) Cons.prems(1) by (metis length_delta_maps)
    then show "does content True (2 * length xs + n) n (apply_deltas cx xs roots1) s1
      (\<lambda>roots' s'. trees_at (content n s') roots' (fold delta_maps (x # xs) ims) \<and> catalog n s' cat)"
      using Cons.IH [of s1 roots1 "delta_maps x ims"] q Cons.prems(2) by simp
  qed
qed (simp add: does_return)

lemma does_add_deltas:
  assumes "trees_at (content (length es + n) s) roots ims" "\<forall>x \<in> set (added_entries es). delta_sized (length roots) x" "catalog (length es + n) s cat"
  shows "does content f (length es + n) n (apply_deltas cx (added_entries es) roots) s
    (\<lambda>roots' s'. trees_at (content n s') roots' (fold delta_maps (added_entries es) ims) \<and> catalog n s' cat)"
  using assms
proof (induction es arbitrary: s roots ims)
  case (Cons x es)
  obtain i e where x: "x = (i, e)" by (cases x)
  have "does content f (length (x # es) + n) (length es + n) (apply_delta cx (i, None, Some e) roots) s
    (\<lambda>roots' s'. trees_at (content (length es + n) s') roots' (delta_maps (i, None, Some e) ims) \<and> catalog (length es + n) s' cat)"
    using does_add_delta [of "length es + n" s roots ims i "Some e" cat f] Cons.prems x by (simp add: added_entries_def)
  then show ?case unfolding added_entries_def x list.map prod.case apply_deltas.simps
  proof (rule does_bind)
    fix roots1 s1 assume q: "trees_at (content (length es + n) s1) roots1 (delta_maps (i, None, Some e) ims) \<and> catalog (length es + n) s1 cat"
    then have "length roots1 = length roots" using trees_at_nth(2) Cons.prems(1) by (metis length_delta_maps)
    then show "does content f (length es + n) n (apply_deltas cx (map (\<lambda>(i, e). (i, None, Some e)) es) roots1) s1
      (\<lambda>roots' s'. trees_at (content n s') roots' (fold delta_maps ((i, None, Some e) # map (\<lambda>(i, e). (i, None, Some e)) es) ims) \<and> catalog n s' cat)"
      using Cons.IH [of s1 roots1 "delta_maps (i, None, Some e) ims"] q Cons.prems(2) by (simp add: added_entries_def)
  qed
qed (simp add: does_return added_entries_def)

end

section \<open>Catalog entries\<close>

definition seqk :: "bytes \<Rightarrow> bytes" where "seqk t = projr (seq_key t)"

lemma seq_key_bytes [simp]: "seq_key t = Inr (seqk t)"
  by (simp add: seqk_def seq_key_def band_key_def)

lemma seqk_texts: "seqk t = concat (map (\<lambda>x. enc_bytes (Text x)) [SEQ, t])"
  unfolding seqk_def seq_key_def band_key_def by (simp add: enc_bytes_def)

lemma seqk_distinct [simp]:
  "seqk t = seqk t' \<longleftrightarrow> t = t'" "seqk t \<noteq> tblk t'" "tblk t' \<noteq> seqk t" "seqk t \<noteq> rootk t'" "rootk t' \<noteq> seqk t"
  "seqk t \<noteq> irootk t' i" "irootk t' i \<noteq> seqk t"
  unfolding key_texts seqk_texts by (auto dest!: text_keys_inj simp del: list.map concat.simps)

lemma seq_sized: "check_entry (rootk t) (encode_root r) = Inr () \<Longrightarrow> check_entry (seqk t) (encode_seq v) = Inr ()"
proof -
  have "length (enc_bytes (Text SEQ)) \<le> length (enc_bytes (Text ROOT))"
    by (simp add: enc_bytes_def SEQ_def ROOT_def str_bytes_def)
  then have "length (seqk t) \<le> length (rootk t)" by (simp add: seqk_texts key_texts)
  then show "check_entry (rootk t) (encode_root r) = Inr () \<Longrightarrow> check_entry (seqk t) (encode_seq v) = Inr ()"
    by (auto simp: check_entry_def encode_root_def encode_seq_def Let_def split: if_splits)
qed

text \<open>A table of the catalog, and the catalog as a whole: every definition decodes to a consistent table. That names
  are UTF-8 and literals are values is what the Rust types guarantee of a definition.\<close>

definition table_at :: "(PageId \<rightharpoonup> (bytes \<rightharpoonup> bytes)) \<Rightarrow> (bytes \<rightharpoonup> bytes) \<Rightarrow> bytes \<Rightarrow> TableDef \<Rightarrow> (bytes \<rightharpoonup> bytes) \<Rightarrow> bool" where
  "table_at A cat t d m \<longleftrightarrow>
     (\<exists>bs. cat (tblk t) = Some bs \<and> decode_table bs = Inr d) \<and> td_name d = t \<and> table_typed d \<and> table_stored A cat t d m"

lemma linked_kept: "kept_trees C n s n' s' \<Longrightarrow> linked (C n s) cat k m \<Longrightarrow> cat' k = cat k \<Longrightarrow> linked (C n' s') cat' k m"
  by (auto simp: linked_def kept_trees_def)

lemma table_at_kept:
  assumes "kept_trees C n s n' s'" "table_at (C n s) cat t d m"
    and "cat' (tblk t) = cat (tblk t)" "cat' (rootk t) = cat (rootk t)" "\<And>i. cat' (irootk t i) = cat (irootk t i)"
  shows "table_at (C n' s') cat' t d m"
  using assms linked_kept [OF assms(1)] unfolding table_at_def table_stored_def by metis

lemma table_at_det: "table_at A cat t d m \<Longrightarrow> table_at A cat t d' m' \<Longrightarrow> d' = d \<and> m' = m"
  unfolding table_at_def table_stored_def using linked_unique by (metis option.inject sum.inject(2))

text \<open>The keys of a table, and what may stand under them: its definition, the root of its rows, the roots of its
  indexes, and the next number of its sequence.\<close>

definition table_keys :: "bytes \<Rightarrow> bytes set" where
  "table_keys t = {tblk t, rootk t, seqk t} \<union> range (irootk t)"

definition own_entry :: "bytes \<Rightarrow> TableDef \<Rightarrow> bytes \<Rightarrow> bytes \<Rightarrow> bool" where
  "own_entry t d k v \<longleftrightarrow>
     k = tblk t \<or> k = rootk t \<or> (k = seqk t \<and> (\<exists>x. v = encode_seq x)) \<or> (\<exists>idx \<in> set (td_indexes d). k = irootk t (ix_name idx))"

lemma own_entry_key: "own_entry t d k v \<Longrightarrow> k \<in> table_keys t"
  by (auto simp: own_entry_def table_keys_def)

lemma table_keys_disjoint: "k \<in> table_keys t \<Longrightarrow> k \<in> table_keys t' \<Longrightarrow> t' = t"
  by (auto simp: table_keys_def)

text \<open>The catalog as an abstract database: the definition and the stored rows of each table. Every entry of the catalog
  tree belongs to a table of the database.\<close>

type_synonym db = "bytes \<rightharpoonup> TableDef \<times> (bytes \<rightharpoonup> bytes)"

definition db_at :: "(PageId \<rightharpoonup> (bytes \<rightharpoonup> bytes)) \<Rightarrow> (bytes \<rightharpoonup> bytes) \<Rightarrow> db \<Rightarrow> bool" where
  "db_at A cat F \<longleftrightarrow>
     (\<forall>t d m. F t = Some (d, m) \<longrightarrow> table_at A cat t d m)
     \<and> (\<forall>k v. cat k = Some v \<longrightarrow> (\<exists>t d m. F t = Some (d, m) \<and> own_entry t d k v))"

lemma db_tableD: "db_at A cat F \<Longrightarrow> F t = Some (d, m) \<Longrightarrow> table_at A cat t d m"
  by (simp add: db_at_def)

lemma db_keyD: "db_at A cat F \<Longrightarrow> cat k = Some v \<Longrightarrow> \<exists>t d m. F t = Some (d, m) \<and> own_entry t d k v"
  by (simp add: db_at_def)

lemma db_ownD: "db_at A cat F \<Longrightarrow> cat k = Some v \<Longrightarrow> k \<in> table_keys t \<Longrightarrow> \<exists>d m. F t = Some (d, m) \<and> own_entry t d k v"
  using db_keyD own_entry_key table_keys_disjoint by metis

lemma db_noneD: "db_at A cat F \<Longrightarrow> F t = None \<Longrightarrow> k \<in> table_keys t \<Longrightarrow> cat k = None"
  using db_ownD [of A cat F k _ t] by (cases "cat k") auto

lemma db_atI:
  assumes "\<And>t d m. F t = Some (d, m) \<Longrightarrow> table_at A cat t d m"
    and "\<And>k v. cat k = Some v \<Longrightarrow> \<exists>t d m. F t = Some (d, m) \<and> own_entry t d k v"
  shows "db_at A cat F"
  using assms by (simp add: db_at_def)

lemma db_table_iff: "db_at A cat F \<Longrightarrow> F t = Some (d, m) \<longleftrightarrow> table_at A cat t d m"
proof
  assume db: "db_at A cat F" and at: "table_at A cat t d m"
  then obtain d' m' where F: "F t = Some (d', m')"
    using db_ownD [OF db, of "tblk t" _ t] unfolding table_at_def table_keys_def by blast
  then show "F t = Some (d, m)" using table_at_det [OF at db_tableD [OF db F]] by simp
qed (rule db_tableD)

text \<open>A table that was changed consistently: the database changes there only.\<close>

lemma db_changed:
  assumes old: "db_at (C n s) cat F" and kept: "kept_trees C n s n' s'"
    and cat: "\<And>k. k \<notin> table_keys t \<Longrightarrow> cat' k = cat k" and new: "table_at (C n' s') cat' t d m"
    and own: "\<And>k v. k \<in> table_keys t \<Longrightarrow> cat' k = Some v \<Longrightarrow> own_entry t d k v"
  shows "db_at (C n' s') cat' (F(t \<mapsto> (d, m)))"
proof (rule db_atI)
  have same: "cat' k = cat k" if "t' \<noteq> t" "k \<in> table_keys t'" for t' k
    using that table_keys_disjoint [of k t' t] cat [of k] by blast
  have other: "table_at (C n' s') cat' t' d' q" if t': "t' \<noteq> t" "table_at (C n s) cat t' d' q" for t' d' q
    by (rule table_at_kept [OF kept t'(2)]) (rule same [OF t'(1)], simp add: table_keys_def)+
  show "table_at (C n' s') cat' t' d' q" if "(F(t \<mapsto> (d, m))) t' = Some (d', q)" for t' d' q
    using that new other [of t' d' q] db_tableD [OF old, of t' d' q] by (cases "t' = t") auto
  show "\<exists>t' d' q. (F(t \<mapsto> (d, m))) t' = Some (d', q) \<and> own_entry t' d' k v" if v: "cat' k = Some v" for k v
  proof (cases "k \<in> table_keys t")
    case False
    then show ?thesis using v cat [OF False] db_keyD [OF old, of k v] own_entry_key by (metis fun_upd_apply)
  qed (use own [OF _ v] in auto)
qed

lemma db_dropped:
  assumes old: "db_at (C n s) cat F" and kept: "kept_trees C n s n' s'"
    and cat: "\<And>k. k \<notin> table_keys t \<Longrightarrow> cat' k = cat k" and gone: "\<And>k. k \<in> table_keys t \<Longrightarrow> cat' k = None"
  shows "db_at (C n' s') cat' (F(t := None))"
proof (rule db_atI)
  have same: "cat' k = cat k" if "t' \<noteq> t" "k \<in> table_keys t'" for t' k
    using that table_keys_disjoint [of k t' t] cat [of k] by blast
  show "table_at (C n' s') cat' t' d q" if "(F(t := None)) t' = Some (d, q)" for t' d q
  proof -
    have t': "t' \<noteq> t" "table_at (C n s) cat t' d q" using that db_tableD [OF old, of t' d q] by (auto split: if_splits)
    show ?thesis by (rule table_at_kept [OF kept t'(2)]) (rule same [OF t'(1)], simp add: table_keys_def)+
  qed
  show "\<exists>t' d q. (F(t := None)) t' = Some (d, q) \<and> own_entry t' d k v" if v: "cat' k = Some v" for k v
  proof -
    have "k \<notin> table_keys t" using v gone [of k] by auto
    then show ?thesis using v cat [of k] db_keyD [OF old, of k v] own_entry_key by (metis fun_upd_apply)
  qed
qed

lemma db_replaced:
  assumes old: "db_at (C n s) cat F" "F t = Some (d, m)" and kept: "kept_trees C n s n' s'"
    and cat: "\<And>k. k \<noteq> rootk t \<Longrightarrow> k \<notin> (\<lambda>idx. irootk t (ix_name idx)) ` set (td_indexes d) \<Longrightarrow> cat' k = cat k"
    and new: "table_stored (C n' s') cat' t d m'"
  shows "db_at (C n' s') cat' (F(t \<mapsto> (d, m')))"
proof (rule db_changed [where C = C, OF old(1) kept])
  show "cat' k = cat k" if "k \<notin> table_keys t" for k using that by (intro cat) (auto simp: table_keys_def)
  have "cat' (tblk t) = cat (tblk t)" by (rule cat) auto
  then show "table_at (C n' s') cat' t d m'" using db_tableD [OF old] new unfolding table_at_def by simp
  show "own_entry t d k v" if k: "k \<in> table_keys t" "cat' k = Some v" for k v
  proof (cases "k = rootk t \<or> k \<in> (\<lambda>idx. irootk t (ix_name idx)) ` set (td_indexes d)")
    case False
    then have "cat k = Some v" using k(2) cat [of k] by auto
    from db_ownD [OF old(1) this k(1)] show ?thesis using old(2) by auto
  qed (auto simp: own_entry_def)
qed

lemma db_at_kept:
  assumes "db_at (C n s) cat F" "kept_trees C n s n' s'"
  shows "db_at (C n' s') cat F"
  using assms(1) table_at_kept [OF assms(2), where cat' = cat and cat = cat] unfolding db_at_def by blast

lemma db_at_seq:
  assumes "db_at A cat F" "F t = Some (d, m)"
  shows "db_at A (cat(seqk t \<mapsto> encode_seq v)) F"
proof (rule db_atI)
  show "table_at A (cat(seqk t \<mapsto> encode_seq v)) t' d m" if "F t' = Some (d, m)" for t' d m
    using db_tableD [OF assms(1) that] by (simp add: table_at_def table_stored_def linked_def)
  show "\<exists>t d m. F t = Some (d, m) \<and> own_entry t d k w" if "(cat(seqk t \<mapsto> encode_seq v)) k = Some w" for k w
    using that db_keyD [OF assms(1), of k w] assms(2) by (cases "k = seqk t") (auto simp: own_entry_def)
qed

section \<open>Storing the roots of a table\<close>

definition upd_iroots :: "TableDef \<Rightarrow> bytes \<Rightarrow> PageId list \<Rightarrow> nat list \<Rightarrow> (bytes \<rightharpoonup> bytes) \<Rightarrow> (bytes \<rightharpoonup> bytes)" where
  "upd_iroots d t roots touched = fold (\<lambda>i cat. cat(irootk t (ix_name (td_indexes d ! i)) \<mapsto> encode_root (roots ! i))) touched"

lemma upd_iroots_other:
  "set touched \<subseteq> {..<length (td_indexes d)} \<Longrightarrow> k \<notin> (\<lambda>idx. irootk t (ix_name idx)) ` set (td_indexes d) \<Longrightarrow>
     upd_iroots d t roots touched cat k = cat k"
  unfolding upd_iroots_def by (induction touched arbitrary: cat) auto

lemma upd_iroots_at:
  assumes "distinct (map ix_name (td_indexes d))" "set touched \<subseteq> {..<length (td_indexes d)}" "i < length (td_indexes d)"
  shows "upd_iroots d t roots touched cat (irootk t (ix_name (td_indexes d ! i))) =
    (if i \<in> set touched then Some (encode_root (roots ! i)) else cat (irootk t (ix_name (td_indexes d ! i))))"
  using assms(2)
proof (induction touched arbitrary: cat)
  case (Cons j touched)
  then have "j < length (td_indexes d)" by simp
  then have "ix_name (td_indexes d ! i) = ix_name (td_indexes d ! j) \<longleftrightarrow> i = j"
    using assms(1,3) nth_eq_iff_index_eq [of "map ix_name (td_indexes d)" i j] by simp
  then show ?case using Cons by (auto simp: upd_iroots_def)
qed (simp add: upd_iroots_def)

text \<open>The roots of a table's indexes with the maps they stand for.\<close>

definition iroots_at :: "(PageId \<rightharpoonup> (bytes \<rightharpoonup> bytes)) \<Rightarrow> (bytes \<rightharpoonup> bytes) \<Rightarrow> bytes \<Rightarrow> TableDef \<Rightarrow> PageId list \<Rightarrow> (bytes \<rightharpoonup> bytes) list \<Rightarrow> bool" where
  "iroots_at A cat t d roots ims \<longleftrightarrow> trees_at A roots ims \<and> length roots = length (td_indexes d)
     \<and> (\<forall>i < length (td_indexes d). cat (irootk t (ix_name (td_indexes d ! i))) = Some (encode_root (roots ! i)))"

definition indexes_stored :: "TableDef \<Rightarrow> (bytes \<rightharpoonup> bytes) \<Rightarrow> (bytes \<rightharpoonup> bytes) list \<Rightarrow> bool" where
  "indexes_stored d m ims \<longleftrightarrow> length ims = length (td_indexes d)
     \<and> (\<forall>i < length (td_indexes d). index_stored d (td_indexes d ! i) m (ims ! i))"

lemma table_storedI:
  assumes "table_ok d" "linked A cat (rootk t) m" "rows_stored d m" "iroots_at A cat t d roots ims" "indexes_stored d m ims"
  shows "table_stored A cat t d m"
  unfolding table_stored_def using assms trees_at_nth(1) [of A roots ims]
  by (fastforce simp: iroots_at_def indexes_stored_def in_set_conv_nth linked_def)

lemma iroots_exist:
  assumes "table_stored A cat t d m"
  obtains roots ims where "iroots_at A cat t d roots ims" "indexes_stored d m ims"
proof -
  have "\<forall>idx \<in> set (td_indexes d). \<exists>r im. cat (irootk t (ix_name idx)) = Some (encode_root r) \<and> A r = Some im \<and> index_stored d idx m im"
    using assms unfolding table_stored_def linked_def by blast
  then obtain R I where RI: "\<And>idx. idx \<in> set (td_indexes d) \<Longrightarrow>
      cat (irootk t (ix_name idx)) = Some (encode_root (R idx)) \<and> A (R idx) = Some (I idx) \<and> index_stored d idx m (I idx)"
    by metis
  show ?thesis by (rule that [of "map R (td_indexes d)" "map I (td_indexes d)"])
      (use RI in \<open>simp_all add: iroots_at_def indexes_stored_def trees_at_def list_all2_conv_all_nth\<close>)
qed

lemma iroots_stored:
  assumes "iroots_at A cat t d roots0 ims0" "trees_at A' roots ims" "length roots = length roots0" "set touched \<subseteq> {..<length (td_indexes d)}"
    "distinct (map ix_name (td_indexes d))" "\<And>i. i < length (td_indexes d) \<Longrightarrow> i \<notin> set touched \<Longrightarrow> roots ! i = roots0 ! i"
    "\<And>i. cat1 (irootk t i) = cat (irootk t i)"
  shows "iroots_at A' (upd_iroots d t roots touched cat1) t d roots ims"
  using assms upd_iroots_at [OF assms(5,4)] by (simp add: iroots_at_def)

context tree_store
begin

lemma load_entry [simp]: "catalog n s cat \<Longrightarrow> cx_entry cx s (Inr k) = Inr (cat k)"
  using lookup_in [of n s _ cat k] by (simp add: cx_entry_def rejecting_def)

lemma load_table_at: "catalog n s cat \<Longrightarrow> table_at A cat t d m \<Longrightarrow> load_table cx s t = Inr d"
  by (auto simp: load_table_def table_at_def rejecting_def)

lemma load_root_at:
  assumes "catalog n s cat" "table_stored (content n s) cat t d m"
  obtains r where "load_root cx s t = Inr r" "cat (rootk t) = Some (encode_root r)" "content n s r = Some m"
  using assms that by (auto simp: load_root_def table_stored_def linked_def rejecting_def)

lemma load_index_roots_at:
  assumes "catalog n s cat" "iroots_at A cat (td_name d) d roots ims"
  shows "load_index_roots cx s d = Inr roots"
  unfolding load_index_roots_def collect_res_Inr using assms
  by (auto simp: iroots_at_def list_all2_conv_all_nth rejecting_def)

lemma does_store_iroots:
  assumes "catalog (length touched + n) s cat" "iroots_at A cat t d roots0 ims" "set touched \<subseteq> {..<length (td_indexes d)}"
    "distinct (map ix_name (td_indexes d))"
  shows "does content f (length touched + n) n (store_iroots cx d t roots touched) s
    (\<lambda>_ s'. catalog n s' (upd_iroots d t roots touched cat))"
proof -
  have run: "does content f (length is + n) n (store_iroots cx d t roots is) s (\<lambda>_ s'. catalog n s' (upd_iroots d t roots is c))"
    if "catalog (length is + n) s c" "set is \<subseteq> {..<length (td_indexes d)}"
      "\<forall>i < length (td_indexes d). \<exists>r. c (irootk t (ix_name (td_indexes d ! i))) = Some (encode_root r)" for "is" s c
    using that
  proof (induction "is" arbitrary: s c)
    case (Cons i "is")
    then have i: "i < length (td_indexes d)" by simp
    obtain r where r: "c (irootk t (ix_name (td_indexes d ! i))) = Some (encode_root r)" using Cons.prems(3) i by blast
    have "does content f (Suc (length is + n)) (length is + n) (store_iroot cx t (ix_name (td_indexes d ! i)) (roots ! i)) s
      (\<lambda>_ s'. catalog (length is + n) s' (c(irootk t (ix_name (td_indexes d ! i)) \<mapsto> encode_root (roots ! i))))"
      unfolding store_iroot_def using Cons.prems(1) root_sized [OF Cons.prems(1) r] by (intro does_store_root) simp_all
    then have "does content f (length (i # is) + n) n (st_bind (store_iroot cx t (ix_name (td_indexes d ! i)) (roots ! i)) (\<lambda>_. store_iroots cx d t roots is)) s
      (\<lambda>_ s'. catalog n s' (upd_iroots d t roots (i # is) c))"
      unfolding length_Cons add_Suc
    proof (rule does_bind)
      fix x s1 assume "catalog (length is + n) s1 (c(irootk t (ix_name (td_indexes d ! i)) \<mapsto> encode_root (roots ! i)))"
      define c' where "c' = c(irootk t (ix_name (td_indexes d ! i)) \<mapsto> encode_root (roots ! i))"
      have c': "catalog (length is + n) s1 c'" unfolding c'_def by fact
      have r: "\<forall>i < length (td_indexes d). \<exists>r. c' (irootk t (ix_name (td_indexes d ! i))) = Some (encode_root r)"
        using Cons.prems(3) by (auto simp: c'_def)
      have eq: "upd_iroots d t roots (i # is) c = upd_iroots d t roots is c'" by (simp add: upd_iroots_def c'_def)
      show "does content f (length is + n) n (store_iroots cx d t roots is) s1 (\<lambda>_ s'. catalog n s' (upd_iroots d t roots (i # is) c))"
        unfolding eq by (rule Cons.IH [OF c' _ r]) (use Cons.prems(2) in simp)
    qed
    then show ?case using i by (simp add: store_iroots_def get_at_def)
  qed (simp add: store_iroots_def upd_iroots_def does_return)
  show ?thesis using assms by (intro run) (auto simp: iroots_at_def)
qed

end

end
