(* ===== verification/CatEdit.thy ===== *)
theory CatEdit
  imports CatRun
begin

text \<open>One row at a time: deleting and rewriting a row with its index entries keeps the catalog consistent.\<close>

section \<open>Loops over the indexes of a table\<close>

text \<open>The deltas of a table's indexes, where each index is left alone or exchanges one entry for another.\<close>

definition deltas_of :: "(IndexDef \<Rightarrow> (IndexEntry option \<times> IndexEntry option) option) \<Rightarrow> (nat \<times> IndexDef) list \<Rightarrow> index_delta list" where
  "deltas_of D idxs = List.map_filter (\<lambda>(i, idx). map_option (\<lambda>(old_e, new_e). (i, old_e, new_e)) (D idx)) idxs"

lemma deltas_of_simps [simp]:
  "deltas_of D [] = []"
  "deltas_of D ((i, idx) # idxs) = (case D idx of Some (old_e, new_e) \<Rightarrow> (i, old_e, new_e) # deltas_of D idxs | None \<Rightarrow> deltas_of D idxs)"
  by (auto simp: deltas_of_def List.map_filter_simps split: option.splits)

lemma deltas_of_mem: "(i, o', n) \<in> set (deltas_of D idxs) \<longleftrightarrow> (\<exists>idx. (i, idx) \<in> set idxs \<and> D idx = Some (o', n))"
  by (induction idxs) (auto split: option.splits)

lemma length_deltas_of: "length (deltas_of D idxs) \<le> length idxs"
  by (induction idxs) (auto split: option.splits)

lemma deltas_of_append: "deltas_of D (xs @ ys) = deltas_of D xs @ deltas_of D ys"
  by (simp add: deltas_of_def map_filter_def)

definition delta_map :: "(IndexDef \<Rightarrow> (IndexEntry option \<times> IndexEntry option) option) \<Rightarrow> IndexDef \<Rightarrow> (bytes \<rightharpoonup> bytes) \<Rightarrow> (bytes \<rightharpoonup> bytes)" where
  "delta_map D idx im = (case D idx of Some (old_e, new_e) \<Rightarrow> put_ent new_e (drop_ent old_e im) | None \<Rightarrow> im)"

lemma fold_deltas: "fold delta_maps (deltas_of D idxs) ims = fold (\<lambda>(i, idx) ims. ims[i := delta_map D idx (ims ! i)]) idxs ims"
  by (induction idxs arbitrary: ims) (auto simp: delta_map_def delta_maps_def split: option.splits)

lemma fold_enum_offset:
  "length ys = length xs \<Longrightarrow> length pre = k \<Longrightarrow>
     fold (\<lambda>(i, x) ims. ims[i := g x (ims ! i)]) (enumerate k xs) (pre @ ys) = pre @ map2 g xs ys"
proof (induction xs arbitrary: k pre ys)
  case (Cons x xs)
  then obtain y ys' where y: "ys = y # ys'" "length ys' = length xs" by (cases ys) auto
  have "(pre @ ys)[k := g x ((pre @ ys) ! k)] = (pre @ [g x y]) @ ys'"
    using Cons.prems(2) y(1) by (auto simp: list_update_append nth_append)
  then show ?case using Cons.IH [OF y(2), of "pre @ [g x y]" "Suc k"] Cons.prems(2) y(1) by simp
qed simp

lemma fold_deltas_all:
  "length ims = length xs \<Longrightarrow> fold delta_maps (deltas_of D (enumerate 0 xs)) ims = map2 (delta_map D) xs ims"
  using fold_enum_offset [of ims xs "[]" 0 "delta_map D"] by (simp add: fold_deltas)

lemma apply_delta_roots:
  "apply_delta cx (i, old_e, new_e) roots s = (Inr roots', s') \<Longrightarrow> length roots' = length roots \<and> (\<forall>j. j \<noteq> i \<longrightarrow> roots' ! j = roots ! j)"
  by (auto simp: apply_delta_def elim!: st_bind_okE split: option.splits)

lemma apply_deltas_roots:
  "apply_deltas cx xs roots s = (Inr roots', s') \<Longrightarrow> length roots' = length roots \<and> (\<forall>j. j \<notin> fst ` set xs \<longrightarrow> roots' ! j = roots ! j)"
proof (induction xs arbitrary: roots s)
  case (Cons x xs)
  obtain i old_e new_e where x: "x = (i, old_e, new_e)" by (cases x)
  from Cons.prems obtain r1 s1 where "apply_delta cx x roots s = (Inr r1, s1)" "apply_deltas cx xs r1 s1 = (Inr roots', s')" by auto
  then show ?case using Cons.IH apply_delta_roots [of cx i old_e new_e roots s r1 s1] x by fastforce
qed simp

text \<open>The loops of the row operations are such deltas.\<close>

definition removals :: "TableDef \<Rightarrow> bytes \<Rightarrow> value list \<Rightarrow> IndexDef \<Rightarrow> (IndexEntry option \<times> IndexEntry option) option" where
  "removals d pk r idx = map_option (\<lambda>e. (Some e, None)) (row_ent d idx pk r)"

definition exchanges :: "TableDef \<Rightarrow> bytes \<Rightarrow> value list \<Rightarrow> value list \<Rightarrow> IndexDef \<Rightarrow> (IndexEntry option \<times> IndexEntry option) option" where
  "exchanges d pk old_row new_row idx =
     (if map_option entry_key (row_ent d idx pk old_row) = map_option entry_key (row_ent d idx pk new_row) then None
      else Some (row_ent d idx pk old_row, row_ent d idx pk new_row))"

lemma st_bind_assoc: "st_bind (st_bind m f) g = st_bind m (\<lambda>x. st_bind (f x) g)"
  by (rule ext) (simp add: st_bind_def split: prod.splits sum.splits)

lemma st_bind_return [simp]: "st_bind (st_return x) f = f x" "st_bind (st_lift (Inr x)) f = f x"
  by (rule ext, simp)+

lemma remove_entries_deltas:
  assumes "\<forall>(i, idx) \<in> set idxs. entry_of d idx r pk = Inr (row_ent d idx pk r)"
  shows "remove_entries cx d r pk idxs (roots, touched) =
    st_bind (apply_deltas cx (deltas_of (removals d pk r) idxs) roots) (\<lambda>roots'.
      st_return (roots', touched @ map fst (deltas_of (removals d pk r) idxs)))"
  using assms
proof (induction idxs arbitrary: roots touched)
  case (Cons x idxs)
  obtain i idx where x: "x = (i, idx)" by (cases x)
  then show ?case using Cons
    by (cases "row_ent d idx pk r") (simp_all add: removals_def apply_delta_def st_bind_assoc)
qed (rule ext, simp)

lemma move_entries_deltas:
  assumes "\<forall>(i, idx) \<in> set idxs. entry_of d idx r pk = Inr (row_ent d idx pk r) \<and> entry_of d idx r' pk = Inr (row_ent d idx pk r')"
  shows "move_entries cx d r r' pk idxs (roots, touched) =
    st_bind (apply_deltas cx (deltas_of (exchanges d pk r r') idxs) roots) (\<lambda>roots'.
      st_return (roots', touched @ map fst (deltas_of (exchanges d pk r r') idxs)))"
  using assms
proof (induction idxs arbitrary: roots touched)
  case (Cons x idxs)
  obtain i idx where x: "x = (i, idx)" by (cases x)
  then show ?case using Cons by (simp add: exchanges_def st_bind_assoc)
qed (rule ext, simp)

section \<open>Refusals that are not fatal\<close>

lemma encode_cells_error: "encode_cells vs = Inl e \<Longrightarrow> \<exists>n. e = ValueTooLarge n"
  by (induction vs) (auto simp: and_then_def push_var_def split: sum.splits if_splits elim!: encode_cell.elims)

lemma encoded_row_error: "encoded_row r = Inl e \<Longrightarrow> \<not> is_fatal e"
  by (auto simp: encoded_row_def rejecting_def rej_def encode_row_def map_err_def and_then_def split: sum.splits if_splits dest!: encode_cells_error)

lemma sized_error: "sized k v = Inl e \<Longrightarrow> \<not> is_fatal e"
  by (auto simp: sized_def check_entry_def map_err_def Let_def split: sum.splits if_splits)

lemma does_lift_refused: "(\<And>e. r = Inl e \<Longrightarrow> \<not> is_fatal e) \<Longrightarrow> (\<And>x. r = Inr x \<Longrightarrow> Q x s) \<Longrightarrow> does A True n n (st_lift r) s Q"
  by (cases r) (simp_all add: does_def kept_trees_def)

section \<open>A changed table\<close>

text \<open>The changes one row costs at most.\<close>

definition row_budget :: "TableDef \<Rightarrow> nat" where
  "row_budget d = 2 + 3 * length (td_indexes d)"

lemma indexes_stored_map2:
  assumes "indexes_stored d m ims" "\<And>i. i < length (td_indexes d) \<Longrightarrow> index_stored d (td_indexes d ! i) m (ims ! i)
      \<Longrightarrow> index_stored d (td_indexes d ! i) m' (g (td_indexes d ! i) (ims ! i))"
  shows "indexes_stored d m' (map2 g (td_indexes d) ims)"
  using assms by (simp add: indexes_stored_def)

context tree_store
begin

lemma does_more: "does content f n n' m s Q \<Longrightarrow> n \<le> k \<Longrightarrow> does content f k n' m s Q"
  unfolding does_def kept_trees_def using weaken_le [of k s _ _ n] by (fastforce split: prod.splits sum.splits)

text \<open>The common ending: the new roots of the data tree and of the touched indexes are stored.\<close>

lemma does_store_table:
  assumes old: "db_at (content n0 s0) cat F" "F t = Some (d, m)" "iroots_at (content n0 s0) cat t d roots0 ims0"
    and kept: "kept_trees content n0 s0 (Suc (length touched + n)) s" and cat: "catalog (Suc (length touched + n)) s cat"
    and data: "content (Suc (length touched + n)) s data = Some m'" "rows_stored d m'"
    and ix: "trees_at (content (Suc (length touched + n)) s) roots ims" "indexes_stored d m' ims"
    and touched: "set touched \<subseteq> {..<length (td_indexes d)}" "length roots = length roots0"
      "\<And>i. i < length (td_indexes d) \<Longrightarrow> i \<notin> set touched \<Longrightarrow> roots ! i = roots0 ! i"
  shows "does content f (Suc (length touched + n)) n (st_bind (store_root cx (root_key t) data) (\<lambda>_. store_iroots cx d t roots touched)) s
    (\<lambda>_ s'. \<exists>cat'. catalog n s' cat' \<and> db_at (content n s') cat' (F(t \<mapsto> (d, m'))))"
proof -
  have ok: "table_ok d" "distinct (map ix_name (td_indexes d))" using db_tableD [OF old(1,2)] by (auto simp: table_at_def table_stored_def table_ok_def)
  obtain r where r: "cat (rootk t) = Some (encode_root r)" using db_tableD [OF old(1,2)] by (auto simp: table_at_def table_stored_def linked_def)
  let ?cat1 = "cat(rootk t \<mapsto> encode_root data)"
  have "does content f (Suc (length touched + n)) (length touched + n) (store_root cx (root_key t) data) s
      (\<lambda>_ s'. catalog (length touched + n) s' ?cat1)"
    using does_store_root [OF cat key_bytes(2)] root_sized [OF cat r] by blast
  then show ?thesis
  proof (rule does_bind)
    fix x s1 assume c1: "catalog (length touched + n) s1 ?cat1" and k1: "kept_trees content (Suc (length touched + n)) s (length touched + n) s1"
    have ir: "iroots_at (content n0 s0) ?cat1 t d roots0 ims0" using old(3) by (simp add: iroots_at_def)
    show "does content f (length touched + n) n (store_iroots cx d t roots touched) s1
      (\<lambda>_ s'. \<exists>cat'. catalog n s' cat' \<and> db_at (content n s') cat' (F(t \<mapsto> (d, m'))))"
    proof (rule does_post [OF does_store_iroots [OF c1 ir touched(1) ok(2)]])
      let ?cat2 = "upd_iroots d t roots touched ?cat1"
      fix y s2 assume c2: "catalog n s2 ?cat2" and k2: "kept_trees content (length touched + n) s1 n s2"
      note k12 = kept_trans [OF k1 k2]
      have link: "linked (content n s2) ?cat2 (rootk t) m'"
        using keptD [OF k12 data(1)] upd_iroots_other [OF touched(1), of "rootk t" t roots ?cat1] by (auto simp: linked_def image_iff)
      have roots: "iroots_at (content n s2) ?cat2 t d roots ims"
        by (rule iroots_stored [OF old(3) trees_at_kept [OF k12 ix(1)] touched(2,1) ok(2) touched(3)]) simp_all
      have other: "?cat2 k = cat k" if "k \<noteq> rootk t" "k \<notin> (\<lambda>idx. irootk t (ix_name idx)) ` set (td_indexes d)" for k
        using that upd_iroots_other [OF touched(1), of k t roots ?cat1] by simp
      from db_replaced [where C = content, OF old(1,2) kept_trans [OF kept k12] other table_storedI [OF ok(1) link data(2) roots ix(2)]]
      show "\<exists>cat'. catalog n s2 cat' \<and> db_at (content n s2) cat' (F(t \<mapsto> (d, m')))"
        using c2 by blast
    qed
  qed
qed

text \<open>A run of deltas over the indexes of a table, followed by the common ending.\<close>

lemma does_deltas:
  assumes "trees_at (content (2 * length (td_indexes d) + n) s) roots ims" "length roots = length (td_indexes d)"
    "\<And>i old_e e. (i, old_e, Some e) \<in> set (deltas_of D (enumerate 0 (td_indexes d))) \<Longrightarrow> check_entry (entry_key e) (entry_value e) = Inr ()"
    "catalog (2 * length (td_indexes d) + n) s cat"
  shows "does content True (2 * length (td_indexes d) + n) n (apply_deltas cx (deltas_of D (enumerate 0 (td_indexes d))) roots) s
    (\<lambda>roots' s'. trees_at (content n s') roots' (map2 (delta_map D) (td_indexes d) ims) \<and> catalog n s' cat
       \<and> length roots' = length roots \<and> (\<forall>i. i \<notin> fst ` set (deltas_of D (enumerate 0 (td_indexes d))) \<longrightarrow> roots' ! i = roots ! i))"
proof -
  let ?xs = "deltas_of D (enumerate 0 (td_indexes d))"
  have len: "2 * length ?xs + n \<le> 2 * length (td_indexes d) + n" using length_deltas_of [of D "enumerate 0 (td_indexes d)"] by simp
  have sz: "\<forall>x \<in> set ?xs. delta_sized (length roots) x"
    using assms(2,3) by (auto simp: delta_sized_def deltas_of_mem in_set_enumerate_eq)
  have ims: "length ims = length (td_indexes d)" using trees_at_nth(2) [OF assms(1)] assms(2) by simp
  have t: "trees_at (content (2 * length ?xs + n) s) roots ims"
    using assms(1) weaken_le [OF _ len] by (auto simp: trees_at_def elim!: list_all2_mono)
  have "does content True (2 * length ?xs + n) n (apply_deltas cx ?xs roots) s
    (\<lambda>roots' s'. trees_at (content n s') roots' (map2 (delta_map D) (td_indexes d) ims) \<and> catalog n s' cat)"
    using does_apply_deltas [OF t sz weaken_le [OF assms(4) len]] fold_deltas_all [OF ims, of D] by simp
  from does_more [OF this len] show ?thesis
    by (auto simp: does_def split: prod.splits sum.splits dest: apply_deltas_roots)
qed

lemma rows_of_table:
  assumes "table_at A cat t d m" "m pk = Some bs"
  shows "table_ok d" "td_name d = t" "rows_stored d m" "row_good d (row_at d m pk)" "pk_key_of d (row_at d m pk) = Inr pk"
    "decode_padded d bs = Inr (row_at d m pk)"
  using assms rows_stored_good [of d m pk bs] by (auto simp: table_at_def table_stored_def)

lemma touched_deltas: "set (map fst (deltas_of D (enumerate 0 (td_indexes d)))) \<subseteq> {..<length (td_indexes d)}"
  by (auto simp: deltas_of_mem in_set_enumerate_eq)

lemma does_finish:
  assumes old: "db_at (content n0 s0) cat F" "F t = Some (d, m)" "iroots_at (content n0 s0) cat t d roots0 ims0"
    and kept: "kept_trees content n0 s0 (1 + 3 * length (td_indexes d) + n) s" and cat: "catalog (1 + 3 * length (td_indexes d) + n) s cat"
    and data: "content (1 + 3 * length (td_indexes d) + n) s data = Some m'" "rows_stored d m'"
    and sized: "\<And>i old_e e. (i, old_e, Some e) \<in> set (deltas_of D (enumerate 0 (td_indexes d))) \<Longrightarrow> check_entry (entry_key e) (entry_value e) = Inr ()"
    and ix: "indexes_stored d m' (map2 (delta_map D) (td_indexes d) ims0)"
  shows "does content True (1 + 3 * length (td_indexes d) + n) n
    (st_bind (st_bind (apply_deltas cx (deltas_of D (enumerate 0 (td_indexes d))) roots0) (\<lambda>roots'. st_return (roots', [] @ map fst (deltas_of D (enumerate 0 (td_indexes d))))))
       (\<lambda>(roots, touched). st_bind (store_root cx (root_key t) data) (\<lambda>_. store_iroots cx d t roots touched))) s
    (\<lambda>_ s'. \<exists>cat'. catalog n s' cat' \<and> db_at (content n s') cat' (F(t \<mapsto> (d, m'))))"
proof -
  let ?xs = "deltas_of D (enumerate 0 (td_indexes d))" and ?l = "length (td_indexes d)"
  have sum: "1 + 3 * ?l + n = 2 * ?l + (1 + ?l + n)" by simp
  have r0: "trees_at (content (2 * ?l + (1 + ?l + n)) s) roots0 ims0" "length roots0 = ?l"
    using trees_at_kept [OF kept] old(3) sum by (simp_all add: iroots_at_def)
  have "does content True (2 * ?l + (1 + ?l + n)) n (st_bind (apply_deltas cx ?xs roots0)
      (\<lambda>roots. st_bind (store_root cx (root_key t) data) (\<lambda>_. store_iroots cx d t roots (map fst ?xs)))) s
    (\<lambda>_ s'. \<exists>cat'. catalog n s' cat' \<and> db_at (content n s') cat' (F(t \<mapsto> (d, m'))))"
  proof (rule does_bind [OF does_deltas [OF r0 sized]])
    show "catalog (2 * ?l + (1 + ?l + n)) s cat" using cat sum by simp
    fix roots s1
    assume q: "trees_at (content (1 + ?l + n) s1) roots (map2 (delta_map D) (td_indexes d) ims0) \<and> catalog (1 + ?l + n) s1 cat
        \<and> length roots = length roots0 \<and> (\<forall>i. i \<notin> fst ` set ?xs \<longrightarrow> roots ! i = roots0 ! i)"
      and k: "kept_trees content (2 * ?l + (1 + ?l + n)) s (1 + ?l + n) s1"
    have len: "Suc (length (map fst ?xs) + n) \<le> 1 + ?l + n" using length_deltas_of [of D "enumerate 0 (td_indexes d)"] by simp
    show "does content True (1 + ?l + n) n (st_bind (store_root cx (root_key t) data) (\<lambda>_. store_iroots cx d t roots (map fst ?xs))) s1
      (\<lambda>_ s'. \<exists>cat'. catalog n s' cat' \<and> db_at (content n s') cat' (F(t \<mapsto> (d, m'))))"
    proof (rule does_more [OF does_store_table [OF old _ _ _ data(2) _ ix touched_deltas] len])
      show "kept_trees content n0 s0 (Suc (length (map fst ?xs) + n)) s1" by (rule kept_less [OF kept_trans [OF kept [unfolded sum] k] len])
      show "catalog (Suc (length (map fst ?xs) + n)) s1 cat" using q weaken_le [OF _ len] by blast
      show "content (Suc (length (map fst ?xs) + n)) s1 data = Some m'" using keptD [OF k] data(1) sum weaken_le [OF _ len] by simp
      show "trees_at (content (Suc (length (map fst ?xs) + n)) s1) roots (map2 (delta_map D) (td_indexes d) ims0)"
        using q weaken_le [OF _ len] by (auto simp: trees_at_def elim!: list_all2_mono)
    qed (use q in auto)
  qed
  then show ?thesis unfolding sum [symmetric] st_bind_assoc by simp
qed

text \<open>Deleting a row.\<close>

lemma does_delete_row:
  assumes cat: "catalog (row_budget d + n) s cat" and ok: "db_at (content (row_budget d + n) s) cat F" and F: "F t = Some (d, m)" and k: "m pk = Some bs"
  shows "does content True (row_budget d + n) n (delete_row_indexed cx d pk (row_at d m pk)) s
    (\<lambda>_ s'. \<exists>cat'. catalog n s' cat' \<and> db_at (content n s') cat' (F(t \<mapsto> (d, m(pk := None)))))"
proof -
  let ?r = "row_at d m pk" and ?l = "length (td_indexes d)"
  note t = db_tableD [OF ok F]
  note row = rows_of_table [OF t k]
  have st: "table_stored (content (row_budget d + n) s) cat t d m" using t by (simp add: table_at_def)
  obtain roots ims where ix: "iroots_at (content (row_budget d + n) s) cat t d roots ims" "indexes_stored d m ims" by (rule iroots_exist [OF st])
  obtain data where data: "load_root cx s t = Inr data" "content (row_budget d + n) s data = Some m" by (rule load_root_at [OF cat st])
  have lr: "load_index_roots cx s d = Inr roots" using load_index_roots_at [OF cat] ix(1) row(2) by simp
  have ent: "\<forall>(i, idx) \<in> set (enumerate 0 (td_indexes d)). entry_of d idx ?r pk = Inr (row_ent d idx pk ?r)"
    using row_ent_entry(2) [OF row(1) _ row(4)] by (auto simp: in_set_enumerate_eq)
  have sum: "row_budget d + n = Suc (1 + 3 * ?l + n)" by (simp add: row_budget_def)
  have new: "indexes_stored d (m(pk := None)) (map2 (delta_map (removals d pk ?r)) (td_indexes d) ims)"
    using ix(2)
  proof (rule indexes_stored_map2)
    fix i assume i: "i < ?l" "index_stored d (td_indexes d ! i) m (ims ! i)"
    from index_drop [OF row(1) nth_mem [OF i(1)] row(3) i(2) k]
    show "index_stored d (td_indexes d ! i) (m(pk := None)) (delta_map (removals d pk ?r) (td_indexes d ! i) (ims ! i))"
      by (cases "row_ent d (td_indexes d ! i) pk ?r") (simp_all add: delta_map_def removals_def put_ent_def drop_ent_def)
  qed
  have "does content True (row_budget d + n) n (st_bind (cx_delete cx data pk) (\<lambda>data.
      st_bind (remove_entries cx d ?r pk (enumerate 0 (td_indexes d)) (roots, [])) (\<lambda>(roots, touched).
      st_bind (store_root cx (root_key t) data) (\<lambda>_. store_iroots cx d t roots touched)))) s
    (\<lambda>_ s'. \<exists>cat'. catalog n s' cat' \<and> db_at (content n s') cat' (F(t \<mapsto> (d, m(pk := None)))))"
    unfolding remove_entries_deltas [OF ent] sum
    by (rule does_bind [OF does_delete [OF data(2) [unfolded sum] cat [unfolded sum]]])
      (rule does_finish [OF ok [unfolded sum] F ix(1) [unfolded sum] _ _ _ rows_stored_drop [OF row(3)] _ new],
        auto simp: deltas_of_mem removals_def)
  then show ?thesis using data(1) lr row(2) by (simp add: delete_row_indexed_def does_def st_read_def)
qed

text \<open>Rewriting a row under its primary key. The new row must be a good row whose unique keys are free.\<close>

lemma does_rewrite_row:
  assumes cat: "catalog (row_budget d + n) s cat" and ok: "db_at (content (row_budget d + n) s) cat F" and F: "F t = Some (d, m)" and k: "m pk = Some b0"
    and new: "row_good d r" "pk_key_of d r = Inr pk" "\<And>bs. encode_row r = Inr bs \<Longrightarrow> decode_padded d bs = Inr r"
    and free: "\<And>idx im e. idx \<in> set (td_indexes d) \<Longrightarrow> ix_unique idx \<Longrightarrow> index_stored d idx m im \<Longrightarrow> row_ent d idx pk r = Some e \<Longrightarrow>
      map_option entry_key (row_ent d idx pk (row_at d m pk)) \<noteq> Some (entry_key e) \<Longrightarrow> im (entry_key e) = None"
    and sized: "\<And>idx e. idx \<in> set (td_indexes d) \<Longrightarrow> row_ent d idx pk r = Some e \<Longrightarrow>
      map_option entry_key (row_ent d idx pk (row_at d m pk)) \<noteq> Some (entry_key e) \<Longrightarrow> check_entry (entry_key e) (entry_value e) = Inr ()"
  shows "does content True (row_budget d + n) n (rewrite_row_indexed cx d pk (row_at d m pk) r) s
    (\<lambda>_ s'. \<exists>cat' bs. catalog n s' cat' \<and> encode_row r = Inr bs
       \<and> db_at (content n s') cat' (F(t \<mapsto> (d, m(pk \<mapsto> bs)))))"
proof -
  let ?r = "row_at d m pk" and ?l = "length (td_indexes d)"
  note t = db_tableD [OF ok F]
  note row = rows_of_table [OF t k]
  have st: "table_stored (content (row_budget d + n) s) cat t d m" using t by (simp add: table_at_def)
  obtain roots ims where ix: "iroots_at (content (row_budget d + n) s) cat t d roots ims" "indexes_stored d m ims" by (rule iroots_exist [OF st])
  obtain data where data: "load_root cx s t = Inr data" "content (row_budget d + n) s data = Some m" by (rule load_root_at [OF cat st])
  have lr: "load_index_roots cx s d = Inr roots" using load_index_roots_at [OF cat] ix(1) row(2) by simp
  have ent: "\<forall>(i, idx) \<in> set (enumerate 0 (td_indexes d)). entry_of d idx ?r pk = Inr (row_ent d idx pk ?r) \<and> entry_of d idx r pk = Inr (row_ent d idx pk r)"
    using row_ent_entry(2) [OF row(1) _ row(4)] row_ent_entry(2) [OF row(1) _ new(1)] by (auto simp: in_set_enumerate_eq)
  have sum: "row_budget d + n = Suc (1 + 3 * ?l + n)" by (simp add: row_budget_def)
  have ix': "indexes_stored d (m(pk \<mapsto> bs)) (map2 (delta_map (exchanges d pk ?r r)) (td_indexes d) ims)" if bs: "encode_row r = Inr bs" for bs
    using ix(2)
  proof (rule indexes_stored_map2)
    fix i assume i: "i < ?l" "index_stored d (td_indexes d ! i) m (ims ! i)"
    let ?idx = "td_indexes d ! i"
    note args = row(1) nth_mem [OF i(1)] row(3) i(2) k new(3) [OF bs] new(1,2)
    show "index_stored d ?idx (m(pk \<mapsto> bs)) (delta_map (exchanges d pk ?r r) ?idx (ims ! i))"
    proof (cases "map_option entry_key (row_ent d ?idx pk ?r) = map_option entry_key (row_ent d ?idx pk r)")
      case True
      then show ?thesis using index_replace_same [OF args True] by (simp add: delta_map_def exchanges_def)
    next
      case False
      have "drop_ent (row_ent d ?idx pk ?r) (ims ! i) (entry_key e) = None" if "row_ent d ?idx pk r = Some e" "ix_unique ?idx" for e
        using free [OF nth_mem [OF i(1)] that(2) i(2) that(1)] False that(1) by (simp add: drop_ent_def split: option.splits)
      then show ?thesis using index_replace [OF args] False by (simp add: delta_map_def exchanges_def)
    qed
  qed
  have "does content True (row_budget d + n) n (
      st_bind (st_lift (encoded_row r)) (\<lambda>bs.
      st_bind (st_lift (CatJob.sized pk bs)) (\<lambda>_.
      st_bind (cx_insert cx data pk bs) (\<lambda>data.
      st_bind (move_entries cx d ?r r pk (enumerate 0 (td_indexes d)) (roots, [])) (\<lambda>(roots, touched).
      st_bind (store_root cx (root_key t) data) (\<lambda>_. store_iroots cx d t roots touched)))))) s
    (\<lambda>_ s'. \<exists>cat' bs. catalog n s' cat' \<and> encode_row r = Inr bs
       \<and> db_at (content n s') cat' (F(t \<mapsto> (d, m(pk \<mapsto> bs)))))"
    unfolding move_entries_deltas [OF ent]
  proof (rule does_bind [OF does_lift_refused [where Q = "\<lambda>bs s'. s' = s \<and> encode_row r = Inr bs"]])
    fix bs s1 assume "s1 = s \<and> encode_row r = Inr bs"
    then have bs: "s1 = s" "encode_row r = Inr bs" by simp_all
    show "does content True (row_budget d + n) n (
      st_bind (st_lift (CatJob.sized pk bs)) (\<lambda>_.
      st_bind (cx_insert cx data pk bs) (\<lambda>data.
      st_bind (st_bind (apply_deltas cx (deltas_of (exchanges d pk ?r r) (enumerate 0 (td_indexes d))) roots) (\<lambda>roots'.
        st_return (roots', [] @ map fst (deltas_of (exchanges d pk ?r r) (enumerate 0 (td_indexes d)))))) (\<lambda>(roots, touched).
      st_bind (store_root cx (root_key t) data) (\<lambda>_. store_iroots cx d t roots touched))))) s1
    (\<lambda>_ s'. \<exists>cat' bs. catalog n s' cat' \<and> encode_row r = Inr bs
       \<and> db_at (content n s') cat' (F(t \<mapsto> (d, m(pk \<mapsto> bs)))))"
      unfolding bs(1)
    proof (rule does_bind [OF does_lift_refused [where Q = "\<lambda>_ s'. s' = s \<and> check_entry pk bs = Inr ()"]])
      fix x s1 assume "s1 = s \<and> check_entry pk bs = Inr ()"
      then have c: "s1 = s" "check_entry pk bs = Inr ()" by simp_all
      have put: "does content True (row_budget d + n) (1 + 3 * ?l + n) (cx_insert cx data pk bs) s
          (\<lambda>r' s'. content (1 + 3 * ?l + n) s' r' = Some (m(pk \<mapsto> bs)) \<and> catalog (1 + 3 * ?l + n) s' cat)"
        unfolding sum by (rule does_insert [OF data(2) [unfolded sum] c(2) cat [unfolded sum]])
      show "does content True (row_budget d + n) n (
        st_bind (cx_insert cx data pk bs) (\<lambda>data.
        st_bind (st_bind (apply_deltas cx (deltas_of (exchanges d pk ?r r) (enumerate 0 (td_indexes d))) roots) (\<lambda>roots'.
          st_return (roots', [] @ map fst (deltas_of (exchanges d pk ?r r) (enumerate 0 (td_indexes d)))))) (\<lambda>(roots, touched).
        st_bind (store_root cx (root_key t) data) (\<lambda>_. store_iroots cx d t roots touched)))) s1
      (\<lambda>_ s'. \<exists>cat' bs. catalog n s' cat' \<and> encode_row r = Inr bs
         \<and> db_at (content n s') cat' (F(t \<mapsto> (d, m(pk \<mapsto> bs)))))"
        unfolding c(1)
      proof (rule does_bind [OF put])
        fix data' s2
        assume q: "content (1 + 3 * ?l + n) s2 data' = Some (m(pk \<mapsto> bs)) \<and> catalog (1 + 3 * ?l + n) s2 cat"
          and kp: "kept_trees content (row_budget d + n) s (1 + 3 * ?l + n) s2"
        show "does content True (1 + 3 * ?l + n) n (
          st_bind (st_bind (apply_deltas cx (deltas_of (exchanges d pk ?r r) (enumerate 0 (td_indexes d))) roots) (\<lambda>roots'.
            st_return (roots', [] @ map fst (deltas_of (exchanges d pk ?r r) (enumerate 0 (td_indexes d)))))) (\<lambda>(roots, touched).
          st_bind (store_root cx (root_key t) data') (\<lambda>_. store_iroots cx d t roots touched))) s2
        (\<lambda>_ s'. \<exists>cat' bs. catalog n s' cat' \<and> encode_row r = Inr bs
           \<and> db_at (content n s') cat' (F(t \<mapsto> (d, m(pk \<mapsto> bs)))))"
          by (rule does_post [OF does_finish [OF ok F ix(1) kp conjunct2 [OF q] conjunct1 [OF q]
                rows_stored_put [OF row(3) new(3) [OF bs(2)] new(1,2)] _ ix' [OF bs(2)]]])
            (use bs(2) in \<open>auto simp: deltas_of_mem exchanges_def in_set_enumerate_eq split: if_splits intro!: sized\<close>)
      qed
    qed (erule sized_error, simp add: CatJob.sized_def)
  qed (erule encoded_row_error, simp add: encoded_row_def rejecting_def)
  then show ?thesis using data(1) lr row(2) by (simp add: rewrite_row_indexed_def does_def st_read_def)
qed

end

end
