(* ===== verification/CatInsert.thy ===== *)
theory CatInsert
  imports CatEdit
begin

text \<open>Inserting rows: what is staged is good, and applying it keeps the catalog consistent. A refused insert changes
  nothing.\<close>

section \<open>Built rows\<close>

lemma check_cell_type_ok:
  assumes "check_cell_type table d ci v = Inr ()" "ci < length (td_columns d)"
  shows "if v = Null then is_nullable d ci else kind v = Some (cd_kind (td_columns d ! ci))"
  using assms by (cases "kind v") (auto simp: check_cell_type_def get_at_def ensure_def split: if_splits elim: kind.elims)

lemma length_next_uuid: "next_uuid rng t prev r = (u, prev', r') \<Longrightarrow> length u = 16"
  by (auto simp: next_uuid_def Let_def split: prod.splits)

lemma cell_value_wf:
  assumes "cell_value host col cell seq env = (Inr (v, seq'), env')" "default_typed (cd_default col)" "\<forall>x. cell = Some x \<longrightarrow> value_wf x"
  shows "value_wf v"
  using assms
  by (auto simp: cell_value_def default_typed_def env_now_def env_uuid_def
      split: option.splits if_splits DefaultSpec.splits prod.splits elim!: st_bind_okE) (rule length_next_uuid)

lemma place_cells_wf:
  assumes "place_cells d provided cells = Inr cells'" "\<forall>(nm, v) \<in> set provided. value_wf v" "\<forall>v. Some v \<in> set cells \<longrightarrow> value_wf v"
  shows "length cells' = length cells \<and> (\<forall>v. Some v \<in> set cells' \<longrightarrow> value_wf v)"
  using assms
proof (induction d provided cells rule: place_cells.induct)
  case (2 d nm v provided cells)
  have upd: "\<forall>x. Some x \<in> set (cells[ci := Some v]) \<longrightarrow> value_wf x" for ci
    using "2.prems"(2,3) set_update_subset_insert [of cells ci "Some v"] by auto
  show ?case using 2 upd by (auto split: option.splits if_splits)
qed simp

lemma build_cells_good:
  assumes "build_cells host d ci cols seq r env = (Inr (r', seq'), env')"
    "\<forall>(col, cell) \<in> set cols. default_typed (cd_default col) \<and> (\<forall>x. cell = Some x \<longrightarrow> value_wf x)"
    "ci + length cols = length (td_columns d)" "length r = ci" "list_all value_wf r"
    "\<And>i. i < ci \<Longrightarrow> if r ! i = Null then is_nullable d i else kind (r ! i) = Some (cd_kind (td_columns d ! i))"
  shows "row_good d r'"
  using assms
proof (induction cols arbitrary: ci seq r env)
  case Nil
  then show ?case by (auto simp: row_good_def row_typed_def list_all_iff)
next
  case (Cons x cols)
  obtain col cell where x: "x = (col, cell)" by (cases x)
  from Cons.prems(1) x obtain v seq1 env1 where c: "cell_value host col cell seq env = (Inr (v, seq1), env1)"
    "check_cell_type (td_name d) d ci v = Inr ()" "build_cells host d (Suc ci) cols seq1 (r @ [v]) env1 = (Inr (r', seq'), env')"
    by (auto elim!: st_bind_okE)
  have "value_wf v" by (rule cell_value_wf [OF c(1)]) (use Cons.prems(2) x in auto)
  moreover have "if v = Null then is_nullable d ci else kind v = Some (cd_kind (td_columns d ! ci))"
    by (rule check_cell_type_ok [OF c(2)]) (use Cons.prems(3) in simp)
  ultimately show ?case using Cons.prems by (intro Cons.IH [OF c(3)]) (auto simp: nth_append less_Suc_eq)
qed

lemma build_row_good:
  assumes "build_row host d provided seq env = (Inr (r, seq'), env')" "table_typed d" "\<forall>(nm, v) \<in> set provided. value_wf v"
  shows "row_good d r"
proof -
  from assms(1) obtain cells where c: "place_cells d provided (replicate (length (td_columns d)) None) = Inr cells"
    "build_cells host d 0 (zip (td_columns d) cells) seq [] env = (Inr (r, seq'), env')"
    by (auto simp: build_row_def elim!: st_bind_okE)
  have "length cells = length (td_columns d)" "\<forall>v. Some v \<in> set cells \<longrightarrow> value_wf v"
    using place_cells_wf [OF c(1) assms(3)] by auto
  then show ?thesis using assms(2)
    by (intro build_cells_good [OF c(2)]) (auto simp: table_typed_def dest: set_zip_leftD set_zip_rightD)
qed

lemma good_row_decodes:
  assumes "row_good d r" "encode_row r = Inr bs"
  shows "decode_padded d bs = Inr r"
proof -
  have "decode_row bs = Inr r" using row_roundtrip [of r bs] assms by (simp add: row_good_def list_all_iff)
  then show ?thesis using assms(1) by (simp add: decode_padded_def row_good_def row_typed_def)
qed

section \<open>Staged rows\<close>

lemma fold_res_Cons_Inr: "fold_res f (x # xs) v = Inr w \<longleftrightarrow> (\<exists>u. f x v = Inr u \<and> fold_res f xs u = Inr w)"
  by (auto simp: and_then_Inr)

definition additions :: "TableDef \<Rightarrow> bytes \<Rightarrow> value list \<Rightarrow> IndexDef \<Rightarrow> (IndexEntry option \<times> IndexEntry option) option" where
  "additions d pk r idx = map_option (\<lambda>e. (None, Some e)) (row_ent d idx pk r)"

text \<open>What one pass over the indexes leaves: the entries of the row, each of them sized and, in a unique index, free.\<close>

definition entry_free :: "'s ctx_ops \<Rightarrow> 's \<Rightarrow> PageId list \<Rightarrow> IndexEntry option \<Rightarrow> nat \<times> IndexDef \<Rightarrow> bytes list list \<Rightarrow> bytes list list \<Rightarrow> bool" where
  "entry_free cx s roots eo = (\<lambda>(i, idx) uniq uniq'.
     (case eo of
        None \<Rightarrow> uniq' ! i = uniq ! i
      | Some e \<Rightarrow> check_entry (entry_key e) (entry_value e) = Inr ()
          \<and> (if ix_unique idx
             then cx_lookup cx s (roots ! i) (entry_key e) = Inr None \<and> entry_key e \<notin> set (uniq ! i) \<and> uniq' ! i = entry_key e # uniq ! i
             else uniq' ! i = uniq ! i)))"

lemma stage_entries:
  assumes "fold_res (stage_entry cx s d table roots r pk) idxs (uniq, es0) = Inr (uniq', es)" "distinct (map fst idxs)"
    "\<forall>(i, idx) \<in> set idxs. i < length uniq \<and> entry_of d idx r pk = Inr (row_ent d idx pk r)"
  shows "\<exists>es1. es = es0 @ es1 \<and> added_entries es1 = deltas_of (additions d pk r) idxs \<and> length uniq' = length uniq
    \<and> (\<forall>i. i \<notin> fst ` set idxs \<longrightarrow> uniq' ! i = uniq ! i)
    \<and> (\<forall>(i, idx) \<in> set idxs. entry_free cx s roots (row_ent d idx pk r) (i, idx) uniq uniq')"
  using assms
proof (induction idxs arbitrary: uniq es0)
  case Nil
  then show ?case by (simp add: added_entries_def)
next
  case (Cons x idxs)
  obtain i idx where x: "x = (i, idx)" by (cases x)
  have i: "i < length uniq" "entry_of d idx r pk = Inr (row_ent d idx pk r)" using Cons.prems(3) x by auto
  from Cons.prems(1) obtain uniq1 es1 where step: "stage_entry cx s d table roots r pk (i, idx) (uniq, es0) = Inr (uniq1, es1)"
    "fold_res (stage_entry cx s d table roots r pk) idxs (uniq1, es1) = Inr (uniq', es)"
    unfolding fold_res_Cons_Inr x by auto
  have one: "length uniq1 = length uniq" "\<forall>j. j \<noteq> i \<longrightarrow> uniq1 ! j = uniq ! j" "entry_free cx s roots (row_ent d idx pk r) (i, idx) uniq uniq1"
    "es1 = es0 @ (case row_ent d idx pk r of Some e \<Rightarrow> [(i, e)] | None \<Rightarrow> [])"
    using step(1) i by (auto simp: stage_entry_def entry_free_def and_then_Inr sized_def reject_def split: option.splits if_splits)
  from Cons.IH [OF step(2)] Cons.prems(2,3) one(1) x obtain es2 where ih: "es = es1 @ es2" "added_entries es2 = deltas_of (additions d pk r) idxs"
    "length uniq' = length uniq1" "\<forall>i. i \<notin> fst ` set idxs \<longrightarrow> uniq' ! i = uniq1 ! i"
    "\<forall>(i, idx) \<in> set idxs. entry_free cx s roots (row_ent d idx pk r) (i, idx) uniq1 uniq'" by auto
  have ni: "i \<notin> fst ` set idxs" using Cons.prems(2) x by simp
  have "entry_free cx s roots (row_ent d idx' pk r) (j, idx') uniq uniq'" if j: "(j, idx') \<in> set idxs" for j idx'
  proof -
    have "uniq1 ! j = uniq ! j" using one(2) ni j by force
    moreover have "entry_free cx s roots (row_ent d idx' pk r) (j, idx') uniq1 uniq'" using ih(5) j by blast
    ultimately show ?thesis by (auto simp: entry_free_def split: option.splits if_splits)
  qed
  moreover have "entry_free cx s roots (row_ent d idx pk r) (i, idx) uniq uniq'" using one(3) ih(4) ni by (auto simp: entry_free_def split: option.splits if_splits)
  moreover have "additions d pk r idx = map_option (\<lambda>e. (None, Some e)) (row_ent d idx pk r)" by (simp add: additions_def)
  ultimately show ?case using ih one x
    by (intro exI [of _ "(case row_ent d idx pk r of Some e \<Rightarrow> [(i, e)] | None \<Rightarrow> []) @ es2"])
      (auto simp: added_entries_def split: option.splits)
qed

text \<open>The maps of a table after some rows were put.\<close>

definition put_rows :: "((bytes \<times> bytes) \<times> (nat \<times> IndexEntry) list) list \<Rightarrow> (bytes \<rightharpoonup> bytes) \<times> (bytes \<rightharpoonup> bytes) list \<Rightarrow>
    (bytes \<rightharpoonup> bytes) \<times> (bytes \<rightharpoonup> bytes) list" where
  "put_rows = fold (\<lambda>((k, bs), es) (m, ims). (m(k \<mapsto> bs), fold delta_maps (added_entries es) ims))"

text \<open>What holds of the rows staged so far.\<close>

definition staged_ok :: "TableDef \<Rightarrow> (bytes \<rightharpoonup> bytes) \<Rightarrow> (bytes \<rightharpoonup> bytes) list \<Rightarrow> Staged \<Rightarrow> bool" where
  "staged_ok d m ims st \<longleftrightarrow>
     length (sg_entries st) = length (sg_rows st) \<and> length (sg_unique st) = length (td_indexes d)
     \<and> list_all2 (\<lambda>(k, bs) r. row_good d r \<and> encode_row r = Inr bs \<and> pk_key_of d r = Inr k \<and> check_entry k bs = Inr ()) (sg_rows st) (sg_out st)
     \<and> distinct (map fst (sg_rows st)) \<and> set (map fst (sg_rows st)) \<inter> dom m = {}
     \<and> (\<forall>es \<in> set (sg_entries st). length es \<le> length (td_indexes d) \<and> (\<forall>x \<in> set (added_entries es). delta_sized (length (td_indexes d)) x))
     \<and> (case put_rows (zip (sg_rows st) (sg_entries st)) (m, ims) of (m', ims') \<Rightarrow>
          m' = m ++ map_of (sg_rows st) \<and> rows_stored d m' \<and> indexes_stored d m' ims'
          \<and> (\<forall>i < length (td_indexes d). ix_unique (td_indexes d ! i) \<longrightarrow> dom (ims' ! i) \<subseteq> dom (ims ! i) \<union> set (sg_unique st ! i)))"

lemma put_rows_snoc: "put_rows (xs @ [((k, bs), es)]) a = (case put_rows xs a of (m, ims) \<Rightarrow> (m(k \<mapsto> bs), fold delta_maps (added_entries es) ims))"
  by (simp add: put_rows_def split: prod.splits)

lemma map_add_snoc: "k \<notin> set (map fst xs) \<Longrightarrow> m ++ map_of (xs @ [(k, v)]) = (m ++ map_of xs)(k \<mapsto> v)"
proof -
  assume k: "k \<notin> set (map fst xs)"
  then have "map_of xs k = None" by (simp add: map_of_eq_None_iff)
  then show ?thesis by (intro ext) (auto simp: map_add_def split: option.splits)
qed

context tree_store
begin

lemma stage_checked_ok:
  assumes st: "staged_ok d m ims st" and d: "table_ok d" and r: "row_good d r"
    and trees: "content n s data = Some m" "trees_at (content n s) roots ims" "length roots = length (td_indexes d)"
    and run: "stage_checked cx s d table data roots r st = Inr st'"
  shows "staged_ok d m ims st' \<and> sg_out st' = sg_out st @ [r] \<and> sg_seq st' = sg_seq st"
proof -
  from run obtain pk uniq es bs where c: "pk_key_of d r = Inr pk" "pk \<notin> set (map fst (sg_rows st))" "cx_lookup cx s data pk = Inr None"
    "fold_res (stage_entry cx s d table roots r pk) (enumerate 0 (td_indexes d)) (sg_unique st, []) = Inr (uniq, es)"
    "encode_row r = Inr bs" "check_entry pk bs = Inr ()"
    "st' = st\<lparr> sg_rows := sg_rows st @ [(pk, bs)], sg_entries := sg_entries st @ [es], sg_unique := uniq, sg_out := sg_out st @ [r] \<rparr>"
    by (auto simp: stage_checked_def and_then_Inr rejecting_def encoded_row_def sized_def reject_def split: if_splits prod.splits)
  let ?idxs = "enumerate 0 (td_indexes d)"
  have ent: "\<forall>(i, idx) \<in> set ?idxs. i < length (sg_unique st) \<and> entry_of d idx r pk = Inr (row_ent d idx pk r)"
    using st row_ent_entry(2) [OF d _ r] by (auto simp: staged_ok_def in_set_enumerate_eq)
  have e: "added_entries es = deltas_of (additions d pk r) ?idxs" "length uniq = length (sg_unique st)"
    "\<forall>(i, idx) \<in> set ?idxs. entry_free cx s roots (row_ent d idx pk r) (i, idx) (sg_unique st) uniq"
    using stage_entries [OF c(4) _ ent] by auto
  have free: "entry_free cx s roots (row_ent d (td_indexes d ! i) pk r) (i, td_indexes d ! i) (sg_unique st) uniq" if "i < length (td_indexes d)" for i
    using e(3) that by (force simp: in_set_enumerate_eq)
  obtain m1 ims1 where m1: "put_rows (zip (sg_rows st) (sg_entries st)) (m, ims) = (m1, ims1)" by (cases "put_rows (zip (sg_rows st) (sg_entries st)) (m, ims)")
  then have s1: "m1 = m ++ map_of (sg_rows st)" "rows_stored d m1" "indexes_stored d m1 ims1"
    "\<And>i. i < length (td_indexes d) \<Longrightarrow> ix_unique (td_indexes d ! i) \<Longrightarrow> dom (ims1 ! i) \<subseteq> dom (ims ! i) \<union> set (sg_unique st ! i)"
    using st by (auto simp: staged_ok_def)
  have none: "m pk = None" using c(3) lookup_in [OF trees(1)] by simp
  have new: "m1 pk = None" using none c(2) s1(1) by (simp add: map_add_None map_of_eq_None_iff)
  note dec = good_row_decodes [OF r c(5)]
  have ims1: "length ims1 = length (td_indexes d)" using s1(3) by (simp add: indexes_stored_def)
  have maps: "fold delta_maps (added_entries es) ims1 = map2 (delta_map (additions d pk r)) (td_indexes d) ims1"
    using e(1) fold_deltas_all [OF ims1] by simp
  have at: "delta_map (additions d pk r) idx im = put_ent (row_ent d idx pk r) im" for idx im
    by (cases "row_ent d idx pk r") (simp_all add: delta_map_def additions_def put_ent_def drop_ent_def)
  have look: "cx_lookup cx s (roots ! i) k = Inr ((ims ! i) k)" if "i < length (td_indexes d)" for i k
    using lookup_in trees_at_nth(1) [OF trees(2)] trees(3) that by metis
  have "indexes_stored d (m1(pk \<mapsto> bs)) (map2 (delta_map (additions d pk r)) (td_indexes d) ims1)"
    using s1(3)
  proof (rule indexes_stored_map2)
    fix i assume i: "i < length (td_indexes d)" "index_stored d (td_indexes d ! i) m1 (ims1 ! i)"
    have "(ims1 ! i) (entry_key e) = None" if "row_ent d (td_indexes d ! i) pk r = Some e" "ix_unique (td_indexes d ! i)" for e
      using free [OF i(1)] that look [OF i(1)] s1(4) [OF i(1) that(2)] by (auto simp: entry_free_def)
    then show "index_stored d (td_indexes d ! i) (m1(pk \<mapsto> bs)) (delta_map (additions d pk r) (td_indexes d ! i) (ims1 ! i))"
      unfolding at by (intro index_add [OF d nth_mem [OF i(1)] s1(2) i(2) new dec r c(1)]) auto
  qed
  moreover have "dom (map2 (delta_map (additions d pk r)) (td_indexes d) ims1 ! i) \<subseteq> dom (ims ! i) \<union> set (uniq ! i)"
    if "i < length (td_indexes d)" "ix_unique (td_indexes d ! i)" for i
    using free [OF that(1)] that s1(4) [OF that] ims1 by (auto simp: at put_ent_def entry_free_def split: option.splits if_splits)
  moreover have "length es \<le> length (td_indexes d)" "\<forall>x \<in> set (added_entries es). delta_sized (length (td_indexes d)) x"
  proof -
    have "length (added_entries es) \<le> length ?idxs" unfolding e(1) by (rule length_deltas_of)
    then show "length es \<le> length (td_indexes d)" by (simp add: added_entries_def)
    have "check_entry (entry_key e) (entry_value e) = Inr ()" if "i < length (td_indexes d)" "row_ent d (td_indexes d ! i) pk r = Some e" for i e
      using free [OF that(1)] that(2) by (simp add: entry_free_def)
    then show "\<forall>x \<in> set (added_entries es). delta_sized (length (td_indexes d)) x" unfolding e(1)
      by (auto simp: deltas_of_mem additions_def delta_sized_def in_set_enumerate_eq)
  qed
  moreover have "rows_stored d (m1(pk \<mapsto> bs))" by (rule rows_stored_put [OF s1(2) dec r c(1)])
  moreover have "put_rows (zip (sg_rows st') (sg_entries st')) (m, ims) = (m1(pk \<mapsto> bs), map2 (delta_map (additions d pk r)) (td_indexes d) ims1)"
    using st m1 maps by (simp add: c(7) staged_ok_def put_rows_snoc)
  moreover have "m1(pk \<mapsto> bs) = m ++ map_of (sg_rows st')" unfolding s1(1) c(7) using map_add_snoc [OF c(2)] by simp
  ultimately have "staged_ok d m ims st'"
    using st c(1,2,5,6) r none e(2) unfolding staged_ok_def by (auto simp: c(7) intro!: list_all2_appendI)
  then show ?thesis by (simp add: c(7))
qed

lemma stage_rows_ok:
  assumes "staged_ok d m ims st" "table_ok d" "table_typed d" "\<forall>p \<in> set input. \<forall>(nm, v) \<in> set p. value_wf v"
    "content n (js_ctx j) data = Some m" "trees_at (content n (js_ctx j)) roots ims" "length roots = length (td_indexes d)"
    "stage_rows host cx d table data roots input st j = (res, j')"
  shows "js_ctx j' = js_ctx j \<and> (\<forall>st'. res = Inr st' \<longrightarrow> staged_ok d m ims st' \<and> length (sg_out st') = length (sg_out st) + length input)"
  using assms
proof (induction input arbitrary: st j)
  case (Cons p input)
  let ?st = "\<lambda>seq. st\<lparr> sg_seq := seq \<rparr>"
  have keep: "staged_ok d m ims (?st seq)" for seq using Cons.prems(1) by (simp add: staged_ok_def)
  from Cons.prems(8) show ?case unfolding stage_rows.simps
  proof (cases rule: st_bindE)
    case (err e)
    then show ?thesis by (auto simp: stage_row_def on_env_def job_read_def on_cx_def st_read_def st_zoom_def st_map_err_def
          elim!: st_bindE split: prod.splits)
  next
    case (ok st1 j1)
    then obtain r seq env where b: "build_row host d p (sg_seq st) (js_env j) = (Inr (r, seq), env)" "j1 = j\<lparr> js_env := env \<rparr>"
      "stage_checked cx (js_ctx j) d table data roots r (?st seq) = Inr st1"
      by (auto simp: stage_row_def on_env_def job_read_def on_cx_def st_read_def st_zoom_def elim!: st_bind_okE split: prod.splits)
    have r: "row_good d r" by (rule build_row_good [OF b(1) Cons.prems(3)]) (use Cons.prems(4) in simp)
    from stage_checked_ok [OF keep Cons.prems(2) r Cons.prems(5-7) b(3)]
    have s1: "staged_ok d m ims st1" "sg_out st1 = sg_out st @ [r]" by simp_all
    have "js_ctx j1 = js_ctx j" using b(2) by simp
    with Cons.IH [OF s1(1) Cons.prems(2,3) _ _ _ Cons.prems(7) ok(2)] Cons.prems(4-6) s1(2) show ?thesis by auto
  qed
qed auto

lemma does_apply_staged:
  assumes "content (length xs * Suc l + n) s data = Some m" "trees_at (content (length xs * Suc l + n) s) roots ims" "catalog (length xs * Suc l + n) s cat"
    and "\<forall>((k, bs), es) \<in> set xs. check_entry k bs = Inr () \<and> length es \<le> l \<and> (\<forall>x \<in> set (added_entries es). delta_sized (length roots) x)"
  shows "does content f (length xs * Suc l + n) n (apply_staged cx xs (data, roots)) s
    (\<lambda>(data', roots') s'. content n s' data' = Some (fst (put_rows xs (m, ims))) \<and> trees_at (content n s') roots' (snd (put_rows xs (m, ims))) \<and> catalog n s' cat)"
  using assms
proof (induction xs arbitrary: s data roots m ims)
  case (Cons x xs)
  obtain k bs es where x: "x = ((k, bs), es)" by (cases x) auto
  let ?n = "length xs * Suc l + n"
  have e: "check_entry k bs = Inr ()" "length es \<le> l" "\<forall>x \<in> set (added_entries es). delta_sized (length roots) x" using Cons.prems(4) x by auto
  have sum: "length (x # xs) * Suc l + n = Suc (l + ?n)" by simp
  have put: "put_rows (x # xs) (m, ims) = put_rows xs (m(k \<mapsto> bs), fold delta_maps (added_entries es) ims)" by (simp add: put_rows_def x)
  have "does content f (Suc (l + ?n)) n (st_bind (cx_insert cx data k bs) (\<lambda>data.
      st_bind (apply_deltas cx (added_entries es) roots) (\<lambda>roots. apply_staged cx xs (data, roots)))) s
    (\<lambda>(data', roots') s'. content n s' data' = Some (fst (put_rows (x # xs) (m, ims)))
      \<and> trees_at (content n s') roots' (snd (put_rows (x # xs) (m, ims))) \<and> catalog n s' cat)"
  proof (rule does_bind [OF does_insert [OF _ e(1)]])
    show "content (Suc (l + ?n)) s data = Some m" "catalog (Suc (l + ?n)) s cat" by (rule Cons.prems(1,3) [unfolded sum])+
    fix data1 s1
    assume q: "content (l + ?n) s1 data1 = Some (m(k \<mapsto> bs)) \<and> catalog (l + ?n) s1 cat" and kp: "kept_trees content (Suc (l + ?n)) s (l + ?n) s1"
    have le: "length es + ?n \<le> l + ?n" using e(2) by simp
    have t1: "trees_at (content (l + ?n) s1) roots ims" by (rule trees_at_kept [OF kp Cons.prems(2) [unfolded sum]])
    then have t: "trees_at (content (length es + ?n) s1) roots ims" using weaken_le [OF _ le] by (auto simp: trees_at_def elim!: list_all2_mono)
    have "does content f (length es + ?n) ?n (apply_deltas cx (added_entries es) roots) s1
      (\<lambda>roots' s'. trees_at (content ?n s') roots' (fold delta_maps (added_entries es) ims) \<and> catalog ?n s' cat)"
      using does_add_deltas [OF t e(3)] q weaken_le [OF _ le] by blast
    from does_more [OF this le]
    show "does content f (l + ?n) n (st_bind (apply_deltas cx (added_entries es) roots) (\<lambda>roots. apply_staged cx xs (data1, roots))) s1
      (\<lambda>(data', roots') s'. content n s' data' = Some (fst (put_rows (x # xs) (m, ims)))
        \<and> trees_at (content n s') roots' (snd (put_rows (x # xs) (m, ims))) \<and> catalog n s' cat)"
    proof (rule does_bind)
      fix roots2 s2
      assume q2: "trees_at (content ?n s2) roots2 (fold delta_maps (added_entries es) ims) \<and> catalog ?n s2 cat"
        and k2: "kept_trees content (l + ?n) s1 ?n s2"
      have "length roots2 = length roots" using q2 t trees_at_nth(2) by (metis length_fold_deltas)
      then show "does content f ?n n (apply_staged cx xs (data1, roots2)) s2
        (\<lambda>(data', roots') s'. content n s' data' = Some (fst (put_rows (x # xs) (m, ims)))
          \<and> trees_at (content n s') roots' (snd (put_rows (x # xs) (m, ims))) \<and> catalog n s' cat)"
        unfolding put using Cons.prems(4) by (intro Cons.IH [OF keptD [OF k2 conjunct1 [OF q]] conjunct1 [OF q2] conjunct2 [OF q2]]) simp
    qed
  qed
  then show ?case unfolding sum by (simp only: x apply_staged.simps)
qed (simp add: does_return put_rows_def)

end

lemma enumerate_upt: "enumerate 0 xs = map (\<lambda>i. (i, xs ! i)) [0..<length xs]"
  by (rule nth_equalityI) (simp_all add: nth_enumerate_eq)

lemma st_each_map: "st_each f (map g xs) = st_each (\<lambda>x. f (g x)) xs"
  by (induction xs) simp_all

lemma st_each_cong: "(\<And>x. x \<in> set xs \<Longrightarrow> f x = g x) \<Longrightarrow> st_each f xs = st_each g xs"
  by (induction xs) simp_all

lemma store_all_iroots:
  "st_each (\<lambda>(i, idx). store_iroot cx t (ix_name idx) (roots ! i)) (enumerate 0 (td_indexes d)) = store_iroots cx d t roots [0..<length (td_indexes d)]"
  unfolding enumerate_upt st_each_map store_iroots_def by (rule st_each_cong) (simp add: get_at_def)

lemma staged_sized:
  assumes "staged_ok d m ims st" "(k, bs) \<in> set (sg_rows st)"
  shows "check_entry k bs = Inr ()"
proof -
  have all: "list_all2 (\<lambda>(k, bs) r. check_entry k bs = Inr ()) (sg_rows st) (sg_out st)"
    using assms(1) by (auto simp: staged_ok_def elim!: list_all2_mono)
  then obtain r where "((k, bs), r) \<in> set (zip (sg_rows st) (sg_out st))"
    using assms(2) by (metis in_set_impl_in_set_zip1 list_all2_lengthD)
  then show ?thesis using all by (auto simp: list_all2_iff)
qed

text \<open>The changes an insert may cost.\<close>

definition insert_budget :: "TableDef \<Rightarrow> nat \<Rightarrow> nat" where
  "insert_budget d k = k * Suc (length (td_indexes d)) + length (td_indexes d) + 2"

text \<open>The rows of an insert as they are stored: good rows under their primary keys, new to the table.\<close>

definition stored_rows :: "TableDef \<Rightarrow> (bytes \<rightharpoonup> bytes) \<Rightarrow> (bytes \<times> bytes) list \<Rightarrow> value list list \<Rightarrow> bool" where
  "stored_rows d m kvs rows \<longleftrightarrow>
     list_all2 (\<lambda>(k, bs) r. row_good d r \<and> encode_row r = Inr bs \<and> pk_key_of d r = Inr k) kvs rows
     \<and> distinct (map fst kvs) \<and> set (map fst kvs) \<inter> dom m = {}"

lemma on_cx_run: "on_cx m j = (case m (js_ctx j) of (r, s) \<Rightarrow> (r, j\<lparr> js_ctx := s \<rparr>))"
  by (simp add: on_cx_def st_zoom_def)

lemma job_read_run [simp]: "job_read g j = (g (js_ctx j), j)"
  by (simp add: job_read_def on_cx_run st_read_def)

lemma stored_staged: "staged_ok d m ims st \<Longrightarrow> stored_rows d m (sg_rows st) (sg_out st)"
  by (auto simp: staged_ok_def stored_rows_def elim!: list_all2_mono)

context tree_store
begin

text \<open>The applying half of an insert.\<close>

lemma does_apply_insert:
  assumes st: "staged_ok d m ims st" "length (sg_rows st) = k" and cat: "catalog (insert_budget d k + n) s cat"
    and ok: "db_at (content (insert_budget d k + n) s) cat F" "F t = Some (d, m)"
    and roots: "iroots_at (content (insert_budget d k + n) s) cat t d roots0 ims" and data: "content (insert_budget d k + n) s data0 = Some m"
  shows "does content False (insert_budget d k + n) n (apply_insert cx d t data0 roots0 seq0 st) s
    (\<lambda>out s'. out = OutRows (sg_out st)
       \<and> (\<exists>cat'. catalog n s' cat' \<and> db_at (content n s') cat' (F(t \<mapsto> (d, m ++ map_of (sg_rows st))))))"
proof -
  let ?l = "length (td_indexes d)" and ?xs = "zip (sg_rows st) (sg_entries st)" and ?N = "insert_budget d k + n"
  have len: "length ?xs = k" "length roots0 = ?l" using st roots by (auto simp: staged_ok_def iroots_at_def)
  have sum: "?N = length ?xs * Suc ?l + (Suc (?l + Suc n))" using len(1) by (simp add: insert_budget_def)
  obtain m' ims' where put: "put_rows ?xs (m, ims) = (m', ims')" by (cases "put_rows ?xs (m, ims)")
  then have m': "m' = m ++ map_of (sg_rows st)" "rows_stored d m'" "indexes_stored d m' ims'" using st(1) by (auto simp: staged_ok_def)
  have sized: "\<forall>((k, bs), es) \<in> set ?xs. check_entry k bs = Inr () \<and> length es \<le> ?l \<and> (\<forall>x \<in> set (added_entries es). delta_sized (length roots0) x)"
    using st(1) len(2) staged_sized [OF st(1)] by (auto simp: staged_ok_def dest: set_zip_leftD set_zip_rightD)
  have dist: "distinct (map ix_name (td_indexes d))" using db_tableD [OF ok] by (auto simp: table_at_def table_stored_def table_ok_def)
  have tr: "trees_at (content ?N s) roots0 ims" using roots by (simp add: iroots_at_def)
  note app = does_apply_staged [where f = False, OF data [unfolded sum] tr [unfolded sum] cat [unfolded sum] sized, folded sum]
  show ?thesis unfolding apply_insert_def
  proof (rule does_bind [OF app], clarify)
    fix data roots s1
    assume q: "content (Suc (?l + Suc n)) s1 data = Some (fst (put_rows ?xs (m, ims)))" "trees_at (content (Suc (?l + Suc n)) s1) roots (snd (put_rows ?xs (m, ims)))"
      "catalog (Suc (?l + Suc n)) s1 cat" and k1: "kept_trees content ?N s (Suc (?l + Suc n)) s1"
    have lr: "length roots = length roots0" using trees_at_nth(2) [OF q(2)] m'(3) len(2) put by (simp add: indexes_stored_def)
    have all: "set [0..<?l] \<subseteq> {..<?l}" by auto
    have store: "does content False (Suc (?l + Suc n)) (Suc n) (st_bind (store_root cx (root_key t) data) (\<lambda>_. store_iroots cx d t roots [0..<?l])) s1
      (\<lambda>_ s'. \<exists>cat'. catalog (Suc n) s' cat' \<and> db_at (content (Suc n) s') cat' (F(t \<mapsto> (d, m'))))"
      using does_store_table [OF ok roots, of "[0..<?l]" "Suc n" s1 data m' roots ims' False] k1 q m' put lr all by auto
    let ?seq = "st_bind (if sg_seq st \<noteq> seq0
        then st_bind (st_lift (rejecting (seq_key t))) (\<lambda>key. store_entry cx key (encode_seq (sg_seq st)))
        else st_return ()) (\<lambda>_. st_return (OutRows (sg_out st)))"
    have "does content False (Suc (?l + Suc n)) n
       (st_bind (st_bind (store_root cx (root_key t) data) (\<lambda>_. store_iroots cx d t roots [0..<?l])) (\<lambda>_. ?seq)) s1
      (\<lambda>out s'. out = OutRows (sg_out st)
       \<and> (\<exists>cat'. catalog n s' cat' \<and> db_at (content n s') cat' (F(t \<mapsto> (d, m')))))"
    proof (rule does_bind [OF store], elim exE conjE)
      fix x s2 cat2
      assume c2: "catalog (Suc n) s2 cat2" and tc: "db_at (content (Suc n) s2) cat2 (F(t \<mapsto> (d, m')))"
      show "does content False (Suc n) n ?seq s2 (\<lambda>out s'. out = OutRows (sg_out st)
         \<and> (\<exists>cat'. catalog n s' cat' \<and> db_at (content n s') cat' (F(t \<mapsto> (d, m')))))"
      proof (cases "sg_seq st = seq0")
        case True
        have "does content False (Suc n) (Suc n) ?seq s2 (\<lambda>out s'. out = OutRows (sg_out st) \<and> s' = s2)"
          using True by (simp add: does_def kept_trees_def)
        then show ?thesis
        proof (rule does_less)
          fix x s' assume xs: "x = OutRows (sg_out st) \<and> s' = s2"
          have "kept_trees content (Suc n) s2 n s2" unfolding kept_trees_def using weaken by blast
          with xs weaken [OF c2] db_at_kept [where C = content, OF tc]
          have "catalog n s' cat2" "db_at (content n s') cat2 (F(t \<mapsto> (d, m')))" by metis+
          with xs show "x = OutRows (sg_out st) \<and> (\<exists>cat'. catalog n s' cat' \<and> db_at (content n s') cat' (F(t \<mapsto> (d, m'))))"
            by blast
        qed simp
      next
        case False
        obtain r where "cat2 (rootk t) = Some (encode_root r)" using db_tableD [OF tc, of t d m'] by (auto simp: table_at_def table_stored_def linked_def)
        then have "check_entry (seqk t) (encode_seq (sg_seq st)) = Inr ()" using sized_in [OF c2] seq_sized by blast
        from does_never [OF does_store_entry [OF c2 this]] obtain s3 where s3: "store_entry cx (seqk t) (encode_seq (sg_seq st)) s2 = (Inr (), s3)"
          "kept_trees content (Suc n) s2 n s3" "catalog n s3 (cat2(seqk t \<mapsto> encode_seq (sg_seq st)))" by auto
        have "?seq s2 = (Inr (OutRows (sg_out st)), s3)" using False s3(1) by (simp add: rejecting_def)
        moreover have "db_at (content n s3) (cat2(seqk t \<mapsto> encode_seq (sg_seq st))) (F(t \<mapsto> (d, m')))"
          by (rule db_at_seq [OF db_at_kept [where C = content, OF tc s3(2)]]) simp
        ultimately show ?thesis using s3(2,3) unfolding does_def by auto
      qed
    qed
    then show "does content False (Suc (?l + Suc n)) n (st_bind (store_root cx (root_key t) data) (\<lambda>_.
       st_bind (st_each (\<lambda>(i, idx). store_iroot cx t (ix_name idx) (roots ! i)) (enumerate 0 (td_indexes d))) (\<lambda>_. ?seq))) s1
      (\<lambda>out s'. out = OutRows (sg_out st)
       \<and> (\<exists>cat'. catalog n s' cat' \<and> db_at (content n s') cat' (F(t \<mapsto> (d, m ++ map_of (sg_rows st))))))"
      unfolding store_all_iroots st_bind_assoc m'(1) .
  qed
qed

text \<open>An insert is refused without a change, or stores its rows.\<close>

lemma insert_rows_run:
  assumes cat: "catalog (insert_budget d (length input) + n) (js_ctx j) cat"
    and ok: "db_at (content (insert_budget d (length input) + n) (js_ctx j)) cat F" "F t = Some (d, m)"
    and wf: "\<forall>p \<in> set input. \<forall>(nm, v) \<in> set p. value_wf v"
    and run: "insert_rows host cx t input j = (res, j')"
  shows "case res of
      Inl e \<Rightarrow> js_ctx j' = js_ctx j \<and> (\<forall>data roots seq. load_root cx (js_ctx j) t = Inr data \<longrightarrow> load_index_roots cx (js_ctx j) d = Inr roots \<longrightarrow>
          (if list_ex cd_auto_increment (td_columns d) then load_seq cx (js_ctx j) t else Inr 0) = Inr seq \<longrightarrow>
          fst (stage_rows host cx d t data roots input (nothing_staged d seq) j) = Inl e)
    | Inr out \<Rightarrow> \<exists>rows kvs cat'. out = OutRows rows \<and> length rows = length input \<and> stored_rows d m kvs rows \<and> catalog n (js_ctx j') cat'
        \<and> db_at (content n (js_ctx j')) cat' (F(t \<mapsto> (d, m ++ map_of kvs)))
        \<and> (\<forall>data roots seq st. load_root cx (js_ctx j) t = Inr data \<longrightarrow> load_index_roots cx (js_ctx j) d = Inr roots \<longrightarrow>
          (if list_ex cd_auto_increment (td_columns d) then load_seq cx (js_ctx j) t else Inr 0) = Inr seq \<longrightarrow>
          fst (stage_rows host cx d t data roots input (nothing_staged d seq) j) = Inr st \<longrightarrow> rows = sg_out st)"
proof -
  let ?N = "insert_budget d (length input) + n" and ?s = "js_ctx j"
  have st: "table_stored (content ?N ?s) cat t d m" "table_ok d" "td_name d = t" "table_typed d" "rows_stored d m"
    using db_tableD [OF ok] by (auto simp: table_at_def table_stored_def)
  obtain roots ims where ix: "iroots_at (content ?N ?s) cat t d roots ims" "indexes_stored d m ims" by (rule iroots_exist [OF st(1)])
  obtain data where data: "load_root cx ?s t = Inr data" "content ?N ?s data = Some m" by (rule load_root_at [OF cat st(1)])
  have lr: "load_index_roots cx ?s d = Inr roots" "load_table cx ?s t = Inr d"
    using load_index_roots_at [OF cat] ix(1) st(3) load_table_at [OF cat db_tableD [OF ok]] by simp_all
  have init: "staged_ok d m ims (nothing_staged d seq)" for seq using st(5) ix(2) by (simp add: staged_ok_def put_rows_def nothing_staged_def)
  have tr: "trees_at (content ?N ?s) roots ims" "length roots = length (td_indexes d)" using ix(1) by (simp_all add: iroots_at_def)
  let ?seq = "if list_ex cd_auto_increment (td_columns d) then load_seq cx ?s t else Inr 0"
  show ?thesis
  proof (cases ?seq)
    case (Inl e)
    then have "res = Inl e" "j' = j" using run data(1) lr by (auto simp: insert_rows_def)
    then show ?thesis using Inl by (auto split: if_splits)
  next
    case (Inr seq0)
    then have run1: "st_bind (stage_rows host cx d t data roots input (nothing_staged d seq0)) (\<lambda>st. on_cx (apply_insert cx d t data roots seq0 st)) j = (res, j')"
      using run data(1) lr by (simp add: insert_rows_def)
    from run1 show ?thesis
    proof (cases rule: st_bindE)
      case (err e)
      then show ?thesis using stage_rows_ok [OF init st(2,4) wf data(2) tr err(1)] data(1) lr(1) Inr by simp
    next
      case (ok st' j1)
      from stage_rows_ok [OF init st(2,4) wf data(2) tr ok(1)]
      have st': "js_ctx j1 = ?s" "staged_ok d m ims st'" "length (sg_out st') = length input" by (simp_all add: nothing_staged_def)
      have "length (sg_rows st') = length input" using st'(2,3) by (auto simp: staged_ok_def dest: list_all2_lengthD)
      from does_never [OF does_apply_insert [OF st'(2) this cat \<open>db_at _ cat F\<close> \<open>F t = Some (d, m)\<close> ix(1) data(2), of seq0]] obtain s' cat' where
        "apply_insert cx d t data roots seq0 st' ?s = (Inr (OutRows (sg_out st')), s')" "catalog n s' cat'"
        "db_at (content n s') cat' (F(t \<mapsto> (d, m ++ map_of (sg_rows st'))))" by blast
      moreover have "\<forall>data roots seq st. load_root cx ?s t = Inr data \<longrightarrow> load_index_roots cx ?s d = Inr roots \<longrightarrow> ?seq = Inr seq \<longrightarrow>
          fst (stage_rows host cx d t data roots input (nothing_staged d seq) j) = Inr st \<longrightarrow> sg_out st' = sg_out st"
        using ok(1) data(1) lr(1) Inr by simp
      ultimately show ?thesis using ok(2) st' stored_staged [OF st'(2)] by (auto simp: on_cx_run)
    qed
  qed
qed

end

end
