(* ===== verification/CatFindings.thy ===== *)
theory CatFindings
  imports CatInsert
begin

text \<open>Where the row changes of the catalog do not do what their comments promise, shown on the model.\<close>

section \<open>Exchanging unique values within one update\<close>

text \<open>\<open>update_where\<close> accepts a batch in which two rows exchange the values of a unique column: the arriving keys are
  among the leaving ones. It then applies the deltas row by row, removing the old entry and inserting the new
  one each time. The second row removes the entry the first row has just inserted: the first row is left
  without an entry.\<close>

lemma swap_loses_entry:
  assumes "i < length ims" "entry_key new_a = entry_key old_b" "entry_key new_b = entry_key old_a" "entry_key old_a \<noteq> entry_key old_b"
  shows "(fold delta_maps [(i, Some old_a, Some new_a), (i, Some old_b, Some new_b)] ims ! i) (entry_key new_a) = None"
  using assms by (simp add: delta_maps_def put_ent_def drop_ent_def)

section \<open>Rows that reference a key and are not found\<close>

text \<open>\<open>scan_children\<close> uses any index that starts with the referencing columns. A unique index has no entry for a row with
  \<open>NULL\<close> in one of its columns, so a child row whose foreign key is set and whose other indexed column is
  \<open>NULL\<close> is not found, and a \<open>RESTRICT\<close> or \<open>CASCADE\<close> does not see it.\<close>

definition orphan_fk :: ForeignKey where
  "orphan_fk = \<lparr> fk_name = str_bytes ''f'', fk_columns = [str_bytes ''p''], fk_parent = str_bytes ''a'', fk_parent_columns = [str_bytes ''i''],
     fk_on_delete = Restrict, fk_on_update = Restrict \<rparr>"

definition orphan_def :: TableDef where
  "orphan_def = (table_new (str_bytes ''c'') [column_new (str_bytes ''i'') TI64, (column_new (str_bytes ''p'') TI64)\<lparr> cd_nullable := True \<rparr>,
       (column_new (str_bytes ''q'') TI64)\<lparr> cd_nullable := True \<rparr>] [str_bytes ''i''])
     \<lparr> td_indexes := [\<lparr> ix_name = str_bytes ''x'', ix_columns = [str_bytes ''p'', str_bytes ''q''], ix_unique = True \<rparr>],
       td_foreign_keys := [orphan_fk] \<rparr>"

definition orphan_row :: "value list" where "orphan_row = [I64 1, I64 5, Null]"

lemma orphan_references: "fk_values orphan_def orphan_fk orphan_row = Some [I64 5]"
  by code_simp

lemma orphan_unindexed: "entry_of orphan_def (hd (td_indexes orphan_def)) orphan_row (i64_key 1) = Inr None"
  by code_simp

context tree_store
begin

lemma orphan_missed:
  assumes "load_root cx s (str_bytes ''c'') = Inr data" "load_iroot cx s (str_bytes ''c'') (str_bytes ''x'') = Inr r"
    and "content n s r = Some Map.empty"
  shows "scan_children cx s orphan_def orphan_fk [I64 5] = Inr []"
proof -
  have "\<not> isl (prefix_bounds [I64 5])" by code_simp
  then obtain lo hi where b: "prefix_bounds [I64 5] = Inr (lo, hi)" by (cases "prefix_bounds [I64 5]") auto
  obtain out where "cx_scan cx s r (Some lo) hi = Inr out" "set out = {}" using scan_in [OF assms(3), of "Some lo" hi] by auto
  then show ?thesis using assms(1,2) b
    by (simp add: scan_children_def orphan_def_def orphan_fk_def table_new_def)
qed

end

section \<open>A referential closure that is planned forever\<close>

text \<open>\<open>plan_cascade\<close> queues a rewritten row again whenever its planned contents change. A row whose two columns reference
  each other with \<open>ON UPDATE CASCADE\<close>, with both columns updated in one statement, is rewritten without end.\<close>

definition loop_fk :: "bytes \<Rightarrow> bytes \<Rightarrow> ForeignKey" where
  "loop_fk a b = \<lparr> fk_name = a, fk_columns = [a], fk_parent = str_bytes ''t'', fk_parent_columns = [b],
     fk_on_delete = Restrict, fk_on_update = Cascade \<rparr>"

definition loop_def :: TableDef where
  "loop_def = (table_new (str_bytes ''t'') [column_new (str_bytes ''i'') TI64, column_new (str_bytes ''a'') TI64, column_new (str_bytes ''b'') TI64] [str_bytes ''i''])
     \<lparr> td_foreign_keys := [loop_fk (str_bytes ''a'') (str_bytes ''b''), loop_fk (str_bytes ''b'') (str_bytes ''a'')] \<rparr>"

abbreviation loop_a :: ForeignKey where "loop_a \<equiv> loop_fk (str_bytes ''a'') (str_bytes ''b'')"
abbreviation loop_b :: ForeignKey where "loop_b \<equiv> loop_fk (str_bytes ''b'') (str_bytes ''a'')"

definition loop_row :: "i64 \<Rightarrow> i64 \<Rightarrow> value list" where
  "loop_row a b = [I64 1, I64 a, I64 b]"

definition loop_eff :: "i64 \<Rightarrow> i64 \<Rightarrow> CascadeEffect" where
  "loop_eff a b = \<lparr> ef_table = str_bytes ''t'', ef_old_row = loop_row 5 5, ef_new_row = Some (loop_row a b) \<rparr>"

definition loop_plan :: "i64 \<Rightarrow> i64 \<Rightarrow> CascadeEffect list \<Rightarrow> Cascade_plan" where
  "loop_plan a b effs = \<lparr> cs_deletes = [], cs_rewrites = [((str_bytes ''t'', i64_key 1), (loop_row 5 5, loop_row a b))], cs_effects = effs \<rparr>"

lemma loop_names: "col_index loop_def (str_bytes ''a'') = Some 1" "col_index loop_def (str_bytes ''b'') = Some 2"
  by code_simp+

lemma loop_fields: "td_name loop_def = str_bytes ''t''" "fk_columns (loop_fk c e) = [c]" "fk_parent_columns (loop_fk c e) = [e]" "fk_parent (loop_fk c e) = str_bytes ''t''"
  "fk_on_update (loop_fk c e) = Cascade" "td_foreign_keys loop_def = [loop_a, loop_b]"
  by (simp_all add: loop_def_def table_new_def loop_fk_def)

lemma i64_value_eq: "value_eq (I64 a) (I64 b) \<longleftrightarrow> a = b"
  unfolding value_eq_def by (simp add: sint_eq_iff)

lemma loop_keys:
  "parent_key_of loop_def loop_a (loop_row x y) = Some [I64 y]" "parent_key_of loop_def loop_b (loop_row x y) = Some [I64 x]"
  by (simp_all add: parent_key_of_def loop_names loop_fields loop_row_def get_at_def)

lemma loop_lost:
  "lost_key loop_def (loop_eff x y) loop_a = (if y = 5 then None else Some ([I64 5], Cascade))"
  "lost_key loop_def (loop_eff x y) loop_b = (if x = 5 then None else Some ([I64 5], Cascade))"
  by (simp_all add: lost_key_def loop_fields loop_eff_def loop_keys vals_eq_def i64_value_eq)

lemma loop_set:
  "set_fk_columns loop_def loop_a (loop_row a b) (Some [I64 y]) = loop_row y b"
  "set_fk_columns loop_def loop_b (loop_row a b) (Some [I64 x]) = loop_row a x"
  by (simp_all add: set_fk_columns_def loop_names loop_fields loop_row_def cell_or_null_def get_at_def)

lemma loop_rows_eq: "vals_eq (loop_row a b) (loop_row c d) \<longleftrightarrow> a = c \<and> b = d"
  by (simp add: vals_eq_def loop_row_def i64_value_eq)

lemma loop_children:
  "plan_child loop_def (loop_eff x y) loop_def loop_a Cascade (i64_key 1, loop_row 5 5) (loop_plan a b effs, q) =
     (loop_plan y b effs, if a = y then q else q @ [loop_eff y b])"
  "plan_child loop_def (loop_eff x y) loop_def loop_b Cascade (i64_key 1, loop_row 5 5) (loop_plan a b effs, q) =
     (loop_plan a x effs, if b = x then q else q @ [loop_eff a x])"
  by (simp_all add: plan_child_def Let_def loop_plan_def loop_fields loop_eff_def loop_keys loop_set loop_rows_eq)

definition loop_start :: Cascade_plan where
  "loop_start = \<lparr> cs_deletes = [], cs_rewrites = [], cs_effects = [] \<rparr>"

lemma loop_first:
  "plan_child loop_def (loop_eff x y) loop_def loop_a Cascade (i64_key 1, loop_row 5 5) (loop_start, q) = (loop_plan y 5 [], q @ [loop_eff y 5])"
  by (simp add: plan_child_def Let_def loop_plan_def loop_start_def loop_fields loop_eff_def loop_keys loop_set)

lemma loop_effects: "(loop_plan a b effs)\<lparr> cs_effects := es \<rparr> = loop_plan a b es" "cs_effects (loop_plan a b effs) = effs"
  by (simp_all add: loop_plan_def)

text \<open>One turn of the loop: the planned row takes the values of the effect crosswise, and is queued again when it changed.\<close>

lemma loop_turn:
  assumes "scan_children cx s loop_def loop_a [I64 5] = Inr [(i64_key 1, loop_row 5 5)]"
    and "scan_children cx s loop_def loop_b [I64 5] = Inr [(i64_key 1, loop_row 5 5)]" "x \<noteq> 5"
  shows "plan_loop cx s [loop_def] (Suc n) (loop_plan a b effs) (loop_eff x y # q) =
    (let a' = (if y = 5 then a else y); q' = (if a' = a then q else q @ [loop_eff a' b])
     in plan_loop cx s [loop_def] n (loop_plan a' x (effs @ [loop_eff x y])) (if b = x then q' else q' @ [loop_eff a' x]))"
proof -
  have t: "find_table [loop_def] (ef_table (loop_eff x y)) = Some loop_def" by (simp add: find_table_def loop_fields loop_eff_def)
  show ?thesis using assms t
    by (simp add: loop_effects fk_edges_def loop_fields plan_edge_def loop_lost loop_children Let_def)
qed

lemma loop_turns:
  assumes "scan_children cx s loop_def loop_a [I64 5] = Inr [(i64_key 1, loop_row 5 5)]"
    and "scan_children cx s loop_def loop_b [I64 5] = Inr [(i64_key 1, loop_row 5 5)]"
  shows "plan_loop cx s [loop_def] n (loop_plan 7 7 effs) [loop_eff 7 6, loop_eff 7 7] = Inl None
    \<and> plan_loop cx s [loop_def] n (loop_plan 6 7 effs) [loop_eff 7 7, loop_eff 6 7] = Inl None
    \<and> plan_loop cx s [loop_def] n (loop_plan 7 7 effs) [loop_eff 6 7, loop_eff 7 7] = Inl None
    \<and> plan_loop cx s [loop_def] n (loop_plan 7 6 effs) [loop_eff 7 7, loop_eff 7 6] = Inl None"
  by (induction n arbitrary: effs) (simp_all add: loop_turn [OF assms] del: plan_loop.simps(3))

text \<open>Whatever the budget, planning the update of the row from \<open>(5, 5)\<close> to \<open>(6, 7)\<close> exhausts it.\<close>

lemma plan_never_ends:
  assumes "scan_children cx s loop_def loop_a [I64 5] = Inr [(i64_key 1, loop_row 5 5)]"
    and "scan_children cx s loop_def loop_b [I64 5] = Inr [(i64_key 1, loop_row 5 5)]"
  shows "plan_cascade cx s [loop_def] n [] [(str_bytes ''t'', loop_row 5 5, loop_row 6 7)] = Inl None"
proof -
  have t: "find_table [loop_def] (ef_table (loop_eff x y)) = Some loop_def" for x y by (simp add: find_table_def loop_fields loop_eff_def)
  have "plan_loop cx s [loop_def] n loop_start [loop_eff 6 7] = Inl None"
  proof (cases n)
    case (Suc k)
    have "plan_loop cx s [loop_def] (Suc k) loop_start [loop_eff 6 7] =
        plan_loop cx s [loop_def] k (loop_plan 7 6 [loop_eff 6 7]) [loop_eff 7 5, loop_eff 7 6]"
      using assms t by (simp add: loop_effects fk_edges_def loop_fields plan_edge_def loop_lost loop_children loop_first)
    also have "\<dots> = Inl None"
      by (cases k) (simp_all add: loop_turn [OF assms] loop_turns [OF assms] del: plan_loop.simps(3))
    finally show ?thesis using Suc by simp
  qed simp
  then show ?thesis by (simp add: plan_cascade_def seed_deletes_def loop_start_def loop_eff_def)
qed

end
