(* ===== verification/CatBands.thy ===== *)
theory CatBands
  imports CatRun
begin

text \<open>The key bands of the catalog tree (\<open>catalog/src/store.rs\<close>): a scan between the bounds of a band meets exactly the
  keys that start with its texts, so it finds the definitions of all tables, or the index roots of one.\<close>

section \<open>Bands and prefixes\<close>

lemma byte_below_one: "b < 1 \<longleftrightarrow> b = 0" for b :: u8
  by (simp add: word_less_nat_alt unat_eq_0)

lemma band_prefix: "p @ [0] \<le> k \<and> k < p @ [1] \<longleftrightarrow> (\<exists>q. k = p @ 0 # q)" for k :: bytes
proof (induction p arbitrary: k)
  case Nil
  show ?case by (cases k) (auto simp: byte_below_one)
next
  case (Cons b p)
  show ?case by (cases k) (use Cons in auto)
qed

abbreviation texts :: "bytes list \<Rightarrow> bytes" where
  "texts xs \<equiv> concat (map (\<lambda>x. enc_bytes (Text x)) xs)"

lemma text_keys_prefix: "texts ys = texts xs @ q \<longleftrightarrow> (\<exists>zs. ys = xs @ zs \<and> q = texts zs)"
proof (induction xs arbitrary: ys)
  case (Cons x xs)
  show ?case
  proof (cases ys)
    case (Cons y ys')
    have "texts ys = texts (x # xs) @ q \<longleftrightarrow> y = x \<and> texts ys' = texts xs @ q"
      using escape_append_inj [of y "texts ys'" x "texts xs @ q"] Cons by (auto simp: enc_bytes_def)
    then show ?thesis using Cons.IH [of ys'] Cons by auto
  qed (auto simp: enc_bytes_def)
qed auto

lemma escape_last: "\<exists>p. escape x = p @ [0, 0]"
  by (induction x) auto

lemma texts_last: "xs \<noteq> [] \<Longrightarrow> \<exists>p. texts xs = p @ [0]"
proof (induction xs rule: rev_induct)
  case (snoc x xs)
  show ?case using escape_last [of x] by (auto simp: enc_bytes_def)
qed simp

lemma band_texts:
  assumes "xs \<noteq> []"
  shows "within (Some (texts xs)) (Some (bump_last (texts xs))) (texts ys) \<longleftrightarrow> (\<exists>zs. ys = xs @ zs)"
proof -
  obtain p where p: "texts xs = p @ [0]" using texts_last [OF assms] by blast
  have "within (Some (texts xs)) (Some (bump_last (texts xs))) (texts ys) \<longleftrightarrow> (\<exists>q. texts ys = texts xs @ q)"
    using band_prefix [of p "texts ys"] by (simp add: within_def bump_last_def p)
  then show ?thesis using text_keys_prefix by blast
qed

lemma bands:
  "tbl_band = Inr (texts [TBL], bump_last (texts [TBL]))"
  "iroot_band t = Inr (texts [IROOT, t], bump_last (texts [IROOT, t]))"
  by (simp_all add: tbl_band_def iroot_band_def enc_bytes_def)

lemma bands_iroot [simp]: "IROOT \<noteq> TBL" "TBL \<noteq> IROOT" "IROOT \<noteq> ROOT" "ROOT \<noteq> IROOT" "IROOT \<noteq> SEQ" "SEQ \<noteq> IROOT"
  by (simp_all add: TBL_def ROOT_def SEQ_def IROOT_def str_bytes_def)

lemma tbl_band_keys:
  "k \<in> table_keys t \<Longrightarrow> within (Some (texts [TBL])) (Some (bump_last (texts [TBL]))) k \<longleftrightarrow> k = tblk t"
  unfolding table_keys_def by (auto simp: key_texts seqk_texts band_texts simp del: list.map concat.simps dest!: text_keys_inj)

lemma iroot_band_keys:
  "k \<in> table_keys t' \<Longrightarrow> within (Some (texts [IROOT, t])) (Some (bump_last (texts [IROOT, t]))) k \<longleftrightarrow> t' = t \<and> k \<in> range (irootk t)"
  unfolding table_keys_def by (auto simp: key_texts seqk_texts band_texts image_iff simp del: list.map concat.simps dest!: text_keys_inj)

section \<open>All tables\<close>

context tree_store
begin

text \<open>\<open>all_tables\<close> lists the definition of every table once.\<close>

lemma all_tables_at:
  assumes cat: "catalog n s cat" and db: "db_at (content n s) cat F"
  obtains ts where "all_tables cx s = Inr ts" "\<And>d. d \<in> set ts \<longleftrightarrow> (\<exists>m. F (td_name d) = Some (d, m))" "distinct (map td_name ts)"
proof -
  let ?lo = "texts [TBL]" and ?hi = "bump_last (texts [TBL])"
  obtain out where out: "cx_scan cx s (cx_root cx s) (Some ?lo) (Some ?hi) = Inr out" "sorted_wrt (<) (map fst out)"
    "set out = {(k, v). cat k = Some v \<and> within (Some ?lo) (Some ?hi) k}" using scan_in [OF cat, of "Some ?lo" "Some ?hi"] by blast
  define dec where "dec = (\<lambda>(k :: bytes, bs). projr (decode_table bs))"
  have ent: "decode_table v = Inr (dec (k, v)) \<and> (\<exists>m. F (td_name (dec (k, v))) = Some (dec (k, v), m)) \<and> k = tblk (td_name (dec (k, v)))"
    if "(k, v) \<in> set out" for k v
  proof -
    have kv: "cat k = Some v" "within (Some ?lo) (Some ?hi) k" using that out(3) by auto
    then obtain t d m where t: "F t = Some (d, m)" "own_entry t d k v" using db_keyD [OF db] by blast
    then have "k = tblk t" using tbl_band_keys [OF own_entry_key [OF t(2)]] kv(2) by blast
    then show ?thesis using db_tableD [OF db t(1)] kv(1) t(1) by (auto simp: table_at_def dec_def)
  qed
  have "collect_res (\<lambda>(_, bs). rejecting (decode_table bs)) out = Inr (map dec out)"
    unfolding collect_res_Inr using ent by (auto simp: list_all2_conv_all_nth rejecting_def split: prod.splits) (metis nth_mem)
  then have ts: "all_tables cx s = Inr (map dec out)"
    using out(1) by (simp add: all_tables_def bands rejecting_def del: list.map concat.simps)
  show ?thesis
  proof (rule that [OF ts])
    fix d
    show "d \<in> set (map dec out) \<longleftrightarrow> (\<exists>m. F (td_name d) = Some (d, m))"
    proof
      assume "\<exists>m. F (td_name d) = Some (d, m)"
      then obtain m where at: "table_at (content n s) cat (td_name d) d m" using db_tableD [OF db] by blast
      then obtain bs where bs: "cat (tblk (td_name d)) = Some bs" "decode_table bs = Inr d" by (auto simp: table_at_def)
      have "within (Some ?lo) (Some ?hi) (tblk (td_name d))" using tbl_band_keys [of "tblk (td_name d)" "td_name d"] by (simp add: table_keys_def)
      then have "(tblk (td_name d), bs) \<in> set out" using bs(1) out(3) by blast
      then show "d \<in> set (map dec out)" using bs(2) by (force simp: dec_def)
    qed (use ent in auto)
  next
    have "map (tblk \<circ> td_name \<circ> dec) out = map fst out" using ent by (auto intro!: map_cong)
    moreover have "distinct (map fst out)" using out(2) by (simp add: strict_sorted_iff)
    ultimately have "distinct (map (tblk \<circ> td_name \<circ> dec) out)" by metis
    then show "distinct (map td_name (map dec out))" by (auto simp: distinct_map inj_on_def)
  qed
qed

end

end
