(* ===== verification/CatDefs.thy ===== *)
theory CatDefs
  imports CatInsert CatBands
begin

text \<open>Creating and dropping tables: the job is refused before it writes, or the database gains or loses
  the table and every other table is left as it was.\<close>

section \<open>Tables without rows\<close>

lemma empty_rows [simp]: "rows_stored d Map.empty" "base_rows d Map.empty = {}"
  by (simp_all add: rows_stored_def base_rows_def)

lemma empty_index: "index_stored d idx Map.empty Map.empty"
  by (auto simp: index_stored_def indexes_def)

lemma checks_storable: "table_ok d \<Longrightarrow> table_typed d \<Longrightarrow> \<forall>e \<in> set (td_checks d). check_storable 0 e"
  using validated_storable by (auto simp: table_ok_def table_typed_def)

text \<open>The names of a table leave room for the keys of its roots.\<close>

definition names_fit :: "TableDef \<Rightarrow> bool" where
  "names_fit d \<longleftrightarrow> check_entry (rootk (td_name d)) (encode_root 0) = Inr ()
     \<and> (\<forall>idx \<in> set (td_indexes d). check_entry (irootk (td_name d) (ix_name idx)) (encode_root 0) = Inr ())"

lemma sized_root: "check_entry k (encode_root r) = check_entry k (encode_root r')"
  by (simp add: check_entry_def encode_root_def Let_def)

definition create_budget :: "TableDef \<Rightarrow> nat" where
  "create_budget d = 4 + 2 * length (td_indexes d)"

context tree_store
begin

lemma does_create_iroots:
  assumes "catalog (2 * length idxs + n) s cat" "\<forall>idx \<in> set idxs. check_entry (irootk t (ix_name idx)) (encode_root 0) = Inr ()"
  shows "does content False (2 * length idxs + n) n (st_each (\<lambda>idx. st_bind (cx_create_tree cx) (\<lambda>r. store_iroot cx t (ix_name idx) r)) idxs) s
    (\<lambda>_ s'. \<exists>cat'. catalog n s' cat' \<and> (\<forall>k. k \<notin> (\<lambda>idx. irootk t (ix_name idx)) ` set idxs \<longrightarrow> cat' k = cat k)
      \<and> (\<forall>idx \<in> set idxs. linked (content n s') cat' (irootk t (ix_name idx)) Map.empty))"
  using assms
proof (induction idxs arbitrary: s cat)
  case (Cons idx idxs)
  let ?k = "irootk t (ix_name idx)"
  have c: "catalog (Suc (Suc (2 * length idxs + n))) s cat" using Cons.prems(1) by simp
  have "does content False (Suc (Suc (2 * length idxs + n))) (2 * length idxs + n) (st_bind (cx_create_tree cx) (\<lambda>r. store_iroot cx t (ix_name idx) r)) s
    (\<lambda>_ s1. \<exists>r. catalog (2 * length idxs + n) s1 (cat(?k \<mapsto> encode_root r)) \<and> content (2 * length idxs + n) s1 r = Some Map.empty)"
  proof (rule does_bind [OF does_create [OF c]])
    fix r s1 assume r: "content (Suc (2 * length idxs + n)) s1 r = Some Map.empty \<and> catalog (Suc (2 * length idxs + n)) s1 cat"
    have "check_entry ?k (encode_root r) = Inr ()" using Cons.prems(2) sized_root [of ?k r 0] by simp
    then show "does content False (Suc (2 * length idxs + n)) (2 * length idxs + n) (store_iroot cx t (ix_name idx) r) s1
      (\<lambda>_ s1. \<exists>r. catalog (2 * length idxs + n) s1 (cat(?k \<mapsto> encode_root r)) \<and> content (2 * length idxs + n) s1 r = Some Map.empty)"
      unfolding store_iroot_def using r
      by (intro does_post [OF does_store_root [OF _ key_bytes(3)]]) (auto dest: keptD)
  qed
  then have "does content False (Suc (Suc (2 * length idxs + n))) n (st_bind (st_bind (cx_create_tree cx) (\<lambda>r. store_iroot cx t (ix_name idx) r))
      (\<lambda>_. st_each (\<lambda>idx. st_bind (cx_create_tree cx) (\<lambda>r. store_iroot cx t (ix_name idx) r)) idxs)) s
    (\<lambda>_ s'. \<exists>cat'. catalog n s' cat' \<and> (\<forall>k. k \<notin> (\<lambda>idx. irootk t (ix_name idx)) ` set (idx # idxs) \<longrightarrow> cat' k = cat k)
      \<and> (\<forall>idx \<in> set (idx # idxs). linked (content n s') cat' (irootk t (ix_name idx)) Map.empty))"
  proof (rule does_bind, elim exE conjE)
    fix x s1 r
    assume r: "catalog (2 * length idxs + n) s1 (cat(?k \<mapsto> encode_root r))" "content (2 * length idxs + n) s1 r = Some Map.empty"
    define cat1 where "cat1 = cat(?k \<mapsto> encode_root r)"
    show "does content False (2 * length idxs + n) n (st_each (\<lambda>idx. st_bind (cx_create_tree cx) (\<lambda>r. store_iroot cx t (ix_name idx) r)) idxs) s1
      (\<lambda>_ s'. \<exists>cat'. catalog n s' cat' \<and> (\<forall>k. k \<notin> (\<lambda>idx. irootk t (ix_name idx)) ` set (idx # idxs) \<longrightarrow> cat' k = cat k)
        \<and> (\<forall>idx \<in> set (idx # idxs). linked (content n s') cat' (irootk t (ix_name idx)) Map.empty))"
    proof (rule does_post [OF Cons.IH [OF r(1) [folded cat1_def]]], use Cons.prems(2) in simp, elim exE conjE)
      fix y s2 cat2
      assume q: "catalog n s2 cat2" "\<forall>k. k \<notin> (\<lambda>idx. irootk t (ix_name idx)) ` set idxs \<longrightarrow> cat2 k = cat1 k"
        "\<forall>idx \<in> set idxs. linked (content n s2) cat2 (irootk t (ix_name idx)) Map.empty" and k: "kept_trees content (2 * length idxs + n) s1 n s2"
      have "linked (content n s2) cat2 ?k Map.empty"
      proof (cases "?k \<in> (\<lambda>idx. irootk t (ix_name idx)) ` set idxs")
        case False
        then have "cat2 ?k = Some (encode_root r)" using q(2) by (simp add: cat1_def)
        then show ?thesis using keptD [OF k r(2)] by (auto simp: linked_def)
      qed (use q(3) in auto)
      moreover have "\<forall>k. k \<notin> (\<lambda>idx. irootk t (ix_name idx)) ` set (idx # idxs) \<longrightarrow> cat2 k = cat k" using q(2) by (simp add: cat1_def)
      ultimately show "\<exists>cat'. catalog n s2 cat' \<and> (\<forall>k. k \<notin> (\<lambda>idx. irootk t (ix_name idx)) ` set (idx # idxs) \<longrightarrow> cat' k = cat k)
        \<and> (\<forall>idx \<in> set (idx # idxs). linked (content n s2) cat' (irootk t (ix_name idx)) Map.empty)" using q(1,3) by auto
    qed
  qed
  then show ?case by simp
qed (auto simp: does_def kept_trees_def)

text \<open>The applying half of \<open>create_table\<close>.\<close>

lemma does_create_table:
  assumes cat: "catalog (create_budget d + n) s cat" and db: "db_at (content (create_budget d + n) s) cat F" "F (td_name d) = None"
    and ok: "table_ok d" "table_typed d" "names_fit d" and bs: "encode_table d = Inr bs" "check_entry (tblk (td_name d)) bs = Inr ()"
  shows "does content False (create_budget d + n) n
    (st_bind (cx_create_tree cx) (\<lambda>data.
      st_bind (store_entry cx (tblk (td_name d)) bs) (\<lambda>_.
      st_bind (store_root cx (root_key (td_name d)) data) (\<lambda>_.
      st_bind (if list_ex cd_auto_increment (td_columns d)
               then st_bind (st_lift (rejecting (seq_key (td_name d)))) (\<lambda>key. store_entry cx key (encode_seq 1))
               else st_return ()) (\<lambda>_.
      st_bind (st_each (\<lambda>idx. st_bind (cx_create_tree cx) (\<lambda>iroot. store_iroot cx (td_name d) (ix_name idx) iroot)) (td_indexes d)) (\<lambda>_.
      st_return OutUnit)))))) s
    (\<lambda>out s'. out = OutUnit \<and> (\<exists>cat'. catalog n s' cat' \<and> db_at (content n s') cat' (F(td_name d \<mapsto> (d, Map.empty)))))"
proof -
  let ?t = "td_name d" and ?m = "2 * length (td_indexes d) + n"
  let ?each = "st_each (\<lambda>idx. st_bind (cx_create_tree cx) (\<lambda>iroot. store_iroot cx (td_name d) (ix_name idx) iroot)) (td_indexes d)"
  have sum: "create_budget d + n = Suc (Suc (Suc (Suc ?m)))" by (simp add: create_budget_def)
  let ?N = "Suc (Suc (Suc (Suc ?m)))"
  note db' = db(1) [unfolded sum] and cat' = cat [unfolded sum]
  obtain data s1 where s1: "cx_create_tree cx s = (Inr data, s1)" "kept_trees content ?N s (Suc (Suc (Suc ?m))) s1"
    "content (Suc (Suc (Suc ?m))) s1 data = Some Map.empty" "catalog (Suc (Suc (Suc ?m))) s1 cat"
    using does_never [OF does_create [OF cat']] by blast
  obtain s2 where s2: "store_entry cx (tblk ?t) bs s1 = (Inr (), s2)" "kept_trees content (Suc (Suc (Suc ?m))) s1 (Suc (Suc ?m)) s2"
    "catalog (Suc (Suc ?m)) s2 (cat(tblk ?t \<mapsto> bs))"
    using does_never [OF does_store_entry [OF s1(4) bs(2)]] by auto
  have "check_entry (rootk ?t) (encode_root data) = Inr ()" using ok(3) sized_root [of "rootk ?t" data 0] by (simp add: names_fit_def)
  note rs = this
  obtain s3 where s3: "store_root cx (root_key ?t) data s2 = (Inr (), s3)" "kept_trees content (Suc (Suc ?m)) s2 (Suc ?m) s3"
    "catalog (Suc ?m) s3 (cat(tblk ?t \<mapsto> bs, rootk ?t \<mapsto> encode_root data))"
    using does_never [OF does_store_root [OF s2(3) key_bytes(2) rs]] by auto
  let ?seq = "if list_ex cd_auto_increment (td_columns d)
               then st_bind (st_lift (rejecting (seq_key ?t))) (\<lambda>key. store_entry cx key (encode_seq 1)) else st_return ()"
  obtain s4 cat4 where s4: "?seq s3 = (Inr (), s4)" "kept_trees content (Suc ?m) s3 ?m s4" "catalog ?m s4 cat4"
    "\<And>k. k \<noteq> seqk ?t \<Longrightarrow> cat4 k = (cat(tblk ?t \<mapsto> bs, rootk ?t \<mapsto> encode_root data)) k"
    "\<And>v. cat4 (seqk ?t) = Some v \<Longrightarrow> v = encode_seq 1"
  proof (cases "list_ex cd_auto_increment (td_columns d)")
    case True
    from does_never [OF does_store_entry [OF s3(3) seq_sized [OF rs, of 1]]]
    show ?thesis using True by (auto simp: rejecting_def intro!: that)
  next
    case False
    have "cat (seqk ?t) = None" by (rule db_noneD [OF db(1,2)]) (simp add: table_keys_def)
    moreover have "kept_trees content (Suc ?m) s3 ?m s3" unfolding kept_trees_def using weaken by blast
    ultimately show ?thesis using False weaken [OF s3(3)] by (intro that [of s3]) auto
  qed
  have fits: "\<forall>idx \<in> set (td_indexes d). check_entry (irootk ?t (ix_name idx)) (encode_root 0) = Inr ()" using ok(3) by (simp add: names_fit_def)
  obtain s5 cat5 where s5: "?each s4 = (Inr (), s5)" "kept_trees content ?m s4 n s5" "catalog n s5 cat5"
    "\<And>k. k \<notin> (\<lambda>idx. irootk ?t (ix_name idx)) ` set (td_indexes d) \<Longrightarrow> cat5 k = cat4 k"
    "\<And>idx. idx \<in> set (td_indexes d) \<Longrightarrow> linked (content n s5) cat5 (irootk ?t (ix_name idx)) Map.empty"
    using does_never [OF does_create_iroots [OF s4(3) fits]] by auto
  note k15 = kept_trans [OF kept_trans [OF kept_trans [OF s2(2) s3(2)] s4(2)] s5(2)]
  have at: "table_at (content n s5) cat5 ?t d Map.empty"
  proof -
    have c: "cat5 (tblk ?t) = Some bs" "cat5 (rootk ?t) = Some (encode_root data)" using s5(4) s4(4) by (auto simp: image_iff)
    have "decode_table bs = Inr d" using decode_encode_storable [OF ok(2) checks_storable [OF ok(1,2)] bs(1)] .
    moreover have "linked (content n s5) cat5 (rootk ?t) Map.empty" using c(2) keptD [OF k15 s1(3)] by (auto simp: linked_def)
    ultimately show ?thesis using c(1) ok(1,2) s5(5) empty_index empty_rows(1) unfolding table_at_def table_stored_def by metis
  qed
  have own: "own_entry ?t d k v" if k: "k \<in> table_keys ?t" "cat5 k = Some v" for k v
  proof -
    have none: "cat k = None" by (rule db_noneD [OF db(1,2) k(1)])
    show ?thesis
    proof (rule ccontr)
      assume no: "\<not> own_entry ?t d k v"
      then have "cat5 k = cat4 k" using s5(4) [of k] by (auto simp: own_entry_def)
      then show False using no k(2) s4(4) [of k] s4(5) [of v] none by (cases "k = seqk ?t") (auto simp: own_entry_def split: if_splits)
    qed
  qed
  have "db_at (content n s5) cat5 (F(?t \<mapsto> (d, Map.empty)))"
  proof (rule db_changed [where C = content, OF db' kept_trans [OF s1(2) k15] _ at own])
    fix k assume k: "k \<notin> table_keys ?t"
    then have "cat5 k = cat4 k" by (intro s5(4)) (auto simp: table_keys_def)
    then show "cat5 k = cat k" using k s4(4) [of k] by (auto simp: table_keys_def)
  qed
  then show ?thesis using s1(1) s2(1) s3(1) s4(1) s5(1,3) kept_trans [OF s1(2) k15] unfolding does_def sum by (simp del: st_each.simps)
qed

text \<open>Creating a table is refused without a change, or adds the table with no rows.\<close>

lemma create_table_run:
  assumes "catalog (create_budget (materialize_implicit_indexes d0) + n) s cat"
    and "db_at (content (create_budget (materialize_implicit_indexes d0) + n) s) cat F"
    and "table_typed (materialize_implicit_indexes d0)" "names_fit (materialize_implicit_indexes d0)"
    and "create_table cx d0 s = (res, s')"
  shows "case res of
      Inl e \<Rightarrow> check_new_table cx s (materialize_implicit_indexes d0) = Inl e \<and> s' = s
    | Inr out \<Rightarrow> out = OutUnit \<and> table_ok (materialize_implicit_indexes d0) \<and> F (td_name d0) = None \<and> (\<exists>cat'. catalog n s' cat'
        \<and> db_at (content n s') cat' (F(td_name d0 \<mapsto> (materialize_implicit_indexes d0, Map.empty))))"
proof -
  let ?d = "materialize_implicit_indexes d0"
  show ?thesis
  proof (cases "check_new_table cx s ?d")
    case (Inl e)
    then show ?thesis using assms(5) by (auto simp: create_table_def st_read_def Let_def)
  next
    case (Inr kb)
    then obtain bs where kb: "kb = (tblk (td_name ?d), bs)" "table_ok ?d" "encode_table ?d = Inr bs" "check_entry (tblk (td_name ?d)) bs = Inr ()"
      "cat (tblk (td_name ?d)) = None" using lookup_in [OF assms(1)]
      by (auto simp: check_new_table_def and_then_Inr rejecting_def map_err_Inr sized_def validate_table_iff reject_def split: if_splits)
    have none: "F (td_name ?d) = None"
    proof (rule ccontr)
      assume "F (td_name ?d) \<noteq> None"
      then obtain d m where "F (td_name ?d) = Some (d, m)" by (metis option.exhaust prod.exhaust)
      from db_tableD [OF assms(2) this] show False using kb(5) by (simp add: table_at_def)
    qed
    from does_never [OF does_create_table [OF assms(1,2) none kb(2) assms(3,4) kb(3,4)]] show ?thesis
      using assms(5) Inr kb(1,2) none by (auto simp: create_table_def st_read_def Let_def)
  qed
qed

section \<open>Dropping a table\<close>

lemma does_remove_keys:
  "catalog (length ks + n) s cat \<Longrightarrow>
     does content True (length ks + n) n (st_each (remove_key cx) ks) s (\<lambda>_ s'. catalog n s' (cat |` (- set ks)))"
proof (induction ks arbitrary: s cat)
  case (Cons k ks)
  have "does content True (Suc (length ks + n)) n (st_bind (remove_key cx k) (\<lambda>_. st_each (remove_key cx) ks)) s
    (\<lambda>_ s'. catalog n s' (cat |` (- set (k # ks))))"
  proof (rule does_bind [OF does_remove_key])
    fix x s1 assume c: "catalog (length ks + n) s1 (cat(k := None))"
    have eq: "(cat(k := None)) |` (- set ks) = cat |` (- set (k # ks))" by (auto simp: restrict_map_def)
    show "does content True (length ks + n) n (st_each (remove_key cx) ks) s1 (\<lambda>_ s'. catalog n s' (cat |` (- set (k # ks))))"
      by (rule Cons.IH [OF c, unfolded eq])
  qed (use Cons.prems in simp)
  then show ?case by simp
qed (auto simp: does_def kept_trees_def restrict_map_def)

lemma does_drop_iroots:
  assumes "catalog (length es + n) s cat" "\<forall>(k, bs) \<in> set es. \<exists>r m. bs = encode_root r \<and> content (length es + n) s r = Some m"
  shows "does content True (length es + n) n (st_each (\<lambda>(key, bs). st_bind (st_lift (rejecting (decode_root bs))) (\<lambda>iroot.
      st_bind (cx_free_tree cx iroot) (\<lambda>_. remove_key cx key))) es) s (\<lambda>_ s'. catalog n s' (cat |` (- fst ` set es)))"
  using assms
proof (induction es arbitrary: s cat)
  case (Cons e es)
  let ?each = "st_each (\<lambda>(key, bs). st_bind (st_lift (rejecting (decode_root bs))) (\<lambda>iroot.
      st_bind (cx_free_tree cx iroot) (\<lambda>_. remove_key cx key)))"
  obtain k r m where e: "e = (k, encode_root r)" "content (Suc (length es + n)) s r = Some m" using Cons.prems(2) by auto
  have c0: "catalog (Suc (length es + n)) s cat" using Cons.prems(1) by simp
  have "does content True (Suc (length es + n)) (length es + n) (st_bind (cx_free_tree cx r) (\<lambda>_. remove_key cx k)) s
      (\<lambda>_ s'. catalog (length es + n) s' (cat(k := None)))"
    by (rule does_bind [OF does_free [OF e(2) c0]]) (rule does_remove_key)
  then have "does content True (Suc (length es + n)) n (st_bind (st_bind (cx_free_tree cx r) (\<lambda>_. remove_key cx k)) (\<lambda>_. ?each es)) s
    (\<lambda>_ s'. catalog n s' (cat |` (- fst ` set (e # es))))"
  proof (rule does_bind)
    fix x s1 assume c: "catalog (length es + n) s1 (cat(k := None))" and kept: "kept_trees content (Suc (length es + n)) s (length es + n) s1"
    have r: "\<forall>(k, bs) \<in> set es. \<exists>r m. bs = encode_root r \<and> content (length es + n) s1 r = Some m"
      using Cons.prems(2) keptD [OF kept] by fastforce
    have eq: "(cat(k := None)) |` (- fst ` set es) = cat |` (- fst ` set (e # es))" by (auto simp: restrict_map_def e(1))
    show "does content True (length es + n) n (?each es) s1 (\<lambda>_ s'. catalog n s' (cat |` (- fst ` set (e # es))))"
      by (rule Cons.IH [OF c r, unfolded eq])
  qed
  moreover have "(case e of (key, bs) \<Rightarrow> st_bind (st_lift (rejecting (decode_root bs))) (\<lambda>iroot. st_bind (cx_free_tree cx iroot) (\<lambda>_. remove_key cx key))) =
      st_bind (cx_free_tree cx r) (\<lambda>_. remove_key cx k)" by (rule ext) (simp add: e(1) rejecting_def)
  ultimately show ?case unfolding st_each.simps length_Cons add_Suc by simp
qed (auto simp: does_def kept_trees_def restrict_map_def)

text \<open>The scan of the index roots of a table.\<close>

lemma iroots_scanned:
  assumes cat: "catalog n s cat" and db: "db_at (content n s) cat F" "F t = Some (d, m)"
  obtains es where "cx_scan cx s (cx_root cx s) (Some (texts [IROOT, t])) (Some (bump_last (texts [IROOT, t]))) = Inr es"
    "fst ` set es = (\<lambda>idx. irootk t (ix_name idx)) ` set (td_indexes d)" "length es \<le> length (td_indexes d)"
    "\<forall>(k, bs) \<in> set es. \<exists>r im. bs = encode_root r \<and> content n s r = Some im"
proof -
  let ?lo = "texts [IROOT, t]" and ?hi = "bump_last (texts [IROOT, t])"
  obtain es where es: "cx_scan cx s (cx_root cx s) (Some ?lo) (Some ?hi) = Inr es" "sorted_wrt (<) (map fst es)"
    "set es = {(k, v). cat k = Some v \<and> within (Some ?lo) (Some ?hi) k}" using scan_in [OF cat, of "Some ?lo" "Some ?hi"] by blast
  have st: "\<exists>r im. cat (irootk t (ix_name idx)) = Some (encode_root r) \<and> content n s r = Some im" if "idx \<in> set (td_indexes d)" for idx
    using db_tableD [OF db] that by (auto simp: table_at_def table_stored_def linked_def)
  have key: "\<exists>idx \<in> set (td_indexes d). k = irootk t (ix_name idx)" if "(k, v) \<in> set es" for k v
  proof -
    have kv: "cat k = Some v" "within (Some ?lo) (Some ?hi) k" using that es(3) by auto
    then obtain t' d' m' where t: "F t' = Some (d', m')" "own_entry t' d' k v" using db_keyD [OF db(1)] by blast
    then have "t' = t" "k \<in> range (irootk t)" using iroot_band_keys [OF own_entry_key [OF t(2)]] kv(2) by blast+
    then show ?thesis using t db(2) by (auto simp: own_entry_def)
  qed
  have in_band: "within (Some ?lo) (Some ?hi) (irootk t i)" for i
    using iroot_band_keys [of "irootk t i" t] by (simp add: table_keys_def)
  have dom: "fst ` set es = (\<lambda>idx. irootk t (ix_name idx)) ` set (td_indexes d)"
  proof (intro set_eqI iffI)
    fix k assume "k \<in> (\<lambda>idx. irootk t (ix_name idx)) ` set (td_indexes d)"
    then obtain idx where idx: "idx \<in> set (td_indexes d)" "k = irootk t (ix_name idx)" by blast
    then obtain r where "cat k = Some (encode_root r)" using st by blast
    then show "k \<in> fst ` set es" using in_band idx(2) es(3) by force
  qed (use key in fastforce)
  have "distinct (map fst es)" using es(2) by (simp add: strict_sorted_iff)
  then have "length es = card (fst ` set es)" using distinct_card [of "map fst es"] by simp
  also have "\<dots> \<le> length (td_indexes d)" unfolding dom using card_image_le [OF finite_set, of "\<lambda>idx. irootk t (ix_name idx)" "td_indexes d"]
    card_length [of "td_indexes d"] by linarith
  finally have len: "length es \<le> length (td_indexes d)" .
  have "\<forall>(k, bs) \<in> set es. \<exists>r im. bs = encode_root r \<and> content n s r = Some im"
    using key st es(3) by fastforce
  with es(1) dom len show ?thesis using that by blast
qed

lemma does_drop_table:
  assumes cat: "catalog (length (td_indexes d) + 3 + n) s cat" and db: "db_at (content (length (td_indexes d) + 3 + n) s) cat F" "F t = Some (d, m)"
  shows "does content True (length (td_indexes d) + 3 + n) n
    (st_bind (st_read (\<lambda>s. load_root cx s t)) (\<lambda>data.
     st_bind (cx_free_tree cx data) (\<lambda>_.
     st_bind (st_lift (rejecting (iroot_band t))) (\<lambda>(lo, hi).
     st_bind (st_read (\<lambda>s. cx_scan cx s (cx_root cx s) (Some lo) (Some hi))) (\<lambda>entries.
     st_bind (st_each (\<lambda>(key, bs). st_bind (st_lift (rejecting (decode_root bs))) (\<lambda>iroot.
                st_bind (cx_free_tree cx iroot) (\<lambda>_. remove_key cx key))) entries) (\<lambda>_.
     st_bind (st_lift (collect_res rejecting [tbl_key t, root_key t, seq_key t])) (\<lambda>keys.
     st_bind (st_each (remove_key cx) keys) (\<lambda>_. st_return OutUnit)))))))) s
    (\<lambda>out s'. out = OutUnit \<and> (\<exists>cat'. catalog n s' cat' \<and> db_at (content n s') cat' (F(t := None))))"
proof -
  let ?N = "length (td_indexes d) + 3 + n"
  have st: "table_stored (content ?N s) cat t d m" using db_tableD [OF db] by (simp add: table_at_def)
  obtain data where data: "load_root cx s t = Inr data" "content ?N s data = Some m" by (rule load_root_at [OF cat st])
  obtain s1 where s1: "cx_free_tree cx data s = (Inr (), s1)" "kept_trees content ?N s ?N s1" "catalog ?N s1 cat"
    using does_never [OF does_free [OF data(2) cat]] by auto
  obtain es where es: "cx_scan cx s1 (cx_root cx s1) (Some (texts [IROOT, t])) (Some (bump_last (texts [IROOT, t]))) = Inr es"
    "fst ` set es = (\<lambda>idx. irootk t (ix_name idx)) ` set (td_indexes d)" "length es \<le> length (td_indexes d)"
    "\<forall>(k, bs) \<in> set es. \<exists>r im. bs = encode_root r \<and> content ?N s1 r = Some im"
    by (rule iroots_scanned [OF s1(3) db_at_kept [where C = content, OF db(1) s1(2)] db(2)])
  have le: "length es + (3 + n) \<le> ?N" using es(3) by simp
  have r: "\<forall>(k, bs) \<in> set es. \<exists>r im. bs = encode_root r \<and> content (length es + (3 + n)) s1 r = Some im"
    using es(4) weaken_le [OF _ le] by blast
  note each = does_more [OF does_drop_iroots [OF weaken_le [OF s1(3) le] r] le]
  let ?cat1 = "cat |` (- fst ` set es)" and ?ks = "[tblk t, rootk t, seqk t]"
  let ?cat2 = "?cat1 |` (- set ?ks)"
  have same: "?cat2 k = cat k" if "k \<notin> table_keys t" for k
    using that es(2) by (auto simp: restrict_map_def table_keys_def)
  have gone: "?cat2 k = None" if "k \<in> table_keys t" for k
  proof (rule ccontr)
    assume "?cat2 k \<noteq> None"
    then obtain v where v: "cat k = Some v" "k \<notin> fst ` set es" "k \<notin> set ?ks" by (auto simp: restrict_map_def split: if_splits)
    from db_ownD [OF db(1) v(1) that] show False using db(2) v(2,3) es(2) by (auto simp: own_entry_def)
  qed
  have ks: "collect_res rejecting [tbl_key t, root_key t, seq_key t] = Inr ?ks" by (simp add: rejecting_def)
  have "does content True ?N n (st_bind (st_each (\<lambda>(key, bs). st_bind (st_lift (rejecting (decode_root bs))) (\<lambda>iroot.
        st_bind (cx_free_tree cx iroot) (\<lambda>_. remove_key cx key))) es) (\<lambda>_. st_bind (st_each (remove_key cx) ?ks) (\<lambda>_. st_return OutUnit))) s1
    (\<lambda>out s'. out = OutUnit \<and> catalog n s' ?cat2)"
  proof (rule does_bind [OF each])
    fix x s2 assume c: "catalog (3 + n) s2 ?cat1"
    have "does content True (length ?ks + n) n (st_each (remove_key cx) ?ks) s2 (\<lambda>_ s'. catalog n s' ?cat2)"
      by (rule does_remove_keys) (use c in \<open>simp add: eval_nat_numeral\<close>)
    moreover have "length ?ks + n = 3 + n" by simp
    ultimately have "does content True (3 + n) n (st_each (remove_key cx) ?ks) s2 (\<lambda>_ s'. catalog n s' ?cat2)" by metis
    then show "does content True (3 + n) n (st_bind (st_each (remove_key cx) ?ks) (\<lambda>_. st_return OutUnit)) s2 (\<lambda>out s'. out = OutUnit \<and> catalog n s' ?cat2)"
      by (intro does_bind [where P = "\<lambda>_ s'. catalog n s' ?cat2" and ?n1.0 = n]) (auto simp: does_def kept_trees_def split: prod.splits sum.splits)
  qed
  then have "does content True ?N n (st_bind (st_each (\<lambda>(key, bs). st_bind (st_lift (rejecting (decode_root bs))) (\<lambda>iroot.
        st_bind (cx_free_tree cx iroot) (\<lambda>_. remove_key cx key))) es) (\<lambda>_. st_bind (st_each (remove_key cx) ?ks) (\<lambda>_. st_return OutUnit))) s1
    (\<lambda>out s'. out = OutUnit \<and> (\<exists>cat'. catalog n s' cat' \<and> db_at (content n s') cat' (F(t := None))))"
    by (rule does_post) (use db_dropped [where C = content, OF db(1) kept_trans [OF s1(2)] same gone] in blast)
  then show ?thesis
    using s1(1,2) es(1) data(1) ks kept_trans [OF s1(2)]
    by (auto simp: does_def st_read_def bands rejecting_def split: prod.splits sum.splits simp del: st_each.simps list.map concat.simps)
qed

text \<open>Dropping a table is refused, or removes a table that no other table references.\<close>

lemma drop_table_run:
  assumes cat: "catalog (length (td_indexes d) + 3 + n) s cat" and db: "db_at (content (length (td_indexes d) + 3 + n) s) cat F" "F t = Some (d, m)"
    and run: "drop_table cx t s = (res, s')"
  shows "case res of
      Inl e \<Rightarrow> \<not> is_fatal e
    | Inr out \<Rightarrow> out = OutUnit \<and> (\<forall>t' d' m'. t' \<noteq> t \<longrightarrow> F t' = Some (d', m') \<longrightarrow> (\<forall>fk \<in> set (td_foreign_keys d'). fk_parent fk \<noteq> t))
        \<and> (\<exists>cat'. catalog n s' cat' \<and> db_at (content n s') cat' (F(t := None)))"
proof -
  obtain ts where ts: "all_tables cx s = Inr ts" "\<And>d. d \<in> set ts \<longleftrightarrow> (\<exists>m. F (td_name d) = Some (d, m))"
    by (rule all_tables_at [OF cat db(1)]) blast
  have lt: "load_table cx s t = Inr d" by (rule load_table_at [OF cat db_tableD [OF db]])
  show ?thesis
  proof (cases "each (unreferenced t) ts")
    case (Inl e)
    then have "\<not> is_fatal e" by (induction ts) (auto simp: unreferenced_def reject_def rej_def and_then_def split: sum.splits if_splits option.splits)
    moreover have "res = Inl e" using run Inl lt ts(1) by (simp add: drop_table_def st_read_def)
    ultimately show ?thesis by simp
  next
    case (Inr u)
    have ref: "\<forall>fk \<in> set (td_foreign_keys d'). fk_parent fk \<noteq> t" if "t' \<noteq> t" "F t' = Some (d', m')" for t' d' m'
    proof -
      have nm: "td_name d' = t'" using db_tableD [OF db(1) that(2)] by (simp add: table_at_def)
      then have "d' \<in> set ts" using ts(2) that(2) by blast
      then have "unreferenced t d' = Inr ()" using Inr by (simp add: each_Inr)
      then show ?thesis using that(1) nm by (auto simp: unreferenced_def reject_def find_None_iff split: option.splits if_splits)
    qed
    show ?thesis using does_drop_table [OF cat db] run lt ts(1) Inr ref
      by (auto simp: drop_table_def st_read_def does_def split: sum.splits prod.splits)
  qed
qed

end

end
