(* ===== verification/CatJobSpec.thy ===== *)
theory CatJobSpec
  imports CatDefs
begin

text \<open>What the catalog's jobs do to a database kept on pages: the laws of \<open>tree_store\<close>, interpreted on the write context of
  the transaction layer, give the effect of each job on the abstract database.\<close>

section \<open>Databases in a write context\<close>

text \<open>The context holds the database \<open>F\<close>, with the budgets for \<open>k\<close> more changes of a tree.\<close>

definition holds_db :: "nat \<Rightarrow> nat \<Rightarrow> nat \<Rightarrow> bytes WriteCtx \<Rightarrow> db \<Rightarrow> bool" where
  "holds_db n steps k c F \<longleftrightarrow> (\<exists>cat. ctx_trees n steps k c (ctx_root c) = Some cat \<and> db_at (ctx_trees n steps k c) cat F)"

lemma write_ctx_root [simp]: "cx_root (write_ctx ops n steps) = ctx_root"
  by (simp add: write_ctx_def)

lemma holds_dbE:
  assumes "holds_db n steps k c F"
  obtains cat where "ctx_trees n steps k c (cx_root (write_ctx mem_ops n steps) c) = Some cat" "db_at (ctx_trees n steps k c) cat F"
  using assms that by (auto simp: holds_db_def)

text \<open>A fresh store: the catalog tree is empty and so is the database.\<close>

definition demo_ctx :: "bytes WriteCtx" where
  "demo_ctx = \<lparr> ctx_pager = demo_empty, ctx_root = demo_root, ctx_freed = [] \<rparr>"

lemma demo_room: "990 \<le> room demo_empty"
  using mem_pages.create_holds [OF demo_pager_ok(1)] demo_pager_ok(2) demo_empty_ok(1) by fastforce

lemma demo_ctx_holds: "holds_db 18 100 16 demo_ctx Map.empty"
proof -
  have "ctx_trees 18 100 16 demo_ctx demo_root = Some Map.empty"
    unfolding ctx_trees_Some using demo_empty_ok(2,3) demo_room by (auto simp: demo_ctx_def)
  then show ?thesis by (auto simp: holds_db_def demo_ctx_def db_at_def)
qed

section \<open>Creating a table\<close>

text \<open>C13: Creating a table. On a context that holds a database, for a definition whose strings and literals are what the
  Rust types allow and whose names leave room for the keys of its roots, \<open>create_table\<close> either returns the
  error of its validation and leaves the context untouched, or the definition is valid, its name was free, and
  the context holds the same database with the new table, without rows and with an empty tree for every index,
  the ones materialised for unique columns included.\<close>

theorem create_table_adds:
  assumes "holds_db n steps (create_budget (materialize_implicit_indexes d) + k) c F"
    and "table_typed (materialize_implicit_indexes d)" "names_fit (materialize_implicit_indexes d)"
  shows "case create_table (write_ctx mem_ops n steps) d c of
      (Inl e, c') \<Rightarrow> check_new_table (write_ctx mem_ops n steps) c (materialize_implicit_indexes d) = Inl e \<and> c' = c
    | (Inr out, c') \<Rightarrow> out = OutUnit \<and> table_ok (materialize_implicit_indexes d) \<and> F (td_name d) = None
        \<and> holds_db n steps k c' (F(td_name d \<mapsto> (materialize_implicit_indexes d, Map.empty)))"
proof (rule holds_dbE [OF assms(1)])
  fix cat assume cat: "ctx_trees n steps (create_budget (materialize_implicit_indexes d) + k) c (cx_root (write_ctx mem_ops n steps) c) = Some cat"
    "db_at (ctx_trees n steps (create_budget (materialize_implicit_indexes d) + k) c) cat F"
  from pager_trees.create_table_run [OF cat assms(2,3)] show ?thesis
    by (fastforce simp: holds_db_def split: prod.splits sum.splits)
qed

lemma shop_typed: "materialize_implicit_indexes shop_def = shop_def" "names_fit shop_def" "create_budget shop_def = 6"
  by code_simp+

lemma shop_name [simp]: "td_name shop_def = str_bytes ''p''"
  by (simp add: shop_def_def table_new_def)

lemma shop_table_typed: "table_typed shop_def"
proof -
  have "utf8_valid (str_bytes ''p'')" "utf8_valid (str_bytes ''id'')" "utf8_valid (str_bytes ''grp'')" "utf8_valid (str_bytes ''by_grp'')" by code_simp+
  then show ?thesis by (simp add: table_typed_def shop_def_def table_new_def column_new_def default_typed_def)
qed

lemma shop_accepted:
  assumes "holds_db n steps k c Map.empty"
  shows "check_new_table (write_ctx mem_ops n steps) c shop_def = Inr (tblk (str_bytes ''p''), shop_bytes)"
proof (rule holds_dbE [OF assms])
  fix cat assume cat: "ctx_trees n steps k c (cx_root (write_ctx mem_ops n steps) c) = Some cat" "db_at (ctx_trees n steps k c) cat Map.empty"
  have "cat (tblk (str_bytes ''p'')) = None" by (rule db_noneD [OF cat(2), where t = "str_bytes ''p''"]) (simp_all add: table_keys_def)
  moreover have "validate_table shop_def = Inr ()" "check_entry (tblk (str_bytes ''p'')) shop_bytes = Inr ()" by code_simp+
  moreover have "td_foreign_keys shop_def = []" by (simp add: shop_def_def table_new_def)
  moreover have "encode_table shop_def = Inr shop_bytes"
    by (simp add: shop_def_def shop_bytes_def table_new_def column_new_def encode_table_def push_str_def push_seq_def push_count_def
      push_column_def push_index_def column_flags_def MAX_COLUMNS_def bytes_eval str_bytes_def)
  ultimately show ?thesis using pager_trees.lookup_in [OF cat(1)]
    by (simp add: check_new_table_def rejecting_def validate_fks_def sized_def)
qed

text \<open>The table is created on the fresh store.\<close>

theorem create_table_adds_witness:
  "case create_table (write_ctx mem_ops 18 100) shop_def demo_ctx of
      (Inl e, c) \<Rightarrow> False
    | (Inr out, c) \<Rightarrow> out = OutUnit \<and> holds_db 18 100 10 c [str_bytes ''p'' \<mapsto> (shop_def, Map.empty)]"
proof -
  have "holds_db 18 100 (create_budget (materialize_implicit_indexes shop_def) + 10) demo_ctx Map.empty" using demo_ctx_holds by (simp add: shop_typed)
  from create_table_adds [OF this] shop_accepted [OF demo_ctx_holds] shop_typed shop_table_typed show ?thesis
    by (auto split: prod.splits sum.splits)
qed

text \<open>The context the table was created in.\<close>

definition shop_ctx :: "bytes WriteCtx" where
  "shop_ctx = snd (create_table (write_ctx mem_ops 18 100) shop_def demo_ctx)"

lemma shop_ctx_holds: "holds_db 18 100 10 shop_ctx [str_bytes ''p'' \<mapsto> (shop_def, Map.empty)]"
proof (rule holds_dbE [OF demo_ctx_holds])
  fix cat assume cat: "ctx_trees 18 100 16 demo_ctx (cx_root (write_ctx mem_ops 18 100) demo_ctx) = Some cat"
    "db_at (ctx_trees 18 100 16 demo_ctx) cat Map.empty"
  have m: "create_budget (materialize_implicit_indexes shop_def) + 10 = 16" by (simp add: shop_typed)
  obtain res c where run: "create_table (write_ctx mem_ops 18 100) shop_def demo_ctx = (res, c)" by (cases "create_table (write_ctx mem_ops 18 100) shop_def demo_ctx")
  from pager_trees.create_table_run [OF cat [folded m] _ _ run] shop_accepted [OF demo_ctx_holds] show ?thesis
    by (auto simp: shop_typed shop_table_typed holds_db_def shop_ctx_def run split: sum.splits)
qed

section \<open>Inserting rows\<close>

text \<open>C10: Inserting rows. On a context that holds a database, for values that are well-formed, \<open>insert_rows\<close> either is
  refused and leaves the write context as it was, or returns as many rows as it was given, each a row of the
  table's column types stored under its primary key, the keys distinct and new to the table; the context
  then holds the same database with these rows added, every index of the table in step with them. No
  other table changes.\<close>

theorem insert_rows_stores:
  assumes "holds_db n steps (insert_budget d (length input) + k) (js_ctx j) F" "F t = Some (d, m)"
    and "\<forall>p \<in> set input. \<forall>(nm, v) \<in> set p. value_wf v"
  shows "case insert_rows host (write_ctx mem_ops n steps) t input j of
      (Inl e, j') \<Rightarrow> js_ctx j' = js_ctx j
    | (Inr out, j') \<Rightarrow> \<exists>rows kvs. out = OutRows rows \<and> length rows = length input \<and> stored_rows d m kvs rows
        \<and> holds_db n steps k (js_ctx j') (F(t \<mapsto> (d, m ++ map_of kvs)))"
proof (rule holds_dbE [OF assms(1)])
  fix cat assume cat: "ctx_trees n steps (insert_budget d (length input) + k) (js_ctx j) (cx_root (write_ctx mem_ops n steps) (js_ctx j)) = Some cat"
    "db_at (ctx_trees n steps (insert_budget d (length input) + k) (js_ctx j)) cat F"
  from pager_trees.insert_rows_run [OF cat assms(2,3)] show ?thesis
    by (fastforce simp: holds_db_def split: prod.splits sum.splits)
qed

definition still_host :: "(unit, unit) host_ops" where
  "still_host = \<lparr> now_micros = (\<lambda>c. (0, c)), next_u64 = (\<lambda>r. (0, r)) \<rparr>"

definition shop_job :: "(bytes WriteCtx, unit, unit) job_state" where
  "shop_job = \<lparr> js_ctx = shop_ctx, js_env = \<lparr> env_clock = (), env_last = (0, 0), env_rng = () \<rparr> \<rparr>"

abbreviation shop_input :: "(bytes \<times> value) list list" where
  "shop_input \<equiv> [[(str_bytes ''id'', I64 5), (str_bytes ''grp'', I64 7)]]"

lemma shop_built:
  "build_row still_host shop_def [(str_bytes ''id'', I64 5), (str_bytes ''grp'', I64 7)] 0 \<lparr> env_clock = (), env_last = (0, 0), env_rng = () \<rparr>
     = (Inr ([I64 5, I64 7], 0), \<lparr> env_clock = (), env_last = (0, 0), env_rng = () \<rparr>)"
  "pk_key_of shop_def [I64 5, I64 7] = Inr (i64_key 5)" "encode_row [I64 5, I64 7] = Inr (snd (shop_row 5 7))"
  "run_checks shop_def [I64 5, I64 7] = Inr ()" "check_entry (i64_key 5) (snd (shop_row 5 7)) = Inr ()"
  by code_simp+

lemma shop_entry:
  "entry_of shop_def \<lparr> ix_name = str_bytes ''by_grp'', ix_columns = [str_bytes ''grp''], ix_unique = False \<rparr> [I64 5, I64 7] (i64_key 5)
     = Inr (Some \<lparr> entry_key = i64_key 7 @ i64_key 5, entry_value = i64_key 5 \<rparr>)"
  "check_entry (i64_key 7 @ i64_key 5) (i64_key 5) = Inr ()"
  by code_simp+

text \<open>The row is staged on any context whose tree of rows is empty.\<close>

lemma shop_staged:
  assumes "cx_lookup cx (js_ctx j) data (i64_key 5) = Inr None" "js_env j = js_env shop_job"
  shows "\<exists>st. fst (stage_rows still_host cx shop_def (str_bytes ''p'') data roots shop_input (nothing_staged shop_def 0) j) = Inr st \<and> sg_out st = [[I64 5, I64 7]]"
proof -
  have d: "td_foreign_keys shop_def = []" "td_indexes shop_def = [\<lparr> ix_name = str_bytes ''by_grp'', ix_columns = [str_bytes ''grp''], ix_unique = False \<rparr>]"
    by (simp_all add: shop_def_def table_new_def)
  have env: "js_env j = \<lparr> env_clock = (), env_last = (0, 0), env_rng = () \<rparr>" using assms(2) by (simp add: shop_job_def)
  have "j\<lparr> js_env := js_env j \<rparr> = j" by simp
  then show ?thesis using assms(1) shop_built shop_entry env
    by (simp add: stage_row_def on_env_def st_zoom_def st_map_err_def nothing_staged_def stage_checked_def check_insert_fks_def d
        stage_entry_def encoded_row_def rejecting_def sized_def map_err_def)
qed

text \<open>The row is inserted.\<close>

definition stock_ctx :: "bytes WriteCtx" where
  "stock_ctx = js_ctx (snd (insert_rows still_host (write_ctx mem_ops 18 100) (str_bytes ''p'') shop_input shop_job))"

lemma stock_ctx_holds:
  "\<not> isl (fst (insert_rows still_host (write_ctx mem_ops 18 100) (str_bytes ''p'') shop_input shop_job))
   \<and> holds_db 18 100 5 stock_ctx [str_bytes ''p'' \<mapsto> (shop_def, map_of [shop_row 5 7])]"
proof (rule holds_dbE [OF shop_ctx_holds])
  let ?cx = "write_ctx mem_ops 18 100" and ?t = "str_bytes ''p''"
  fix cat assume cat: "ctx_trees 18 100 10 shop_ctx (cx_root ?cx shop_ctx) = Some cat"
    "db_at (ctx_trees 18 100 10 shop_ctx) cat [?t \<mapsto> (shop_def, Map.empty)]"
  have b: "insert_budget shop_def (length shop_input) + 5 = 10" by (simp add: insert_budget_def shop_def_def)
  have s: "js_ctx shop_job = shop_ctx" by (simp add: shop_job_def)
  obtain res j where run: "insert_rows still_host ?cx ?t shop_input shop_job = (res, j)" by (cases "insert_rows still_host ?cx ?t shop_input shop_job")
  have tab: "table_at (ctx_trees 18 100 10 shop_ctx) cat ?t shop_def Map.empty" by (rule db_tableD [OF cat(2)]) simp
  then have st: "table_stored (ctx_trees 18 100 10 shop_ctx) cat ?t shop_def Map.empty" by (simp add: table_at_def)
  obtain data where data: "load_root ?cx shop_ctx ?t = Inr data" "ctx_trees 18 100 10 shop_ctx data = Some Map.empty"
    by (rule pager_trees.load_root_at [OF cat(1) st])
  obtain roots ims where "iroots_at (ctx_trees 18 100 10 shop_ctx) cat ?t shop_def roots ims" by (rule iroots_exist [OF st])
  then have roots: "load_index_roots ?cx shop_ctx shop_def = Inr roots" using pager_trees.load_index_roots_at [OF cat(1)] by simp
  have "cx_lookup ?cx (js_ctx shop_job) data (i64_key 5) = Inr None" unfolding s using pager_trees.lookup_in [OF data(2)] by simp
  from shop_staged [OF this] obtain st where
    st: "fst (stage_rows still_host ?cx shop_def ?t data roots shop_input (nothing_staged shop_def 0) shop_job) = Inr st" "sg_out st = [[I64 5, I64 7]]" by blast
  have seq: "(if list_ex cd_auto_increment (td_columns shop_def) then load_seq ?cx shop_ctx ?t else Inr 0) = Inr 0"
    by (simp add: shop_def_def table_new_def column_new_def)
  have kvs: "kvs = [shop_row 5 7]" if "stored_rows shop_def Map.empty kvs [[I64 5, I64 7]]" for kvs
    using that shop_built(2,3) by (auto simp: stored_rows_def list_all2_Cons2 shop_row_def)
  show ?thesis
    using pager_trees.insert_rows_run [OF cat [folded b s] _ _ run, unfolded s] data(1) roots seq st kvs
    by (fastforce simp: holds_db_def stock_ctx_def run split: sum.splits)
qed

theorem insert_rows_stores_witness:
  "case insert_rows still_host (write_ctx mem_ops 18 100) (str_bytes ''p'') shop_input shop_job of
      (Inl e, j') \<Rightarrow> False
    | (Inr out, j') \<Rightarrow> \<exists>rows kvs. out = OutRows rows \<and> length rows = 1 \<and> stored_rows shop_def Map.empty kvs rows
        \<and> holds_db 18 100 5 (js_ctx j') [str_bytes ''p'' \<mapsto> (shop_def, map_of kvs)]"
proof -
  have b: "insert_budget shop_def (length shop_input) + 5 = 10" by (simp add: insert_budget_def shop_def_def)
  have "holds_db 18 100 (insert_budget shop_def (length shop_input) + 5) (js_ctx shop_job)
    [str_bytes ''p'' \<mapsto> (shop_def, Map.empty)]" unfolding b using shop_ctx_holds by (simp add: shop_job_def)
  from insert_rows_stores [OF this, of "str_bytes ''p''" Map.empty still_host] conjunct1 [OF stock_ctx_holds] show ?thesis
    by (auto simp: shop_job_def split: prod.splits sum.splits)
qed

section \<open>Dropping a table\<close>

text \<open>C14: Dropping a table. On a context that holds a database with the table, \<open>drop_table\<close> either is refused with an error
  that makes the writer roll the job back, or no other table has a foreign key to it and the context holds the
  same database without it: its definition, its rows, its indexes and its sequence are gone from the catalog,
  and every other table is as it was.\<close>

theorem drop_table_removes:
  assumes "holds_db n steps (length (td_indexes d) + 3 + k) c F" "F t = Some (d, m)"
  shows "case drop_table (write_ctx mem_ops n steps) t c of
      (Inl e, c') \<Rightarrow> \<not> is_fatal e
    | (Inr out, c') \<Rightarrow> out = OutUnit
        \<and> (\<forall>t' d' m'. F t' = Some (d', m') \<longrightarrow> t' = t \<or> t \<notin> fk_parent ` set (td_foreign_keys d'))
        \<and> holds_db n steps k c' (F(t := None))"
proof (rule holds_dbE [OF assms(1)])
  fix cat assume cat: "ctx_trees n steps (length (td_indexes d) + 3 + k) c (cx_root (write_ctx mem_ops n steps) c) = Some cat"
    "db_at (ctx_trees n steps (length (td_indexes d) + 3 + k) c) cat F"
  from pager_trees.drop_table_run [OF cat assms(2)] show ?thesis
    by (fastforce simp: holds_db_def split: prod.splits sum.splits)
qed

theorem drop_table_removes_witness:
  "case drop_table (write_ctx mem_ops 18 100) (str_bytes ''p'') shop_ctx of
      (Inl e, c') \<Rightarrow> \<not> is_fatal e
    | (Inr out, c') \<Rightarrow> out = OutUnit \<and> holds_db 18 100 6 c' Map.empty"
proof -
  have "length (td_indexes shop_def) + 3 + 6 = 10" by (simp add: shop_def_def)
  then have "holds_db 18 100 (length (td_indexes shop_def) + 3 + 6) shop_ctx [str_bytes ''p'' \<mapsto> (shop_def, Map.empty)]" using shop_ctx_holds by simp
  from drop_table_removes [OF this, of "str_bytes ''p''" Map.empty] show ?thesis by (auto split: prod.splits sum.splits)
qed

end
