(* ===== verification/CatDelete.thy ===== *)
theory CatDelete
  imports CatInsert CatBands
begin

text \<open>Deleting rows with their referential closure: the plan of a delete only removes stored rows and sets cells of stored
  rows to \<open>NULL\<close>, and applying it keeps the catalog consistent.\<close>

section \<open>Rows with cells set to \<open>NULL\<close>\<close>

definition nulled :: "value list \<Rightarrow> value list \<Rightarrow> bool" where
  "nulled r r' \<longleftrightarrow> length r' = length r \<and> (\<forall>i < length r. r' ! i = r ! i \<or> r' ! i = Null)"

lemma nulled_refl [simp]: "nulled r r"
  by (simp add: nulled_def)

lemma nulled_trans: "nulled r r1 \<Longrightarrow> nulled r1 r2 \<Longrightarrow> nulled r r2"
  unfolding nulled_def by metis

lemma nulled_upd: "nulled r (r[i := Null])"
  by (cases "i < length r") (auto simp: nulled_def nth_list_update)

text \<open>A cell by the name of its column.\<close>

abbreviation named_cell :: "TableDef \<Rightarrow> value list \<Rightarrow> bytes \<Rightarrow> value" where
  "named_cell d r nm \<equiv> (case Option.bind (col_index d nm) (get_at r) of Some v \<Rightarrow> v | None \<Rightarrow> Null)"

lemma nulled_cell: "nulled r r' \<Longrightarrow> named_cell d r' nm = named_cell d r nm \<or> named_cell d r' nm = Null"
  by (cases "col_index d nm") (auto simp: nulled_def get_at_def)

text \<open>A row without a \<open>NULL\<close> where the table forbids it.\<close>

definition nulls_allowed :: "TableDef \<Rightarrow> value list \<Rightarrow> bool" where
  "nulls_allowed d r \<longleftrightarrow> (\<forall>i < length r. r ! i = Null \<longrightarrow> is_nullable d i)"

lemma nulled_good:
  assumes "row_good d r" "nulled r r'" "nulls_allowed d r'"
  shows "row_good d r'"
proof -
  have len: "length r' = length r" "length r = length (td_columns d)" using assms by (simp_all add: row_good_def row_typed_def nulled_def)
  have old: "\<forall>i < length r. if r ! i = Null then is_nullable d i else kind (r ! i) = Some (cd_kind (td_columns d ! i))" "\<forall>i < length r. value_wf (r ! i)"
    using assms(1) len by (auto simp: row_good_def row_typed_def list_all_iff)
  have "value_wf (r' ! i) \<and> (if r' ! i = Null then is_nullable d i else kind (r' ! i) = Some (cd_kind (td_columns d ! i)))" if "i < length r" for i
    using assms(2,3) old that len by (auto simp: nulled_def nulls_allowed_def)
  then show ?thesis using len by (auto simp: row_good_def row_typed_def list_all_iff in_set_conv_nth)
qed

lemma nulled_pk:
  assumes "nulled r r'" "nulls_allowed d r'" "row_typed d r"
  shows "pk_key_of d r' = pk_key_of d r"
proof -
  have "cell_or_null r' ci = cell_or_null r ci" if ci: "ci \<in> set (List.map_filter (col_index d) (td_pk d))" for ci
  proof -
    obtain nm where nm: "nm \<in> set (td_pk d)" "col_index d nm = Some ci" using ci by (auto simp: map_filter_def)
    then have "ci < length (td_columns d)" "cd_name (td_columns d ! ci) = nm" by (auto simp: col_index_def position_Some)
    then have "is_pk d ci" "ci < length r'" using nm(1) assms(1,3) by (auto simp: is_pk_def get_at_def nulled_def row_typed_def)
    then have "r' ! ci \<noteq> Null" using assms(2) by (auto simp: nulls_allowed_def is_nullable_def split: option.splits)
    then show ?thesis using assms(1) \<open>ci < length r'\<close> by (auto simp: nulled_def cell_or_null_def get_at_def)
  qed
  then show ?thesis by (simp add: pk_key_of_def cong: map_cong)
qed

lemma nulled_cells: "named_cells d nms r' acc = Some vs \<Longrightarrow> nulled r r' \<Longrightarrow> named_cells d nms r acc = Some vs"
proof (induction nms arbitrary: acc)
  case (Cons nm nms)
  then show ?case using nulled_cell [OF Cons.prems(2), of d nm] by (auto simp: Let_def split: if_splits)
qed simp

lemma nulled_index_cols:
  assumes "nulled r r'" "Null \<notin> set (index_cols d idx r')"
  shows "index_cols d idx r' = index_cols d idx r"
  unfolding index_cols_def
proof (rule map_cong)
  fix nm assume "nm \<in> set (ix_columns idx)"
  then have "named_cell d r' nm \<noteq> Null" using assms(2) unfolding index_cols_def by force
  then show "named_cell d r' nm = named_cell d r nm" using nulled_cell [OF assms(1)] by metis
qed simp

text \<open>A unique index keeps the entry of such a row or drops it; an entry of another index does not grow.\<close>

lemma nulled_unique:
  assumes "nulled r r'" "ix_unique idx" "row_ent d idx k r' = Some e"
  shows "row_ent d idx k r = Some e"
proof -
  have "Null \<notin> set (index_cols d idx r')"
    using assms(2,3) by (auto simp: row_ent_def entry_def list_ex_iff split: if_splits)
  then show ?thesis using assms(3) nulled_index_cols [OF assms(1)] by (simp add: row_ent_def)
qed

lemma null_short: "keyable v \<Longrightarrow> length (enc_bytes Null) \<le> length (enc_bytes v)"
  using key_enc.enc_nonempty [of v] by (simp add: enc_bytes_def Suc_le_eq)

lemma nulled_short:
  assumes "nulled r r'" "\<forall>v \<in> set (index_cols d idx r). keyable v"
  shows "length (concat (map enc_bytes (index_cols d idx r'))) \<le> length (concat (map enc_bytes (index_cols d idx r)))"
proof -
  have "length (enc_bytes (named_cell d r' nm)) \<le> length (enc_bytes (named_cell d r nm))" if "nm \<in> set (ix_columns idx)" for nm
  proof -
    have "keyable (named_cell d r nm)" using assms(2) that by (auto simp: index_cols_def)
    then show ?thesis using nulled_cell [OF assms(1), of d nm] null_short by fastforce
  qed
  then show ?thesis unfolding index_cols_def by (auto simp: length_concat comp_def intro!: sum_list_mono)
qed

lemma nulled_sized:
  assumes ok: "table_ok d" "idx \<in> set (td_indexes d)" "row_good d r" "row_good d r'" and n: "nulled r r'" "\<not> ix_unique idx"
    and e: "row_ent d idx k r = Some e" "row_ent d idx k r' = Some e'" and "check_entry (entry_key e) (entry_value e) = Inr ()"
  shows "check_entry (entry_key e') (entry_value e') = Inr ()"
proof -
  have "length (entry_key e') \<le> length (entry_key e)" "entry_value e' = entry_value e"
    using row_ent_key [OF ok(1-3) e(1)] row_ent_key [OF ok(1,2,4) e(2)] nulled_short [OF n(1) index_cols_keyable [OF ok(1-3)]] n(2) by simp_all
  then show ?thesis using assms(9) by (auto simp: check_entry_def Let_def split: if_splits)
qed

section \<open>Ordered maps as lists\<close>

lemma map_of_bt_put [simp]: "map_of (bt_put k v m) = (map_of m)(k \<mapsto> v)"
  by (induction k v m rule: bt_put.induct) (auto simp: fun_eq_iff)

lemma map_of_bt_remove [simp]: "map_of (bt_remove k m) = (map_of m)(k := None)"
  by (induction m) (auto simp: bt_remove_def)

lemma keys_bt_put: "set (map fst (bt_put k v m)) = insert k (set (map fst m))"
  by (induction k v m rule: bt_put.induct) auto

lemma sorted_bt_put: "sorted_wrt (<) (map fst m) \<Longrightarrow> sorted_wrt (<) (map fst (bt_put k v m))"
proof (induction k v m rule: bt_put.induct)
  case (2 k v a b m)
  then show ?case using keys_bt_put [of k v m] by (auto simp: not_less_iff_gr_or_eq dest: less_trans)
qed simp

lemma sorted_bt_remove: "sorted_wrt (<) (map fst m) \<Longrightarrow> sorted_wrt (<) (map fst (bt_remove k m))"
  by (induction m) (auto simp: bt_remove_def)

lemma sorted_keys: "sorted_wrt (<) (map fst m) \<Longrightarrow> (k, v) \<in> set m \<longleftrightarrow> map_of m k = Some v" for m :: "('k::linorder \<times> 'v) list"
  by (auto simp: strict_sorted_iff dest: map_of_SomeD)

section \<open>The plan of a delete\<close>

definition stored_row :: "db \<Rightarrow> bytes \<Rightarrow> bytes \<Rightarrow> value list \<Rightarrow> bool" where
  "stored_row F t k r \<longleftrightarrow> (\<exists>d m b. F t = Some (d, m) \<and> m k = Some b \<and> decode_padded d b = Inr r)"

lemma stored_row_det: "stored_row F t k r \<Longrightarrow> stored_row F t k r' \<Longrightarrow> r' = r"
  by (auto simp: stored_row_def)

definition plan_inv :: "db \<Rightarrow> Cascade_plan \<Rightarrow> bool" where
  "plan_inv F plan \<longleftrightarrow> sorted_wrt (<) (map fst (cs_deletes plan)) \<and> sorted_wrt (<) (map fst (cs_rewrites plan))
     \<and> (\<forall>t k r. map_of (cs_deletes plan) (t, k) = Some r \<longrightarrow> stored_row F t k r)
     \<and> (\<forall>t k r r'. map_of (cs_rewrites plan) (t, k) = Some (r, r') \<longrightarrow>
          map_of (cs_deletes plan) (t, k) = None \<and> stored_row F t k r \<and> nulled r r')"

definition eff_inv :: "db \<Rightarrow> CascadeEffect \<Rightarrow> bool" where
  "eff_inv F eff \<longleftrightarrow> (\<exists>k. stored_row F (ef_table eff) k (ef_old_row eff)) \<and> (\<forall>r'. ef_new_row eff = Some r' \<longrightarrow> nulled (ef_old_row eff) r')"

lemma vals_eq_refl [simp]: "vals_eq vs vs"
  by (simp add: vals_eq_def list.rel_refl value_eq_def)

text \<open>A row whose referenced key is lost by nulling has no key any more, so its children are nulled too.\<close>

lemma lost_nulled:
  assumes "eff_inv F eff" "lost_key parent eff fk = Some (old, action)" "ef_new_row eff = Some r'"
  shows "parent_key_of parent fk r' = None"
proof (rule ccontr)
  assume "parent_key_of parent fk r' \<noteq> None"
  then obtain vs where vs: "parent_key_of parent fk r' = Some vs" by blast
  then have "parent_key_of parent fk (ef_old_row eff) = Some vs"
    using nulled_cells assms(1,3) unfolding parent_key_of_def eff_inv_def by blast
  then show False using assms(2,3) vs by (auto simp: lost_key_def split: if_splits)
qed

lemma set_null: "nulled r (set_fk_columns child fk r None)"
proof -
  have "nulled r (fold (\<lambda>(i, nm) out. case col_index child nm of None \<Rightarrow> out | Some ci \<Rightarrow> out[ci := Null]) xs r)" for xs :: "(nat \<times> bytes) list"
  proof (induction xs arbitrary: r)
    case (Cons x xs)
    obtain i nm where x: "x = (i, nm)" by (cases x)
    show ?case using Cons [of r] Cons [of "r[ci := Null]" for ci] nulled_trans [OF nulled_upd] by (cases "col_index child nm") (auto simp: x)
  qed simp
  then show ?thesis unfolding set_fk_columns_def option.case by blast
qed

lemma plan_child_inv:
  assumes inv: "plan_inv F plan" "\<forall>e \<in> set q. eff_inv F e" and eff: "eff_inv F eff" "lost_key parent eff fk = Some (old, action)"
    and row: "stored_row F (td_name child) cpk crow" and run: "plan_child parent eff child fk action (cpk, crow) (plan, q) = (plan', q')"
  shows "plan_inv F plan' \<and> (\<forall>e \<in> set q'. eff_inv F e)"
proof -
  let ?key = "(td_name child, cpk)"
  consider (gone) "map_of (cs_deletes plan) ?key \<noteq> None" | (delete) "map_of (cs_deletes plan) ?key = None" "action = Cascade \<and> ef_new_row eff = None"
    | (rewrite) "map_of (cs_deletes plan) ?key = None" "\<not> (action = Cascade \<and> ef_new_row eff = None)" by blast
  then show ?thesis
  proof cases
    case gone
    then show ?thesis using inv run by (simp add: plan_child_def)
  next
    case delete
    then have "plan' = plan\<lparr> cs_rewrites := bt_remove ?key (cs_rewrites plan), cs_deletes := bt_put ?key crow (cs_deletes plan) \<rparr>"
      "q' = q @ [\<lparr> ef_table = td_name child, ef_old_row = crow, ef_new_row = None \<rparr>]" using run by (auto simp: plan_child_def Let_def)
    then show ?thesis using inv row by (auto simp: plan_inv_def eff_inv_def sorted_bt_put sorted_bt_remove)
  next
    case rewrite
    have none: "(if action = Cascade then Option.bind (ef_new_row eff) (parent_key_of parent fk) else None) = None"
      using lost_nulled [OF eff] rewrite(2) by (cases "ef_new_row eff") auto
    define base where "base = (case map_option snd (map_of (cs_rewrites plan) ?key) of Some r \<Rightarrow> r | None \<Rightarrow> crow)"
    define cnew where "cnew = set_fk_columns child fk base None"
    have "nulled crow base"
    proof (cases "map_of (cs_rewrites plan) ?key")
      case (Some rr)
      then obtain r where rr: "map_of (cs_rewrites plan) ?key = Some (r, base)" by (cases rr) (simp add: base_def)
      then have "stored_row F (td_name child) cpk r" "nulled r base" using inv(1) unfolding plan_inv_def by blast+
      then show ?thesis using stored_row_det [OF row] by blast
    qed (simp add: base_def)
    then have n: "nulled crow cnew" unfolding cnew_def using nulled_trans set_null by blast
    have new: "plan' = plan\<lparr> cs_rewrites := bt_put ?key (crow, cnew) (cs_rewrites plan) \<rparr>"
      "set q' \<subseteq> insert \<lparr> ef_table = td_name child, ef_old_row = crow, ef_new_row = Some cnew \<rparr> (set q)"
      using run rewrite none by (auto simp: plan_child_def Let_def base_def cnew_def split: if_splits)
    have "eff_inv F \<lparr> ef_table = td_name child, ef_old_row = crow, ef_new_row = Some cnew \<rparr>" using row n by (auto simp: eff_inv_def)
    then have "\<forall>e \<in> set q'. eff_inv F e" using new(2) inv(2) by blast
    moreover have "plan_inv F plan'" unfolding new(1) using inv(1) row n rewrite(1) by (auto simp: plan_inv_def sorted_bt_put)
    ultimately show ?thesis by blast
  qed
qed

lemma fold_res_inv:
  assumes "\<And>x v w. x \<in> set xs \<Longrightarrow> P v \<Longrightarrow> f x v = Inr w \<Longrightarrow> P w" "P v" "fold_res f xs v = Inr w"
  shows "P w"
  using assms
proof (induction xs arbitrary: v)
  case (Cons x xs)
  then show ?case by (auto simp: and_then_Inr)
qed simp

lemma fold_inv: "(\<And>x v. x \<in> set xs \<Longrightarrow> P v \<Longrightarrow> P (f x v)) \<Longrightarrow> P v \<Longrightarrow> P (fold f xs v)"
  by (induction xs arbitrary: v) auto

lemma fk_edges_mem: "(child, fk) \<in> set (fk_edges tables) \<longleftrightarrow> child \<in> set tables \<and> fk \<in> set (td_foreign_keys child)"
  by (auto simp: fk_edges_def)

section \<open>Planning a delete ends\<close>

definition rows_of :: "db \<Rightarrow> RowRef set" where
  "rows_of F = {(t, k). \<exists>d m. F t = Some (d, m) \<and> k \<in> dom m}"

definition row_length :: "db \<Rightarrow> RowRef \<Rightarrow> nat" where
  "row_length F = (\<lambda>(t, k). case F t of Some (d, m) \<Rightarrow> length (row_at d m k) | None \<Rightarrow> 0)"

text \<open>What can still happen to a row: it is planned to be rewritten, then loses cells, then is planned to be deleted.\<close>

definition row_weight :: "db \<Rightarrow> Cascade_plan \<Rightarrow> RowRef \<Rightarrow> nat" where
  "row_weight F plan key =
     (if map_of (cs_deletes plan) key \<noteq> None then 0
      else (case map_of (cs_rewrites plan) key of
         Some (_, r') \<Rightarrow> Suc (length (filter (\<lambda>v. v \<noteq> Null) r'))
       | None \<Rightarrow> Suc (Suc (row_length F key))))"

definition plan_weight :: "db \<Rightarrow> Cascade_plan \<Rightarrow> nat" where
  "plan_weight F plan = sum (row_weight F plan) (rows_of F)"

lemma stored_row_mem: "stored_row F t k r \<Longrightarrow> (t, k) \<in> rows_of F" "stored_row F t k r \<Longrightarrow> row_length F (t, k) = length r"
  by (auto simp: stored_row_def rows_of_def row_length_def row_at_def)

lemma sum_drop_at:
  fixes f g :: "'a \<Rightarrow> nat"
  assumes "finite A" "x \<in> A" "\<And>y. y \<noteq> x \<Longrightarrow> g y = f y" "g x + c \<le> f x"
  shows "sum g A + c \<le> sum f A"
proof -
  have "sum g (A - {x}) = sum f (A - {x})" using assms(3) by (intro sum.cong) auto
  then show ?thesis using assms(1,2,4) by (simp add: sum.remove)
qed

lemma nulled_count:
  assumes "nulled r r'"
  shows "length (filter (\<lambda>v. v \<noteq> Null) r') \<le> length (filter (\<lambda>v. v \<noteq> Null) r)"
    and "r' \<noteq> r \<Longrightarrow> length (filter (\<lambda>v. v \<noteq> Null) r') < length (filter (\<lambda>v. v \<noteq> Null) r)"
proof -
  have card: "length (filter (\<lambda>v. v \<noteq> Null) xs) = card {i. i < length xs \<and> xs ! i \<noteq> Null}" for xs :: "value list"
    by (rule length_filter_conv_card)
  have sub: "{i. i < length r' \<and> r' ! i \<noteq> Null} \<subseteq> {i. i < length r \<and> r ! i \<noteq> Null}" using assms by (auto simp: nulled_def)
  show "length (filter (\<lambda>v. v \<noteq> Null) r') \<le> length (filter (\<lambda>v. v \<noteq> Null) r)" unfolding card using sub by (intro card_mono) auto
  show "length (filter (\<lambda>v. v \<noteq> Null) r') < length (filter (\<lambda>v. v \<noteq> Null) r)" if ne: "r' \<noteq> r"
  proof -
    obtain i where "i < length r" "r' ! i \<noteq> r ! i" using ne nth_equalityI [of r' r] assms by (auto simp: nulled_def)
    then have "i \<in> {i. i < length r \<and> r ! i \<noteq> Null} - {i. i < length r' \<and> r' ! i \<noteq> Null}" using assms by (auto simp: nulled_def)
    then show ?thesis unfolding card using sub by (intro psubset_card_mono) auto
  qed
qed

lemma plan_child_weight:
  assumes fin: "finite (rows_of F)" and inv: "plan_inv F plan" and eff: "eff_inv F eff" "lost_key parent eff fk = Some (old, action)"
    and row: "stored_row F (td_name child) cpk crow" and run: "plan_child parent eff child fk action (cpk, crow) (plan, q) = (plan', q')"
  shows "length q' + plan_weight F plan' \<le> length q + plan_weight F plan"
proof -
  let ?key = "(td_name child, cpk)"
  note drop = sum_drop_at [OF fin stored_row_mem(1) [OF row], of "row_weight F plan'" "row_weight F plan"]
  consider (gone) "map_of (cs_deletes plan) ?key \<noteq> None" | (delete) "map_of (cs_deletes plan) ?key = None" "action = Cascade \<and> ef_new_row eff = None"
    | (rewrite) "map_of (cs_deletes plan) ?key = None" "\<not> (action = Cascade \<and> ef_new_row eff = None)" by blast
  then show ?thesis
  proof cases
    case gone
    then show ?thesis using run by (simp add: plan_child_def)
  next
    case delete
    then have "plan' = plan\<lparr> cs_rewrites := bt_remove ?key (cs_rewrites plan), cs_deletes := bt_put ?key crow (cs_deletes plan) \<rparr>"
      "length q' = Suc (length q)" using run by (auto simp: plan_child_def Let_def)
    then show ?thesis using drop [of 1] delete(1) by (simp add: plan_weight_def row_weight_def split: option.splits prod.splits)
  next
    case rewrite
    have none: "(if action = Cascade then Option.bind (ef_new_row eff) (parent_key_of parent fk) else None) = None"
      using lost_nulled [OF eff] rewrite(2) by (cases "ef_new_row eff") auto
    show ?thesis
    proof (cases "map_of (cs_rewrites plan) ?key")
      case None
      let ?new = "set_fk_columns child fk crow None"
      have new: "plan' = plan\<lparr> cs_rewrites := bt_put ?key (crow, ?new) (cs_rewrites plan) \<rparr>" "length q' = Suc (length q)"
        using run rewrite none None by (auto simp: plan_child_def Let_def)
      have "length (filter (\<lambda>v. v \<noteq> Null) ?new) \<le> length crow" using set_null [of crow child fk] length_filter_le [of _ ?new] by (simp add: nulled_def)
      then show ?thesis using drop [of 1] rewrite(1) None new stored_row_mem(2) [OF row] by (simp add: plan_weight_def row_weight_def)
    next
      case (Some rr)
      then obtain r0 r where rr: "map_of (cs_rewrites plan) ?key = Some (r0, r)" by (cases rr) simp
      let ?new = "set_fk_columns child fk r None"
      have new: "plan' = plan\<lparr> cs_rewrites := bt_put ?key (crow, ?new) (cs_rewrites plan) \<rparr>" "length q' = length q + (if vals_eq r ?new then 0 else 1)"
        using run rewrite none rr by (auto simp: plan_child_def Let_def)
      have "length (filter (\<lambda>v. v \<noteq> Null) ?new) + (if vals_eq r ?new then 0 else 1) \<le> length (filter (\<lambda>v. v \<noteq> Null) r)"
      proof (cases "vals_eq r ?new")
        case False
        then have "?new \<noteq> r" by (metis vals_eq_refl)
        then show ?thesis using nulled_count(2) [OF set_null [of r child fk]] False by simp
      qed (use nulled_count(1) [OF set_null] in simp)
      then show ?thesis using drop [of "if vals_eq r ?new then 0 else 1"] rewrite(1) rr new by (simp add: plan_weight_def row_weight_def split: if_splits)
    qed
  qed
qed

text \<open>Planning keeps the invariant and spends weight, when every child row that is found is a stored row.\<close>

definition plan_run :: "db \<Rightarrow> nat \<Rightarrow> Cascade_plan \<times> CascadeEffect list \<Rightarrow> bool" where
  "plan_run F B = (\<lambda>(plan, q). plan_inv F plan \<and> (\<forall>e \<in> set q. eff_inv F e) \<and> length q + plan_weight F plan \<le> B)"

lemma plan_run_effects [simp]: "plan_run F B (plan\<lparr> cs_effects := es \<rparr>, q) \<longleftrightarrow> plan_run F B (plan, q)"
proof -
  have "row_weight F (plan\<lparr> cs_effects := es \<rparr>) key = row_weight F plan key" for key by (cases plan) (simp add: row_weight_def)
  then show ?thesis by (simp add: plan_run_def plan_inv_def plan_weight_def)
qed

lemma plan_child_run:
  assumes "finite (rows_of F)" "plan_run F B acc" "eff_inv F eff" "lost_key parent eff fk = Some (old, action)" "stored_row F (td_name child) k r"
  shows "plan_run F B (plan_child parent eff child fk action (k, r) acc)"
proof -
  obtain p q p' q' where pq: "acc = (p, q)" "plan_child parent eff child fk action (k, r) (p, q) = (p', q')" by (metis prod.exhaust)
  have inv: "plan_inv F p" "\<forall>e \<in> set q. eff_inv F e" "length q + plan_weight F p \<le> B" using assms(2) pq(1) by (simp_all add: plan_run_def)
  show ?thesis using plan_child_inv [OF inv(1,2) assms(3-5) pq(2)] plan_child_weight [OF assms(1) inv(1) assms(3-5) pq(2)] inv(3) pq
    by (simp add: plan_run_def)
qed

lemma plan_edge_run:
  assumes fin: "finite (rows_of F)"
    and found: "\<And>vals rows k r. scan_children cx s child fk vals = Inr rows \<Longrightarrow> (k, r) \<in> set rows \<Longrightarrow> stored_row F (td_name child) k r"
    and eff: "eff_inv F eff" and run: "plan_edge cx s parent eff (child, fk) acc = Inr acc'" and inv: "plan_run F B acc"
  shows "plan_run F B acc'"
proof (cases "lost_key parent eff fk")
  case (Some oa)
  obtain old action where oa: "oa = (old, action)" by (cases oa)
  show ?thesis
  proof (cases "action = Restrict")
    case False
    with run Some oa obtain rows where rows: "scan_children cx s child fk old = Inr rows" "acc' = fold (plan_child parent eff child fk action) rows acc"
      by (auto simp: plan_edge_def and_then_Inr)
    show ?thesis unfolding rows(2)
      by (rule fold_inv [where P = "plan_run F B"]) (auto intro!: plan_child_run [OF fin _ eff Some [unfolded oa] found [OF rows(1)]] inv)
  qed (use run Some oa inv in \<open>simp add: plan_edge_def\<close>)
qed (use run inv in \<open>simp add: plan_edge_def\<close>)

lemma plan_edge_error: "plan_edge cx s parent eff (child, fk) acc = Inl e \<Longrightarrow> \<exists>vals. scan_children cx s child fk vals = Inl e"
  by (auto simp: plan_edge_def and_then_def split: option.splits prod.splits if_splits sum.splits)

lemma fold_res_error: "fold_res f xs v = Inl e \<Longrightarrow> \<exists>x \<in> set xs. \<exists>v. f x v = Inl e"
  by (induction xs arbitrary: v) (auto simp: and_then_def split: sum.splits)

lemma plan_loop_run:
  assumes fin: "finite (rows_of F)"
    and found: "\<And>child fk vals rows k r. child \<in> set tables \<Longrightarrow> fk \<in> set (td_foreign_keys child) \<Longrightarrow>
      scan_children cx s child fk vals = Inr rows \<Longrightarrow> (k, r) \<in> set rows \<Longrightarrow> stored_row F (td_name child) k r"
    and live: "\<And>child fk vals. child \<in> set tables \<Longrightarrow> fk \<in> set (td_foreign_keys child) \<Longrightarrow> scan_children cx s child fk vals \<noteq> Inl None"
    and inv: "plan_run F B (plan, q)"
  shows "case plan_loop cx s tables n plan q of Inl e \<Rightarrow> B \<le> n \<longrightarrow> e \<noteq> None | Inr plan' \<Rightarrow> plan_inv F plan'"
  using inv
proof (induction n arbitrary: plan q B)
  case 0
  then show ?case by (cases q) (auto simp: plan_run_def)
next
  case (Suc n)
  show ?case
  proof (cases q)
    case Nil
    then show ?thesis using Suc.prems by (simp add: plan_run_def)
  next
    case (Cons eff rest)
    have eff: "eff_inv F eff" and rest: "plan_run F (B - 1) (plan, rest)" "0 < B" using Suc.prems Cons by (auto simp: plan_run_def)
    show ?thesis
    proof (cases "find_table tables (ef_table eff)")
      case None
      then show ?thesis using Suc.IH [OF rest(1)] Cons rest(2) by (auto split: sum.splits)
    next
      case (Some parent)
      have edge: "plan_run F (B - 1) w" if "x \<in> set (fk_edges tables)" "plan_run F (B - 1) v" "plan_edge cx s parent eff x v = Inr w" for x v w
      proof -
        obtain child fk where cf: "x = (child, fk)" by (cases x)
        then have "child \<in> set tables" "fk \<in> set (td_foreign_keys child)" using that(1) by (auto simp: fk_edges_mem)
        from plan_edge_run [OF fin found [OF this] eff that(3) [unfolded cf] that(2)] show ?thesis .
      qed
      show ?thesis
      proof (cases "fold_res (plan_edge cx s parent eff) (fk_edges tables) (plan, rest)")
        case (Inl e)
        from fold_res_error [OF this] obtain child fk v where
          "(child, fk) \<in> set (fk_edges tables)" "plan_edge cx s parent eff (child, fk) v = Inl e" by auto
        then have "e \<noteq> None" using plan_edge_error live by (metis fk_edges_mem)
        then show ?thesis using Cons Some Inl by simp
      next
        case (Inr pq)
        obtain p1 q1 where p1: "pq = (p1, q1)" by (cases pq)
        have "plan_run F (B - 1) (p1, q1)" unfolding p1 [symmetric] by (rule fold_res_inv [where P = "plan_run F (B - 1)", OF _ rest(1) Inr]) (rule edge)
        then have "plan_run F (B - 1) (p1\<lparr> cs_effects := cs_effects p1 @ [eff] \<rparr>, q1)" by simp
        from Suc.IH [OF this] show ?thesis using Cons Some Inr p1 rest(2) by (auto split: sum.splits)
      qed
    qed
  qed
qed

end
