(* ===== verification/CatErase.thy ===== *)
theory CatErase
  imports CatDelete
begin

text \<open>Applying the plan of a delete: the rows of the closure are removed or rewritten one by one, and the database ends
  as the plan says.\<close>

section \<open>The effect of a plan on the database\<close>

definition drop_row :: "RowRef \<Rightarrow> db \<Rightarrow> db" where
  "drop_row = (\<lambda>(t, k) F. case F t of Some (d, m) \<Rightarrow> F(t \<mapsto> (d, m(k := None))) | None \<Rightarrow> F)"

definition set_row :: "RowRef \<Rightarrow> bytes \<Rightarrow> db \<Rightarrow> db" where
  "set_row = (\<lambda>(t, k) b F. case F t of Some (d, m) \<Rightarrow> F(t \<mapsto> (d, m(k \<mapsto> b))) | None \<Rightarrow> F)"

definition drop_rows :: "(RowRef \<times> value list) list \<Rightarrow> db \<Rightarrow> db" where
  "drop_rows = fold (\<lambda>(key, _). drop_row key)"

definition set_rows :: "(RowRef \<times> (value list \<times> value list)) list \<Rightarrow> db \<Rightarrow> db" where
  "set_rows = fold (\<lambda>(key, (_, r')). set_row key (projr (encode_row r')))"

lemma changed_defs [simp]: "map_option fst (drop_row key F t) = map_option fst (F t)" "map_option fst (set_row key b F t) = map_option fst (F t)"
  by (auto simp: drop_row_def set_row_def split: prod.splits option.splits)

lemma stored_row_other:
  assumes "stored_row F t k r" "(t, k) \<noteq> key"
  shows "stored_row (drop_row key F) t k r" "stored_row (set_row key b F) t k r"
  using assms by (auto simp: stored_row_def drop_row_def set_row_def split: prod.splits option.splits)

definition rows_cost :: "TableDef list \<Rightarrow> RowRef list \<Rightarrow> nat" where
  "rows_cost tables keys = sum_list (map (\<lambda>(t, _). case find_table tables t of Some d \<Rightarrow> row_budget d | None \<Rightarrow> 0) keys)"

lemma rows_cost_Cons: "find_table tables t = Some d \<Longrightarrow> rows_cost tables ((t, k) # keys) = row_budget d + rows_cost tables keys"
  by (simp add: rows_cost_def)

context tree_store
begin

lemma does_drop_rows:
  assumes "catalog (rows_cost tables (map fst xs) + n) s cat" "db_at (content (rows_cost tables (map fst xs) + n) s) cat F"
    and "\<forall>t. find_table tables t = map_option fst (F t)" "distinct (map fst xs)" "\<forall>((t, k), r) \<in> set xs. stored_row F t k r"
  shows "does content True (rows_cost tables (map fst xs) + n) n (st_each (\<lambda>((tname, pk_key), r).
        case find_table tables tname of Some d \<Rightarrow> delete_row_indexed cx d pk_key r | None \<Rightarrow> st_return ()) xs) s
    (\<lambda>_ s'. \<exists>cat'. catalog n s' cat' \<and> db_at (content n s') cat' (drop_rows xs F))"
  using assms
proof (induction xs arbitrary: s cat F)
  case Nil
  then show ?case by (auto simp: rows_cost_def drop_rows_def does_def kept_trees_def)
next
  case (Cons x xs)
  obtain t k r where x: "x = ((t, k), r)" by (metis prod.exhaust)
  obtain d m b where F: "F t = Some (d, m)" "m k = Some b" "decode_padded d b = Inr r" using Cons.prems(5) x by (auto simp: stored_row_def)
  have r: "r = row_at d m k" using F(2,3) by (simp add: row_at_def)
  have find: "find_table tables t = Some d" using Cons.prems(3) F(1) by simp
  let ?n = "rows_cost tables (map fst xs) + n"
  have sum: "rows_cost tables (map fst (x # xs)) + n = row_budget d + ?n" using rows_cost_Cons [OF find] x by simp
  have F1: "F(t \<mapsto> (d, m(k := None))) = drop_row (t, k) F" using F(1) by (simp add: drop_row_def)
  note del = does_delete_row [OF Cons.prems(1,2) [unfolded sum] F(1,2), folded r, unfolded F1]
  show ?case unfolding st_each.simps x prod.case find option.case sum [unfolded x]
  proof (rule does_bind [OF del], elim exE conjE)
    fix y s1 cat1 assume c: "catalog ?n s1 cat1" "db_at (content ?n s1) cat1 (drop_row (t, k) F)"
    have st: "\<forall>((t', k'), r') \<in> set xs. stored_row (drop_row (t, k) F) t' k' r'"
    proof clarify
      fix t' k' r' assume x': "((t', k'), r') \<in> set xs"
      then have "(t', k') \<noteq> (t, k)" using Cons.prems(4) x by (force simp: image_iff)
      moreover have "stored_row F t' k' r'" using bspec [OF Cons.prems(5), of "((t', k'), r')"] x' by simp
      ultimately show "stored_row (drop_row (t, k) F) t' k' r'" by (rule stored_row_other(1) [rotated])
    qed
    have "drop_rows (((t, k), r) # xs) F = drop_rows xs (drop_row (t, k) F)" by (simp add: drop_rows_def)
    then show "does content True ?n n (st_each (\<lambda>((tname, pk_key), r).
        case find_table tables tname of Some d \<Rightarrow> delete_row_indexed cx d pk_key r | None \<Rightarrow> st_return ()) xs) s1
      (\<lambda>_ s'. \<exists>cat'. catalog n s' cat' \<and> db_at (content n s') cat' (drop_rows (((t, k), r) # xs) F))"
      using Cons.IH [OF c _ _ st] Cons.prems(3,4) by simp
  qed
qed

text \<open>A row whose cells were set to \<open>NULL\<close> where the table allows it can be stored: its unique entries are its old ones.\<close>

lemma does_null_row:
  assumes cat: "catalog (row_budget d + n) s cat" and db: "db_at (content (row_budget d + n) s) cat F" and F: "F t = Some (d, m)" "m k = Some b"
    and r': "nulled (row_at d m k) r'" "nulls_allowed d r'"
  shows "does content True (row_budget d + n) n (rewrite_row_indexed cx d k (row_at d m k) r') s
    (\<lambda>_ s'. \<not> isl (encode_row r') \<and> (\<exists>cat'. catalog n s' cat' \<and> db_at (content n s') cat' (set_row (t, k) (projr (encode_row r')) F)))"
proof -
  note row = rows_of_table [OF db_tableD [OF db F(1)] F(2)]
  have good: "row_good d r'" by (rule nulled_good [OF row(4) r'])
  have "pk_key_of d r' = Inr k" using nulled_pk [OF r'] row(4,5) by (simp add: row_good_def)
  moreover have "check_entry (entry_key e) (entry_value e) = Inr ()" if idx: "idx \<in> set (td_indexes d)" and e: "row_ent d idx k r' = Some e"
    and ne: "map_option entry_key (row_ent d idx k (row_at d m k)) \<noteq> Some (entry_key e)" for idx e
  proof -
    have nu: "\<not> ix_unique idx" using nulled_unique [OF r'(1) _ e] ne by auto
    obtain e0 where e0: "row_ent d idx k (row_at d m k) = Some e0"
      using row_ent_entry(1) [OF row(1) idx row(4), of k] nu by (auto simp: entry_def map_err_Inr and_then_Inr dest: sym)
    obtain im p where im: "content (row_budget d + n) s p = Some im" "index_stored d idx m im"
      using db_tableD [OF db F(1)] idx by (auto simp: table_at_def table_stored_def linked_def)
    have "im (entry_key e0) = Some k" using im(2) e0 F(2) unfolding index_stored_iff [OF row(1) idx row(3)] by blast
    then have "check_entry (entry_key e0) (entry_value e0) = Inr ()" using sized_in [OF im(1)] row_ent_key(2) [OF row(1) idx row(4) e0] by simp
    then show ?thesis by (rule nulled_sized [OF row(1) idx row(4) good r'(1) nu e0 e])
  qed
  moreover have "im (entry_key e) = None" if "ix_unique idx" "row_ent d idx k r' = Some e"
    "map_option entry_key (row_ent d idx k (row_at d m k)) \<noteq> Some (entry_key e)" for idx im e
    using nulled_unique [OF r'(1) that(1,2)] that(3) by simp
  ultimately have "does content True (row_budget d + n) n (rewrite_row_indexed cx d k (row_at d m k) r') s
    (\<lambda>_ s'. \<exists>cat' bs. catalog n s' cat' \<and> encode_row r' = Inr bs \<and> db_at (content n s') cat' (F(t \<mapsto> (d, m(k \<mapsto> bs)))))"
    using does_rewrite_row [OF cat db F good _ good_row_decodes [OF good]] by blast
  then show ?thesis by (rule does_post) (use F(1) in \<open>auto simp: set_row_def\<close>)
qed

lemma does_set_rows:
  assumes "catalog (rows_cost tables (map fst xs) + n) s cat" "db_at (content (rows_cost tables (map fst xs) + n) s) cat F"
    and "\<forall>t. find_table tables t = map_option fst (F t)" "distinct (map fst xs)"
    and "\<forall>((t, k), (r, r')) \<in> set xs. stored_row F t k r \<and> nulled r r' \<and> (\<forall>d. find_table tables t = Some d \<longrightarrow> nulls_allowed d r')"
  shows "does content True (rows_cost tables (map fst xs) + n) n (st_each (\<lambda>((tname, pk_key), (old_row, new_row)).
        case find_table tables tname of Some d \<Rightarrow> rewrite_row_indexed cx d pk_key old_row new_row | None \<Rightarrow> st_return ()) xs) s
    (\<lambda>_ s'. (\<forall>(key, (r, r')) \<in> set xs. \<not> isl (encode_row r')) \<and> (\<exists>cat'. catalog n s' cat' \<and> db_at (content n s') cat' (set_rows xs F)))"
  using assms
proof (induction xs arbitrary: s cat F)
  case Nil
  then show ?case by (auto simp: rows_cost_def set_rows_def does_def kept_trees_def)
next
  case (Cons x xs)
  obtain t k r r' where x: "x = ((t, k), (r, r'))" by (metis prod.exhaust)
  have xr: "stored_row F t k r" "nulled r r'" using Cons.prems(5) x by simp_all
  obtain d m b where F: "F t = Some (d, m)" "m k = Some b" "decode_padded d b = Inr r" using xr(1) by (auto simp: stored_row_def)
  have r: "r = row_at d m k" using F(2,3) by (simp add: row_at_def)
  have find: "find_table tables t = Some d" using Cons.prems(3) F(1) by simp
  then have ok: "nulls_allowed d r'" using Cons.prems(5) x by simp
  let ?n = "rows_cost tables (map fst xs) + n" and ?b = "projr (encode_row r')"
  have sum: "rows_cost tables (map fst (x # xs)) + n = row_budget d + ?n" using rows_cost_Cons [OF find] x by simp
  note set = does_null_row [OF Cons.prems(1,2) [unfolded sum] F(1,2) xr(2) [unfolded r] ok, folded r]
  show ?case unfolding st_each.simps x prod.case find option.case sum [unfolded x]
  proof (rule does_bind [OF set], elim exE conjE)
    fix y s1 cat1 assume enc: "\<not> isl (encode_row r')" and c: "catalog ?n s1 cat1" "db_at (content ?n s1) cat1 (set_row (t, k) ?b F)"
    have st: "\<forall>((t', k'), (q, q')) \<in> set xs. stored_row (set_row (t, k) ?b F) t' k' q \<and> nulled q q' \<and> (\<forall>d. find_table tables t' = Some d \<longrightarrow> nulls_allowed d q')"
    proof clarify
      fix t' k' q q' assume x': "((t', k'), (q, q')) \<in> set xs"
      then have "(t', k') \<noteq> (t, k)" using Cons.prems(4) x by (force simp: image_iff)
      moreover have q: "stored_row F t' k' q" "nulled q q'" "\<forall>d. find_table tables t' = Some d \<longrightarrow> nulls_allowed d q'"
        using bspec [OF Cons.prems(5), of "((t', k'), (q, q'))"] x' by simp_all
      ultimately show "stored_row (set_row (t, k) ?b F) t' k' q \<and> nulled q q' \<and> (\<forall>d. find_table tables t' = Some d \<longrightarrow> nulls_allowed d q')"
        using stored_row_other(2) by blast
    qed
    have "set_rows (((t, k), (r, r')) # xs) F = set_rows xs (set_row (t, k) ?b F)" by (simp add: set_rows_def)
    then show "does content True ?n n (st_each (\<lambda>((tname, pk_key), (old_row, new_row)).
        case find_table tables tname of Some d \<Rightarrow> rewrite_row_indexed cx d pk_key old_row new_row | None \<Rightarrow> st_return ()) xs) s1
      (\<lambda>_ s'. (\<forall>(key, (r, r')) \<in> set (((t, k), (r, r')) # xs). \<not> isl (encode_row r'))
         \<and> (\<exists>cat'. catalog n s' cat' \<and> db_at (content n s') cat' (set_rows (((t, k), (r, r')) # xs) F)))"
      using Cons.IH [OF c _ _ st] Cons.prems(3,4) enc by simp
  qed
qed

section \<open>What the planner reads\<close>

lemma child_row_found:
  assumes "F t = Some (child, m)" "m k = Some bs" "\<forall>(k, r) \<in> set out. stored_row F t k r \<and> opt_vals_eq (fk_values child fk r) (Some vals)"
  shows "case child_row child fk vals k bs out of Inl e \<Rightarrow> e \<noteq> None
    | Inr out' \<Rightarrow> \<forall>(k, r) \<in> set out'. stored_row F t k r \<and> opt_vals_eq (fk_values child fk r) (Some vals)"
  using assms by (cases "decode_padded child bs") (auto simp: child_row_def rejecting_def map_err_def stored_row_def)

lemma fold_found:
  assumes "\<And>x v. x \<in> set xs \<Longrightarrow> P v \<Longrightarrow> case f x v of Inl e \<Rightarrow> e \<noteq> None | Inr w \<Rightarrow> P w" "P v"
  shows "case fold_res f xs v of Inl e \<Rightarrow> e \<noteq> None | Inr w \<Rightarrow> P w"
  using assms
proof (induction xs arbitrary: v)
  case (Cons x xs)
  show ?case
  proof (cases "f x v")
    case (Inr w)
    then have "P w" using Cons.prems(1) [of x v] Cons.prems(2) by simp
    then show ?thesis using Inr Cons.IH [of w] Cons.prems(1) by simp
  qed (use Cons.prems(1) [of x v] Cons.prems(2) in simp)
qed simp

lemma scan_children_at:
  assumes cat: "catalog n s cat" and db: "db_at (content n s) cat F" and F: "F (td_name child) = Some (child, m)"
  shows "case scan_children cx s child fk vals of Inl e \<Rightarrow> e \<noteq> None
    | Inr rows \<Rightarrow> \<forall>(k, r) \<in> set rows. stored_row F (td_name child) k r \<and> opt_vals_eq (fk_values child fk r) (Some vals)"
proof -
  let ?t = "td_name child" and ?P = "\<lambda>out. \<forall>(k, r) \<in> set out. stored_row F (td_name child) k r \<and> opt_vals_eq (fk_values child fk r) (Some vals)"
  let ?idx = "List.find (\<lambda>i. length (fk_columns fk) \<le> length (ix_columns i) \<and> take (length (fk_columns fk)) (ix_columns i) = fk_columns fk) (td_indexes child)"
  have st: "table_stored (content n s) cat ?t child m" using db_tableD [OF db F] by (simp add: table_at_def)
  obtain data where data: "load_root cx s ?t = Inr data" "content n s data = Some m" by (rule load_root_at [OF cat st])
  show ?thesis
  proof (cases ?idx)
    case None
    obtain base where base: "cx_scan cx s data None None = Inr base" "set base = {(k, v). m k = Some v \<and> within None None k}"
      using scan_in [OF data(2), of None None] by blast
    have "case fold_res (\<lambda>(cpk, bs) out. child_row child fk vals cpk bs out) base [] of Inl e \<Rightarrow> e \<noteq> None | Inr out \<Rightarrow> ?P out"
      by (rule fold_found) (use base(2) child_row_found [where F = F, OF F] in auto)
    then show ?thesis using data(1) None base(1) by (simp add: scan_children_def)
  next
    case (Some idx)
    then have "idx \<in> set (td_indexes child)" by (auto simp: find_Some_iff)
    then obtain im p where p: "cat (irootk ?t (ix_name idx)) = Some (encode_root p)" "content n s p = Some im"
      using st by (auto simp: table_stored_def linked_def)
    have iroot: "load_iroot cx s ?t (ix_name idx) = Inr p" using cat p(1) by (simp add: load_iroot_def rejecting_def)
    show ?thesis
    proof (cases "prefix_bounds vals")
      case (Inl e)
      then show ?thesis using data(1) Some iroot by (simp add: scan_children_def)
    next
      case (Inr b)
      obtain lo hi where b: "b = (lo, hi)" by (cases b)
      obtain es where es: "cx_scan cx s p (Some lo) hi = Inr es" using scan_in [OF p(2), of "Some lo" hi] by blast
      have "case fold_res (\<lambda>(_, pk_key) out. and_then (cx_lookup cx s data pk_key) (\<lambda>hit.
          case hit of None \<Rightarrow> Inr out | Some bs \<Rightarrow> child_row child fk vals pk_key bs out)) es [] of Inl e \<Rightarrow> e \<noteq> None | Inr out \<Rightarrow> ?P out"
        by (rule fold_found) (use lookup_in [OF data(2)] child_row_found [where F = F, OF F] in \<open>auto split: option.splits\<close>)
      then show ?thesis using data(1) Some iroot Inr b es by (simp add: scan_children_def)
    qed
  qed
qed

lemma finite_rows:
  assumes cat: "catalog n s cat" and db: "db_at (content n s) cat F"
  shows "finite (rows_of F)"
proof -
  obtain ts where ts: "\<And>d. d \<in> set ts \<longleftrightarrow> (\<exists>m. F (td_name d) = Some (d, m))" by (rule all_tables_at [OF cat db]) blast
  have fin: "finite (dom m)" if t: "F t = Some (d, m)" for t d m
  proof -
    obtain p where "content n s p = Some m" using db_tableD [OF db t] by (auto simp: table_at_def table_stored_def linked_def)
    then obtain out where "set out = {(k, v). m k = Some v \<and> within None None k}" using scan_in [of n s p m None None] by blast
    then have "dom m \<subseteq> fst ` set out" by (force simp: within_def)
    then show ?thesis using finite_surj by blast
  qed
  have "rows_of F \<subseteq> (\<Union>d \<in> set ts. Pair (td_name d) ` dom (snd (the (F (td_name d)))))"
  proof clarify
    fix t k assume "(t, k) \<in> rows_of F"
    then obtain d m where d: "F t = Some (d, m)" "k \<in> dom m" by (auto simp: rows_of_def)
    then have nm: "td_name d = t" using db_tableD [OF db d(1)] by (simp add: table_at_def)
    then have "d \<in> set ts" using ts d(1) by blast
    then show "(t, k) \<in> (\<Union>d \<in> set ts. Pair (td_name d) ` dom (snd (the (F (td_name d)))))" using d nm by force
  qed
  moreover have "finite (\<Union>d \<in> set ts. Pair (td_name d) ` dom (snd (the (F (td_name d)))))" using ts fin by fastforce
  ultimately show ?thesis using finite_subset by blast
qed

end

section \<open>Seeds, budgets and validation\<close>

definition delete_bound :: "db \<Rightarrow> nat" where
  "delete_bound F = (\<Sum>key \<in> rows_of F. Suc (Suc (row_length F key)))"

definition db_budget :: "db \<Rightarrow> nat" where
  "db_budget F = (\<Sum>(t, _) \<in> rows_of F. case F t of Some (d, _) \<Rightarrow> row_budget d | None \<Rightarrow> 0)"

lemma seeds_run:
  assumes "finite (rows_of F)" "\<forall>(t, k, r) \<in> set seeds. stored_row F t k r"
  shows "plan_run F (delete_bound F) (seed_deletes seeds (\<lparr> cs_deletes = [], cs_rewrites = [], cs_effects = [] \<rparr>, []))"
proof -
  let ?P = "\<lambda>acc. plan_run F (delete_bound F) acc \<and> cs_rewrites (fst acc) = []"
  have "?P (seed_deletes seeds (\<lparr> cs_deletes = [], cs_rewrites = [], cs_effects = [] \<rparr>, []))"
    unfolding seed_deletes_def
  proof (rule fold_inv)
    show "?P (\<lparr> cs_deletes = [], cs_rewrites = [], cs_effects = [] \<rparr>, [])"
      by (simp add: plan_run_def plan_inv_def plan_weight_def delete_bound_def row_weight_def)
    fix x acc assume x: "x \<in> set seeds" and acc: "?P acc"
    obtain t k r p q where tk: "x = (t, k, r)" "acc = (p, q)" by (metis prod.exhaust)
    have row: "stored_row F t k r" using assms(2) x tk(1) by auto
    let ?p = "p\<lparr> cs_deletes := bt_put (t, k) r (cs_deletes p) \<rparr>"
    have inv: "plan_inv F ?p" using acc row tk by (auto simp: plan_run_def plan_inv_def sorted_bt_put)
    have w: "plan_weight F ?p + (if map_of (cs_deletes p) (t, k) = None then 1 else 0) \<le> plan_weight F p"
      unfolding plan_weight_def using acc tk
      by (intro sum_drop_at [OF assms(1) stored_row_mem(1) [OF row]]) (auto simp: row_weight_def)
    have "eff_inv F \<lparr> ef_table = t, ef_old_row = r, ef_new_row = None \<rparr>" using row by (auto simp: eff_inv_def)
    then show "?P ((\<lambda>(table, pk_key, r) (plan, queue).
       (plan\<lparr> cs_deletes := bt_put (table, pk_key) r (cs_deletes plan) \<rparr>,
        if map_of (cs_deletes plan) (table, pk_key) = None
        then queue @ [\<lparr> ef_table = table, ef_old_row = r, ef_new_row = None \<rparr>] else queue)) x acc)"
      using acc inv w tk by (auto simp: plan_run_def)
  qed
  then show ?thesis by blast
qed

lemma find_tables:
  assumes "\<And>d. d \<in> set ts \<longleftrightarrow> (\<exists>m. F (td_name d) = Some (d, m))" "distinct (map td_name ts)" "\<And>t d m. F t = Some (d, m) \<Longrightarrow> td_name d = t"
  shows "find_table ts t = map_option fst (F t)"
proof (cases "F t")
  case None
  then show ?thesis using assms(1) by (auto simp: find_table_def find_None_iff)
next
  case (Some dm)
  obtain d m where dm: "F t = Some (d, m)" using Some by (cases dm) simp
  then have d: "d \<in> set ts" "td_name d = t" using assms by auto
  then obtain d' where d': "find_table ts t = Some d'" by (cases "find_table ts t") (auto simp: find_table_def find_None_iff)
  then have "d' \<in> set ts" "td_name d' = t" by (auto simp: find_table_def find_Some_iff)
  then have "d' = d" using d assms(2) by (auto simp: distinct_map dest: inj_onD)
  then show ?thesis using d' dm by simp
qed

lemma plan_cost:
  assumes "finite (rows_of F)" "plan_inv F plan" "\<And>t. find_table tables t = map_option fst (F t)"
  shows "rows_cost tables (map fst (cs_deletes plan)) + rows_cost tables (map fst (cs_rewrites plan)) \<le> db_budget F"
proof -
  let ?c = "\<lambda>(t, _ :: bytes). case F t of Some (d, _) \<Rightarrow> row_budget d | None \<Rightarrow> 0"
  let ?ks = "map fst (cs_deletes plan) @ map fst (cs_rewrites plan)"
  have sorted: "sorted_wrt (<) (map fst (cs_deletes plan))" "sorted_wrt (<) (map fst (cs_rewrites plan))" using assms(2) by (simp_all add: plan_inv_def)
  have apart: "key \<notin> fst ` set (cs_rewrites plan)" if "(key, r) \<in> set (cs_deletes plan)" for key r
  proof
    assume "key \<in> fst ` set (cs_rewrites plan)"
    then obtain t k a b where key: "key = (t, k)" "((t, k), (a, b)) \<in> set (cs_rewrites plan)" by (cases key) force
    then have "map_of (cs_rewrites plan) (t, k) = Some (a, b)" using sorted_keys [OF sorted(2)] by simp
    then have "map_of (cs_deletes plan) (t, k) = None" using assms(2) unfolding plan_inv_def by blast
    then show False using that key(1) sorted_keys [OF sorted(1)] by simp
  qed
  have "fst ` set (cs_deletes plan) \<inter> fst ` set (cs_rewrites plan) = {}"
  proof (intro equals0I, elim IntE)
    fix key assume "key \<in> fst ` set (cs_deletes plan)" and rw: "key \<in> fst ` set (cs_rewrites plan)"
    then obtain r where "(key, r) \<in> set (cs_deletes plan)" by (metis imageE prod.collapse)
    from apart [OF this] rw show False by blast
  qed
  then have dist: "distinct ?ks" using sorted by (simp add: strict_sorted_iff)
  have sub: "set ?ks \<subseteq> rows_of F"
  proof
    fix key assume "key \<in> set ?ks"
    then consider (del) x where "x \<in> set (cs_deletes plan)" "key = fst x" | (new) x where "x \<in> set (cs_rewrites plan)" "key = fst x"
      unfolding set_append set_map by blast
    then show "key \<in> rows_of F"
    proof cases
      case del
      obtain t k r where x: "x = ((t, k), r)" by (metis prod.exhaust)
      then have "map_of (cs_deletes plan) (t, k) = Some r" using del(1) sorted_keys [OF sorted(1)] by simp
      then have "stored_row F t k r" using assms(2) unfolding plan_inv_def by blast
      then show ?thesis using stored_row_mem(1) del(2) x by simp
    next
      case new
      obtain t k r r' where x: "x = ((t, k), (r, r'))" by (metis prod.exhaust)
      then have "map_of (cs_rewrites plan) (t, k) = Some (r, r')" using new(1) sorted_keys [OF sorted(2)] by simp
      then have "stored_row F t k r" using assms(2) unfolding plan_inv_def by blast
      then show ?thesis using stored_row_mem(1) new(2) x by simp
    qed
  qed
  have cost: "(\<lambda>(t, _). case find_table tables t of Some d \<Rightarrow> row_budget d | None \<Rightarrow> 0) = ?c"
    unfolding assms(3) by (auto simp: fun_eq_iff split: option.splits)
  have "rows_cost tables (map fst (cs_deletes plan)) + rows_cost tables (map fst (cs_rewrites plan)) = sum_list (map ?c ?ks)"
    unfolding rows_cost_def cost by simp
  also have "\<dots> = sum ?c (set ?ks)" by (rule sum_list_distinct_conv_sum_set [OF dist])
  also have "\<dots> \<le> db_budget F" unfolding db_budget_def by (rule sum_mono2 [OF assms(1) sub]) simp
  finally show ?thesis .
qed

lemma validated_nulls:
  assumes "validate_cascade_rewrites cx s tables plan = Inr ()" "((t, k), (r, r')) \<in> set (cs_rewrites plan)" "find_table tables t = Some d"
  shows "nulls_allowed d r'"
proof -
  have "check_rewrite tables ((t, k), (r, r')) = Inr ()" using assms(1,2) by (auto simp: validate_cascade_rewrites_def and_then_Inr each_Inr)
  then have "\<forall>(ci, cell) \<in> set (enumerate 0 r'). \<not> (cell = Null \<and> \<not> is_nullable d ci)"
    using assms(3) by (auto simp: check_rewrite_def and_then_Inr each_Inr reject_def split: if_splits)
  then show ?thesis by (auto simp: nulls_allowed_def in_set_enumerate_eq)
qed

lemma plan_entries:
  assumes "plan_inv F plan"
  shows "distinct (map fst (cs_deletes plan))" "distinct (map fst (cs_rewrites plan))"
    and "((t, k), r) \<in> set (cs_deletes plan) \<Longrightarrow> stored_row F t k r"
    and "((t, k), (r, r')) \<in> set (cs_rewrites plan) \<Longrightarrow> stored_row F t k r \<and> nulled r r' \<and> (t, k) \<notin> fst ` set (cs_deletes plan)"
proof -
  have sorted: "sorted_wrt (<) (map fst (cs_deletes plan))" "sorted_wrt (<) (map fst (cs_rewrites plan))" using assms by (simp_all add: plan_inv_def)
  then show "distinct (map fst (cs_deletes plan))" "distinct (map fst (cs_rewrites plan))" by (simp_all add: strict_sorted_iff)
  show "((t, k), r) \<in> set (cs_deletes plan) \<Longrightarrow> stored_row F t k r"
    using assms unfolding sorted_keys [OF sorted(1)] plan_inv_def by blast
  show "((t, k), (r, r')) \<in> set (cs_rewrites plan) \<Longrightarrow> stored_row F t k r \<and> nulled r r' \<and> (t, k) \<notin> fst ` set (cs_deletes plan)"
    using assms unfolding sorted_keys [OF sorted(2)] plan_inv_def map_of_eq_None_iff by blast
qed

lemma drop_rows_defs [simp]: "map_option fst (drop_rows xs F t) = map_option fst (F t)"
  by (induction xs arbitrary: F) (auto simp: drop_rows_def)

lemma stored_row_rest:
  assumes "stored_row F t k r" "(t, k) \<notin> fst ` set xs"
  shows "stored_row (drop_rows xs F) t k r"
  using assms
proof (induction xs arbitrary: F)
  case (Cons x xs)
  obtain key v where x: "x = (key, v)" by (cases x)
  then have "stored_row (drop_row key F) t k r" using Cons.prems by (intro stored_row_other(1)) auto
  then show ?case using Cons.IH Cons.prems(2) x by (simp add: drop_rows_def)
qed (simp add: drop_rows_def)

context tree_store
begin

lemma db_less: "db_at (content n s) cat F \<Longrightarrow> n' \<le> n \<Longrightarrow> db_at (content n' s) cat F"
  using db_at_kept [of content n s cat F n' s] weaken_le unfolding kept_trees_def by blast

text \<open>The closure is applied: the planned rows are gone, the planned rewrites are stored.\<close>

lemma does_apply_cascade:
  assumes cat: "catalog (db_budget F + n) s cat" and db: "db_at (content (db_budget F + n) s) cat F" and fin: "finite (rows_of F)"
    and tables: "\<And>t. find_table tables t = map_option fst (F t)" and plan: "plan_inv F plan"
    and nulls: "\<And>t k r r' d. ((t, k), (r, r')) \<in> set (cs_rewrites plan) \<Longrightarrow> find_table tables t = Some d \<Longrightarrow> nulls_allowed d r'"
  shows "does content True (db_budget F + n) n (apply_cascade cx tables plan) s
    (\<lambda>_ s'. (\<forall>(key, (r, r')) \<in> set (cs_rewrites plan). \<not> isl (encode_row r'))
       \<and> (\<exists>cat'. catalog n s' cat' \<and> db_at (content n s') cat' (set_rows (cs_rewrites plan) (drop_rows (cs_deletes plan) F))))"
proof -
  note e = plan_entries [OF plan]
  let ?w = "rows_cost tables (map fst (cs_rewrites plan)) + n" and ?d = "rows_cost tables (map fst (cs_deletes plan))"
  have le: "?d + ?w \<le> db_budget F + n" using plan_cost [OF fin plan tables] by simp
  have find: "\<forall>t. find_table tables t = map_option fst (F t)" using tables by blast
  have del: "\<forall>((t, k), r) \<in> set (cs_deletes plan). stored_row F t k r" using e(3) by blast
  have db': "db_at (content (?d + ?w) s) cat F" by (rule db_less [OF db le])
  show ?thesis unfolding apply_cascade_def
  proof (rule does_bind [OF does_more [OF does_drop_rows [OF weaken_le [OF cat le] db' find e(1) del] le]], elim exE conjE)
    fix x s1 cat1 assume c: "catalog ?w s1 cat1" "db_at (content ?w s1) cat1 (drop_rows (cs_deletes plan) F)"
    have f: "\<forall>t. find_table tables t = map_option fst (drop_rows (cs_deletes plan) F t)" using tables by simp
    have w: "\<forall>((t, k), (r, r')) \<in> set (cs_rewrites plan). stored_row (drop_rows (cs_deletes plan) F) t k r \<and> nulled r r'
        \<and> (\<forall>d. find_table tables t = Some d \<longrightarrow> nulls_allowed d r')"
    proof clarify
      fix t k r r' assume x: "((t, k), (r, r')) \<in> set (cs_rewrites plan)"
      show "stored_row (drop_rows (cs_deletes plan) F) t k r \<and> nulled r r' \<and> (\<forall>d. find_table tables t = Some d \<longrightarrow> nulls_allowed d r')"
        using e(4) [OF x] stored_row_rest nulls [OF x] by blast
    qed
    from does_set_rows [OF c f e(2) w]
    show "does content True ?w n (st_each (\<lambda>((tname, pk_key), (old_row, new_row)).
        case find_table tables tname of Some d \<Rightarrow> rewrite_row_indexed cx d pk_key old_row new_row | None \<Rightarrow> st_return ()) (cs_rewrites plan)) s1
      (\<lambda>_ s'. (\<forall>(key, (r, r')) \<in> set (cs_rewrites plan). \<not> isl (encode_row r'))
       \<and> (\<exists>cat'. catalog n s' cat' \<and> db_at (content n s') cat' (set_rows (cs_rewrites plan) (drop_rows (cs_deletes plan) F))))" .
  qed
qed

end

end
