(* ===== verification/CatCascade.thy ===== *)
theory CatCascade
  imports CatErase
begin

text \<open>Deleting rows, from the seeds to the database that is left: which rows a delete may take with it, that its three
  read-only passes return, and what the context holds afterwards.\<close>

section \<open>The rows a delete takes with it\<close>

text \<open>A seed goes, and so does a row that references a row that goes through a foreign key with \<open>ON DELETE CASCADE\<close>.\<close>

inductive goes :: "db \<Rightarrow> RowRef set \<Rightarrow> bytes \<Rightarrow> bytes \<Rightarrow> bool" for F S where
  seed: "(t, k) \<in> S \<Longrightarrow> goes F S t k"
| child: "goes F S (fk_parent fk) pk \<Longrightarrow> stored_row F (fk_parent fk) pk pr \<Longrightarrow> F (fk_parent fk) = Some (parent, pm) \<Longrightarrow>
    F t = Some (child, m) \<Longrightarrow> fk \<in> set (td_foreign_keys child) \<Longrightarrow> fk_on_delete fk = Cascade \<Longrightarrow>
    parent_key_of parent fk pr = Some vals \<Longrightarrow> stored_row F t k r \<Longrightarrow> opt_vals_eq (fk_values child fk r) (Some vals) \<Longrightarrow> goes F S t k"

definition closure_inv :: "db \<Rightarrow> RowRef set \<Rightarrow> RowRef set \<Rightarrow> Cascade_plan \<times> CascadeEffect list \<Rightarrow> bool" where
  "closure_inv F S K = (\<lambda>(plan, q). K \<subseteq> set (map fst (cs_deletes plan)) \<and> (\<forall>(t, k) \<in> set (map fst (cs_deletes plan)). goes F S t k)
     \<and> (\<forall>e \<in> set q. ef_new_row e = None \<longrightarrow> (\<exists>k. goes F S (ef_table e) k \<and> stored_row F (ef_table e) k (ef_old_row e))))"

lemma closure_effects [simp]: "closure_inv F S K (plan\<lparr> cs_effects := es \<rparr>, q) \<longleftrightarrow> closure_inv F S K (plan, q)"
  by (simp add: closure_inv_def)

definition eff_goes :: "db \<Rightarrow> RowRef set \<Rightarrow> CascadeEffect \<Rightarrow> bool" where
  "eff_goes F S e \<longleftrightarrow> (ef_new_row e = None \<longrightarrow> (\<exists>k. goes F S (ef_table e) k \<and> stored_row F (ef_table e) k (ef_old_row e)))"

lemma closure_child:
  assumes acc: "closure_inv F S K (plan, q)" and eff: "eff_goes F S eff" "lost_key parent eff fk = Some (old, action)"
    and tab: "F (ef_table eff) = Some (parent, pm)" "F (td_name child) = Some (child, cm)" "fk \<in> set (td_foreign_keys child)"
    and row: "stored_row F (td_name child) k r" "opt_vals_eq (fk_values child fk r) (Some old)"
  shows "closure_inv F S K (plan_child parent eff child fk action (k, r) (plan, q))"
proof (cases "map_of (cs_deletes plan) (td_name child, k) = None \<and> action = Cascade \<and> ef_new_row eff = None")
  case True
  let ?key = "(td_name child, k)"
  have fk: "fk_parent fk = ef_table eff" "parent_key_of parent fk (ef_old_row eff) = Some old" "fk_on_delete fk = Cascade"
    using eff(2) True by (auto simp: lost_key_def split: if_splits option.splits)
  obtain pk where pk: "goes F S (ef_table eff) pk" "stored_row F (ef_table eff) pk (ef_old_row eff)" using eff(1) True by (auto simp: eff_goes_def)
  have g: "goes F S (td_name child) k" by (rule goes.child [of F S fk, unfolded fk(1), OF pk tab fk(3,2) row])
  have "plan_child parent eff child fk action (k, r) (plan, q) =
    (plan\<lparr> cs_rewrites := bt_remove ?key (cs_rewrites plan), cs_deletes := bt_put ?key r (cs_deletes plan) \<rparr>,
     q @ [\<lparr> ef_table = td_name child, ef_old_row = r, ef_new_row = None \<rparr>])" using True by (simp add: plan_child_def Let_def)
  then show ?thesis using acc g row(1) unfolding closure_inv_def by (auto simp: keys_bt_put simp del: set_map)
next
  case False
  then show ?thesis using acc unfolding closure_inv_def by (auto simp: plan_child_def Let_def)
qed

text \<open>What the planner relies on: the tables are those of the database, and the rows it finds are stored and reference the key.\<close>

definition reads_db :: "'s ctx_ops \<Rightarrow> 's \<Rightarrow> TableDef list \<Rightarrow> db \<Rightarrow> bool" where
  "reads_db cx s tables F \<longleftrightarrow> (\<forall>t. find_table tables t = map_option fst (F t)) \<and> (\<forall>d \<in> set tables. \<exists>m. F (td_name d) = Some (d, m))
     \<and> (\<forall>child \<in> set tables. \<forall>fk vals. case scan_children cx s child fk vals of Inl e \<Rightarrow> e \<noteq> None
        | Inr rows \<Rightarrow> \<forall>(k, r) \<in> set rows. stored_row F (td_name child) k r \<and> opt_vals_eq (fk_values child fk r) (Some vals))"

lemma reads_dbD:
  assumes "reads_db cx s tables F"
  shows "find_table tables t = map_option fst (F t)"
    and "child \<in> set tables \<Longrightarrow> \<exists>m. F (td_name child) = Some (child, m)"
    and "child \<in> set tables \<Longrightarrow> scan_children cx s child fk vals \<noteq> Inl None"
    and "child \<in> set tables \<Longrightarrow> scan_children cx s child fk vals = Inr rows \<Longrightarrow> (k, r) \<in> set rows \<Longrightarrow>
      stored_row F (td_name child) k r \<and> opt_vals_eq (fk_values child fk r) (Some vals)"
proof -
  show "find_table tables t = map_option fst (F t)" "child \<in> set tables \<Longrightarrow> \<exists>m. F (td_name child) = Some (child, m)"
    using assms unfolding reads_db_def by blast+
  have "case scan_children cx s child fk vals of Inl e \<Rightarrow> e \<noteq> None
      | Inr rows \<Rightarrow> \<forall>(k, r) \<in> set rows. stored_row F (td_name child) k r \<and> opt_vals_eq (fk_values child fk r) (Some vals)"
    if "child \<in> set tables" for vals using assms that unfolding reads_db_def by blast
  then show "child \<in> set tables \<Longrightarrow> scan_children cx s child fk vals \<noteq> Inl None"
    "child \<in> set tables \<Longrightarrow> scan_children cx s child fk vals = Inr rows \<Longrightarrow> (k, r) \<in> set rows \<Longrightarrow>
      stored_row F (td_name child) k r \<and> opt_vals_eq (fk_values child fk r) (Some vals)"
    by (force split: sum.splits)+
qed

lemma closure_edge:
  assumes db: "reads_db cx s tables F" and acc: "closure_inv F S K acc" and eff: "eff_goes F S eff" and tab: "F (ef_table eff) = Some (parent, pm)"
    and x: "(child, fk) \<in> set (fk_edges tables)" and run: "plan_edge cx s parent eff (child, fk) acc = Inr acc'"
  shows "closure_inv F S K acc'"
proof (cases "lost_key parent eff fk")
  case (Some oa)
  obtain old action where oa: "oa = (old, action)" by (cases oa)
  have c: "child \<in> set tables" "fk \<in> set (td_foreign_keys child)" using x by (simp_all add: fk_edges_mem)
  obtain cm where cm: "F (td_name child) = Some (child, cm)" using reads_dbD(2) [OF db c(1)] by blast
  show ?thesis
  proof (cases "action = Restrict")
    case False
    with run Some oa obtain rows where rows: "scan_children cx s child fk old = Inr rows" "acc' = fold (plan_child parent eff child fk action) rows acc"
      by (auto simp: plan_edge_def and_then_Inr)
    show ?thesis unfolding rows(2)
    proof (rule fold_inv [where P = "closure_inv F S K", OF _ acc])
      fix y v assume y: "y \<in> set rows" and v: "closure_inv F S K v"
      obtain k r p q where e: "y = (k, r)" "v = (p, q)" by (metis prod.exhaust)
      note found = reads_dbD(4) [OF db c(1) rows(1), of k r]
      show "closure_inv F S K (plan_child parent eff child fk action y v)" unfolding e
        by (rule closure_child [OF v [unfolded e] eff Some [unfolded oa] tab cm c(2)]) (use found y e in blast)+
    qed
  qed (use run Some oa acc in \<open>simp add: plan_edge_def\<close>)
qed (use run acc in \<open>simp add: plan_edge_def\<close>)

lemma closure_loop:
  assumes db: "reads_db cx s tables F" and "plan_loop cx s tables n plan q = Inr plan'" "closure_inv F S K (plan, q)"
  shows "closure_inv F S K (plan', [])"
  using assms(2,3)
proof (induction n arbitrary: plan q)
  case 0
  then show ?case by (cases q) auto
next
  case (Suc n)
  show ?case
  proof (cases q)
    case Nil
    then show ?thesis using Suc.prems by simp
  next
    case (Cons eff rest)
    have rest: "closure_inv F S K (plan, rest)" "eff_goes F S eff" using Suc.prems(2) Cons by (auto simp: closure_inv_def eff_goes_def)
    show ?thesis
    proof (cases "find_table tables (ef_table eff)")
      case None
      then show ?thesis using Suc.IH [OF _ rest(1)] Suc.prems(1) Cons by simp
    next
      case (Some parent)
      then obtain p1 q1 where p1: "fold_res (plan_edge cx s parent eff) (fk_edges tables) (plan, rest) = Inr (p1, q1)"
        "plan_loop cx s tables n (p1\<lparr> cs_effects := cs_effects p1 @ [eff] \<rparr>) q1 = Inr plan'" using Suc.prems(1) Cons by (auto simp: and_then_Inr)
      obtain pm where tab: "F (ef_table eff) = Some (parent, pm)" using Some reads_dbD(1) [OF db] by (cases "F (ef_table eff)") auto
      have edge: "closure_inv F S K w" if "x \<in> set (fk_edges tables)" "closure_inv F S K v" "plan_edge cx s parent eff x v = Inr w" for x v w
        using closure_edge [OF db that(2) rest(2) tab] that(1,3) by (cases x) blast
      have "closure_inv F S K (p1, q1)" by (rule fold_res_inv [where P = "closure_inv F S K", OF _ rest(1) p1(1)]) (rule edge)
      then show ?thesis using Suc.IH [OF p1(2)] by simp
    qed
  qed
qed

lemma closure_seeds:
  assumes "\<forall>(t, k, r) \<in> set seeds. stored_row F t k r" "(\<lambda>(t, k, _). (t, k)) ` set seeds \<subseteq> S" "closure_inv F S K acc"
  shows "closure_inv F S (K \<union> (\<lambda>(t, k, _). (t, k)) ` set seeds) (seed_deletes seeds acc)"
  using assms
proof (induction seeds arbitrary: K acc)
  case (Cons x seeds)
  obtain t k r p q where e: "x = (t, k, r)" "acc = (p, q)" by (metis prod.exhaust)
  have g: "goes F S t k" "stored_row F t k r" using Cons.prems(1,2) e(1) by (auto intro: goes.seed)
  let ?acc = "(p\<lparr> cs_deletes := bt_put (t, k) r (cs_deletes p) \<rparr>, if map_of (cs_deletes p) (t, k) = None
      then q @ [\<lparr> ef_table = t, ef_old_row = r, ef_new_row = None \<rparr>] else q)"
  have "closure_inv F S (insert (t, k) K) ?acc"
    using Cons.prems(3) g unfolding e(2) closure_inv_def by (auto simp: keys_bt_put simp del: set_map)
  from Cons.IH [OF _ _ this] Cons.prems(1,2)
  have "closure_inv F S (insert (t, k) K \<union> (\<lambda>(t, k, _). (t, k)) ` set seeds) (seed_deletes seeds ?acc)" by simp
  moreover have "seed_deletes (x # seeds) acc = seed_deletes seeds ?acc" by (simp add: seed_deletes_def e)
  ultimately show ?case by (simp add: e(1))
qed (simp add: seed_deletes_def)

section \<open>The database that is left\<close>

text \<open>The tables are the same; a row that is left is no seed and is an old row, or one with cells set to \<open>NULL\<close>; a row that is not
  left belongs to the closure of the seeds.\<close>

definition erased :: "db \<Rightarrow> RowRef set \<Rightarrow> db \<Rightarrow> bool" where
  "erased F S F' \<longleftrightarrow> (\<forall>t. map_option fst (F' t) = map_option fst (F t))
     \<and> (\<forall>t k r'. stored_row F' t k r' \<longrightarrow> (t, k) \<notin> S \<and> (\<exists>r. stored_row F t k r \<and> nulled r r'))
     \<and> (\<forall>t k r. stored_row F t k r \<longrightarrow> goes F S t k \<or> (\<exists>r'. stored_row F' t k r' \<and> nulled r r'))"

lemma stored_drop_row: "stored_row (drop_row key F) t k r \<longleftrightarrow> stored_row F t k r \<and> (t, k) \<noteq> key"
  by (auto simp: stored_row_def drop_row_def split: prod.splits option.splits if_splits)

lemma stored_drop_rows: "stored_row (drop_rows xs F) t k r \<longleftrightarrow> stored_row F t k r \<and> (t, k) \<notin> fst ` set xs"
  by (induction xs arbitrary: F) (auto simp: drop_rows_def stored_drop_row)

lemma stored_set_row:
  "stored_row (set_row key b F) t k r \<longleftrightarrow>
     (if (t, k) = key then \<exists>d. map_option fst (F t) = Some d \<and> decode_padded d b = Inr r else stored_row F t k r)"
  by (auto simp: stored_row_def set_row_def split: prod.splits option.splits if_splits)

lemma stored_set_rows:
  assumes "distinct (map fst ys)"
  shows "stored_row (set_rows ys F) t k r \<longleftrightarrow> (case map_of ys (t, k) of
      Some (_, r') \<Rightarrow> \<exists>d. map_option fst (F t) = Some d \<and> decode_padded d (projr (encode_row r')) = Inr r
    | None \<Rightarrow> stored_row F t k r)"
  using assms
proof (induction ys arbitrary: F)
  case (Cons y ys)
  obtain key q q' where y: "y = (key, (q, q'))" by (metis prod.exhaust)
  have "set_rows (y # ys) F = set_rows ys (set_row key (projr (encode_row q')) F)" by (simp add: set_rows_def y)
  moreover have "map_of ys key = None" using Cons.prems y by (simp add: map_of_eq_None_iff)
  ultimately show ?case using Cons.IH [of "set_row key (projr (encode_row q')) F"] Cons.prems y
    by (simp add: stored_set_row split: option.splits prod.splits)
qed (simp add: set_rows_def)

lemma set_rows_defs [simp]: "map_option fst (set_rows ys F t) = map_option fst (F t)"
  by (induction ys arbitrary: F) (auto simp: set_rows_def)

lemma erased_plan:
  assumes plan: "plan_inv F plan" and clo: "closure_inv F S S (plan, q)"
    and enc: "\<And>t k r r'. ((t, k), (r, r')) \<in> set (cs_rewrites plan) \<Longrightarrow>
      \<exists>d. map_option fst (F t) = Some d \<and> decode_padded d (projr (encode_row r')) = Inr r'"
  shows "erased F S (set_rows (cs_rewrites plan) (drop_rows (cs_deletes plan) F))"
proof -
  note e = plan_entries [OF plan]
  let ?F = "set_rows (cs_rewrites plan) (drop_rows (cs_deletes plan) F)"
  have clo': "S \<subseteq> fst ` set (cs_deletes plan)" "\<And>t k. (t, k) \<in> fst ` set (cs_deletes plan) \<Longrightarrow> goes F S t k"
    using clo unfolding closure_inv_def by auto
  have new: "stored_row ?F t k q \<longleftrightarrow> q = r'" "stored_row F t k r" "nulled r r'" "(t, k) \<notin> fst ` set (cs_deletes plan)"
    if "map_of (cs_rewrites plan) (t, k) = Some (r, r')" for t k q r r'
    using e(4) [OF map_of_SomeD [OF that]] enc [OF map_of_SomeD [OF that]] that unfolding stored_set_rows [OF e(2)] by auto
  have old: "stored_row ?F t k q \<longleftrightarrow> stored_row F t k q \<and> (t, k) \<notin> fst ` set (cs_deletes plan)" if "map_of (cs_rewrites plan) (t, k) = None" for t k q
    using that unfolding stored_set_rows [OF e(2)] by (simp add: stored_drop_rows)
  have lefts: "(t, k) \<notin> S \<and> (\<exists>r. stored_row F t k r \<and> nulled r r')" if r': "stored_row ?F t k r'" for t k r'
  proof (cases "map_of (cs_rewrites plan) (t, k)")
    case None
    then show ?thesis using old r' clo'(1) nulled_refl by blast
  next
    case (Some rr)
    obtain r q where "rr = (r, q)" by (cases rr)
    note w = new [OF Some [unfolded this]]
    show ?thesis using w(1) [of r'] w(2-4) r' clo'(1) by blast
  qed
  have forth: "goes F S t k \<or> (\<exists>r'. stored_row ?F t k r' \<and> nulled r r')" if r: "stored_row F t k r" for t k r
  proof (cases "map_of (cs_rewrites plan) (t, k)")
    case None
    then show ?thesis using old r clo'(2) nulled_refl by blast
  next
    case (Some rr)
    obtain r0 q where "rr = (r0, q)" by (cases rr)
    note w = new [OF Some [unfolded this]]
    show ?thesis using w(1) [of q] w(2,3) stored_row_det [OF r w(2)] by blast
  qed
  show ?thesis unfolding erased_def using lefts forth by simp
qed

section \<open>The read-only passes return\<close>

text \<open>A read that returns, with a value or an error.\<close>

definition returns :: "'a rm \<Rightarrow> bool" where
  "returns x \<longleftrightarrow> x \<noteq> Inl None"

lemma returns_simps [simp]: "returns (Inr x)" "returns (Inl (Some e))" "returns (rejecting y)" "returns (reject c)" "returns (map_err Some z)"
    "returns (map_err (\<lambda>e. Some (g e)) w)"
  by (auto simp: returns_def rejecting_def reject_def map_err_def split: sum.splits)

lemma returns_and_then: "returns x \<Longrightarrow> (\<And>y. x = Inr y \<Longrightarrow> returns (f y)) \<Longrightarrow> returns (and_then x f)"
  by (cases x) (auto simp: returns_def)

lemma returns_each: "(\<And>x. x \<in> set xs \<Longrightarrow> returns (f x)) \<Longrightarrow> returns (each f xs)"
  by (induction xs) (auto intro: returns_and_then)

lemma returns_fold: "(\<And>x v. x \<in> set xs \<Longrightarrow> returns (f x v)) \<Longrightarrow> returns (fold_res f xs v)"
  by (induction xs arbitrary: v) (auto intro: returns_and_then)

lemmas returns_intros = returns_and_then returns_each returns_fold

lemma restrict_returns:
  assumes "reads_db cx s tables F"
  shows "returns (check_cascade_restrict cx s tables plan)"
proof -
  have "returns (restrict_child plan child fk old x)" for child fk old x
    by (auto simp: restrict_child_def Let_def split: prod.splits)
  moreover have "returns (scan_children cx s child fk vals)" if "(child, fk') \<in> set (fk_edges tables)" for child fk fk' vals
    using reads_dbD(3) [OF assms] that by (simp add: returns_def fk_edges_mem)
  ultimately have "returns (restrict_edge cx s plan parent eff x)" if "x \<in> set (fk_edges tables)" for parent eff x
    using that by (auto simp: restrict_edge_def split: option.splits prod.splits intro!: returns_intros)
  then show ?thesis by (auto simp: check_cascade_restrict_def split: option.splits intro!: returns_intros)
qed

text \<open>The rows a filter selects, in the order of the scan.\<close>

lemma match_seeds:
  assumes "fold_res (match_seed d t filt) base acc = Inr seeds"
  shows "\<forall>(k, bs) \<in> set base. \<exists>r hit. decode_padded d bs = Inr r \<and> filt d r = Inr hit"
    and "seeds = acc @ map (\<lambda>(k, bs). (t, k, projr (decode_padded d bs))) (filter (\<lambda>(k, bs). filt d (projr (decode_padded d bs)) = Inr True) base)"
proof -
  have "(\<forall>(k, bs) \<in> set base. \<exists>r hit. decode_padded d bs = Inr r \<and> filt d r = Inr hit)
    \<and> seeds = acc @ map (\<lambda>(k, bs). (t, k, projr (decode_padded d bs))) (filter (\<lambda>(k, bs). filt d (projr (decode_padded d bs)) = Inr True) base)"
    using assms
  proof (induction base arbitrary: acc)
    case (Cons x base)
    obtain k bs where x: "x = (k, bs)" by (cases x)
    obtain r hit where r: "decode_padded d bs = Inr r" "filt d r = Inr hit"
      "fold_res (match_seed d t filt) base (if hit then acc @ [(t, k, r)] else acc) = Inr seeds"
      using Cons.prems x by (auto simp: match_seed_def and_then_Inr rejecting_def policy_res_def map_err_def split: sum.splits)
    from Cons.IH [OF r(3)] r(1,2) x show ?case by (cases hit) auto
  qed simp
  then show "\<forall>(k, bs) \<in> set base. \<exists>r hit. decode_padded d bs = Inr r \<and> filt d r = Inr hit"
    "seeds = acc @ map (\<lambda>(k, bs). (t, k, projr (decode_padded d bs))) (filter (\<lambda>(k, bs). filt d (projr (decode_padded d bs)) = Inr True) base)"
    by blast+
qed

text \<open>The rows of a table that a filter accepts.\<close>

definition matching :: "db \<Rightarrow> bytes \<Rightarrow> TableDef \<Rightarrow> RowFilter \<Rightarrow> RowRef set" where
  "matching F t d filt = {(t', k). t' = t \<and> (\<exists>r. stored_row F t k r \<and> filt d r = Inr True)}"

lemma matching_seeds:
  assumes F: "F t = Some (d, m)" and base: "set base = {(k, v). m k = Some v}" "distinct (map fst base)"
    and run: "fold_res (match_seed d t filt) base [] = Inr seeds"
  shows "\<forall>(t, k, r) \<in> set seeds. stored_row F t k r" "(\<lambda>(t, k, _). (t, k)) ` set seeds = matching F t d filt" "length seeds = card (matching F t d filt)"
proof -
  note s = match_seeds [OF run]
  have dec: "decode_padded d bs = Inr (projr (decode_padded d bs))" if "(k, bs) \<in> set base" for k bs using s(1) that by auto
  have mem: "(t', k, r) \<in> set seeds \<longleftrightarrow> t' = t \<and> stored_row F t k r \<and> filt d r = Inr True" for t' k r
  proof
    show "t' = t \<and> stored_row F t k r \<and> filt d r = Inr True" if "(t', k, r) \<in> set seeds"
      using that dec F base(1) unfolding s(2) by (auto simp: stored_row_def)
    show "(t', k, r) \<in> set seeds" if a: "t' = t \<and> stored_row F t k r \<and> filt d r = Inr True"
    proof -
      obtain b where "m k = Some b" "decode_padded d b = Inr r" using a F by (auto simp: stored_row_def)
      then have "(k, b) \<in> set (filter (\<lambda>(k, bs). filt d (projr (decode_padded d bs)) = Inr True) base)" "(t', k, r) = (t, k, projr (decode_padded d b))"
        using a base(1) by auto
      then show ?thesis unfolding s(2) append_Nil set_map by (intro image_eqI [where x = "(k, b)"]) auto
    qed
  qed
  show "\<forall>(t, k, r) \<in> set seeds. stored_row F t k r" using mem by auto
  show keys: "(\<lambda>(t, k, _). (t, k)) ` set seeds = matching F t d filt" 
    unfolding matching_def
  proof (intro set_eqI iffI)
    fix x assume "x \<in> (\<lambda>(t, k, _). (t, k)) ` set seeds"
    then show "x \<in> {(t', k). t' = t \<and> (\<exists>r. stored_row F t k r \<and> filt d r = Inr True)}" using mem by auto
  next
    fix x assume "x \<in> {(t', k). t' = t \<and> (\<exists>r. stored_row F t k r \<and> filt d r = Inr True)}"
    then obtain k r where "x = (t, k)" "(t, k, r) \<in> set seeds" using mem by auto
    then show "x \<in> (\<lambda>(t, k, _). (t, k)) ` set seeds" by (intro image_eqI [where x = "(t, k, r)"]) auto
  qed
  have "distinct (map (\<lambda>(t, k, _). (t, k)) seeds)" unfolding s(2)
    using base(2) by (auto simp: distinct_map comp_def case_prod_beta intro: distinct_filter intro!: inj_onI dest: inj_onD)
  then show "length seeds = card (matching F t d filt)" unfolding keys [symmetric] using distinct_card [of "map (\<lambda>(t, k, _). (t, k)) seeds"] by simp
qed

lemma erased_none: "erased F {} F"
  by (auto simp: erased_def)

context tree_store
begin

lemma validate_returns:
  assumes cat: "catalog n s cat" and db: "db_at (content n s) cat F" and tables: "\<And>t. find_table tables t = map_option fst (F t)"
  shows "returns (validate_cascade_rewrites cx s tables plan)"
proof -
  have 1: "returns (check_rewrite tables x)" for x
    by (auto simp: check_rewrite_def split: prod.splits option.splits intro!: returns_intros)
  have 2: "returns (deleted_keys tables x gone)" for x gone
    by (auto simp: deleted_keys_def entry_of_def split: prod.splits option.splits intro!: returns_intros)
  have 3: "returns (moved_keys tables x acc)" for x acc
    by (auto simp: moved_keys_def entry_of_def split: prod.splits option.splits intro!: returns_intros)
  have 4: "returns (check_added cx s tables gone added (t, i))" for gone added t i
  proof (cases "Option.bind (find_table tables t) (\<lambda>d. get_at (td_indexes d) i)")
    case (Some idx)
    then obtain d where d: "find_table tables t = Some d" "get_at (td_indexes d) i = Some idx" by (auto simp: bind_eq_Some_conv)
    then obtain m where m: "F t = Some (d, m)" "idx \<in> set (td_indexes d)" using tables by (auto simp: get_at_def split: if_splits)
    then obtain im p where p: "cat (irootk t (ix_name idx)) = Some (encode_root p)" "content n s p = Some im"
      using db_tableD [OF db m(1)] by (auto simp: table_at_def table_stored_def linked_def)
    have "load_iroot cx s t (ix_name idx) = Inr p" using cat p(1) by (simp add: load_iroot_def rejecting_def)
    then show ?thesis using Some lookup_in [OF p(2)] by (auto simp: check_added_def intro!: returns_intros)
  qed (simp add: check_added_def)
  show ?thesis unfolding validate_cascade_rewrites_def using 1 2 3 4 by (auto intro!: returns_intros split: prod.splits)
qed

lemma reads_db_at:
  assumes cat: "catalog n s cat" and db: "db_at (content n s) cat F"
  obtains ts where "all_tables cx s = Inr ts" "reads_db cx s ts F"
proof -
  obtain ts where ts: "all_tables cx s = Inr ts" "\<And>d. d \<in> set ts \<longleftrightarrow> (\<exists>m. F (td_name d) = Some (d, m))" "distinct (map td_name ts)"
    by (rule all_tables_at [OF cat db]) blast
  have nm: "td_name d = t" if "F t = Some (d, m)" for t d m using db_tableD [OF db that] by (simp add: table_at_def)
  have find: "find_table ts t = map_option fst (F t)" for t by (rule find_tables [OF ts(2,3)]) (rule nm)
  have "reads_db cx s ts F" unfolding reads_db_def
  proof (intro conjI allI ballI)
    fix child fk vals assume "child \<in> set ts"
    then obtain m where "F (td_name child) = Some (child, m)" using ts(2) by blast
    from scan_children_at [OF cat db this] show "case scan_children cx s child fk vals of Inl e \<Rightarrow> e \<noteq> None
      | Inr rows \<Rightarrow> \<forall>(k, r) \<in> set rows. stored_row F (td_name child) k r \<and> opt_vals_eq (fk_values child fk r) (Some vals)" .
  qed (use find ts(2) in blast)+
  then show ?thesis using that ts(1) by blast
qed

section \<open>Deletes\<close>

text \<open>The plan of a delete, when the three passes accept it.\<close>

lemma referential_plan_run:
  assumes cat: "catalog n s cat" and db: "db_at (content n s) cat F" and reads: "reads_db cx s tables F"
    and seeds: "\<forall>(t, k, r) \<in> set seeds. stored_row F t k r"
  shows "case referential_plan cx s tables fuel seeds [] of Inl e \<Rightarrow> delete_bound F \<le> fuel \<longrightarrow> e \<noteq> None
    | Inr plan \<Rightarrow> plan_inv F plan \<and> closure_inv F ((\<lambda>(t, k, _). (t, k)) ` set seeds) ((\<lambda>(t, k, _). (t, k)) ` set seeds) (plan, [])
        \<and> validate_cascade_rewrites cx s tables plan = Inr ()"
proof -
  let ?S = "(\<lambda>(t, k, _). (t, k)) ` set seeds" and ?e = "(\<lparr> cs_deletes = [], cs_rewrites = [], cs_effects = [] \<rparr>, [])"
  obtain p q where pq: "seed_deletes seeds ?e = (p, q)" by (cases "seed_deletes seeds ?e")
  have fin: "finite (rows_of F)" by (rule finite_rows [OF cat db])
  have run: "plan_run F (delete_bound F) (p, q)" using seeds_run [OF fin seeds] pq by simp
  have "closure_inv F ?S {} ?e" by (simp add: closure_inv_def)
  from closure_seeds [OF seeds subset_refl this] have clo: "closure_inv F ?S ?S (p, q)" using pq by simp
  have loop: "case plan_loop cx s tables fuel p q of Inl e \<Rightarrow> delete_bound F \<le> fuel \<longrightarrow> e \<noteq> None | Inr plan \<Rightarrow> plan_inv F plan"
    by (rule plan_loop_run [OF fin _ _ run]) (use reads_dbD(3,4) [OF reads] in blast)+
  have pc: "plan_cascade cx s tables fuel seeds [] = plan_loop cx s tables fuel p q" by (simp add: plan_cascade_def pq)
  show ?thesis
  proof (cases "plan_loop cx s tables fuel p q")
    case (Inl e)
    then show ?thesis using loop by (simp add: referential_plan_def pc)
  next
    case (Inr plan)
    have ok: "plan_inv F plan" "closure_inv F ?S ?S (plan, [])" using loop Inr closure_loop [OF reads Inr clo] by simp_all
    have "returns (check_cascade_restrict cx s tables plan)" "returns (validate_cascade_rewrites cx s tables plan)"
      using restrict_returns [OF reads] validate_returns [OF cat db reads_dbD(1) [OF reads]] by blast+
    then show ?thesis using ok Inr by (auto simp: referential_plan_def pc returns_def and_then_def split: sum.splits)
  qed
qed

abbreviation seed_keys :: "(bytes \<times> bytes \<times> value list) list \<Rightarrow> RowRef set" where
  "seed_keys seeds \<equiv> (\<lambda>(t, k, _). (t, k)) ` set seeds"

lemma delete_seeded_run:
  assumes cat: "catalog (db_budget F + n) s cat" and db: "db_at (content (db_budget F + n) s) cat F"
    and seeds: "\<forall>(t, k, r) \<in> set seeds. stored_row F t k r"
  shows "case delete_seeded cx fuel seeds s of (Inl e, s') \<Rightarrow> (s' = s \<or> \<not> is_fatal e) \<and> (delete_bound F \<le> fuel \<longrightarrow> e \<noteq> None)
    | (Inr u, s') \<Rightarrow> \<exists>cat' F'. catalog n s' cat' \<and> db_at (content n s') cat' F' \<and> erased F (seed_keys seeds) F'"
proof -
  obtain ts where ts: "all_tables cx s = Inr ts" "reads_db cx s ts F" by (rule reads_db_at [OF cat db])
  note find = reads_dbD(1) [OF ts(2)]
  note plan = referential_plan_run [OF cat db ts(2) seeds, of fuel]
  show ?thesis
  proof (cases "referential_plan cx s ts fuel seeds []")
    case (Inl e)
    then show ?thesis using plan ts(1) by (simp add: delete_seeded_def st_read_def)
  next
    case (Inr p)
    have p: "plan_inv F p" "closure_inv F (seed_keys seeds) (seed_keys seeds) (p, [])" "validate_cascade_rewrites cx s ts p = Inr ()"
      using plan Inr by simp_all
    note nulls = validated_nulls [OF p(3)]
    have run: "delete_seeded cx fuel seeds s = apply_cascade cx ts p s" using ts(1) Inr by (simp add: delete_seeded_def st_read_def)
    from does_apply_cascade [OF cat db finite_rows [OF cat db] find p(1) nulls] show ?thesis unfolding run
    proof (rule does_cases)
      fix e s' assume "apply_cascade cx ts p s = (Inl e, s')" "\<not> is_fatal e"
      then show "case apply_cascade cx ts p s of (Inl e, s') \<Rightarrow> (s' = s \<or> \<not> is_fatal e) \<and> (delete_bound F \<le> fuel \<longrightarrow> e \<noteq> None)
        | (Inr u, s') \<Rightarrow> \<exists>cat' F'. catalog n s' cat' \<and> db_at (content n s') cat' F' \<and> erased F (seed_keys seeds) F'" by (cases e) auto
    next
      fix u s' assume ok: "apply_cascade cx ts p s = (Inr u, s')" "(\<forall>(key, (r, r')) \<in> set (cs_rewrites p). \<not> isl (encode_row r'))
        \<and> (\<exists>cat'. catalog n s' cat' \<and> db_at (content n s') cat' (set_rows (cs_rewrites p) (drop_rows (cs_deletes p) F)))"
      have enc: "\<exists>d. map_option fst (F t) = Some d \<and> decode_padded d (projr (encode_row r')) = Inr r'"
        if x: "((t, k), (r, r')) \<in> set (cs_rewrites p)" for t k r r'
      proof -
        obtain d m b where F: "F t = Some (d, m)" "m k = Some b" "decode_padded d b = Inr r"
          using plan_entries(4) [OF p(1) x] by (auto simp: stored_row_def)
        then have "row_good d r" using rows_of_table(4) [OF db_tableD [OF db F(1)] F(2)] by (simp add: row_at_def)
        then have "row_good d r'" using nulled_good nulls [OF x] plan_entries(4) [OF p(1) x] find F(1) by simp
        moreover obtain bs where "encode_row r' = Inr bs" using ok(2) x by (cases "encode_row r'") auto
        ultimately show ?thesis using good_row_decodes F(1) by simp
      qed
      have "erased F (seed_keys seeds) (set_rows (cs_rewrites p) (drop_rows (cs_deletes p) F))" by (rule erased_plan [OF p(1,2)]) (rule enc)
      with ok show "case apply_cascade cx ts p s of (Inl e, s') \<Rightarrow> (s' = s \<or> \<not> is_fatal e) \<and> (delete_bound F \<le> fuel \<longrightarrow> e \<noteq> None)
        | (Inr u, s') \<Rightarrow> \<exists>cat' F'. catalog n s' cat' \<and> db_at (content n s') cat' F' \<and> erased F (seed_keys seeds) F'" by auto
    qed
  qed
qed

lemma delete_row_run:
  assumes cat: "catalog (db_budget F + n) s cat" and db: "db_at (content (db_budget F + n) s) cat F" and F: "F t = Some (d, m)"
  shows "case delete_row cx fuel t pk s of (Inl e, s') \<Rightarrow> (s' = s \<or> \<not> is_fatal e) \<and> (delete_bound F \<le> fuel \<longrightarrow> e \<noteq> None)
    | (Inr out, s') \<Rightarrow> \<exists>key. encode_pk t d pk = Inr key \<and>
        (if m key = None then out = OutDeleted False \<and> s' = s
         else out = OutDeleted True \<and> (\<exists>cat' F'. catalog n s' cat' \<and> db_at (content n s') cat' F' \<and> erased F {(t, key)} F'))"
proof -
  have st: "table_stored (content (db_budget F + n) s) cat t d m" using db_tableD [OF db F] by (simp add: table_at_def)
  obtain data where data: "load_root cx s t = Inr data" "content (db_budget F + n) s data = Some m" by (rule load_root_at [OF cat st])
  have tab: "load_table cx s t = Inr d" by (rule load_table_at [OF cat db_tableD [OF db F]])
  show ?thesis
  proof (cases "encode_pk t d pk")
    case (Inl e)
    then show ?thesis using tab data(1) by (simp add: delete_row_def st_read_def rejecting_def map_err_def)
  next
    case (Inr key)
    note start = tab data(1) Inr lookup_in [OF data(2), of key]
    show ?thesis
    proof (cases "m key")
      case None
      then show ?thesis using start by (simp add: delete_row_def st_read_def rejecting_def map_err_def)
    next
      case (Some bs)
      have dec: "decode_padded d bs = Inr (row_at d m key)" by (rule rows_of_table(6) [OF db_tableD [OF db F] Some])
      then have "stored_row F t key (row_at d m key)" using F Some by (auto simp: stored_row_def)
      then have "\<forall>(t, k, r) \<in> set [(t, key, row_at d m key)]. stored_row F t k r" by simp
      from delete_seeded_run [OF cat db this, of fuel] show ?thesis using start Some dec
        by (auto simp: delete_row_def st_read_def rejecting_def map_err_def split: prod.splits sum.splits)
    qed
  qed
qed

lemma delete_where_run:
  assumes cat: "catalog (db_budget F + n) s cat" and db: "db_at (content (db_budget F + n) s) cat F" and F: "F t = Some (d, m)"
  shows "case delete_where cx fuel t filt s of (Inl e, s') \<Rightarrow> (s' = s \<or> \<not> is_fatal e) \<and> (delete_bound F \<le> fuel \<longrightarrow> e \<noteq> None)
    | (Inr out, s') \<Rightarrow> out = OutAffected (card (matching F t d filt))
        \<and> (\<exists>cat' F'. catalog n s' cat' \<and> db_at (content n s') cat' F' \<and> erased F (matching F t d filt) F')"
proof -
  have st: "table_stored (content (db_budget F + n) s) cat t d m" using db_tableD [OF db F] by (simp add: table_at_def)
  obtain data where data: "load_root cx s t = Inr data" "content (db_budget F + n) s data = Some m" by (rule load_root_at [OF cat st])
  have tab: "load_table cx s t = Inr d" by (rule load_table_at [OF cat db_tableD [OF db F]])
  obtain base where base: "cx_scan cx s data None None = Inr base" "sorted_wrt (<) (map fst base)" "set base = {(k, v). m k = Some v}"
    using scan_in [OF data(2), of None None] by (auto simp: within_def)
  have dist: "distinct (map fst base)" using base(2) by (simp add: strict_sorted_iff)
  note start = delete_where_def st_read_def tab data(1) base(1)
  show ?thesis
  proof (cases "fold_res (match_seed d t filt) base []")
    case (Inl e)
    have "returns (fold_res (match_seed d t filt) base [])"
      by (auto simp: match_seed_def policy_res_def split: prod.splits intro!: returns_intros)
    then show ?thesis using Inl by (simp add: start returns_def)
  next
    case (Inr seeds)
    note seeds = matching_seeds [where F = F, OF F base(3) dist Inr]
    show ?thesis
    proof (cases "seeds = []")
      case True
      then have "matching F t d filt = {}" using seeds(2) by auto
      then show ?thesis using Inr True erased_none weaken_le [OF cat, of n] db_less [OF db, of n] by (auto simp: start)
    next
      case False
      from delete_seeded_run [OF cat db seeds(1), of fuel, unfolded seeds(2)] show ?thesis using Inr False seeds(3)
        by (auto simp: start split: prod.splits sum.splits)
    qed
  qed
qed

end

end
