(* ===== verification/CatDeleteSpec.thy ===== *)
theory CatDeleteSpec
  imports CatJobSpec CatCascade
begin

text \<open>What the delete jobs of the catalog do to a database kept on pages: the laws of \<open>tree_store\<close>, interpreted on the write
  context of the transaction layer, give their effect on the abstract database, the referential closure included.\<close>

section \<open>Deleting a row by its key\<close>

text \<open>C11: Deleting a row by its primary key. On a context that holds a database, \<open>delete_row\<close> either returns an error, and then the
  context is untouched or the error makes the writer roll the job back; or reports that no row has the key and
  leaves the context untouched; or reports the delete, and the context holds a database with the same tables
  in which the row is gone, every row that is left is an old row or one with cells set to \<open>NULL\<close>, and only rows that
  reference a deleted row through \<open>ON DELETE CASCADE\<close> have gone with it. With fuel for two steps per row and
  one per cell of the database, planning the closure always ends.\<close>

theorem delete_row_erases:
  assumes "holds_db n steps (db_budget F + k) c F" "F t = Some (d, m)"
  shows "case delete_row (write_ctx mem_ops n steps) fuel t pk c of
      (Inl e, c') \<Rightarrow> (c' = c \<or> \<not> is_fatal e) \<and> (delete_bound F \<le> fuel \<longrightarrow> e \<noteq> None)
    | (Inr out, c') \<Rightarrow> \<exists>key. encode_pk t d pk = Inr key \<and>
        (if m key = None then out = OutDeleted False \<and> c' = c
         else out = OutDeleted True \<and> (\<exists>F'. holds_db n steps k c' F' \<and> erased F {(t, key)} F'))"
proof (rule holds_dbE [OF assms(1)])
  fix cat assume cat: "ctx_trees n steps (db_budget F + k) c (cx_root (write_ctx mem_ops n steps) c) = Some cat"
    "db_at (ctx_trees n steps (db_budget F + k) c) cat F"
  from pager_trees.delete_row_run [OF cat assms(2), of fuel pk] show ?thesis
    by (fastforce simp: holds_db_def split: prod.splits sum.splits)
qed

section \<open>Deleting the rows a filter selects\<close>

text \<open>C12: Deleting by a filter. On a context that holds a database, \<open>delete_where\<close> either returns an error, and then the context is
  untouched or the error makes the writer roll the job back; or reports how many rows of the table the filter
  selects, and the context holds a database with the same tables in which all of these are gone, every
  row that is left is an old row or one with cells set to \<open>NULL\<close>, and only rows that reference a deleted
  row through \<open>ON DELETE CASCADE\<close> have gone with them. With fuel for two steps per row and one per cell of the
  database, planning the closure always ends.\<close>

theorem delete_where_erases:
  assumes "holds_db n steps (db_budget F + k) c F" "F t = Some (d, m)"
  shows "case delete_where (write_ctx mem_ops n steps) fuel t filt c of
      (Inl e, c') \<Rightarrow> (c' = c \<or> \<not> is_fatal e) \<and> (delete_bound F \<le> fuel \<longrightarrow> e \<noteq> None)
    | (Inr out, c') \<Rightarrow> out = OutAffected (card (matching F t d filt))
        \<and> (\<exists>F'. holds_db n steps k c' F' \<and> erased F (matching F t d filt) F')"
proof (rule holds_dbE [OF assms(1)])
  fix cat assume cat: "ctx_trees n steps (db_budget F + k) c (cx_root (write_ctx mem_ops n steps) c) = Some cat"
    "db_at (ctx_trees n steps (db_budget F + k) c) cat F"
  from pager_trees.delete_where_run [OF cat assms(2), of fuel filt] show ?thesis
    by (auto simp: holds_db_def split: prod.splits sum.splits)
qed

section \<open>A table with one row\<close>

abbreviation stock_db :: db where
  "stock_db \<equiv> [str_bytes ''p'' \<mapsto> (shop_def, map_of [shop_row 5 7])]"

lemma stock_row: "stored_row stock_db (str_bytes ''p'') k r \<longleftrightarrow> k = i64_key 5 \<and> r = [I64 5, I64 7]"
proof -
  have "decode_padded shop_def (snd (shop_row 5 7)) = Inr [I64 5, I64 7]" by code_simp
  then show ?thesis by (auto simp: stored_row_def shop_row_def split: if_splits)
qed

lemma stock_rows: "rows_of stock_db = {(str_bytes ''p'', i64_key 5)}"
  by (auto simp: rows_of_def shop_row_def split: if_splits)

lemma stock_budget: "db_budget stock_db = 5" "delete_bound stock_db = 4"
proof -
  have "row_length stock_db (str_bytes ''p'', i64_key 5) = 2" using stored_row_mem(2) [of stock_db "str_bytes ''p''"] stock_row by simp
  moreover have "row_budget shop_def = 5" by (simp add: row_budget_def shop_def_def)
  ultimately show "db_budget stock_db = 5" "delete_bound stock_db = 4" unfolding db_budget_def delete_bound_def stock_rows by simp_all
qed

text \<open>Deleting the only row of the table by its key, and all of its rows.\<close>

theorem delete_row_erases_witness:
  "case delete_row (write_ctx mem_ops 18 100) 4 (str_bytes ''p'') [I64 5] stock_ctx of
      (Inl e, c') \<Rightarrow> (c' = stock_ctx \<or> \<not> is_fatal e) \<and> e \<noteq> None
    | (Inr out, c') \<Rightarrow> out = OutDeleted True \<and> (\<exists>F'. holds_db 18 100 0 c' F' \<and> erased stock_db {(str_bytes ''p'', i64_key 5)} F')"
proof -
  have "holds_db 18 100 (db_budget stock_db + 0) stock_ctx stock_db" using conjunct2 [OF stock_ctx_holds] stock_budget(1) by simp
  note run = delete_row_erases [OF this, of "str_bytes ''p''" shop_def "map_of [shop_row 5 7]" 4 "[I64 5]"]
  have "encode_pk (str_bytes ''p'') shop_def [I64 5] = Inr (i64_key 5)" by code_simp
  moreover have "map_of [shop_row 5 7] (i64_key 5) \<noteq> None" by (simp add: shop_row_def)
  ultimately show ?thesis using run stock_budget(2) by (auto split: prod.splits sum.splits)
qed

theorem delete_where_erases_witness:
  "case delete_where (write_ctx mem_ops 18 100) 4 (str_bytes ''p'') (\<lambda>d r. Inr True) stock_ctx of
      (Inl e, c') \<Rightarrow> (c' = stock_ctx \<or> \<not> is_fatal e) \<and> e \<noteq> None
    | (Inr out, c') \<Rightarrow> out = OutAffected 1 \<and> (\<exists>F'. holds_db 18 100 0 c' F' \<and> erased stock_db {(str_bytes ''p'', i64_key 5)} F')"
proof -
  have "holds_db 18 100 (db_budget stock_db + 0) stock_ctx stock_db" using conjunct2 [OF stock_ctx_holds] stock_budget(1) by simp
  note run = delete_where_erases [OF this, of "str_bytes ''p''" shop_def "map_of [shop_row 5 7]" 4 "\<lambda>d r. Inr True"]
  have "matching stock_db (str_bytes ''p'') shop_def (\<lambda>d r. Inr True) = {(str_bytes ''p'', i64_key 5)}" unfolding matching_def stock_row by auto
  then show ?thesis using run stock_budget(2) by (auto split: prod.splits sum.splits)
qed

end
