(* ===== verification/Spec2Isabelle.thy ===== *)
theory Spec2Isabelle
  imports Crc32c KeyCodec RowCodec Msgpack UuidV7 StorageSpec Index TxnSpec TypeSound PageSpec CatSpec CatFindings CatDeleteSpec
begin

text \<open>
  \<^bold>\<open>OTF EDB: a verified model of the storage engine, the transaction layer, the catalog and the query engine.\<close>

  \<^bold>\<open>The program.\<close> OTF EDB is an embedded database written in Rust, a workspace of crates that form layers.
  \<open>common\<close> holds the error categories, CRC32C and the host services (block store, clock, random
  numbers). \<open>types\<close> holds the typed values and their encodings: an order-preserving key encoding, a row
  encoding, a MessagePack encoding, UUIDv7. \<open>pager\<close> turns a block store into checksummed, atomically
  committed pages with a page cache and a free list. \<open>btree\<close> is a copy-on-write B+tree over the pager,
  with cursors. \<open>txn\<close> adds a single writer with group commit, snapshots for readers and deferred
  reclamation of superseded pages. \<open>index\<close> defines secondary index entries. \<open>catalog\<close>, \<open>query\<close>, \<open>proto\<close>,
  \<open>edb\<close> and \<open>cli\<close> build the database on top of them.

  \<^bold>\<open>Style of the model.\<close> Structs are records, enums are datatypes with the source's constructors, a method
  that may fail returns \<open>error + result\<close>, and a method that also mutates its object is a function from the
  state to the result and the state it leaves (theory \<open>StateErr\<close>); an error keeps the state reached when it
  was raised. Machine integers are words of their width. The operations of a block store are a record
  \<open>io_ops\<close> of such functions, a parameter of the pager, as the type parameter \<open>B: IoBackend\<close> is in the code;
  the job type \<open>J: WriteJob\<close> of the writer is a parameter in the same way.

  \<^bold>\<open>Theories and sources\<close> (paths below \<open>src/crates\<close>).
  \<^item> \<open>Prelude\<close>, \<open>StateErr\<close>: bytes, byte orders, lexicographic comparison, slices, results, stateful methods.
  \<^item> \<open>Errors\<close>: the error enums of all layers with their categories (\<open>common/src/error.rs\<close> and the \<open>lib.rs\<close> of
    \<open>types\<close>, \<open>pager\<close>, \<open>btree\<close>, \<open>txn\<close>).
  \<^item> \<open>Crc32c\<close> (\<open>common/src/crc.rs\<close>): table generation and the table-driven checksum; it equals the bitwise
    polynomial definition.
  \<^item> \<open>Services\<close> (\<open>common/src/clock.rs\<close>, \<open>rng.rs\<close>), \<open>UuidV7\<close> (\<open>types/src/uuid.rs\<close>): generation is strictly
    increasing, the text form round-trips.
  \<^item> \<open>Value\<close>, \<open>KeyCodec\<close>, \<open>RowCodec\<close>, \<open>Msgpack\<close> (\<open>types/src/value.rs\<close>, \<open>key.rs\<close>, \<open>row.rs\<close>, \<open>msgpack.rs\<close>): the total
    order of values; keys compare as their values do; every codec round-trips; decoders are total and
    classify what they refuse.
  \<^item> \<open>Backend\<close> (\<open>common/src/io.rs\<close>): the in-memory store, the fault-injecting wrapper, and the locale
    \<open>block_store\<close>, what any store promises, interpreted on both; \<open>reliable_store\<close> adds that operations
    succeed.
  \<^item> \<open>Page\<close>, \<open>Cache\<close>, \<open>Pager\<close> (\<open>pager/src/page.rs\<close>, \<open>meta.rs\<close>, \<open>freelist.rs\<close>, \<open>cache.rs\<close>, \<open>pager.rs\<close>): frames, meta
    and trunk records, the cache, and all operations of the pager with their invariant \<open>pager_inv\<close>.
  \<^item> \<open>PagerCommit\<close>: the commit protocol. Recovery adopts the old or the new meta wherever a commit stops;
    a completed commit is durable and its free list is the one that was written.
  \<^item> \<open>StorageSpec\<close>: cache bounds, the free-list walk and integrity check, the node codec and split bounds.
  \<^item> \<open>PageStore\<close>: the locale \<open>page_store\<close>, what the tree needs of the pager (allocate, read, write), interpreted
    on the pager over the in-memory store.
  \<^item> \<open>Node\<close>, \<open>BTree\<close>, \<open>BTreeCursor\<close> (\<open>btree/src/node.rs\<close>, \<open>tree.rs\<close>, \<open>cursor.rs\<close>): nodes and their codec, the tree
    operations, cursors.
  \<^item> \<open>BTreeInv\<close>, \<open>BTreeOps\<close>, \<open>BTreeInsert\<close>, \<open>BTreeDelete\<close>, \<open>BTreeCheck\<close>, \<open>BTreeFuel\<close>, \<open>BTreeSpec\<close>: the tree invariant
    \<open>tree\<close>, the abstraction \<open>holds\<close> of the pages under a root to a finite map, and the refinement of that
    map by every operation; old roots keep their map, and the freed pages are accounted for exactly.
  \<^item> \<open>Registry\<close> (\<open>txn/src/registry.rs\<close>): pinned versions as a multiset; the watermark is the oldest.
  \<^item> \<open>Txn\<close> (\<open>txn/src/job.rs\<close>, \<open>writer.rs\<close>, \<open>db.rs\<close>): write contexts and jobs, the writer, snapshots, opening.
    \<open>TxnJob\<close>, \<open>TxnBatch\<close>, \<open>TxnCommit\<close>, \<open>TxnReopen\<close>, \<open>TxnSpec\<close> prove the layer correct, with the invariant \<open>db_inv\<close>
    and the reachable states \<open>db_reach\<close>: group commit refines a map, snapshots are isolated from later
    batches and from reclamation, a commit is durable, and a crash during it is atomic.
  \<^item> \<open>Index\<close> (\<open>index/src/lib.rs\<close>): index entries and probe bounds; a scan between the bounds of some column
    values finds exactly the matching rows.

  \<^item> \<open>Schema\<close>, \<open>CatalogCodec\<close> (\<open>catalog/src/schema.rs\<close>, \<open>codec.rs\<close>, \<open>lib.rs\<close>): table definitions with their
    validation, \<open>CHECK\<close> predicates under three-valued logic, the encoding of stored definitions, which
    round-trips and classifies what it refuses.
  \<^item> \<open>Ast\<close>, \<open>Proto\<close> (\<open>proto/src/ast.rs\<close>, \<open>ir.rs\<close>, \<open>result.rs\<close>, \<open>lib.rs\<close>): the query syntax tree, requests and results.
  \<^item> \<open>Float64\<close>, \<open>Eval\<close>, \<open>Like\<close>, \<open>Lower\<close>, \<open>Validate\<close>, \<open>TypeSound\<close> (\<open>query/src/eval.rs\<close>, \<open>lower.rs\<close>,
    \<open>validate.rs\<close>): expression evaluation, validation and the type checker; an accepted expression evaluates
    to a value of its type or to one of the documented runtime errors, and \<open>LIKE\<close> is decided correctly.
  \<^item> \<open>Exec\<close>, \<open>Streaming\<close>, \<open>StreamSpec\<close> (\<open>query/src/exec.rs\<close>, \<open>stream.rs\<close>): the reference interpreter of select
    statements and the streaming executor; both compute the same result, errors included.
  \<^item> \<open>Planner\<close>, \<open>PlanSpec\<close>, \<open>PlanPush\<close> (\<open>query/src/plan.rs\<close>): access-path selection and filter pushdown. The locale
    \<open>table_snapshot\<close> states what the planner relies on of a catalog snapshot; under it a plan fetches the
    rows the plain scan would keep, in the same order.
  \<^item> \<open>EdbCursor\<close>, \<open>PageSpec\<close> (\<open>edb/src/cursor.rs\<close>, \<open>result.rs\<close>): keyset pagination; walking the pages of a
    query visits every row once.
  \<^item> \<open>CatStore\<close> (\<open>catalog/src/store.rs\<close> and the row helpers of \<open>job.rs\<close>), \<open>CatSnap\<close> (\<open>catalog/src/db.rs\<close>): catalog keys and
    records, building and transforming rows, and the reads of a snapshot. \<open>CatReader\<close> gives the locale
    \<open>tree_reader\<close>, what a snapshot needs of the trees, with its interpretation on the pager's trees;
    \<open>CatImage\<close> the locale \<open>catalog_image\<close>, a catalog whose trees are linked as its definitions say, which is a
    \<open>table_snapshot\<close> by \<open>sublocale\<close>; \<open>CatSpec\<close> shows that the integrity check accepts exactly the linked
    images, and that planning preserves query results over them.
  \<^item> \<open>CatJob\<close>, \<open>CatRows\<close>, \<open>CatWrite\<close> (\<open>catalog/src/job.rs\<close>, \<open>policy.rs\<close>): every catalog write as a job on a write context,
    known by its operations \<open>ctx_ops\<close>: definition changes, inserts, updates, deletes and batches, with their
    validation, index maintenance and the referential closure of a change.
  \<^item> \<open>CatForest\<close>: the locale \<open>tree_store\<close>, what a job needs of a write context, interpreted on the context of the
    transaction layer. \<open>CatIndexes\<close>, \<open>CatRun\<close>, \<open>CatEdit\<close>, \<open>CatBands\<close>, \<open>CatInsert\<close>, \<open>CatDefs\<close>: a calculus of steps that keep
    the trees they do not change, the abstract database \<open>db_at\<close> a catalog stands for, and what single row
    changes, scans of the catalog, inserts and definition changes do to it. \<open>CatJobSpec\<close> states this for a
    database on pages: an insert, the creation and the removal of a table are refused or change the
    database exactly as asked, with every index in step. \<open>CatDelete\<close>, \<open>CatErase\<close> and \<open>CatCascade\<close> follow the referential
    closure of a delete: planning it ends, the plan removes stored rows or sets cells of stored rows to \<open>NULL\<close>, and
    applying it changes the database as planned. \<open>CatDeleteSpec\<close> states this for both delete jobs on pages: the
    selected rows are gone, and nothing else but what cascades from them. \<open>CatFindings\<close> shows where updates and foreign keys do
    not do what their comments say.

  \<^bold>\<open>Interaction.\<close> The writer applies jobs to a write context; a job calls the tree operations, which call the
  pager through \<open>page_ops\<close>, which calls the store through \<open>io_ops\<close>. Readers share the pager and the registry
  with the writer. The locks of the code make each method of the registry and each operation of the
  pager one step; \<open>db_reach\<close> interleaves readers and batches in any order.

  \<^bold>\<open>Budgets.\<close> The recursion of the tree operations and of the cursors follows page references, so its depth
  is a budget \<open>n\<close>, with the error \<open>None\<close> when it is exhausted. Every correctness theorem shows that a budget
  beyond the height of the tree is enough (\<open>Suc h\<close>, for cursors \<open>h + 2\<close>), and \<open>BTreeFuel\<close> that a larger one
  changes nothing; a scan takes \<open>|f| + 1\<close> steps and a page enumeration one step per page. Operations are
  shown to succeed while the store has room for the pages they write: \<open>room\<close> counts free pages up to
  \<open>PAGE_LIMIT\<close>, \<open>2 ^ 52 - 1\<close> pages, beyond which byte offsets leave 64 bits, and \<open>ops_cost\<close> bounds the pages
  of a batch. Loops over the free list and over cache entries terminate outright. For the catalog's jobs
  the number in \<open>ctx_trees\<close> and \<open>holds_db\<close> counts the tree changes a context is sure to have budget and room
  for; \<open>create_budget\<close>, \<open>insert_budget\<close> and \<open>db_budget\<close> are what the jobs spend. The loop that plans a
  referential closure has a step budget of its own: \<open>delete_bound\<close>, two steps per row and one per cell, is
  enough for every delete, while an update can plan for ever (\<open>CatFindings\<close>).

  \<^bold>\<open>What is not modelled.\<close> The write half of the query engine with its request dispatch, the wire decoding of
  requests, the rendering of \<open>EXPLAIN\<close>, the embedding handle and the command line are not modelled. The
  updates of the catalog are modelled, but no statement of their effect on the whole database is
  proved; that a delete leaves no dangling reference is not claimed, since the code can miss a child row
  (\<open>CatFindings\<close>). \<open>RealFileBackend\<close> and the system
  clock call the operating system: they are instances of the parameters. Threads, channels and mutexes
  are represented by atomic steps and their interleaving, not as objects; display strings of errors are
  left out.
\<close>

end
